(* ===== verification/Prelude.thy ===== *)
theory Prelude
  imports Complex_Main
begin

text \<open>
  Shared vocabulary of the development: clock values, Python dictionaries with their
  insertion order, deques, results of code that may raise, and the generic lemmas the
  component theories rest on.

  \<^item> Clock readings (\<^verbatim>\<open>time.monotonic()\<close>, \<^verbatim>\<open>time.time()\<close>, aware datetimes as seconds)
    are of type \<open>rat\<close>: every finite float is a rational. Rounding of float arithmetic is
    not modelled.
  \<^item> A dictionary is an association list in insertion order, as CPython keeps it:
    \<open>dict_set\<close> replaces in place or appends, \<open>dict_pop\<close> removes, \<open>dict_get\<close> is
    \<^verbatim>\<open>d.get(k)\<close>. \<open>dict_ok\<close> says that no key occurs twice.
  \<^item> A deque is a list, oldest entry first. \<open>popleft_while\<close> is the loop
    \<^verbatim>\<open>while bucket and bucket[0] <= cutoff: bucket.popleft()\<close>.
\<close>

type_synonym time = rat
type_synonym ('k, 'v) pydict = "('k \<times> 'v) list"

named_theorems dict_simps \<open>evaluation and update laws of Python dictionaries\<close>

section \<open>Dictionaries\<close>

definition dict_get :: "('k, 'v) pydict \<Rightarrow> 'k \<Rightarrow> 'v option" where
  "dict_get d k = map_of d k"

fun dict_set :: "'k \<Rightarrow> 'v \<Rightarrow> ('k, 'v) pydict \<Rightarrow> ('k, 'v) pydict" where
  "dict_set k v [] = [(k, v)]"
| "dict_set k v (p # d) = (if fst p = k then (k, v) # d else p # dict_set k v d)"

definition dict_pop :: "'k \<Rightarrow> ('k, 'v) pydict \<Rightarrow> ('k, 'v) pydict" where
  "dict_pop k d = filter (\<lambda>p. fst p \<noteq> k) d"

definition dict_keys :: "('k, 'v) pydict \<Rightarrow> 'k list" where
  "dict_keys d = map fst d"

definition dict_values :: "('k, 'v) pydict \<Rightarrow> 'v list" where
  "dict_values d = map snd d"

definition dict_has :: "('k, 'v) pydict \<Rightarrow> 'k \<Rightarrow> bool" where
  "dict_has d k = (dict_get d k \<noteq> None)"

definition dict_get_or :: "('k, 'v) pydict \<Rightarrow> 'k \<Rightarrow> 'v \<Rightarrow> 'v" where
  "dict_get_or d k v = (case dict_get d k of None \<Rightarrow> v | Some w \<Rightarrow> w)"

definition dict_ok :: "('k, 'v) pydict \<Rightarrow> bool" where
  "dict_ok d = distinct (map fst d)"

definition popleft_while :: "time \<Rightarrow> time list \<Rightarrow> time list" where
  "popleft_while cutoff b = dropWhile (\<lambda>t. t \<le> cutoff) b"

text \<open>\<^verbatim>\<open>deque(maxlen=n).append\<close>: keep the newest \<open>n\<close> entries.\<close>

definition append_maxlen :: "nat \<Rightarrow> 'a list \<Rightarrow> 'a \<Rightarrow> 'a list" where
  "append_maxlen n b x = (let b' = b @ [x] in drop (length b' - n) b')"

section \<open>The contract of a keyed store\<close>

text \<open>
  What the clients of a dictionary rely on, whatever its representation: reading after a
  write or a removal, and that the writes keep the representation invariant.
\<close>

locale keyed_store =
  fixes get :: "'d \<Rightarrow> 'k \<Rightarrow> 'v option"
    and put :: "'k \<Rightarrow> 'v \<Rightarrow> 'd \<Rightarrow> 'd"
    and pop :: "'k \<Rightarrow> 'd \<Rightarrow> 'd"
    and keys :: "'d \<Rightarrow> 'k list"
    and ok :: "'d \<Rightarrow> bool"
  assumes get_put: "get (put k v d) k' = (if k' = k then Some v else get d k')"
    and get_pop: "get (pop k d) k' = (if k' = k then None else get d k')"
    and keys_get: "k \<in> set (keys d) \<longleftrightarrow> get d k \<noteq> None"
    and ok_put: "ok d \<Longrightarrow> ok (put k v d)"
    and ok_pop: "ok d \<Longrightarrow> ok (pop k d)"
    and ok_keys: "ok d \<Longrightarrow> distinct (keys d)"
begin

lemma get_put_same: "get (put k v d) k = Some v"
  by (simp add: get_put)

lemma get_put_other: "k' \<noteq> k \<Longrightarrow> get (put k v d) k' = get d k'"
  by (simp add: get_put)

lemma keys_put: "set (keys (put k v d)) = insert k (set (keys d))"
proof (rule set_eqI)
  fix x
  show "x \<in> set (keys (put k v d)) \<longleftrightarrow> x \<in> insert k (set (keys d))"
    by (simp add: keys_get get_put)
qed

lemma keys_pop: "set (keys (pop k d)) = set (keys d) - {k}"
proof (rule set_eqI)
  fix x
  show "x \<in> set (keys (pop k d)) \<longleftrightarrow> x \<in> set (keys d) - {k}"
    by (auto simp: keys_get get_pop)
qed

lemma size_put:
  assumes "ok d"
  shows "length (keys (put k v d)) = (if get d k = None then Suc (length (keys d)) else length (keys d))"
proof -
  have eq: "length (keys e) = card (set (keys e))" if "ok e" for e
    using ok_keys[OF that] by (simp add: distinct_card)
  have "length (keys (put k v d)) = card (insert k (set (keys d)))"
    using eq[OF ok_put[OF assms]] keys_put by simp
  also have "\<dots> = (if get d k = None then Suc (card (set (keys d))) else card (set (keys d)))"
    using keys_get[of k d] by (simp add: insert_absorb)
  finally show ?thesis
    using eq[OF assms] by simp
qed

lemma size_pop:
  assumes "ok d"
  shows "length (keys (pop k d)) = (if get d k = None then length (keys d) else length (keys d) - 1)"
proof -
  have eq: "length (keys e) = card (set (keys e))" if "ok e" for e
    using ok_keys[OF that] by (simp add: distinct_card)
  have "length (keys (pop k d)) = card (set (keys d) - {k})"
    using eq[OF ok_pop[OF assms]] keys_pop by simp
  also have "\<dots> = (if get d k = None then card (set (keys d)) else card (set (keys d)) - 1)"
    using keys_get[of k d] by (simp add: card_Diff_singleton)
  finally show ?thesis
    using eq[OF assms] by simp
qed

end

lemma map_of_dict_set: "map_of (dict_set k v d) k' = (if k' = k then Some v else map_of d k')"
  by (induction d) auto

lemma map_of_dict_pop: "map_of (dict_pop k d) k' = (if k' = k then None else map_of d k')"
  by (induction d) (auto simp: dict_pop_def)

lemma set_fst_dict_set: "fst ` set (dict_set k v d) = insert k (fst ` set d)"
  by (induction d) auto

lemma dict_ok_set [simp]: "dict_ok d \<Longrightarrow> dict_ok (dict_set k v d)"
  by (induction d) (auto simp: dict_ok_def set_fst_dict_set image_iff)

lemma dict_ok_filter [simp]: "dict_ok d \<Longrightarrow> dict_ok (filter P d)"
  by (simp add: dict_ok_def distinct_map_filter)

lemma dict_ok_pop [simp]: "dict_ok d \<Longrightarrow> dict_ok (dict_pop k d)"
  by (simp add: dict_pop_def)

lemma dict_ok_Nil [simp]: "dict_ok []"
  by (simp add: dict_ok_def)

interpretation pyd: keyed_store dict_get dict_set dict_pop dict_keys dict_ok
proof (unfold_locales, goal_cases)
  case (1 k v d k')
  show ?case by (simp add: dict_get_def map_of_dict_set)
next
  case (2 k d k')
  show ?case by (simp add: dict_get_def map_of_dict_pop)
next
  case (3 k d)
  show ?case by (simp add: dict_keys_def dict_get_def map_of_eq_None_iff)
next
  case (4 d k v)
  then show ?case by simp
next
  case (5 d k)
  then show ?case by simp
next
  case (6 d)
  then show ?case by (simp add: dict_ok_def dict_keys_def)
qed

lemmas dict_get_set [simp] = pyd.get_put
lemmas dict_get_pop [simp] = pyd.get_pop

declare dict_get_set [dict_simps] dict_get_pop [dict_simps]

lemma dict_get_Nil [simp, dict_simps]: "dict_get [] k = None"
  by (simp add: dict_get_def)

lemma dict_get_Cons [dict_simps]: "dict_get (p # d) k = (if fst p = k then Some (snd p) else dict_get d k)"
  by (cases p) (auto simp: dict_get_def)

lemma dict_get_filter:
  "dict_ok d \<Longrightarrow> dict_get (filter P d) k =
     (case dict_get d k of None \<Rightarrow> None | Some v \<Rightarrow> if P (k, v) then Some v else None)"
proof (induction d)
  case Nil
  then show ?case by simp
next
  case (Cons p d)
  obtain a b where p: "p = (a, b)" by (cases p)
  have IH: "dict_get (filter P d) k =
      (case dict_get d k of None \<Rightarrow> None | Some v \<Rightarrow> if P (k, v) then Some v else None)"
    and a: "dict_get d a = None"
    using Cons p by (auto simp: dict_ok_def dict_get_def map_of_eq_None_iff)
  show ?case
    using IH a p by (auto simp: dict_get_Cons)
qed

lemma dict_get_mem: "dict_ok d \<Longrightarrow> dict_get d k = Some v \<longleftrightarrow> (k, v) \<in> set d"
  by (simp add: dict_get_def dict_ok_def)

lemma dict_get_SomeD: "dict_get d k = Some v \<Longrightarrow> (k, v) \<in> set d"
  by (simp add: dict_get_def map_of_SomeD)

lemma dict_get_None_iff: "dict_get d k = None \<longleftrightarrow> k \<notin> fst ` set d"
  by (simp add: dict_get_def map_of_eq_None_iff)

lemma fold_dict_pop: "fold dict_pop ks d = filter (\<lambda>p. fst p \<notin> set ks) d"
proof (induction ks arbitrary: d)
  case Nil
  then show ?case by simp
next
  case (Cons k ks)
  show ?case
    using Cons.IH[of "dict_pop k d"] by (simp add: dict_pop_def conj_commute)
qed

lemma dict_set_subset: "set (dict_set k v d) \<subseteq> insert (k, v) (set d)"
  by (induction d) auto

lemma length_dict_set:
  "dict_ok d \<Longrightarrow> length (dict_set k v d) = (if dict_get d k = None then Suc (length d) else length d)"
  using pyd.size_put[of d k v] by (simp add: dict_keys_def)

lemma length_dict_pop:
  "dict_ok d \<Longrightarrow> length (dict_pop k d) = (if dict_get d k = None then length d else length d - 1)"
  using pyd.size_pop[of d k] by (simp add: dict_keys_def)

section \<open>Deques of clock readings\<close>

lemma popleft_while_sorted:
  "sorted b \<Longrightarrow> popleft_while c b = filter (\<lambda>t. c < t) b"
proof (induction b)
  case Nil
  then show ?case by (simp add: popleft_while_def)
next
  case (Cons t b)
  show ?case
  proof (cases "t \<le> c")
    case True
    then show ?thesis using Cons by (simp add: popleft_while_def)
  next
    case False
    have "filter (\<lambda>t. c < t) b = b"
      using Cons.prems False by (auto intro!: filter_True)
    then show ?thesis using False by (simp add: popleft_while_def)
  qed
qed

lemma sorted_popleft_while [simp]: "sorted b \<Longrightarrow> sorted (popleft_while c b)"
  by (simp add: popleft_while_sorted sorted_wrt_filter)

lemma length_popleft_while: "length (popleft_while c b) \<le> length b"
  by (simp add: popleft_while_def length_dropWhile_le)

lemma set_popleft_while: "set (popleft_while c b) \<subseteq> set b"
  by (auto simp: popleft_while_def dest: set_dropWhileD)

lemma sorted_last: "sorted xs \<Longrightarrow> x \<in> set xs \<Longrightarrow> x \<le> last xs"
  by (induction xs) auto

lemma filter_gt_mono:
  fixes c c' :: "'a::linorder"
  assumes "c \<le> c'"
  shows "filter (\<lambda>t. c' < t) (filter (\<lambda>t. c < t) b) = filter (\<lambda>t. c' < t) b"
  using assms by (induction b) auto

lemma length_filter_mono:
  assumes "\<And>x. x \<in> set xs \<Longrightarrow> P x \<Longrightarrow> Q x"
  shows "length (filter P xs) \<le> length (filter Q xs)"
  using assms by (induction xs) auto

lemma length_append_maxlen: "length (append_maxlen n b x) = min n (Suc (length b))"
  by (simp add: append_maxlen_def Let_def)

lemma set_append_maxlen: "set (append_maxlen n b x) \<subseteq> insert x (set b)"
  by (auto simp: append_maxlen_def Let_def dest: in_set_dropD)

section \<open>Code that may raise\<close>

text \<open>\<^verbatim>\<open>raise\<close> propagates: the next step runs only on a value.\<close>

definition andthen :: "'e + 'a \<Rightarrow> ('a \<Rightarrow> 'e + 'b) \<Rightarrow> 'e + 'b" where
  "andthen r f = (case r of Inl e \<Rightarrow> Inl e | Inr a \<Rightarrow> f a)"

lemma andthen_Inr [simp]: "andthen r f = Inr b \<longleftrightarrow> (\<exists>a. r = Inr a \<and> f a = Inr b)"
  by (simp add: andthen_def split: sum.split)

section \<open>Runs of operations\<close>

text \<open>
  A component with state is driven by a sequence of operations; an invariant that every
  operation keeps holds after any run.
\<close>

definition run_ops :: "('o \<Rightarrow> 's \<Rightarrow> 's) \<Rightarrow> 'o list \<Rightarrow> 's \<Rightarrow> 's" where
  "run_ops step ops s = fold step ops s"

lemma run_ops_simps [simp]:
  "run_ops step [] s = s"
  "run_ops step (x # xs) s = run_ops step xs (step x s)"
  by (simp_all add: run_ops_def)

locale stateful =
  fixes step :: "'o \<Rightarrow> 's \<Rightarrow> 's"
    and inv :: "'s \<Rightarrow> bool"
  assumes step_inv: "inv s \<Longrightarrow> inv (step x s)"
begin

lemma run_inv: "inv s \<Longrightarrow> inv (run_ops step xs s)"
  by (induction xs arbitrary: s) (auto intro: step_inv)

end

end
