(* ===== verification/Rate_Limiter.thy ===== *)
theory Rate_Limiter
  imports Prelude
begin

text \<open>
  The in-memory limiter \<^verbatim>\<open>SlidingWindowRateLimiter\<close> of \<^verbatim>\<open>src/app/security.py\<close>.

  The state record has the object's attributes; \<^verbatim>\<open>math.inf\<close> of \<open>_next_expiry\<close> is
  \<open>None\<close>. Each method takes the reading of \<^verbatim>\<open>time.monotonic()\<close> it makes as an argument and
  returns the new object; the lock makes each method one step, in the order of the lock.
  \<open>allow\<close> reads the clock before it takes the lock, so the readings of successive steps are
  arbitrary arguments and need not be sorted. \<open>allow\<close> may raise
  \<^verbatim>\<open>ValueError\<close> on a bad budget, and \<^verbatim>\<open>math.ceil(math.inf)\<close> would raise
  \<^verbatim>\<open>OverflowError\<close>, which the invariant excludes.

  A policy gives each key its budget and its window. Under a policy the limiter never
  accepts more than the budget in any window (shortened by the longest wait for the lock), never tracks more than its capacity of keys,
  and the wait it reports is long enough.
\<close>

datatype limiter_error = RL_ValueError | RL_OverflowError

record limiter =
  rl_max_keys :: int
  rl_cleanup_interval :: time
  rl_events :: "(string, time list) pydict"
  rl_expires_at :: "(string, time) pydict"
  rl_next_cleanup :: time
  rl_next_expiry :: "time option"

definition limiter_init :: "int \<Rightarrow> time \<Rightarrow> limiter_error + limiter" where
  "limiter_init max_keys interval =
     (if max_keys \<le> 0 \<or> interval \<le> 0 then Inl RL_ValueError
      else Inr \<lparr>rl_max_keys = max_keys, rl_cleanup_interval = interval, rl_events = [],
                rl_expires_at = [], rl_next_cleanup = 0, rl_next_expiry = None\<rparr>)"

definition min_default_inf :: "time list \<Rightarrow> time option" where
  "min_default_inf xs = (if xs = [] then None else Some (min_list xs))"

definition rl_cleanup :: "time \<Rightarrow> limiter \<Rightarrow> limiter" where
  "rl_cleanup now s =
     (let expired = map fst (filter (\<lambda>p. snd p \<le> now) (rl_expires_at s));
          s = s\<lparr>rl_events := fold dict_pop expired (rl_events s),
                rl_expires_at := fold dict_pop expired (rl_expires_at s)\<rparr>
      in s\<lparr>rl_next_expiry := min_default_inf (dict_values (rl_expires_at s)),
           rl_next_cleanup := now + rl_cleanup_interval s\<rparr>)"

definition min_expiry :: "time option \<Rightarrow> time \<Rightarrow> time" where
  "min_expiry m e = (case m of None \<Rightarrow> e | Some x \<Rightarrow> min x e)"

text \<open>The second half of \<^verbatim>\<open>allow\<close>, once the bucket of the key is known.\<close>

definition rl_admit ::
    "string \<Rightarrow> int \<Rightarrow> int \<Rightarrow> time \<Rightarrow> time list \<Rightarrow> limiter \<Rightarrow> (limiter_error + bool \<times> int) \<times> limiter" where
  "rl_admit key max_attempts window_seconds now bucket s =
     (let cutoff = now - of_int window_seconds;
          bucket = popleft_while cutoff bucket;
          expiry = (if bucket = [] then now else last bucket) + of_int window_seconds;
          e = max (dict_get_or (rl_expires_at s) key 0) expiry;
          s = s\<lparr>rl_expires_at := dict_set key e (rl_expires_at s),
                rl_next_expiry := Some (min_expiry (rl_next_expiry s) e)\<rparr>
      in if int (length bucket) \<ge> max_attempts
         then (Inr (False, max 1 \<lceil>of_int window_seconds - (now - hd bucket)\<rceil>),
               s\<lparr>rl_events := dict_set key bucket (rl_events s)\<rparr>)
         else (Inr (True, 0),
               s\<lparr>rl_events := dict_set key (bucket @ [now]) (rl_events s),
                 rl_expires_at := dict_set key (max e (now + of_int window_seconds)) (rl_expires_at s)\<rparr>))"

definition rl_allow ::
    "string \<Rightarrow> int \<Rightarrow> int \<Rightarrow> time \<Rightarrow> limiter \<Rightarrow> (limiter_error + bool \<times> int) \<times> limiter" where
  "rl_allow key max_attempts window_seconds now s =
     (if max_attempts \<le> 0 \<or> window_seconds \<le> 0 then (Inl RL_ValueError, s)
      else
        let s = (if rl_next_cleanup s \<le> now then rl_cleanup now s else s)
        in case dict_get (rl_events s) key of
             Some bucket \<Rightarrow> rl_admit key max_attempts window_seconds now bucket s
           | None \<Rightarrow>
               let due = (case rl_next_expiry s of None \<Rightarrow> False | Some e \<Rightarrow> e \<le> now);
                   s = (if int (length (rl_events s)) \<ge> rl_max_keys s \<and> due then rl_cleanup now s else s)
               in if int (length (rl_events s)) \<ge> rl_max_keys s
                  then (case rl_next_expiry s of
                          None \<Rightarrow> (Inl RL_OverflowError, s)
                        | Some e \<Rightarrow> (Inr (False, max 1 \<lceil>e - now\<rceil>), s))
                  else rl_admit key max_attempts window_seconds now []
                         (s\<lparr>rl_events := dict_set key [] (rl_events s)\<rparr>))"

definition rl_reset :: "string \<Rightarrow> limiter \<Rightarrow> limiter" where
  "rl_reset key s = s\<lparr>rl_events := dict_pop key (rl_events s),
                      rl_expires_at := dict_pop key (rl_expires_at s)\<rparr>"

definition rl_refund :: "string \<Rightarrow> limiter \<Rightarrow> limiter" where
  "rl_refund key s =
     (case dict_get (rl_events s) key of
        None \<Rightarrow> s
      | Some bucket \<Rightarrow>
          if bucket = [] then s
          else let bucket = butlast bucket
               in if bucket = [] then rl_reset key s
                  else s\<lparr>rl_events := dict_set key bucket (rl_events s)\<rparr>)"

text \<open>
  A policy assigns each key its budget and window, as the callers do (one window per
  deployment, one maximum per kind of key). \<open>live\<close> reads the accepted requests of a key
  after a point in time.
\<close>

type_synonym policy = "string \<Rightarrow> int \<times> int"

abbreviation budget :: "policy \<Rightarrow> string \<Rightarrow> int" where
  "budget P k \<equiv> fst (P k)"

abbreviation window :: "policy \<Rightarrow> string \<Rightarrow> time" where
  "window P k \<equiv> of_int (snd (P k))"

definition rl_live :: "limiter \<Rightarrow> string \<Rightarrow> time \<Rightarrow> time list" where
  "rl_live s k c = filter (\<lambda>t. c < t) (dict_get_or (rl_events s) k [])"

definition rl_call :: "policy \<Rightarrow> limiter \<Rightarrow> string \<Rightarrow> time \<Rightarrow> bool \<times> limiter" where
  "rl_call P s k now =
     (case rl_allow k (budget P k) (snd (P k)) now s of
        (Inr (allowed, retry), s') \<Rightarrow> (allowed, s')
      | (Inl e, s') \<Rightarrow> (False, s'))"

definition bucket_ok :: "policy \<Rightarrow> time \<Rightarrow> limiter \<Rightarrow> string \<Rightarrow> time list \<Rightarrow> bool" where
  "bucket_ok P now s k b \<longleftrightarrow>
     sorted b \<and> b \<noteq> [] \<and> int (length b) \<le> budget P k \<and> (\<forall>t\<in>set b. t \<le> now) \<and>
     (\<exists>e. dict_get (rl_expires_at s) k = Some e \<and> (\<forall>t\<in>set b. t + window P k \<le> e))"

definition limiter_inv :: "policy \<Rightarrow> time \<Rightarrow> limiter \<Rightarrow> bool" where
  "limiter_inv P now s \<longleftrightarrow>
     (\<forall>k. 0 < budget P k \<and> 0 < snd (P k)) \<and>
     0 < rl_max_keys s \<and> int (length (rl_events s)) \<le> rl_max_keys s \<and>
     dict_ok (rl_events s) \<and> dict_ok (rl_expires_at s) \<and>
     (\<forall>k. dict_get (rl_expires_at s) k = None \<longleftrightarrow> dict_get (rl_events s) k = None) \<and>
     (\<forall>k b. dict_get (rl_events s) k = Some b \<longrightarrow> bucket_ok P now s k b) \<and>
     (\<forall>k e. dict_get (rl_expires_at s) k = Some e \<longrightarrow>
        (\<exists>n. rl_next_expiry s = Some n \<and> n \<le> e))"

text \<open>
  What holds when \<open>allow\<close> reaches the bucket \<open>b\<close> of key \<open>k\<close>: the invariant, except that a
  new bucket is still empty and has no expiry yet.
\<close>

definition admit_pre :: "policy \<Rightarrow> time \<Rightarrow> limiter \<Rightarrow> string \<Rightarrow> time list \<Rightarrow> bool" where
  "admit_pre P now s k b \<longleftrightarrow>
     (\<forall>k. 0 < budget P k \<and> 0 < snd (P k)) \<and>
     0 < rl_max_keys s \<and> int (length (rl_events s)) \<le> rl_max_keys s \<and>
     dict_ok (rl_events s) \<and> dict_ok (rl_expires_at s) \<and>
     dict_get (rl_events s) k = Some b \<and> sorted b \<and> int (length b) \<le> budget P k \<and>
     (\<forall>t\<in>set b. t \<le> now) \<and>
     (\<forall>t\<in>set b. \<exists>e. dict_get (rl_expires_at s) k = Some e \<and> t + window P k \<le> e) \<and>
     (\<forall>k'. k' \<noteq> k \<longrightarrow> (dict_get (rl_expires_at s) k' = None \<longleftrightarrow> dict_get (rl_events s) k' = None)) \<and>
     (\<forall>k' b. k' \<noteq> k \<longrightarrow> dict_get (rl_events s) k' = Some b \<longrightarrow> bucket_ok P now s k' b) \<and>
     (\<forall>k e. dict_get (rl_expires_at s) k = Some e \<longrightarrow>
        (\<exists>n. rl_next_expiry s = Some n \<and> n \<le> e))"

text \<open>The accepted requests of one key over a run of calls, in call order.\<close>

fun accepted_times ::
    "('s \<Rightarrow> string \<Rightarrow> time \<Rightarrow> bool \<times> 's) \<Rightarrow> string \<Rightarrow> 's \<Rightarrow> (string \<times> time) list \<Rightarrow> time list" where
  "accepted_times call k s [] = []"
| "accepted_times call k s ((k', now) # cs) =
     (let (ok, s') = call s k' now
      in (if ok \<and> k' = k then [now] else []) @ accepted_times call k s' cs)"

definition in_window :: "time \<Rightarrow> time \<Rightarrow> time list \<Rightarrow> nat" where
  "in_window c w ts = length (filter (\<lambda>t. c < t \<and> t \<le> c + w) ts)"

section \<open>The contract of a sliding-window limiter\<close>

text \<open>
  What a caller relies on: a request is accepted only while fewer than the budget of
  accepted requests lie in the window that ends now, and each call records exactly its own
  acceptance. From this alone no window of time ever holds more accepted requests than the
  budget.
\<close>

locale sliding_window =
  fixes call :: "'s \<Rightarrow> string \<Rightarrow> time \<Rightarrow> bool \<times> 's"
    and live :: "'s \<Rightarrow> string \<Rightarrow> time \<Rightarrow> time list"
    and inv :: "time \<Rightarrow> 's \<Rightarrow> bool"
    and limit :: "string \<Rightarrow> int"
    and win :: "string \<Rightarrow> time"
  assumes inv_call: "inv t0 s \<Longrightarrow> t0 \<le> now \<Longrightarrow> inv now (snd (call s k now))"
    and live_call: "inv t0 s \<Longrightarrow> t0 \<le> now \<Longrightarrow> now - win k' \<le> c \<Longrightarrow>
          live (snd (call s k now)) k' c =
          live s k' c @ (if k = k' \<and> fst (call s k now) \<and> c < now then [now] else [])"
    and within_budget: "inv t0 s \<Longrightarrow> t0 \<le> now \<Longrightarrow> fst (call s k now) \<Longrightarrow>
          int (length (live s k (now - win k))) < limit k"
    and limit_pos: "inv t0 s \<Longrightarrow> 0 < limit k"
begin

text \<open>
  \<open>prior\<close> are the acceptances so far: the state agrees with them on every window that is
  still open, and every new acceptance leaves at most the budget in its window.
\<close>

lemma accepted_bound:
  assumes "inv t0 s" and "sorted (t0 # map snd cs)" and "\<And>t. t \<in> set prior \<Longrightarrow> t \<le> t0"
    and "\<And>c. t0 - win k \<le> c \<Longrightarrow> live s k c = filter (\<lambda>t. c < t) prior"
    and "\<And>c. int (in_window c (win k) prior) \<le> limit k"
  shows "int (in_window c (win k) (prior @ accepted_times call k s cs)) \<le> limit k"
  using assms
proof (induction cs arbitrary: t0 s prior)
  case Nil
  then show ?case by simp
next
  case (Cons kc cs)
  obtain k' now where kc: "kc = (k', now)" by (cases kc)
  obtain ok s' where call: "call s k' now = (ok, s')" by (cases "call s k' now")
  define new where "new = (if k' = k \<and> ok then [now] else [])"
  have t0: "t0 \<le> now" and srt: "sorted (now # map snd cs)"
    using Cons.prems(2) kc by auto
  have inv': "inv now s'"
    using inv_call[OF Cons.prems(1) t0, of k'] call by simp
  have prior_le: "t \<le> now" if "t \<in> set (prior @ new)" for t
    using that Cons.prems(3)[of t] t0 by (auto simp: new_def split: if_splits)
  have live': "live s' k c = filter (\<lambda>t. c < t) (prior @ new)" if "now - win k \<le> c" for c
    using live_call[OF Cons.prems(1) t0 that, of k'] Cons.prems(4)[of c] that t0 call
    by (auto simp: new_def)
  have bound': "int (in_window c (win k) (prior @ new)) \<le> limit k" for c
  proof (cases "new = [] \<or> \<not> (c < now \<and> now \<le> c + win k)")
    case True
    then show ?thesis
      using Cons.prems(5)[of c] by (auto simp: in_window_def new_def split: if_splits)
  next
    case False
    then have k': "k' = k" "ok" and c: "c < now" "now \<le> c + win k" and new: "new = [now]"
      by (auto simp: new_def split: if_splits)
    have "length (filter (\<lambda>t. c < t \<and> t \<le> c + win k) prior)
            \<le> length (filter (\<lambda>t. now - win k < t) prior)"
      using c by (intro length_filter_mono) auto
    moreover have "filter (\<lambda>t. now - win k < t) prior = live s k (now - win k)"
      using Cons.prems(4)[of "now - win k"] t0 by simp
    moreover have "int (length (live s k (now - win k))) < limit k"
      using within_budget[OF Cons.prems(1) t0, of k] call k' by simp
    ultimately show ?thesis
      using c new by (simp add: in_window_def)
  qed
  have "int (in_window c (win k) ((prior @ new) @ accepted_times call k s' cs)) \<le> limit k"
    using Cons.IH[OF inv' srt prior_le live' bound'] .
  then show ?case
    using kc call by (auto simp: new_def split: if_splits)
qed

lemma accepted_window_bound:
  assumes "inv t0 s" and "sorted (t0 # map snd cs)" and "\<And>c. live s k c = []"
  shows "int (in_window c (win k) (accepted_times call k s cs)) \<le> limit k"
  using accepted_bound[OF assms(1,2), of "[]" k c] assms(3) limit_pos[OF assms(1), of k]
  by (simp add: in_window_def)

end

section \<open>The invariant\<close>

lemma min_default_inf_le: "x \<in> set xs \<Longrightarrow> \<exists>n. min_default_inf xs = Some n \<and> n \<le> x"
  by (auto simp: min_default_inf_def min_list_Min)

lemma rl_cleanup_events:
  "rl_events (rl_cleanup now s) =
     filter (\<lambda>p. fst p \<notin> fst ` {p \<in> set (rl_expires_at s). snd p \<le> now}) (rl_events s)"
  by (simp add: rl_cleanup_def Let_def fold_dict_pop)

lemma rl_cleanup_expires_at:
  "rl_expires_at (rl_cleanup now s) =
     filter (\<lambda>p. fst p \<notin> fst ` {p \<in> set (rl_expires_at s). snd p \<le> now}) (rl_expires_at s)"
  by (simp add: rl_cleanup_def Let_def fold_dict_pop)

lemma rl_cleanup_fields:
  "rl_max_keys (rl_cleanup now s) = rl_max_keys s"
  "rl_next_expiry (rl_cleanup now s) = min_default_inf (dict_values (rl_expires_at (rl_cleanup now s)))"
  by (simp_all add: rl_cleanup_def Let_def)

lemma expired_iff:
  assumes "dict_ok d"
  shows "k \<in> fst ` {p \<in> set d. snd p \<le> now} \<longleftrightarrow> (\<exists>e. dict_get d k = Some e \<and> e \<le> now)"
  using assms by (force simp: dict_get_mem)

lemma rl_cleanup_get:
  assumes "dict_ok (rl_expires_at s)" and "dict_ok (rl_events s)"
  shows "dict_get (rl_events (rl_cleanup now s)) k =
           (if \<exists>e. dict_get (rl_expires_at s) k = Some e \<and> e \<le> now then None else dict_get (rl_events s) k)"
    and "dict_get (rl_expires_at (rl_cleanup now s)) k =
           (if \<exists>e. dict_get (rl_expires_at s) k = Some e \<and> e \<le> now then None else dict_get (rl_expires_at s) k)"
  using assms by (auto simp: rl_cleanup_events rl_cleanup_expires_at dict_get_filter expired_iff
      split: option.splits)

lemma rl_cleanup_shrinks:
  assumes "dict_ok (rl_expires_at s)" and "dict_ok (rl_events s)"
    and "dict_get (rl_events s) k \<noteq> None" and "dict_get (rl_events (rl_cleanup now s)) k = None"
  shows "length (rl_events (rl_cleanup now s)) < length (rl_events s)"
proof -
  obtain b where b: "(k, b) \<in> set (rl_events s)"
    using assms(3) by (auto dest: dict_get_SomeD)
  have "k \<in> fst ` {p \<in> set (rl_expires_at s). snd p \<le> now}"
    using assms by (auto simp: expired_iff rl_cleanup_get split: if_splits)
  then show ?thesis
    unfolding rl_cleanup_events by (intro length_filter_less[OF b]) simp
qed

lemma rl_cleanup_inv:
  assumes "limiter_inv P now s"
  shows "limiter_inv P now (rl_cleanup now s)"
proof -
  have ok: "dict_ok (rl_expires_at s)" "dict_ok (rl_events s)"
    using assms by (auto simp: limiter_inv_def)
  note get = rl_cleanup_get[OF ok]
  have next_min: "\<exists>n. rl_next_expiry (rl_cleanup now s) = Some n \<and> n \<le> e"
    if "dict_get (rl_expires_at (rl_cleanup now s)) k = Some e" for k e
    using that unfolding rl_cleanup_fields
    by (intro min_default_inf_le) (force simp: dict_values_def dest: dict_get_SomeD)
  have "length (rl_events (rl_cleanup now s)) \<le> length (rl_events s)"
    by (simp add: rl_cleanup_events)
  then show ?thesis
    using assms next_min
    by (auto simp: limiter_inv_def bucket_ok_def get rl_cleanup_fields split: if_splits)
      (auto simp: rl_cleanup_events rl_cleanup_expires_at)
qed

lemma bucket_ok_later: "bucket_ok P t0 s k b \<Longrightarrow> t0 \<le> now \<Longrightarrow> bucket_ok P now s k b"
  by (auto simp: bucket_ok_def intro: order_trans)

lemma limiter_inv_later: "limiter_inv P t0 s \<Longrightarrow> t0 \<le> now \<Longrightarrow> limiter_inv P now s"
  by (simp add: limiter_inv_def) (blast intro: bucket_ok_later)

lemma limiter_invD:
  assumes "limiter_inv P now s"
  shows "0 < budget P k" "0 < snd (P k)" "0 < rl_max_keys s"
    "int (length (rl_events s)) \<le> rl_max_keys s" "dict_ok (rl_events s)" "dict_ok (rl_expires_at s)"
    "dict_get (rl_expires_at s) k = None \<longleftrightarrow> dict_get (rl_events s) k = None"
    "dict_get (rl_events s) k = Some b \<Longrightarrow> bucket_ok P now s k b"
    "dict_get (rl_expires_at s) k = Some e \<Longrightarrow> \<exists>n. rl_next_expiry s = Some n \<and> n \<le> e"
  using assms by (auto simp: limiter_inv_def)

lemma rl_cleanup_live:
  assumes "limiter_inv P now s" and "now - window P k \<le> c"
  shows "rl_live (rl_cleanup now s) k c = rl_live s k c"
proof -
  have ok: "dict_ok (rl_expires_at s)" "dict_ok (rl_events s)"
    using assms by (auto simp: limiter_inv_def)
  show ?thesis
  proof (cases "\<exists>e. dict_get (rl_expires_at s) k = Some e \<and> e \<le> now")
    case True
    then obtain e where e: "dict_get (rl_expires_at s) k = Some e" "e \<le> now" by blast
    then obtain b where b: "dict_get (rl_events s) k = Some b"
      using limiter_invD(7)[OF assms(1), of k] by auto
    then have "bucket_ok P now s k b"
      by (rule limiter_invD(8)[OF assms(1)])
    then have "t \<le> c" if "t \<in> set b" for t
      using assms(2) e that by (fastforce simp: bucket_ok_def)
    then have "filter (\<lambda>t. c < t) b = []"
      by (auto simp: filter_empty_conv not_less)
    then show ?thesis
      using e b by (auto simp: rl_live_def dict_get_or_def rl_cleanup_get[OF ok])
  next
    case False
    then have "dict_get (rl_events (rl_cleanup now s)) k = dict_get (rl_events s) k"
      by (auto simp: rl_cleanup_get(1)[OF ok])
    then show ?thesis by (simp add: rl_live_def dict_get_or_def)
  qed
qed

lemma admit_pre_known:
  assumes "limiter_inv P now s" and "dict_get (rl_events s) k = Some b"
  shows "admit_pre P now s k b"
  using limiter_invD[OF assms(1)] assms(2) limiter_invD(8)[OF assms, unfolded bucket_ok_def]
  unfolding admit_pre_def by blast

lemma admit_pre_new:
  assumes "limiter_inv P now s" and "dict_get (rl_events s) k = None"
    and "int (length (rl_events s)) < rl_max_keys s"
  shows "admit_pre P now (s\<lparr>rl_events := dict_set k [] (rl_events s)\<rparr>) k []"
  using limiter_invD[OF assms(1)] less_imp_le[OF limiter_invD(1)[OF assms(1), of k]] assms(2,3)
  by (auto simp: admit_pre_def bucket_ok_def length_dict_set)

lemma min_expiry_le: "min_expiry m e \<le> e" "m = Some n \<Longrightarrow> min_expiry m e \<le> n"
  by (auto simp: min_expiry_def split: option.splits)

lemma rl_admit_decision:
  assumes "admit_pre P now s k b"
  shows "fst (rl_admit k (budget P k) (snd (P k)) now b s) =
           (let lv = filter (\<lambda>t. now - window P k < t) b
            in if int (length lv) < budget P k then Inr (True, 0)
               else Inr (False, max 1 \<lceil>window P k - (now - hd lv)\<rceil>))"
  using assms by (simp add: rl_admit_def Let_def admit_pre_def popleft_while_sorted)

lemma rl_admit_live:
  assumes pre: "admit_pre P now s k b" and c: "now - window P k' \<le> c"
    and step: "rl_admit k (budget P k) (snd (P k)) now b s = (Inr (ok, r), s')"
  shows "rl_live s' k' c = rl_live s k' c @ (if k = k' \<and> ok \<and> c < now then [now] else [])"
proof (cases "k' = k")
  case True
  have b: "sorted b" "dict_get (rl_events s) k = Some b"
    using pre by (auto simp: admit_pre_def)
  have "filter (\<lambda>t. c < t) (popleft_while (now - window P k) b) = filter (\<lambda>t. c < t) b"
    using c True b by (simp add: popleft_while_sorted filter_gt_mono del: filter_filter)
  then show ?thesis
    using step b True by (auto simp: rl_admit_def Let_def rl_live_def dict_get_or_def split: if_splits)
next
  case False
  then show ?thesis
    using step by (auto simp: rl_admit_def Let_def rl_live_def dict_get_or_def split: if_splits)
qed

lemma limiter_inv_store:
  assumes "admit_pre P now s k b"
    and "sorted b1" "b1 \<noteq> []" "int (length b1) \<le> budget P k" "\<forall>t\<in>set b1. t \<le> now"
    and "\<forall>t\<in>set b1. t + window P k \<le> e1" "nx \<le> e1"
    and nx: "\<And>n. rl_next_expiry s = Some n \<Longrightarrow> nx \<le> n"
    and d: "\<And>k'. dict_get d k' = (if k' = k then Some e1 else dict_get (rl_expires_at s) k')" "dict_ok d"
    and s': "rl_events s' = dict_set k b1 (rl_events s)" "rl_expires_at s' = d"
      "rl_next_expiry s' = Some nx" "rl_max_keys s' = rl_max_keys s"
  shows "limiter_inv P now s'"
proof -
  have "nx \<le> e" if "dict_get (rl_expires_at s) k' = Some e" for k' e
  proof -
    obtain n where "rl_next_expiry s = Some n" "n \<le> e"
      using assms(1) \<open>dict_get (rl_expires_at s) k' = Some e\<close> unfolding admit_pre_def by blast
    then show ?thesis using nx by (blast intro: order_trans)
  qed
  then show ?thesis
    using assms by (auto simp: limiter_inv_def admit_pre_def bucket_ok_def length_dict_set)
qed

lemma rl_admit_inv:
  assumes pre: "admit_pre P now s k b"
  shows "limiter_inv P now (snd (rl_admit k (budget P k) (snd (P k)) now b s))"
proof -
  define b' where "b' = popleft_while (now - window P k) b"
  define e where "e = max (dict_get_or (rl_expires_at s) k 0) ((if b' = [] then now else last b') + window P k)"
  define nx where "nx = min_expiry (rl_next_expiry s) e"
  have b: "sorted b" "int (length b) \<le> budget P k" "\<forall>t\<in>set b. t \<le> now" "0 < budget P k"
    "dict_ok (rl_expires_at s)" "0 < snd (P k)"
    using pre by (auto simp: admit_pre_def)
  have b': "sorted b'" "\<forall>t\<in>set b'. t \<le> now" "int (length b') \<le> budget P k"
    using b set_popleft_while[of "now - window P k" b] length_popleft_while[of "now - window P k" b]
    by (auto simp: b'_def)
  have e: "\<forall>t\<in>set b'. t + window P k \<le> e"
    using sorted_last[OF b'(1)] by (auto simp: e_def le_max_iff_disj)
  have nx: "nx \<le> e" "\<And>n. rl_next_expiry s = Some n \<Longrightarrow> nx \<le> n"
    using min_expiry_le by (auto simp: nx_def)
  show ?thesis
  proof (cases "int (length b') \<ge> budget P k")
    case True
    then have "b' \<noteq> []"
      using b(4) by auto
    show ?thesis
      by (rule limiter_inv_store[OF pre b'(1) \<open>b' \<noteq> []\<close> b'(3,2) e nx, where d = "dict_set k e (rl_expires_at s)"])
        (use b True in \<open>simp_all add: rl_admit_def Let_def b'_def e_def nx_def\<close>)
  next
    case False
    have b1: "sorted (b' @ [now])" "int (length (b' @ [now])) \<le> budget P k"
        "\<forall>t\<in>set (b' @ [now]). t \<le> now" "\<forall>t\<in>set (b' @ [now]). t + window P k \<le> max e (now + window P k)"
        "nx \<le> max e (now + window P k)"
      using b' e nx(1) False by (auto simp: sorted_append le_max_iff_disj)
    show ?thesis
      by (rule limiter_inv_store[OF pre b1(1) _ b1(2-5) nx(2),
            where d = "dict_set k (max e (now + window P k)) (dict_set k e (rl_expires_at s))"])
        (use b False in \<open>simp_all add: rl_admit_def Let_def b'_def e_def nx_def\<close>)
  qed
qed

section \<open>The whole method\<close>

text \<open>
  The two early parts of \<open>allow\<close> (periodic clean-up, clean-up of a full store) lose no live
  request of any key, so the call is either a refusal of a new key by a full store or an
  admission decision.
\<close>

lemma rl_allow_cases:
  assumes inv: "limiter_inv P now s"
  obtains (full) s' n where "limiter_inv P now s'" "rl_next_expiry s' = Some n"
      "dict_get (rl_events s') k = None" "int (length (rl_events s')) = rl_max_keys s'"
      "\<And>k c. now - window P k \<le> c \<Longrightarrow> rl_live s' k c = rl_live s k c"
      "rl_live s k (now - window P k) = []" "dict_get (rl_events s) k = None"
      "\<And>k e. dict_get (rl_expires_at s') k = Some e \<Longrightarrow> now < e"
      "rl_max_keys s' = rl_max_keys s"
      "rl_allow k (budget P k) (snd (P k)) now s = (Inr (False, max 1 \<lceil>n - now\<rceil>), s')"
  | (admit) s' b where "admit_pre P now s' k b"
      "\<And>k c. now - window P k \<le> c \<Longrightarrow> rl_live s' k c = rl_live s k c"
      "rl_allow k (budget P k) (snd (P k)) now s = rl_admit k (budget P k) (snd (P k)) now b s'"
proof -
  define s1 where "s1 = (if rl_next_cleanup s \<le> now then rl_cleanup now s else s)"
  have i1: "limiter_inv P now s1"
    using inv by (simp add: s1_def rl_cleanup_inv)
  have l1: "rl_live s1 k c = rl_live s k c" if "now - window P k \<le> c" for k c
    using rl_cleanup_live[OF inv that] by (simp add: s1_def)
  have pos: "\<not> budget P k \<le> 0" "\<not> snd (P k) \<le> 0"
    using limiter_invD(1,2)[OF inv, of k] by auto
  have ok: "dict_ok (rl_expires_at s)" "dict_ok (rl_events s)"
    using inv by (simp_all add: limiter_invD)
  show ?thesis
  proof (cases "dict_get (rl_events s1) k")
    case (Some b)
    then have "rl_allow k (budget P k) (snd (P k)) now s = rl_admit k (budget P k) (snd (P k)) now b s1"
      using pos by (simp add: rl_allow_def s1_def[symmetric] Let_def)
    then show ?thesis
      using admit[OF admit_pre_known[OF i1 Some]] l1 by blast
  next
    case None
    define due where "due = (case rl_next_expiry s1 of None \<Rightarrow> False | Some e \<Rightarrow> e \<le> now)"
    define s2 where "s2 = (if int (length (rl_events s1)) \<ge> rl_max_keys s1 \<and> due then rl_cleanup now s1 else s1)"
    have i2: "limiter_inv P now s2"
      using i1 by (simp add: s2_def rl_cleanup_inv)
    have l2: "rl_live s2 k c = rl_live s k c" if "now - window P k \<le> c" for k c
      using rl_cleanup_live[OF i1 that] l1[OF that] by (simp add: s2_def)
    have n2: "dict_get (rl_events s2) k = None"
      using None rl_cleanup_get(1)[OF limiter_invD(6,5)[OF i1]] by (simp add: s2_def)
    show ?thesis
    proof (cases "int (length (rl_events s2)) \<ge> rl_max_keys s2")
      case True
      then have "rl_events s2 \<noteq> []"
        using limiter_invD(3)[OF i2] by auto
      then have "dict_get (rl_events s2) (fst (hd (rl_events s2))) = Some (snd (hd (rl_events s2)))"
        by (cases "rl_events s2") (auto simp: dict_get_Cons)
      then obtain k' b' where "dict_get (rl_events s2) k' = Some b'"
        by blast
      then obtain e where "dict_get (rl_expires_at s2) k' = Some e"
        using limiter_invD(7)[OF i2, of k'] by auto
      then obtain n where n: "rl_next_expiry s2 = Some n"
        using limiter_invD(9)[OF i2] by blast
      have "rl_allow k (budget P k) (snd (P k)) now s = (Inr (False, max 1 \<lceil>n - now\<rceil>), s2)"
        using pos None True n
        by (simp add: rl_allow_def s1_def[symmetric] Let_def due_def[symmetric] s2_def[symmetric])
      moreover have "now < e" if "dict_get (rl_expires_at s2) k = Some e" for k e
      proof (cases due)
        case True
        have "length (rl_events s2) \<le> length (rl_events s1)" "rl_max_keys s2 = rl_max_keys s1"
          by (simp_all add: s2_def rl_cleanup_events rl_cleanup_fields)
        then have "s2 = rl_cleanup now s1"
          using True \<open>rl_max_keys s2 \<le> int (length (rl_events s2))\<close> by (auto simp: s2_def)
        then show ?thesis
          using that rl_cleanup_get(2)[OF limiter_invD(6,5)[OF i1]] by (force split: if_splits)
      next
        case False
        then have "s2 = s1" by (simp add: s2_def)
        then show ?thesis
          using False that n limiter_invD(9)[OF i2] by (force simp: due_def)
      qed
      moreover have "dict_get (rl_events s) k = None"
      proof (rule ccontr)
        assume "dict_get (rl_events s) k \<noteq> None"
        then have "s1 = rl_cleanup now s"
          using None by (auto simp: s1_def split: if_splits)
        then have "length (rl_events s1) < length (rl_events s)"
          using None \<open>dict_get (rl_events s) k \<noteq> None\<close> rl_cleanup_shrinks[OF ok] by simp
        moreover have "length (rl_events s2) \<le> length (rl_events s1)"
          by (simp add: s2_def rl_cleanup_events)
        ultimately show False
          using True limiter_invD(4)[OF inv] by (simp add: s2_def s1_def rl_cleanup_fields split: if_splits)
      qed
      moreover have "rl_live s k (now - window P k) = []"
        using l2[of k "now - window P k"] n2 by (simp add: rl_live_def dict_get_or_def)
      ultimately show ?thesis
        using full[OF i2 n n2] True limiter_invD(4)[OF i2] l2 n2
        by (auto simp: s2_def s1_def rl_cleanup_fields)
    next
      case False
      then have "rl_allow k (budget P k) (snd (P k)) now s = rl_admit k (budget P k) (snd (P k)) now []
                   (s2\<lparr>rl_events := dict_set k [] (rl_events s2)\<rparr>)"
        using pos None
        by (simp add: rl_allow_def s1_def[symmetric] Let_def due_def[symmetric] s2_def[symmetric])
      moreover have "rl_live (s2\<lparr>rl_events := dict_set k [] (rl_events s2)\<rparr>) k' c = rl_live s2 k' c" for k' c
        using n2 by (auto simp: rl_live_def dict_get_or_def)
      ultimately show ?thesis
        using admit[OF admit_pre_new[OF i2 n2]] False l2 by simp
    qed
  qed
qed

lemma rl_allow_inv:
  assumes "limiter_inv P t0 s" and "t0 \<le> now"
  shows "limiter_inv P now (snd (rl_allow k (budget P k) (snd (P k)) now s))"
proof (cases rule: rl_allow_cases[OF limiter_inv_later[OF assms], of k])
  case 1
  then show ?thesis by simp
next
  case 2
  then show ?thesis by (simp add: rl_admit_inv)
qed

lemma rl_admit_result: "\<exists>ok r. fst (rl_admit k m w now b s) = Inr (ok, r)"
  by (auto simp: rl_admit_def Let_def)

lemma rl_call_facts:
  assumes "limiter_inv P t0 s" and "t0 \<le> now"
  shows "limiter_inv P now (snd (rl_call P s k now))"
    and "now - window P k' \<le> c \<Longrightarrow> rl_live (snd (rl_call P s k now)) k' c =
           rl_live s k' c @ (if k = k' \<and> fst (rl_call P s k now) \<and> c < now then [now] else [])"
    and "fst (rl_call P s k now) \<Longrightarrow> int (length (rl_live s k (now - window P k))) < budget P k"
proof -
  have inv: "limiter_inv P now s"
    using limiter_inv_later[OF assms] .
  have *: "limiter_inv P now (snd (rl_call P s k now)) \<and>
      (now - window P k' \<le> c \<longrightarrow> rl_live (snd (rl_call P s k now)) k' c =
         rl_live s k' c @ (if k = k' \<and> fst (rl_call P s k now) \<and> c < now then [now] else [])) \<and>
      (fst (rl_call P s k now) \<longrightarrow> int (length (rl_live s k (now - window P k))) < budget P k)"
  proof (cases rule: rl_allow_cases[OF inv, of k])
    case (1 s' n)
    then show ?thesis by (simp add: rl_call_def)
  next
    case (2 s' b)
    obtain ok r s'' where step: "rl_admit k (budget P k) (snd (P k)) now b s' = (Inr (ok, r), s'')"
      using rl_admit_result by (metis prod.collapse)
    have "rl_live s' k (now - window P k) = filter (\<lambda>t. now - window P k < t) b"
      using 2(1) by (simp add: rl_live_def dict_get_or_def admit_pre_def)
    then have "ok \<longleftrightarrow> int (length (rl_live s k (now - window P k))) < budget P k"
      using rl_admit_decision[OF 2(1)] 2(2)[of k] step by (auto simp: Let_def split: if_splits)
    then show ?thesis
      using 2 step rl_admit_inv[OF 2(1)] rl_admit_live[OF 2(1) _ step, of k' c]
      by (simp add: rl_call_def)
  qed
  show "limiter_inv P now (snd (rl_call P s k now))"
    "now - window P k' \<le> c \<Longrightarrow> rl_live (snd (rl_call P s k now)) k' c =
       rl_live s k' c @ (if k = k' \<and> fst (rl_call P s k now) \<and> c < now then [now] else [])"
    "fst (rl_call P s k now) \<Longrightarrow> int (length (rl_live s k (now - window P k))) < budget P k"
    using * by auto
qed

text \<open>A tracked key with budget left is accepted.\<close>

lemma rl_call_accepts:
  assumes "limiter_inv P now s" and "dict_get (rl_events s) k \<noteq> None"
    and "int (length (rl_live s k (now - window P k))) < budget P k"
  shows "fst (rl_call P s k now)"
proof (cases rule: rl_allow_cases[OF assms(1), of k])
  case (1 s' n)
  then show ?thesis using assms(2) by simp
next
  case (2 s' b)
  have "rl_live s' k (now - window P k) = filter (\<lambda>t. now - window P k < t) b"
    using 2(1) by (simp add: rl_live_def dict_get_or_def admit_pre_def)
  then have "fst (rl_admit k (budget P k) (snd (P k)) now b s') = Inr (True, 0)"
    using rl_admit_decision[OF 2(1)] 2(2)[of k] assms(3) by (simp add: Let_def)
  then show ?thesis
    using 2(3) by (auto simp: rl_call_def split: prod.splits)
qed

interpretation mem: sliding_window "rl_call P" rl_live "limiter_inv P" "budget P" "window P" for P
proof (unfold_locales, goal_cases)
  case 1
  then show ?case by (rule rl_call_facts(1))
next
  case 2
  then show ?case by (rule rl_call_facts(2))
next
  case 3
  then show ?case by (rule rl_call_facts(3))
next
  case 4
  then show ?case by (rule limiter_invD(1))
qed

lemma limiter_init_inv:
  assumes "limiter_init n i = Inr s" and "\<And>k. 0 < budget P k \<and> 0 < snd (P k)"
  shows "limiter_inv P t0 s" and "rl_live s k c = []"
  using assms by (auto simp: limiter_init_def limiter_inv_def rl_live_def dict_get_or_def split: if_splits)

section \<open>Properties\<close>

text \<open>In clock order, the contract of the sliding window applies as it stands.\<close>

lemma rl_window_bound_in_order:
  assumes "limiter_init max_keys interval = Inr s"
    and "\<And>k. 0 < budget P k \<and> 0 < snd (P k)"
    and "sorted (map snd calls)"
  shows "int (in_window c (window P k) (accepted_times (rl_call P) k s calls)) \<le> budget P k"
proof (cases calls)
  case Nil
  then show ?thesis using assms(2)[of k] by (simp add: in_window_def less_imp_le)
next
  case (Cons x xs)
  show ?thesis
    by (rule mem.accepted_window_bound[where ?t0.0 = "snd x"])
      (use assms Cons limiter_init_inv[OF assms(1,2)] in auto)
qed

section \<open>Readings that overtake each other\<close>

text \<open>
  The clock is read before the lock is taken, so in the order of the lock the readings need not be sorted. A call that
  waits at most \<open>\<delta>\<close> for the lock has a reading at most \<open>\<delta>\<close> behind every earlier one (\<open>lag_bounded\<close>). Deques may then be unsorted,
  and what is left of the invariant is that every tracked acceptance is covered by the expiry of its key.
\<close>

datatype rl_op = RL_Allow string | RL_Refund string | RL_Reset string

fun allow_readings :: "(rl_op \<times> time) list \<Rightarrow> time list" where
  "allow_readings [] = []"
| "allow_readings ((RL_Allow k, now) # ops) = now # allow_readings ops"
| "allow_readings ((_, now) # ops) = allow_readings ops"

definition lag_bounded :: "time \<Rightarrow> (rl_op \<times> time) list \<Rightarrow> bool" where
  "lag_bounded \<delta> ops \<longleftrightarrow> 0 \<le> \<delta> \<and> sorted_wrt (\<lambda>earlier later. earlier \<le> later + \<delta>) (allow_readings ops)"

text \<open>The readings of the accepted requests of a key, and the refunds of the key, over a run of operations in lock order.\<close>

fun rl_accepted :: "policy \<Rightarrow> string \<Rightarrow> limiter \<Rightarrow> (rl_op \<times> time) list \<Rightarrow> time list" where
  "rl_accepted P k s [] = []"
| "rl_accepted P k s ((RL_Allow k', now) # ops) =
     (case rl_call P s k' now of (ok, s') \<Rightarrow> (if ok \<and> k' = k then [now] else []) @ rl_accepted P k s' ops)"
| "rl_accepted P k s ((RL_Refund k', now) # ops) = rl_accepted P k (rl_refund k' s) ops"
| "rl_accepted P k s ((RL_Reset k', now) # ops) = rl_accepted P k (rl_reset k' s) ops"

definition refunds_of :: "string \<Rightarrow> (rl_op \<times> time) list \<Rightarrow> nat" where
  "refunds_of k ops = length (filter (\<lambda>(op, _). op = RL_Refund k) ops)"

definition covered :: "policy \<Rightarrow> limiter \<Rightarrow> bool" where
  "covered P s \<longleftrightarrow>
     dict_ok (rl_events s) \<and> dict_ok (rl_expires_at s) \<and>
     (\<forall>k b t. dict_get (rl_events s) k = Some b \<and> t \<in> set b \<longrightarrow>
        (\<exists>e. dict_get (rl_expires_at s) k = Some e \<and> t + window P k \<le> e))"

lemma filter_popleft_while: "cutoff \<le> c \<Longrightarrow> filter (\<lambda>t. c < t) (popleft_while cutoff b) = filter (\<lambda>t. c < t) b"
  by (induction b) (auto simp: popleft_while_def)

lemma rl_cleanup_covered:
  assumes "covered P s"
  shows "covered P (rl_cleanup now s)"
    and "now - window P k \<le> c \<Longrightarrow> rl_live (rl_cleanup now s) k c = rl_live s k c"
proof -
  have ok: "dict_ok (rl_expires_at s)" "dict_ok (rl_events s)"
    and cov: "\<And>k b t. dict_get (rl_events s) k = Some b \<Longrightarrow> t \<in> set b \<Longrightarrow>
        \<exists>e. dict_get (rl_expires_at s) k = Some e \<and> t + window P k \<le> e"
    using assms by (auto simp: covered_def)
  note get = rl_cleanup_get[OF ok, of now]
  have "dict_ok (rl_events (rl_cleanup now s))" "dict_ok (rl_expires_at (rl_cleanup now s))"
    using ok by (simp_all add: rl_cleanup_events rl_cleanup_expires_at)
  then show "covered P (rl_cleanup now s)"
    using cov by (auto simp: covered_def get)
  assume c: "now - window P k \<le> c"
  have "t \<le> c" if "dict_get (rl_expires_at s) k = Some e" "e \<le> now" "dict_get (rl_events s) k = Some b" "t \<in> set b" for e b t
    using cov[OF that(3,4)] that(1,2) c by auto
  then show "rl_live (rl_cleanup now s) k c = rl_live s k c"
    by (auto simp: rl_live_def dict_get_or_def get filter_empty_conv not_less split: option.splits)
qed

lemma rl_admit_covered:
  assumes "covered P s" "dict_get (rl_events s) k = Some b" "now - window P k' \<le> c"
    "rl_admit k (budget P k) (snd (P k)) now b s = (Inr (ok, r), s')"
  shows "covered P s'"
    and "rl_live s' k' c = rl_live s k' c @ (if k = k' \<and> ok \<and> c < now then [now] else [])"
    and "ok \<Longrightarrow> k = k' \<Longrightarrow> int (length (rl_live s k c)) < budget P k"
proof -
  define b' where "b' = popleft_while (now - window P k) b"
  define e where "e = max (dict_get_or (rl_expires_at s) k 0) ((if b' = [] then now else last b') + window P k)"
  have ev: "rl_events s' = dict_set k (if ok then b' @ [now] else b') (rl_events s)"
    and ex: "dict_get (rl_expires_at s') w = (if w = k then Some (if ok then max e (now + window P k) else e) else dict_get (rl_expires_at s) w)"
    and dk: "dict_ok (rl_expires_at s')" and okd: "ok \<longleftrightarrow> int (length b') < budget P k" for w
    using assms(4) assms(1)[unfolded covered_def]
    by (auto simp: rl_admit_def Let_def b'_def[symmetric] split: if_splits) (simp_all add: e_def)
  have old: "t + window P k \<le> e" if "t \<in> set b'" for t
  proof -
    have "t \<in> set b" using that set_popleft_while by (auto simp: b'_def)
    then obtain x where "dict_get (rl_expires_at s) k = Some x" "t + window P k \<le> x" using assms(1,2) unfolding covered_def by blast
    then show ?thesis by (simp add: e_def dict_get_or_def le_max_iff_disj)
  qed
  show "covered P s'"
    unfolding covered_def
  proof (intro conjI allI impI)
    show "dict_ok (rl_events s')" "dict_ok (rl_expires_at s')" using assms(1) dk by (simp_all add: ev covered_def)
    fix w x t assume h: "dict_get (rl_events s') w = Some x \<and> t \<in> set x"
    show "\<exists>y. dict_get (rl_expires_at s') w = Some y \<and> t + window P w \<le> y"
    proof (cases "w = k")
      case True
      then show ?thesis using h old by (auto simp: ev ex le_max_iff_disj split: if_splits)
    next
      case False
      then show ?thesis using h assms(1) unfolding covered_def by (simp add: ev ex) blast
    qed
  qed
  have b': "filter (\<lambda>t. c < t) b' = filter (\<lambda>t. c < t) b" if "k = k'"
    using filter_popleft_while[of "now - window P k" c b] assms(3) that by (simp add: b'_def)
  then show "rl_live s' k' c = rl_live s k' c @ (if k = k' \<and> ok \<and> c < now then [now] else [])"
    using assms(2) by (auto simp: rl_live_def dict_get_or_def ev)
  assume "ok" "k = k'"
  then have "rl_live s k c = filter (\<lambda>t. c < t) b'" "int (length b') < budget P k"
    using assms(2) b' okd by (simp_all add: rl_live_def dict_get_or_def)
  then show "int (length (rl_live s k c)) < budget P k"
    by (metis le_less_trans length_filter_le of_nat_le_iff)
qed

text \<open>A call, in terms of the last reading \<open>M\<close> of all calls so far, its own included.\<close>

lemma rl_call_covered:
  assumes "covered P s" "now \<le> M" "0 < budget P k" "0 < snd (P k)" "M - window P k' \<le> c"
  shows "covered P (snd (rl_call P s k now))"
    and "rl_live (snd (rl_call P s k now)) k' c =
           rl_live s k' c @ (if k = k' \<and> fst (rl_call P s k now) \<and> c < now then [now] else [])"
    and "fst (rl_call P s k now) \<Longrightarrow> k = k' \<Longrightarrow> int (length (rl_live s k c)) < budget P k"
proof -
  have c: "now - window P k' \<le> c" using assms(2,5) by linarith
  define s1 where "s1 = (if rl_next_cleanup s \<le> now then rl_cleanup now s else s)"
  have 1: "covered P s1" "rl_live s1 k' c = rl_live s k' c"
    using rl_cleanup_covered[OF assms(1)] assms(1) c by (simp_all add: s1_def)
  define s2 where "s2 = (if rl_max_keys s1 \<le> int (length (rl_events s1)) \<and> (case rl_next_expiry s1 of None \<Rightarrow> False | Some e \<Rightarrow> e \<le> now)
      then rl_cleanup now s1 else s1)"
  have 2: "covered P s2" "rl_live s2 k' c = rl_live s k' c"
    using rl_cleanup_covered[OF 1(1)] 1 c by (simp_all add: s2_def)
  define s3 where "s3 = s2\<lparr>rl_events := dict_set k [] (rl_events s2)\<rparr>"
  have run: "rl_allow k (budget P k) (snd (P k)) now s =
      (case dict_get (rl_events s1) k of
         Some bucket \<Rightarrow> rl_admit k (budget P k) (snd (P k)) now bucket s1
       | None \<Rightarrow>
           if rl_max_keys s2 \<le> int (length (rl_events s2))
           then (case rl_next_expiry s2 of None \<Rightarrow> (Inl RL_OverflowError, s2) | Some e \<Rightarrow> (Inr (False, max 1 \<lceil>e - now\<rceil>), s2))
           else rl_admit k (budget P k) (snd (P k)) now [] s3)"
    using assms(3,4) unfolding rl_allow_def Let_def s1_def[symmetric] s2_def[symmetric] s3_def[symmetric] by simp
  let ?good = "covered P (snd (rl_call P s k now)) \<and>
    rl_live (snd (rl_call P s k now)) k' c = rl_live s k' c @ (if k = k' \<and> fst (rl_call P s k now) \<and> c < now then [now] else []) \<and>
    (fst (rl_call P s k now) \<and> k = k' \<longrightarrow> int (length (rl_live s k c)) < budget P k)"
  have admitted: ?good if "rl_allow k (budget P k) (snd (P k)) now s = rl_admit k (budget P k) (snd (P k)) now b z"
    "covered P z" "dict_get (rl_events z) k = Some b" "rl_live z k' c = rl_live s k' c" for b z
  proof -
    obtain ok r s' where st: "rl_admit k (budget P k) (snd (P k)) now b z = (Inr (ok, r), s')"
      using rl_admit_result by (metis prod.collapse)
    have call: "rl_call P s k now = (ok, s')" by (simp add: rl_call_def that(1) st)
    show ?thesis using rl_admit_covered[OF that(2,3) c st] that(4) by (auto simp: call)
  qed
  have ?good
  proof (cases "dict_get (rl_events s1) k")
    case (Some b)
    then have "rl_allow k (budget P k) (snd (P k)) now s = rl_admit k (budget P k) (snd (P k)) now b s1" using run by simp
    from admitted[OF this 1(1) Some 1(2)] show ?thesis .
  next
    case None
    then have n: "dict_get (rl_events s2) k = None"
      using 1(1) by (simp add: s2_def covered_def rl_cleanup_get)
    show ?thesis
    proof (cases "rl_max_keys s2 \<le> int (length (rl_events s2))")
      case True
      then have "rl_call P s k now = (False, s2)" using run None by (simp add: rl_call_def split: option.split)
      then show ?thesis using 2 by simp
    next
      case False
      have "covered P s3" "rl_live s3 k' c = rl_live s k' c"
        using 2 n by (auto simp: s3_def covered_def rl_live_def dict_get_or_def split: if_splits)
      moreover have "dict_get (rl_events s3) k = Some []" by (simp add: s3_def)
      moreover have "rl_allow k (budget P k) (snd (P k)) now s = rl_admit k (budget P k) (snd (P k)) now [] s3"
        using run None False by simp
      ultimately show ?thesis using admitted by blast
    qed
  qed
  then show "covered P (snd (rl_call P s k now))"
    and "rl_live (snd (rl_call P s k now)) k' c =
           rl_live s k' c @ (if k = k' \<and> fst (rl_call P s k now) \<and> c < now then [now] else [])"
    and "fst (rl_call P s k now) \<Longrightarrow> k = k' \<Longrightarrow> int (length (rl_live s k c)) < budget P k"
    by blast+
qed

lemma rl_reset_covered: "covered P s \<Longrightarrow> covered P (rl_reset k s)"
  unfolding covered_def by (simp add: rl_reset_def) blast

lemma rl_reset_live: "k' \<noteq> k \<Longrightarrow> rl_live (rl_reset k s) k' c = rl_live s k' c"
  by (simp add: rl_live_def rl_reset_def dict_get_or_def)

lemma rl_refund_covered:
  assumes "covered P s"
  shows "covered P (rl_refund k s)"
    and "length (rl_live s k' c) \<le> length (rl_live (rl_refund k s) k' c) + (if k = k' then 1 else 0)"
proof -
  have one: "length (filter (\<lambda>t. c < t) b) \<le> length (filter (\<lambda>t. c < t) (butlast b)) + 1" if "b \<noteq> []" for b
    using that by (cases b rule: rev_cases) simp_all
  show "covered P (rl_refund k s)"
  proof (cases "dict_get (rl_events s) k")
    case None
    then show ?thesis using assms by (simp add: rl_refund_def)
  next
    case (Some b)
    have "set (butlast b) \<subseteq> set b" by (auto dest: in_set_butlastD)
    then show ?thesis
      using Some assms rl_reset_covered[OF assms] by (auto simp: rl_refund_def Let_def covered_def)
  qed
  show "length (rl_live s k' c) \<le> length (rl_live (rl_refund k s) k' c) + (if k = k' then 1 else 0)"
  proof (cases "dict_get (rl_events s) k")
    case None
    then show ?thesis by (simp add: rl_refund_def)
  next
    case (Some b)
    show ?thesis
    proof (cases "b = [] \<or> k' \<noteq> k")
      case True
      then show ?thesis using Some by (auto simp: rl_refund_def Let_def rl_reset_live) (auto simp: rl_live_def dict_get_or_def)
    next
      case False
      then have "rl_live (rl_refund k s) k c = filter (\<lambda>t. c < t) (butlast b)"
        using Some by (auto simp: rl_refund_def Let_def rl_live_def rl_reset_def dict_get_or_def)
      then show ?thesis using one[of b] False Some by (simp add: rl_live_def dict_get_or_def)
    qed
  qed
qed

text \<open>\<open>prior\<close> are the readings accepted so far, \<open>g\<close> the refunds so far, \<open>M\<close> the last reading.\<close>

lemma rl_accepted_bound:
  assumes "\<And>k. 0 < budget P k \<and> 0 < snd (P k)" "lag_bounded \<delta> ops" "RL_Reset k \<notin> fst ` set ops" "covered P s"
    "\<And>t. t \<in> set (allow_readings ops) \<Longrightarrow> M \<le> t + \<delta>"
    "\<And>c. M - window P k \<le> c \<Longrightarrow> length (filter (\<lambda>t. c < t) prior) \<le> length (rl_live s k c) + g"
    "\<And>c. int (in_window c (window P k - \<delta>) prior) \<le> budget P k + int g"
  shows "int (in_window c (window P k - \<delta>) (prior @ rl_accepted P k s ops)) \<le> budget P k + int (g + refunds_of k ops)"
  using assms
proof (induction P k s ops arbitrary: M prior g rule: rl_accepted.induct)
  case (1 P k s)
  then show ?case by (simp add: refunds_of_def)
next
  case (2 P k s k' now ops)
  obtain ok s' where call: "rl_call P s k' now = (ok, s')" by fastforce
  define M' where "M' = max M now"
  define new where "new = (if ok \<and> k' = k then [now] else [])"
  have lag: "lag_bounded \<delta> ops" "\<And>t. t \<in> set (allow_readings ops) \<Longrightarrow> M' \<le> t + \<delta>" "M \<le> now + \<delta>" "0 \<le> \<delta>"
    using "2.prems"(2,5) by (auto simp: lag_bounded_def M'_def)
  have pos: "0 < budget P k'" "0 < snd (P k')" using "2.prems"(1) by simp_all
  have f: "covered P s'" "M' - window P k \<le> c \<Longrightarrow> rl_live s' k c = rl_live s k c @ (if k' = k \<and> ok \<and> c < now then [now] else [])"
    "ok \<Longrightarrow> k' = k \<Longrightarrow> M' - window P k \<le> c \<Longrightarrow> int (length (rl_live s k c)) < budget P k" for c
    using rl_call_covered[where P = P and s = s and now = now and M = M' and k = k' and k' = k and c = c, OF "2.prems"(4) _ pos]
      rl_call_covered(1)[where P = P and s = s and now = now and M = M' and k = k' and k' = k and c = "M' - window P k", OF "2.prems"(4) _ pos]
    using call by (auto simp: M'_def)
  have live: "length (filter (\<lambda>t. c < t) (prior @ new)) \<le> length (rl_live s' k c) + g" if "M' - window P k \<le> c" for c
    using "2.prems"(6)[of c] f(2)[OF that] that by (auto simp: new_def M'_def)
  have bound: "int (in_window c (window P k - \<delta>) (prior @ new)) \<le> budget P k + int g" for c
  proof (cases "new = [] \<or> \<not> (c < now \<and> now \<le> c + (window P k - \<delta>))")
    case True
    then show ?thesis using "2.prems"(7)[of c] by (auto simp: in_window_def new_def split: if_splits)
  next
    case False
    then have k: "ok" "k' = k" "c < now" "now \<le> c + (window P k - \<delta>)" by (auto simp: new_def split: if_splits)
    then have c: "M' - window P k \<le> c" "M - window P k \<le> c" using lag(3,4) by (auto simp: M'_def)
    have "length (filter (\<lambda>t. c < t \<and> t \<le> c + (window P k - \<delta>)) prior) \<le> length (filter (\<lambda>t. c < t) prior)"
      by (intro length_filter_mono) auto
    then have "int (length (filter (\<lambda>t. c < t \<and> t \<le> c + (window P k - \<delta>)) prior)) < budget P k + int g"
      using "2.prems"(6)[OF c(2)] f(3)[OF k(1,2) c(1)] by linarith
    then show ?thesis using k by (simp add: in_window_def new_def)
  qed
  have "int (in_window c (window P k - \<delta>) ((prior @ new) @ rl_accepted P k s' ops)) \<le> budget P k + int (g + refunds_of k ops)"
    using "2.IH"[OF call[symmetric] "2.prems"(1) lag(1) _ f(1) lag(2) live bound] "2.prems"(3) by simp
  then show ?case by (simp add: call new_def refunds_of_def)
next
  case (3 P k s k' now ops)
  have "length (filter (\<lambda>t. c < t) prior) \<le> length (rl_live (rl_refund k' s) k c) + (g + refunds_of k [(RL_Refund k', now)])"
    if "M - window P k \<le> c" for c
    using "3.prems"(6)[OF that] rl_refund_covered(2)[OF "3.prems"(4), of k c k'] by (auto simp: refunds_of_def split: if_splits)
  moreover have "int (in_window c (window P k - \<delta>) prior) \<le> budget P k + int (g + refunds_of k [(RL_Refund k', now)])" for c
    using "3.prems"(7)[of c] by simp
  ultimately have "int (in_window c (window P k - \<delta>) (prior @ rl_accepted P k (rl_refund k' s) ops)) \<le>
      budget P k + int (g + refunds_of k [(RL_Refund k', now)] + refunds_of k ops)"
    using "3.IH"[of M prior "g + refunds_of k [(RL_Refund k', now)]"] "3.prems"(1,2,3,5) rl_refund_covered(1)[OF "3.prems"(4)]
    by (simp add: lag_bounded_def)
  then show ?case by (simp add: refunds_of_def split: if_splits)
next
  case (4 P k s k' now ops)
  then have "k' \<noteq> k" by auto
  then show ?case
    using "4.IH"[of M prior g] "4.prems" rl_reset_covered[OF "4.prems"(4)] rl_reset_live[of k k' s]
    by (simp add: lag_bounded_def refunds_of_def)
qed

text \<open>C18: Under any policy of budgets and windows, from a fresh limiter and over any sequence of calls and refunds of any keys, in the
  order in which they take the lock: when no call waits longer than \<open>\<delta>\<close> between its reading of the clock and the lock, every window
  that is \<open>\<delta>\<close> shorter than the key's holds at most the budget of accepted requests of the key, and one more for each refund of
  the key. For calls in clock order \<open>\<delta>\<close> is zero and the window is the key's own. A reset of the key starts its budget anew and
  is not in the run.\<close>

theorem rl_window_bound:
  assumes "limiter_init max_keys interval = Inr s"
    and "\<And>k. 0 < budget P k \<and> 0 < snd (P k)"
    and "lag_bounded \<delta> ops" and "RL_Reset k \<notin> fst ` set ops"
  shows "int (in_window c (window P k - \<delta>) (rl_accepted P k s ops)) \<le> budget P k + int (refunds_of k ops)"
proof -
  define M where "M = (case allow_readings ops of [] \<Rightarrow> 0 | t # _ \<Rightarrow> t)"
  have M: "M \<le> t + \<delta>" if "t \<in> set (allow_readings ops)" for t
    using that assms(3) by (cases "allow_readings ops") (auto simp: M_def lag_bounded_def)
  have "covered P s" using assms(1) by (auto simp: limiter_init_def covered_def split: if_splits)
  from rl_accepted_bound[OF assms(2-4) this M, of "[]" 0 c] assms(2)[of k] show ?thesis
    by (simp add: in_window_def)
qed

definition demo_policy :: policy where
  "demo_policy k = (2, 60)"

definition demo_limiter :: limiter where
  "demo_limiter = \<lparr>rl_max_keys = 2, rl_cleanup_interval = 60, rl_events = [],
     rl_expires_at = [], rl_next_cleanup = 0, rl_next_expiry = None\<rparr>"

theorem rl_window_bound_witness:
  "in_window 0 59 (rl_accepted demo_policy ''ip'' demo_limiter
      [(RL_Allow ''ip'', 2), (RL_Allow ''ip'', 1), (RL_Allow ''ip'', 3), (RL_Allow ''ip'', 63)]) \<le> 2 \<and>
   rl_accepted demo_policy ''ip'' demo_limiter
      [(RL_Allow ''ip'', 2), (RL_Allow ''ip'', 1), (RL_Allow ''ip'', 3), (RL_Allow ''ip'', 63)] = [2, 1, 63]"
proof -
  have init: "limiter_init 2 60 = Inr demo_limiter"
    by (simp add: limiter_init_def demo_limiter_def)
  have "int (in_window 0 (window demo_policy ''ip'' - 1) (rl_accepted demo_policy ''ip'' demo_limiter
      [(RL_Allow ''ip'', 2), (RL_Allow ''ip'', 1), (RL_Allow ''ip'', 3), (RL_Allow ''ip'', 63)])) \<le>
      budget demo_policy ''ip'' + int (refunds_of ''ip'' [(RL_Allow ''ip'', 2), (RL_Allow ''ip'', 1), (RL_Allow ''ip'', 3), (RL_Allow ''ip'', 63)])"
    by (rule rl_window_bound[OF init]) (auto simp: demo_policy_def lag_bounded_def)
  then show ?thesis
    by (simp add: refunds_of_def demo_policy_def demo_limiter_def rl_call_def rl_allow_def rl_admit_def Let_def
        rl_cleanup_def min_default_inf_def dict_values_def dict_get_Cons dict_get_or_def
        popleft_while_def min_expiry_def dict_pop_def)
qed

text \<open>A refusal is always justified: it asks for a wait of at least one second, and either the
  key has used its budget in the window that ends now, or the key is new and every one of the
  \<open>max_keys\<close> tracked keys still has an unexpired budget (none of them was evicted).\<close>

theorem rl_refusal_justified:
  assumes "limiter_inv P t0 s" and "t0 \<le> now"
    and "rl_allow k (budget P k) (snd (P k)) now s = (Inr (False, r), s')"
  shows "1 \<le> r \<and>
    (budget P k \<le> int (length (rl_live s k (now - window P k))) \<or>
     (dict_get (rl_events s) k = None \<and> int (length (rl_events s')) = rl_max_keys s \<and>
      (\<forall>k' e. dict_get (rl_expires_at s') k' = Some e \<longrightarrow> now < e)))"
proof (cases rule: rl_allow_cases[OF limiter_inv_later[OF assms(1,2)], of k])
  case (1 s' n)
  then show ?thesis using assms(3) by auto
next
  case (2 s'' b)
  have "rl_live s'' k (now - window P k) = filter (\<lambda>t. now - window P k < t) b"
    using 2(1) by (simp add: rl_live_def dict_get_or_def admit_pre_def)
  moreover have "fst (rl_admit k (budget P k) (snd (P k)) now b s'') = Inr (False, r)"
    unfolding 2(3)[symmetric] by (simp add: assms(3))
  ultimately show ?thesis
    using rl_admit_decision[OF 2(1)] 2(2)[of k] by (auto simp: Let_def split: if_splits)
qed

theorem rl_refusal_justified_witness:
  "1 \<le> (59::int) \<and> fst (rl_allow ''b'' 2 60 5 (snd (rl_allow ''a'' 2 60 4
     (demo_limiter\<lparr>rl_max_keys := 1\<rparr>)))) = Inr (False, 59)"
proof -
  have init: "limiter_init 1 60 = Inr (demo_limiter\<lparr>rl_max_keys := 1\<rparr>)"
    by (simp add: limiter_init_def demo_limiter_def)
  have inv0: "limiter_inv demo_policy 4 (demo_limiter\<lparr>rl_max_keys := 1\<rparr>)"
    by (rule limiter_init_inv(1)[OF init]) (simp add: demo_policy_def)
  define s where "s = snd (rl_allow ''a'' 2 60 4 (demo_limiter\<lparr>rl_max_keys := 1\<rparr>))"
  have inv: "limiter_inv demo_policy 4 s"
    using rl_allow_inv[OF inv0, of 4 "''a''"]
    by (simp add: s_def demo_policy_def)
  have res: "rl_allow ''b'' 2 60 5 s = (Inr (False, 59), snd (rl_allow ''b'' 2 60 5 s))"
    unfolding s_def
    by (simp add: demo_limiter_def rl_allow_def rl_admit_def Let_def
        rl_cleanup_def min_default_inf_def dict_values_def dict_get_Cons dict_get_or_def
        popleft_while_def min_expiry_def dict_pop_def)
  have "1 \<le> (59::int)"
    using rl_refusal_justified[OF inv, where now = 5 and k = "''b''" and r = 59] res by (simp add: demo_policy_def)
  then show ?thesis
    using arg_cong[OF res, of fst] by (simp add: s_def)
qed

text \<open>The wait reported to a client that used up its budget is long enough: asking again after
  that many seconds, with no other call in between, is accepted.\<close>

theorem rl_retry_after_sufficient:
  assumes "limiter_inv P t0 s" and "t0 \<le> now"
    and "rl_allow k (budget P k) (snd (P k)) now s = (Inr (False, r), s')"
    and "budget P k \<le> int (length (rl_live s k (now - window P k)))"
  shows "fst (rl_call P s' k (now + of_int r))"
proof (cases rule: rl_allow_cases[OF limiter_inv_later[OF assms(1,2)], of k])
  case (1 s1 n)
  then show ?thesis
    using assms(4) limiter_invD(1)[OF assms(1), of k] by simp
next
  case (2 s1 b)
  define lv where "lv = filter (\<lambda>t. now - window P k < t) b"
  define now' where "now' = now + of_int r"
  have step: "rl_admit k (budget P k) (snd (P k)) now b s1 = (Inr (False, r), s')"
    unfolding 2(3)[symmetric] by (rule assms(3))
  have b: "sorted b" "int (length b) \<le> budget P k" "dict_get (rl_events s1) k = Some b" "0 < budget P k"
    using 2(1) by (auto simp: admit_pre_def)
  have live: "rl_live s k (now - window P k) = lv"
    using 2(2)[of k] b(3) by (simp add: rl_live_def dict_get_or_def lv_def)
  have full: "int (length lv) = budget P k"
  proof -
    have "length lv \<le> length b"
      by (simp add: lv_def)
    then show ?thesis
      using assms(4) b(2) unfolding live by linarith
  qed
  then have ne: "lv \<noteq> []"
    using b(4) by auto
  have r: "r = max 1 \<lceil>window P k - (now - hd lv)\<rceil>"
    using rl_admit_decision[OF 2(1)] step full by (simp add: lv_def[symmetric] Let_def)
  have ev: "dict_get (rl_events s') k = Some lv"
    using step full b(1) by (auto simp: rl_admit_def Let_def popleft_while_sorted lv_def split: if_splits)
  have "hd lv \<le> now' - window P k"
  proof -
    have "window P k - (now - hd lv) \<le> of_int \<lceil>window P k - (now - hd lv)\<rceil>"
      by (rule le_of_int_ceiling)
    also have "\<dots> \<le> of_int r"
      using r by simp
    finally show ?thesis by (simp add: now'_def)
  qed
  then have "length (filter (\<lambda>t. now' - window P k < t) lv) < length lv"
    using ne by (intro length_filter_less[of "hd lv"]) auto
  moreover have "rl_live s' k (now' - window P k) = filter (\<lambda>t. now' - window P k < t) lv"
    using ev by (simp add: rl_live_def dict_get_or_def)
  ultimately have few: "int (length (rl_live s' k (now' - window P k))) < budget P k"
    using full by simp
  have inv': "limiter_inv P now' s'"
    using rl_admit_inv[OF 2(1)] step r by (auto simp: now'_def intro!: limiter_inv_later[of P now])
  show ?thesis
    using rl_call_accepts[OF inv', of k] ev few by (simp add: now'_def)
qed

theorem rl_retry_after_sufficient_witness:
  "fst (rl_call demo_policy (snd (rl_allow ''a'' 2 60 3 (snd (rl_allow ''a'' 2 60 2 (snd
     (rl_allow ''a'' 2 60 1 demo_limiter)))))) ''a'' (3 + of_int 58))"
proof -
  have init: "limiter_init 2 60 = Inr demo_limiter"
    by (simp add: limiter_init_def demo_limiter_def)
  have inv0: "limiter_inv demo_policy 1 demo_limiter"
    by (rule limiter_init_inv(1)[OF init]) (simp add: demo_policy_def)
  define s where "s = snd (rl_allow ''a'' 2 60 2 (snd (rl_allow ''a'' 2 60 1 demo_limiter)))"
  have inv: "limiter_inv demo_policy 2 s"
    using rl_allow_inv[OF rl_allow_inv[OF inv0, of 1 "''a''"], of 2 "''a''"]
    by (simp add: s_def demo_policy_def)
  have s: "rl_events s = [(''a'', [1, 2])] \<and> rl_expires_at s = [(''a'', 62)] \<and>
      rl_next_cleanup s = 61 \<and> rl_max_keys s = 2 \<and> rl_next_expiry s = Some 61"
    by (simp add: s_def demo_limiter_def rl_allow_def rl_admit_def Let_def
        rl_cleanup_def min_default_inf_def dict_values_def dict_get_Cons dict_get_or_def
        popleft_while_def min_expiry_def dict_pop_def)
  then have res: "rl_allow ''a'' 2 60 3 s = (Inr (False, 58), snd (rl_allow ''a'' 2 60 3 s))"
    by (simp add: rl_allow_def rl_admit_def Let_def dict_get_Cons dict_get_or_def popleft_while_def)
  show ?thesis
    using rl_retry_after_sufficient[OF inv, where now = 3 and k = "''a''" and r = 58] res s
    by (simp add: s_def[symmetric] demo_policy_def rl_live_def dict_get_or_def dict_get_Cons)
qed

text \<open>Refunds and resets.\<close>

lemma rl_reset_inv:
  assumes "limiter_inv P now s"
  shows "limiter_inv P now (rl_reset k s)"
  using assms by (auto simp: limiter_inv_def rl_reset_def bucket_ok_def length_dict_pop)

lemma rl_refund_inv:
  assumes "limiter_inv P now s"
  shows "limiter_inv P now (rl_refund k s)"
proof (cases "dict_get (rl_events s) k")
  case None
  then show ?thesis using assms by (simp add: rl_refund_def)
next
  case (Some b)
  note b = limiter_invD(8)[OF assms Some, unfolded bucket_ok_def]
  show ?thesis
  proof (cases "butlast b = []")
    case True
    then show ?thesis
      using Some b rl_reset_inv[OF assms] by (simp add: rl_refund_def Let_def)
  next
    case False
    have bl: "sorted (butlast b)" "set (butlast b) \<subseteq> set b"
      using b by (auto simp: butlast_conv_take intro: sorted_wrt_take dest: in_set_takeD)
    have "bucket_ok P now s k (butlast b)"
      using b bl False by (auto simp: bucket_ok_def)
    then show ?thesis
      using Some b False assms
      by (auto simp: rl_refund_def Let_def limiter_inv_def bucket_ok_def length_dict_set)
  qed
qed

text \<open>One operation of a client at a clock that never goes back.\<close>

fun rl_step :: "policy \<Rightarrow> rl_op \<times> time \<Rightarrow> time \<times> limiter \<Rightarrow> time \<times> limiter" where
  "rl_step P (RL_Allow k, dt) (t, s) = (t + \<bar>dt\<bar>, snd (rl_allow k (budget P k) (snd (P k)) (t + \<bar>dt\<bar>) s))"
| "rl_step P (RL_Refund k, dt) (t, s) = (t + \<bar>dt\<bar>, rl_refund k s)"
| "rl_step P (RL_Reset k, dt) (t, s) = (t + \<bar>dt\<bar>, rl_reset k s)"

interpretation rl_runs: stateful "rl_step P" "\<lambda>(t, s). limiter_inv P t s" for P
proof
  fix s :: "time \<times> limiter" and x
  assume "case s of (t, s) \<Rightarrow> limiter_inv P t s"
  then show "case rl_step P x s of (t, s) \<Rightarrow> limiter_inv P t s"
    by (cases "(P, x, s)" rule: rl_step.cases)
      (auto intro: rl_allow_inv rl_refund_inv rl_reset_inv limiter_inv_later)
qed

lemma rl_admit_max_keys: "rl_max_keys (snd (rl_admit k m w now b s)) = rl_max_keys s"
  by (simp add: rl_admit_def Let_def)

lemma rl_allow_max_keys: "rl_max_keys (snd (rl_allow k m w now s)) = rl_max_keys s"
proof -
  have "rl_max_keys (if b then rl_cleanup now s else s) = rl_max_keys s" for b s
    by (simp add: rl_cleanup_fields)
  then show ?thesis
    by (simp add: rl_allow_def Let_def rl_admit_max_keys rl_cleanup_fields(1) split: option.split)
qed

lemma rl_step_max_keys: "rl_max_keys (snd (rl_step P x ts)) = rl_max_keys (snd ts)"
  by (cases "(P, x, ts)" rule: rl_step.cases)
    (simp_all add: rl_allow_max_keys rl_refund_def rl_reset_def Let_def split: option.split)

lemma rl_run_max_keys: "rl_max_keys (snd (run_ops (rl_step P) xs ts)) = rl_max_keys (snd ts)"
  by (induction xs arbitrary: ts) (simp_all add: rl_step_max_keys)

text \<open>However clients interleave requests, refunds and resets, the limiter tracks at most
  \<open>max_keys\<close> keys, and a following request always gets an answer: neither a bad budget nor the
  ceiling of an infinite expiry is ever raised.\<close>

theorem rl_bounded_store:
  assumes "limiter_init max_keys interval = Inr s"
    and "\<And>k. 0 < budget P k \<and> 0 < snd (P k)"
    and "run_ops (rl_step P) ops (t0, s) = (t, s')" and "t \<le> now"
  shows "int (length (rl_events s')) \<le> max_keys \<and>
    (\<exists>allowed retry. fst (rl_allow k (budget P k) (snd (P k)) now s') = Inr (allowed, retry))"
proof -
  have "limiter_inv P t0 s"
    by (rule limiter_init_inv(1)[OF assms(1,2)])
  then have inv: "limiter_inv P t s'"
    using rl_runs.run_inv[of P "(t0, s)" ops] assms(3) by simp
  have "rl_max_keys s' = max_keys"
    using rl_run_max_keys[of P ops "(t0, s)"] assms(1,3) by (auto simp: limiter_init_def split: if_splits)
  moreover have "\<exists>allowed retry. fst (rl_allow k (budget P k) (snd (P k)) now s') = Inr (allowed, retry)"
  proof (cases rule: rl_allow_cases[OF limiter_inv_later[OF inv assms(4)], of k])
    case 1
    then show ?thesis by auto
  next
    case 2
    then show ?thesis by (simp add: rl_admit_result)
  qed
  ultimately show ?thesis
    using limiter_invD(4)[OF inv] by simp
qed

theorem rl_bounded_store_witness:
  "int (length (rl_events (snd (run_ops (rl_step demo_policy)
     [(RL_Allow ''a'', 1), (RL_Allow ''b'', 1), (RL_Allow ''c'', 1), (RL_Refund ''a'', 0)] (0, demo_limiter))))) \<le> 2"
proof -
  have init: "limiter_init 2 60 = Inr demo_limiter"
    by (simp add: limiter_init_def demo_limiter_def)
  show ?thesis
    using rl_bounded_store[OF init, where P = demo_policy and now = "fst (run_ops (rl_step demo_policy)
      [(RL_Allow ''a'', 1), (RL_Allow ''b'', 1), (RL_Allow ''c'', 1), (RL_Refund ''a'', 0)] (0, demo_limiter))",
      OF _ prod.collapse[symmetric] order_refl, of "''a''"]
    by (simp add: demo_policy_def)
qed

lemma rl_call_bucket:
  assumes "limiter_inv P t0 s" and "t0 \<le> now" and "fst (rl_call P s k now)"
  shows "\<exists>b. dict_get (rl_events (snd (rl_call P s k now))) k = Some (b @ [now])"
proof (cases rule: rl_allow_cases[OF limiter_inv_later[OF assms(1,2)], of k])
  case (1 s' n)
  then show ?thesis using assms(3) by (simp add: rl_call_def)
next
  case (2 s' b)
  have "rl_call P s k now = (case rl_admit k (budget P k) (snd (P k)) now b s' of
      (Inr (allowed, retry), s') \<Rightarrow> (allowed, s') | (Inl e, s') \<Rightarrow> (False, s'))"
    by (simp add: rl_call_def 2(3))
  then show ?thesis
    using assms(3) by (auto simp: rl_admit_def Let_def split: if_splits)
qed

text \<open>A refund after an accepted request gives back exactly that slot: the live requests of
  every key are what they were before the request.\<close>

theorem rl_refund_undoes_allow:
  assumes "limiter_inv P t0 s" and "t0 \<le> now" and "fst (rl_call P s k now)"
    and "now - window P k' \<le> c"
  shows "rl_live (rl_refund k (snd (rl_call P s k now))) k' c = rl_live s k' c"
proof -
  define s' where "s' = snd (rl_call P s k now)"
  have live: "rl_live s' k'' c = rl_live s k'' c @ (if k = k'' \<and> c < now then [now] else [])"
    if "now - window P k'' \<le> c" for k'' c
    using rl_call_facts(2)[OF assms(1,2) that] assms(3) by (simp add: s'_def)
  have "\<exists>b. dict_get (rl_events s') k = Some (b @ [now])"
    using rl_call_bucket[OF assms(1-3)] by (simp add: s'_def)
  then obtain b where b: "dict_get (rl_events s') k = Some (b @ [now])" by blast
  have refund: "rl_live (rl_refund k s') k'' c = (if k'' = k then filter (\<lambda>t. c < t) b else rl_live s' k'' c)" for k'' c
    using b by (auto simp: rl_refund_def Let_def rl_reset_def rl_live_def dict_get_or_def)
  have "filter (\<lambda>t. c < t) b = rl_live s k c" if "now - window P k \<le> c" for c
    using live[OF that] b by (auto simp: rl_live_def dict_get_or_def split: if_splits)
  then show ?thesis
    using refund[of k' c] live[OF assms(4)] assms(4) by (auto simp: s'_def[symmetric] split: if_splits)
qed

theorem rl_refund_undoes_allow_witness:
  "rl_live (rl_refund ''a'' (snd (rl_call demo_policy demo_limiter ''a'' 5))) ''a'' 0
     = rl_live demo_limiter ''a'' 0"
proof -
  have init: "limiter_init 2 60 = Inr demo_limiter"
    by (simp add: limiter_init_def demo_limiter_def)
  have inv0: "limiter_inv demo_policy 1 demo_limiter"
    by (rule limiter_init_inv(1)[OF init]) (simp add: demo_policy_def)
  have acc: "fst (rl_call demo_policy demo_limiter ''a'' 5)"
    by (simp add: rl_call_def demo_policy_def demo_limiter_def rl_allow_def rl_admit_def Let_def
        rl_cleanup_def min_default_inf_def dict_values_def dict_get_Cons dict_get_or_def popleft_while_def)
  show ?thesis
    by (rule rl_refund_undoes_allow[OF inv0 _ acc]) (simp_all add: demo_policy_def)
qed

end
