(* ===== verification/Redis_Limiter.thy ===== *)
theory Redis_Limiter
  imports Rate_Limiter
begin

text \<open>
  \<^verbatim>\<open>RedisSlidingWindowRateLimiter\<close> of \<^verbatim>\<open>src/app/security.py\<close>: the Lua script that the workers share.

  A key holds a sorted set of scores and the time at which Redis drops the key. Each accepted request adds a
  member of 144 random bits, so members are taken to be distinct and only their scores are kept. The script
  runs atomically, one step per call. The limiter is a second provider of the sliding-window contract, whose
  guarantees it inherits; the expiry of keys does not weaken them.
\<close>

record zset =
  zs_scores :: "time list"
  zs_expires :: time

type_synonym redis = "(string, zset) pydict"

definition zs_live :: "redis \<Rightarrow> string \<Rightarrow> time \<Rightarrow> time list" where
  "zs_live s key now =
     (case dict_get s key of
        None \<Rightarrow> []
      | Some z \<Rightarrow> if zs_expires z \<le> now then [] else zs_scores z)"

text \<open>\<^verbatim>\<open>ZREMRANGEBYSCORE\<close>, \<^verbatim>\<open>ZCARD\<close>, \<^verbatim>\<open>ZRANGE\<close>, \<^verbatim>\<open>ZADD\<close> and \<^verbatim>\<open>EXPIRE\<close> of the script;
  a sorted set that becomes empty is deleted.\<close>

definition redis_allow :: "string \<Rightarrow> int \<Rightarrow> int \<Rightarrow> time \<Rightarrow> redis \<Rightarrow> (bool \<times> int) \<times> redis" where
  "redis_allow key max_attempts window_seconds now s =
     (let cutoff = now - of_int window_seconds;
          scores = filter (\<lambda>t. cutoff < t) (zs_live s key now);
          count = int (length scores)
      in if count \<ge> max_attempts
         then ((False, if scores = [] then 1 else max 1 \<lceil>of_int window_seconds - (now - hd scores)\<rceil>),
               if scores = [] then dict_pop key s
               else (case dict_get s key of
                       None \<Rightarrow> s
                     | Some z \<Rightarrow> dict_set key (z\<lparr>zs_scores := scores\<rparr>) s))
         else ((True, 0),
               dict_set key \<lparr>zs_scores = insort now scores, zs_expires = now + of_int window_seconds + 1\<rparr> s))"

definition redis_refund :: "string \<Rightarrow> redis \<Rightarrow> redis" where
  "redis_refund key s =
     (case dict_get s key of
        None \<Rightarrow> s
      | Some z \<Rightarrow>
          let scores = butlast (zs_scores z)
          in if scores = [] then dict_pop key s else dict_set key (z\<lparr>zs_scores := scores\<rparr>) s)"

definition redis_reset :: "string \<Rightarrow> redis \<Rightarrow> redis" where
  "redis_reset key s = dict_pop key s"

section \<open>The contract\<close>

definition redis_call :: "policy \<Rightarrow> redis \<Rightarrow> string \<Rightarrow> time \<Rightarrow> bool \<times> redis" where
  "redis_call P s k now =
     (case redis_allow k (budget P k) (snd (P k)) now s of ((allowed, retry), s') \<Rightarrow> (allowed, s'))"

definition redis_live :: "redis \<Rightarrow> string \<Rightarrow> time \<Rightarrow> time list" where
  "redis_live s k c = filter (\<lambda>t. c < t) (case dict_get s k of None \<Rightarrow> [] | Some z \<Rightarrow> zs_scores z)"

definition zset_ok :: "policy \<Rightarrow> time \<Rightarrow> string \<Rightarrow> zset \<Rightarrow> bool" where
  "zset_ok P now k z \<longleftrightarrow>
     sorted (zs_scores z) \<and> (\<forall>t\<in>set (zs_scores z). t \<le> now \<and> t + window P k < zs_expires z)"

definition redis_inv :: "policy \<Rightarrow> time \<Rightarrow> redis \<Rightarrow> bool" where
  "redis_inv P now s \<longleftrightarrow>
     (\<forall>k. 0 < budget P k \<and> 0 < snd (P k)) \<and> (\<forall>k z. dict_get s k = Some z \<longrightarrow> zset_ok P now k z)"

lemma redis_inv_later: "redis_inv P t0 s \<Longrightarrow> t0 \<le> now \<Longrightarrow> redis_inv P now s"
  by (force simp: redis_inv_def zset_ok_def)

text \<open>An expired key has no score left in the window.\<close>

lemma zs_live_window:
  assumes "redis_inv P now s" and "now - window P k \<le> c"
  shows "filter (\<lambda>t. c < t) (zs_live s k now) = redis_live s k c"
proof (cases "dict_get s k")
  case None
  then show ?thesis by (simp add: zs_live_def redis_live_def)
next
  case (Some z)
  have ok: "zset_ok P now k z"
    using assms(1) Some by (simp add: redis_inv_def)
  have "filter (\<lambda>t. c < t) (zs_scores z) = []" if "zs_expires z \<le> now"
    using ok that assms(2) by (fastforce simp: zset_ok_def filter_empty_conv)
  then show ?thesis
    using Some by (simp add: zs_live_def redis_live_def)
qed

lemma insort_last: "\<forall>t\<in>set xs. t \<le> now \<Longrightarrow> sorted xs \<Longrightarrow> insort now xs = xs @ [now]" for now :: rat
  by (induction xs) (auto simp: insort_is_Cons)


lemma zs_live_ok:
  assumes "redis_inv P now s"
  shows "sorted (zs_live s k now)" "\<forall>t\<in>set (zs_live s k now). t \<le> now"
  using assms by (cases "dict_get s k"; auto simp: zs_live_def redis_inv_def zset_ok_def)+

lemma redis_call_facts:
  assumes "redis_inv P t0 s" and "t0 \<le> now"
  shows "redis_inv P now (snd (redis_call P s k now)) \<and>
    (now - window P k' \<le> c \<longrightarrow> redis_live (snd (redis_call P s k now)) k' c =
       redis_live s k' c @ (if k = k' \<and> fst (redis_call P s k now) \<and> c < now then [now] else [])) \<and>
    (fst (redis_call P s k now) \<longleftrightarrow> int (length (redis_live s k (now - window P k))) < budget P k)"
proof -
  have inv: "redis_inv P now s"
    using redis_inv_later[OF assms] .
  define sc where "sc = filter (\<lambda>t. now - window P k < t) (zs_live s k now)"
  have sc: "sc = redis_live s k (now - window P k)"
    unfolding sc_def by (rule zs_live_window[OF inv]) simp
  have srt: "sorted sc" "\<forall>t\<in>set sc. t \<le> now"
    using zs_live_ok[OF inv, of k] by (auto simp: sc_def sorted_wrt_filter)
  have sub: "filter (\<lambda>t. c < t) sc = redis_live s k c" if "now - window P k \<le> c"
    unfolding sc_def filter_gt_mono[OF that] by (rule zs_live_window[OF inv that])
  show ?thesis
  proof (cases "int (length sc) < budget P k")
    case True
    define z where "z = \<lparr>zs_scores = sc @ [now], zs_expires = now + window P k + 1\<rparr>"
    have call: "redis_call P s k now = (True, dict_set k z s)"
      using True insort_last[OF srt(2,1)]
      by (simp add: redis_call_def redis_allow_def Let_def sc_def[symmetric] z_def)
    have "zset_ok P now k z"
      using srt by (auto simp: zset_ok_def z_def sorted_append)
    then have "redis_inv P now (dict_set k z s)"
      using inv by (auto simp: redis_inv_def)
    moreover have "redis_live (dict_set k z s) k' c = redis_live s k' c @ (if k = k' \<and> c < now then [now] else [])"
      if "now - window P k' \<le> c"
      using that sub by (auto simp: redis_live_def z_def)
    ultimately show ?thesis
      using call True sc by simp
  next
    case False
    then have ne: "sc \<noteq> []"
      using inv by (auto simp: redis_inv_def not_less dest!: spec[of _ k])
    then obtain z where z: "dict_get s k = Some z"
      by (auto simp: sc redis_live_def split: option.splits)
    define z' where "z' = z\<lparr>zs_scores := sc\<rparr>"
    have call: "redis_call P s k now = (False, dict_set k z' s)"
      using False ne z by (simp add: redis_call_def redis_allow_def Let_def sc_def[symmetric] z'_def)
    have "zset_ok P now k z'"
      using inv z by (auto simp: redis_inv_def zset_ok_def z'_def sc redis_live_def sorted_wrt_filter)
    then have "redis_inv P now (dict_set k z' s)"
      using inv by (auto simp: redis_inv_def)
    moreover have "redis_live (dict_set k z' s) k' c = redis_live s k' c"
      if "now - window P k' \<le> c"
      using that sub by (auto simp: redis_live_def z'_def)
    ultimately show ?thesis
      using call False sc by simp
  qed
qed

interpretation red: sliding_window "redis_call P" redis_live "redis_inv P" "budget P" "window P" for P
proof (unfold_locales, goal_cases)
  case 1
  then show ?case using redis_call_facts by blast
next
  case 2
  then show ?case using redis_call_facts by blast
next
  case 3
  then show ?case using redis_call_facts by blast
next
  case 4
  then show ?case by (simp add: redis_inv_def)
qed

lemma redis_empty:
  assumes "\<And>k. 0 < budget P k \<and> 0 < snd (P k)"
  shows "redis_inv P t0 []" and "redis_live [] k c = []"
  using assms by (simp_all add: redis_inv_def redis_live_def)

section \<open>Properties\<close>

text \<open>The shared limiter gives the guarantee of the local one across all workers: whatever keys and however
  interleaved the calls that reach Redis in clock order, no window of a key's length contains more accepted
  requests than its budget, although Redis drops idle keys; and a request is refused only when its window
  is full.\<close>

theorem redis_window_bound:
  assumes "\<And>k. 0 < budget P k \<and> 0 < snd (P k)" and "sorted (map snd calls)"
  shows "int (in_window c (window P k) (accepted_times (redis_call P) k [] calls)) \<le> budget P k \<and>
    (\<forall>s t0 now. redis_inv P t0 s \<and> t0 \<le> now \<longrightarrow>
       (fst (redis_call P s k now) \<longleftrightarrow> int (length (redis_live s k (now - window P k))) < budget P k))"
proof -
  have "int (in_window c (window P k) (accepted_times (redis_call P) k [] calls)) \<le> budget P k"
  proof (cases calls)
    case Nil
    then show ?thesis using assms(1)[of k] by (simp add: in_window_def less_imp_le)
  next
    case (Cons x xs)
    show ?thesis
      by (rule red.accepted_window_bound[where ?t0.0 = "snd x"])
        (use assms Cons redis_empty[of P] in auto)
  qed
  then show ?thesis using redis_call_facts by blast
qed

theorem redis_window_bound_witness:
  "in_window 0 60 (accepted_times (redis_call demo_policy) ''ip'' [] [(''ip'', 1), (''ip'', 2), (''ip'', 3), (''ip'', 62)]) \<le> 2 \<and>
   accepted_times (redis_call demo_policy) ''ip'' [] [(''ip'', 1), (''ip'', 2), (''ip'', 3), (''ip'', 62)] = [1, 2, 62]"
proof -
  have "int (in_window 0 (window demo_policy ''ip'') (accepted_times (redis_call demo_policy) ''ip'' []
      [(''ip'', 1), (''ip'', 2), (''ip'', 3), (''ip'', 62)])) \<le> budget demo_policy ''ip''"
    using redis_window_bound[of demo_policy "[(''ip'', 1), (''ip'', 2), (''ip'', 3), (''ip'', 62)]" 0 "''ip''"]
    by (simp add: demo_policy_def)
  then show ?thesis
    by (simp add: demo_policy_def redis_call_def redis_allow_def Let_def zs_live_def dict_get_Cons)
qed

end
