(* ===== verification/Json.thy ===== *)
theory Json
  imports Prelude "HOL-Library.Char_ord" "HOL-Library.List_Lexorder"
begin

text \<open>
  The part of \<^verbatim>\<open>json.dumps\<close> the application signs and authenticates with: flat objects whose
  values are strings, integers or null, with \<^verbatim>\<open>sort_keys=True\<close> and
  \<^verbatim>\<open>separators=(",", ":")\<close>. Canonical texts are only useful when they are unambiguous, so the
  theory shows that the encoding of a string, an integer or null can be read back whatever text
  follows it.

  A Python string is a \<open>string\<close>: code points 0 to 255, which covers every case of the
  encoder's escape table (control characters, quote and backslash, other ASCII, non-ASCII).
\<close>

datatype jval = JNull | JStr string | JInt int

definition hex_digit :: "nat \<Rightarrow> char" where
  "hex_digit n = (if n < 10 then char_of (48 + n) else char_of (87 + n))"

text \<open>\<^verbatim>\<open>ESCAPE_DCT\<close> of the library: named escapes, \<open>\u00xx\<close> for the other control characters, and
  for everything outside ASCII when \<^verbatim>\<open>ensure_ascii\<close> is set.\<close>

definition json_escape :: "bool \<Rightarrow> char \<Rightarrow> string" where
  "json_escape ensure_ascii c =
     (let n = of_char c :: nat
      in if n = 34 then [CHR 0x5C, CHR 0x22]
         else if n = 92 then [CHR 0x5C, CHR 0x5C]
         else if n = 10 then [CHR 0x5C, CHR ''n'']
         else if n = 13 then [CHR 0x5C, CHR ''r'']
         else if n = 9 then [CHR 0x5C, CHR ''t'']
         else if n = 12 then [CHR 0x5C, CHR ''f'']
         else if n = 8 then [CHR 0x5C, CHR ''b'']
         else if n < 32 \<or> (ensure_ascii \<and> 127 < n)
              then [CHR 0x5C, CHR ''u'', CHR ''0'', CHR ''0'', hex_digit (n div 16), hex_digit (n mod 16)]
         else [c])"

definition json_string :: "bool \<Rightarrow> string \<Rightarrow> string" where
  "json_string ensure_ascii s = [CHR 0x22] @ concat (map (json_escape ensure_ascii) s) @ [CHR 0x22]"

definition digit_char :: "nat \<Rightarrow> char" where
  "digit_char n = char_of (48 + n)"

fun show_nat :: "nat \<Rightarrow> string" where
  "show_nat n = (if n < 10 then [digit_char n] else show_nat (n div 10) @ [digit_char (n mod 10)])"

declare show_nat.simps [simp del]

definition show_int :: "int \<Rightarrow> string" where
  "show_int i = (if i < 0 then CHR ''-'' # show_nat (nat (- i)) else show_nat (nat i))"

fun json_val :: "bool \<Rightarrow> jval \<Rightarrow> string" where
  "json_val a JNull = ''null''"
| "json_val a (JStr s) = json_string a s"
| "json_val a (JInt i) = show_int i"

fun json_members :: "bool \<Rightarrow> (string \<times> jval) list \<Rightarrow> string" where
  "json_members a [] = []"
| "json_members a [(k, v)] = json_string a k @ '':'' @ json_val a v"
| "json_members a ((k, v) # ms) = json_string a k @ '':'' @ json_val a v @ '','' @ json_members a ms"

definition json_dumps :: "bool \<Rightarrow> (string \<times> jval) list \<Rightarrow> string" where
  "json_dumps ensure_ascii d = ''{'' @ json_members ensure_ascii (sort_key fst d) @ ''}''"

definition jopt :: "string option \<Rightarrow> jval" where
  "jopt v = (case v of None \<Rightarrow> JNull | Some s \<Rightarrow> JStr s)"

section \<open>Reading an encoding back\<close>

definition hex_value :: "char \<Rightarrow> nat" where
  "hex_value c = (let n = of_char c in if n < 58 then n - 48 else n - 87)"

fun json_unescape :: "string \<Rightarrow> char \<times> string" where
  "json_unescape (c # d # x) =
     (if c = CHR 0x5C then
        (if d = CHR 0x22 then (char_of (34::nat), x) else if d = CHR 0x5C then (char_of (92::nat), x)
         else if d = CHR ''n'' then (char_of (10::nat), x) else if d = CHR ''r'' then (char_of (13::nat), x)
         else if d = CHR ''t'' then (char_of (9::nat), x) else if d = CHR ''f'' then (char_of (12::nat), x)
         else if d = CHR ''b'' then (char_of (8::nat), x)
         else (char_of (16 * hex_value (x ! 2) + hex_value (x ! 3)), drop 4 x))
      else (c, d # x))"
| "json_unescape [c] = (c, [])"
| "json_unescape [] = (CHR 0x00, [])"

lemma of_char_less: "(of_char c :: nat) < 256"
proof -
  have "(of_char c :: nat) = of_char c mod 256"
    by simp
  also have "\<dots> < 256"
    by simp
  finally show ?thesis .
qed

lemma of_char_nat_eqD: "of_char c = (n::nat) \<Longrightarrow> c = char_of n"
  by auto

lemma hex_value_digit: "n < 16 \<Longrightarrow> hex_value (hex_digit n) = n"
  by (simp add: hex_value_def hex_digit_def of_char_of Let_def)

lemma json_unescape_escape: "json_unescape (json_escape a c @ x) = (c, x)"
proof -
  let ?n = "of_char c :: nat"
  have n: "?n < 256"
    by (rule of_char_less)
  have c: "c = char_of ?n"
    by simp
  show ?thesis
  proof (cases "?n \<in> {34, 92, 10, 13, 9, 12, 8}")
    case True
    then have "c = char_of (34::nat) \<or> c = char_of (92::nat) \<or> c = char_of (10::nat) \<or>
        c = char_of (13::nat) \<or> c = char_of (9::nat) \<or> c = char_of (12::nat) \<or> c = char_of (8::nat)"
      by (auto dest: of_char_nat_eqD)
    then show ?thesis
      by (elim disjE) (simp_all add: json_escape_def Let_def)
  next
    case False
    show ?thesis
    proof (cases "?n < 32 \<or> (a \<and> 127 < ?n)")
      case True
      have "16 * (?n div 16) + ?n mod 16 = ?n"
        by simp
      moreover have "hex_value (hex_digit (?n div 16)) = ?n div 16" "hex_value (hex_digit (?n mod 16)) = ?n mod 16"
        using less_mult_imp_div_less[of ?n 16 16] n by (simp_all add: hex_value_digit)
      ultimately show ?thesis
        using False True by (simp add: json_escape_def Let_def)
    next
      case nf: False
      have "c \<noteq> CHR 0x5C"
        using False by auto
      then show ?thesis
        using False nf by (cases x) (auto simp: json_escape_def Let_def)
    qed
  qed
qed

lemma json_escape_inject: "json_escape a c @ x = json_escape a d @ y \<Longrightarrow> c = d \<and> x = y"
  by (metis json_unescape_escape prod.inject)

lemma json_escape_hd: "\<exists>h t. json_escape a c = h # t \<and> h \<noteq> CHR 0x22"
  by (cases "of_char c = (34::nat)") (auto simp: json_escape_def Let_def)

text \<open>The closing quote marks the end of a string: what follows is determined.\<close>

lemma json_chars_inject:
  "concat (map (json_escape a) s) @ CHR 0x22 # x = concat (map (json_escape a) t) @ CHR 0x22 # y
     \<Longrightarrow> s = t \<and> x = y"
proof (induction s arbitrary: t)
  case Nil
  then show ?case
    using json_escape_hd[of a "hd t"] by (cases t) auto
next
  case (Cons c s)
  show ?case
  proof (cases t)
    case Nil
    then show ?thesis
      using Cons.prems json_escape_hd[of a c] by auto
  next
    case (Cons d t')
    then have "json_escape a c @ concat (map (json_escape a) s) @ CHR 0x22 # x
             = json_escape a d @ concat (map (json_escape a) t') @ CHR 0x22 # y"
      using Cons.prems by simp
    then have "c = d" "concat (map (json_escape a) s) @ CHR 0x22 # x = concat (map (json_escape a) t') @ CHR 0x22 # y"
      using json_escape_inject by blast+
    then show ?thesis
      using Cons.IH[of t'] Cons by simp
  qed
qed

lemma json_string_inject: "json_string a s @ x = json_string a t @ y \<Longrightarrow> s = t \<and> x = y"
  by (auto simp: json_string_def dest: json_chars_inject)

definition digits_value :: "string \<Rightarrow> nat" where
  "digits_value s = foldl (\<lambda>n c. 10 * n + (of_char c - 48)) 0 s"

lemma digits_value_show: "digits_value (show_nat n) = n"
proof (induction n rule: show_nat.induct)
  case (1 n)
  show ?case
  proof (cases "n < 10")
    case True
    then show ?thesis by (simp add: show_nat.simps digits_value_def digit_char_def)
  next
    case False
    then have "foldl (\<lambda>n c. 10 * n + (of_char c - 48)) 0 (show_nat (n div 10)) = n div 10"
      using 1 by (simp add: digits_value_def)
    then show ?thesis
      using False by (simp add: show_nat.simps[of n] digits_value_def digit_char_def)
  qed
qed

definition is_digit :: "char \<Rightarrow> bool" where
  "is_digit c \<longleftrightarrow> 48 \<le> (of_char c :: nat) \<and> of_char c \<le> (57::nat)"

lemma show_nat_digits: "c \<in> set (show_nat n) \<Longrightarrow> is_digit c"
proof (induction n arbitrary: c rule: show_nat.induct)
  case (1 n)
  then show ?case
    by (cases "n < 10") (auto simp: show_nat.simps[of n] digit_char_def is_digit_def)
qed

lemma show_nat_not_Nil [simp]: "show_nat n \<noteq> []"
  by (simp add: show_nat.simps[of n])

lemma show_nat_inject_app:
  assumes "show_nat m @ x = show_nat n @ y" and "x = [] \<or> \<not> is_digit (hd x)" and "y = [] \<or> \<not> is_digit (hd y)"
  shows "m = n \<and> x = y"
proof -
  have "takeWhile is_digit (show_nat k @ z) = show_nat k" if "z = [] \<or> \<not> is_digit (hd z)" for k z
    using that takeWhile_append2[of "show_nat k" is_digit z, OF show_nat_digits] by (cases z) auto
  then have "show_nat m = show_nat n"
    using assms by metis
  then have "m = n"
    using digits_value_show by metis
  then show ?thesis using assms(1) by simp
qed

lemma show_nat_hd: "\<exists>h t. show_nat n = h # t \<and> is_digit h"
  using show_nat_digits[of _ n] by (cases "show_nat n") auto

lemma show_int_inject_app:
  assumes "show_int m @ x = show_int n @ y" and "x = [] \<or> \<not> is_digit (hd x)" and "y = [] \<or> \<not> is_digit (hd y)"
  shows "m = n \<and> x = y"
proof -
  have m0: "hd (show_nat (nat k) @ z) \<noteq> CHR ''-''" for k z
    using show_nat_hd[of "nat k"] by (auto simp: is_digit_def)
  show ?thesis
  proof (cases "m < 0"; cases "n < 0")
    assume "m < 0" "n < 0"
    then show ?thesis
      using assms show_nat_inject_app[of "nat (- m)" x "nat (- n)" y] by (auto simp: show_int_def)
  next
    assume "\<not> m < 0" "\<not> n < 0"
    then show ?thesis
      using assms show_nat_inject_app[of "nat m" x "nat n" y] by (auto simp: show_int_def)
  next
    assume "m < 0" "\<not> n < 0"
    then show ?thesis
      using assms m0[of n y] by (metis append_Cons list.sel(1) show_int_def)
  next
    assume "\<not> m < 0" "n < 0"
    then show ?thesis
      using assms m0[of m x] by (metis append_Cons list.sel(1) show_int_def)
  qed
qed

text \<open>Values of different kinds start with different characters, so a value followed by a
  separator is determined by the text.\<close>

lemma show_int_hd: "\<exists>h t. show_int n = h # t \<and> (is_digit h \<or> h = CHR ''-'')"
  using show_nat_hd[of "nat n"] by (auto simp: show_int_def)

lemma json_val_inject:
  assumes eq: "json_val a v @ x = json_val a w @ y"
    and "x = [] \<or> \<not> is_digit (hd x)" and "y = [] \<or> \<not> is_digit (hd y)"
  shows "v = w \<and> x = y"
proof -
  have i: "hd (show_int n @ z) \<noteq> CHR ''n'' \<and> hd (show_int n @ z) \<noteq> CHR 0x22" for n z
    using show_int_hd[of n] by (auto simp: is_digit_def)
  show ?thesis
  proof (cases v; cases w)
    fix s t assume vw: "v = JStr s" "w = JStr t"
    then have "json_string a s @ x = json_string a t @ y" using eq by simp
    then show ?thesis using json_string_inject[of a s x t y] vw by simp
  next
    fix m n assume "v = JInt m" "w = JInt n"
    then show ?thesis using assms show_int_inject_app[of m x n y] by simp
  next
    fix s n assume "v = JStr s" "w = JInt n"
    then show ?thesis using arg_cong[OF eq, of hd] i[of n y] by (simp add: json_string_def)
  next
    fix s n assume "w = JStr s" "v = JInt n"
    then show ?thesis using arg_cong[OF eq, of hd] i[of n x] by (simp add: json_string_def)
  next
    fix n assume "v = JNull" "w = JInt n"
    then show ?thesis using arg_cong[OF eq, of hd] i[of n y] by simp
  next
    fix n assume "w = JNull" "v = JInt n"
    then show ?thesis using arg_cong[OF eq, of hd] i[of n x] by simp
  qed (use eq in \<open>auto simp: json_string_def\<close>)
qed

text \<open>The closing brace marks the end of an object: its members and what follows are determined.\<close>

lemma json_member_inject:
  assumes "json_string a k @ '':'' @ json_val a v @ x = json_string a l @ '':'' @ json_val a w @ y"
    and "x = [] \<or> \<not> is_digit (hd x)" and "y = [] \<or> \<not> is_digit (hd y)"
  shows "k = l \<and> v = w \<and> x = y"
proof -
  have "k = l \<and> '':'' @ json_val a v @ x = '':'' @ json_val a w @ y"
    using assms(1) by (rule json_string_inject)
  then show ?thesis
    using json_val_inject[OF _ assms(2,3)] by auto
qed

lemma json_members_hd: "ms \<noteq> [] \<Longrightarrow> \<exists>t. json_members a ms = CHR 0x22 # t"
  by (induction a ms rule: json_members.induct) (auto simp: json_string_def)

lemma json_members_inject_app:
  "json_members a ms @ CHR ''}'' # x = json_members a ns @ CHR ''}'' # y \<Longrightarrow> ms = ns \<and> x = y"
proof (induction a ms arbitrary: ns rule: json_members.induct)
  case (1 a)
  then show ?case
    using json_members_hd[of ns a] by (cases "ns = []") auto
next
  case (2 a k v)
  consider "ns = []" | l w where "ns = [(l, w)]" | l w n ns' where "ns = (l, w) # n # ns'"
    by (metis list.exhaust surj_pair)
  then show ?case
  proof cases
    case 1
    then show ?thesis using 2 by (simp add: json_string_def)
  next
    case (2 l w)
    then show ?thesis
      using json_member_inject[of a k v "CHR ''}'' # x" l w "CHR ''}'' # y"] \<open>json_members a [(k, v)] @ _ = _\<close>
      by (simp add: is_digit_def)
  next
    case (3 l w n ns')
    then show ?thesis
      using json_member_inject[of a k v "CHR ''}'' # x" l w "'','' @ json_members a (n # ns') @ CHR ''}'' # y"] 2
      by (simp add: is_digit_def)
  qed
next
  case (3 a k v m ms)
  consider "ns = []" | l w where "ns = [(l, w)]" | l w n ns' where "ns = (l, w) # n # ns'"
    by (metis list.exhaust surj_pair)
  then show ?case
  proof cases
    case 1
    then show ?thesis using 3 by (simp add: json_string_def)
  next
    case (2 l w)
    then show ?thesis
      using json_member_inject[of a k v "'','' @ json_members a (m # ms) @ CHR ''}'' # x" l w "CHR ''}'' # y"] 3
      by (simp add: is_digit_def)
  next
    case ns: (3 l w n ns')
    then have "k = l \<and> v = w \<and> '','' @ json_members a (m # ms) @ CHR ''}'' # x = '','' @ json_members a (n # ns') @ CHR ''}'' # y"
      using 3(2) by (intro json_member_inject[of a]) (simp_all add: is_digit_def)
    then show ?thesis
      using 3(1)[of "n # ns'"] ns by simp
  qed
qed

lemma json_members_inject: "json_members a ms @ ''}'' = json_members a ns @ ''}'' \<Longrightarrow> ms = ns"
  by (drule json_members_inject_app) simp

lemma json_dumps_inject_app:
  "json_dumps a d @ x = json_dumps a e @ y \<Longrightarrow> sort_key fst d = sort_key fst e \<and> x = y"
  using json_members_inject_app[of a "sort_key fst d" x "sort_key fst e" y] by (simp add: json_dumps_def)

lemma jopt_inject [simp]: "jopt v = jopt w \<longleftrightarrow> v = w"
  by (auto simp: jopt_def split: option.splits)

end
