(* ===== verification/Audit_Chain.thy ===== *)
theory Audit_Chain
  imports Json
begin

text \<open>
  The tamper-evident audit trail, \<^verbatim>\<open>src/app/audit_chain.py\<close>.

  The table \<^verbatim>\<open>audit_events\<close> is a list of rows in the order of their ids, the order every query
  of the module uses. HMAC-SHA-256 is a parameter \<open>hm\<close> from key and message to the hex digest, and
  SHA-256 a parameter of the key derivation; the only fact used about them is that a digest is
  64 lower-case hex digits. No collision resistance is assumed: the tamper-evidence theorem
  exhibits the collision or the preimage of the genesis value an undetected edit would need.
  Reading the clock is an argument. A transaction that seals and inserts is one step, which is
  what \<^verbatim>\<open>append_lock\<close> provides.
\<close>

text \<open>A datetime: microseconds of wall-clock time since 0001-01-01 and the offset from UTC, if any.\<close>

datatype datetime = Datetime (dt_micros: int) (dt_offset: "int option")

record audit_event =
  ae_id :: "int option"
  ae_actor_id :: "string option"
  ae_event_type :: string
  ae_target_type :: "string option"
  ae_target_id :: "string option"
  ae_outcome :: string
  ae_ip_address :: "string option"
  ae_user_agent :: "string option"
  ae_request_id :: "string option"
  ae_details_json :: string
  ae_created_at :: "datetime option"
  ae_prev_hash :: "string option"
  ae_entry_hash :: "string option"

type_synonym audit_table = "audit_event list"
type_synonym 'key hmac = "'key \<Rightarrow> string \<Rightarrow> string"

datatype chain_error = Chain_ValueError | Chain_GapInside "int option"

definition GENESIS_HASH :: string where
  "GENESIS_HASH = replicate 64 (CHR ''0'')"

definition valid_sha256_digest :: "string \<Rightarrow> bool" where
  "valid_sha256_digest v \<longleftrightarrow> length v = 64 \<and> list_all (\<lambda>c. c \<in> set ''0123456789abcdef'') v"

definition derive_audit_key :: "(string \<Rightarrow> 'key) \<Rightarrow> string \<Rightarrow> 'key" where
  "derive_audit_key sha256 secret_key = sha256 (''secure-chat:audit-chain:v1:'' @ secret_key)"

definition canonical_entry ::
    "string option \<Rightarrow> string \<Rightarrow> string option \<Rightarrow> string option \<Rightarrow> string \<Rightarrow> string option \<Rightarrow>
     string option \<Rightarrow> string option \<Rightarrow> string \<Rightarrow> string \<Rightarrow> string" where
  "canonical_entry actor_id event_type target_type target_id outcome ip_address user_agent request_id
     details_json created_at =
     json_dumps False
       [(''actor_id'', jopt actor_id), (''event_type'', JStr event_type),
        (''target_type'', jopt target_type), (''target_id'', jopt target_id),
        (''outcome'', JStr outcome), (''ip_address'', jopt ip_address),
        (''user_agent'', jopt user_agent), (''request_id'', jopt request_id),
        (''details_json'', JStr details_json), (''created_at'', JStr created_at)]"

definition compute_hash :: "'key hmac \<Rightarrow> 'key \<Rightarrow> string \<Rightarrow> string \<Rightarrow> string" where
  "compute_hash hm key prev_hash canonical = hm key (prev_hash @ ''|'' @ canonical)"

section \<open>Datetimes in their signed form\<close>

definition days_before_month :: "int list" where
  "days_before_month = [0, 0, 31, 59, 90, 120, 151, 181, 212, 243, 273, 304, 334]"

definition days_in_month :: "int list" where
  "days_in_month = [0, 31, 28, 31, 30, 31, 30, 31, 31, 30, 31, 30, 31]"

text \<open>Year, month and day of a proleptic Gregorian ordinal, as the datetime library computes them.\<close>

definition ord2ymd :: "int \<Rightarrow> int \<times> int \<times> int" where
  "ord2ymd ordinal =
     (let n = ordinal - 1;
          n400 = n div 146097; n = n mod 146097;
          year = n400 * 400 + 1;
          n100 = n div 36524; n = n mod 36524;
          n4 = n div 1461; n = n mod 1461;
          n1 = n div 365; n = n mod 365;
          year = year + n100 * 100 + n4 * 4 + n1
      in if n1 = 4 \<or> n100 = 4 then (year - 1, 12, 31)
         else
           let leap = (n1 = 3 \<and> (n4 \<noteq> 24 \<or> n100 = 3));
               month = (n + 50) div 32;
               preceding = days_before_month ! nat month + (if 2 < month \<and> leap then 1 else 0)
           in if preceding > n
              then let month = month - 1;
                       preceding = preceding - (days_in_month ! nat month + (if month = 2 \<and> leap then 1 else 0))
                   in (year, month, n - preceding + 1)
              else (year, month, n - preceding + 1))"

definition pad_digits :: "nat \<Rightarrow> int \<Rightarrow> string" where
  "pad_digits w i = (let s = show_int i in replicate (w - length s) (CHR ''0'') @ s)"

text \<open>\<^verbatim>\<open>isoformat(timespec="microseconds")\<close> of a UTC value, with the \<^verbatim>\<open>+00:00\<close> suffix written Z.\<close>

definition isoformat_z :: "int \<Rightarrow> string" where
  "isoformat_z us =
     (let (y, m, d) = ord2ymd (us div 86400000000 + 1);
          t = us mod 86400000000
      in pad_digits 4 y @ ''-'' @ pad_digits 2 m @ ''-'' @ pad_digits 2 d @ ''T'' @
         pad_digits 2 (t div 3600000000) @ '':'' @ pad_digits 2 (t div 60000000 mod 60) @ '':'' @
         pad_digits 2 (t div 1000000 mod 60) @ ''.'' @ pad_digits 6 (t mod 1000000) @ ''Z'')"

definition canonical_datetime :: "datetime option \<Rightarrow> string" where
  "canonical_datetime value =
     (case value of
        None \<Rightarrow> ''''
      | Some v \<Rightarrow>
          (case dt_offset v of
             None \<Rightarrow> isoformat_z (dt_micros v)
           | Some off \<Rightarrow> isoformat_z (dt_micros v - off)))"

definition entry_canonical :: "audit_event \<Rightarrow> string" where
  "entry_canonical e =
     canonical_entry (ae_actor_id e) (ae_event_type e) (ae_target_type e) (ae_target_id e)
       (ae_outcome e) (ae_ip_address e) (ae_user_agent e) (ae_request_id e) (ae_details_json e)
       (canonical_datetime (ae_created_at e))"

section \<open>Appending\<close>

definition last_hash :: "audit_table \<Rightarrow> int option \<Rightarrow> string" where
  "last_hash rows before_id =
     (let rs = (case before_id of
                  None \<Rightarrow> rows
                | Some b \<Rightarrow> filter (\<lambda>e. case ae_id e of None \<Rightarrow> False | Some i \<Rightarrow> i < b) rows)
      in if rs = [] then GENESIS_HASH
         else case ae_entry_hash (last rs) of
                None \<Rightarrow> GENESIS_HASH
              | Some h \<Rightarrow> if h = '''' then GENESIS_HASH else h)"

definition seal_event ::
    "'key hmac \<Rightarrow> audit_table \<Rightarrow> audit_event \<Rightarrow> 'key \<Rightarrow> int \<Rightarrow> chain_error + audit_event" where
  "seal_event hm rows event key now =
     (if ae_id event \<noteq> None then Inl Chain_ValueError
      else
        let event = (if ae_created_at event = None
                     then event\<lparr>ae_created_at := Some (Datetime now (Some 0))\<rparr> else event);
            prev = last_hash rows None;
            event = event\<lparr>ae_prev_hash := Some prev\<rparr>
        in Inr (event\<lparr>ae_entry_hash := Some (compute_hash hm key prev (entry_canonical event))\<rparr>))"

text \<open>\<^verbatim>\<open>db.add\<close> and \<^verbatim>\<open>db.flush\<close>: the row gets the next id.\<close>

definition next_event_id :: "audit_table \<Rightarrow> int" where
  "next_event_id rows = 1 + foldl max 0 (map (\<lambda>e. case ae_id e of None \<Rightarrow> 0 | Some i \<Rightarrow> i) rows)"

definition insert_event :: "audit_table \<Rightarrow> audit_event \<Rightarrow> audit_table" where
  "insert_event rows event = rows @ [event\<lparr>ae_id := Some (next_event_id rows)\<rparr>]"

text \<open>SQLite returns the wall-clock value of a stored datetime without its offset.\<close>

definition sqlite_round_trip :: "datetime option \<Rightarrow> datetime option" where
  "sqlite_round_trip v = map_option (\<lambda>d. Datetime (dt_micros d) None) v"

section \<open>Verification\<close>

record chain_verification =
  cv_total :: nat
  cv_verified :: nat
  cv_intact :: bool
  cv_first_broken_id :: "int option"
  cv_reason :: "string option"
  cv_unsealed :: nat
  cv_first_unsealed_id :: "int option"
  cv_segments :: nat
  cv_through_id :: "int option"
  cv_through_hash :: "string option"

definition cv_coverage :: "chain_verification \<Rightarrow> rat" where
  "cv_coverage r = (if cv_total r = 0 then 1 else of_nat (cv_verified r) / of_nat (cv_total r))"

definition cv_start :: chain_verification where
  "cv_start = \<lparr>cv_total = 0, cv_verified = 0, cv_intact = True, cv_first_broken_id = None,
     cv_reason = None, cv_unsealed = 0, cv_first_unsealed_id = None, cv_segments = 1,
     cv_through_id = None, cv_through_hash = None\<rparr>"

text \<open>The loop of \<^verbatim>\<open>verify_chain\<close>: \<open>Inl\<close> is the early return with the first broken row.\<close>

fun verify_rows ::
    "'key hmac \<Rightarrow> 'key \<Rightarrow> string \<Rightarrow> chain_verification \<Rightarrow> audit_table \<Rightarrow>
     chain_verification + chain_verification" where
  "verify_rows hm key prev r [] = Inr r"
| "verify_rows hm key prev r (event # rows) =
     (let r = r\<lparr>cv_total := cv_total r + 1\<rparr>
      in case ae_entry_hash event of
           None \<Rightarrow>
             let r = r\<lparr>cv_unsealed := cv_unsealed r + 1\<rparr>;
                 r = (if cv_first_unsealed_id r = None then r\<lparr>cv_first_unsealed_id := ae_id event\<rparr> else r);
                 r = (if prev \<noteq> GENESIS_HASH then r\<lparr>cv_segments := cv_segments r + 1\<rparr> else r)
             in verify_rows hm key GENESIS_HASH r rows
         | Some h \<Rightarrow>
             if ae_prev_hash event \<noteq> Some prev
             then Inl (r\<lparr>cv_intact := False, cv_first_broken_id := ae_id event,
                         cv_reason := Some ''prev_hash_mismatch''\<rparr>)
             else
               let expected = compute_hash hm key prev (entry_canonical event)
               in if \<not> valid_sha256_digest h \<or> expected \<noteq> h
                  then Inl (r\<lparr>cv_intact := False, cv_first_broken_id := ae_id event,
                              cv_reason := Some ''entry_hash_mismatch''\<rparr>)
                  else verify_rows hm key h
                         (r\<lparr>cv_verified := cv_verified r + 1, cv_through_id := ae_id event,
                            cv_through_hash := Some h\<rparr>) rows)"

definition verify_chain ::
    "'key hmac \<Rightarrow> audit_table \<Rightarrow> 'key \<Rightarrow> nat option \<Rightarrow> bool \<Rightarrow> chain_verification" where
  "verify_chain hm rows key limit strict =
     (let rows = (case limit of None \<Rightarrow> rows | Some n \<Rightarrow> take n rows)
      in case verify_rows hm key GENESIS_HASH cv_start rows of
           Inl r \<Rightarrow> r
         | Inr r \<Rightarrow>
             let intact = (if strict then cv_verified r = cv_total r else True)
             in r\<lparr>cv_intact := intact, cv_reason := (if intact then None else Some ''unsealed_events'')\<rparr>)"

section \<open>Repair\<close>

text \<open>The first loop of \<^verbatim>\<open>reseal_unsealed\<close>: the id of a sealed row after a gap, if any.\<close>

fun sealed_after_gap :: "bool \<Rightarrow> audit_table \<Rightarrow> int option option" where
  "sealed_after_gap seen_gap [] = None"
| "sealed_after_gap seen_gap (event # rows) =
     (if ae_entry_hash event = None then sealed_after_gap True rows
      else if seen_gap then Some (ae_id event)
      else sealed_after_gap seen_gap rows)"

fun reseal_rows :: "'key hmac \<Rightarrow> 'key \<Rightarrow> int \<Rightarrow> string \<Rightarrow> nat \<Rightarrow> audit_table \<Rightarrow> audit_table \<times> nat" where
  "reseal_rows hm key now prev repaired [] = ([], repaired)"
| "reseal_rows hm key now prev repaired (event # rows) =
     (case ae_entry_hash event of
        None \<Rightarrow>
          let event = (if ae_created_at event = None
                       then event\<lparr>ae_created_at := Some (Datetime now (Some 0))\<rparr> else event);
              event = event\<lparr>ae_prev_hash := Some prev\<rparr>;
              h = compute_hash hm key prev (entry_canonical event);
              event = event\<lparr>ae_entry_hash := Some h\<rparr>;
              (rows', n) = reseal_rows hm key now h (repaired + 1) rows
          in (event # rows', n)
      | Some h \<Rightarrow>
          let (rows', n) = reseal_rows hm key now h repaired rows in (event # rows', n))"

definition reseal_unsealed ::
    "'key hmac \<Rightarrow> audit_table \<Rightarrow> 'key \<Rightarrow> int \<Rightarrow> chain_error + (audit_table \<times> nat)" where
  "reseal_unsealed hm rows key now =
     (case sealed_after_gap False rows of
        Some i \<Rightarrow> Inl (Chain_GapInside i)
      | None \<Rightarrow> Inr (reseal_rows hm key now GENESIS_HASH 0 rows))"

section \<open>Specification: a linked chain\<close>

text \<open>What the trail promises: every row carries the digest of its own fields under the digest of
  the row before it.\<close>

definition link_ok :: "'key hmac \<Rightarrow> 'key \<Rightarrow> string \<Rightarrow> audit_event \<Rightarrow> bool" where
  "link_ok hm key prev e \<longleftrightarrow>
     ae_prev_hash e = Some prev \<and>
     ae_entry_hash e = Some (compute_hash hm key prev (entry_canonical e)) \<and>
     valid_sha256_digest (compute_hash hm key prev (entry_canonical e))"

fun linked :: "'key hmac \<Rightarrow> 'key \<Rightarrow> string \<Rightarrow> audit_table \<Rightarrow> bool" where
  "linked hm key prev [] = True"
| "linked hm key prev (e # rows) =
     (link_ok hm key prev e \<and> linked hm key (compute_hash hm key prev (entry_canonical e)) rows)"

text \<open>The digest a chain ends with.\<close>

fun chain_head :: "string \<Rightarrow> audit_table \<Rightarrow> string" where
  "chain_head prev [] = prev"
| "chain_head prev (e # rows) = chain_head (case ae_entry_hash e of None \<Rightarrow> GENESIS_HASH | Some h \<Rightarrow> h) rows"

text \<open>The fields of a row the digest covers.\<close>

definition signed_fields :: "audit_event \<Rightarrow> string option list \<times> string" where
  "signed_fields e =
     ([ae_actor_id e, Some (ae_event_type e), ae_target_type e, ae_target_id e, Some (ae_outcome e),
       ae_ip_address e, ae_user_agent e, ae_request_id e, Some (ae_details_json e)],
      canonical_datetime (ae_created_at e))"

text \<open>The documented result of \<^verbatim>\<open>hexdigest\<close>.\<close>

definition hex_digests :: "'key hmac \<Rightarrow> bool" where
  "hex_digests hm \<longleftrightarrow> (\<forall>key msg. valid_sha256_digest (hm key msg))"

section \<open>Canonical entries are unambiguous\<close>

lemma canonical_entry_sorted:
  "canonical_entry actor_id event_type target_type target_id outcome ip_address user_agent request_id
     details_json created_at =
   ''{'' @ json_members False
     [(''actor_id'', jopt actor_id), (''created_at'', JStr created_at),
      (''details_json'', JStr details_json), (''event_type'', JStr event_type),
      (''ip_address'', jopt ip_address), (''outcome'', JStr outcome),
      (''request_id'', jopt request_id), (''target_id'', jopt target_id),
      (''target_type'', jopt target_type), (''user_agent'', jopt user_agent)] @ ''}''"
  by (simp add: canonical_entry_def json_dumps_def less_eq_char_def del: json_members.simps)

lemma entry_canonical_inject:
  assumes "entry_canonical e = entry_canonical e'"
  shows "signed_fields e = signed_fields e'"
proof -
  define ms where "ms = (\<lambda>e::audit_event. [(''actor_id'', jopt (ae_actor_id e)),
      (''created_at'', JStr (canonical_datetime (ae_created_at e))),
      (''details_json'', JStr (ae_details_json e)), (''event_type'', JStr (ae_event_type e)),
      (''ip_address'', jopt (ae_ip_address e)), (''outcome'', JStr (ae_outcome e)),
      (''request_id'', jopt (ae_request_id e)), (''target_id'', jopt (ae_target_id e)),
      (''target_type'', jopt (ae_target_type e)), (''user_agent'', jopt (ae_user_agent e))])"
  have "entry_canonical e = ''{'' @ json_members False (ms e) @ ''}''" for e
    unfolding entry_canonical_def canonical_entry_sorted ms_def ..
  then have "json_members False (ms e) @ ''}'' = json_members False (ms e') @ ''}''"
    using assms by simp
  then have "ms e = ms e'"
    by (rule json_members_inject)
  then show ?thesis
    by (simp add: ms_def signed_fields_def)
qed

lemma entry_canonical_fields [simp]:
  "entry_canonical (e\<lparr>ae_id := i\<rparr>) = entry_canonical e"
  "entry_canonical (e\<lparr>ae_prev_hash := p\<rparr>) = entry_canonical e"
  "entry_canonical (e\<lparr>ae_entry_hash := h\<rparr>) = entry_canonical e"
  by (simp_all add: entry_canonical_def)

section \<open>Verification decides whether the chain is linked\<close>

lemma link_ok_entry_hash: "link_ok hm key prev e \<Longrightarrow> ae_entry_hash e = Some (compute_hash hm key prev (entry_canonical e))"
  by (simp add: link_ok_def)

lemma verify_rows_linked:
  "linked hm key prev rows \<Longrightarrow>
     \<exists>r'. verify_rows hm key prev r rows = Inr r' \<and> cv_total r' = cv_total r + length rows \<and>
          cv_verified r' = cv_verified r + length rows \<and>
          cv_through_hash r' = (if rows = [] then cv_through_hash r else Some (chain_head prev rows)) \<and>
          cv_through_id r' = (if rows = [] then cv_through_id r else ae_id (last rows))"
proof (induction rows arbitrary: prev r)
  case Nil
  then show ?case by simp
next
  case (Cons e rows)
  define h where "h = compute_hash hm key prev (entry_canonical e)"
  define r1 where "r1 = r\<lparr>cv_total := cv_total r + 1, cv_verified := cv_verified r + 1,
      cv_through_id := ae_id e, cv_through_hash := Some h\<rparr>"
  have e: "ae_prev_hash e = Some prev" "ae_entry_hash e = Some h" "valid_sha256_digest h" "linked hm key h rows"
    using Cons.prems by (auto simp: link_ok_def h_def)
  have "verify_rows hm key prev r (e # rows) = verify_rows hm key h r1 rows"
    using e by (simp add: h_def r1_def Let_def)
  then show ?case
    using Cons.IH[OF e(4), of r1] e(2) by (auto simp: r1_def)
qed

lemma verify_rows_Inr:
  "verify_rows hm key prev r rows = Inr r' \<Longrightarrow>
     cv_total r' = cv_total r + length rows \<and>
     cv_verified r' + cv_unsealed r' = cv_verified r + cv_unsealed r + length rows \<and>
     cv_unsealed r \<le> cv_unsealed r' \<and>
     (cv_unsealed r' = cv_unsealed r \<longrightarrow> linked hm key prev rows)"
proof (induction rows arbitrary: prev r)
  case Nil
  then show ?case by simp
next
  case (Cons e rows)
  show ?case
  proof (cases "ae_entry_hash e")
    case None
    obtain r1 where r1: "verify_rows hm key GENESIS_HASH r1 rows = Inr r'" "cv_total r1 = cv_total r + 1"
        "cv_unsealed r1 = cv_unsealed r + 1" "cv_verified r1 = cv_verified r"
      using Cons.prems None by (auto simp: Let_def split: if_splits)
    then show ?thesis
      using Cons.IH[OF r1(1)] by auto
  next
    case (Some h)
    then have e: "ae_prev_hash e = Some prev" "valid_sha256_digest h" "compute_hash hm key prev (entry_canonical e) = h"
      using Cons.prems by (auto simp: Let_def split: if_splits)
    obtain r1 where r1: "verify_rows hm key h r1 rows = Inr r'" "cv_total r1 = cv_total r + 1"
        "cv_unsealed r1 = cv_unsealed r" "cv_verified r1 = cv_verified r + 1"
      using Cons.prems Some e by (auto simp: Let_def split: if_splits)
    then show ?thesis
      using Cons.IH[OF r1(1)] e Some by (auto simp: link_ok_def)
  qed
qed

lemma verify_rows_Inl: "verify_rows hm key prev r rows = Inl r' \<Longrightarrow> \<not> cv_intact r'"
proof (induction rows arbitrary: prev r)
  case Nil
  then show ?case by simp
next
  case (Cons e rows)
  then show ?case
    by (auto simp: Let_def split: option.splits if_splits)
qed

lemma verify_chain_linked_iff:
  "cv_intact (verify_chain hm rows key None True) \<longleftrightarrow> linked hm key GENESIS_HASH rows"
proof
  assume "linked hm key GENESIS_HASH rows"
  then show "cv_intact (verify_chain hm rows key None True)"
    using verify_rows_linked[of hm key GENESIS_HASH rows cv_start]
    by (auto simp: verify_chain_def Let_def cv_start_def)
next
  assume i: "cv_intact (verify_chain hm rows key None True)"
  then obtain r where r: "verify_rows hm key GENESIS_HASH cv_start rows = Inr r"
    using verify_rows_Inl[of hm key GENESIS_HASH cv_start rows]
    by (fastforce simp: verify_chain_def split: sum.splits)
  then have "cv_verified r = cv_total r"
    using i by (auto simp: verify_chain_def Let_def split: if_splits)
  then show "linked hm key GENESIS_HASH rows"
    using verify_rows_Inr[OF r] by (simp add: cv_start_def)
qed

lemma verify_chain_through:
  assumes "linked hm key GENESIS_HASH rows"
  shows "cv_through_hash (verify_chain hm rows key None True) =
           (if rows = [] then None else Some (chain_head GENESIS_HASH rows))"
    and "cv_total (verify_chain hm rows key None True) = length rows"
    and "cv_through_id (verify_chain hm rows key None True) = (if rows = [] then None else ae_id (last rows))"
  using verify_rows_linked[OF assms, of cv_start] by (auto simp: verify_chain_def Let_def cv_start_def)

section \<open>Chains as snoc lists\<close>

lemma chain_head_snoc [simp]:
  "chain_head prev (rows @ [e]) = (case ae_entry_hash e of None \<Rightarrow> GENESIS_HASH | Some h \<Rightarrow> h)"
  by (induction rows arbitrary: prev) auto

lemma linked_append:
  "linked hm key prev (xs @ ys) \<longleftrightarrow> linked hm key prev xs \<and> linked hm key (chain_head prev xs) ys"
proof (induction xs arbitrary: prev)
  case Nil
  then show ?case by simp
next
  case (Cons e xs)
  then show ?case
    by (cases "link_ok hm key prev e") (simp_all add: link_ok_entry_hash)
qed

lemma GENESIS_valid: "valid_sha256_digest GENESIS_HASH"
  by (simp add: valid_sha256_digest_def GENESIS_HASH_def list_all_iff)

lemma chain_head_valid:
  "linked hm key prev rows \<Longrightarrow> valid_sha256_digest prev \<Longrightarrow> valid_sha256_digest (chain_head prev rows)"
proof (induction rows arbitrary: prev)
  case Nil
  then show ?case by simp
next
  case (Cons e rows)
  then show ?case
    by (simp add: link_ok_entry_hash) (simp add: link_ok_def)
qed

lemma last_hash_linked:
  assumes "linked hm key GENESIS_HASH rows"
  shows "last_hash rows None = chain_head GENESIS_HASH rows"
proof (cases rows rule: rev_cases)
  case Nil
  then show ?thesis by (simp add: last_hash_def)
next
  case (snoc xs e)
  then show ?thesis
    using chain_head_valid[OF assms GENESIS_valid]
    by (auto simp: last_hash_def valid_sha256_digest_def split: option.splits)
qed

lemma seal_insert_linked:
  assumes "hex_digests hm" and "linked hm key GENESIS_HASH rows" and "seal_event hm rows e key now = Inr e'"
  shows "linked hm key GENESIS_HASH (insert_event rows e')"
    and "chain_head GENESIS_HASH (insert_event rows e') = the (ae_entry_hash e')"
proof -
  have "link_ok hm key (chain_head GENESIS_HASH rows) (e'\<lparr>ae_id := i\<rparr>)" for i
    using assms last_hash_linked[OF assms(2)]
    by (auto simp: seal_event_def Let_def link_ok_def hex_digests_def compute_hash_def split: if_splits)
  then show "linked hm key GENESIS_HASH (insert_event rows e')"
    using assms(2) by (simp add: insert_event_def linked_append)
  show "chain_head GENESIS_HASH (insert_event rows e') = the (ae_entry_hash e')"
    using assms(3) by (auto simp: insert_event_def seal_event_def Let_def split: if_splits)
qed

section \<open>Tampering needs a collision\<close>

lemma append_separator_inject:
  assumes "valid_sha256_digest p" and "valid_sha256_digest q" and "p @ ''|'' @ c = q @ ''|'' @ d"
  shows "p = q \<and> c = d"
  using assms by (auto simp: valid_sha256_digest_def)

text \<open>The strings whose HMACs the rows of a table carry: the digest before the row, a separator and the signed fields.\<close>

definition sealed_messages :: "audit_table \<Rightarrow> string set" where
  "sealed_messages rows = (\<lambda>e. (case ae_prev_hash e of None \<Rightarrow> [] | Some p \<Rightarrow> p) @ ''|'' @ entry_canonical e) ` set rows"

lemma sealed_messages_append: "sealed_messages (xs @ ys) = sealed_messages xs \<union> sealed_messages ys"
  by (simp add: sealed_messages_def image_Un)

lemma tampering_cases:
  assumes "linked hm key GENESIS_HASH rows" and "linked hm key GENESIS_HASH rows'"
    and "chain_head GENESIS_HASH rows = chain_head GENESIS_HASH rows'"
  shows "map signed_fields rows = map signed_fields rows' \<or>
         (\<exists>m\<in>sealed_messages rows. \<exists>m'\<in>sealed_messages rows'. m \<noteq> m' \<and> hm key m = hm key m') \<or>
         (\<exists>m\<in>sealed_messages rows \<union> sealed_messages rows'. hm key m = GENESIS_HASH)"
  using assms
proof (induction rows arbitrary: rows' rule: rev_induct)
  case Nil
  show ?case
  proof (cases rows' rule: rev_cases)
    case Nil
    then show ?thesis by simp
  next
    case (snoc ys e)
    then show ?thesis
      using Nil.prems by (auto simp: linked_append link_ok_def compute_hash_def sealed_messages_def dest!: sym[of GENESIS_HASH])
  qed
next
  case (snoc e xs)
  define p where "p = chain_head GENESIS_HASH xs"
  have e: "linked hm key GENESIS_HASH xs" "ae_entry_hash e = Some (hm key (p @ ''|'' @ entry_canonical e))"
      "p @ ''|'' @ entry_canonical e \<in> sealed_messages (xs @ [e])"
    using snoc.prems(1) by (simp_all add: linked_append link_ok_def compute_hash_def p_def sealed_messages_def)
  show ?case
  proof (cases rows' rule: rev_cases)
    case Nil
    then show ?thesis using snoc.prems(3) e(2,3) by auto
  next
    case (snoc ys e')
    define q where "q = chain_head GENESIS_HASH ys"
    have e': "linked hm key GENESIS_HASH ys" "ae_entry_hash e' = Some (hm key (q @ ''|'' @ entry_canonical e'))"
        "q @ ''|'' @ entry_canonical e' \<in> sealed_messages rows'"
      using snoc.prems(2) snoc by (simp_all add: linked_append link_ok_def compute_hash_def q_def sealed_messages_def)
    have h: "hm key (p @ ''|'' @ entry_canonical e) = hm key (q @ ''|'' @ entry_canonical e')"
      using snoc.prems(3) snoc e(2) e'(2) by simp
    show ?thesis
    proof (cases "p @ ''|'' @ entry_canonical e = q @ ''|'' @ entry_canonical e'")
      case False
      then show ?thesis using h e(3) e'(3) by blast
    next
      case True
      have "valid_sha256_digest p" "valid_sha256_digest q"
        using chain_head_valid[OF e(1) GENESIS_valid] chain_head_valid[OF e'(1) GENESIS_valid]
        by (simp_all add: p_def q_def)
      then have pq: "p = q" and "signed_fields e = signed_fields e'"
        using append_separator_inject[OF _ _ True] entry_canonical_inject by blast+
      then show ?thesis
        using snoc.IH[OF e(1) e'(1)] \<open>rows' = ys @ [e']\<close> by (auto simp: p_def q_def sealed_messages_append)
    qed
  qed
qed

section \<open>Repair\<close>

definition sealed :: "audit_event \<Rightarrow> bool" where
  "sealed e \<longleftrightarrow> ae_entry_hash e \<noteq> None"

lemma unsealed_iff: "ae_entry_hash e = None \<longleftrightarrow> \<not> sealed e"
  by (simp add: sealed_def)

lemma sealed_after_gap_seen: "sealed_after_gap True rows = None \<longleftrightarrow> (\<forall>e\<in>set rows. \<not> sealed e)"
  by (induction rows) (simp_all add: unsealed_iff)

lemma sealed_after_gap_None:
  "sealed_after_gap False rows = None \<longleftrightarrow> (\<forall>e\<in>set (dropWhile sealed rows). \<not> sealed e)"
  by (induction rows) (simp_all add: unsealed_iff sealed_after_gap_seen)

lemma reseal_rows_tail:
  assumes "hex_digests hm" and "\<forall>e\<in>set rows. \<not> sealed e"
  shows "linked hm key prev (fst (reseal_rows hm key now prev n rows)) \<and>
         snd (reseal_rows hm key now prev n rows) = n + length rows"
  using assms(2)
proof (induction rows arbitrary: prev n)
  case Nil
  then show ?case by simp
next
  case (Cons e rows)
  define e1 where "e1 = (if ae_created_at e = None then e\<lparr>ae_created_at := Some (Datetime now (Some 0))\<rparr> else e)
      \<lparr>ae_prev_hash := Some prev\<rparr>"
  define h where "h = compute_hash hm key prev (entry_canonical e1)"
  have "reseal_rows hm key now prev n (e # rows) =
      (e1\<lparr>ae_entry_hash := Some h\<rparr> # fst (reseal_rows hm key now h (n + 1) rows),
       snd (reseal_rows hm key now h (n + 1) rows))"
    using Cons.prems by (simp add: sealed_def e1_def h_def Let_def split: prod.split)
  moreover have "link_ok hm key prev (e1\<lparr>ae_entry_hash := Some h\<rparr>)"
    using assms(1) by (simp add: link_ok_def h_def hex_digests_def compute_hash_def) (simp add: e1_def)
  ultimately show ?case
    using Cons.IH[of h "n + 1"] Cons.prems by (simp add: h_def)
qed

lemma reseal_rows_sealed:
  assumes "\<forall>e\<in>set xs. sealed e"
  shows "reseal_rows hm key now prev n (xs @ ys) =
           (xs @ fst (reseal_rows hm key now (chain_head prev xs) n ys),
            snd (reseal_rows hm key now (chain_head prev xs) n ys))"
  using assms by (induction xs arbitrary: prev) (auto simp: sealed_def split: prod.splits)

section \<open>A small instance\<close>

text \<open>A keyed checksum in the format of a hex digest and one event, for evaluating the operations.\<close>

definition demo_hmac :: "nat hmac" where
  "demo_hmac key msg = replicate 63 (CHR ''0'') @ [hex_digit ((key + length msg) mod 16)]"

definition demo_event :: audit_event where
  "demo_event = \<lparr>ae_id = None, ae_actor_id = Some ''u1'', ae_event_type = ''auth.login'', ae_target_type = None,
     ae_target_id = None, ae_outcome = ''success'', ae_ip_address = Some ''10.0.0.1'', ae_user_agent = None,
     ae_request_id = None, ae_details_json = ''{}'', ae_created_at = None, ae_prev_hash = None, ae_entry_hash = None\<rparr>"

definition demo_sealed :: audit_event where
  "demo_sealed = projr (seal_event demo_hmac [] demo_event 5 0)"

lemma demo_hmac_digests: "hex_digests demo_hmac"
proof -
  have "list_all (\<lambda>n. hex_digit n \<in> set ''0123456789abcdef'') [0..<16]"
    by code_simp
  then have "hex_digit n \<in> set ''0123456789abcdef''" if "n < 16" for n
    using that by (simp add: list_all_iff)
  then show ?thesis
    by (simp add: hex_digests_def valid_sha256_digest_def demo_hmac_def list_all_iff)
qed

lemma demo_sealed_eq: "seal_event demo_hmac [] demo_event 5 0 = Inr demo_sealed"
  by (simp add: demo_sealed_def seal_event_def demo_event_def Let_def)

lemma demo_sealed_verifies: "cv_intact (verify_chain demo_hmac [demo_sealed\<lparr>ae_id := i\<rparr>] 5 None True)"
  using seal_insert_linked(1)[OF demo_hmac_digests _ demo_sealed_eq]
  by (simp add: verify_chain_linked_iff insert_event_def link_ok_def)

section \<open>Properties\<close>

text \<open>Strict verification reports an intact chain exactly when every row is sealed with the digest of
  its fields under the digest of the row before it, starting from the genesis value.\<close>

theorem verify_chain_correct:
  "cv_intact (verify_chain hm rows key None True) \<longleftrightarrow> linked hm key GENESIS_HASH rows"
  by (rule verify_chain_linked_iff)

text \<open>C6: Tamper evidence: if two tables both verify and end in the same recorded digest (the value a
  checkpoint keeps), then they agree row by row on every signed field; or the forger found a row of each table whose two
  different signed strings have the same HMAC under the audit key, or a row whose HMAC is the genesis value.
  Editing, deleting, reordering or inserting rows is therefore detected short of breaking the HMAC on these very rows.\<close>

theorem audit_tamper_evidence:
  assumes "cv_intact (verify_chain hm rows key None True)"
    and "cv_intact (verify_chain hm rows' key None True)"
    and "cv_through_hash (verify_chain hm rows key None True) = cv_through_hash (verify_chain hm rows' key None True)"
  shows "map signed_fields rows = map signed_fields rows' \<or>
         (\<exists>m\<in>sealed_messages rows. \<exists>m'\<in>sealed_messages rows'. m \<noteq> m' \<and> hm key m = hm key m') \<or>
         (\<exists>m\<in>sealed_messages rows \<union> sealed_messages rows'. hm key m = GENESIS_HASH)"
proof -
  have l: "linked hm key GENESIS_HASH rows" "linked hm key GENESIS_HASH rows'"
    using assms(1,2) by (simp_all add: verify_chain_linked_iff)
  have "chain_head GENESIS_HASH rows = chain_head GENESIS_HASH rows'"
    using assms(3) l by (simp add: verify_chain_through split: if_splits)
  then show ?thesis
    by (rule tampering_cases[OF l])
qed

theorem audit_tamper_evidence_witness:
  "map signed_fields [demo_sealed\<lparr>ae_id := Some 1\<rparr>] = map signed_fields [demo_sealed\<lparr>ae_id := Some 7\<rparr>] \<or>
   (\<exists>m\<in>sealed_messages [demo_sealed\<lparr>ae_id := Some 1\<rparr>]. \<exists>m'\<in>sealed_messages [demo_sealed\<lparr>ae_id := Some 7\<rparr>]. m \<noteq> m' \<and> demo_hmac 5 m = demo_hmac 5 m') \<or>
   (\<exists>m\<in>sealed_messages [demo_sealed\<lparr>ae_id := Some 1\<rparr>] \<union> sealed_messages [demo_sealed\<lparr>ae_id := Some 7\<rparr>]. demo_hmac 5 m = GENESIS_HASH)"
  by (rule audit_tamper_evidence[OF demo_sealed_verifies demo_sealed_verifies])
    (use demo_sealed_verifies in \<open>simp add: verify_chain_linked_iff verify_chain_through\<close>)

text \<open>Sealing a new event and inserting it keeps an intact chain intact, and verification then
  reaches the new row: one more row, through the new digest.\<close>

theorem seal_event_keeps_intact:
  assumes "hex_digests hm" and "cv_intact (verify_chain hm rows key None True)"
    and "seal_event hm rows e key now = Inr e'"
  shows "cv_intact (verify_chain hm (insert_event rows e') key None True) \<and>
    cv_total (verify_chain hm (insert_event rows e') key None True) =
      cv_total (verify_chain hm rows key None True) + 1 \<and>
    cv_through_hash (verify_chain hm (insert_event rows e') key None True) = ae_entry_hash e'"
proof -
  have l: "linked hm key GENESIS_HASH rows"
    using assms(2) by (simp add: verify_chain_linked_iff)
  note l' = seal_insert_linked[OF assms(1) l assms(3)]
  have "ae_entry_hash e' \<noteq> None"
    using assms(3) by (auto simp: seal_event_def Let_def split: if_splits)
  then show ?thesis
    using l' verify_chain_through[OF l] verify_chain_through[OF l'(1)]
    by (auto simp: verify_chain_linked_iff insert_event_def)
qed

theorem seal_event_keeps_intact_witness:
  "cv_intact (verify_chain demo_hmac (insert_event [] demo_sealed) 5 None True) \<and>
   cv_total (verify_chain demo_hmac (insert_event [] demo_sealed) 5 None True) = 1"
proof -
  have "cv_intact (verify_chain demo_hmac [] 5 None True)" "cv_total (verify_chain demo_hmac [] 5 None True) = 0"
    by (simp_all add: verify_chain_def cv_start_def)
  then show ?thesis
    using seal_event_keeps_intact[OF demo_hmac_digests _ demo_sealed_eq] by simp
qed

text \<open>Repair never launders a tampered row. When it succeeds, the sealed rows (a prefix) are
  unchanged, every unsealed row was sealed and counted, and the repaired table verifies exactly
  when the sealed prefix did.\<close>

theorem reseal_unsealed_correct:
  assumes "hex_digests hm" and "reseal_unsealed hm rows key now = Inr (rows', n)"
  shows "take (length (takeWhile sealed rows)) rows' = takeWhile sealed rows \<and>
    length rows' = length rows \<and> n = length (filter (\<lambda>e. \<not> sealed e) rows) \<and>
    (cv_intact (verify_chain hm rows' key None True) \<longleftrightarrow>
     cv_intact (verify_chain hm (takeWhile sealed rows) key None True))"
proof -
  define xs where "xs = takeWhile sealed rows"
  define ys where "ys = dropWhile sealed rows"
  have rows: "rows = xs @ ys" and xs: "\<forall>e\<in>set xs. sealed e"
    by (auto simp: xs_def ys_def dest: set_takeWhileD)
  have ys: "\<forall>e\<in>set ys. \<not> sealed e"
    using assms(2) sealed_after_gap_None[of rows]
    by (auto simp: reseal_unsealed_def ys_def split: option.splits)
  define h where "h = chain_head GENESIS_HASH xs"
  have r: "rows' = xs @ fst (reseal_rows hm key now h 0 ys)" "n = snd (reseal_rows hm key now h 0 ys)"
    using assms(2) reseal_rows_sealed[OF xs, of hm key now GENESIS_HASH 0 ys] rows
    by (auto simp: reseal_unsealed_def h_def split: option.splits)
  note t = reseal_rows_tail[OF assms(1) ys, of key h now 0]
  have len: "length (fst (reseal_rows hm key now p m zs)) = length zs" for p m zs
    by (induction zs arbitrary: p m) (auto simp: Let_def split: option.splits prod.splits, (metis fst_conv)+)
  have "length (filter (\<lambda>e. \<not> sealed e) rows) = length ys" "length rows = length xs + length ys"
    using xs ys rows by (simp_all add: filter_empty_conv)
  then show ?thesis
    using r t len by (simp add: xs_def[symmetric] verify_chain_linked_iff linked_append h_def)
qed

theorem reseal_unsealed_correct_witness:
  "take 1 (fst (projr (reseal_unsealed demo_hmac [demo_sealed\<lparr>ae_id := Some 1\<rparr>, demo_event\<lparr>ae_id := Some 2\<rparr>] 5 9)))
     = [demo_sealed\<lparr>ae_id := Some 1\<rparr>] \<and>
   snd (projr (reseal_unsealed demo_hmac [demo_sealed\<lparr>ae_id := Some 1\<rparr>, demo_event\<lparr>ae_id := Some 2\<rparr>] 5 9)) = 1 \<and>
   cv_intact (verify_chain demo_hmac (fst (projr (reseal_unsealed demo_hmac
     [demo_sealed\<lparr>ae_id := Some 1\<rparr>, demo_event\<lparr>ae_id := Some 2\<rparr>] 5 9))) 5 None True)"
proof -
  let ?rows = "[demo_sealed\<lparr>ae_id := Some 1\<rparr>, demo_event\<lparr>ae_id := Some 2\<rparr>]"
  have s: "sealed (demo_sealed\<lparr>ae_id := i\<rparr>)" "\<not> sealed (demo_event\<lparr>ae_id := i\<rparr>)" for i
    by (simp_all add: sealed_def demo_sealed_def seal_event_def demo_event_def Let_def)
  have "sealed_after_gap False ?rows = None"
    using s(1)[of "Some 1"] s(2)[of "Some 2"] by (simp add: sealed_def)
  then obtain rows' n where r: "reseal_unsealed demo_hmac ?rows 5 9 = Inr (rows', n)"
    by (cases "reseal_rows demo_hmac 5 9 GENESIS_HASH 0 ?rows") (simp add: reseal_unsealed_def)
  show ?thesis
    using reseal_unsealed_correct[OF demo_hmac_digests r] demo_sealed_verifies[of "Some 1"] r s by simp
qed

lemma verify_rows_break:
  "verify_rows hm key prev r rows = Inl r' \<Longrightarrow>
     \<exists>xs e ys. rows = xs @ e # ys \<and> cv_first_broken_id r' = ae_id e \<and> sealed e \<and>
       \<not> link_ok hm key (chain_head prev xs) e \<and> cv_total r' = cv_total r + length xs + 1 \<and>
       (\<exists>r''. verify_rows hm key prev r xs = Inr r'')"
proof (induction rows arbitrary: prev r)
  case Nil
  then show ?case by simp
next
  case (Cons e rows)
  define h where "h = (case ae_entry_hash e of None \<Rightarrow> GENESIS_HASH | Some h \<Rightarrow> h)"
  show ?case
  proof (cases "sealed e \<and> \<not> link_ok hm key prev e")
    case True
    then have "cv_first_broken_id r' = ae_id e \<and> cv_total r' = cv_total r + 1"
      using Cons.prems by (auto simp: sealed_def link_ok_def Let_def split: option.splits if_splits)
    then show ?thesis
      using True by (intro exI[of _ "[]"]) auto
  next
    case False
    obtain r1 where r1: "cv_total r1 = cv_total r + 1"
        "\<And>zs. verify_rows hm key prev r (e # zs) = verify_rows hm key h r1 zs"
    proof (cases "ae_entry_hash e")
      case None
      then show ?thesis
        by (intro that) (auto simp: h_def Let_def)
    next
      case (Some g)
      then have "link_ok hm key prev e"
        using False by (simp add: sealed_def)
      then show ?thesis
        using Some by (intro that) (auto simp: h_def link_ok_def Let_def)
    qed
    then obtain xs f ys where "rows = xs @ f # ys" "cv_first_broken_id r' = ae_id f" "sealed f"
        "\<not> link_ok hm key (chain_head h xs) f" "cv_total r' = cv_total r1 + length xs + 1"
        "\<exists>r''. verify_rows hm key h r1 xs = Inr r''"
      using Cons.IH[of h r1] Cons.prems by auto
    then show ?thesis
      using r1 by (intro exI[of _ "e # xs"] exI[of _ f] exI[of _ ys]) (simp add: h_def)
  qed
qed

text \<open>A reported break is located exactly: the first broken id is the id of a sealed row whose link to
  its predecessor fails, the count stops at that row, and no earlier row is broken.\<close>

theorem verify_chain_locates_break:
  assumes "cv_reason (verify_chain hm rows key None strict) = Some reason" and "reason \<noteq> ''unsealed_events''"
  shows "\<exists>xs e ys. rows = xs @ e # ys \<and> sealed e \<and> \<not> link_ok hm key (chain_head GENESIS_HASH xs) e \<and>
    cv_first_broken_id (verify_chain hm rows key None strict) = ae_id e \<and>
    cv_total (verify_chain hm rows key None strict) = length xs + 1 \<and>
    cv_first_broken_id (verify_chain hm xs key None strict) = None"
proof -
  have fb: "verify_rows hm key prev r zs = Inr r' \<Longrightarrow> cv_first_broken_id r' = cv_first_broken_id r" for prev r zs r'
    by (induction zs arbitrary: prev r) (auto simp: Let_def split: option.splits if_splits)
  obtain r' where r': "verify_rows hm key GENESIS_HASH cv_start rows = Inl r'"
    using assms by (auto simp: verify_chain_def Let_def split: sum.splits if_splits)
  then have v: "verify_chain hm rows key None strict = r'"
    by (simp add: verify_chain_def)
  show ?thesis
    using verify_rows_break[OF r'] fb v by (fastforce simp: verify_chain_def cv_start_def Let_def)
qed

theorem verify_chain_locates_break_witness:
  "cv_first_broken_id (verify_chain demo_hmac [demo_sealed\<lparr>ae_id := Some 4, ae_prev_hash := None\<rparr>] 5 None True) = Some 4"
proof -
  let ?v = "verify_chain demo_hmac [demo_sealed\<lparr>ae_id := Some 4, ae_prev_hash := None\<rparr>] 5 None True"
  have "cv_reason ?v = Some ''prev_hash_mismatch''"
    by (simp add: verify_chain_def demo_sealed_def seal_event_def demo_event_def Let_def)
  then obtain xs e ys where "[demo_sealed\<lparr>ae_id := Some 4, ae_prev_hash := None\<rparr>] = xs @ e # ys"
      "cv_first_broken_id ?v = ae_id e"
    using verify_chain_locates_break[of demo_hmac "[demo_sealed\<lparr>ae_id := Some 4, ae_prev_hash := None\<rparr>]" 5 True
        "''prev_hash_mismatch''"] by auto
  then show ?thesis
    by (cases xs) auto
qed

end
