(* ===== verification/Pystr.thy ===== *)
theory Pystr
  imports Json
begin

text \<open>
  The string methods the application uses, on code points 0 to 255 (HTTP header values are decoded as
  Latin-1): \<^verbatim>\<open>strip\<close>, \<^verbatim>\<open>startswith\<close>, \<^verbatim>\<open>isdigit\<close>, \<^verbatim>\<open>int\<close>, \<^verbatim>\<open>lower\<close>,
  \<^verbatim>\<open>replace\<close> of one character, \<^verbatim>\<open>encode("ascii", "replace")\<close>, \<^verbatim>\<open>in\<close> and \<^verbatim>\<open>join\<close>.

  \<^verbatim>\<open>isdigit\<close> is true of the superscripts 0xB2, 0xB3 and 0xB9, which \<^verbatim>\<open>int\<close> refuses.
\<close>

abbreviation code :: "char \<Rightarrow> nat" where
  "code \<equiv> of_char"

definition is_space :: "char \<Rightarrow> bool" where
  "is_space c \<longleftrightarrow> code c \<in> {9, 10, 11, 12, 13, 28, 29, 30, 31, 32, 133, 160}"

definition py_lstrip :: "string \<Rightarrow> string" where
  "py_lstrip s = dropWhile is_space s"

definition py_rstrip :: "string \<Rightarrow> string" where
  "py_rstrip s = rev (dropWhile is_space (rev s))"

definition py_strip :: "string \<Rightarrow> string" where
  "py_strip s = py_rstrip (py_lstrip s)"

text \<open>\<^verbatim>\<open>s.rstrip("/")\<close>\<close>

definition rstrip_char :: "char \<Rightarrow> string \<Rightarrow> string" where
  "rstrip_char c s = rev (dropWhile (\<lambda>d. d = c) (rev s))"

fun startswith :: "string \<Rightarrow> string \<Rightarrow> bool" where
  "startswith s [] = True"
| "startswith [] (p # ps) = False"
| "startswith (c # s) (p # ps) = (c = p \<and> startswith s ps)"

fun contains :: "string \<Rightarrow> string \<Rightarrow> bool" where
  "contains [] p = (p = [])"
| "contains (c # s) p = (startswith (c # s) p \<or> contains s p)"

definition replace_char :: "char \<Rightarrow> char \<Rightarrow> string \<Rightarrow> string" where
  "replace_char c d s = map (\<lambda>x. if x = c then d else x) s"

definition single_line :: "string \<Rightarrow> string" where
  "single_line s = replace_char (CHR 0x0A) (CHR '' '') (replace_char (CHR 0x0D) (CHR '' '') s)"

definition is_upper :: "char \<Rightarrow> bool" where
  "is_upper c \<longleftrightarrow> 65 \<le> code c \<and> code c \<le> 90"

definition is_lower :: "char \<Rightarrow> bool" where
  "is_lower c \<longleftrightarrow> 97 \<le> code c \<and> code c \<le> 122"

definition is_ascii_alnum :: "char \<Rightarrow> bool" where
  "is_ascii_alnum c \<longleftrightarrow> is_upper c \<or> is_lower c \<or> is_digit c"

text \<open>Lower case of Latin-1: A to Z, and 0xC0 to 0xDE without the multiplication sign.\<close>

definition lower_char :: "char \<Rightarrow> char" where
  "lower_char c = (if is_upper c \<or> (192 \<le> code c \<and> code c \<le> 222 \<and> code c \<noteq> 215)
                   then char_of (code c + 32) else c)"

definition py_lower :: "string \<Rightarrow> string" where
  "py_lower s = map lower_char s"

definition isdigit_char :: "char \<Rightarrow> bool" where
  "isdigit_char c \<longleftrightarrow> is_digit c \<or> code c \<in> {178, 179, 185}"

definition py_isdigit :: "string \<Rightarrow> bool" where
  "py_isdigit s \<longleftrightarrow> s \<noteq> [] \<and> list_all isdigit_char s"

text \<open>\<^verbatim>\<open>int(s)\<close> of a text for which \<^verbatim>\<open>isdigit\<close> holds; \<open>None\<close> is the \<^verbatim>\<open>ValueError\<close>.\<close>

definition int_of_digits :: "string \<Rightarrow> int option" where
  "int_of_digits s = (if s \<noteq> [] \<and> list_all is_digit s then Some (int (digits_value s)) else None)"

definition encode_ascii_replace :: "string \<Rightarrow> string" where
  "encode_ascii_replace s = map (\<lambda>c. if code c < 128 then c else CHR ''?'') s"

fun join :: "string \<Rightarrow> string list \<Rightarrow> string" where
  "join sep [] = []"
| "join sep [s] = s"
| "join sep (s # ss) = s @ sep @ join sep ss"

section \<open>Lemmas\<close>

lemma startswith_iff: "startswith s p \<longleftrightarrow> (\<exists>r. s = p @ r)"
  by (induction s p rule: startswith.induct) auto

lemma contains_iff: "contains s p \<longleftrightarrow> (\<exists>a b. s = a @ p @ b)"
proof (induction s)
  case Nil
  then show ?case by simp
next
  case (Cons c s)
  show ?case
  proof
    assume "contains (c # s) p"
    then show "\<exists>a b. c # s = a @ p @ b"
      using Cons.IH by (auto simp: startswith_iff) (metis append_Cons append_Nil)+
  next
    assume "\<exists>a b. c # s = a @ p @ b"
    then obtain a b where ab: "c # s = a @ p @ b" by blast
    show "contains (c # s) p"
    proof (cases a)
      case Nil
      then have "startswith (c # s) p" using ab by (simp add: startswith_iff)
      then show ?thesis by simp
    next
      case (Cons d a')
      then have "contains s p" using ab Cons.IH by auto
      then show ?thesis by simp
    qed
  qed
qed

lemma length_show_nat: "n < 10 ^ Suc k \<Longrightarrow> length (show_nat n) \<le> Suc k"
proof (induction k arbitrary: n)
  case 0
  then show ?case by (simp add: show_nat.simps[of n])
next
  case (Suc k)
  show ?case
  proof (cases "n < 10")
    case True
    then show ?thesis by (simp add: show_nat.simps[of n])
  next
    case False
    have "n div 10 < 10 ^ Suc k"
      using Suc.prems by (simp add: less_mult_imp_div_less)
    then have "length (show_nat (n div 10)) \<le> Suc k" by (rule Suc.IH)
    then show ?thesis using False by (simp add: show_nat.simps[of n])
  qed
qed

lemma show_nat_isdigit: "py_isdigit (show_nat n)"
  by (auto simp: py_isdigit_def list_all_iff isdigit_char_def dest: show_nat_digits)

lemma int_of_digits_show [simp]: "int_of_digits (show_nat n) = Some (int n)"
  by (auto simp: int_of_digits_def list_all_iff digits_value_show dest: show_nat_digits)

text \<open>A field without the separator can be split off a joined text.\<close>

lemma split_field_inject:
  assumes "c \<notin> set a" "c \<notin> set b" "a @ c # x = b @ c # y"
  shows "a = b \<and> x = y"
  using assms by (induction a arbitrary: b) (case_tac b; auto)+

lemma encode_ascii_replace_id: "list_all (\<lambda>c. code c < 128) s \<Longrightarrow> encode_ascii_replace s = s"
  by (induction s) (simp_all add: encode_ascii_replace_def)

lemma py_isdigit_no_newline: "py_isdigit s \<Longrightarrow> CHR 0x0A \<notin> set s"
  by (auto simp: py_isdigit_def list_all_iff isdigit_char_def is_digit_def)

end
