(* ===== verification/Monitor.thy ===== *)
theory Monitor
  imports Prelude
begin

text \<open>
  \<^verbatim>\<open>AvailabilityMonitor\<close> of \<^verbatim>\<open>src/app/availability.py\<close>: a 60-slot ring of one-second buckets,
  rejection counters and the sampler of anonymous denials.

  The object is a record; the clock reading of each method is an argument, \<open>None\<close> stands for
  \<^verbatim>\<open>float("-inf")\<close> of the last emission. \<open>reject\<close> returns the summary it would hand to the SIEM
  emitter. The main result says that the ring is a faithful sliding window: the snapshot's counters
  are the counts over all responses ever observed whose second lies in the last 60.
\<close>

definition STATUS_LABELS :: "string list" where
  "STATUS_LABELS = [''1xx'', ''2xx'', ''3xx'', ''4xx'', ''5xx'', ''unanswered'']"

text \<open>Upper bounds of the latency classes; \<open>None\<close> is infinity.\<close>

definition LATENCY_BOUNDS_MS :: "rat option list" where
  "LATENCY_BOUNDS_MS = [Some 100, Some 500, Some 1000, Some 5000, Some 10000, None]"

definition LATENCY_LABELS :: "string list" where
  "LATENCY_LABELS = [''0_100'', ''100_500'', ''500_1000'', ''1000_5000'', ''5000_10000'', ''10000_plus'']"

definition REJECTION_LABELS :: "string list" where
  "REJECTION_LABELS =
     [''request_rate'', ''request_capacity'', ''request_source_capacity'', ''rate_backend_unavailable'',
      ''password_capacity'', ''security_dependency_unavailable'', ''readiness_dependency'',
      ''ai_capacity_or_quota'', ''gradio_unavailable'', ''anonymous_rate_denials'', ''other'']"

definition AUDIT_SAMPLE_LABELS :: "string list" where
  "AUDIT_SAMPLE_LABELS =
     [''auth.login'', ''auth.register'', ''auth.password_reset.request'', ''auth.password_reset'',
      ''auth.passkey.login'', ''other'']"

definition WINDOW_SECONDS :: nat where
  "WINDOW_SECONDS = 60"

record response_bucket =
  rb_second :: int
  rb_statuses :: "int list"
  rb_kinds :: "int list"
  rb_latencies :: "int list"
  rb_latency_total_ms :: rat
  rb_throttled :: int

definition new_bucket :: "int \<Rightarrow> response_bucket" where
  "new_bucket second =
     \<lparr>rb_second = second, rb_statuses = replicate (length STATUS_LABELS) 0, rb_kinds = [0, 0],
      rb_latencies = replicate (length LATENCY_LABELS) 0, rb_latency_total_ms = 0, rb_throttled = 0\<rparr>"

record monitor =
  mo_counts :: "(string, int) pydict"
  mo_last_emit :: "time option"
  mo_since_emit :: int
  mo_audit_samples :: "(string, time option \<times> int) pydict"
  mo_buckets :: "response_bucket list"

definition monitor_init :: monitor where
  "monitor_init =
     \<lparr>mo_counts = [], mo_last_emit = None, mo_since_emit = 0, mo_audit_samples = [],
      mo_buckets = replicate WINDOW_SECONDS (new_bucket (-1))\<rparr>"

section \<open>Observing a response\<close>

definition status_index :: "int option \<Rightarrow> nat" where
  "status_index status_code =
     (case status_code of
        None \<Rightarrow> length STATUS_LABELS - 1
      | Some c \<Rightarrow> if 100 \<le> c \<and> c \<le> 599 then nat (c div 100 - 1) else length STATUS_LABELS - 1)"

fun latency_index :: "rat \<Rightarrow> rat option list \<Rightarrow> nat" where
  "latency_index ms [] = 0"
| "latency_index ms (upper # bounds) =
     (if (case upper of None \<Rightarrow> True | Some u \<Rightarrow> ms \<le> u) then 0 else Suc (latency_index ms bounds))"

definition bump :: "nat \<Rightarrow> int list \<Rightarrow> int list" where
  "bump i xs = xs[i := xs ! i + 1]"

definition bucket_add :: "int option \<Rightarrow> rat \<Rightarrow> bool \<Rightarrow> response_bucket \<Rightarrow> response_bucket" where
  "bucket_add status_code elapsed_seconds streaming bucket =
     (let si = status_index status_code;
          ms = elapsed_seconds * 1000;
          ms = (if ms < 0 then 0 else ms);
          bucket = bucket\<lparr>rb_statuses := bump si (rb_statuses bucket),
                          rb_kinds := bump (if streaming then 1 else 0) (rb_kinds bucket)\<rparr>;
          bucket = (if status_code = Some 429 \<or> status_code = Some 503
                    then bucket\<lparr>rb_throttled := rb_throttled bucket + 1\<rparr> else bucket)
      in if si \<noteq> length STATUS_LABELS - 1
         then bucket\<lparr>rb_latency_total_ms := rb_latency_total_ms bucket + ms,
                     rb_latencies := bump (latency_index ms LATENCY_BOUNDS_MS) (rb_latencies bucket)\<rparr>
         else bucket)"

definition observe_response :: "int option \<Rightarrow> rat \<Rightarrow> bool \<Rightarrow> time \<Rightarrow> monitor \<Rightarrow> monitor" where
  "observe_response status_code elapsed_seconds streaming now m =
     (let second = \<lfloor>now\<rfloor>;
          index = nat (second mod int WINDOW_SECONDS);
          bucket = mo_buckets m ! index;
          bucket = (if rb_second bucket \<noteq> second then new_bucket second else bucket)
      in m\<lparr>mo_buckets := (mo_buckets m)[index := bucket_add status_code elapsed_seconds streaming bucket]\<rparr>)"

section \<open>Rejections and samples\<close>

record overload_summary =
  os_rejections_since_previous_summary :: int
  os_reason :: string

definition mo_reject :: "string \<Rightarrow> time \<Rightarrow> monitor \<Rightarrow> overload_summary option \<times> monitor" where
  "mo_reject reason now m =
     (let reason = (if reason \<in> set REJECTION_LABELS then reason else ''other'');
          m = m\<lparr>mo_counts := dict_set reason (dict_get_or (mo_counts m) reason 0 + 1) (mo_counts m),
                mo_since_emit := mo_since_emit m + 1\<rparr>
      in if (case mo_last_emit m of None \<Rightarrow> True | Some t \<Rightarrow> 60 \<le> now - t)
         then (Some \<lparr>os_rejections_since_previous_summary = mo_since_emit m, os_reason = reason\<rparr>,
               m\<lparr>mo_since_emit := 0, mo_last_emit := Some now\<rparr>)
         else (None, m))"

definition sample_anonymous_audit :: "string \<Rightarrow> time \<Rightarrow> monitor \<Rightarrow> int option \<times> monitor" where
  "sample_anonymous_audit event_type now m =
     (let event_type = (if event_type \<in> set AUDIT_SAMPLE_LABELS then event_type else ''other'');
          (last, suppressed) = dict_get_or (mo_audit_samples m) event_type (None, 0);
          m = m\<lparr>mo_counts := dict_set ''anonymous_rate_denials''
                  (dict_get_or (mo_counts m) ''anonymous_rate_denials'' 0 + 1) (mo_counts m)\<rparr>
      in if (case last of None \<Rightarrow> False | Some t \<Rightarrow> now - t < 60)
         then (None, m\<lparr>mo_audit_samples := dict_set event_type (last, suppressed + 1) (mo_audit_samples m)\<rparr>)
         else (Some suppressed, m\<lparr>mo_audit_samples := dict_set event_type (Some now, 0) (mo_audit_samples m)\<rparr>))"

section \<open>Snapshot\<close>

text \<open>\<^verbatim>\<open>round\<close> rounds half to even.\<close>

definition round_half_even :: "rat \<Rightarrow> int" where
  "round_half_even q =
     (let f = \<lfloor>q\<rfloor>; d = q - of_int f
      in if d < 1 / 2 then f else if 1 / 2 < d then f + 1 else if even f then f else f + 1)"

record http_snapshot =
  sn_requests :: int
  sn_responses :: int
  sn_statuses :: "int list"
  sn_regular :: int
  sn_stream :: int
  sn_latencies :: "int list"
  sn_average_latency_ms :: rat
  sn_throttled :: int
  sn_slow :: int
  sn_alerts :: "(string \<times> string \<times> int) list"
  sn_rejections :: "(string, int) pydict"
  sn_anonymous_audit_suppressed :: int

definition current_buckets :: "int \<Rightarrow> monitor \<Rightarrow> response_bucket list" where
  "current_buckets second m =
     filter (\<lambda>b. second - int WINDOW_SECONDS < rb_second b \<and> rb_second b \<le> second) (mo_buckets m)"

definition mo_snapshot :: "time \<Rightarrow> monitor \<Rightarrow> http_snapshot" where
  "mo_snapshot now m =
     (let current = current_buckets \<lfloor>now\<rfloor> m;
          statuses = map (\<lambda>i. sum_list (map (\<lambda>b. rb_statuses b ! i) current)) [0..<length STATUS_LABELS];
          latencies = map (\<lambda>i. sum_list (map (\<lambda>b. rb_latencies b ! i) current)) [0..<length LATENCY_LABELS];
          requests = sum_list statuses;
          responses = requests - last statuses;
          throttled = sum_list (map rb_throttled current);
          slow = sum_list (drop 3 latencies);
          alerts =
            (if throttled \<ge> 5 then [(''http_overload'', ''medium'', throttled)] else []) @
            (if statuses ! 4 \<ge> 5 \<and> of_int (statuses ! 4) \<ge> of_int responses * (1 / 10 :: rat)
             then [(''http_server_errors'', ''high'', statuses ! 4)] else []) @
            (if last statuses \<ge> 5 then [(''http_unanswered'', ''medium'', last statuses)] else []) @
            (if responses \<ge> 20 \<and> of_int slow \<ge> of_int responses * (2 / 10 :: rat)
             then [(''http_slow_headers'', ''medium'', slow)] else [])
      in \<lparr>sn_requests = requests, sn_responses = responses, sn_statuses = statuses,
          sn_regular = sum_list (map (\<lambda>b. rb_kinds b ! 0) current),
          sn_stream = sum_list (map (\<lambda>b. rb_kinds b ! 1) current),
          sn_latencies = latencies,
          sn_average_latency_ms =
            (if responses \<noteq> 0
             then of_int (round_half_even
                    (sum_list (map rb_latency_total_ms current) / of_int responses * 100)) / 100
             else 0),
          sn_throttled = throttled, sn_slow = slow, sn_alerts = alerts,
          sn_rejections = mo_counts m,
          sn_anonymous_audit_suppressed = sum_list (map snd (dict_values (mo_audit_samples m)))\<rparr>)"

section \<open>Reference: counting over the whole history\<close>

record observation =
  ob_now :: time
  ob_status :: "int option"
  ob_elapsed :: rat
  ob_streaming :: bool

definition ob_second :: "observation \<Rightarrow> int" where
  "ob_second x = \<lfloor>ob_now x\<rfloor>"

definition observe :: "observation \<Rightarrow> monitor \<Rightarrow> monitor" where
  "observe x m = observe_response (ob_status x) (ob_elapsed x) (ob_streaming x) (ob_now x) m"

definition observe_all :: "observation list \<Rightarrow> monitor \<Rightarrow> monitor" where
  "observe_all os m = fold observe os m"

definition recent :: "int \<Rightarrow> observation list \<Rightarrow> observation list" where
  "recent second os = filter (\<lambda>x. second - int WINDOW_SECONDS < ob_second x \<and> ob_second x \<le> second) os"

definition ob_add :: "observation \<Rightarrow> response_bucket \<Rightarrow> response_bucket" where
  "ob_add x b = bucket_add (ob_status x) (ob_elapsed x) (ob_streaming x) b"

text \<open>The bucket a second would have if nothing was ever overwritten.\<close>

definition ideal_bucket :: "int \<Rightarrow> observation list \<Rightarrow> response_bucket" where
  "ideal_bucket s os = fold ob_add (filter (\<lambda>x. ob_second x = s) os) (new_bucket s)"

definition ring_inv :: "observation list \<Rightarrow> monitor \<Rightarrow> bool" where
  "ring_inv os m \<longleftrightarrow>
     length (mo_buckets m) = WINDOW_SECONDS \<and>
     (\<forall>i<WINDOW_SECONDS.
        let b = mo_buckets m ! i; here = {x \<in> set os. ob_second x mod int WINDOW_SECONDS = int i}
        in (here = {} \<and> b = new_bucket (-1)) \<or>
           (rb_second b \<in> ob_second ` here \<and> b = ideal_bucket (rb_second b) os \<and>
            (\<forall>x\<in>here. ob_second x \<le> rb_second b)))"

section \<open>The ring keeps every recent second\<close>

lemma ob_second_bucket_add [simp]: "rb_second (ob_add x b) = rb_second b"
  by (simp add: ob_add_def bucket_add_def Let_def)

lemma ideal_bucket_second [simp]: "rb_second (ideal_bucket s os) = s"
proof -
  have "rb_second (fold ob_add os b) = rb_second b" for os b
    by (induction os arbitrary: b) simp_all
  then show ?thesis by (simp add: ideal_bucket_def new_bucket_def)
qed

lemma ideal_bucket_snoc:
  "ideal_bucket s (os @ [x]) = (if ob_second x = s then ob_add x (ideal_bucket s os) else ideal_bucket s os)"
  by (simp add: ideal_bucket_def)

lemma ring_inv_init: "ring_inv [] monitor_init"
  by (simp add: ring_inv_def monitor_init_def new_bucket_def)

lemma ring_inv_observe:
  assumes inv: "ring_inv os m" and later: "\<And>y. y \<in> set os \<Longrightarrow> ob_second y \<le> ob_second x"
    and pos: "0 \<le> ob_second x"
  shows "ring_inv (os @ [x]) (observe x m)"
proof -
  define s where "s = ob_second x"
  define i where "i = nat (s mod int WINDOW_SECONDS)"
  define here where "here = (\<lambda>j. {y \<in> set os. ob_second y mod int WINDOW_SECONDS = int j})"
  define b where "b = mo_buckets m ! i"
  have i: "i < WINDOW_SECONDS" "s mod int WINDOW_SECONDS = int i"
    by (simp_all add: i_def WINDOW_SECONDS_def nat_less_iff)
  have len: "length (mo_buckets m) = WINDOW_SECONDS"
    and old: "\<And>j. j < WINDOW_SECONDS \<Longrightarrow> (here j = {} \<and> mo_buckets m ! j = new_bucket (-1)) \<or>
       (rb_second (mo_buckets m ! j) \<in> ob_second ` here j \<and>
        mo_buckets m ! j = ideal_bucket (rb_second (mo_buckets m ! j)) os \<and>
        (\<forall>y\<in>here j. ob_second y \<le> rb_second (mo_buckets m ! j)))"
    using inv by (auto simp: ring_inv_def Let_def here_def)
  have base: "(if rb_second b \<noteq> s then new_bucket s else b) = ideal_bucket s os"
  proof (cases "rb_second b = s")
    case True
    then show ?thesis
      using old[OF i(1)] pos by (auto simp: b_def s_def new_bucket_def)
  next
    case False
    have "ob_second y \<noteq> s" if y: "y \<in> set os" for y
    proof
      assume "ob_second y = s"
      then have yh: "y \<in> here i"
        using y i(2) by (simp add: here_def)
      then obtain z where "z \<in> here i" "rb_second b = ob_second z" "s \<le> rb_second b"
        using old[OF i(1)] \<open>ob_second y = s\<close> by (auto simp: b_def)
      then show False
        using False later[of z] by (auto simp: here_def s_def)
    qed
    then have "filter (\<lambda>y. ob_second y = s) os = []"
      by (simp add: filter_empty_conv)
    then show ?thesis using False by (simp add: ideal_bucket_def)
  qed
  have "mo_buckets (observe x m) = (mo_buckets m)[i := ob_add x (if rb_second b \<noteq> s then new_bucket s else b)]"
    by (simp add: observe_def observe_response_def Let_def i_def b_def s_def ob_second_def ob_add_def)
  then have new: "mo_buckets (observe x m) = (mo_buckets m)[i := ideal_bucket s (os @ [x])]"
    unfolding base by (simp add: ideal_bucket_snoc s_def)
  have here_snoc: "{y \<in> set (os @ [x]). ob_second y mod int WINDOW_SECONDS = int j} =
      (if j = i then insert x (here j) else here j)" for j
    using i(2) by (auto simp: here_def s_def)
  show ?thesis
    unfolding ring_inv_def here_snoc Let_def
  proof (intro conjI allI impI)
    show "length (mo_buckets (observe x m)) = WINDOW_SECONDS"
      using new len by simp
    fix j assume j: "j < WINDOW_SECONDS"
    show "((if j = i then insert x (here j) else here j) = {} \<and> mo_buckets (observe x m) ! j = new_bucket (-1)) \<or>
       (rb_second (mo_buckets (observe x m) ! j) \<in> ob_second ` (if j = i then insert x (here j) else here j) \<and>
        mo_buckets (observe x m) ! j = ideal_bucket (rb_second (mo_buckets (observe x m) ! j)) (os @ [x]) \<and>
        (\<forall>y\<in>if j = i then insert x (here j) else here j. ob_second y \<le> rb_second (mo_buckets (observe x m) ! j)))"
    proof (cases "j = i")
      case True
      then show ?thesis
        using new len i(1) later by (auto simp: here_def s_def)
    next
      case False
      have "s \<noteq> rb_second (mo_buckets m ! j)" if "here j \<noteq> {}"
        using old[OF j] that False i(2) by (auto simp: here_def)
      then show ?thesis
        using False new old[OF j] by (auto simp: ideal_bucket_snoc s_def)
    qed
  qed
qed

lemma ring_inv_observe_all:
  assumes "sorted (map ob_now os)" and "\<And>x. x \<in> set os \<Longrightarrow> 0 \<le> ob_now x"
  shows "ring_inv os (observe_all os monitor_init)"
  using assms
proof (induction os rule: rev_induct)
  case Nil
  then show ?case by (simp add: observe_all_def ring_inv_init)
next
  case (snoc x os)
  have "ob_second y \<le> ob_second x" if "y \<in> set os" for y
    using snoc.prems(1) that by (auto simp: sorted_append ob_second_def intro: floor_mono)
  moreover have "0 \<le> ob_second x"
    using snoc.prems(2)[of x] by (simp add: ob_second_def)
  ultimately show ?case
    using ring_inv_observe[of os "observe_all os monitor_init" x] snoc
    by (simp add: observe_all_def sorted_append)
qed

section \<open>Sums over the ring are sums over the recent history\<close>

text \<open>A field of a bucket is additive when an observation adds its own weight to it.\<close>

lemma ideal_bucket_sum:
  fixes f :: "response_bucket \<Rightarrow> 'n::comm_monoid_add"
  assumes "\<And>s. f (new_bucket s) = 0" and "\<And>x b. ok b \<Longrightarrow> f (ob_add x b) = f b + w x"
    and "\<And>s. ok (new_bucket s)" and "\<And>x b. ok b \<Longrightarrow> ok (ob_add x b)"
  shows "f (ideal_bucket s os) = sum_list (map w (filter (\<lambda>x. ob_second x = s) os))"
proof -
  have "ok (ideal_bucket s os) \<and> f (ideal_bucket s os) = sum_list (map w (filter (\<lambda>x. ob_second x = s) os))"
    by (induction os rule: rev_induct)
      (auto simp: ideal_bucket_snoc assms, simp add: ideal_bucket_def assms, simp add: ideal_bucket_def assms)
  then show ?thesis by simp
qed

lemma sum_by_residue:
  fixes w :: "observation \<Rightarrow> 'n::comm_monoid_add"
  assumes "0 < n"
  shows "(\<Sum>i<n. sum_list (map w (filter (\<lambda>x. ob_second x mod int n = int i) os))) = sum_list (map w os)"
proof (induction os)
  case Nil
  then show ?case by simp
next
  case (Cons x os)
  define j where "j = nat (ob_second x mod int n)"
  have j: "j < n" "ob_second x mod int n = int j"
    using assms by (simp_all add: j_def nat_less_iff)
  have "(\<Sum>i<n. sum_list (map w (filter (\<lambda>x. ob_second x mod int n = int i) (x # os)))) =
        (\<Sum>i<n. (if i = j then w x else 0) + sum_list (map w (filter (\<lambda>x. ob_second x mod int n = int i) os)))"
    using j by (intro sum.cong) auto
  also have "\<dots> = w x + sum_list (map w os)"
    using j(1) Cons.IH by (simp add: sum.distrib)
  finally show ?case by simp
qed

lemma sum_list_filter_map:
  fixes f :: "'a \<Rightarrow> 'n::comm_monoid_add"
  shows "sum_list (map f (filter P xs)) = sum_list (map (\<lambda>x. if P x then f x else 0) xs)"
  by (induction xs) simp_all

lemma current_buckets_sum:
  fixes f :: "response_bucket \<Rightarrow> 'n::comm_monoid_add"
  assumes inv: "ring_inv os m" and late: "\<And>x. x \<in> set os \<Longrightarrow> ob_second x \<le> second" and sec: "0 \<le> second"
    and new: "f (new_bucket (-1)) = 0"
    and f: "\<And>s. f (ideal_bucket s os) = sum_list (map w (filter (\<lambda>x. ob_second x = s) os))"
  shows "sum_list (map f (current_buckets second m)) = sum_list (map w (recent second os))"
proof -
  let ?W = "int WINDOW_SECONDS"
  let ?in = "\<lambda>s. second - ?W < s \<and> s \<le> second"
  have len: "length (mo_buckets m) = WINDOW_SECONDS"
    using inv by (simp add: ring_inv_def)
  have slot: "(if ?in (rb_second (mo_buckets m ! i)) then f (mo_buckets m ! i) else 0) =
      sum_list (map w (filter (\<lambda>x. ob_second x mod ?W = int i) (recent second os)))" if i: "i < WINDOW_SECONDS" for i
  proof -
    define b where "b = mo_buckets m ! i"
    define here where "here = {y \<in> set os. ob_second y mod ?W = int i}"
    have c: "(here = {} \<and> b = new_bucket (-1)) \<or> (rb_second b \<in> ob_second ` here \<and> b = ideal_bucket (rb_second b) os \<and>
        (\<forall>y\<in>here. ob_second y \<le> rb_second b))"
      using inv i by (auto simp: ring_inv_def Let_def here_def b_def)
    have same: "ob_second x = rb_second b" if xh: "x \<in> here" and xin: "?in (ob_second x)" for x
    proof -
      obtain z where z: "z \<in> here" "rb_second b = ob_second z"
        using c xh by auto
      have "ob_second x \<le> rb_second b" "rb_second b \<le> second"
        using c xh late z by (auto simp: here_def)
      moreover have "(rb_second b - ob_second x) mod ?W = 0"
        using xh z mod_eq_dvd_iff[of "ob_second z" ?W "ob_second x"] by (simp add: here_def)
      ultimately show ?thesis
        using xin by (auto simp: mod_pos_pos_trivial)
    qed
    show ?thesis
    proof (cases "here \<noteq> {} \<and> ?in (rb_second b)")
      case True
      then have b: "b = ideal_bucket (rb_second b) os" "rb_second b mod ?W = int i"
        using c by (auto simp: here_def)
      have "filter (\<lambda>x. ob_second x mod ?W = int i) (recent second os) = filter (\<lambda>x. ob_second x = rb_second b) os"
        unfolding recent_def filter_filter
        using True b(2) same by (intro filter_cong) (auto simp: here_def)
      then show ?thesis
        using True f[of "rb_second b"] b(1) by (simp add: b_def[symmetric])
    next
      case False
      have "filter (\<lambda>x. ob_second x mod ?W = int i) (recent second os) = []"
        unfolding recent_def filter_filter filter_empty_conv
      proof (intro ballI notI)
        fix x assume x: "x \<in> set os" "?in (ob_second x) \<and> ob_second x mod ?W = int i"
        then have "x \<in> here" by (simp add: here_def)
        then show False using False same[of x] x(2) by auto
      qed
      moreover have "\<not> ?in (rb_second b) \<or> f b = 0"
      proof (cases "here = {}")
        case True
        then show ?thesis using c new by auto
      next
        case h: False
        then show ?thesis using False by blast
      qed
      ultimately show ?thesis by (auto simp: b_def[symmetric])
    qed
  qed
  have "sum_list (map f (current_buckets second m)) =
      (\<Sum>i<WINDOW_SECONDS. if ?in (rb_second (mo_buckets m ! i)) then f (mo_buckets m ! i) else 0)"
    unfolding current_buckets_def sum_list_filter_map using len by (simp add: sum_list_sum_nth atLeast0LessThan)
  also have "\<dots> = (\<Sum>i<WINDOW_SECONDS. sum_list (map w (filter (\<lambda>x. ob_second x mod ?W = int i) (recent second os))))"
    using slot by (intro sum.cong) auto
  also have "\<dots> = sum_list (map w (recent second os))"
    by (rule sum_by_residue) (simp add: WINDOW_SECONDS_def)
  finally show ?thesis .
qed

definition bucket_shape :: "response_bucket \<Rightarrow> bool" where
  "bucket_shape b \<longleftrightarrow> length (rb_statuses b) = 6 \<and> length (rb_kinds b) = 2 \<and> length (rb_latencies b) = 6"

definition answered :: "observation \<Rightarrow> bool" where
  "answered x \<longleftrightarrow> status_index (ob_status x) \<noteq> 5"

definition ob_latency_ms :: "observation \<Rightarrow> rat" where
  "ob_latency_ms x = max 0 (ob_elapsed x * 1000)"

definition ob_throttled :: "observation \<Rightarrow> bool" where
  "ob_throttled x \<longleftrightarrow> ob_status x = Some 429 \<or> ob_status x = Some 503"

lemma status_index_less: "status_index c < 6"
  by (auto simp: status_index_def STATUS_LABELS_def nat_less_iff split: option.splits)

lemma latency_index_less: "latency_index ms LATENCY_BOUNDS_MS < 6"
  by (simp add: LATENCY_BOUNDS_MS_def)

lemma nth_bump: "i < length xs \<Longrightarrow> bump j xs ! i = xs ! i + (if i = j then 1 else 0)"
  by (simp add: bump_def nth_list_update)

lemma length_bump [simp]: "length (bump j xs) = length xs"
  by (simp add: bump_def)

lemma bucket_shape_new: "bucket_shape (new_bucket s)"
  by (simp add: bucket_shape_def new_bucket_def STATUS_LABELS_def LATENCY_LABELS_def)

lemma length_labels: "length STATUS_LABELS = 6" "length LATENCY_LABELS = 6"
  by (simp_all add: STATUS_LABELS_def LATENCY_LABELS_def)

lemma new_bucket_nth:
  "i < 6 \<Longrightarrow> rb_statuses (new_bucket s) ! i = 0" "i < 6 \<Longrightarrow> rb_latencies (new_bucket s) ! i = 0"
  by (auto simp: new_bucket_def STATUS_LABELS_def LATENCY_LABELS_def numeral_eq_Suc less_Suc_eq)

lemma ob_add_fields:
  "rb_statuses (ob_add x b) = bump (status_index (ob_status x)) (rb_statuses b)"
  "rb_kinds (ob_add x b) = bump (if ob_streaming x then 1 else 0) (rb_kinds b)"
  "rb_throttled (ob_add x b) = rb_throttled b + (if ob_throttled x then 1 else 0)"
  "rb_latencies (ob_add x b) =
     (if answered x then bump (latency_index (ob_latency_ms x) LATENCY_BOUNDS_MS) (rb_latencies b) else rb_latencies b)"
  "rb_latency_total_ms (ob_add x b) = rb_latency_total_ms b + (if answered x then ob_latency_ms x else 0)"
  by (simp_all add: ob_add_def bucket_add_def Let_def answered_def ob_throttled_def ob_latency_ms_def
      STATUS_LABELS_def max_def)

lemma bucket_shape_add: "bucket_shape b \<Longrightarrow> bucket_shape (ob_add x b)"
  by (simp add: bucket_shape_def ob_add_fields)

lemma sum_list_indicator: "sum_list (map (\<lambda>x. if P x then 1 else 0) xs) = int (length (filter P xs))"
  by (induction xs) auto

text \<open>One rule for every counter of the snapshot.\<close>

lemma current_sum_count:
  assumes "ring_inv os m" "\<And>x. x \<in> set os \<Longrightarrow> ob_second x \<le> second" "0 \<le> second"
    and "\<And>s. f (new_bucket s) = 0"
    and "\<And>x b. bucket_shape b \<Longrightarrow> f (ob_add x b) = f b + (if P x then 1 else 0)"
  shows "sum_list (map f (current_buckets second m)) = int (length (filter P (recent second os)))"
proof -
  have "f (ideal_bucket s os) = sum_list (map (\<lambda>x. if P x then 1 else 0) (filter (\<lambda>x. ob_second x = s) os))" for s
    using assms(4,5) bucket_shape_new bucket_shape_add by (rule ideal_bucket_sum)
  then show ?thesis
    using current_buckets_sum[where f = f and w = "\<lambda>x. if P x then 1 else 0"] assms(1-4)
    by (simp add: sum_list_indicator)
qed

lemma sum_counts_by_index:
  assumes "\<And>x. g x < n"
  shows "(\<Sum>i\<leftarrow>[0..<n]. int (length (filter (\<lambda>x. g x = i) xs))) = int (length xs)"
proof (induction xs)
  case Nil
  then show ?case by (simp add: sum_list_triv)
next
  case (Cons x xs)
  have "(\<Sum>i\<leftarrow>[0..<n]. int (length (filter (\<lambda>x. g x = i) (x # xs)))) =
        (\<Sum>i\<leftarrow>[0..<n]. (if i = g x then 1 else 0) + int (length (filter (\<lambda>x. g x = i) xs)))"
    by (intro arg_cong[where f = sum_list] map_cong) auto
  also have "\<dots> = (\<Sum>i\<leftarrow>[0..<n]. if i = g x then 1 else 0) + int (length xs)"
    using Cons.IH by (simp add: sum_list_addf)
  also have "(\<Sum>i\<leftarrow>[0..<n]. if i = g x then 1 else 0) = (1::int)"
    using assms[of x] by (simp add: sum_list_distinct_conv_sum_set)
  finally show ?case by simp
qed

definition plausible_history :: "time \<Rightarrow> observation list \<Rightarrow> bool" where
  "plausible_history now os \<longleftrightarrow>
     sorted (map ob_now os) \<and> list_all (\<lambda>x. 0 \<le> ob_now x \<and> ob_now x \<le> now) os \<and> 0 \<le> now"

lemma snapshot_counts:
  assumes h: "plausible_history now os"
  defines "sn \<equiv> mo_snapshot now (observe_all os monitor_init)" and "rs \<equiv> recent \<lfloor>now\<rfloor> os"
  shows "sn_statuses sn = map (\<lambda>i. int (length (filter (\<lambda>x. status_index (ob_status x) = i) rs))) [0..<6]"
    and "sn_latencies sn =
           map (\<lambda>i. int (length (filter (\<lambda>x. answered x \<and> latency_index (ob_latency_ms x) LATENCY_BOUNDS_MS = i) rs))) [0..<6]"
    and "sn_throttled sn = int (length (filter ob_throttled rs))"
    and "sn_stream sn = int (length (filter ob_streaming rs))"
    and "sn_regular sn = int (length (filter (\<lambda>x. \<not> ob_streaming x) rs))"
    and "sn_requests sn = int (length rs)"
    and "sn_responses sn = int (length (filter answered rs))"
proof -
  let ?m = "observe_all os monitor_init"
  have inv: "ring_inv os ?m"
    using h by (intro ring_inv_observe_all) (auto simp: plausible_history_def list_all_iff)
  have late: "\<And>x. x \<in> set os \<Longrightarrow> ob_second x \<le> \<lfloor>now\<rfloor>" and sec: "0 \<le> \<lfloor>now\<rfloor>"
    using h by (auto simp: plausible_history_def list_all_iff ob_second_def intro: floor_mono)
  note count = current_sum_count[OF inv late sec]
  have st: "sum_list (map (\<lambda>b. rb_statuses b ! i) (current_buckets \<lfloor>now\<rfloor> ?m)) =
      int (length (filter (\<lambda>x. status_index (ob_status x) = i) rs))" if "i < 6" for i
    unfolding rs_def using that
    by (intro count) (auto simp: new_bucket_nth ob_add_fields bucket_shape_def nth_bump)
  have la: "sum_list (map (\<lambda>b. rb_latencies b ! i) (current_buckets \<lfloor>now\<rfloor> ?m)) =
      int (length (filter (\<lambda>x. answered x \<and> latency_index (ob_latency_ms x) LATENCY_BOUNDS_MS = i) rs))" if "i < 6" for i
    unfolding rs_def using that
    by (intro count) (auto simp: new_bucket_nth ob_add_fields bucket_shape_def nth_bump)
  show statuses: "sn_statuses sn = map (\<lambda>i. int (length (filter (\<lambda>x. status_index (ob_status x) = i) rs))) [0..<6]"
    using st by (simp add: sn_def mo_snapshot_def Let_def length_labels)
  show "sn_latencies sn =
      map (\<lambda>i. int (length (filter (\<lambda>x. answered x \<and> latency_index (ob_latency_ms x) LATENCY_BOUNDS_MS = i) rs))) [0..<6]"
    using la by (simp add: sn_def mo_snapshot_def Let_def length_labels)
  have "sum_list (map rb_throttled (current_buckets \<lfloor>now\<rfloor> ?m)) = int (length (filter ob_throttled rs))"
    unfolding rs_def by (intro count) (auto simp: new_bucket_def ob_add_fields)
  then show "sn_throttled sn = int (length (filter ob_throttled rs))"
    by (simp add: sn_def mo_snapshot_def Let_def)
  have "sum_list (map (\<lambda>b. rb_kinds b ! 1) (current_buckets \<lfloor>now\<rfloor> ?m)) = int (length (filter ob_streaming rs))"
    unfolding rs_def
    by (intro count) (auto simp: new_bucket_def ob_add_fields bucket_shape_def nth_bump)
  then show "sn_stream sn = int (length (filter ob_streaming rs))"
    by (simp add: sn_def mo_snapshot_def Let_def)
  have "sum_list (map (\<lambda>b. rb_kinds b ! 0) (current_buckets \<lfloor>now\<rfloor> ?m)) =
      int (length (filter (\<lambda>x. \<not> ob_streaming x) rs))"
    unfolding rs_def
    by (intro count) (auto simp: new_bucket_def ob_add_fields bucket_shape_def nth_bump)
  then show "sn_regular sn = int (length (filter (\<lambda>x. \<not> ob_streaming x) rs))"
    by (simp add: sn_def mo_snapshot_def Let_def)
  have "sn_requests sn = sum_list (sn_statuses sn)" "sn_responses sn = sn_requests sn - last (sn_statuses sn)"
    by (simp_all add: sn_def mo_snapshot_def Let_def)
  moreover have total: "sum_list (sn_statuses sn) = int (length rs)"
    unfolding statuses using sum_counts_by_index[of "\<lambda>x. status_index (ob_status x)" 6 rs] status_index_less by simp
  ultimately show "sn_requests sn = int (length rs)" by simp
  have "length rs = length (filter answered rs) + length (filter (\<lambda>x. status_index (ob_status x) = 5) rs)"
    using sum_length_filter_compl[of answered rs] by (simp add: answered_def)
  then show "sn_responses sn = int (length (filter answered rs))"
    using \<open>sn_requests sn = sum_list (sn_statuses sn)\<close> total
      \<open>sn_responses sn = sn_requests sn - last (sn_statuses sn)\<close> statuses
    by (simp add: last_map)
qed

section \<open>Runs of the sampler\<close>

fun sample_run :: "(string \<times> time) list \<Rightarrow> monitor \<Rightarrow> (string \<times> time \<times> int option) list \<times> monitor" where
  "sample_run [] m = ([], m)"
| "sample_run ((e, t) # calls) m =
     (let (r, m) = sample_anonymous_audit e t m; (rs, m) = sample_run calls m in ((e, t, r) # rs, m))"

definition sample_label :: "string \<Rightarrow> string" where
  "sample_label e = (if e \<in> set AUDIT_SAMPLE_LABELS then e else ''other'')"

fun samples_of :: "string \<Rightarrow> (string \<times> time \<times> int option) list \<Rightarrow> (time \<times> int) list" where
  "samples_of l [] = []"
| "samples_of l ((e, t, r) # rs) =
     (if sample_label e = l then (case r of None \<Rightarrow> [] | Some k \<Rightarrow> [(t, k)]) else []) @ samples_of l rs"

definition pending :: "string \<Rightarrow> monitor \<Rightarrow> int" where
  "pending l m = snd (dict_get_or (mo_audit_samples m) l (None, 0))"

definition last_sample :: "string \<Rightarrow> monitor \<Rightarrow> time option" where
  "last_sample l m = fst (dict_get_or (mo_audit_samples m) l (None, 0))"

lemma sample_step:
  assumes "sample_anonymous_audit e t m = (r, m')"
  shows "r = (case last_sample (sample_label e) m of
                None \<Rightarrow> Some (pending (sample_label e) m)
              | Some t0 \<Rightarrow> if t - t0 < 60 then None else Some (pending (sample_label e) m))"
    and "pending l m' = (if l \<noteq> sample_label e then pending l m
           else case r of None \<Rightarrow> pending l m + 1 | Some _ \<Rightarrow> 0)"
    and "last_sample l m' = (if l \<noteq> sample_label e then last_sample l m
           else case r of None \<Rightarrow> last_sample l m | Some _ \<Rightarrow> Some t)"
  using assms
  by (auto simp: sample_anonymous_audit_def sample_label_def[symmetric] pending_def last_sample_def dict_get_or_def Let_def
      split: option.splits if_splits prod.splits)

lemma sample_run_spaced:
  assumes "sample_run calls m = (rs, m')"
  shows "sorted_wrt (\<lambda>a b. a + 60 \<le> b) (map fst (samples_of l rs))
         \<and> (\<forall>t0. last_sample l m = Some t0 \<longrightarrow> list_all (\<lambda>t. t0 + 60 \<le> t) (map fst (samples_of l rs)))"
  using assms
proof (induction calls arbitrary: m rs)
  case Nil
  then show ?case by simp
next
  case (Cons c calls)
  obtain e t where c: "c = (e, t)" by (cases c)
  obtain r m1 where s: "sample_anonymous_audit e t m = (r, m1)" by fastforce
  obtain rs1 where r: "sample_run calls m1 = (rs1, m')" "rs = (e, t, r) # rs1"
    using Cons.prems c s by (auto split: prod.splits)
  note IH = Cons.IH[OF r(1)]
  show ?case
  proof (cases "sample_label e = l \<and> r \<noteq> None")
    case True
    then obtain k where k: "r = Some k" by auto
    have l1: "last_sample l m1 = Some t"
      using sample_step(3)[OF s, of l] True k by simp
    have later: "t0 + 60 \<le> t" if "last_sample l m = Some t0" for t0
      using sample_step(1)[OF s] True that by (auto split: if_splits)
    have all: "list_all (\<lambda>t'. t + 60 \<le> t') (map fst (samples_of l rs1))"
      using IH l1 by blast
    have "list_all (\<lambda>t'. t0 + 60 \<le> t') (map fst (samples_of l rs1))" if "last_sample l m = Some t0" for t0
      using all later[OF that] by (force simp: list_all_iff)
    then show ?thesis
      using IH all True k r(2) later by (simp add: list_all_iff)
  next
    case False
    then have "samples_of l rs = samples_of l rs1" "last_sample l m1 = last_sample l m"
      using r(2) sample_step(3)[OF s, of l] by (auto split: option.splits)
    then show ?thesis using IH by simp
  qed
qed

lemma sample_run_conserves:
  assumes "sample_run calls m = (rs, m')"
  shows "int (length (filter (\<lambda>c. sample_label (fst c) = l) calls)) + pending l m =
         int (length (samples_of l rs)) + sum_list (map snd (samples_of l rs)) + pending l m'"
  using assms
proof (induction calls arbitrary: m rs)
  case Nil
  then show ?case by simp
next
  case (Cons c calls)
  obtain e t where c: "c = (e, t)" by (cases c)
  obtain r m1 where s: "sample_anonymous_audit e t m = (r, m1)" by fastforce
  obtain rs1 where r: "sample_run calls m1 = (rs1, m')" "rs = (e, t, r) # rs1"
    using Cons.prems c s by (auto split: prod.splits)
  have "r = None \<or> r = Some (pending (sample_label e) m)"
    using sample_step(1)[OF s] by (auto split: option.splits if_splits)
  then show ?case
    using Cons.IH[OF r(1)] r(2) c sample_step(2)[OF s, of l] by (auto split: option.splits)
qed

lemma pending_init [simp]: "pending l monitor_init = 0"
  by (simp add: pending_def monitor_init_def dict_get_or_def)

section \<open>Properties\<close>

definition demo_history :: "observation list" where
  "demo_history =
     [\<lparr>ob_now = 3, ob_status = Some 200, ob_elapsed = 1 / 20, ob_streaming = False\<rparr>,
      \<lparr>ob_now = 5 / 2 + 61, ob_status = Some 429, ob_elapsed = 2, ob_streaming = False\<rparr>,
      \<lparr>ob_now = 64, ob_status = None, ob_elapsed = 1, ob_streaming = True\<rparr>]"

text \<open>C25: The 60-slot ring is a faithful sliding window: after any history of responses on a monotone clock the
  snapshot's status classes, latency classes, throttled, streaming and regular counters, requests and
  responses equal the counts over all observed responses whose second lies in the last 60, although the ring
  only ever keeps 60 buckets and reuses a slot after a minute.\<close>

theorem snapshot_is_sliding_window:
  assumes "plausible_history now os"
  shows "sn_statuses (mo_snapshot now (observe_all os monitor_init)) =
           map (\<lambda>i. int (length (filter (\<lambda>x. status_index (ob_status x) = i) (recent \<lfloor>now\<rfloor> os)))) [0..<6] \<and>
         sn_latencies (mo_snapshot now (observe_all os monitor_init)) =
           map (\<lambda>i. int (length (filter (\<lambda>x. answered x \<and> latency_index (ob_latency_ms x) LATENCY_BOUNDS_MS = i)
                                  (recent \<lfloor>now\<rfloor> os)))) [0..<6] \<and>
         sn_throttled (mo_snapshot now (observe_all os monitor_init)) =
           int (length (filter ob_throttled (recent \<lfloor>now\<rfloor> os))) \<and>
         sn_stream (mo_snapshot now (observe_all os monitor_init)) =
           int (length (filter ob_streaming (recent \<lfloor>now\<rfloor> os))) \<and>
         sn_regular (mo_snapshot now (observe_all os monitor_init)) =
           int (length (filter (\<lambda>x. \<not> ob_streaming x) (recent \<lfloor>now\<rfloor> os))) \<and>
         sn_requests (mo_snapshot now (observe_all os monitor_init)) = int (length (recent \<lfloor>now\<rfloor> os)) \<and>
         sn_responses (mo_snapshot now (observe_all os monitor_init)) =
           int (length (filter answered (recent \<lfloor>now\<rfloor> os)))"
  using snapshot_counts[OF assms] by blast

theorem snapshot_is_sliding_window_witness:
  "plausible_history 64 demo_history \<and>
   sn_requests (mo_snapshot 64 (observe_all demo_history monitor_init)) = 2 \<and>
   sn_throttled (mo_snapshot 64 (observe_all demo_history monitor_init)) = 1"
proof -
  have h: "plausible_history 64 demo_history"
    by (simp add: plausible_history_def demo_history_def)
  have "recent \<lfloor>64::rat\<rfloor> demo_history = tl demo_history"
    by (simp add: recent_def demo_history_def ob_second_def WINDOW_SECONDS_def)
  then show ?thesis
    using snapshot_is_sliding_window[OF h] h by (simp add: demo_history_def ob_throttled_def)
qed

text \<open>Sampling of anonymous denials loses no count and never floods: in any run of the sampler the durable
  samples of one label are pairwise at least 60 seconds apart, and every call of that label is either one of
  those samples, counted in the suppressed total a later sample reports, or still pending in the monitor.\<close>

theorem sampler_spaced_and_lossless:
  assumes "sample_run calls monitor_init = (rs, m)"
  shows "sorted_wrt (\<lambda>a b. a + 60 \<le> b) (map fst (samples_of l rs)) \<and>
         int (length (filter (\<lambda>c. sample_label (fst c) = l) calls)) =
           int (length (samples_of l rs)) + sum_list (map snd (samples_of l rs)) + pending l m"
  using sample_run_spaced[OF assms, of l] sample_run_conserves[OF assms, of l] by simp

definition demo_calls :: "(string \<times> time) list" where
  "demo_calls = [(''auth.login'', 0), (''auth.login'', 10), (''x'', 20), (''auth.login'', 61), (''auth.login'', 70)]"

theorem sampler_spaced_and_lossless_witness:
  "samples_of ''auth.login'' (fst (sample_run demo_calls monitor_init)) = [(0, 0), (61, 1)] \<and>
   int (length (filter (\<lambda>c. sample_label (fst c) = ''auth.login'') demo_calls)) =
     3 + pending ''auth.login'' (snd (sample_run demo_calls monitor_init))"
proof -
  have s: "samples_of ''auth.login'' (fst (sample_run demo_calls monitor_init)) = [(0, 0), (61, 1)]"
    by (simp add: demo_calls_def sample_anonymous_audit_def monitor_init_def AUDIT_SAMPLE_LABELS_def
        dict_get_or_def dict_get_Cons sample_label_def Let_def)
  show ?thesis
    using sampler_spaced_and_lossless[of demo_calls _ _ "''auth.login''", OF prod.collapse[symmetric]] s by simp
qed

end
