(* ===== verification/Audit_Log.thy ===== *)
theory Audit_Log
  imports Pystr Audit_Chain Monitor
begin

text \<open>
  Writing the audit trail, \<^verbatim>\<open>src/app/audit.py\<close>, with \<^verbatim>\<open>safe_json\<close> of
  \<^verbatim>\<open>src/app/security.py\<close>: who the caller is (the peer, or the browser the in-process UI vouches for
  with an HMAC proof), the sampling of anonymous denials, and the batch that seals and commits.

  A request is a record of the fields these functions read. \<open>hm\<close> is HMAC-SHA-256 over the text of a message,
  \<open>ip_address\<close> the canonical text of \<^verbatim>\<open>ipaddress.ip_address\<close> (\<open>None\<close> is its \<^verbatim>\<open>ValueError\<close>),
  \<open>redact\<close> the scanner of \<^verbatim>\<open>src/app/dlp.py\<close>; no property depends on what \<open>redact\<close> returns.
  Clock readings are arguments.
\<close>

datatype audit_error = Audit_ValueError | Audit_Chain chain_error

record request =
  rq_headers :: "(string \<times> string) list"
  rq_client_host :: "string option"
  rq_request_id :: "string option"
  rq_ui_context :: "(string \<times> string) option option"

text \<open>\<^verbatim>\<open>request.headers.get\<close>: names compare without case, the first occurrence counts.\<close>

definition header_get :: "request \<Rightarrow> string \<Rightarrow> string option" where
  "header_get r name = map_option snd (find (\<lambda>h. py_lower (fst h) = py_lower name) (rq_headers r))"

definition header_get_or :: "request \<Rightarrow> string \<Rightarrow> string \<Rightarrow> string" where
  "header_get_or r name dflt = (case header_get r name of None \<Rightarrow> dflt | Some v \<Rightarrow> v)"

definition UI_CLIENT_IP_HEADER :: string where
  "UI_CLIENT_IP_HEADER = ''X-SCAP-UI-Client-IP''"

definition UI_CLIENT_UA_HEADER :: string where
  "UI_CLIENT_UA_HEADER = ''X-SCAP-UI-Client-UA''"

definition UI_CLIENT_TS_HEADER :: string where
  "UI_CLIENT_TS_HEADER = ''X-SCAP-UI-Client-TS''"

definition UI_CLIENT_PROOF_HEADER :: string where
  "UI_CLIENT_PROOF_HEADER = ''X-SCAP-UI-Client-Proof''"

definition UI_CLIENT_MAX_SKEW_SECONDS :: rat where
  "UI_CLIENT_MAX_SKEW_SECONDS = 60"

definition SAMPLED_ANONYMOUS_RATE_EVENTS :: "string list" where
  "SAMPLED_ANONYMOUS_RATE_EVENTS =
     [''auth.login'', ''auth.register'', ''auth.password_reset.request'', ''auth.password_reset'',
      ''auth.passkey.login'']"

definition safe_user_agent :: "(string \<Rightarrow> string) \<Rightarrow> string \<Rightarrow> string option" where
  "safe_user_agent redact value =
     (let sanitized = redact (take 512 value);
          sanitized = take 256 (py_strip (single_line sanitized))
      in if sanitized = '''' then None else Some sanitized)"

section \<open>The browser behind the UI\<close>

definition derive_ui_client_context_key :: "(string \<Rightarrow> 'key) \<Rightarrow> string \<Rightarrow> 'key" where
  "derive_ui_client_context_key sha256 secret_key = sha256 (''secure-chat:ui-client-context:v1:'' @ secret_key)"

definition ui_context_message :: "string \<Rightarrow> string \<Rightarrow> string \<Rightarrow> string" where
  "ui_context_message timestamp ip user_agent = join [CHR 0x0A] [''v1'', timestamp, ip, user_agent]"

definition ui_client_context_mac :: "'key hmac \<Rightarrow> 'key \<Rightarrow> string \<Rightarrow> string \<Rightarrow> string \<Rightarrow> string" where
  "ui_client_context_mac hm key timestamp ip user_agent = hm key (ui_context_message timestamp ip user_agent)"

definition header_safe :: "string \<Rightarrow> string" where
  "header_safe s = map (\<lambda>c. if 32 \<le> code c \<and> code c \<le> 126 then c else CHR ''?'') s"

text \<open>\<^verbatim>\<open>int\<close> of a float truncates towards zero.\<close>

definition py_trunc :: "rat \<Rightarrow> int" where
  "py_trunc q = (if q < 0 then \<lceil>q\<rceil> else \<lfloor>q\<rfloor>)"

definition sign_ui_client_context ::
    "(string \<Rightarrow> string option) \<Rightarrow> 'key hmac \<Rightarrow> 'key \<Rightarrow> string \<Rightarrow> string \<Rightarrow> time \<Rightarrow> (string, string) pydict" where
  "sign_ui_client_context ip_address hm key ip user_agent now =
     (case ip_address (py_strip ip) of
        None \<Rightarrow> []
      | Some ip \<Rightarrow>
          let user_agent = take 512 (header_safe user_agent);
              timestamp = show_int (py_trunc now)
          in [(UI_CLIENT_IP_HEADER, ip), (UI_CLIENT_UA_HEADER, user_agent), (UI_CLIENT_TS_HEADER, timestamp),
              (UI_CLIENT_PROOF_HEADER, ui_client_context_mac hm key timestamp ip user_agent)])"

definition verified_ui_client_context ::
    "(string \<Rightarrow> string option) \<Rightarrow> 'key hmac \<Rightarrow> 'key option \<Rightarrow> time \<Rightarrow> request \<Rightarrow>
     audit_error + (string \<times> string) option" where
  "verified_ui_client_context ip_address hm app_key now r =
     (let proof = header_get_or r UI_CLIENT_PROOF_HEADER ''''
      in if proof = '''' then Inr None
         else case app_key of
           None \<Rightarrow> Inr None
         | Some key \<Rightarrow>
             let ip = header_get_or r UI_CLIENT_IP_HEADER '''';
                 user_agent = header_get_or r UI_CLIENT_UA_HEADER '''';
                 timestamp = header_get_or r UI_CLIENT_TS_HEADER ''''
             in if \<not> py_isdigit timestamp \<or> 12 < length timestamp then Inr None
                else case int_of_digits timestamp of
                  None \<Rightarrow> Inl Audit_ValueError
                | Some ts \<Rightarrow>
                    if \<bar>now - of_int ts\<bar> > UI_CLIENT_MAX_SKEW_SECONDS then Inr None
                    else case ip_address ip of
                      None \<Rightarrow> Inr None
                    | Some _ \<Rightarrow>
                        if encode_ascii_replace proof \<noteq> ui_client_context_mac hm key timestamp ip user_agent
                        then Inr None
                        else Inr (Some (ip, user_agent)))"

text \<open>The decision is cached on the request.\<close>

definition trusted_ui_client_context ::
    "(string \<Rightarrow> string option) \<Rightarrow> 'key hmac \<Rightarrow> 'key option \<Rightarrow> time \<Rightarrow> request \<Rightarrow>
     (audit_error + (string \<times> string) option) \<times> request" where
  "trusted_ui_client_context ip_address hm app_key now r =
     (case rq_ui_context r of
        Some c \<Rightarrow> (Inr c, r)
      | None \<Rightarrow>
          (case verified_ui_client_context ip_address hm app_key now r of
             Inl e \<Rightarrow> (Inl e, r)
           | Inr c \<Rightarrow> (Inr c, r\<lparr>rq_ui_context := Some c\<rparr>)))"

definition client_ip ::
    "(string \<Rightarrow> string option) \<Rightarrow> 'key hmac \<Rightarrow> 'key option \<Rightarrow> time \<Rightarrow> request \<Rightarrow>
     (audit_error + string) \<times> request" where
  "client_ip ip_address hm app_key now r =
     (case trusted_ui_client_context ip_address hm app_key now r of
        (Inl e, r) \<Rightarrow> (Inl e, r)
      | (Inr (Some c), r) \<Rightarrow> (Inr (take 64 (fst c)), r)
      | (Inr None, r) \<Rightarrow>
          (Inr (take 64 (case rq_client_host r of None \<Rightarrow> ''unknown'' | Some h \<Rightarrow> h)), r))"

definition client_user_agent ::
    "(string \<Rightarrow> string option) \<Rightarrow> 'key hmac \<Rightarrow> 'key option \<Rightarrow> time \<Rightarrow> request \<Rightarrow>
     (audit_error + string) \<times> request" where
  "client_user_agent ip_address hm app_key now r =
     (case trusted_ui_client_context ip_address hm app_key now r of
        (Inl e, r) \<Rightarrow> (Inl e, r)
      | (Inr (Some c), r) \<Rightarrow> (Inr (snd c), r)
      | (Inr None, r) \<Rightarrow> (Inr (header_get_or r ''user-agent'' ''''), r))"

section \<open>Recording events\<close>

fun safe_value :: "(string \<Rightarrow> string) \<Rightarrow> jval \<Rightarrow> jval" where
  "safe_value redact (JStr s) = JStr (take 500 (single_line (redact (take 2048 s))))"
| "safe_value redact v = v"

definition safe_json :: "(string \<Rightarrow> string) \<Rightarrow> (string, jval) pydict \<Rightarrow> string" where
  "safe_json redact data =
     (if data = [] then ''{}''
      else let cleaned = fold (\<lambda>(key, value) d. dict_set (take 80 (single_line key)) (safe_value redact value) d) data []
           in ''{'' @ json_members False cleaned @ ''}'')"

record event_spec =
  es_event_type :: string
  es_actor_id :: "string option"
  es_target_type :: "string option"
  es_target_id :: "string option"
  es_outcome :: string
  es_details :: "(string, jval) pydict"

definition truncate_opt :: "nat \<Rightarrow> string option \<Rightarrow> string option" where
  "truncate_opt n v = (case v of None \<Rightarrow> None | Some s \<Rightarrow> if s = '''' then None else Some (take n s))"

definition sampled_event :: "event_spec \<Rightarrow> bool" where
  "sampled_event s \<longleftrightarrow>
     es_actor_id s = None \<and> es_event_type s \<in> set SAMPLED_ANONYMOUS_RATE_EVENTS \<and>
     es_outcome s = ''blocked'' \<and> es_details s = [(''reason'', JStr ''rate_limit'')]"

text \<open>
  What the application state holds: the UI key, the audit key, the monitor and the checkpoint service (its
  answer for an event, \<open>False\<close> when anchoring raises).
\<close>

record 'key app_state =
  app_ui_key :: "'key option"
  app_audit_key :: "'key option"
  app_monitor :: "monitor option"
  app_checkpoint :: "(audit_event \<Rightarrow> bool) option"

record 'key audit_env =
  env_ip_address :: "string \<Rightarrow> string option"
  env_hmac :: "'key hmac"
  env_redact :: "string \<Rightarrow> string"
  env_now :: time
  env_clock :: time
  env_micros :: int

definition build_event ::
    "'key audit_env \<Rightarrow> 'key option \<Rightarrow> request \<Rightarrow> event_spec \<Rightarrow> (string, jval) pydict \<Rightarrow>
     (audit_error + audit_event) \<times> request" where
  "build_event env ui_key r s details =
     (case client_ip (env_ip_address env) (env_hmac env) ui_key (env_now env) r of
        (Inl e, r) \<Rightarrow> (Inl e, r)
      | (Inr ip, r) \<Rightarrow>
          (case client_user_agent (env_ip_address env) (env_hmac env) ui_key (env_now env) r of
             (Inl e, r) \<Rightarrow> (Inl e, r)
           | (Inr ua, r) \<Rightarrow>
               (Inr \<lparr>ae_id = None, ae_actor_id = es_actor_id s, ae_event_type = take 64 (es_event_type s),
                     ae_target_type = truncate_opt 32 (es_target_type s),
                     ae_target_id = truncate_opt 64 (es_target_id s),
                     ae_outcome = take 16 (es_outcome s), ae_ip_address = Some ip,
                     ae_user_agent = safe_user_agent (env_redact env) ua,
                     ae_request_id = rq_request_id r, ae_details_json = safe_json (env_redact env) details,
                     ae_created_at = None, ae_prev_hash = None, ae_entry_hash = None\<rparr>, r)))"

definition prepare_audit ::
    "'key audit_env \<Rightarrow> event_spec \<Rightarrow> 'key app_state \<Rightarrow> request \<Rightarrow>
     (audit_error + (audit_event \<times> (string, jval) pydict) option) \<times> 'key app_state \<times> request" where
  "prepare_audit env s app r =
     (case (if sampled_event s then app_monitor app else None) of
        Some m \<Rightarrow>
          (case sample_anonymous_audit (es_event_type s) (env_clock env) m of
             (None, m) \<Rightarrow> (Inr None, app\<lparr>app_monitor := Some m\<rparr>, r)
           | (Some suppressed, m) \<Rightarrow>
               let details = es_details s @ [(''sample_window_seconds'', JInt 60),
                                             (''suppressed_before_this_sample'', JInt suppressed)]
               in case build_event env (app_ui_key app) r s details of
                    (Inl e, r) \<Rightarrow> (Inl e, app\<lparr>app_monitor := Some m\<rparr>, r)
                  | (Inr ev, r) \<Rightarrow> (Inr (Some (ev, details)), app\<lparr>app_monitor := Some m\<rparr>, r))
      | None \<Rightarrow>
          (case build_event env (app_ui_key app) r s (es_details s) of
             (Inl e, r) \<Rightarrow> (Inl e, app, r)
           | (Inr ev, r) \<Rightarrow> (Inr (Some (ev, es_details s)), app, r)))"

fun prepare_all ::
    "'key audit_env \<Rightarrow> event_spec list \<Rightarrow> 'key app_state \<Rightarrow> request \<Rightarrow>
     (audit_error + (audit_event \<times> (string, jval) pydict) list) \<times> 'key app_state \<times> request" where
  "prepare_all env [] app r = (Inr [], app, r)"
| "prepare_all env (s # ss) app r =
     (case prepare_audit env s app r of
        (Inl e, app, r) \<Rightarrow> (Inl e, app, r)
      | (Inr item, app, r) \<Rightarrow>
          (case prepare_all env ss app r of
             (Inl e, app, r) \<Rightarrow> (Inl e, app, r)
           | (Inr items, app, r) \<Rightarrow>
               (Inr (case item of None \<Rightarrow> items | Some i \<Rightarrow> i # items), app, r)))"

text \<open>Sealing a batch under the chain lock: \<open>Inl\<close> leaves the transaction to be rolled back.\<close>

fun seal_batch ::
    "'key hmac \<Rightarrow> 'key \<Rightarrow> int \<Rightarrow> audit_table \<Rightarrow> audit_event list \<Rightarrow> chain_error + (audit_event list \<times> audit_table)" where
  "seal_batch hm key now rows [] = Inr ([], rows)"
| "seal_batch hm key now rows (event # events) =
     (case seal_event hm rows event key now of
        Inl e \<Rightarrow> Inl e
      | Inr event \<Rightarrow>
          let rows = insert_event rows event
          in case seal_batch hm key now rows events of
               Inl e \<Rightarrow> Inl e
             | Inr (events, rows') \<Rightarrow> Inr (last rows # events, rows'))"

fun insert_unsealed :: "int \<Rightarrow> audit_table \<Rightarrow> audit_event list \<Rightarrow> audit_event list \<times> audit_table" where
  "insert_unsealed now rows [] = ([], rows)"
| "insert_unsealed now rows (event # events) =
     (let rows = insert_event rows (event\<lparr>ae_created_at := Some (Datetime now (Some 0))\<rparr>);
          (events, rows') = insert_unsealed now rows events
      in (last rows # events, rows'))"

datatype siem_event = Siem_Audit audit_event "(string, jval) pydict" | Siem_Checkpoint_Failed audit_event

definition deliver_committed_audit ::
    "(audit_event \<Rightarrow> bool) option \<Rightarrow> audit_event \<Rightarrow> (string, jval) pydict \<Rightarrow> siem_event list" where
  "deliver_committed_audit checkpoint_service event details =
     Siem_Audit event details #
     (case checkpoint_service of
        None \<Rightarrow> []
      | Some anchor \<Rightarrow> if anchor event then [] else [Siem_Checkpoint_Failed event])"

definition record_audits ::
    "'key audit_env \<Rightarrow> event_spec list \<Rightarrow> 'key app_state \<Rightarrow> request \<Rightarrow> audit_table \<Rightarrow>
     (audit_error + audit_event list) \<times> 'key app_state \<times> audit_table \<times> siem_event list" where
  "record_audits env events app r rows =
     (case prepare_all env events app r of
        (Inl e, app, r) \<Rightarrow> (Inl e, app, rows, [])
      | (Inr prepared, app, r) \<Rightarrow>
          if prepared = [] then (Inr [], app, rows, [])
          else
            case (case app_audit_key app of
                    None \<Rightarrow> Inr (insert_unsealed (env_micros env) rows (map fst prepared))
                  | Some key \<Rightarrow> seal_batch (env_hmac env) key (env_micros env) rows (map fst prepared)) of
              Inl e \<Rightarrow> (Inl (Audit_Chain e), app, rows, [])
            | Inr (stored, rows) \<Rightarrow>
                (Inr stored, app, rows,
                 concat (map (\<lambda>(ev, details). deliver_committed_audit (app_checkpoint app) ev details)
                   (zip stored (map snd prepared)))))"

definition record_audit ::
    "'key audit_env \<Rightarrow> event_spec \<Rightarrow> 'key app_state \<Rightarrow> request \<Rightarrow> audit_table \<Rightarrow>
     (audit_error + audit_event option) \<times> 'key app_state \<times> audit_table \<times> siem_event list" where
  "record_audit env event app r rows =
     (case record_audits env [event] app r rows of
        (Inl e, st) \<Rightarrow> (Inl e, st)
      | (Inr events, st) \<Rightarrow> (Inr (case events of [] \<Rightarrow> None | ev # _ \<Rightarrow> Some ev), st))"

section \<open>The signed context is unambiguous\<close>

lemma ui_context_message_inject:
  assumes "ui_context_message ts ip ua = ui_context_message ts' ip' ua'"
    and "CHR 0x0A \<notin> set ts" "CHR 0x0A \<notin> set ts'" "CHR 0x0A \<notin> set ip" "CHR 0x0A \<notin> set ip'"
  shows "ts = ts' \<and> ip = ip' \<and> ua = ua'"
proof -
  have "ts @ CHR 0x0A # ip @ CHR 0x0A # ua = ts' @ CHR 0x0A # ip' @ CHR 0x0A # ua'"
    using assms(1) by (simp add: ui_context_message_def)
  from split_field_inject[OF assms(2,3) this] have "ts = ts'" "ip @ CHR 0x0A # ua = ip' @ CHR 0x0A # ua'"
    by simp_all
  with split_field_inject[OF assms(4,5)] show ?thesis by simp
qed

lemma verified_ui_accepts:
  assumes "verified_ui_client_context ip_address hm app_key now r = Inr (Some (ip, ua))"
  shows "\<exists>key ts n. app_key = Some key \<and> header_get_or r UI_CLIENT_TS_HEADER '''' = ts \<and> int_of_digits ts = Some n \<and>
    py_isdigit ts \<and> \<bar>now - of_int n\<bar> \<le> 60 \<and> ip_address ip \<noteq> None \<and>
    encode_ascii_replace (header_get_or r UI_CLIENT_PROOF_HEADER '''') = hm key (ui_context_message ts ip ua)"
  using assms
  by (auto simp: verified_ui_client_context_def Let_def UI_CLIENT_MAX_SKEW_SECONDS_def ui_client_context_mac_def
      split: option.splits if_splits)

lemma hex_digest_ascii:
  assumes "hex_digests hm"
  shows "encode_ascii_replace (hm key m) = hm key m" and "hm key m \<noteq> []"
proof -
  have v: "length (hm key m) = 64" "\<And>c. c \<in> set (hm key m) \<Longrightarrow> c \<in> set ''0123456789abcdef''"
    using assms by (auto simp: hex_digests_def valid_sha256_digest_def list_all_iff)
  show "hm key m \<noteq> []" using v(1) by auto
  have "code c < 128" if "c \<in> set (hm key m)" for c
    using v(2)[OF that] by auto
  then show "encode_ascii_replace (hm key m) = hm key m"
    by (intro encode_ascii_replace_id) (simp add: list_all_iff)
qed

text \<open>The number of digits of a number below a power of ten.\<close>

lemma signed_headers_get:
  assumes "rq_headers r = [(UI_CLIENT_IP_HEADER, a), (UI_CLIENT_UA_HEADER, b), (UI_CLIENT_TS_HEADER, c),
      (UI_CLIENT_PROOF_HEADER, d)]"
  shows "header_get_or r UI_CLIENT_IP_HEADER x = a" "header_get_or r UI_CLIENT_UA_HEADER x = b"
    "header_get_or r UI_CLIENT_TS_HEADER x = c" "header_get_or r UI_CLIENT_PROOF_HEADER x = d"
  using assms
  by (simp_all add: header_get_or_def header_get_def UI_CLIENT_IP_HEADER_def UI_CLIENT_UA_HEADER_def
      UI_CLIENT_TS_HEADER_def UI_CLIENT_PROOF_HEADER_def py_lower_def lower_char_def is_upper_def)

lemma ui_context_accepted:
  assumes "hex_digests hm" and "ip_address (py_strip ip) = Some c" and "ip_address c \<noteq> None"
    and "0 \<le> now" "now < 10 ^ 12" and "\<bar>now' - of_int \<lfloor>now\<rfloor>\<bar> \<le> 60"
    and "rq_headers r = sign_ui_client_context ip_address hm key ip ua now"
  shows "verified_ui_client_context ip_address hm (Some key) now' r = Inr (Some (c, take 512 (header_safe ua)))"
proof -
  define ts where "ts = show_nat (nat \<lfloor>now\<rfloor>)"
  have "\<lfloor>now\<rfloor> < 1000000000000"
    using assms(5) by (simp add: floor_less_iff)
  then have "nat \<lfloor>now\<rfloor> < 1000000000000"
    by linarith
  then have "nat \<lfloor>now\<rfloor> < 10 ^ Suc 11"
    by simp
  then have len: "length ts \<le> 12"
    using length_show_nat[of "nat \<lfloor>now\<rfloor>" 11] by (simp add: ts_def)
  have "show_int (py_trunc now) = ts"
    using assms(4) by (simp add: show_int_def py_trunc_def ts_def)
  then have hs: "rq_headers r = [(UI_CLIENT_IP_HEADER, c), (UI_CLIENT_UA_HEADER, take 512 (header_safe ua)),
      (UI_CLIENT_TS_HEADER, ts), (UI_CLIENT_PROOF_HEADER, ui_client_context_mac hm key ts c (take 512 (header_safe ua)))]"
    using assms(2,7) by (simp add: sign_ui_client_context_def Let_def)
  have ts: "py_isdigit ts" "int_of_digits ts = Some \<lfloor>now\<rfloor>"
    using assms(4) by (simp_all add: ts_def show_nat_isdigit)
  show ?thesis
    using len ts assms(3,6) hex_digest_ascii[OF assms(1)]
    by (auto simp: verified_ui_client_context_def Let_def signed_headers_get[OF hs] ui_client_context_mac_def
        UI_CLIENT_MAX_SKEW_SECONDS_def)
qed

section \<open>A batch extends the chain\<close>

lemma insert_event_last: "insert_event rows e = rows @ [last (insert_event rows e)]"
  by (simp add: insert_event_def)

lemma seal_batch_total:
  assumes "\<And>e. e \<in> set events \<Longrightarrow> ae_id e = None"
  shows "\<exists>stored rows'. seal_batch hm key now rows events = Inr (stored, rows')"
  using assms
proof (induction events arbitrary: rows)
  case Nil
  then show ?case by simp
next
  case (Cons e events)
  then obtain e' where e': "seal_event hm rows e key now = Inr e'"
    by (auto simp: seal_event_def Let_def)
  obtain stored rows' where "seal_batch hm key now (insert_event rows e') events = Inr (stored, rows')"
    using Cons by fastforce
  then show ?case using e' by (simp add: Let_def)
qed

definition same_content :: "audit_event \<Rightarrow> audit_event \<Rightarrow> bool" where
  "same_content e e' \<longleftrightarrow> fst (signed_fields e) = fst (signed_fields e')"

lemma seal_batch_spec:
  assumes "seal_batch hm key now rows events = Inr (stored, rows')"
    and "hex_digests hm" "linked hm key GENESIS_HASH rows"
  shows "rows' = rows @ stored \<and> linked hm key GENESIS_HASH rows' \<and> list_all2 same_content events stored"
  using assms
proof (induction events arbitrary: rows stored)
  case Nil
  then show ?case by simp
next
  case (Cons e events)
  obtain e' where e': "seal_event hm rows e key now = Inr e'"
    using Cons.prems(1) by (auto split: sum.splits)
  let ?rows = "insert_event rows e'"
  obtain rest where rest: "seal_batch hm key now ?rows events = Inr (rest, rows')" "stored = last ?rows # rest"
    using Cons.prems(1) e' by (auto simp: Let_def split: sum.splits prod.splits)
  have "linked hm key GENESIS_HASH ?rows"
    using seal_insert_linked(1)[OF Cons.prems(2,3) e'] .
  note IH = Cons.IH[OF rest(1) Cons.prems(2) this]
  have "same_content e (last ?rows)"
    using e' by (auto simp: same_content_def insert_event_def seal_event_def signed_fields_def Let_def split: if_splits)
  then show ?case
    using IH rest(2) by (metis append.assoc append_Cons append_Nil insert_event_last list_all2_Cons)
qed

lemma build_event_id: "build_event env k r s d = (Inr ev, r') \<Longrightarrow> ae_id ev = None"
  by (auto simp: build_event_def split: sum.splits prod.splits)

lemma prepare_audit_app:
  assumes "prepare_audit env s app r = (x, app', r')"
  shows "app_audit_key app' = app_audit_key app \<and> app_checkpoint app' = app_checkpoint app"
  using assms by (auto simp: prepare_audit_def Let_def split: option.splits sum.splits prod.splits if_splits)

lemma prepare_audit_id:
  "prepare_audit env s app r = (Inr (Some (ev, d)), app', r') \<Longrightarrow> ae_id ev = None"
  by (auto simp: prepare_audit_def Let_def dest: build_event_id split: option.splits sum.splits prod.splits if_splits)

lemma prepare_all_app: "prepare_all env ss app r = (x, app', r') \<Longrightarrow> app_audit_key app' = app_audit_key app"
  by (induction ss arbitrary: app r x) (auto split: sum.splits prod.splits dest!: prepare_audit_app)

lemma prepare_all_id:
  assumes "prepare_all env ss app r = (Inr items, app', r')" and "ev \<in> fst ` set items"
  shows "ae_id ev = None"
  using assms
proof (induction ss arbitrary: app r items)
  case Nil
  then show ?case by simp
next
  case (Cons s ss)
  obtain y app1 r1 where p: "prepare_audit env s app r = (y, app1, r1)" by (metis prod_cases3)
  obtain i rest app2 r2 where q: "y = Inr i" "prepare_all env ss app1 r1 = (Inr rest, app2, r2)"
    "items = (case i of None \<Rightarrow> rest | Some j \<Rightarrow> j # rest)" "app2 = app'" "r2 = r'"
    using Cons.prems(1) p by (auto split: sum.splits prod.splits)
  show ?case
    using Cons.prems(2) q p Cons.IH[OF q(2)[unfolded q(4,5)]] prepare_audit_id[of env s app r]
    by (cases i) auto
qed

lemma record_audits_chain:
  assumes h: "hex_digests (env_hmac env)" and k: "app_audit_key app = Some key"
    and l: "linked (env_hmac env) key GENESIS_HASH rows"
    and run: "record_audits env events app r rows = (res, app', rows', siem)"
  shows "linked (env_hmac env) key GENESIS_HASH rows' \<and> (\<forall>e. res = Inl e \<longrightarrow> rows' = rows \<and> siem = []) \<and>
    (\<forall>stored. res = Inr stored \<longrightarrow> rows' = rows @ stored \<and>
      (\<forall>ev d. Siem_Audit ev d \<in> set siem \<longrightarrow> ev \<in> set stored) \<and>
      (\<exists>prepared app'' r''. prepare_all env events app r = (Inr prepared, app'', r'') \<and>
         list_all2 same_content (map fst prepared) stored))"
proof -
  obtain x app1 r1 where p: "prepare_all env events app r = (x, app1, r1)" by (metis prod_cases3)
  have key: "app_audit_key app1 = Some key"
    using prepare_all_app[OF p] k by simp
  show ?thesis
  proof (cases x)
    case (Inl e)
    then show ?thesis using run p l by (auto simp: record_audits_def)
  next
    case (Inr prepared)
    show ?thesis
    proof (cases "prepared = []")
      case True
      then show ?thesis using run p l Inr by (auto simp: record_audits_def)
    next
      case False
      have "\<And>e. e \<in> set (map fst prepared) \<Longrightarrow> ae_id e = None"
        by (rule prepare_all_id[OF p[unfolded Inr]]) simp
      then obtain stored rows1 where sb: "seal_batch (env_hmac env) key (env_micros env) rows (map fst prepared) =
          Inr (stored, rows1)"
        using seal_batch_total[of "map fst prepared" "env_hmac env" key "env_micros env" rows] by metis
      have out: "res = Inr stored \<and> rows' = rows1 \<and> siem = concat (map (\<lambda>(ev, details).
          deliver_committed_audit (app_checkpoint app1) ev details) (zip stored (map snd prepared)))"
        using run unfolding record_audits_def p Inr by (auto simp add: False key sb)
      have told: "ev \<in> set stored"
        if sa: "Siem_Audit ev d \<in> set (concat (map (\<lambda>(ev, details).
          deliver_committed_audit (app_checkpoint app1) ev details) (zip stored (map snd prepared))))" for ev d
      proof -
        obtain ev' d' where z: "(ev', d') \<in> set (zip stored (map snd prepared))"
          and m: "Siem_Audit ev d \<in> set (deliver_committed_audit (app_checkpoint app1) ev' d')"
          using sa by fastforce
        have "ev = ev'"
          using m by (auto simp: deliver_committed_audit_def split: option.splits if_splits)
        then show ?thesis using set_zip_leftD[OF z] by simp
      qed
      have "\<forall>ev d. Siem_Audit ev d \<in> set siem \<longrightarrow> ev \<in> set stored"
        using out told by blast
      then show ?thesis
        using seal_batch_spec[OF sb h l] p Inr out by (metis sum.inject(2) sum.simps(4))
    qed
  qed
qed

section \<open>Properties\<close>

text \<open>A parser for the evaluation of the operations: it accepts dotted digits and returns them unchanged.\<close>

definition demo_ip_address :: "string \<Rightarrow> string option" where
  "demo_ip_address s = (if s \<noteq> [] \<and> list_all (\<lambda>c. is_digit c \<or> c = CHR ''.'') s then Some s else None)"

definition demo_request :: "(string \<times> string) list \<Rightarrow> request" where
  "demo_request hs = \<lparr>rq_headers = hs, rq_client_host = Some ''127.0.0.1'', rq_request_id = None, rq_ui_context = None\<rparr>"

definition demo_env :: "nat audit_env" where
  "demo_env = \<lparr>env_ip_address = demo_ip_address, env_hmac = demo_hmac, env_redact = id, env_now = 100,
     env_clock = 5, env_micros = 0\<rparr>"

definition demo_app :: "nat app_state" where
  "demo_app = \<lparr>app_ui_key = Some 7, app_audit_key = Some 5, app_monitor = Some monitor_init, app_checkpoint = None\<rparr>"

definition demo_spec :: "string option \<Rightarrow> event_spec" where
  "demo_spec actor = \<lparr>es_event_type = ''auth.login'', es_actor_id = actor, es_target_type = None, es_target_id = None,
     es_outcome = ''blocked'', es_details = [(''reason'', JStr ''rate_limit'')]\<rparr>"

text \<open>The UI and the API agree on the browser: headers signed for an address are accepted within the allowed
  clock skew, and the request is then attributed to that address (cut to 64 characters) and not to the
  loopback peer.\<close>

theorem ui_context_roundtrip:
  assumes "hex_digests hm" and "ip_address (py_strip ip) = Some c" and "ip_address c \<noteq> None"
    and "0 \<le> now" and "now < 10 ^ 12" and "\<bar>now' - of_int \<lfloor>now\<rfloor>\<bar> \<le> 60"
    and "rq_headers r = sign_ui_client_context ip_address hm key ip ua now" and "rq_ui_context r = None"
  shows "fst (client_ip ip_address hm (Some key) now' r) = Inr (take 64 c) \<and>
         fst (client_user_agent ip_address hm (Some key) now' r) = Inr (take 512 (header_safe ua))"
  using ui_context_accepted[OF assms(1-7)] assms(8)
  by (simp add: client_ip_def client_user_agent_def trusted_ui_client_context_def)

theorem ui_context_roundtrip_witness:
  "fst (client_ip demo_ip_address demo_hmac (Some 7) 130
      (demo_request (sign_ui_client_context demo_ip_address demo_hmac 7 '' 9.9.9.9 '' ''curl'' 100))) = Inr ''9.9.9.9''"
proof -
  have "demo_ip_address (py_strip '' 9.9.9.9 '') = Some ''9.9.9.9''" "demo_ip_address ''9.9.9.9'' = Some ''9.9.9.9''"
    by (simp_all add: demo_ip_address_def py_strip_def py_lstrip_def py_rstrip_def is_space_def is_digit_def)
  then show ?thesis
    using ui_context_roundtrip[OF demo_hmac_digests, of demo_ip_address "'' 9.9.9.9 ''" "''9.9.9.9''" 100 130
        "demo_request (sign_ui_client_context demo_ip_address demo_hmac 7 '' 9.9.9.9 '' ''curl'' 100)" 7 "''curl''"]
    by (simp add: demo_request_def)
qed

text \<open>A proof cannot be moved to another address, agent or time: if a request that carries the proof signed for
  one context is accepted for an address and agent, then they are the signed ones, the signing time is at most
  60 seconds away, or the two messages are a collision of the HMAC.\<close>

theorem ui_context_not_transferable:
  assumes "hex_digests hm" and "\<And>s. ip_address s \<noteq> None \<Longrightarrow> CHR 0x0A \<notin> set s" and "ip_address c \<noteq> None"
    and "header_get_or r UI_CLIENT_PROOF_HEADER '''' =
         ui_client_context_mac hm key (show_nat ts) c (take 512 (header_safe ua))"
    and "verified_ui_client_context ip_address hm (Some key) now r = Inr (Some (ip, ua'))"
  shows "(ip = c \<and> ua' = take 512 (header_safe ua) \<and> \<bar>now - of_nat ts\<bar> \<le> 60) \<or>
         (\<exists>m m'. m \<noteq> m' \<and> hm key m = hm key m')"
proof -
  obtain ts' n where v: "int_of_digits ts' = Some n" "py_isdigit ts'" "\<bar>now - of_int n\<bar> \<le> 60" "ip_address ip \<noteq> None"
    "encode_ascii_replace (header_get_or r UI_CLIENT_PROOF_HEADER '''') = hm key (ui_context_message ts' ip ua')"
    using verified_ui_accepts[OF assms(5)] by auto
  let ?m = "ui_context_message (show_nat ts) c (take 512 (header_safe ua))"
  have eq: "hm key ?m = hm key (ui_context_message ts' ip ua')"
    using v(5) assms(4) hex_digest_ascii(1)[OF assms(1)] by (simp add: ui_client_context_mac_def)
  show ?thesis
  proof (cases "?m = ui_context_message ts' ip ua'")
    case True
    have "show_nat ts = ts' \<and> c = ip \<and> take 512 (header_safe ua) = ua'"
      by (rule ui_context_message_inject[OF True])
        (use assms(2,3) v(2,4) show_nat_isdigit in \<open>auto intro: py_isdigit_no_newline dest: py_isdigit_no_newline\<close>)
    then show ?thesis using v(1,3) by auto
  next
    case False
    then show ?thesis using eq by blast
  qed
qed

theorem ui_context_not_transferable_witness:
  "(''9.9.9.9'' = ''9.9.9.9'' \<and> ''curl'' = take 512 (header_safe ''curl'') \<and> \<bar>130 - of_nat 100\<bar> \<le> (60::rat)) \<or>
   (\<exists>m m'. m \<noteq> m' \<and> demo_hmac 7 m = demo_hmac 7 m')"
proof -
  have ip: "demo_ip_address ''9.9.9.9'' = Some ''9.9.9.9''" and st: "demo_ip_address (py_strip ''9.9.9.9'') = Some ''9.9.9.9''"
    by (simp_all add: demo_ip_address_def py_strip_def py_lstrip_def py_rstrip_def is_space_def is_digit_def)
  have nl: "\<And>s. demo_ip_address s \<noteq> None \<Longrightarrow> CHR 0x0A \<notin> set s"
    by (auto simp: demo_ip_address_def list_all_iff is_digit_def split: if_splits)
  let ?r = "demo_request (sign_ui_client_context demo_ip_address demo_hmac 7 ''9.9.9.9'' ''curl'' 100)"
  have ver: "verified_ui_client_context demo_ip_address demo_hmac (Some 7) 130 ?r =
      Inr (Some (''9.9.9.9'', take 512 (header_safe ''curl'')))"
    by (rule ui_context_accepted[where ip = "''9.9.9.9''" and now = 100])
      (simp_all add: ip st demo_request_def demo_hmac_digests)
  have safe: "take 512 (header_safe ''curl'') = ''curl''"
    by (simp add: header_safe_def)
  have "rq_headers ?r = [(UI_CLIENT_IP_HEADER, ''9.9.9.9''), (UI_CLIENT_UA_HEADER, take 512 (header_safe ''curl'')),
      (UI_CLIENT_TS_HEADER, show_nat 100),
      (UI_CLIENT_PROOF_HEADER, ui_client_context_mac demo_hmac 7 (show_nat 100) ''9.9.9.9'' (take 512 (header_safe ''curl'')))]"
    by (simp add: demo_request_def sign_ui_client_context_def st Let_def show_int_def py_trunc_def)
  from signed_headers_get(4)[OF this] show ?thesis
    using ui_context_not_transferable[OF demo_hmac_digests nl _ _ ver, of "''9.9.9.9''" 100 "''curl''"] ip safe by simp
qed

text \<open>A timestamp header made of a superscript digit makes the identification of the caller raise an
  uncaught \<^verbatim>\<open>ValueError\<close>: \<^verbatim>\<open>isdigit\<close> accepts it and \<^verbatim>\<open>int\<close> does not. No valid proof is needed for
  that, any non-empty one will do.\<close>

theorem ui_timestamp_superscript_raises:
  assumes "header_get_or r UI_CLIENT_PROOF_HEADER '''' \<noteq> ''''"
    and "header_get_or r UI_CLIENT_TS_HEADER '''' = [CHR 0xB2]" and "rq_ui_context r = None"
  shows "fst (client_ip ip_address hm (Some key) now r) = Inl Audit_ValueError"
  using assms
  by (simp add: client_ip_def trusted_ui_client_context_def verified_ui_client_context_def Let_def py_isdigit_def
      isdigit_char_def is_digit_def int_of_digits_def)

theorem ui_timestamp_superscript_raises_witness:
  "fst (client_ip demo_ip_address demo_hmac (Some 7) 130
      (demo_request [(''x-scap-ui-client-proof'', ''x''), (''x-scap-ui-client-ts'', [CHR 0xB2])])) =
   Inl Audit_ValueError"
  by (rule ui_timestamp_superscript_raises; code_simp)

text \<open>C24: Recording a batch keeps the trail intact: starting from an intact chain, a batch either fails and changes
  neither the table nor emits anything, or appends exactly the prepared events in order with their contents,
  leaves a chain that strict verification accepts, and tells the SIEM only about committed rows.\<close>

theorem record_audits_keeps_intact:
  assumes "hex_digests (env_hmac env)" and "app_audit_key app = Some key"
    and "cv_intact (verify_chain (env_hmac env) rows key None True)"
    and "record_audits env events app r rows = (res, app', rows', siem)"
  shows "cv_intact (verify_chain (env_hmac env) rows' key None True) \<and>
    (case res of
       Inl e \<Rightarrow> rows' = rows \<and> siem = []
     | Inr stored \<Rightarrow> rows' = rows @ stored \<and> (\<forall>ev d. Siem_Audit ev d \<in> set siem \<longrightarrow> ev \<in> set stored) \<and>
         (\<exists>prepared app'' r''. prepare_all env events app r = (Inr prepared, app'', r'') \<and>
            list_all2 same_content (map fst prepared) stored))"
  using record_audits_chain[OF assms(1,2) _ assms(4)] assms(3)
  by (auto simp: verify_chain_linked_iff split: sum.splits)

theorem record_audits_keeps_intact_witness:
  "cv_intact (verify_chain demo_hmac
     (fst (snd (snd (record_audits demo_env [demo_spec (Some ''u1''), demo_spec None] demo_app (demo_request []) []))))
     5 None True)"
proof -
  obtain res app' rows' siem where run:
    "record_audits demo_env [demo_spec (Some ''u1''), demo_spec None] demo_app (demo_request []) [] = (res, app', rows', siem)"
    by (metis prod_cases4)
  have "cv_intact (verify_chain (env_hmac demo_env) [] 5 None True)" "env_hmac demo_env = demo_hmac"
    by (simp_all add: verify_chain_def cv_start_def demo_env_def)
  then show ?thesis
    using record_audits_keeps_intact[OF _ _ _ run, of 5] run demo_hmac_digests by (simp add: demo_app_def)
qed

end
