(* ===== verification/Capacity.thy ===== *)
theory Capacity
  imports Prelude
begin

text \<open>
  Finite admission budgets: \<^verbatim>\<open>CapacityBudget\<close>, \<^verbatim>\<open>BoundedPasswordService\<close> and
  \<^verbatim>\<open>ReadinessProbe\<close> of \<^verbatim>\<open>src/app/availability.py\<close>, and \<^verbatim>\<open>_ProviderCapacity\<close> of
  \<^verbatim>\<open>src/app/services.py\<close>.

  Each method runs under the object's lock and is one step. A context manager
  (\<^verbatim>\<open>with budget.claim(): ...\<close>) takes its body as a function on the budget, because other
  threads may take and return slots while the body runs; the body's result is a value or an
  exception, and the \<^verbatim>\<open>finally\<close> part runs for both.
\<close>

datatype capacity_error = Cap_ValueError | Cap_ReleaseWithoutAcquire | Cap_Exceeded | Cap_Body

record capacity_budget =
  cb_maximum :: int
  cb_active :: int
  cb_rejected :: int

definition capacity_init :: "int \<Rightarrow> capacity_error + capacity_budget" where
  "capacity_init maximum =
     (if maximum \<le> 0 then Inl Cap_ValueError
      else Inr \<lparr>cb_maximum = maximum, cb_active = 0, cb_rejected = 0\<rparr>)"

definition cb_acquire :: "capacity_budget \<Rightarrow> bool \<times> capacity_budget" where
  "cb_acquire b =
     (if cb_active b \<ge> cb_maximum b then (False, b\<lparr>cb_rejected := cb_rejected b + 1\<rparr>)
      else (True, b\<lparr>cb_active := cb_active b + 1\<rparr>))"

definition cb_release :: "capacity_budget \<Rightarrow> capacity_error + capacity_budget" where
  "cb_release b =
     (if cb_active b \<le> 0 then Inl Cap_ReleaseWithoutAcquire
      else Inr (b\<lparr>cb_active := cb_active b - 1\<rparr>))"

definition cb_claim ::
    "(capacity_budget \<Rightarrow> (capacity_error + 'a) \<times> capacity_budget) \<Rightarrow> capacity_budget \<Rightarrow>
     (capacity_error + 'a) \<times> capacity_budget" where
  "cb_claim body b =
     (case cb_acquire b of
        (False, b) \<Rightarrow> (Inl Cap_Exceeded, b)
      | (True, b) \<Rightarrow>
          (case body b of (result, b) \<Rightarrow>
             (case cb_release b of
                Inl e \<Rightarrow> (Inl e, b)
              | Inr b \<Rightarrow> (result, b))))"

text \<open>The Argon2 primitives are the \<^verbatim>\<open>argon2\<close> package's; their results are arguments.\<close>

definition bounded_password_hash ::
    "(string \<Rightarrow> string) \<Rightarrow> string \<Rightarrow> capacity_budget \<Rightarrow> (capacity_error + string) \<times> capacity_budget" where
  "bounded_password_hash argon2 password b = cb_claim (\<lambda>b. (Inr (argon2 password), b)) b"

definition bounded_password_verify ::
    "(string \<Rightarrow> string \<Rightarrow> bool) \<Rightarrow> string \<Rightarrow> string \<Rightarrow> capacity_budget \<Rightarrow>
     (capacity_error + bool) \<times> capacity_budget" where
  "bounded_password_verify verify password_hash password b =
     cb_claim (\<lambda>b. (Inr (verify password_hash password), b)) b"

text \<open>The process-wide provider budget: the ceiling comes with each claim.\<close>

record provider_capacity =
  pc_active :: int

definition provider_enter :: "int \<Rightarrow> provider_capacity \<Rightarrow> bool \<times> provider_capacity" where
  "provider_enter maximum p =
     (if pc_active p \<ge> maximum then (False, p) else (True, p\<lparr>pc_active := pc_active p + 1\<rparr>))"

definition provider_exit :: "provider_capacity \<Rightarrow> provider_capacity" where
  "provider_exit p = p\<lparr>pc_active := pc_active p - 1\<rparr>"

text \<open>
  \<^verbatim>\<open>ReadinessProbe.check\<close>: \<open>t1\<close>, \<open>t2\<close>, \<open>t3\<close> are its three possible clock readings; the
  callback returns a truth value or raises (\<open>None\<close>).
\<close>

record readiness_probe =
  rp_cache_seconds :: int
  rp_capacity :: capacity_budget
  rp_valid_until :: time

definition readiness_init :: "int \<Rightarrow> readiness_probe" where
  "readiness_init cache_seconds =
     \<lparr>rp_cache_seconds = cache_seconds,
      rp_capacity = \<lparr>cb_maximum = 1, cb_active = 0, cb_rejected = 0\<rparr>, rp_valid_until = 0\<rparr>"

definition readiness_check ::
    "time \<Rightarrow> time \<Rightarrow> time \<Rightarrow> bool option \<Rightarrow> bool \<Rightarrow> readiness_probe \<Rightarrow>
     (capacity_error + bool) \<times> readiness_probe" where
  "readiness_check t1 t2 t3 callback cache_success p =
     (if cache_success \<and> t1 < rp_valid_until p then (Inr True, p)
      else
        case cb_acquire (rp_capacity p) of
          (False, b) \<Rightarrow> (Inr False, p\<lparr>rp_capacity := b\<rparr>)
        | (True, b) \<Rightarrow>
            let (result, p) =
                  (if cache_success \<and> t2 < rp_valid_until p then (Inr True, p\<lparr>rp_capacity := b\<rparr>)
                   else case callback of
                          None \<Rightarrow> (Inl Cap_Body, p\<lparr>rp_capacity := b\<rparr>)
                        | Some ready \<Rightarrow>
                            (Inr ready,
                             if ready \<and> cache_success
                             then p\<lparr>rp_capacity := b, rp_valid_until := t3 + of_int (rp_cache_seconds p)\<rparr>
                             else p\<lparr>rp_capacity := b\<rparr>))
            in case cb_release (rp_capacity p) of
                 Inl e \<Rightarrow> (Inl e, p)
               | Inr b \<Rightarrow> (result, p\<lparr>rp_capacity := b\<rparr>))"

section \<open>The contract of a slot budget\<close>

text \<open>
  Clients take a slot or are turned away at once, and return a slot they hold. From the laws of the
  single operations: over any run in which slots are only returned by holders, the number of
  holders is what the budget counts and never exceeds the limit.
\<close>

datatype slot_op = Take | Return

fun slot_run :: "('s \<Rightarrow> bool \<times> 's) \<Rightarrow> ('s \<Rightarrow> 's) \<Rightarrow> slot_op list \<Rightarrow> 's \<Rightarrow> nat \<Rightarrow> 's \<times> nat" where
  "slot_run acq rel [] s held = (s, held)"
| "slot_run acq rel (Take # ops) s held =
     (let (ok, s') = acq s in slot_run acq rel ops s' (if ok then held + 1 else held))"
| "slot_run acq rel (Return # ops) s held =
     (if held = 0 then slot_run acq rel ops s held
      else slot_run acq rel ops (rel s) (held - 1))"

locale slot_budget =
  fixes acq :: "'s \<Rightarrow> bool \<times> 's"
    and rel :: "'s \<Rightarrow> 's"
    and active :: "'s \<Rightarrow> int"
    and limit :: "'s \<Rightarrow> int"
  assumes acq_ok: "fst (acq s) \<longleftrightarrow> active s < limit s"
    and acq_active: "active (snd (acq s)) = (if fst (acq s) then active s + 1 else active s)"
    and rel_active: "0 < active s \<Longrightarrow> active (rel s) = active s - 1"
    and acq_limit: "limit (snd (acq s)) = limit s"
    and rel_limit: "limit (rel s) = limit s"
begin

lemma run_counts_holders:
  "slot_run acq rel ops s held = (s', held') \<Longrightarrow> active s = int held \<Longrightarrow> int held \<le> limit s \<Longrightarrow>
     active s' = int held' \<and> int held' \<le> limit s' \<and> limit s' = limit s"
proof (induction ops arbitrary: s held)
  case Nil
  then show ?case by simp
next
  case (Cons x ops)
  show ?case
  proof (cases x)
    case Take
    obtain ok s1 where t: "acq s = (ok, s1)" by (cases "acq s")
    have "active s1 = (if ok then active s + 1 else active s)" "limit s1 = limit s" "ok \<longleftrightarrow> active s < limit s"
      using acq_active[of s] acq_limit[of s] acq_ok[of s] t by auto
    then show ?thesis
      using Cons.IH[of s1 "if ok then held + 1 else held"] Cons.prems Take t by auto
  next
    case Return
    then show ?thesis
      using Cons.IH[of "rel s" "held - 1"] Cons.IH[of s held] Cons.prems rel_active[of s] rel_limit[of s]
      by (cases held) auto
  qed
qed

end

interpretation cap: slot_budget cb_acquire "\<lambda>b. case cb_release b of Inl e \<Rightarrow> b | Inr b' \<Rightarrow> b'" cb_active cb_maximum
  by unfold_locales (auto simp: cb_acquire_def cb_release_def)

interpretation prov: slot_budget "provider_enter m" provider_exit pc_active "\<lambda>_. m" for m
  by unfold_locales (auto simp: provider_enter_def provider_exit_def)

section \<open>Properties\<close>

text \<open>Over any run of requests that take slots and return only slots they hold, a capacity budget
  counts exactly the holders, never more than its maximum, and a returned slot is never refused.\<close>

theorem capacity_bounded:
  assumes "capacity_init maximum = Inr b"
    and "slot_run cb_acquire (\<lambda>b. case cb_release b of Inl e \<Rightarrow> b | Inr b' \<Rightarrow> b') ops b 0 = (b', held)"
  shows "cb_active b' = int held \<and> int held \<le> maximum \<and>
         (0 < held \<longrightarrow> cb_release b' = Inr (b'\<lparr>cb_active := int held - 1\<rparr>))"
proof -
  have "cb_active b = 0" "cb_maximum b = maximum" "0 < maximum"
    using assms(1) by (auto simp: capacity_init_def split: if_splits)
  then show ?thesis
    using cap.run_counts_holders[OF assms(2)] by (auto simp: cb_release_def)
qed

theorem capacity_bounded_witness:
  "slot_run cb_acquire (\<lambda>b. case cb_release b of Inl e \<Rightarrow> b | Inr b' \<Rightarrow> b') [Take, Take, Return, Take, Take]
     \<lparr>cb_maximum = 2, cb_active = 0, cb_rejected = 0\<rparr> 0 = (\<lparr>cb_maximum = 2, cb_active = 2, cb_rejected = 1\<rparr>, 2) \<and>
   cb_release \<lparr>cb_maximum = 2, cb_active = 2, cb_rejected = 1\<rparr> = Inr \<lparr>cb_maximum = 2, cb_active = 1, cb_rejected = 1\<rparr>"
proof -
  have init: "capacity_init 2 = Inr \<lparr>cb_maximum = 2, cb_active = 0, cb_rejected = 0\<rparr>"
    by (simp add: capacity_init_def)
  have run: "slot_run cb_acquire (\<lambda>b. case cb_release b of Inl e \<Rightarrow> b | Inr b' \<Rightarrow> b') [Take, Take, Return, Take, Take]
     \<lparr>cb_maximum = 2, cb_active = 0, cb_rejected = 0\<rparr> 0 = (\<lparr>cb_maximum = 2, cb_active = 2, cb_rejected = 1\<rparr>, 2)"
    by (simp add: cb_acquire_def cb_release_def)
  show ?thesis
    using capacity_bounded[OF init run] run by simp
qed

text \<open>The process-wide AI provider budget never has more calls in flight than the ceiling its callers
  apply.\<close>

theorem provider_capacity_bounded:
  assumes "slot_run (provider_enter maximum) provider_exit ops \<lparr>pc_active = 0\<rparr> 0 = (p, held)" and "0 \<le> maximum"
  shows "pc_active p = int held \<and> int held \<le> maximum"
  using prov.run_counts_holders[OF assms(1)] assms(2) by simp

theorem provider_capacity_bounded_witness:
  "slot_run (provider_enter 1) provider_exit [Take, Take] \<lparr>pc_active = 0\<rparr> 0 = (\<lparr>pc_active = 1\<rparr>, 1) \<and>
   pc_active \<lparr>pc_active = 1\<rparr> \<le> 1"
proof -
  have run: "slot_run (provider_enter 1) provider_exit [Take, Take] \<lparr>pc_active = 0\<rparr> 0 = (\<lparr>pc_active = 1\<rparr>, 1)"
    by (simp add: provider_enter_def)
  show ?thesis
    using provider_capacity_bounded[OF run] run by simp
qed

text \<open>A claim leaves the number of active slots as it found it, whether its body returns or raises
  (the body itself giving back what it took); when no slot is free the body does not run.\<close>

theorem claim_balanced:
  assumes "\<And>b. cb_active (snd (body b)) = cb_active b" and "0 \<le> cb_active b"
  shows "cb_active (snd (cb_claim body b)) = cb_active b \<and>
    (cb_maximum b \<le> cb_active b \<longrightarrow> fst (cb_claim body b) = Inl Cap_Exceeded) \<and>
    (cb_active b < cb_maximum b \<longrightarrow> fst (cb_claim body b) = fst (body (b\<lparr>cb_active := cb_active b + 1\<rparr>)))"
proof (cases "cb_maximum b \<le> cb_active b")
  case True
  then show ?thesis by (simp add: cb_claim_def cb_acquire_def)
next
  case False
  obtain res b' where b': "body (b\<lparr>cb_active := cb_active b + 1\<rparr>) = (res, b')"
    by (cases "body (b\<lparr>cb_active := cb_active b + 1\<rparr>)")
  then have "cb_active b' = cb_active b + 1"
    using assms(1)[of "b\<lparr>cb_active := cb_active b + 1\<rparr>"] by simp
  then show ?thesis
    using False b' assms(2) by (simp add: cb_claim_def cb_acquire_def cb_release_def)
qed

theorem claim_balanced_witness:
  "cb_active (snd (cb_claim (\<lambda>b. (Inl Cap_Body :: capacity_error + unit, b)) \<lparr>cb_maximum = 1, cb_active = 0, cb_rejected = 0\<rparr>)) = 0"
  using claim_balanced[of "\<lambda>b. (Inl Cap_Body :: capacity_error + unit, b)" "\<lparr>cb_maximum = 1, cb_active = 0, cb_rejected = 0\<rparr>"]
  by simp

text \<open>The readiness probe returns its only slot on every path, also when the callback raises; it
  answers yes only from a cached success that is still valid or from a callback that just
  succeeded; and it caches nothing unless caching is on and the callback succeeded.\<close>

theorem readiness_single_flight:
  assumes "cb_active (rp_capacity p) = 0" and "cb_maximum (rp_capacity p) = 1"
    and "readiness_check t1 t2 t3 callback cache_success p = (result, p')"
  shows "cb_active (rp_capacity p') = 0 \<and>
    (result = Inr True \<longrightarrow> callback = Some True \<or> (cache_success \<and> (t1 < rp_valid_until p \<or> t2 < rp_valid_until p))) \<and>
    (rp_valid_until p' \<noteq> rp_valid_until p \<longrightarrow> cache_success \<and> callback = Some True \<and>
       rp_valid_until p' = t3 + of_int (rp_cache_seconds p)) \<and>
    (result = Inl Cap_Body \<longleftrightarrow> callback = None \<and> \<not> (cache_success \<and> (t1 < rp_valid_until p \<or> t2 < rp_valid_until p)))"
  using assms
  by (auto simp: readiness_check_def cb_acquire_def cb_release_def Let_def split: if_splits option.splits)

theorem readiness_single_flight_witness:
  "readiness_check 1 1 2 (Some True) True (readiness_init 5) =
     (Inr True, (readiness_init 5)\<lparr>rp_valid_until := 7\<rparr>) \<and>
   cb_active (rp_capacity ((readiness_init 5)\<lparr>rp_valid_until := 7\<rparr>)) = 0"
proof -
  have r: "readiness_check 1 1 2 (Some True) True (readiness_init 5) =
     (Inr True, (readiness_init 5)\<lparr>rp_valid_until := 7\<rparr>)"
    by (simp add: readiness_check_def readiness_init_def cb_acquire_def cb_release_def)
  show ?thesis
    using readiness_single_flight[OF _ _ r] r by (simp add: readiness_init_def)
qed

end
