(* ===== verification/Encoding.thy ===== *)
theory Encoding
  imports Pystr
begin

text \<open>
  Byte encodings of the standard library: UTF-8 (\<^verbatim>\<open>str.encode\<close>, \<^verbatim>\<open>bytes.decode\<close>) and base64
  (\<^verbatim>\<open>urlsafe_b64encode\<close>, \<^verbatim>\<open>b64encode\<close>, \<^verbatim>\<open>b64decode\<close> with \<^verbatim>\<open>validate=True\<close>, and the lax
  \<^verbatim>\<open>urlsafe_b64decode\<close>), as CPython 3.12 computes them, with their round trips.

  A byte string is a \<open>string\<close>. A text whose code points are not limited to 0..255 is a list of
  code points (type \<open>ustr\<close>); lone surrogates cannot be encoded.
\<close>

type_synonym bytes = string
type_synonym ustr = "nat list"

section \<open>UTF-8\<close>

definition utf8_point :: "nat \<Rightarrow> nat list" where
  "utf8_point n =
     (if n < 128 then [n]
      else if n < 2048 then [192 + n div 64, 128 + n mod 64]
      else if n < 65536 then [224 + n div 4096, 128 + n div 64 mod 64, 128 + n mod 64]
      else [240 + n div 262144, 128 + n div 4096 mod 64, 128 + n div 64 mod 64, 128 + n mod 64])"

definition utf8_scalar :: "nat \<Rightarrow> bool" where
  "utf8_scalar n \<longleftrightarrow> n < 55296 \<or> (57343 < n \<and> n < 1114112)"

text \<open>\<open>None\<close> is the \<^verbatim>\<open>UnicodeEncodeError\<close>.\<close>

definition utf8_encode :: "ustr \<Rightarrow> bytes option" where
  "utf8_encode s = (if list_all utf8_scalar s then Some (map char_of (concat (map utf8_point s))) else None)"

text \<open>Texts of code points 0 to 255 always encode.\<close>

definition utf8 :: "string \<Rightarrow> bytes" where
  "utf8 s = map char_of (concat (map (\<lambda>c. utf8_point (code c)) s))"

definition cont :: "nat \<Rightarrow> bool" where
  "cont b \<longleftrightarrow> 128 \<le> b \<and> b \<le> 191"

fun utf8_decode :: "nat list \<Rightarrow> nat list option" where
  "utf8_decode [] = Some []"
| "utf8_decode (a # bs) =
     (if a < 128 then map_option (Cons a) (utf8_decode bs)
      else case bs of
        [] \<Rightarrow> None
      | b # bs1 \<Rightarrow>
          if 194 \<le> a \<and> a \<le> 223 \<and> cont b
          then map_option (Cons ((a - 192) * 64 + (b - 128))) (utf8_decode bs1)
          else case bs1 of
            [] \<Rightarrow> None
          | c # bs2 \<Rightarrow>
              if 224 \<le> a \<and> a \<le> 239 \<and> cont b \<and> cont c \<and> (a = 224 \<longrightarrow> 160 \<le> b) \<and> (a = 237 \<longrightarrow> b \<le> 159)
              then map_option (Cons ((a - 224) * 4096 + (b - 128) * 64 + (c - 128))) (utf8_decode bs2)
              else case bs2 of
                [] \<Rightarrow> None
              | d # bs3 \<Rightarrow>
                  if 240 \<le> a \<and> a \<le> 244 \<and> cont b \<and> cont c \<and> cont d \<and> (a = 240 \<longrightarrow> 144 \<le> b) \<and> (a = 244 \<longrightarrow> b \<le> 143)
                  then map_option
                         (Cons ((a - 240) * 262144 + (b - 128) * 4096 + (c - 128) * 64 + (d - 128)))
                         (utf8_decode bs3)
                  else None)"

definition utf8_decode_bytes :: "bytes \<Rightarrow> ustr option" where
  "utf8_decode_bytes b = utf8_decode (map code b)"

lemma utf8_decode_ascii: "list_all (\<lambda>c. c < 128) s \<Longrightarrow> utf8_decode s = Some s"
  by (induction s) simp_all

lemma utf8_point_byte: "utf8_scalar n \<Longrightarrow> b \<in> set (utf8_point n) \<Longrightarrow> b < 256"
  by (auto simp: utf8_point_def utf8_scalar_def split: if_splits)

lemma cont_digit: "cont (128 + n mod 64)"
  by (simp add: cont_def)

lemma utf8_decode_point2:
  assumes "128 \<le> n" "n < 2048"
  shows "utf8_decode ([192 + n div 64, 128 + n mod 64] @ bs) = map_option (Cons n) (utf8_decode bs)"
proof -
  have "2 \<le> n div 64" "n div 64 \<le> 31"
    using assms by linarith+
  then show ?thesis
    using cont_digit[of n] by simp
qed

lemma split_64: "n = 64 * (n div 64) + n mod (64::nat)" "n mod 64 < (64::nat)"
  by simp_all

lemma div_64_64: "n div 4096 = n div 64 div (64::nat)" "n div 262144 = n div 4096 div (64::nat)"
  by (simp_all add: div_mult2_eq[symmetric])

lemma utf8_decode_point3:
  assumes "2048 \<le> n" "n < 65536" "utf8_scalar n"
  shows "utf8_decode ([224 + n div 4096, 128 + n div 64 mod 64, 128 + n mod 64] @ bs)
           = map_option (Cons n) (utf8_decode bs)"
proof -
  define q where "q = n div 64"
  define a where "a = n div 4096"
  have n: "n = 64 * q + n mod 64" "n mod 64 < 64" and q: "q = 64 * a + q mod 64" "q mod 64 < 64"
    using split_64[of n] split_64[of q] div_64_64[of n] by (simp_all add: q_def a_def)
  have top: "a \<le> 15" and low: "a = 0 \<Longrightarrow> 32 \<le> q mod 64"
    using assms(1,2) n q by linarith+
  have high: "q mod 64 \<le> 31" if "a = 13"
    using that assms(3) n q unfolding utf8_scalar_def by linarith
  have "a * 4096 + q mod 64 * 64 + n mod 64 = n"
    using n q by linarith
  then show ?thesis
    using top low high cont_digit[of n] cont_digit[of q] unfolding q_def[symmetric] a_def[symmetric] by simp
qed

lemma utf8_decode_point4:
  assumes "65536 \<le> n" "n < 1114112"
  shows "utf8_decode ([240 + n div 262144, 128 + n div 4096 mod 64, 128 + n div 64 mod 64, 128 + n mod 64] @ bs)
           = map_option (Cons n) (utf8_decode bs)"
proof -
  define q where "q = n div 64"
  define a where "a = n div 4096"
  define e where "e = n div 262144"
  have n: "n = 64 * q + n mod 64" "n mod 64 < 64" and q: "q = 64 * a + q mod 64" "q mod 64 < 64"
    and a: "a = 64 * e + a mod 64" "a mod 64 < 64"
    using split_64[of n] split_64[of q] split_64[of a] div_64_64[of n] by (simp_all add: q_def a_def e_def)
  have top: "e \<le> 4" and low: "e = 0 \<Longrightarrow> 16 \<le> a mod 64" and high: "e = 4 \<Longrightarrow> a mod 64 \<le> 15"
    using assms n q a by linarith+
  have "e * 262144 + a mod 64 * 4096 + q mod 64 * 64 + n mod 64 = n"
    using n q a by linarith
  then show ?thesis
    using top low high cont_digit[of n] cont_digit[of q] cont_digit[of a]
    unfolding q_def[symmetric] a_def[symmetric] e_def[symmetric] by simp
qed

lemma utf8_decode_point:
  assumes "utf8_scalar n"
  shows "utf8_decode (utf8_point n @ bs) = map_option (Cons n) (utf8_decode bs)"
proof -
  have n: "n < 1114112"
    using assms by (auto simp: utf8_scalar_def)
  consider "n < 128" | "128 \<le> n" "n < 2048" | "2048 \<le> n" "n < 65536" | "65536 \<le> n"
    by linarith
  then show ?thesis
    using utf8_decode_point2[of n bs] utf8_decode_point3[of n bs] utf8_decode_point4[of n bs] assms n
    by cases (simp_all add: utf8_point_def del: utf8_decode.simps(2), simp)
qed

lemma utf8_decode_concat: "list_all utf8_scalar s \<Longrightarrow> utf8_decode (concat (map utf8_point s)) = Some s"
  by (induction s) (simp_all add: utf8_decode_point)

lemma map_code_char_of: "list_all (\<lambda>b. b < 256) bs \<Longrightarrow> map code (map char_of bs) = bs"
  by (induction bs) simp_all

text \<open>What \<^verbatim>\<open>encode\<close> produces, \<^verbatim>\<open>decode\<close> reads back.\<close>

lemma utf8_roundtrip: "utf8_encode s = Some b \<Longrightarrow> utf8_decode_bytes b = Some s"
proof -
  assume "utf8_encode s = Some b"
  then have s: "list_all utf8_scalar s" and b: "b = map char_of (concat (map utf8_point s))"
    by (auto simp: utf8_encode_def split: if_splits)
  have "list_all (\<lambda>b. b < 256) (concat (map utf8_point s))"
    using s utf8_point_byte by (fastforce simp: list_all_iff)
  then show ?thesis
    using b utf8_decode_concat[OF s] map_code_char_of by (simp add: utf8_decode_bytes_def del: map_map)
qed

lemma utf8_encode_latin: "utf8_encode (map code s) = Some (utf8 s)"
proof -
  have "utf8_scalar (code c)" for c
    using of_char_less[of c] unfolding utf8_scalar_def by linarith
  then show ?thesis
    by (simp add: utf8_encode_def utf8_def list_all_iff comp_def)
qed

lemma utf8_decode_latin: "utf8_decode_bytes (utf8 s) = Some (map code s)"
  by (rule utf8_roundtrip[OF utf8_encode_latin])

lemma utf8_inject: "utf8 s = utf8 t \<longleftrightarrow> s = t"
proof
  assume "utf8 s = utf8 t"
  then have "map code s = map code t"
    using utf8_decode_latin[of s] utf8_decode_latin[of t] by simp
  then show "s = t"
    by (metis (no_types, lifting) char_of_char comp_apply map_idI map_map)
qed simp

section \<open>Base64\<close>

text \<open>\<open>url\<close> selects the alphabet with \<^verbatim>\<open>-\<close> and \<^verbatim>\<open>_\<close>. A decoder that is given \<^verbatim>\<open>altchars\<close>
  translates them first, so it still accepts \<^verbatim>\<open>+\<close> and \<^verbatim>\<open>/\<close>.\<close>

definition b64_char :: "bool \<Rightarrow> nat \<Rightarrow> char" where
  "b64_char url n =
     (if n < 26 then char_of (65 + n)
      else if n < 52 then char_of (71 + n)
      else if n < 62 then char_of (n - 4)
      else if n = 62 then (if url then CHR ''-'' else CHR ''+'')
      else (if url then CHR ''_'' else CHR ''/''))"

definition b64_value :: "bool \<Rightarrow> char \<Rightarrow> nat option" where
  "b64_value url c =
     (if is_upper c then Some (code c - 65)
      else if is_lower c then Some (code c - 71)
      else if is_digit c then Some (code c + 4)
      else if c = CHR ''+'' \<or> (url \<and> c = CHR ''-'') then Some 62
      else if c = CHR ''/'' \<or> (url \<and> c = CHR ''_'') then Some 63
      else None)"

fun b64_pack :: "nat list \<Rightarrow> nat list" where
  "b64_pack (x # y # z # bs) =
     x div 4 # (x mod 4 * 16 + y div 16) # (y mod 16 * 4 + z div 64) # z mod 64 # b64_pack bs"
| "b64_pack [x, y] = [x div 4, (x mod 4) * 16 + y div 16, (y mod 16) * 4]"
| "b64_pack [x] = [x div 4, (x mod 4) * 16]"
| "b64_pack [] = []"

fun b64_unpack :: "nat list \<Rightarrow> nat list" where
  "b64_unpack (a # b # c # d # xs) =
     (a * 4 + b div 16) # (b mod 16 * 16 + c div 4) # (c mod 4 * 64 + d) # b64_unpack xs"
| "b64_unpack [a, b, c] = [a * 4 + b div 16, (b mod 16) * 16 + c div 4]"
| "b64_unpack [a, b] = [a * 4 + b div 16]"
| "b64_unpack _ = []"

definition b64_padding :: "nat \<Rightarrow> string" where
  "b64_padding n = replicate ((3 - n mod 3) mod 3) (CHR ''='')"

definition b64encode :: "bool \<Rightarrow> bytes \<Rightarrow> string" where
  "b64encode url b = map (b64_char url) (b64_pack (map code b)) @ b64_padding (length b)"

text \<open>\<^verbatim>\<open>validate=True\<close>: data characters, then padding only. A group of two or three data characters
  needs exactly the padding that completes it; padding after complete groups is not checked, unless
  the text starts with it. \<open>None\<close> is \<^verbatim>\<open>binascii.Error\<close>.\<close>

definition b64decode :: "bool \<Rightarrow> string \<Rightarrow> bytes option" where
  "b64decode url s =
     (let data = takeWhile (\<lambda>c. b64_value url c \<noteq> None) s;
          pad = dropWhile (\<lambda>c. b64_value url c \<noteq> None) s;
          q = length data mod 4
      in if list_all (\<lambda>c. c = CHR ''='') pad \<and>
            (if q = 0 then data \<noteq> [] \<or> pad = [] else q \<noteq> 1 \<and> length pad = 4 - q)
         then Some (map char_of (b64_unpack (map (\<lambda>c. the (b64_value url c)) data)))
         else None)"

text \<open>Without \<^verbatim>\<open>validate\<close>: other characters are skipped, and decoding stops at the padding that
  completes a group.\<close>

fun b64_lax :: "nat list \<Rightarrow> nat \<Rightarrow> string \<Rightarrow> nat list option" where
  "b64_lax acc pads [] = (if length acc mod 4 = 0 then Some acc else None)"
| "b64_lax acc pads (c # s) =
     (if c = CHR ''='' then
        (let q = length acc mod 4
         in if q \<ge> 2 \<and> q + pads + 1 \<ge> 4 then Some acc
            else b64_lax acc (if q \<ge> 2 then pads + 1 else pads) s)
      else case b64_value True c of
        None \<Rightarrow> b64_lax acc pads s
      | Some v \<Rightarrow> b64_lax (acc @ [v]) 0 s)"

definition urlsafe_b64decode_lax :: "string \<Rightarrow> bytes option" where
  "urlsafe_b64decode_lax s = map_option (\<lambda>xs. map char_of (b64_unpack xs)) (b64_lax [] 0 s)"

lemma b64_index_cases:
  assumes "n < (64::nat)"
  obtains "n < 26" | "26 \<le> n" "n < 52" | k where "n = 52 + k" "k < 10" | "n = 62" | "n = 63"
proof -
  consider "n < 26" | "26 \<le> n" "n < 52" | "52 \<le> n" "n < 62" | "n = 62" | "n = 63"
    using assms by linarith
  then show thesis
  proof cases
    case 3
    then obtain k where "n = 52 + k"
      using le_Suc_ex by blast
    then show thesis using 3 that(3) by simp
  qed (use that in auto)
qed

lemma b64_value_char: "n < 64 \<Longrightarrow> b64_value url (b64_char url n) = Some n"
  by (erule b64_index_cases) (simp_all add: b64_value_def b64_char_def is_upper_def is_lower_def is_digit_def)

lemma b64_char_plain: "n < 64 \<Longrightarrow> \<not> is_space (b64_char True n) \<and> code (b64_char True n) < 128"
  by (erule b64_index_cases) (simp_all add: b64_char_def is_space_def)

lemma b64_value_pad [simp]: "b64_value url (CHR ''='') = None"
  by (simp add: b64_value_def is_upper_def is_lower_def is_digit_def)

lemma b64_pack_less: "list_all (\<lambda>b. b < 256) bs \<Longrightarrow> list_all (\<lambda>v. v < 64) (b64_pack bs)"
proof (induction bs rule: b64_pack.induct)
  case (1 x y z bs)
  have "x mod 4 < 4" "y mod 16 < 16" "z mod 64 < 64"
    by simp_all
  moreover have "x div 4 < 64" "y div 16 < 16" "z div 64 < 4"
    using 1 by auto
  ultimately show ?case
    using 1 by simp linarith
next
  case (2 x y)
  have "x mod 4 < 4" "y mod 16 < 16"
    by simp_all
  moreover have "x div 4 < 64" "y div 16 < 16"
    using 2 by auto
  ultimately show ?case
    by auto
next
  case (3 x)
  have "x mod 4 < 4"
    by simp
  then show ?case
    using 3 by auto
qed simp

lemma b64_pack_Nil [simp]: "b64_pack bs = [] \<longleftrightarrow> bs = []"
  by (cases bs rule: b64_pack.cases) simp_all

lemma b64_pack_length:
  "length (b64_pack bs) mod 4 = (if length bs mod 3 = 0 then 0 else length bs mod 3 + 1)"
proof (induction bs rule: b64_pack.induct)
  case (1 x y z bs)
  have "length bs mod 3 < 3"
    by simp
  then have "length bs mod 3 \<in> {0, 1, 2}"
    by auto
  then show ?case
    using 1 by (auto simp: mod_Suc)
qed simp_all

lemma b64_unpack_pack: "list_all (\<lambda>b. b < 256) bs \<Longrightarrow> b64_unpack (b64_pack bs) = bs"
  by (induction bs rule: b64_pack.induct) auto

lemma map_the_b64_value:
  "list_all (\<lambda>v. v < 64) xs \<Longrightarrow> map (\<lambda>c. the (b64_value url c)) (map (b64_char url) xs) = xs"
  by (induction xs) (simp_all add: b64_value_char)

lemma takeWhile_data:
  assumes "list_all (\<lambda>v. v < 64) xs"
  shows "takeWhile (\<lambda>c. b64_value url c \<noteq> None) (map (b64_char url) xs @ replicate k (CHR ''='')) = map (b64_char url) xs"
    and "dropWhile (\<lambda>c. b64_value url c \<noteq> None) (map (b64_char url) xs @ replicate k (CHR ''='')) = replicate k (CHR ''='')"
  using assms by (induction xs) (cases k; simp add: b64_value_char)+

text \<open>Every byte string survives its base64 text.\<close>

lemma b64_roundtrip: "b64decode url (b64encode url b) = Some b"
proof -
  let ?bs = "map code b"
  have less: "list_all (\<lambda>b. b < 256) ?bs"
    by (simp add: list_all_iff of_char_less)
  note sext = b64_pack_less[OF less]
  have "(3 - length b mod 3) mod 3 = (if length b mod 3 = 0 then 0 else 3 - length b mod 3)"
    by auto
  moreover have "length b mod 3 < 3"
    by simp
  ultimately show ?thesis
    unfolding b64decode_def b64encode_def b64_padding_def Let_def takeWhile_data[OF sext] map_the_b64_value[OF sext]
      b64_unpack_pack[OF less]
    using b64_pack_length[of ?bs] by (auto simp: list_all_iff comp_def)
qed

lemma b64_inject: "b64encode url a = b64encode url b \<longleftrightarrow> a = b"
  by (metis b64_roundtrip option.inject)

lemma b64_lax_data:
  "list_all (\<lambda>v. v < 64) xs \<Longrightarrow>
   b64_lax acc pads (map (b64_char True) xs @ s) = b64_lax (acc @ xs) (if xs = [] then pads else 0) s"
proof (induction xs arbitrary: acc pads)
  case (Cons x xs)
  have "b64_char True x \<noteq> CHR ''=''"
    using b64_value_char[of x True] Cons.prems by force
  then show ?case
    using Cons by (simp add: b64_value_char)
qed simp

lemma b64_lax_roundtrip: "urlsafe_b64decode_lax (b64encode True b) = Some b"
proof -
  let ?bs = "map code b"
  have less: "list_all (\<lambda>b. b < 256) ?bs"
    by (simp add: list_all_iff of_char_less)
  note sext = b64_pack_less[OF less]
  have "b64_lax (b64_pack ?bs) 0 (b64_padding (length b)) = Some (b64_pack ?bs)"
  proof -
    consider "length b mod 3 = 0" | "length b mod 3 = 1" | "length b mod 3 = 2"
      by linarith
    then show ?thesis
      using b64_pack_length[of ?bs] by cases (simp_all add: b64_padding_def numeral_2_eq_2 Let_def)
  qed
  then show ?thesis
    using b64_lax_data[OF sext, of "[]" 0 "b64_padding (length b)"] b64_unpack_pack[OF less]
    by (simp add: urlsafe_b64decode_lax_def b64encode_def comp_def split: if_splits)
qed

end
