(* ===== verification/Request_Limits.thy ===== *)
theory Request_Limits
  imports Encoding
begin

text \<open>
  \<^verbatim>\<open>src/app/request_limits.py\<close>: the middleware that bounds headers, the URI, the body and the shape of JSON
  before any route runs.

  A scope is a record with header bytes as Latin-1 texts; the messages of \<^verbatim>\<open>receive\<close> are a list, where
  the end of the list is a client that sends nothing more until the read deadline. The outcome says what the
  inner application gets to see. The decoder of \<^verbatim>\<open>json.loads\<close> is an argument that returns the
  document it reads, or the objects it completed before a syntax error; the hooks of the source run on those.
\<close>

definition MAX_BODY_BYTES :: nat where "MAX_BODY_BYTES = 1048576"
definition MAX_URI_BYTES :: nat where "MAX_URI_BYTES = 16384"
definition MAX_HEADER_BYTES :: nat where "MAX_HEADER_BYTES = 32768"
definition MAX_HEADER_COUNT :: nat where "MAX_HEADER_COUNT = 100"
definition MAX_JSON_DEPTH :: int where "MAX_JSON_DEPTH = 64"

definition CHAT_FILE_UPLOAD_PATH :: string where
  "CHAT_FILE_UPLOAD_PATH = ''/api/ui-session/chat-file''"

definition MAX_CHAT_FILE_UPLOAD_BYTES :: nat where
  "MAX_CHAT_FILE_UPLOAD_BYTES = 10 * 1024 * 1024"

definition STREAMED_BODY_LIMITS :: "(string, nat) pydict" where
  "STREAMED_BODY_LIMITS = [(CHAT_FILE_UPLOAD_PATH, MAX_CHAT_FILE_UPLOAD_BYTES)]"

definition SINGLETON_HEADERS :: "string list" where
  "SINGLETON_HEADERS =
     [''host'', ''authorization'', ''content-type'', ''content-length'', ''transfer-encoding'', ''origin'',
      ''sec-fetch-site'', ''x-request-id'']"

text \<open>\<^verbatim>\<open>bytes.lower\<close> and \<^verbatim>\<open>bytes.isdigit\<close> know ASCII only.\<close>

definition bytes_lower :: "string \<Rightarrow> string" where
  "bytes_lower s = map (\<lambda>c. if is_upper c then char_of (code c + 32) else c) s"

definition bytes_isdigit :: "string \<Rightarrow> bool" where
  "bytes_isdigit s \<longleftrightarrow> s \<noteq> [] \<and> list_all is_digit s"

record scope =
  sc_method :: string
  sc_path :: string
  sc_raw_path :: "string option"
  sc_query :: string
  sc_headers :: "(string \<times> string) list"

definition utf8_length :: "string \<Rightarrow> nat" where
  "utf8_length s = sum_list (map (\<lambda>c. if code c < 128 then 1 else 2) s)"

definition raw_path_length :: "scope \<Rightarrow> nat" where
  "raw_path_length sc = (case sc_raw_path sc of Some p \<Rightarrow> length p | None \<Rightarrow> utf8_length (sc_path sc))"

definition header_bytes :: "(string \<times> string) list \<Rightarrow> nat" where
  "header_bytes hs = sum_list (map (\<lambda>(k, v). length k + length v + 4) hs)"

definition uri_too_long :: "scope \<Rightarrow> bool" where
  "uri_too_long sc \<longleftrightarrow>
     raw_path_length sc + 1 + length (sc_query sc) > MAX_URI_BYTES \<or>
     length (sc_path sc) + 1 + length (sc_query sc) > MAX_URI_BYTES"

definition request_id_ok :: "string \<Rightarrow> bool" where
  "request_id_ok s \<longleftrightarrow>
     1 \<le> length s \<and> length s \<le> 64 \<and> list_all (\<lambda>c. is_ascii_alnum c \<or> c \<in> set ''._-'') s"

definition headers_named :: "string \<Rightarrow> (string \<times> string) list \<Rightarrow> string list" where
  "headers_named n hs = map snd (filter (\<lambda>h. bytes_lower (fst h) = n) hs)"

text \<open>\<open>fresh\<close> is the new UUID the middleware would generate.\<close>

definition request_id :: "string \<Rightarrow> (string \<times> string) list \<Rightarrow> string" where
  "request_id fresh hs =
     (let ids = headers_named ''x-request-id'' hs;
          supplied = (if length ids = 1 \<and> length (hd ids) \<le> 64 then hd ids else '''')
      in if request_id_ok supplied then supplied else fresh)"

fun singleton_repeated :: "string list \<Rightarrow> (string \<times> string) list \<Rightarrow> bool" where
  "singleton_repeated seen [] = False"
| "singleton_repeated seen ((name, _) # hs) =
     (let name = bytes_lower name
      in (name \<in> set SINGLETON_HEADERS \<and> name \<in> set seen) \<or> singleton_repeated (name # seen) hs)"

section \<open>JSON structure\<close>

datatype jdoc = DNull | DBool bool | DInt int | DFloat (finite_float: bool) | DConst | DStr "nat list"
  | DArr "jdoc list" | DObj "(nat list \<times> jdoc) list"

datatype scan_result = Scanned jdoc | Decode_Error "jdoc list"

definition utf8_encodable :: "nat list \<Rightarrow> bool" where
  "utf8_encodable s \<longleftrightarrow> list_all (\<lambda>n. n < 55296 \<or> 57343 < n) s"

fun distinct_keys :: "nat list list \<Rightarrow> bool" where
  "distinct_keys [] = True"
| "distinct_keys (k # ks) = (utf8_encodable k \<and> k \<notin> set ks \<and> distinct_keys ks)"

text \<open>The three hooks of \<^verbatim>\<open>json.loads\<close>: duplicate or unencodable keys, non-finite floats, and the
  constants \<^verbatim>\<open>NaN\<close> and \<^verbatim>\<open>Infinity\<close> raise.\<close>

fun hooks_ok :: "jdoc \<Rightarrow> bool" where
  "hooks_ok (DFloat fin) = fin"
| "hooks_ok DConst = False"
| "hooks_ok (DArr ds) = list_all hooks_ok ds"
| "hooks_ok (DObj kvs) = (list_all (\<lambda>kv. hooks_ok (snd kv)) kvs \<and> distinct_keys (map fst kvs))"
| "hooks_ok _ = True"

fun json_strings_ok :: "jdoc \<Rightarrow> bool" where
  "json_strings_ok (DStr s) = utf8_encodable s"
| "json_strings_ok (DArr ds) = list_all json_strings_ok ds"
| "json_strings_ok (DObj kvs) = list_all (\<lambda>kv. json_strings_ok (snd kv)) kvs"
| "json_strings_ok _ = True"

text \<open>The nesting loop over the decoded text; \<open>False\<close> is the \<^verbatim>\<open>json_nesting_limit\<close> error.\<close>

fun json_scan :: "int \<Rightarrow> bool \<Rightarrow> bool \<Rightarrow> nat list \<Rightarrow> bool" where
  "json_scan depth in_string escaped [] = True"
| "json_scan depth in_string escaped (c # text) =
     (if in_string then
        (if escaped then json_scan depth True False text
         else if c = 92 then json_scan depth True True text
         else if c = 34 then json_scan depth False False text
         else json_scan depth True False text)
      else if c = 34 then json_scan depth True escaped text
      else if c = 91 \<or> c = 123 then
        (if depth + 1 > MAX_JSON_DEPTH then False else json_scan (depth + 1) False escaped text)
      else if c = 93 \<or> c = 125 then json_scan (depth - 1) False escaped text
      else json_scan depth False escaped text)"

text \<open>Strict UTF-8 with an optional byte order mark (\<^verbatim>\<open>utf-8-sig\<close>).\<close>

definition utf8_sig_decode :: "string \<Rightarrow> nat list option" where
  "utf8_sig_decode body =
     (let bs = map code body
      in utf8_decode (if take 3 bs = [239, 187, 191] then drop 3 bs else bs))"

definition validate_json :: "(nat list \<Rightarrow> scan_result) \<Rightarrow> string \<Rightarrow> bool" where
  "validate_json loads body =
     (case utf8_sig_decode body of
        None \<Rightarrow> False
      | Some text \<Rightarrow>
          json_scan 0 False False text \<and>
          (case loads text of
             Decode_Error objs \<Rightarrow> list_all hooks_ok objs
           | Scanned value \<Rightarrow> hooks_ok value \<and> json_strings_ok value))"

section \<open>Reading the body\<close>

datatype message = Msg_Disconnect | Msg_Request (msg_body: string) (more_body: bool)

datatype read_result = Read_Disconnected | Read_TooLarge | Read_Timeout | Read_Body string

fun read_body :: "message list \<Rightarrow> string \<Rightarrow> read_result" where
  "read_body [] body = Read_Timeout"
| "read_body (Msg_Disconnect # ms) body = Read_Disconnected"
| "read_body (Msg_Request chunk more_chunks # ms) body =
     (if length body + length chunk > MAX_BODY_BYTES then Read_TooLarge
      else if more_chunks then read_body ms (body @ chunk)
      else Read_Body (body @ chunk))"

text \<open>\<^verbatim>\<open>_bounded_receive\<close>: one call per element of the list; \<open>None\<close> is \<^verbatim>\<open>StreamedBodyLimitExceeded\<close>.\<close>

fun bounded_receive :: "nat \<Rightarrow> nat \<Rightarrow> message list \<Rightarrow> message option list" where
  "bounded_receive limit seen [] = []"
| "bounded_receive limit seen (m # ms) =
     (if seen > limit then [None]
      else Some m # bounded_receive limit (seen + (case m of Msg_Request b _ \<Rightarrow> length b | _ \<Rightarrow> 0)) ms)"

section \<open>The middleware\<close>

datatype limits_outcome =
    Limits_Reject nat
  | Limits_Disconnected
  | Limits_Streamed nat
  | Limits_Forward string

definition endswith :: "string \<Rightarrow> string \<Rightarrow> bool" where
  "endswith s p \<longleftrightarrow> startswith (rev s) (rev p)"

definition content_type :: "(string \<times> string) list \<Rightarrow> string" where
  "content_type hs =
     (case headers_named ''content-type'' hs of
        [] \<Rightarrow> ''''
      | v # _ \<Rightarrow> py_lower (py_strip (takeWhile (\<lambda>c. c \<noteq> CHR '';'') v)))"

definition json_body :: "scope \<Rightarrow> string \<Rightarrow> bool" where
  "json_body sc body =
     (let ct = content_type (sc_headers sc)
      in body \<noteq> [] \<and>
         (ct = '''' \<or> ct = ''application/json'' \<or> ct = ''application/csp-report'' \<or>
          (startswith ct ''application/'' \<and> endswith ct ''+json'') \<or>
          sc_path sc = ''/api/security/csp-report''))"

definition streamed_limit :: "scope \<Rightarrow> nat option" where
  "streamed_limit sc = (if sc_method sc = ''POST'' then dict_get STREAMED_BODY_LIMITS (sc_path sc) else None)"

definition request_limits :: "(nat list \<Rightarrow> scan_result) \<Rightarrow> scope \<Rightarrow> message list \<Rightarrow> limits_outcome" where
  "request_limits loads sc messages =
     (let headers = sc_headers sc;
          names = map (\<lambda>h. bytes_lower (fst h)) headers;
          lengths = headers_named ''content-length'' headers;
          body_limit = (case streamed_limit sc of None \<Rightarrow> MAX_BODY_BYTES | Some l \<Rightarrow> l)
      in if length headers > MAX_HEADER_COUNT \<or> header_bytes headers > MAX_HEADER_BYTES then Limits_Reject 431
         else if singleton_repeated [] headers then Limits_Reject 400
         else if ''content-length'' \<in> set names \<and> ''transfer-encoding'' \<in> set names then Limits_Reject 400
         else if uri_too_long sc then Limits_Reject 414
         else if length lengths > 1 \<or> (lengths \<noteq> [] \<and> (length (hd lengths) > 20 \<or> \<not> bytes_isdigit (hd lengths)))
         then Limits_Reject 400
         else if lengths \<noteq> [] \<and> digits_value (hd lengths) > body_limit then Limits_Reject 413
         else case streamed_limit sc of
           Some l \<Rightarrow> Limits_Streamed l
         | None \<Rightarrow>
             (case read_body messages [] of
                Read_Disconnected \<Rightarrow> Limits_Disconnected
              | Read_TooLarge \<Rightarrow> Limits_Reject 413
              | Read_Timeout \<Rightarrow> Limits_Reject 408
              | Read_Body body \<Rightarrow>
                  if json_body sc body \<and> \<not> validate_json loads body then Limits_Reject 400
                  else Limits_Forward body))"

section \<open>Reading\<close>

fun received :: "message list \<Rightarrow> string" where
  "received [] = []"
| "received (Msg_Disconnect # ms) = received ms"
| "received (Msg_Request b _ # ms) = b @ received ms"

lemma read_body_Body:
  assumes "read_body ms acc = Read_Body body"
  shows "\<exists>pre post. ms = pre @ post \<and> body = acc @ received pre \<and> length body \<le> MAX_BODY_BYTES \<and>
    pre \<noteq> [] \<and> last pre = Msg_Request (msg_body (last pre)) False"
  using assms
proof (induction ms acc rule: read_body.induct)
  case (3 chunk more_chunks ms acc)
  show ?case
  proof (cases more_chunks)
    case True
    then have "read_body ms (acc @ chunk) = Read_Body body" "\<not> length acc + length chunk > MAX_BODY_BYTES"
      using 3(2) by (auto split: if_splits)
    then obtain pre post where p: "ms = pre @ post" "body = (acc @ chunk) @ received pre"
      "length body \<le> MAX_BODY_BYTES" "pre \<noteq> []" "last pre = Msg_Request (msg_body (last pre)) False"
      using 3(1) True by blast
    then show ?thesis
      by (intro exI[of _ "Msg_Request chunk more_chunks # pre"] exI[of _ post]) simp
  next
    case False
    then show ?thesis
      using 3(2) by (intro exI[of _ "[Msg_Request chunk more_chunks]"] exI[of _ ms]) (auto split: if_splits)
  qed
qed simp_all

lemma received_Cons: "received (m # xs) = (case m of Msg_Request b _ \<Rightarrow> b | _ \<Rightarrow> []) @ received xs"
  by (cases m) simp_all

lemma bounded_receive_total:
  assumes "seen \<le> limit"
  shows "\<exists>got rest tail. bounded_receive limit seen ms = map Some got @ tail \<and> (tail = [] \<or> tail = [None]) \<and>
     ms = got @ rest \<and> (got \<noteq> [] \<longrightarrow> seen + length (received (butlast got)) \<le> limit)"
  using assms
proof (induction ms arbitrary: seen)
  case Nil
  then show ?case by simp
next
  case (Cons m ms)
  define seen' where "seen' = seen + (case m of Msg_Request b _ \<Rightarrow> length b | _ \<Rightarrow> 0)"
  show ?case
  proof (cases "seen' \<le> limit")
    case True
    from Cons.IH[OF True] obtain got rest tail where g: "bounded_receive limit seen' ms = map Some got @ tail"
      "tail = [] \<or> tail = [None]" "ms = got @ rest" "got \<noteq> [] \<longrightarrow> seen' + length (received (butlast got)) \<le> limit"
      by blast
    have "bounded_receive limit seen (m # ms) = map Some (m # got) @ tail"
      using Cons.prems g(1) by (simp add: seen'_def)
    moreover have "seen + length (received (butlast (m # got))) \<le> limit"
      using g(4) Cons.prems by (auto simp: received_Cons seen'_def split: message.splits)
    ultimately show ?thesis using g(2,3) by (metis append_Cons)
  next
    case False
    then have "bounded_receive limit seen (m # ms) = map Some [m] @ (if ms = [] then [] else [None])"
      using Cons.prems by (cases ms) (simp_all add: seen'_def)
    then show ?thesis
      using Cons.prems
      by (intro exI[of _ "[m]"] exI[of _ ms] exI[of _ "if ms = [] then [] else [None]"]) simp
  qed
qed

section \<open>The nesting check against rendered documents\<close>

fun doc_depth :: "jdoc \<Rightarrow> nat" where
  "doc_depth (DArr ds) = Suc (foldr max (map doc_depth ds) 0)"
| "doc_depth (DObj kvs) = Suc (foldr max (map (\<lambda>kv. doc_depth (snd kv)) kvs) 0)"
| "doc_depth _ = 0"

definition render_string :: "nat list \<Rightarrow> nat list" where
  "render_string s = [34] @ concat (map (\<lambda>c. if c = 34 \<or> c = 92 then [92, c] else [c]) s) @ [34]"

fun commas :: "nat list list \<Rightarrow> nat list" where
  "commas [] = []"
| "commas [x] = x"
| "commas (x # xs) = x @ [44] @ commas xs"

fun render :: "jdoc \<Rightarrow> nat list" where
  "render DNull = map code ''null''"
| "render (DBool b) = map code (if b then ''true'' else ''false'')"
| "render (DInt i) = map code (show_int i)"
| "render (DFloat f) = map code (if f then ''0.5'' else ''1e999'')"
| "render DConst = map code ''NaN''"
| "render (DStr s) = render_string s"
| "render (DArr ds) = [91] @ commas (map render ds) @ [93]"
| "render (DObj kvs) = [123] @ commas (map (\<lambda>kv. render_string (fst kv) @ [58] @ render (snd kv)) kvs) @ [125]"

lemma foldr_max_le: "foldr max (xs::nat list) 0 \<le> n \<longleftrightarrow> (\<forall>x\<in>set xs. x \<le> n)"
  by (induction xs) auto

definition plain :: "nat list \<Rightarrow> bool" where
  "plain s \<longleftrightarrow> set s \<inter> {34, 91, 93, 123, 125} = {}"

lemma scan_plain: "plain s \<Longrightarrow> json_scan d False False (s @ rest) = json_scan d False False rest"
  by (induction s) (auto simp: plain_def)

lemma scan_escaped:
  "json_scan d True False (concat (map (\<lambda>c. if c = 34 \<or> c = 92 then [92, c] else [c]) s) @ 34 # rest) =
   json_scan d False False rest"
  by (induction s) auto

lemma scan_string: "json_scan d False False (render_string s @ rest) = json_scan d False False rest"
  using scan_escaped[of d s rest] by (simp add: render_string_def)

lemma scan_commas:
  assumes "\<And>x rest. x \<in> set xs \<Longrightarrow> json_scan d False False (g x @ rest) = (P x \<and> json_scan d False False rest)"
  shows "json_scan d False False (commas (map g xs) @ rest) = ((\<forall>x\<in>set xs. P x) \<and> json_scan d False False rest)"
  using assms
proof (induction xs)
  case Nil
  then show ?case by simp
next
  case (Cons x xs)
  then show ?case by (cases xs) auto
qed

lemma plain_show_int: "plain (map code (show_int i))"
proof -
  have "code c \<notin> {34, 91, 93, 123, 125}" if "is_digit c" for c
    using that by (auto simp: is_digit_def)
  moreover have "is_digit c \<or> c = CHR ''-''" if "c \<in> set (show_int i)" for c
    using that by (auto simp: show_int_def dest: show_nat_digits split: if_splits)
  ultimately show ?thesis
    by (fastforce simp: plain_def)
qed

lemma scan_render:
  "d \<le> MAX_JSON_DEPTH \<Longrightarrow>
   json_scan d False False (render t @ rest) = (d + int (doc_depth t) \<le> MAX_JSON_DEPTH \<and> json_scan d False False rest)"
proof (induction t arbitrary: d rest rule: render.induct)
  case (3 i)
  then show ?case using scan_plain[OF plain_show_int] by simp
next
  case (6 s)
  then show ?case by (simp add: scan_string)
next
  case (7 ds)
  show ?case
  proof (cases "d + 1 \<le> MAX_JSON_DEPTH")
    case True
    have "json_scan (d + 1) False False (commas (map render ds) @ 93 # rest) =
      ((\<forall>x\<in>set ds. d + 1 + int (doc_depth x) \<le> MAX_JSON_DEPTH) \<and> json_scan (d + 1) False False (93 # rest))"
      by (rule scan_commas) (use 7(1) True in blast)
    moreover have "(\<forall>x\<in>set ds. d + 1 + int (doc_depth x) \<le> MAX_JSON_DEPTH) \<longleftrightarrow>
        foldr max (map doc_depth ds) 0 \<le> nat (MAX_JSON_DEPTH - d - 1)"
      unfolding foldr_max_le using True by force
    ultimately show ?thesis using True by auto
  next
    case False
    then show ?thesis by simp
  qed
next
  case (8 kvs)
  show ?case
  proof (cases "d + 1 \<le> MAX_JSON_DEPTH")
    case True
    have "json_scan (d + 1) False False
        (commas (map (\<lambda>kv. render_string (fst kv) @ [58] @ render (snd kv)) kvs) @ 125 # rest) =
      ((\<forall>x\<in>set kvs. d + 1 + int (doc_depth (snd x)) \<le> MAX_JSON_DEPTH) \<and> json_scan (d + 1) False False (125 # rest))"
    proof (rule scan_commas)
      fix x r assume "x \<in> set kvs"
      then show "json_scan (d + 1) False False ((render_string (fst x) @ [58] @ render (snd x)) @ r) =
          (d + 1 + int (doc_depth (snd x)) \<le> MAX_JSON_DEPTH \<and> json_scan (d + 1) False False r)"
        using 8(1)[of x "d + 1" r] True by (simp add: scan_string)
    qed
    moreover have "(\<forall>x\<in>set kvs. d + 1 + int (doc_depth (snd x)) \<le> MAX_JSON_DEPTH) \<longleftrightarrow>
        foldr max (map (\<lambda>kv. doc_depth (snd kv)) kvs) 0 \<le> nat (MAX_JSON_DEPTH - d - 1)"
      unfolding foldr_max_le using True by force
    ultimately show ?thesis using True by auto
  next
    case False
    then show ?thesis by simp
  qed
qed (use scan_plain in \<open>auto simp: plain_def\<close>)

section \<open>Properties\<close>

text \<open>The nesting check is exact: for the text of any JSON document, strings with brackets, quotes and
  backslashes included, the scan passes if and only if the document nests at most 64 levels.\<close>

theorem json_scan_exact: "json_scan 0 False False (render t) \<longleftrightarrow> doc_depth t \<le> 64"
  using scan_render[of 0 t "[]"] by (simp add: MAX_JSON_DEPTH_def)

text \<open>Every document inside a document, itself included.\<close>

fun subdocs :: "jdoc \<Rightarrow> jdoc list" where
  "subdocs (DArr ds) = DArr ds # concat (map subdocs ds)"
| "subdocs (DObj kvs) = DObj kvs # concat (map (\<lambda>kv. subdocs (snd kv)) kvs)"
| "subdocs d = [d]"

text \<open>A document every reader understands alike: finite numbers, no name twice in an object, and only encodable text.\<close>

definition plain_doc :: "jdoc \<Rightarrow> bool" where
  "plain_doc d \<longleftrightarrow>
     (case d of
        DFloat fin \<Rightarrow> fin
      | DConst \<Rightarrow> False
      | DStr s \<Rightarrow> utf8_encodable s
      | DObj kvs \<Rightarrow> distinct (map fst kvs) \<and> list_all (\<lambda>kv. utf8_encodable (fst kv)) kvs
      | _ \<Rightarrow> True)"

lemma distinct_keys_iff: "distinct_keys ks \<longleftrightarrow> distinct ks \<and> list_all utf8_encodable ks"
  by (induction ks) auto

lemma hooks_subdocs: "hooks_ok d \<Longrightarrow> json_strings_ok d \<Longrightarrow> e \<in> set (subdocs d) \<Longrightarrow> plain_doc e"
proof (induction d rule: subdocs.induct)
  case (1 ds)
  then show ?case by (force simp: plain_doc_def list_all_iff)
next
  case (2 kvs)
  then show ?case by (force simp: plain_doc_def list_all_iff distinct_keys_iff)
qed (simp_all add: plain_doc_def)

text \<open>The characters of a text outside its strings, and how many brackets they leave open.\<close>

fun outside_strings :: "bool \<Rightarrow> bool \<Rightarrow> nat list \<Rightarrow> nat list" where
  "outside_strings in_string escaped [] = []"
| "outside_strings in_string escaped (c # cs) =
     (if in_string then
        (if escaped then outside_strings True False cs
         else if c = 92 then outside_strings True True cs
         else outside_strings (c \<noteq> 34) False cs)
      else if c = 34 then outside_strings True False cs
      else c # outside_strings False False cs)"

definition left_open :: "nat list \<Rightarrow> int" where
  "left_open cs = int (length (filter (\<lambda>c. c = 91 \<or> c = 123) cs)) - int (length (filter (\<lambda>c. c = 93 \<or> c = 125) cs))"

lemma left_open_Cons [simp]:
  "left_open [] = 0"
  "left_open (c # cs) = (if c = 91 \<or> c = 123 then 1 else if c = 93 \<or> c = 125 then - 1 else 0) + left_open cs"
  by (auto simp: left_open_def)

lemma json_scan_open:
  assumes "json_scan depth in_string escaped cs" "depth \<le> 64" "escaped \<longrightarrow> in_string"
  shows "depth + left_open (take n (outside_strings in_string escaped cs)) \<le> 64"
  using assms
proof (induction depth in_string escaped cs arbitrary: n rule: json_scan.induct)
  case (1 depth in_string escaped)
  then show ?case by simp
next
  case (2 depth in_string escaped c cs)
  show ?case
  proof (cases "in_string \<or> c = 34")
    case True
    then show ?thesis using 2 by (auto split: if_splits)
  next
    case False
    then show ?thesis using 2 by (cases n) (auto simp: MAX_JSON_DEPTH_def split: if_splits)
  qed
qed

lemma headers_named_empty: "headers_named n hs = [] \<longleftrightarrow> n \<notin> set (map (\<lambda>h. bytes_lower (fst h)) hs)"
  by (induction hs) (auto simp: headers_named_def)

lemma singleton_repeated_once:
  assumes "\<not> singleton_repeated seen hs" "n \<in> set SINGLETON_HEADERS"
  shows "length (headers_named n hs) \<le> (if n \<in> set seen then 0 else 1)"
  using assms
proof (induction seen hs rule: singleton_repeated.induct)
  case (1 seen)
  then show ?case by (simp add: headers_named_def)
next
  case (2 seen name v hs)
  then show ?case by (auto simp: Let_def headers_named_def split: if_splits)
qed

text \<open>C26: What the inner application sees is bounded: when a buffered body is forwarded, there are at most 100
  headers of at most 32 KiB; none of the eight security-relevant headers occurs twice; a Content-Length stands alone,
  without a Transfer-Encoding, and is a decimal number of at most twenty digits and at most 1 MiB; the URI fits 16 KiB
  both as sent and with its path decoded; and the body is exactly the chunks received up to the final one, at most
  1 MiB. A JSON body is UTF-8 whose text never has more than 64 brackets open outside its strings, and in the document
  it parses to every number is finite, no object has a name twice, and every text can be encoded.\<close>

theorem request_limits_forward:
  assumes "request_limits loads sc ms = Limits_Forward body"
  shows "length (sc_headers sc) \<le> 100 \<and> header_bytes (sc_headers sc) \<le> 32768 \<and>
    (\<forall>n\<in>set SINGLETON_HEADERS. length (headers_named n (sc_headers sc)) \<le> 1) \<and>
    (headers_named ''content-length'' (sc_headers sc) = [] \<or> headers_named ''transfer-encoding'' (sc_headers sc) = []) \<and>
    (\<forall>v\<in>set (headers_named ''content-length'' (sc_headers sc)).
       v \<noteq> [] \<and> length v \<le> 20 \<and> list_all is_digit v \<and> digits_value v \<le> 1048576) \<and>
    raw_path_length sc + 1 + length (sc_query sc) \<le> 16384 \<and>
    length (sc_path sc) + 1 + length (sc_query sc) \<le> 16384 \<and>
    length body \<le> 1048576 \<and>
    (\<exists>pre post. ms = pre @ post \<and> pre \<noteq> [] \<and> body = received pre \<and> last pre = Msg_Request (msg_body (last pre)) False) \<and>
    (json_body sc body \<longrightarrow>
       (\<exists>cs. utf8_sig_decode body = Some cs \<and> (\<forall>n. left_open (take n (outside_strings False False cs)) \<le> 64) \<and>
          (\<forall>doc. loads cs = Scanned doc \<longrightarrow> list_all plain_doc (subdocs doc))))"
proof -
  let ?hs = "sc_headers sc" and ?cl = "headers_named ''content-length'' (sc_headers sc)"
  have body: "read_body ms [] = Read_Body body" "json_body sc body \<longrightarrow> validate_json loads body"
    using assms by (auto simp: request_limits_def Let_def split: if_splits option.splits read_result.splits)
  have streamed: "streamed_limit sc = None"
    using assms by (auto simp: request_limits_def Let_def split: if_splits option.splits)
  have heads: "length ?hs \<le> 100" "header_bytes ?hs \<le> 32768" "\<not> singleton_repeated [] ?hs" "length ?cl \<le> 1" "\<not> uri_too_long sc"
    using assms by (auto simp: request_limits_def Let_def MAX_HEADER_COUNT_def MAX_HEADER_BYTES_def split: if_splits)
  have framing: "\<not> (''content-length'' \<in> set (map (\<lambda>h. bytes_lower (fst h)) ?hs) \<and>
      ''transfer-encoding'' \<in> set (map (\<lambda>h. bytes_lower (fst h)) ?hs))"
    using assms by (auto simp: request_limits_def Let_def split: if_splits)
  have declared: "?cl = [] \<or> (length (hd ?cl) \<le> 20 \<and> bytes_isdigit (hd ?cl) \<and> digits_value (hd ?cl) \<le> 1048576)"
    using assms streamed by (auto simp: request_limits_def Let_def MAX_BODY_BYTES_def not_less split: if_splits)
  have one: "v \<noteq> [] \<and> length v \<le> 20 \<and> list_all is_digit v \<and> digits_value v \<le> 1048576" if "v \<in> set ?cl" for v
    using declared heads(4) that by (cases ?cl) (auto simp: bytes_isdigit_def)
  have json: "\<exists>cs. utf8_sig_decode body = Some cs \<and> (\<forall>n. left_open (take n (outside_strings False False cs)) \<le> 64) \<and>
      (\<forall>doc. loads cs = Scanned doc \<longrightarrow> list_all plain_doc (subdocs doc))" if j: "json_body sc body"
  proof -
    obtain cs where cs: "utf8_sig_decode body = Some cs" "json_scan 0 False False cs"
      "\<And>doc. loads cs = Scanned doc \<Longrightarrow> hooks_ok doc \<and> json_strings_ok doc"
      using body(2) j by (auto simp: validate_json_def split: option.splits scan_result.splits)
    have "left_open (take n (outside_strings False False cs)) \<le> 64" for n
      using json_scan_open[OF cs(2), of n] by simp
    moreover have "list_all plain_doc (subdocs doc)" if "loads cs = Scanned doc" for doc
      using hooks_subdocs cs(3)[OF that] by (auto simp: list_all_iff)
    ultimately show ?thesis using cs(1) by blast
  qed
  have "?cl = [] \<or> headers_named ''transfer-encoding'' ?hs = []"
    using framing by (simp add: headers_named_empty)
  moreover have "length (headers_named n ?hs) \<le> 1" if "n \<in> set SINGLETON_HEADERS" for n
    using singleton_repeated_once[OF heads(3) that] by simp
  moreover have "raw_path_length sc + 1 + length (sc_query sc) \<le> 16384" "length (sc_path sc) + 1 + length (sc_query sc) \<le> 16384"
    using heads(5) by (simp_all add: uri_too_long_def MAX_URI_BYTES_def)
  moreover have "length body \<le> 1048576"
    "\<exists>pre post. ms = pre @ post \<and> pre \<noteq> [] \<and> body = received pre \<and> last pre = Msg_Request (msg_body (last pre)) False"
    using read_body_Body[OF body(1)] by (auto simp: MAX_BODY_BYTES_def)
  ultimately show ?thesis using heads(1,2) one json by blast
qed

definition demo_scope :: scope where
  "demo_scope = \<lparr>sc_method = ''POST'', sc_path = ''/api/x'', sc_raw_path = None, sc_query = '''',
     sc_headers = [(''Content-Type'', ''application/json''), (''Content-Length'', ''4'')]\<rparr>"

theorem request_limits_forward_witness:
  "request_limits (\<lambda>_. Scanned (DArr [])) demo_scope [Msg_Request ''[ '' True, Msg_Request '' ]'' False] =
     Limits_Forward ''[  ]'' \<and> length ''[  ]'' \<le> 1048576"
proof -
  have "request_limits (\<lambda>_. Scanned (DArr [])) demo_scope [Msg_Request ''[ '' True, Msg_Request '' ]'' False] =
     Limits_Forward ''[  ]''"
  proof -
    have "bytes_lower ''Content-Type'' = ''content-type''" "bytes_lower ''Content-Length'' = ''content-length''"
      by code_simp+
    then have names: "headers_named ''content-length'' (sc_headers demo_scope) = [''4'']"
      "singleton_repeated [] (sc_headers demo_scope) = False"
      by (simp_all add: headers_named_def demo_scope_def SINGLETON_HEADERS_def Let_def)
    have "validate_json (\<lambda>_. Scanned (DArr [])) ''[  ]''"
      by code_simp
    moreover have "streamed_limit demo_scope = None"
      by (simp add: streamed_limit_def STREAMED_BODY_LIMITS_def demo_scope_def CHAT_FILE_UPLOAD_PATH_def dict_get_Cons)
    moreover have "digits_value ''4'' = 4" "bytes_isdigit ''4''"
      by code_simp+
    ultimately show ?thesis
      using names \<open>bytes_lower ''Content-Type'' = ''content-type''\<close> \<open>bytes_lower ''Content-Length'' = ''content-length''\<close>
      by (simp add: request_limits_def Let_def uri_too_long_def raw_path_length_def utf8_length_def MAX_URI_BYTES_def
          MAX_BODY_BYTES_def MAX_HEADER_COUNT_def MAX_HEADER_BYTES_def header_bytes_def)
        (simp add: demo_scope_def utf8_length_def)
  qed
  then show ?thesis
    using request_limits_forward[of "\<lambda>_. Scanned (DArr [])" demo_scope "[Msg_Request ''[ '' True, Msg_Request '' ]'' False]" "''[  ]''"]
    by blast
qed

text \<open>A streamed upload is cut off: the route receives the messages in order, everything but the last delivered
  chunk fits the limit, and the first read after that fails instead of delivering more.\<close>

theorem streamed_upload_bounded:
  "\<exists>got rest tail. bounded_receive limit 0 ms = map Some got @ tail \<and> (tail = [] \<or> tail = [None]) \<and>
     ms = got @ rest \<and> length (received (butlast got)) \<le> limit"
  using bounded_receive_total[of 0 limit ms] by (metis add_0 butlast.simps(1) le0 list.size(3) received.simps(1))

end
