(* ===== verification/Admission.thy ===== *)
theory Admission
  imports Rate_Limiter Capacity Audit_Log Request_Limits
begin

text \<open>
  \<^verbatim>\<open>AdmissionMiddleware\<close> of \<^verbatim>\<open>src/app/availability.py\<close>.

  A request runs in two steps, because other requests run while the application answers: \<open>admit_begin\<close>
  is the code up to the \<^verbatim>\<open>try\<close> (local quotas, a slot of the budget, a slot of the source) and
  \<open>admit_finish\<close> is the shared quota check, the call of the application and the \<^verbatim>\<open>finally\<close> part. A ticket
  is what the local variables hold in between. The step relation interleaves any number of requests; the
  shared limiter and the application are arguments of the second step. The address comes from
  \<open>client_ip\<close>.
\<close>

record adm_settings =
  as_ip_max_attempts :: int
  as_global_max_attempts :: int
  as_ip_max_asset_attempts :: int
  as_global_max_asset_attempts :: int
  as_auth_global_max_attempts :: int
  as_readiness_max_attempts :: int
  as_window_seconds :: int
  as_ip_max_streams :: int
  as_ip_max_concurrent :: int

type_synonym source_key = "string \<times> bool"

record admission =
  ad_requests :: capacity_budget
  ad_streams :: capacity_budget
  ad_local :: limiter
  ad_sources :: "(source_key, int) pydict"
  ad_monitor :: monitor

record ticket =
  tk_streaming :: bool
  tk_source :: "source_key option"

datatype adm_response =
    Adm_Reject nat string int
  | Adm_Delegate
  | Adm_Application

datatype adm_error = Adm_Limiter limiter_error | Adm_Capacity capacity_error | Adm_KeyError

section \<open>Classification\<close>

text \<open>\<^verbatim>\<open>/(?:assets|static)/[A-Za-z0-9_-][A-Za-z0-9._/-]{0,255}\Z\<close>\<close>

definition asset_rest :: "string \<Rightarrow> bool" where
  "asset_rest r \<longleftrightarrow>
     (case r of
        [] \<Rightarrow> False
      | c # cs \<Rightarrow>
          (is_ascii_alnum c \<or> c \<in> set ''_-'') \<and> length cs \<le> 255 \<and>
          list_all (\<lambda>d. is_ascii_alnum d \<or> d \<in> set ''._/-'') cs)"

definition frontend_asset :: "scope \<Rightarrow> bool" where
  "frontend_asset sc \<longleftrightarrow>
     sc_method sc \<in> {''GET'', ''HEAD''} \<and>
     ((startswith (sc_path sc) ''/assets/'' \<and> asset_rest (drop 8 (sc_path sc))) \<or>
      (startswith (sc_path sc) ''/static/'' \<and> asset_rest (drop 8 (sc_path sc)))) \<and>
     \<not> contains (sc_path sc) ''/.''"

definition is_streaming :: "scope \<Rightarrow> bool" where
  "is_streaming sc \<longleftrightarrow>
     sc_method sc = ''GET'' \<and> length (sc_path sc) \<le> MAX_URI_BYTES \<and>
     (rstrip_char (CHR ''/'') (sc_path sc) = ''/gradio_api/queue/data'' \<or>
      startswith (sc_path sc) ''/gradio_api/call/'')"

definition oversized :: "scope \<Rightarrow> bool" where
  "oversized sc \<longleftrightarrow>
     length (sc_headers sc) > MAX_HEADER_COUNT \<or> header_bytes (sc_headers sc) > MAX_HEADER_BYTES \<or> uri_too_long sc"

definition admission_limits :: "adm_settings \<Rightarrow> string \<Rightarrow> scope \<Rightarrow> (string \<times> int) list" where
  "admission_limits se ip sc =
     (if frontend_asset sc
      then [(''asset-ip:'' @ ip, as_ip_max_asset_attempts se), (''asset-global'', as_global_max_asset_attempts se)]
      else [(''ip:'' @ ip, as_ip_max_attempts se), (''global'', as_global_max_attempts se)]) @
     (if sc_method sc = ''POST'' \<and> startswith (sc_path sc) ''/api/auth/''
      then [(''auth-global'', as_auth_global_max_attempts se)] else []) @
     (if rstrip_char (CHR ''/'') (sc_path sc) = ''/api/ready''
      then [(''readiness-global'', as_readiness_max_attempts se)] else [])"

section \<open>Entering\<close>

text \<open>The loop over the local quotas: \<open>Some\<close> the wait of the first one that refuses.\<close>

fun local_check :: "int \<Rightarrow> time \<Rightarrow> (string \<times> int) list \<Rightarrow> limiter \<Rightarrow> (limiter_error + int option) \<times> limiter" where
  "local_check secs now [] l = (Inr None, l)"
| "local_check secs now ((key, maximum) # limits) l =
     (case rl_allow key maximum secs now l of
        (Inl e, l) \<Rightarrow> (Inl e, l)
      | (Inr (allowed, retry), l) \<Rightarrow>
          if \<not> allowed then (Inr (Some retry), l) else local_check secs now limits l)"

fun shared_check :: "(string \<Rightarrow> int \<Rightarrow> int \<Rightarrow> (bool \<times> int) option) \<Rightarrow> int \<Rightarrow> (string \<times> int) list \<Rightarrow> (bool \<times> int) option" where
  "shared_check allow secs [] = Some (True, 0)"
| "shared_check allow secs ((key, maximum) # limits) =
     (case allow key maximum secs of
        None \<Rightarrow> None
      | Some (allowed, retry) \<Rightarrow> if \<not> allowed then Some (False, retry) else shared_check allow secs limits)"

definition adm_reject :: "nat \<Rightarrow> string \<Rightarrow> int \<Rightarrow> time \<Rightarrow> admission \<Rightarrow> adm_response \<times> admission" where
  "adm_reject status reason retry clock st =
     (Adm_Reject status reason (max 1 retry), st\<lparr>ad_monitor := snd (mo_reject reason clock (ad_monitor st))\<rparr>)"

definition ad_budget :: "bool \<Rightarrow> admission \<Rightarrow> capacity_budget" where
  "ad_budget streaming st = (if streaming then ad_streams st else ad_requests st)"

definition set_budget :: "bool \<Rightarrow> capacity_budget \<Rightarrow> admission \<Rightarrow> admission" where
  "set_budget streaming b st = (if streaming then st\<lparr>ad_streams := b\<rparr> else st\<lparr>ad_requests := b\<rparr>)"

definition source_limit :: "adm_settings \<Rightarrow> bool \<Rightarrow> int" where
  "source_limit se streaming = (if streaming then as_ip_max_streams se else as_ip_max_concurrent se)"

definition admit_begin ::
    "adm_settings \<Rightarrow> string \<Rightarrow> scope \<Rightarrow> time \<Rightarrow> admission \<Rightarrow> (adm_error + (adm_response + ticket)) \<times> admission" where
  "admit_begin se ip sc now st =
     (if oversized sc then (Inr (Inl Adm_Delegate), st)
      else
        case local_check (as_window_seconds se) now (admission_limits se ip sc) (ad_local st) of
          (Inl e, l) \<Rightarrow> (Inl (Adm_Limiter e), st\<lparr>ad_local := l\<rparr>)
        | (Inr (Some retry), l) \<Rightarrow>
            let (resp, st) = adm_reject 429 ''request_rate'' retry now (st\<lparr>ad_local := l\<rparr>) in (Inr (Inl resp), st)
        | (Inr None, l) \<Rightarrow>
            let st = st\<lparr>ad_local := l\<rparr>; streaming = is_streaming sc
            in case cb_acquire (ad_budget streaming st) of
                 (False, b) \<Rightarrow>
                   let (resp, st) = adm_reject 503 ''request_capacity'' 1 now (set_budget streaming b st)
                   in (Inr (Inl resp), st)
               | (True, b) \<Rightarrow>
                   let st = set_budget streaming b st
                   in if frontend_asset sc then (Inr (Inr \<lparr>tk_streaming = streaming, tk_source = None\<rparr>), st)
                      else
                        let key = (ip, streaming);
                            active = dict_get_or (ad_sources st) key 0
                        in if active < source_limit se streaming
                           then (Inr (Inr \<lparr>tk_streaming = streaming, tk_source = Some key\<rparr>),
                                 st\<lparr>ad_sources := dict_set key (active + 1) (ad_sources st)\<rparr>)
                           else
                             case cb_release (ad_budget streaming st) of
                               Inl e \<Rightarrow> (Inl (Adm_Capacity e), st)
                             | Inr b \<Rightarrow>
                                 let (resp, st) = adm_reject 503 ''request_source_capacity'' 1 now (set_budget streaming b st)
                                 in (Inr (Inl resp), st))"

section \<open>Leaving\<close>

definition release_source :: "source_key option \<Rightarrow> admission \<Rightarrow> adm_error + admission" where
  "release_source key st =
     (case key of
        None \<Rightarrow> Inr st
      | Some k \<Rightarrow>
          (case dict_get (ad_sources st) k of
             None \<Rightarrow> Inl Adm_KeyError
           | Some n \<Rightarrow>
               let remaining = n - 1
               in if remaining \<noteq> 0 then Inr (st\<lparr>ad_sources := dict_set k remaining (ad_sources st)\<rparr>)
                  else Inr (st\<lparr>ad_sources := dict_pop k (ad_sources st)\<rparr>)))"

definition admit_release :: "ticket \<Rightarrow> admission \<Rightarrow> adm_error + admission" where
  "admit_release tk st =
     (case release_source (tk_source tk) st of
        Inl e \<Rightarrow> Inl e
      | Inr st \<Rightarrow>
          (case cb_release (ad_budget (tk_streaming tk) st) of
             Inl e \<Rightarrow> Inl (Adm_Capacity e)
           | Inr b \<Rightarrow> Inr (set_budget (tk_streaming tk) b st)))"

text \<open>
  \<open>shared\<close> is the shared limiter if one is configured, its \<open>None\<close> an exception. The application itself may
  raise; the release happens all the same, so its result does not matter here.
\<close>

definition admit_finish ::
    "adm_settings \<Rightarrow> (string \<Rightarrow> int \<Rightarrow> int \<Rightarrow> (bool \<times> int) option) option \<Rightarrow> string \<Rightarrow> scope \<Rightarrow> time \<Rightarrow> ticket \<Rightarrow>
     admission \<Rightarrow> adm_response \<times> (adm_error + admission)" where
  "admit_finish se shared ip sc now tk st =
     (let (resp, st) =
        (case shared of
           None \<Rightarrow> (Adm_Application, st)
         | Some allow \<Rightarrow>
             if sc_method sc = ''GET'' \<and> sc_path sc = ''/api/health'' then (Adm_Application, st)
             else case shared_check allow (as_window_seconds se) (admission_limits se ip sc) of
                    None \<Rightarrow> adm_reject 503 ''rate_backend_unavailable'' 3 now st
                  | Some (allowed, retry) \<Rightarrow>
                      if \<not> allowed then adm_reject 429 ''request_rate'' retry now st else (Adm_Application, st))
      in (resp, admit_release tk st))"

text \<open>\<^verbatim>\<open>__call__\<close>: one response is observed per request, with the status of its start message, or none when
  no headers were sent.\<close>

definition observe_request :: "scope \<Rightarrow> int option \<Rightarrow> time \<Rightarrow> time \<Rightarrow> admission \<Rightarrow> admission" where
  "observe_request sc status started now st =
     st\<lparr>ad_monitor := observe_response status (now - started) (is_streaming sc) now (ad_monitor st)\<rparr>"

section \<open>Any interleaving of requests\<close>

inductive adm_step :: "adm_settings \<Rightarrow> admission \<times> ticket list \<Rightarrow> admission \<times> ticket list \<Rightarrow> bool" for se where
  enter: "admit_begin se ip sc now st = (Inr (Inr tk), st') \<Longrightarrow> adm_step se (st, tks) (st', tk # tks)"
| turned_away: "admit_begin se ip sc now st = (Inr (Inl resp), st') \<Longrightarrow> adm_step se (st, tks) (st', tks)"
| failed: "admit_begin se ip sc now st = (Inl e, st') \<Longrightarrow> adm_step se (st, tks) (st', tks)"
| leave: "tk \<in> set tks \<Longrightarrow> admit_finish se shared ip sc now tk st = (resp, Inr st') \<Longrightarrow>
    adm_step se (st, tks) (st', remove1 tk tks)"
| observed: "adm_step se (st, tks) (observe_request sc status started now st, tks)"

inductive adm_reachable :: "adm_settings \<Rightarrow> admission \<Rightarrow> admission \<times> ticket list \<Rightarrow> bool" for se st0 where
  start: "adm_reachable se st0 (st0, [])"
| step: "adm_reachable se st0 s \<Longrightarrow> adm_step se s s' \<Longrightarrow> adm_reachable se st0 s'"

inductive_cases adm_stepE: "adm_step se s s'"

definition admission_init :: "int \<Rightarrow> int \<Rightarrow> limiter \<Rightarrow> monitor \<Rightarrow> admission" where
  "admission_init requests streams l m =
     \<lparr>ad_requests = \<lparr>cb_maximum = requests, cb_active = 0, cb_rejected = 0\<rparr>,
      ad_streams = \<lparr>cb_maximum = streams, cb_active = 0, cb_rejected = 0\<rparr>,
      ad_local = l, ad_sources = [], ad_monitor = m\<rparr>"

definition tickets_of :: "bool \<Rightarrow> ticket list \<Rightarrow> nat" where
  "tickets_of streaming tks = length (filter (\<lambda>t. tk_streaming t = streaming) tks)"

definition tickets_from :: "source_key \<Rightarrow> ticket list \<Rightarrow> nat" where
  "tickets_from k tks = length (filter (\<lambda>t. tk_source t = Some k) tks)"

text \<open>The counters are the requests in flight, and none exceeds its limit.\<close>

definition adm_inv :: "adm_settings \<Rightarrow> int \<Rightarrow> int \<Rightarrow> admission \<times> ticket list \<Rightarrow> bool" where
  "adm_inv se maxr maxs s \<longleftrightarrow>
     (let (st, tks) = s
      in (\<forall>b. cb_active (ad_budget b st) = int (tickets_of b tks) \<and>
              cb_maximum (ad_budget b st) = (if b then maxs else maxr) \<and>
              cb_active (ad_budget b st) \<le> (if b then maxs else maxr)) \<and>
         (\<forall>k. dict_get_or (ad_sources st) k 0 = int (tickets_from k tks)) \<and>
         (\<forall>k. tickets_from k tks > 0 \<longrightarrow> dict_get (ad_sources st) k \<noteq> None) \<and>
         (\<forall>k. int (tickets_from k tks) \<le> max 0 (source_limit se (snd k))) \<and>
         (\<forall>k n. dict_get (ad_sources st) k = Some n \<longrightarrow> 0 < n) \<and>
         (\<forall>t\<in>set tks. case tk_source t of None \<Rightarrow> True | Some k \<Rightarrow> snd k = tk_streaming t))"

section \<open>The invariant\<close>

lemma ad_budget_simps [simp]:
  "ad_budget b (set_budget b' x st) = (if b = b' then x else ad_budget b st)"
  "ad_budget b (st\<lparr>ad_local := l\<rparr>) = ad_budget b st"
  "ad_budget b (st\<lparr>ad_sources := d\<rparr>) = ad_budget b st"
  "ad_budget b (st\<lparr>ad_monitor := m\<rparr>) = ad_budget b st"
  "ad_sources (set_budget b' x st) = ad_sources st"
  by (auto simp: ad_budget_def set_budget_def)

lemma adm_reject_simps [simp]:
  "ad_budget b (snd (adm_reject status reason retry now st)) = ad_budget b st"
  "ad_sources (snd (adm_reject status reason retry now st)) = ad_sources st"
  by (simp_all add: adm_reject_def)

text \<open>What a request that got in has taken, and that a request that was turned away has taken nothing.\<close>

definition slots_same :: "admission \<Rightarrow> admission \<Rightarrow> bool" where
  "slots_same st st' \<longleftrightarrow> ad_sources st' = ad_sources st \<and>
     (\<forall>b. cb_active (ad_budget b st') = cb_active (ad_budget b st) \<and>
          cb_maximum (ad_budget b st') = cb_maximum (ad_budget b st))"

definition slots_taken :: "adm_settings \<Rightarrow> ticket \<Rightarrow> admission \<Rightarrow> admission \<Rightarrow> bool" where
  "slots_taken se tk st st' \<longleftrightarrow>
     cb_active (ad_budget (tk_streaming tk) st) < cb_maximum (ad_budget (tk_streaming tk) st) \<and>
     (\<forall>b. cb_active (ad_budget b st') = cb_active (ad_budget b st) + (if b = tk_streaming tk then 1 else 0) \<and>
          cb_maximum (ad_budget b st') = cb_maximum (ad_budget b st)) \<and>
     (case tk_source tk of
        None \<Rightarrow> ad_sources st' = ad_sources st
      | Some k \<Rightarrow>
          snd k = tk_streaming tk \<and> dict_get_or (ad_sources st) k 0 < source_limit se (snd k) \<and>
          ad_sources st' = dict_set k (dict_get_or (ad_sources st) k 0 + 1) (ad_sources st))"

lemma slots_same_reject:
  "slots_same st st1 \<Longrightarrow> slots_same st (snd (adm_reject status reason retry now st1))"
  by (simp add: slots_same_def)

lemma admit_begin_slots:
  assumes "\<And>b. 0 \<le> cb_active (ad_budget b st)"
  shows "(case fst (admit_begin se ip sc now st) of
            Inr (Inr tk) \<Rightarrow> slots_taken se tk st (snd (admit_begin se ip sc now st))
          | _ \<Rightarrow> slots_same st (snd (admit_begin se ip sc now st)))"
proof (cases "oversized sc")
  case True
  then show ?thesis by (simp add: admit_begin_def slots_same_def)
next
  case small: False
  obtain res l where lc: "local_check (as_window_seconds se) now (admission_limits se ip sc) (ad_local st) = (res, l)"
    by fastforce
  show ?thesis
  proof (cases "res = Inr None")
    case False
    then show ?thesis
      using small lc
      by (cases res) (auto simp: admit_begin_def slots_same_def adm_reject_def split: option.splits)
  next
    case True
    define b where "b = ad_budget (is_streaming sc) st"
    show ?thesis
    proof (cases "cb_active b < cb_maximum b")
      case False
      then show ?thesis
        using small lc True
        by (simp add: admit_begin_def Let_def cb_acquire_def b_def slots_same_def adm_reject_def)
    next
      case free: True
      have pos: "0 \<le> cb_active b" using assms by (simp add: b_def)
      have acq: "cb_acquire b = (True, b\<lparr>cb_active := cb_active b + 1\<rparr>)"
        using free by (simp add: cb_acquire_def)
      then show ?thesis
        using small lc True free pos
        by (simp add: admit_begin_def Let_def b_def[symmetric] cb_release_def slots_same_def slots_taken_def adm_reject_def)
    qed
  qed
qed

lemma tickets_remove1:
  assumes "tk \<in> set tks"
  shows "tickets_of b (remove1 tk tks) = tickets_of b tks - (if tk_streaming tk = b then 1 else 0)"
    and "tickets_from k (remove1 tk tks) = tickets_from k tks - (if tk_source tk = Some k then 1 else 0)"
    and "tk_streaming tk = b \<Longrightarrow> 0 < tickets_of b tks"
    and "tk_source tk = Some k \<Longrightarrow> 0 < tickets_from k tks"
  using assms
  by (auto simp: tickets_of_def tickets_from_def filter_remove1 length_remove1 filter_empty_conv)

lemma adm_invD:
  assumes "adm_inv se maxr maxs (st, tks)"
  shows "cb_active (ad_budget b st) = int (tickets_of b tks)"
    "cb_maximum (ad_budget b st) = (if b then maxs else maxr)"
    "cb_active (ad_budget b st) \<le> (if b then maxs else maxr)"
    "dict_get_or (ad_sources st) k 0 = int (tickets_from k tks)"
    "tickets_from k tks > 0 \<Longrightarrow> dict_get (ad_sources st) k \<noteq> None"
    "int (tickets_from k tks) \<le> max 0 (source_limit se (snd k))"
    "dict_get (ad_sources st) k = Some n \<Longrightarrow> 0 < n"
    "t \<in> set tks \<Longrightarrow> tk_source t = Some k \<Longrightarrow> snd k = tk_streaming t"
  using assms unfolding adm_inv_def Let_def prod.case
  by (blast, blast, blast, blast, blast, blast, blast, fastforce)

lemma adm_invI:
  assumes "\<And>b. cb_active (ad_budget b st) = int (tickets_of b tks)"
    "\<And>b. cb_maximum (ad_budget b st) = (if b then maxs else maxr)"
    "\<And>b. cb_active (ad_budget b st) \<le> (if b then maxs else maxr)"
    "\<And>k. dict_get_or (ad_sources st) k 0 = int (tickets_from k tks)"
    "\<And>k. tickets_from k tks > 0 \<Longrightarrow> dict_get (ad_sources st) k \<noteq> None"
    "\<And>k. int (tickets_from k tks) \<le> max 0 (source_limit se (snd k))"
    "\<And>k n. dict_get (ad_sources st) k = Some n \<Longrightarrow> 0 < n"
    "\<And>t k. t \<in> set tks \<Longrightarrow> tk_source t = Some k \<Longrightarrow> snd k = tk_streaming t"
  shows "adm_inv se maxr maxs (st, tks)"
  unfolding adm_inv_def Let_def prod.case
  using assms by (intro conjI allI impI ballI) (blast | simp split: option.split)+

lemma adm_inv_same:
  assumes "adm_inv se maxr maxs (st, tks)" and "slots_same st st'"
  shows "adm_inv se maxr maxs (st', tks)"
  using assms(2) adm_invD[OF assms(1)] by (intro adm_invI) (simp_all add: slots_same_def)

lemma adm_inv_taken:
  assumes "adm_inv se maxr maxs (st, tks)" and "slots_taken se tk st st'"
  shows "adm_inv se maxr maxs (st', tk # tks)"
proof -
  note I = adm_invD[OF assms(1)]
  have of_Cons: "tickets_of b (tk # tks) = tickets_of b tks + (if b = tk_streaming tk then 1 else 0)" for b
    by (auto simp: tickets_of_def)
  have from_Cons: "tickets_from k (tk # tks) = tickets_from k tks + (if tk_source tk = Some k then 1 else 0)" for k
    by (simp add: tickets_from_def)
  have act: "cb_active (ad_budget b st') = cb_active (ad_budget b st) + (if b = tk_streaming tk then 1 else 0)"
    "cb_maximum (ad_budget b st') = cb_maximum (ad_budget b st)"
    "cb_active (ad_budget (tk_streaming tk) st) < cb_maximum (ad_budget (tk_streaming tk) st)" for b
    using assms(2) by (simp_all add: slots_taken_def)
  have src: "dict_get (ad_sources st') k =
      (if tk_source tk = Some k then Some (int (tickets_from k tks) + 1) else dict_get (ad_sources st) k)" for k
    using assms(2) I(4)[of k] by (auto simp: slots_taken_def split: option.splits)
  have lim: "snd k = tk_streaming tk" "int (tickets_from k tks) < source_limit se (snd k)" if "tk_source tk = Some k" for k
    using assms(2) I(4)[of k] that by (auto simp: slots_taken_def)
  show ?thesis
  proof (rule adm_invI)
    fix b
    show "cb_active (ad_budget b st') = int (tickets_of b (tk # tks))"
      using act I(1)[of b] of_Cons by simp
    show "cb_maximum (ad_budget b st') = (if b then maxs else maxr)"
      using act I(2)[of b] by simp
    show "cb_active (ad_budget b st') \<le> (if b then maxs else maxr)"
      using act I(2)[of b] I(3)[of b] by auto
  next
    fix k
    show "dict_get_or (ad_sources st') k 0 = int (tickets_from k (tk # tks))"
      using src[of k] I(4)[of k] from_Cons[of k] by (simp add: dict_get_or_def)
    show "dict_get (ad_sources st') k \<noteq> None" if "0 < tickets_from k (tk # tks)"
      using that src[of k] I(5)[of k] from_Cons[of k] by (auto split: if_splits)
    show "int (tickets_from k (tk # tks)) \<le> max 0 (source_limit se (snd k))"
      using from_Cons[of k] lim[of k] I(6)[of k] by (cases "tk_source tk = Some k") auto
    show "0 < n" if "dict_get (ad_sources st') k = Some n" for n
      using that src[of k] I(7)[of k n] by (simp split: if_splits)
    show "snd k = tk_streaming t" if "t \<in> set (tk # tks)" "tk_source t = Some k" for t
      using that lim[of k] I(8)[of t k] by auto
  qed
qed

text \<open>A request in flight gives its slots back without an error.\<close>

lemma admit_release_inv:
  assumes inv: "adm_inv se maxr maxs (st, tks)" and tk: "tk \<in> set tks"
  shows "\<exists>st'. admit_release tk st = Inr st' \<and> adm_inv se maxr maxs (st', remove1 tk tks)"
proof -
  let ?b = "tk_streaming tk"
  note I = adm_invD[OF inv] and T = tickets_remove1[OF tk]
  obtain st1 where st1: "release_source (tk_source tk) st = Inr st1"
    and b1: "\<And>b. ad_budget b st1 = ad_budget b st"
    and s1: "\<And>k. dict_get_or (ad_sources st1) k 0 = int (tickets_from k (remove1 tk tks))"
    and s2: "\<And>k n. dict_get (ad_sources st1) k = Some n \<Longrightarrow> 0 < n"
    and s3: "\<And>k. tickets_from k (remove1 tk tks) > 0 \<Longrightarrow> dict_get (ad_sources st1) k \<noteq> None"
  proof (cases "tk_source tk")
    case None
    then show ?thesis
      using that[of st] I T by (simp add: release_source_def)
  next
    case (Some k)
    obtain n where n: "dict_get (ad_sources st) k = Some n" "n = int (tickets_from k tks)"
      using I(4,5)[of k] T(4)[OF Some] by (auto simp: dict_get_or_def)
    define d where "d = (if n - 1 \<noteq> 0 then dict_set k (n - 1) (ad_sources st) else dict_pop k (ad_sources st))"
    have "release_source (tk_source tk) st = Inr (st\<lparr>ad_sources := d\<rparr>)"
      using Some n(1) by (simp add: release_source_def d_def)
    then show ?thesis
    proof (rule that)
      fix k'
      have g: "dict_get d k' = (if k' = k then (if n = 1 then None else Some (n - 1)) else dict_get (ad_sources st) k')"
        by (simp add: d_def)
      have cnt: "int (tickets_from k' (remove1 tk tks)) = (if k' = k then n - 1 else int (tickets_from k' tks))"
        using T(2)[of k'] T(4)[OF Some] Some n(2) by auto
      show "dict_get_or (ad_sources (st\<lparr>ad_sources := d\<rparr>)) k' 0 = int (tickets_from k' (remove1 tk tks))"
        using g cnt I(4)[of k'] by (simp add: dict_get_or_def)
      show "dict_get (ad_sources (st\<lparr>ad_sources := d\<rparr>)) k' \<noteq> None" if "0 < tickets_from k' (remove1 tk tks)"
        using that g cnt I(5)[of k'] by (auto split: if_splits)
      show "0 < m" if "dict_get (ad_sources (st\<lparr>ad_sources := d\<rparr>)) k' = Some m" for m
        using that g I(7)[of k' m] n T(4)[OF Some] by (auto split: if_splits)
    qed simp
  qed
  have act: "cb_active (ad_budget ?b st1) = int (tickets_of ?b tks)" "0 < tickets_of ?b tks"
    using I(1) b1 T(3) by simp_all
  define bb where "bb = (ad_budget ?b st1)\<lparr>cb_active := cb_active (ad_budget ?b st1) - 1\<rparr>"
  define st2 where "st2 = set_budget ?b bb st1"
  have "admit_release tk st = Inr st2"
    using st1 act by (simp add: admit_release_def cb_release_def st2_def bb_def)
  moreover have "adm_inv se maxr maxs (st2, remove1 tk tks)"
  proof (rule adm_invI)
    fix b
    show "cb_active (ad_budget b st2) = int (tickets_of b (remove1 tk tks))"
      using I(1)[of b] act T(1)[of b] b1 by (auto simp: st2_def bb_def)
    show "cb_maximum (ad_budget b st2) = (if b then maxs else maxr)"
      using I(2)[of b] b1 by (auto simp: st2_def bb_def)
    show "cb_active (ad_budget b st2) \<le> (if b then maxs else maxr)"
      using I(3)[of b] b1 by (auto simp: st2_def bb_def)
  next
    fix k
    show "dict_get_or (ad_sources st2) k 0 = int (tickets_from k (remove1 tk tks))"
      using s1 by (simp add: st2_def)
    show "dict_get (ad_sources st2) k \<noteq> None" if "0 < tickets_from k (remove1 tk tks)"
      using s3 that by (simp add: st2_def)
    show "int (tickets_from k (remove1 tk tks)) \<le> max 0 (source_limit se (snd k))"
      using I(6)[of k] T(2)[of k] by linarith
    show "0 < n" if "dict_get (ad_sources st2) k = Some n" for n
      using s2 that by (simp add: st2_def)
    show "snd k = tk_streaming t" if "t \<in> set (remove1 tk tks)" "tk_source t = Some k" for t
      using that I(8)[of t k] notin_set_remove1[of t tks tk] by blast
  qed
  ultimately show ?thesis by blast
qed

lemma admit_finish_release:
  obtains st1 where "slots_same st st1" "snd (admit_finish se shared ip sc now tk st) = admit_release tk st1"
proof -
  have same: "slots_same st st" by (simp add: slots_same_def)
  show ?thesis
    by (rule that[of "snd (case shared of
           None \<Rightarrow> (Adm_Application, st)
         | Some allow \<Rightarrow>
             if sc_method sc = ''GET'' \<and> sc_path sc = ''/api/health'' then (Adm_Application, st)
             else case shared_check allow (as_window_seconds se) (admission_limits se ip sc) of
                    None \<Rightarrow> adm_reject 503 ''rate_backend_unavailable'' 3 now st
                  | Some (allowed, retry) \<Rightarrow>
                      if \<not> allowed then adm_reject 429 ''request_rate'' retry now st else (Adm_Application, st))"])
      (auto simp: admit_finish_def Let_def same intro: slots_same_reject split: option.splits prod.splits)
qed

lemma adm_inv_finish:
  assumes "adm_inv se maxr maxs (st, tks)" and "tk \<in> set tks"
  shows "\<exists>st'. snd (admit_finish se shared ip sc now tk st) = Inr st' \<and> adm_inv se maxr maxs (st', remove1 tk tks)"
proof -
  obtain st1 where "slots_same st st1" "snd (admit_finish se shared ip sc now tk st) = admit_release tk st1"
    by (rule admit_finish_release)
  then show ?thesis
    using admit_release_inv[OF adm_inv_same[OF assms(1)] assms(2)] by metis
qed

lemma adm_inv_step:
  assumes step: "adm_step se s s'" and inv: "adm_inv se maxr maxs s"
  shows "adm_inv se maxr maxs s'"
proof -
  have pos: "0 \<le> cb_active (ad_budget b (fst s))" for b
    using adm_invD(1)[of se maxr maxs "fst s" "snd s" b] inv by simp
  note B = admit_begin_slots[of "fst s", OF pos]
  show ?thesis
    using step
  proof cases
    case (enter ip sc now st tk st' tks)
    then show ?thesis using B[of se ip sc now] inv by (auto intro: adm_inv_taken)
  next
    case (turned_away ip sc now st resp st' tks)
    then show ?thesis using B[of se ip sc now] inv by (auto intro: adm_inv_same)
  next
    case (failed ip sc now st e st' tks)
    then show ?thesis using B[of se ip sc now] inv by (auto intro: adm_inv_same)
  next
    case (leave tk tks shared ip sc now st resp st')
    then show ?thesis using adm_inv_finish[of se maxr maxs st tks tk shared ip sc now] inv by auto
  next
    case (observed st tks sc status started now)
    then show ?thesis using inv by (auto intro: adm_inv_same simp: slots_same_def observe_request_def)
  qed
qed

lemma adm_inv_reachable:
  assumes "adm_reachable se (admission_init maxr maxs l m) s" and "0 \<le> maxr" "0 \<le> maxs"
  shows "adm_inv se maxr maxs s"
  using assms
proof (induction rule: adm_reachable.induct)
  case start
  then show ?case
    by (auto simp: adm_inv_def admission_init_def ad_budget_def tickets_of_def tickets_from_def dict_get_or_def)
next
  case (step s s')
  then show ?case by (blast intro: adm_inv_step)
qed

section \<open>Properties\<close>

text \<open>C19: Admission is a finite budget for any interleaving of requests: in every reachable state the two budgets
  count exactly the requests and streams in flight and never exceed their maxima, no address has more requests
  or streams in flight than its limit, and any request in flight leaves without an error, giving its slots back,
  whatever the shared limiter answers (even when it fails).\<close>

theorem admission_bounded:
  assumes "adm_reachable se (admission_init maxr maxs l m) (st, tks)" and "0 \<le> maxr" and "0 \<le> maxs"
  shows "cb_active (ad_requests st) = int (tickets_of False tks) \<and> int (tickets_of False tks) \<le> maxr \<and>
    cb_active (ad_streams st) = int (tickets_of True tks) \<and> int (tickets_of True tks) \<le> maxs \<and>
    int (tickets_from (ip, streaming) tks) \<le> max 0 (source_limit se streaming) \<and>
    (\<forall>tk\<in>set tks. \<forall>shared ip sc now. \<exists>st'. snd (admit_finish se shared ip sc now tk st) = Inr st')"
proof -
  note inv = adm_inv_reachable[OF assms]
  show ?thesis
    using adm_invD(1,3)[OF inv, of False] adm_invD(1,3)[OF inv, of True] adm_invD(6)[OF inv, of "(ip, streaming)"]
      adm_inv_finish[OF inv]
    unfolding ad_budget_def by (simp del: split_paired_All) blast
qed

definition demo_settings :: adm_settings where
  "demo_settings = \<lparr>as_ip_max_attempts = 5, as_global_max_attempts = 9, as_ip_max_asset_attempts = 5,
     as_global_max_asset_attempts = 9, as_auth_global_max_attempts = 5, as_readiness_max_attempts = 5,
     as_window_seconds = 60, as_ip_max_streams = 1, as_ip_max_concurrent = 1\<rparr>"

definition demo_get :: "string \<Rightarrow> scope" where
  "demo_get p = \<lparr>sc_method = ''GET'', sc_path = p, sc_raw_path = None, sc_query = '''', sc_headers = []\<rparr>"

definition demo_admission :: admission where
  "demo_admission = admission_init 2 1 \<lparr>rl_max_keys = 10, rl_cleanup_interval = 60, rl_events = [],
     rl_expires_at = [], rl_next_cleanup = 0, rl_next_expiry = None\<rparr> monitor_init"

theorem admission_bounded_witness:
  "\<exists>st. adm_reachable demo_settings demo_admission (st, [\<lparr>tk_streaming = False, tk_source = Some (''a'', False)\<rparr>]) \<and>
     cb_active (ad_requests st) = 1"
proof -
  let ?tk = "\<lparr>tk_streaming = False, tk_source = Some (''a'', False)\<rparr>"
  have "\<exists>st'. admit_begin demo_settings ''a'' (demo_get ''/x'') 1 demo_admission = (Inr (Inr ?tk), st')"
  proof -
    have c: "\<not> oversized (demo_get ''/x'')" "\<not> is_streaming (demo_get ''/x'')" "\<not> frontend_asset (demo_get ''/x'')"
      "admission_limits demo_settings ''a'' (demo_get ''/x'') = [(''ip:a'', 5), (''global'', 9)]"
      by (simp_all add: oversized_def uri_too_long_def raw_path_length_def utf8_length_def header_bytes_def demo_get_def
          MAX_URI_BYTES_def MAX_HEADER_COUNT_def MAX_HEADER_BYTES_def is_streaming_def frontend_asset_def
          rstrip_char_def admission_limits_def demo_settings_def)
    have "fst (local_check 60 1 [(''ip:a'', 5), (''global'', 9)] (ad_local demo_admission)) = Inr None"
      by (simp add: demo_admission_def admission_init_def rl_allow_def rl_cleanup_def rl_admit_def Let_def
          min_default_inf_def dict_values_def popleft_while_def dict_get_or_def dict_get_Cons min_expiry_def)
    then obtain l where "local_check 60 1 [(''ip:a'', 5), (''global'', 9)] (ad_local demo_admission) = (Inr None, l)"
      by (metis prod.collapse)
    then show ?thesis
      using c by (simp add: admit_begin_def Let_def cb_acquire_def ad_budget_def set_budget_def demo_admission_def
          admission_init_def dict_get_or_def source_limit_def demo_settings_def)
  qed
  then obtain st' where b: "admit_begin demo_settings ''a'' (demo_get ''/x'') 1 demo_admission = (Inr (Inr ?tk), st')"
    by blast
  have r: "adm_reachable demo_settings demo_admission (st', [?tk])"
    by (rule adm_reachable.step[OF adm_reachable.start adm_step.enter[OF b]])
  show ?thesis
    using admission_bounded[OF r[unfolded demo_admission_def], of "''a''" False] r
    by (auto simp: tickets_of_def)
qed

end
