(* ===== verification/Retention.thy ===== *)
theory Retention
  imports Pystr "HOL-Library.Option_ord" "HOL-Library.Product_Lexorder"
begin

text \<open>
  \<^verbatim>\<open>src/app/retention.py\<close>: deadlines of conversations, the backfill of legacy rows and the sweep that
  deletes expired data.

  A table is a list of rows. Times are seconds. A query with \<^verbatim>\<open>order_by\<close> sorts, with NULL first as SQLite
  does; a query without one keeps the table's order. A comparison with NULL selects nothing. Deleting a conversation
  deletes its messages, envelopes, members and wrapped keys, as the relationships of
  \<^verbatim>\<open>src/app/models.py\<close> cascade.
\<close>

record chat_session =
  cs_id :: string
  cs_security_mode :: "string option"
  cs_created_at :: "time option"
  cs_retention_expires_at :: "time option"

text \<open>A row that belongs to a conversation, and a row that expires on its own.\<close>

record owned_row =
  ow_id :: string
  ow_session_id :: string

record expiring_row =
  ex_id :: string
  ex_created_at :: time
  ex_expires_at :: time

record prekey_row =
  pk_id :: string
  pk_consumed_at :: "time option"

record retention_db =
  db_sessions :: "chat_session list"
  db_messages :: "owned_row list"
  db_envelopes :: "owned_row list"
  db_key_epochs :: "owned_row list"
  db_members :: "owned_row list"
  db_challenges :: "expiring_row list"
  db_revoked_tokens :: "expiring_row list"
  db_auth_sessions :: "expiring_row list"
  db_prekeys :: "prekey_row list"
  db_recovery_codes :: "expiring_row list"
  db_passkey_challenges :: "expiring_row list"
  db_phone_challenges :: "expiring_row list"

record retention_result =
  rr_expired_sessions :: nat
  rr_backfilled :: nat
  rr_encrypted_messages :: nat
  rr_e2ee_envelopes :: nat
  rr_wrapped_deks_destroyed :: nat
  rr_expired_challenges :: nat
  rr_expired_tokens :: nat
  rr_expired_auth_sessions :: nat
  rr_stale_prekeys :: nat
  rr_expired_recovery_codes :: nat
  rr_expired_passkey_challenges :: nat
  rr_expired_phone_challenges :: nat
  rr_dry_run :: bool

datatype retention_error = Ret_BatchSize | Ret_Periods

definition days :: "int \<Rightarrow> time" where
  "days n = of_int n * 86400"

record retention_policy =
  rp_secure_days :: int
  rp_confidential_days :: int

definition retention_days :: "retention_policy \<Rightarrow> chat_session \<Rightarrow> int" where
  "retention_days p s =
     (if cs_security_mode s = Some ''secure'' then rp_secure_days p else rp_confidential_days p)"

definition retention_deadline :: "retention_policy \<Rightarrow> time \<Rightarrow> chat_session \<Rightarrow> time" where
  "retention_deadline p now s =
     (case cs_created_at s of None \<Rightarrow> now | Some t \<Rightarrow> t) + days (retention_days p s)"

definition set_deadline :: "retention_policy \<Rightarrow> time \<Rightarrow> chat_session \<Rightarrow> chat_session" where
  "set_deadline p now s = s\<lparr>cs_retention_expires_at := Some (retention_deadline p now s)\<rparr>"

section \<open>Backfill\<close>

text \<open>The next batch after the cursor, in id order.\<close>

definition backfill_batch :: "nat \<Rightarrow> string option \<Rightarrow> chat_session list \<Rightarrow> chat_session list" where
  "backfill_batch batch_size last_id ss =
     take batch_size (sort_key cs_id
       (filter (\<lambda>s. cs_retention_expires_at s = None \<and> (case last_id of None \<Rightarrow> True | Some i \<Rightarrow> i < cs_id s)) ss))"

definition update_rows :: "retention_policy \<Rightarrow> time \<Rightarrow> chat_session list \<Rightarrow> chat_session list \<Rightarrow> chat_session list" where
  "update_rows p now rows ss = map (\<lambda>s. if s \<in> set rows then set_deadline p now s else s) ss"

definition legacy :: "chat_session list \<Rightarrow> chat_session list" where
  "legacy ss = filter (\<lambda>s. cs_retention_expires_at s = None) ss"

lemma update_rows_legacy:
  "legacy (update_rows p now rows ss) = filter (\<lambda>s. s \<notin> set rows) (legacy ss)"
  by (induction ss) (auto simp: legacy_def update_rows_def set_deadline_def)

lemma backfill_batch_subset: "s \<in> set (backfill_batch n last_id ss) \<Longrightarrow> s \<in> set (legacy ss)"
  by (auto simp: backfill_batch_def legacy_def dest: in_set_takeD)

lemma legacy_decreases:
  assumes "backfill_batch n last_id ss \<noteq> []"
  shows "length (legacy (update_rows p now (backfill_batch n last_id ss) ss)) < length (legacy ss)"
proof -
  obtain s where "s \<in> set (backfill_batch n last_id ss)"
    using assms by (cases "backfill_batch n last_id ss") auto
  then show ?thesis
    unfolding update_rows_legacy using backfill_batch_subset by (intro length_filter_less) auto
qed

function backfill_loop ::
    "retention_policy \<Rightarrow> time \<Rightarrow> nat \<Rightarrow> string option \<Rightarrow> nat \<Rightarrow> chat_session list \<Rightarrow> nat \<times> chat_session list" where
  "backfill_loop p now batch_size last_id backfilled ss =
     (let rows = backfill_batch batch_size last_id ss
      in if rows = [] then (backfilled, ss)
         else backfill_loop p now batch_size (Some (cs_id (last rows))) (backfilled + length rows)
                (update_rows p now rows ss))"
  by pat_completeness auto
termination
  by (relation "measure (\<lambda>(p, now, n, l, k, ss). length (legacy ss))") (auto intro: legacy_decreases)

declare backfill_loop.simps [simp del]

definition backfill_retention_deadlines ::
    "retention_policy \<Rightarrow> time \<Rightarrow> nat \<Rightarrow> chat_session list \<Rightarrow> nat \<times> chat_session list" where
  "backfill_retention_deadlines p now batch_size ss = backfill_loop p now batch_size None 0 ss"

section \<open>The sweep\<close>

definition le_opt :: "time option \<Rightarrow> time \<Rightarrow> bool" where
  "le_opt a b = (case a of None \<Rightarrow> False | Some t \<Rightarrow> t \<le> b)"

definition legacy_expired :: "retention_policy \<Rightarrow> time \<Rightarrow> chat_session \<Rightarrow> bool" where
  "legacy_expired p now s \<longleftrightarrow>
     cs_retention_expires_at s = None \<and>
     ((cs_security_mode s = Some ''secure'' \<and> le_opt (cs_created_at s) (now - days (rp_secure_days p))) \<or>
      (((cs_security_mode s \<noteq> None \<and> cs_security_mode s \<noteq> Some ''secure'') \<or> cs_security_mode s = None) \<and>
       le_opt (cs_created_at s) (now - days (rp_confidential_days p))))"

definition expired_clause :: "bool \<Rightarrow> retention_policy \<Rightarrow> time \<Rightarrow> chat_session \<Rightarrow> bool" where
  "expired_clause dry_run p now s \<longleftrightarrow>
     (if dry_run then le_opt (cs_retention_expires_at s) now \<or> legacy_expired p now s
      else cs_retention_expires_at s = None \<or> le_opt (cs_retention_expires_at s) now)"

definition expired_rows :: "time \<Rightarrow> nat \<Rightarrow> expiring_row list \<Rightarrow> expiring_row list" where
  "expired_rows now n rows = take n (filter (\<lambda>r. ex_expires_at r \<le> now) rows)"

definition without :: "('r \<Rightarrow> string) \<Rightarrow> 'r list \<Rightarrow> 'r list \<Rightarrow> 'r list" where
  "without rid gone rows = filter (\<lambda>r. rid r \<notin> rid ` set gone) rows"

definition owned_by :: "string list \<Rightarrow> owned_row list \<Rightarrow> owned_row list" where
  "owned_by ids rows = filter (\<lambda>r. ow_session_id r \<in> set ids) rows"

definition not_owned_by :: "string list \<Rightarrow> owned_row list \<Rightarrow> owned_row list" where
  "not_owned_by ids rows = filter (\<lambda>r. ow_session_id r \<notin> set ids) rows"

definition enforce_retention ::
    "retention_policy \<Rightarrow> time \<Rightarrow> bool \<Rightarrow> int \<Rightarrow> retention_db \<Rightarrow> (retention_error + retention_result) \<times> retention_db" where
  "enforce_retention p now dry_run batch_size db =
     (if batch_size < 1 \<or> batch_size > 5000 then (Inl Ret_BatchSize, db)
      else if rp_secure_days p < 1 \<or> rp_confidential_days p < 1 then (Inl Ret_Periods, db)
      else
        let n = nat batch_size;
            (backfilled, ss) =
              (if dry_run then (length (legacy (db_sessions db)), db_sessions db)
               else backfill_retention_deadlines p now n (db_sessions db));
            sessions = take n (sort_key (\<lambda>s. (cs_retention_expires_at s, cs_id s)) (filter (expired_clause dry_run p now) ss));
            ids = map cs_id sessions;
            challenges = expired_rows now n (db_challenges db);
            tokens = expired_rows now n (db_revoked_tokens db);
            auth = take n (sort_key ex_expires_at (filter (\<lambda>r. ex_expires_at r \<le> now) (db_auth_sessions db)));
            prekeys = take n (filter (\<lambda>r. pk_consumed_at r \<noteq> None) (db_prekeys db));
            codes = expired_rows now n (db_recovery_codes db);
            passkeys = expired_rows now n (db_passkey_challenges db);
            phones = take n (sort_key (\<lambda>r. (ex_created_at r, ex_id r))
                       (filter (\<lambda>r. ex_created_at r \<le> now - days 2 \<and> ex_expires_at r \<le> now) (db_phone_challenges db)));
            result =
              \<lparr>rr_expired_sessions = length sessions, rr_backfilled = backfilled,
               rr_encrypted_messages = length (owned_by ids (db_messages db)),
               rr_e2ee_envelopes = length (owned_by ids (db_envelopes db)),
               rr_wrapped_deks_destroyed = length (owned_by ids (db_key_epochs db)),
               rr_expired_challenges = length challenges, rr_expired_tokens = length tokens,
               rr_expired_auth_sessions = length auth, rr_stale_prekeys = length prekeys,
               rr_expired_recovery_codes = length codes, rr_expired_passkey_challenges = length passkeys,
               rr_expired_phone_challenges = length phones, rr_dry_run = dry_run\<rparr>
        in (Inr result,
            if dry_run then db
            else db\<lparr>db_sessions := without cs_id sessions ss,
                    db_messages := not_owned_by ids (db_messages db),
                    db_envelopes := not_owned_by ids (db_envelopes db),
                    db_key_epochs := not_owned_by ids (db_key_epochs db),
                    db_members := not_owned_by ids (db_members db),
                    db_challenges := without ex_id challenges (db_challenges db),
                    db_revoked_tokens := without ex_id tokens (db_revoked_tokens db),
                    db_auth_sessions := without ex_id auth (db_auth_sessions db),
                    db_prekeys := without pk_id prekeys (db_prekeys db),
                    db_recovery_codes := without ex_id codes (db_recovery_codes db),
                    db_passkey_challenges := without ex_id passkeys (db_passkey_challenges db),
                    db_phone_challenges := without ex_id phones (db_phone_challenges db)\<rparr>))"

section \<open>Backfilling in batches is one pass\<close>

definition backfill_all :: "retention_policy \<Rightarrow> time \<Rightarrow> chat_session list \<Rightarrow> chat_session list" where
  "backfill_all p now ss = map (\<lambda>s. if cs_retention_expires_at s = None then set_deadline p now s else s) ss"

definition ids_ok :: "chat_session list \<Rightarrow> bool" where
  "ids_ok ss \<longleftrightarrow> distinct (map cs_id ss)"

lemma update_rows_all:
  assumes "set rows \<subseteq> set (legacy ss)"
  shows "backfill_all p now (update_rows p now rows ss) = backfill_all p now ss"
  using assms by (auto simp: backfill_all_def update_rows_def set_deadline_def legacy_def)

lemma update_rows_ids: "map cs_id (update_rows p now rows ss) = map cs_id ss"
  by (induction ss) (simp_all add: update_rows_def set_deadline_def)

text \<open>The cursor never skips a legacy row.\<close>

definition cursor_ok :: "string option \<Rightarrow> chat_session list \<Rightarrow> bool" where
  "cursor_ok last_id ss \<longleftrightarrow> (\<forall>s\<in>set (legacy ss). case last_id of None \<Rightarrow> True | Some i \<Rightarrow> i < cs_id s)"

lemma cursor_ok_batch:
  assumes "cursor_ok last_id ss"
  shows "backfill_batch n last_id ss = take n (sort_key cs_id (legacy ss))"
proof -
  have "filter (\<lambda>s. cs_retention_expires_at s = None \<and> (case last_id of None \<Rightarrow> True | Some i \<Rightarrow> i < cs_id s)) ss = legacy ss"
    unfolding legacy_def
    using assms by (intro filter_cong) (auto simp: cursor_ok_def legacy_def)
  then show ?thesis by (simp add: backfill_batch_def)
qed

lemma cursor_ok_next:
  assumes ok: "ids_ok ss" and cur: "cursor_ok last_id ss" and ne: "backfill_batch n last_id ss \<noteq> []"
  defines "rows \<equiv> backfill_batch n last_id ss"
  shows "cursor_ok (Some (cs_id (last rows))) (update_rows p now rows ss)"
proof -
  let ?L = "sort_key cs_id (legacy ss)"
  have rows: "rows = take n ?L"
    using cursor_ok_batch[OF cur] by (simp add: rows_def)
  have "distinct (map cs_id (legacy ss))"
    using ok by (simp add: ids_ok_def legacy_def distinct_map_filter)
  then have "distinct (map cs_id ?L)"
    by (simp add: distinct_map)
  then have srt: "sorted_wrt (<) (map cs_id ?L)"
    by (simp add: strict_sorted_iff)
  show ?thesis
    unfolding cursor_ok_def update_rows_legacy
  proof (intro ballI)
    fix s assume "s \<in> set (filter (\<lambda>s. s \<notin> set rows) (legacy ss))"
    then have "s \<in> set ?L" "s \<notin> set (take n ?L)"
      using rows by simp_all
    then have "s \<in> set (drop n ?L)"
      by (metis Un_iff append_take_drop_id set_append)
    moreover have "last rows \<in> set (take n ?L)"
      using ne rows by (simp add: rows_def[symmetric])
    moreover have "sorted_wrt (<) (map cs_id (take n ?L) @ map cs_id (drop n ?L))"
      using srt by (simp flip: map_append)
    ultimately show "case Some (cs_id (last rows)) of None \<Rightarrow> True | Some i \<Rightarrow> i < cs_id s"
      by (simp add: sorted_wrt_append)
  qed
qed

lemma backfill_loop_one_pass:
  assumes "ids_ok ss" "cursor_ok last_id ss" "0 < n"
  shows "backfill_loop p now n last_id k ss = (k + length (legacy ss), backfill_all p now ss)"
  using assms
proof (induction p now n last_id k ss rule: backfill_loop.induct)
  case (1 p now n last_id k ss)
  define rows where "rows = backfill_batch n last_id ss"
  have rows: "rows = take n (sort_key cs_id (legacy ss))"
    using cursor_ok_batch[OF 1(3)] by (simp add: rows_def)
  show ?case
  proof (cases "rows = []")
    case True
    then have "legacy ss = []"
      using rows 1(4) by (metis length_sort list.size(3) length_0_conv take_eq_Nil less_irrefl_nat)
    then have "backfill_all p now ss = ss"
      unfolding backfill_all_def by (intro map_idI) (fastforce simp: legacy_def filter_empty_conv)
    then show ?thesis
      using True \<open>legacy ss = []\<close> by (subst backfill_loop.simps) (simp add: rows_def[symmetric])
  next
    case False
    have ids: "ids_ok (update_rows p now rows ss)"
      using 1(2) by (simp add: ids_ok_def update_rows_ids)
    have cur: "cursor_ok (Some (cs_id (last rows))) (update_rows p now rows ss)"
      using cursor_ok_next[OF 1(2,3)] False by (simp add: rows_def)
    have sub: "set rows \<subseteq> set (legacy ss)"
      using backfill_batch_subset by (auto simp: rows_def)
    have d: "distinct (legacy ss)"
      using 1(2) by (auto simp: ids_ok_def legacy_def distinct_map)
    have "distinct rows"
      using d rows by simp
    moreover have "set (filter (\<lambda>s. s \<in> set rows) (legacy ss)) = set rows"
      using sub by auto
    ultimately have "length (filter (\<lambda>s. s \<in> set rows) (legacy ss)) = length rows"
      using distinct_card[of rows] distinct_card[OF distinct_filter[OF d, of "\<lambda>s. s \<in> set rows"]] by simp
    then have len: "length rows + length (legacy (update_rows p now rows ss)) = length (legacy ss)"
      using sum_length_filter_compl[of "\<lambda>s. s \<in> set rows" "legacy ss"] by (simp add: update_rows_legacy)
    show ?thesis
      using 1(1)[OF rows_def _ ids cur 1(4)] False len update_rows_all[OF sub]
      by (subst backfill_loop.simps) (simp add: rows_def[symmetric])
  qed
qed

section \<open>What the sweep removes\<close>

lemma backfill_spec:
  "ids_ok ss \<Longrightarrow> 0 < n \<Longrightarrow>
   backfill_retention_deadlines p now n ss = (length (legacy ss), backfill_all p now ss)"
  using backfill_loop_one_pass[of ss None n p now 0] by (simp add: backfill_retention_deadlines_def cursor_ok_def)

lemma backfill_all_deadline: "s \<in> set (backfill_all p now ss) \<Longrightarrow> cs_retention_expires_at s \<noteq> None"
  by (auto simp: backfill_all_def set_deadline_def)

text \<open>The deadline a conversation has, recorded or derived.\<close>

definition effective_deadline :: "retention_policy \<Rightarrow> time \<Rightarrow> chat_session \<Rightarrow> time" where
  "effective_deadline p now s =
     (case cs_retention_expires_at s of None \<Rightarrow> retention_deadline p now s | Some d \<Rightarrow> d)"

lemma days_pos: "0 < n \<Longrightarrow> 0 < days n"
  by (simp add: days_def)

lemma expired_dry_iff:
  assumes "0 < rp_secure_days p" "0 < rp_confidential_days p"
  shows "expired_clause True p now s \<longleftrightarrow> effective_deadline p now s \<le> now"
  using days_pos[OF assms(1)] days_pos[OF assms(2)]
  by (auto simp: expired_clause_def le_opt_def legacy_expired_def effective_deadline_def retention_deadline_def
      retention_days_def split: option.splits)

lemma expired_real_iff:
  assumes "cs_retention_expires_at s \<noteq> None"
  shows "expired_clause False p now s \<longleftrightarrow> effective_deadline p now s \<le> now"
  using assms by (auto simp: expired_clause_def le_opt_def effective_deadline_def)

lemma effective_set_deadline:
  "cs_retention_expires_at s = None \<Longrightarrow> effective_deadline p now (set_deadline p now s) = effective_deadline p now s"
  by (simp add: effective_deadline_def set_deadline_def)

lemma filter_expired_ids:
  assumes "0 < rp_secure_days p" "0 < rp_confidential_days p"
  shows "map cs_id (filter (expired_clause False p now) (backfill_all p now ss)) =
         map cs_id (filter (expired_clause True p now) ss)"
proof (induction ss)
  case Nil
  then show ?case by (simp add: backfill_all_def)
next
  case (Cons s ss)
  let ?s = "if cs_retention_expires_at s = None then set_deadline p now s else s"
  have "expired_clause False p now ?s \<longleftrightarrow> effective_deadline p now s \<le> now"
    using expired_real_iff[of ?s p now] effective_set_deadline[of s p now] by (simp add: set_deadline_def)
  moreover have "cs_id ?s = cs_id s"
    by (simp add: set_deadline_def)
  ultimately show ?case
    using Cons expired_dry_iff[OF assms, of now s] by (simp add: backfill_all_def)
qed

text \<open>The conversations a sweep deletes.\<close>

definition swept :: "bool \<Rightarrow> retention_policy \<Rightarrow> time \<Rightarrow> nat \<Rightarrow> chat_session list \<Rightarrow> chat_session list" where
  "swept dry_run p now n ss =
     take n (sort_key (\<lambda>s. (cs_retention_expires_at s, cs_id s)) (filter (expired_clause dry_run p now) ss))"

lemma swept_subset: "s \<in> set (swept dry p now n ss) \<Longrightarrow> s \<in> set ss \<and> expired_clause dry p now s"
  by (auto simp: swept_def dest: in_set_takeD)

lemma swept_all:
  assumes "length (filter (expired_clause dry p now) ss) \<le> n"
  shows "set (swept dry p now n ss) = set (filter (expired_clause dry p now) ss)"
    and "length (swept dry p now n ss) = length (filter (expired_clause dry p now) ss)"
  using assms by (simp_all add: swept_def)

lemma enforce_retention_real:
  assumes "ids_ok (db_sessions db)" and "enforce_retention p now False batch db = (Inr r, db')"
  defines "ss \<equiv> backfill_all p now (db_sessions db)" and "gone \<equiv> swept False p now (nat batch) (backfill_all p now (db_sessions db))"
  shows "db_sessions db' = without cs_id gone ss"
    "db_messages db' = not_owned_by (map cs_id gone) (db_messages db)"
    "db_envelopes db' = not_owned_by (map cs_id gone) (db_envelopes db)"
    "db_key_epochs db' = not_owned_by (map cs_id gone) (db_key_epochs db)"
    "rr_expired_sessions r = length gone" "rr_backfilled r = length (legacy (db_sessions db))"
    "rr_encrypted_messages r = length (owned_by (map cs_id gone) (db_messages db))"
    "rr_e2ee_envelopes r = length (owned_by (map cs_id gone) (db_envelopes db))"
    "rr_wrapped_deks_destroyed r = length (owned_by (map cs_id gone) (db_key_epochs db))"
    "1 \<le> batch" "0 < rp_secure_days p" "0 < rp_confidential_days p"
proof -
  have b: "\<not> (batch < 1 \<or> 5000 < batch)" "\<not> (rp_secure_days p < 1 \<or> rp_confidential_days p < 1)"
    using assms(2) by (auto simp: enforce_retention_def split: if_splits)
  have bf: "backfill_retention_deadlines p now (nat batch) (db_sessions db) =
      (length (legacy (db_sessions db)), backfill_all p now (db_sessions db))"
    using backfill_spec[OF assms(1), of "nat batch"] b by simp
  note eq = assms(2)[unfolded enforce_retention_def if_not_P[OF b(1)] if_not_P[OF b(2)] bf Let_def]
  show "db_sessions db' = without cs_id gone ss"
    "db_messages db' = not_owned_by (map cs_id gone) (db_messages db)"
    "db_envelopes db' = not_owned_by (map cs_id gone) (db_envelopes db)"
    "db_key_epochs db' = not_owned_by (map cs_id gone) (db_key_epochs db)"
    "rr_expired_sessions r = length gone" "rr_backfilled r = length (legacy (db_sessions db))"
    "rr_encrypted_messages r = length (owned_by (map cs_id gone) (db_messages db))"
    "rr_e2ee_envelopes r = length (owned_by (map cs_id gone) (db_envelopes db))"
    "rr_wrapped_deks_destroyed r = length (owned_by (map cs_id gone) (db_key_epochs db))"
    using eq by (auto simp: ss_def gone_def swept_def)
  show "1 \<le> batch" "0 < rp_secure_days p" "0 < rp_confidential_days p"
    using b by auto
qed

lemma enforce_retention_returns:
  assumes "1 \<le> batch" "batch \<le> 5000" "1 \<le> rp_secure_days p" "1 \<le> rp_confidential_days p"
  shows "\<exists>r db'. enforce_retention p now dry batch db = (Inr r, db')"
proof -
  have "\<not> (batch < 1 \<or> 5000 < batch)" "\<not> (rp_secure_days p < 1 \<or> rp_confidential_days p < 1)"
    using assms by auto
  then show ?thesis
    unfolding enforce_retention_def Let_def by (simp only: if_False split: prod.split) blast
qed

lemma ids_backfill: "map cs_id (backfill_all p now ss) = map cs_id ss"
  by (induction ss) (simp_all add: backfill_all_def set_deadline_def)

lemma backfill_all_mem:
  assumes "s \<in> set ss"
  shows "\<exists>s'\<in>set (backfill_all p now ss). cs_id s' = cs_id s \<and> effective_deadline p now s' = effective_deadline p now s"
proof -
  let ?s = "if cs_retention_expires_at s = None then set_deadline p now s else s"
  have "?s \<in> set (backfill_all p now ss)"
    using assms by (auto simp: backfill_all_def)
  moreover have "cs_id ?s = cs_id s" "effective_deadline p now ?s = effective_deadline p now s"
    using effective_set_deadline[of s p now] by (simp_all add: set_deadline_def)
  ultimately show ?thesis by blast
qed

lemma ids_image: "cs_id ` set (backfill_all p now ss) = cs_id ` set ss"
  using arg_cong[OF ids_backfill, of set p now ss] by simp

lemma swept_kept:
  assumes "s \<in> set (without cs_id (swept False p now n ss) ss)" and "length (swept False p now n ss) < n"
  shows "\<not> expired_clause False p now s"
proof
  assume e: "expired_clause False p now s"
  have "length (filter (expired_clause False p now) ss) \<le> n"
    using assms(2) by (simp add: swept_def)
  then have "s \<in> set (swept False p now n ss)"
    using swept_all(1) e assms(1) by (auto simp: without_def)
  then show False using assms(1) by (auto simp: without_def)
qed

section \<open>Properties\<close>

definition demo_db :: retention_db where
  "demo_db = \<lparr>db_sessions =
       [\<lparr>cs_id = ''a'', cs_security_mode = Some ''secure'', cs_created_at = Some 0, cs_retention_expires_at = None\<rparr>,
        \<lparr>cs_id = ''b'', cs_security_mode = None, cs_created_at = Some 0, cs_retention_expires_at = None\<rparr>],
     db_messages = [\<lparr>ow_id = ''m1'', ow_session_id = ''a''\<rparr>, \<lparr>ow_id = ''m2'', ow_session_id = ''b''\<rparr>],
     db_envelopes = [], db_key_epochs = [\<lparr>ow_id = ''k'', ow_session_id = ''b''\<rparr>], db_members = [],
     db_challenges = [], db_revoked_tokens = [], db_auth_sessions = [], db_prekeys = [], db_recovery_codes = [],
     db_passkey_challenges = [], db_phone_challenges = []\<rparr>"

definition demo_retention :: retention_policy where
  "demo_retention = \<lparr>rp_secure_days = 90, rp_confidential_days = 7\<rparr>"

text \<open>C27: The backfill in bounded batches with a key cursor terminates and equals one pass over the table: every row
  without a deadline gets the one derived from its creation time, no other row changes, and the count is the
  number of such rows, for every positive batch size.\<close>

theorem backfill_is_one_pass:
  assumes "distinct (map cs_id ss)" and "0 < batch_size"
  shows "backfill_retention_deadlines p now batch_size ss =
    (length (filter (\<lambda>s. cs_retention_expires_at s = None) ss),
     map (\<lambda>s. if cs_retention_expires_at s = None
              then s\<lparr>cs_retention_expires_at := Some (retention_deadline p now s)\<rparr> else s) ss)"
  using backfill_spec[of ss batch_size p now] assms
  by (simp add: ids_ok_def legacy_def backfill_all_def set_deadline_def[abs_def])

theorem backfill_is_one_pass_witness:
  "fst (backfill_retention_deadlines demo_retention 100 1 (db_sessions demo_db)) = 2"
  using backfill_is_one_pass[of "db_sessions demo_db" 1 demo_retention 100] by (simp add: demo_db_def)

text \<open>C20: A sweep erases exactly what the policy says: afterwards every remaining conversation has a deadline, which lies
  in the future unless the batch was full; a conversation that disappeared had reached its deadline; no
  message, envelope or wrapped key of a deleted conversation remains; and every message of a kept one does.\<close>

theorem retention_sweep_correct:
  assumes "distinct (map cs_id (db_sessions db))"
    and "enforce_retention p now False batch_size db = (Inr r, db')"
  shows "(\<forall>s\<in>set (db_sessions db'). \<exists>d. cs_retention_expires_at s = Some d \<and>
            (int (rr_expired_sessions r) < batch_size \<longrightarrow> now < d)) \<and>
    (\<forall>s\<in>set (db_sessions db). cs_id s \<notin> cs_id ` set (db_sessions db') \<longrightarrow> effective_deadline p now s \<le> now) \<and>
    (\<forall>row\<in>set (db_messages db') \<union> set (db_envelopes db') \<union> set (db_key_epochs db').
       ow_session_id row \<in> cs_id ` set (db_sessions db) \<longrightarrow> ow_session_id row \<in> cs_id ` set (db_sessions db')) \<and>
    (\<forall>row\<in>set (db_messages db). ow_session_id row \<in> cs_id ` set (db_sessions db') \<longrightarrow> row \<in> set (db_messages db'))"
proof -
  have ok: "ids_ok (db_sessions db)" using assms(1) by (simp add: ids_ok_def)
  note R = enforce_retention_real[OF ok assms(2)]
  define ss where "ss = backfill_all p now (db_sessions db)"
  define gone where "gone = swept False p now (nat batch_size) ss"
  have kept: "db_sessions db' = without cs_id gone ss"
    using R(1) by (simp add: gone_def ss_def)
  have ids': "cs_id ` set (db_sessions db') = cs_id ` set (db_sessions db) - cs_id ` set gone"
  proof -
    have "cs_id ` set (without cs_id gone ss) = cs_id ` set ss - cs_id ` set gone"
      by (auto simp: without_def)
    then show ?thesis
      using ids_image[of p now "db_sessions db"] kept by (simp add: ss_def)
  qed
  show ?thesis
  proof (intro conjI ballI impI)
    fix s assume s: "s \<in> set (db_sessions db')"
    then obtain d where d: "cs_retention_expires_at s = Some d"
      using kept backfill_all_deadline[of s p now "db_sessions db"] by (auto simp: without_def ss_def)
    have "now < d" if "int (rr_expired_sessions r) < batch_size"
    proof -
      have "length gone < nat batch_size"
        using R(5,10) that by (simp add: gone_def ss_def)
      then have "\<not> expired_clause False p now s"
        using swept_kept[of s p now "nat batch_size" ss] s kept by (simp add: gone_def)
      then show ?thesis using d by (simp add: expired_clause_def le_opt_def)
    qed
    then show "\<exists>d. cs_retention_expires_at s = Some d \<and> (int (rr_expired_sessions r) < batch_size \<longrightarrow> now < d)"
      using d by blast
  next
    fix s assume s: "s \<in> set (db_sessions db)" "cs_id s \<notin> cs_id ` set (db_sessions db')"
    then have "cs_id s \<in> cs_id ` set gone" using ids' by blast
    then obtain g where g: "g \<in> set gone" "cs_id g = cs_id s" by auto
    obtain s' where s': "s' \<in> set ss" "cs_id s' = cs_id s" "effective_deadline p now s' = effective_deadline p now s"
      using backfill_all_mem[OF s(1), of p now] by (auto simp: ss_def)
    have g2: "g \<in> set ss" "expired_clause False p now g"
      using swept_subset g(1) by (auto simp: gone_def)
    have "inj_on cs_id (set ss)"
      using assms(1) ids_backfill[of p now "db_sessions db"] by (metis distinct_map ss_def)
    then have "g = s'" by (rule inj_onD) (use g g2 s' in simp_all)
    then show "effective_deadline p now s \<le> now"
      using expired_real_iff[of g p now] g2 s'(3) backfill_all_deadline[of g p now "db_sessions db"] by (simp add: ss_def)
  next
    fix row assume "row \<in> set (db_messages db') \<union> set (db_envelopes db') \<union> set (db_key_epochs db')"
    then have "ow_session_id row \<notin> cs_id ` set gone"
      using R(2-4) by (auto simp: not_owned_by_def gone_def ss_def)
    moreover assume "ow_session_id row \<in> cs_id ` set (db_sessions db)"
    ultimately show "ow_session_id row \<in> cs_id ` set (db_sessions db')" using ids' by blast
  next
    fix row assume "row \<in> set (db_messages db)" "ow_session_id row \<in> cs_id ` set (db_sessions db')"
    then show "row \<in> set (db_messages db')"
      using R(2) ids' by (auto simp: not_owned_by_def gone_def ss_def)
  qed
qed

theorem retention_sweep_correct_witness:
  "map cs_id (db_sessions (snd (enforce_retention demo_retention 1000000 False 10 demo_db))) = [''a''] \<and>
   effective_deadline demo_retention 1000000 (db_sessions demo_db ! 1) \<le> 1000000"
proof -
  have d: "distinct (map cs_id (db_sessions demo_db))" by (simp add: demo_db_def)
  obtain r db' where run: "enforce_retention demo_retention 1000000 False 10 demo_db = (Inr r, db')"
    using enforce_retention_returns[of 10 demo_retention 1000000 False demo_db] by (auto simp: demo_retention_def)
  have "db_sessions db' = without cs_id (swept False demo_retention 1000000 10 (backfill_all demo_retention 1000000 (db_sessions demo_db)))
     (backfill_all demo_retention 1000000 (db_sessions demo_db))"
    using enforce_retention_real(1)[of demo_db, OF _ run] d by (simp add: ids_ok_def)
  then have a: "map cs_id (db_sessions db') = [''a'']"
    by (simp add: demo_db_def backfill_all_def swept_def expired_clause_def set_deadline_def retention_deadline_def
        days_def retention_days_def demo_retention_def le_opt_def without_def)
  then have "''b'' \<notin> cs_id ` set (db_sessions db')"
    using arg_cong[OF a, of set] by (simp flip: set_map)
  moreover have "db_sessions demo_db ! 1 \<in> set (db_sessions demo_db)" "cs_id (db_sessions demo_db ! 1) = ''b''"
    by (simp_all add: demo_db_def)
  ultimately show ?thesis
    using retention_sweep_correct[OF d run] run a by auto
qed

text \<open>A dry run predicts the real one: whenever the expired conversations fit the batch, it reports the same number of
  conversations, backfilled deadlines, messages, envelopes and wrapped keys as the real sweep then deletes,
  and it changes nothing.\<close>

theorem retention_dry_run_predicts:
  assumes "distinct (map cs_id (db_sessions db))"
    and "enforce_retention p now True batch_size db = (Inr d, db1)"
    and "enforce_retention p now False batch_size db = (Inr r, db2)"
    and "int (length (filter (expired_clause True p now) (db_sessions db))) \<le> batch_size"
  shows "db1 = db \<and> rr_expired_sessions d = rr_expired_sessions r \<and> rr_backfilled d = rr_backfilled r \<and>
    rr_encrypted_messages d = rr_encrypted_messages r \<and> rr_e2ee_envelopes d = rr_e2ee_envelopes r \<and>
    rr_wrapped_deks_destroyed d = rr_wrapped_deks_destroyed r"
proof -
  have ok: "ids_ok (db_sessions db)" using assms(1) by (simp add: ids_ok_def)
  note R = enforce_retention_real[OF ok assms(3)]
  let ?n = "nat batch_size"
  let ?g = "swept True p now ?n (db_sessions db)"
  let ?h = "swept False p now ?n (backfill_all p now (db_sessions db))"
  have D: "db1 = db" "rr_expired_sessions d = length ?g" "rr_backfilled d = length (legacy (db_sessions db))"
    "rr_encrypted_messages d = length (owned_by (map cs_id ?g) (db_messages db))"
    "rr_e2ee_envelopes d = length (owned_by (map cs_id ?g) (db_envelopes db))"
    "rr_wrapped_deks_destroyed d = length (owned_by (map cs_id ?g) (db_key_epochs db))"
    using assms(2) by (auto simp: enforce_retention_def Let_def swept_def split: if_splits)
  note ids = filter_expired_ids[OF R(11,12), of now "db_sessions db"]
  have len: "length (filter (expired_clause False p now) (backfill_all p now (db_sessions db))) =
      length (filter (expired_clause True p now) (db_sessions db))"
    using arg_cong[OF ids, of length] by simp
  have n1: "length (filter (expired_clause True p now) (db_sessions db)) \<le> ?n" using assms(4) by simp
  then have n2: "length (filter (expired_clause False p now) (backfill_all p now (db_sessions db))) \<le> ?n" using len by simp
  have "set (map cs_id ?g) = set (map cs_id ?h)"
    using swept_all(1)[OF n1] swept_all(1)[OF n2] ids by (metis list.set_map)
  then have o: "owned_by (map cs_id ?g) rows = owned_by (map cs_id ?h) rows" for rows
    by (simp add: owned_by_def)
  show ?thesis
    using D R(5-9) o len swept_all(2)[OF n1] swept_all(2)[OF n2] by simp
qed

theorem retention_dry_run_predicts_witness:
  "\<exists>d r. fst (enforce_retention demo_retention 1000000 True 10 demo_db) = Inr d \<and>
     fst (enforce_retention demo_retention 1000000 False 10 demo_db) = Inr r \<and>
     rr_wrapped_deks_destroyed d = rr_wrapped_deks_destroyed r"
proof -
  obtain d db1 where dry: "enforce_retention demo_retention 1000000 True 10 demo_db = (Inr d, db1)"
    using enforce_retention_returns[of 10 demo_retention 1000000 True demo_db] by (auto simp: demo_retention_def)
  obtain r db2 where run: "enforce_retention demo_retention 1000000 False 10 demo_db = (Inr r, db2)"
    using enforce_retention_returns[of 10 demo_retention 1000000 False demo_db] by (auto simp: demo_retention_def)
  have "int (length (filter (expired_clause True demo_retention 1000000) (db_sessions demo_db))) \<le> 10"
    by (simp add: demo_db_def)
  then show ?thesis
    using retention_dry_run_predicts[OF _ dry run] dry run by (simp add: demo_db_def)
qed

end
