(* ===== verification/Ids_State.thy ===== *)
theory Ids_State
  imports Pystr
begin

text \<open>
  Prevention state of the intrusion detection system, \<^verbatim>\<open>IntrusionState\<close> of \<^verbatim>\<open>src/app/ids.py\<close>, and the
  contract that it shares with the database-backed state of \<^verbatim>\<open>Ids_Store\<close>.

  The object is a record; \<^verbatim>\<open>OrderedDict\<close> and \<^verbatim>\<open>dict\<close> are association lists in insertion order, the clock
  reading of each method is an argument, the lock makes each method one step.
\<close>

record detection =
  de_rule_id :: string
  de_severity :: string
  de_engine :: string
  de_source_ip :: string
  de_path :: string
  de_method :: string
  de_evidence_sha256 :: string
  de_mitre_technique :: "string option"

definition severity_weight :: "string \<Rightarrow> nat" where
  "severity_weight s = dict_get_or [(''high'', 3), (''medium'', 2), (''low'', 1)] s 1"

lemma severity_weight_pos: "0 < severity_weight s"
  by (simp add: severity_weight_def dict_get_or_def dict_get_Cons)

section \<open>The contract of a ban list\<close>

text \<open>
  \<open>rec\<close> stores a hit at a time and tells whether it banned its source, \<open>ban\<close> reads when the recorded ban of an
  address ends. A hit never touches a running ban, creates at most the ban it reports, and that one lasts the block
  time. Then the bans in force at any moment are exactly the reported ones that have not been served.
\<close>

fun rec_run :: "('d \<Rightarrow> time \<Rightarrow> 's \<Rightarrow> bool \<times> 's) \<Rightarrow> ('d \<times> time) list \<Rightarrow> 's \<Rightarrow> ('d \<times> time \<times> bool) list \<times> 's" where
  "rec_run rec [] s = ([], s)"
| "rec_run rec ((d, now) # hs) s =
     (let (b, s) = rec d now s; (tr, s) = rec_run rec hs s in ((d, now, b) # tr, s))"

locale ban_list =
  fixes rec :: "'d \<Rightarrow> time \<Rightarrow> 's \<Rightarrow> bool \<times> 's"
    and ban :: "'s \<Rightarrow> string \<Rightarrow> time option"
    and src :: "'d \<Rightarrow> string"
    and inv :: "'s \<Rightarrow> bool"
    and secs :: time
  assumes rec_inv: "inv s \<Longrightarrow> inv (snd (rec d now s))"
    and keeps_ban: "inv s \<Longrightarrow> ban s ip = Some e \<Longrightarrow> now < e \<Longrightarrow> ban (snd (rec d now s)) ip = Some e"
    and new_ban: "inv s \<Longrightarrow> fst (rec d now s) \<Longrightarrow> ban (snd (rec d now s)) (src d) = Some (now + secs)"
    and only_new_ban: "inv s \<Longrightarrow> ban (snd (rec d now s)) ip = Some e \<Longrightarrow>
          ban s ip = Some e \<or> (fst (rec d now s) \<and> ip = src d \<and> e = now + secs)"
begin

lemma ban_persists:
  assumes "rec_run rec hs s = (tr, s')" and "inv s" and "ban s ip = Some e"
    and "\<And>d now. (d, now) \<in> set hs \<Longrightarrow> now < e"
  shows "ban s' ip = Some e"
  using assms
proof (induction hs arbitrary: s tr)
  case Nil
  then show ?case by simp
next
  case (Cons h hs)
  obtain d now where h: "h = (d, now)" by (cases h)
  obtain b s1 where s1: "rec d now s = (b, s1)" by (cases "rec d now s")
  obtain tr1 where tr1: "rec_run rec hs s1 = (tr1, s')"
    using Cons.prems(1) h s1 by (auto split: prod.splits)
  have "ban s1 ip = Some e"
    using keeps_ban[OF Cons.prems(2,3), of now d] Cons.prems(4)[of d now] h s1 by simp
  moreover have "inv s1"
    using rec_inv[OF Cons.prems(2), of d now] s1 by simp
  moreover have "now' < e" if "(d', now') \<in> set hs" for d' now'
    using Cons.prems(4) that by force
  ultimately show ?case
    using Cons.IH[OF tr1] by blast
qed

lemma ban_origin:
  assumes "rec_run rec hs s = (tr, s')" and "inv s" and "ban s' ip = Some e"
  shows "ban s ip = Some e \<or> (\<exists>d t0. (d, t0, True) \<in> set tr \<and> src d = ip \<and> e = t0 + secs)"
  using assms
proof (induction hs arbitrary: s tr)
  case Nil
  then show ?case by simp
next
  case (Cons h hs)
  obtain d now where h: "h = (d, now)" by (cases h)
  obtain b s1 where s1: "rec d now s = (b, s1)" by (cases "rec d now s")
  obtain tr1 where tr1: "rec_run rec hs s1 = (tr1, s')" "tr = (d, now, b) # tr1"
    using Cons.prems(1) h s1 by (auto split: prod.splits)
  have "inv s1"
    using rec_inv[OF Cons.prems(2), of d now] s1 by simp
  then consider "ban s1 ip = Some e" | "\<exists>d t0. (d, t0, True) \<in> set tr1 \<and> src d = ip \<and> e = t0 + secs"
    using Cons.IH[OF tr1(1) _ Cons.prems(3)] by blast
  then show ?case
  proof cases
    case 1
    then show ?thesis using only_new_ban[OF Cons.prems(2), of d now ip e] s1 tr1(2) by auto
  next
    case 2
    then show ?thesis using tr1(2) by auto
  qed
qed

lemma trigger_bans:
  assumes "rec_run rec hs s = (tr, s')" and "inv s" and "(d, t0, True) \<in> set tr"
    and "sorted (map snd hs)" and "\<And>d now. (d, now) \<in> set hs \<Longrightarrow> now \<le> t" and "t < t0 + secs"
  shows "ban s' (src d) = Some (t0 + secs)"
  using assms
proof (induction hs arbitrary: s tr)
  case Nil
  then show ?case by simp
next
  case (Cons h hs)
  obtain d1 now where h: "h = (d1, now)" by (cases h)
  obtain b s1 where s1: "rec d1 now s = (b, s1)" by (cases "rec d1 now s")
  obtain tr1 where tr1: "rec_run rec hs s1 = (tr1, s')" "tr = (d1, now, b) # tr1"
    using Cons.prems(1) h s1 by (auto split: prod.splits)
  have i1: "inv s1"
    using rec_inv[OF Cons.prems(2), of d1 now] s1 by simp
  show ?case
  proof (cases "(d, t0, True) \<in> set tr1")
    case True
    have "now' \<le> t" if "(d', now') \<in> set hs" for d' now'
      using Cons.prems(5) that by force
    then show ?thesis
      using Cons.IH[OF tr1(1) i1 True] Cons.prems(4,6) by simp
  next
    case False
    then have e: "d1 = d" "now = t0" "b"
      using Cons.prems(3) tr1(2) by auto
    have "ban s1 (src d) = Some (t0 + secs)"
      using new_ban[OF Cons.prems(2), of d1 now] s1 e by simp
    then show ?thesis
      using ban_persists[OF tr1(1) i1] Cons.prems(5,6) by force
  qed
qed

lemma bans_exact:
  assumes "rec_run rec hs s = (tr, s')" and "inv s" and "\<And>ip. ban s ip = None"
    and "sorted (map snd hs)" and "\<And>d now. (d, now) \<in> set hs \<Longrightarrow> now \<le> t"
  shows "(\<exists>e. ban s' ip = Some e \<and> t < e) \<longleftrightarrow> (\<exists>d t0. (d, t0, True) \<in> set tr \<and> src d = ip \<and> t < t0 + secs)"
  using ban_origin[OF assms(1,2), of ip] trigger_bans[OF assms(1,2) _ assms(4,5)] assms(3) by fastforce

end

section \<open>The in-memory state\<close>

record ids_state =
  is_block_threshold :: nat
  is_block_seconds :: time
  is_history :: nat
  is_max_sources :: nat
  is_detections :: "detection list"
  is_scores :: "(string, time list) pydict"
  is_bans :: "(string, time) pydict"
  is_next_cleanup :: time

text \<open>\<open>None\<close> is the \<^verbatim>\<open>ValueError\<close> of the constructor.\<close>

definition ids_init :: "int \<Rightarrow> int \<Rightarrow> int \<Rightarrow> int \<Rightarrow> ids_state option" where
  "ids_init block_threshold block_seconds history max_sources =
     (if min (min block_threshold block_seconds) (min history max_sources) \<le> 0 then None
      else Some \<lparr>is_block_threshold = nat block_threshold, is_block_seconds = of_int block_seconds,
                 is_history = nat history, is_max_sources = nat max_sources, is_detections = [],
                 is_scores = [], is_bans = [], is_next_cleanup = 0\<rparr>)"

definition ids_expire_source :: "string \<Rightarrow> time \<Rightarrow> ids_state \<Rightarrow> ids_state" where
  "ids_expire_source ip now s =
     (case dict_get (is_bans s) ip of
        None \<Rightarrow> s
      | Some expiry \<Rightarrow>
          if expiry \<le> now
          then s\<lparr>is_bans := dict_pop ip (is_bans s), is_scores := dict_pop ip (is_scores s)\<rparr>
          else s)"

definition ids_cleanup_source :: "time \<Rightarrow> string \<Rightarrow> ids_state \<Rightarrow> ids_state" where
  "ids_cleanup_source now ip s =
     (let cutoff = now - is_block_seconds s;
          s = ids_expire_source ip now s
      in case dict_get (is_scores s) ip of
           None \<Rightarrow> s
         | Some bucket \<Rightarrow>
             if dict_has (is_bans s) ip then s
             else let bucket = popleft_while cutoff bucket
                  in if bucket = [] then s\<lparr>is_scores := dict_pop ip (is_scores s)\<rparr>
                     else s\<lparr>is_scores := dict_set ip bucket (is_scores s)\<rparr>)"

definition ids_cleanup :: "time \<Rightarrow> bool \<Rightarrow> ids_state \<Rightarrow> ids_state" where
  "ids_cleanup now force s =
     (if \<not> force \<and> now < is_next_cleanup s then s
      else let s = fold (ids_cleanup_source now) (dict_keys (is_scores s)) s
           in s\<lparr>is_next_cleanup := now + min 60 (is_block_seconds s)\<rparr>)"

text \<open>The oldest source that is not banned.\<close>

definition oldest_unblocked :: "ids_state \<Rightarrow> string option" where
  "oldest_unblocked s = find (\<lambda>ip. \<not> dict_has (is_bans s) ip) (dict_keys (is_scores s))"

text \<open>Room for a new source: \<open>None\<close> when every slot holds a ban.\<close>

definition ids_make_room :: "string \<Rightarrow> time \<Rightarrow> ids_state \<Rightarrow> ids_state \<times> bool" where
  "ids_make_room ip now s =
     (if dict_has (is_scores s) ip then (s, True)
      else
        let s = (if length (is_scores s) \<ge> is_max_sources s then ids_cleanup now True s else s)
        in if length (is_scores s) \<ge> is_max_sources s
           then (case oldest_unblocked s of
                   None \<Rightarrow> (s, False)
                 | Some old \<Rightarrow>
                     (s\<lparr>is_scores := dict_set ip [] (dict_pop old (is_scores s))\<rparr>, True))
           else (s\<lparr>is_scores := dict_set ip [] (is_scores s)\<rparr>, True))"

text \<open>Move the bucket to the end, drop what is out of the window, add the weight, and ban at the threshold.\<close>

definition ids_score :: "string \<Rightarrow> nat \<Rightarrow> time \<Rightarrow> ids_state \<Rightarrow> bool \<times> ids_state" where
  "ids_score ip weight now s =
     (let bucket = popleft_while (now - is_block_seconds s) (dict_get_or (is_scores s) ip []);
          bucket = ((\<lambda>b. append_maxlen (is_block_threshold s) b now) ^^ weight) bucket;
          s = s\<lparr>is_scores := dict_set ip bucket (dict_pop ip (is_scores s))\<rparr>
      in if length bucket \<ge> is_block_threshold s \<and> \<not> dict_has (is_bans s) ip
         then (True, s\<lparr>is_bans := dict_set ip (now + is_block_seconds s) (is_bans s)\<rparr>)
         else (False, s))"

definition ids_record :: "detection \<Rightarrow> time \<Rightarrow> ids_state \<Rightarrow> bool \<times> ids_state" where
  "ids_record d now s =
     (let s = s\<lparr>is_detections := append_maxlen (is_history s) (is_detections s) d\<rparr>;
          s = ids_cleanup now False s;
          s = ids_expire_source (de_source_ip d) now s
      in case ids_make_room (de_source_ip d) now s of
           (s, False) \<Rightarrow> (False, s)
         | (s, True) \<Rightarrow> ids_score (de_source_ip d) (severity_weight (de_severity d)) now s)"

definition ids_is_blocked :: "string \<Rightarrow> time \<Rightarrow> ids_state \<Rightarrow> (bool \<times> int) \<times> ids_state" where
  "ids_is_blocked ip now s =
     (let s = ids_expire_source ip now (ids_cleanup now False s)
      in (case dict_get (is_bans s) ip of
            None \<Rightarrow> (False, 0)
          | Some expiry \<Rightarrow> (True, max 1 \<lfloor>expiry - now\<rfloor>), s))"

definition ids_unblock :: "string \<Rightarrow> ids_state \<Rightarrow> bool \<times> ids_state" where
  "ids_unblock ip s =
     (dict_has (is_bans s) ip,
      s\<lparr>is_scores := dict_pop ip (is_scores s), is_bans := dict_pop ip (is_bans s)\<rparr>)"

definition ids_blocked_sources :: "time \<Rightarrow> ids_state \<Rightarrow> (string \<times> int) list \<times> ids_state" where
  "ids_blocked_sources now s =
     (let s = ids_cleanup now True s
      in (map (\<lambda>(ip, expiry). (ip, max 0 \<lfloor>expiry - now\<rfloor>))
            (filter (\<lambda>(ip, expiry). now < expiry) (sort_key fst (is_bans s))), s))"

definition ids_recent :: "nat \<Rightarrow> ids_state \<Rightarrow> detection list" where
  "ids_recent limit s =
     rev (if limit = 0 then is_detections s
          else drop (length (is_detections s) - limit) (is_detections s))"

section \<open>The invariant\<close>

definition ids_config :: "ids_state \<Rightarrow> nat \<times> time \<times> nat \<times> nat" where
  "ids_config s = (is_block_threshold s, is_block_seconds s, is_history s, is_max_sources s)"

text \<open>Every ban has a score entry, so the bounds on scores bound the bans as well.\<close>

definition ids_inv :: "ids_state \<Rightarrow> bool" where
  "ids_inv s \<longleftrightarrow>
     0 < is_block_threshold s \<and> 0 < is_block_seconds s \<and> 0 < is_history s \<and> 0 < is_max_sources s \<and>
     dict_ok (is_scores s) \<and> dict_ok (is_bans s) \<and>
     set (dict_keys (is_bans s)) \<subseteq> set (dict_keys (is_scores s)) \<and>
     (\<forall>b\<in>set (dict_values (is_scores s)). length b \<le> is_block_threshold s) \<and>
     length (is_scores s) \<le> is_max_sources s \<and> length (is_detections s) \<le> is_history s"

lemma values_dict_set: "set (dict_values (dict_set k v d)) \<subseteq> insert v (set (dict_values d))"
  by (induction d) (auto simp: dict_values_def)

lemma values_dict_pop: "set (dict_values (dict_pop k d)) \<subseteq> set (dict_values d)"
  by (auto simp: dict_values_def dict_pop_def)

lemma dict_get_values: "dict_get d k = Some v \<Longrightarrow> v \<in> set (dict_values d)"
  by (force simp: dict_values_def dest: dict_get_SomeD)

lemma length_dict_pop_le: "length (dict_pop k d) \<le> length d"
  by (simp add: dict_pop_def)

lemma length_dict_set_le: "length (dict_set k v d) \<le> Suc (length d)"
  by (induction d) auto

lemma length_dict_set_has: "dict_get d k \<noteq> None \<Longrightarrow> length (dict_set k v d) = length d"
  by (induction d) (auto simp: dict_get_Cons)

lemma length_dict_pop_has: "dict_get d k \<noteq> None \<Longrightarrow> length (dict_pop k d) < length d"
  unfolding dict_pop_def by (rule length_filter_less[where x = "(k, the (dict_get d k))"]) (auto dest: dict_get_SomeD)

text \<open>Housekeeping at a time: the invariant stays, running bans stay, and no ban or detection is added.\<close>

definition tidies :: "time \<Rightarrow> ids_state \<Rightarrow> ids_state \<Rightarrow> bool" where
  "tidies now s s' \<longleftrightarrow>
     (ids_inv s \<longrightarrow> ids_inv s') \<and> ids_config s' = ids_config s \<and> is_detections s' = is_detections s \<and>
     (\<forall>ip e. dict_get (is_bans s') ip = Some e \<longrightarrow> dict_get (is_bans s) ip = Some e) \<and>
     (\<forall>ip e. dict_get (is_bans s) ip = Some e \<and> now < e \<longrightarrow> dict_get (is_bans s') ip = Some e)"

lemma tidies_refl: "tidies now s s"
  by (simp add: tidies_def)

lemma tidies_trans: "tidies now s s1 \<Longrightarrow> tidies now s1 s2 \<Longrightarrow> tidies now s s2"
  unfolding tidies_def by metis

lemma tidies_next_cleanup: "tidies now s (s\<lparr>is_next_cleanup := t\<rparr>)"
  by (simp add: tidies_def ids_inv_def ids_config_def)

text \<open>Changing the scores of one address that holds no ban, without growing past the bound.\<close>

lemma tidies_pop_score:
  assumes "dict_get (is_bans s) ip = None"
  shows "tidies now s (s\<lparr>is_scores := dict_pop ip (is_scores s)\<rparr>)"
proof -
  have "ip \<notin> set (dict_keys (is_bans s))"
    using assms by (simp add: pyd.keys_get)
  then show ?thesis
    using values_dict_pop[of ip "is_scores s"] length_dict_pop_le[of ip "is_scores s"]
    by (auto simp: tidies_def ids_inv_def ids_config_def pyd.keys_pop)
qed

lemma tidies_set_score:
  assumes "length b \<le> is_block_threshold s" and "length (dict_set ip b (is_scores s)) \<le> is_max_sources s"
  shows "tidies now s (s\<lparr>is_scores := dict_set ip b (is_scores s)\<rparr>)"
  using assms values_dict_set[of ip b "is_scores s"]
  by (auto simp: tidies_def ids_inv_def ids_config_def pyd.keys_put)

lemma tidies_expire: "tidies now s (ids_expire_source ip now s)"
proof (cases "\<exists>e. dict_get (is_bans s) ip = Some e \<and> e \<le> now")
  case True
  then have "ids_expire_source ip now s = s\<lparr>is_bans := dict_pop ip (is_bans s), is_scores := dict_pop ip (is_scores s)\<rparr>"
    by (auto simp: ids_expire_source_def)
  then show ?thesis
    using True values_dict_pop[of ip "is_scores s"] length_dict_pop_le[of ip "is_scores s"]
    by (auto simp: tidies_def ids_inv_def ids_config_def pyd.keys_pop split: if_splits)
next
  case False
  then have "ids_expire_source ip now s = s"
    by (auto simp: ids_expire_source_def split: option.splits)
  then show ?thesis by (simp add: tidies_refl)
qed

lemma ids_expire_source_live:
  "dict_get (is_bans (ids_expire_source ip now s)) ip = Some e \<Longrightarrow> now < e"
  by (auto simp: ids_expire_source_def split: option.splits if_splits)

lemma tidies_cleanup_source:
  assumes "ids_inv s"
  shows "tidies now s (ids_cleanup_source now ip s)"
proof -
  define s1 where "s1 = ids_expire_source ip now s"
  define c where "c = now - is_block_seconds s"
  have t1: "tidies now s s1"
    by (simp add: s1_def tidies_expire)
  then have i1: "ids_inv s1"
    using assms by (simp add: tidies_def)
  have e: "ids_cleanup_source now ip s = (case dict_get (is_scores s1) ip of
           None \<Rightarrow> s1
         | Some bucket \<Rightarrow>
             if dict_has (is_bans s1) ip then s1
             else if popleft_while c bucket = [] then s1\<lparr>is_scores := dict_pop ip (is_scores s1)\<rparr>
             else s1\<lparr>is_scores := dict_set ip (popleft_while c bucket) (is_scores s1)\<rparr>)"
    unfolding ids_cleanup_source_def Let_def s1_def c_def ..
  show ?thesis
  proof (cases "dict_get (is_scores s1) ip = None \<or> dict_has (is_bans s1) ip")
    case True
    then show ?thesis unfolding e using t1 by (auto split: option.split)
  next
    case False
    then obtain b where b: "dict_get (is_scores s1) ip = Some b" "dict_get (is_bans s1) ip = None"
      by (auto simp: dict_has_def)
    have "length (popleft_while c b) \<le> is_block_threshold s1" "length (is_scores s1) \<le> is_max_sources s1"
      using i1 dict_get_values[OF b(1)] order_trans[OF length_popleft_while] by (auto simp: ids_inv_def)
    then have "tidies now s1 (s1\<lparr>is_scores := dict_set ip (popleft_while c b) (is_scores s1)\<rparr>)"
      using b(1) by (intro tidies_set_score) (simp_all add: length_dict_set_has)
    then show ?thesis
      unfolding e using b tidies_pop_score[OF b(2)] tidies_trans[OF t1] by (simp add: dict_has_def)
  qed
qed

lemma tidies_fold:
  assumes "ids_inv s"
  shows "tidies now s (fold (ids_cleanup_source now) ips s)"
  using assms
proof (induction ips arbitrary: s)
  case Nil
  then show ?case by (simp add: tidies_refl)
next
  case (Cons ip ips)
  note t = tidies_cleanup_source[OF Cons.prems, of now ip]
  then have "ids_inv (ids_cleanup_source now ip s)"
    using Cons.prems by (simp add: tidies_def)
  from tidies_trans[OF t Cons.IH[OF this]] show ?case by simp
qed

lemma tidies_cleanup:
  assumes "ids_inv s"
  shows "tidies now s (ids_cleanup now force s)"
  using tidies_trans[OF tidies_fold[OF assms] tidies_next_cleanup]
  by (simp add: ids_cleanup_def Let_def tidies_refl)

lemma length_funpow_append_maxlen:
  assumes "length b \<le> n"
  shows "length (((\<lambda>b. append_maxlen n b x) ^^ w) b) = min n (length b + w)"
  using assms by (induction w) (auto simp: length_append_maxlen)

lemma oldest_unblockedD:
  assumes "oldest_unblocked s = Some old"
  shows "dict_get (is_bans s) old = None" "dict_get (is_scores s) old \<noteq> None"
  using assms pyd.keys_get[of old "is_scores s"]
  by (auto simp: oldest_unblocked_def find_Some_iff dict_has_def)

lemma ids_make_room_spec:
  assumes inv: "ids_inv s" and room: "ids_make_room ip now s = (s', ok)"
  shows "tidies now s s' \<and> (ok \<longrightarrow> dict_get (is_scores s') ip \<noteq> None)"
proof (cases "dict_has (is_scores s) ip")
  case True
  then show ?thesis
    using room by (auto simp: ids_make_room_def tidies_refl dict_has_def)
next
  case new: False
  define s1 where "s1 = (if length (is_scores s) \<ge> is_max_sources s then ids_cleanup now True s else s)"
  have t1: "tidies now s s1"
    using tidies_cleanup[OF inv] by (simp add: s1_def tidies_refl)
  then have i1: "ids_inv s1"
    using inv by (simp add: tidies_def)
  have free: "tidies now s1 (s1\<lparr>is_scores := dict_set ip [] (is_scores s1)\<rparr>)"
    if "length (is_scores s1) < is_max_sources s1"
    using that length_dict_set_le[of ip "[]" "is_scores s1"] by (intro tidies_set_score) auto
  have evict: "tidies now s1 (s1\<lparr>is_scores := dict_set ip [] (dict_pop old (is_scores s1))\<rparr>)"
    if "oldest_unblocked s1 = Some old" for old
  proof -
    note o = oldest_unblockedD[OF that]
    let ?s2 = "s1\<lparr>is_scores := dict_pop old (is_scores s1)\<rparr>"
    have "tidies now ?s2 (?s2\<lparr>is_scores := dict_set ip [] (is_scores ?s2)\<rparr>)"
      using length_dict_pop_has[OF o(2)] length_dict_set_le[of ip "[]" "dict_pop old (is_scores s1)"] i1
      by (intro tidies_set_score) (auto simp: ids_inv_def)
    then show ?thesis
      using tidies_trans[OF tidies_pop_score[OF o(1)]] by simp
  qed
  show ?thesis
    using room new t1 tidies_trans[OF t1 free] tidies_trans[OF t1 evict]
    by (auto simp: ids_make_room_def Let_def s1_def[symmetric] not_le split: if_splits option.splits)
qed

lemma ids_score_spec:
  assumes inv: "ids_inv s" and has: "dict_get (is_scores s) ip = Some b0" and step: "ids_score ip w now s = (ban, s')"
  shows "ids_inv s' \<and> ids_config s' = ids_config s \<and> is_detections s' = is_detections s \<and>
    (ban \<longleftrightarrow> dict_get (is_bans s) ip = None \<and>
       is_block_threshold s \<le> length (popleft_while (now - is_block_seconds s) b0) + w) \<and>
    (\<forall>k. dict_get (is_bans s') k =
       (if ban \<and> k = ip then Some (now + is_block_seconds s) else dict_get (is_bans s) k))"
proof -
  define b where "b = ((\<lambda>b. append_maxlen (is_block_threshold s) b now) ^^ w) (popleft_while (now - is_block_seconds s) b0)"
  define s1 where "s1 = s\<lparr>is_scores := dict_set ip b (dict_pop ip (is_scores s))\<rparr>"
  have "length b0 \<le> is_block_threshold s"
    using inv dict_get_values[OF has] by (simp add: ids_inv_def)
  then have len: "length b = min (is_block_threshold s) (length (popleft_while (now - is_block_seconds s) b0) + w)"
    unfolding b_def by (intro length_funpow_append_maxlen order_trans[OF length_popleft_while])
  have l2: "length (dict_set ip b (dict_pop ip (is_scores s))) \<le> length (is_scores s)"
    using length_dict_set_le[of ip b "dict_pop ip (is_scores s)"] length_dict_pop_has[of "is_scores s" ip] has by simp
  have "set (dict_values (is_scores s1)) \<subseteq> insert b (set (dict_values (is_scores s)))"
    using values_dict_set[of ip b "dict_pop ip (is_scores s)"] values_dict_pop[of ip "is_scores s"]
    by (auto simp: s1_def)
  then have i1: "ids_inv s1"
    using inv len l2 by (auto simp: ids_inv_def s1_def pyd.keys_put pyd.keys_pop)
  then have i2: "ids_inv (s1\<lparr>is_bans := dict_set ip x (is_bans s1)\<rparr>)" for x
    by (auto simp: ids_inv_def s1_def pyd.keys_put)
  have "(ban, s') = (if is_block_threshold s \<le> length b \<and> \<not> dict_has (is_bans s) ip
      then (True, s1\<lparr>is_bans := dict_set ip (now + is_block_seconds s) (is_bans s1)\<rparr>) else (False, s1))"
    unfolding step[symmetric] by (simp add: has ids_score_def Let_def dict_get_or_def b_def s1_def)
  then show ?thesis
    using i1 i2 len by (auto simp: s1_def ids_config_def dict_has_def split: if_splits)
qed

section \<open>The state is a ban list\<close>

lemma ids_record_spec:
  assumes inv: "ids_inv s" and step: "ids_record d now s = (ban, s')"
  shows "ids_inv s' \<and> ids_config s' = ids_config s \<and>
    is_detections s' = append_maxlen (is_history s) (is_detections s) d \<and>
    (\<forall>ip e. dict_get (is_bans s) ip = Some e \<and> now < e \<longrightarrow> dict_get (is_bans s') ip = Some e) \<and>
    (ban \<longrightarrow> dict_get (is_bans s') (de_source_ip d) = Some (now + is_block_seconds s) \<and>
       \<not> (\<exists>e. dict_get (is_bans s) (de_source_ip d) = Some e \<and> now < e)) \<and>
    (\<forall>ip e. dict_get (is_bans s') ip = Some e \<longrightarrow>
       dict_get (is_bans s) ip = Some e \<or> (ban \<and> ip = de_source_ip d \<and> e = now + is_block_seconds s))"
proof -
  let ?ip = "de_source_ip d"
  define s1 where "s1 = s\<lparr>is_detections := append_maxlen (is_history s) (is_detections s) d\<rparr>"
  define s2 where "s2 = ids_expire_source ?ip now (ids_cleanup now False s1)"
  have i1: "ids_inv s1"
    using inv by (simp add: ids_inv_def s1_def length_append_maxlen)
  have t2: "tidies now s1 s2"
    unfolding s2_def by (rule tidies_trans[OF tidies_cleanup[OF i1] tidies_expire])
  then have i2: "ids_inv s2"
    using i1 by (simp add: tidies_def)
  obtain s3 ok where r: "ids_make_room ?ip now s2 = (s3, ok)" by fastforce
  note m = ids_make_room_spec[OF i2 r]
  have t3: "tidies now s1 s3"
    using tidies_trans[OF t2] m by blast
  then have i3: "ids_inv s3"
    using i1 by (simp add: tidies_def)
  have c: "is_block_seconds s3 = is_block_seconds s" "ids_config s3 = ids_config s"
    "is_detections s3 = append_maxlen (is_history s) (is_detections s) d"
    using t3 by (simp_all add: tidies_def ids_config_def s1_def)
  have bans: "\<And>ip e. dict_get (is_bans s3) ip = Some e \<Longrightarrow> dict_get (is_bans s) ip = Some e"
    "\<And>ip e. dict_get (is_bans s) ip = Some e \<Longrightarrow> now < e \<Longrightarrow> dict_get (is_bans s3) ip = Some e"
  proof -
    have "is_bans s1 = is_bans s" by (simp add: s1_def)
    with t3 show "\<And>ip e. dict_get (is_bans s3) ip = Some e \<Longrightarrow> dict_get (is_bans s) ip = Some e"
      "\<And>ip e. dict_get (is_bans s) ip = Some e \<Longrightarrow> now < e \<Longrightarrow> dict_get (is_bans s3) ip = Some e"
      unfolding tidies_def by metis+
  qed
  have step': "(ban, s') = (if ok then ids_score ?ip (severity_weight (de_severity d)) now s3 else (False, s3))"
    using r unfolding step[symmetric] ids_record_def Let_def s1_def[symmetric] s2_def[symmetric] by (cases ok) simp_all
  show ?thesis
  proof (cases ok)
    case False
    then have "ban = False" "s' = s3" using step' by simp_all
    then show ?thesis using i3 c bans by blast
  next
    case True
    then obtain b0 where "dict_get (is_scores s3) ?ip = Some b0"
      using m by auto
    from ids_score_spec[OF i3 this, of "severity_weight (de_severity d)" now ban s'] step' True
    have sp: "ids_inv s'" "ids_config s' = ids_config s" "is_detections s' = append_maxlen (is_history s) (is_detections s) d"
      "ban \<Longrightarrow> dict_get (is_bans s3) ?ip = None"
      "\<And>k. dict_get (is_bans s') k = (if ban \<and> k = ?ip then Some (now + is_block_seconds s) else dict_get (is_bans s3) k)"
      using c by auto
    have "\<not> (\<exists>e. dict_get (is_bans s) ?ip = Some e \<and> now < e)" if ban
      using sp(4)[OF that] bans(2)[of ?ip] by fastforce
    moreover have "dict_get (is_bans s) ip = Some e \<or> (ban \<and> ip = ?ip \<and> e = now + is_block_seconds s)"
      if "dict_get (is_bans s') ip = Some e" for ip e
      using that sp(5)[of ip] bans(1)[of ip e] by (auto split: if_splits)
    moreover have "dict_get (is_bans s') ip = Some e" if "dict_get (is_bans s) ip = Some e" "now < e" for ip e
      using bans(2)[OF that] sp(4) sp(5)[of ip] by auto
    ultimately show ?thesis
      using sp by simp
  qed
qed

interpretation mem_bans: ban_list ids_record "\<lambda>s. dict_get (is_bans s)" de_source_ip
    "\<lambda>s. ids_inv s \<and> is_block_seconds s = secs" secs for secs
proof (unfold_locales, goal_cases)
  case (1 s d now)
  then show ?case
    using ids_record_spec[of s d now] by (cases "ids_record d now s") (auto simp: ids_config_def)
next
  case (2 s ip e now d)
  then show ?case
    using ids_record_spec[of s d now] by (cases "ids_record d now s") auto
next
  case (3 s d now)
  then show ?case
    using ids_record_spec[of s d now] by (cases "ids_record d now s") auto
next
  case (4 s d now ip e)
  then show ?case
    using ids_record_spec[of s d now] by (cases "ids_record d now s") auto
qed

lemma ids_init_inv:
  assumes "ids_init th secs hist mx = Some s"
  shows "ids_inv s" "is_block_seconds s = of_int secs" "dict_get (is_bans s) ip = None"
    "ids_config s = (nat th, of_int secs, nat hist, nat mx)"
  using assms by (auto simp: ids_init_def ids_inv_def ids_config_def dict_keys_def dict_values_def split: if_splits)

lemma ids_is_blocked_iff:
  assumes "ids_inv s"
  shows "fst (fst (ids_is_blocked ip now s)) \<longleftrightarrow> (\<exists>e. dict_get (is_bans s) ip = Some e \<and> now < e)"
proof -
  let ?s = "ids_expire_source ip now (ids_cleanup now False s)"
  have "tidies now s ?s"
    by (rule tidies_trans[OF tidies_cleanup[OF assms] tidies_expire])
  then have "dict_get (is_bans ?s) ip = Some e \<longleftrightarrow> dict_get (is_bans s) ip = Some e \<and> now < e" for e
    using ids_expire_source_live unfolding tidies_def by metis
  moreover have "fst (fst (ids_is_blocked ip now s)) \<longleftrightarrow> (\<exists>e. dict_get (is_bans ?s) ip = Some e)"
    by (auto simp: ids_is_blocked_def Let_def split: option.split)
  ultimately show ?thesis by simp
qed

lemma ids_run_inv:
  assumes "rec_run ids_record hs s = (tr, s')" and "ids_inv s"
  shows "ids_inv s' \<and> ids_config s' = ids_config s"
  using assms
proof (induction hs arbitrary: s tr)
  case Nil
  then show ?case by simp
next
  case (Cons h hs)
  obtain d now where h: "h = (d, now)" by (cases h)
  obtain b s1 where s1: "ids_record d now s = (b, s1)" by (cases "ids_record d now s")
  obtain tr1 where "rec_run ids_record hs s1 = (tr1, s')"
    using Cons.prems(1) h s1 by (auto split: prod.splits)
  then show ?case
    using Cons.IH ids_record_spec[OF Cons.prems(2) s1] by metis
qed

section \<open>Properties\<close>

definition demo_hit :: "string \<Rightarrow> string \<Rightarrow> detection" where
  "demo_hit ip severity = \<lparr>de_rule_id = ''SQLI-001'', de_severity = severity, de_engine = ''signature'',
     de_source_ip = ip, de_path = ''/'', de_method = ''GET'', de_evidence_sha256 = '''', de_mitre_technique = None\<rparr>"

text \<open>The in-memory blocklist bans exactly who it says: after any run of hits from any sources in clock order, an
  address is reported as blocked if and only if one of its hits was answered with a new ban less than the block
  time ago; and sources, scores per source and the history stay within their bounds, however many addresses
  an attacker rotates through.\<close>

theorem ids_blocks_exactly:
  assumes "ids_init threshold secs history max_sources = Some s0" and "rec_run ids_record hits s0 = (trace, s)"
    and "sorted (map snd hits)" and "list_all (\<lambda>h. snd h \<le> now) hits"
  shows "(fst (fst (ids_is_blocked ip now s)) \<longleftrightarrow>
      (\<exists>d t0. (d, t0, True) \<in> set trace \<and> de_source_ip d = ip \<and> now < t0 + of_int secs)) \<and>
    int (length (is_scores s)) \<le> max_sources \<and> int (length (is_detections s)) \<le> history \<and>
    (\<forall>b\<in>set (dict_values (is_scores s)). int (length b) \<le> threshold)"
proof -
  note i0 = ids_init_inv[OF assms(1)]
  have inv: "ids_inv s" "ids_config s = (nat threshold, of_int secs, nat history, nat max_sources)"
    using ids_run_inv[OF assms(2) i0(1)] i0(4) by simp_all
  have "(\<exists>e. dict_get (is_bans s) ip = Some e \<and> now < e) \<longleftrightarrow>
      (\<exists>d t0. (d, t0, True) \<in> set trace \<and> de_source_ip d = ip \<and> now < t0 + of_int secs)"
  proof (rule mem_bans.bans_exact[OF assms(2) _ i0(3) assms(3)])
    show "ids_inv s0 \<and> is_block_seconds s0 = of_int secs" using i0 by simp
    show "t \<le> now" if "(d, t) \<in> set hits" for d t
      using assms(4) that by (force simp: list_all_iff)
  qed
  moreover have "0 < threshold" "0 < history" "0 < max_sources"
    using assms(1) by (auto simp: ids_init_def split: if_splits)
  ultimately show ?thesis
    using inv ids_is_blocked_iff[OF inv(1)] by (auto simp: ids_inv_def ids_config_def)
qed

theorem ids_blocks_exactly_witness:
  "\<exists>s0 trace s. ids_init 5 900 10 2 = Some s0 \<and>
     rec_run ids_record [(demo_hit ''a'' ''high'', 1), (demo_hit ''a'' ''high'', 2)] s0 = (trace, s) \<and>
     fst (fst (ids_is_blocked ''a'' 3 s)) = (\<exists>d t0. (d, t0, True) \<in> set trace \<and> de_source_ip d = ''a'' \<and> 3 < t0 + 900)"
proof -
  obtain s0 where i: "ids_init 5 900 10 2 = Some s0"
    by (simp add: ids_init_def)
  obtain trace s where r: "rec_run ids_record [(demo_hit ''a'' ''high'', 1), (demo_hit ''a'' ''high'', 2)] s0 = (trace, s)"
    by fastforce
  show ?thesis
    using ids_blocks_exactly[OF i r, of 3 "''a''"] i r by auto
qed

end
