(* ===== verification/Ids_Store.thy ===== *)
theory Ids_Store
  imports Ids_State "HOL-Library.Product_Lexorder"
begin

text \<open>
  \<^verbatim>\<open>PersistentIntrusionState\<close> of \<^verbatim>\<open>src/app/ids.py\<close>: detections, scores and bans in the database, shared by
  all workers.

  The two tables are part of the state record; a transaction under the advisory lock (or SQLite's writer lock) is
  one step, and the database clock is an argument. The state is a second provider of the ban-list contract.
\<close>

record source_row =
  sr_score_times :: "time list"
  sr_last_seen_at :: time
  sr_blocked_until :: "time option"

record ids_store =
  st_block_threshold :: nat
  st_block_seconds :: time
  st_history :: nat
  st_max_sources :: nat
  st_detections :: "(nat \<times> detection) list"
  st_next_id :: nat
  st_sources :: "(string, source_row) pydict"

definition store_init :: "int \<Rightarrow> int \<Rightarrow> int \<Rightarrow> int \<Rightarrow> ids_store option" where
  "store_init block_threshold block_seconds history max_sources =
     (if min (min block_threshold block_seconds) (min history max_sources) \<le> 0 then None
      else Some \<lparr>st_block_threshold = nat block_threshold, st_block_seconds = of_int block_seconds,
                 st_history = nat history, st_max_sources = nat max_sources, st_detections = [],
                 st_next_id = 1, st_sources = []\<rparr>)"

definition prunable :: "time \<Rightarrow> time \<Rightarrow> source_row \<Rightarrow> bool" where
  "prunable secs now r \<longleftrightarrow>
     (case sr_blocked_until r of
        Some e \<Rightarrow> e \<le> now
      | None \<Rightarrow> sr_last_seen_at r \<le> now - secs)"

definition prune_sources :: "time \<Rightarrow> ids_store \<Rightarrow> ids_store" where
  "prune_sources now s =
     s\<lparr>st_sources := filter (\<lambda>(ip, r). \<not> prunable (st_block_seconds s) now r) (st_sources s)\<rparr>"

text \<open>Insert with the next id, then delete everything older than the id at offset \<^verbatim>\<open>history - 1\<close>.\<close>

definition retain_detection :: "detection \<Rightarrow> ids_store \<Rightarrow> ids_store" where
  "retain_detection d s =
     (let rows = st_detections s @ [(st_next_id s, d)];
          desc = rev (map fst rows);
          rows = (if st_history s - 1 < length desc
                  then filter (\<lambda>(i, _). \<not> i < desc ! (st_history s - 1)) rows else rows)
      in s\<lparr>st_detections := rows, st_next_id := st_next_id s + 1\<rparr>)"

definition oldest_source :: "ids_store \<Rightarrow> string option" where
  "oldest_source s =
     (case sort_key (\<lambda>(ip, r). (sr_last_seen_at r, ip)) (filter (\<lambda>(ip, r). sr_blocked_until r = None) (st_sources s)) of
        [] \<Rightarrow> None
      | (ip, _) # _ \<Rightarrow> Some ip)"

definition score_source :: "string \<Rightarrow> nat \<Rightarrow> time \<Rightarrow> source_row \<Rightarrow> ids_store \<Rightarrow> bool \<times> ids_store" where
  "score_source ip weight now r s =
     (let cutoff = now - st_block_seconds s;
          scores = filter (\<lambda>stamp. cutoff < stamp) (sr_score_times r) @ replicate weight now;
          scores = drop (length scores - st_block_threshold s) scores;
          r = r\<lparr>sr_score_times := scores, sr_last_seen_at := now\<rparr>
      in if length scores \<ge> st_block_threshold s \<and> sr_blocked_until r = None
         then (True, s\<lparr>st_sources := dict_set ip (r\<lparr>sr_blocked_until := Some (now + st_block_seconds s)\<rparr>) (st_sources s)\<rparr>)
         else (False, s\<lparr>st_sources := dict_set ip r (st_sources s)\<rparr>))"

definition record_locked :: "detection \<Rightarrow> time \<Rightarrow> ids_store \<Rightarrow> bool \<times> ids_store" where
  "record_locked d now s =
     (let s = retain_detection d s;
          ip = de_source_ip d;
          weight = severity_weight (de_severity d);
          fresh = \<lparr>sr_score_times = [], sr_last_seen_at = now, sr_blocked_until = None\<rparr>
      in case dict_get (st_sources s) ip of
           Some r \<Rightarrow> score_source ip weight now r s
         | None \<Rightarrow>
             if length (st_sources s) \<ge> st_max_sources s
             then (case oldest_source s of
                     None \<Rightarrow> (False, s)
                   | Some old \<Rightarrow>
                       score_source ip weight now fresh (s\<lparr>st_sources := dict_pop old (st_sources s)\<rparr>))
             else score_source ip weight now fresh s)"

fun record_each :: "detection list \<Rightarrow> time \<Rightarrow> ids_store \<Rightarrow> bool \<times> ids_store" where
  "record_each [] now s = (False, s)"
| "record_each (d # ds) now s =
     (let (b, s) = record_locked d now s; (b', s) = record_each ds now s in (b \<or> b', s))"

definition record_many :: "detection list \<Rightarrow> time \<Rightarrow> ids_store \<Rightarrow> bool \<times> ids_store" where
  "record_many ds now s = (if ds = [] then (False, s) else record_each ds now (prune_sources now s))"

definition store_record :: "detection \<Rightarrow> time \<Rightarrow> ids_store \<Rightarrow> bool \<times> ids_store" where
  "store_record d now s = record_many [d] now s"

definition store_is_blocked :: "string \<Rightarrow> time \<Rightarrow> ids_store \<Rightarrow> bool \<times> int" where
  "store_is_blocked ip now s =
     (case dict_get (st_sources s) ip of
        None \<Rightarrow> (False, 0)
      | Some r \<Rightarrow>
          (case sr_blocked_until r of
             None \<Rightarrow> (False, 0)
           | Some e \<Rightarrow> if now < e then (True, max 1 \<lfloor>e - now\<rfloor>) else (False, 0)))"

definition store_unblock :: "string \<Rightarrow> time \<Rightarrow> ids_store \<Rightarrow> bool \<times> ids_store" where
  "store_unblock ip now s =
     (case dict_get (st_sources s) ip of
        None \<Rightarrow> (False, s)
      | Some r \<Rightarrow>
          ((case sr_blocked_until r of None \<Rightarrow> False | Some e \<Rightarrow> now < e),
           s\<lparr>st_sources := dict_pop ip (st_sources s)\<rparr>))"

definition store_blocked_sources :: "time \<Rightarrow> ids_store \<Rightarrow> (string \<times> int) list" where
  "store_blocked_sources now s =
     map (\<lambda>(ip, r). (ip, max 1 \<lfloor>the (sr_blocked_until r) - now\<rfloor>))
       (sort_key fst (filter (\<lambda>(ip, r). case sr_blocked_until r of None \<Rightarrow> False | Some e \<Rightarrow> now < e) (st_sources s)))"

definition store_recent :: "int \<Rightarrow> ids_store \<Rightarrow> detection list" where
  "store_recent limit s =
     (if limit \<le> 0 then []
      else take (min (nat limit) (st_history s)) (rev (map snd (st_detections s))))"

section \<open>The invariant\<close>

definition row_ok :: "nat \<Rightarrow> source_row \<Rightarrow> bool" where
  "row_ok threshold r \<longleftrightarrow> length (sr_score_times r) \<le> threshold"

definition store_inv :: "ids_store \<Rightarrow> bool" where
  "store_inv s \<longleftrightarrow>
     0 < st_block_threshold s \<and> 0 < st_block_seconds s \<and> 0 < st_history s \<and> 0 < st_max_sources s \<and>
     dict_ok (st_sources s) \<and> length (st_sources s) \<le> st_max_sources s \<and>
     (\<forall>r\<in>set (dict_values (st_sources s)). row_ok (st_block_threshold s) r) \<and>
     length (st_detections s) \<le> st_history s \<and>
     sorted_wrt (<) (map fst (st_detections s) @ [st_next_id s])"

definition store_config :: "ids_store \<Rightarrow> nat \<times> time \<times> nat \<times> nat" where
  "store_config s = (st_block_threshold s, st_block_seconds s, st_history s, st_max_sources s)"

definition store_ban :: "ids_store \<Rightarrow> string \<Rightarrow> time option" where
  "store_ban s ip = (case dict_get (st_sources s) ip of None \<Rightarrow> None | Some r \<Rightarrow> sr_blocked_until r)"

lemma store_inv_sources:
  assumes "store_inv s" and "dict_ok d" "length d \<le> st_max_sources s"
    and "\<And>r. r \<in> set (dict_values d) \<Longrightarrow> row_ok (st_block_threshold s) r"
  shows "store_inv (s\<lparr>st_sources := d\<rparr>)"
  using assms by (simp add: store_inv_def)

text \<open>In a table with increasing ids, dropping everything below the id at an offset from the end keeps the newest rows.\<close>

lemma filter_from_id:
  fixes f :: "'b \<Rightarrow> 'a::linorder"
  assumes "sorted_wrt (<) (map f xs)" and "k < length xs"
  shows "filter (\<lambda>x. \<not> f x < rev (map f xs) ! k) xs = drop (length xs - Suc k) xs"
proof -
  define j where "j = length xs - Suc k"
  have j: "j < length xs" using assms(2) by (simp add: j_def)
  have n: "rev (map f xs) ! k = f (xs ! j)"
    using assms(2) by (simp add: rev_nth j_def)
  have nth: "f (xs ! a) < f (xs ! b) \<longleftrightarrow> a < b" if "a < length xs" "b < length xs" for a b
    using sorted_wrt_nth_less[OF assms(1), of a b] sorted_wrt_nth_less[OF assms(1), of b a] that
    by (cases a b rule: linorder_cases) auto
  have "filter (\<lambda>x. \<not> f x < f (xs ! j)) (take j xs) = []"
    using j nth by (auto simp: filter_empty_conv in_set_conv_nth)
  moreover have "filter (\<lambda>x. \<not> f x < f (xs ! j)) (drop j xs) = drop j xs"
    using j nth[of _ j] by (auto simp: filter_id_conv in_set_conv_nth)
  ultimately have "filter (\<lambda>x. \<not> f x < f (xs ! j)) (take j xs @ drop j xs) = drop j xs"
    by (simp only: filter_append append_Nil)
  then show ?thesis
    using n by (simp add: j_def)
qed

lemma retain_detection_spec:
  assumes "store_inv s"
  shows "store_inv (retain_detection d s)" "store_config (retain_detection d s) = store_config s"
    "st_sources (retain_detection d s) = st_sources s"
    "map snd (st_detections (retain_detection d s)) = append_maxlen (st_history s) (map snd (st_detections s)) d"
proof -
  define rows where "rows = st_detections s @ [(st_next_id s, d)]"
  have srt: "sorted_wrt (<) (map fst rows)"
    using assms by (simp add: store_inv_def rows_def)
  have h: "0 < st_history s" using assms by (simp add: store_inv_def)
  have "(if st_history s - 1 < length (rev (map fst rows))
         then filter (\<lambda>(i, _). \<not> i < rev (map fst rows) ! (st_history s - 1)) rows else rows) =
        drop (length rows - st_history s) rows"
    using filter_from_id[OF srt, of "st_history s - 1"] h by (simp add: case_prod_unfold)
  then have r: "retain_detection d s =
      s\<lparr>st_detections := drop (length rows - st_history s) rows, st_next_id := st_next_id s + 1\<rparr>"
    unfolding retain_detection_def Let_def rows_def[symmetric] by simp
  have "sorted_wrt (<) (map fst rows @ [Suc (st_next_id s)])"
    using assms by (auto simp: store_inv_def rows_def sorted_wrt_append)
  then have "sorted_wrt (<) (map fst (drop (length rows - st_history s) rows) @ [Suc (st_next_id s)])"
    using sorted_wrt_drop[of "(<)" "map fst rows" "length rows - st_history s"]
    by (auto simp: sorted_wrt_append drop_map dest: in_set_dropD)
  then show "store_inv (retain_detection d s)"
    using assms r by (simp add: store_inv_def)
  show "store_config (retain_detection d s) = store_config s" "st_sources (retain_detection d s) = st_sources s"
    using r by (simp_all add: store_config_def)
  show "map snd (st_detections (retain_detection d s)) = append_maxlen (st_history s) (map snd (st_detections s)) d"
    using r h by (simp add: append_maxlen_def rows_def Let_def drop_map)
qed

lemma score_source_spec:
  assumes inv: "store_inv s"
    and room: "dict_get (st_sources s) ip \<noteq> None \<or> length (st_sources s) < st_max_sources s"
    and step: "score_source ip w now r s = (b, s')"
  shows "store_inv s' \<and> store_config s' = store_config s \<and>
    (b \<longleftrightarrow> sr_blocked_until r = None \<and>
       st_block_threshold s \<le> length (filter (\<lambda>t. now - st_block_seconds s < t) (sr_score_times r)) + w) \<and>
    (\<forall>k. store_ban s' k = (if k = ip then (if b then Some (now + st_block_seconds s) else sr_blocked_until r) else store_ban s k))"
proof -
  define sc where "sc = filter (\<lambda>t. now - st_block_seconds s < t) (sr_score_times r) @ replicate w now"
  define sd where "sd = drop (length sc - st_block_threshold s) sc"
  define r1 where "r1 = r\<lparr>sr_score_times := sd, sr_last_seen_at := now\<rparr>"
  have len: "length sd = min (st_block_threshold s) (length sc)"
    by (simp add: sd_def)
  have ok: "row_ok (st_block_threshold s) r1" "row_ok (st_block_threshold s) (r1\<lparr>sr_blocked_until := x\<rparr>)" for x
    using len by (simp_all add: row_ok_def r1_def)
  have inv': "store_inv (s\<lparr>st_sources := dict_set ip r2 (st_sources s)\<rparr>)" if "row_ok (st_block_threshold s) r2" for r2
  proof (rule store_inv_sources[OF inv])
    show "dict_ok (dict_set ip r2 (st_sources s))"
      using inv by (simp add: store_inv_def)
    show "length (dict_set ip r2 (st_sources s)) \<le> st_max_sources s"
      using room inv length_dict_set_has[of "st_sources s" ip r2] length_dict_set_le[of ip r2 "st_sources s"]
      by (auto simp: store_inv_def)
    show "row_ok (st_block_threshold s) r3" if "r3 \<in> set (dict_values (dict_set ip r2 (st_sources s)))" for r3
      using that values_dict_set[of ip r2 "st_sources s"] inv \<open>row_ok (st_block_threshold s) r2\<close>
      by (auto simp: store_inv_def)
  qed
  have "(b, s') = (if st_block_threshold s \<le> length sd \<and> sr_blocked_until r = None
      then (True, s\<lparr>st_sources := dict_set ip (r1\<lparr>sr_blocked_until := Some (now + st_block_seconds s)\<rparr>) (st_sources s)\<rparr>)
      else (False, s\<lparr>st_sources := dict_set ip r1 (st_sources s)\<rparr>))"
    unfolding step[symmetric] score_source_def Let_def sc_def[symmetric] sd_def[symmetric] r1_def[symmetric]
    by (simp add: r1_def)
  then show ?thesis
    using inv'[OF ok(1)] inv'[OF ok(2)] len
    by (auto simp: store_config_def store_ban_def r1_def sc_def split: if_splits)
qed

lemma oldest_sourceD:
  assumes "store_inv s" and "oldest_source s = Some old"
  shows "dict_get (st_sources s) old \<noteq> None" "store_ban s old = None"
proof -
  let ?xs = "filter (\<lambda>(ip, r). sr_blocked_until r = None) (st_sources s)"
  obtain r rest where e: "sort_key (\<lambda>(ip, r). (sr_last_seen_at r, ip)) ?xs = (old, r) # rest"
    using assms(2) by (auto simp: oldest_source_def split: list.splits)
  have "(old, r) \<in> set ?xs"
    using e by (metis list.set_intros(1) set_sort)
  then have "dict_get (st_sources s) old = Some r" "sr_blocked_until r = None"
    using assms(1) by (simp_all add: store_inv_def dict_get_mem)
  then show "dict_get (st_sources s) old \<noteq> None" "store_ban s old = None"
    by (simp_all add: store_ban_def)
qed

lemma prune_sources_spec:
  assumes "store_inv s"
  shows "store_inv (prune_sources now s)" "store_config (prune_sources now s) = store_config s"
    "dict_get (st_sources (prune_sources now s)) ip =
       (case dict_get (st_sources s) ip of None \<Rightarrow> None | Some r \<Rightarrow> if prunable (st_block_seconds s) now r then None else Some r)"
    "st_detections (prune_sources now s) = st_detections s"
proof -
  have ok: "dict_ok (st_sources s)" using assms by (simp add: store_inv_def)
  show "dict_get (st_sources (prune_sources now s)) ip =
       (case dict_get (st_sources s) ip of None \<Rightarrow> None | Some r \<Rightarrow> if prunable (st_block_seconds s) now r then None else Some r)"
    using dict_get_filter[OF ok] by (auto simp: prune_sources_def split: option.splits)
  have "length (filter P (st_sources s)) \<le> st_max_sources s" for P
    using assms order_trans[OF length_filter_le] by (auto simp: store_inv_def)
  then show "store_inv (prune_sources now s)"
    unfolding prune_sources_def using assms ok
    by (intro store_inv_sources) (auto simp: store_inv_def dict_values_def)
  show "store_config (prune_sources now s) = store_config s" "st_detections (prune_sources now s) = st_detections s"
    by (simp_all add: store_config_def prune_sources_def)
qed

text \<open>The score of a source that still counts at a time, after what the pruning forgets.\<close>

definition live_hits :: "ids_store \<Rightarrow> string \<Rightarrow> time \<Rightarrow> nat" where
  "live_hits s ip now =
     (case dict_get (st_sources s) ip of
        None \<Rightarrow> 0
      | Some r \<Rightarrow> if prunable (st_block_seconds s) now r then 0
                  else length (filter (\<lambda>t. now - st_block_seconds s < t) (sr_score_times r)))"

definition live_ban :: "ids_store \<Rightarrow> string \<Rightarrow> time \<Rightarrow> bool" where
  "live_ban s ip now \<longleftrightarrow> (\<exists>e. store_ban s ip = Some e \<and> now < e)"

text \<open>A source gets scored when it has a row, or there is room, or some row without a ban can make room.\<close>

definition has_slot :: "ids_store \<Rightarrow> string \<Rightarrow> time \<Rightarrow> bool" where
  "has_slot s ip now \<longleftrightarrow>
     (let p = prune_sources now s
      in dict_get (st_sources p) ip \<noteq> None \<or> length (st_sources p) < st_max_sources p \<or> oldest_source p \<noteq> None)"

lemma store_ban_prune:
  assumes "store_inv s"
  shows "store_ban (prune_sources now s) ip = Some e \<longleftrightarrow> store_ban s ip = Some e \<and> now < e"
  using prune_sources_spec(3)[OF assms, of now ip]
  by (auto simp: store_ban_def prunable_def split: option.splits if_splits)

lemma oldest_retain: "store_inv s \<Longrightarrow> oldest_source (retain_detection d s) = oldest_source s"
  by (simp add: oldest_source_def retain_detection_spec)

lemma store_record_spec:
  assumes inv: "store_inv s" and step: "store_record d now s = (b, s')"
  defines "ip \<equiv> de_source_ip d"
  shows "store_inv s' \<and> store_config s' = store_config s \<and>
    (b \<longleftrightarrow> \<not> live_ban s ip now \<and> has_slot s ip now \<and>
       st_block_threshold s \<le> live_hits s ip now + severity_weight (de_severity d)) \<and>
    (\<forall>k e. store_ban s k = Some e \<and> now < e \<longrightarrow> store_ban s' k = Some e) \<and>
    (b \<longrightarrow> store_ban s' ip = Some (now + st_block_seconds s)) \<and>
    (\<forall>k e. store_ban s' k = Some e \<longrightarrow>
       store_ban s k = Some e \<or> (b \<and> k = ip \<and> e = now + st_block_seconds s))"
proof -
  define p where "p = prune_sources now s"
  define q where "q = retain_detection d p"
  define w where "w = severity_weight (de_severity d)"
  define fresh where "fresh = \<lparr>sr_score_times = [], sr_last_seen_at = now, sr_blocked_until = None\<rparr>"
  note P = prune_sources_spec[OF inv, of now, folded p_def]
  note Q = retain_detection_spec[OF P(1), of d, folded q_def]
  have src: "st_sources q = st_sources p" "st_block_seconds q = st_block_seconds s" "st_max_sources q = st_max_sources p"
    "st_block_threshold q = st_block_threshold s" "store_config q = store_config s"
    using P Q by (simp_all add: store_config_def)
  have ban_q: "store_ban q k = Some e \<longleftrightarrow> store_ban s k = Some e \<and> now < e" for k e
    using store_ban_prune[OF inv, of now k e] src(1) by (simp add: store_ban_def p_def)
  have step': "(b, s') = (case dict_get (st_sources q) ip of
           Some r \<Rightarrow> score_source ip w now r q
         | None \<Rightarrow>
             if length (st_sources q) \<ge> st_max_sources q
             then (case oldest_source q of
                     None \<Rightarrow> (False, q)
                   | Some old \<Rightarrow> score_source ip w now fresh (q\<lparr>st_sources := dict_pop old (st_sources q)\<rparr>))
             else score_source ip w now fresh q)"
    unfolding step[symmetric]
    by (simp add: store_record_def record_many_def record_locked_def Let_def p_def[symmetric] q_def[symmetric]
        w_def[symmetric] fresh_def[symmetric] ip_def[symmetric] split: prod.split)
  have hs: "has_slot s ip now \<longleftrightarrow> dict_get (st_sources q) ip \<noteq> None \<or> length (st_sources q) < st_max_sources q \<or> oldest_source q \<noteq> None"
    using oldest_retain[OF P(1), of d] src by (simp add: has_slot_def Let_def p_def[symmetric] q_def)
  have hits: "live_hits s ip now = (case dict_get (st_sources q) ip of None \<Rightarrow> 0
      | Some r \<Rightarrow> length (filter (\<lambda>t. now - st_block_seconds s < t) (sr_score_times r)))"
    using P(3)[of ip] src(1) by (auto simp: live_hits_def split: option.splits if_splits)
  have lb: "live_ban s ip now \<longleftrightarrow> store_ban q ip \<noteq> None"
    using ban_q[of ip] by (auto simp: live_ban_def)
  have fin: ?thesis if "store_inv s'" "store_config s' = store_config s"
    "b \<longleftrightarrow> store_ban q ip = None \<and> has_slot s ip now \<and> st_block_threshold s \<le> live_hits s ip now + w"
    "\<And>k. store_ban s' k = (if k = ip \<and> b then Some (now + st_block_seconds s) else store_ban q k)"
  proof -
    have "store_ban s' k = Some e" if "store_ban s k = Some e" "now < e" for k e
    proof -
      have "store_ban q k = Some e" using ban_q that by blast
      then show ?thesis using \<open>b \<longleftrightarrow> _\<close> \<open>\<And>k. store_ban s' k = _\<close>[of k] by auto
    qed
    moreover have "store_ban s k = Some e \<or> (b \<and> k = ip \<and> e = now + st_block_seconds s)" if "store_ban s' k = Some e" for k e
      using that \<open>\<And>k. store_ban s' k = _\<close>[of k] ban_q[of k e] by (auto split: if_splits)
    ultimately show ?thesis
      using that lb by (simp add: w_def)
  qed
  show ?thesis
  proof (cases "dict_get (st_sources q) ip")
    case (Some r)
    have r: "store_ban q ip = sr_blocked_until r" "has_slot s ip now"
      "live_hits s ip now = length (filter (\<lambda>t. now - st_block_seconds s < t) (sr_score_times r))"
      using Some hs hits by (simp_all add: store_ban_def)
    have "store_inv s' \<and> store_config s' = store_config q \<and>
      (b \<longleftrightarrow> sr_blocked_until r = None \<and>
         st_block_threshold q \<le> length (filter (\<lambda>t. now - st_block_seconds q < t) (sr_score_times r)) + w) \<and>
      (\<forall>k. store_ban s' k = (if k = ip then (if b then Some (now + st_block_seconds q) else sr_blocked_until r) else store_ban q k))"
      using score_source_spec[OF Q(1), of ip w now r b s'] step' Some by simp
    then show ?thesis
      using src r by (intro fin) auto
  next
    case None
    then have nb: "store_ban q ip = None" "live_hits s ip now = 0"
      using hits by (simp_all add: store_ban_def)
    have fresh: ?thesis if q1: "store_inv q1" "length (st_sources q1) < st_max_sources q1"
      "store_config q1 = store_config s" "\<And>k. store_ban q1 k = store_ban q k"
      and sc: "score_source ip w now fresh q1 = (b, s')" and slot: "has_slot s ip now" for q1
    proof -
      have "store_inv s' \<and> store_config s' = store_config q1 \<and> (b \<longleftrightarrow> st_block_threshold q1 \<le> w) \<and>
        (\<forall>k. store_ban s' k = (if k = ip then (if b then Some (now + st_block_seconds q1) else None) else store_ban q1 k))"
        using score_source_spec[OF q1(1) _ sc] q1(2) by (simp add: fresh_def)
      then show ?thesis
        using nb q1(3,4) slot by (intro fin) (auto simp: store_config_def)
    qed
    show ?thesis
    proof (cases "length (st_sources q) < st_max_sources q")
      case True
      then show ?thesis
        using step' None hs src(5) Q(1) by (intro fresh[of q]) simp_all
    next
      case full: False
      show ?thesis
      proof (cases "oldest_source q")
        case no: None
        then have "b = False" "s' = q" "\<not> has_slot s ip now"
          using step' None full hs by simp_all
        then show ?thesis
          using src(5) Q(1) by (intro fin) simp_all
      next
        case (Some old)
        note old = oldest_sourceD[OF Q(1) Some]
        show ?thesis
        proof (rule fresh[of "q\<lparr>st_sources := dict_pop old (st_sources q)\<rparr>"])
          show "store_inv (q\<lparr>st_sources := dict_pop old (st_sources q)\<rparr>)"
            using Q(1) values_dict_pop[of old "st_sources q"] length_dict_pop_le[of old "st_sources q"]
            by (intro store_inv_sources) (auto simp: store_inv_def)
          show "length (st_sources (q\<lparr>st_sources := dict_pop old (st_sources q)\<rparr>)) <
              st_max_sources (q\<lparr>st_sources := dict_pop old (st_sources q)\<rparr>)"
            using Q(1) length_dict_pop_has[OF old(1)] by (auto simp: store_inv_def)
          show "store_ban (q\<lparr>st_sources := dict_pop old (st_sources q)\<rparr>) k = store_ban q k" for k
            using old(2) by (simp add: store_ban_def)
        qed (use step' None full Some hs src(5) in \<open>simp_all add: store_config_def\<close>)
      qed
    qed
  qed
qed

interpretation db_bans: ban_list store_record store_ban de_source_ip
    "\<lambda>s. store_inv s \<and> st_block_seconds s = secs" secs for secs
proof (unfold_locales, goal_cases)
  case (1 s d now)
  then show ?case
    using store_record_spec[of s d now] by (cases "store_record d now s") (auto simp: store_config_def)
next
  case (2 s ip e now d)
  then show ?case
    using store_record_spec[of s d now] by (cases "store_record d now s") auto
next
  case (3 s d now)
  then show ?case
    using store_record_spec[of s d now] by (cases "store_record d now s") auto
next
  case (4 s d now ip e)
  then show ?case
    using store_record_spec[of s d now] by (cases "store_record d now s") auto
qed

lemma store_init_inv:
  assumes "store_init th secs hist mx = Some s"
  shows "store_inv s" "st_block_seconds s = of_int secs" "store_ban s ip = None"
    "store_config s = (nat th, of_int secs, nat hist, nat mx)"
  using assms by (auto simp: store_init_def store_inv_def store_config_def store_ban_def dict_values_def split: if_splits)

lemma store_is_blocked_iff: "fst (store_is_blocked ip now s) \<longleftrightarrow> live_ban s ip now"
  by (auto simp: store_is_blocked_def live_ban_def store_ban_def split: option.splits)

lemma store_run_inv:
  assumes "rec_run store_record hs s = (tr, s')" and "store_inv s"
  shows "store_inv s' \<and> store_config s' = store_config s"
  using assms
proof (induction hs arbitrary: s tr)
  case Nil
  then show ?case by simp
next
  case (Cons h hs)
  obtain d now where h: "h = (d, now)" by (cases h)
  obtain b s1 where s1: "store_record d now s = (b, s1)" by (cases "store_record d now s")
  obtain tr1 where "rec_run store_record hs s1 = (tr1, s')"
    using Cons.prems(1) h s1 by (auto split: prod.splits)
  then show ?case
    using Cons.IH store_record_spec[OF Cons.prems(2) s1] by metis
qed

section \<open>Properties\<close>

text \<open>C28: The shared blocklist bans exactly who it says: after any run of hits from any sources in the order of the
  database clock, an address is blocked if and only if one of its hits was answered with a new ban less than the
  block time ago, so a flood of rotating addresses never frees a banned one; and the tables stay bounded.\<close>

theorem store_blocks_exactly:
  assumes "store_init threshold secs history max_sources = Some s0" and "rec_run store_record hits s0 = (trace, s)"
    and "sorted (map snd hits)" and "list_all (\<lambda>h. snd h \<le> now) hits"
  shows "(fst (store_is_blocked ip now s) \<longleftrightarrow>
      (\<exists>d t0. (d, t0, True) \<in> set trace \<and> de_source_ip d = ip \<and> now < t0 + of_int secs)) \<and>
    int (length (st_sources s)) \<le> max_sources \<and> int (length (st_detections s)) \<le> history"
proof -
  note i0 = store_init_inv[OF assms(1)]
  have inv: "store_inv s" "store_config s = (nat threshold, of_int secs, nat history, nat max_sources)"
    using store_run_inv[OF assms(2) i0(1)] i0(4) by simp_all
  have "(\<exists>e. store_ban s ip = Some e \<and> now < e) \<longleftrightarrow>
      (\<exists>d t0. (d, t0, True) \<in> set trace \<and> de_source_ip d = ip \<and> now < t0 + of_int secs)"
  proof (rule db_bans.bans_exact[OF assms(2) _ i0(3) assms(3)])
    show "store_inv s0 \<and> st_block_seconds s0 = of_int secs" using i0 by simp
    show "t \<le> now" if "(d, t) \<in> set hits" for d t
      using assms(4) that by (force simp: list_all_iff)
  qed
  moreover have "0 < history" "0 < max_sources"
    using assms(1) by (auto simp: store_init_def split: if_splits)
  ultimately show ?thesis
    using inv by (auto simp: store_is_blocked_iff live_ban_def store_inv_def store_config_def)
qed

theorem store_blocks_exactly_witness:
  "\<exists>s0 trace s. store_init 5 900 10 2 = Some s0 \<and>
     rec_run store_record [(demo_hit ''a'' ''high'', 1), (demo_hit ''a'' ''high'', 2)] s0 = (trace, s) \<and>
     fst (store_is_blocked ''a'' 3 s) = (\<exists>d t0. (d, t0, True) \<in> set trace \<and> de_source_ip d = ''a'' \<and> 3 < t0 + 900)"
proof -
  obtain s0 where i: "store_init 5 900 10 2 = Some s0"
    by (simp add: store_init_def)
  obtain trace s where r: "rec_run store_record [(demo_hit ''a'' ''high'', 1), (demo_hit ''a'' ''high'', 2)] s0 = (trace, s)"
    by fastforce
  show ?thesis
    using store_blocks_exactly[OF i r, of 3 "''a''"] i r by auto
qed

text \<open>A hit bans its source exactly when the source is not already banned, can be tracked, and the weight of this hit
  together with its unexpired score in the block window reaches the threshold. A served ban or an idle window
  leaves a score of zero, so an address is not banned again for its old hits.\<close>

theorem store_record_threshold:
  assumes "store_inv s"
  shows "fst (store_record d now s) \<longleftrightarrow>
    \<not> live_ban s (de_source_ip d) now \<and> has_slot s (de_source_ip d) now \<and>
    st_block_threshold s \<le> live_hits s (de_source_ip d) now + severity_weight (de_severity d)"
  using store_record_spec[OF assms, of d now] by (cases "store_record d now s") simp

theorem store_record_threshold_witness:
  "store_inv (the (store_init 3 900 10 2)) \<and> fst (store_record (demo_hit ''a'' ''high'') 1 (the (store_init 3 900 10 2)))"
proof -
  obtain s0 where i: "store_init 3 900 10 2 = Some s0" by (simp add: store_init_def)
  have "has_slot s0 ''a'' 1" "\<not> live_ban s0 ''a'' 1" "st_block_threshold s0 = 3"
    using i by (auto simp: store_init_def has_slot_def prune_sources_def Let_def live_ban_def store_ban_def)
  moreover have "severity_weight ''high'' = 3"
    by (simp add: severity_weight_def dict_get_or_def dict_get_Cons)
  ultimately show ?thesis
    using store_record_threshold[OF store_init_inv(1)[OF i], of "demo_hit ''a'' ''high''" 1] store_init_inv(1)[OF i] i
    by (simp add: demo_hit_def)
qed

end
