(* ===== verification/Ids_Anomaly.thy ===== *)
theory Ids_Anomaly
  imports Pystr "HOL-Library.Product_Lexorder"
begin

text \<open>
  The anomaly engine of \<^verbatim>\<open>src/app/ids.py\<close>: rules over the recent audit events.

  An event is the projection of an audit row to the columns the queries read; NULL is \<open>None\<close> and a comparison with
  NULL selects nothing. A grouped query returns its groups in order of first occurrence unless it sorts.
  \<^verbatim>\<open>count(distinct c)\<close> ignores NULL. The texts of the findings are not modelled.
\<close>

record aev =
  av_id :: int
  av_event_type :: string
  av_outcome :: string
  av_actor_id :: "string option"
  av_ip_address :: "string option"
  av_created_at :: time

record anomaly =
  an_code :: string
  an_severity :: string
  an_count :: nat
  an_window_minutes :: int
  an_subject :: "string option"
  an_mitre_technique :: "string option"
  an_source_count :: "nat option"
  an_evidence_event_id :: "int option"

datatype anomaly_error = An_Window | An_Thresholds | An_Sources

definition MAX_CORRELATION_FINDINGS :: nat where
  "MAX_CORRELATION_FINDINGS = 100"

definition group_rows :: "('a \<Rightarrow> 'k) \<Rightarrow> 'a list \<Rightarrow> ('k \<times> 'a list) list" where
  "group_rows f xs = map (\<lambda>k. (k, filter (\<lambda>x. f x = k) xs)) (remdups (map f xs))"

definition count_distinct :: "('a \<Rightarrow> 'v option) \<Rightarrow> 'a list \<Rightarrow> nat" where
  "count_distinct f xs = length (remdups (concat (map (\<lambda>x. case f x of None \<Rightarrow> [] | Some v \<Rightarrow> [v]) xs)))"

definition valid_source :: "aev \<Rightarrow> bool" where
  "valid_source e = (case av_ip_address e of None \<Rightarrow> False | Some ip \<Rightarrow> ip \<noteq> '''' \<and> ip \<noteq> ''unknown'')"

definition known_actor :: "aev \<Rightarrow> bool" where
  "known_actor e = (case av_actor_id e of None \<Rightarrow> False | Some a \<Rightarrow> a \<noteq> '''')"

definition in_time_window :: "time \<Rightarrow> time \<Rightarrow> aev \<Rightarrow> bool" where
  "in_time_window cutoff now e \<longleftrightarrow> cutoff \<le> av_created_at e \<and> av_created_at e \<le> now"

section \<open>Authentication correlations\<close>

definition actor_name :: "aev \<Rightarrow> string" where
  "actor_name e = (case av_actor_id e of None \<Rightarrow> '''' | Some a \<Rightarrow> a)"

definition distributed_findings ::
    "time \<Rightarrow> time \<Rightarrow> int \<Rightarrow> nat \<Rightarrow> nat \<Rightarrow> aev list \<Rightarrow> anomaly list" where
  "distributed_findings cutoff now window_minutes failure_threshold source_threshold events =
     (let rows = filter (\<lambda>e. av_event_type e = ''auth.login'' \<and>
                             av_outcome e \<in> {''failure'', ''blocked'', ''denied''} \<and>
                             known_actor e \<and> valid_source e \<and> in_time_window cutoff now e) events;
          groups = filter (\<lambda>(a, g). length g \<ge> failure_threshold \<and> count_distinct av_ip_address g \<ge> source_threshold)
                     (group_rows actor_name rows);
          groups = take MAX_CORRELATION_FINDINGS (sort_key (\<lambda>(a, g). (- int (length g), a)) groups)
      in map (\<lambda>(a, g).
           \<lparr>an_code = ''IDS-DISTRIBUTED-BRUTEFORCE'', an_severity = ''high'', an_count = length g,
            an_window_minutes = window_minutes, an_subject = Some a, an_mitre_technique = Some ''T1110.001'',
            an_source_count = Some (count_distinct av_ip_address g),
            an_evidence_event_id = Some (Max (set (map av_id g)))\<rparr>) groups)"

definition auth_rows :: "time \<Rightarrow> time \<Rightarrow> aev list \<Rightarrow> aev list" where
  "auth_rows cutoff now events =
     filter (\<lambda>e. av_event_type e \<in> {''auth.login'', ''auth.mfa.verify''} \<and>
                 av_outcome e \<in> {''success'', ''failure'', ''blocked'', ''denied''} \<and>
                 known_actor e \<and> in_time_window cutoff now e) events"

definition succeeded :: "aev \<Rightarrow> bool" where
  "succeeded e \<longleftrightarrow> av_outcome e = ''success''"

definition chrono :: "aev \<Rightarrow> time \<times> int" where
  "chrono e = (av_created_at e, av_id e)"

text \<open>The window sum: successes of the same actor strictly before the row.\<close>

definition episode :: "aev list \<Rightarrow> aev \<Rightarrow> nat" where
  "episode rows e =
     length (filter (\<lambda>f. actor_name f = actor_name e \<and> chrono f < chrono e \<and> succeeded f) rows)"

record auth_episode =
  ep_actor :: string
  ep_failures :: nat
  ep_sources :: nat
  ep_success_id :: int
  ep_success_at :: time

definition episodes :: "nat \<Rightarrow> aev list \<Rightarrow> auth_episode list" where
  "episodes failure_threshold rows =
     concat (map (\<lambda>((a, k), g).
       let failed = filter (\<lambda>e. \<not> succeeded e) g; ok = filter succeeded g
       in if length failed \<ge> failure_threshold \<and> ok \<noteq> []
          then [\<lparr>ep_actor = a, ep_failures = length failed,
                 ep_sources = count_distinct av_ip_address (filter valid_source failed),
                 ep_success_id = Max (set (map av_id ok)), ep_success_at = Max (set (map av_created_at ok))\<rparr>]
          else [])
       (group_rows (\<lambda>e. (actor_name e, episode rows e)) rows))"

text \<open>\<^verbatim>\<open>row_number() = 1\<close>: the latest episode of each actor.\<close>

definition latest_episodes :: "auth_episode list \<Rightarrow> auth_episode list" where
  "latest_episodes eps =
     map (\<lambda>(a, g). hd (sort_key (\<lambda>p. (- ep_success_at p, - ep_success_id p)) g)) (group_rows ep_actor eps)"

definition sequence_findings :: "time \<Rightarrow> time \<Rightarrow> int \<Rightarrow> nat \<Rightarrow> aev list \<Rightarrow> anomaly list" where
  "sequence_findings cutoff now window_minutes failure_threshold events =
     map (\<lambda>p.
       \<lparr>an_code = ''IDS-AUTH-SUCCESS-AFTER-FAILURES'', an_severity = ''high'', an_count = ep_failures p,
        an_window_minutes = window_minutes, an_subject = Some (ep_actor p), an_mitre_technique = Some ''T1110'',
        an_source_count = Some (ep_sources p), an_evidence_event_id = Some (ep_success_id p)\<rparr>)
     (take MAX_CORRELATION_FINDINGS
       (sort_key (\<lambda>p. (- ep_success_at p, - ep_success_id p, ep_actor p))
         (latest_episodes (episodes failure_threshold (auth_rows cutoff now events)))))"

definition authentication_correlations ::
    "time \<Rightarrow> time \<Rightarrow> int \<Rightarrow> nat \<Rightarrow> nat \<Rightarrow> aev list \<Rightarrow> anomaly list" where
  "authentication_correlations cutoff now window_minutes failure_threshold source_threshold events =
     distributed_findings cutoff now window_minutes failure_threshold source_threshold events @
     sequence_findings cutoff now window_minutes failure_threshold events"

section \<open>The rules\<close>

definition plain_anomaly :: "string \<Rightarrow> string \<Rightarrow> nat \<Rightarrow> int \<Rightarrow> string option \<Rightarrow> anomaly" where
  "plain_anomaly rule severity count window_minutes subject =
     \<lparr>an_code = rule, an_severity = severity, an_count = count, an_window_minutes = window_minutes,
      an_subject = subject, an_mitre_technique = None, an_source_count = None, an_evidence_event_id = None\<rparr>"

definition failed_login :: "time \<Rightarrow> aev \<Rightarrow> bool" where
  "failed_login cutoff e \<longleftrightarrow>
     av_event_type e = ''auth.login'' \<and> av_outcome e \<noteq> ''success'' \<and> cutoff \<le> av_created_at e"

definition brute_force_findings :: "time \<Rightarrow> int \<Rightarrow> nat \<Rightarrow> aev list \<Rightarrow> anomaly list" where
  "brute_force_findings cutoff w threshold events =
     map (\<lambda>(ip, g). plain_anomaly ''IDS-BRUTEFORCE''
            (if length g \<ge> threshold * 2 then ''high'' else ''medium'') (length g) w ip)
       (filter (\<lambda>(ip, g). length g \<ge> threshold) (group_rows av_ip_address (filter (failed_login cutoff) events)))"

definition spray_findings :: "time \<Rightarrow> int \<Rightarrow> nat \<Rightarrow> aev list \<Rightarrow> anomaly list" where
  "spray_findings cutoff w threshold events =
     map (\<lambda>(ip, g). plain_anomaly ''IDS-CREDENTIAL-SPRAY'' ''high'' (count_distinct av_actor_id g) w ip)
       (filter (\<lambda>(ip, g). count_distinct av_actor_id g \<ge> threshold)
         (group_rows av_ip_address (filter (\<lambda>e. failed_login cutoff e \<and> av_actor_id e \<noteq> None) events)))"

definition idor_findings :: "time \<Rightarrow> int \<Rightarrow> nat \<Rightarrow> aev list \<Rightarrow> anomaly list" where
  "idor_findings cutoff w threshold events =
     map (\<lambda>(a, g). plain_anomaly ''IDS-IDOR-PROBE'' ''high'' (length g) w a)
       (filter (\<lambda>(a, g). length g \<ge> threshold)
         (group_rows av_actor_id
           (filter (\<lambda>e. av_event_type e = ''authorization.denied'' \<and> cutoff \<le> av_created_at e) events)))"

definition mfa_findings :: "time \<Rightarrow> int \<Rightarrow> nat \<Rightarrow> aev list \<Rightarrow> anomaly list" where
  "mfa_findings cutoff w threshold events =
     (let n = length (filter (\<lambda>e. av_event_type e = ''auth.mfa.verify'' \<and> av_outcome e \<noteq> ''success'' \<and>
                                   cutoff \<le> av_created_at e) events)
      in if n \<ge> threshold then [plain_anomaly ''IDS-MFA-BRUTEFORCE'' ''high'' n w None] else [])"

definition pattern_findings :: "time \<Rightarrow> int \<Rightarrow> aev list \<Rightarrow> anomaly list" where
  "pattern_findings cutoff w events =
     map (\<lambda>(ip, g). plain_anomaly ''IDS-ATTACK-PATTERN'' ''high'' (length g) w ip)
       (group_rows av_ip_address
         (filter (\<lambda>e. av_event_type e = ''ids.signature'' \<and> cutoff \<le> av_created_at e) events))"

definition detect_anomalies ::
    "int \<Rightarrow> int \<Rightarrow> int \<Rightarrow> int \<Rightarrow> int \<Rightarrow> time \<Rightarrow> aev list \<Rightarrow> anomaly_error + anomaly list" where
  "detect_anomalies window_minutes brute_force_threshold spray_account_threshold idor_threshold
     distributed_source_threshold now events =
     (if \<not> (1 \<le> window_minutes \<and> window_minutes \<le> 1440) then Inl An_Window
      else if min (min brute_force_threshold spray_account_threshold) idor_threshold < 1 then Inl An_Thresholds
      else if distributed_source_threshold < 2 then Inl An_Sources
      else
        let cutoff = now - of_int window_minutes * 60;
            brute = nat brute_force_threshold
        in Inr (brute_force_findings cutoff window_minutes brute events @
                spray_findings cutoff window_minutes (nat spray_account_threshold) events @
                idor_findings cutoff window_minutes (nat idor_threshold) events @
                mfa_findings cutoff window_minutes brute events @
                pattern_findings cutoff window_minutes events @
                authentication_correlations cutoff now window_minutes brute (nat distributed_source_threshold) events))"

section \<open>Reference: scanning one account in time order\<close>

text \<open>Walk the events of one account, counting failures since the last success; each success closes a run.\<close>

fun runs :: "nat \<Rightarrow> aev list \<Rightarrow> (nat \<times> aev) list" where
  "runs n [] = []"
| "runs n (e # es) = (if succeeded e then (n, e) # runs 0 es else runs (n + 1) es)"

definition account_events :: "string \<Rightarrow> aev list \<Rightarrow> aev list" where
  "account_events a rows = sort_key chrono (filter (\<lambda>e. actor_name e = a) rows)"

fun numbered :: "nat \<Rightarrow> aev list \<Rightarrow> (nat \<times> aev) list" where
  "numbered k [] = []"
| "numbered k (e # es) = (k, e) # numbered (if succeeded e then k + 1 else k) es"

lemma map_snd_numbered [simp]: "map snd (numbered k es) = es"
  by (induction es arbitrary: k) auto

lemma numbered_ge: "(j, e) \<in> set (numbered k es) \<Longrightarrow> k \<le> j"
  by (induction es arbitrary: k) (auto dest: Suc_leD split: if_splits)

text \<open>The events numbered with the same success count are one run: its failures and the success that closes it.\<close>

definition part :: "nat \<Rightarrow> nat \<Rightarrow> aev list \<Rightarrow> aev list" where
  "part j k es = map snd (filter (\<lambda>p. fst p = j) (numbered k es))"

lemma part_less: "j < k \<Longrightarrow> part j k es = []"
  using numbered_ge[of _ _ k es] by (fastforce simp: part_def filter_empty_conv)

lemma part_Cons:
  "part j k (e # es) = (if j = k then [e] else []) @ part j (if succeeded e then k + 1 else k) es"
  by (simp add: part_def)

lemma part_succeeded:
  "filter succeeded (part (k + i) k es) = (if i < length (runs n es) then [snd (runs n es ! i)] else [])"
proof (induction es arbitrary: k i n)
  case Nil
  then show ?case by (simp add: part_def)
next
  case (Cons e es)
  show ?case
  proof (cases "succeeded e")
    case True
    then show ?thesis
      using Cons.IH[of "Suc k" "i - 1" 0] part_less[of k "Suc k" es] by (cases i) (auto simp: part_Cons)
  next
    case False
    then show ?thesis
      using Cons.IH[of k i "Suc n"] by (auto simp: part_Cons)
  qed
qed

lemma part_failed:
  assumes "i < length (runs n es)"
  shows "length (filter (\<lambda>e. \<not> succeeded e) (part (k + i) k es)) + (if i = 0 then n else 0) = fst (runs n es ! i)"
  using assms
proof (induction es arbitrary: k i n)
  case Nil
  then show ?case by simp
next
  case (Cons e es)
  show ?case
  proof (cases "succeeded e")
    case True
    show ?thesis
    proof (cases i)
      case 0
      then show ?thesis using True part_less[of k "Suc k" es] by (simp add: part_Cons)
    next
      case (Suc j)
      have "length (filter (\<lambda>e. \<not> succeeded e) (part (Suc k + j) (Suc k) es)) + (if j = 0 then 0 else 0) = fst (runs 0 es ! j)"
        using Cons.IH[of j 0 "Suc k"] Cons.prems True Suc by simp
      then show ?thesis using True Suc by (simp add: part_Cons)
    qed
  next
    case False
    have "length (filter (\<lambda>e. \<not> succeeded e) (part (k + i) k es)) + (if i = 0 then n + 1 else 0) = fst (runs (n + 1) es ! i)"
      using Cons.IH[of i "n + 1" k] Cons.prems False by simp
    then show ?thesis using False by (auto simp: part_Cons)
  qed
qed

section \<open>The window query computes the runs\<close>

lemma numbered_episode:
  assumes "sorted_wrt (\<lambda>e f. chrono e < chrono f) es"
  shows "numbered k es = map (\<lambda>e. (k + length (filter (\<lambda>f. chrono f < chrono e \<and> succeeded f) es), e)) es"
  using assms
proof (induction es arbitrary: k)
  case Nil
  then show ?case by simp
next
  case (Cons e es)
  let ?k = "if succeeded e then k + 1 else k"
  have head: "filter (\<lambda>f. chrono f < chrono e \<and> succeeded f) (e # es) = []"
    using Cons.prems by (fastforce simp: filter_empty_conv)
  have "numbered ?k es = map (\<lambda>x. (?k + length (filter (\<lambda>f. chrono f < chrono x \<and> succeeded f) es), x)) es"
    using Cons by simp
  also have "\<dots> = map (\<lambda>x. (k + length (filter (\<lambda>f. chrono f < chrono x \<and> succeeded f) (e # es)), x)) es"
    using Cons.prems by (auto intro!: map_cong)
  finally show ?case
    using head by simp
qed

lemma account_events_sorted:
  assumes "distinct (map av_id rows)"
  shows "sorted_wrt (\<lambda>e f. chrono e < chrono f) (account_events a rows)"
proof -
  let ?xs = "filter (\<lambda>e. actor_name e = a) rows"
  have "inj_on chrono (set ?xs)" "distinct ?xs"
    using assms by (auto simp: chrono_def inj_on_def distinct_map)
  then have "distinct (map chrono (sort_key chrono ?xs))"
    by (simp add: distinct_map)
  then have "sorted_wrt (<) (map chrono (sort_key chrono ?xs))"
    by (simp add: strict_sorted_iff)
  then show ?thesis
    by (simp add: account_events_def sorted_wrt_map)
qed

lemma episode_account:
  assumes "actor_name e = a"
  shows "episode rows e = length (filter (\<lambda>f. chrono f < chrono e \<and> succeeded f) (account_events a rows))"
proof -
  have "filter (\<lambda>f. chrono f < chrono e \<and> succeeded f) (account_events a rows) =
      sort_key chrono (filter (\<lambda>f. actor_name f = a \<and> chrono f < chrono e \<and> succeeded f) rows)"
    by (simp add: account_events_def filter_sort conj_commute)
  then show ?thesis using assms by (simp add: episode_def)
qed

text \<open>A group of the query, sorted, is one part of the account's events.\<close>

lemma group_is_part:
  assumes "distinct (map av_id rows)"
  shows "sort_key chrono (filter (\<lambda>e. (actor_name e, episode rows e) = (a, j)) rows) = part j 0 (account_events a rows)"
proof -
  let ?es = "account_events a rows"
  have actor: "e \<in> set ?es \<Longrightarrow> actor_name e = a" for e
    by (simp add: account_events_def)
  have "part j 0 ?es = filter (\<lambda>e. length (filter (\<lambda>f. chrono f < chrono e \<and> succeeded f) ?es) = j) ?es"
    unfolding part_def numbered_episode[OF account_events_sorted[OF assms]]
    by (simp add: filter_map comp_def map_idI)
  also have "\<dots> = filter (\<lambda>e. episode rows e = j) ?es"
    using episode_account actor by (intro filter_cong) auto
  also have "\<dots> = sort_key chrono (filter (\<lambda>e. (actor_name e, episode rows e) = (a, j)) rows)"
    by (simp add: account_events_def filter_sort conj_commute)
  finally show ?thesis by simp
qed

lemma group_facts:
  fixes a :: string and j :: nat
  assumes "distinct (map av_id rows)"
  defines "g \<equiv> filter (\<lambda>e. (actor_name e, episode rows e) = (a, j)) rows" and "rs \<equiv> runs 0 (account_events a rows)"
  shows "filter succeeded g \<noteq> [] \<longleftrightarrow> j < length rs"
    and "j < length rs \<Longrightarrow> set (filter succeeded g) = {snd (rs ! j)}"
    and "j < length rs \<Longrightarrow> length (filter (\<lambda>e. \<not> succeeded e) g) = fst (rs ! j)"
proof -
  have len: "length (filter P g) = length (filter P (part j 0 (account_events a rows)))"
    and set: "set (filter P g) = set (filter P (part j 0 (account_events a rows)))" for P
  proof -
    have "sort_key chrono g = part j 0 (account_events a rows)"
      unfolding g_def by (rule group_is_part[OF assms(1)])
    then have "filter P (part j 0 (account_events a rows)) = sort_key chrono (filter P g)"
      by (simp flip: filter_sort)
    then show "length (filter P g) = length (filter P (part j 0 (account_events a rows)))"
      "set (filter P g) = set (filter P (part j 0 (account_events a rows)))"
      by simp_all
  qed
  have s: "filter succeeded (part j 0 (account_events a rows)) = (if j < length rs then [snd (rs ! j)] else [])"
    using part_succeeded[of 0 j "account_events a rows" 0] by (simp add: rs_def)
  show "filter succeeded g \<noteq> [] \<longleftrightarrow> j < length rs"
    using len[of succeeded] s by (cases "filter succeeded g") (auto split: if_splits)
  show "j < length rs \<Longrightarrow> set (filter succeeded g) = {snd (rs ! j)}"
    using set[of succeeded] s by simp
  show "j < length rs \<Longrightarrow> length (filter (\<lambda>e. \<not> succeeded e) g) = fst (rs ! j)"
    using len[of "\<lambda>e. \<not> succeeded e"] part_failed[of j 0 "account_events a rows" 0] by (simp add: rs_def)
qed

lemma episodes_mem:
  "p \<in> set (episodes thr rows) \<longleftrightarrow>
   (\<exists>a j. let g = filter (\<lambda>e. (actor_name e, episode rows e) = (a, j)) rows;
              failed = filter (\<lambda>e. \<not> succeeded e) g; ok = filter succeeded g
          in thr \<le> length failed \<and> ok \<noteq> [] \<and>
             p = \<lparr>ep_actor = a, ep_failures = length failed,
                  ep_sources = count_distinct av_ip_address (filter valid_source failed),
                  ep_success_id = Max (set (map av_id ok)), ep_success_at = Max (set (map av_created_at ok))\<rparr>)"
  (is "_ \<longleftrightarrow> (\<exists>a j. ?Q a j)")
proof
  assume "p \<in> set (episodes thr rows)"
  then show "\<exists>a j. ?Q a j"
    by (auto simp: episodes_def group_rows_def Let_def split: if_splits)
next
  assume "\<exists>a j. ?Q a j"
  then obtain a j where q: "?Q a j" by blast
  then obtain e where "e \<in> set rows" "(actor_name e, episode rows e) = (a, j)"
    by (auto simp: Let_def filter_empty_conv)
  then have "(a, j) \<in> set (remdups (map (\<lambda>e. (actor_name e, episode rows e)) rows))"
    by (metis (mono_tags) image_eqI set_map set_remdups)
  then show "p \<in> set (episodes thr rows)"
    using q by (force simp: episodes_def group_rows_def Let_def)
qed

lemma episodes_runs:
  assumes d: "distinct (map av_id rows)"
  shows "p \<in> set (episodes thr rows) \<Longrightarrow>
      \<exists>n s. (n, s) \<in> set (runs 0 (account_events (ep_actor p) rows)) \<and> thr \<le> n \<and> ep_failures p = n \<and> ep_success_id p = av_id s"
    and "(n, s) \<in> set (runs 0 (account_events a rows)) \<Longrightarrow> thr \<le> n \<Longrightarrow> a \<in> ep_actor ` set (episodes thr rows)"
proof -
  assume "p \<in> set (episodes thr rows)"
  then obtain a j where q: "let g = filter (\<lambda>e. (actor_name e, episode rows e) = (a, j)) rows;
              failed = filter (\<lambda>e. \<not> succeeded e) g; ok = filter succeeded g
          in thr \<le> length failed \<and> ok \<noteq> [] \<and>
             p = \<lparr>ep_actor = a, ep_failures = length failed,
                  ep_sources = count_distinct av_ip_address (filter valid_source failed),
                  ep_success_id = Max (set (map av_id ok)), ep_success_at = Max (set (map av_created_at ok))\<rparr>"
    unfolding episodes_mem by blast
  let ?rs = "runs 0 (account_events a rows)"
  note G = group_facts[OF d, where a = a and j = j]
  have j: "j < length ?rs"
    using q G(1) by (simp add: Let_def)
  have "ep_actor p = a" "ep_failures p = fst (?rs ! j)" "ep_success_id p = av_id (snd (?rs ! j))" "thr \<le> fst (?rs ! j)"
    using q G(2,3)[OF j] by (auto simp: Let_def)
  then show "\<exists>n s. (n, s) \<in> set (runs 0 (account_events (ep_actor p) rows)) \<and> thr \<le> n \<and> ep_failures p = n \<and> ep_success_id p = av_id s"
    using j by (metis nth_mem prod.collapse)
next
  assume "(n, s) \<in> set (runs 0 (account_events a rows))" and thr: "thr \<le> n"
  then obtain j where j: "j < length (runs 0 (account_events a rows))" "runs 0 (account_events a rows) ! j = (n, s)"
    by (metis in_set_conv_nth)
  note G = group_facts[OF d, where a = a and j = j]
  define g where "g = filter (\<lambda>e. (actor_name e, episode rows e) = (a, j)) rows"
  define p where "p = \<lparr>ep_actor = a, ep_failures = length (filter (\<lambda>e. \<not> succeeded e) g),
      ep_sources = count_distinct av_ip_address (filter valid_source (filter (\<lambda>e. \<not> succeeded e) g)),
      ep_success_id = Max (set (map av_id (filter succeeded g))),
      ep_success_at = Max (set (map av_created_at (filter succeeded g)))\<rparr>"
  have "filter succeeded g \<noteq> []" "thr \<le> length (filter (\<lambda>e. \<not> succeeded e) g)"
    using G(1) G(3)[OF j(1)] j thr by (simp_all add: g_def)
  then have "p \<in> set (episodes thr rows)"
    unfolding episodes_mem Let_def p_def g_def by blast
  then show "a \<in> ep_actor ` set (episodes thr rows)"
    by (force simp: p_def)
qed

lemma group_rows_ne: "(k, g) \<in> set (group_rows f xs) \<Longrightarrow> g \<noteq> [] \<and> set g \<subseteq> {x \<in> set xs. f x = k}"
  by (auto simp: group_rows_def filter_empty_conv)

lemma hd_sort_mem: "g \<noteq> [] \<Longrightarrow> hd (sort_key f g) \<in> set g"
  by (metis hd_in_set set_sort length_sort length_0_conv)

lemma latest_episodes_facts:
  "set (latest_episodes eps) \<subseteq> set eps" "map ep_actor (latest_episodes eps) = remdups (map ep_actor eps)"
proof -
  let ?h = "\<lambda>g. hd (sort_key (\<lambda>p. (- ep_success_at p, - ep_success_id p)) g)"
  show "set (latest_episodes eps) \<subseteq> set eps"
  proof
    fix p assume "p \<in> set (latest_episodes eps)"
    then obtain k g where "(k, g) \<in> set (group_rows ep_actor eps)" "p = ?h g"
      by (auto simp: latest_episodes_def)
    then show "p \<in> set eps"
      using group_rows_ne[of k g ep_actor eps] hd_sort_mem[of g] by auto
  qed
  have e: "ep_actor (?h (filter (\<lambda>x. ep_actor x = k) eps)) = k" if "k \<in> set (map ep_actor eps)" for k
  proof -
    have "filter (\<lambda>x. ep_actor x = k) eps \<noteq> []"
      using that by (auto simp: filter_empty_conv)
    from hd_sort_mem[OF this] show ?thesis by auto
  qed
  have "map ep_actor (latest_episodes eps) =
      map (\<lambda>k. ep_actor (?h (filter (\<lambda>x. ep_actor x = k) eps))) (remdups (map ep_actor eps))"
    by (simp add: latest_episodes_def group_rows_def comp_def)
  also have "\<dots> = remdups (map ep_actor eps)"
    by (rule map_idI) (simp add: e)
  finally show "map ep_actor (latest_episodes eps) = remdups (map ep_actor eps)" .
qed

section \<open>Properties\<close>

definition demo_login :: "int \<Rightarrow> string \<Rightarrow> aev" where
  "demo_login i out = \<lparr>av_id = i, av_event_type = ''auth.login'', av_outcome = out, av_actor_id = Some ''u'',
     av_ip_address = Some ''1.2.3.4'', av_created_at = of_int i\<rparr>"

definition demo_events :: "aev list" where
  "demo_events = [demo_login 1 ''failure'', demo_login 2 ''failure'', demo_login 3 ''success'']"

text \<open>The SQL window query for successes after failures computes what a walk over each account's events in time
  order computes: every finding names a success that closed a run of at least the threshold of consecutive failures,
  with that count and that event as evidence; there is at most one finding per account; and every account with
  such a run gets one as long as at most 100 accounts are involved.\<close>

theorem success_after_failures_correct:
  assumes "distinct (map av_id events)"
  shows "(\<forall>x\<in>set (sequence_findings cutoff now w thr events). \<exists>a n s. an_subject x = Some a \<and>
      (n, s) \<in> set (runs 0 (account_events a (auth_rows cutoff now events))) \<and> thr \<le> n \<and>
      an_count x = n \<and> an_evidence_event_id x = Some (av_id s)) \<and>
    distinct (map an_subject (sequence_findings cutoff now w thr events)) \<and>
    (length (remdups (map actor_name (auth_rows cutoff now events))) \<le> 100 \<longrightarrow>
       (\<forall>a n s. (n, s) \<in> set (runs 0 (account_events a (auth_rows cutoff now events))) \<and> thr \<le> n \<longrightarrow>
          Some a \<in> an_subject ` set (sequence_findings cutoff now w thr events)))"
proof -
  define rows where "rows = auth_rows cutoff now events"
  define eps where "eps = episodes thr rows"
  define srt where "srt = sort_key (\<lambda>p. (- ep_success_at p, - ep_success_id p, ep_actor p)) (latest_episodes eps)"
  have d: "distinct (map av_id rows)"
    using assms by (simp add: rows_def auth_rows_def distinct_map_filter)
  note L = latest_episodes_facts[of eps]
  have sub: "map an_subject (sequence_findings cutoff now w thr events) = map (\<lambda>p. Some (ep_actor p)) (take 100 srt)"
    by (simp add: sequence_findings_def rows_def[symmetric] eps_def[symmetric] srt_def MAX_CORRELATION_FINDINGS_def)
  have "distinct (map ep_actor (latest_episodes eps))"
    using L(2) by simp
  then have "distinct (map ep_actor srt)"
    by (simp add: srt_def distinct_map)
  then have "distinct (map ep_actor (take 100 srt))"
    by (metis distinct_take take_map)
  then have dist: "distinct (map an_subject (sequence_findings cutoff now w thr events))"
    unfolding sub by (simp add: distinct_map inj_on_def)
  have mem: "\<exists>a n s. an_subject x = Some a \<and> (n, s) \<in> set (runs 0 (account_events a rows)) \<and> thr \<le> n \<and>
      an_count x = n \<and> an_evidence_event_id x = Some (av_id s)"
    if x: "x \<in> set (sequence_findings cutoff now w thr events)" for x
  proof -
    obtain p where p: "p \<in> set (take 100 srt)" "an_subject x = Some (ep_actor p)" "an_count x = ep_failures p"
      "an_evidence_event_id x = Some (ep_success_id p)"
      using x by (auto simp: sequence_findings_def rows_def[symmetric] eps_def[symmetric] srt_def MAX_CORRELATION_FINDINGS_def)
    have "p \<in> set eps"
      using L(1) in_set_takeD[OF p(1)] by (auto simp: srt_def)
    then show ?thesis
      using episodes_runs(1)[OF d, of p thr] p by (fastforce simp: eps_def)
  qed
  have all: "Some a \<in> an_subject ` set (sequence_findings cutoff now w thr events)"
    if few: "length (remdups (map actor_name rows)) \<le> 100" and r: "(n, s) \<in> set (runs 0 (account_events a rows))" "thr \<le> n" for a n s
  proof -
    have "a \<in> set (map ep_actor (latest_episodes eps))"
      using episodes_runs(2)[OF d r] L(2) by (simp add: eps_def)
    then have a: "a \<in> ep_actor ` set srt" by (simp add: srt_def)
    have "set (map ep_actor eps) \<subseteq> set (map actor_name rows)"
    proof
      fix b assume "b \<in> set (map ep_actor eps)"
      then obtain p where "p \<in> set eps" "ep_actor p = b" by auto
      then show "b \<in> set (map actor_name rows)"
        unfolding eps_def episodes_mem by (fastforce simp: Let_def filter_empty_conv)
    qed
    then have "card (set (map ep_actor eps)) \<le> card (set (map actor_name rows))"
      by (intro card_mono) auto
    then have "length (latest_episodes eps) \<le> 100"
      using few L(2) by (metis length_map length_remdups_card_conv order_trans)
    then have "take 100 srt = srt" by (simp add: srt_def)
    then show ?thesis
      using a arg_cong[OF sub, of set] by auto
  qed
  show ?thesis
    using mem dist all unfolding rows_def by blast
qed

theorem success_after_failures_correct_witness:
  "distinct (map av_id demo_events) \<and>
   Some ''u'' \<in> an_subject ` set (sequence_findings 0 10 60 2 demo_events)"
proof -
  have d: "distinct (map av_id demo_events)"
    by (simp add: demo_events_def demo_login_def)
  have rows: "auth_rows 0 10 demo_events = demo_events"
    by (simp add: auth_rows_def demo_events_def demo_login_def known_actor_def in_time_window_def)
  have "account_events ''u'' demo_events = demo_events"
    by (simp add: account_events_def demo_events_def demo_login_def actor_name_def chrono_def)
  then have "(2, demo_login 3 ''success'') \<in> set (runs 0 (account_events ''u'' demo_events))"
    by (simp add: demo_events_def demo_login_def succeeded_def)
  moreover have "length (remdups (map actor_name demo_events)) \<le> 100"
    by (simp add: demo_events_def demo_login_def actor_name_def)
  ultimately show ?thesis
    using success_after_failures_correct[OF d, of 0 10 60 2, unfolded rows] d by blast
qed

text \<open>With parameters in range the detector never fails, and the brute-force rule is exact: it reports a source address
  if and only if at least the threshold of failed logins came from it within the window, with that count, and as high
  severity exactly when the count is at least twice the threshold.\<close>

theorem brute_force_exact:
  assumes "1 \<le> w" "w \<le> 1440" "1 \<le> brute" "1 \<le> spray" "1 \<le> idor" "2 \<le> sources"
  shows "\<exists>found. detect_anomalies w brute spray idor sources now events = Inr found \<and>
    (\<forall>ip. let n = length (filter (\<lambda>e. av_ip_address e = ip \<and> failed_login (now - of_int w * 60) e) events)
          in plain_anomaly ''IDS-BRUTEFORCE'' (if n \<ge> nat brute * 2 then ''high'' else ''medium'') n w ip \<in> set found
             \<longleftrightarrow> n \<ge> nat brute)"
proof -
  let ?c = "now - of_int w * 60"
  define rest where "rest = spray_findings ?c w (nat spray) events @ idor_findings ?c w (nat idor) events @
      mfa_findings ?c w (nat brute) events @ pattern_findings ?c w events @
      authentication_correlations ?c now w (nat brute) (nat sources) events"
  have run: "detect_anomalies w brute spray idor sources now events =
      Inr (brute_force_findings ?c w (nat brute) events @ rest)"
    using assms by (simp add: detect_anomalies_def Let_def rest_def)
  have other: "an_code x \<noteq> ''IDS-BRUTEFORCE''" if "x \<in> set rest" for x
    using that by (auto simp: rest_def spray_findings_def idor_findings_def mfa_findings_def pattern_findings_def
        authentication_correlations_def distributed_findings_def sequence_findings_def plain_anomaly_def Let_def
        split: if_splits)
  have grp: "filter (\<lambda>x. av_ip_address x = ip) (filter (failed_login ?c) events) =
      filter (\<lambda>e. av_ip_address e = ip \<and> failed_login ?c e) events" for ip
    by (simp add: conj_commute)
  have exact: "plain_anomaly ''IDS-BRUTEFORCE'' (if n \<ge> nat brute * 2 then ''high'' else ''medium'') n w ip
        \<in> set (brute_force_findings ?c w (nat brute) events) \<longleftrightarrow> n \<ge> nat brute"
    if n: "n = length (filter (\<lambda>e. av_ip_address e = ip \<and> failed_login ?c e) events)" for ip n
  proof
    assume "plain_anomaly ''IDS-BRUTEFORCE'' (if n \<ge> nat brute * 2 then ''high'' else ''medium'') n w ip
        \<in> set (brute_force_findings ?c w (nat brute) events)"
    then show "n \<ge> nat brute"
      by (auto simp: brute_force_findings_def plain_anomaly_def)
  next
    assume ge: "n \<ge> nat brute"
    then have "0 < n" using assms(3) by linarith
    then have "ip \<in> set (map av_ip_address (filter (failed_login ?c) events))"
      using n by (fastforce simp: filter_empty_conv)
    then have "(ip, filter (\<lambda>e. av_ip_address e = ip \<and> failed_login ?c e) events)
        \<in> set (group_rows av_ip_address (filter (failed_login ?c) events))"
      unfolding group_rows_def grp by auto
    then show "plain_anomaly ''IDS-BRUTEFORCE'' (if n \<ge> nat brute * 2 then ''high'' else ''medium'') n w ip
        \<in> set (brute_force_findings ?c w (nat brute) events)"
      using ge n by (force simp: brute_force_findings_def)
  qed
  show ?thesis
    using run exact other by (fastforce simp: Let_def plain_anomaly_def)
qed

theorem brute_force_exact_witness:
  "\<exists>found. detect_anomalies 60 2 3 5 3 10 demo_events = Inr found \<and>
     plain_anomaly ''IDS-BRUTEFORCE'' ''medium'' 2 60 (Some ''1.2.3.4'') \<in> set found"
proof -
  have "length (filter (\<lambda>e. av_ip_address e = Some ''1.2.3.4'' \<and> failed_login (10 - of_int 60 * 60) e) demo_events) = 2"
    by (simp add: demo_events_def demo_login_def failed_login_def)
  then show ?thesis
    using brute_force_exact[of 60 2 3 5 3 10 demo_events] by (auto simp: Let_def dest: spec[of _ "Some ''1.2.3.4''"])
qed

end
