(* ===== verification/Ids_Scan.thy ===== *)
theory Ids_Scan
  imports Pystr
begin

text \<open>
  The signature engine of \<^verbatim>\<open>src/app/ids.py\<close>: the views of a request text that the rules are matched against.

  The regular expressions are an argument: \<open>search rule view\<close> is the text a rule's pattern finds in a view. One
  decoding pass (\<^verbatim>\<open>unquote_plus\<close>, escapes, \<^verbatim>\<open>html.unescape\<close>) is the argument \<open>decode\<close>. The bounded
  iteration, the rewriting of SQL comments and the choice of views per rule are modelled in full.
\<close>

definition MAX_SCAN_TEXT_CHARS :: nat where "MAX_SCAN_TEXT_CHARS = 16384"
definition MAX_DECODE_PASSES :: nat where "MAX_DECODE_PASSES = 3"

definition T1190_RULES :: "string list" where
  "T1190_RULES = [''SQLI-001'', ''SQLI-002'', ''SQLI-003'', ''XSS-001'', ''XSS-002'', ''TRAV-001'', ''CMDI-001'',
     ''SSTI-001'', ''LOGI-001'', ''NOSQ-001'']"

definition mitre_technique_for_rule :: "string \<Rightarrow> string option" where
  "mitre_technique_for_rule rule_id = (if rule_id \<in> set T1190_RULES then Some ''T1190'' else None)"

text \<open>Identifiers and severities of the rules, in the order of \<^verbatim>\<open>SIGNATURES\<close>.\<close>

definition SIGNATURES :: "(string \<times> string) list" where
  "SIGNATURES = [(''SQLI-001'', ''high''), (''SQLI-002'', ''high''), (''SQLI-003'', ''medium''), (''XSS-001'', ''high''),
     (''XSS-002'', ''medium''), (''TRAV-001'', ''high''), (''CMDI-001'', ''high''), (''SSTI-001'', ''medium''),
     (''LOGI-001'', ''medium''), (''NOSQ-001'', ''medium'')]"

section \<open>Decoding passes\<close>

fun decode_passes :: "(string \<Rightarrow> string) \<Rightarrow> nat \<Rightarrow> string \<Rightarrow> string list \<Rightarrow> string list" where
  "decode_passes decode 0 text candidates = candidates"
| "decode_passes decode (Suc n) text candidates =
     (let decoded = decode text
      in if decoded = text then candidates
         else decode_passes decode n decoded
                (if decoded \<notin> set candidates then candidates @ [decoded] else candidates))"

definition scan_candidates :: "(string \<Rightarrow> string) \<Rightarrow> string \<Rightarrow> string list" where
  "scan_candidates decode text = decode_passes decode MAX_DECODE_PASSES text [text]"

section \<open>SQL comments\<close>

fun find_sub :: "string \<Rightarrow> string \<Rightarrow> nat option" where
  "find_sub p [] = (if p = [] then Some 0 else None)"
| "find_sub p (c # s) = (if startswith (c # s) p then Some 0 else map_option Suc (find_sub p s))"

lemma find_sub_less: "find_sub p s = Some i \<Longrightarrow> i + length p \<le> length s"
proof (induction s arbitrary: i)
  case Nil
  then show ?case by (simp split: if_splits)
next
  case (Cons c s)
  show ?case
  proof (cases "startswith (c # s) p")
    case True
    then have "length p \<le> length (c # s)"
      unfolding startswith_iff by (metis length_append le_add1)
    then show ?thesis using Cons.prems True by simp
  next
    case False
    then show ?thesis using Cons by auto
  qed
qed

text \<open>\<^verbatim>\<open>re.sub(r"^\d{5,6}\s*", "", executable)\<close>\<close>

definition strip_version :: "string \<Rightarrow> string" where
  "strip_version s =
     (let n = length (takeWhile is_digit (take 6 s))
      in if n \<ge> 5 then py_lstrip (drop n s) else s)"

definition comment_text :: "string \<Rightarrow> string" where
  "comment_text c =
     (case c of
        CHR ''!'' # e \<Rightarrow> '' '' @ strip_version e @ '' ''
      | _ \<Rightarrow> '' '')"

text \<open>The loop of \<^verbatim>\<open>_sql_comment_view\<close>, on the rest of the text after the cursor.\<close>

function sql_comment_view :: "string \<Rightarrow> string" where
  "sql_comment_view text =
     (case find_sub ''/*'' text of
        None \<Rightarrow> text
      | Some start \<Rightarrow>
          (case find_sub ''*/'' (drop (start + 2) text) of
             None \<Rightarrow> text
           | Some len \<Rightarrow>
               take start text @ comment_text (take len (drop (start + 2) text)) @
               sql_comment_view (drop (start + 2 + len + 2) text)))"
  by pat_completeness auto
termination
proof (relation "measure length")
  fix t start len
  assume "find_sub ''/*'' t = Some start"
  then show "(drop (start + 2 + len + 2) t, t) \<in> measure length"
    using find_sub_less[of "''/*''" t start] by simp
qed simp

declare sql_comment_view.simps [simp del]

section \<open>Scanning\<close>

definition strip_controls :: "string \<Rightarrow> string" where
  "strip_controls s = filter (\<lambda>c. code c \<notin> {9, 10, 13}) s"

definition rule_views :: "string list \<Rightarrow> string \<Rightarrow> string list" where
  "rule_views candidates rule_id =
     (if startswith rule_id ''SQLI-'' then candidates @ map sql_comment_view candidates
      else if startswith rule_id ''XSS-'' then candidates @ map strip_controls candidates
      else candidates)"

text \<open>The first view in which the pattern is found.\<close>

fun first_match :: "(string \<Rightarrow> string option) \<Rightarrow> string list \<Rightarrow> string option" where
  "first_match f [] = None"
| "first_match f (v # vs) = (case f v of Some m \<Rightarrow> Some m | None \<Rightarrow> first_match f vs)"

definition scan_text ::
    "(string \<Rightarrow> string) \<Rightarrow> (string \<Rightarrow> string \<Rightarrow> string option) \<Rightarrow> string \<Rightarrow>
     (string \<times> string \<times> string) list option" where
  "scan_text decode search text =
     (if length text > MAX_SCAN_TEXT_CHARS then None
      else if text = '''' then Some []
      else
        let candidates = scan_candidates decode text
        in Some (concat (map (\<lambda>(rule_id, severity).
             case first_match (search rule_id) (rev (remdups (rev (rule_views candidates rule_id)))) of
               None \<Rightarrow> []
             | Some m \<Rightarrow> [(rule_id, severity, take 120 m)]) SIGNATURES)))"

definition SAFE_VERIFICATION_SCENARIOS :: "(string \<times> string \<times> string \<times> string) list" where
  "SAFE_VERIFICATION_SCENARIOS =
     [(''SQL injection'', ''T1190'', ''id=1%20UNION%20SELECT%20username,password'', ''SQLI-001''),
      (''Cross-site scripting'', ''T1190'', ''q=%3Cscript%3Ealert(1)%3C/script%3E'', ''XSS-001''),
      (''Path traversal'', ''T1190'', ''file=%252e%252e%252f%252e%252e%252fetc%252fpasswd'', ''TRAV-001''),
      (''Command injection'', ''T1190'', ''host=127.0.0.1%3Bwhoami'', ''CMDI-001'')]"

text \<open>Outcome of the self-check: each scenario with the rules observed for it.\<close>

definition run_safe_detection_verification ::
    "(string \<Rightarrow> string) \<Rightarrow> (string \<Rightarrow> string \<Rightarrow> string option) \<Rightarrow> (nat \<times> nat \<times> (string \<times> bool) list) option" where
  "run_safe_detection_verification decode search =
     (let outcomes = map (\<lambda>(name, technique, sample, expected).
            map_option (\<lambda>hits. (name, expected \<in> set (map fst hits))) (scan_text decode search sample))
            SAFE_VERIFICATION_SCENARIOS
      in if None \<in> set outcomes then None
         else let scenarios = map the outcomes; detected = length (filter snd scenarios)
              in Some (length scenarios, detected, scenarios))"

section \<open>Lemmas\<close>

lemma find_sub_None: "find_sub p s = None \<longleftrightarrow> \<not> contains s p"
  by (induction s) auto

lemma find_sub_first:
  assumes "\<not> contains (a @ butlast p) p" and "p \<noteq> []"
  shows "find_sub p (a @ p @ r) = Some (length a)"
  using assms
proof (induction a)
  case Nil
  obtain c q where "p = c # q" using Nil(2) by (cases p) auto
  moreover have "startswith (p @ r) p" by (simp add: startswith_iff)
  ultimately show ?case by simp
next
  case (Cons c a)
  have "\<not> startswith (c # a @ p @ r) p"
  proof
    assume "startswith (c # a @ p @ r) p"
    then have "take (length p) (c # a @ p @ r) = p"
      by (auto simp: startswith_iff)
    moreover have "take (length p) (c # a @ p @ r) = take (length p) (c # a @ butlast p)"
    proof -
      have "p @ r = butlast p @ last p # r"
        using Cons.prems(2) by simp
      then have eq: "c # a @ p @ r = (c # a @ butlast p) @ last p # r" by simp
      have le: "length p \<le> length (c # a @ butlast p)"
        using Cons.prems(2) by simp
      show ?thesis unfolding eq take_append using le by simp
    qed
    ultimately have "startswith (c # a @ butlast p) p"
      by (metis append_take_drop_id startswith_iff)
    then show False using Cons.prems(1) by simp
  qed
  then show ?case using Cons by simp
qed

lemma decode_passes_spec:
  assumes "distinct cs"
  shows "\<exists>new. decode_passes decode n t cs = cs @ new \<and> length new \<le> n \<and> distinct (cs @ new)"
  using assms
proof (induction n arbitrary: t cs)
  case 0
  then show ?case by simp
next
  case (Suc n)
  let ?cs = "if decode t \<notin> set cs then cs @ [decode t] else cs"
  obtain new where "decode_passes decode n (decode t) ?cs = ?cs @ new" "length new \<le> n" "distinct (?cs @ new)"
    using Suc.IH[of ?cs "decode t"] Suc.prems by (cases "decode t \<in> set cs") auto
  then show ?case
    using Suc.prems
    by (cases "decode t \<in> set cs")
      (auto simp: Let_def intro: exI[of _ new] exI[of _ "decode t # new"])
qed

lemma first_match_None: "first_match f vs = None \<longleftrightarrow> (\<forall>v\<in>set vs. f v = None)"
  by (induction vs) (auto split: option.splits)

section \<open>Properties\<close>

text \<open>The comment view is what its description says, on every text: a text without a complete comment is left alone;
  otherwise the first comment is replaced by a space, or by its content without the version gate between spaces
  when it is an executable comment, and the rest is treated the same way. In particular a comment cannot glue
  keywords together or hide them.\<close>

theorem sql_comment_view_correct:
  "(\<not> contains t ''/*'' \<longrightarrow> sql_comment_view t = t) \<and>
   (\<not> contains a ''/*'' \<and> \<not> contains c ''*/'' \<longrightarrow>
      sql_comment_view (a @ ''/*'' @ c) = a @ ''/*'' @ c \<and>
      sql_comment_view (a @ ''/*'' @ c @ ''*/'' @ r) = a @ comment_text c @ sql_comment_view r)"
proof (intro conjI impI)
  assume "\<not> contains t ''/*''"
  then show "sql_comment_view t = t"
    by (simp add: sql_comment_view.simps[of t] find_sub_None[symmetric])
next
  assume h: "\<not> contains a ''/*'' \<and> \<not> contains c ''*/''"
  have "\<not> contains (x @ [y]) p" if "\<not> contains x p" "p = [y, z]" "y \<noteq> z" for x p y z
  proof
    assume "contains (x @ [y]) p"
    then obtain u v where e: "x @ [y] = u @ p @ v" by (auto simp: contains_iff)
    show False
    proof (cases v rule: rev_cases)
      case Nil
      then show ?thesis using e that(2,3) by simp
    next
      case (snoc v' w)
      then have "x = u @ p @ v'" using e by simp
      then show ?thesis using that(1) unfolding contains_iff by blast
    qed
  qed
  then have n: "\<not> contains (a @ butlast ''/*'') ''/*''" "\<not> contains (c @ butlast ''*/'') ''*/''"
    using h by auto
  have f1: "find_sub ''/*'' (a @ ''/*'' @ x) = Some (length a)" for x
    using find_sub_first[OF n(1)] by simp
  have f2: "find_sub ''*/'' (c @ ''*/'' @ r) = Some (length c)"
    using find_sub_first[OF n(2)] by simp
  have f3: "find_sub ''*/'' c = None"
    using h by (simp add: find_sub_None)
  show "sql_comment_view (a @ ''/*'' @ c) = a @ ''/*'' @ c"
    using f1[of c] f3 by (subst sql_comment_view.simps) simp
  show "sql_comment_view (a @ ''/*'' @ c @ ''*/'' @ r) = a @ comment_text c @ sql_comment_view r"
  proof -
    have "drop (length a + 2 + length c + 2) (a @ ''/*'' @ c @ ''*/'' @ r) = r"
      by (simp add: numeral_eq_Suc)
    then show ?thesis
      using f1[of "c @ ''*/'' @ r"] f2 by (subst sql_comment_view.simps) simp
  qed
qed

theorem sql_comment_view_correct_witness:
  "sql_comment_view (''union'' @ ''/*'' @ ''x'' @ ''*/'' @ ''select'') = ''union select''"
  using sql_comment_view_correct[of "''select''" "''union''" "''x''" "''select''"] by (simp add: comment_text_def)

text \<open>Scanning is bounded and complete for its views: texts over the limit are refused, otherwise at most four
  decoded forms are considered, each rule reports at most one hit in the order of the rules, and a rule reports a hit
  exactly when its pattern occurs in one of the views for that rule.\<close>

theorem scan_text_exact:
  assumes "length t \<le> 16384" and "t \<noteq> ''''"
  shows "\<exists>hits. scan_text decode search t = Some hits \<and>
    length (scan_candidates decode t) \<le> 4 \<and> hd (scan_candidates decode t) = t \<and>
    map fst hits = filter (\<lambda>r. \<exists>v\<in>set (rule_views (scan_candidates decode t) r). search r v \<noteq> None) (map fst SIGNATURES)"
proof -
  let ?cs = "scan_candidates decode t"
  have c: "length ?cs \<le> 4" "hd ?cs = t"
    using decode_passes_spec[of "[t]" decode 3 t] by (auto simp: scan_candidates_def MAX_DECODE_PASSES_def)
  define hit where "hit = (\<lambda>(rule_id, severity :: string).
       case first_match (search rule_id) (rev (remdups (rev (rule_views ?cs rule_id)))) of
         None \<Rightarrow> [] | Some m \<Rightarrow> [(rule_id, severity, take 120 m)])"
  have run: "scan_text decode search t = Some (concat (map hit SIGNATURES))"
    using assms by (simp add: scan_text_def MAX_SCAN_TEXT_CHARS_def Let_def hit_def)
  define P where "P = (\<lambda>r. \<exists>v\<in>set (rule_views ?cs r). search r v \<noteq> None)"
  have one: "map fst (hit x) = (if P (fst x) then [fst x] else [])" for x
  proof -
    obtain r s where x: "x = (r, s)" by (cases x)
    show ?thesis unfolding x
    using first_match_None[of "search r" "rev (remdups (rev (rule_views ?cs r)))"]
    by (cases "first_match (search r) (rev (remdups (rev (rule_views ?cs r))))") (auto simp: hit_def P_def)
  qed
  have "map fst (concat (map hit xs)) = filter P (map fst xs)" for xs
    by (induction xs) (simp_all add: one)
  then show ?thesis using run c unfolding P_def by blast
qed

theorem scan_text_exact_witness:
  "map fst (the (scan_text id (\<lambda>r v. if r = ''SQLI-001'' \<and> contains v ''union select'' then Some v else None)
      ''union/**/select'')) = [''SQLI-001'']"
proof -
  let ?s = "\<lambda>r v. if r = ''SQLI-001'' \<and> contains v ''union select'' then Some v else None"
  have cs: "scan_candidates id ''union/**/select'' = [''union/**/select'']"
    by (simp add: scan_candidates_def MAX_DECODE_PASSES_def numeral_3_eq_3)
  have v: "sql_comment_view ''union/**/select'' = ''union select''"
    by (simp add: sql_comment_view.simps comment_text_def)
  obtain hits where h: "scan_text id ?s ''union/**/select'' = Some hits"
    "map fst hits = filter (\<lambda>r. \<exists>v\<in>set (rule_views [''union/**/select''] r). ?s r v \<noteq> None) (map fst SIGNATURES)"
    using scan_text_exact[of "''union/**/select''" id ?s] cs by auto
  then show ?thesis
    using v by (simp add: SIGNATURES_def rule_views_def)
qed

end
