(* ===== verification/Keys.thy ===== *)
theory Keys
  imports Encoding
begin

text \<open>
  Key providers (\<^verbatim>\<open>key_management.py\<close>) and the bounded secret reader (\<^verbatim>\<open>secret_files.py\<close>).

  A provider protects 256-bit data keys with a key-encryption key. The four adapters are modelled
  whole: the local AES-GCM keyring, Vault Transit, AWS KMS and Google Cloud KMS. What they call is a
  parameter: the AEAD cipher is a record of two functions, a remote service is a function from a
  request to its reply. Random bytes (\<^verbatim>\<open>secrets.token_bytes\<close>) and the choices of a remote service
  are an argument of type \<open>entropy\<close>.

  The locale \<open>key_provider\<close> states what the envelope layer relies on; each adapter interprets it.
\<close>

datatype key_error = KeyProviderError string | Value_Error string | Type_Error | Key_Error

type_synonym key_context = "(string, string) pydict"

record entropy =
  en_key :: bytes
  en_nonce :: bytes

definition entropy_ok :: "entropy \<Rightarrow> bool" where
  "entropy_ok r \<longleftrightarrow> length (en_key r) = 32 \<and> length (en_nonce r) = 12"

record wrapped_dek =
  wd_wrapped :: string
  wd_kek_uri :: string
  wd_kek_version :: string

record generated_dek = wrapped_dek +
  gd_plaintext :: bytes

section \<open>The AEAD cipher\<close>

text \<open>\<^verbatim>\<open>AESGCM(key).encrypt(nonce, data, aad)\<close> and \<^verbatim>\<open>decrypt\<close>; \<open>None\<close> is \<^verbatim>\<open>InvalidTag\<close>.\<close>

record aead =
  ae_encrypt :: "bytes \<Rightarrow> bytes \<Rightarrow> bytes \<Rightarrow> bytes \<Rightarrow> bytes"
  ae_decrypt :: "bytes \<Rightarrow> bytes \<Rightarrow> bytes \<Rightarrow> bytes \<Rightarrow> bytes option"

text \<open>Documented behaviour: decryption under the same key, nonce and associated data returns the
  plaintext, and a ciphertext carries a 16-byte tag.\<close>

definition aead_correct :: "aead \<Rightarrow> bool" where
  "aead_correct A \<longleftrightarrow>
     (\<forall>k n p a. ae_decrypt A k n (ae_encrypt A k n p a) a = Some p \<and> 16 \<le> length (ae_encrypt A k n p a))"

text \<open>Documented behaviour: other associated data is rejected.\<close>

definition aead_binding :: "aead \<Rightarrow> bool" where
  "aead_binding A \<longleftrightarrow> (\<forall>k n p a b. a \<noteq> b \<longrightarrow> ae_decrypt A k n (ae_encrypt A k n p a) b = None)"

lemma aead_roundtrip: "aead_correct A \<Longrightarrow> ae_decrypt A k n (ae_encrypt A k n p a) a = Some p"
  by (simp add: aead_correct_def)

lemma aead_length: "aead_correct A \<Longrightarrow> 16 \<le> length (ae_encrypt A k n p a)"
  by (simp add: aead_correct_def)

section \<open>Contexts\<close>

definition canonical_context :: "key_context \<Rightarrow> bytes option" where
  "canonical_context context =
     (if context = [] \<or> list_ex (\<lambda>k. k = [] \<or> length k > 80) (dict_keys context) then None
      else Some (utf8 (''{'' @ json_string False ''context'' @ '':''
                       @ json_dumps False (map (\<lambda>(k, v). (k, JStr v)) context) @ '',''
                       @ json_string False ''format'' @ '':'' @ json_string False ''scap-kms-context-v1'' @ ''}'')))"

text \<open>\<^verbatim>\<open>secrets.compare_digest\<close> of two texts: \<open>None\<close> is the \<^verbatim>\<open>TypeError\<close> for a non-ASCII text.\<close>

definition is_ascii :: "string \<Rightarrow> bool" where
  "is_ascii s \<longleftrightarrow> list_all (\<lambda>c. code c < 128) s"

definition compare_digest :: "string \<Rightarrow> string \<Rightarrow> bool option" where
  "compare_digest a b = (if is_ascii a \<and> is_ascii b then Some (a = b) else None)"

definition check_uri :: "string \<Rightarrow> string \<Rightarrow> string \<Rightarrow> (key_error + unit)" where
  "check_uri message kek_uri own =
     (case compare_digest kek_uri own of
        None \<Rightarrow> Inl Type_Error
      | Some same \<Rightarrow> if same then Inr () else Inl (KeyProviderError message))"

definition key_b64decode :: "string \<Rightarrow> string \<Rightarrow> (key_error + bytes)" where
  "key_b64decode label v =
     (case b64decode True v of
        None \<Rightarrow> Inl (KeyProviderError (label @ '' is not valid base64.''))
      | Some b \<Rightarrow> Inr b)"

section \<open>The provider interface\<close>

record provider =
  pv_generate :: "entropy \<Rightarrow> key_context \<Rightarrow> (key_error + generated_dek)"
  pv_unwrap :: "string \<Rightarrow> key_context \<Rightarrow> string \<Rightarrow> string \<Rightarrow> (key_error + bytes)"
  pv_rewrap :: "entropy \<Rightarrow> string \<Rightarrow> key_context \<Rightarrow> string \<Rightarrow> string \<Rightarrow> (key_error + wrapped_dek)"

text \<open>A provider is a configuration \<open>p\<close> with operations \<open>ops p\<close>. \<open>ok p\<close> collects what its service or
  cipher is documented to do.\<close>

locale key_provider =
  fixes ops :: "'p \<Rightarrow> provider"
    and ok :: "'p \<Rightarrow> bool"
    and uri :: "'p \<Rightarrow> string"
  assumes generate_unwrap:
      "ok p \<Longrightarrow> entropy_ok r \<Longrightarrow> pv_generate (ops p) r c = Inr g \<Longrightarrow>
       pv_unwrap (ops p) (wd_wrapped g) c (wd_kek_uri g) (wd_kek_version g) = Inr (gd_plaintext g)"
    and rewrap_unwrap:
      "ok p \<Longrightarrow> entropy_ok r \<Longrightarrow> pv_unwrap (ops p) w c u v = Inr dek \<Longrightarrow> pv_rewrap (ops p) r w c u v = Inr w' \<Longrightarrow>
       pv_unwrap (ops p) (wd_wrapped w') c (wd_kek_uri w') (wd_kek_version w') = Inr dek"
    and unwrap_size: "pv_unwrap (ops p) w c u v = Inr dek \<Longrightarrow> length dek = 32"
    and unwrap_uri: "pv_unwrap (ops p) w c u v = Inr dek \<Longrightarrow> u = uri p"
begin

lemma generate_size:
  "ok p \<Longrightarrow> entropy_ok r \<Longrightarrow> pv_generate (ops p) r c = Inr g \<Longrightarrow> length (gd_plaintext g) = 32"
  using generate_unwrap unwrap_size by blast

lemma generate_uri:
  "ok p \<Longrightarrow> entropy_ok r \<Longrightarrow> pv_generate (ops p) r c = Inr g \<Longrightarrow> wd_kek_uri g = uri p"
  using generate_unwrap unwrap_uri by blast

text \<open>A chain of rewraps under one context still protects the same data key.\<close>

lemma rewrap_chain:
  assumes "ok p" "entropy_ok r" "entropy_ok r'" "pv_unwrap (ops p) w c u v = Inr dek"
    and "pv_rewrap (ops p) r w c u v = Inr g"
    and "pv_rewrap (ops p) r' (wd_wrapped g) c (wd_kek_uri g) (wd_kek_version g) = Inr g'"
  shows "pv_unwrap (ops p) (wd_wrapped g') c (wd_kek_uri g') (wd_kek_version g') = Inr dek"
  using assms rewrap_unwrap by blast

end

section \<open>Local AES keyring\<close>

record local_provider =
  lp_keys :: "(string, bytes) pydict"
  lp_active :: string
  lp_kek_uri :: string

definition local_init :: "(string, bytes) pydict \<Rightarrow> string \<Rightarrow> string \<Rightarrow> (key_error + local_provider)" where
  "local_init keys active_version key_uri =
     (if keys = [] \<or> \<not> dict_has keys active_version
      then Inl (Value_Error ''Local keyring must contain its active version.'')
      else if list_ex (\<lambda>k. length k \<noteq> 32) (dict_values keys)
      then Inl (Value_Error ''Every local KEK must contain exactly 32 bytes.'')
      else Inr \<lparr>lp_keys = keys, lp_active = active_version, lp_kek_uri = key_uri\<rparr>)"

fun decode_keyring :: "(int \<times> string) list \<Rightarrow> (key_error + (string, bytes) pydict)" where
  "decode_keyring [] = Inr []"
| "decode_keyring ((version, material) # keys) =
     (case key_b64decode (''Local KEK v'' @ show_int version) material of
        Inl e \<Rightarrow> Inl e
      | Inr k \<Rightarrow> (case decode_keyring keys of Inl e \<Rightarrow> Inl e | Inr ks \<Rightarrow> Inr ((show_int version, k) # ks)))"

definition from_base64_keyring :: "(int \<times> string) list \<Rightarrow> int \<Rightarrow> string \<Rightarrow> (key_error + local_provider)" where
  "from_base64_keyring keys active_version key_uri =
     (case decode_keyring keys of
        Inl e \<Rightarrow> Inl e
      | Inr decoded \<Rightarrow> local_init decoded (show_int active_version) key_uri)"

definition local_wrap :: "aead \<Rightarrow> local_provider \<Rightarrow> bytes \<Rightarrow> bytes \<Rightarrow> key_context \<Rightarrow> (key_error + wrapped_dek)" where
  "local_wrap A p nonce dek context =
     (case dict_get (lp_keys p) (lp_active p) of
        None \<Rightarrow> Inl Key_Error
      | Some key \<Rightarrow>
          (case canonical_context context of
             None \<Rightarrow> Inl (Value_Error ''Encryption context must contain non-empty bounded keys.'')
           | Some aad \<Rightarrow>
               Inr \<lparr>wd_wrapped = b64encode True (nonce @ ae_encrypt A key nonce dek aad),
                    wd_kek_uri = lp_kek_uri p, wd_kek_version = lp_active p\<rparr>))"

definition local_generate :: "aead \<Rightarrow> local_provider \<Rightarrow> entropy \<Rightarrow> key_context \<Rightarrow> (key_error + generated_dek)" where
  "local_generate A p r context =
     (let dek = en_key r
      in case local_wrap A p (en_nonce r) dek context of
           Inl e \<Rightarrow> Inl e
         | Inr w \<Rightarrow> Inr \<lparr>wd_wrapped = wd_wrapped w, wd_kek_uri = wd_kek_uri w,
                         wd_kek_version = wd_kek_version w, gd_plaintext = dek\<rparr>)"

definition local_unwrap ::
  "aead \<Rightarrow> local_provider \<Rightarrow> string \<Rightarrow> key_context \<Rightarrow> string \<Rightarrow> string \<Rightarrow> (key_error + bytes)" where
  "local_unwrap A p wrapped context kek_uri kek_version =
     (case check_uri ''Stored KEK URI does not match the configured provider.'' kek_uri (lp_kek_uri p) of
        Inl e \<Rightarrow> Inl e
      | Inr _ \<Rightarrow>
     (case dict_get (lp_keys p) kek_version of
        None \<Rightarrow> Inl (KeyProviderError ''The required local KEK version is unavailable.'')
      | Some key \<Rightarrow>
     (case key_b64decode ''Wrapped DEK'' wrapped of
        Inl e \<Rightarrow> Inl e
      | Inr payload \<Rightarrow>
          if length payload < 12 + 16 then Inl (KeyProviderError ''Wrapped DEK is truncated.'')
          else
     (case canonical_context context of
        None \<Rightarrow> Inl (KeyProviderError ''Wrapped DEK authentication failed.'')
      | Some aad \<Rightarrow>
     (case ae_decrypt A key (take 12 payload) (drop 12 payload) aad of
        None \<Rightarrow> Inl (KeyProviderError ''Wrapped DEK authentication failed.'')
      | Some dek \<Rightarrow>
          if length dek \<noteq> 32 then Inl (KeyProviderError ''Provider returned an invalid DEK length.'')
          else Inr dek)))))"

definition local_rewrap ::
  "aead \<Rightarrow> local_provider \<Rightarrow> entropy \<Rightarrow> string \<Rightarrow> key_context \<Rightarrow> string \<Rightarrow> string \<Rightarrow> (key_error + wrapped_dek)" where
  "local_rewrap A p r wrapped context kek_uri kek_version =
     (case local_unwrap A p wrapped context kek_uri kek_version of
        Inl e \<Rightarrow> Inl e
      | Inr dek \<Rightarrow> local_wrap A p (en_nonce r) dek context)"

definition local_ops :: "aead \<times> local_provider \<Rightarrow> provider" where
  "local_ops = (\<lambda>(A, p). \<lparr>pv_generate = local_generate A p, pv_unwrap = local_unwrap A p, pv_rewrap = local_rewrap A p\<rparr>)"

definition local_ok :: "aead \<times> local_provider \<Rightarrow> bool" where
  "local_ok = (\<lambda>(A, p). aead_correct A \<and> dict_has (lp_keys p) (lp_active p) \<and> is_ascii (lp_kek_uri p))"

lemma check_uri_Inr: "check_uri m u own = Inr x \<longleftrightarrow> u = own \<and> is_ascii own"
  by (auto simp: check_uri_def compare_digest_def split: if_splits)

lemma key_b64decode_encode [simp]: "key_b64decode label (b64encode True b) = Inr b"
  by (simp add: key_b64decode_def b64_roundtrip)

lemma local_wrap_unwrap:
  assumes A: "aead_correct A" and uri: "is_ascii (lp_kek_uri p)" and n: "length nonce = 12" and dek: "length dek = 32"
    and w: "local_wrap A p nonce dek c = Inr g"
  shows "local_unwrap A p (wd_wrapped g) c (wd_kek_uri g) (wd_kek_version g) = Inr dek"
proof -
  obtain key aad where key: "dict_get (lp_keys p) (lp_active p) = Some key" "canonical_context c = Some aad"
    and g: "g = \<lparr>wd_wrapped = b64encode True (nonce @ ae_encrypt A key nonce dek aad),
                 wd_kek_uri = lp_kek_uri p, wd_kek_version = lp_active p\<rparr>"
    using w by (auto simp: local_wrap_def split: option.splits)
  have "check_uri m (lp_kek_uri p) (lp_kek_uri p) = Inr ()" for m
    using uri by (simp add: check_uri_Inr)
  then show ?thesis
    using key n dek aead_roundtrip[OF A] aead_length[OF A, of key nonce dek aad] by (simp add: local_unwrap_def g)
qed

lemma local_unwrap_size: "local_unwrap A p w c u v = Inr dek \<Longrightarrow> length dek = 32"
  by (auto simp: local_unwrap_def split: sum.splits option.splits if_splits)

lemma local_unwrap_uri: "local_unwrap A p w c u v = Inr dek \<Longrightarrow> u = lp_kek_uri p"
  by (auto simp: local_unwrap_def check_uri_Inr split: sum.splits option.splits if_splits)

interpretation local_keys: key_provider local_ops local_ok "\<lambda>p. lp_kek_uri (snd p)"
proof (unfold_locales, goal_cases)
  case (1 p r c g)
  obtain A lp where p: "p = (A, lp)" by (cases p)
  obtain w where w: "local_wrap A lp (en_nonce r) (en_key r) c = Inr w"
    and g: "g = \<lparr>wd_wrapped = wd_wrapped w, wd_kek_uri = wd_kek_uri w, wd_kek_version = wd_kek_version w, gd_plaintext = en_key r\<rparr>"
    using 1(3) by (auto simp: p local_ops_def local_generate_def Let_def split: sum.splits)
  show ?case
    using local_wrap_unwrap[OF _ _ _ _ w] 1(1,2) by (simp add: p g local_ops_def local_ok_def entropy_ok_def)
next
  case (2 p r w c u v dek g)
  obtain A lp where p: "p = (A, lp)" by (cases p)
  have u: "local_unwrap A lp w c u v = Inr dek"
    using 2(3) by (simp add: p local_ops_def)
  then have "local_wrap A lp (en_nonce r) dek c = Inr g"
    using 2(4) by (simp add: p local_ops_def local_rewrap_def)
  from local_wrap_unwrap[OF _ _ _ local_unwrap_size[OF u] this] show ?case
    using 2(1,2) by (simp add: p local_ops_def local_ok_def entropy_ok_def)
next
  case (3 p w c u v dek)
  then show ?case using local_unwrap_size by (cases p) (auto simp: local_ops_def)
next
  case (4 p w c u v dek)
  then show ?case using local_unwrap_uri by (cases p) (auto simp: local_ops_def)
qed

section \<open>Secret files\<close>

text \<open>The file as the reader finds it: its size when \<^verbatim>\<open>fstat\<close> is called, and the content a read sees,
  which may have grown since. \<open>Unreadable\<close> is any \<^verbatim>\<open>OSError\<close>.\<close>

datatype secret_file = Unreadable | Secret_File (st_size: nat) (content: bytes)

datatype secret_error = Secret_TooLarge | Secret_Unreadable | Secret_Encoding | Secret_Budget

definition MAX_SECRET_FILE_BYTES :: nat where
  "MAX_SECRET_FILE_BYTES = 16384"

definition read_secret_text :: "secret_file \<Rightarrow> int \<Rightarrow> (secret_error + ustr)" where
  "read_secret_text f max_bytes =
     (if \<not> (1 \<le> max_bytes \<and> max_bytes \<le> int MAX_SECRET_FILE_BYTES) then Inl Secret_Budget
      else case f of
        Unreadable \<Rightarrow> Inl Secret_Unreadable
      | Secret_File n bs \<Rightarrow>
          if int n > max_bytes then Inl Secret_TooLarge
          else let payload = take (nat max_bytes + 1) bs
               in if int (length payload) > max_bytes then Inl Secret_TooLarge
                  else case utf8_decode_bytes payload of
                    None \<Rightarrow> Inl Secret_Encoding
                  | Some t \<Rightarrow> Inr t)"

lemma read_secret_text_Inr:
  "read_secret_text f m = Inr t \<longleftrightarrow>
     1 \<le> m \<and> m \<le> int MAX_SECRET_FILE_BYTES \<and>
     (\<exists>n bs. f = Secret_File n bs \<and> int n \<le> m \<and> int (length bs) \<le> m \<and> utf8_decode_bytes bs = Some t)"
  by (cases f) (auto simp: read_secret_text_def Let_def min_def split: option.splits if_splits)

section \<open>Vault Transit\<close>

text \<open>\<^verbatim>\<open>str.strip\<close> on code points: the characters for which \<^verbatim>\<open>str.isspace\<close> holds.\<close>

definition uspace :: "nat \<Rightarrow> bool" where
  "uspace n \<longleftrightarrow> n \<in> {9, 10, 11, 12, 13, 28, 29, 30, 31, 32, 133, 160, 5760, 8232, 8233, 8239, 8287, 12288}
                \<or> (8192 \<le> n \<and> n \<le> 8202)"

definition ustrip :: "ustr \<Rightarrow> ustr" where
  "ustrip s = rev (dropWhile uspace (rev (dropWhile uspace s)))"

definition safe_vault_name :: "string \<Rightarrow> bool" where
  "safe_vault_name s \<longleftrightarrow>
     s \<noteq> [] \<and> is_ascii_alnum (hd s) \<and> length s \<le> 128 \<and> list_all (\<lambda>c. is_ascii_alnum c \<or> c \<in> set ''_.-'') (tl s)"

text \<open>\<^verbatim>\<open>urllib.parse.quote\<close> of a text, with the given safe characters.\<close>

definition upper_hex :: "nat \<Rightarrow> char" where
  "upper_hex n = (if n < 10 then char_of (48 + n) else char_of (55 + n))"

definition py_quote :: "string \<Rightarrow> string \<Rightarrow> string" where
  "py_quote safe s =
     concat (map (\<lambda>c. if is_ascii_alnum c \<or> c \<in> set ''_.-~'' \<or> c \<in> set safe then [c]
                      else [CHR ''%'', upper_hex (code c div 16), upper_hex (code c mod 16)]) (utf8 s))"

record parsed_url =
  pu_scheme :: string
  pu_username :: "string option"
  pu_password :: "string option"
  pu_query :: string
  pu_fragment :: string
  pu_hostname :: "string option"

definition given :: "string option \<Rightarrow> bool" where
  "given v \<longleftrightarrow> (case v of None \<Rightarrow> False | Some s \<Rightarrow> s \<noteq> [])"

datatype vault_field = V_Str string | V_Other string

type_synonym vault_data = "(string, vault_field) pydict"

text \<open>The reply of the HTTP exchange: an I/O or JSON error, a body that is not UTF-8, a document
  without a \<^verbatim>\<open>data\<close> object, or the object.\<close>

datatype vault_reply = Reply_Failed | Reply_Not_Utf8 | Reply_No_Data | Reply_Data vault_data

record vault_request =
  vq_url :: string
  vq_token :: ustr
  vq_namespace :: "string option"
  vq_payload :: "(string \<times> jval) list"

record vault =
  va_address :: string
  va_token_file :: secret_file
  va_mount :: string
  va_key_name :: string
  va_namespace :: string
  va_kek_uri :: string
  va_http :: "entropy \<Rightarrow> vault_request \<Rightarrow> vault_reply"

definition vault_token :: "secret_file \<Rightarrow> (key_error + ustr)" where
  "vault_token f =
     (case read_secret_text f 4096 of
        Inl e \<Rightarrow> Inl (KeyProviderError (if e = Secret_TooLarge then ''Vault workload token is invalid.''
                                        else ''Vault workload token is unavailable.''))
      | Inr raw \<Rightarrow>
          let token = ustrip raw
          in if token = [] \<or> length token > 4096 \<or> list_ex (\<lambda>c. c \<in> set token) [0, 10, 13]
             then Inl (KeyProviderError ''Vault workload token is invalid.'')
             else Inr token)"

definition vault_init ::
  "parsed_url \<Rightarrow> string \<Rightarrow> secret_file option \<Rightarrow> string \<Rightarrow> string \<Rightarrow> string \<Rightarrow> bool \<Rightarrow>
   (entropy \<Rightarrow> vault_request \<Rightarrow> vault_reply) \<Rightarrow> (key_error + vault)" where
  "vault_init parsed address token_file key_name mount namespace allow_insecure_http http =
     (let normalized = py_strip namespace
      in if \<not> (pu_scheme parsed = ''https'' \<or> (allow_insecure_http \<and> pu_scheme parsed = ''http''))
         then Inl (Value_Error ''Vault address must use HTTPS.'')
         else if given (pu_username parsed) \<or> given (pu_password parsed) \<or> pu_query parsed \<noteq> [] \<or> pu_fragment parsed \<noteq> []
         then Inl (Value_Error ''Vault address must not contain credentials, query or fragment.'')
         else if \<not> given (pu_hostname parsed) then Inl (Value_Error ''Vault address is invalid.'')
         else if \<not> safe_vault_name mount \<or> \<not> safe_vault_name key_name
         then Inl (Value_Error ''Vault mount and key name contain unsupported characters.'')
         else case token_file of
           None \<Rightarrow> Inl (Value_Error ''Vault token file is required; do not embed the token in configuration.'')
         | Some f \<Rightarrow>
             if length normalized > 256 \<or> list_ex (\<lambda>c. code c < 32 \<or> code c = 127) normalized
             then Inl (Value_Error ''Vault namespace contains unsupported characters.'')
             else case vault_token f of
               Inl e \<Rightarrow> Inl e
             | Inr _ \<Rightarrow>
                 Inr \<lparr>va_address = rstrip_char (CHR ''/'') address, va_token_file = f, va_mount = mount,
                      va_key_name = key_name, va_namespace = normalized,
                      va_kek_uri = ''vault://'' @ mount @ ''/'' @ key_name, va_http = http\<rparr>)"

definition vault_post :: "vault \<Rightarrow> entropy \<Rightarrow> string \<Rightarrow> (string \<times> jval) list \<Rightarrow> (key_error + vault_data)" where
  "vault_post v r operation payload =
     (case vault_token (va_token_file v) of
        Inl e \<Rightarrow> Inl e
      | Inr token \<Rightarrow>
          (case va_http v r
             \<lparr>vq_url = va_address v @ ''/v1/'' @ py_quote [] (va_mount v) @ ''/'' @ operation @ ''/'' @ py_quote [] (va_key_name v),
              vq_token = token,
              vq_namespace = (if va_namespace v = [] then None else Some (va_namespace v)),
              vq_payload = payload\<rparr> of
             Reply_Failed \<Rightarrow> Inl (KeyProviderError ''Vault Transit operation failed.'')
           | Reply_Not_Utf8 \<Rightarrow> Inl (Value_Error ''utf-8'')
           | Reply_No_Data \<Rightarrow> Inl (KeyProviderError ''Vault Transit returned an invalid response.'')
           | Reply_Data data \<Rightarrow> Inr data))"

definition vault_context :: "key_context \<Rightarrow> (key_error + jval)" where
  "vault_context c =
     (case canonical_context c of
        None \<Rightarrow> Inl (Value_Error ''Encryption context must contain non-empty bounded keys.'')
      | Some b \<Rightarrow> Inr (JStr (b64encode False b)))"

text \<open>\<^verbatim>\<open>ciphertext.split(":", 2)\<close>: the middle field of a \<^verbatim>\<open>vault:<version>:<rest>\<close> text.\<close>

definition vault_version :: "string \<Rightarrow> string" where
  "vault_version ciphertext =
     (let head = takeWhile (\<lambda>c. c \<noteq> CHR '':'') ciphertext;
          after = dropWhile (\<lambda>c. c \<noteq> CHR '':'') ciphertext;
          middle = takeWhile (\<lambda>c. c \<noteq> CHR '':'') (tl after);
          last = dropWhile (\<lambda>c. c \<noteq> CHR '':'') (tl after)
      in if after \<noteq> [] \<and> last \<noteq> [] \<and> head = ''vault'' then middle else ''unknown'')"

definition vault_plaintext :: "vault_data \<Rightarrow> bytes option" where
  "vault_plaintext data =
     (case dict_get data ''plaintext'' of Some (V_Str s) \<Rightarrow> b64decode False s | _ \<Rightarrow> None)"

definition field_text :: "vault_field \<Rightarrow> string" where
  "field_text f = (case f of V_Str s \<Rightarrow> s | V_Other s \<Rightarrow> s)"

definition vault_generate :: "vault \<Rightarrow> entropy \<Rightarrow> key_context \<Rightarrow> (key_error + generated_dek)" where
  "vault_generate v r context =
     (case vault_context context of Inl e \<Rightarrow> Inl e | Inr ctx \<Rightarrow>
     (case vault_post v r ''datakey/plaintext'' [(''bits'', JInt 256), (''context'', ctx)] of Inl e \<Rightarrow> Inl e | Inr data \<Rightarrow>
     (case (vault_plaintext data, dict_get data ''ciphertext'') of
        (Some plaintext, Some f) \<Rightarrow>
          let ciphertext = field_text f
          in if length plaintext \<noteq> 32 \<or> \<not> startswith ciphertext ''vault:v''
             then Inl (KeyProviderError ''Vault Transit returned an invalid data key.'')
             else Inr \<lparr>wd_wrapped = ciphertext, wd_kek_uri = va_kek_uri v,
                       wd_kek_version = vault_version ciphertext, gd_plaintext = plaintext\<rparr>
      | _ \<Rightarrow> Inl (KeyProviderError ''Vault Transit returned an invalid data key.''))))"

definition no_entropy :: entropy where
  "no_entropy = \<lparr>en_key = [], en_nonce = []\<rparr>"

definition vault_unwrap :: "vault \<Rightarrow> string \<Rightarrow> key_context \<Rightarrow> string \<Rightarrow> string \<Rightarrow> (key_error + bytes)" where
  "vault_unwrap v wrapped context kek_uri kek_version =
     (case check_uri ''Stored KEK URI does not match the configured Vault key.'' kek_uri (va_kek_uri v) of
        Inl e \<Rightarrow> Inl e | Inr _ \<Rightarrow>
     (case vault_context context of Inl e \<Rightarrow> Inl e | Inr ctx \<Rightarrow>
     (case vault_post v no_entropy ''decrypt'' [(''ciphertext'', JStr wrapped), (''context'', ctx)] of
        Inl e \<Rightarrow> Inl e | Inr data \<Rightarrow>
     (case vault_plaintext data of
        None \<Rightarrow> Inl (KeyProviderError ''Vault Transit returned an invalid plaintext key.'')
      | Some plaintext \<Rightarrow>
          if length plaintext \<noteq> 32 then Inl (KeyProviderError ''Vault Transit returned an invalid DEK length.'')
          else Inr plaintext))))"

definition vault_rewrap ::
  "vault \<Rightarrow> entropy \<Rightarrow> string \<Rightarrow> key_context \<Rightarrow> string \<Rightarrow> string \<Rightarrow> (key_error + wrapped_dek)" where
  "vault_rewrap v r wrapped context kek_uri kek_version =
     (case check_uri ''Stored KEK URI does not match the configured Vault key.'' kek_uri (va_kek_uri v) of
        Inl e \<Rightarrow> Inl e | Inr _ \<Rightarrow>
     (case vault_context context of Inl e \<Rightarrow> Inl e | Inr ctx \<Rightarrow>
     (case vault_post v r ''rewrap'' [(''ciphertext'', JStr wrapped), (''context'', ctx)] of
        Inl e \<Rightarrow> Inl e | Inr data \<Rightarrow>
     (case dict_get data ''ciphertext'' of
        Some (V_Str ciphertext) \<Rightarrow>
          if startswith ciphertext ''vault:v''
          then Inr \<lparr>wd_wrapped = ciphertext, wd_kek_uri = va_kek_uri v, wd_kek_version = vault_version ciphertext\<rparr>
          else Inl (KeyProviderError ''Vault Transit returned an invalid rewrapped key.'')
      | _ \<Rightarrow> Inl (KeyProviderError ''Vault Transit returned an invalid rewrapped key.'')))))"

definition vault_ops :: "vault \<Rightarrow> provider" where
  "vault_ops v = \<lparr>pv_generate = vault_generate v, pv_unwrap = vault_unwrap v, pv_rewrap = vault_rewrap v\<rparr>"

text \<open>Documented behaviour of the Transit engine: \<^verbatim>\<open>decrypt\<close> returns the data key that
  \<^verbatim>\<open>datakey/plaintext\<close> gave out with a ciphertext, and a rewrapped ciphertext decrypts to the same
  plaintext, under the context it was made with.\<close>

definition transit_ok :: "vault \<Rightarrow> bool" where
  "transit_ok v \<longleftrightarrow> is_ascii (va_kek_uri v) \<and>
     (\<forall>r s ctx data f.
        vault_post v r ''datakey/plaintext'' [(''bits'', JInt 256), (''context'', ctx)] = Inr data \<and>
        dict_get data ''ciphertext'' = Some f \<longrightarrow>
        (\<exists>d. vault_post v s ''decrypt'' [(''ciphertext'', JStr (field_text f)), (''context'', ctx)] = Inr d \<and>
             dict_get d ''plaintext'' = dict_get data ''plaintext'')) \<and>
     (\<forall>r s w ctx d data f.
        vault_post v s ''decrypt'' [(''ciphertext'', JStr w), (''context'', ctx)] = Inr d \<and>
        vault_post v r ''rewrap'' [(''ciphertext'', JStr w), (''context'', ctx)] = Inr data \<and>
        dict_get data ''ciphertext'' = Some (V_Str f) \<longrightarrow>
        (\<exists>d'. vault_post v s ''decrypt'' [(''ciphertext'', JStr f), (''context'', ctx)] = Inr d' \<and>
              dict_get d' ''plaintext'' = dict_get d ''plaintext''))"

lemma transit_generate:
  assumes "transit_ok v" "vault_generate v r c = Inr g"
  shows "vault_unwrap v (wd_wrapped g) c (wd_kek_uri g) (wd_kek_version g) = Inr (gd_plaintext g)"
proof -
  obtain ctx data pt f where ctx: "vault_context c = Inr ctx"
    and post: "vault_post v r ''datakey/plaintext'' [(''bits'', JInt 256), (''context'', ctx)] = Inr data"
    and pt: "vault_plaintext data = Some pt" "length pt = 32" and f: "dict_get data ''ciphertext'' = Some f"
    and g: "g = \<lparr>wd_wrapped = field_text f, wd_kek_uri = va_kek_uri v, wd_kek_version = vault_version (field_text f), gd_plaintext = pt\<rparr>"
    using assms(2) by (auto simp: vault_generate_def Let_def split: sum.splits option.splits if_splits)
  obtain d where d: "vault_post v no_entropy ''decrypt'' [(''ciphertext'', JStr (field_text f)), (''context'', ctx)] = Inr d"
      "dict_get d ''plaintext'' = dict_get data ''plaintext''"
    using assms(1) post f unfolding transit_ok_def by blast
  have "check_uri m (va_kek_uri v) (va_kek_uri v) = Inr ()" for m
    using assms(1) by (simp add: check_uri_Inr transit_ok_def)
  then show ?thesis
    using ctx pt d by (simp add: vault_unwrap_def g vault_plaintext_def)
qed

lemma transit_rewrap:
  assumes "transit_ok v" "vault_unwrap v w c u k = Inr dek" "vault_rewrap v r w c u k = Inr g"
  shows "vault_unwrap v (wd_wrapped g) c (wd_kek_uri g) (wd_kek_version g) = Inr dek"
proof -
  obtain ctx d where ctx: "vault_context c = Inr ctx" and uri: "u = va_kek_uri v" "is_ascii (va_kek_uri v)"
    and d: "vault_post v no_entropy ''decrypt'' [(''ciphertext'', JStr w), (''context'', ctx)] = Inr d"
      "vault_plaintext d = Some dek" "length dek = 32"
    using assms(2) by (auto simp: vault_unwrap_def check_uri_Inr split: sum.splits option.splits if_splits)
  obtain data f where post: "vault_post v r ''rewrap'' [(''ciphertext'', JStr w), (''context'', ctx)] = Inr data"
    and f: "dict_get data ''ciphertext'' = Some (V_Str f)"
    and g: "g = \<lparr>wd_wrapped = f, wd_kek_uri = va_kek_uri v, wd_kek_version = vault_version f\<rparr>"
    using assms(3) ctx by (auto simp: vault_rewrap_def split: sum.splits option.splits if_splits vault_field.splits)
  obtain d' where "vault_post v no_entropy ''decrypt'' [(''ciphertext'', JStr f), (''context'', ctx)] = Inr d'"
      "dict_get d' ''plaintext'' = dict_get d ''plaintext''"
    using assms(1) d(1) post f unfolding transit_ok_def by blast
  moreover have "check_uri m (va_kek_uri v) (va_kek_uri v) = Inr ()" for m
    using uri by (simp add: check_uri_Inr)
  ultimately show ?thesis
    using ctx d by (simp add: vault_unwrap_def g vault_plaintext_def)
qed

interpretation vault_keys: key_provider vault_ops transit_ok va_kek_uri
proof (unfold_locales, goal_cases)
  case (1 p r c g)
  then show ?case using transit_generate by (simp add: vault_ops_def)
next
  case (2 p r w c u v dek g)
  then show ?case using transit_rewrap by (simp add: vault_ops_def)
next
  case (3 p w c u v dek)
  then show ?case by (auto simp: vault_ops_def vault_unwrap_def split: sum.splits option.splits if_splits)
next
  case (4 p w c u v dek)
  then show ?case by (auto simp: vault_ops_def vault_unwrap_def check_uri_Inr split: sum.splits option.splits if_splits)
qed

section \<open>AWS KMS\<close>

text \<open>The KMS client: \<open>None\<close> is any exception of a call or of reading its result. A result that
  carries no \<^verbatim>\<open>KeyId\<close> counts as version \<^verbatim>\<open>current\<close>.\<close>

record aws_kms =
  aw_key_id :: string
  aw_kek_uri :: string
  aw_generate_data_key :: "entropy \<Rightarrow> string \<Rightarrow> key_context \<Rightarrow> (bytes \<times> bytes \<times> string option) option"
  aw_decrypt :: "string \<Rightarrow> bytes \<Rightarrow> key_context \<Rightarrow> bytes option"
  aw_re_encrypt :: "entropy \<Rightarrow> bytes \<Rightarrow> key_context \<Rightarrow> string \<Rightarrow> key_context \<Rightarrow> (bytes \<times> string option) option"

definition aws_uri :: "string \<Rightarrow> string \<Rightarrow> string" where
  "aws_uri region key_id = ''aws-kms://'' @ (if region = [] then ''default'' else region) @ ''/'' @ key_id"

definition aws_context :: "key_context \<Rightarrow> key_context" where
  "aws_context c = fold (\<lambda>(k, v). dict_set k v) c [(''scap-format'', ''v1'')]"

definition key_id_text :: "string option \<Rightarrow> string" where
  "key_id_text k = (case k of None \<Rightarrow> ''current'' | Some s \<Rightarrow> s)"

definition aws_generate :: "aws_kms \<Rightarrow> entropy \<Rightarrow> key_context \<Rightarrow> (key_error + generated_dek)" where
  "aws_generate a r context =
     (case aw_generate_data_key a r (aw_key_id a) (aws_context context) of
        None \<Rightarrow> Inl (KeyProviderError ''AWS KMS data-key generation failed.'')
      | Some (plaintext, blob, key_id) \<Rightarrow>
          if length plaintext \<noteq> 32 then Inl (KeyProviderError ''AWS KMS returned an invalid DEK length.'')
          else Inr \<lparr>wd_wrapped = b64encode True blob, wd_kek_uri = aw_kek_uri a,
                    wd_kek_version = key_id_text key_id, gd_plaintext = plaintext\<rparr>)"

definition aws_unwrap :: "aws_kms \<Rightarrow> string \<Rightarrow> key_context \<Rightarrow> string \<Rightarrow> string \<Rightarrow> (key_error + bytes)" where
  "aws_unwrap a wrapped context kek_uri kek_version =
     (case check_uri ''Stored KEK URI does not match the configured AWS KMS key.'' kek_uri (aw_kek_uri a) of
        Inl e \<Rightarrow> Inl e | Inr _ \<Rightarrow>
     (case Option.bind (b64decode True wrapped) (\<lambda>blob. aw_decrypt a (aw_key_id a) blob (aws_context context)) of
        None \<Rightarrow> Inl (KeyProviderError ''AWS KMS unwrap failed.'')
      | Some plaintext \<Rightarrow>
          if length plaintext \<noteq> 32 then Inl (KeyProviderError ''AWS KMS returned an invalid DEK length.'')
          else Inr plaintext))"

definition aws_rewrap ::
  "aws_kms \<Rightarrow> entropy \<Rightarrow> string \<Rightarrow> key_context \<Rightarrow> string \<Rightarrow> string \<Rightarrow> (key_error + wrapped_dek)" where
  "aws_rewrap a r wrapped context kek_uri kek_version =
     (case check_uri ''Stored KEK URI does not match the configured AWS KMS key.'' kek_uri (aw_kek_uri a) of
        Inl e \<Rightarrow> Inl e | Inr _ \<Rightarrow>
     (case Option.bind (b64decode True wrapped)
             (\<lambda>blob. aw_re_encrypt a r blob (aws_context context) (aw_key_id a) (aws_context context)) of
        None \<Rightarrow> Inl (KeyProviderError ''AWS KMS rewrap failed.'')
      | Some (blob, key_id) \<Rightarrow>
          Inr \<lparr>wd_wrapped = b64encode True blob, wd_kek_uri = aw_kek_uri a, wd_kek_version = key_id_text key_id\<rparr>))"

definition aws_ops :: "aws_kms \<Rightarrow> provider" where
  "aws_ops a = \<lparr>pv_generate = aws_generate a, pv_unwrap = aws_unwrap a, pv_rewrap = aws_rewrap a\<rparr>"

text \<open>Documented behaviour of KMS: \<^verbatim>\<open>Decrypt\<close> returns the data key of a blob of \<^verbatim>\<open>GenerateDataKey\<close>, and
  \<^verbatim>\<open>ReEncrypt\<close> keeps the plaintext, under the same encryption context.\<close>

definition kms_ok :: "aws_kms \<Rightarrow> bool" where
  "kms_ok a \<longleftrightarrow> is_ascii (aw_kek_uri a) \<and>
     (\<forall>r c p b k. aw_generate_data_key a r (aw_key_id a) c = Some (p, b, k) \<longrightarrow> aw_decrypt a (aw_key_id a) b c = Some p) \<and>
     (\<forall>r c p b b' k. aw_decrypt a (aw_key_id a) b c = Some p \<and> aw_re_encrypt a r b c (aw_key_id a) c = Some (b', k) \<longrightarrow>
        aw_decrypt a (aw_key_id a) b' c = Some p)"

lemma check_uri_same: "is_ascii u \<Longrightarrow> check_uri m u u = Inr ()"
  by (simp add: check_uri_Inr)

lemma kms_okD:
  "kms_ok a \<Longrightarrow> is_ascii (aw_kek_uri a)"
  "kms_ok a \<Longrightarrow> aw_generate_data_key a r (aw_key_id a) c = Some (p, b, k) \<Longrightarrow> aw_decrypt a (aw_key_id a) b c = Some p"
  unfolding kms_ok_def by blast+

interpretation aws_keys: key_provider aws_ops kms_ok aw_kek_uri
proof (unfold_locales, goal_cases)
  case (1 p r c g)
  obtain pt b k where gen: "aw_generate_data_key p r (aw_key_id p) (aws_context c) = Some (pt, b, k)" "length pt = 32"
    and g: "g = \<lparr>wd_wrapped = b64encode True b, wd_kek_uri = aw_kek_uri p, wd_kek_version = key_id_text k, gd_plaintext = pt\<rparr>"
    using 1(3) by (auto simp: aws_ops_def aws_generate_def split: option.splits if_splits)
  show ?case
    using check_uri_same[OF kms_okD(1)[OF 1(1)]] kms_okD(2)[OF 1(1) gen(1)] gen(2)
    by (simp add: aws_ops_def aws_unwrap_def b64_roundtrip g)
next
  case (2 p r w c u v dek g)
  have "check_uri m (aw_kek_uri p) (aw_kek_uri p) = Inr ()" for m
    by (rule check_uri_same[OF kms_okD(1)[OF 2(1)]])
  moreover obtain b where b: "b64decode True w = Some b" "aw_decrypt p (aw_key_id p) b (aws_context c) = Some dek" "length dek = 32"
    using 2(3) by (auto simp: aws_ops_def aws_unwrap_def bind_eq_Some_conv split: sum.splits option.splits if_splits)
  moreover obtain b' k where b': "aw_re_encrypt p r b (aws_context c) (aw_key_id p) (aws_context c) = Some (b', k)"
    and g: "g = \<lparr>wd_wrapped = b64encode True b', wd_kek_uri = aw_kek_uri p, wd_kek_version = key_id_text k\<rparr>"
    using 2(4) b(1) by (auto simp: aws_ops_def aws_rewrap_def split: sum.splits option.splits)
  moreover have "aw_decrypt p (aw_key_id p) b' (aws_context c) = Some dek"
    using 2(1) b(2) b' unfolding kms_ok_def by blast
  ultimately show ?case
    by (simp add: aws_ops_def aws_unwrap_def b64_roundtrip)
next
  case (3 p w c u v dek)
  then show ?case by (auto simp: aws_ops_def aws_unwrap_def split: sum.splits option.splits if_splits)
next
  case (4 p w c u v dek)
  then show ?case by (auto simp: aws_ops_def aws_unwrap_def check_uri_Inr split: sum.splits option.splits if_splits)
qed

section \<open>Google Cloud KMS\<close>

record gcp_kms =
  gc_key_name :: string
  gc_kek_uri :: string
  gc_encrypt :: "entropy \<Rightarrow> string \<Rightarrow> bytes \<Rightarrow> bytes \<Rightarrow> bytes option"
  gc_decrypt :: "string \<Rightarrow> bytes \<Rightarrow> bytes \<Rightarrow> bytes option"

definition gcp_uri :: "string \<Rightarrow> string" where
  "gcp_uri key_name = ''gcp-kms://'' @ key_name"

definition gcp_wrap :: "gcp_kms \<Rightarrow> entropy \<Rightarrow> bytes \<Rightarrow> key_context \<Rightarrow> (key_error + wrapped_dek)" where
  "gcp_wrap g r dek context =
     (case Option.bind (canonical_context context) (gc_encrypt g r (gc_key_name g) dek) of
        None \<Rightarrow> Inl (KeyProviderError ''Google Cloud KMS wrap failed.'')
      | Some ct \<Rightarrow> Inr \<lparr>wd_wrapped = b64encode True ct, wd_kek_uri = gc_kek_uri g, wd_kek_version = ''current''\<rparr>)"

definition gcp_generate :: "gcp_kms \<Rightarrow> entropy \<Rightarrow> key_context \<Rightarrow> (key_error + generated_dek)" where
  "gcp_generate g r context =
     (case gcp_wrap g r (en_key r) context of
        Inl e \<Rightarrow> Inl e
      | Inr w \<Rightarrow> Inr \<lparr>wd_wrapped = wd_wrapped w, wd_kek_uri = wd_kek_uri w,
                      wd_kek_version = wd_kek_version w, gd_plaintext = en_key r\<rparr>)"

definition gcp_unwrap :: "gcp_kms \<Rightarrow> string \<Rightarrow> key_context \<Rightarrow> string \<Rightarrow> string \<Rightarrow> (key_error + bytes)" where
  "gcp_unwrap g wrapped context kek_uri kek_version =
     (case check_uri ''Stored KEK URI does not match the configured GCP KMS key.'' kek_uri (gc_kek_uri g) of
        Inl e \<Rightarrow> Inl e | Inr _ \<Rightarrow>
     (case Option.bind (b64decode True wrapped)
             (\<lambda>ct. Option.bind (canonical_context context) (gc_decrypt g (gc_key_name g) ct)) of
        None \<Rightarrow> Inl (KeyProviderError ''Google Cloud KMS unwrap failed.'')
      | Some plaintext \<Rightarrow>
          if length plaintext \<noteq> 32 then Inl (KeyProviderError ''Google Cloud KMS returned an invalid DEK length.'')
          else Inr plaintext))"

definition gcp_rewrap ::
  "gcp_kms \<Rightarrow> entropy \<Rightarrow> string \<Rightarrow> key_context \<Rightarrow> string \<Rightarrow> string \<Rightarrow> (key_error + wrapped_dek)" where
  "gcp_rewrap g r wrapped context kek_uri kek_version =
     (case gcp_unwrap g wrapped context kek_uri kek_version of
        Inl e \<Rightarrow> Inl e
      | Inr plaintext \<Rightarrow> gcp_wrap g r plaintext context)"

definition gcp_ops :: "gcp_kms \<Rightarrow> provider" where
  "gcp_ops g = \<lparr>pv_generate = gcp_generate g, pv_unwrap = gcp_unwrap g, pv_rewrap = gcp_rewrap g\<rparr>"

definition gcp_ok :: "gcp_kms \<Rightarrow> bool" where
  "gcp_ok g \<longleftrightarrow> is_ascii (gc_kek_uri g) \<and>
     (\<forall>r p a ct. gc_encrypt g r (gc_key_name g) p a = Some ct \<longrightarrow> gc_decrypt g (gc_key_name g) ct a = Some p)"

lemma gcp_wrap_unwrap:
  assumes "gcp_ok g" "length dek = 32" "gcp_wrap g r dek c = Inr w"
  shows "gcp_unwrap g (wd_wrapped w) c (wd_kek_uri w) (wd_kek_version w) = Inr dek"
proof -
  have "is_ascii (gc_kek_uri g)"
    using assms(1) unfolding gcp_ok_def by blast
  then have "check_uri m (gc_kek_uri g) (gc_kek_uri g) = Inr ()" for m
    by (rule check_uri_same)
  moreover obtain a ct where ct: "canonical_context c = Some a" "gc_encrypt g r (gc_key_name g) dek a = Some ct"
    and w: "w = \<lparr>wd_wrapped = b64encode True ct, wd_kek_uri = gc_kek_uri g, wd_kek_version = ''current''\<rparr>"
    using assms(3) by (auto simp: gcp_wrap_def bind_eq_Some_conv split: option.splits)
  moreover have "gc_decrypt g (gc_key_name g) ct a = Some dek"
    using assms(1) ct unfolding gcp_ok_def by blast
  ultimately show ?thesis
    using assms(2) by (simp add: gcp_unwrap_def b64_roundtrip)
qed

lemma gcp_unwrap_size: "gcp_unwrap g w c u v = Inr dek \<Longrightarrow> length dek = 32"
  by (auto simp: gcp_unwrap_def split: sum.splits option.splits if_splits)

interpretation gcp_keys: key_provider gcp_ops gcp_ok gc_kek_uri
proof (unfold_locales, goal_cases)
  case (1 p r c g)
  obtain w where w: "gcp_wrap p r (en_key r) c = Inr w"
    and g: "g = \<lparr>wd_wrapped = wd_wrapped w, wd_kek_uri = wd_kek_uri w, wd_kek_version = wd_kek_version w, gd_plaintext = en_key r\<rparr>"
    using 1(3) by (auto simp: gcp_ops_def gcp_generate_def split: sum.splits)
  from gcp_wrap_unwrap[OF 1(1) _ w] show ?case
    using 1(2) by (simp add: g gcp_ops_def entropy_ok_def)
next
  case (2 p r w c u v dek g)
  then have u: "gcp_unwrap p w c u v = Inr dek"
    by (simp add: gcp_ops_def)
  then have "gcp_wrap p r dek c = Inr g"
    using 2(4) by (simp add: gcp_ops_def gcp_rewrap_def)
  from gcp_wrap_unwrap[OF 2(1) gcp_unwrap_size[OF u] this] show ?case
    by (simp add: gcp_ops_def)
next
  case (3 p w c u v dek)
  then show ?case using gcp_unwrap_size by (simp add: gcp_ops_def)
next
  case (4 p w c u v dek)
  then show ?case by (auto simp: gcp_ops_def gcp_unwrap_def check_uri_Inr split: sum.splits option.splits if_splits)
qed

section \<open>What the local keyring promises\<close>

lemma insort_key_map: "insort_key f (g x) (map g xs) = map g (insort_key (\<lambda>x. f (g x)) x xs)"
  by (induction xs) simp_all

lemma sort_key_map: "sort_key f (map g xs) = map g (sort_key (\<lambda>x. f (g x)) xs)"
  by (induction xs) (simp_all add: insort_key_map)

text \<open>Two contexts have the same canonical bytes only if they have the same items.\<close>

lemma canonical_context_inject:
  assumes "canonical_context c = Some b" "canonical_context d = Some b"
  shows "sort_key fst c = sort_key fst d"
proof -
  let ?j = "map (\<lambda>(k, v). (k, JStr v))"
  have sk: "sort_key fst (?j e) = ?j (sort_key fst e)" for e :: key_context
    by (simp add: sort_key_map split_def)
  have "json_dumps False (?j c) @ '','' @ json_string False ''format'' @ '':'' @ json_string False ''scap-kms-context-v1'' @ ''}''
      = json_dumps False (?j d) @ '','' @ json_string False ''format'' @ '':'' @ json_string False ''scap-kms-context-v1'' @ ''}''"
    using assms by (auto simp: canonical_context_def utf8_inject split: if_splits)
  then have "?j (sort_key fst c) = ?j (sort_key fst d)"
    using json_dumps_inject_app unfolding sk[symmetric] by blast
  moreover have "inj (\<lambda>(k, v). (k :: string, JStr v))"
    by (auto intro: injI)
  ultimately show ?thesis
    by (simp add: inj_map_eq_map)
qed

lemma canonical_context_cong:
  assumes "sort_key fst c = sort_key fst d"
  shows "canonical_context c = canonical_context d"
proof -
  have set: "set c = set d"
    using assms by (metis set_sort)
  have "json_dumps False (map (\<lambda>(k, v). (k, JStr v)) c) = json_dumps False (map (\<lambda>(k, v). (k, JStr v)) d)"
    using assms by (simp add: json_dumps_def sort_key_map split_def)
  moreover have "c = [] \<longleftrightarrow> d = []"
    using set by (metis set_empty)
  moreover have "list_ex P (dict_keys c) = list_ex P (dict_keys d)" for P
    using set by (simp add: list_ex_iff dict_keys_def)
  ultimately show ?thesis
    by (simp add: canonical_context_def)
qed

lemma local_unwrap_wrapped:
  assumes "aead_correct A" and "length nonce = 12" and "is_ascii (lp_kek_uri p)"
    and "dict_get (lp_keys p) v = Some key" and "canonical_context c = Some aad"
  shows "local_unwrap A p (b64encode True (nonce @ ae_encrypt A key nonce dek aad)) c' u v = Inr d \<longleftrightarrow>
         u = lp_kek_uri p \<and> (\<exists>b. canonical_context c' = Some b \<and>
           ae_decrypt A key nonce (ae_encrypt A key nonce dek aad) b = Some d) \<and> length d = 32"
proof (cases "u = lp_kek_uri p")
  case True
  then show ?thesis
    using assms aead_length[OF assms(1), of key nonce dek aad]
    by (auto simp: local_unwrap_def check_uri_same split: option.splits)
next
  case False
  then show ?thesis
    using local_unwrap_uri by blast
qed

text \<open>A data key that the local keyring wraps can be unwrapped: a keyring accepted at start-up
  always generates one, and unwrapping the stored text under the active version returns the very key
  exactly for the URI of the keyring and a context with the same items. Every other URI or context is
  refused (given that the cipher authenticates its associated data).\<close>

theorem local_keyring_binds:
  assumes "aead_correct A" and "aead_binding A" and "local_init keys active uri = Inr p"
    and "is_ascii uri" and "entropy_ok r" and "canonical_context c = Some aad"
  shows "\<exists>g. local_generate A p r c = Inr g \<and>
           (\<forall>c' u dek. local_unwrap A p (wd_wrapped g) c' u active = Inr dek \<longleftrightarrow>
              u = uri \<and> sort_key fst c' = sort_key fst c \<and> dek = en_key r)"
proof -
  have p: "p = \<lparr>lp_keys = keys, lp_active = active, lp_kek_uri = uri\<rparr>" "dict_has keys active"
    using assms(3) by (auto simp: local_init_def split: if_splits)
  then obtain key where key: "dict_get keys active = Some key"
    by (auto simp: dict_has_def)
  have g: "local_generate A p r c = Inr \<lparr>wd_wrapped = b64encode True (en_nonce r @ ae_encrypt A key (en_nonce r) (en_key r) aad),
      wd_kek_uri = uri, wd_kek_version = active, gd_plaintext = en_key r\<rparr>"
    using key assms(6) by (simp add: local_generate_def local_wrap_def p(1) Let_def)
  have dec: "(\<exists>b. canonical_context c' = Some b \<and>
        ae_decrypt A key (en_nonce r) (ae_encrypt A key (en_nonce r) (en_key r) aad) b = Some d) \<longleftrightarrow>
      canonical_context c' = Some aad \<and> d = en_key r" for c' d
    using aead_roundtrip[OF assms(1)] assms(2) unfolding aead_binding_def by (metis option.distinct(1) option.inject)
  have ctx: "canonical_context c' = Some aad \<longleftrightarrow> sort_key fst c' = sort_key fst c" for c'
    using canonical_context_inject canonical_context_cong assms(6) by metis
  show ?thesis
    using g local_unwrap_wrapped[OF assms(1), of "en_nonce r" p active key c aad "en_key r"] key assms(4-6)
    by (auto simp: p(1) entropy_ok_def dec ctx)
qed

text \<open>A cipher with the documented behaviour, to instantiate the hypotheses.\<close>

definition demo_aead :: aead where
  "demo_aead = \<lparr>
     ae_encrypt = (\<lambda>k n p a. replicate 16 (CHR 0x00) @ replicate (length p) (CHR 0x01) @ [CHR 0x00] @ p @ a),
     ae_decrypt = (\<lambda>k n c a.
       let body = drop 16 c; l = length (takeWhile (\<lambda>x. x = CHR 0x01) body); rest = drop (l + 1) body
       in if drop l rest = a then Some (take l rest) else None)\<rparr>"

lemma takeWhile_marks: "takeWhile (\<lambda>x. x = CHR 0x01) (replicate l (CHR 0x01) @ CHR 0x00 # s) = replicate l (CHR 0x01)"
  by (induction l) simp_all

lemma demo_aead_decrypt:
  "ae_decrypt demo_aead k n (ae_encrypt demo_aead k n p a) b = (if a = b then Some p else None)"
  by (simp add: demo_aead_def takeWhile_marks Let_def)

lemma demo_aead_correct: "aead_correct demo_aead"
  unfolding aead_correct_def by (simp add: demo_aead_decrypt) (simp add: demo_aead_def)

lemma demo_aead_binding: "aead_binding demo_aead"
  by (simp add: aead_binding_def demo_aead_decrypt)

definition demo_entropy :: entropy where
  "demo_entropy = \<lparr>en_key = replicate 32 (CHR 0x07), en_nonce = replicate 12 (CHR 0x09)\<rparr>"

lemma demo_entropy_ok: "entropy_ok demo_entropy"
  by (simp add: entropy_ok_def demo_entropy_def)

theorem local_keyring_binds_witness:
  "\<exists>p aad g. local_init [(''1'', replicate 32 (CHR 0x05))] ''1'' ''local://k'' = Inr p \<and>
     canonical_context [(''user_id'', ''u'')] = Some aad \<and>
     local_generate demo_aead p demo_entropy [(''user_id'', ''u'')] = Inr g \<and>
     local_unwrap demo_aead p (wd_wrapped g) [(''user_id'', ''u'')] ''local://k'' ''1'' = Inr (en_key demo_entropy) \<and>
     local_unwrap demo_aead p (wd_wrapped g) [(''user_id'', ''v'')] ''local://k'' ''1'' \<noteq> Inr (en_key demo_entropy)"
proof -
  let ?c = "[(''user_id'', ''u'')] :: key_context"
  obtain p where p: "local_init [(''1'', replicate 32 (CHR 0x05))] ''1'' ''local://k'' = Inr p"
    by (simp add: local_init_def dict_has_def dict_get_def dict_values_def)
  obtain aad where aad: "canonical_context ?c = Some aad"
    by (simp add: canonical_context_def dict_keys_def)
  have "is_ascii ''local://k''"
    by (simp add: is_ascii_def)
  from local_keyring_binds[OF demo_aead_correct demo_aead_binding p this demo_entropy_ok aad]
  show ?thesis
    using p aad by auto
qed

end
