(* ===== verification/Crypto.thy ===== *)
theory Crypto
  imports Keys
begin

text \<open>
  The shared-key cipher of \<^verbatim>\<open>security.py\<close>: \<^verbatim>\<open>CryptoService\<close> encrypts messages and account fields
  with AES-256-GCM under one active key of a versioned keyring and keeps every retired key for
  decryption.

  Plaintexts are lists of code points, stored texts are strings. The AEAD cipher is a parameter.
\<close>

datatype crypto_error =
    No_Key_Material
  | Key_Not_Base64 int
  | Key_Wrong_Length int
  | Active_Version_Missing int
  | Unsupported_Version int
  | Ciphertext_Invalid
  | Secret_Invalid
  | Plaintext_Unencodable

record crypto_service =
  cy_keys :: "(int, bytes) pydict"
  cy_version :: int

definition load_key :: "int \<Rightarrow> string \<Rightarrow> (crypto_error + bytes)" where
  "load_key version material =
     (if \<not> is_ascii (py_strip material) then Inl (Key_Not_Base64 version)
      else case urlsafe_b64decode_lax (py_strip material) of
        None \<Rightarrow> Inl (Key_Not_Base64 version)
      | Some key \<Rightarrow> if length key \<noteq> 32 then Inl (Key_Wrong_Length version) else Inr key)"

fun load_keys :: "(int, string) pydict \<Rightarrow> (crypto_error + (int, bytes) pydict)" where
  "load_keys [] = Inr []"
| "load_keys ((version, material) # ms) =
     (case load_key version material of
        Inl e \<Rightarrow> Inl e
      | Inr key \<Rightarrow> (case load_keys ms of Inl e \<Rightarrow> Inl e | Inr ks \<Rightarrow> Inr ((version, key) # ks)))"

definition dict_setdefault :: "'k \<Rightarrow> 'v \<Rightarrow> ('k, 'v) pydict \<Rightarrow> ('k, 'v) pydict" where
  "dict_setdefault k v d = (if dict_has d k then d else dict_set k v d)"

definition crypto_init ::
  "string \<Rightarrow> int \<Rightarrow> (int, string) pydict \<Rightarrow> int option \<Rightarrow> (crypto_error + crypto_service)" where
  "crypto_init master_key_b64 key_version keyring active_key_version =
     (let material = (if master_key_b64 \<noteq> [] then dict_setdefault key_version master_key_b64 keyring else keyring)
      in if material = [] then Inl No_Key_Material
         else case load_keys material of
           Inl e \<Rightarrow> Inl e
         | Inr keys \<Rightarrow>
             let chosen = (case active_key_version of Some v \<Rightarrow> v | None \<Rightarrow> Max (set (dict_keys keys)))
             in if \<not> dict_has keys chosen then Inl (Active_Version_Missing chosen)
                else Inr \<lparr>cy_keys = keys, cy_version = chosen\<rparr>)"

definition known_key_versions :: "crypto_service \<Rightarrow> int list" where
  "known_key_versions s = sort (dict_keys (cy_keys s))"

definition cipher_for :: "crypto_service \<Rightarrow> int \<Rightarrow> (crypto_error + bytes)" where
  "cipher_for s version =
     (case dict_get (cy_keys s) version of None \<Rightarrow> Inl (Unsupported_Version version) | Some key \<Rightarrow> Inr key)"

definition message_aad :: "string \<Rightarrow> string \<Rightarrow> int \<Rightarrow> bytes" where
  "message_aad session_id role key_version =
     utf8 (''secure-chat|'' @ session_id @ ''|'' @ role @ ''|v'' @ show_int key_version)"

definition field_aad :: "string \<Rightarrow> int \<Rightarrow> bytes" where
  "field_aad context key_version = utf8 (''secure-chat|field|'' @ context @ ''|v'' @ show_int key_version)"

text \<open>The active key exists in every service that starts; a missing one would be a \<^verbatim>\<open>KeyError\<close> of
  the constructor.\<close>

definition active_key :: "crypto_service \<Rightarrow> bytes" where
  "active_key s = (case dict_get (cy_keys s) (cy_version s) of Some k \<Rightarrow> k | None \<Rightarrow> [])"

definition encrypt_secret ::
  "aead \<Rightarrow> crypto_service \<Rightarrow> bytes \<Rightarrow> ustr \<Rightarrow> string \<Rightarrow> (crypto_error + string \<times> string)" where
  "encrypt_secret A s nonce plaintext context =
     (case utf8_encode plaintext of
        None \<Rightarrow> Inl Plaintext_Unencodable
      | Some data \<Rightarrow>
          Inr (b64encode True (ae_encrypt A (active_key s) nonce data (field_aad context (cy_version s))),
               b64encode True nonce))"

text \<open>The body of the \<^verbatim>\<open>try\<close>: both texts must be strict base64 and the nonce 12 bytes.\<close>

definition decode_stored :: "string \<Rightarrow> string \<Rightarrow> (bytes \<times> bytes) option" where
  "decode_stored ciphertext_b64 nonce_b64 =
     (case b64decode True ciphertext_b64 of
        None \<Rightarrow> None
      | Some ciphertext \<Rightarrow>
          (case b64decode True nonce_b64 of
             None \<Rightarrow> None
           | Some nonce \<Rightarrow> if length nonce \<noteq> 12 then None else Some (ciphertext, nonce)))"

definition open_text :: "aead \<Rightarrow> bytes \<Rightarrow> bytes \<Rightarrow> bytes \<Rightarrow> bytes \<Rightarrow> ustr option" where
  "open_text A key nonce ciphertext aad = Option.bind (ae_decrypt A key nonce ciphertext aad) utf8_decode_bytes"

fun try_versions ::
  "aead \<Rightarrow> crypto_service \<Rightarrow> bytes \<Rightarrow> bytes \<Rightarrow> string \<Rightarrow> int list \<Rightarrow> ustr option" where
  "try_versions A s nonce ciphertext context [] = None"
| "try_versions A s nonce ciphertext context (v # vs) =
     (case Option.bind (dict_get (cy_keys s) v)
             (\<lambda>key. open_text A key nonce ciphertext (field_aad context v)) of
        Some plaintext \<Rightarrow> Some plaintext
      | None \<Rightarrow> try_versions A s nonce ciphertext context vs)"

definition decrypt_secret ::
  "aead \<Rightarrow> crypto_service \<Rightarrow> string \<Rightarrow> string \<Rightarrow> string \<Rightarrow> (crypto_error + ustr)" where
  "decrypt_secret A s ciphertext_b64 nonce_b64 context =
     (case decode_stored ciphertext_b64 nonce_b64 of
        None \<Rightarrow> Inl Secret_Invalid
      | Some (ciphertext, nonce) \<Rightarrow>
          (case try_versions A s nonce ciphertext context
                  (cy_version s # filter (\<lambda>v. v \<noteq> cy_version s) (known_key_versions s)) of
             None \<Rightarrow> Inl Secret_Invalid
           | Some plaintext \<Rightarrow> Inr plaintext))"

definition crypto_encrypt ::
  "aead \<Rightarrow> crypto_service \<Rightarrow> bytes \<Rightarrow> ustr \<Rightarrow> string \<Rightarrow> string \<Rightarrow> (crypto_error + string \<times> string \<times> int)" where
  "crypto_encrypt A s nonce plaintext session_id role =
     (case utf8_encode plaintext of
        None \<Rightarrow> Inl Plaintext_Unencodable
      | Some data \<Rightarrow>
          Inr (b64encode True (ae_encrypt A (active_key s) nonce data (message_aad session_id role (cy_version s))),
               b64encode True nonce, cy_version s))"

definition crypto_decrypt ::
  "aead \<Rightarrow> crypto_service \<Rightarrow> string \<Rightarrow> string \<Rightarrow> string \<Rightarrow> string \<Rightarrow> int \<Rightarrow> (crypto_error + ustr)" where
  "crypto_decrypt A s ciphertext_b64 nonce_b64 session_id role key_version =
     (case cipher_for s key_version of
        Inl e \<Rightarrow> Inl e
      | Inr key \<Rightarrow>
          (case decode_stored ciphertext_b64 nonce_b64 of
             None \<Rightarrow> Inl Ciphertext_Invalid
           | Some (ciphertext, nonce) \<Rightarrow>
               (case open_text A key nonce ciphertext (message_aad session_id role key_version) of
                  None \<Rightarrow> Inl Ciphertext_Invalid
                | Some plaintext \<Rightarrow> Inr plaintext)))"

section \<open>Associated data\<close>

lemma show_int_no_bar: "CHR ''|'' \<notin> set (show_int v)"
  by (auto simp: show_int_def is_digit_def dest: show_nat_digits)

lemma show_int_inject: "show_int m = show_int n \<longleftrightarrow> m = n"
  using show_int_inject_app[of m "[]" n "[]"] by auto

lemma rsplit_field_inject:
  assumes "c \<notin> set x" "c \<notin> set y" "a @ c # x = b @ c # y"
  shows "a = b \<and> x = y"
  using split_field_inject[of c "rev x" "rev y" "rev a" "rev b"] arg_cong[OF assms(3), of rev] assms(1,2) by simp

lemma version_suffix_inject: "a @ ''|v'' @ show_int v = b @ ''|v'' @ show_int w \<Longrightarrow> a = b \<and> v = w"
  using rsplit_field_inject[of "CHR ''|''" "CHR ''v'' # show_int v" "CHR ''v'' # show_int w" a b]
    show_int_no_bar[of v] show_int_no_bar[of w] by (simp add: show_int_inject)

text \<open>A session identifier without a bar makes the associated data of a message unambiguous, and
  keeps it apart from the associated data of account fields.\<close>

lemma message_aad_inject:
  assumes "CHR ''|'' \<notin> set sid" "CHR ''|'' \<notin> set sid'"
  shows "message_aad sid role v = message_aad sid' role' v' \<longleftrightarrow> sid = sid' \<and> role = role' \<and> v = v'"
proof
  assume "message_aad sid role v = message_aad sid' role' v'"
  then have "(sid @ ''|'' @ role) @ ''|v'' @ show_int v = (sid' @ ''|'' @ role') @ ''|v'' @ show_int v'"
    by (simp add: message_aad_def utf8_inject)
  from version_suffix_inject[OF this] have "sid @ CHR ''|'' # role = sid' @ CHR ''|'' # role'" "v = v'"
    by simp_all
  with split_field_inject[OF assms] show "sid = sid' \<and> role = role' \<and> v = v'"
    by blast
qed simp

lemma field_aad_inject: "field_aad c v = field_aad c' v' \<longleftrightarrow> c = c' \<and> v = v'"
  using version_suffix_inject[of c v c' v'] by (auto simp: field_aad_def utf8_inject)

lemma field_aad_not_message:
  assumes "CHR ''|'' \<notin> set sid" "sid \<noteq> ''field''"
  shows "field_aad c v \<noteq> message_aad sid role v'"
proof
  assume "field_aad c v = message_aad sid role v'"
  then have "''field'' @ CHR ''|'' # (c @ ''|v'' @ show_int v) = sid @ CHR ''|'' # (role @ ''|v'' @ show_int v')"
    by (simp add: field_aad_def message_aad_def utf8_inject)
  then show False
    using split_field_inject[of "CHR ''|''" "''field''" sid] assms by auto
qed

section \<open>Round trips across key rotations\<close>

lemma load_keys_spec:
  "load_keys ms = Inr ks \<Longrightarrow> map fst ks = map fst ms \<and> list_all (\<lambda>k. length k = 32) (map snd ks)"
proof (induction ms arbitrary: ks rule: load_keys.induct)
  case (2 version material ms)
  then show ?case
    by (auto simp: load_key_def split: sum.splits option.splits if_splits)
qed simp

definition crypto_inv :: "crypto_service \<Rightarrow> bool" where
  "crypto_inv s \<longleftrightarrow> dict_has (cy_keys s) (cy_version s) \<and> list_all (\<lambda>k. length k = 32) (dict_values (cy_keys s))"

lemma crypto_init_inv: "crypto_init m v ring a = Inr s \<Longrightarrow> crypto_inv s"
  using load_keys_spec
  by (fastforce simp: crypto_init_def crypto_inv_def dict_values_def Let_def split: sum.splits if_splits)

lemma decode_stored_encoded [simp]:
  "length nonce = 12 \<Longrightarrow> decode_stored (b64encode True c) (b64encode True nonce) = Some (c, nonce)"
  by (simp add: decode_stored_def b64_roundtrip)

lemma open_text_same:
  assumes "aead_correct A" "utf8_encode p = Some data"
  shows "open_text A k n (ae_encrypt A k n data a) a = Some p"
  using assms aead_roundtrip utf8_roundtrip by (simp add: open_text_def)

lemma open_text_other:
  assumes "aead_binding A" "a \<noteq> b"
  shows "open_text A k n (ae_encrypt A k n data a) b = None"
  using assms by (simp add: open_text_def aead_binding_def)

text \<open>A message stays readable across key rotations and is bound to where it was written. A service
  that starts encrypts every text UTF-8 can represent; any service whose keyring still holds that key
  version decrypts the row to the same text, exactly under the conversation and the role it was
  encrypted for. (Conversation identifiers are UUIDs, which contain no bar.)\<close>

theorem crypto_rotation_roundtrip:
  assumes "aead_correct A" and "aead_binding A" and "crypto_init m v ring act = Inr old"
    and "utf8_encode p = Some data" and "length nonce = 12"
    and "dict_get (cy_keys new) (cy_version old) = dict_get (cy_keys old) (cy_version old)"
    and "CHR ''|'' \<notin> set sid" and "CHR ''|'' \<notin> set sid'"
  shows "\<exists>ct n ver. crypto_encrypt A old nonce p sid role = Inr (ct, n, ver) \<and>
           crypto_decrypt A new ct n sid' role' ver =
             (if sid' = sid \<and> role' = role then Inr p else Inl Ciphertext_Invalid)"
proof -
  let ?aad = "message_aad sid role (cy_version old)"
  obtain key where key: "dict_get (cy_keys old) (cy_version old) = Some key" "active_key old = key"
    using crypto_init_inv[OF assms(3)] by (auto simp: crypto_inv_def dict_has_def active_key_def)
  have "open_text A key nonce (ae_encrypt A key nonce data ?aad) (message_aad sid' role' (cy_version old))
      = (if sid' = sid \<and> role' = role then Some p else None)"
  proof (cases "sid' = sid \<and> role' = role")
    case True
    then show ?thesis using open_text_same[OF assms(1,4)] by simp
  next
    case False
    then have "?aad \<noteq> message_aad sid' role' (cy_version old)"
      by (auto simp: message_aad_inject[OF assms(7,8)])
    then show ?thesis using open_text_other[OF assms(2)] False by simp
  qed
  then have "crypto_decrypt A new (b64encode True (ae_encrypt A key nonce data ?aad)) (b64encode True nonce) sid' role' (cy_version old)
      = (if sid' = sid \<and> role' = role then Inr p else Inl Ciphertext_Invalid)"
    by (simp add: crypto_decrypt_def cipher_for_def assms(5,6) key(1))
  then show ?thesis
    by (auto simp: crypto_encrypt_def assms(4) key(2))
qed

definition demo_ring :: "(int, string) pydict" where
  "demo_ring = [(1, b64encode True (replicate 32 (CHR 0x01))), (2, b64encode True (replicate 32 (CHR 0x02)))]"

lemma b64_text_plain: "c \<in> set (b64encode True b) \<Longrightarrow> \<not> is_space c \<and> code c < 128"
proof -
  have "list_all (\<lambda>v. v < 64) (b64_pack (map code b))"
    by (rule b64_pack_less) (simp add: list_all_iff of_char_less)
  then show "c \<in> set (b64encode True b) \<Longrightarrow> \<not> is_space c \<and> code c < 128"
    using b64_char_plain by (auto simp: b64encode_def b64_padding_def list_all_iff is_space_def split: if_splits)
qed

lemma dropWhile_none: "\<forall>x \<in> set xs. \<not> P x \<Longrightarrow> dropWhile P xs = xs"
  by (cases xs) simp_all

lemma load_key_b64: "length k = 32 \<Longrightarrow> load_key v (b64encode True k) = Inr k"
proof -
  have "py_strip (b64encode True k) = b64encode True k"
    by (simp add: py_strip_def py_lstrip_def py_rstrip_def dropWhile_none b64_text_plain)
  moreover have "is_ascii (b64encode True k)"
    by (simp add: is_ascii_def list_all_iff b64_text_plain)
  ultimately show "length k = 32 \<Longrightarrow> load_key v (b64encode True k) = Inr k"
    by (simp add: load_key_def b64_lax_roundtrip)
qed

lemma demo_crypto:
  "crypto_init [] 1 demo_ring (Some a) =
     (if a = 1 \<or> a = 2 then Inr \<lparr>cy_keys = [(1, replicate 32 (CHR 0x01)), (2, replicate 32 (CHR 0x02))], cy_version = a\<rparr>
      else Inl (Active_Version_Missing a))"
  by (auto simp: crypto_init_def demo_ring_def load_key_b64 dict_has_def dict_get_def Let_def)

theorem crypto_rotation_roundtrip_witness:
  "\<exists>old new ct n ver. crypto_init [] 1 demo_ring (Some 1) = Inr old \<and> crypto_init [] 1 demo_ring (Some 2) = Inr new \<and>
     crypto_encrypt demo_aead old (replicate 12 (CHR 0x03)) [104, 8364] ''s1'' ''user'' = Inr (ct, n, ver) \<and>
     crypto_decrypt demo_aead new ct n ''s1'' ''user'' ver = Inr [104, 8364]"
proof -
  let ?keys = "[(1, replicate 32 (CHR 0x01)), (2, replicate 32 (CHR 0x02))] :: (int, bytes) pydict"
  let ?old = "\<lparr>cy_keys = ?keys, cy_version = 1\<rparr>" and ?new = "\<lparr>cy_keys = ?keys, cy_version = 2\<rparr>"
  have old: "crypto_init [] 1 demo_ring (Some 1) = Inr ?old" and new: "crypto_init [] 1 demo_ring (Some 2) = Inr ?new"
    by (simp_all add: demo_crypto)
  obtain data where data: "utf8_encode [104, 8364] = Some data"
    by (simp add: utf8_encode_def utf8_scalar_def)
  have "\<exists>ct n ver. crypto_encrypt demo_aead ?old (replicate 12 (CHR 0x03)) [104, 8364] ''s1'' ''user'' = Inr (ct, n, ver) \<and>
      crypto_decrypt demo_aead ?new ct n ''s1'' ''user'' ver =
        (if ''s1'' = ''s1'' \<and> ''user'' = ''user'' then Inr [104, 8364] else Inl Ciphertext_Invalid)"
    by (rule crypto_rotation_roundtrip[OF demo_aead_correct demo_aead_binding old data]) simp_all
  then show ?thesis
    using old new by auto
qed

end
