(* ===== verification/Envelope.thy ===== *)
theory Envelope
  imports Crypto
begin

text \<open>
  Envelope encryption (\<^verbatim>\<open>envelope.py\<close>): every conversation and every account has a data key that a key
  provider wraps; messages and account secrets are encrypted under it with associated data that names
  the row they belong to.

  The configuration \<open>envelope\<close> holds the provider, the cipher, SHA-256 and the optional legacy
  service; the state \<open>env_state\<close> holds the cache of unwrapped keys and the table
  \<^verbatim>\<open>session_key_epochs\<close>. The conversation, user and message objects an operation mutates are passed in
  and returned. A failing operation still returns the state it leaves behind. Readings of
  \<^verbatim>\<open>time.monotonic()\<close> are arguments, in the order the code takes them.
\<close>

definition ENVELOPE_SCHEME :: string where "ENVELOPE_SCHEME = ''envelope-v1''"
definition LEGACY_SCHEME :: string where "LEGACY_SCHEME = ''legacy-v1''"
definition CRYPTO_SUITE :: string where "CRYPTO_SUITE = ''AES-256-GCM''"

text \<open>Besides its own error, the layer lets the errors of the legacy service, an unencodable text, and
  provider exceptions other than \<^verbatim>\<open>KeyProviderError\<close> and \<^verbatim>\<open>ValueError\<close> pass.\<close>

datatype env_error =
    EnvelopeEncryptionError string
  | Legacy_Error crypto_error
  | Provider_Raised key_error
  | Unicode_Encode_Error
  | Db_Integrity_Error

definition canonical_message_aad :: "string \<Rightarrow> string \<Rightarrow> string \<Rightarrow> int \<Rightarrow> string \<Rightarrow> int \<Rightarrow> bytes" where
  "canonical_message_aad owner_id session_id message_uuid message_index role crypto_epoch =
     utf8 (json_dumps False
       [(''format'', JStr ''scap-message-aad-v1''), (''tenant_id'', JStr ''default''),
        (''owner_id'', JStr owner_id), (''session_id'', JStr session_id), (''message_id'', JStr message_uuid),
        (''message_index'', JInt message_index), (''role'', JStr role), (''crypto_epoch'', JInt crypto_epoch)])"

definition canonical_secret_aad :: "string \<Rightarrow> string \<Rightarrow> int \<Rightarrow> bytes" where
  "canonical_secret_aad user_id field crypto_epoch =
     utf8 (json_dumps True
       [(''format'', JStr ''scap-user-secret-aad-v1''), (''tenant_id'', JStr ''default''),
        (''user_id'', JStr user_id), (''field'', JStr field), (''crypto_epoch'', JInt crypto_epoch)])"

record chat_session =
  cs_id :: string
  cs_owner_id :: string
  cs_security_mode :: string
  cs_epoch :: int
  cs_crypto_suite :: string
  cs_wrapped_dek :: "string option"
  cs_kek_uri :: "string option"
  cs_kek_version :: "string option"

record key_epoch =
  ke_session_id :: string
  ke_epoch :: int
  ke_wrapped_dek :: string
  ke_kek_uri :: string
  ke_kek_version :: string
  ke_crypto_suite :: string
  ke_retired_at :: "time option"

record secure_message =
  sm_session_id :: string
  sm_role :: string
  sm_uuid :: string
  sm_index :: int
  sm_ciphertext :: string
  sm_nonce :: string
  sm_key_version :: int
  sm_crypto_epoch :: int
  sm_scheme :: string

record account =
  us_id :: string
  us_wrapped_dek :: "string option"
  us_kek_uri :: "string option"
  us_kek_version :: "string option"
  us_epoch :: int

definition session_key_context :: "chat_session \<Rightarrow> int \<Rightarrow> key_context" where
  "session_key_context s epoch =
     [(''tenant_id'', ''default''), (''owner_id'', cs_owner_id s), (''session_id'', cs_id s),
      (''crypto_epoch'', show_int epoch)]"

definition user_key_context :: "account \<Rightarrow> int \<Rightarrow> key_context" where
  "user_key_context u epoch =
     [(''tenant_id'', ''default''), (''user_id'', us_id u), (''purpose'', ''account-secrets''),
      (''crypto_epoch'', show_int epoch)]"

definition decode_aead_payload :: "string \<Rightarrow> string \<Rightarrow> (env_error + bytes \<times> bytes)" where
  "decode_aead_payload ciphertext_b64 nonce_b64 =
     (case (b64decode True nonce_b64, b64decode True ciphertext_b64) of
        (Some nonce, Some ciphertext) \<Rightarrow>
          if length nonce \<noteq> 12 \<or> length ciphertext < 16
          then Inl (EnvelopeEncryptionError ''Encrypted payload format is invalid.'')
          else Inr (ciphertext, nonce)
      | _ \<Rightarrow> Inl (EnvelopeEncryptionError ''Encrypted payload format is invalid.''))"

section \<open>The service and its cache\<close>

record cached_dek =
  cd_value :: bytes
  cd_expires_at :: time

record envelope =
  ev_provider :: provider
  ev_aead :: aead
  ev_sha256 :: "bytes \<Rightarrow> string"
  ev_legacy :: "crypto_service option"
  ev_ttl :: int
  ev_max_entries :: int

record env_state =
  es_cache :: "(string, cached_dek) pydict"
  es_epochs :: "key_epoch list"

definition envelope_init ::
  "provider \<Rightarrow> aead \<Rightarrow> (bytes \<Rightarrow> string) \<Rightarrow> crypto_service option \<Rightarrow> int \<Rightarrow> int \<Rightarrow> envelope option" where
  "envelope_init provider aead sha256 legacy_crypto cache_ttl_seconds max_cache_entries =
     (if cache_ttl_seconds < 0 \<or> max_cache_entries < 1 then None
      else Some \<lparr>ev_provider = provider, ev_aead = aead, ev_sha256 = sha256, ev_legacy = legacy_crypto,
                 ev_ttl = cache_ttl_seconds, ev_max_entries = max_cache_entries\<rparr>)"

text \<open>The text of \<^verbatim>\<open>canonical_context(context).decode("utf-8")\<close>; the contexts of this layer are
  never refused.\<close>

definition context_text :: "key_context \<Rightarrow> string" where
  "context_text context =
     (case canonical_context context of
        Some b \<Rightarrow> (case utf8_decode_bytes b of Some s \<Rightarrow> map char_of s | None \<Rightarrow> [])
      | None \<Rightarrow> [])"

definition dek_cache_payload :: "(bytes \<Rightarrow> string) \<Rightarrow> string \<Rightarrow> key_context \<Rightarrow> string \<Rightarrow> string \<Rightarrow> bytes" where
  "dek_cache_payload sha256 wrapped context kek_uri kek_version =
     utf8 (json_dumps True
       [(''context'', JStr (context_text context)), (''kek_uri'', JStr kek_uri),
        (''kek_version'', JStr kek_version), (''wrapped_digest'', JStr (sha256 (utf8 wrapped)))])"

definition dek_cache_key :: "(bytes \<Rightarrow> string) \<Rightarrow> string \<Rightarrow> key_context \<Rightarrow> string \<Rightarrow> string \<Rightarrow> string" where
  "dek_cache_key sha256 wrapped context kek_uri kek_version =
     sha256 (dek_cache_payload sha256 wrapped context kek_uri kek_version)"

definition cache_get :: "string \<Rightarrow> time \<Rightarrow> env_state \<Rightarrow> bytes option \<times> env_state" where
  "cache_get key now st =
     (case dict_get (es_cache st) key of
        None \<Rightarrow> (None, st)
      | Some entry \<Rightarrow>
          if cd_expires_at entry \<le> now then (None, st\<lparr>es_cache := dict_pop key (es_cache st)\<rparr>)
          else (Some (cd_value entry), st))"

text \<open>\<^verbatim>\<open>min(self._cache, key=...)\<close>: the first key with the smallest expiry.\<close>

fun min_expiry :: "(string \<times> cached_dek) \<Rightarrow> (string, cached_dek) pydict \<Rightarrow> string" where
  "min_expiry best [] = fst best"
| "min_expiry best (p # d) =
     min_expiry (if cd_expires_at (snd p) < cd_expires_at (snd best) then p else best) d"

definition cache_evict :: "envelope \<Rightarrow> (string, cached_dek) pydict \<Rightarrow> (string, cached_dek) pydict" where
  "cache_evict ev d =
     (if int (length d) \<ge> ev_max_entries ev then dict_pop (min_expiry (hd d) (tl d)) d else d)"

definition cache_put :: "envelope \<Rightarrow> string \<Rightarrow> bytes \<Rightarrow> time \<Rightarrow> env_state \<Rightarrow> (env_error + unit) \<times> env_state" where
  "cache_put ev key dek now st =
     (if length dek \<noteq> 32 then (Inl (EnvelopeEncryptionError ''Key provider returned an invalid DEK length.''), st)
      else if ev_ttl ev = 0 then (Inr (), st)
      else (Inr (), st\<lparr>es_cache := dict_pop key (cache_evict ev (es_cache st))
                         @ [(key, \<lparr>cd_value = dek, cd_expires_at = now + of_int (ev_ttl ev)\<rparr>)]\<rparr>))"

definition clear_cache :: "env_state \<Rightarrow> env_state" where
  "clear_cache st = st\<lparr>es_cache := []\<rparr>"

section \<open>Conversation keys\<close>

text \<open>\<^verbatim>\<open>except (KeyProviderError, ValueError)\<close>\<close>

definition provider_failure :: "string \<Rightarrow> key_error \<Rightarrow> env_error" where
  "provider_failure message e =
     (case e of
        KeyProviderError m \<Rightarrow> EnvelopeEncryptionError message
      | Value_Error m \<Rightarrow> EnvelopeEncryptionError message
      | Type_Error \<Rightarrow> Provider_Raised e
      | Key_Error \<Rightarrow> Provider_Raised e)"

definition find_epoch :: "env_state \<Rightarrow> string \<Rightarrow> int \<Rightarrow> key_epoch option" where
  "find_epoch st sid epoch = find (\<lambda>k. ke_session_id k = sid \<and> ke_epoch k = epoch) (es_epochs st)"

text \<open>The common end of \<^verbatim>\<open>ensure_session_key\<close> and \<^verbatim>\<open>rotate_session_dek\<close>: generate a key, add its row,
  publish it on the conversation, cache it and flush. The table refuses a second row for an epoch of a
  conversation and an epoch that is not positive.\<close>

definition add_epoch :: "key_epoch \<Rightarrow> env_state \<Rightarrow> env_state" where
  "add_epoch row st = st\<lparr>es_epochs := es_epochs st @ [row]\<rparr>"

definition new_epoch ::
  "envelope \<Rightarrow> time \<Rightarrow> entropy \<Rightarrow> string \<Rightarrow> int \<Rightarrow> chat_session \<Rightarrow> env_state \<Rightarrow>
   (env_error + key_epoch) \<times> chat_session \<times> env_state" where
  "new_epoch ev now r message epoch s st =
     (case pv_generate (ev_provider ev) r (session_key_context s epoch) of
        Inl e \<Rightarrow> (Inl (provider_failure message e), s, st)
      | Inr g \<Rightarrow>
          (let row = \<lparr>ke_session_id = cs_id s, ke_epoch = epoch, ke_wrapped_dek = wd_wrapped g, ke_kek_uri = wd_kek_uri g,
                      ke_kek_version = wd_kek_version g, ke_crypto_suite = CRYPTO_SUITE, ke_retired_at = None\<rparr>;
               s' = s\<lparr>cs_epoch := epoch, cs_crypto_suite := CRYPTO_SUITE, cs_wrapped_dek := Some (wd_wrapped g),
                      cs_kek_uri := Some (wd_kek_uri g), cs_kek_version := Some (wd_kek_version g)\<rparr>;
               (res, st') = cache_put ev
                 (dek_cache_key (ev_sha256 ev) (wd_wrapped g) (session_key_context s' epoch) (wd_kek_uri g) (wd_kek_version g))
                 (gd_plaintext g) now st
           in case res of
                Inl e \<Rightarrow> (Inl e, s', add_epoch row st')
              | Inr _ \<Rightarrow>
                  if epoch \<le> 0 \<or> find_epoch st' (cs_id s) epoch \<noteq> None then (Inl Db_Integrity_Error, s', st')
                  else (Inr row, s', add_epoch row st')))"

definition ensure_session_key ::
  "envelope \<Rightarrow> time \<Rightarrow> entropy \<Rightarrow> chat_session \<Rightarrow> env_state \<Rightarrow>
   (env_error + key_epoch) \<times> chat_session \<times> env_state" where
  "ensure_session_key ev now r s st =
     (if cs_security_mode s = ''private_e2ee''
      then (Inl (EnvelopeEncryptionError ''Private E2EE sessions cannot have server-side DEKs.''), s, st)
      else case (if cs_epoch s > 0 then find_epoch st (cs_id s) (cs_epoch s) else None) of
        Some existing \<Rightarrow> (Inr existing, s, st)
      | None \<Rightarrow> new_epoch ev now r ''Unable to create a protected conversation key.'' (max (cs_epoch s) 0 + 1) s st)"

definition epoch_row :: "chat_session \<Rightarrow> int \<Rightarrow> env_state \<Rightarrow> (env_error + key_epoch)" where
  "epoch_row s epoch st =
     (case find_epoch st (cs_id s) epoch of
        None \<Rightarrow> Inl (EnvelopeEncryptionError ''Conversation key epoch is unavailable.'')
      | Some row \<Rightarrow> Inr row)"

definition session_dek ::
  "envelope \<Rightarrow> time \<Rightarrow> time \<Rightarrow> chat_session \<Rightarrow> int \<Rightarrow> env_state \<Rightarrow> (env_error + bytes) \<times> env_state" where
  "session_dek ev t_get t_put s epoch st =
     (case epoch_row s epoch st of
        Inl e \<Rightarrow> (Inl e, st)
      | Inr row \<Rightarrow>
          (let key = dek_cache_key (ev_sha256 ev) (ke_wrapped_dek row) (session_key_context s epoch)
                       (ke_kek_uri row) (ke_kek_version row);
               (cached, st1) = cache_get key t_get st
           in case cached of
                Some dek \<Rightarrow> (Inr dek, st1)
              | None \<Rightarrow>
                  (case pv_unwrap (ev_provider ev) (ke_wrapped_dek row) (session_key_context s epoch)
                          (ke_kek_uri row) (ke_kek_version row) of
                     Inl e \<Rightarrow> (Inl (provider_failure ''Unable to unwrap the conversation key.'' e), st1)
                   | Inr dek \<Rightarrow>
                       if length dek \<noteq> 32
                       then (Inl (EnvelopeEncryptionError ''Key provider returned an invalid conversation key.''), st1)
                       else (case cache_put ev key dek t_put st1 of
                               (Inl e, st2) \<Rightarrow> (Inl e, st2)
                             | (Inr _, st2) \<Rightarrow> (Inr dek, st2)))))"

definition next_message_index :: "secure_message list \<Rightarrow> string \<Rightarrow> int" where
  "next_message_index db session_id =
     (let indices = map sm_index (filter (\<lambda>m. sm_session_id m = session_id) db)
      in (if indices = [] then 0 else Max (set indices)) + 1)"

definition encrypt_message ::
  "envelope \<Rightarrow> time \<times> time \<times> time \<Rightarrow> entropy \<Rightarrow> bytes \<Rightarrow> ustr \<Rightarrow> string \<Rightarrow> string \<Rightarrow> int \<Rightarrow> chat_session \<Rightarrow> env_state \<Rightarrow>
   (env_error + string \<times> string \<times> int) \<times> chat_session \<times> env_state" where
  "encrypt_message ev clock r nonce plaintext role message_uuid message_index s st =
     (case ensure_session_key ev (fst clock) r s st of
        (Inl e, s1, st1) \<Rightarrow> (Inl e, s1, st1)
      | (Inr row, s1, st1) \<Rightarrow>
          (case session_dek ev (fst (snd clock)) (snd (snd clock)) s1 (ke_epoch row) st1 of
             (Inl e, st2) \<Rightarrow> (Inl e, s1, st2)
           | (Inr dek, st2) \<Rightarrow>
               (case utf8_encode plaintext of
                  None \<Rightarrow> (Inl Unicode_Encode_Error, s1, st2)
                | Some data \<Rightarrow>
                    (Inr (b64encode True (ae_encrypt (ev_aead ev) dek nonce data
                            (canonical_message_aad (cs_owner_id s1) (cs_id s1) message_uuid message_index role (ke_epoch row))),
                          b64encode True nonce, ke_epoch row), s1, st2))))"

definition validate_message_context :: "chat_session \<Rightarrow> secure_message \<Rightarrow> (env_error + unit)" where
  "validate_message_context s row =
     (if sm_session_id row \<noteq> cs_id s
      then Inl (EnvelopeEncryptionError ''Encrypted message does not belong to the supplied conversation.'')
      else if sm_scheme row \<notin> {ENVELOPE_SCHEME, LEGACY_SCHEME}
      then Inl (EnvelopeEncryptionError ''Encrypted message scheme is unsupported.'')
      else Inr ())"

definition legacy_decrypt :: "envelope \<Rightarrow> string \<Rightarrow> secure_message \<Rightarrow> (env_error + ustr)" where
  "legacy_decrypt ev missing row =
     (case ev_legacy ev of
        None \<Rightarrow> Inl (EnvelopeEncryptionError missing)
      | Some legacy \<Rightarrow>
          (case crypto_decrypt (ev_aead ev) legacy (sm_ciphertext row) (sm_nonce row) (sm_session_id row)
                  (sm_role row) (sm_key_version row) of
             Inl e \<Rightarrow> Inl (Legacy_Error e)
           | Inr plaintext \<Rightarrow> Inr plaintext))"

definition decrypt_message ::
  "envelope \<Rightarrow> time \<times> time \<Rightarrow> chat_session \<Rightarrow> secure_message \<Rightarrow> env_state \<Rightarrow> (env_error + ustr) \<times> env_state" where
  "decrypt_message ev clock s row st =
     (case validate_message_context s row of
        Inl e \<Rightarrow> (Inl e, st)
      | Inr _ \<Rightarrow>
          if sm_scheme row = LEGACY_SCHEME
          then (legacy_decrypt ev ''Legacy key material is unavailable.'' row, st)
          else
            (case decode_aead_payload (sm_ciphertext row) (sm_nonce row) of
               Inl e \<Rightarrow> (Inl e, st)
             | Inr (ciphertext, nonce) \<Rightarrow>
                 (case session_dek ev (fst clock) (snd clock) s (sm_crypto_epoch row) st of
                    (Inl e, st1) \<Rightarrow> (Inl e, st1)
                  | (Inr dek, st1) \<Rightarrow>
                      (case open_text (ev_aead ev) dek nonce ciphertext
                              (canonical_message_aad (cs_owner_id s) (sm_session_id row) (sm_uuid row)
                                 (sm_index row) (sm_role row) (sm_crypto_epoch row)) of
                         None \<Rightarrow> (Inl (EnvelopeEncryptionError ''Encrypted message authentication failed.''), st1)
                       | Some plaintext \<Rightarrow> (Inr plaintext, st1)))))"

text \<open>Returns whether the row was rewritten, and the row.\<close>

definition migrate_legacy_message ::
  "envelope \<Rightarrow> time \<times> time \<times> time \<Rightarrow> entropy \<Rightarrow> bytes \<Rightarrow> chat_session \<Rightarrow> secure_message \<Rightarrow> env_state \<Rightarrow>
   (env_error + bool) \<times> secure_message \<times> chat_session \<times> env_state" where
  "migrate_legacy_message ev clock r nonce s row st =
     (case validate_message_context s row of
        Inl e \<Rightarrow> (Inl e, row, s, st)
      | Inr _ \<Rightarrow>
          if sm_scheme row = ENVELOPE_SCHEME then (Inr False, row, s, st)
          else
            (case legacy_decrypt ev ''Legacy key material is unavailable for migration.'' row of
               Inl e \<Rightarrow> (Inl e, row, s, st)
             | Inr plaintext \<Rightarrow>
                 (case encrypt_message ev clock r nonce plaintext (sm_role row) (sm_uuid row) (sm_index row) s st of
                    (Inl e, s1, st1) \<Rightarrow> (Inl e, row, s1, st1)
                  | (Inr (ciphertext, nonce_text, epoch), s1, st1) \<Rightarrow>
                      (Inr True,
                       row\<lparr>sm_ciphertext := ciphertext, sm_nonce := nonce_text, sm_key_version := epoch,
                           sm_crypto_epoch := epoch, sm_scheme := ENVELOPE_SCHEME\<rparr>,
                       s1, st1))))"

definition retire_epoch :: "string \<Rightarrow> int \<Rightarrow> time \<Rightarrow> env_state \<Rightarrow> env_state" where
  "retire_epoch sid epoch now st =
     st\<lparr>es_epochs := map (\<lambda>k. if ke_session_id k = sid \<and> ke_epoch k = epoch then k\<lparr>ke_retired_at := Some now\<rparr> else k) (es_epochs st)\<rparr>"

definition rotate_session_dek ::
  "envelope \<Rightarrow> time \<Rightarrow> time \<Rightarrow> entropy \<Rightarrow> chat_session \<Rightarrow> env_state \<Rightarrow>
   (env_error + key_epoch) \<times> chat_session \<times> env_state" where
  "rotate_session_dek ev utcnow t_put r s st =
     (if cs_epoch s > 0 \<and> find_epoch st (cs_id s) (cs_epoch s) = None
      then (Inl (EnvelopeEncryptionError ''Conversation key epoch is unavailable.''), s, st)
      else
        let st1 = (if cs_epoch s > 0 then retire_epoch (cs_id s) (cs_epoch s) utcnow st else st)
        in new_epoch ev t_put r ''Unable to rotate the conversation key.'' (cs_epoch s + 1) s st1)"

text \<open>\<^verbatim>\<open>rewrap_session_keys\<close>: the rows of the conversation by epoch; \<open>rnd\<close> is the randomness of each
  rewrap. A failure leaves the rows before it rewritten.\<close>

definition store_epoch :: "string \<Rightarrow> int \<Rightarrow> wrapped_dek \<Rightarrow> env_state \<Rightarrow> env_state" where
  "store_epoch sid epoch w st =
     st\<lparr>es_epochs := map (\<lambda>k. if ke_session_id k = sid \<and> ke_epoch k = epoch
                              then k\<lparr>ke_wrapped_dek := wd_wrapped w, ke_kek_uri := wd_kek_uri w, ke_kek_version := wd_kek_version w\<rparr>
                              else k) (es_epochs st)\<rparr>"

fun rewrap_rows ::
  "envelope \<Rightarrow> (int \<Rightarrow> entropy) \<Rightarrow> key_epoch list \<Rightarrow> chat_session \<Rightarrow> env_state \<Rightarrow>
   (env_error + unit) \<times> chat_session \<times> env_state" where
  "rewrap_rows ev rnd [] s st = (Inr (), s, st)"
| "rewrap_rows ev rnd (row # rows) s st =
     (case pv_rewrap (ev_provider ev) (rnd (ke_epoch row)) (ke_wrapped_dek row) (session_key_context s (ke_epoch row))
             (ke_kek_uri row) (ke_kek_version row) of
        Inl e \<Rightarrow> (Inl (provider_failure ''Unable to rewrap a conversation key.'' e), s, st)
      | Inr w \<Rightarrow>
          rewrap_rows ev rnd rows
            (if ke_epoch row = cs_epoch s
             then s\<lparr>cs_wrapped_dek := Some (wd_wrapped w), cs_kek_uri := Some (wd_kek_uri w), cs_kek_version := Some (wd_kek_version w)\<rparr>
             else s)
            (store_epoch (cs_id s) (ke_epoch row) w st))"

definition session_rows :: "chat_session \<Rightarrow> env_state \<Rightarrow> key_epoch list" where
  "session_rows s st = sort_key ke_epoch (filter (\<lambda>k. ke_session_id k = cs_id s) (es_epochs st))"

definition rewrap_session_keys ::
  "envelope \<Rightarrow> (int \<Rightarrow> entropy) \<Rightarrow> chat_session \<Rightarrow> env_state \<Rightarrow> (env_error + nat) \<times> chat_session \<times> env_state" where
  "rewrap_session_keys ev rnd s st =
     (let rows = session_rows s st
      in case rewrap_rows ev rnd rows s st of
           (Inl e, s1, st1) \<Rightarrow> (Inl e, s1, st1)
         | (Inr _, s1, st1) \<Rightarrow> (Inr (length rows), s1, clear_cache st1))"

section \<open>Account secrets\<close>

definition opt_text :: "string option \<Rightarrow> string" where
  "opt_text v = (case v of Some s \<Rightarrow> s | None \<Rightarrow> [])"

definition user_metadata_ok :: "account \<Rightarrow> bool" where
  "user_metadata_ok u \<longleftrightarrow> given (us_wrapped_dek u) \<and> given (us_kek_uri u) \<and> given (us_kek_version u) \<and> us_epoch u > 0"

definition user_dek :: "envelope \<Rightarrow> time \<Rightarrow> time \<Rightarrow> account \<Rightarrow> env_state \<Rightarrow> (env_error + bytes) \<times> env_state" where
  "user_dek ev t_get t_put u st =
     (if \<not> user_metadata_ok u
      then (Inl (EnvelopeEncryptionError ''Protected account key metadata is unavailable.''), st)
      else
        (let wrapped = opt_text (us_wrapped_dek u); uri = opt_text (us_kek_uri u); version = opt_text (us_kek_version u);
             context = user_key_context u (us_epoch u);
             key = dek_cache_key (ev_sha256 ev) wrapped context uri version;
             (cached, st1) = cache_get key t_get st
         in case cached of
              Some dek \<Rightarrow> (Inr dek, st1)
            | None \<Rightarrow>
                (case pv_unwrap (ev_provider ev) wrapped context uri version of
                   Inl e \<Rightarrow> (Inl (provider_failure ''Unable to unwrap the account secret key.'' e), st1)
                 | Inr dek \<Rightarrow>
                     (case cache_put ev key dek t_put st1 of
                        (Inl e, st2) \<Rightarrow> (Inl e, st2)
                      | (Inr _, st2) \<Rightarrow> (Inr dek, st2)))))"

definition ensure_user_key ::
  "envelope \<Rightarrow> time \<Rightarrow> entropy \<Rightarrow> account \<Rightarrow> env_state \<Rightarrow> (env_error + unit) \<times> account \<times> env_state" where
  "ensure_user_key ev now r u st =
     (if given (us_wrapped_dek u) then (Inr (), u, st)
      else case pv_generate (ev_provider ev) r (user_key_context u 1) of
        Inl e \<Rightarrow> (Inl (provider_failure ''Unable to create a protected account key.'' e), u, st)
      | Inr g \<Rightarrow>
          (let u' = u\<lparr>us_epoch := 1, us_wrapped_dek := Some (wd_wrapped g), us_kek_uri := Some (wd_kek_uri g),
                      us_kek_version := Some (wd_kek_version g)\<rparr>;
               (res, st') = cache_put ev
                 (dek_cache_key (ev_sha256 ev) (wd_wrapped g) (user_key_context u' 1) (wd_kek_uri g) (wd_kek_version g))
                 (gd_plaintext g) now st
           in (res, u', st')))"

definition rewrap_user_key ::
  "envelope \<Rightarrow> entropy \<Rightarrow> account \<Rightarrow> env_state \<Rightarrow> (env_error + bool) \<times> account \<times> env_state" where
  "rewrap_user_key ev r u st =
     (if \<not> user_metadata_ok u then (Inr False, u, st)
      else case pv_rewrap (ev_provider ev) r (opt_text (us_wrapped_dek u)) (user_key_context u (us_epoch u))
                  (opt_text (us_kek_uri u)) (opt_text (us_kek_version u)) of
        Inl e \<Rightarrow> (Inl (provider_failure ''Unable to rewrap an account key.'' e), u, st)
      | Inr w \<Rightarrow>
          (Inr True,
           u\<lparr>us_wrapped_dek := Some (wd_wrapped w), us_kek_uri := Some (wd_kek_uri w), us_kek_version := Some (wd_kek_version w)\<rparr>,
           clear_cache st))"

definition encrypt_user_secret ::
  "envelope \<Rightarrow> time \<times> time \<times> time \<Rightarrow> entropy \<Rightarrow> bytes \<Rightarrow> ustr \<Rightarrow> string \<Rightarrow> account \<Rightarrow> env_state \<Rightarrow>
   (env_error + string \<times> string) \<times> account \<times> env_state" where
  "encrypt_user_secret ev clock r nonce plaintext field u st =
     (case ensure_user_key ev (fst clock) r u st of
        (Inl e, u1, st1) \<Rightarrow> (Inl e, u1, st1)
      | (Inr _, u1, st1) \<Rightarrow>
          (case user_dek ev (fst (snd clock)) (snd (snd clock)) u1 st1 of
             (Inl e, st2) \<Rightarrow> (Inl e, u1, st2)
           | (Inr dek, st2) \<Rightarrow>
               (case utf8_encode plaintext of
                  None \<Rightarrow> (Inl Unicode_Encode_Error, u1, st2)
                | Some data \<Rightarrow>
                    (Inr (b64encode True (ae_encrypt (ev_aead ev) dek nonce data
                            (canonical_secret_aad (us_id u1) field (us_epoch u1))),
                          b64encode True nonce), u1, st2))))"

definition decrypt_user_secret ::
  "envelope \<Rightarrow> time \<times> time \<Rightarrow> string \<Rightarrow> string \<Rightarrow> string \<Rightarrow> account \<Rightarrow> env_state \<Rightarrow> (env_error + ustr) \<times> env_state" where
  "decrypt_user_secret ev clock ciphertext_b64 nonce_b64 field u st =
     (if \<not> given (us_wrapped_dek u) then
        (case ev_legacy ev of
           None \<Rightarrow> (Inl (EnvelopeEncryptionError ''Legacy account key material is unavailable.''), st)
         | Some legacy \<Rightarrow>
             (case decrypt_secret (ev_aead ev) legacy ciphertext_b64 nonce_b64 field of
                Inl e \<Rightarrow> (Inl (Legacy_Error e), st)
              | Inr plaintext \<Rightarrow> (Inr plaintext, st)))
      else
        (case decode_aead_payload ciphertext_b64 nonce_b64 of
           Inl e \<Rightarrow> (Inl e, st)
         | Inr (ciphertext, nonce) \<Rightarrow>
             (case user_dek ev (fst clock) (snd clock) u st of
                (Inl e, st1) \<Rightarrow> (Inl e, st1)
              | (Inr dek, st1) \<Rightarrow>
                  (case open_text (ev_aead ev) dek nonce ciphertext (canonical_secret_aad (us_id u) field (us_epoch u)) of
                     None \<Rightarrow> (Inl (EnvelopeEncryptionError ''Encrypted account secret authentication failed.''), st1)
                   | Some plaintext \<Rightarrow> (Inr plaintext, st1)))))"

section \<open>Associated data is unambiguous\<close>

lemma canonical_message_aad_inject:
  "canonical_message_aad o1 s1 m1 i1 r1 e1 = canonical_message_aad o2 s2 m2 i2 r2 e2 \<longleftrightarrow>
     o1 = o2 \<and> s1 = s2 \<and> m1 = m2 \<and> i1 = i2 \<and> r1 = r2 \<and> e1 = e2"
proof
  let ?d = "\<lambda>ow s m (i::int) r (e::int). [(''format'', JStr ''scap-message-aad-v1''), (''tenant_id'', JStr ''default''),
    (''owner_id'', JStr ow), (''session_id'', JStr s), (''message_id'', JStr m), (''message_index'', JInt i),
    (''role'', JStr r), (''crypto_epoch'', JInt e)]"
  assume "canonical_message_aad o1 s1 m1 i1 r1 e1 = canonical_message_aad o2 s2 m2 i2 r2 e2"
  then have "json_dumps False (?d o1 s1 m1 i1 r1 e1) @ [] = json_dumps False (?d o2 s2 m2 i2 r2 e2) @ []"
    by (simp only: canonical_message_aad_def utf8_inject append_Nil2)
  from json_dumps_inject_app[OF this]
  show "o1 = o2 \<and> s1 = s2 \<and> m1 = m2 \<and> i1 = i2 \<and> r1 = r2 \<and> e1 = e2"
    by (simp add: less_eq_char_def)
qed simp

lemma canonical_secret_aad_inject:
  "canonical_secret_aad u1 f1 e1 = canonical_secret_aad u2 f2 e2 \<longleftrightarrow> u1 = u2 \<and> f1 = f2 \<and> e1 = e2"
proof
  let ?d = "\<lambda>u f (e::int). [(''format'', JStr ''scap-user-secret-aad-v1''), (''tenant_id'', JStr ''default''),
    (''user_id'', JStr u), (''field'', JStr f), (''crypto_epoch'', JInt e)]"
  assume "canonical_secret_aad u1 f1 e1 = canonical_secret_aad u2 f2 e2"
  then have "json_dumps True (?d u1 f1 e1) @ [] = json_dumps True (?d u2 f2 e2) @ []"
    by (simp only: canonical_secret_aad_def utf8_inject append_Nil2)
  from json_dumps_inject_app[OF this] show "u1 = u2 \<and> f1 = f2 \<and> e1 = e2"
    by (simp add: less_eq_char_def)
qed simp

section \<open>The cache\<close>

lemma canonical_context_utf8:
  "canonical_context c = Some b \<Longrightarrow> utf8 (context_text c) = b"
proof -
  assume c: "canonical_context c = Some b"
  then obtain t where t: "b = utf8 t"
    by (auto simp: canonical_context_def split: if_splits)
  have "context_text c = t"
    by (simp add: context_text_def c t utf8_decode_latin comp_def)
  then show "utf8 (context_text c) = b"
    using t by simp
qed

text \<open>The contexts this layer builds.\<close>

definition env_context :: "key_context \<Rightarrow> bool" where
  "env_context c \<longleftrightarrow> (\<exists>s e. c = session_key_context s e) \<or> (\<exists>u e. c = user_key_context u e)"

lemma env_context_simps [simp]: "env_context (session_key_context s e)" "env_context (user_key_context u e)"
  by (auto simp: env_context_def)

lemma env_context_canonical: "env_context c \<Longrightarrow> canonical_context c \<noteq> None"
  by (auto simp: env_context_def session_key_context_def user_key_context_def canonical_context_def dict_keys_def)

lemma env_context_inject:
  assumes "env_context c" "env_context d" "sort_key fst c = sort_key fst d"
  shows "c = d"
  using assms by (auto simp: env_context_def session_key_context_def user_key_context_def less_eq_char_def)

text \<open>What a run hands to SHA-256: \<open>W\<close> is the set of wrapped keys it looks up or stores in the cache, with their contexts, URIs and
  versions, and \<open>hashed W\<close> the byte strings digested to name them. Of SHA-256 it is only asked that no two of
  these strings collide.\<close>

type_synonym key_name = "string \<times> key_context \<times> string \<times> string"

definition hashed :: "(bytes \<Rightarrow> string) \<Rightarrow> key_name set \<Rightarrow> bytes set" where
  "hashed sha W = (\<Union>(w, c, u, v) \<in> W. {utf8 w, dek_cache_payload sha w c u v})"

lemma dek_cache_key_inject:
  assumes sha: "inj_on sha (hashed sha W)" and W: "(w, c, u, v) \<in> W" "(w', d, u', v') \<in> W" and c: "env_context c" "env_context d"
    and eq: "dek_cache_key sha w c u v = dek_cache_key sha w' d u' v'"
  shows "w = w' \<and> c = d \<and> u = u' \<and> v = v'"
proof -
  let ?d = "\<lambda>w c u v. [(''context'', JStr (context_text c)), (''kek_uri'', JStr u), (''kek_version'', JStr v),
    (''wrapped_digest'', JStr (sha (utf8 w)))]"
  have h: "utf8 w \<in> hashed sha W" "utf8 w' \<in> hashed sha W" "dek_cache_payload sha w c u v \<in> hashed sha W"
    "dek_cache_payload sha w' d u' v' \<in> hashed sha W"
    using W unfolding hashed_def by blast+
  have "dek_cache_payload sha w c u v = dek_cache_payload sha w' d u' v'"
    using inj_onD[OF sha _ h(3,4)] eq by (simp only: dek_cache_key_def)
  then have "json_dumps True (?d w c u v) @ [] = json_dumps True (?d w' d u' v') @ []"
    by (simp only: dek_cache_payload_def append_Nil2 utf8_inject)
  from json_dumps_inject_app[OF this]
  have f: "context_text c = context_text d" "u = u'" "v = v'" "sha (utf8 w) = sha (utf8 w')"
    by (simp_all add: less_eq_char_def)
  obtain b b' where "canonical_context c = Some b" "canonical_context d = Some b'"
    using c env_context_canonical by blast
  then have "canonical_context c = canonical_context d"
    using canonical_context_utf8 f(1) by metis
  then have "c = d"
    using env_context_inject[OF c] canonical_context_inject env_context_canonical[OF c(1)] by (metis option.exhaust)
  then show ?thesis
    using f inj_onD[OF sha f(4) h(1,2)] utf8_inject by metis
qed

text \<open>Every entry is what a fresh unwrap of the inputs named by its key returns.\<close>

definition entry_ok :: "key_name set \<Rightarrow> envelope \<Rightarrow> string \<Rightarrow> bytes \<Rightarrow> bool" where
  "entry_ok W ev key dek \<longleftrightarrow> length dek = 32 \<and>
     (\<exists>w c u v. (w, c, u, v) \<in> W \<and> env_context c \<and> key = dek_cache_key (ev_sha256 ev) w c u v \<and> pv_unwrap (ev_provider ev) w c u v = Inr dek)"

definition cache_inv :: "key_name set \<Rightarrow> envelope \<Rightarrow> env_state \<Rightarrow> bool" where
  "cache_inv W ev st \<longleftrightarrow> dict_ok (es_cache st) \<and> int (length (es_cache st)) \<le> ev_max_entries ev \<and>
     (\<forall>(key, entry) \<in> set (es_cache st). entry_ok W ev key (cd_value entry))"

lemma min_expiry_key: "min_expiry best d \<in> insert (fst best) (fst ` set d)"
proof (induction best d rule: min_expiry.induct)
  case (2 best p d)
  then show ?case
    by (cases "cd_expires_at (snd p) < cd_expires_at (snd best)") (simp_all, blast+)
qed simp

lemma cache_evict_subset: "set (cache_evict ev d) \<subseteq> set d"
  by (auto simp: cache_evict_def dict_pop_def)

lemma cache_evict_ok: "dict_ok d \<Longrightarrow> dict_ok (cache_evict ev d)"
  by (simp add: cache_evict_def)

lemma cache_evict_length:
  assumes "dict_ok d" "int (length d) \<le> ev_max_entries ev" "1 \<le> ev_max_entries ev"
  shows "int (length (cache_evict ev d)) < ev_max_entries ev"
proof (cases "int (length d) \<ge> ev_max_entries ev")
  case True
  then have ne: "d \<noteq> []" using assms(3) by auto
  let ?k = "min_expiry (hd d) (tl d)"
  have "?k \<in> fst ` set d"
    using min_expiry_key[of "hd d" "tl d"] ne by (cases d) auto
  then have "dict_get d ?k \<noteq> None"
    by (simp add: dict_get_None_iff)
  then show ?thesis
    using True assms ne length_dict_pop[OF assms(1), of ?k] by (cases d) (simp_all add: cache_evict_def)
next
  case False
  then show ?thesis by (simp add: cache_evict_def)
qed

lemma cache_put_inv:
  assumes inv: "cache_inv W ev st" and max: "1 \<le> ev_max_entries ev" and ok: "entry_ok W ev key dek"
    and put: "cache_put ev key dek now st = (res, st')"
  shows "res = Inr () \<and> cache_inv W ev st' \<and> es_epochs st' = es_epochs st"
proof (cases "ev_ttl ev = 0")
  case True
  then show ?thesis using assms by (auto simp: cache_put_def entry_ok_def)
next
  case False
  let ?e = "cache_evict ev (es_cache st)" and ?x = "\<lparr>cd_value = dek, cd_expires_at = now + of_int (ev_ttl ev)\<rparr>"
  have st': "res = Inr ()" "st' = st\<lparr>es_cache := dict_pop key ?e @ [(key, ?x)]\<rparr>"
    using put False ok by (auto simp: cache_put_def entry_ok_def)
  have d: "dict_ok (es_cache st)" "int (length (es_cache st)) \<le> ev_max_entries ev"
    using inv by (simp_all add: cache_inv_def)
  have e: "int (length ?e) < ev_max_entries ev" "dict_ok ?e"
    using cache_evict_length[OF d max] cache_evict_ok[OF d(1)] by simp_all
  have "length (dict_pop key ?e) \<le> length ?e"
    by (simp add: dict_pop_def)
  then have "int (length (es_cache st')) \<le> ev_max_entries ev"
    using e(1) st' by simp
  moreover have "dict_ok (es_cache st')"
    using e(2) st' by (auto simp: dict_ok_def dict_pop_def distinct_map_filter)
  moreover have "set (es_cache st') \<subseteq> set (es_cache st) \<union> {(key, ?x)}"
    using st' cache_evict_subset[of ev "es_cache st"] by (auto simp: dict_pop_def)
  ultimately show ?thesis
    using inv ok st' by (fastforce simp: cache_inv_def)
qed

lemma cache_get_inv:
  assumes "cache_inv W ev st" "cache_get key now st = (res, st')"
  shows "cache_inv W ev st'" "es_epochs st' = es_epochs st" "res = Some dek \<Longrightarrow> entry_ok W ev key dek"
proof -
  have "length (dict_pop key (es_cache st)) \<le> length (es_cache st)" "set (dict_pop key (es_cache st)) \<subseteq> set (es_cache st)"
    by (auto simp: dict_pop_def)
  then show "cache_inv W ev st'" "es_epochs st' = es_epochs st"
    using assms by (fastforce simp: cache_get_def cache_inv_def split: option.splits if_splits)+
  show "entry_ok W ev key dek" if "res = Some dek"
    using assms that dict_get_SomeD by (fastforce simp: cache_get_def cache_inv_def split: option.splits if_splits)
qed

section \<open>Keys are stable\<close>

text \<open>The specification of \<^verbatim>\<open>_session_dek\<close>: unwrap the row of the epoch, no cache.\<close>

definition fresh_session_dek :: "envelope \<Rightarrow> chat_session \<Rightarrow> int \<Rightarrow> env_state \<Rightarrow> (env_error + bytes)" where
  "fresh_session_dek ev s epoch st =
     (case epoch_row s epoch st of
        Inl e \<Rightarrow> Inl e
      | Inr row \<Rightarrow>
          (case pv_unwrap (ev_provider ev) (ke_wrapped_dek row) (session_key_context s epoch) (ke_kek_uri row) (ke_kek_version row) of
             Inl e \<Rightarrow> Inl (provider_failure ''Unable to unwrap the conversation key.'' e)
           | Inr dek \<Rightarrow> if length dek \<noteq> 32
                        then Inl (EnvelopeEncryptionError ''Key provider returned an invalid conversation key.'')
                        else Inr dek))"

definition env_ok :: "key_name set \<Rightarrow> envelope \<Rightarrow> bool" where
  "env_ok W ev \<longleftrightarrow> inj_on (ev_sha256 ev) (hashed (ev_sha256 ev) W) \<and> 1 \<le> ev_max_entries ev \<and> aead_correct (ev_aead ev)"

lemma entry_ok_unwrap:
  assumes "env_ok W ev" "(w, c, u, v) \<in> W" "env_context c" "entry_ok W ev (dek_cache_key (ev_sha256 ev) w c u v) dek"
  shows "pv_unwrap (ev_provider ev) w c u v = Inr dek"
  using assms dek_cache_key_inject unfolding entry_ok_def env_ok_def by metis

lemma entry_okI:
  "(w, c, u, v) \<in> W \<Longrightarrow> env_context c \<Longrightarrow> pv_unwrap (ev_provider ev) w c u v = Inr dek \<Longrightarrow> length dek = 32 \<Longrightarrow>
   entry_ok W ev (dek_cache_key (ev_sha256 ev) w c u v) dek"
  unfolding entry_ok_def by blast

text \<open>\<open>W\<close> covers what an operation may look up or store: the keys of a conversation on record, a key it generates, the key of an account.\<close>

definition session_covered :: "key_name set \<Rightarrow> chat_session \<Rightarrow> env_state \<Rightarrow> bool" where
  "session_covered W s st \<longleftrightarrow>
     (\<forall>k \<in> set (es_epochs st). ke_session_id k = cs_id s \<longrightarrow>
        (ke_wrapped_dek k, session_key_context s (ke_epoch k), ke_kek_uri k, ke_kek_version k) \<in> W)"

definition generated_covered :: "key_name set \<Rightarrow> envelope \<Rightarrow> entropy \<Rightarrow> key_context \<Rightarrow> bool" where
  "generated_covered W ev r c \<longleftrightarrow>
     (case pv_generate (ev_provider ev) r c of Inl _ \<Rightarrow> True | Inr g \<Rightarrow> (wd_wrapped g, c, wd_kek_uri g, wd_kek_version g) \<in> W)"

text \<open>The key \<^verbatim>\<open>ensure_session_key\<close> generates when the conversation has none.\<close>

definition creation_covered :: "key_name set \<Rightarrow> envelope \<Rightarrow> entropy \<Rightarrow> chat_session \<Rightarrow> env_state \<Rightarrow> bool" where
  "creation_covered W ev r s st \<longleftrightarrow>
     ((if cs_epoch s > 0 then find_epoch st (cs_id s) (cs_epoch s) else None) = None \<longrightarrow>
      generated_covered W ev r (session_key_context s (max (cs_epoch s) 0 + 1)))"

definition user_covered :: "key_name set \<Rightarrow> account \<Rightarrow> bool" where
  "user_covered W u \<longleftrightarrow>
     (user_metadata_ok u \<longrightarrow>
        (opt_text (us_wrapped_dek u), user_key_context u (us_epoch u), opt_text (us_kek_uri u), opt_text (us_kek_version u)) \<in> W)"

lemma session_coveredD:
  assumes "session_covered W s st" "epoch_row s epoch st = Inr row"
  shows "(ke_wrapped_dek row, session_key_context s epoch, ke_kek_uri row, ke_kek_version row) \<in> W"
proof -
  have "row \<in> set (es_epochs st)" "ke_session_id row = cs_id s" "ke_epoch row = epoch"
    using assms(2) by (auto simp: epoch_row_def find_epoch_def find_Some_iff split: option.splits)
  then show ?thesis using assms(1) by (auto simp: session_covered_def)
qed

lemma session_covered_cong:
  assumes "session_covered W s st" "cs_id s' = cs_id s" "cs_owner_id s' = cs_owner_id s" "es_epochs st' = es_epochs st"
  shows "session_covered W s' st'"
  using assms by (simp add: session_covered_def session_key_context_def)

text \<open>The cache is transparent: the operation with it returns what the specification returns.\<close>

lemma session_dek_fresh:
  assumes ok: "env_ok W ev" and inv: "cache_inv W ev st" and cov: "session_covered W s st"
    and run: "session_dek ev t t' s epoch st = (res, st')"
  shows "res = fresh_session_dek ev s epoch st \<and> cache_inv W ev st' \<and> es_epochs st' = es_epochs st"
proof (cases "epoch_row s epoch st")
  case (Inl e)
  then show ?thesis using run inv by (simp add: session_dek_def fresh_session_dek_def)
next
  case (Inr row)
  let ?c = "session_key_context s epoch"
  let ?key = "dek_cache_key (ev_sha256 ev) (ke_wrapped_dek row) ?c (ke_kek_uri row) (ke_kek_version row)"
  let ?unwrap = "pv_unwrap (ev_provider ev) (ke_wrapped_dek row) ?c (ke_kek_uri row) (ke_kek_version row)"
  obtain cached st1 where get: "cache_get ?key t st = (cached, st1)"
    by (cases "cache_get ?key t st")
  note g = cache_get_inv[OF inv get] and W = session_coveredD[OF cov Inr]
  show ?thesis
  proof (cases cached)
    case (Some dek)
    then have "entry_ok W ev ?key dek" using g(3) by blast
    then have "?unwrap = Inr dek" "length dek = 32"
      using entry_ok_unwrap[OF ok W] by (simp_all add: entry_ok_def)
    then show ?thesis
      using run Inr get Some g(1,2) by (simp add: session_dek_def fresh_session_dek_def)
  next
    case None
    show ?thesis
    proof (cases ?unwrap)
      case (Inl e)
      then show ?thesis
        using run Inr get None g(1,2) by (simp add: session_dek_def fresh_session_dek_def)
    next
      case dek: (Inr dek)
      show ?thesis
      proof (cases "length dek = 32")
        case True
        obtain r st2 where put: "cache_put ev ?key dek t' st1 = (r, st2)"
          by (cases "cache_put ev ?key dek t' st1")
        have "r = Inr () \<and> cache_inv W ev st2 \<and> es_epochs st2 = es_epochs st1"
          using cache_put_inv[OF g(1) _ entry_okI[OF W _ dek True] put] ok by (simp add: env_ok_def)
        then show ?thesis
          using run Inr get None dek True put g(2) by (simp add: session_dek_def fresh_session_dek_def)
      next
        case False
        then show ?thesis
          using run Inr get None dek g(1,2) by (simp add: session_dek_def fresh_session_dek_def)
      qed
    qed
  qed
qed

lemma fresh_session_dek_cong:
  assumes "cs_id s = cs_id s'" "cs_owner_id s = cs_owner_id s'"
    and "find_epoch st (cs_id s) e = find_epoch st' (cs_id s) e"
  shows "fresh_session_dek ev s e st = fresh_session_dek ev s' e st'"
proof -
  have c: "session_key_context s = session_key_context s'"
    using assms by (intro ext) (simp add: session_key_context_def)
  have "epoch_row s e st = epoch_row s' e st'"
    using assms by (simp add: epoch_row_def)
  then show ?thesis
    unfolding fresh_session_dek_def c by simp
qed

text \<open>Each epoch of a conversation has one row.\<close>

definition epochs_inv :: "env_state \<Rightarrow> bool" where
  "epochs_inv st \<longleftrightarrow> distinct (map (\<lambda>k. (ke_session_id k, ke_epoch k)) (es_epochs st))"

lemma find_append: "find P (xs @ ys) = (case find P xs of None \<Rightarrow> find P ys | Some x \<Rightarrow> Some x)"
  by (induction xs) simp_all

lemma find_epoch_add: "find_epoch (add_epoch row st) sid e =
  (case find_epoch st sid e of Some k \<Rightarrow> Some k
   | None \<Rightarrow> if ke_session_id row = sid \<and> ke_epoch row = e then Some row else None)"
  by (simp add: find_epoch_def add_epoch_def find_append split: option.split)

lemma find_map_same:
  "(\<And>x. P (f x) = P x) \<Longrightarrow> find P (map f xs) = map_option f (find P xs)"
  by (induction xs) simp_all

lemma find_epoch_SomeD: "find_epoch st sid e = Some k \<Longrightarrow> ke_session_id k = sid \<and> ke_epoch k = e \<and> k \<in> set (es_epochs st)"
  by (auto simp: find_epoch_def find_Some_iff)

lemma find_epoch_store:
  "find_epoch (store_epoch sid e w st) sid' e' =
     (if sid' = sid \<and> e' = e
      then map_option (\<lambda>k. k\<lparr>ke_wrapped_dek := wd_wrapped w, ke_kek_uri := wd_kek_uri w, ke_kek_version := wd_kek_version w\<rparr>)
             (find_epoch st sid e)
      else find_epoch st sid' e')"
proof -
  let ?f = "\<lambda>k. if ke_session_id k = sid \<and> ke_epoch k = e
    then k\<lparr>ke_wrapped_dek := wd_wrapped w, ke_kek_uri := wd_kek_uri w, ke_kek_version := wd_kek_version w\<rparr> else k"
  have "find_epoch (store_epoch sid e w st) sid' e' = map_option ?f (find_epoch st sid' e')"
    unfolding find_epoch_def store_epoch_def by (simp add: find_map_same)
  then show ?thesis
    by (cases "find_epoch st sid' e'") (auto dest: find_epoch_SomeD)
qed

lemma find_key:
  "distinct (map (\<lambda>k. (f k, g k)) xs) \<Longrightarrow> k \<in> set xs \<Longrightarrow> find (\<lambda>j. f j = f k \<and> g j = g k) xs = Some k"
  by (induction xs) force+

lemma find_epoch_mem: "epochs_inv st \<Longrightarrow> k \<in> set (es_epochs st) \<Longrightarrow> find_epoch st (ke_session_id k) (ke_epoch k) = Some k"
  unfolding find_epoch_def epochs_inv_def by (rule find_key)

lemma find_epoch_None: "find_epoch st sid e = None \<longleftrightarrow> (sid, e) \<notin> (\<lambda>k. (ke_session_id k, ke_epoch k)) ` set (es_epochs st)"
  by (auto simp: find_epoch_def find_None_iff)

lemma epochs_inv_simps [simp]:
  "epochs_inv (store_epoch sid e w st) = epochs_inv st"
  "epochs_inv (retire_epoch sid e t st) = epochs_inv st"
proof -
  have "(\<lambda>x. (ke_session_id (if b x then f x else x), ke_epoch (if b x then f x else x))) = (\<lambda>x. (ke_session_id x, ke_epoch x))"
    if "\<And>x. ke_session_id (f x) = ke_session_id x" "\<And>x. ke_epoch (f x) = ke_epoch x" for b and f :: "key_epoch \<Rightarrow> key_epoch"
    using that by auto
  then show "epochs_inv (store_epoch sid e w st) = epochs_inv st" "epochs_inv (retire_epoch sid e t st) = epochs_inv st"
    by (simp_all add: epochs_inv_def store_epoch_def retire_epoch_def comp_def)
qed

lemma cache_inv_simps [simp]:
  "cache_inv W ev (store_epoch sid e w st) = cache_inv W ev st"
  "cache_inv W ev (retire_epoch sid e t st) = cache_inv W ev st"
  "cache_inv W ev (add_epoch row st) = cache_inv W ev st"
  "cache_inv W ev (st\<lparr>es_epochs := x\<rparr>) = cache_inv W ev st"
  by (simp_all add: cache_inv_def store_epoch_def retire_epoch_def add_epoch_def)

lemma cache_inv_clear [simp]: "1 \<le> ev_max_entries ev \<Longrightarrow> cache_inv W ev (clear_cache st)"
  by (simp add: cache_inv_def clear_cache_def)

lemma fresh_retire [simp]: "fresh_session_dek ev s e (retire_epoch sid e' t st) = fresh_session_dek ev s e st"
proof -
  have "find_epoch (retire_epoch sid e' t st) (cs_id s) e =
      map_option (\<lambda>k. if ke_session_id k = sid \<and> ke_epoch k = e' then k\<lparr>ke_retired_at := Some t\<rparr> else k) (find_epoch st (cs_id s) e)"
    unfolding find_epoch_def retire_epoch_def by (simp add: find_map_same)
  then show ?thesis
    by (cases "find_epoch st (cs_id s) e") (auto simp: fresh_session_dek_def epoch_row_def)
qed

lemma fresh_epochs: "es_epochs st = es_epochs st' \<Longrightarrow> fresh_session_dek ev s e st = fresh_session_dek ev s e st'"
  by (rule fresh_session_dek_cong) (simp_all add: find_epoch_def)

lemma fresh_Inr_iff:
  "fresh_session_dek ev s e st = Inr dek \<longleftrightarrow>
     (\<exists>row. find_epoch st (cs_id s) e = Some row \<and> length dek = 32 \<and>
        pv_unwrap (ev_provider ev) (ke_wrapped_dek row) (session_key_context s e) (ke_kek_uri row) (ke_kek_version row) = Inr dek)"
  by (auto simp: fresh_session_dek_def epoch_row_def split: option.splits sum.splits if_splits)

text \<open>What an operation may do to the state: it keeps the invariants and every key that could be
  unwrapped before. \<open>owner\<close> gives the owner of each conversation, which never changes.\<close>

definition keeps_keys :: "key_name set \<Rightarrow> envelope \<Rightarrow> (string \<Rightarrow> string) \<Rightarrow> env_state \<Rightarrow> env_state \<Rightarrow> bool" where
  "keeps_keys W ev owner st st' \<longleftrightarrow>
     (cache_inv W ev st \<and> epochs_inv st \<longrightarrow>
        cache_inv W ev st' \<and> epochs_inv st' \<and>
        (\<forall>s e dek. cs_owner_id s = owner (cs_id s) \<longrightarrow>
           fresh_session_dek ev s e st = Inr dek \<longrightarrow> fresh_session_dek ev s e st' = Inr dek))"

lemma keeps_keys_refl: "keeps_keys W ev owner st st"
  by (simp add: keeps_keys_def)

lemma keeps_keys_trans: "keeps_keys W ev owner st st' \<Longrightarrow> keeps_keys W ev owner st' st'' \<Longrightarrow> keeps_keys W ev owner st st''"
  unfolding keeps_keys_def by blast

lemma keeps_keys_cache:
  "(cache_inv W ev st \<Longrightarrow> cache_inv W ev st') \<Longrightarrow> es_epochs st' = es_epochs st \<Longrightarrow> keeps_keys W ev owner st st'"
  using fresh_epochs[of st' st ev] by (simp add: keeps_keys_def epochs_inv_def)

lemma keeps_keys_session_dek:
  assumes "env_ok W ev" "session_covered W s st" "session_dek ev t t' s e st = (res, st')"
  shows "keeps_keys W ev owner st st'"
proof (cases "cache_inv W ev st")
  case True
  then show ?thesis
    using session_dek_fresh[OF assms(1) True assms(2,3)] by (intro keeps_keys_cache) simp_all
next
  case False
  then show ?thesis by (simp add: keeps_keys_def)
qed

lemma user_dek_keeps:
  assumes ok: "env_ok W ev" and cov: "user_covered W u" and size: "\<And>w c u v dek. pv_unwrap (ev_provider ev) w c u v = Inr dek \<Longrightarrow> length dek = 32"
    and run: "user_dek ev t t' u st = (res, st')"
  shows "keeps_keys W ev owner st st'"
proof (cases "user_metadata_ok u \<and> cache_inv W ev st")
  case False
  then show ?thesis using run by (auto simp: user_dek_def keeps_keys_def split: if_splits)
next
  case True
  then have inv: "cache_inv W ev st" by simp
  let ?w = "opt_text (us_wrapped_dek u)" and ?c = "user_key_context u (us_epoch u)"
  let ?u = "opt_text (us_kek_uri u)" and ?v = "opt_text (us_kek_version u)"
  let ?key = "dek_cache_key (ev_sha256 ev) ?w ?c ?u ?v"
  obtain cached st1 where get: "cache_get ?key t st = (cached, st1)"
    by (cases "cache_get ?key t st")
  note g = cache_get_inv[OF inv get]
  have "cache_inv W ev st' \<and> es_epochs st' = es_epochs st"
  proof (cases "cached = None \<and> (\<exists>dek. pv_unwrap (ev_provider ev) ?w ?c ?u ?v = Inr dek)")
    case False
    then show ?thesis
      using run True get g(1,2) by (auto simp: user_dek_def Let_def split: option.splits sum.splits)
  next
    case miss: True
    then obtain dek where dek: "cached = None" "pv_unwrap (ev_provider ev) ?w ?c ?u ?v = Inr dek" by blast
    obtain r st2 where put: "cache_put ev ?key dek t' st1 = (r, st2)"
      by (cases "cache_put ev ?key dek t' st1")
    have "r = Inr () \<and> cache_inv W ev st2 \<and> es_epochs st2 = es_epochs st1"
      using cache_put_inv[OF g(1) _ entry_okI[OF _ _ dek(2) size[OF dek(2)]] put] ok cov True by (simp add: env_ok_def user_covered_def)
    then show ?thesis
      using run True get g(2) dek put by (simp add: user_dek_def Let_def)
  qed
  then show ?thesis
    by (intro keeps_keys_cache) simp_all
qed

lemma rewrap_rows_session: "rewrap_rows ev rnd rows s st = (res, s', st') \<Longrightarrow> cs_id s' = cs_id s \<and> cs_owner_id s' = cs_owner_id s"
  by (induction rows arbitrary: s st) (fastforce split: sum.splits if_splits)+

lemma new_epoch_session: "new_epoch ev t r m e s st = (res, s', st') \<Longrightarrow> cs_id s' = cs_id s \<and> cs_owner_id s' = cs_owner_id s"
  by (auto simp: new_epoch_def Let_def split: sum.splits prod.splits if_splits)

lemma ensure_session: "ensure_session_key ev t r s st = (res, s', st') \<Longrightarrow> cs_id s' = cs_id s \<and> cs_owner_id s' = cs_owner_id s"
  by (auto simp: ensure_session_key_def split: if_splits option.splits dest: new_epoch_session)

lemma new_epoch_covered:
  assumes "new_epoch ev t r m e s st = (res, s', st')" "generated_covered W ev r (session_key_context s e)" "session_covered W s st"
  shows "session_covered W s' st'"
proof (cases "pv_generate (ev_provider ev) r (session_key_context s e)")
  case (Inl x)
  then show ?thesis using assms by (simp add: new_epoch_def)
next
  case (Inr g)
  have p: "es_epochs b = es_epochs st" if "cache_put ev key d t st = (a, b)" for key d a b
    using that by (auto simp: cache_put_def split: if_splits)
  have W: "(wd_wrapped g, session_key_context s e, wd_kek_uri g, wd_kek_version g) \<in> W"
    using assms(2) Inr by (simp add: generated_covered_def)
  note s' = new_epoch_session[OF assms(1)]
  have "set (es_epochs st') \<subseteq> set (es_epochs st) \<union> {k. ke_epoch k = e \<and> (ke_wrapped_dek k, ke_kek_uri k, ke_kek_version k) =
      (wd_wrapped g, wd_kek_uri g, wd_kek_version g)}"
    using assms(1) Inr by (auto simp: new_epoch_def Let_def add_epoch_def split: prod.splits sum.splits if_splits dest!: p)
  then show ?thesis
    using assms(3) W s' by (fastforce simp: session_covered_def session_key_context_def)
qed

lemma ensure_covered:
  assumes "ensure_session_key ev t r s st = (res, s', st')" "creation_covered W ev r s st" "session_covered W s st"
  shows "session_covered W s' st'"
  using assms new_epoch_covered unfolding creation_covered_def ensure_session_key_def
  by (fastforce split: if_splits option.splits)

lemma session_dek_epochs: "session_dek ev t t' s e st = (res, st') \<Longrightarrow> es_epochs st' = es_epochs st"
  by (auto simp: session_dek_def cache_get_def cache_put_def Let_def split: sum.splits option.splits if_splits)

lemma encrypt_covered:
  assumes "encrypt_message ev clk r nonce pt role uuid idx s st = (res, s', st')" "creation_covered W ev r s st" "session_covered W s st"
  shows "session_covered W s' st'"
proof -
  obtain a s1 st1 where e: "ensure_session_key ev (fst clk) r s st = (a, s1, st1)" by (metis prod_cases3)
  note c = ensure_covered[OF e assms(2,3)]
  have "st' = st1 \<or> (\<exists>k b. session_dek ev (fst (snd clk)) (snd (snd clk)) s1 k st1 = (b, st'))" "s' = s1"
    using assms(1) e by (auto simp: encrypt_message_def split: sum.splits prod.splits option.splits)
  then show ?thesis using c session_covered_cong[OF c] session_dek_epochs by metis
qed

lemma decrypt_message_epochs: "decrypt_message ev clk s row st = (out, st') \<Longrightarrow> es_epochs st' = es_epochs st"
  by (auto simp: decrypt_message_def split: sum.splits if_splits prod.splits option.splits dest: session_dek_epochs)

lemma ensure_user_covered:
  assumes "ensure_user_key ev t r u st = (res, u', st')" "generated_covered W ev r (user_key_context u 1)" "user_covered W u"
  shows "user_covered W u'"
  using assms
  by (auto simp: ensure_user_key_def generated_covered_def user_covered_def opt_text_def user_key_context_def Let_def
      split: if_splits sum.splits prod.splits)

section \<open>Histories of the service\<close>

text \<open>Every operation of the service, on any conversation with its owner or on any account, in any
  order, with failures, all of whose cache keys name members of \<open>W\<close>. A failing transaction may be rolled back: the table returns to its state before
  the operation, the cache does not.\<close>

inductive env_step :: "key_name set \<Rightarrow> envelope \<Rightarrow> (string \<Rightarrow> string) \<Rightarrow> env_state \<Rightarrow> env_state \<Rightarrow> bool"
  for W :: "key_name set" and ev :: envelope and owner :: "string \<Rightarrow> string" where
  step_ensure: "entropy_ok r \<Longrightarrow> cs_owner_id s = owner (cs_id s) \<Longrightarrow> creation_covered W ev r s st \<Longrightarrow>
    ensure_session_key ev t r s st = (res, s', st') \<Longrightarrow> env_step W ev owner st st'"
| step_encrypt: "entropy_ok r \<Longrightarrow> cs_owner_id s = owner (cs_id s) \<Longrightarrow> creation_covered W ev r s st \<Longrightarrow> session_covered W s st \<Longrightarrow>
    encrypt_message ev clk r nonce p role uuid idx s st = (res', s', st') \<Longrightarrow> env_step W ev owner st st'"
| step_decrypt: "session_covered W s st \<Longrightarrow> decrypt_message ev clk2 s row st = (out, st') \<Longrightarrow> env_step W ev owner st st'"
| step_migrate: "entropy_ok r \<Longrightarrow> cs_owner_id s = owner (cs_id s) \<Longrightarrow> creation_covered W ev r s st \<Longrightarrow> session_covered W s st \<Longrightarrow>
    migrate_legacy_message ev clk r nonce s row st = (moved, row', s', st') \<Longrightarrow> env_step W ev owner st st'"
| step_rotate: "entropy_ok r \<Longrightarrow> cs_owner_id s = owner (cs_id s) \<Longrightarrow> generated_covered W ev r (session_key_context s (cs_epoch s + 1)) \<Longrightarrow>
    rotate_session_dek ev t t' r s st = (res, s', st') \<Longrightarrow> env_step W ev owner st st'"
| step_rewrap: "(\<And>e. entropy_ok (rnd e)) \<Longrightarrow> cs_owner_id s = owner (cs_id s) \<Longrightarrow>
    rewrap_session_keys ev rnd s st = (n, s', st') \<Longrightarrow> env_step W ev owner st st'"
| step_user_encrypt: "entropy_ok r \<Longrightarrow> user_covered W u \<Longrightarrow> generated_covered W ev r (user_key_context u 1) \<Longrightarrow>
    encrypt_user_secret ev clk r nonce p field u st = (sec, u', st') \<Longrightarrow> env_step W ev owner st st'"
| step_user_decrypt: "user_covered W u \<Longrightarrow> decrypt_user_secret ev clk2 ct n field u st = (out, st') \<Longrightarrow> env_step W ev owner st st'"
| step_user_rewrap: "entropy_ok r \<Longrightarrow> rewrap_user_key ev r u st = (did, u', st') \<Longrightarrow> env_step W ev owner st st'"
| step_clear: "env_step W ev owner st (clear_cache st)"
| step_rollback: "env_step W ev owner st st1 \<Longrightarrow> env_step W ev owner st (st1\<lparr>es_epochs := es_epochs st\<rparr>)"

context key_provider
begin

lemma new_epoch_keeps:
  assumes p: "ev_provider ev = ops p" "ok p" and env: "env_ok W ev" and r: "entropy_ok r"
    and cov: "generated_covered W ev r (session_key_context s e)" and run: "new_epoch ev t r m e s st = (res, s', st')"
  shows "keeps_keys W ev owner st st'"
proof (cases "cache_inv W ev st \<and> epochs_inv st")
  case False
  then show ?thesis by (auto simp: keeps_keys_def)
next
  case True
  show ?thesis
  proof (cases "pv_generate (ev_provider ev) r (session_key_context s e)")
    case (Inl err)
    then show ?thesis using run by (simp add: new_epoch_def keeps_keys_refl)
  next
    case (Inr g)
    define row where "row = \<lparr>ke_session_id = cs_id s, ke_epoch = e, ke_wrapped_dek = wd_wrapped g, ke_kek_uri = wd_kek_uri g,
      ke_kek_version = wd_kek_version g, ke_crypto_suite = CRYPTO_SUITE, ke_retired_at = None\<rparr>"
    define s1 where "s1 = s\<lparr>cs_epoch := e, cs_crypto_suite := CRYPTO_SUITE, cs_wrapped_dek := Some (wd_wrapped g),
      cs_kek_uri := Some (wd_kek_uri g), cs_kek_version := Some (wd_kek_version g)\<rparr>"
    define key where "key = dek_cache_key (ev_sha256 ev) (wd_wrapped g) (session_key_context s1 e) (wd_kek_uri g) (wd_kek_version g)"
    have c: "session_key_context s1 e = session_key_context s e"
      by (simp add: s1_def session_key_context_def)
    obtain q st1 where put: "cache_put ev key (gd_plaintext g) t st = (q, st1)"
      by (cases "cache_put ev key (gd_plaintext g) t st")
    have g: "pv_generate (ops p) r (session_key_context s e) = Inr g"
      using Inr p by simp
    have "entry_ok W ev key (gd_plaintext g)"
      unfolding key_def c
      using generate_unwrap[OF p(2) r g] generate_size[OF p(2) r g] cov Inr
      by (intro entry_okI) (simp_all add: p(1) generated_covered_def)
    from cache_put_inv[OF conjunct1[OF True] _ this put]
    have q: "q = Inr ()" "cache_inv W ev st1" "es_epochs st1 = es_epochs st"
      using env by (simp_all add: env_ok_def)
    have st': "st' = (if e \<le> 0 \<or> find_epoch st1 (cs_id s) e \<noteq> None then st1 else add_epoch row st1)"
      using run Inr put q(1) unfolding row_def key_def s1_def
      by (auto simp: new_epoch_def Let_def split: if_splits)
    have "keeps_keys W ev owner st1 (add_epoch row st1)" if new: "find_epoch st1 (cs_id s) e = None"
    proof -
      have "epochs_inv (add_epoch row st1)" if "epochs_inv st1"
        using that new by (simp add: epochs_inv_def add_epoch_def row_def find_epoch_None)
      moreover have "fresh_session_dek ev s2 e2 (add_epoch row st1) = Inr dek" if "fresh_session_dek ev s2 e2 st1 = Inr dek" for s2 e2 dek
        using that by (auto simp: fresh_Inr_iff find_epoch_add)
      ultimately show ?thesis
        by (simp add: keeps_keys_def)
    qed
    moreover have "keeps_keys W ev owner st st1"
      using q by (intro keeps_keys_cache) simp_all
    ultimately show ?thesis
      unfolding st' using keeps_keys_trans by auto
  qed
qed

lemma ensure_keeps:
  assumes "ev_provider ev = ops p" "ok p" "env_ok W ev" "entropy_ok r" "creation_covered W ev r s st" "ensure_session_key ev t r s st = (res, s', st')"
  shows "keeps_keys W ev owner st st'"
  using assms(5,6) new_epoch_keeps[OF assms(1-4)]
  by (auto simp: ensure_session_key_def creation_covered_def keeps_keys_refl split: if_splits option.splits)

lemma rotate_keeps:
  assumes "ev_provider ev = ops p" "ok p" "env_ok W ev" "entropy_ok r" "generated_covered W ev r (session_key_context s (cs_epoch s + 1))"
    "rotate_session_dek ev t t' r s st = (res, s', st')"
  shows "keeps_keys W ev owner st st'"
proof -
  have "keeps_keys W ev owner st (retire_epoch sid e t st)" for sid e
    by (simp add: keeps_keys_def)
  then show ?thesis
    using assms(6) new_epoch_keeps[OF assms(1-5)] keeps_keys_trans keeps_keys_refl
    by (fastforce simp: rotate_session_dek_def Let_def split: if_splits)
qed

end

lemma decrypt_message_state:
  assumes "decrypt_message ev clk s row st = (out, st')"
  shows "st' = st \<or> (\<exists>res. session_dek ev (fst clk) (snd clk) s (sm_crypto_epoch row) st = (res, st'))"
  using assms by (auto simp: decrypt_message_def split: sum.splits if_splits prod.splits option.splits)

lemma migrate_state:
  assumes "migrate_legacy_message ev clk r nonce s row st = (moved, row', s', st')"
  shows "st' = st \<or> (\<exists>pt res. encrypt_message ev clk r nonce pt (sm_role row) (sm_uuid row) (sm_index row) s st = (res, s', st'))"
  using assms by (auto simp: migrate_legacy_message_def split: sum.splits if_splits prod.splits)

lemma encrypt_user_state:
  assumes "encrypt_user_secret ev clk r nonce p field u st = (sec, u', st')"
  shows "\<exists>res st1. ensure_user_key ev (fst clk) r u st = (res, u', st1) \<and>
           (st' = st1 \<or> (\<exists>d. user_dek ev (fst (snd clk)) (snd (snd clk)) u' st1 = (d, st')))"
  using assms by (auto simp: encrypt_user_secret_def split: sum.splits prod.splits option.splits)

lemma decrypt_user_state:
  assumes "decrypt_user_secret ev clk ct n field u st = (out, st')"
  shows "st' = st \<or> (\<exists>d. user_dek ev (fst clk) (snd clk) u st = (d, st'))"
  using assms by (auto simp: decrypt_user_secret_def split: sum.splits if_splits prod.splits option.splits)

lemma keeps_keys_clear: "env_ok W ev \<Longrightarrow> keeps_keys W ev owner st (clear_cache st)"
  by (intro keeps_keys_cache) (simp_all add: env_ok_def clear_cache_def cache_inv_def)

lemma session_rows_facts:
  assumes "epochs_inv st"
  shows "distinct (map ke_epoch (session_rows s st))"
    and "row \<in> set (session_rows s st) \<Longrightarrow> find_epoch st (cs_id s) (ke_epoch row) = Some row"
proof -
  let ?rs = "filter (\<lambda>k. ke_session_id k = cs_id s) (es_epochs st)"
  have "distinct ?rs" "inj_on ke_epoch (set ?rs)"
    using assms by (auto simp: epochs_inv_def distinct_map inj_on_def)
  then show "distinct (map ke_epoch (session_rows s st))"
    by (simp add: session_rows_def distinct_map)
  show "find_epoch st (cs_id s) (ke_epoch row) = Some row" if "row \<in> set (session_rows s st)"
    using that find_epoch_mem[OF assms, of row] by (auto simp: session_rows_def)
qed

context key_provider
begin

lemma store_rewrapped_keeps:
  assumes p: "ev_provider ev = ops p" "ok p" and r: "entropy_ok r" and own: "cs_owner_id s = owner (cs_id s)"
    and row: "find_epoch st (cs_id s) (ke_epoch row) = Some row"
    and w: "pv_rewrap (ev_provider ev) r (ke_wrapped_dek row) (session_key_context s (ke_epoch row)) (ke_kek_uri row) (ke_kek_version row) = Inr w"
  shows "keeps_keys W ev owner st (store_epoch (cs_id s) (ke_epoch row) w st)"
proof -
  have "fresh_session_dek ev s2 e2 (store_epoch (cs_id s) (ke_epoch row) w st) = Inr dek"
    if s2: "cs_owner_id s2 = owner (cs_id s2)" and fr: "fresh_session_dek ev s2 e2 st = Inr dek" for s2 e2 dek
  proof (cases "cs_id s2 = cs_id s \<and> e2 = ke_epoch row")
    case False
    then show ?thesis using fr by (auto simp: fresh_Inr_iff find_epoch_store)
  next
    case True
    then have c: "session_key_context s2 e2 = session_key_context s (ke_epoch row)"
      using own s2 by (simp add: session_key_context_def)
    have "pv_unwrap (ops p) (ke_wrapped_dek row) (session_key_context s (ke_epoch row)) (ke_kek_uri row) (ke_kek_version row) = Inr dek"
      using fr row True c p(1) by (auto simp: fresh_Inr_iff)
    from rewrap_unwrap[OF p(2) r this] w p(1) show ?thesis
      using fr True row c by (auto simp: fresh_Inr_iff find_epoch_store)
  qed
  then show ?thesis
    by (simp add: keeps_keys_def)
qed

lemma rewrap_rows_keeps:
  assumes p: "ev_provider ev = ops p" "ok p" and r: "\<And>e. entropy_ok (rnd e)"
  shows "rewrap_rows ev rnd rows s st = (res, s', st') \<Longrightarrow> cs_owner_id s = owner (cs_id s) \<Longrightarrow> distinct (map ke_epoch rows) \<Longrightarrow>
    (\<And>row. row \<in> set rows \<Longrightarrow> find_epoch st (cs_id s) (ke_epoch row) = Some row) \<Longrightarrow> keeps_keys W ev owner st st'"
proof (induction rows arbitrary: s st)
  case Nil
  then show ?case by (simp add: keeps_keys_refl)
next
  case (Cons row rows)
  let ?rw = "pv_rewrap (ev_provider ev) (rnd (ke_epoch row)) (ke_wrapped_dek row) (session_key_context s (ke_epoch row)) (ke_kek_uri row) (ke_kek_version row)"
  show ?case
  proof (cases ?rw)
    case (Inl e)
    then show ?thesis using Cons.prems(1) by (simp add: keeps_keys_refl)
  next
    case (Inr w)
    let ?st = "store_epoch (cs_id s) (ke_epoch row) w st"
    have "keeps_keys W ev owner st ?st"
      using store_rewrapped_keeps[where r = "rnd (ke_epoch row)" and s = s and owner = owner and row = row and w = w,
          OF p r Cons.prems(2) _ Inr] Cons.prems(4) by simp
    moreover have "keeps_keys W ev owner ?st st'"
      using Cons.prems Inr
      by (intro Cons.IH[of "if ke_epoch row = cs_epoch s then s\<lparr>cs_wrapped_dek := Some (wd_wrapped w),
          cs_kek_uri := Some (wd_kek_uri w), cs_kek_version := Some (wd_kek_version w)\<rparr> else s"])
        (auto simp: find_epoch_store image_iff)
    ultimately show ?thesis by (rule keeps_keys_trans)
  qed
qed

lemma rewrap_keeps:
  assumes p: "ev_provider ev = ops p" "ok p" "env_ok W ev" and r: "\<And>e. entropy_ok (rnd e)" and own: "cs_owner_id s = owner (cs_id s)"
    and run: "rewrap_session_keys ev rnd s st = (n, s', st')"
  shows "keeps_keys W ev owner st st'"
proof (cases "epochs_inv st")
  case False
  then show ?thesis by (simp add: keeps_keys_def)
next
  case True
  obtain res s1 st1 where rows: "rewrap_rows ev rnd (session_rows s st) s st = (res, s1, st1)"
    by (metis prod_cases3)
  have "keeps_keys W ev owner st st1"
    using rewrap_rows_keeps[where rnd = rnd and s = s and owner = owner, OF p(1,2) r rows own] session_rows_facts[OF True] by blast
  moreover have "st' = st1 \<or> st' = clear_cache st1"
    using run rows by (auto simp: rewrap_session_keys_def Let_def split: sum.splits)
  ultimately show ?thesis
    using keeps_keys_trans keeps_keys_clear[OF p(3)] by blast
qed

lemma user_dek_step:
  assumes "ev_provider ev = ops p" "env_ok W ev" "user_covered W u" "user_dek ev t t' u st = (res, st')"
  shows "keeps_keys W ev owner st st'"
  using assms unwrap_size by (intro user_dek_keeps[OF assms(2,3) _ assms(4)]) simp

lemma ensure_user_keeps:
  assumes p: "ev_provider ev = ops p" "ok p" and env: "env_ok W ev" and r: "entropy_ok r"
    and cov: "generated_covered W ev r (user_key_context u 1)" and run: "ensure_user_key ev t r u st = (res, u', st')"
  shows "keeps_keys W ev owner st st'"
proof (cases "\<not> given (us_wrapped_dek u) \<and> cache_inv W ev st \<and> (\<exists>g. pv_generate (ev_provider ev) r (user_key_context u 1) = Inr g)")
  case False
  then show ?thesis
    using run by (auto simp: ensure_user_key_def keeps_keys_def split: if_splits sum.splits)
next
  case True
  then obtain g where inv: "cache_inv W ev st" and g: "pv_generate (ops p) r (user_key_context u 1) = Inr g"
    using p(1) by auto
  let ?key = "dek_cache_key (ev_sha256 ev) (wd_wrapped g) (user_key_context u 1) (wd_kek_uri g) (wd_kek_version g)"
  have "entry_ok W ev ?key (gd_plaintext g)"
    using generate_unwrap[OF p(2) r g] generate_size[OF p(2) r g] cov g
    by (intro entry_okI) (simp_all add: p(1) generated_covered_def)
  moreover have c: "user_key_context (u\<lparr>us_epoch := 1, us_wrapped_dek := a, us_kek_uri := b, us_kek_version := d\<rparr>) 1 = user_key_context u 1" for a b d
    by (simp add: user_key_context_def)
  have "cache_put ev ?key (gd_plaintext g) t st = (res, st')"
    using run True g p(1) by (auto simp: ensure_user_key_def c Let_def split: prod.splits)
  ultimately show ?thesis
    using cache_put_inv[OF inv] env by (intro keeps_keys_cache) (auto simp: env_ok_def)
qed

lemma encrypt_keeps:
  assumes p: "ev_provider ev = ops p" "ok p" "env_ok W ev" "entropy_ok r"
    and cov: "creation_covered W ev r s st" "session_covered W s st"
    and run: "encrypt_message ev clk r nonce pt role uuid idx s st = (res, s', st')"
  shows "keeps_keys W ev owner st st'"
proof -
  obtain a s1 st1 where e: "ensure_session_key ev (fst clk) r s st = (a, s1, st1)"
    by (metis prod_cases3)
  note k = ensure_keeps[OF p cov(1) e, of owner] and c1 = ensure_covered[OF e cov]
  show ?thesis
  proof (cases a)
    case (Inl err)
    then show ?thesis using run e k by (simp add: encrypt_message_def)
  next
    case (Inr row)
    obtain b st2 where d: "session_dek ev (fst (snd clk)) (snd (snd clk)) s1 (ke_epoch row) st1 = (b, st2)"
      by (metis surj_pair)
    have "st' = st2"
      using run e d Inr by (auto simp: encrypt_message_def split: sum.splits option.splits)
    then show ?thesis
      using keeps_keys_trans[OF k keeps_keys_session_dek[OF p(3) c1 d]] by simp
  qed
qed

lemma step_keeps:
  assumes p: "ev_provider ev = ops p" "ok p" "env_ok W ev"
  shows "env_step W ev owner st st' \<Longrightarrow> keeps_keys W ev owner st st'"
proof (induction rule: env_step.induct)
  case (step_ensure r s t st res s' st')
  then show ?case using ensure_keeps[OF p] by blast
next
  case (step_encrypt r s st clk nonce pt role uuid idx res s' st')
  then show ?case using encrypt_keeps[OF p] by blast
next
  case (step_decrypt s st clk row out st')
  then show ?case
    using decrypt_message_state[OF step_decrypt(2)] keeps_keys_session_dek[OF p(3)] keeps_keys_refl by blast
next
  case (step_migrate r s st clk nonce row moved row' s' st')
  from migrate_state[OF step_migrate(5)] show ?case
    using encrypt_keeps[OF p step_migrate(1,3,4)] keeps_keys_refl by metis
next
  case (step_rotate r s t t' st res s' st')
  then show ?case using rotate_keeps[OF p] by blast
next
  case (step_rewrap rnd s st n s' st')
  then show ?case using rewrap_keeps[OF p] by blast
next
  case (step_user_encrypt r u clk nonce pt field st sec u' st')
  obtain res st1 where e: "ensure_user_key ev (fst clk) r u st = (res, u', st1)"
    and d: "st' = st1 \<or> (\<exists>d. user_dek ev (fst (snd clk)) (snd (snd clk)) u' st1 = (d, st'))"
    using encrypt_user_state[OF step_user_encrypt(4)] by blast
  have "keeps_keys W ev owner st1 st'"
    using d user_dek_step[OF p(1,3) ensure_user_covered[OF e step_user_encrypt(3,2)]] keeps_keys_refl by blast
  with ensure_user_keeps[OF p step_user_encrypt(1,3) e] show ?case
    by (rule keeps_keys_trans)
next
  case (step_user_decrypt u clk ct n field st out st')
  from decrypt_user_state[OF step_user_decrypt(2)] show ?case
    using user_dek_step[OF p(1,3) step_user_decrypt(1)] keeps_keys_refl by blast
next
  case (step_user_rewrap r u st did u' st')
  then show ?case
    using keeps_keys_clear[OF p(3)] keeps_keys_refl by (auto simp: rewrap_user_key_def split: sum.splits if_splits)
next
  case (step_clear st)
  then show ?case by (rule keeps_keys_clear[OF p(3)])
next
  case (step_rollback st st1)
  then show ?case
    using fresh_epochs[of "st1\<lparr>es_epochs := es_epochs st\<rparr>" st ev] by (auto simp: keeps_keys_def epochs_inv_def)
qed

lemma steps_keep:
  assumes "ev_provider ev = ops p" "ok p" "env_ok W ev"
  shows "(env_step W ev owner)\<^sup>*\<^sup>* st st' \<Longrightarrow> keeps_keys W ev owner st st'"
  by (induction rule: rtranclp_induct) (auto intro: keeps_keys_refl keeps_keys_trans step_keeps[OF assms])

text \<open>A message stays readable whatever happens in between, and only as the message it was.\<close>

lemma message_readable:
  assumes p: "ev_provider ev = ops p" "ok p" "env_ok W ev" and bind: "aead_binding (ev_aead ev)"
    and st0: "es_cache st0 = []" "epochs_inv st0" and before: "(env_step W ev owner)\<^sup>*\<^sup>* st0 st1"
    and r: "entropy_ok r" "length nonce = 12" and own: "cs_owner_id s = owner (cs_id s)"
    and cov: "creation_covered W ev r s st1" "session_covered W s st1"
    and enc: "encrypt_message ev clk r nonce pt role uuid idx s st1 = (Inr (ct, n, e), s', st2)"
    and after: "(env_step W ev owner)\<^sup>*\<^sup>* st2 st3" and cov3: "session_covered W s2 st3"
    and s2: "cs_id s2 = cs_id s" "cs_owner_id s2 = cs_owner_id s"
    and row: "sm_session_id row = cs_id s" "sm_scheme row = ENVELOPE_SCHEME" "sm_ciphertext row = ct" "sm_nonce row = n"
      "sm_crypto_epoch row = e"
  shows "fst (decrypt_message ev clk' s2 row st3) =
           (if sm_role row = role \<and> sm_uuid row = uuid \<and> sm_index row = idx then Inr pt
            else Inl (EnvelopeEncryptionError ''Encrypted message authentication failed.''))"
proof -
  obtain k s1 stk where k: "ensure_session_key ev (fst clk) r s st1 = (Inr k, s1, stk)"
    using enc by (auto simp: encrypt_message_def split: prod.splits sum.splits)
  obtain dek where d: "session_dek ev (fst (snd clk)) (snd (snd clk)) s1 (ke_epoch k) stk = (Inr dek, st2)"
    using enc k by (auto simp: encrypt_message_def split: prod.splits sum.splits option.splits)
  obtain data where data: "utf8_encode pt = Some data"
    using enc k d by (auto simp: encrypt_message_def split: option.splits)
  let ?aad = "canonical_message_aad (cs_owner_id s) (cs_id s) uuid idx role e"
  have s1: "cs_id s1 = cs_id s" "cs_owner_id s1 = cs_owner_id s"
    using ensure_session[OF k] by simp_all
  have out: "e = ke_epoch k" "n = b64encode True nonce" "ct = b64encode True (ae_encrypt (ev_aead ev) dek nonce data ?aad)"
    using enc k d data s1 by (auto simp: encrypt_message_def)
  have "cache_inv W ev st0"
    using st0 p(3) by (simp add: cache_inv_def env_ok_def)
  then have inv1: "cache_inv W ev st1" "epochs_inv st1"
    using steps_keep[OF p before] st0(2) by (simp_all add: keeps_keys_def)
  have invk: "cache_inv W ev stk" "epochs_inv stk"
    using ensure_keeps[OF p r(1) cov(1) k, of owner] inv1 by (simp_all add: keeps_keys_def)
  have f: "fresh_session_dek ev s1 e stk = Inr dek" and inv2: "cache_inv W ev st2" "es_epochs st2 = es_epochs stk"
    using session_dek_fresh[OF p(3) invk(1) ensure_covered[OF k cov] d] out(1) by simp_all
  have "fresh_session_dek ev s2 e st2 = Inr dek"
    using f s1 s2 inv2(2) fresh_session_dek_cong[of s2 s1 st2 e stk ev] by (simp add: find_epoch_def)
  moreover have "epochs_inv st2"
    using invk(2) inv2(2) by (simp add: epochs_inv_def)
  ultimately have f3: "fresh_session_dek ev s2 e st3 = Inr dek" and inv3: "cache_inv W ev st3"
    using steps_keep[OF p after] inv2(1) own s2 by (simp_all add: keeps_keys_def)
  obtain res st4 where d4: "session_dek ev (fst clk') (snd clk') s2 e st3 = (res, st4)"
    by (metis surj_pair)
  have res: "res = Inr dek"
    using session_dek_fresh[OF p(3) inv3 cov3 d4] f3 by simp
  have A: "aead_correct (ev_aead ev)"
    using p(3) by (simp add: env_ok_def)
  have pay: "decode_aead_payload ct n = Inr (ae_encrypt (ev_aead ev) dek nonce data ?aad, nonce)"
    using r(2) aead_length[OF A, of dek nonce data ?aad] by (simp add: decode_aead_payload_def out b64_roundtrip)
  let ?aad' = "canonical_message_aad (cs_owner_id s) (cs_id s) (sm_uuid row) (sm_index row) (sm_role row) e"
  have "open_text (ev_aead ev) dek nonce (ae_encrypt (ev_aead ev) dek nonce data ?aad) ?aad' =
      (if sm_role row = role \<and> sm_uuid row = uuid \<and> sm_index row = idx then Some pt else None)"
  proof (cases "sm_role row = role \<and> sm_uuid row = uuid \<and> sm_index row = idx")
    case True
    then show ?thesis using open_text_same[OF A data] by simp
  next
    case False
    then have "?aad \<noteq> ?aad'"
      by (auto simp: canonical_message_aad_inject)
    then show ?thesis using open_text_other[OF bind] False by simp
  qed
  then show ?thesis
    using row s2 d4 res pay
    by (simp add: decrypt_message_def validate_message_context_def ENVELOPE_SCHEME_def LEGACY_SCHEME_def)
qed

end

text \<open>The providers of \<^verbatim>\<open>key_management.py\<close>, each with what it relies on: the local keyring on its cipher, the three others on
  the documented behaviour of their services.\<close>

definition sound_provider :: "provider \<Rightarrow> bool" where
  "sound_provider prov \<longleftrightarrow>
     (\<exists>p. local_ok p \<and> prov = local_ops p) \<or> (\<exists>v. transit_ok v \<and> prov = vault_ops v) \<or>
     (\<exists>a. kms_ok a \<and> prov = aws_ops a) \<or> (\<exists>g. gcp_ok g \<and> prov = gcp_ops g)"

lemma envelope_init_ok:
  assumes "envelope_init prov A sha legacy ttl mx = Some ev" "inj_on sha (hashed sha W)" "aead_correct A"
  shows "ev_provider ev = prov \<and> ev_aead ev = A \<and> ev_sha256 ev = sha \<and> ev_max_entries ev = mx \<and> env_ok W ev"
  using assms by (auto simp: envelope_init_def env_ok_def split: if_splits)

lemma local_ops_sound:
  assumes "local_init keys active uri = Inr lp" "aead_correct A" "is_ascii uri"
  shows "sound_provider (local_ops (A, lp))"
proof -
  have "local_ok (A, lp)"
    using assms by (auto simp: local_ok_def local_init_def split: if_splits)
  then show ?thesis unfolding sound_provider_def by blast
qed

lemma sound_unwrap_size: "sound_provider prov \<Longrightarrow> pv_unwrap prov w c u v = Inr dek \<Longrightarrow> length dek = 32"
  unfolding sound_provider_def
  by (elim disjE exE conjE)
    (simp_all add: local_keys.unwrap_size vault_keys.unwrap_size aws_keys.unwrap_size gcp_keys.unwrap_size)

lemma sound_generate:
  assumes "sound_provider prov" "entropy_ok r" "pv_generate prov r c = Inr g"
  shows "pv_unwrap prov (wd_wrapped g) c (wd_kek_uri g) (wd_kek_version g) = Inr (gd_plaintext g)" "length (gd_plaintext g) = 32"
  using assms unfolding sound_provider_def
  by (elim disjE exE conjE;
      simp add: local_keys.generate_unwrap vault_keys.generate_unwrap aws_keys.generate_unwrap gcp_keys.generate_unwrap
        local_keys.generate_size vault_keys.generate_size aws_keys.generate_size gcp_keys.generate_size)+

lemma sound_steps_keep:
  assumes "sound_provider (ev_provider ev)" "env_ok W ev" "(env_step W ev owner)\<^sup>*\<^sup>* st st'"
  shows "keeps_keys W ev owner st st'"
  using assms(1) local_keys.steps_keep[OF _ _ assms(2,3)] vault_keys.steps_keep[OF _ _ assms(2,3)]
    aws_keys.steps_keep[OF _ _ assms(2,3)] gcp_keys.steps_keep[OF _ _ assms(2,3)]
  unfolding sound_provider_def by blast

lemma sound_ensure_keeps:
  assumes "sound_provider (ev_provider ev)" "env_ok W ev" "entropy_ok r" "creation_covered W ev r s st"
    "ensure_session_key ev t r s st = (res, s', st')"
  shows "keeps_keys W ev owner st st'"
  using assms(1) local_keys.ensure_keeps[OF _ _ assms(2-5)] vault_keys.ensure_keeps[OF _ _ assms(2-5)]
    aws_keys.ensure_keeps[OF _ _ assms(2-5)] gcp_keys.ensure_keeps[OF _ _ assms(2-5)]
  unfolding sound_provider_def by blast

lemma sound_message_readable:
  assumes prov: "sound_provider (ev_provider ev)" and p: "env_ok W ev" and bind: "aead_binding (ev_aead ev)"
    and st0: "es_cache st0 = []" "epochs_inv st0" and before: "(env_step W ev owner)\<^sup>*\<^sup>* st0 st1"
    and r: "entropy_ok r" "length nonce = 12" and own: "cs_owner_id s = owner (cs_id s)"
    and cov: "creation_covered W ev r s st1" "session_covered W s st1"
    and enc: "encrypt_message ev clk r nonce pt role uuid idx s st1 = (Inr (ct, n, e), s', st2)"
    and after: "(env_step W ev owner)\<^sup>*\<^sup>* st2 st3" and cov3: "session_covered W s2 st3"
    and s2: "cs_id s2 = cs_id s" "cs_owner_id s2 = cs_owner_id s"
    and row: "sm_session_id row = cs_id s" "sm_scheme row = ENVELOPE_SCHEME" "sm_ciphertext row = ct" "sm_nonce row = n"
      "sm_crypto_epoch row = e"
  shows "fst (decrypt_message ev clk' s2 row st3) =
           (if sm_role row = role \<and> sm_uuid row = uuid \<and> sm_index row = idx then Inr pt
            else Inl (EnvelopeEncryptionError ''Encrypted message authentication failed.''))"
  using prov unfolding sound_provider_def
proof (elim disjE exE conjE)
  fix p' assume "local_ok p'" "ev_provider ev = local_ops p'"
  then show ?thesis by (intro local_keys.message_readable[OF _ _ p bind st0 before r own cov enc after cov3 s2 row]) simp_all
next
  fix p' assume "transit_ok p'" "ev_provider ev = vault_ops p'"
  then show ?thesis by (intro vault_keys.message_readable[OF _ _ p bind st0 before r own cov enc after cov3 s2 row]) simp_all
next
  fix p' assume "kms_ok p'" "ev_provider ev = aws_ops p'"
  then show ?thesis by (intro aws_keys.message_readable[OF _ _ p bind st0 before r own cov enc after cov3 s2 row]) simp_all
next
  fix p' assume "gcp_ok p'" "ev_provider ev = gcp_ops p'"
  then show ?thesis by (intro gcp_keys.message_readable[OF _ _ p bind st0 before r own cov enc after cov3 s2 row]) simp_all
qed

text \<open>C1: A message of a conversation stays readable, and only as the message it was. Start the service
  on any of its four key providers with an empty cache; encrypt a message after any history; then let any sequence of
  operations run, in any order, with failures and rollbacks: other messages, rotations of the
  conversation key, rewraps under a new key-encryption key, account secrets, cache clearing. Decrypting
  the stored row returns the text, and the same ciphertext presented with another role, message
  identifier or index is refused. The cipher rejects other associated data, and SHA-256 has no collision among the strings
  digested to name the cache keys of this very run.\<close>

theorem envelope_message_readable:
  assumes "sound_provider prov" and "aead_correct A" and "aead_binding A" and "inj_on sha (hashed sha W)"
    and "envelope_init prov A sha legacy ttl mx = Some ev"
    and "es_cache st0 = []" and "epochs_inv st0" and "(env_step W ev owner)\<^sup>*\<^sup>* st0 st1"
    and "entropy_ok r" and "length nonce = 12" and "cs_owner_id s = owner (cs_id s)"
    and "creation_covered W ev r s st1" and "session_covered W s st1"
    and "encrypt_message ev clk r nonce pt role uuid idx s st1 = (Inr (ct, n, e), s', st2)"
    and "(env_step W ev owner)\<^sup>*\<^sup>* st2 st3" and "session_covered W s2 st3"
    and "cs_id s2 = cs_id s" and "cs_owner_id s2 = cs_owner_id s"
    and "row = \<lparr>sm_session_id = cs_id s, sm_role = role', sm_uuid = uuid', sm_index = idx', sm_ciphertext = ct, sm_nonce = n,
                sm_key_version = kv, sm_crypto_epoch = e, sm_scheme = ENVELOPE_SCHEME\<rparr>"
  shows "fst (decrypt_message ev clk' s2 row st3) =
           (if role' = role \<and> uuid' = uuid \<and> idx' = idx then Inr pt
            else Inl (EnvelopeEncryptionError ''Encrypted message authentication failed.''))"
proof -
  note i = envelope_init_ok[OF assms(5,4,2)]
  have "fst (decrypt_message ev clk' s2 row st3) =
      (if sm_role row = role \<and> sm_uuid row = uuid \<and> sm_index row = idx then Inr pt
       else Inl (EnvelopeEncryptionError ''Encrypted message authentication failed.''))"
    using i assms(1,3)
    by (intro sound_message_readable[OF _ _ _ assms(6-18)]) (simp_all add: assms(19))
  then show ?thesis
    by (simp add: assms(19))
qed

text \<open>C21: The cache of unwrapped keys changes no result and stays bounded. In every state the service
  reaches on any of its key providers, asking for the key of an epoch returns what unwrapping the stored row
  would return, error or key, so a changed owner, URI or version is never served from the cache; and
  the cache never holds more entries than configured. SHA-256 has no collision among the strings digested to name the
  cache keys of this run.\<close>

theorem envelope_cache_transparent:
  assumes "sound_provider prov" and "aead_correct A" and "inj_on sha (hashed sha W)"
    and "envelope_init prov A sha legacy ttl mx = Some ev"
    and "es_cache st0 = []" and "epochs_inv st0" and "(env_step W ev owner)\<^sup>*\<^sup>* st0 st" and "session_covered W s st"
  shows "fst (session_dek ev t t' s epoch st) = fresh_session_dek ev s epoch st \<and>
         int (length (es_cache st)) \<le> mx \<and> int (length (es_cache (snd (session_dek ev t t' s epoch st)))) \<le> mx"
proof -
  note i = envelope_init_ok[OF assms(4,3,2)]
  have "cache_inv W ev st0"
    using assms(5) i by (simp add: cache_inv_def env_ok_def)
  then have inv: "cache_inv W ev st"
    using sound_steps_keep[OF _ _ assms(7)] i assms(1,6) by (simp add: keeps_keys_def)
  obtain res st' where d: "session_dek ev t t' s epoch st = (res, st')"
    by (metis surj_pair)
  have "res = fresh_session_dek ev s epoch st \<and> cache_inv W ev st'"
    using session_dek_fresh[OF _ inv assms(8) d] i by blast
  then show ?thesis
    using inv d i by (simp add: cache_inv_def)
qed

lemma new_epoch_generated:
  assumes "pv_generate (ev_provider ev) r (session_key_context s e) = Inr g" "length (gd_plaintext g) = 32"
    and "0 < e" "find_epoch st (cs_id s) e = None"
  shows "\<exists>row s' st'. new_epoch ev t r m e s st = (Inr row, s', st') \<and> ke_epoch row = e \<and> cs_epoch s' = e \<and>
           ke_wrapped_dek row = wd_wrapped g \<and> ke_kek_uri row = wd_kek_uri g \<and> ke_kek_version row = wd_kek_version g \<and>
           find_epoch st' (cs_id s) e = Some row"
proof -
  have "find_epoch (st\<lparr>es_cache := c\<rparr>) (cs_id s) e = None" for c
    using assms(4) by (simp add: find_epoch_def)
  then show ?thesis
    using assms by (simp add: new_epoch_def cache_put_def Let_def find_epoch_add)
qed

text \<open>The first message of a conversation is encrypted under a new key of epoch 1.\<close>

lemma first_message_encrypted:
  assumes prov: "sound_provider (ev_provider ev)" and ok: "env_ok W ev"
    and g: "pv_generate (ev_provider ev) r (session_key_context s 1) = Inr g"
    and st: "cache_inv W ev st" "find_epoch st (cs_id s) 1 = None"
    and s: "cs_epoch s = 0" "cs_security_mode s \<noteq> ''private_e2ee''"
    and cov: "creation_covered W ev r s st" "session_covered W s st"
    and r: "entropy_ok r" and pt: "utf8_encode pt = Some data"
  shows "\<exists>ct n s' st'. encrypt_message ev clk r nonce pt role uuid idx s st = (Inr (ct, n, 1), s', st')"
proof -
  note u = sound_generate[OF prov r g]
  obtain row s1 st1 where ne: "new_epoch ev (fst clk) r ''Unable to create a protected conversation key.'' 1 s st = (Inr row, s1, st1)"
    and row: "ke_epoch row = 1" "ke_wrapped_dek row = wd_wrapped g" "ke_kek_uri row = wd_kek_uri g" "ke_kek_version row = wd_kek_version g"
      "find_epoch st1 (cs_id s) 1 = Some row"
    using new_epoch_generated[OF g u(2) _ st(2)] by fastforce
  have ens: "ensure_session_key ev (fst clk) r s st = (Inr row, s1, st1)"
    using s ne by (simp add: ensure_session_key_def)
  note s1 = ensure_session[OF ens]
  have c: "session_key_context s1 1 = session_key_context s 1"
    using s1 by (simp add: session_key_context_def)
  have "fresh_session_dek ev s1 1 st1 = Inr (gd_plaintext g)"
    unfolding fresh_Inr_iff c using row u s1 by auto
  moreover have "cache_inv W ev st1"
  proof -
    have "\<exists>q st2. cache_put ev (dek_cache_key (ev_sha256 ev) (wd_wrapped g) (session_key_context s 1) (wd_kek_uri g) (wd_kek_version g))
        (gd_plaintext g) (fst clk) st = (q, st2) \<and> st1 = add_epoch row st2"
      using ne g u row by (auto simp: new_epoch_def Let_def session_key_context_def split: prod.splits sum.splits if_splits)
    moreover have "entry_ok W ev (dek_cache_key (ev_sha256 ev) (wd_wrapped g) (session_key_context s 1) (wd_kek_uri g) (wd_kek_version g)) (gd_plaintext g)"
      using u g cov(1) s(1) by (intro entry_okI) (simp_all add: creation_covered_def generated_covered_def)
    ultimately show ?thesis
      using cache_put_inv[OF st(1)] ok by (auto simp: env_ok_def)
  qed
  moreover obtain res st2 where d: "session_dek ev (fst (snd clk)) (snd (snd clk)) s1 1 st1 = (res, st2)"
    by (metis surj_pair)
  ultimately have "res = Inr (gd_plaintext g)"
    using session_dek_fresh[OF ok _ ensure_covered[OF ens cov] d] by simp
  then show ?thesis
    using ens d row(1) pt by (simp add: encrypt_message_def)
qed

definition demo_session :: chat_session where
  "demo_session = \<lparr>cs_id = ''s1'', cs_owner_id = ''u1'', cs_security_mode = ''secure'', cs_epoch = 0,
     cs_crypto_suite = ''legacy-aes-256-gcm'', cs_wrapped_dek = None, cs_kek_uri = None, cs_kek_version = None\<rparr>"

definition demo_state :: env_state where
  "demo_state = \<lparr>es_cache = [], es_epochs = []\<rparr>"

definition demo_keyring :: local_provider where
  "demo_keyring = \<lparr>lp_keys = [(''1'', replicate 32 (CHR 0x05))], lp_active = ''1'', lp_kek_uri = ''local://k''\<rparr>"

lemma demo_keyring_init: "local_init [(''1'', replicate 32 (CHR 0x05))] ''1'' ''local://k'' = Inr demo_keyring"
  by (simp add: local_init_def dict_has_def dict_get_def dict_values_def demo_keyring_def)

lemma demo_uri_ascii: "is_ascii ''local://k''"
  by (simp add: is_ascii_def)

text \<open>A digest of 64 characters.\<close>

definition demo_digest :: "bytes \<Rightarrow> string" where
  "demo_digest b = replicate 64 (if take 1 b = ''{'' then CHR ''1'' else CHR ''0'')"

definition demo_envelope :: envelope where
  "demo_envelope = \<lparr>ev_provider = local_ops (demo_aead, demo_keyring), ev_aead = demo_aead, ev_sha256 = demo_digest,
     ev_legacy = None, ev_ttl = 60, ev_max_entries = 512\<rparr>"

lemma demo_envelope_init:
  "envelope_init (local_ops (demo_aead, demo_keyring)) demo_aead demo_digest None 60 512 = Some demo_envelope"
  by (simp add: envelope_init_def demo_envelope_def)

text \<open>The one key of the run.\<close>

definition demo_context :: key_context where
  "demo_context = session_key_context demo_session 1"

definition demo_aad :: bytes where
  "demo_aad = (case canonical_context demo_context of Some b \<Rightarrow> b | None \<Rightarrow> [])"

definition demo_wrapped :: string where
  "demo_wrapped = b64encode True (replicate 12 (CHR 0x09) @ ae_encrypt demo_aead (replicate 32 (CHR 0x05)) (replicate 12 (CHR 0x09))
     (replicate 32 (CHR 0x07)) demo_aad)"

definition demo_names :: "key_name set" where
  "demo_names = {(demo_wrapped, demo_context, ''local://k'', ''1'')}"

lemma demo_key_generated:
  "pv_generate (ev_provider demo_envelope) demo_entropy (session_key_context demo_session 1) =
     Inr \<lparr>wd_wrapped = demo_wrapped, wd_kek_uri = ''local://k'', wd_kek_version = ''1'', gd_plaintext = replicate 32 (CHR 0x07)\<rparr>"
proof -
  obtain b where b: "canonical_context demo_context = Some b"
    using env_context_canonical[of demo_context] by (auto simp: demo_context_def)
  then have "demo_aad = b" by (simp add: demo_aad_def)
  then show ?thesis
    using b unfolding demo_context_def[symmetric]
    by (simp add: demo_envelope_def local_ops_def local_generate_def local_wrap_def demo_keyring_def dict_get_Cons demo_entropy_def
        demo_wrapped_def Let_def)
qed

lemma demo_digest_inj: "inj_on demo_digest (hashed demo_digest demo_names)"
proof -
  have r: "replicate 12 (CHR 0x09) = [CHR 0x09, CHR 0x09, CHR 0x09] @ replicate 9 (CHR 0x09)"
    by code_simp
  have "\<exists>t. demo_wrapped = b64_char True 2 # t"
    by (simp add: demo_wrapped_def b64encode_def r)
  moreover have "b64_char True 2 = CHR ''C''"
    by code_simp
  ultimately obtain t where t: "demo_wrapped = CHR ''C'' # t"
    by auto
  have c123: "char_of (123 :: nat) = CHR ''{''"
    by code_simp
  have c67: "char_of (67 :: nat) \<noteq> CHR ''{''"
    by code_simp
  have "take 1 (utf8 demo_wrapped) \<noteq> ''{''"
    using c67 unfolding t by (simp add: utf8_def utf8_point_def)
  moreover have "take 1 (dek_cache_payload demo_digest demo_wrapped demo_context ''local://k'' ''1'') = ''{''"
    using c123 by (simp add: dek_cache_payload_def json_dumps_def utf8_def utf8_point_def)
  ultimately have "demo_digest (utf8 demo_wrapped) \<noteq> demo_digest (dek_cache_payload demo_digest demo_wrapped demo_context ''local://k'' ''1'')"
    by (simp add: demo_digest_def)
  then show ?thesis
    by (auto simp: hashed_def demo_names_def inj_on_def)
qed

lemma demo_sound: "sound_provider (local_ops (demo_aead, demo_keyring))"
  by (rule local_ops_sound[OF demo_keyring_init demo_aead_correct demo_uri_ascii])

lemma demo_env: "ev_provider demo_envelope = local_ops (demo_aead, demo_keyring)" "env_ok demo_names demo_envelope"
  "sound_provider (ev_provider demo_envelope)" "aead_binding (ev_aead demo_envelope)"
  using envelope_init_ok[OF demo_envelope_init demo_digest_inj demo_aead_correct] demo_sound demo_aead_binding by simp_all

lemma demo_covered: "creation_covered demo_names demo_envelope demo_entropy demo_session demo_state" "session_covered demo_names demo_session demo_state"
  using demo_key_generated
  by (simp_all add: creation_covered_def generated_covered_def demo_names_def demo_context_def session_covered_def demo_state_def)
    (simp add: demo_session_def)

lemma demo_state_simps: "es_cache demo_state = []" "epochs_inv demo_state" "find_epoch demo_state sid e = None"
  "cache_inv demo_names demo_envelope demo_state"
  by (simp_all add: demo_state_def epochs_inv_def find_epoch_def cache_inv_def demo_envelope_def)

lemma demo_session_simps: "cs_epoch demo_session = 0" "cs_security_mode demo_session \<noteq> ''private_e2ee''" "cs_id demo_session = ''s1''"
  "cs_owner_id demo_session = ''u1''"
  by (simp_all add: demo_session_def)

lemma demo_encrypted:
  assumes "utf8_encode pt = Some data"
  obtains ct n s' st2 where "encrypt_message demo_envelope clk demo_entropy nonce pt role uuid idx demo_session demo_state = (Inr (ct, n, 1), s', st2)"
    "session_covered demo_names demo_session st2"
proof -
  obtain ct n s' st2 where e: "encrypt_message demo_envelope clk demo_entropy nonce pt role uuid idx demo_session demo_state = (Inr (ct, n, 1), s', st2)"
    using first_message_encrypted[OF demo_env(3,2) demo_key_generated demo_state_simps(4,3) demo_session_simps(1,2) demo_covered demo_entropy_ok assms]
    by blast
  have "cs_id s' = cs_id demo_session \<and> cs_owner_id s' = cs_owner_id demo_session"
    using e ensure_session[of demo_envelope "fst clk" demo_entropy demo_session demo_state]
    by (auto simp: encrypt_message_def split: prod.splits sum.splits option.splits)
  then show thesis
    using that[OF e] session_covered_cong[OF encrypt_covered[OF e demo_covered], of demo_session st2] by simp
qed

theorem envelope_message_readable_witness:
  "\<exists>ct n s' st2.
     encrypt_message demo_envelope (0, 1, 2) demo_entropy (replicate 12 (CHR 0x03)) [104, 8364] ''user'' ''m1'' 1 demo_session demo_state
       = (Inr (ct, n, 1), s', st2) \<and>
     fst (decrypt_message demo_envelope (3, 4) demo_session
       \<lparr>sm_session_id = ''s1'', sm_role = ''user'', sm_uuid = ''m1'', sm_index = 1, sm_ciphertext = ct, sm_nonce = n,
        sm_key_version = 1, sm_crypto_epoch = 1, sm_scheme = ENVELOPE_SCHEME\<rparr> (clear_cache st2)) = Inr [104, 8364]"
proof -
  obtain data where data: "utf8_encode [104, 8364] = Some data"
    by (simp add: utf8_encode_def utf8_scalar_def)
  obtain ct n s' st2 where enc: "encrypt_message demo_envelope (0, 1, 2) demo_entropy (replicate 12 (CHR 0x03)) [104, 8364]
      ''user'' ''m1'' 1 demo_session demo_state = (Inr (ct, n, 1), s', st2)" and c: "session_covered demo_names demo_session st2"
    by (rule demo_encrypted[OF data])
  have own: "cs_owner_id demo_session = (\<lambda>x. ''u1'') (cs_id demo_session)"
    by (simp add: demo_session_simps)
  have steps: "(env_step demo_names demo_envelope (\<lambda>x. ''u1''))\<^sup>*\<^sup>* st2 (clear_cache st2)"
    by (rule r_into_rtranclp) (rule step_clear)
  have c3: "session_covered demo_names demo_session (clear_cache st2)"
    using c by (simp add: session_covered_def clear_cache_def)
  from envelope_message_readable[where role' = "''user''" and uuid' = "''m1''" and idx' = 1 and kv = 1 and clk' = "(3, 4)",
      OF demo_sound demo_aead_correct demo_aead_binding demo_digest_inj demo_envelope_init demo_state_simps(1,2) rtranclp.rtrancl_refl
      demo_entropy_ok _ own demo_covered enc steps c3 refl refl refl]
  show ?thesis
    using enc by (auto simp: demo_session_simps(3))
qed

theorem envelope_cache_transparent_witness:
  "\<exists>st. es_cache st \<noteq> [] \<and> fst (session_dek demo_envelope 3 4 demo_session 1 st) = fresh_session_dek demo_envelope demo_session 1 st \<and>
     fresh_session_dek demo_envelope demo_session 1 st = Inr (replicate 32 (CHR 0x07))"
proof -
  obtain row s1 st1 where ne: "new_epoch demo_envelope 0 demo_entropy ''Unable to create a protected conversation key.'' 1 demo_session demo_state =
      (Inr row, s1, st1)" and row: "ke_wrapped_dek row = demo_wrapped" "ke_kek_uri row = ''local://k''" "ke_kek_version row = ''1''"
      "find_epoch st1 (cs_id demo_session) 1 = Some row"
    using new_epoch_generated[OF demo_key_generated _ _ demo_state_simps(3), of 0] by fastforce
  have ens: "ensure_session_key demo_envelope 0 demo_entropy demo_session demo_state = (Inr row, s1, st1)"
    using ne by (simp add: ensure_session_key_def demo_session_simps)
  have step: "(env_step demo_names demo_envelope (\<lambda>x. ''u1''))\<^sup>*\<^sup>* demo_state st1"
    using step_ensure[where owner = "\<lambda>x. ''u1''", OF demo_entropy_ok _ demo_covered(1) ens] by (simp add: demo_session_simps)
  have cov: "session_covered demo_names demo_session st1"
    using session_covered_cong[OF ensure_covered[OF ens demo_covered], of demo_session st1] ensure_session[OF ens] by simp
  have "es_cache st1 \<noteq> []"
    using ne demo_key_generated by (auto simp: new_epoch_def cache_put_def Let_def demo_envelope_def add_epoch_def split: if_splits prod.splits sum.splits)
  moreover have "fresh_session_dek demo_envelope demo_session 1 st1 = Inr (replicate 32 (CHR 0x07))"
    using row sound_generate[OF demo_env(3) demo_entropy_ok demo_key_generated] by (simp add: fresh_Inr_iff)
  moreover have "fst (session_dek demo_envelope 3 4 demo_session 1 st1) = fresh_session_dek demo_envelope demo_session 1 st1"
    using envelope_cache_transparent[OF demo_sound demo_aead_correct demo_digest_inj demo_envelope_init demo_state_simps(1,2) step cov] by blast
  ultimately show ?thesis by blast
qed

end
