(* ===== verification/Auth_Sessions.thy ===== *)
theory Auth_Sessions
  imports Pystr
begin

text \<open>
  The life cycle of bearer sessions (\<^verbatim>\<open>main.py\<close>): issuing, authenticating, rotating, expiring and
  revoking access tokens.

  \<open>auth_db\<close> holds the tables \<^verbatim>\<open>users\<close>, \<^verbatim>\<open>auth_sessions\<close> and \<^verbatim>\<open>revoked_tokens\<close> as dictionaries by
  primary key, and the audit entries the handlers write. A decoded access token is a \<open>claims\<close> record;
  whether the text of a token verifies is the JWT library's decision, so a request carries
  \<open>Bearer c\<close>, \<open>Bad_Token\<close> or \<open>No_Bearer\<close>. A handler is one transaction under the account and session
  locks the code takes. Clock readings, fresh token identifiers and decisions of rate limiters are
  arguments; mail is not modelled.
\<close>

record auth_settings =
  session_absolute_hours :: int
  session_idle_minutes :: int
  token_reuse_grace_seconds :: int
  step_up_minutes :: int
  access_token_minutes :: int
  high_profile :: bool

record user_row =
  ur_username :: string
  ur_role :: string
  ur_active :: bool
  ur_token_version :: int
  ur_mfa_enabled :: bool

record auth_session =
  as_user_id :: string
  as_family :: string
  as_issued_at :: time
  as_expires_at :: time
  as_revoked_at :: "time option"
  as_last_activity_at :: "time option"
  as_root_issued_at :: "time option"
  as_last_step_up_at :: "time option"

record revoked_token =
  rt_user_id :: string
  rt_expires_at :: time
  rt_reason :: string
  rt_created_at :: time

record audit_note =
  an_event :: string
  an_actor :: "string option"
  an_outcome :: string
  an_detail :: string

record auth_db =
  ad_users :: "(string, user_row) pydict"
  ad_sessions :: "(string, auth_session) pydict"
  ad_revoked :: "(string, revoked_token) pydict"
  ad_audit :: "audit_note list"

record claims =
  cl_sub :: string
  cl_ver :: int
  cl_jti :: string
  cl_iat :: time
  cl_exp :: time

datatype credentials = No_Bearer | Bad_Token | Bearer claims

section \<open>Rows and locks\<close>

definition dict_map :: "('k \<Rightarrow> 'v \<Rightarrow> 'v) \<Rightarrow> ('k, 'v) pydict \<Rightarrow> ('k, 'v) pydict" where
  "dict_map f d = map (\<lambda>(k, v). (k, f k v)) d"

definition as_root :: "auth_session \<Rightarrow> time" where
  "as_root a = (case as_root_issued_at a of Some t \<Rightarrow> t | None \<Rightarrow> as_issued_at a)"

definition as_activity :: "auth_session \<Rightarrow> time" where
  "as_activity a = (case as_last_activity_at a of Some t \<Rightarrow> t | None \<Rightarrow> as_issued_at a)"

text \<open>\<^verbatim>\<open>session.session_family_id or session.jti\<close>\<close>

definition family_of :: "string \<Rightarrow> auth_session \<Rightarrow> string" where
  "family_of jti a = (if as_family a = [] then jti else as_family a)"

definition lock_user_row :: "string \<Rightarrow> bool \<Rightarrow> auth_db \<Rightarrow> user_row option" where
  "lock_user_row uid require_active db =
     (case dict_get (ad_users db) uid of
        None \<Rightarrow> None
      | Some u \<Rightarrow> if require_active \<and> \<not> ur_active u then None else Some u)"

definition lock_auth_session_row :: "string \<Rightarrow> string \<Rightarrow> auth_db \<Rightarrow> auth_session option" where
  "lock_auth_session_row jti uid db =
     (case dict_get (ad_sessions db) jti of
        None \<Rightarrow> None
      | Some a \<Rightarrow> if as_user_id a = uid \<and> as_revoked_at a = None then Some a else None)"

definition audit_entry :: "string \<Rightarrow> string option \<Rightarrow> string \<Rightarrow> string \<Rightarrow> auth_db \<Rightarrow> auth_db" where
  "audit_entry event actor outcome detail db =
     db\<lparr>ad_audit := ad_audit db @ [\<lparr>an_event = event, an_actor = actor, an_outcome = outcome, an_detail = detail\<rparr>]\<rparr>"

text \<open>\<open>sampled\<close> is the decision of the audit sampler.\<close>

definition audit_access_denial :: "bool \<Rightarrow> string \<Rightarrow> auth_db \<Rightarrow> auth_db" where
  "audit_access_denial sampled reason db =
     (if sampled then audit_entry ''auth.access.denied'' None ''denied'' reason db else db)"

definition auth_session_expiry_reason :: "auth_settings \<Rightarrow> auth_session \<Rightarrow> time \<Rightarrow> string option" where
  "auth_session_expiry_reason cfg a now =
     (if now \<ge> as_expires_at a then Some ''token_lifetime_exceeded''
      else if now \<ge> as_root a + of_int (3600 * session_absolute_hours cfg) then Some ''absolute_lifetime_exceeded''
      else if now \<ge> as_activity a + of_int (60 * session_idle_minutes cfg) then Some ''idle_timeout''
      else None)"

definition set_session :: "string \<Rightarrow> auth_session \<Rightarrow> auth_db \<Rightarrow> auth_db" where
  "set_session jti a db = db\<lparr>ad_sessions := dict_set jti a (ad_sessions db)\<rparr>"

definition add_revoked :: "string \<Rightarrow> revoked_token \<Rightarrow> auth_db \<Rightarrow> auth_db" where
  "add_revoked jti t db = db\<lparr>ad_revoked := dict_set jti t (ad_revoked db)\<rparr>"

definition deny_token :: "string \<Rightarrow> string \<Rightarrow> time \<Rightarrow> string \<Rightarrow> time \<Rightarrow> auth_db \<Rightarrow> auth_db" where
  "deny_token jti uid expires_at reason now db =
     (if dict_has (ad_revoked db) jti then db
      else add_revoked jti \<lparr>rt_user_id = uid, rt_expires_at = expires_at, rt_reason = reason, rt_created_at = now\<rparr> db)"

definition expire_auth_session :: "string \<Rightarrow> auth_session \<Rightarrow> string \<Rightarrow> time \<Rightarrow> auth_db \<Rightarrow> auth_db" where
  "expire_auth_session jti a reason now db =
     audit_entry ''auth.session.expired'' (Some (as_user_id a)) ''denied'' reason
       (deny_token jti (as_user_id a) (as_expires_at a) reason now (set_session jti (a\<lparr>as_revoked_at := Some now\<rparr>) db))"

section \<open>Revocation\<close>

definition revoke_all_auth_sessions :: "string \<Rightarrow> time \<Rightarrow> auth_db \<Rightarrow> auth_db" where
  "revoke_all_auth_sessions uid now db =
     db\<lparr>ad_sessions := dict_map (\<lambda>_ a. if as_user_id a = uid \<and> as_revoked_at a = None
                                       then a\<lparr>as_revoked_at := Some now\<rparr> else a) (ad_sessions db),
        ad_users := dict_map (\<lambda>k u. if k = uid then u\<lparr>ur_token_version := ur_token_version u + 1\<rparr> else u) (ad_users db)\<rparr>"

text \<open>The rows of the family: \<^verbatim>\<open>session_family_id == family_id\<close>.\<close>

definition family_rows :: "string \<Rightarrow> string \<Rightarrow> auth_db \<Rightarrow> (string \<times> auth_session) list" where
  "family_rows uid family db =
     filter (\<lambda>(_, a). as_user_id a = uid \<and> as_family a = family \<and> as_revoked_at a = None) (ad_sessions db)"

definition revoke_auth_session_family :: "string \<Rightarrow> string \<Rightarrow> string \<Rightarrow> time \<Rightarrow> auth_db \<Rightarrow> nat \<times> auth_db" where
  "revoke_auth_session_family uid family reason now db =
     (let rows = family_rows uid family db
      in (length rows,
          fold (\<lambda>(jti, a) d. deny_token jti uid (as_expires_at a) reason now (set_session jti (a\<lparr>as_revoked_at := Some now\<rparr>) d))
            rows db))"

definition detect_rotated_token_reuse ::
  "auth_settings \<Rightarrow> time \<Rightarrow> string \<Rightarrow> string \<Rightarrow> auth_session \<Rightarrow> revoked_token \<Rightarrow> auth_db \<Rightarrow> auth_db" where
  "detect_rotated_token_reuse cfg now uid jti a revoked db =
     (if now - rt_created_at revoked < of_int (token_reuse_grace_seconds cfg) then db
      else if lock_user_row uid True db = None then db
      else
        let (n, db') = revoke_auth_session_family uid (family_of jti a) ''token_reuse'' now db
        in if n = 0 then db' else audit_entry ''auth.session.token_reuse'' (Some uid) ''blocked'' (show_nat n) db')"

section \<open>Authentication\<close>

definition metadata_path :: "string \<Rightarrow> bool" where
  "metadata_path path \<longleftrightarrow>
     path \<in> set [''/api/auth/me'', ''/api/auth/sessions'', ''/api/auth/refresh'', ''/api/auth/logout'']"

text \<open>The dependency of every authenticated route, in two parts because another transaction may commit
  between them: the decision on the rows as first read, and the decision under the account and session
  locks. The first part refuses with a status code, accepts the user at once (\<open>Some\<close>), or leaves the
  decision to the second (\<open>None\<close>).\<close>

definition current_user_begin ::
  "auth_settings \<Rightarrow> credentials \<Rightarrow> string \<Rightarrow> time \<Rightarrow> bool \<Rightarrow> auth_db \<Rightarrow> (nat + string option) \<times> auth_db" where
  "current_user_begin cfg creds path now sampled db =
     (case creds of
        No_Bearer \<Rightarrow> (Inl 401, audit_access_denial sampled ''missing_credentials'' db)
      | Bad_Token \<Rightarrow> (Inl 401, audit_access_denial sampled ''invalid_token'' db)
      | Bearer c \<Rightarrow>
          (case (dict_get (ad_users db) (cl_sub c), dict_get (ad_sessions db) (cl_jti c)) of
             (Some u, Some a) \<Rightarrow>
               if \<not> ur_active u \<or> cl_ver c \<noteq> ur_token_version u \<or> as_user_id a \<noteq> cl_sub c \<or>
                  as_revoked_at a \<noteq> None \<or> dict_has (ad_revoked db) (cl_jti c)
               then (Inl 401, audit_access_denial sampled ''inactive_session''
                  (case dict_get (ad_revoked db) (cl_jti c) of
                     Some t \<Rightarrow> if rt_reason t = ''refresh'' \<and> as_user_id a = cl_sub c
                               then detect_rotated_token_reuse cfg now (cl_sub c) (cl_jti c) a t db else db
                   | None \<Rightarrow> db))
               else if metadata_path path \<and> auth_session_expiry_reason cfg a now = None
               then (Inr (Some (cl_sub c)), db)
               else (Inr None, db)
           | _ \<Rightarrow> (Inl 401, audit_access_denial sampled ''inactive_session'' db)))"

definition current_user_locked ::
  "auth_settings \<Rightarrow> claims \<Rightarrow> string \<Rightarrow> time \<Rightarrow> auth_db \<Rightarrow> (nat + string) \<times> auth_db" where
  "current_user_locked cfg c path now db =
     (case lock_user_row (cl_sub c) True db of
        None \<Rightarrow> (Inl 401, db)
      | Some u \<Rightarrow>
          if cl_ver c \<noteq> ur_token_version u then (Inl 401, db)
          else case lock_auth_session_row (cl_jti c) (cl_sub c) db of
            None \<Rightarrow> (Inl 401, db)
          | Some a \<Rightarrow>
              if dict_has (ad_revoked db) (cl_jti c) then (Inl 401, db)
              else case auth_session_expiry_reason cfg a now of
                Some reason \<Rightarrow> (Inl 401, expire_auth_session (cl_jti c) a reason now db)
              | None \<Rightarrow>
                  (Inr (cl_sub c),
                   if metadata_path path then db
                   else set_session (cl_jti c) (a\<lparr>as_last_activity_at := Some (max now (as_activity a))\<rparr>) db))"

text \<open>\<open>others\<close> is what other transactions commit before the locks are taken.\<close>

definition current_user ::
  "auth_settings \<Rightarrow> credentials \<Rightarrow> string \<Rightarrow> time \<Rightarrow> time \<Rightarrow> bool \<Rightarrow> (auth_db \<Rightarrow> auth_db) \<Rightarrow> auth_db \<Rightarrow>
   (nat + string) \<times> auth_db" where
  "current_user cfg creds path now1 now2 sampled others db =
     (case current_user_begin cfg creds path now1 sampled db of
        (Inl e, db1) \<Rightarrow> (Inl e, db1)
      | (Inr (Some uid), db1) \<Rightarrow> (Inr uid, db1)
      | (Inr None, db1) \<Rightarrow>
          (case creds of
             Bearer c \<Rightarrow> current_user_locked cfg c path now2 (others db1)
           | _ \<Rightarrow> (Inl 401, db1)))"

definition require_recent_step_up :: "auth_settings \<Rightarrow> claims \<Rightarrow> string \<Rightarrow> time \<Rightarrow> auth_db \<Rightarrow> (nat + auth_session)" where
  "require_recent_step_up cfg c uid now db =
     (case dict_get (ad_sessions db) (cl_jti c) of
        None \<Rightarrow> Inl 401
      | Some a \<Rightarrow>
          if as_user_id a \<noteq> uid then Inl 401
          else case as_last_step_up_at a of
            None \<Rightarrow> Inl 403
          | Some t \<Rightarrow> if now - t > of_int (60 * step_up_minutes cfg) then Inl 403 else Inr a)"

definition lock_account_mutation ::
  "auth_settings \<Rightarrow> claims option \<Rightarrow> string \<Rightarrow> bool \<Rightarrow> time \<Rightarrow> auth_db \<Rightarrow> (nat + claims \<times> auth_session)" where
  "lock_account_mutation cfg token uid step_up now db =
     (case token of
        None \<Rightarrow> Inl 401
      | Some c \<Rightarrow>
          if cl_sub c \<noteq> uid then Inl 401
          else case lock_user_row uid True db of
            None \<Rightarrow> Inl 401
          | Some u \<Rightarrow>
              if cl_ver c \<noteq> ur_token_version u then Inl 401
              else case lock_auth_session_row (cl_jti c) uid db of
                None \<Rightarrow> Inl 401
              | Some a \<Rightarrow>
                  if dict_has (ad_revoked db) (cl_jti c) \<or> auth_session_expiry_reason cfg a now \<noteq> None then Inl 401
                  else if step_up
                  then (case require_recent_step_up cfg c uid now db of Inl e \<Rightarrow> Inl e | Inr _ \<Rightarrow> Inr (c, a))
                  else Inr (c, a))"

definition admin_user :: "auth_settings \<Rightarrow> string \<Rightarrow> bool \<Rightarrow> auth_db \<Rightarrow> (nat + user_row) \<times> auth_db" where
  "admin_user cfg uid sampled db =
     (case dict_get (ad_users db) uid of
        None \<Rightarrow> (Inl 401, db)
      | Some u \<Rightarrow>
          if ur_role u \<noteq> ''admin''
          then (Inl 403, if sampled then audit_entry ''authorization.denied'' (Some uid) ''denied'' ''admin_role_required'' db else db)
          else if high_profile cfg \<and> \<not> ur_mfa_enabled u
          then (Inl 403, if sampled then audit_entry ''authorization.denied'' (Some uid) ''denied'' ''privileged_mfa_required'' db else db)
          else (Inr u, db))"

definition moderator_or_admin :: "auth_settings \<Rightarrow> string \<Rightarrow> bool \<Rightarrow> auth_db \<Rightarrow> (nat + user_row) \<times> auth_db" where
  "moderator_or_admin cfg uid sampled db =
     (case dict_get (ad_users db) uid of
        None \<Rightarrow> (Inl 401, db)
      | Some u \<Rightarrow>
          if ur_role u \<notin> set [''moderator'', ''admin'']
          then (Inl 403, if sampled then audit_entry ''authorization.denied'' (Some uid) ''denied'' ''privileged_role_required'' db else db)
          else if high_profile cfg \<and> \<not> ur_mfa_enabled u
          then (Inl 403, if sampled then audit_entry ''authorization.denied'' (Some uid) ''denied'' ''privileged_mfa_required'' db else db)
          else (Inr u, db))"

section \<open>Issuing and rotating tokens\<close>

text \<open>\<^verbatim>\<open>TokenService.issue\<close> followed by \<^verbatim>\<open>decode\<close>: the claims of a new token with the fresh identifier
  \<open>jti\<close>. JWT times are whole seconds.\<close>

definition issue_token :: "auth_settings \<Rightarrow> string \<Rightarrow> user_row \<Rightarrow> string \<Rightarrow> time \<Rightarrow> claims" where
  "issue_token cfg uid u jti now =
     \<lparr>cl_sub = uid, cl_ver = ur_token_version u, cl_jti = jti, cl_iat = of_int \<lfloor>now\<rfloor>,
      cl_exp = of_int \<lfloor>now + of_int (60 * access_token_minutes cfg)\<rfloor>\<rparr>"

definition issue_access_session ::
  "auth_settings \<Rightarrow> string \<Rightarrow> user_row \<Rightarrow> string \<Rightarrow> time \<Rightarrow> time option \<Rightarrow> time option \<Rightarrow> time option \<Rightarrow> string option \<Rightarrow> bool \<Rightarrow>
   auth_db \<Rightarrow> claims \<times> auth_db" where
  "issue_access_session cfg uid u jti now root_issued_at last_activity_at last_step_up_at family mark_step_up db =
     (let c = issue_token cfg uid u jti now;
          issued_at = cl_iat c
      in (c, set_session jti
            \<lparr>as_user_id = uid,
             as_family = (case family of Some f \<Rightarrow> if f = [] then jti else f | None \<Rightarrow> jti),
             as_issued_at = issued_at, as_expires_at = cl_exp c, as_revoked_at = None,
             as_last_activity_at = Some (case last_activity_at of Some t \<Rightarrow> t | None \<Rightarrow> issued_at),
             as_root_issued_at = Some (case root_issued_at of Some t \<Rightarrow> t | None \<Rightarrow> max issued_at now),
             as_last_step_up_at = (if mark_step_up then Some issued_at else last_step_up_at)\<rparr> db))"

text \<open>A completed sign-in (\<^verbatim>\<open>finish_sign_in\<close>) issues the first token of a new family.\<close>

definition sign_in_session :: "auth_settings \<Rightarrow> string \<Rightarrow> user_row \<Rightarrow> string \<Rightarrow> time \<Rightarrow> auth_db \<Rightarrow> claims \<times> auth_db" where
  "sign_in_session cfg uid u jti now db = issue_access_session cfg uid u jti now None None None None True db"

definition refresh_session ::
  "auth_settings \<Rightarrow> bool \<Rightarrow> claims \<Rightarrow> string \<Rightarrow> string \<Rightarrow> time \<Rightarrow> auth_db \<Rightarrow> (nat + claims) \<times> auth_db" where
  "refresh_session cfg allowed c uid jti now db =
     (if \<not> allowed then (Inl 429, db)
      else case lock_user_row uid True db of
        None \<Rightarrow> (Inl 401, db)
      | Some u \<Rightarrow>
          if cl_ver c \<noteq> ur_token_version u then (Inl 401, db)
          else case lock_auth_session_row (cl_jti c) uid db of
            None \<Rightarrow> (Inl 401, db)
          | Some old \<Rightarrow>
              if dict_has (ad_revoked db) (cl_jti c) then (Inl 401, db)
              else case auth_session_expiry_reason cfg old now of
                Some reason \<Rightarrow> (Inl 401, expire_auth_session (cl_jti c) old reason now db)
              | None \<Rightarrow>
                  let (c', db1) = issue_access_session cfg uid u jti now (Some (as_root old)) (Some (as_activity old))
                                    (as_last_step_up_at old) (Some (family_of (cl_jti c) old)) False db;
                      db2 = add_revoked (cl_jti c) \<lparr>rt_user_id = uid, rt_expires_at = cl_exp c, rt_reason = ''refresh'', rt_created_at = now\<rparr> db1;
                      db3 = set_session (cl_jti c) (old\<lparr>as_revoked_at := Some now\<rparr>) db2
                  in (Inr c', audit_entry ''auth.session.refresh'' (Some uid) ''success'' [] db3))"

definition logout :: "claims \<Rightarrow> string \<Rightarrow> time \<Rightarrow> auth_db \<Rightarrow> (nat + unit) \<times> auth_db" where
  "logout c uid now db =
     (case lock_user_row uid True db of
        None \<Rightarrow> (Inl 401, db)
      | Some u \<Rightarrow>
          if cl_ver c \<noteq> ur_token_version u then (Inl 401, db)
          else
            let locked = lock_auth_session_row (cl_jti c) uid db;
                source = (case locked of Some a \<Rightarrow> Some a | None \<Rightarrow> dict_get (ad_sessions db) (cl_jti c));
                (scope, db1) =
                  (case source of
                     None \<Rightarrow> (''all_sessions'', revoke_all_auth_sessions uid now db)
                   | Some a \<Rightarrow>
                       if as_user_id a \<noteq> uid then (''all_sessions'', revoke_all_auth_sessions uid now db)
                       else (''session_family'', snd (revoke_auth_session_family uid (family_of (cl_jti c) a) ''logout'' now db)));
                db2 = (if locked = None then deny_token (cl_jti c) uid (cl_exp c) ''logout'' now db1 else db1)
            in (Inr (), audit_entry ''auth.logout'' (Some uid) ''success'' scope db2))"

definition revoke_auth_session ::
  "auth_settings \<Rightarrow> claims option \<Rightarrow> string \<Rightarrow> string \<Rightarrow> time \<Rightarrow> auth_db \<Rightarrow> (nat + unit) \<times> auth_db" where
  "revoke_auth_session cfg token uid session_jti now db =
     (case lock_account_mutation cfg token uid True now db of
        Inl e \<Rightarrow> (Inl e, db)
      | Inr _ \<Rightarrow>
          (case dict_get (ad_sessions db) session_jti of
             None \<Rightarrow> (Inl 404, db)
           | Some a \<Rightarrow>
               if as_user_id a \<noteq> uid then (Inl 404, db)
               else let (n, db1) = revoke_auth_session_family uid (family_of session_jti a) ''session_revoke'' now db
                    in if n = 0 then (Inl 404, db1)
                       else (Inr (), audit_entry ''auth.session_revoke'' (Some uid) ''success'' (show_nat n) db1)))"

definition logout_all :: "auth_settings \<Rightarrow> claims option \<Rightarrow> string \<Rightarrow> time \<Rightarrow> auth_db \<Rightarrow> (nat + unit) \<times> auth_db" where
  "logout_all cfg token uid now db =
     (case lock_account_mutation cfg token uid True now db of
        Inl e \<Rightarrow> (Inl e, db)
      | Inr _ \<Rightarrow> (Inr (), audit_entry ''auth.logout_all'' (Some uid) ''success'' [] (revoke_all_auth_sessions uid now db)))"

text \<open>The sessions shown to the user: unrevoked and within every deadline, newest first. (The columns of
  the response are fields of the row.)\<close>

definition list_auth_sessions :: "auth_settings \<Rightarrow> string \<Rightarrow> time \<Rightarrow> auth_db \<Rightarrow> (string \<times> auth_session) list" where
  "list_auth_sessions cfg uid now db =
     filter (\<lambda>(_, a). \<not> (as_expires_at a \<le> now
                          \<or> as_activity a + of_int (60 * session_idle_minutes cfg) \<le> now
                          \<or> as_root a + of_int (3600 * session_absolute_hours cfg) \<le> now))
       (sort_key (\<lambda>(_, a). - as_issued_at a)
          (filter (\<lambda>(_, a). as_user_id a = uid \<and> as_revoked_at a = None \<and> now < as_expires_at a) (ad_sessions db)))"

section \<open>Histories\<close>

text \<open>The second component of a state records, for every token identifier ever issued, the time it was
  issued: identifiers are random UUIDs, so a new one is none of those. Besides the operations above,
  account rows may change in any way (password, role, activation, deletion) and session and denylist
  rows may be removed (clean-up, cascades).\<close>

type_synonym auth_world = "auth_db \<times> (string \<rightharpoonup> time)"

inductive auth_step :: "auth_settings \<Rightarrow> auth_world \<Rightarrow> auth_world \<Rightarrow> bool" for cfg :: auth_settings where
  step_sign_in: "g jti = None \<Longrightarrow> jti \<noteq> [] \<Longrightarrow> sign_in_session cfg uid u jti now db = (c, db') \<Longrightarrow>
    auth_step cfg (db, g) (db', g(jti \<mapsto> now))"
| step_refresh: "g jti = None \<Longrightarrow> jti \<noteq> [] \<Longrightarrow> refresh_session cfg allowed c uid jti now db = (res, db') \<Longrightarrow>
    auth_step cfg (db, g) (db', g(jti \<mapsto> now))"
| step_begin: "current_user_begin cfg creds path now sampled db = (dec, db') \<Longrightarrow> auth_step cfg (db, g) (db', g)"
| step_locked: "current_user_locked cfg c path now db = (out, db') \<Longrightarrow> auth_step cfg (db, g) (db', g)"
| step_logout: "logout c uid now db = (fin, db') \<Longrightarrow> auth_step cfg (db, g) (db', g)"
| step_revoke: "revoke_auth_session cfg token uid j now db = (fin, db') \<Longrightarrow> auth_step cfg (db, g) (db', g)"
| step_logout_all: "logout_all cfg token uid now db = (fin, db') \<Longrightarrow> auth_step cfg (db, g) (db', g)"
| step_revoke_all: "auth_step cfg (db, g) (revoke_all_auth_sessions uid now db, g)"
| step_step_up: "lock_account_mutation cfg token uid b now db = Inr (c, a) \<Longrightarrow>
    auth_step cfg (db, g) (set_session (cl_jti c) (a\<lparr>as_last_step_up_at := Some now\<rparr>) db, g)"
| step_accounts: "auth_step cfg (db, g) (db\<lparr>ad_users := us\<rparr>, g)"
| step_clean: "auth_step cfg (db, g) (db\<lparr>ad_sessions := filter P (ad_sessions db), ad_revoked := filter Q (ad_revoked db)\<rparr>, g)"

definition auth_start :: auth_world where
  "auth_start = (\<lparr>ad_users = [], ad_sessions = [], ad_revoked = [], ad_audit = []\<rparr>, Map.empty)"

section \<open>What an operation does to session rows\<close>

lemma dict_get_map [simp]: "dict_get (dict_map f d) k = map_option (f k) (dict_get d k)"
  by (induction d) (auto simp: dict_map_def dict_get_def)

lemma dict_ok_map [simp]: "dict_ok (dict_map f d) = dict_ok d"
  by (simp add: dict_map_def dict_ok_def split_def comp_def)

definition live :: "auth_session \<Rightarrow> bool" where
  "live a \<longleftrightarrow> as_revoked_at a = None"

text \<open>A row keeps its user, family and root, and a revoked row stays revoked.\<close>

definition ages :: "auth_session \<Rightarrow> auth_session \<Rightarrow> bool" where
  "ages a b \<longleftrightarrow> as_user_id b = as_user_id a \<and> as_family b = as_family a \<and> as_root b = as_root a \<and> (live b \<longrightarrow> live a)"

definition evolves :: "auth_db \<Rightarrow> auth_db \<Rightarrow> bool" where
  "evolves db db' \<longleftrightarrow>
     (dict_ok (ad_sessions db) \<longrightarrow> dict_ok (ad_sessions db')) \<and>
     (\<forall>j b. dict_get (ad_sessions db') j = Some b \<longrightarrow> (\<exists>a. dict_get (ad_sessions db) j = Some a \<and> ages a b))"

lemma ages_refl [simp]: "ages a a"
  by (simp add: ages_def)

lemma ages_trans: "ages a b \<Longrightarrow> ages b c \<Longrightarrow> ages a c"
  by (simp add: ages_def)

lemma ages_updates [simp]:
  "ages a (a\<lparr>as_revoked_at := Some t\<rparr>)" "ages a (a\<lparr>as_last_activity_at := x\<rparr>)" "ages a (a\<lparr>as_last_step_up_at := y\<rparr>)"
  by (simp_all add: ages_def as_root_def live_def split: option.split)

lemma evolves_refl [simp]: "evolves db db"
  by (simp add: evolves_def)

lemma evolves_trans: "evolves a b \<Longrightarrow> evolves b c \<Longrightarrow> evolves a c"
  unfolding evolves_def by (meson ages_trans)

lemma evolves_same: "ad_sessions db' = ad_sessions db \<Longrightarrow> evolves db db'"
  by (auto simp: evolves_def)

lemma sessions_simps [simp]:
  "ad_sessions (audit_entry e a b c db) = ad_sessions db"
  "ad_sessions (audit_access_denial s r db) = ad_sessions db"
  "ad_sessions (deny_token j u x r t db) = ad_sessions db"
  "ad_sessions (add_revoked j t' db) = ad_sessions db"
  "ad_sessions (set_session j y db) = dict_set j y (ad_sessions db)"
  by (simp_all add: audit_entry_def audit_access_denial_def deny_token_def add_revoked_def set_session_def)

lemma evolves_cong: "ad_sessions db1 = ad_sessions db2 \<Longrightarrow> evolves db db1 = evolves db db2"
  by (simp add: evolves_def)

lemma evolves_set:
  assumes "dict_get (ad_sessions db) j = Some a" "ages a b"
  shows "evolves db (set_session j b db)"
  using assms by (simp add: evolves_def)

lemma evolves_revoke_all: "evolves db (revoke_all_auth_sessions uid now db)"
  by (auto simp: evolves_def revoke_all_auth_sessions_def)

lemma lock_session_SomeD:
  "lock_auth_session_row j uid db = Some a \<Longrightarrow> dict_get (ad_sessions db) j = Some a \<and> as_user_id a = uid \<and> live a"
  by (auto simp: lock_auth_session_row_def live_def split: option.splits if_splits)

definition revoke_rows :: "string \<Rightarrow> string \<Rightarrow> time \<Rightarrow> (string \<times> auth_session) list \<Rightarrow> auth_db \<Rightarrow> auth_db" where
  "revoke_rows uid reason now rows db =
     fold (\<lambda>(jti, a) d. deny_token jti uid (as_expires_at a) reason now (set_session jti (a\<lparr>as_revoked_at := Some now\<rparr>) d)) rows db"

lemma revoke_rows_sessions:
  assumes "distinct (map fst rows)"
  shows "dict_get (ad_sessions (revoke_rows uid reason now rows db)) j =
           (case map_of rows j of Some a \<Rightarrow> Some (a\<lparr>as_revoked_at := Some now\<rparr>) | None \<Rightarrow> dict_get (ad_sessions db) j)"
  using assms
proof (induction rows arbitrary: db)
  case (Cons r rows)
  obtain k a where r: "r = (k, a)" by (cases r)
  have "map_of rows k = None"
    using Cons.prems r by (simp add: map_of_eq_None_iff)
  then show ?case
    using Cons r by (auto simp: revoke_rows_def split: option.splits)
qed (simp add: revoke_rows_def)

lemma revoke_rows_ok: "dict_ok (ad_sessions db) \<Longrightarrow> dict_ok (ad_sessions (revoke_rows uid reason now rows db))"
  unfolding revoke_rows_def by (induction rows arbitrary: db) (auto simp: split_def)

lemma family_rows_map_of:
  assumes "dict_ok (ad_sessions db)"
  shows "distinct (map fst (family_rows uid family db))"
    and "map_of (family_rows uid family db) j =
           (case dict_get (ad_sessions db) j of
              Some a \<Rightarrow> if as_user_id a = uid \<and> as_family a = family \<and> live a then Some a else None
            | None \<Rightarrow> None)"
proof -
  show "distinct (map fst (family_rows uid family db))"
    using dict_ok_filter[OF assms] by (simp add: family_rows_def dict_ok_def)
  show "map_of (family_rows uid family db) j =
      (case dict_get (ad_sessions db) j of
         Some a \<Rightarrow> if as_user_id a = uid \<and> as_family a = family \<and> live a then Some a else None
       | None \<Rightarrow> None)"
    using dict_get_filter[OF assms, of "\<lambda>(_, a). as_user_id a = uid \<and> as_family a = family \<and> as_revoked_at a = None" j]
    by (simp add: family_rows_def dict_get_def live_def split: option.splits)
qed

lemma revoke_family_sessions:
  assumes "dict_ok (ad_sessions db)" "revoke_auth_session_family uid family reason now db = (n, db')"
  shows "dict_get (ad_sessions db') j =
           map_option (\<lambda>a. if as_user_id a = uid \<and> as_family a = family \<and> live a then a\<lparr>as_revoked_at := Some now\<rparr> else a)
             (dict_get (ad_sessions db) j)"
proof -
  have "db' = revoke_rows uid reason now (family_rows uid family db) db"
    using assms(2) by (simp add: revoke_auth_session_family_def revoke_rows_def Let_def)
  then show ?thesis
    using revoke_rows_sessions[OF family_rows_map_of(1)[OF assms(1)]] family_rows_map_of(2)[OF assms(1)]
    by (auto split: option.splits)
qed

lemma evolves_revoke_family:
  assumes "dict_ok (ad_sessions db)" "revoke_auth_session_family uid family reason now db = (n, db')"
  shows "evolves db db'"
proof -
  have "dict_ok (ad_sessions db')"
    using assms revoke_rows_ok by (auto simp: revoke_auth_session_family_def revoke_rows_def Let_def)
  then show ?thesis
    using revoke_family_sessions[OF assms] by (auto simp: evolves_def)
qed

lemma evolves_expire:
  assumes "dict_get (ad_sessions db) j = Some a"
  shows "evolves db (expire_auth_session j a reason now db)"
proof -
  have "evolves db (set_session j (a\<lparr>as_revoked_at := Some now\<rparr>) db)"
    by (rule evolves_set[OF assms]) simp
  moreover have "ad_sessions (expire_auth_session j a reason now db) = ad_sessions (set_session j (a\<lparr>as_revoked_at := Some now\<rparr>) db)"
    by (simp add: expire_auth_session_def)
  ultimately show ?thesis
    using evolves_cong by blast
qed

lemma evolves_via: "ad_sessions db' = ad_sessions x \<Longrightarrow> evolves db x \<Longrightarrow> evolves db db'"
  using evolves_cong by blast

lemma evolves_family_snd:
  "dict_ok (ad_sessions db) \<Longrightarrow> evolves db (snd (revoke_auth_session_family uid f r now db))"
  using evolves_revoke_family by (metis surjective_pairing)

lemma evolves_detect:
  assumes "dict_ok (ad_sessions db)"
  shows "evolves db (detect_rotated_token_reuse cfg now uid jti a t db)"
proof -
  obtain n db' where r: "revoke_auth_session_family uid (family_of jti a) ''token_reuse'' now db = (n, db')"
    by (metis surj_pair)
  then have "ad_sessions (detect_rotated_token_reuse cfg now uid jti a t db) = ad_sessions db \<or>
      ad_sessions (detect_rotated_token_reuse cfg now uid jti a t db) = ad_sessions db'"
    by (auto simp: detect_rotated_token_reuse_def)
  then show ?thesis
    using evolves_revoke_family[OF assms r] evolves_same evolves_cong by metis
qed

lemma evolves_begin:
  assumes "dict_ok (ad_sessions db)" "current_user_begin cfg creds path now sampled db = (dec, db')"
  shows "evolves db db'"
proof -
  have "evolves db (audit_access_denial s r (detect_rotated_token_reuse cfg now uid jti a t db))"
    "evolves db (audit_access_denial s r db)" for s r uid jti a t
    by (auto intro: evolves_same evolves_via[OF _ evolves_detect[OF assms(1)]])
  then show ?thesis
    using assms(2) by (auto simp: current_user_begin_def split: credentials.splits option.splits if_splits)
qed

lemma evolves_locked:
  assumes "current_user_locked cfg c path now db = (out, db')"
  shows "evolves db db'"
proof (cases "lock_auth_session_row (cl_jti c) (cl_sub c) db")
  case None
  then show ?thesis
    using assms by (auto simp: current_user_locked_def split: option.splits if_splits)
next
  case (Some a)
  have a: "dict_get (ad_sessions db) (cl_jti c) = Some a"
    using lock_session_SomeD[OF Some] by simp
  have "db' = db \<or> (\<exists>r. db' = expire_auth_session (cl_jti c) a r now db) \<or>
      db' = set_session (cl_jti c) (a\<lparr>as_last_activity_at := Some (max now (as_activity a))\<rparr>) db"
    using assms Some by (auto simp: current_user_locked_def split: option.splits if_splits)
  then show ?thesis
    using evolves_expire[OF a] evolves_set[OF a] by auto
qed

lemma evolves_logout:
  assumes "dict_ok (ad_sessions db)" "logout c uid now db = (out, db')"
  shows "evolves db db'"
proof -
  consider "ad_sessions db' = ad_sessions db" | "ad_sessions db' = ad_sessions (revoke_all_auth_sessions uid now db)"
    | f where "ad_sessions db' = ad_sessions (snd (revoke_auth_session_family uid f ''logout'' now db))"
    using assms(2) by (auto simp: logout_def Let_def split: option.splits if_splits)
  then show ?thesis
    by cases (auto intro: evolves_same evolves_via evolves_revoke_all evolves_family_snd[OF assms(1)])
qed

lemma evolves_revoke:
  assumes "dict_ok (ad_sessions db)" "revoke_auth_session cfg token uid j now db = (out, db')"
  shows "evolves db db'"
proof -
  consider "db' = db"
    | f where "ad_sessions db' = ad_sessions (snd (revoke_auth_session_family uid f ''session_revoke'' now db))"
    using assms(2)
    by (cases "lock_account_mutation cfg token uid True now db"; cases "dict_get (ad_sessions db) j")
      (auto simp: revoke_auth_session_def split_def Let_def split: if_splits)
  then show ?thesis
    by cases (auto intro: evolves_via evolves_family_snd[OF assms(1)])
qed

lemma evolves_logout_all: "logout_all cfg token uid now db = (out, db') \<Longrightarrow> evolves db db'"
  by (auto simp: logout_all_def split: sum.splits intro: evolves_via[OF _ evolves_revoke_all])

lemma refresh_cases:
  assumes "refresh_session cfg allowed c uid jti now db = (res, db')"
  obtains "evolves db db'" "\<And>c'. res \<noteq> Inr c'"
  | old new c' where "dict_get (ad_sessions db) (cl_jti c) = Some old" "live old" "res = Inr c'" "cl_jti c' = jti"
      "auth_session_expiry_reason cfg old now = None" "as_user_id old = uid"
      "ad_sessions db' = dict_set (cl_jti c) (old\<lparr>as_revoked_at := Some now\<rparr>) (dict_set jti new (ad_sessions db))"
      "as_root new = as_root old" "as_family new = (if family_of (cl_jti c) old = [] then jti else family_of (cl_jti c) old)"
      "as_activity new = as_activity old"
proof (cases "lock_auth_session_row (cl_jti c) uid db")
  case None
  have "db' = db \<and> (\<forall>c'. res \<noteq> Inr c')"
    using assms None by (auto simp: refresh_session_def split: option.splits if_splits)
  then show ?thesis by (auto intro: that(1))
next
  case (Some old)
  note l = lock_session_SomeD[OF Some]
  show ?thesis
  proof (cases "\<exists>c'. res = Inr c'")
    case False
    have "db' = db \<or> (\<exists>r. db' = expire_auth_session (cl_jti c) old r now db)"
      using assms Some False by (auto simp: refresh_session_def Let_def split: option.splits if_splits prod.splits)
    then show ?thesis
      using evolves_expire l False by (auto intro!: that(1))
  next
    case True
    then obtain c' where res: "res = Inr c'" by blast
    obtain u where u: "auth_session_expiry_reason cfg old now = None"
      "c' = issue_token cfg uid u jti now"
      "ad_sessions db' = dict_set (cl_jti c) (old\<lparr>as_revoked_at := Some now\<rparr>)
         (ad_sessions (snd (issue_access_session cfg uid u jti now (Some (as_root old)) (Some (as_activity old))
            (as_last_step_up_at old) (Some (family_of (cl_jti c) old)) False db)))"
      using assms Some res
      by (auto simp: refresh_session_def issue_access_session_def Let_def split: option.splits if_splits)
    define new where "new = \<lparr>as_user_id = uid, as_family = (if family_of (cl_jti c) old = [] then jti else family_of (cl_jti c) old),
      as_issued_at = cl_iat c', as_expires_at = cl_exp c', as_revoked_at = None, as_last_activity_at = Some (as_activity old),
      as_root_issued_at = Some (as_root old), as_last_step_up_at = as_last_step_up_at old\<rparr>"
    have "ad_sessions db' = dict_set (cl_jti c) (old\<lparr>as_revoked_at := Some now\<rparr>) (dict_set jti new (ad_sessions db))"
      using u by (simp add: issue_access_session_def Let_def new_def)
    moreover have "as_root new = as_root old" "as_activity new = as_activity old"
      by (simp_all add: new_def as_root_def as_activity_def)
    ultimately show ?thesis
      using that(2)[OF _ _ res _ u(1), of new] l u(2) by (simp add: new_def issue_token_def)
  qed
qed

section \<open>The invariant\<close>

text \<open>Every row was issued; its family is named after a sign-in, whose time is the root of the row; and
  no two unrevoked rows belong to one family.\<close>

definition row_ok :: "(string \<rightharpoonup> time) \<Rightarrow> string \<Rightarrow> auth_session \<Rightarrow> bool" where
  "row_ok g j a \<longleftrightarrow> j \<in> dom g \<and> as_family a \<noteq> [] \<and> g (as_family a) = Some (as_root a)"

definition one_live :: "auth_db \<Rightarrow> bool" where
  "one_live db \<longleftrightarrow>
     (\<forall>i j a b. dict_get (ad_sessions db) i = Some a \<and> dict_get (ad_sessions db) j = Some b \<and> live a \<and> live b \<and>
        as_family a = as_family b \<longrightarrow> i = j)"

definition auth_inv :: "auth_world \<Rightarrow> bool" where
  "auth_inv w \<longleftrightarrow>
     dict_ok (ad_sessions (fst w)) \<and>
     (\<forall>j a. dict_get (ad_sessions (fst w)) j = Some a \<longrightarrow> row_ok (snd w) j a) \<and> one_live (fst w)"

lemma row_ok_ages: "row_ok g j a \<Longrightarrow> ages a b \<Longrightarrow> row_ok g j b"
  by (simp add: row_ok_def ages_def)

lemma row_ok_extend: "row_ok g j a \<Longrightarrow> g k = None \<Longrightarrow> row_ok (g(k \<mapsto> t)) j a"
  by (auto simp: row_ok_def)

lemma auth_inv_evolves:
  assumes inv: "auth_inv (db, g)" and ev: "evolves db db'"
  shows "auth_inv (db', g)"
proof -
  have was: "\<exists>a. dict_get (ad_sessions db) j = Some a \<and> ages a b" if "dict_get (ad_sessions db') j = Some b" for j b
    using ev that by (simp add: evolves_def)
  have "row_ok g j b" if "dict_get (ad_sessions db') j = Some b" for j b
    using was[OF that] inv row_ok_ages unfolding auth_inv_def fst_conv snd_conv by blast
  moreover have "i = j" if "dict_get (ad_sessions db') i = Some a" "dict_get (ad_sessions db') j = Some b" "live a" "live b"
    "as_family a = as_family b" for i j a b
  proof -
    from was[OF that(1)] was[OF that(2)] show "i = j"
      using inv that unfolding auth_inv_def one_live_def ages_def fst_conv by metis
  qed
  moreover have "dict_ok (ad_sessions db')"
    using inv ev by (simp add: auth_inv_def evolves_def)
  ultimately show ?thesis
    unfolding auth_inv_def one_live_def fst_conv snd_conv by blast
qed

lemma auth_inv_ghost: "auth_inv (db, g) \<Longrightarrow> g k = None \<Longrightarrow> auth_inv (db, g(k \<mapsto> t))"
  using row_ok_extend by (simp add: auth_inv_def)

text \<open>A new row whose family has no unrevoked row.\<close>

lemma auth_inv_insert:
  assumes inv: "auth_inv (db, g)" and new: "row_ok g j a" and db': "ad_sessions db' = dict_set j a (ad_sessions db)"
    and alone: "\<And>i b. dict_get (ad_sessions db) i = Some b \<Longrightarrow> live b \<Longrightarrow> as_family b \<noteq> as_family a"
  shows "auth_inv (db', g)"
proof -
  have "dict_ok (ad_sessions db')"
    using inv db' by (simp add: auth_inv_def)
  moreover have "row_ok g i b" if "dict_get (ad_sessions db') i = Some b" for i b
    using that inv new db' by (auto simp: auth_inv_def split: if_splits)
  moreover have "one_live db'"
    unfolding one_live_def
  proof (intro allI impI, elim conjE)
    fix i k b d
    assume "dict_get (ad_sessions db') i = Some b" "dict_get (ad_sessions db') k = Some d" "live b" "live d" "as_family b = as_family d"
    then show "i = k"
      using inv alone db' unfolding auth_inv_def one_live_def fst_conv by (metis dict_get_set option.inject)
  qed
  ultimately show ?thesis
    by (simp add: auth_inv_def)
qed

lemma sign_in_row:
  assumes "sign_in_session cfg uid u jti now db = (c, db')"
  obtains a where "ad_sessions db' = dict_set jti a (ad_sessions db)" "as_family a = jti" "as_root a = now"
proof -
  have "max (of_int \<lfloor>now\<rfloor>) now = now"
    by (simp add: max_def)
  then show thesis
    using assms that by (auto simp: sign_in_session_def issue_access_session_def issue_token_def Let_def as_root_def)
qed

lemma auth_inv_sign_in:
  assumes inv: "auth_inv (db, g)" and fresh: "g jti = None" "jti \<noteq> []"
    and run: "sign_in_session cfg uid u jti now db = (c, db')"
  shows "auth_inv (db', g(jti \<mapsto> now))"
proof -
  obtain a where a: "ad_sessions db' = dict_set jti a (ad_sessions db)" "as_family a = jti" "as_root a = now"
    using sign_in_row[OF run] .
  have "as_family b \<noteq> jti" if "dict_get (ad_sessions db) i = Some b" for i b
    using inv that fresh by (auto simp: auth_inv_def row_ok_def)
  then show ?thesis
    using a fresh by (intro auth_inv_insert[OF auth_inv_ghost[OF inv fresh(1)] _ a(1)]) (auto simp: row_ok_def)
qed

lemma auth_inv_refresh:
  assumes inv: "auth_inv (db, g)" and fresh: "g jti = None" "jti \<noteq> []"
    and run: "refresh_session cfg allowed c uid jti now db = (res, db')"
  shows "auth_inv (db', g(jti \<mapsto> now))"
  using run
proof (cases rule: refresh_cases)
  case 1
  then show ?thesis
    using auth_inv_evolves[OF inv] auth_inv_ghost fresh(1) by blast
next
  case (2 old new c')
  have old: "row_ok g (cl_jti c) old" "as_family old \<noteq> []"
    using inv 2(1) by (auto simp: auth_inv_def row_ok_def)
  have ne: "jti \<noteq> cl_jti c" "jti \<noteq> as_family old"
    using old fresh by (auto simp: row_ok_def)
  have fam: "as_family new = as_family old"
    using 2(9) old(2) by (simp add: family_of_def)
  define mid where "mid = set_session (cl_jti c) (old\<lparr>as_revoked_at := Some now\<rparr>) db"
  have mid: "auth_inv (mid, g(jti \<mapsto> now))"
    unfolding mid_def by (intro auth_inv_ghost[OF auth_inv_evolves[OF inv evolves_set[OF 2(1)]] fresh(1)]) simp
  have alone: "as_family b \<noteq> as_family new" if b: "dict_get (ad_sessions mid) i = Some b" "live b" for i b
  proof
    assume "as_family b = as_family new"
    moreover have "i \<noteq> cl_jti c"
      using b by (auto simp: mid_def live_def)
    ultimately show False
      using inv 2(1,2) b fam unfolding auth_inv_def one_live_def mid_def fst_conv by (auto split: if_splits)
  qed
  have "row_ok (g(jti \<mapsto> now)) jti new"
    using old ne fam 2(8) by (simp add: row_ok_def)
  from auth_inv_insert[OF mid this _ alone, of "set_session jti new mid"]
  have "auth_inv (set_session jti new mid, g(jti \<mapsto> now))"
    by simp
  moreover have "evolves (set_session jti new mid) db'"
  proof -
    have "dict_get (ad_sessions db') k = dict_get (ad_sessions (set_session jti new mid)) k" for k
      using 2(7) ne by (simp add: mid_def)
    moreover have "dict_ok (ad_sessions (set_session jti new mid)) \<Longrightarrow> dict_ok (ad_sessions db')"
      using 2(7) inv by (simp add: auth_inv_def)
    ultimately show ?thesis
      by (auto simp: evolves_def)
  qed
  ultimately show ?thesis
    by (rule auth_inv_evolves)
qed

text \<open>Every step but a sign-in or a refresh only ages rows.\<close>

lemma auth_step_cases:
  assumes "auth_step cfg w w'" "dict_ok (ad_sessions (fst w))"
  obtains (aged) "evolves (fst w) (fst w')" "snd w' = snd w"
  | (signed_in) jti uid u now c where "snd w jti = None" "jti \<noteq> []" "sign_in_session cfg uid u jti now (fst w) = (c, fst w')"
      "snd w' = (snd w)(jti \<mapsto> now)"
  | (refreshed) jti allowed c uid now res where "snd w jti = None" "jti \<noteq> []"
      "refresh_session cfg allowed c uid jti now (fst w) = (res, fst w')" "snd w' = (snd w)(jti \<mapsto> now)"
  using assms(1)
proof cases
  case (step_step_up token uid b now db c a g)
  then have "dict_get (ad_sessions db) (cl_jti c) = Some a"
    by (auto simp: lock_account_mutation_def split: option.splits if_splits sum.splits dest!: lock_session_SomeD)
  from evolves_set[OF this ages_updates(3)] show ?thesis
    using step_step_up aged by simp
next
  case (step_clean db g P Q)
  then have "evolves (fst w) (fst w')"
    using assms(2) by (auto simp: evolves_def dict_get_filter split: option.splits if_splits)
  then show ?thesis using step_clean aged by simp
next
  case (step_accounts db g us)
  then show ?thesis using aged by (simp add: evolves_same)
next
  case (step_sign_in g jti uid u now db c db')
  then show ?thesis using signed_in by simp
next
  case (step_refresh g jti allowed c uid now db res db')
  then show ?thesis using refreshed by simp
next
  case (step_begin creds path now sampled db dec db' g)
  then show ?thesis using evolves_begin[OF _ step_begin(3)] assms(2) aged by simp
next
  case (step_locked c path now db out db' g)
  then show ?thesis using evolves_locked[OF step_locked(3)] aged by simp
next
  case (step_logout c uid now db fin db' g)
  then show ?thesis using evolves_logout[OF _ step_logout(3)] assms(2) aged by simp
next
  case (step_revoke token uid j now db fin db' g)
  then show ?thesis using evolves_revoke[OF _ step_revoke(3)] assms(2) aged by simp
next
  case (step_logout_all token uid now db fin db' g)
  then show ?thesis using evolves_logout_all[OF step_logout_all(3)] aged by simp
next
  case (step_revoke_all db g uid now)
  then show ?thesis using evolves_revoke_all aged by simp
qed

lemma auth_inv_step:
  assumes "auth_step cfg w w'" "auth_inv w"
  shows "auth_inv w'"
proof -
  obtain db g db' g' where w: "w = (db, g)" "w' = (db', g')"
    by (metis surj_pair)
  have "dict_ok (ad_sessions (fst w))"
    using assms(2) by (simp add: auth_inv_def)
  from assms(1) this show ?thesis
  proof (cases rule: auth_step_cases)
    case aged
    then show ?thesis using auth_inv_evolves assms(2) w by simp
  next
    case (signed_in jti uid u now c)
    then show ?thesis using auth_inv_sign_in assms(2) w by simp
  next
    case (refreshed jti allowed c uid now res)
    then show ?thesis using auth_inv_refresh assms(2) w by simp
  qed
qed

lemma auth_inv_start: "auth_inv auth_start"
  by (simp add: auth_inv_def auth_start_def one_live_def)

lemma auth_inv_reachable: "(auth_step cfg)\<^sup>*\<^sup>* auth_start w \<Longrightarrow> auth_inv w"
  by (induction rule: rtranclp_induct) (auto intro: auth_inv_start auth_inv_step)

text \<open>A token is dead when its row is gone or revoked.\<close>

definition dead :: "auth_db \<Rightarrow> string \<Rightarrow> bool" where
  "dead db j \<longleftrightarrow> (\<forall>a. dict_get (ad_sessions db) j = Some a \<longrightarrow> \<not> live a)"

lemma dead_evolves: "evolves db db' \<Longrightarrow> dead db j \<Longrightarrow> dead db' j"
  unfolding dead_def evolves_def ages_def by metis

lemma dead_step:
  assumes "auth_step cfg w w'" "auth_inv w" "dead (fst w) j" "j \<in> dom (snd w)"
  shows "dead (fst w') j \<and> j \<in> dom (snd w')"
proof -
  have "dict_ok (ad_sessions (fst w))"
    using assms(2) by (simp add: auth_inv_def)
  from assms(1) this show ?thesis
  proof (cases rule: auth_step_cases)
    case aged
    then show ?thesis using dead_evolves assms(3,4) by simp
  next
    case (signed_in jti uid u now c)
    obtain a where "ad_sessions (fst w') = dict_set jti a (ad_sessions (fst w))"
      using sign_in_row[OF signed_in(3)] by blast
    moreover have "j \<noteq> jti"
      using signed_in(1) assms(4) by auto
    ultimately show ?thesis using signed_in(4) assms(3,4) by (simp add: dead_def)
  next
    case (refreshed jti allowed c uid now res)
    from refreshed(3) have "dead (fst w') j"
    proof (cases rule: refresh_cases)
      case 1
      then show ?thesis using dead_evolves assms(3) by blast
    next
      case (2 old new c')
      then show ?thesis using assms(3,4) refreshed(1) by (auto simp: dead_def live_def)
    qed
    then show ?thesis using refreshed(4) assms(4) by simp
  qed
qed

lemma dead_steps:
  assumes "(auth_step cfg)\<^sup>*\<^sup>* w w'" "auth_inv w" "dead (fst w) j" "j \<in> dom (snd w)"
  shows "auth_inv w' \<and> dead (fst w') j \<and> j \<in> dom (snd w')"
  using assms
proof (induction rule: rtranclp_induct)
  case (step y z)
  then show ?case using dead_step auth_inv_step by blast
qed simp

section \<open>Properties\<close>

lemma expiry_None_iff:
  "auth_session_expiry_reason cfg a now = None \<longleftrightarrow>
     now < as_expires_at a \<and> now < as_root a + of_int (3600 * session_absolute_hours cfg) \<and>
     now < as_activity a + of_int (60 * session_idle_minutes cfg)"
  by (auto simp: auth_session_expiry_reason_def not_less)

text \<open>C5: Revocation is permanent. Once the row of an issued token is revoked or removed, no later state,
  after any sequence of sign-ins, refreshes, requests, logouts, account changes and clean-ups, accepts
  that token again: authentication answers 401, it cannot be refreshed, and no handler that mutates the
  account accepts it.\<close>

theorem revocation_permanent:
  assumes "(auth_step cfg)\<^sup>*\<^sup>* auth_start (db, g)" and "dead db (cl_jti c)" and "g (cl_jti c) = Some t"
    and "(auth_step cfg)\<^sup>*\<^sup>* (db, g) (db', g')"
  shows "fst (current_user cfg (Bearer c) path now1 now2 sampled others db') = Inl 401 \<and>
         (\<exists>e. fst (refresh_session cfg allowed c uid jti now db') = Inl e) \<and>
         lock_account_mutation cfg (Some c) uid step_up now db' = Inl 401"
proof -
  have d: "dead db' (cl_jti c)"
    using dead_steps[OF assms(4) auth_inv_reachable[OF assms(1)]] assms(2,3) by auto
  then have l: "lock_auth_session_row (cl_jti c) x db' = None" for x
    by (auto simp: dead_def live_def lock_auth_session_row_def split: option.splits)
  have "\<exists>x. current_user_begin cfg (Bearer c) path now1 sampled db' = (Inl 401, x)"
    using d by (auto simp: current_user_begin_def dead_def live_def split: option.splits)
  then show ?thesis
    using l by (auto simp: current_user_def refresh_session_def lock_account_mutation_def split: option.splits)
qed

text \<open>C15: One live token per sign-in. In every reachable state no two unrevoked rows belong to the same
  family, so refreshing rotates a token and never duplicates it: the token that was exchanged is revoked
  in the transaction that issues its successor.\<close>

theorem one_token_per_family:
  assumes "(auth_step cfg)\<^sup>*\<^sup>* auth_start (db, g)"
    and "dict_get (ad_sessions db) i = Some a" and "dict_get (ad_sessions db) j = Some b"
    and "as_revoked_at a = None" and "as_revoked_at b = None" and "family_of i a = family_of j b"
  shows "i = j"
proof -
  have inv: "auth_inv (db, g)"
    by (rule auth_inv_reachable[OF assms(1)])
  then have "as_family a \<noteq> []" "as_family b \<noteq> []"
    using assms(2,3) by (auto simp: auth_inv_def row_ok_def)
  then have "as_family a = as_family b"
    using assms(6) by (simp add: family_of_def)
  then show ?thesis
    using inv assms(2-5) unfolding auth_inv_def one_live_def live_def fst_conv by blast
qed

text \<open>What authentication under the locks accepts, and how long. In every reachable state it accepts a
  token exactly when its account is active at the version of the token, its row belongs to the account
  and is not revoked, the token is not denied, and none of the deadlines has passed: the life of the
  token, the idle time, and the absolute cap. The cap runs from the sign-in that started the family
  (\<open>g\<close> records its time), so no chain of refreshes outlives it.\<close>

theorem authentication_exact:
  assumes "(auth_step cfg)\<^sup>*\<^sup>* auth_start (db, g)"
  shows "fst (current_user_locked cfg c path now db) = Inr uid \<longleftrightarrow>
           uid = cl_sub c \<and>
           (\<exists>u a t0. dict_get (ad_users db) uid = Some u \<and> ur_active u \<and> ur_token_version u = cl_ver c \<and>
              dict_get (ad_sessions db) (cl_jti c) = Some a \<and> as_user_id a = uid \<and> as_revoked_at a = None \<and>
              dict_get (ad_revoked db) (cl_jti c) = None \<and>
              g (family_of (cl_jti c) a) = Some t0 \<and>
              now < t0 + of_int (3600 * session_absolute_hours cfg) \<and>
              now < as_expires_at a \<and> now < as_activity a + of_int (60 * session_idle_minutes cfg))"
proof -
  have g: "g (family_of (cl_jti c) a) = Some (as_root a)" if "dict_get (ad_sessions db) (cl_jti c) = Some a" for a
    using auth_inv_reachable[OF assms] that by (auto simp: auth_inv_def row_ok_def family_of_def)
  have "fst (current_user_locked cfg c path now db) = Inr uid \<longleftrightarrow>
      uid = cl_sub c \<and>
      (\<exists>u a. dict_get (ad_users db) uid = Some u \<and> ur_active u \<and> ur_token_version u = cl_ver c \<and>
         dict_get (ad_sessions db) (cl_jti c) = Some a \<and> as_user_id a = uid \<and> as_revoked_at a = None \<and>
         dict_get (ad_revoked db) (cl_jti c) = None \<and> auth_session_expiry_reason cfg a now = None)"
    by (auto simp: current_user_locked_def lock_user_row_def lock_auth_session_row_def dict_has_def split: option.splits if_splits)
  then show ?thesis
    using g unfolding expiry_None_iff by auto
qed

text \<open>A stolen token that comes back closes the whole family. When a token that was exchanged by a
  refresh is presented again after the grace period, for an active account, the request is refused and
  afterwards no row of its family is live, so neither the thief nor the owner can go on without signing
  in again.\<close>

theorem reuse_closes_family:
  assumes "(auth_step cfg)\<^sup>*\<^sup>* auth_start (db, g)"
    and "dict_get (ad_users db) (cl_sub c) = Some u" and "ur_active u"
    and "dict_get (ad_sessions db) (cl_jti c) = Some a" and "as_user_id a = cl_sub c"
    and "dict_get (ad_revoked db) (cl_jti c) = Some t" and "rt_reason t = ''refresh''"
    and "of_int (token_reuse_grace_seconds cfg) \<le> now - rt_created_at t"
    and "current_user_begin cfg (Bearer c) path now sampled db = (dec, db')"
  shows "dec = Inl 401 \<and>
         (\<forall>j b. dict_get (ad_sessions db') j = Some b \<and> as_user_id b = cl_sub c \<and> family_of j b = family_of (cl_jti c) a
                  \<longrightarrow> as_revoked_at b \<noteq> None)"
proof -
  have inv: "auth_inv (db, g)"
    by (rule auth_inv_reachable[OF assms(1)])
  then have ok: "dict_ok (ad_sessions db)"
    by (simp add: auth_inv_def)
  obtain n d where r: "revoke_auth_session_family (cl_sub c) (family_of (cl_jti c) a) ''token_reuse'' now db = (n, d)"
    by (metis surj_pair)
  have "ad_sessions (detect_rotated_token_reuse cfg now (cl_sub c) (cl_jti c) a t db) = ad_sessions d"
    using assms(2,3,8) r by (auto simp: detect_rotated_token_reuse_def lock_user_row_def)
  then have db': "dec = Inl 401" "ad_sessions db' = ad_sessions d"
    using assms(9) assms(2-7) by (auto simp: current_user_begin_def dict_has_def)
  have "as_revoked_at b \<noteq> None"
    if b: "dict_get (ad_sessions db') j = Some b" "as_user_id b = cl_sub c" "family_of j b = family_of (cl_jti c) a" for j b
  proof -
    have fb: "as_family b \<noteq> []"
      using auth_inv_evolves[OF inv evolves_revoke_family[OF ok r]] b(1) db'(2) by (auto simp: auth_inv_def row_ok_def)
    from b(1) db'(2) revoke_family_sessions[OF ok r, of j] obtain b0 where b0: "dict_get (ad_sessions db) j = Some b0"
      "b = (if as_user_id b0 = cl_sub c \<and> as_family b0 = family_of (cl_jti c) a \<and> live b0
            then b0\<lparr>as_revoked_at := Some now\<rparr> else b0)"
      by auto
    then show ?thesis
      using b(2,3) fb by (auto simp: family_of_def live_def split: if_splits)
  qed
  then show ?thesis
    using db'(1) by blast
qed

section \<open>A concrete history\<close>

definition demo_cfg :: auth_settings where
  "demo_cfg = \<lparr>session_absolute_hours = 12, session_idle_minutes = 30, token_reuse_grace_seconds = 10,
     step_up_minutes = 5, access_token_minutes = 30, high_profile = False\<rparr>"

definition demo_user :: user_row where
  "demo_user = \<lparr>ur_username = ''ann'', ur_role = ''user'', ur_active = True, ur_token_version = 1, ur_mfa_enabled = False\<rparr>"

definition demo_db1 :: auth_db where
  "demo_db1 = \<lparr>ad_users = [(''u'', demo_user)], ad_sessions = [], ad_revoked = [], ad_audit = []\<rparr>"

definition demo_db2 :: auth_db where
  "demo_db2 = snd (sign_in_session demo_cfg ''u'' demo_user ''a'' 0 demo_db1)"

definition demo_token :: claims where
  "demo_token = fst (sign_in_session demo_cfg ''u'' demo_user ''a'' 0 demo_db1)"

definition demo_db3 :: auth_db where
  "demo_db3 = snd (refresh_session demo_cfg True demo_token ''u'' ''b'' 60 demo_db2)"

lemma demo_reach2: "(auth_step demo_cfg)\<^sup>*\<^sup>* auth_start (demo_db2, [''a'' \<mapsto> 0])"
proof -
  have "auth_step demo_cfg auth_start (demo_db1, Map.empty)"
    using step_accounts[of demo_cfg "fst auth_start" Map.empty "[(''u'', demo_user)]"]
    by (simp add: auth_start_def demo_db1_def)
  moreover have "auth_step demo_cfg (demo_db1, Map.empty) (demo_db2, [''a'' \<mapsto> 0])"
    unfolding demo_db2_def by (rule step_sign_in[where jti = "''a''" and uid = "''u''" and u = demo_user]) (simp_all add: prod_eq_iff)
  ultimately show ?thesis by simp
qed

lemma demo_reach3: "(auth_step demo_cfg)\<^sup>*\<^sup>* auth_start (demo_db3, [''a'' \<mapsto> 0, ''b'' \<mapsto> 60])"
proof -
  have "auth_step demo_cfg (demo_db2, [''a'' \<mapsto> 0]) (demo_db3, [''a'' \<mapsto> 0, ''b'' \<mapsto> 60])"
    unfolding demo_db3_def
    by (rule step_refresh[where jti = "''b''" and c = demo_token and uid = "''u''" and allowed = True]) (simp_all add: prod_eq_iff)
  with demo_reach2 show ?thesis
    by (rule rtranclp.rtrancl_into_rtrancl)
qed

lemmas demo_defs = demo_db1_def demo_user_def demo_cfg_def demo_token_def sign_in_session_def issue_access_session_def
  issue_token_def Let_def set_session_def

lemma demo_token_fields: "cl_sub demo_token = ''u''" "cl_ver demo_token = 1" "cl_jti demo_token = ''a''" "cl_exp demo_token = 1800"
  by (simp_all add: demo_defs)

lemma demo_db2_sessions:
  "ad_sessions demo_db2 = [(''a'', \<lparr>as_user_id = ''u'', as_family = ''a'', as_issued_at = 0, as_expires_at = 1800,
     as_revoked_at = None, as_last_activity_at = Some 0, as_root_issued_at = Some 0, as_last_step_up_at = Some 0\<rparr>)]"
  "ad_users demo_db2 = [(''u'', demo_user)]" "ad_revoked demo_db2 = []"
  by (simp_all add: demo_db2_def demo_defs)

lemma demo_db3_rows:
  "dict_get (ad_sessions demo_db3) ''a'' = Some \<lparr>as_user_id = ''u'', as_family = ''a'', as_issued_at = 0, as_expires_at = 1800,
     as_revoked_at = Some 60, as_last_activity_at = Some 0, as_root_issued_at = Some 0, as_last_step_up_at = Some 0\<rparr>"
  "dict_get (ad_sessions demo_db3) ''b'' = Some \<lparr>as_user_id = ''u'', as_family = ''a'', as_issued_at = 60, as_expires_at = 1860,
     as_revoked_at = None, as_last_activity_at = Some 0, as_root_issued_at = Some 0, as_last_step_up_at = Some 0\<rparr>"
  "dict_get (ad_revoked demo_db3) ''a'' = Some \<lparr>rt_user_id = ''u'', rt_expires_at = 1800, rt_reason = ''refresh'', rt_created_at = 60\<rparr>"
  "ad_users demo_db3 = [(''u'', demo_user)]"
  by (simp_all add: demo_db3_def refresh_session_def demo_token_fields demo_db2_sessions lock_user_row_def dict_get_def demo_user_def
      lock_auth_session_row_def dict_has_def auth_session_expiry_reason_def as_root_def as_activity_def demo_cfg_def family_of_def
      issue_access_session_def issue_token_def Let_def set_session_def add_revoked_def audit_entry_def)

theorem revocation_permanent_witness:
  "fst (current_user demo_cfg (Bearer demo_token) ''/api/sessions'' 70 71 True (\<lambda>x. x) demo_db3) = Inl 401 \<and>
   (\<exists>e. fst (refresh_session demo_cfg True demo_token ''u'' ''c'' 70 demo_db3) = Inl e) \<and>
   lock_account_mutation demo_cfg (Some demo_token) ''u'' False 70 demo_db3 = Inl 401"
  by (rule revocation_permanent[OF demo_reach3 _ _ rtranclp.rtrancl_refl])
    (simp_all add: dead_def live_def demo_token_fields demo_db3_rows)

theorem one_token_per_family_witness:
  "\<exists>a. dict_get (ad_sessions demo_db3) ''b'' = Some a \<and> as_revoked_at a = None \<and>
     (\<forall>i b. dict_get (ad_sessions demo_db3) i = Some b \<and> as_revoked_at b = None \<and> family_of i b = family_of ''b'' a \<longrightarrow> i = ''b'')"
  using one_token_per_family[OF demo_reach3 _ demo_db3_rows(2)] demo_db3_rows(2) by fastforce

theorem authentication_exact_witness:
  "fst (current_user_locked demo_cfg demo_token ''/api/sessions'' 50 demo_db2) = Inr ''u'' \<and>
   fst (current_user_locked demo_cfg demo_token ''/api/sessions'' 1800 demo_db2) \<noteq> Inr ''u''"
proof
  show "fst (current_user_locked demo_cfg demo_token ''/api/sessions'' 50 demo_db2) = Inr ''u''"
    unfolding authentication_exact[OF demo_reach2]
    by (simp add: demo_token_fields demo_db2_sessions dict_get_def demo_user_def family_of_def as_activity_def demo_cfg_def)
  show "fst (current_user_locked demo_cfg demo_token ''/api/sessions'' 1800 demo_db2) \<noteq> Inr ''u''"
    unfolding authentication_exact[OF demo_reach2]
    by (simp add: demo_token_fields demo_db2_sessions dict_get_def)
qed

theorem reuse_closes_family_witness:
  "\<exists>dec db'. current_user_begin demo_cfg (Bearer demo_token) ''/api/sessions'' 100 True demo_db3 = (dec, db') \<and> dec = Inl 401 \<and>
     (\<forall>b. dict_get (ad_sessions db') ''b'' = Some b \<and> as_user_id b = ''u'' \<and> family_of ''b'' b = ''a'' \<longrightarrow> as_revoked_at b \<noteq> None)"
proof -
  obtain dec db' where run: "current_user_begin demo_cfg (Bearer demo_token) ''/api/sessions'' 100 True demo_db3 = (dec, db')"
    by (metis surj_pair)
  let ?a = "\<lparr>as_user_id = ''u'', as_family = ''a'', as_issued_at = 0, as_expires_at = 1800,
     as_revoked_at = Some 60, as_last_activity_at = Some 0, as_root_issued_at = Some 0, as_last_step_up_at = Some 0\<rparr>"
  have "dec = Inl 401 \<and> (\<forall>j b. dict_get (ad_sessions db') j = Some b \<and> as_user_id b = cl_sub demo_token \<and>
      family_of j b = family_of (cl_jti demo_token) ?a \<longrightarrow> as_revoked_at b \<noteq> None)"
    by (rule reuse_closes_family[OF demo_reach3 _ _ _ _ _ _ _ run])
      (simp_all add: demo_token_fields demo_db3_rows demo_user_def demo_cfg_def dict_get_Cons, simp_all)
  then show ?thesis
    using run by (auto simp: demo_token_fields family_of_def)
qed

end
