(* ===== verification/Totp.thy ===== *)
theory Totp
  imports Keys
begin

text \<open>
  Time-based one-time passwords (\<^verbatim>\<open>TotpService\<close> of \<^verbatim>\<open>security.py\<close>): HOTP by RFC 4226 and the window
  search with a replay floor. HMAC is a parameter, base32 is the standard library's.

  A code is compared with \<^verbatim>\<open>hmac.compare_digest\<close>, which raises \<^verbatim>\<open>TypeError\<close> for a text that is not
  ASCII, although \<^verbatim>\<open>str.isdigit\<close> has accepted it. A period of zero makes the floor division raise, and a digest that is empty
  or ends before the four bytes of the dynamic truncation makes the indexing or \<^verbatim>\<open>struct.unpack\<close> raise.
\<close>

datatype totp_error = Totp_Type_Error | Totp_Base32_Error | Totp_Struct_Error | Totp_Index_Error | Totp_Zero_Division

record totp =
  to_digits :: int
  to_period :: int
  to_hmac :: "bytes \<Rightarrow> bytes \<Rightarrow> bytes"

definition totp_init :: "int \<Rightarrow> int \<Rightarrow> (bytes \<Rightarrow> bytes \<Rightarrow> bytes) \<Rightarrow> totp option" where
  "totp_init digits period hmac =
     (if digits < 6 \<or> digits > 8 then None else Some \<lparr>to_digits = digits, to_period = period, to_hmac = hmac\<rparr>)"

section \<open>Base32\<close>

definition b32_value :: "char \<Rightarrow> nat option" where
  "b32_value c =
     (if is_upper c then Some (code c - 65)
      else if 50 \<le> code c \<and> code c \<le> 55 then Some (code c - 24) else None)"

fun b32_unpack :: "nat list \<Rightarrow> nat list" where
  "b32_unpack (a # b # c # d # e # f # g # h # xs) =
     (a * 8 + b div 4) # (b mod 4 * 64 + c * 2 + d div 16) # (d mod 16 * 16 + e div 2) #
     (e mod 2 * 128 + f * 4 + g div 8) # (g mod 8 * 32 + h) # b32_unpack xs"
| "b32_unpack _ = []"

text \<open>Characters that upper-casing leaves outside ASCII are refused by the decoder.\<close>

definition py_upper :: "string \<Rightarrow> string" where
  "py_upper s = concat (map (\<lambda>c. if is_lower c then [char_of (code c - 32)] else if code c = 223 then ''SS'' else [c]) s)"

definition b32decode :: "string \<Rightarrow> bytes option" where
  "b32decode s =
     (let body = rstrip_char (CHR ''='') s;
          pad = length s - length body
      in if \<not> is_ascii s \<or> length s mod 8 \<noteq> 0 \<or> pad \<notin> {0, 1, 3, 4, 6} \<or> list_ex (\<lambda>c. b32_value c = None) body then None
         else let bytes = b32_unpack (map (\<lambda>c. the (b32_value c)) body @ replicate pad 0)
              in Some (map char_of (take (length bytes - (if pad = 0 then 0 else 5 - (43 - 5 * pad) div 8)) bytes)))"

section \<open>HOTP\<close>

text \<open>\<^verbatim>\<open>struct.pack(">Q", counter)\<close>\<close>

definition pack_counter :: "int \<Rightarrow> bytes option" where
  "pack_counter n =
     (if n < 0 \<or> n \<ge> 2 ^ 64 then None
      else Some (map (\<lambda>i. char_of (nat n div 256 ^ (7 - i) mod 256)) [0..<8]))"

definition zfill :: "nat \<Rightarrow> string \<Rightarrow> string" where
  "zfill n s = replicate (n - length s) (CHR ''0'') @ s"

definition truncate_digest :: "bytes \<Rightarrow> (totp_error + nat)" where
  "truncate_digest digest =
     (if digest = [] then Inl Totp_Index_Error
      else let offset = code (last digest) mod 16;
               part = take 4 (drop offset digest)
           in if length part \<noteq> 4 then Inl Totp_Struct_Error
              else Inr (foldl (\<lambda>n b. n * 256 + b) 0 (map code part) mod 2 ^ 31))"

definition hotp :: "totp \<Rightarrow> string \<Rightarrow> int \<Rightarrow> (totp_error + string)" where
  "hotp s secret_b32 counter =
     (case b32decode (py_upper secret_b32 @ replicate ((8 - length secret_b32 mod 8) mod 8) (CHR ''='')) of
        None \<Rightarrow> Inl Totp_Base32_Error
      | Some key \<Rightarrow>
          (case pack_counter counter of
             None \<Rightarrow> Inl Totp_Struct_Error
           | Some msg \<Rightarrow>
               (case truncate_digest (to_hmac s key msg) of
                  Inl e \<Rightarrow> Inl e
                | Inr binary \<Rightarrow> Inr (zfill (nat (to_digits s)) (show_nat (binary mod 10 ^ nat (to_digits s)))))))"

definition totp_counter :: "totp \<Rightarrow> time \<Rightarrow> (totp_error + int)" where
  "totp_counter s timestamp =
     (if to_period s = 0 then Inl Totp_Zero_Division else Inr \<lfloor>timestamp / of_int (to_period s)\<rfloor>)"

definition now_code :: "totp \<Rightarrow> string \<Rightarrow> time \<Rightarrow> (totp_error + string)" where
  "now_code s secret_b32 timestamp =
     (case totp_counter s timestamp of Inl e \<Rightarrow> Inl e | Inr counter \<Rightarrow> hotp s secret_b32 counter)"

definition totp_candidate :: "string \<Rightarrow> string" where
  "totp_candidate v = filter (\<lambda>c. c \<noteq> CHR '' '') (py_strip v)"

fun totp_search :: "totp \<Rightarrow> string \<Rightarrow> string \<Rightarrow> int option \<Rightarrow> int list \<Rightarrow> (totp_error + int option)" where
  "totp_search s secret_b32 candidate after_counter [] = Inr None"
| "totp_search s secret_b32 candidate after_counter (counter # rest) =
     (if counter < 0 then totp_search s secret_b32 candidate after_counter rest
      else if (case after_counter of None \<Rightarrow> False | Some a \<Rightarrow> counter \<le> a)
      then totp_search s secret_b32 candidate after_counter rest
      else case hotp s secret_b32 counter of
        Inl e \<Rightarrow> Inl e
      | Inr expected \<Rightarrow>
          (case compare_digest expected candidate of
             None \<Rightarrow> Inl Totp_Type_Error
           | Some same \<Rightarrow> if same then Inr (Some counter)
                          else totp_search s secret_b32 candidate after_counter rest))"

definition totp_verify :: "totp \<Rightarrow> string \<Rightarrow> string \<Rightarrow> int \<Rightarrow> time \<Rightarrow> int option \<Rightarrow> (totp_error + int option)" where
  "totp_verify s secret_b32 v valid_window timestamp after_counter =
     (let candidate = totp_candidate v
      in if int (length candidate) \<noteq> to_digits s \<or> \<not> py_isdigit candidate then Inr None
         else (case totp_counter s timestamp of
                 Inl e \<Rightarrow> Inl e
               | Inr current \<Rightarrow> totp_search s secret_b32 candidate after_counter [current - valid_window..current + valid_window]))"

definition provisioning_uri :: "totp \<Rightarrow> string \<Rightarrow> string \<Rightarrow> string \<Rightarrow> string \<Rightarrow> bool \<Rightarrow> string" where
  "provisioning_uri s algorithm secret_b32 account_name issuer brief =
     (let label = py_quote [] issuer @ '':'' @ py_quote [] account_name;
          defaults = brief \<and> py_lower algorithm = ''sha1'';
          params = [''secret='' @ secret_b32, ''issuer='' @ py_quote ''/'' issuer]
            @ (if defaults \<and> to_digits s = 6 \<and> to_period s = 30 then []
               else [''algorithm='' @ py_upper algorithm, ''digits='' @ show_int (to_digits s), ''period='' @ show_int (to_period s)])
      in ''otpauth://totp/'' @ label @ ''?'' @ join ''&'' params)"

section \<open>Codes have the right shape\<close>

lemma length_show_nat_le: "n < 10 ^ k \<Longrightarrow> 0 < k \<Longrightarrow> length (show_nat n) \<le> k"
proof (induction k arbitrary: n)
  case (Suc k)
  show ?case
  proof (cases "n < 10")
    case True
    then show ?thesis by (simp add: show_nat.simps)
  next
    case False
    then have "k \<noteq> 0" using Suc.prems by (cases k) auto
    moreover have "n div 10 < 10 ^ k"
      using Suc.prems(1) by (simp add: less_mult_imp_div_less mult.commute)
    ultimately have "length (show_nat (n div 10)) \<le> k"
      using Suc.IH by simp
    then show ?thesis
      using False by (simp add: show_nat.simps[of n])
  qed
qed simp

lemma hotp_shape:
  assumes "0 < to_digits s" "hotp s k c = Inr v"
  shows "int (length v) = to_digits s \<and> list_all is_digit v"
proof -
  obtain n where v: "v = zfill (nat (to_digits s)) (show_nat (n mod 10 ^ nat (to_digits s)))"
    using assms(2) by (auto simp: hotp_def split: option.splits sum.splits)
  have "length (show_nat (n mod 10 ^ nat (to_digits s))) \<le> nat (to_digits s)"
    using assms(1) by (intro length_show_nat_le) simp_all
  then show ?thesis
    using assms(1) show_nat_digits by (auto simp: v zfill_def list_all_iff is_digit_def)
qed

lemma hotp_ascii: "hotp s k c = Inr v \<Longrightarrow> is_ascii v"
  using show_nat_digits by (fastforce simp: hotp_def zfill_def is_ascii_def list_all_iff is_digit_def split: option.splits sum.splits)

section \<open>The window search\<close>

definition eligible :: "int option \<Rightarrow> int \<Rightarrow> bool" where
  "eligible after_counter k \<longleftrightarrow> 0 \<le> k \<and> (case after_counter of None \<Rightarrow> True | Some a \<Rightarrow> a < k)"

lemma totp_search_find:
  assumes "is_ascii candidate" "\<And>k. k \<in> set cs \<Longrightarrow> 0 \<le> k \<Longrightarrow> \<exists>v. hotp s secret k = Inr v"
  shows "totp_search s secret candidate after cs = Inr (find (\<lambda>k. eligible after k \<and> hotp s secret k = Inr candidate) cs)"
  using assms(2)
proof (induction cs)
  case (Cons k cs)
  show ?case
  proof (cases "eligible after k")
    case False
    then show ?thesis using Cons by (auto simp: eligible_def split: option.splits)
  next
    case True
    then obtain v where v: "hotp s secret k = Inr v"
      using Cons.prems[of k] by (auto simp: eligible_def)
    then have "compare_digest v candidate = Some (v = candidate)"
      using assms(1) hotp_ascii by (simp add: compare_digest_def)
    then show ?thesis
      using Cons True v by (auto simp: eligible_def split: option.splits)
  qed
qed simp

lemma find_upto:
  "find P [a..b] = Some k \<longleftrightarrow> a \<le> k \<and> k \<le> b \<and> P k \<and> (\<forall>j. a \<le> j \<and> j < k \<longrightarrow> \<not> P j)"
proof (induction a b rule: upto.induct)
  case (1 a b)
  show ?case
  proof (cases "a \<le> b")
    case False
    then show ?thesis by auto
  next
    case True
    then have "find P [a..b] = (if P a then Some a else find P [a + 1..b])"
      by (simp add: upto_rec1)
    then show ?thesis
      using 1 True by (smt (verit, best) option.inject)
  qed
qed

text \<open>A digest of at least twenty bytes, the length of SHA-1, is truncated without an exception.\<close>

lemma truncate_digest_total:
  assumes "20 \<le> length d"
  shows "\<exists>n. truncate_digest d = Inr n"
proof -
  have "code (last d) mod 16 < 16" by simp
  then have "code (last d) mod 16 + 4 \<le> length d" using assms by linarith
  then show ?thesis using assms by (auto simp: truncate_digest_def Let_def)
qed

lemma hotp_total:
  assumes "hotp s secret 0 = Inr v0" "\<And>key msg. 20 \<le> length (to_hmac s key msg)" "0 \<le> k" "k < 2 ^ 64"
  shows "\<exists>v. hotp s secret k = Inr v"
proof -
  obtain key where key: "b32decode (py_upper secret @ replicate ((8 - length secret mod 8) mod 8) (CHR ''='')) = Some key"
    using assms(1) by (auto simp: hotp_def split: option.splits)
  obtain msg where msg: "pack_counter k = Some msg" using assms(3,4) by (simp add: pack_counter_def)
  obtain n where "truncate_digest (to_hmac s key msg) = Inr n" using truncate_digest_total[OF assms(2)] by blast
  then show ?thesis by (simp add: hotp_def key msg)
qed

text \<open>C29: What a one-time code proves. For an ASCII code and a secret that decodes, verification accepts
  the time step \<open>k\<close> exactly when \<open>k\<close> is the earliest step of the window around the current time that is
  not negative, lies strictly above the replay floor, and whose HOTP value is the code (blanks removed).
  Otherwise it returns \<^verbatim>\<open>None\<close>; it does not raise. The period is not zero and a digest of the hash has at
  least the twenty bytes of SHA-1.\<close>

theorem totp_verify_exact:
  assumes "totp_init digits period hmac = Some s" and "\<And>key msg. 20 \<le> length (hmac key msg)"
    and "hotp s secret 0 = Inr v0" and "is_ascii (totp_candidate v)"
    and "0 \<le> w" and "totp_counter s t = Inr now" and "now + w < 2 ^ 64"
  shows "\<exists>r. totp_verify s secret v w t after_counter = Inr r \<and>
           (\<forall>k. r = Some k \<longleftrightarrow>
              now - w \<le> k \<and> k \<le> now + w \<and> eligible after_counter k \<and>
              hotp s secret k = Inr (totp_candidate v) \<and>
              (\<forall>j. now - w \<le> j \<and> j < k \<and> eligible after_counter j \<longrightarrow> hotp s secret j \<noteq> Inr (totp_candidate v)))"
proof (cases "int (length (totp_candidate v)) \<noteq> to_digits s \<or> \<not> py_isdigit (totp_candidate v)")
  case True
  have digits: "0 < to_digits s"
    using assms(1) by (auto simp: totp_init_def split: if_splits)
  have "hotp s secret k \<noteq> Inr (totp_candidate v)" for k
  proof
    assume h: "hotp s secret k = Inr (totp_candidate v)"
    from hotp_shape[OF digits h] have "py_isdigit (totp_candidate v)"
      using digits by (auto simp: py_isdigit_def list_all_iff isdigit_char_def)
    then show False
      using True hotp_shape[OF digits h] by simp
  qed
  then show ?thesis
    using True by (auto simp: totp_verify_def Let_def)
next
  case False
  have hmac: "20 \<le> length (to_hmac s key msg)" for key msg
    using assms(1,2) by (auto simp: totp_init_def split: if_splits)
  have "\<exists>x. hotp s secret k = Inr x" if "k \<in> set [now - w..now + w]" "0 \<le> k" for k
    using hotp_total[OF assms(3) hmac that(2)] that assms(7) by simp
  from totp_search_find[OF assms(4) this, of "[now - w..now + w]" after_counter]
  have "totp_verify s secret v w t after_counter =
      Inr (find (\<lambda>k. eligible after_counter k \<and> hotp s secret k = Inr (totp_candidate v)) [now - w..now + w])"
    using False by (simp add: totp_verify_def Let_def assms(6))
  then show ?thesis
    by (auto simp: find_upto)
qed

text \<open>A code of superscript digits makes verification raise. \<^verbatim>\<open>isdigit\<close> holds of six superscripts, so the
  search starts, and \<^verbatim>\<open>compare_digest\<close> raises \<^verbatim>\<open>TypeError\<close> at the first eligible step, where the code
  means to refuse the guess; the caller does not count it as a failed attempt.\<close>

theorem totp_superscript_raises:
  assumes "totp_init 6 period hmac = Some s" and "\<And>key msg. 20 \<le> length (hmac key msg)" and "hotp s secret 0 = Inr v0"
    and "totp_counter s t = Inr now" and "0 \<le> now - 1" and "now < 2 ^ 64" and "after_counter = None"
  shows "totp_verify s secret (replicate 6 (CHR 0xB2)) 1 t after_counter = Inl Totp_Type_Error"
proof -
  let ?k = "now - 1"
  have c: "totp_candidate (replicate 6 (CHR 0xB2)) = replicate 6 (CHR 0xB2)"
    by (simp add: totp_candidate_def py_strip_def py_lstrip_def py_rstrip_def is_space_def numeral_eq_Suc)
  have d: "to_digits s = 6" and hmac: "20 \<le> length (to_hmac s key msg)" for key msg
    using assms(1,2) by (auto simp: totp_init_def)
  have i: "py_isdigit (replicate 6 (CHR 0xB2))" "\<not> is_ascii (replicate 6 (CHR 0xB2))"
    by (simp_all add: py_isdigit_def isdigit_char_def is_ascii_def numeral_eq_Suc)
  obtain x where "hotp s secret ?k = Inr x"
    using hotp_total[OF assms(3) hmac assms(5)] assms(6) by auto
  moreover have "[?k..now + 1] = ?k # [?k + 1..now + 1]"
    by (simp add: upto_rec1)
  ultimately show ?thesis
    using assms(4,5,7) i by (simp add: totp_verify_def c d Let_def compare_digest_def)
qed

text \<open>The exceptions of a service that is set up wrongly: no period, and a digest without bytes.\<close>

lemma totp_zero_period:
  assumes "to_period s = 0" "int (length (totp_candidate v)) = to_digits s" "py_isdigit (totp_candidate v)"
  shows "totp_verify s secret v w t after_counter = Inl Totp_Zero_Division"
  using assms by (simp add: totp_verify_def totp_counter_def Let_def)

lemma hotp_short_digest:
  assumes "hotp s secret k = Inr v"
  shows "\<exists>key msg. 4 \<le> length (to_hmac s key msg)"
proof -
  obtain key msg n where "truncate_digest (to_hmac s key msg) = Inr n"
    using assms by (auto simp: hotp_def split: option.splits sum.splits)
  then have "4 \<le> length (to_hmac s key msg)" by (auto simp: truncate_digest_def Let_def split: if_splits)
  then show ?thesis by blast
qed

definition demo_mac :: "bytes \<Rightarrow> bytes \<Rightarrow> bytes" where
  "demo_mac k m = replicate 20 (CHR 0x00) @ drop 4 m"

definition demo_totp :: totp where
  "demo_totp = \<lparr>to_digits = 6, to_period = 30, to_hmac = demo_mac\<rparr>"

lemma demo_totp_init: "totp_init 6 30 demo_mac = Some demo_totp"
  by (simp add: totp_init_def demo_totp_def)

lemma demo_mac_length: "20 \<le> length (demo_mac key msg)"
  by (simp add: demo_mac_def)

lemma demo_hotp0: "hotp demo_totp ''GEZDGNBV'' 0 = Inr ''000000''"
proof -
  have "b32decode (py_upper ''GEZDGNBV'' @ replicate ((8 - length ''GEZDGNBV'' mod 8) mod 8) (CHR ''='')) = Some ''12345''"
    by (simp add: b32decode_def py_upper_def is_lower_def rstrip_char_def is_ascii_def b32_value_def is_upper_def Let_def) code_simp
  moreover have "pack_counter 0 = Some (replicate 8 (CHR 0x00))"
    by (simp add: pack_counter_def map_replicate_const) code_simp
  moreover have "demo_mac ''12345'' (replicate 8 (CHR 0x00)) = replicate 24 (CHR 0x00)"
    by (simp add: demo_mac_def flip: replicate_add)
  moreover have "truncate_digest (replicate 24 (CHR 0x00)) = Inr 0"
  proof -
    have "foldl (\<lambda>n b. n * 256 + b) 0 (replicate k (0::nat)) = 0" for k
      by (induction k) simp_all
    then show ?thesis
      by (simp add: truncate_digest_def Let_def)
  qed
  moreover have "zfill 6 (show_nat 0) = ''000000''"
    by code_simp
  ultimately show ?thesis
    by (simp add: hotp_def demo_totp_def)
qed

theorem totp_verify_exact_witness:
  "\<exists>r. totp_verify demo_totp ''GEZDGNBV'' ''000 000'' 1 60 (Some 1) = Inr r \<and> (r = Some 2 \<longrightarrow> hotp demo_totp ''GEZDGNBV'' 2 = Inr ''000000'')"
proof -
  have c: "totp_candidate ''000 000'' = ''000000''"
    by (simp add: totp_candidate_def py_strip_def py_lstrip_def py_rstrip_def is_space_def)
  have t: "totp_counter demo_totp 60 = Inr 2"
    by (simp add: totp_counter_def demo_totp_def)
  have "is_ascii (totp_candidate ''000 000'')"
    by (simp add: c is_ascii_def)
  from totp_verify_exact[OF demo_totp_init demo_mac_length demo_hotp0 this _ t, of 1 "Some 1"] show ?thesis
    by (auto simp: c)
qed

theorem totp_superscript_raises_witness:
  "totp_verify demo_totp ''GEZDGNBV'' (replicate 6 (CHR 0xB2)) 1 60 None = Inl Totp_Type_Error"
proof -
  have "totp_counter demo_totp 60 = Inr 2"
    by (simp add: totp_counter_def demo_totp_def)
  from totp_superscript_raises[OF demo_totp_init demo_mac_length demo_hotp0 this] show ?thesis by simp
qed

end
