(* ===== verification/Login.thy ===== *)
theory Login
  imports Rate_Limiter Totp
begin

text \<open>
  Sign-in with a password and a second factor (\<^verbatim>\<open>main.py\<close>: \<^verbatim>\<open>login\<close>, \<^verbatim>\<open>mfa_verify\<close> and their helpers).

  \<open>login_db\<close> holds the account rows, the recovery codes, the denylist of used challenges, the two rate
  limiters and the audit entries. Password hashing, the classification of the source as familiar and
  the decoding of a challenge token are arguments. \<^verbatim>\<open>mfa_verify\<close> is split where it starts to claim rows:
  between \<open>mfa_begin\<close> and \<open>mfa_commit\<close> any other request may commit. The session issued by
  \<^verbatim>\<open>finish_sign_in\<close> is the subject of another theory.
\<close>

record login_settings =
  login_max_attempts :: int
  login_window_seconds :: int
  login_lockout_seconds :: int
  mfa_max_attempts :: int
  mfa_window_seconds :: int
  mfa_lockout_attempts :: int
  mfa_lockout_max_seconds :: int

record account_row =
  ac_username :: string
  ac_password_hash :: string
  ac_active :: bool
  ac_token_version :: int
  ac_failed_login :: int
  ac_locked_until :: "time option"
  ac_mfa_enabled :: bool
  ac_mfa_secret :: "string option"
  ac_last_counter :: int
  ac_mfa_failed :: int
  ac_mfa_locked_until :: "time option"

record recovery_code =
  rc_user_id :: string
  rc_code_hash :: string
  rc_used_at :: "time option"

record login_note =
  ln_event :: string
  ln_actor :: "string option"
  ln_outcome :: string
  ln_reason :: string

record login_db =
  ld_accounts :: "(string, account_row) pydict"
  ld_codes :: "(string, recovery_code) pydict"
  ld_denied :: "string list"
  ld_login_limiter :: limiter
  ld_mfa_limiter :: limiter
  ld_audit :: "login_note list"

text \<open>\<open>Raised\<close> is an exception the handler does not catch.\<close>

datatype sign_in_result =
    Refused nat "int option"
  | Raised
  | Challenge string int
  | Signed_In string string

definition log_event :: "string \<Rightarrow> string option \<Rightarrow> string \<Rightarrow> string \<Rightarrow> login_db \<Rightarrow> login_db" where
  "log_event event actor outcome reason db =
     db\<lparr>ld_audit := ld_audit db @ [\<lparr>ln_event = event, ln_actor = actor, ln_outcome = outcome, ln_reason = reason\<rparr>]\<rparr>"

definition set_account :: "string \<Rightarrow> account_row \<Rightarrow> login_db \<Rightarrow> login_db" where
  "set_account uid u db = db\<lparr>ld_accounts := dict_set uid u (ld_accounts db)\<rparr>"

section \<open>The second factor\<close>

definition claim_mfa_account_version :: "string \<Rightarrow> int \<Rightarrow> login_db \<Rightarrow> bool" where
  "claim_mfa_account_version uid expected_version db =
     (case dict_get (ld_accounts db) uid of
        None \<Rightarrow> False
      | Some u \<Rightarrow> ac_mfa_enabled u \<and> ac_token_version u = expected_version)"

definition normalized_recovery :: "string \<Rightarrow> string" where
  "normalized_recovery candidate = filter (\<lambda>c. c \<noteq> CHR '' '') (py_lower (py_strip candidate))"

text \<open>The unused codes of the account in table order; \<open>verify\<close> is the password hasher.\<close>

fun recovery_scan ::
  "(string \<Rightarrow> string \<Rightarrow> bool) \<Rightarrow> string \<Rightarrow> string \<Rightarrow> int option \<Rightarrow> time \<Rightarrow> (string \<times> recovery_code) list \<Rightarrow> login_db \<Rightarrow> bool \<times> login_db" where
  "recovery_scan verify uid normalized expected now [] db = (False, db)"
| "recovery_scan verify uid normalized expected now ((rid, record) # rest) db =
     (if verify (rc_code_hash record) normalized then
        (if (case expected of None \<Rightarrow> False | Some v \<Rightarrow> \<not> claim_mfa_account_version uid v db) then (False, db)
         else case dict_get (ld_codes db) rid of
           Some current \<Rightarrow>
             if rc_used_at current = None
             then (True, db\<lparr>ld_codes := dict_set rid (current\<lparr>rc_used_at := Some now\<rparr>) (ld_codes db)\<rparr>)
             else recovery_scan verify uid normalized expected now rest db
         | None \<Rightarrow> recovery_scan verify uid normalized expected now rest db)
      else recovery_scan verify uid normalized expected now rest db)"

definition consume_recovery_code ::
  "(string \<Rightarrow> string \<Rightarrow> bool) \<Rightarrow> string \<Rightarrow> string \<Rightarrow> int option \<Rightarrow> time \<Rightarrow> login_db \<Rightarrow> bool \<times> login_db" where
  "consume_recovery_code verify uid candidate expected now db =
     recovery_scan verify uid (normalized_recovery candidate) expected now
       (filter (\<lambda>(_, r). rc_user_id r = uid \<and> rc_used_at r = None) (ld_codes db)) db"

definition claim_totp_counter :: "string \<Rightarrow> int \<Rightarrow> int option \<Rightarrow> login_db \<Rightarrow> bool \<times> login_db" where
  "claim_totp_counter uid counter expected db =
     (case dict_get (ld_accounts db) uid of
        None \<Rightarrow> (False, db)
      | Some u \<Rightarrow>
          if ac_mfa_enabled u \<and> ac_last_counter u < counter \<and> (case expected of None \<Rightarrow> True | Some v \<Rightarrow> ac_token_version u = v)
          then (True, set_account uid (u\<lparr>ac_last_counter := counter\<rparr>) db)
          else (False, db))"

text \<open>The length of the lock after \<open>failures\<close> consecutive wrong factors, 0 when there is none.\<close>

definition mfa_lock_seconds :: "login_settings \<Rightarrow> int \<Rightarrow> int" where
  "mfa_lock_seconds cfg failures =
     (if failures mod mfa_lockout_attempts cfg \<noteq> 0 then 0
      else min (login_lockout_seconds cfg * 2 ^ nat (min (failures div mfa_lockout_attempts cfg - 1) 16))
             (mfa_lockout_max_seconds cfg))"

text \<open>\<^verbatim>\<open>if user.mfa_failed_attempts % threshold: return 0\<close>; otherwise the account row gets its lock.\<close>

definition record_mfa_failure :: "login_settings \<Rightarrow> string \<Rightarrow> time \<Rightarrow> login_db \<Rightarrow> int option \<times> login_db" where
  "record_mfa_failure cfg uid now db =
     (case dict_get (ld_accounts db) uid of
        None \<Rightarrow> (None, db)
      | Some u \<Rightarrow>
          let failures = ac_mfa_failed u + 1;
              u1 = u\<lparr>ac_mfa_failed := failures\<rparr>
          in if failures mod mfa_lockout_attempts cfg \<noteq> 0 then (Some 0, set_account uid u1 db)
             else let lock = mfa_lock_seconds cfg failures
                  in (Some lock, set_account uid (u1\<lparr>ac_mfa_locked_until := Some (now + of_int lock)\<rparr>) db))"

section \<open>Verifying a challenge\<close>

record challenge =
  ch_sub :: string
  ch_ver :: int
  ch_jti :: string

definition mfa_key :: "string \<Rightarrow> string" where
  "mfa_key uid = ''mfa:'' @ uid"

text \<open>Up to the search for the time step. The result is a final answer, or the matched step (or none).\<close>

definition mfa_begin ::
  "login_settings \<Rightarrow> totp \<Rightarrow> challenge option \<Rightarrow> string \<Rightarrow> bool \<Rightarrow> time \<Rightarrow> time \<Rightarrow> login_db \<Rightarrow>
   (sign_in_result + int option) \<times> login_db" where
  "mfa_begin cfg totp ch code_text familiar tick now db =
     (case ch of
        None \<Rightarrow> (Inl (Refused 401 None), log_event ''auth.mfa.verify'' None ''failure'' ''bad_challenge'' db)
      | Some c \<Rightarrow>
          if ch_jti c \<in> set (ld_denied db)
          then (Inl (Refused 401 None), log_event ''auth.mfa.verify'' (Some (ch_sub c)) ''failure'' ''challenge_replayed'' db)
          else
            (case rl_allow (mfa_key (ch_sub c)) (mfa_max_attempts cfg) (mfa_window_seconds cfg) tick (ld_mfa_limiter db) of
               (Inl e, l) \<Rightarrow> (Inl Raised, db\<lparr>ld_mfa_limiter := l\<rparr>)
             | (Inr (allowed, retry), l) \<Rightarrow>
                 let db1 = db\<lparr>ld_mfa_limiter := l\<rparr>
                 in if \<not> allowed
                    then (Inl (Refused 429 (Some retry)), log_event ''auth.mfa.verify'' (Some (ch_sub c)) ''blocked'' ''rate_limit'' db1)
                    else
                      (case dict_get (ld_accounts db1) (ch_sub c) of
                         None \<Rightarrow> (Inl (Refused 401 None), log_event ''auth.mfa.verify'' (Some (ch_sub c)) ''failure'' ''account_state_changed'' db1)
                       | Some u \<Rightarrow>
                           if \<not> ac_active u \<or> ch_ver c \<noteq> ac_token_version u \<or> \<not> ac_mfa_enabled u
                           then (Inl (Refused 401 None), log_event ''auth.mfa.verify'' (Some (ch_sub c)) ''failure'' ''account_state_changed'' db1)
                           else if (case ac_mfa_locked_until u of None \<Rightarrow> False | Some t \<Rightarrow> now < t) \<and> \<not> familiar
                           then (Inl (Refused 429 (Some (\<lfloor>the (ac_mfa_locked_until u) - now\<rfloor> + 1))),
                                 log_event ''auth.mfa.verify'' (Some (ch_sub c)) ''blocked'' ''mfa_locked'' db1)
                           else
                             (case ac_mfa_secret u of
                                None \<Rightarrow> (Inl (Refused 401 None), log_event ''auth.mfa.verify'' (Some (ch_sub c)) ''failure'' ''mfa_secret_unavailable'' db1)
                              | Some secret \<Rightarrow>
                                  (case totp_verify totp secret code_text 1 now (Some (ac_last_counter u)) of
                                     Inl e \<Rightarrow> (Inl Raised, db1)
                                   | Inr matched \<Rightarrow> (Inr matched, db1))))))"

text \<open>A successful factor: reset the counters, burn the challenge, sign in. The insert into the denylist
  fails when another request has burnt the challenge since; the transaction is then rolled back to
  \<open>db0\<close>, apart from the in-memory limiter.\<close>

definition mfa_accept ::
  "string \<Rightarrow> string \<Rightarrow> challenge \<Rightarrow> login_db \<Rightarrow> login_db \<Rightarrow> sign_in_result \<times> login_db" where
  "mfa_accept uid how c db0 db =
     (case dict_get (ld_accounts db) uid of
        None \<Rightarrow> (Raised, db0)
      | Some u \<Rightarrow>
          let l = rl_reset (mfa_key uid) (ld_mfa_limiter db)
          in if ch_jti c \<in> set (ld_denied db)
             then (Refused 401 None,
                   log_event ''auth.mfa.verify'' (Some uid) ''failure'' ''challenge_replayed'' (db0\<lparr>ld_mfa_limiter := l\<rparr>))
             else (Signed_In uid how,
                   log_event ''auth.mfa.verify'' (Some uid) ''success'' how
                     ((set_account uid (u\<lparr>ac_mfa_failed := 0\<rparr>) db)\<lparr>ld_mfa_limiter := l, ld_denied := ch_jti c # ld_denied db\<rparr>)))"

definition mfa_commit ::
  "login_settings \<Rightarrow> (string \<Rightarrow> string \<Rightarrow> bool) \<Rightarrow> challenge \<Rightarrow> string \<Rightarrow> int option \<Rightarrow> bool \<Rightarrow> time \<Rightarrow> login_db \<Rightarrow>
   sign_in_result \<times> login_db" where
  "mfa_commit cfg verify c code_text matched familiar now db =
     (let uid = ch_sub c
      in case matched of
           None \<Rightarrow>
             (case consume_recovery_code verify uid code_text (Some (ch_ver c)) now db of
                (True, db1) \<Rightarrow> mfa_accept uid ''recovery_code'' c db db1
              | (False, db1) \<Rightarrow>
                  (case record_mfa_failure cfg uid now db1 of
                     (None, db2) \<Rightarrow> (Raised, db2)
                   | (Some lock, db2) \<Rightarrow>
                       (if lock \<noteq> 0 \<and> \<not> familiar then Refused 429 (Some (lock + 1)) else Refused 401 None,
                        log_event ''auth.mfa.verify'' (Some uid) (if lock \<noteq> 0 then ''blocked'' else ''failure'')
                          (if lock \<noteq> 0 then ''mfa_locked'' else ''invalid_code'') db2)))
         | Some counter \<Rightarrow>
             (case claim_totp_counter uid counter (Some (ch_ver c)) db of
                (False, db1) \<Rightarrow> (Refused 401 None, log_event ''auth.mfa.verify'' (Some uid) ''failure'' ''code_replay'' db)
              | (True, db1) \<Rightarrow> mfa_accept uid ''totp'' c db db1))"

section \<open>The password step\<close>

definition find_username :: "string \<Rightarrow> login_db \<Rightarrow> (string \<times> account_row) option" where
  "find_username name db = find (\<lambda>(_, u). ac_username u = name) (ld_accounts db)"

definition account_key :: "bool \<Rightarrow> string \<Rightarrow> string \<Rightarrow> string" where
  "account_key familiar name ip =
     (if familiar then ''login:account-familiar:'' @ name @ '':'' @ ip else ''login:account:'' @ name)"

definition ip_key :: "string \<Rightarrow> string" where
  "ip_key ip = ''login:ip:'' @ ip"

text \<open>An expired lock is cleared before the password is checked. The result says whether the lock is
  active.\<close>

definition clear_expired_lock :: "time \<Rightarrow> account_row \<Rightarrow> bool \<times> account_row" where
  "clear_expired_lock now u =
     (case ac_locked_until u of
        None \<Rightarrow> (False, u)
      | Some t \<Rightarrow> if now < t then (True, u) else (False, u\<lparr>ac_failed_login := 0, ac_locked_until := None\<rparr>))"

definition count_failure :: "login_settings \<Rightarrow> time \<Rightarrow> account_row \<Rightarrow> bool \<times> account_row" where
  "count_failure cfg now u =
     (let n = ac_failed_login u + 1
      in if n \<ge> login_max_attempts cfg
         then (True, u\<lparr>ac_failed_login := n, ac_locked_until := Some (now + of_int (login_lockout_seconds cfg))\<rparr>)
         else (False, u\<lparr>ac_failed_login := n\<rparr>))"

text \<open>The decision on a known account, under its row lock. \<open>verify h p\<close> and \<open>rehash h p\<close> (the new hash when
  \<^verbatim>\<open>needs_rehash\<close>) are the password service; \<open>key\<close> is the limiter key of the account.\<close>

definition login_user ::
  "login_settings \<Rightarrow> (string \<Rightarrow> string \<Rightarrow> bool) \<Rightarrow> (string \<Rightarrow> string \<Rightarrow> string option) \<Rightarrow> string \<Rightarrow> account_row \<Rightarrow> string \<Rightarrow>
   string \<Rightarrow> string \<Rightarrow> bool \<Rightarrow> time \<Rightarrow> login_db \<Rightarrow> sign_in_result \<times> login_db" where
  "login_user cfg verify rehash uid u0 key password ip familiar now db =
     (let (lock_active, u) = clear_expired_lock now u0;
          locked = (lock_active \<and> \<not> familiar)
      in if \<not> (ac_active u \<and> \<not> locked \<and> verify (ac_password_hash u) password)
         then (let (now_locked, u') = (if ac_active u \<and> \<not> locked then count_failure cfg now u else (False, u))
               in (Refused 401 None,
                   log_event ''auth.login'' (Some uid) (if locked \<or> now_locked then ''blocked'' else ''failure'')
                     (if locked \<or> now_locked then ''account_locked'' else ''invalid_credentials'')
                     (set_account uid u' db)))
         else
           let u1 = (case rehash (ac_password_hash u) password of None \<Rightarrow> u | Some h \<Rightarrow> u\<lparr>ac_password_hash := h\<rparr>);
               u2 = (if lock_active then u1 else u1\<lparr>ac_failed_login := 0, ac_locked_until := None\<rparr>);
               db2 = (set_account uid u2 db)\<lparr>ld_login_limiter := rl_refund (ip_key ip) (rl_reset key (ld_login_limiter db))\<rparr>
           in if ac_mfa_enabled u2
              then (Challenge uid (ac_token_version u2), log_event ''auth.mfa.challenge'' (Some uid) ''success'' [] db2)
              else (Signed_In uid ''password'', log_event ''auth.login'' (Some uid) ''success'' [] db2))"

definition login ::
  "login_settings \<Rightarrow> (string \<Rightarrow> string \<Rightarrow> bool) \<Rightarrow> (string \<Rightarrow> string \<Rightarrow> string option) \<Rightarrow> string \<Rightarrow> string \<Rightarrow> string \<Rightarrow> bool \<Rightarrow>
   time \<Rightarrow> time \<Rightarrow> login_db \<Rightarrow> sign_in_result \<times> login_db" where
  "login cfg verify rehash username password ip familiar tick now db =
     (let name = py_lower (py_strip username);
          key = account_key familiar name ip;
          span = (if familiar then max (login_window_seconds cfg) (login_lockout_seconds cfg) else login_window_seconds cfg)
      in case rl_allow key (login_max_attempts cfg) span tick (ld_login_limiter db) of
           (Inl e, l1) \<Rightarrow> (Raised, db\<lparr>ld_login_limiter := l1\<rparr>)
         | (Inr (ok1, retry1), l1) \<Rightarrow>
        (case rl_allow (ip_key ip) (login_max_attempts cfg) (login_window_seconds cfg) tick l1 of
           (Inl e, l2) \<Rightarrow> (Raised, db\<lparr>ld_login_limiter := l2\<rparr>)
         | (Inr (ok2, retry2), l2) \<Rightarrow>
             let db1 = db\<lparr>ld_login_limiter := l2\<rparr>
             in if \<not> (ok1 \<and> ok2)
                then (Refused 429 (Some (if \<not> ok1 \<and> \<not> ok2 then max retry1 retry2 else if \<not> ok1 then retry1 else retry2)),
                      log_event ''auth.login'' None ''blocked'' ''rate_limit'' db1)
                else case find_username name db1 of
                  None \<Rightarrow> (Refused 401 None, log_event ''auth.login'' None ''failure'' ''invalid_credentials'' db1)
                | Some (uid, u) \<Rightarrow> login_user cfg verify rehash uid u key password ip familiar now db1))"

section \<open>One-time factors are used once\<close>

lemma set_account_simps [simp]:
  "ld_codes (set_account uid u db) = ld_codes db" "ld_denied (set_account uid u db) = ld_denied db"
  "dict_get (ld_accounts (set_account uid u db)) k = (if k = uid then Some u else dict_get (ld_accounts db) k)"
  by (simp_all add: set_account_def)

lemma log_event_simps [simp]:
  "ld_codes (log_event a b c d db) = ld_codes db" "ld_denied (log_event a b c d db) = ld_denied db"
  "ld_accounts (log_event a b c d db) = ld_accounts db"
  by (simp_all add: log_event_def)

text \<open>What a request leaves behind: the replay floor of an account does not fall, a used recovery code
  stays used, a burnt challenge stays burnt.\<close>

definition moves_on :: "login_db \<Rightarrow> login_db \<Rightarrow> bool" where
  "moves_on db db' \<longleftrightarrow>
     (\<forall>uid u. dict_get (ld_accounts db) uid = Some u \<longrightarrow>
        (\<exists>v. dict_get (ld_accounts db') uid = Some v \<and> ac_last_counter u \<le> ac_last_counter v)) \<and>
     (\<forall>rid r. dict_get (ld_codes db) rid = Some r \<and> rc_used_at r \<noteq> None \<longrightarrow>
        (\<exists>q. dict_get (ld_codes db') rid = Some q \<and> rc_used_at q \<noteq> None)) \<and>
     set (ld_denied db) \<subseteq> set (ld_denied db')"

lemma moves_on_refl: "moves_on db db"
  by (auto simp: moves_on_def)

lemma moves_on_trans: "moves_on a b \<Longrightarrow> moves_on b c \<Longrightarrow> moves_on a c"
  unfolding moves_on_def by (meson order_trans subset_trans)

lemma moves_on_same:
  "ld_accounts db' = ld_accounts db \<Longrightarrow> ld_codes db' = ld_codes db \<Longrightarrow> ld_denied db' = ld_denied db \<Longrightarrow> moves_on db db'"
  by (auto simp: moves_on_def)

lemma moves_on_account:
  assumes "dict_get (ld_accounts db) uid = Some u" "ac_last_counter u \<le> ac_last_counter v"
  shows "moves_on db (set_account uid v db)"
  using assms by (auto simp: moves_on_def)

lemma recovery_scan_state:
  assumes "recovery_scan verify uid nm ex now rs db = (b, db')"
  shows "if b then \<exists>rid r. dict_get (ld_codes db) rid = Some r \<and> rc_used_at r = None \<and>
             db' = db\<lparr>ld_codes := dict_set rid (r\<lparr>rc_used_at := Some now\<rparr>) (ld_codes db)\<rparr>
         else db' = db"
  using assms
  by (induction verify uid nm ex now rs db rule: recovery_scan.induct) (auto split: if_splits option.splits)

lemma mfa_begin_state:
  assumes "mfa_begin cfg totp ch v familiar tick now db = (res, db')"
  shows "ld_accounts db' = ld_accounts db \<and> ld_codes db' = ld_codes db \<and> ld_denied db' = ld_denied db"
  using assms
  by (cases ch) (auto simp: mfa_begin_def Let_def split: if_splits prod.splits sum.splits option.splits)

lemma clear_expired_lock_counter: "ac_last_counter (snd (clear_expired_lock now u)) = ac_last_counter u"
  by (simp add: clear_expired_lock_def split: option.split)

lemma count_failure_counter: "ac_last_counter (snd (count_failure cfg now u)) = ac_last_counter u"
  by (simp add: count_failure_def Let_def)

lemma find_username_account:
  assumes "find_username name db = Some (uid, u)" "dict_ok (ld_accounts db)"
  shows "dict_get (ld_accounts db) uid = Some u"
  using assms by (auto simp: find_username_def find_Some_iff dict_get_mem set_conv_nth)

lemma login_user_state:
  assumes "login_user cfg verify rehash uid u key pw ip familiar now db = (res, db')"
  shows "ld_codes db' = ld_codes db \<and> ld_denied db' = ld_denied db \<and>
         (\<exists>v. ac_last_counter v = ac_last_counter u \<and> ld_accounts db' = dict_set uid v (ld_accounts db))"
proof -
  obtain b w where c: "clear_expired_lock now u = (b, w)" by (metis surj_pair)
  have w: "ac_last_counter w = ac_last_counter u"
    using clear_expired_lock_counter[of now u] c by simp
  obtain f x where f: "count_failure cfg now w = (f, x)" by (metis surj_pair)
  have x: "ac_last_counter x = ac_last_counter u"
    using count_failure_counter[of cfg now w] f w by simp
  have pick: "dict_set uid y d = dict_set uid y d \<and> ac_last_counter y = ac_last_counter u \<Longrightarrow>
      \<exists>v. ac_last_counter v = ac_last_counter u \<and> dict_set uid y d = dict_set uid v d" for y and d
    by blast
  show ?thesis
    using assms w x
    by (auto simp: login_user_def c f Let_def set_account_def split: if_splits option.splits intro!: pick)
qed

lemma login_cases:
  assumes "login cfg verify rehash name pw ip familiar tick now db = (res, db')"
  obtains "ld_accounts db' = ld_accounts db" "ld_codes db' = ld_codes db" "ld_denied db' = ld_denied db"
  | uid u key l where "find_username (py_lower (py_strip name)) db = Some (uid, u)"
      "login_user cfg verify rehash uid u key pw ip familiar now (db\<lparr>ld_login_limiter := l\<rparr>) = (res, db')"
proof -
  have fu: "find_username nm (db\<lparr>ld_login_limiter := l\<rparr>) = find_username nm db" for nm l
    by (simp add: find_username_def)
  show thesis
    using assms that unfolding login_def Let_def
    by (auto simp: fu split: prod.splits sum.splits if_splits option.splits)
qed

lemma login_moves:
  assumes "login cfg verify rehash name pw ip familiar tick now db = (res, db')" "dict_ok (ld_accounts db)"
  shows "moves_on db db' \<and> ld_codes db' = ld_codes db \<and> dict_ok (ld_accounts db')"
  using assms(1)
proof (cases rule: login_cases)
  case 1
  then show ?thesis using moves_on_same assms(2) by simp
next
  case (2 uid u key l)
  obtain v where "ld_codes db' = ld_codes db" "ld_denied db' = ld_denied db" "ac_last_counter v = ac_last_counter u"
    "ld_accounts db' = dict_set uid v (ld_accounts db)"
    using login_user_state[OF 2(2)] by auto
  then show ?thesis
    using find_username_account[OF 2(1) assms(2)] assms(2) by (auto simp: moves_on_def)
qed

section \<open>Interleaved sign-ins\<close>

definition unused_codes :: "login_db \<Rightarrow> nat" where
  "unused_codes db = length (filter (\<lambda>(_, r). rc_used_at r = None) (ld_codes db))"

lemma burn_code_count:
  assumes "dict_ok d" "dict_get d k = Some r" "rc_used_at r = None" "rc_used_at q \<noteq> None"
  shows "length (filter (\<lambda>(_, r). rc_used_at r = None) d) =
         Suc (length (filter (\<lambda>(_, r). rc_used_at r = None) (dict_set k q d)))"
  using assms by (induction d) (auto simp: dict_get_Cons dict_ok_def split: if_splits)

lemma record_mfa_failure_state:
  assumes "record_mfa_failure cfg uid now db = (x, db')"
  shows "ld_codes db' = ld_codes db \<and> ld_denied db' = ld_denied db \<and> moves_on db db'"
  using assms
  by (auto simp: record_mfa_failure_def Let_def moves_on_refl split: option.splits if_splits intro!: moves_on_account)

lemma record_mfa_failure_ok:
  assumes "record_mfa_failure cfg uid now db = (x, db')" "dict_ok (ld_accounts db)"
  shows "dict_ok (ld_accounts db')"
  using assms by (auto simp: record_mfa_failure_def Let_def set_account_def split: option.splits if_splits)

lemma claim_totp_counter_state:
  assumes "claim_totp_counter uid k ex db = (b, db')"
  shows "if b then \<exists>u. dict_get (ld_accounts db) uid = Some u \<and> ac_last_counter u < k \<and>
             db' = set_account uid (u\<lparr>ac_last_counter := k\<rparr>) db
         else db' = db"
  using assms by (auto simp: claim_totp_counter_def split: option.splits if_splits)

lemma mfa_accept_cases:
  assumes "mfa_accept uid how c db0 db = (res, db')"
  obtains (refused) "\<And>n m. res \<noteq> Signed_In n m" "ld_accounts db' = ld_accounts db0" "ld_codes db' = ld_codes db0"
      "ld_denied db' = ld_denied db0"
  | (signed) u where "res = Signed_In uid how" "dict_get (ld_accounts db) uid = Some u"
      "ld_accounts db' = dict_set uid (u\<lparr>ac_mfa_failed := 0\<rparr>) (ld_accounts db)" "ld_codes db' = ld_codes db"
      "ch_jti c \<notin> set (ld_denied db)" "ld_denied db' = ch_jti c # ld_denied db"
  using assms by (auto simp: mfa_accept_def Let_def set_account_def split: option.splits if_splits)

text \<open>The four ways a second-factor request ends.\<close>

lemma mfa_commit_cases:
  assumes "mfa_commit cfg verify c v matched familiar now db = (res, db')"
  obtains (refused) "\<And>n m. res \<noteq> Signed_In n m" "ld_codes db' = ld_codes db" "ld_denied db' = ld_denied db"
      "moves_on db db'" "dict_ok (ld_accounts db) \<Longrightarrow> dict_ok (ld_accounts db')"
  | (recovery) rid r u where "matched = None" "res = Signed_In (ch_sub c) ''recovery_code''"
      "dict_get (ld_codes db) rid = Some r" "rc_used_at r = None"
      "ld_codes db' = dict_set rid (r\<lparr>rc_used_at := Some now\<rparr>) (ld_codes db)"
      "dict_get (ld_accounts db) (ch_sub c) = Some u"
      "ld_accounts db' = dict_set (ch_sub c) (u\<lparr>ac_mfa_failed := 0\<rparr>) (ld_accounts db)"
      "ch_jti c \<notin> set (ld_denied db)" "ld_denied db' = ch_jti c # ld_denied db"
  | (totp) k u v where "matched = Some k" "res = Signed_In (ch_sub c) ''totp''" "ld_codes db' = ld_codes db"
      "dict_get (ld_accounts db) (ch_sub c) = Some u" "ac_last_counter u < k" "ac_last_counter v = k"
      "ld_accounts db' = dict_set (ch_sub c) v (dict_set (ch_sub c) (u\<lparr>ac_last_counter := k\<rparr>) (ld_accounts db))"
      "ch_jti c \<notin> set (ld_denied db)" "ld_denied db' = ch_jti c # ld_denied db"
proof (cases matched)
  case None
  obtain b db1 where sc: "consume_recovery_code verify (ch_sub c) v (Some (ch_ver c)) now db = (b, db1)"
    by (metis surj_pair)
  show thesis
  proof (cases b)
    case True
    then obtain rid r where r: "dict_get (ld_codes db) rid = Some r" "rc_used_at r = None"
        "db1 = db\<lparr>ld_codes := dict_set rid (r\<lparr>rc_used_at := Some now\<rparr>) (ld_codes db)\<rparr>"
      using recovery_scan_state[OF sc[unfolded consume_recovery_code_def]] by auto
    have "mfa_accept (ch_sub c) ''recovery_code'' c db db1 = (res, db')"
      using assms sc True None by (simp add: mfa_commit_def Let_def)
    then show thesis
    proof (cases rule: mfa_accept_cases)
      case refused
      then show thesis using that(1) moves_on_same[OF refused(2-4)] by simp
    next
      case (signed u)
      then show thesis using that(2)[OF None signed(1) r(1,2), of u] r(3) by simp
    qed
  next
    case False
    then have "db1 = db"
      using recovery_scan_state[OF sc[unfolded consume_recovery_code_def]] by simp
    moreover obtain x db2 where f: "record_mfa_failure cfg (ch_sub c) now db = (x, db2)" by (metis surj_pair)
    ultimately have "db' = db2 \<or> (\<exists>p q s t. db' = log_event p q s t db2)" "\<And>n m. res \<noteq> Signed_In n m"
      using assms sc False None by (auto simp: mfa_commit_def Let_def split: option.splits if_splits)
    then show thesis
      using that(1) record_mfa_failure_state[OF f] record_mfa_failure_ok[OF f] by (auto simp: moves_on_def)
  qed
next
  case (Some k)
  obtain b db1 where cl: "claim_totp_counter (ch_sub c) k (Some (ch_ver c)) db = (b, db1)" by (metis surj_pair)
  show thesis
  proof (cases b)
    case True
    then obtain u where u: "dict_get (ld_accounts db) (ch_sub c) = Some u" "ac_last_counter u < k"
        "db1 = set_account (ch_sub c) (u\<lparr>ac_last_counter := k\<rparr>) db"
      using claim_totp_counter_state[OF cl] by auto
    have "mfa_accept (ch_sub c) ''totp'' c db db1 = (res, db')"
      using assms cl True Some by (simp add: mfa_commit_def Let_def)
    then show thesis
    proof (cases rule: mfa_accept_cases)
      case refused
      then show thesis using that(1) moves_on_same[OF refused(2-4)] by simp
    next
      case (signed w)
      have w: "ac_last_counter w = k" using signed(2) u(3) by auto
      show thesis
        using that(3)[OF Some signed(1) _ u(1,2), of "w\<lparr>ac_mfa_failed := 0\<rparr>"] u(3) signed w
        by (simp add: set_account_def)
    qed
  next
    case False
    then show thesis
      using assms cl Some that(1) moves_on_same[of db' db] by (auto simp: mfa_commit_def Let_def)
  qed
qed

record acceptance =
  at_jti :: string
  at_user :: string
  at_step :: "int option"

text \<open>The requests of any number of clients, each transaction atomic: password steps, first halves and
  second halves of \<^verbatim>\<open>mfa_verify\<close>. The time step and the challenge handed to a second half are arbitrary,
  which covers every first half that computed them earlier. The trace lists the accepted second factors.\<close>

inductive mfa_run :: "login_settings \<Rightarrow> login_db \<Rightarrow> acceptance list \<Rightarrow> login_db \<Rightarrow> bool" for cfg db0 where
  start: "mfa_run cfg db0 [] db0"
| password: "mfa_run cfg db0 tr db \<Longrightarrow> login cfg verify rehash name pw ip familiar tick now db = (res, db') \<Longrightarrow>
    mfa_run cfg db0 tr db'"
| first_half: "mfa_run cfg db0 tr db \<Longrightarrow> mfa_begin cfg totp ch v familiar tick now db = (r, db') \<Longrightarrow>
    mfa_run cfg db0 tr db'"
| second_half: "mfa_run cfg db0 tr db \<Longrightarrow> mfa_commit cfg verify c v matched familiar now db = (res, db') \<Longrightarrow>
    mfa_run cfg db0
      (case res of
         Signed_In uid how \<Rightarrow> tr @ [\<lparr>at_jti = ch_jti c, at_user = uid, at_step = matched\<rparr>]
       | _ \<Rightarrow> tr) db'"

definition steps_of :: "string \<Rightarrow> acceptance list \<Rightarrow> int list" where
  "steps_of uid tr = map (\<lambda>a. the (at_step a)) (filter (\<lambda>a. at_user a = uid \<and> at_step a \<noteq> None) tr)"

definition recoveries :: "acceptance list \<Rightarrow> nat" where
  "recoveries tr = length (filter (\<lambda>a. at_step a = None) tr)"

text \<open>Every accepted challenge is burnt, every accepted step is at or below the floor of its account, and
  every accepted recovery code has been taken from the unused ones.\<close>

definition run_inv :: "login_db \<Rightarrow> acceptance list \<Rightarrow> login_db \<Rightarrow> bool" where
  "run_inv db0 tr db \<longleftrightarrow>
     dict_ok (ld_accounts db) \<and> dict_ok (ld_codes db) \<and>
     distinct (map at_jti tr) \<and> at_jti ` set tr \<subseteq> set (ld_denied db) \<and>
     (\<forall>uid. sorted_wrt (<) (steps_of uid tr)) \<and>
     (\<forall>uid k. k \<in> set (steps_of uid tr) \<longrightarrow>
        (\<exists>u. dict_get (ld_accounts db) uid = Some u \<and> k \<le> ac_last_counter u)) \<and>
     recoveries tr + unused_codes db = unused_codes db0"

lemma run_invI:
  assumes "dict_ok (ld_accounts db)" "dict_ok (ld_codes db)" "distinct (map at_jti tr)"
    "at_jti ` set tr \<subseteq> set (ld_denied db)" "\<And>uid. sorted_wrt (<) (steps_of uid tr)"
    "\<And>uid k. k \<in> set (steps_of uid tr) \<Longrightarrow> \<exists>u. dict_get (ld_accounts db) uid = Some u \<and> k \<le> ac_last_counter u"
    "recoveries tr + unused_codes db = unused_codes db0"
  shows "run_inv db0 tr db"
  using assms unfolding run_inv_def by blast

lemma run_invD:
  assumes "run_inv db0 tr db"
  shows "dict_ok (ld_accounts db)" "dict_ok (ld_codes db)" "distinct (map at_jti tr)"
    "at_jti ` set tr \<subseteq> set (ld_denied db)" "sorted_wrt (<) (steps_of uid tr)"
    "k \<in> set (steps_of uid tr) \<Longrightarrow> \<exists>u. dict_get (ld_accounts db) uid = Some u \<and> k \<le> ac_last_counter u"
    "recoveries tr + unused_codes db = unused_codes db0"
  using assms unfolding run_inv_def by blast+

lemma steps_of_app:
  "steps_of uid (tr @ [a]) =
     steps_of uid tr @ (if at_user a = uid then (case at_step a of None \<Rightarrow> [] | Some k \<Rightarrow> [k]) else [])"
  by (auto simp: steps_of_def split: option.split)

lemma recoveries_app: "recoveries (tr @ [a]) = recoveries tr + (if at_step a = None then 1 else 0)"
  by (simp add: recoveries_def)

lemma moves_on_accountD:
  "moves_on db db' \<Longrightarrow> (\<exists>u. dict_get (ld_accounts db) uid = Some u \<and> k \<le> ac_last_counter u) \<Longrightarrow>
   \<exists>u. dict_get (ld_accounts db') uid = Some u \<and> k \<le> ac_last_counter u"
  unfolding moves_on_def by (meson order_trans)

lemma run_inv_moves:
  assumes inv: "run_inv db0 tr db" and "moves_on db db'" "ld_codes db' = ld_codes db" "dict_ok (ld_accounts db')"
  shows "run_inv db0 tr db'"
proof -
  have "set (ld_denied db) \<subseteq> set (ld_denied db')" using assms(2) by (simp add: moves_on_def)
  then show ?thesis
    using assms(3,4) run_invD[OF inv]
    by (intro run_invI moves_on_accountD[OF assms(2)]) (auto simp: unused_codes_def)
qed

lemma accepted_jti:
  assumes "run_inv db0 tr db" "j \<notin> set (ld_denied db)" "ld_denied db' = j # ld_denied db" "at_jti a = j"
  shows "distinct (map at_jti (tr @ [a]))" "at_jti ` set (tr @ [a]) \<subseteq> set (ld_denied db')"
  using run_invD(3,4)[OF assms(1)] assms(2-4) by auto

lemma run_inv_recovery:
  assumes inv: "run_inv db0 tr db"
    and r: "dict_get (ld_codes db) rid = Some r" "rc_used_at r = None"
      "ld_codes db' = dict_set rid (r\<lparr>rc_used_at := Some now\<rparr>) (ld_codes db)"
    and u: "dict_get (ld_accounts db) uid = Some u" "ld_accounts db' = dict_set uid (u\<lparr>ac_mfa_failed := 0\<rparr>) (ld_accounts db)"
    and j: "j \<notin> set (ld_denied db)" "ld_denied db' = j # ld_denied db"
  shows "run_inv db0 (tr @ [\<lparr>at_jti = j, at_user = uid, at_step = None\<rparr>]) db'"
proof -
  have n: "unused_codes db = Suc (unused_codes db')"
    unfolding unused_codes_def r(3) by (rule burn_code_count[OF run_invD(2)[OF inv] r(1,2)]) simp
  have s: "steps_of w (tr @ [\<lparr>at_jti = j, at_user = uid, at_step = None\<rparr>]) = steps_of w tr" for w
    by (simp add: steps_of_app)
  have floor: "\<exists>v. dict_get (ld_accounts db') w = Some v \<and> k \<le> ac_last_counter v" if "k \<in> set (steps_of w tr)" for w k
    using run_invD(6)[OF inv that] u by (cases "w = uid") auto
  show ?thesis
    using run_invD(1,2,5,7)[OF inv] n floor r(3) u(2) s
    by (intro run_invI accepted_jti[OF inv j]) (simp_all add: recoveries_app)
qed

lemma run_inv_totp:
  assumes inv: "run_inv db0 tr db" and cd: "ld_codes db' = ld_codes db"
    and u: "dict_get (ld_accounts db) uid = Some u" "ac_last_counter u < k" "ac_last_counter v = k"
      "ld_accounts db' = dict_set uid v (dict_set uid w (ld_accounts db))"
    and j: "j \<notin> set (ld_denied db)" "ld_denied db' = j # ld_denied db"
  shows "run_inv db0 (tr @ [\<lparr>at_jti = j, at_user = uid, at_step = Some k\<rparr>]) db'"
proof -
  have old: "i < k" if "i \<in> set (steps_of uid tr)" for i
    using run_invD(6)[OF inv that] u(1,2) by auto
  have s: "steps_of x (tr @ [\<lparr>at_jti = j, at_user = uid, at_step = Some k\<rparr>]) =
      steps_of x tr @ (if x = uid then [k] else [])" for x
    by (simp add: steps_of_app)
  have floor: "\<exists>a. dict_get (ld_accounts db') x = Some a \<and> i \<le> ac_last_counter a"
    if "i \<in> set (steps_of x tr @ (if x = uid then [k] else []))" for x i
  proof (cases "x = uid")
    case True
    then show ?thesis using old that u(3,4) by (auto simp: less_imp_le)
  next
    case False
    then show ?thesis using run_invD(6)[OF inv, of i x] that u(4) by simp
  qed
  have "sorted_wrt (<) (steps_of x tr @ (if x = uid then [k] else []))" for x
    using run_invD(5)[OF inv, of x] old by (auto simp: sorted_wrt_append)
  then show ?thesis
    using run_invD(1,2,7)[OF inv] floor u(4) cd s
    by (intro run_invI accepted_jti[OF inv j]) (simp_all add: recoveries_app unused_codes_def)
qed

lemma mfa_run_inv:
  assumes "mfa_run cfg db0 tr db" "dict_ok (ld_accounts db0)" "dict_ok (ld_codes db0)"
  shows "run_inv db0 tr db"
  using assms(1)
proof induction
  case start
  then show ?case using assms by (simp add: run_inv_def steps_of_def recoveries_def)
next
  case (password tr db verify rehash name pw ip familiar tick now res db')
  then show ?case
    using run_inv_moves[OF password.IH] login_moves[OF password.hyps(2) run_invD(1)[OF password.IH]] by blast
next
  case (first_half tr db totp ch v familiar tick now r db')
  then show ?case
    using mfa_begin_state[OF first_half.hyps(2)] run_inv_moves[OF first_half.IH moves_on_same] run_invD(1)[OF first_half.IH]
    by simp
next
  case (second_half tr db verify c v matched familiar now res db')
  show ?case
    using second_half.hyps(2)
  proof (cases rule: mfa_commit_cases)
    case refused
    have keep: "run_inv db0 tr db'"
      by (rule run_inv_moves[OF second_half.IH refused(4,2) refused(5)[OF run_invD(1)[OF second_half.IH]]])
    show ?thesis
    proof (cases res)
      case (Signed_In a b)
      then show ?thesis using refused(1)[of a b] by simp
    qed (simp_all add: keep)
  next
    case (recovery rid r u)
    then show ?thesis using run_inv_recovery[OF second_half.IH recovery(3-9)] by simp
  next
    case (totp k u w)
    then show ?thesis using run_inv_totp[OF second_half.IH totp(3-9)] by simp
  qed
qed

text \<open>C7: Whatever password steps and second-factor requests are interleaved, a challenge signs in at most
  once, the accepted time steps of an account strictly increase, and the number of sign-ins by recovery code
  is exactly the number of codes that have been burnt.\<close>

theorem second_factor_once:
  assumes "dict_ok (ld_accounts db0)" "dict_ok (ld_codes db0)" "mfa_run cfg db0 tr db"
  shows "distinct (map at_jti tr) \<and> (\<forall>uid. sorted_wrt (<) (steps_of uid tr)) \<and>
         recoveries tr + unused_codes db = unused_codes db0"
  using run_invD(3,5,7)[OF mfa_run_inv[OF assms(3,1,2)]] by simp_all

definition demo_account :: account_row where
  "demo_account = \<lparr>ac_username = ''ana'', ac_password_hash = ''pw'', ac_active = True, ac_token_version = 3,
     ac_failed_login = 0, ac_locked_until = None, ac_mfa_enabled = True, ac_mfa_secret = Some ''s'',
     ac_last_counter = 0, ac_mfa_failed = 0, ac_mfa_locked_until = None\<rparr>"

definition demo_login_db :: login_db where
  "demo_login_db = \<lparr>ld_accounts = [(''u1'', demo_account)],
     ld_codes = [(''r1'', \<lparr>rc_user_id = ''u1'', rc_code_hash = ''abc'', rc_used_at = None\<rparr>)],
     ld_denied = [], ld_login_limiter = demo_limiter, ld_mfa_limiter = demo_limiter, ld_audit = []\<rparr>"

definition demo_login_cfg :: login_settings where
  "demo_login_cfg = \<lparr>login_max_attempts = 5, login_window_seconds = 300, login_lockout_seconds = 900, mfa_max_attempts = 5,
     mfa_window_seconds = 300, mfa_lockout_attempts = 10, mfa_lockout_max_seconds = 86400\<rparr>"

definition demo_challenge :: "string \<Rightarrow> challenge" where
  "demo_challenge j = \<lparr>ch_sub = ''u1'', ch_ver = 3, ch_jti = j\<rparr>"

definition demo_after_totp :: login_db where
  "demo_after_totp = snd (mfa_commit demo_login_cfg (\<lambda>h p. h = p) (demo_challenge ''j1'') ''x'' (Some 5) False 9 demo_login_db)"

definition demo_after_code :: login_db where
  "demo_after_code = snd (mfa_commit demo_login_cfg (\<lambda>h p. h = p) (demo_challenge ''j2'') '' A B C '' None False 9 demo_after_totp)"

lemma demo_totp_run:
  "mfa_run demo_login_cfg demo_login_db [\<lparr>at_jti = ''j1'', at_user = ''u1'', at_step = Some 5\<rparr>] demo_after_totp"
proof -
  have "mfa_commit demo_login_cfg (\<lambda>h p. h = p) (demo_challenge ''j1'') ''x'' (Some 5) False 9 demo_login_db =
      (Signed_In ''u1'' ''totp'', demo_after_totp)"
    by code_simp
  from mfa_run.second_half[OF mfa_run.start this] show ?thesis by (simp add: demo_challenge_def)
qed

lemma demo_code_run:
  "mfa_run demo_login_cfg demo_login_db
     [\<lparr>at_jti = ''j1'', at_user = ''u1'', at_step = Some 5\<rparr>, \<lparr>at_jti = ''j2'', at_user = ''u1'', at_step = None\<rparr>]
     demo_after_code"
proof -
  have "mfa_commit demo_login_cfg (\<lambda>h p. h = p) (demo_challenge ''j2'') '' A B C '' None False 9 demo_after_totp =
      (Signed_In ''u1'' ''recovery_code'', demo_after_code)"
    by code_simp
  from mfa_run.second_half[OF demo_totp_run this] show ?thesis by (simp add: demo_challenge_def)
qed

theorem second_factor_once_witness:
  "unused_codes demo_after_code = 0 \<and> unused_codes demo_login_db = 1"
proof -
  have "1 + unused_codes demo_after_code = unused_codes demo_login_db"
    using second_factor_once[OF _ _ demo_code_run]
    by (simp add: recoveries_def demo_login_db_def dict_ok_def)
  moreover have "unused_codes demo_login_db = 1" by code_simp
  ultimately show ?thesis by simp
qed

section \<open>Locks\<close>

lemma mfa_lock_seconds_range:
  assumes "0 \<le> login_lockout_seconds cfg" "0 \<le> mfa_lockout_max_seconds cfg"
  shows "0 \<le> mfa_lock_seconds cfg n" "mfa_lock_seconds cfg n \<le> mfa_lockout_max_seconds cfg"
  using assms by (auto simp: mfa_lock_seconds_def min_def)

lemma mfa_lock_seconds_doubles:
  assumes "0 < mfa_lockout_attempts cfg" "1 \<le> k" "k \<le> 17"
  shows "mfa_lock_seconds cfg (mfa_lockout_attempts cfg * k) =
         min (login_lockout_seconds cfg * 2 ^ nat (k - 1)) (mfa_lockout_max_seconds cfg)"
  using assms by (simp add: mfa_lock_seconds_def min_def)

text \<open>\<open>n\<close> wrong factors in a row.\<close>

fun mfa_failures :: "login_settings \<Rightarrow> string \<Rightarrow> time list \<Rightarrow> login_db \<Rightarrow> login_db" where
  "mfa_failures cfg uid [] db = db"
| "mfa_failures cfg uid (t # ts) db = mfa_failures cfg uid ts (snd (record_mfa_failure cfg uid t db))"

lemma mfa_failures_app: "mfa_failures cfg uid (ts @ us) db = mfa_failures cfg uid us (mfa_failures cfg uid ts db)"
  by (induction ts arbitrary: db) simp_all

lemma mfa_failures_count:
  "dict_get (ld_accounts db) uid = Some u \<Longrightarrow>
   \<exists>v. dict_get (ld_accounts (mfa_failures cfg uid ts db)) uid = Some v \<and> ac_mfa_failed v = ac_mfa_failed u + int (length ts)"
proof (induction ts arbitrary: db u)
  case Nil
  then show ?case by simp
next
  case (Cons t ts)
  obtain w where w: "dict_get (ld_accounts (snd (record_mfa_failure cfg uid t db))) uid = Some w"
      "ac_mfa_failed w = ac_mfa_failed u + 1"
    using Cons.prems by (cases "(ac_mfa_failed u + 1) mod mfa_lockout_attempts cfg = 0") (auto simp: record_mfa_failure_def Let_def)
  show ?case using Cons.IH[OF w(1)] w(2) by auto
qed

text \<open>Starting from a clean account, the wrong second factor that completes the \<open>k\<close>-th run of
  \<^verbatim>\<open>mfa_lockout_attempts\<close> locks the account for the base lock doubled \<open>k - 1\<close> times (at most 16 times), never
  longer than the maximum; nothing in between lifts the count.\<close>

theorem mfa_lock_escalates:
  assumes "dict_get (ld_accounts db) uid = Some u" "ac_mfa_failed u = 0" "0 < mfa_lockout_attempts cfg" "1 \<le> k" "k \<le> 17"
    "int (length ts) + 1 = mfa_lockout_attempts cfg * k"
    "lock = min (login_lockout_seconds cfg * 2 ^ nat (k - 1)) (mfa_lockout_max_seconds cfg)"
  shows "fst (record_mfa_failure cfg uid now (mfa_failures cfg uid ts db)) = Some lock \<and>
         (\<exists>v. dict_get (ld_accounts (mfa_failures cfg uid (ts @ [now]) db)) uid = Some v \<and>
            ac_mfa_locked_until v = Some (now + of_int lock))"
proof -
  obtain v where v: "dict_get (ld_accounts (mfa_failures cfg uid ts db)) uid = Some v" "ac_mfa_failed v = int (length ts)"
    using mfa_failures_count[OF assms(1), of cfg ts] assms(2) by auto
  have n: "ac_mfa_failed v + 1 = mfa_lockout_attempts cfg * k" using v(2) assms(6) by simp
  have l: "mfa_lock_seconds cfg (mfa_lockout_attempts cfg * k) = lock"
    using mfa_lock_seconds_doubles[OF assms(3-5)] assms(7) by simp
  show ?thesis
    using v(1) n l by (simp add: record_mfa_failure_def mfa_failures_app Let_def)
qed

theorem mfa_lock_escalates_witness:
  "fst (record_mfa_failure demo_login_cfg ''u1'' 50 (mfa_failures demo_login_cfg ''u1'' (replicate 19 7) demo_login_db)) = Some 1800"
  by (rule mfa_lock_escalates[where k = 2 and u = demo_account, THEN conjunct1])
    (simp_all add: demo_login_cfg_def demo_login_db_def demo_account_def dict_get_Cons)

text \<open>C30: While an account is locked, a source that has never signed in to it learns nothing: the answer and
  everything the request leaves behind are the same for every password, it is never a challenge or a session,
  and the lock is still in place.\<close>

theorem locked_login_oblivious:
  assumes "dict_ok (ld_accounts db)" "find_username (py_lower (py_strip name)) db = Some (uid, u)"
    "ac_locked_until u = Some t" "now < t"
  shows "login cfg verify rehash name pw ip False tick now db = login cfg verify rehash name pw' ip False tick now db \<and>
     fst (login cfg verify rehash name pw ip False tick now db) \<in> {Raised} \<union> range (Refused 429) \<union> {Refused 401 None} \<and>
     dict_get (ld_accounts (snd (login cfg verify rehash name pw ip False tick now db))) uid = Some u"
proof (intro conjI)
  have fu: "find_username nm (db\<lparr>ld_login_limiter := l\<rparr>) = find_username nm db" for nm l
    by (simp add: find_username_def)
  have lu: "login_user cfg verify rehash uid u key q ip False now d =
      (Refused 401 None, log_event ''auth.login'' (Some uid) ''blocked'' ''account_locked'' (set_account uid u d))" for key q d
    using assms(3,4) by (simp add: login_user_def clear_expired_lock_def)
  have g: "dict_get (ld_accounts db) uid = Some u"
    using find_username_account[OF assms(2,1)] .
  show "login cfg verify rehash name pw ip False tick now db = login cfg verify rehash name pw' ip False tick now db"
    unfolding login_def Let_def fu assms(2) option.case prod.case lu by (rule refl)
  show "fst (login cfg verify rehash name pw ip False tick now db) \<in> {Raised} \<union> range (Refused 429) \<union> {Refused 401 None}"
    unfolding login_def Let_def fu assms(2) by (auto simp: lu split: prod.split sum.split)
  show "dict_get (ld_accounts (snd (login cfg verify rehash name pw ip False tick now db))) uid = Some u"
    unfolding login_def Let_def fu assms(2) by (auto simp: lu g split: prod.split sum.split)
qed

theorem locked_login_oblivious_witness:
  "login demo_login_cfg (\<lambda>h p. h = p) (\<lambda>h p. None) '' Ana'' ''pw'' ''10.0.0.1'' False 5 7
     (demo_login_db\<lparr>ld_accounts := [(''u1'', demo_account\<lparr>ac_locked_until := Some 8\<rparr>)]\<rparr>) =
   login demo_login_cfg (\<lambda>h p. h = p) (\<lambda>h p. None) '' Ana'' ''guess'' ''10.0.0.1'' False 5 7
     (demo_login_db\<lparr>ld_accounts := [(''u1'', demo_account\<lparr>ac_locked_until := Some 8\<rparr>)]\<rparr>)"
proof -
  have "py_lower (py_strip '' Ana'') = ''ana''" by code_simp
  then show ?thesis
    by (intro conjunct1[OF locked_login_oblivious[where t = 8 and uid = "''u1''" and u = "demo_account\<lparr>ac_locked_until := Some 8\<rparr>"]])
      (simp_all add: dict_ok_def find_username_def demo_account_def)
qed

text \<open>A failed password leaves an unlocked account locked exactly when it is the \<^verbatim>\<open>login_max_attempts\<close>-th
  in a row, and the session or challenge of a familiar source never lifts an active lock.\<close>

lemma login_lock_exact:
  assumes "ac_active u" "\<not> verify (ac_password_hash u) pw" "\<not> (\<exists>t. ac_locked_until u = Some t)"
  shows "(\<exists>v. dict_get (ld_accounts (snd (login_user cfg verify rehash uid u key pw ip familiar now db))) uid = Some v \<and>
            ac_failed_login v = ac_failed_login u + 1 \<and>
            ac_locked_until v = (if login_max_attempts cfg \<le> ac_failed_login u + 1
                                 then Some (now + of_int (login_lockout_seconds cfg)) else None)) \<and>
         fst (login_user cfg verify rehash uid u key pw ip familiar now db) = Refused 401 None"
    "now < t \<Longrightarrow> \<exists>v. dict_get (ld_accounts (snd (login_user cfg verify rehash uid (u\<lparr>ac_locked_until := Some t\<rparr>) key pw' ip True now db))) uid = Some v \<and>
       (\<exists>t'. ac_locked_until v = Some t') \<and> ac_failed_login u \<le> ac_failed_login v"
  using assms
  by (auto simp: login_user_def clear_expired_lock_def count_failure_def Let_def split: option.splits)

end
