(* ===== verification/Access.thy ===== *)
theory Access
  imports Auth_Sessions
begin

text \<open>
  Conversations and who may touch them (\<^verbatim>\<open>main.py\<close>: \<^verbatim>\<open>lock_chat_session_row\<close>, \<^verbatim>\<open>reject_expired_session\<close>,
  \<^verbatim>\<open>require_owned_session\<close>, \<^verbatim>\<open>require_private_member_session\<close> and the predicates they use).

  \<open>chat_db\<close> is the part of the database these guards and the end-to-end encrypted routes share: the
  accounts and bearer sessions, conversations, the conversation of each message, members, stored envelopes, and
  the public material of devices.
  A guard answers with a status code or the rows it authorises. When it deletes an expired conversation it
  commits, so the state it returns matters on the error path too.
\<close>

record conversation =
  cv_owner :: string
  cv_title :: string
  cv_mode :: string
  cv_classification :: string
  cv_epoch :: int
  cv_suite :: string
  cv_expires :: "time option"
  cv_updated :: time

record member_row =
  mb_session :: string
  mb_user :: string
  mb_role :: string
  mb_joined_epoch :: int
  mb_removed_epoch :: "int option"
  mb_joined_at :: time
  mb_removed_at :: "time option"

record stored_envelope =
  se_session :: string
  se_sender_user :: string
  se_sender_device :: string
  se_recipient :: "string option"
  se_protocol :: string
  se_kind :: string
  se_client_id :: string
  se_replay_key :: string
  se_header :: string
  se_ciphertext :: string
  se_epoch :: int
  se_created :: time

record device_row =
  dv_user :: string
  dv_name :: string
  dv_identity :: string
  dv_signed_prekey :: string
  dv_signature :: string
  dv_fingerprint :: string
  dv_trust :: string
  dv_approved_by :: "string option"
  dv_approved_at :: "time option"
  dv_revoked_at :: "time option"
  dv_created :: time

record device_challenge =
  dc_user :: string
  dc_hash :: string
  dc_expires :: time
  dc_consumed :: "time option"

record prekey_row =
  pk_device :: string
  pk_key_id :: string
  pk_public :: string
  pk_consumed :: "time option"
  pk_consumed_by :: "string option"
  pk_created :: time

record chat_db =
  cd_auth :: auth_db
  cd_sessions :: "(string, conversation) pydict"
  cd_messages :: "(string, string) pydict"
  cd_members :: "(string, member_row) pydict"
  cd_envelopes :: "(string, stored_envelope) pydict"
  cd_devices :: "(string, device_row) pydict"
  cd_challenges :: "(string, device_challenge) pydict"
  cd_prekeys :: "(string, prekey_row) pydict"

definition audit_chat :: "string \<Rightarrow> string \<Rightarrow> string \<Rightarrow> string \<Rightarrow> chat_db \<Rightarrow> chat_db" where
  "audit_chat event uid outcome detail db = db\<lparr>cd_auth := audit_entry event (Some uid) outcome detail (cd_auth db)\<rparr>"

definition set_conversation :: "string \<Rightarrow> conversation \<Rightarrow> chat_db \<Rightarrow> chat_db" where
  "set_conversation sid c db = db\<lparr>cd_sessions := dict_set sid c (cd_sessions db)\<rparr>"

section \<open>Guards\<close>

text \<open>\<open>token\<close> is the decoded bearer of the request, if it decodes.\<close>

definition lock_request_mutation ::
  "auth_settings \<Rightarrow> claims option \<Rightarrow> string \<Rightarrow> bool \<Rightarrow> time \<Rightarrow> chat_db \<Rightarrow> nat option" where
  "lock_request_mutation cfg token uid step_up now db =
     (case lock_account_mutation cfg token uid step_up now (cd_auth db) of Inl e \<Rightarrow> Some e | Inr _ \<Rightarrow> None)"

definition session_is_sensitive :: "conversation \<Rightarrow> bool" where
  "session_is_sensitive c \<longleftrightarrow> cv_mode c \<in> {''confidential'', ''private_e2ee''} \<or>
     cv_classification c \<in> {''confidential'', ''highly_confidential'', ''e2ee_private''}"

definition retained :: "time \<Rightarrow> conversation \<Rightarrow> bool" where
  "retained now c \<longleftrightarrow> (case cv_expires c of None \<Rightarrow> False | Some t \<Rightarrow> now < t)"

definition active_member :: "chat_db \<Rightarrow> string \<Rightarrow> string \<Rightarrow> (string \<times> member_row) option" where
  "active_member db sid uid =
     find (\<lambda>(_, m). mb_session m = sid \<and> mb_user m = uid \<and> mb_removed_at m = None) (cd_members db)"

definition has_active_sensitive_session :: "time \<Rightarrow> string \<Rightarrow> chat_db \<Rightarrow> bool" where
  "has_active_sensitive_session now uid db \<longleftrightarrow>
     list_ex (\<lambda>(_, c). cv_owner c = uid \<and> retained now c \<and> session_is_sensitive c) (cd_sessions db) \<or>
     list_ex (\<lambda>(_, m). mb_user m = uid \<and> mb_removed_at m = None \<and>
        (case dict_get (cd_sessions db) (mb_session m) of
           None \<Rightarrow> False | Some c \<Rightarrow> retained now c \<and> session_is_sensitive c)) (cd_members db)"

text \<open>\<^verbatim>\<open>db.delete(chat_session)\<close>: messages, members and envelopes go with their conversation.\<close>

definition delete_conversation :: "string \<Rightarrow> chat_db \<Rightarrow> chat_db" where
  "delete_conversation sid db =
     db\<lparr>cd_sessions := dict_pop sid (cd_sessions db),
        cd_messages := filter (\<lambda>(_, s). s \<noteq> sid) (cd_messages db),
        cd_members := filter (\<lambda>(_, m). mb_session m \<noteq> sid) (cd_members db),
        cd_envelopes := filter (\<lambda>(_, e). se_session e \<noteq> sid) (cd_envelopes db)\<rparr>"

text \<open>\<open>None\<close> lets the request go on.\<close>

definition reject_expired_session ::
  "auth_settings \<Rightarrow> claims option \<Rightarrow> string \<Rightarrow> string \<Rightarrow> bool \<Rightarrow> time \<Rightarrow> chat_db \<Rightarrow> nat option \<times> chat_db" where
  "reject_expired_session cfg token uid sid parent_locked now db =
     (case dict_get (cd_sessions db) sid of
        None \<Rightarrow> (Some 404, db)
      | Some c \<Rightarrow>
          if retained now c then (None, db)
          else case (if parent_locked then None else lock_request_mutation cfg token uid False now db) of
            Some e \<Rightarrow> (Some e, db)
          | None \<Rightarrow> (Some 404, audit_chat ''chat.session.retention_expired'' uid ''success'' (cv_mode c) (delete_conversation sid db)))"

definition require_owned_session ::
  "auth_settings \<Rightarrow> claims option \<Rightarrow> string \<Rightarrow> string \<Rightarrow> bool \<Rightarrow> bool \<Rightarrow> bool \<Rightarrow> time \<Rightarrow> chat_db \<Rightarrow> (nat + conversation) \<times> chat_db" where
  "require_owned_session cfg token uid sid for_update account_locked step_up now db =
     (case dict_get (cd_sessions db) sid of
        None \<Rightarrow> (Inl 404, audit_chat ''authorization.denied'' uid ''denied'' [] db)
      | Some c \<Rightarrow>
          if cv_owner c \<noteq> uid then (Inl 404, audit_chat ''authorization.denied'' uid ''denied'' [] db)
          else case reject_expired_session cfg token uid sid False now db of
            (Some e, db1) \<Rightarrow> (Inl e, db1)
          | (None, db1) \<Rightarrow>
              let must_lock_user = (\<not> account_locked \<and> (for_update \<or> (high_profile cfg \<and> session_is_sensitive c)));
                  guard = (if for_update then lock_request_mutation cfg token uid step_up now db1 else None)
              in case guard of
                   Some e \<Rightarrow> (Inl e, db1)
                 | None \<Rightarrow>
                     if \<not> for_update \<and> must_lock_user \<and> lock_user_row uid True (cd_auth db1) = None
                     then (Inl 401, audit_chat ''authorization.denied'' uid ''denied'' ''account_state_changed'' db1)
                     else if high_profile cfg \<and> session_is_sensitive c \<and>
                             (case dict_get (ad_users (cd_auth db1)) uid of None \<Rightarrow> True | Some u \<Rightarrow> \<not> ur_mfa_enabled u)
                     then (Inl 403, audit_chat ''authorization.denied'' uid ''denied'' ''sensitive_session_requires_mfa'' db1)
                     else (Inr c, db1))"

definition require_private_member_session ::
  "auth_settings \<Rightarrow> claims option \<Rightarrow> string \<Rightarrow> string \<Rightarrow> time \<Rightarrow> chat_db \<Rightarrow>
   (nat + conversation \<times> string \<times> member_row) \<times> chat_db" where
  "require_private_member_session cfg token uid sid now db =
     (case lock_request_mutation cfg token uid False now db of
        Some e \<Rightarrow> (Inl e, db)
      | None \<Rightarrow>
          (case dict_get (cd_sessions db) sid of
             None \<Rightarrow> (Inl 404, audit_chat ''authorization.denied'' uid ''denied'' [] db)
           | Some c \<Rightarrow>
               if cv_mode c \<noteq> ''private_e2ee'' then (Inl 404, audit_chat ''authorization.denied'' uid ''denied'' [] db)
               else case reject_expired_session cfg token uid sid False now db of
                 (Some e, db1) \<Rightarrow> (Inl e, db1)
               | (None, db1) \<Rightarrow>
                   (case active_member db1 sid uid of
                      None \<Rightarrow> (Inl 404, audit_chat ''authorization.denied'' uid ''denied'' ''membership_revoked'' db1)
                    | Some (mid, m) \<Rightarrow>
                        if high_profile cfg \<and> (case dict_get (ad_users (cd_auth db1)) uid of None \<Rightarrow> True | Some u \<Rightarrow> \<not> ur_mfa_enabled u)
                        then (Inl 403, audit_chat ''authorization.denied'' uid ''denied'' ''sensitive_session_requires_mfa'' db1)
                        else (Inr (c, mid, m), db1))))"

section \<open>What a guard leaves behind\<close>

text \<open>Nothing but audit entries, or the removal of one expired conversation of the caller.\<close>

lemma reject_expired_cases:
  assumes "reject_expired_session cfg token uid sid p now db = (r, db1)"
  obtains (kept) c where "r = None" "db1 = db" "dict_get (cd_sessions db) sid = Some c" "retained now c"
  | (refused) e where "r = Some e" "db1 = db"
  | (removed) c where "r = Some 404" "dict_get (cd_sessions db) sid = Some c" "\<not> retained now c"
      "db1 = audit_chat ''chat.session.retention_expired'' uid ''success'' (cv_mode c) (delete_conversation sid db)"
proof (cases "dict_get (cd_sessions db) sid")
  case None
  then show thesis using assms refused[of 404] by (simp add: reject_expired_session_def)
next
  case (Some c)
  define g where "g = (if p then None else lock_request_mutation cfg token uid False now db)"
  note run = assms[unfolded reject_expired_session_def Some option.case, folded g_def]
  show thesis
  proof (cases "retained now c")
    case True
    then show thesis using run kept[of c] Some by simp
  next
    case False
    show thesis
    proof (cases g)
      case None
      with run False have "r = Some 404"
        "db1 = audit_chat ''chat.session.retention_expired'' uid ''success'' (cv_mode c) (delete_conversation sid db)" by auto
      then show thesis using removed Some False by blast
    next
      case (Some e)
      with run False have "r = Some e" "db1 = db" by auto
      then show thesis using refused by blast
    qed
  qed
qed

lemma owned_session_cases:
  assumes "require_owned_session cfg token uid sid upd lk su now db = (r, db1)"
  obtains (allowed) c where "r = Inr c" "db1 = db" "dict_get (cd_sessions db) sid = Some c" "cv_owner c = uid" "retained now c"
  | (refused) e where "r = Inl e" "db1 = db"
  | (audited) e d where "r = Inl e" "db1 = audit_chat ''authorization.denied'' uid ''denied'' d db"
  | (removed) e c where "r = Inl e" "dict_get (cd_sessions db) sid = Some c" "cv_owner c = uid" "\<not> retained now c"
      "db1 = audit_chat ''chat.session.retention_expired'' uid ''success'' (cv_mode c) (delete_conversation sid db)"
proof (cases "\<exists>c. dict_get (cd_sessions db) sid = Some c \<and> cv_owner c = uid")
  case False
  then show thesis using assms audited by (auto simp: require_owned_session_def split: option.splits if_splits)
next
  case True
  then obtain c where c: "dict_get (cd_sessions db) sid = Some c" "cv_owner c = uid" by blast
  obtain q db2 where q: "reject_expired_session cfg token uid sid False now db = (q, db2)" by force
  note run = assms[unfolded require_owned_session_def c(1) option.case q prod.case]
  from q show thesis
  proof (cases rule: reject_expired_cases)
    case (kept d)
    then have d: "d = c" "retained now c" using c(1) by auto
    have "r = Inr c \<and> db1 = db \<or> (\<exists>e. r = Inl e \<and> db1 = db) \<or>
        (\<exists>e x. r = Inl e \<and> db1 = audit_chat ''authorization.denied'' uid ''denied'' x db)"
      using run kept(1,2) unfolding Let_def
      by (cases "if upd then lock_request_mutation cfg token uid su now db else None") (auto split: if_splits)
    then show thesis using allowed[of c] refused audited c d(2) by blast
  next
    case (refused e)
    then show thesis using run c that(2)[of e] by simp
  next
    case (removed d)
    then have "r = Inl 404" "db1 = db2" using run c by auto
    then show thesis using removed c that(4)[of 404 c] by auto
  qed
qed

lemma delete_conversation_simps [simp]:
  "cd_sessions (delete_conversation sid db) = dict_pop sid (cd_sessions db)"
  "cd_auth (delete_conversation sid db) = cd_auth db"
  "cd_members (delete_conversation sid db) = filter (\<lambda>(_, m). mb_session m \<noteq> sid) (cd_members db)"
  "cd_envelopes (delete_conversation sid db) = filter (\<lambda>(_, e). se_session e \<noteq> sid) (cd_envelopes db)"
  "cd_devices (delete_conversation sid db) = cd_devices db"
  "cd_messages (delete_conversation sid db) = filter (\<lambda>(_, s). s \<noteq> sid) (cd_messages db)"
  by (simp_all add: delete_conversation_def)

lemma set_conversation_simps [simp]:
  "cd_sessions (set_conversation sid c db) = dict_set sid c (cd_sessions db)"
  "cd_auth (set_conversation sid c db) = cd_auth db" "cd_members (set_conversation sid c db) = cd_members db"
  "cd_envelopes (set_conversation sid c db) = cd_envelopes db" "cd_messages (set_conversation sid c db) = cd_messages db"
  "cd_devices (set_conversation sid c db) = cd_devices db"
  by (simp_all add: set_conversation_def)

lemma audit_chat_simps [simp]:
  "cd_sessions (audit_chat a b c d db) = cd_sessions db" "cd_members (audit_chat a b c d db) = cd_members db"
  "cd_envelopes (audit_chat a b c d db) = cd_envelopes db" "cd_messages (audit_chat a b c d db) = cd_messages db"
  "cd_devices (audit_chat a b c d db) = cd_devices db" "cd_challenges (audit_chat a b c d db) = cd_challenges db"
  "cd_prekeys (audit_chat a b c d db) = cd_prekeys db"
  by (simp_all add: audit_chat_def)

section \<open>Bearers of the examples\<close>

definition demo_token :: claims where
  "demo_token = \<lparr>cl_sub = ''u1'', cl_ver = 1, cl_jti = ''j1'', cl_iat = 0, cl_exp = 1000\<rparr>"

definition demo_token2 :: claims where
  "demo_token2 = \<lparr>cl_sub = ''u2'', cl_ver = 1, cl_jti = ''j2'', cl_iat = 0, cl_exp = 1000\<rparr>"

definition demo_auth :: auth_db where
  "demo_auth = \<lparr>ad_users = [(''u1'', \<lparr>ur_username = ''ana'', ur_role = ''user'', ur_active = True, ur_token_version = 1, ur_mfa_enabled = True\<rparr>),
       (''u2'', \<lparr>ur_username = ''bob'', ur_role = ''user'', ur_active = True, ur_token_version = 1, ur_mfa_enabled = True\<rparr>)],
     ad_sessions = [(''j1'', \<lparr>as_user_id = ''u1'', as_family = ''j1'', as_issued_at = 0, as_expires_at = 1000, as_revoked_at = None,
        as_last_activity_at = None, as_root_issued_at = None, as_last_step_up_at = Some 0\<rparr>),
       (''j2'', \<lparr>as_user_id = ''u2'', as_family = ''j2'', as_issued_at = 0, as_expires_at = 1000, as_revoked_at = None,
        as_last_activity_at = None, as_root_issued_at = None, as_last_step_up_at = Some 0\<rparr>)],
     ad_revoked = [], ad_audit = []\<rparr>"

definition demo_settings :: auth_settings where
  "demo_settings = \<lparr>session_absolute_hours = 12, session_idle_minutes = 30, token_reuse_grace_seconds = 30, step_up_minutes = 5,
     access_token_minutes = 30, high_profile = True\<rparr>"

definition demo_bearer :: "chat_db \<Rightarrow> bool" where
  "demo_bearer db \<longleftrightarrow> ad_users (cd_auth db) = ad_users demo_auth \<and> ad_sessions (cd_auth db) = ad_sessions demo_auth \<and>
     ad_revoked (cd_auth db) = []"

lemmas demo_guard_defs = lock_request_mutation_def lock_account_mutation_def demo_token_def demo_token2_def demo_bearer_def demo_auth_def
  demo_settings_def lock_user_row_def lock_auth_session_row_def dict_get_Cons dict_has_def auth_session_expiry_reason_def as_root_def
  as_activity_def require_recent_step_up_def

lemma demo_guard: "demo_bearer db \<Longrightarrow> lock_request_mutation demo_settings (Some demo_token) ''u1'' s 1 db = None"
  by (simp add: demo_guard_defs)

lemma demo_guard2: "demo_bearer db \<Longrightarrow> lock_request_mutation demo_settings (Some demo_token2) ''u2'' s 1 db = None"
  by (simp add: demo_guard_defs)

end
