(* ===== verification/Conversations.thy ===== *)
theory Conversations
  imports Access "HOL-Library.Multiset"
begin

text \<open>
  The life of a conversation (\<^verbatim>\<open>main.py\<close>: the routes under \<^verbatim>\<open>/api/sessions\<close> that create, list, rename, reclassify
  and delete conversations).

  \<open>sensitive\<close> is the redaction policy applied to a title, and \<open>key_ok\<close> says whether the key service could create
  the data key of a conversation.
\<close>

record chat_settings =
  max_sessions_per_user :: int
  max_messages_per_session :: int
  confidential_retention_days :: int
  secure_retention_days :: int

definition retention_days :: "chat_settings \<Rightarrow> string \<Rightarrow> int" where
  "retention_days st mode =
     (if mode \<in> {''confidential'', ''private_e2ee''} then confidential_retention_days st else secure_retention_days st)"

definition deadline :: "chat_settings \<Rightarrow> string \<Rightarrow> time \<Rightarrow> time" where
  "deadline st mode now = now + of_int (86400 * retention_days st mode)"

definition no_mfa :: "string \<Rightarrow> chat_db \<Rightarrow> bool" where
  "no_mfa uid db \<longleftrightarrow> (case lock_user_row uid True (cd_auth db) of None \<Rightarrow> True | Some u \<Rightarrow> \<not> ur_mfa_enabled u)"

definition owned_retained :: "string \<Rightarrow> time \<Rightarrow> chat_db \<Rightarrow> (string \<times> conversation) list" where
  "owned_retained uid now db = filter (\<lambda>(_, c). cv_owner c = uid \<and> retained now c) (cd_sessions db)"

definition owner_member :: "string \<Rightarrow> string \<Rightarrow> time \<Rightarrow> member_row" where
  "owner_member sid uid now =
     \<lparr>mb_session = sid, mb_user = uid, mb_role = ''owner'', mb_joined_epoch = 1, mb_removed_epoch = None, mb_joined_at = now,
      mb_removed_at = None\<rparr>"

definition create_session_endpoint ::
  "auth_settings \<Rightarrow> chat_settings \<Rightarrow> (string \<Rightarrow> bool) \<Rightarrow> bool \<Rightarrow> claims option \<Rightarrow> string \<Rightarrow> string \<Rightarrow> string \<Rightarrow> string \<Rightarrow>
   string \<Rightarrow> string \<Rightarrow> time \<Rightarrow> chat_db \<Rightarrow> (nat + string) \<times> chat_db" where
  "create_session_endpoint cfg st sensitive key_ok token uid title mode classification sid mid now db =
     (if sensitive title then (Inl 422, db)
      else case lock_request_mutation cfg token uid False now db of
        Some e \<Rightarrow> (Inl e, db)
      | None \<Rightarrow>
          if high_profile cfg \<and> mode \<in> {''confidential'', ''private_e2ee''} \<and> no_mfa uid db then (Inl 403, db)
          else if int (length (owned_retained uid now db)) \<ge> max_sessions_per_user st
          then (Inl 409, audit_chat ''chat.session.create'' uid ''blocked'' ''session_limit'' db)
          else
            let private = (mode = ''private_e2ee'');
                row = \<lparr>cv_owner = uid, cv_title = title, cv_mode = mode, cv_classification = classification,
                       cv_epoch = (if private then 1 else 0),
                       cv_suite = (if private then ''Double-Ratchet/MLS-client'' else ''AES-256-GCM''),
                       cv_expires = Some (deadline st mode now), cv_updated = now\<rparr>;
                db1 = set_conversation sid row db
            in if private
               then (Inr sid, audit_chat ''chat.session.create'' uid ''success'' mode
                       (db1\<lparr>cd_members := dict_set mid (owner_member sid uid now) (cd_members db1)\<rparr>))
               else if \<not> key_ok then (Inl 503, db)
               else (Inr sid, audit_chat ''chat.session.create'' uid ''success'' mode db1))"

text \<open>Without MFA the high profile hides sensitive conversations.\<close>

definition visible :: "auth_settings \<Rightarrow> string \<Rightarrow> time \<Rightarrow> chat_db \<Rightarrow> (string \<times> conversation) list" where
  "visible cfg uid now db =
     (let mfa = (case dict_get (ad_users (cd_auth db)) uid of None \<Rightarrow> False | Some u \<Rightarrow> ur_mfa_enabled u)
      in filter (\<lambda>(_, c). \<not> (high_profile cfg \<and> \<not> mfa \<and> session_is_sensitive c)) (owned_retained uid now db))"

definition list_sessions_endpoint :: "auth_settings \<Rightarrow> string \<Rightarrow> time \<Rightarrow> chat_db \<Rightarrow> (string \<times> conversation) list" where
  "list_sessions_endpoint cfg uid now db = take 100 (sort_key (\<lambda>(_, c). - cv_updated c) (visible cfg uid now db))"

record 'a page =
  pg_items :: "'a list"
  pg_total :: nat
  pg_offset :: nat
  pg_limit :: nat
  pg_has_more :: bool
  pg_next_offset :: "nat option"

definition page_result :: "'a list \<Rightarrow> nat \<Rightarrow> nat \<Rightarrow> nat \<Rightarrow> 'a page" where
  "page_result items n_total off size_limit =
     (let has_more = off + length items < n_total
      in \<lparr>pg_items = items, pg_total = n_total, pg_offset = off, pg_limit = size_limit, pg_has_more = has_more,
          pg_next_offset = (if has_more then Some (off + length items) else None)\<rparr>)"

text \<open>Newest first, ties by descending identifier: the sort is the reverse of the ascending one.\<close>

definition newest_first :: "(string \<times> conversation) list \<Rightarrow> (string \<times> conversation) list" where
  "newest_first rows = rev (sort_key (\<lambda>(_, c). cv_updated c) (sort_key fst rows))"

definition list_sessions_page :: "auth_settings \<Rightarrow> string \<Rightarrow> time \<Rightarrow> nat \<Rightarrow> nat \<Rightarrow> chat_db \<Rightarrow> (string \<times> conversation) page" where
  "list_sessions_page cfg uid now off size_limit db =
     (let rows = visible cfg uid now db
      in page_result (take size_limit (drop off (newest_first rows))) (length rows) off size_limit)"

definition get_session_endpoint ::
  "auth_settings \<Rightarrow> claims option \<Rightarrow> string \<Rightarrow> string \<Rightarrow> time \<Rightarrow> chat_db \<Rightarrow> (nat + conversation) \<times> chat_db" where
  "get_session_endpoint cfg token uid sid now db = require_owned_session cfg token uid sid False False False now db"

definition rename_session_endpoint ::
  "auth_settings \<Rightarrow> (string \<Rightarrow> bool) \<Rightarrow> claims option \<Rightarrow> string \<Rightarrow> string \<Rightarrow> string \<Rightarrow> time \<Rightarrow> chat_db \<Rightarrow> (nat + unit) \<times> chat_db" where
  "rename_session_endpoint cfg sensitive token uid sid title now db =
     (if sensitive title then (Inl 422, db)
      else case require_owned_session cfg token uid sid True False False now db of
        (Inl e, db1) \<Rightarrow> (Inl e, db1)
      | (Inr c, db1) \<Rightarrow>
          (Inr (), audit_chat ''chat.session.rename'' uid ''success'' (show_nat (length title))
             (set_conversation sid (c\<lparr>cv_title := title, cv_updated := now\<rparr>) db1)))"

text \<open>\<^verbatim>\<open>require_recent_step_up(credentials, user, db)\<close> before anything else.\<close>

definition step_up_guard :: "auth_settings \<Rightarrow> claims option \<Rightarrow> string \<Rightarrow> time \<Rightarrow> chat_db \<Rightarrow> nat option" where
  "step_up_guard cfg token uid now db =
     (case token of
        None \<Rightarrow> Some 401
      | Some c \<Rightarrow> (case require_recent_step_up cfg c uid now (cd_auth db) of Inl e \<Rightarrow> Some e | Inr _ \<Rightarrow> None))"

text \<open>The row and the members after a change of mode and labels. The deadline may move forward, never back.\<close>

definition reclassified :: "chat_settings \<Rightarrow> string \<Rightarrow> string \<Rightarrow> time \<Rightarrow> conversation \<Rightarrow> conversation" where
  "reclassified st mode classification now c =
     (let mode_changed = (cv_mode c \<noteq> mode);
          c1 = (if mode_changed \<and> mode = ''private_e2ee'' then c\<lparr>cv_epoch := 1, cv_suite := ''Double-Ratchet/MLS-client''\<rparr>
                else if mode_changed \<and> cv_mode c = ''private_e2ee'' then c\<lparr>cv_epoch := 0, cv_suite := ''AES-256-GCM''\<rparr> else c);
          policy_deadline = deadline st mode now
      in c1\<lparr>cv_mode := mode, cv_classification := classification,
            cv_expires := Some (case cv_expires c1 of None \<Rightarrow> policy_deadline | Some t \<Rightarrow> min t policy_deadline),
            cv_updated := now\<rparr>)"

definition reclassified_members ::
  "string \<Rightarrow> string \<Rightarrow> string \<Rightarrow> string \<Rightarrow> time \<Rightarrow> conversation \<Rightarrow> (string, member_row) pydict \<Rightarrow> (string, member_row) pydict" where
  "reclassified_members sid uid mode mid now c ms =
     (if cv_mode c \<noteq> mode \<and> mode = ''private_e2ee'' then
        (if list_ex (\<lambda>(_, m). mb_session m = sid \<and> mb_user m = uid) ms then ms else dict_set mid (owner_member sid uid now) ms)
      else if cv_mode c \<noteq> mode \<and> cv_mode c = ''private_e2ee'' then filter (\<lambda>(_, m). mb_session m \<noteq> sid) ms
      else ms)"

definition update_session_security ::
  "auth_settings \<Rightarrow> chat_settings \<Rightarrow> bool \<Rightarrow> claims option \<Rightarrow> string \<Rightarrow> string \<Rightarrow> string \<Rightarrow> string \<Rightarrow> string \<Rightarrow> time \<Rightarrow> chat_db \<Rightarrow>
   (nat + unit) \<times> chat_db" where
  "update_session_security cfg st key_ok token uid sid mode classification mid now db =
     (case step_up_guard cfg token uid now db of
        Some e \<Rightarrow> (Inl e, db)
      | None \<Rightarrow>
          (case require_owned_session cfg token uid sid True False True now db of
             (Inl e, db1) \<Rightarrow> (Inl e, db1)
           | (Inr c, db1) \<Rightarrow>
               let mfa = (case dict_get (ad_users (cd_auth db1)) uid of None \<Rightarrow> False | Some u \<Rightarrow> ur_mfa_enabled u);
                   has_messages = list_ex (\<lambda>(_, s). s = sid) (cd_messages db1);
                   has_e2ee = list_ex (\<lambda>(_, e). se_session e = sid) (cd_envelopes db1);
                   mode_changed = (cv_mode c \<noteq> mode)
               in if high_profile cfg \<and> mode \<in> {''confidential'', ''private_e2ee''} \<and> \<not> mfa then (Inl 403, db1)
                  else if mode_changed \<and> (has_messages \<or> has_e2ee) then (Inl 409, db1)
                  else if mode_changed \<and> cv_mode c = ''private_e2ee'' \<and> \<not> key_ok then (Inl 500, db1)
                  else (Inr (), audit_chat ''chat.session.security_policy'' uid ''success'' mode
                          ((set_conversation sid (reclassified st mode classification now c) db1)
                             \<lparr>cd_members := reclassified_members sid uid mode mid now c (cd_members db1)\<rparr>))))"

definition delete_session_endpoint ::
  "auth_settings \<Rightarrow> claims option \<Rightarrow> string \<Rightarrow> string \<Rightarrow> time \<Rightarrow> chat_db \<Rightarrow> (nat + unit) \<times> chat_db" where
  "delete_session_endpoint cfg token uid sid now db =
     (case step_up_guard cfg token uid now db of
        Some e \<Rightarrow> (Inl e, db)
      | None \<Rightarrow>
          (case require_owned_session cfg token uid sid True False True now db of
             (Inl e, db1) \<Rightarrow> (Inl e, db1)
           | (Inr c, db1) \<Rightarrow> (Inr (), audit_chat ''chat.session.delete'' uid ''success'' [] (delete_conversation sid db1))))"

lemma owned_session_allowed:
  assumes "dict_get (cd_sessions db) sid = Some c" "cv_owner c = uid" "retained now c"
    "lock_request_mutation cfg token uid su now db = None"
    "session_is_sensitive c \<Longrightarrow> \<exists>u. dict_get (ad_users (cd_auth db)) uid = Some u \<and> ur_mfa_enabled u"
  shows "require_owned_session cfg token uid sid True lk su now db = (Inr c, db)"
proof -
  have "reject_expired_session cfg token uid sid False now db = (None, db)"
    using assms(1,3) by (simp add: reject_expired_session_def)
  then show ?thesis using assms(5)
    unfolding require_owned_session_def assms(1) option.case Let_def by (auto simp: assms(2,4))
qed

section \<open>What the routes do to the rows\<close>

text \<open>A change of mode keeps the owner and does not move the deadline to a later time.\<close>

lemma reclassified_deadline:
  "cv_owner (reclassified st mode cls now c) = cv_owner c"
  "cv_expires c = Some t \<Longrightarrow> \<exists>t'. cv_expires (reclassified st mode cls now c) = Some t' \<and> t' \<le> t"
  by (auto simp: reclassified_def Let_def)

lemma create_session_cases:
  assumes "create_session_endpoint cfg st sensitive key_ok token uid title mode cls sid mid now db = (r, db')"
  obtains (refused) e where "r = Inl e" "cd_sessions db' = cd_sessions db"
  | (created) c where "r = Inr sid" "cd_sessions db' = dict_set sid c (cd_sessions db)" "cv_owner c = uid" "cv_mode c = mode"
      "cv_expires c = Some (deadline st mode now)" "int (length (owned_retained uid now db)) < max_sessions_per_user st"
proof (cases "sensitive title \<or> lock_request_mutation cfg token uid False now db \<noteq> None \<or>
    (high_profile cfg \<and> mode \<in> {''confidential'', ''private_e2ee''} \<and> no_mfa uid db) \<or>
    int (length (owned_retained uid now db)) \<ge> max_sessions_per_user st")
  case True
  then have "cd_sessions db' = cd_sessions db \<and> (\<exists>e. r = Inl e)"
    using assms unfolding create_session_endpoint_def by (auto split: option.splits if_splits)
  then show thesis using refused by blast
next
  case False
  then have ok: "\<not> sensitive title" "lock_request_mutation cfg token uid False now db = None"
    "\<not> (high_profile cfg \<and> mode \<in> {''confidential'', ''private_e2ee''} \<and> no_mfa uid db)"
    "\<not> max_sessions_per_user st \<le> int (length (owned_retained uid now db))" by auto
  note run = assms[unfolded create_session_endpoint_def if_not_P[OF ok(1)] ok(2) option.case if_not_P[OF ok(3)] if_not_P[OF ok(4)] Let_def]
  show thesis
  proof (cases "mode \<noteq> ''private_e2ee'' \<and> \<not> key_ok")
    case True
    with run have "r = Inl 503" "db' = db" by auto
    then show thesis using refused by blast
  next
    case False
    with run have "r = Inr sid \<and> (\<exists>c. cd_sessions db' = dict_set sid c (cd_sessions db) \<and> cv_owner c = uid \<and> cv_mode c = mode \<and>
        cv_expires c = Some (deadline st mode now))"
      by (auto split: if_splits)
    then show thesis using created ok(4) by auto
  qed
qed

section \<open>Paging\<close>

text \<open>A client that follows \<^verbatim>\<open>next_offset\<close>.\<close>

fun follow_pages :: "nat \<Rightarrow> (nat \<Rightarrow> 'a page) \<Rightarrow> nat \<Rightarrow> 'a list" where
  "follow_pages 0 fetch off = []"
| "follow_pages (Suc n) fetch off =
     pg_items (fetch off) @ (case pg_next_offset (fetch off) of None \<Rightarrow> [] | Some off' \<Rightarrow> follow_pages n fetch off')"

lemma follow_pages_complete:
  assumes "0 < k" "length xs \<le> off + n * k"
  shows "follow_pages (Suc n) (\<lambda>off. page_result (take k (drop off xs)) (length xs) off k) off = drop off xs"
  using assms
proof (induction n arbitrary: off)
  case 0
  then show ?case by (simp add: page_result_def Let_def)
next
  case (Suc n)
  show ?case
  proof (cases "length xs - off \<le> k")
    case True
    then show ?thesis by (auto simp: page_result_def Let_def)
  next
    case False
    have "follow_pages (Suc n) (\<lambda>off. page_result (take k (drop off xs)) (length xs) off k) (off + k) = drop (off + k) xs"
      using Suc by (intro Suc.IH) auto
    moreover have "drop off xs = take k (drop off xs) @ drop (off + k) xs"
      by (metis add.commute append_take_drop_id drop_drop)
    ultimately show ?thesis using False
      by (subst follow_pages.simps(2)) (simp add: page_result_def Let_def min_def del: follow_pages.simps)
  qed
qed

lemma newest_first_mset: "mset (newest_first rows) = mset rows"
  by (simp add: newest_first_def)

lemma newest_first_sorted: "sorted_wrt (\<lambda>a b. cv_updated (snd a) \<ge> cv_updated (snd b)) (newest_first rows)"
proof -
  have "sorted (map (\<lambda>(_, c). cv_updated c) (sort_key (\<lambda>(_, c). cv_updated c) (sort_key fst rows)))" by (rule sorted_sort_key)
  then show ?thesis
    by (simp add: newest_first_def sorted_wrt_rev sorted_map case_prod_beta)
qed

text \<open>A client that starts at offset 0 and follows \<^verbatim>\<open>next_offset\<close> over the paged conversation list reads every
  conversation that belongs to the caller, is still retained and is not hidden by the MFA rule, each exactly once and
  newest first, and stops after at most \<open>n + 1\<close> requests when \<open>n\<close> pages of the requested size hold them all.\<close>

theorem session_pages_complete:
  assumes "0 < k" "length (visible cfg uid now db) \<le> n * k"
  shows "mset (follow_pages (Suc n) (\<lambda>off. list_sessions_page cfg uid now off k db) 0) = mset (visible cfg uid now db) \<and>
    sorted_wrt (\<lambda>a b. cv_updated (snd a) \<ge> cv_updated (snd b)) (follow_pages (Suc n) (\<lambda>off. list_sessions_page cfg uid now off k db) 0) \<and>
    (\<forall>(sid, c) \<in> set (visible cfg uid now db). cv_owner c = uid \<and> retained now c)"
proof -
  let ?rows = "visible cfg uid now db"
  have n: "length (newest_first ?rows) = length ?rows" by (metis newest_first_mset size_mset)
  have "follow_pages (Suc n) (\<lambda>off. list_sessions_page cfg uid now off k db) 0 = newest_first ?rows"
    using follow_pages_complete[of k "newest_first ?rows" 0 n] assms n unfolding list_sessions_page_def Let_def by simp
  moreover have "\<forall>(sid, c) \<in> set ?rows. cv_owner c = uid \<and> retained now c"
    by (auto simp: visible_def owned_retained_def Let_def)
  ultimately show ?thesis using newest_first_mset newest_first_sorted by simp
qed

section \<open>A concrete run\<close>

definition demo_rows :: chat_db where
  "demo_rows = \<lparr>cd_auth = demo_auth,
     cd_sessions = [(''s1'', \<lparr>cv_owner = ''u1'', cv_title = ''plans'', cv_mode = ''secure'', cv_classification = ''internal'', cv_epoch = 0,
         cv_suite = ''AES-256-GCM'', cv_expires = Some 500, cv_updated = 0\<rparr>),
       (''s2'', \<lparr>cv_owner = ''u1'', cv_title = ''later'', cv_mode = ''secure'', cv_classification = ''internal'', cv_epoch = 0,
         cv_suite = ''AES-256-GCM'', cv_expires = Some 500, cv_updated = 0\<rparr>)],
     cd_messages = [], cd_members = [], cd_envelopes = [], cd_devices = [], cd_challenges = [], cd_prekeys = []\<rparr>"

definition demo_policy :: chat_settings where
  "demo_policy = \<lparr>max_sessions_per_user = 10, max_messages_per_session = 100, confidential_retention_days = 30, secure_retention_days = 90\<rparr>"

lemma demo_rows_run:
  obtains db' where "update_session_security demo_settings demo_policy True (Some demo_token) ''u1'' ''s1'' ''confidential'' ''internal'' ''m1'' 1 demo_rows = (Inr (), db')"
    "dict_get (cd_sessions db') ''s1'' = Some (reclassified demo_policy ''confidential'' ''internal'' 1 (snd (hd (cd_sessions demo_rows))))"
proof -
  have g: "lock_request_mutation demo_settings (Some demo_token) ''u1'' s 1 demo_rows = None" for s
    by (rule demo_guard) (simp add: demo_bearer_def demo_rows_def demo_auth_def)
  have s: "step_up_guard demo_settings (Some demo_token) ''u1'' 1 demo_rows = None"
    by (simp add: step_up_guard_def demo_guard_defs demo_rows_def)
  have "require_owned_session demo_settings (Some demo_token) ''u1'' ''s1'' True False True 1 demo_rows =
      (Inr (snd (hd (cd_sessions demo_rows))), demo_rows)"
    by (rule owned_session_allowed) (simp_all add: g, simp_all add: demo_rows_def dict_get_Cons retained_def session_is_sensitive_def)
  then have "\<exists>db'. update_session_security demo_settings demo_policy True (Some demo_token) ''u1'' ''s1'' ''confidential'' ''internal'' ''m1'' 1 demo_rows =
      (Inr (), db') \<and> dict_get (cd_sessions db') ''s1'' =
        Some (reclassified demo_policy ''confidential'' ''internal'' 1 (snd (hd (cd_sessions demo_rows))))"
    by (simp add: update_session_security_def s Let_def)
      (simp add: demo_rows_def demo_auth_def dict_get_Cons)
  then show thesis using that by blast
qed

theorem session_pages_complete_witness:
  "mset (follow_pages 3 (\<lambda>off. list_sessions_page demo_settings ''u1'' 1 off 1 demo_rows) 0) = mset (visible demo_settings ''u1'' 1 demo_rows) \<and>
   length (visible demo_settings ''u1'' 1 demo_rows) = 2"
proof -
  have n: "length (visible demo_settings ''u1'' 1 demo_rows) = 2"
    by (simp add: visible_def owned_retained_def demo_rows_def demo_auth_def dict_get_Cons retained_def demo_settings_def)
  show ?thesis using session_pages_complete[of 1 demo_settings "''u1''" 1 demo_rows 2] n by (simp add: numeral_3_eq_3 del: follow_pages.simps)
qed

end
