(* ===== verification/Json_Tree.thy ===== *)
theory Json_Tree
  imports Pystr
begin

text \<open>
  Nested JSON documents: \<^verbatim>\<open>json.dumps(..., ensure_ascii=False, separators=(",", ":"), sort_keys=True)\<close> of
  null, booleans, integers, strings, lists and objects. The text determines the document up to the order
  of the members of its objects, which is what makes a signature over the text a signature over the
  document.
\<close>

datatype jtree =
    TNull
  | TBool bool
  | TInt int
  | TStr string
  | TList "jtree list"
  | TObj "(string \<times> jtree) list"

text \<open>\<^verbatim>\<open>sort_keys\<close>: the members of every object in the order of their names.\<close>

fun sort_tree :: "jtree \<Rightarrow> jtree" where
  "sort_tree (TList ts) = TList (map sort_tree ts)"
| "sort_tree (TObj ms) = TObj (sort_key fst (map (\<lambda>(k, t). (k, sort_tree t)) ms))"
| "sort_tree t = t"

fun tree_text :: "jtree \<Rightarrow> string" where
  "tree_text TNull = ''null''"
| "tree_text (TBool b) = (if b then ''true'' else ''false'')"
| "tree_text (TInt i) = show_int i"
| "tree_text (TStr s) = json_string False s"
| "tree_text (TList ts) = ''['' @ join '','' (map tree_text ts) @ '']''"
| "tree_text (TObj ms) = ''{'' @ join '','' (map (\<lambda>(k, t). json_string False k @ '':'' @ tree_text t) ms) @ ''}''"

definition tree_dumps :: "jtree \<Rightarrow> string" where
  "tree_dumps t = tree_text (sort_tree t)"

section \<open>The text determines the document\<close>

text \<open>What may follow a value: the end, a separator or a closing bracket, never a digit.\<close>

definition ends :: "string \<Rightarrow> bool" where
  "ends x \<longleftrightarrow> x = [] \<or> hd x \<in> {CHR '','', CHR '']'', CHR ''}''}"

lemma ends_simps [simp]:
  "ends []" "ends (CHR '','' # x)" "ends (CHR '']'' # x)" "ends (CHR ''}'' # x)"
  by (simp_all add: ends_def)

lemma ends_not_digit: "ends x \<Longrightarrow> x = [] \<or> \<not> is_digit (hd x)"
  by (auto simp: ends_def is_digit_def)

text \<open>A text that is determined by any continuation.\<close>

definition determined :: "('a \<Rightarrow> string) \<Rightarrow> 'a \<Rightarrow> bool" where
  "determined f t \<longleftrightarrow> (\<forall>u x y. f t @ x = f u @ y \<longrightarrow> ends x \<longrightarrow> ends y \<longrightarrow> t = u \<and> x = y)"

lemma determinedD:
  "determined f t \<Longrightarrow> f t @ x = f u @ y \<Longrightarrow> ends x \<Longrightarrow> ends y \<Longrightarrow> t = u \<and> x = y"
  unfolding determined_def by blast

definition opens :: "string \<Rightarrow> bool" where
  "opens s \<longleftrightarrow> s \<noteq> [] \<and> hd s \<notin> {CHR '','', CHR '']'', CHR ''}''}"

lemma join_Cons: "join sep (s # ss) = s @ (if ss = [] then [] else sep @ join sep ss)"
  by (cases ss) simp_all

text \<open>Lists of such texts, separated by commas and closed by a bracket.\<close>

lemma join_determined:
  assumes "list_all (determined f) ts" "\<And>t. opens (f t)" "c \<in> {CHR '']'', CHR ''}''}"
    "join '','' (map f ts) @ c # x = join '','' (map f us) @ c # y"
  shows "ts = us \<and> x = y"
  using assms(1,4)
proof (induction ts arbitrary: us)
  case Nil
  show ?case
  proof (cases us)
    case (Cons u us')
    then have "c = hd (f u)" using Nil assms(2)[of u] by (cases "f u") (auto simp: join_Cons opens_def)
    then show ?thesis using assms(2)[of u] assms(3) by (auto simp: opens_def)
  qed (use Nil in auto)
next
  case (Cons t ts)
  show ?case
  proof (cases us)
    case Nil
    then have "c = hd (f t)" using Cons.prems assms(2)[of t] by (cases "f t") (auto simp: join_Cons opens_def)
    then show ?thesis using assms(2)[of t] assms(3) by (auto simp: opens_def)
  next
    case us: (Cons u us')
    let ?tail = "\<lambda>vs z. if vs = [] then c # z else '','' @ join '','' (map f vs) @ c # z"
    have "f t @ ?tail ts x = f u @ ?tail us' y"
      using Cons.prems(2) us by (simp add: join_Cons split: if_splits)
    moreover have "ends (?tail vs z)" for vs z using assms(3) by auto
    ultimately have eq: "t = u" "?tail ts x = ?tail us' y"
      using determinedD[of f t "?tail ts x" u "?tail us' y"] Cons.prems(1) by auto
    then have "ts = us' \<and> x = y"
      using Cons.IH[of us'] Cons.prems(1) assms(3) by (auto split: if_splits)
    then show ?thesis using eq us by simp
  qed
qed

definition member_text :: "string \<times> jtree \<Rightarrow> string" where
  "member_text = (\<lambda>(k, t). json_string False k @ '':'' @ tree_text t)"

lemma tree_text_TObj: "tree_text (TObj ms) = ''{'' @ join '','' (map member_text ms) @ ''}''"
  by (simp add: member_text_def)

lemma member_determined: "determined tree_text t \<Longrightarrow> determined member_text (k, t)"
proof -
  assume t: "determined tree_text t"
  have "(k, t) = (l, u) \<and> x = y"
    if "member_text (k, t) @ x = member_text (l, u) @ y" "ends x" "ends y" for l u x y
  proof -
    have "k = l \<and> '':'' @ tree_text t @ x = '':'' @ tree_text u @ y"
      by (rule json_string_inject) (use that(1) in \<open>simp add: member_text_def\<close>)
    then show ?thesis using determinedD[OF t _ that(2,3)] by auto
  qed
  then show ?thesis unfolding determined_def by fast
qed

lemma member_opens: "opens (member_text m)"
  by (cases m) (simp add: member_text_def opens_def json_string_def)

lemma tree_opens: "opens (tree_text t)"
proof (cases t)
  case (TInt i)
  then show ?thesis using show_int_hd[of i] by (auto simp: opens_def is_digit_def)
qed (simp_all add: opens_def json_string_def)

text \<open>The first character tells the kind of a value.\<close>

fun tree_kind :: "jtree \<Rightarrow> nat" where
  "tree_kind TNull = 0" | "tree_kind (TBool b) = (if b then 1 else 2)" | "tree_kind (TInt i) = 3"
| "tree_kind (TStr s) = 4" | "tree_kind (TList ts) = 5" | "tree_kind (TObj ms) = 6"

definition char_kind :: "char \<Rightarrow> nat" where
  "char_kind c = (if c = CHR ''n'' then 0 else if c = CHR ''t'' then 1 else if c = CHR ''f'' then 2
     else if c = CHR 0x22 then 4 else if c = CHR ''['' then 5 else if c = CHR ''{'' then 6 else 3)"

lemma tree_text_kind: "char_kind (hd (tree_text t @ x)) = tree_kind t"
proof (cases t)
  case (TInt i)
  then show ?thesis using show_int_hd[of i] by (auto simp: char_kind_def is_digit_def)
qed (simp_all add: char_kind_def json_string_def)

lemma same_kind: "tree_text t @ x = tree_text u @ y \<Longrightarrow> tree_kind t = tree_kind u"
  by (metis tree_text_kind)

lemma kind_inverse:
  assumes "tree_kind t = tree_kind u"
  obtains "t = u" | i j where "t = TInt i" "u = TInt j" | a b where "t = TStr a" "u = TStr b"
  | ts us where "t = TList ts" "u = TList us" | ms ns where "t = TObj ms" "u = TObj ns"
  using assms by (cases t; cases u) (auto split: if_splits)

lemma tree_determined: "determined tree_text t"
proof (induction t)
  case (TList ts)
  have all: "list_all (determined tree_text) ts" using TList by (simp add: list_all_iff)
  have "TList ts = u \<and> x = y" if eq: "tree_text (TList ts) @ x = tree_text u @ y" for u x y
    using same_kind[OF eq]
  proof (cases rule: kind_inverse)
    case (4 ts' us)
    then show ?thesis using eq join_determined[OF all tree_opens, of "CHR '']''" x us y] by simp
  qed (use eq in auto)
  then show ?case unfolding determined_def by blast
next
  case (TObj ms)
  have all: "list_all (determined member_text) ms"
    using TObj by (auto simp: list_all_iff intro: member_determined)
  have "TObj ms = u \<and> x = y" if eq: "tree_text (TObj ms) @ x = tree_text u @ y" for u x y
    using same_kind[OF eq]
  proof (cases rule: kind_inverse)
    case (5 ms' ns)
    then show ?thesis
      using eq join_determined[OF all member_opens, of "CHR ''}''" x ns y]
      unfolding 5(2) tree_text_TObj by simp
  qed (use eq in auto)
  then show ?case unfolding determined_def by blast
next
  case (TInt i)
  have "TInt i = u \<and> x = y" if eq: "tree_text (TInt i) @ x = tree_text u @ y" "ends x" "ends y" for u x y
    using same_kind[OF eq(1)]
  proof (cases rule: kind_inverse)
    case (2 i' j)
    then show ?thesis using eq show_int_inject_app[of i x j y] ends_not_digit by simp
  qed (use eq in auto)
  then show ?case unfolding determined_def by blast
next
  case (TStr a)
  have "TStr a = u \<and> x = y" if eq: "tree_text (TStr a) @ x = tree_text u @ y" for u x y
    using same_kind[OF eq]
  proof (cases rule: kind_inverse)
    case (3 a' b)
    then show ?thesis using eq json_string_inject[of False a x b y] by simp
  qed (use eq in auto)
  then show ?case unfolding determined_def by blast
next
  case TNull
  have "TNull = u \<and> x = y" if eq: "tree_text TNull @ x = tree_text u @ y" for u x y
    using same_kind[OF eq]
  proof (cases rule: kind_inverse)
  qed (use eq in auto)
  then show ?case unfolding determined_def by blast
next
  case (TBool b)
  have "TBool b = u \<and> x = y" if eq: "tree_text (TBool b) @ x = tree_text u @ y" for u x y
    using same_kind[OF eq]
  proof (cases rule: kind_inverse)
  qed (use eq in auto)
  then show ?case unfolding determined_def by blast
qed

lemma tree_text_inject: "tree_text t = tree_text u \<longleftrightarrow> t = u"
  using determinedD[OF tree_determined, of t "[]" u "[]"] unfolding append_Nil2 by (meson ends_simps(1))

lemma tree_dumps_inject: "tree_dumps t = tree_dumps u \<longleftrightarrow> sort_tree t = sort_tree u"
  by (simp add: tree_dumps_def tree_text_inject)

end
