(* ===== verification/E2ee.thy ===== *)
theory E2ee
  imports Encoding Json_Tree
begin

text \<open>
  The server side of Private E2EE (\<^verbatim>\<open>e2ee.py\<close>): strict base64url, canonical JSON, the statements devices
  sign, identity fingerprints, opaque envelopes and replay keys.

  A value that comes from a decoded JSON body is a \<open>pyval\<close>. Ed25519 verification and SHA-256 are arguments
  of the definitions that use them. Strings are code points 0 to 255; every such text is already in
  Unicode NFC, so \<^verbatim>\<open>unicodedata.normalize\<close> returns it unchanged.
\<close>

datatype e2ee_error = E2EE_Invalid | E2EE_Value_Error

datatype pyval =
    PNone
  | PBool bool
  | PInt int
  | PFloat
  | PStr string
  | PList "pyval list"
  | PDict "(pyval \<times> pyval) list"
  | POther

definition PROTOCOL_DOUBLE_RATCHET :: string where
  "PROTOCOL_DOUBLE_RATCHET = ''double-ratchet''"

definition PROTOCOL_MLS :: string where
  "PROTOCOL_MLS = ''mls-rfc9420''"

definition MAX_E2EE_HEADER_BYTES :: int where
  "MAX_E2EE_HEADER_BYTES = 16 * 1024"

definition MAX_E2EE_CIPHERTEXT_BYTES :: int where
  "MAX_E2EE_CIPHERTEXT_BYTES = 1024 * 1024"

definition MIN_E2EE_CIPHERTEXT_BYTES :: int where
  "MIN_E2EE_CIPHERTEXT_BYTES = 16"

definition MAX_E2EE_EPOCH :: int where
  "MAX_E2EE_EPOCH = 2 ^ 63 - 1"

section \<open>Strict base64url\<close>

definition encode_base64url :: "bytes \<Rightarrow> string" where
  "encode_base64url b = b64encode True b"

definition b64url_char :: "char \<Rightarrow> bool" where
  "b64url_char c \<longleftrightarrow> is_ascii_alnum c \<or> c = CHR ''_'' \<or> c = CHR ''-''"

text \<open>\<^verbatim>\<open>_BASE64URL_RE.fullmatch\<close>: data characters, then at most two \<^verbatim>\<open>=\<close>.\<close>

definition base64url_match :: "string \<Rightarrow> bool" where
  "base64url_match v \<longleftrightarrow> dropWhile b64url_char v \<in> {[], ''='', ''==''}"

definition decode_base64_strict :: "pyval \<Rightarrow> int \<Rightarrow> int option \<Rightarrow> int option \<Rightarrow> e2ee_error + bytes" where
  "decode_base64_strict v min_bytes max_bytes exact_bytes =
     (case v of
        PStr value \<Rightarrow>
          if min_bytes < 0 then Inl E2EE_Value_Error
          else if (case max_bytes of None \<Rightarrow> False | Some m \<Rightarrow> m < min_bytes) then Inl E2EE_Value_Error
          else if (case exact_bytes of None \<Rightarrow> False | Some n \<Rightarrow> n < 0) then Inl E2EE_Value_Error
          else if \<not> base64url_match value then Inl E2EE_Invalid
          else
            let core = rstrip_char (CHR ''='') value;
                explicit_padding = int (length value) - int (length core);
                required_padding = (- int (length core)) mod 4;
                estimated_bytes = (int (length core) * 6) div 8
            in if core = [] \<and> min_bytes \<noteq> 0 then Inl E2EE_Invalid
               else if length core mod 4 = 1 then Inl E2EE_Invalid
               else if explicit_padding \<noteq> 0 \<and> explicit_padding \<noteq> required_padding then Inl E2EE_Invalid
               else if (case exact_bytes of None \<Rightarrow> False | Some n \<Rightarrow> n < estimated_bytes) then Inl E2EE_Invalid
               else if (case max_bytes of None \<Rightarrow> False | Some m \<Rightarrow> m < estimated_bytes) then Inl E2EE_Invalid
               else
                 (case b64decode True (core @ replicate (nat required_padding) (CHR ''='')) of
                    None \<Rightarrow> Inl E2EE_Invalid
                  | Some decoded \<Rightarrow>
                      if rstrip_char (CHR ''='') (encode_base64url decoded) \<noteq> core then Inl E2EE_Invalid
                      else if (case exact_bytes of None \<Rightarrow> False | Some n \<Rightarrow> int (length decoded) \<noteq> n) then Inl E2EE_Invalid
                      else if int (length decoded) < min_bytes then Inl E2EE_Invalid
                      else if (case max_bytes of None \<Rightarrow> False | Some m \<Rightarrow> m < int (length decoded)) then Inl E2EE_Invalid
                      else Inr decoded)
      | _ \<Rightarrow> Inl E2EE_Invalid)"

section \<open>Canonical JSON\<close>

definition nfc :: "string \<Rightarrow> string" where
  "nfc s = s"

fun canonical_value :: "nat \<Rightarrow> pyval \<Rightarrow> e2ee_error + jtree"
  and canonical_members :: "nat \<Rightarrow> (pyval \<times> pyval) list \<Rightarrow> (string \<times> jtree) list \<Rightarrow> e2ee_error + (string \<times> jtree) list"
  and canonical_list :: "nat \<Rightarrow> pyval list \<Rightarrow> e2ee_error + jtree list" where
  "canonical_value depth v =
     (if 16 < depth then Inl E2EE_Invalid
      else case v of
        PNone \<Rightarrow> Inr TNull
      | PBool b \<Rightarrow> Inr (TBool b)
      | PInt i \<Rightarrow> if - (2 ^ 63) \<le> i \<and> i \<le> 2 ^ 63 - 1 then Inr (TInt i) else Inl E2EE_Invalid
      | PFloat \<Rightarrow> Inl E2EE_Invalid
      | PStr s \<Rightarrow> Inr (TStr (nfc s))
      | PDict d \<Rightarrow>
          if 256 < length d then Inl E2EE_Invalid
          else (case canonical_members (depth + 1) d [] of Inl e \<Rightarrow> Inl e | Inr ms \<Rightarrow> Inr (TObj ms))
      | PList vs \<Rightarrow>
          if 256 < length vs then Inl E2EE_Invalid
          else (case canonical_list (depth + 1) vs of Inl e \<Rightarrow> Inl e | Inr ts \<Rightarrow> Inr (TList ts))
      | POther \<Rightarrow> Inl E2EE_Invalid)"
| "canonical_members depth [] result = Inr result"
| "canonical_members depth ((raw_key, raw_value) # d) result =
     (case raw_key of
        PStr k \<Rightarrow>
          if nfc k \<in> fst ` set result then Inl E2EE_Invalid
          else (case canonical_value depth raw_value of
                  Inl e \<Rightarrow> Inl e
                | Inr t \<Rightarrow> canonical_members depth d (result @ [(nfc k, t)]))
      | _ \<Rightarrow> Inl E2EE_Invalid)"
| "canonical_list depth [] = Inr []"
| "canonical_list depth (v # vs) =
     (case canonical_value depth v of
        Inl e \<Rightarrow> Inl e
      | Inr t \<Rightarrow> (case canonical_list depth vs of Inl e \<Rightarrow> Inl e | Inr ts \<Rightarrow> Inr (t # ts)))"

text \<open>\<^verbatim>\<open>^[a-z][a-z0-9.-]{2,95}$\<close>\<close>

definition schema_match :: "string \<Rightarrow> bool" where
  "schema_match s \<longleftrightarrow> s \<noteq> [] \<and> is_lower (hd s) \<and> 2 \<le> length (tl s) \<and> length (tl s) \<le> 95 \<and>
     list_all (\<lambda>c. is_lower c \<or> is_digit c \<or> c = CHR ''.'' \<or> c = CHR ''-'') (tl s)"

definition canonical_json_bytes :: "pyval \<Rightarrow> string \<Rightarrow> int \<Rightarrow> e2ee_error + bytes" where
  "canonical_json_bytes payload schema version =
     (case payload of
        PDict d \<Rightarrow>
          if \<not> schema_match schema then Inl E2EE_Invalid
          else if version < 1 \<or> 2 ^ 31 - 1 < version then Inl E2EE_Invalid
          else (case canonical_value 0 payload of
                  Inl e \<Rightarrow> Inl e
                | Inr t \<Rightarrow> Inr (utf8 (tree_dumps (TObj [(''payload'', t), (''schema'', TStr schema), (''version'', TInt version)]))))
      | _ \<Rightarrow> Inl E2EE_Invalid)"

text \<open>\<^verbatim>\<open>^[A-Za-z0-9][A-Za-z0-9._:@-]*$\<close>, at most 128 characters.\<close>

definition identifier_match :: "string \<Rightarrow> bool" where
  "identifier_match s \<longleftrightarrow> s \<noteq> [] \<and> is_ascii_alnum (hd s) \<and>
     list_all (\<lambda>c. is_ascii_alnum c \<or> c \<in> set ''._:@-'') (tl s)"

definition e2ee_identifier :: "pyval \<Rightarrow> e2ee_error + string" where
  "e2ee_identifier v =
     (case v of
        PStr s \<Rightarrow> if 128 < length s \<or> \<not> identifier_match s then Inl E2EE_Invalid else Inr s
      | _ \<Rightarrow> Inl E2EE_Invalid)"

definition e2ee_protocol :: "string \<Rightarrow> e2ee_error + string" where
  "e2ee_protocol v = (if v \<in> {PROTOCOL_DOUBLE_RATCHET, PROTOCOL_MLS} then Inr v else Inl E2EE_Invalid)"

definition canonical_public_key :: "string \<Rightarrow> e2ee_error + string" where
  "canonical_public_key k =
     (case decode_base64_strict (PStr k) 1 None (Some 32) of Inl e \<Rightarrow> Inl e | Inr raw \<Rightarrow> Inr (encode_base64url raw))"

definition canonical_challenge :: "string \<Rightarrow> e2ee_error + string" where
  "canonical_challenge c =
     (case decode_base64_strict (PStr c) 16 (Some 64) None of Inl e \<Rightarrow> Inl e | Inr raw \<Rightarrow> Inr (encode_base64url raw))"

section \<open>Statements\<close>

definition str_dict :: "(string \<times> string) list \<Rightarrow> pyval" where
  "str_dict ms = PDict (map (\<lambda>(k, v). (PStr k, PStr v)) ms)"

definition build_device_possession_message :: "string \<Rightarrow> string \<Rightarrow> string \<Rightarrow> string \<Rightarrow> e2ee_error + bytes" where
  "build_device_possession_message account_id device_id identity_public_key challenge =
     andthen (canonical_public_key identity_public_key) (\<lambda>public_key.
     andthen (e2ee_identifier (PStr account_id)) (\<lambda>account.
     andthen (canonical_challenge challenge) (\<lambda>chal.
     andthen (e2ee_identifier (PStr device_id)) (\<lambda>device.
     canonical_json_bytes
       (str_dict [(''account_id'', account), (''challenge'', chal), (''device_id'', device),
          (''identity_public_key'', public_key)])
       ''scap.e2ee.device-possession'' 1))))"

definition build_device_approval_message ::
  "string \<Rightarrow> string \<Rightarrow> string \<Rightarrow> string \<Rightarrow> string \<Rightarrow> e2ee_error + bytes" where
  "build_device_approval_message account_id approver_device_id new_device_id new_device_public_key approval_challenge =
     andthen (canonical_public_key new_device_public_key) (\<lambda>new_public_key.
     andthen (e2ee_identifier (PStr account_id)) (\<lambda>account.
     andthen (canonical_challenge approval_challenge) (\<lambda>chal.
     andthen (e2ee_identifier (PStr approver_device_id)) (\<lambda>approver.
     andthen (e2ee_identifier (PStr new_device_id)) (\<lambda>device.
     canonical_json_bytes
       (str_dict [(''account_id'', account), (''approval_challenge'', chal), (''approver_device_id'', approver),
          (''new_device_id'', device), (''new_device_public_key'', new_public_key)])
       ''scap.e2ee.device-approval'' 1)))))"

text \<open>\<open>ed key signature message\<close> is \<^verbatim>\<open>Ed25519PublicKey.from_public_bytes(key).verify(signature, message)\<close>, true when it
  does not raise.\<close>

type_synonym ed25519 = "bytes \<Rightarrow> bytes \<Rightarrow> bytes \<Rightarrow> bool"

definition verify_ed25519_signature :: "ed25519 \<Rightarrow> string \<Rightarrow> string \<Rightarrow> bytes \<Rightarrow> bool" where
  "verify_ed25519_signature ed public_key_b64 signature_b64 message =
     (case (decode_base64_strict (PStr public_key_b64) 1 None (Some 32),
            decode_base64_strict (PStr signature_b64) 1 None (Some 64)) of
        (Inr public_key, Inr signature) \<Rightarrow> ed public_key signature message
      | _ \<Rightarrow> False)"

definition verify_device_possession ::
  "ed25519 \<Rightarrow> string \<Rightarrow> string \<Rightarrow> string \<Rightarrow> string \<Rightarrow> string \<Rightarrow> bool" where
  "verify_device_possession ed public_key_b64 signature_b64 account_id device_id challenge_b64 =
     (case build_device_possession_message account_id device_id public_key_b64 challenge_b64 of
        Inl _ \<Rightarrow> False
      | Inr statement \<Rightarrow> verify_ed25519_signature ed public_key_b64 signature_b64 statement)"

definition verify_device_approval ::
  "ed25519 \<Rightarrow> string \<Rightarrow> string \<Rightarrow> string \<Rightarrow> string \<Rightarrow> string \<Rightarrow> string \<Rightarrow> string \<Rightarrow> bool" where
  "verify_device_approval ed approver_public_key_b64 signature_b64 account_id approver_device_id new_device_id
     new_device_public_key_b64 approval_challenge_b64 =
     (case build_device_approval_message account_id approver_device_id new_device_id new_device_public_key_b64
             approval_challenge_b64 of
        Inl _ \<Rightarrow> False
      | Inr statement \<Rightarrow> verify_ed25519_signature ed approver_public_key_b64 signature_b64 statement)"

section \<open>Identity fingerprints\<close>

fun decode_all :: "string list \<Rightarrow> e2ee_error + bytes list" where
  "decode_all [] = Inr []"
| "decode_all (k # ks) =
     andthen (decode_base64_strict (PStr k) 1 None (Some 32)) (\<lambda>raw. andthen (decode_all ks) (\<lambda>raws. Inr (raw # raws)))"

definition upper_char :: "char \<Rightarrow> char" where
  "upper_char c = (if is_lower c then char_of (code c - 32) else c)"

fun groups_of_4 :: "string \<Rightarrow> string list" where
  "groups_of_4 [] = []"
| "groups_of_4 (c # s) = take 4 (c # s) # groups_of_4 (drop 3 s)"

text \<open>\<open>sha256\<close> gives the hexadecimal digest.\<close>

definition safety_fingerprint :: "(bytes \<Rightarrow> string) \<Rightarrow> string list \<Rightarrow> string \<Rightarrow> e2ee_error + string" where
  "safety_fingerprint sha256 keys protocol =
     andthen (e2ee_protocol protocol) (\<lambda>_.
     if keys = [] \<or> 256 < length keys then Inl E2EE_Invalid
     else andthen (decode_all keys) (\<lambda>raw_keys.
       if \<not> distinct raw_keys then Inl E2EE_Invalid
       else andthen (canonical_json_bytes
                (PDict [(PStr ''identity_public_keys'', PList (map (\<lambda>k. PStr (encode_base64url k)) (sort raw_keys))),
                        (PStr ''protocol'', PStr protocol)])
                ''scap.e2ee.safety-fingerprint'' 1) (\<lambda>document.
         Inr (join '' '' (groups_of_4 (map upper_char (sha256 document)))))))"

section \<open>Opaque envelopes\<close>

record opaque_envelope =
  oe_version :: int
  oe_protocol :: string
  oe_recipient :: string
  oe_epoch :: int
  oe_client_message_id :: string
  oe_header :: string
  oe_ciphertext :: string
  oe_header_size :: int
  oe_ciphertext_size :: int
  oe_sender_device_id :: "string option"

definition one_alias :: "(string, pyval) pydict \<Rightarrow> string \<Rightarrow> string \<Rightarrow> e2ee_error + pyval" where
  "one_alias data canonical alias =
     (case (dict_get data canonical, dict_get data alias) of
        (Some _, Some _) \<Rightarrow> Inl E2EE_Invalid
      | (None, None) \<Rightarrow> Inl E2EE_Invalid
      | (Some v, None) \<Rightarrow> Inr v
      | (None, Some v) \<Rightarrow> Inr v)"

definition envelope_fields :: "string list" where
  "envelope_fields = [''version'', ''protocol'', ''recipient'', ''recipient_id'', ''epoch'', ''client_message_id'', ''header'',
     ''header_b64'', ''ciphertext'', ''ciphertext_b64'', ''sender_device_id'']"

text \<open>\<^verbatim>\<open>dict.get\<close> of a missing field is \<^verbatim>\<open>None\<close>.\<close>

definition field_of :: "(string, pyval) pydict \<Rightarrow> string \<Rightarrow> pyval" where
  "field_of d k = (case dict_get d k of None \<Rightarrow> PNone | Some v \<Rightarrow> v)"

definition validate_opaque_envelope ::
  "(string, pyval) pydict \<Rightarrow> string option \<Rightarrow> int \<Rightarrow> int \<Rightarrow> e2ee_error + opaque_envelope" where
  "validate_opaque_envelope env expected_recipient max_header_bytes max_ciphertext_bytes =
     (if \<not> (1 \<le> max_header_bytes \<and> max_header_bytes \<le> MAX_E2EE_HEADER_BYTES) then Inl E2EE_Value_Error
      else if \<not> (MIN_E2EE_CIPHERTEXT_BYTES \<le> max_ciphertext_bytes \<and> max_ciphertext_bytes \<le> MAX_E2EE_CIPHERTEXT_BYTES)
      then Inl E2EE_Value_Error
      else if \<not> set (dict_keys env) \<subseteq> set envelope_fields then Inl E2EE_Invalid
      else if field_of env ''version'' \<noteq> PInt 1 then Inl E2EE_Invalid
      else
        andthen (case field_of env ''protocol'' of PStr p \<Rightarrow> e2ee_protocol p | _ \<Rightarrow> Inl E2EE_Invalid) (\<lambda>protocol.
        andthen (andthen (one_alias env ''recipient'' ''recipient_id'') e2ee_identifier) (\<lambda>recipient.
        andthen (case expected_recipient of
                   None \<Rightarrow> Inr ()
                 | Some x \<Rightarrow> andthen (e2ee_identifier (PStr x)) (\<lambda>expected. if recipient \<noteq> expected then Inl E2EE_Invalid else Inr ())) (\<lambda>_.
        andthen (case field_of env ''epoch'' of
                   PInt i \<Rightarrow> if 0 \<le> i \<and> i \<le> MAX_E2EE_EPOCH then Inr i else Inl E2EE_Invalid
                 | _ \<Rightarrow> Inl E2EE_Invalid) (\<lambda>epoch.
        andthen (e2ee_identifier (field_of env ''client_message_id'')) (\<lambda>client_message_id.
        andthen (case field_of env ''sender_device_id'' of
                   PNone \<Rightarrow> Inr None
                 | v \<Rightarrow> andthen (e2ee_identifier v) (\<lambda>s. Inr (Some s))) (\<lambda>sender_device_id.
        andthen (andthen (one_alias env ''header'' ''header_b64'')
                   (\<lambda>v. decode_base64_strict v 1 (Some max_header_bytes) None)) (\<lambda>header.
        andthen (andthen (one_alias env ''ciphertext'' ''ciphertext_b64'')
                   (\<lambda>v. decode_base64_strict v MIN_E2EE_CIPHERTEXT_BYTES (Some max_ciphertext_bytes) None)) (\<lambda>ciphertext.
        Inr \<lparr>oe_version = 1, oe_protocol = protocol, oe_recipient = recipient, oe_epoch = epoch,
             oe_client_message_id = client_message_id, oe_header = encode_base64url header,
             oe_ciphertext = encode_base64url ciphertext, oe_header_size = int (length header),
             oe_ciphertext_size = int (length ciphertext), oe_sender_device_id = sender_device_id\<rparr>)))))))))"

definition as_dict :: "opaque_envelope \<Rightarrow> (string, pyval) pydict" where
  "as_dict e =
     [(''version'', PInt (oe_version e)), (''protocol'', PStr (oe_protocol e)), (''recipient'', PStr (oe_recipient e)),
      (''epoch'', PInt (oe_epoch e)), (''client_message_id'', PStr (oe_client_message_id e)),
      (''header'', PStr (oe_header e)), (''ciphertext'', PStr (oe_ciphertext e))] @
     (case oe_sender_device_id e of None \<Rightarrow> [] | Some s \<Rightarrow> [(''sender_device_id'', PStr s)])"

definition make_replay_key :: "(bytes \<Rightarrow> string) \<Rightarrow> string \<Rightarrow> string \<Rightarrow> string option \<Rightarrow> e2ee_error + string" where
  "make_replay_key sha256 recipient client_message_id sender_device_id =
     andthen (e2ee_identifier (PStr client_message_id)) (\<lambda>cid.
     andthen (e2ee_identifier (PStr recipient)) (\<lambda>rcp.
     andthen (case sender_device_id of
                None \<Rightarrow> Inr []
              | Some s \<Rightarrow> andthen (e2ee_identifier (PStr s)) (\<lambda>sender. Inr [(''sender_device_id'', sender)])) (\<lambda>rest.
     andthen (canonical_json_bytes (str_dict ([(''client_message_id'', cid), (''recipient'', rcp)] @ rest))
                ''scap.e2ee.replay-key'' 1) (\<lambda>document.
     Inr (''e2ee:replay:v1:'' @ sha256 document)))))"

definition envelope_replay_key :: "(bytes \<Rightarrow> string) \<Rightarrow> opaque_envelope \<Rightarrow> e2ee_error + string" where
  "envelope_replay_key sha256 e = make_replay_key sha256 (oe_recipient e) (oe_client_message_id e) (oe_sender_device_id e)"

section \<open>Strict base64url accepts exactly the canonical texts\<close>

definition b64url_core :: "bytes \<Rightarrow> string" where
  "b64url_core b = map (b64_char True) (b64_pack (map code b))"

lemma byte_codes: "list_all (\<lambda>b. b < 256) (map code b)"
  by (simp add: list_all_iff of_char_less)

lemma b64_char_url: "n < 64 \<Longrightarrow> b64url_char (b64_char True n) \<and> b64_char True n \<noteq> CHR ''=''"
proof -
  assume n: "n < 64"
  then have "b64url_char (b64_char True n)"
    by (rule b64_index_cases)
      (simp_all add: b64url_char_def b64_char_def is_ascii_alnum_def is_upper_def is_lower_def is_digit_def)
  moreover have "b64_char True n \<noteq> CHR ''=''"
    using b64_value_char[OF n, of True] by auto
  ultimately show ?thesis ..
qed

lemma core_chars: "list_all (\<lambda>c. b64url_char c \<and> c \<noteq> CHR ''='') (b64url_core b)"
  using b64_pack_less[OF byte_codes[of b]] by (auto simp: b64url_core_def list_all_iff b64_char_url)

lemma encode_core: "encode_base64url b = b64url_core b @ b64_padding (length b)"
  by (simp add: encode_base64url_def b64encode_def b64url_core_def)

lemma rstrip_char_app:
  "list_all (\<lambda>c. c \<noteq> d) s \<Longrightarrow> rstrip_char d (s @ replicate n d) = s"
proof -
  assume "list_all (\<lambda>c. c \<noteq> d) s"
  then have "dropWhile (\<lambda>x. x = d) (rev s) = rev s"
    by (cases s rule: rev_cases) auto
  moreover have "dropWhile (\<lambda>x. x = d) (replicate n d @ t) = dropWhile (\<lambda>x. x = d) t" for t
    by (induction n) auto
  ultimately show ?thesis by (simp add: rstrip_char_def)
qed

lemma rstrip_core: "rstrip_char (CHR ''='') (b64url_core b @ replicate n (CHR ''='')) = b64url_core b"
  using core_chars[of b] by (intro rstrip_char_app) (simp add: list_all_iff)

lemma length_b64_pack: "length (b64_pack bs) = (4 * length bs + 2) div 3"
  by (induction bs rule: b64_pack.induct) auto

lemma core_length: "length (b64url_core b) = (4 * length b + 2) div 3"
  by (simp add: b64url_core_def length_b64_pack)

lemma core_arith:
  fixes n :: nat
  defines "l \<equiv> (4 * n + 2) div 3"
  shows "l mod 4 \<noteq> 1" "int l * 6 div 8 = int n" "nat ((- int l) mod 4) = (3 - n mod 3) mod 3" "(- int l) mod 4 = int ((3 - n mod 3) mod 3)"
proof -
  obtain q r where n: "n = 3 * q + r" "r < 3"
    by (metis div_mod_decomp mod_less_divisor mult.commute zero_less_numeral)
  then consider "r = 0" | "r = 1" | "r = 2" by linarith
  then have "l mod 4 \<noteq> 1 \<and> int l * 6 div 8 = int n \<and> (- int l) mod 4 = int ((3 - n mod 3) mod 3)"
  proof cases
    case 1
    then have "l = 4 * q" "n = 3 * q" using n by (simp_all add: l_def)
    then show ?thesis by simp
  next
    case 2
    then have l: "l = 4 * q + 2" "n = 3 * q + 1" using n by (simp_all add: l_def)
    have "(- int l) mod 4 = 2" unfolding l(1) by presburger
    then show ?thesis using l by (simp add: mod_Suc)
  next
    case 3
    then have l: "l = 4 * q + 3" "n = 3 * q + 2" using n by (simp_all add: l_def)
    have "(- int l) mod 4 = 1" "int l * 6 div 8 = int n" unfolding l by presburger+
    moreover have "(3 * q + 2) mod 3 = 2" by presburger
    ultimately show ?thesis using l by simp
  qed
  then show "l mod 4 \<noteq> 1" "int l * 6 div 8 = int n" "nat ((- int l) mod 4) = (3 - n mod 3) mod 3"
      "(- int l) mod 4 = int ((3 - n mod 3) mod 3)"
    by simp_all
qed

lemma base64url_matchD:
  assumes "base64url_match v"
  shows "\<exists>n. v = rstrip_char (CHR ''='') v @ replicate n (CHR ''='') \<and>
             list_all b64url_char (rstrip_char (CHR ''='') v)"
proof -
  let ?data = "takeWhile b64url_char v"
  have d: "list_all b64url_char ?data"
    by (auto simp: list_all_iff dest: set_takeWhileD)
  moreover have "\<not> b64url_char (CHR ''='')"
    by (simp add: b64url_char_def is_ascii_alnum_def is_upper_def is_lower_def is_digit_def)
  ultimately have ne: "list_all (\<lambda>c. c \<noteq> CHR ''='') ?data"
    by (auto simp: list_all_iff)
  obtain n where n: "dropWhile b64url_char v = replicate n (CHR ''='')"
    using assms unfolding base64url_match_def
    by (metis empty_iff insert_iff replicate_0 replicate_Suc)
  then have v: "v = ?data @ replicate n (CHR ''='')"
    by (metis takeWhile_dropWhile_id)
  then have "rstrip_char (CHR ''='') v = ?data"
    by (metis rstrip_char_app[OF ne])
  then show ?thesis using v d by metis
qed

lemma base64url_match_core:
  "n \<le> 2 \<Longrightarrow> base64url_match (b64url_core b @ replicate n (CHR ''=''))"
proof -
  assume "n \<le> 2"
  have "\<not> b64url_char (CHR ''='')"
    by (simp add: b64url_char_def is_ascii_alnum_def is_upper_def is_lower_def is_digit_def)
  then have "dropWhile b64url_char (b64url_core b @ replicate n (CHR ''='')) = replicate n (CHR ''='')"
    using core_chars[of b] by (cases n) (auto simp: list_all_iff dropWhile_append2)
  moreover have "n = 0 \<or> n = 1 \<or> n = 2" using \<open>n \<le> 2\<close> by linarith
  ultimately show ?thesis by (auto simp: base64url_match_def numeral_2_eq_2)
qed

definition in_limits :: "int \<Rightarrow> int option \<Rightarrow> int option \<Rightarrow> int \<Rightarrow> bool" where
  "in_limits mn mx ex n \<longleftrightarrow> mn \<le> n \<and> (case mx of None \<Rightarrow> True | Some m \<Rightarrow> n \<le> m) \<and> (case ex of None \<Rightarrow> True | Some k \<Rightarrow> n = k)"

definition sane_limits :: "int \<Rightarrow> int option \<Rightarrow> int option \<Rightarrow> bool" where
  "sane_limits mn mx ex \<longleftrightarrow> 0 \<le> mn \<and> (case mx of None \<Rightarrow> True | Some m \<Rightarrow> mn \<le> m) \<and> (case ex of None \<Rightarrow> True | Some k \<Rightarrow> 0 \<le> k)"

lemma decode_strict_canonical:
  assumes "sane_limits mn mx ex" "in_limits mn mx ex (int (length d))" "n = 0 \<or> n = (3 - length d mod 3) mod 3"
  shows "decode_base64_strict (PStr (b64url_core d @ replicate n (CHR ''=''))) mn mx ex = Inr d"
proof -
  let ?v = "b64url_core d @ replicate n (CHR ''='')"
  have "(3 - length d mod 3) mod 3 < 3" by simp
  then have "n < 3" using assms(3) by (metis zero_less_numeral)
  then have "n \<le> 2" by simp
  then have m: "base64url_match ?v" by (rule base64url_match_core)
  have dec: "b64decode True (b64url_core d @ replicate ((3 - length d mod 3) mod 3) (CHR ''='')) = Some d"
    using b64_roundtrip[of True d] by (simp add: b64encode_def b64url_core_def b64_padding_def)
  have enc: "rstrip_char (CHR ''='') (encode_base64url d) = b64url_core d"
    by (simp add: encode_core b64_padding_def rstrip_core)
  have empty: "b64url_core d = [] \<longleftrightarrow> d = []" by (simp add: b64url_core_def)
  define p where "p = (3 - length d mod 3) mod 3"
  have l: "length (b64url_core d) mod 4 \<noteq> 1" "int (length (b64url_core d)) * 6 div 8 = int (length d)"
    "(- int (length (b64url_core d))) mod 4 = int p" "nat (int p) = p"
    using core_arith[of "length d"] by (simp_all add: core_length p_def)
  have n: "n = 0 \<or> n = p" "b64decode True (b64url_core d @ replicate p (CHR ''='')) = Some d"
    using assms(3) dec by (simp_all add: p_def)
  have pad: "int (length ?v) - int (length (b64url_core d)) = int n" by simp
  show ?thesis
    unfolding decode_base64_strict_def pyval.case Let_def rstrip_core pad l(2,3,4) n(2) option.case enc
    using assms(1,2) m n(1) l(1) empty
    by (auto simp: sane_limits_def in_limits_def split: option.splits)
qed

lemma decode_strict_Inr:
  assumes "decode_base64_strict (PStr v) mn mx ex = Inr d"
  shows "sane_limits mn mx ex \<and> in_limits mn mx ex (int (length d)) \<and> (v = encode_base64url d \<or> v = b64url_core d)"
proof -
  let ?core = "rstrip_char (CHR ''='') v"
  have m: "base64url_match v" and c: "rstrip_char (CHR ''='') (encode_base64url d) = ?core"
    and pad: "int (length v) - int (length ?core) \<in> {0, (- int (length ?core)) mod 4}"
    and lim: "sane_limits mn mx ex" "in_limits mn mx ex (int (length d))"
    using assms
    by (auto simp: decode_base64_strict_def Let_def sane_limits_def in_limits_def split: if_splits option.splits)
  have core: "?core = b64url_core d"
    using c by (simp add: encode_core b64_padding_def rstrip_core)
  obtain n where v: "v = b64url_core d @ replicate n (CHR ''='')"
    using base64url_matchD[OF m] core by metis
  have "int n \<in> {0, int ((3 - length d mod 3) mod 3)}"
    using pad core_arith(4)[of "length d"] unfolding core core_length by (simp add: v core_length)
  then have "v = encode_base64url d \<or> v = b64url_core d"
    using v by (auto simp: encode_core b64_padding_def)
  then show ?thesis using lim by simp
qed

text \<open>Strict decoding accepts exactly two spellings of a byte string, padded and unpadded canonical base64url,
  and only when its length is within the limits of the caller: no two byte strings share an accepted text.\<close>

theorem decode_base64_strict_exact:
  "decode_base64_strict (PStr v) mn mx ex = Inr d \<longleftrightarrow>
     sane_limits mn mx ex \<and> in_limits mn mx ex (int (length d)) \<and>
     (v = encode_base64url d \<or> v = rstrip_char (CHR ''='') (encode_base64url d))"
proof -
  have c: "rstrip_char (CHR ''='') (encode_base64url d) = b64url_core d"
    by (simp add: encode_core b64_padding_def rstrip_core)
  show ?thesis
    using decode_strict_Inr[of v mn mx ex d] decode_strict_canonical[of mn mx ex d 0]
      decode_strict_canonical[of mn mx ex d "(3 - length d mod 3) mod 3"]
    unfolding c by (auto simp: encode_core b64_padding_def)
qed

section \<open>Signed statements\<close>

lemma canonical_json_Inr:
  assumes "canonical_json_bytes p schema v = Inr b"
  obtains t where "canonical_value 0 p = Inr t"
    "b = utf8 (tree_dumps (TObj [(''payload'', t), (''schema'', TStr schema), (''version'', TInt v)]))"
  using assms by (auto simp: canonical_json_bytes_def split: pyval.splits if_splits sum.splits)

text \<open>The bytes determine the schema, the version and the payload up to the order of members.\<close>

lemma canonical_json_inject:
  assumes "canonical_json_bytes p schema v = Inr b" "canonical_json_bytes q schema' w = Inr b"
  shows "schema = schema' \<and> v = w \<and>
         (\<exists>t u. canonical_value 0 p = Inr t \<and> canonical_value 0 q = Inr u \<and> sort_tree t = sort_tree u)"
proof -
  obtain t where t: "canonical_value 0 p = Inr t"
    "b = utf8 (tree_dumps (TObj [(''payload'', t), (''schema'', TStr schema), (''version'', TInt v)]))"
    using assms(1) by (rule canonical_json_Inr)
  obtain u where u: "canonical_value 0 q = Inr u"
    "b = utf8 (tree_dumps (TObj [(''payload'', u), (''schema'', TStr schema'), (''version'', TInt w)]))"
    using assms(2) by (rule canonical_json_Inr)
  have "sort_tree (TObj [(''payload'', t), (''schema'', TStr schema), (''version'', TInt v)]) =
        sort_tree (TObj [(''payload'', u), (''schema'', TStr schema'), (''version'', TInt w)])"
    using t(2) u(2) by (simp add: utf8_inject tree_dumps_inject)
  then have "sort_tree t = sort_tree u" "schema = schema'" "v = w"
    by (simp_all add: less_char_def less_eq_char_def)
  then show ?thesis using t(1) u(1) by blast
qed

lemma canonical_members_strings:
  "distinct (map fst (acc @ ms)) \<Longrightarrow> d \<le> 16 \<Longrightarrow>
   canonical_members d (map (\<lambda>(k, v). (PStr k, PStr v)) ms) (map (\<lambda>(k, v). (k, TStr v)) acc) =
   Inr (map (\<lambda>(k, v). (k, TStr v)) (acc @ ms))"
proof (induction ms arbitrary: acc)
  case (Cons m ms)
  obtain k v where m: "m = (k, v)" by force
  have "k \<notin> fst ` set (map (\<lambda>(k, v). (k, TStr v)) acc)"
    using Cons.prems(1) m by force
  then show ?case
    using Cons.IH[of "acc @ [m]"] Cons.prems m by (auto simp: nfc_def)
qed simp

lemma canonical_str_dict:
  assumes "distinct (map fst ms)" "length ms \<le> 256"
  shows "canonical_value 0 (str_dict ms) = Inr (TObj (map (\<lambda>(k, v). (k, TStr v)) ms))"
  using canonical_members_strings[of "[]" ms 1] assms by (simp add: str_dict_def)

lemma sort_str_tree:
  "sorted (map fst ms) \<Longrightarrow> sort_tree (TObj (map (\<lambda>(k, v). (k, TStr v)) ms)) = TObj (map (\<lambda>(k, v). (k, TStr v)) ms)"
proof -
  assume s: "sorted (map fst ms)"
  have f: "fst \<circ> (\<lambda>(k, v). (k, TStr v)) = fst" by auto
  have "map (\<lambda>(k, t). (k, sort_tree t)) (map (\<lambda>(k, v). (k, TStr v)) ms) = map (\<lambda>(k, v). (k, TStr v)) ms"
    by auto
  then show ?thesis
    using s by (simp add: sorted_sort_id f del: map_map) (simp add: f sort_key_id_if_sorted)
qed

lemma str_tree_inject:
  "map (\<lambda>(k, v). (k, TStr v)) ms = map (\<lambda>(k, v). (k, TStr v)) ns \<Longrightarrow> ms = ns"
  by (induction ms arbitrary: ns) (auto simp: Cons_eq_map_conv)

lemma str_statement_inject:
  assumes "canonical_json_bytes (str_dict ms) schema v = Inr b" "canonical_json_bytes (str_dict ns) schema' w = Inr b"
    "sorted (map fst ms)" "distinct (map fst ms)" "length ms \<le> 256"
    "sorted (map fst ns)" "distinct (map fst ns)" "length ns \<le> 256"
  shows "schema = schema' \<and> v = w \<and> ms = ns"
  using canonical_json_inject[OF assms(1,2)] sort_str_tree[OF assms(3)] sort_str_tree[OF assms(6)] str_tree_inject[of ms ns]
  unfolding canonical_str_dict[OF assms(4,5)] canonical_str_dict[OF assms(7,8)] by auto

lemma identifier_Inr: "e2ee_identifier (PStr s) = Inr t \<longleftrightarrow> t = s \<and> length s \<le> 128 \<and> identifier_match s"
  by (auto simp: e2ee_identifier_def)

lemma canonical_key_Inr:
  "canonical_public_key k = Inr x \<longleftrightarrow>
     (\<exists>raw. decode_base64_strict (PStr k) 1 None (Some 32) = Inr raw \<and> x = encode_base64url raw)"
  by (auto simp: canonical_public_key_def split: sum.splits)

lemma canonical_challenge_Inr:
  "canonical_challenge k = Inr x \<longleftrightarrow>
     (\<exists>raw. decode_base64_strict (PStr k) 16 (Some 64) None = Inr raw \<and> x = encode_base64url raw)"
  by (auto simp: canonical_challenge_def split: sum.splits)

lemma encode_base64url_inject: "encode_base64url a = encode_base64url b \<longleftrightarrow> a = b"
  by (simp add: encode_base64url_def b64_inject)

lemma possession_Inr:
  assumes "build_device_possession_message a d k c = Inr m"
  obtains kx cx where "canonical_public_key k = Inr kx" "canonical_challenge c = Inr cx"
    "canonical_json_bytes (str_dict [(''account_id'', a), (''challenge'', cx), (''device_id'', d), (''identity_public_key'', kx)])
       ''scap.e2ee.device-possession'' 1 = Inr m"
  using assms by (auto simp: build_device_possession_message_def identifier_Inr)

lemma approval_Inr:
  assumes "build_device_approval_message a p d k c = Inr m"
  obtains kx cx where "canonical_public_key k = Inr kx" "canonical_challenge c = Inr cx"
    "canonical_json_bytes (str_dict [(''account_id'', a), (''approval_challenge'', cx), (''approver_device_id'', p),
        (''new_device_id'', d), (''new_device_public_key'', kx)]) ''scap.e2ee.device-approval'' 1 = Inr m"
  using assms by (auto simp: build_device_approval_message_def identifier_Inr)

text \<open>The statements devices sign cannot be reinterpreted. Two approval statements with the same bytes
  approve the same device with the same key for the same account, by the same approver and under the same
  challenge; likewise for two possession statements; and no statement is both an approval and a proof of
  possession.\<close>

theorem device_statements_bind:
  assumes "build_device_approval_message a p d k c = Inr m"
  shows "(build_device_approval_message a' p' d' k' c' = Inr m \<longrightarrow>
            a' = a \<and> p' = p \<and> d' = d \<and> canonical_public_key k' = canonical_public_key k \<and>
            canonical_challenge c' = canonical_challenge c) \<and>
         build_device_possession_message b e l h \<noteq> Inr m \<and>
         (\<forall>b' e' l' h' n. build_device_possession_message b e l h = Inr n \<longrightarrow> build_device_possession_message b' e' l' h' = Inr n \<longrightarrow>
            b' = b \<and> e' = e \<and> canonical_public_key l' = canonical_public_key l \<and>
            canonical_challenge h' = canonical_challenge h)"
proof (intro conjI impI allI notI)
  obtain kx cx where A: "canonical_public_key k = Inr kx" "canonical_challenge c = Inr cx"
    "canonical_json_bytes (str_dict [(''account_id'', a), (''approval_challenge'', cx), (''approver_device_id'', p),
        (''new_device_id'', d), (''new_device_public_key'', kx)]) ''scap.e2ee.device-approval'' 1 = Inr m"
    using assms by (rule approval_Inr)
  note lex = less_char_def less_eq_char_def
  {
    assume "build_device_approval_message a' p' d' k' c' = Inr m"
    then obtain kx' cx' where B: "canonical_public_key k' = Inr kx'" "canonical_challenge c' = Inr cx'"
      "canonical_json_bytes (str_dict [(''account_id'', a'), (''approval_challenge'', cx'), (''approver_device_id'', p'),
        (''new_device_id'', d'), (''new_device_public_key'', kx')]) ''scap.e2ee.device-approval'' 1 = Inr m"
      by (rule approval_Inr)
    show "a' = a" "p' = p" "d' = d" "canonical_public_key k' = canonical_public_key k" "canonical_challenge c' = canonical_challenge c"
      using str_statement_inject[OF A(3) B(3)] A(1,2) B(1,2) by (simp_all add: lex)
  }
  {
    assume "build_device_possession_message b e l h = Inr m"
    then obtain kx' cx' where
      "canonical_json_bytes (str_dict [(''account_id'', b), (''challenge'', cx'), (''device_id'', e), (''identity_public_key'', kx')])
         ''scap.e2ee.device-possession'' 1 = Inr m"
      by (rule possession_Inr)
    then show False using canonical_json_inject[OF A(3)] by auto
  }
  fix b' e' l' h' n
  assume P: "build_device_possession_message b e l h = Inr n" and Q: "build_device_possession_message b' e' l' h' = Inr n"
  obtain kx1 cx1 where 1: "canonical_public_key l = Inr kx1" "canonical_challenge h = Inr cx1"
    "canonical_json_bytes (str_dict [(''account_id'', b), (''challenge'', cx1), (''device_id'', e), (''identity_public_key'', kx1)])
       ''scap.e2ee.device-possession'' 1 = Inr n"
    using P by (rule possession_Inr)
  obtain kx2 cx2 where 2: "canonical_public_key l' = Inr kx2" "canonical_challenge h' = Inr cx2"
    "canonical_json_bytes (str_dict [(''account_id'', b'), (''challenge'', cx2), (''device_id'', e'), (''identity_public_key'', kx2)])
       ''scap.e2ee.device-possession'' 1 = Inr n"
    using Q by (rule possession_Inr)
  show "b' = b" "e' = e" "canonical_public_key l' = canonical_public_key l" "canonical_challenge h' = canonical_challenge h"
    using str_statement_inject[OF 1(3) 2(3)] 1(1,2) 2(1,2) by (simp_all add: lex)
qed

section \<open>Replay keys and envelopes\<close>

definition collides :: "(bytes \<Rightarrow> string) \<Rightarrow> bool" where
  "collides sha256 \<longleftrightarrow> (\<exists>x y. x \<noteq> y \<and> sha256 x = sha256 y)"

definition replay_fields :: "string \<Rightarrow> string \<Rightarrow> string option \<Rightarrow> (string \<times> string) list" where
  "replay_fields r c s =
     [(''client_message_id'', c), (''recipient'', r)] @ (case s of None \<Rightarrow> [] | Some x \<Rightarrow> [(''sender_device_id'', x)])"

lemma replay_fields_facts:
  "sorted (map fst (replay_fields r c s))" "distinct (map fst (replay_fields r c s))" "length (replay_fields r c s) \<le> 256"
  by (cases s; simp add: replay_fields_def less_char_def less_eq_char_def)+

lemma make_replay_key_Inr:
  assumes "make_replay_key sha256 r c s = Inr k"
  obtains b where "canonical_json_bytes (str_dict (replay_fields r c s)) ''scap.e2ee.replay-key'' 1 = Inr b"
    "k = ''e2ee:replay:v1:'' @ sha256 b"
  using assms by (cases s) (auto simp: make_replay_key_def identifier_Inr replay_fields_def)

text \<open>Two envelopes share a replay key exactly when they have the same recipient, the same client message id
  and the same sending device, whatever their epochs and ciphertexts, unless SHA-256 collides.\<close>

theorem replay_key_exact:
  assumes "make_replay_key sha256 r c s = Inr k" "make_replay_key sha256 r' c' s' = Inr k'" "\<not> collides sha256"
  shows "k = k' \<longleftrightarrow> r = r' \<and> c = c' \<and> s = s'"
proof
  assume k: "k = k'"
  obtain b where b: "canonical_json_bytes (str_dict (replay_fields r c s)) ''scap.e2ee.replay-key'' 1 = Inr b"
    "k = ''e2ee:replay:v1:'' @ sha256 b"
    using assms(1) by (rule make_replay_key_Inr)
  obtain b' where b': "canonical_json_bytes (str_dict (replay_fields r' c' s')) ''scap.e2ee.replay-key'' 1 = Inr b'"
    "k' = ''e2ee:replay:v1:'' @ sha256 b'"
    using assms(2) by (rule make_replay_key_Inr)
  have "sha256 b = sha256 b'" using k b(2) b'(2) by simp
  then have "b = b'" using assms(3) by (auto simp: collides_def)
  then have "replay_fields r c s = replay_fields r' c' s'"
    using str_statement_inject[OF b(1) b'(1)[folded \<open>b = b'\<close>]] replay_fields_facts by blast
  then show "r = r' \<and> c = c' \<and> s = s'"
    by (auto simp: replay_fields_def split: option.splits)
qed (use assms in auto)

lemma as_dict_fields:
  "field_of (as_dict e) ''version'' = PInt (oe_version e)" "field_of (as_dict e) ''protocol'' = PStr (oe_protocol e)"
  "field_of (as_dict e) ''epoch'' = PInt (oe_epoch e)" "field_of (as_dict e) ''client_message_id'' = PStr (oe_client_message_id e)"
  "field_of (as_dict e) ''sender_device_id'' = (case oe_sender_device_id e of None \<Rightarrow> PNone | Some s \<Rightarrow> PStr s)"
  "one_alias (as_dict e) ''recipient'' ''recipient_id'' = Inr (PStr (oe_recipient e))"
  "one_alias (as_dict e) ''header'' ''header_b64'' = Inr (PStr (oe_header e))"
  "one_alias (as_dict e) ''ciphertext'' ''ciphertext_b64'' = Inr (PStr (oe_ciphertext e))"
  "set (dict_keys (as_dict e)) \<subseteq> set envelope_fields"
  by (cases "oe_sender_device_id e";
      simp add: as_dict_def field_of_def one_alias_def dict_get_Cons dict_keys_def envelope_fields_def)+

text \<open>What a validated envelope satisfies.\<close>

definition envelope_ok :: "int \<Rightarrow> int \<Rightarrow> opaque_envelope \<Rightarrow> bool" where
  "envelope_ok mh mc e \<longleftrightarrow>
     oe_version e = 1 \<and> oe_protocol e \<in> {PROTOCOL_DOUBLE_RATCHET, PROTOCOL_MLS} \<and>
     e2ee_identifier (PStr (oe_recipient e)) = Inr (oe_recipient e) \<and> 0 \<le> oe_epoch e \<and> oe_epoch e \<le> MAX_E2EE_EPOCH \<and>
     e2ee_identifier (PStr (oe_client_message_id e)) = Inr (oe_client_message_id e) \<and>
     (case oe_sender_device_id e of None \<Rightarrow> True | Some s \<Rightarrow> e2ee_identifier (PStr s) = Inr s) \<and>
     (\<exists>h. oe_header e = encode_base64url h \<and> oe_header_size e = int (length h) \<and> 1 \<le> length h \<and> int (length h) \<le> mh) \<and>
     (\<exists>x. oe_ciphertext e = encode_base64url x \<and> oe_ciphertext_size e = int (length x) \<and>
        MIN_E2EE_CIPHERTEXT_BYTES \<le> int (length x) \<and> int (length x) \<le> mc)"

lemma e2ee_identifier_str: "e2ee_identifier v = Inr s \<Longrightarrow> v = PStr s \<and> e2ee_identifier (PStr s) = Inr s"
  by (auto simp: e2ee_identifier_def split: pyval.splits if_splits)

lemma decode_strict_str: "decode_base64_strict v mn mx ex = Inr d \<Longrightarrow> \<exists>s. v = PStr s"
  by (cases v) (auto simp: decode_base64_strict_def)

lemma decode_limits:
  assumes "decode_base64_strict v mn (Some mx) None = Inr d"
  shows "mn \<le> int (length d)" "int (length d) \<le> mx" "0 \<le> mn"
proof -
  obtain s where "v = PStr s" using decode_strict_str[OF assms] by blast
  then have "sane_limits mn (Some mx) None" "in_limits mn (Some mx) None (int (length d))"
    using decode_strict_Inr[of s mn "Some mx" None d] assms by simp_all
  then show "mn \<le> int (length d)" "int (length d) \<le> mx" "0 \<le> mn"
    by (simp_all add: in_limits_def sane_limits_def)
qed

lemma decode_encoded:
  assumes "sane_limits mn mx ex" "in_limits mn mx ex (int (length d))"
  shows "decode_base64_strict (PStr (encode_base64url d)) mn mx ex = Inr d"
  using decode_strict_canonical[OF assms, of "(3 - length d mod 3) mod 3"] by (simp add: encode_core b64_padding_def)

lemma validate_ok:
  assumes "validate_opaque_envelope env ex mh mc = Inr e"
  shows "envelope_ok mh mc e \<and> 1 \<le> mh \<and> mh \<le> MAX_E2EE_HEADER_BYTES \<and> MIN_E2EE_CIPHERTEXT_BYTES \<le> mc \<and>
         mc \<le> MAX_E2EE_CIPHERTEXT_BYTES \<and> (\<forall>x. ex = Some x \<longrightarrow> oe_recipient e = x)"
proof -
  have lim: "1 \<le> mh \<and> mh \<le> MAX_E2EE_HEADER_BYTES" "MIN_E2EE_CIPHERTEXT_BYTES \<le> mc \<and> mc \<le> MAX_E2EE_CIPHERTEXT_BYTES"
    using assms by (auto simp: validate_opaque_envelope_def split: if_splits)
  obtain p r i c s hv h cv x where f:
    "e2ee_protocol p = Inr p" "e2ee_identifier r = Inr (oe_recipient e)" "0 \<le> i" "i \<le> MAX_E2EE_EPOCH"
    "e2ee_identifier c = Inr (oe_client_message_id e)"
    "s = PNone \<and> oe_sender_device_id e = None \<or> (\<exists>z. e2ee_identifier s = Inr z \<and> oe_sender_device_id e = Some z)"
    "decode_base64_strict hv 1 (Some mh) None = Inr h"
    "decode_base64_strict cv MIN_E2EE_CIPHERTEXT_BYTES (Some mc) None = Inr x"
    "oe_version e = 1" "oe_protocol e = p" "oe_epoch e = i" "oe_header e = encode_base64url h"
    "oe_ciphertext e = encode_base64url x" "oe_header_size e = int (length h)" "oe_ciphertext_size e = int (length x)"
    using assms
    by (auto simp: validate_opaque_envelope_def e2ee_protocol_def split: if_splits pyval.splits option.splits)
  have "\<forall>y. ex = Some y \<longrightarrow> oe_recipient e = y"
    using assms by (auto simp: validate_opaque_envelope_def e2ee_identifier_def split: if_splits pyval.splits option.splits)
  moreover have "oe_protocol e \<in> {PROTOCOL_DOUBLE_RATCHET, PROTOCOL_MLS}"
    using f(1,10) by (auto simp: e2ee_protocol_def split: if_splits)
  moreover have "case oe_sender_device_id e of None \<Rightarrow> True | Some z \<Rightarrow> e2ee_identifier (PStr z) = Inr z"
    using f(6) e2ee_identifier_str by fastforce
  ultimately show ?thesis
    using lim f e2ee_identifier_str[OF f(2)] e2ee_identifier_str[OF f(5)] decode_limits[OF f(7)] decode_limits[OF f(8)]
    unfolding envelope_ok_def by auto
qed

lemma validate_as_dict:
  assumes "envelope_ok mh mc e" "1 \<le> mh" "mh \<le> MAX_E2EE_HEADER_BYTES" "MIN_E2EE_CIPHERTEXT_BYTES \<le> mc"
    "mc \<le> MAX_E2EE_CIPHERTEXT_BYTES"
  shows "validate_opaque_envelope (as_dict e) (Some (oe_recipient e)) mh mc = Inr e"
proof -
  obtain h x where h: "oe_header e = encode_base64url h" "oe_header_size e = int (length h)" "1 \<le> length h" "int (length h) \<le> mh"
    and x: "oe_ciphertext e = encode_base64url x" "oe_ciphertext_size e = int (length x)"
      "MIN_E2EE_CIPHERTEXT_BYTES \<le> int (length x)" "int (length x) \<le> mc"
    using assms(1) unfolding envelope_ok_def by blast
  have dh: "decode_base64_strict (PStr (oe_header e)) 1 (Some mh) None = Inr h"
    unfolding h(1) by (rule decode_encoded) (use h assms(2) in \<open>auto simp: sane_limits_def in_limits_def\<close>)
  have dx: "decode_base64_strict (PStr (oe_ciphertext e)) MIN_E2EE_CIPHERTEXT_BYTES (Some mc) None = Inr x"
    unfolding x(1)
    by (rule decode_encoded) (use x assms(4) in \<open>auto simp: sane_limits_def in_limits_def MIN_E2EE_CIPHERTEXT_BYTES_def\<close>)
  have i: "e2ee_identifier (PStr (oe_recipient e)) = Inr (oe_recipient e)"
    "e2ee_identifier (PStr (oe_client_message_id e)) = Inr (oe_client_message_id e)"
    "oe_version e = 1" "e2ee_protocol (oe_protocol e) = Inr (oe_protocol e)" "0 \<le> oe_epoch e \<and> oe_epoch e \<le> MAX_E2EE_EPOCH"
    using assms(1) by (auto simp: envelope_ok_def e2ee_protocol_def)
  have s: "(case (case oe_sender_device_id e of None \<Rightarrow> PNone | Some s \<Rightarrow> PStr s) of
      PNone \<Rightarrow> Inr None | v \<Rightarrow> andthen (e2ee_identifier v) (\<lambda>s. Inr (Some s))) = Inr (oe_sender_device_id e)"
    using assms(1) by (auto simp: envelope_ok_def andthen_def split: option.splits)
  show ?thesis
    unfolding validate_opaque_envelope_def as_dict_fields s pyval.case
    using assms(2-5) i dh dx h x as_dict_fields(9)[of e] by (simp add: andthen_def)
qed

lemma replay_key_total:
  assumes "envelope_ok mh mc e"
  shows "\<exists>k. envelope_replay_key sha256 e = Inr k"
proof -
  have "\<exists>b. canonical_json_bytes (str_dict (replay_fields (oe_recipient e) (oe_client_message_id e) (oe_sender_device_id e)))
      ''scap.e2ee.replay-key'' 1 = Inr b"
    unfolding canonical_json_bytes_def canonical_str_dict[OF replay_fields_facts(2,3)]
    by (simp add: str_dict_def schema_match_def is_lower_def is_digit_def)
  then show ?thesis
    using assms unfolding envelope_replay_key_def make_replay_key_def replay_fields_def envelope_ok_def
    by (cases "oe_sender_device_id e") (auto simp: andthen_def)
qed

text \<open>A validated envelope is within the limits of the server (header of 1 to 16384 bytes, ciphertext of 16 to
  1048576), is addressed to the expected recipient, has a replay key, and validates to itself when its
  dictionary is validated again.\<close>

theorem envelope_validation_stable:
  assumes "validate_opaque_envelope env ex mh mc = Inr e"
  shows "validate_opaque_envelope (as_dict e) (Some (oe_recipient e)) mh mc = Inr e \<and>
         1 \<le> oe_header_size e \<and> oe_header_size e \<le> mh \<and> mh \<le> 16384 \<and>
         16 \<le> oe_ciphertext_size e \<and> oe_ciphertext_size e \<le> mc \<and> mc \<le> 1048576 \<and>
         (\<forall>x. ex = Some x \<longrightarrow> oe_recipient e = x) \<and> (\<exists>k. envelope_replay_key sha256 e = Inr k)"
proof -
  have ok: "envelope_ok mh mc e" and lim: "1 \<le> mh" "mh \<le> MAX_E2EE_HEADER_BYTES" "MIN_E2EE_CIPHERTEXT_BYTES \<le> mc"
    "mc \<le> MAX_E2EE_CIPHERTEXT_BYTES" and r: "\<forall>x. ex = Some x \<longrightarrow> oe_recipient e = x"
    using validate_ok[OF assms] by blast+
  have "\<exists>k. envelope_replay_key sha256 e = Inr k" by (rule replay_key_total[OF ok])
  moreover have "1 \<le> oe_header_size e \<and> oe_header_size e \<le> mh \<and> 16 \<le> oe_ciphertext_size e \<and> oe_ciphertext_size e \<le> mc"
    using ok by (auto simp: envelope_ok_def MIN_E2EE_CIPHERTEXT_BYTES_def)
  ultimately show ?thesis
    using validate_as_dict[OF ok lim] r lim(2,4)
    by (simp add: MAX_E2EE_HEADER_BYTES_def MAX_E2EE_CIPHERTEXT_BYTES_def)
qed

section \<open>Fingerprints identify the set of keys\<close>

lemma canonical_list_strings: "d \<le> 16 \<Longrightarrow> canonical_list d (map (\<lambda>k. PStr (f k)) ks) = Inr (map (\<lambda>k. TStr (f k)) ks)"
  by (induction ks) (simp_all add: nfc_def)

lemma canonical_fingerprint_document:
  assumes "length ks \<le> 256"
  shows "canonical_value 0 (PDict [(PStr ''identity_public_keys'', PList (map (\<lambda>k. PStr (f k)) ks)), (PStr ''protocol'', PStr p)]) =
     Inr (TObj [(''identity_public_keys'', TList (map (\<lambda>k. TStr (f k)) ks)), (''protocol'', TStr p)])"
  using assms canonical_list_strings[of "Suc (Suc 0)" f ks] by (simp add: nfc_def)

lemma sort_fingerprint_tree:
  "sort_tree (TObj [(''identity_public_keys'', TList (map (\<lambda>k. TStr (f k)) ks)), (''protocol'', TStr p)]) =
   TObj [(''identity_public_keys'', TList (map (\<lambda>k. TStr (f k)) ks)), (''protocol'', TStr p)]"
  by (simp add: comp_def less_char_def less_eq_char_def)

definition hex_text :: "string \<Rightarrow> bool" where
  "hex_text s \<longleftrightarrow> list_all (\<lambda>c. is_digit c \<or> is_lower c) s"

lemma upper_char_facts:
  assumes "is_digit c \<or> is_lower c"
  shows "upper_char c \<noteq> CHR '' ''" "is_digit d \<or> is_lower d \<Longrightarrow> upper_char c = upper_char d \<Longrightarrow> c = d"
proof -
  have v: "code (upper_char x) = (if is_lower x then code x - 32 else code x)" if "is_digit x \<or> is_lower x" for x
    using of_char_less[of x] by (auto simp: upper_char_def less_imp_diff_less intro!: mod_less)
  show "upper_char c \<noteq> CHR '' ''"
    using v[OF assms] assms by (auto simp: is_digit_def is_lower_def split: if_splits)
  have up: "x = y" if "(if 97 \<le> x \<and> x \<le> 122 then x - 32 else x) = (if 97 \<le> y \<and> y \<le> 122 then y - 32 else y)"
      "48 \<le> x \<and> x \<le> 57 \<or> 97 \<le> x \<and> x \<le> 122" "48 \<le> y \<and> y \<le> 57 \<or> 97 \<le> y \<and> y \<le> 122" for x y :: nat
    using that by (auto split: if_splits)
  assume d: "is_digit d \<or> is_lower d" and "upper_char c = upper_char d"
  then have "(if is_lower c then code c - 32 else code c) = (if is_lower d then code d - 32 else code d)"
    using v[OF assms] v[OF d] by simp
  then have "code c = code d"
    using assms d up[of "code c" "code d"] unfolding is_digit_def is_lower_def by blast
  then show "c = d" by simp
qed

lemma concat_groups: "concat (groups_of_4 s) = s"
proof (induction s rule: groups_of_4.induct)
  case (2 c s)
  have "take 4 (c # s) = c # take 3 s" by (simp add: numeral_eq_Suc)
  then show ?case using 2 by simp
qed simp

lemma filter_join:
  "list_all (\<lambda>s. list_all (\<lambda>c. c \<noteq> CHR '' '') s) ss \<Longrightarrow> filter (\<lambda>c. c \<noteq> CHR '' '') (join '' '' ss) = concat ss"
  by (induction ss) (auto simp: join_Cons list_all_iff filter_id_conv)

lemma display_inject:
  assumes "hex_text s" "hex_text t" "join '' '' (groups_of_4 (map upper_char s)) = join '' '' (groups_of_4 (map upper_char t))"
  shows "s = t"
proof -
  have "filter (\<lambda>c. c \<noteq> CHR '' '') (join '' '' (groups_of_4 (map upper_char u))) = map upper_char u" if "hex_text u" for u
  proof -
    have "\<forall>c\<in>set (map upper_char u). c \<noteq> CHR '' ''"
      using that upper_char_facts(1) by (fastforce simp: hex_text_def list_all_iff)
    then have "\<forall>c\<in>set (concat (groups_of_4 (map upper_char u))). c \<noteq> CHR '' ''"
      by (simp only: concat_groups)
    then have "list_all (\<lambda>s. list_all (\<lambda>c. c \<noteq> CHR '' '') s) (groups_of_4 (map upper_char u))"
      unfolding list_all_iff set_concat by blast
    then show ?thesis using filter_join concat_groups by simp
  qed
  then have "map upper_char s = map upper_char t" using assms by metis
  then show ?thesis
    using assms(1,2) upper_char_facts(2)
    by (auto simp: hex_text_def list_all_iff list_eq_iff_nth_eq)
qed

lemma fingerprint_Inr:
  assumes "safety_fingerprint sha256 keys p = Inr f" "decode_all keys = Inr ks"
  obtains b where "distinct ks" "length ks \<le> 256"
    "canonical_json_bytes (PDict [(PStr ''identity_public_keys'', PList (map (\<lambda>k. PStr (encode_base64url k)) (sort ks))),
       (PStr ''protocol'', PStr p)]) ''scap.e2ee.safety-fingerprint'' 1 = Inr b"
    "f = join '' '' (groups_of_4 (map upper_char (sha256 b)))"
proof -
  have "length ks = length keys" if "decode_all keys = Inr ks" for ks
    using that by (induction keys arbitrary: ks) auto
  then show thesis
    using assms that by (auto simp: safety_fingerprint_def split: if_splits)
qed

text \<open>A safety fingerprint identifies the protocol and the set of identity keys: it does not depend on the order
  of the keys or on their padding, and two fingerprints are equal only for the same keys and protocol,
  unless SHA-256 collides.\<close>

theorem safety_fingerprint_identifies:
  assumes "safety_fingerprint sha256 keys p = Inr f" "decode_all keys = Inr ks"
    "safety_fingerprint sha256 keys' p' = Inr f'" "decode_all keys' = Inr ks'"
    "\<not> collides sha256" "\<And>x. hex_text (sha256 x)"
  shows "f = f' \<longleftrightarrow> p = p' \<and> set ks = set ks'"
proof -
  let ?doc = "\<lambda>ks p. PDict [(PStr ''identity_public_keys'', PList (map (\<lambda>k. PStr (encode_base64url k)) (sort ks))), (PStr ''protocol'', PStr p)]"
  obtain b where b: "distinct ks" "length ks \<le> 256"
    "canonical_json_bytes (?doc ks p) ''scap.e2ee.safety-fingerprint'' 1 = Inr b"
    "f = join '' '' (groups_of_4 (map upper_char (sha256 b)))"
    using assms(1,2) by (rule fingerprint_Inr)
  obtain b' where b': "distinct ks'" "length ks' \<le> 256"
    "canonical_json_bytes (?doc ks' p') ''scap.e2ee.safety-fingerprint'' 1 = Inr b'"
    "f' = join '' '' (groups_of_4 (map upper_char (sha256 b')))"
    using assms(3,4) by (rule fingerprint_Inr)
  have "p = p' \<and> sort ks = sort ks'" if "f = f'"
  proof -
    have "sha256 b = sha256 b'" using display_inject[OF assms(6,6)] that b(4) b'(4) by blast
    then have "b' = b" using assms(5) unfolding collides_def by metis
    then have "p = p' \<and> map (\<lambda>k. TStr (encode_base64url k)) (sort ks) = map (\<lambda>k. TStr (encode_base64url k)) (sort ks')"
      using canonical_json_inject[OF b(3) b'(3)[unfolded \<open>b' = b\<close>]]
        canonical_fingerprint_document[of "sort ks" encode_base64url p]
        canonical_fingerprint_document[of "sort ks'" encode_base64url p'] b(2) b'(2)
      by (auto simp: sort_fingerprint_tree simp del: canonical_value.simps sort_tree.simps)
    then show ?thesis
      using inj_map_eq_map[of "\<lambda>k. TStr (encode_base64url k)"] encode_base64url_inject by (auto simp: inj_def)
  qed
  moreover have "sort ks = sort ks'" if "set ks = set ks'"
    using b(1) b'(1) that by (metis sorted_distinct_set_unique distinct_sort set_sort sorted_sort)
  moreover have "set ks = set ks'" if "sort ks = sort ks'"
    using that by (metis set_sort)
  ultimately show ?thesis using b(3,4) b'(3,4) by auto
qed

section \<open>Concrete instances\<close>

definition demo_sha :: "bytes \<Rightarrow> string" where
  "demo_sha b = concat (map (\<lambda>c. [hex_digit (code c div 16), hex_digit (code c mod 16)]) b)"

lemma demo_sha_inject: "demo_sha a = demo_sha b \<Longrightarrow> a = b"
proof (induction a arbitrary: b)
  case Nil
  then show ?case by (cases b) (simp_all add: demo_sha_def)
next
  case (Cons x a)
  then obtain y b' where b: "b = y # b'" by (cases b) (auto simp: demo_sha_def)
  have d: "code z div 16 < 16" "code z mod 16 < 16" for z
    using less_mult_imp_div_less[of "code z" 16 16] of_char_less[of z] by simp_all
  have "hex_digit (code x div 16) = hex_digit (code y div 16)" "hex_digit (code x mod 16) = hex_digit (code y mod 16)"
    using Cons.prems b by (simp_all add: demo_sha_def)
  then have "code x div 16 = code y div 16" "code x mod 16 = code y mod 16"
    using hex_value_digit[OF d(1), of x] hex_value_digit[OF d(1), of y] hex_value_digit[OF d(2), of x] hex_value_digit[OF d(2), of y]
    by metis+
  then have "code x = code y" by (metis mult_div_mod_eq)
  moreover have "demo_sha a = demo_sha b'" using Cons.prems b by (simp add: demo_sha_def)
  ultimately show ?case using Cons.IH b by simp
qed

lemma demo_sha_facts: "\<not> collides demo_sha" "hex_text (demo_sha x)"
proof -
  show "\<not> collides demo_sha" using demo_sha_inject by (auto simp: collides_def)
  have "is_digit (hex_digit n) \<or> is_lower (hex_digit n)" if "n < 16" for n
    using that by (auto simp: hex_digit_def is_digit_def is_lower_def)
  moreover have "code z div 16 < 16" for z
    using less_mult_imp_div_less[of "code z" 16 16] of_char_less[of z] by simp
  ultimately show "hex_text (demo_sha x)" by (auto simp: hex_text_def demo_sha_def list_all_iff)
qed

definition demo_key :: "char \<Rightarrow> string" where
  "demo_key c = encode_base64url (replicate 32 c)"

lemma demo_key_decode: "decode_base64_strict (PStr (demo_key c)) 1 None (Some 32) = Inr (replicate 32 c)"
  unfolding demo_key_def by (rule decode_encoded) (simp_all add: sane_limits_def in_limits_def)

lemma demo_canonical:
  "canonical_public_key (demo_key c) = Inr (demo_key c)" "canonical_challenge (demo_key c) = Inr (demo_key c)"
proof -
  show "canonical_public_key (demo_key c) = Inr (demo_key c)"
    using demo_key_decode[of c] by (simp add: canonical_public_key_def demo_key_def)
  have "decode_base64_strict (PStr (demo_key c)) 16 (Some 64) None = Inr (replicate 32 c)"
    unfolding demo_key_def by (rule decode_encoded) (simp_all add: sane_limits_def in_limits_def)
  then show "canonical_challenge (demo_key c) = Inr (demo_key c)"
    by (simp add: canonical_challenge_def demo_key_def)
qed

lemma demo_identifiers:
  "e2ee_identifier (PStr ''u1'') = Inr ''u1''" "e2ee_identifier (PStr ''d1'') = Inr ''d1''" "e2ee_identifier (PStr ''d2'') = Inr ''d2''"
  by (simp_all add: e2ee_identifier_def identifier_match_def is_ascii_alnum_def is_upper_def is_lower_def is_digit_def)

lemma canonical_strings_total:
  assumes "distinct (map fst ms)" "length ms \<le> 256" "schema_match schema"
  shows "\<exists>b. canonical_json_bytes (str_dict ms) schema 1 = Inr b"
  unfolding canonical_json_bytes_def canonical_str_dict[OF assms(1,2)] using assms(3) by (simp add: str_dict_def)

theorem device_statements_bind_witness:
  "\<exists>m. build_device_approval_message ''u1'' ''d1'' ''d2'' (demo_key CHR ''k'') (demo_key CHR ''c'') = Inr m \<and>
       build_device_approval_message ''u1'' ''d1'' ''d3'' (demo_key CHR ''k'') (demo_key CHR ''c'') \<noteq> Inr m \<and>
       build_device_possession_message ''u1'' ''d2'' (demo_key CHR ''k'') (demo_key CHR ''c'') \<noteq> Inr m"
proof -
  have "\<exists>m. build_device_approval_message ''u1'' ''d1'' ''d2'' (demo_key CHR ''k'') (demo_key CHR ''c'') = Inr m"
    unfolding build_device_approval_message_def demo_canonical demo_identifiers
    by (simp add: andthen_def)
      (rule canonical_strings_total; simp add: schema_match_def is_lower_def is_digit_def)
  then obtain m where m: "build_device_approval_message ''u1'' ''d1'' ''d2'' (demo_key CHR ''k'') (demo_key CHR ''c'') = Inr m" ..
  show ?thesis
    using m device_statements_bind[OF m, of "''u1''" "''d1''" "''d3''" "demo_key CHR ''k''" "demo_key CHR ''c''"
        "''u1''" "''d2''" "demo_key CHR ''k''" "demo_key CHR ''c''"] by auto
qed

theorem replay_key_exact_witness:
  "make_replay_key demo_sha ''d1'' ''u1'' None \<noteq> make_replay_key demo_sha ''d1'' ''u1'' (Some ''d2'')"
proof -
  have "\<exists>k. make_replay_key demo_sha ''d1'' ''u1'' s = Inr k" if "s = None \<or> s = Some ''d2''" for s
    using that canonical_strings_total[OF replay_fields_facts(2,3), of "''scap.e2ee.replay-key''" "''d1''" "''u1''" s]
    by (auto simp: make_replay_key_def demo_identifiers andthen_def replay_fields_def schema_match_def is_lower_def is_digit_def)
  then obtain k l where "make_replay_key demo_sha ''d1'' ''u1'' None = Inr k" "make_replay_key demo_sha ''d1'' ''u1'' (Some ''d2'') = Inr l"
    by blast
  then show ?thesis using replay_key_exact[OF _ _ demo_sha_facts(1)] by auto
qed

definition demo_envelope :: opaque_envelope where
  "demo_envelope = \<lparr>oe_version = 1, oe_protocol = ''mls-rfc9420'', oe_recipient = ''u1'', oe_epoch = 4,
     oe_client_message_id = ''d1'', oe_header = demo_key CHR ''h'', oe_ciphertext = demo_key CHR ''x'',
     oe_header_size = 32, oe_ciphertext_size = 32, oe_sender_device_id = Some ''d2''\<rparr>"

theorem envelope_validation_stable_witness:
  "validate_opaque_envelope (as_dict demo_envelope) (Some ''u1'') 16384 1048576 = Inr demo_envelope \<and>
   (\<exists>k. envelope_replay_key demo_sha demo_envelope = Inr k)"
proof -
  have "\<exists>h. demo_key c = encode_base64url h \<and> (32::int) = int (length h) \<and> 16 \<le> length h \<and> int (length h) \<le> n" if "32 \<le> n" for c n
    using that by (intro exI[of _ "replicate 32 c"]) (simp add: demo_key_def)
  then have "envelope_ok 16384 1048576 demo_envelope"
    using demo_identifiers
    by (fastforce simp: envelope_ok_def demo_envelope_def PROTOCOL_MLS_def MAX_E2EE_EPOCH_def MIN_E2EE_CIPHERTEXT_BYTES_def)
  then have "validate_opaque_envelope (as_dict demo_envelope) (Some ''u1'') 16384 1048576 = Inr demo_envelope"
    using validate_as_dict[of 16384 1048576 demo_envelope]
    by (simp add: MAX_E2EE_HEADER_BYTES_def MAX_E2EE_CIPHERTEXT_BYTES_def MIN_E2EE_CIPHERTEXT_BYTES_def demo_envelope_def)
  then show ?thesis using envelope_validation_stable by blast
qed

lemma fingerprint_document_total:
  assumes "length ks \<le> 256"
  shows "\<exists>b. canonical_json_bytes (PDict [(PStr ''identity_public_keys'', PList (map (\<lambda>k. PStr (encode_base64url k)) ks)),
      (PStr ''protocol'', PStr p)]) ''scap.e2ee.safety-fingerprint'' 1 = Inr b"
  unfolding canonical_json_bytes_def canonical_fingerprint_document[OF assms]
  by (simp add: schema_match_def is_lower_def is_digit_def)

theorem safety_fingerprint_identifies_witness:
  "safety_fingerprint demo_sha [demo_key CHR ''a'', demo_key CHR ''b''] ''double-ratchet'' =
   safety_fingerprint demo_sha [demo_key CHR ''b'', demo_key CHR ''a''] ''double-ratchet''"
proof -
  let ?ks = "[demo_key CHR ''a'', demo_key CHR ''b'']" and ?ls = "[demo_key CHR ''b'', demo_key CHR ''a'']"
  have d: "decode_all [demo_key x, demo_key y] = Inr [replicate 32 x, replicate 32 y]" for x y
    by (simp add: demo_key_decode andthen_def)
  have some: "\<exists>f. safety_fingerprint demo_sha [demo_key x, demo_key y] ''double-ratchet'' = Inr f" if "x \<noteq> y" for x y
  proof -
    obtain b where "canonical_json_bytes (PDict [(PStr ''identity_public_keys'',
        PList (map (\<lambda>k. PStr (encode_base64url k)) (sort [replicate 32 x, replicate 32 y]))),
      (PStr ''protocol'', PStr ''double-ratchet'')]) ''scap.e2ee.safety-fingerprint'' 1 = Inr b"
      using fingerprint_document_total[of "sort [replicate 32 x, replicate 32 y]"] by (auto simp del: sort_key_simps)
    moreover have "distinct [replicate 32 x, replicate 32 y]" using that by simp
    moreover have "e2ee_protocol ''double-ratchet'' = Inr ''double-ratchet''"
      by (simp add: e2ee_protocol_def PROTOCOL_DOUBLE_RATCHET_def)
    ultimately show ?thesis
      unfolding safety_fingerprint_def d andthen_def by (simp del: sort_key_simps replicate_eq_replicate)
  qed
  obtain f where f: "safety_fingerprint demo_sha ?ks ''double-ratchet'' = Inr f"
    using some[of "CHR ''a''" "CHR ''b''"] by auto
  obtain g where g: "safety_fingerprint demo_sha ?ls ''double-ratchet'' = Inr g"
    using some[of "CHR ''b''" "CHR ''a''"] by auto
  have "f = g"
    using safety_fingerprint_identifies[OF f d g d demo_sha_facts] by (simp add: insert_commute)
  then show ?thesis using f g by simp
qed

end
