(* ===== verification/E2ee_Devices.thy ===== *)
theory E2ee_Devices
  imports Access E2ee
begin

text \<open>
  Devices of an account and their prekeys (\<^verbatim>\<open>main.py\<close>: the routes under \<^verbatim>\<open>/api/e2ee/devices\<close> and the prekey
  bundle). Each handler is one transaction on \<open>chat_db\<close>: an exception before a commit leaves the state it
  found, and every path that calls \<^verbatim>\<open>record_audit\<close> commits.

  The identifiers a handler draws, the clock, SHA-256, Ed25519 and the redaction policy are arguments.
\<close>

definition live_challenge :: "time \<Rightarrow> string \<Rightarrow> string \<Rightarrow> string \<Rightarrow> chat_db \<Rightarrow> device_challenge option" where
  "live_challenge now cid uid digest db =
     (case dict_get (cd_challenges db) cid of
        None \<Rightarrow> None
      | Some ch \<Rightarrow> if dc_user ch = uid \<and> dc_hash ch = digest \<and> dc_consumed ch = None \<and> now < dc_expires ch then Some ch else None)"

definition burn_challenge :: "time \<Rightarrow> string \<Rightarrow> device_challenge \<Rightarrow> chat_db \<Rightarrow> chat_db" where
  "burn_challenge now cid ch db = db\<lparr>cd_challenges := dict_set cid (ch\<lparr>dc_consumed := Some now\<rparr>) (cd_challenges db)\<rparr>"

definition trusted_devices :: "string \<Rightarrow> chat_db \<Rightarrow> (string \<times> device_row) list" where
  "trusted_devices uid db = filter (\<lambda>(_, d). dv_user d = uid \<and> dv_trust d = ''trusted'') (cd_devices db)"

text \<open>\<open>raw\<close> is what \<^verbatim>\<open>secrets.token_urlsafe(32)\<close> gave.\<close>

definition create_e2ee_device_challenge ::
  "(bytes \<Rightarrow> string) \<Rightarrow> auth_settings \<Rightarrow> claims option \<Rightarrow> string \<Rightarrow> string \<Rightarrow> string \<Rightarrow> time \<Rightarrow> chat_db \<Rightarrow> (nat + string) \<times> chat_db" where
  "create_e2ee_device_challenge sha256 cfg token uid cid raw now db =
     (case lock_request_mutation cfg token uid True now db of
        Some e \<Rightarrow> (Inl e, db)
      | None \<Rightarrow>
          (case decode_base64_strict (PStr raw) 32 (Some 32) None of
             Inl _ \<Rightarrow> (Inl 500, db)
           | Inr challenge_bytes \<Rightarrow>
               (Inr cid,
                audit_chat ''e2ee.device.challenge'' uid ''success'' []
                  (db\<lparr>cd_challenges := dict_set cid
                        \<lparr>dc_user = uid, dc_hash = sha256 challenge_bytes, dc_expires = now + 300, dc_consumed = None\<rparr>
                        (cd_challenges db)\<rparr>))))"

record device_request =
  dr_challenge_id :: string
  dr_challenge :: string
  dr_device_id :: string
  dr_display_name :: string
  dr_identity_key :: string
  dr_possession_signature :: string
  dr_signed_prekey :: string
  dr_signed_prekey_signature :: string
  dr_one_time_prekeys :: "string list"
  dr_approver_device_id :: "string option"
  dr_approval_signature :: "string option"

text \<open>Empty strings count as missing.\<close>

definition truthy :: "string option \<Rightarrow> bool" where
  "truthy v \<longleftrightarrow> v \<noteq> None \<and> v \<noteq> Some []"

definition new_prekeys :: "string \<Rightarrow> time \<Rightarrow> (string \<times> string) list \<Rightarrow> string list \<Rightarrow> (string, prekey_row) pydict" where
  "new_prekeys did now ids keys =
     map (\<lambda>((rid, kid), k). (rid, \<lparr>pk_device = did, pk_key_id = kid, pk_public = k, pk_consumed = None,
            pk_consumed_by = None, pk_created = now\<rparr>)) (zip ids keys)"

text \<open>Who must approve: nobody for the first device, otherwise a trusted device of the account that signed the
  approval. The result is the refusal or the approver.\<close>

definition find_approver ::
  "ed25519 \<Rightarrow> string \<Rightarrow> device_request \<Rightarrow> string \<Rightarrow> chat_db \<Rightarrow> string + string option" where
  "find_approver ed uid r identity_key db =
     (let trusted = trusted_devices uid db
      in if trusted = [] then Inr None
         else if \<not> truthy (dr_approver_device_id r) \<or> \<not> truthy (dr_approval_signature r)
         then Inl ''trusted_device_approval_required''
         else case find (\<lambda>(k, _). Some k = dr_approver_device_id r) trusted of
                None \<Rightarrow> Inl ''invalid_device_approval''
              | Some (aid, a) \<Rightarrow>
                  if verify_device_approval ed (dv_identity a) (the (dr_approval_signature r)) uid aid (dr_device_id r)
                       identity_key (dr_challenge r)
                  then Inr (Some aid) else Inl ''invalid_device_approval'')"

definition public_material ::
  "device_request \<Rightarrow> e2ee_error + string \<times> bytes \<times> string list" where
  "public_material r =
     andthen (decode_base64_strict (PStr (dr_identity_key r)) 1 None (Some 32)) (\<lambda>identity.
     andthen (decode_base64_strict (PStr (dr_signed_prekey r)) 1 None (Some 32)) (\<lambda>signed.
     andthen (decode_all (dr_one_time_prekeys r)) (\<lambda>keys.
     Inr (encode_base64url identity, signed, map encode_base64url keys))))"

text \<open>The insert fails when the account already has a device with this fingerprint.\<close>

definition insert_device ::
  "string \<Rightarrow> device_row \<Rightarrow> (string, prekey_row) pydict \<Rightarrow> chat_db \<Rightarrow> chat_db option" where
  "insert_device did d prekeys db =
     (if list_ex (\<lambda>(_, x). dv_user x = dv_user d \<and> dv_fingerprint x = dv_fingerprint d) (cd_devices db) then None
      else Some (db\<lparr>cd_devices := dict_set did d (cd_devices db), cd_prekeys := fold (\<lambda>(k, p). dict_set k p) prekeys (cd_prekeys db)\<rparr>))"

definition new_device :: "string \<Rightarrow> device_request \<Rightarrow> string \<Rightarrow> bytes \<Rightarrow> string \<Rightarrow> string option \<Rightarrow> time \<Rightarrow> device_row" where
  "new_device uid r identity_key signed fingerprint approver now =
     \<lparr>dv_user = uid, dv_name = dr_display_name r, dv_identity = identity_key,
      dv_signed_prekey = encode_base64url signed, dv_signature = dr_signed_prekey_signature r,
      dv_fingerprint = fingerprint, dv_trust = ''trusted'', dv_approved_by = approver,
      dv_approved_at = Some now, dv_revoked_at = None, dv_created = now\<rparr>"

definition register_e2ee_device ::
  "(bytes \<Rightarrow> string) \<Rightarrow> ed25519 \<Rightarrow> (string \<Rightarrow> bool) \<Rightarrow> auth_settings \<Rightarrow> claims option \<Rightarrow> string \<Rightarrow> device_request \<Rightarrow>
   (string \<times> string) list \<Rightarrow> time \<Rightarrow> chat_db \<Rightarrow> (nat + string) \<times> chat_db" where
  "register_e2ee_device sha256 ed sensitive cfg token uid r ids now db =
     (case lock_request_mutation cfg token uid True now db of
        Some e \<Rightarrow> (Inl e, db)
      | None \<Rightarrow>
          if sensitive (dr_display_name r) then (Inl 422, db)
          else (case decode_base64_strict (PStr (dr_challenge r)) 16 (Some 64) None of
             Inl _ \<Rightarrow> (Inl 422, db)
           | Inr challenge_bytes \<Rightarrow>
               (case live_challenge now (dr_challenge_id r) uid (sha256 challenge_bytes) db of
                  None \<Rightarrow> (Inl 409, db)
                | Some ch \<Rightarrow>
                    let db1 = burn_challenge now (dr_challenge_id r) ch db;
                        denied = (\<lambda>code reason. (Inl code, audit_chat ''e2ee.device.register'' uid ''denied'' reason db1))
                    in if dict_has (cd_devices db1) (dr_device_id r) then denied 409 ''duplicate_device_id''
                       else (case public_material r of
                          Inl _ \<Rightarrow> denied 422 ''invalid_public_material''
                        | Inr (identity_key, signed, keys) \<Rightarrow>
                            if \<not> verify_device_possession ed (dr_identity_key r) (dr_possession_signature r) uid (dr_device_id r) (dr_challenge r) \<or>
                               \<not> verify_ed25519_signature ed identity_key (dr_signed_prekey_signature r) signed \<or>
                               \<not> distinct keys
                            then denied 422 ''invalid_public_key_proof''
                            else (case find_approver ed uid r identity_key db1 of
                               Inl reason \<Rightarrow> denied 403 reason
                             | Inr approver \<Rightarrow>
                                 (case safety_fingerprint sha256 [identity_key] PROTOCOL_DOUBLE_RATCHET of
                                    Inl _ \<Rightarrow> (Inl 500, db)
                                  | Inr fingerprint \<Rightarrow>
                                      (case insert_device (dr_device_id r) (new_device uid r identity_key signed fingerprint approver now)
                                              (new_prekeys (dr_device_id r) now ids keys) db1 of
                                           None \<Rightarrow> denied 409 ''duplicate_public_material''
                                         | Some db2 \<Rightarrow>
                                             (Inr (dr_device_id r), audit_chat ''e2ee.device.register'' uid ''success'' [] db2))))))))"

section \<open>Prekeys\<close>

record prekey_request =
  pr_challenge_id :: string
  pr_challenge :: string
  pr_one_time_prekeys :: "string list"
  pr_signed_prekey :: "string option"
  pr_signed_prekey_signature :: "string option"
  pr_update_signature :: string

definition pyopt :: "string option \<Rightarrow> pyval" where
  "pyopt v = (case v of None \<Rightarrow> PNone | Some s \<Rightarrow> PStr s)"

definition prekey_statement :: "string \<Rightarrow> string \<Rightarrow> prekey_request \<Rightarrow> e2ee_error + bytes" where
  "prekey_statement uid did r =
     canonical_json_bytes
       (PDict [(PStr ''account_id'', PStr uid), (PStr ''device_id'', PStr did), (PStr ''challenge'', PStr (pr_challenge r)),
          (PStr ''one_time_prekeys'', PList (map PStr (pr_one_time_prekeys r))), (PStr ''signed_prekey'', pyopt (pr_signed_prekey r)),
          (PStr ''signed_prekey_signature'', pyopt (pr_signed_prekey_signature r))])
       ''scap.e2ee.prekey-update'' 1"

definition device_prekeys :: "string \<Rightarrow> chat_db \<Rightarrow> (string \<times> prekey_row) list" where
  "device_prekeys did db = filter (\<lambda>(_, p). pk_device p = did) (cd_prekeys db)"

definition unused_prekeys :: "string \<Rightarrow> chat_db \<Rightarrow> (string \<times> prekey_row) list" where
  "unused_prekeys did db = filter (\<lambda>(_, p). pk_device p = did \<and> pk_consumed p = None) (cd_prekeys db)"

definition signed_material :: "prekey_request \<Rightarrow> e2ee_error + string list \<times> bytes option" where
  "signed_material r =
     andthen (decode_all (pr_one_time_prekeys r)) (\<lambda>keys.
     andthen (case pr_signed_prekey r of
                None \<Rightarrow> Inr None
              | Some s \<Rightarrow> andthen (decode_base64_strict (PStr s) 1 None (Some 32)) (\<lambda>b. Inr (Some b))) (\<lambda>signed.
     Inr (map encode_base64url keys, signed)))"

definition signature_ok :: "ed25519 \<Rightarrow> string \<Rightarrow> string option \<Rightarrow> bytes \<Rightarrow> bool" where
  "signature_ok ed key sig message = (case sig of None \<Rightarrow> False | Some s \<Rightarrow> verify_ed25519_signature ed key s message)"

definition update_e2ee_prekeys ::
  "(bytes \<Rightarrow> string) \<Rightarrow> ed25519 \<Rightarrow> auth_settings \<Rightarrow> claims option \<Rightarrow> string \<Rightarrow> string \<Rightarrow> prekey_request \<Rightarrow>
   (string \<times> string) list \<Rightarrow> time \<Rightarrow> chat_db \<Rightarrow> (nat + nat) \<times> chat_db" where
  "update_e2ee_prekeys sha256 ed cfg token uid did r ids now db =
     (case lock_request_mutation cfg token uid True now db of
        Some e \<Rightarrow> (Inl e, db)
      | None \<Rightarrow>
          (case find (\<lambda>(k, _). k = did) (trusted_devices uid db) of
             None \<Rightarrow> (Inl 404, db)
           | Some (_, d) \<Rightarrow>
               (case decode_base64_strict (PStr (pr_challenge r)) 1 None (Some 32) of
                  Inl _ \<Rightarrow> (Inl 422, db)
                | Inr challenge_bytes \<Rightarrow>
                    (case live_challenge now (pr_challenge_id r) uid (sha256 challenge_bytes) db of
                       None \<Rightarrow> (Inl 409, db)
                     | Some ch \<Rightarrow>
                         let db1 = burn_challenge now (pr_challenge_id r) ch db;
                             reject = (\<lambda>code reason. (Inl code, audit_chat ''e2ee.prekey.update'' uid ''denied'' reason db1))
                         in (case prekey_statement uid did r of
                               Inl _ \<Rightarrow> (Inl 500, db)
                             | Inr statement \<Rightarrow>
                                 if \<not> verify_ed25519_signature ed (dv_identity d) (pr_update_signature r) statement
                                 then reject 422 ''invalid_update_proof''
                                 else (case signed_material r of
                                    Inl _ \<Rightarrow> reject 422 ''invalid_public_material''
                                  | Inr (keys, signed) \<Rightarrow>
                                      if \<not> distinct keys \<or> list_ex (\<lambda>(_, p). pk_public p \<in> set keys) (device_prekeys did db1)
                                      then reject 422 ''reused_prekey''
                                      else if (case signed of None \<Rightarrow> False
                                                | Some b \<Rightarrow> \<not> signature_ok ed (dv_identity d) (pr_signed_prekey_signature r) b)
                                      then reject 422 ''invalid_signed_prekey''
                                      else
                                        let available = length (unused_prekeys did db1);
                                            historical = length (device_prekeys did db1)
                                        in if 100 < available + length keys \<or> 10000 < historical + length keys
                                           then reject 409 ''prekey_capacity''
                                           else
                                             let d' = (case signed of None \<Rightarrow> d
                                                       | Some b \<Rightarrow> d\<lparr>dv_signed_prekey := encode_base64url b,
                                                                    dv_signature := the (pr_signed_prekey_signature r)\<rparr>)
                                             in (Inr (available + length keys),
                                                 audit_chat ''e2ee.prekey.update'' uid ''success'' []
                                                   (db1\<lparr>cd_prekeys := fold (\<lambda>(k, p). dict_set k p) (new_prekeys did now ids keys) (cd_prekeys db1),
                                                        cd_devices := dict_set did d' (cd_devices db1)\<rparr>))))))))"

definition list_e2ee_devices :: "string \<Rightarrow> chat_db \<Rightarrow> (string \<times> device_row) list" where
  "list_e2ee_devices uid db = sort_key (\<lambda>(_, d). dv_created d) (filter (\<lambda>(_, d). dv_user d = uid) (cd_devices db))"

text \<open>The epochs of the private conversations of the account advance once each.\<close>

definition member_sessions :: "string \<Rightarrow> chat_db \<Rightarrow> string list" where
  "member_sessions uid db =
     sort (map (\<lambda>(_, m). mb_session m)
       (filter (\<lambda>(_, m). mb_user m = uid \<and> mb_removed_at m = None \<and>
          (case dict_get (cd_sessions db) (mb_session m) of None \<Rightarrow> False | Some c \<Rightarrow> cv_mode c = ''private_e2ee''))
         (cd_members db)))"

definition advance_epoch :: "string \<Rightarrow> time \<Rightarrow> string \<Rightarrow> chat_db \<Rightarrow> chat_db" where
  "advance_epoch uid now sid db =
     (case dict_get (cd_sessions db) sid of
        None \<Rightarrow> db
      | Some c \<Rightarrow>
          if active_member db sid uid \<noteq> None \<and> cv_mode c = ''private_e2ee''
          then set_conversation sid (c\<lparr>cv_epoch := cv_epoch c + 1, cv_updated := now\<rparr>) db else db)"

definition consume_prekeys_of :: "string \<Rightarrow> time \<Rightarrow> (string, prekey_row) pydict \<Rightarrow> (string, prekey_row) pydict" where
  "consume_prekeys_of did now d =
     dict_map (\<lambda>_ p. if pk_device p = did \<and> pk_consumed p = None then p\<lparr>pk_consumed := Some now\<rparr> else p) d"

definition revoke_e2ee_device ::
  "auth_settings \<Rightarrow> claims option \<Rightarrow> string \<Rightarrow> string \<Rightarrow> time \<Rightarrow> chat_db \<Rightarrow> (nat + unit) \<times> chat_db" where
  "revoke_e2ee_device cfg token uid did now db =
     (case lock_request_mutation cfg token uid True now db of
        Some e \<Rightarrow> (Inl e, db)
      | None \<Rightarrow>
          (case dict_get (cd_devices db) did of
             None \<Rightarrow> (Inl 404, db)
           | Some d \<Rightarrow>
               if dv_user d \<noteq> uid \<or> dv_trust d = ''revoked'' then (Inl 404, db)
               else if length (trusted_devices uid db) \<le> 1 then (Inl 409, db)
               else
                 let db1 = db\<lparr>cd_devices := dict_set did (d\<lparr>dv_trust := ''revoked'', dv_revoked_at := Some now\<rparr>) (cd_devices db),
                              cd_prekeys := consume_prekeys_of did now (cd_prekeys db)\<rparr>
                 in (Inr (), audit_chat ''e2ee.device.revoke'' uid ''success'' []
                       (fold (advance_epoch uid now) (member_sessions uid db1) db1))))"

text \<open>One round of the claim: the conditional update of the candidate that was read.\<close>

definition claim_prekey :: "string \<Rightarrow> string \<Rightarrow> time \<Rightarrow> chat_db \<Rightarrow> (prekey_row \<times> chat_db) option" where
  "claim_prekey kid uid now db =
     (case dict_get (cd_prekeys db) kid of
        None \<Rightarrow> None
      | Some p \<Rightarrow>
          if pk_consumed p = None
          then Some (p, db\<lparr>cd_prekeys := dict_set kid (p\<lparr>pk_consumed := Some now, pk_consumed_by := Some uid\<rparr>) (cd_prekeys db)\<rparr>)
          else None)"

definition oldest_unused :: "string \<Rightarrow> chat_db \<Rightarrow> string option" where
  "oldest_unused did db =
     (case sort_key (\<lambda>(_, p). pk_created p) (unused_prekeys did db) of [] \<Rightarrow> None | (k, _) # _ \<Rightarrow> Some k)"

text \<open>The loop over the candidates read in each round; a round that reads none ends it. Another request may
  have claimed the candidate between the read and the update, so the reads are taken from \<open>views\<close>.\<close>

fun claim_rounds ::
  "auth_settings \<Rightarrow> claims option \<Rightarrow> string \<Rightarrow> string \<Rightarrow> time \<Rightarrow> chat_db list \<Rightarrow> chat_db \<Rightarrow>
   (nat + (string \<times> prekey_row) option) \<times> chat_db" where
  "claim_rounds cfg token did uid now [] db = (Inr None, db)"
| "claim_rounds cfg token did uid now (v # views) db =
     (case oldest_unused did v of
        None \<Rightarrow> (Inr None, db)
      | Some kid \<Rightarrow>
          (case claim_prekey kid uid now db of
             Some (p, db') \<Rightarrow> (Inr (Some (kid, p)), db')
           | None \<Rightarrow>
               (case lock_request_mutation cfg token uid False now db of
                  Some e \<Rightarrow> (Inl e, db)
                | None \<Rightarrow> claim_rounds cfg token did uid now views db)))"

record prekey_bundle =
  bu_user :: string
  bu_device :: string
  bu_name :: string
  bu_fingerprint :: string
  bu_identity :: string
  bu_signed_prekey :: string
  bu_signature :: string
  bu_prekey :: "(string \<times> string) option"

definition consume_prekey_bundle ::
  "auth_settings \<Rightarrow> claims option \<Rightarrow> string \<Rightarrow> bool \<Rightarrow> string \<Rightarrow> string option \<Rightarrow> time \<Rightarrow> chat_db list \<Rightarrow> chat_db \<Rightarrow>
   (nat + prekey_bundle \<times> string option) \<times> chat_db" where
  "consume_prekey_bundle cfg token uid allowed username device_id now views db =
     (if \<not> allowed then (Inl 429, db)
      else case lock_request_mutation cfg token uid False now db of
        Some e \<Rightarrow> (Inl e, db)
      | None \<Rightarrow>
          (case find (\<lambda>(_, u). ur_username u = py_lower (py_strip username) \<and> ur_active u) (ad_users (cd_auth db)) of
             None \<Rightarrow> (Inl 404, db)
           | Some (target, _) \<Rightarrow>
               (case sort_key (\<lambda>(_, d). dv_created d)
                       (filter (\<lambda>(k, d). \<not> truthy device_id \<or> Some k = device_id) (trusted_devices target db)) of
                  [] \<Rightarrow> (Inl 404, db)
                | (did, d) # _ \<Rightarrow>
                    (case claim_rounds cfg token did uid now (take 3 views) db of
                       (Inl e, db1) \<Rightarrow> (Inl e, db1)
                     | (Inr claimed, db1) \<Rightarrow>
                         (Inr (\<lparr>bu_user = target, bu_device = did, bu_name = dv_name d, bu_fingerprint = dv_fingerprint d,
                                bu_identity = dv_identity d, bu_signed_prekey = dv_signed_prekey d, bu_signature = dv_signature d,
                                bu_prekey = map_option (\<lambda>(_, p). (pk_key_id p, pk_public p)) claimed\<rparr>, map_option fst claimed),
                          audit_chat ''e2ee.prekey.consume'' uid ''success'' [] db1)))))"

section \<open>What the handlers change\<close>

lemma burn_challenge_simps [simp]:
  "cd_devices (burn_challenge now cid ch db) = cd_devices db" "cd_prekeys (burn_challenge now cid ch db) = cd_prekeys db"
  "cd_challenges (burn_challenge now cid ch db) = dict_set cid (ch\<lparr>dc_consumed := Some now\<rparr>) (cd_challenges db)"
  by (simp_all add: burn_challenge_def)

lemma advance_epoch_simps [simp]:
  "cd_devices (advance_epoch uid now sid db) = cd_devices db" "cd_challenges (advance_epoch uid now sid db) = cd_challenges db"
  "cd_prekeys (advance_epoch uid now sid db) = cd_prekeys db" "cd_members (advance_epoch uid now sid db) = cd_members db"
  "cd_envelopes (advance_epoch uid now sid db) = cd_envelopes db" "cd_auth (advance_epoch uid now sid db) = cd_auth db"
  by (simp_all add: advance_epoch_def set_conversation_def split: option.split)

lemma fold_advance_simps [simp]:
  "cd_devices (fold (advance_epoch uid now) sids db) = cd_devices db"
  "cd_challenges (fold (advance_epoch uid now) sids db) = cd_challenges db"
  "cd_prekeys (fold (advance_epoch uid now) sids db) = cd_prekeys db"
  "cd_members (fold (advance_epoch uid now) sids db) = cd_members db"
  "cd_envelopes (fold (advance_epoch uid now) sids db) = cd_envelopes db"
  by (induction sids arbitrary: db) simp_all

text \<open>A challenge that is redeemed was unused, and is used afterwards.\<close>

definition redeems :: "string \<Rightarrow> chat_db \<Rightarrow> chat_db \<Rightarrow> bool" where
  "redeems cid db db' \<longleftrightarrow>
     (\<exists>ch t. dict_get (cd_challenges db) cid = Some ch \<and> dc_consumed ch = None \<and>
        cd_challenges db' = dict_set cid (ch\<lparr>dc_consumed := Some t\<rparr>) (cd_challenges db))"

lemma live_challenge_SomeD:
  "live_challenge now cid uid digest db = Some ch \<Longrightarrow> dict_get (cd_challenges db) cid = Some ch \<and> dc_consumed ch = None"
  by (auto simp: live_challenge_def split: option.splits if_splits)

lemma find_approver_Inr:
  assumes "find_approver ed uid r key db = Inr ap"
  shows "(ap = None \<and> trusted_devices uid db = []) \<or>
         (\<exists>aid a s. ap = Some aid \<and> (aid, a) \<in> set (cd_devices db) \<and> dv_user a = uid \<and> dv_trust a = ''trusted'' \<and>
            dr_approval_signature r = Some s \<and>
            verify_device_approval ed (dv_identity a) s uid aid (dr_device_id r) key (dr_challenge r) \<and>
            dr_approver_device_id r = Some aid)"
proof (cases "trusted_devices uid db = []")
  case False
  then obtain aid a where f: "find (\<lambda>(k, _). Some k = dr_approver_device_id r) (trusted_devices uid db) = Some (aid, a)"
    "ap = Some aid" "truthy (dr_approval_signature r)"
    "verify_device_approval ed (dv_identity a) (the (dr_approval_signature r)) uid aid (dr_device_id r) key (dr_challenge r)"
    using assms by (auto simp: find_approver_def Let_def split: if_splits option.splits)
  then have "(aid, a) \<in> set (trusted_devices uid db)" "dr_approver_device_id r = Some aid"
    by (auto simp: find_Some_iff) (metis nth_mem)
  then show ?thesis
    using f by (auto simp: trusted_devices_def truthy_def)
qed (use assms in \<open>simp add: find_approver_def\<close>)

definition fresh_device :: "string \<Rightarrow> string option \<Rightarrow> device_row \<Rightarrow> bool" where
  "fresh_device uid ap d \<longleftrightarrow> dv_user d = uid \<and> dv_trust d = ''trusted'' \<and> dv_approved_by d = ap"

lemma register_cases:
  assumes "register_e2ee_device sha256 ed sensitive cfg token uid r ids now db = (res, db')"
  obtains (refused) code where "res = Inl code" "cd_devices db' = cd_devices db" "cd_prekeys db' = cd_prekeys db"
      "cd_challenges db' = cd_challenges db \<or> redeems (dr_challenge_id r) db db'"
  | (registered) d key keys ap where "res = Inr (dr_device_id r)" "redeems (dr_challenge_id r) db db'"
      "dict_get (cd_devices db) (dr_device_id r) = None" "fresh_device uid ap d" "dv_identity d = key"
      "canonical_public_key (dr_identity_key r) = Inr key"
      "verify_device_possession ed (dr_identity_key r) (dr_possession_signature r) uid (dr_device_id r) (dr_challenge r)"
      "find_approver ed uid r key db = Inr ap"
      "cd_devices db' = dict_set (dr_device_id r) d (cd_devices db)"
      "cd_prekeys db' = fold (\<lambda>(k, p). dict_set k p) (new_prekeys (dr_device_id r) now ids keys) (cd_prekeys db)"
proof (cases "lock_request_mutation cfg token uid True now db = None \<and> \<not> sensitive (dr_display_name r)")
  case False
  then show thesis using assms refused by (auto simp: register_e2ee_device_def split: option.splits)
next
  case a: True
  show thesis
  proof (cases "\<exists>cb ch. decode_base64_strict (PStr (dr_challenge r)) 16 (Some 64) None = Inr cb \<and>
      live_challenge now (dr_challenge_id r) uid (sha256 cb) db = Some ch")
    case False
    then show thesis
      using assms a refused by (auto simp: register_e2ee_device_def split: option.splits sum.splits)
  next
    case True
    then obtain cb ch where c: "decode_base64_strict (PStr (dr_challenge r)) 16 (Some 64) None = Inr cb"
        "live_challenge now (dr_challenge_id r) uid (sha256 cb) db = Some ch" by blast
    define db1 where "db1 = burn_challenge now (dr_challenge_id r) ch db"
    have red: "redeems (dr_challenge_id r) db x" if "cd_challenges x = cd_challenges db1" for x
      using live_challenge_SomeD[OF c(2)] that by (auto simp: redeems_def db1_def)
    have same: "cd_devices db1 = cd_devices db" "cd_prekeys db1 = cd_prekeys db" by (simp_all add: db1_def)
    have td: "trusted_devices uid db1 = trusted_devices uid db" by (simp add: trusted_devices_def same)
    have fa: "find_approver ed uid r k db1 = find_approver ed uid r k db" for k by (simp add: find_approver_def td)
    note run = assms[unfolded register_e2ee_device_def conjunct1[OF a] option.case c sum.case if_not_P[OF conjunct2[OF a]] Let_def,
        folded db1_def]
    show thesis
    proof (cases "dict_has (cd_devices db1) (dr_device_id r)")
      case True
      then show thesis using run refused red same by auto
    next
      case new: False
      show thesis
      proof (cases "public_material r")
        case (Inl e)
        then show thesis using run new refused red same by auto
      next
        case (Inr x)
        obtain key signed keys where x: "x = (key, signed, keys)" by (metis prod_cases3)
        have key: "canonical_public_key (dr_identity_key r) = Inr key"
          using Inr x by (auto simp: public_material_def canonical_public_key_def andthen_def split: sum.splits)
        have none: "dict_get (cd_devices db) (dr_device_id r) = None"
          using new same by (simp add: dict_has_def)
        show thesis
          using run new Inr x refused red same fa
          by (auto split: if_splits sum.splits option.splits simp: insert_device_def)
            (rule registered, (auto intro: none key red simp: new_device_def fresh_device_def)+)
      qed
    qed
  qed
qed

lemma update_cases:
  assumes "update_e2ee_prekeys sha256 ed cfg token uid did r ids now db = (res, db')"
  obtains (refused) code where "res = Inl code" "cd_devices db' = cd_devices db" "cd_prekeys db' = cd_prekeys db"
      "cd_challenges db' = cd_challenges db \<or> redeems (pr_challenge_id r) db db'"
  | (updated) n d d' keys where "res = Inr n" "redeems (pr_challenge_id r) db db'"
      "(did, d) \<in> set (cd_devices db)" "dv_user d = uid" "dv_trust d = ''trusted''"
      "dv_user d' = dv_user d" "dv_trust d' = dv_trust d" "dv_approved_by d' = dv_approved_by d"
      "dv_identity d' = dv_identity d" "cd_devices db' = dict_set did d' (cd_devices db)"
      "cd_prekeys db' = fold (\<lambda>(k, p). dict_set k p) (new_prekeys did now ids keys) (cd_prekeys db)"
proof (cases "\<exists>d cb ch. lock_request_mutation cfg token uid True now db = None \<and>
    find (\<lambda>(k, _). k = did) (trusted_devices uid db) = Some (did, d) \<and>
    decode_base64_strict (PStr (pr_challenge r)) 1 None (Some 32) = Inr cb \<and>
    live_challenge now (pr_challenge_id r) uid (sha256 cb) db = Some ch")
  case False
  have "k = did" if "find (\<lambda>(k, _). k = did) (trusted_devices uid db) = Some (k, d)" for k d
    using that by (auto simp: find_Some_iff)
  then show thesis
    using False assms refused by (auto simp: update_e2ee_prekeys_def split: option.splits sum.splits)
next
  case True
  then obtain d cb ch where c: "lock_request_mutation cfg token uid True now db = None"
      "find (\<lambda>(k, _). k = did) (trusted_devices uid db) = Some (did, d)"
      "decode_base64_strict (PStr (pr_challenge r)) 1 None (Some 32) = Inr cb"
      "live_challenge now (pr_challenge_id r) uid (sha256 cb) db = Some ch"
    by blast
  define db1 where "db1 = burn_challenge now (pr_challenge_id r) ch db"
  have red: "redeems (pr_challenge_id r) db x" if "cd_challenges x = cd_challenges db1" for x
    using live_challenge_SomeD[OF c(4)] that by (auto simp: redeems_def db1_def)
  have same: "cd_devices db1 = cd_devices db" "cd_prekeys db1 = cd_prekeys db" by (simp_all add: db1_def)
  have "(did, d) \<in> set (trusted_devices uid db)"
    using c(2) by (metis find_Some_iff nth_mem)
  then have d: "(did, d) \<in> set (cd_devices db)" "dv_user d = uid" "dv_trust d = ''trusted''"
    by (auto simp: trusted_devices_def)
  note run = assms[unfolded update_e2ee_prekeys_def c option.case sum.case prod.case Let_def, folded db1_def]
  show thesis
    using run refused red same
    by (auto split: if_splits sum.splits option.splits) (rule updated[OF _ red d]; simp)+
qed

lemma revoke_cases:
  assumes "revoke_e2ee_device cfg token uid did now db = (res, db')"
  obtains (refused) code where "res = Inl code" "db' = db"
  | (revoked) d where "res = Inr ()" "dict_get (cd_devices db) did = Some d" "dv_user d = uid"
      "2 \<le> length (trusted_devices uid db)"
      "cd_devices db' = dict_set did (d\<lparr>dv_trust := ''revoked'', dv_revoked_at := Some now\<rparr>) (cd_devices db)"
      "cd_prekeys db' = consume_prekeys_of did now (cd_prekeys db)" "cd_challenges db' = cd_challenges db"
proof (cases "\<exists>d. lock_request_mutation cfg token uid True now db = None \<and> dict_get (cd_devices db) did = Some d \<and>
    dv_user d = uid \<and> dv_trust d \<noteq> ''revoked'' \<and> \<not> length (trusted_devices uid db) \<le> 1")
  case True
  then obtain d where d: "lock_request_mutation cfg token uid True now db = None" "dict_get (cd_devices db) did = Some d"
    "dv_user d = uid" "dv_trust d \<noteq> ''revoked''" "\<not> length (trusted_devices uid db) \<le> 1" by blast
  show thesis
    using assms[symmetric] d by (intro revoked[of d]) (simp_all add: revoke_e2ee_device_def Let_def)
next
  case False
  then have "db' = db \<and> (\<exists>code. res = Inl code)"
    using assms unfolding revoke_e2ee_device_def by (auto split: option.splits if_splits)
  then show thesis using refused by blast
qed

lemma claim_prekey_Some:
  assumes "claim_prekey kid uid now db = Some (p, db')"
  shows "dict_get (cd_prekeys db) kid = Some p \<and> pk_consumed p = None \<and>
    cd_prekeys db' = dict_set kid (p\<lparr>pk_consumed := Some now, pk_consumed_by := Some uid\<rparr>) (cd_prekeys db) \<and>
    cd_devices db' = cd_devices db \<and> cd_challenges db' = cd_challenges db"
  using assms by (auto simp: claim_prekey_def split: option.splits if_splits)

lemma claim_rounds_cases:
  assumes "claim_rounds cfg token did uid now views db = (c, db')"
  shows "(\<forall>x. c \<noteq> Inr (Some x)) \<and> db' = db \<or> (\<exists>kid p. c = Inr (Some (kid, p)) \<and> claim_prekey kid uid now db = Some (p, db'))"
  using assms
  by (induction cfg token did uid now views db rule: claim_rounds.induct) (auto split: option.splits prod.splits)

lemma bundle_cases:
  assumes "consume_prekey_bundle cfg token uid allowed name did now views db = (res, db')"
  obtains (none) "cd_devices db' = cd_devices db" "cd_prekeys db' = cd_prekeys db" "cd_challenges db' = cd_challenges db"
      "\<And>b k. res \<noteq> Inr (b, Some k)"
  | (handed) b kid p where "res = Inr (b, Some kid)" "bu_prekey b = Some (pk_key_id p, pk_public p)"
      "dict_get (cd_prekeys db) kid = Some p" "pk_consumed p = None"
      "cd_prekeys db' = dict_set kid (p\<lparr>pk_consumed := Some now, pk_consumed_by := Some uid\<rparr>) (cd_prekeys db)"
      "cd_devices db' = cd_devices db" "cd_challenges db' = cd_challenges db"
proof (cases "\<exists>b k. res = Inr (b, Some k)")
  case False
  then have "cd_devices db' = cd_devices db \<and> cd_prekeys db' = cd_prekeys db \<and> cd_challenges db' = cd_challenges db"
    using assms unfolding consume_prekey_bundle_def
    by (auto split: if_splits option.splits prod.splits list.splits sum.splits dest!: claim_rounds_cases)
  then show thesis using none False by blast
next
  case True
  then obtain b kid where r: "res = Inr (b, Some kid)" by blast
  obtain d views' c db1 where "claim_rounds cfg token d uid now views' db = (Inr c, db1)" "map_option fst c = Some kid"
    "bu_prekey b = map_option (\<lambda>(_, p). (pk_key_id p, pk_public p)) c"
    "cd_prekeys db' = cd_prekeys db1" "cd_devices db' = cd_devices db1" "cd_challenges db' = cd_challenges db1"
    using assms r unfolding consume_prekey_bundle_def
    by (auto split: if_splits option.splits prod.splits list.splits sum.splits)
  then show thesis
    using handed[OF r] claim_rounds_cases[of cfg token d uid now views' db "Inr c" db1] claim_prekey_Some by fastforce
qed

section \<open>Any sequence of requests\<close>

datatype device_event = Redeemed string | Handed string string

text \<open>\<open>elsewhere\<close> is any transaction that leaves devices, challenges and prekeys alone: sign-ins, membership changes,
  messages.\<close>

inductive device_run :: "chat_db \<Rightarrow> device_event list \<Rightarrow> chat_db \<Rightarrow> bool" for db0 where
  start: "device_run db0 [] db0"
| challenge: "device_run db0 tr db \<Longrightarrow> dict_get (cd_challenges db) cid = None \<Longrightarrow>
    create_e2ee_device_challenge sha256 cfg token uid cid raw now db = (res, db') \<Longrightarrow> device_run db0 tr db'"
| register: "device_run db0 tr db \<Longrightarrow> fst ` set ids \<inter> fst ` set (cd_prekeys db) = {} \<Longrightarrow>
    register_e2ee_device sha256 ed sensitive cfg token uid r ids now db = (res, db') \<Longrightarrow>
    device_run db0 (case res of Inl _ \<Rightarrow> tr | Inr _ \<Rightarrow> tr @ [Redeemed (dr_challenge_id r)]) db'"
| update: "device_run db0 tr db \<Longrightarrow> fst ` set ids \<inter> fst ` set (cd_prekeys db) = {} \<Longrightarrow>
    update_e2ee_prekeys sha256 ed cfg token uid did q ids now db = (res2, db') \<Longrightarrow>
    device_run db0 (case res2 of Inl _ \<Rightarrow> tr | Inr _ \<Rightarrow> tr @ [Redeemed (pr_challenge_id q)]) db'"
| revoke: "device_run db0 tr db \<Longrightarrow> revoke_e2ee_device cfg token uid did now db = (res3, db') \<Longrightarrow> device_run db0 tr db'"
| hand_out: "device_run db0 tr db \<Longrightarrow> consume_prekey_bundle cfg token uid allowed name dev now views db = (res4, db') \<Longrightarrow>
    device_run db0 (case res4 of Inr (_, Some kid) \<Rightarrow> tr @ [Handed kid uid] | _ \<Rightarrow> tr) db'"
| elsewhere: "device_run db0 tr db \<Longrightarrow> cd_devices db' = cd_devices db \<Longrightarrow> cd_challenges db' = cd_challenges db \<Longrightarrow>
    cd_prekeys db' = cd_prekeys db \<Longrightarrow> device_run db0 tr db'"

fun redeemed_ids :: "device_event list \<Rightarrow> string list" where
  "redeemed_ids [] = []"
| "redeemed_ids (Redeemed c # tr) = c # redeemed_ids tr"
| "redeemed_ids (Handed k u # tr) = redeemed_ids tr"

fun handed_ids :: "device_event list \<Rightarrow> string list" where
  "handed_ids [] = []"
| "handed_ids (Redeemed c # tr) = handed_ids tr"
| "handed_ids (Handed k u # tr) = k # handed_ids tr"

lemma events_app [simp]:
  "redeemed_ids (tr @ us) = redeemed_ids tr @ redeemed_ids us" "handed_ids (tr @ us) = handed_ids tr @ handed_ids us"
  by (induction tr rule: redeemed_ids.induct) simp_all

text \<open>Used challenges and prekeys stay used.\<close>

definition used_up :: "('r \<Rightarrow> time option) \<Rightarrow> (string, 'r) pydict \<Rightarrow> string \<Rightarrow> bool" where
  "used_up f d k \<longleftrightarrow> (\<exists>r. dict_get d k = Some r \<and> f r \<noteq> None)"

definition spent :: "device_event list \<Rightarrow> chat_db \<Rightarrow> bool" where
  "spent tr db \<longleftrightarrow>
     distinct (redeemed_ids tr) \<and> distinct (handed_ids tr) \<and>
     (\<forall>c\<in>set (redeemed_ids tr). used_up dc_consumed (cd_challenges db) c) \<and>
     (\<forall>k\<in>set (handed_ids tr). used_up pk_consumed (cd_prekeys db) k)"

lemma used_up_set:
  "used_up f d k \<Longrightarrow> (j = k \<Longrightarrow> f r \<noteq> None) \<Longrightarrow> used_up f (dict_set j r d) k"
  by (auto simp: used_up_def)

lemma used_up_fold:
  "used_up f d k \<Longrightarrow> k \<notin> fst ` set rows \<Longrightarrow> used_up f (fold (\<lambda>(i, r). dict_set i r) rows d) k"
  by (induction rows arbitrary: d) (auto simp: used_up_def)

lemma used_up_key: "used_up f d k \<Longrightarrow> k \<in> fst ` set d"
  by (force simp: used_up_def dest: dict_get_SomeD)

lemma new_prekeys_keys: "fst ` set (new_prekeys did now ids keys) \<subseteq> fst ` set ids"
  by (force simp: new_prekeys_def dest: set_zip_leftD)

lemma used_up_new_prekeys:
  "used_up f d k \<Longrightarrow> fst ` set ids \<inter> fst ` set d = {} \<Longrightarrow>
   used_up f (fold (\<lambda>(i, r). dict_set i r) (new_prekeys did now ids keys) d) k"
  using used_up_fold[of f d k "new_prekeys did now ids keys"] used_up_key[of f d k] new_prekeys_keys[of did now ids keys] by blast

lemma used_up_consume: "used_up pk_consumed d k \<Longrightarrow> used_up pk_consumed (consume_prekeys_of did now d) k"
proof -
  assume "used_up pk_consumed d k"
  then obtain r where r: "dict_get d k = Some r" "pk_consumed r \<noteq> None" by (auto simp: used_up_def)
  then have "dict_get (consume_prekeys_of did now d) k = Some r" by (simp add: consume_prekeys_of_def dict_get_map)
  then show ?thesis using r(2) by (auto simp: used_up_def)
qed

lemma redeems_used:
  assumes "redeems c db db'"
  shows "used_up dc_consumed (cd_challenges db') c" "\<not> used_up dc_consumed (cd_challenges db) c"
    "used_up dc_consumed (cd_challenges db) k \<Longrightarrow> used_up dc_consumed (cd_challenges db') k"
  using assms by (auto simp: redeems_def used_up_def)

lemma spent_redeemed:
  assumes "spent tr db" "redeems c db db'"
    "\<And>k. used_up pk_consumed (cd_prekeys db) k \<Longrightarrow> used_up pk_consumed (cd_prekeys db') k"
  shows "spent (tr @ [Redeemed c]) db'"
  using assms redeems_used[OF assms(2)] by (auto simp: spent_def)

lemma spent_mono:
  assumes "spent tr db" "\<And>k. used_up pk_consumed (cd_prekeys db) k \<Longrightarrow> used_up pk_consumed (cd_prekeys db') k"
    "\<And>k. used_up dc_consumed (cd_challenges db) k \<Longrightarrow> used_up dc_consumed (cd_challenges db') k"
  shows "spent tr db'"
  using assms by (auto simp: spent_def)

lemma device_run_spent: "device_run db0 tr db \<Longrightarrow> spent tr db"
proof (induction rule: device_run.induct)
  case start
  then show ?case by (simp add: spent_def)
next
  case (challenge tr db cid sha256 cfg token uid raw now res db')
  have "cd_prekeys db' = cd_prekeys db" "cd_challenges db' = cd_challenges db \<or> (\<exists>r. cd_challenges db' = dict_set cid r (cd_challenges db))"
    using challenge.hyps(3) by (auto simp: create_e2ee_device_challenge_def split: option.splits sum.splits)
  then show ?case
    using challenge.hyps(2) by (intro spent_mono[OF challenge.IH]) (auto simp: used_up_def split: if_splits)
next
  case (register tr db ids sha256 ed sensitive cfg token uid r now res db')
  show ?case
    using register.hyps(3)
  proof (cases rule: register_cases)
    case (refused code)
    then show ?thesis using spent_mono[OF register.IH] redeems_used(3) by auto
  next
    case (registered d key keys ap)
    then show ?thesis
      using spent_redeemed[OF register.IH registered(2)] used_up_new_prekeys[OF _ register.hyps(2)] by simp
  qed
next
  case (update tr db ids sha256 ed cfg token uid did q now res2 db')
  show ?case
    using update.hyps(3)
  proof (cases rule: update_cases)
    case (refused code)
    then show ?thesis using spent_mono[OF update.IH] redeems_used(3) by auto
  next
    case (updated n d d' keys)
    then show ?thesis
      using spent_redeemed[OF update.IH updated(2)] used_up_new_prekeys[OF _ update.hyps(2)] by simp
  qed
next
  case (revoke tr db cfg token uid did now res3 db')
  from revoke.hyps(2) show ?case
    by (cases rule: revoke_cases) (use spent_mono[OF revoke.IH] used_up_consume in auto)
next
  case (hand_out tr db cfg token uid allowed name dev now views res4 db')
  from hand_out.hyps(2) show ?case
  proof (cases rule: bundle_cases)
    case none
    then show ?thesis
      using spent_mono[OF hand_out.IH, of db'] by (auto split: sum.splits prod.splits option.splits)
  next
    case (handed b kid p)
    then have "\<not> used_up pk_consumed (cd_prekeys db) kid" by (simp add: used_up_def)
    then show ?thesis
      using hand_out.IH handed by (auto simp: spent_def used_up_def)
  qed
next
  case (elsewhere tr db db')
  then show ?case by (auto simp: spent_def)
qed

text \<open>C8: One-time material is used once. Whatever requests are interleaved, no prekey is handed to two
  requesters (or twice to one), and no challenge authorises two registrations or prekey updates.\<close>

theorem one_time_material:
  assumes "device_run db0 tr db"
  shows "distinct (handed_ids tr) \<and> distinct (redeemed_ids tr)"
  using device_run_spent[OF assms] by (simp add: spent_def)

section \<open>The devices of an account\<close>

text \<open>Every device is trusted or revoked; an account that has a device has a trusted one; at most one of its
  devices was accepted without an approval, and an approver is a device of the same account.\<close>

definition has_trusted :: "(string, device_row) pydict \<Rightarrow> string \<Rightarrow> bool" where
  "has_trusted ds uid \<longleftrightarrow> (\<exists>j t. dict_get ds j = Some t \<and> dv_user t = uid \<and> dv_trust t = ''trusted'')"

definition approval_ok :: "(string, device_row) pydict \<Rightarrow> string \<Rightarrow> device_row \<Rightarrow> bool" where
  "approval_ok ds k d \<longleftrightarrow>
     (case dv_approved_by d of
        None \<Rightarrow> \<forall>j e. dict_get ds j = Some e \<and> dv_user e = dv_user d \<and> dv_approved_by e = None \<longrightarrow> j = k
      | Some a \<Rightarrow> a \<noteq> k \<and> (\<exists>e. dict_get ds a = Some e \<and> dv_user e = dv_user d))"

definition trust_rooted :: "(string, device_row) pydict \<Rightarrow> bool" where
  "trust_rooted ds \<longleftrightarrow>
     (\<forall>k d. dict_get ds k = Some d \<longrightarrow>
        dv_trust d \<in> {''trusted'', ''revoked''} \<and> has_trusted ds (dv_user d) \<and> approval_ok ds k d)"

lemma trust_rootedD:
  assumes "trust_rooted ds" "dict_get ds k = Some d"
  shows "dv_trust d \<in> {''trusted'', ''revoked''}" "has_trusted ds (dv_user d)" "approval_ok ds k d"
  using assms unfolding trust_rooted_def by blast+

lemma trusted_devices_mem:
  "dict_ok (cd_devices db) \<Longrightarrow>
   (k, d) \<in> set (trusted_devices uid db) \<longleftrightarrow> dict_get (cd_devices db) k = Some d \<and> dv_user d = uid \<and> dv_trust d = ''trusted''"
  by (auto simp: trusted_devices_def dict_get_mem)

lemma approval_ok_set:
  assumes "approval_ok ds i x" "\<And>j e. dict_get ds' j = Some e \<Longrightarrow> dv_user e = dv_user x \<Longrightarrow> dv_approved_by e = None \<Longrightarrow>
      dv_approved_by x = None \<Longrightarrow> j = i \<or> (\<exists>z. dict_get ds j = Some z \<and> dv_user z = dv_user x \<and> dv_approved_by z = None)"
    "\<And>j e. dict_get ds j = Some e \<Longrightarrow> \<exists>z. dict_get ds' j = Some z \<and> dv_user z = dv_user e"
  shows "approval_ok ds' i x"
proof (cases "dv_approved_by x")
  case None
  then show ?thesis using assms(1,2) unfolding approval_ok_def None option.case by blast
next
  case (Some a)
  then show ?thesis using assms(1,3) unfolding approval_ok_def Some option.case by metis
qed

text \<open>A new device: the first of its account, or one with an approver.\<close>

lemma trust_rooted_new:
  assumes "trust_rooted ds" "dict_get ds k = None" "fresh_device uid ap d"
    "ap = None \<Longrightarrow> (\<And>j e. dict_get ds j = Some e \<Longrightarrow> dv_user e \<noteq> uid)"
    "\<And>a. ap = Some a \<Longrightarrow> \<exists>e. dict_get ds a = Some e \<and> dv_user e = uid"
  shows "trust_rooted (dict_set k d ds)"
  unfolding trust_rooted_def
proof (intro allI impI conjI)
  fix i x
  assume x: "dict_get (dict_set k d ds) i = Some x"
  have d: "dv_user d = uid" "dv_trust d = ''trusted''" "dv_approved_by d = ap" using assms(3) by (auto simp: fresh_device_def)
  have new: "has_trusted (dict_set k d ds) uid"
    unfolding has_trusted_def using d by (intro exI[of _ k] exI[of _ d]) simp
  show "dv_trust x \<in> {''trusted'', ''revoked''}" using x d trust_rootedD(1)[OF assms(1)] by (cases "i = k") auto
  show "has_trusted (dict_set k d ds) (dv_user x)"
  proof (cases "i = k")
    case False
    then have "has_trusted ds (dv_user x)" using x trust_rootedD(2)[OF assms(1)] by simp
    then show ?thesis unfolding has_trusted_def using assms(2) by (metis dict_get_set option.distinct(1))
  qed (use x d new in auto)
  show "approval_ok (dict_set k d ds) i x"
  proof (cases "i = k")
    case True
    then have "x = d" using x by simp
    then show ?thesis
      using d assms(2,4,5) True by (cases ap) (auto simp: approval_ok_def split: if_splits)
  next
    case False
    then have i: "dict_get ds i = Some x" using x by simp
    show ?thesis
    proof (rule approval_ok_set[OF trust_rootedD(3)[OF assms(1) i]])
      fix j e
      assume "dict_get (dict_set k d ds) j = Some e" "dv_user e = dv_user x" "dv_approved_by e = None"
      then show "j = i \<or> (\<exists>z. dict_get ds j = Some z \<and> dv_user z = dv_user x \<and> dv_approved_by z = None)"
        using d assms(4)[OF _ i] by (cases "j = k") auto
    next
      fix j e
      assume "dict_get ds j = Some e"
      then show "\<exists>z. dict_get (dict_set k d ds) j = Some z \<and> dv_user z = dv_user e"
        using assms(2) by (cases "j = k") auto
    qed
  qed
qed

text \<open>A row that keeps its account and its approver, while some device of the account stays trusted.\<close>

lemma trust_rooted_update:
  assumes "trust_rooted ds" "dict_get ds k = Some d" "dv_user d' = dv_user d" "dv_approved_by d' = dv_approved_by d"
    "dv_trust d' \<in> {''trusted'', ''revoked''}" "has_trusted (dict_set k d' ds) (dv_user d)"
  shows "trust_rooted (dict_set k d' ds)"
  unfolding trust_rooted_def
proof (intro allI impI conjI)
  fix i x
  assume x: "dict_get (dict_set k d' ds) i = Some x"
  have old: "\<exists>z. dict_get ds l = Some z \<and> dv_user z = dv_user e \<and> dv_approved_by z = dv_approved_by e"
    if "dict_get (dict_set k d' ds) l = Some e" for l e
    using that assms(2-4) by (cases "l = k") auto
  obtain y where y: "dict_get ds i = Some y" "dv_user y = dv_user x" "dv_approved_by y = dv_approved_by x"
    using old[OF x] by blast
  show "dv_trust x \<in> {''trusted'', ''revoked''}"
    using x assms(5) trust_rootedD(1)[OF assms(1)] by (cases "i = k") auto
  show "has_trusted (dict_set k d' ds) (dv_user x)"
  proof (cases "dv_user x = dv_user d")
    case False
    obtain j t where j: "dict_get ds j = Some t" "dv_user t = dv_user x" "dv_trust t = ''trusted''"
      using trust_rootedD(2)[OF assms(1) y(1)] y(2) unfolding has_trusted_def by auto
    then have "j \<noteq> k" using False assms(2) by auto
    then show ?thesis unfolding has_trusted_def using j by (intro exI[of _ j] exI[of _ t]) simp
  qed (use assms(6) in simp)
  have "approval_ok ds i x"
    using trust_rootedD(3)[OF assms(1) y(1)] unfolding approval_ok_def y(2,3) .
  then show "approval_ok (dict_set k d' ds) i x"
  proof (rule approval_ok_set)
    fix j e
    assume "dict_get (dict_set k d' ds) j = Some e" "dv_user e = dv_user x" "dv_approved_by e = None"
    then show "j = i \<or> (\<exists>z. dict_get ds j = Some z \<and> dv_user z = dv_user x \<and> dv_approved_by z = None)"
      using old by metis
  next
    fix j e
    assume "dict_get ds j = Some e"
    then show "\<exists>z. dict_get (dict_set k d' ds) j = Some z \<and> dv_user z = dv_user e"
      using assms(2,3) by (cases "j = k") auto
  qed
qed

lemma trust_rooted_register:
  assumes "trust_rooted (cd_devices db)" "dict_ok (cd_devices db)" "dict_get (cd_devices db) k = None"
    "fresh_device uid ap d" "find_approver ed uid r key db = Inr ap"
  shows "trust_rooted (dict_set k d (cd_devices db))"
proof (rule trust_rooted_new[OF assms(1,3,4)])
  fix j e assume "ap = None" "dict_get (cd_devices db) j = Some e"
  then show "dv_user e \<noteq> uid"
    using find_approver_Inr[OF assms(5)] trust_rootedD(2)[OF assms(1)] trusted_devices_mem[OF assms(2)]
    unfolding has_trusted_def by (metis empty_iff list.set(1) option.distinct(1))
next
  fix a assume "ap = Some a"
  then show "\<exists>e. dict_get (cd_devices db) a = Some e \<and> dv_user e = uid"
    using find_approver_Inr[OF assms(5)] dict_get_mem[OF assms(2)] by auto
qed

lemma another_trusted:
  assumes "dict_ok (cd_devices db)" "2 \<le> length (trusted_devices uid db)"
  shows "\<exists>j t. j \<noteq> k \<and> dict_get (cd_devices db) j = Some t \<and> dv_user t = uid \<and> dv_trust t = ''trusted''"
proof -
  have "dict_ok (trusted_devices uid db)"
    using assms(1) by (simp add: trusted_devices_def)
  then obtain p q where "p \<in> set (trusted_devices uid db)" "q \<in> set (trusted_devices uid db)" "fst p \<noteq> fst q"
    using assms(2) by (cases "trusted_devices uid db"; cases "tl (trusted_devices uid db)") (auto simp: dict_ok_def)
  then show ?thesis
    using trusted_devices_mem[OF assms(1)] by (metis prod.collapse)
qed

section \<open>The history of the devices\<close>

text \<open>Requests one after the other, with the history of registrations (and their requests), revocations and deletions of accounts.
  \<open>ed\<close> is the signature scheme of the service; the other routes leave the device rows alone.\<close>

datatype trust_event = Device_Added string device_request | Device_Revoked string | Devices_Erased string

inductive trust_run :: "ed25519 \<Rightarrow> chat_db \<Rightarrow> trust_event list \<Rightarrow> chat_db \<Rightarrow> bool" for ed db0 where
  start: "trust_run ed db0 [] db0"
| register: "trust_run ed db0 tr db \<Longrightarrow> register_e2ee_device sha256 ed sensitive cfg token uid r ids now db = (res, db') \<Longrightarrow>
    trust_run ed db0 (case res of Inl _ \<Rightarrow> tr | Inr _ \<Rightarrow> tr @ [Device_Added uid r]) db'"
| update: "trust_run ed db0 tr db \<Longrightarrow> update_e2ee_prekeys sha256 ed cfg token uid did q ids now db = (res2, db') \<Longrightarrow> trust_run ed db0 tr db'"
| revoke: "trust_run ed db0 tr db \<Longrightarrow> revoke_e2ee_device cfg token uid did now db = (res3, db') \<Longrightarrow>
    trust_run ed db0 (case res3 of Inl _ \<Rightarrow> tr | Inr _ \<Rightarrow> tr @ [Device_Revoked did]) db'"
| erase: "trust_run ed db0 tr db \<Longrightarrow> cd_devices db' = filter (\<lambda>(_, d). dv_user d \<noteq> uid) (cd_devices db) \<Longrightarrow>
    trust_run ed db0 (tr @ [Devices_Erased uid]) db'"
| elsewhere: "trust_run ed db0 tr db \<Longrightarrow> cd_devices db' = cd_devices db \<Longrightarrow> trust_run ed db0 tr db'"

text \<open>What a device row rests on: its registration, at a time when the account had no device, or when the device that signed the
  approval had been registered for the account and had not been revoked.\<close>

definition vouched :: "ed25519 \<Rightarrow> trust_event list \<Rightarrow> string \<Rightarrow> device_row \<Rightarrow> bool" where
  "vouched ed tr k d \<longleftrightarrow>
     (\<exists>pre r post. tr = pre @ Device_Added (dv_user d) r # post \<and> Devices_Erased (dv_user d) \<notin> set post \<and>
        (dv_trust d = ''trusted'' \<longrightarrow> Device_Revoked k \<notin> set post) \<and>
        dr_device_id r = k \<and> canonical_public_key (dr_identity_key r) = Inr (dv_identity d) \<and>
        verify_device_possession ed (dr_identity_key r) (dr_possession_signature r) (dv_user d) k (dr_challenge r) \<and>
        (case dv_approved_by d of
           None \<Rightarrow> \<forall>pre1 r1 post1. pre = pre1 @ Device_Added (dv_user d) r1 # post1 \<longrightarrow> Devices_Erased (dv_user d) \<in> set post1
         | Some a \<Rightarrow>
             \<exists>s key pre1 r1 post1. dr_approver_device_id r = Some a \<and> dr_approval_signature r = Some s \<and>
               pre = pre1 @ Device_Added (dv_user d) r1 # post1 \<and> Devices_Erased (dv_user d) \<notin> set post1 \<and>
               dr_device_id r1 = a \<and> Device_Revoked a \<notin> set post1 \<and> canonical_public_key (dr_identity_key r1) = Inr key \<and>
               verify_device_approval ed key s (dv_user d) a k (dv_identity d) (dr_challenge r)))"

definition vouched_all :: "ed25519 \<Rightarrow> trust_event list \<Rightarrow> (string, device_row) pydict \<Rightarrow> bool" where
  "vouched_all ed tr ds \<longleftrightarrow> (\<forall>k d. dict_get ds k = Some d \<longrightarrow> vouched ed tr k d)"

text \<open>A registration that the deletion of the account has not undone still has its row.\<close>

definition kept_devices :: "trust_event list \<Rightarrow> (string, device_row) pydict \<Rightarrow> bool" where
  "kept_devices tr ds \<longleftrightarrow>
     (\<forall>pre uid r post. tr = pre @ Device_Added uid r # post \<and> Devices_Erased uid \<notin> set post \<longrightarrow>
        (\<exists>d. dict_get ds (dr_device_id r) = Some d \<and> dv_user d = uid))"

text \<open>The rows stand in the order of their registration, every approver before the devices it approved.\<close>

fun approvers_first :: "(string \<times> string) set \<Rightarrow> (string, device_row) pydict \<Rightarrow> bool" where
  "approvers_first seen [] = True"
| "approvers_first seen ((k, d) # ds) =
     ((case dv_approved_by d of None \<Rightarrow> True | Some a \<Rightarrow> (a, dv_user d) \<in> seen) \<and> approvers_first (insert (k, dv_user d) seen) ds)"

text \<open>A chain of approvals within an account, from a device back to one accepted without an approval.\<close>

fun approval_chain :: "(string, device_row) pydict \<Rightarrow> string \<Rightarrow> string list \<Rightarrow> bool" where
  "approval_chain ds uid [] = False"
| "approval_chain ds uid [k] = (case dict_get ds k of None \<Rightarrow> False | Some d \<Rightarrow> dv_user d = uid \<and> dv_approved_by d = None)"
| "approval_chain ds uid (k # a # ks) =
     ((case dict_get ds k of None \<Rightarrow> False | Some d \<Rightarrow> dv_user d = uid \<and> dv_approved_by d = Some a) \<and> approval_chain ds uid (a # ks))"

definition row_keys :: "(string, device_row) pydict \<Rightarrow> (string \<times> string) set" where
  "row_keys ds = (\<lambda>(k, d). (k, dv_user d)) ` set ds"

lemma approvers_first_append:
  "approvers_first seen (xs @ ys) \<longleftrightarrow> approvers_first seen xs \<and> approvers_first (seen \<union> row_keys xs) ys"
  by (induction seen xs rule: approvers_first.induct) (auto simp: row_keys_def)

lemma approvers_first_update:
  assumes "approvers_first seen ds" "dict_get ds k = Some d" "dv_user d' = dv_user d" "dv_approved_by d' = dv_approved_by d"
  shows "approvers_first seen (dict_set k d' ds)"
  using assms(1,2)
  by (induction seen ds rule: approvers_first.induct) (auto simp: dict_get_Cons assms(3,4) split: if_splits option.splits)

lemma approvers_first_mono: "approvers_first seen ds \<Longrightarrow> seen \<subseteq> seen' \<Longrightarrow> approvers_first seen' ds"
  by (induction seen ds arbitrary: seen' rule: approvers_first.induct) (auto split: option.splits, blast+)

lemma approvers_first_erase:
  "approvers_first seen ds \<Longrightarrow>
   approvers_first {(k, u). (k, u) \<in> seen \<and> u \<noteq> uid} (filter (\<lambda>(_, d). dv_user d \<noteq> uid) ds)"
proof (induction seen ds rule: approvers_first.induct)
  case (2 seen k d ds)
  have "{(j, u). (j, u) \<in> insert (k, dv_user d) seen \<and> u \<noteq> uid} \<subseteq> insert (k, dv_user d) {(j, u). (j, u) \<in> seen \<and> u \<noteq> uid}" by auto
  moreover have "dv_user d = uid \<Longrightarrow> {(j, u). (j, u) \<in> insert (k, dv_user d) seen \<and> u \<noteq> uid} = {(j, u). (j, u) \<in> seen \<and> u \<noteq> uid}" by auto
  ultimately show ?case
    using 2 approvers_first_mono by (cases "dv_user d = uid") (auto split: option.splits)
qed simp

lemma approval_chain_exists:
  assumes "dict_ok ds" "approvers_first {} ds" "ds = xs @ (k, d) # ys"
  shows "\<exists>ks. approval_chain ds (dv_user d) (k # ks) \<and> distinct (k # ks) \<and> set ks \<subseteq> fst ` set xs"
  using assms(3)
proof (induction "length xs" arbitrary: xs k d ys rule: less_induct)
  case less
  have k: "dict_get ds k = Some d" "k \<notin> fst ` set xs" using assms(1) less.prems by (auto simp: dict_get_mem dict_ok_def)
  show ?case
  proof (cases "dv_approved_by d")
    case None
    then show ?thesis using k by (intro exI[of _ "[]"]) simp
  next
    case (Some a)
    have "(a, dv_user d) \<in> row_keys xs" using assms(2) Some unfolding less.prems approvers_first_append by simp
    then obtain e where "(a, e) \<in> set xs" "dv_user e = dv_user d" by (auto simp: row_keys_def)
    then obtain xs1 xs2 where xs: "xs = xs1 @ (a, e) # xs2" by (auto dest: split_list)
    then obtain ks where "approval_chain ds (dv_user e) (a # ks)" "distinct (a # ks)" "set ks \<subseteq> fst ` set xs1"
      using less.hyps[of xs1 a e "xs2 @ (k, d) # ys"] less.prems by auto
    then show ?thesis
      using k Some xs \<open>dv_user e = dv_user d\<close> by (intro exI[of _ "a # ks"]) auto
  qed
qed

lemma vouched_extend:
  assumes "vouched ed tr k d" "Devices_Erased (dv_user d) \<notin> set es"
    "dv_trust d' = ''trusted'' \<Longrightarrow> dv_trust d = ''trusted'' \<and> Device_Revoked k \<notin> set es"
    "dv_user d' = dv_user d" "dv_identity d' = dv_identity d" "dv_approved_by d' = dv_approved_by d"
  shows "vouched ed (tr @ es) k d'"
proof -
  obtain pre r post where h: "tr = pre @ Device_Added (dv_user d) r # post" "Devices_Erased (dv_user d) \<notin> set post"
    "dv_trust d = ''trusted'' \<longrightarrow> Device_Revoked k \<notin> set post"
    "dr_device_id r = k \<and> canonical_public_key (dr_identity_key r) = Inr (dv_identity d) \<and>
        verify_device_possession ed (dr_identity_key r) (dr_possession_signature r) (dv_user d) k (dr_challenge r) \<and>
        (case dv_approved_by d of
           None \<Rightarrow> \<forall>pre1 r1 post1. pre = pre1 @ Device_Added (dv_user d) r1 # post1 \<longrightarrow> Devices_Erased (dv_user d) \<in> set post1
         | Some a \<Rightarrow>
             \<exists>s key pre1 r1 post1. dr_approver_device_id r = Some a \<and> dr_approval_signature r = Some s \<and>
               pre = pre1 @ Device_Added (dv_user d) r1 # post1 \<and> Devices_Erased (dv_user d) \<notin> set post1 \<and>
               dr_device_id r1 = a \<and> Device_Revoked a \<notin> set post1 \<and> canonical_public_key (dr_identity_key r1) = Inr key \<and>
               verify_device_approval ed key s (dv_user d) a k (dv_identity d) (dr_challenge r))"
    using assms(1) unfolding vouched_def by blast
  show ?thesis
    unfolding vouched_def assms(4-6)
    by (rule exI[of _ pre], rule exI[of _ r], rule exI[of _ "post @ es"]) (use h assms(2,3) in auto)
qed

lemma devices_set_new: "dict_get ds k = None \<Longrightarrow> dict_set k d ds = ds @ [(k, d)]"
  by (induction ds) (auto simp: dict_get_Cons split: if_splits)

lemma kept_devices_extend:
  assumes "kept_devices tr ds" "\<And>uid r. e = Device_Added uid r \<Longrightarrow> \<exists>d. dict_get ds' (dr_device_id r) = Some d \<and> dv_user d = uid"
    "\<And>j x. dict_get ds j = Some x \<Longrightarrow> e \<noteq> Devices_Erased (dv_user x) \<Longrightarrow> \<exists>y. dict_get ds' j = Some y \<and> dv_user y = dv_user x"
  shows "kept_devices (tr @ [e]) ds'"
  unfolding kept_devices_def
proof (intro allI impI, elim conjE)
  fix pre uid r post assume h: "tr @ [e] = pre @ Device_Added uid r # post" "Devices_Erased uid \<notin> set post"
  show "\<exists>d. dict_get ds' (dr_device_id r) = Some d \<and> dv_user d = uid"
  proof (cases post rule: rev_cases)
    case Nil
    then show ?thesis using h(1) assms(2) by simp
  next
    case (snoc post' x)
    then have t: "tr = pre @ Device_Added uid r # post'" "x = e" using h(1) by auto
    then obtain d where "dict_get ds (dr_device_id r) = Some d" "dv_user d = uid"
      using assms(1) h(2) snoc unfolding kept_devices_def by (metis Un_iff set_append)
    then show ?thesis using assms(3) h(2) snoc t(2) by auto
  qed
qed

definition trust_inv :: "ed25519 \<Rightarrow> trust_event list \<Rightarrow> (string, device_row) pydict \<Rightarrow> bool" where
  "trust_inv ed tr ds \<longleftrightarrow> dict_ok ds \<and> trust_rooted ds \<and> approvers_first {} ds \<and> kept_devices tr ds \<and> vouched_all ed tr ds"

lemma trust_inv_added:
  assumes inv: "trust_inv ed tr (cd_devices db)" and new: "dict_get (cd_devices db) (dr_device_id r) = None" "fresh_device uid ap d"
    and key: "canonical_public_key (dr_identity_key r) = Inr (dv_identity d)"
    and proof_: "verify_device_possession ed (dr_identity_key r) (dr_possession_signature r) uid (dr_device_id r) (dr_challenge r)"
    and ap: "find_approver ed uid r (dv_identity d) db = Inr ap"
  shows "trust_inv ed (tr @ [Device_Added uid r]) (dict_set (dr_device_id r) d (cd_devices db))"
proof -
  let ?ds = "cd_devices db" and ?k = "dr_device_id r"
  note i = inv[unfolded trust_inv_def]
  have d: "dv_user d = uid" "dv_trust d = ''trusted''" "dv_approved_by d = ap" using new(2) by (auto simp: fresh_device_def)
  note ap' = find_approver_Inr[OF ap]
  have "approvers_first {} (dict_set ?k d ?ds)"
    using i ap' by (auto simp: devices_set_new[OF new(1)] approvers_first_append d row_keys_def split: option.splits)
  moreover have "kept_devices (tr @ [Device_Added uid r]) (dict_set ?k d ?ds)"
    by (rule kept_devices_extend[of tr ?ds]) (use i d(1) new(1) in auto)
  moreover have "vouched ed (tr @ [Device_Added uid r]) j x" if x: "dict_get (dict_set ?k d ?ds) j = Some x" for j x
  proof (cases "j = ?k")
    case False
    then have "vouched ed tr j x" using x i unfolding vouched_all_def by simp
    then show ?thesis by (rule vouched_extend) simp_all
  next
    case True
    then have x: "x = d" using x by simp
    show ?thesis
    proof (cases ap)
      case None
      then have "trusted_devices uid db = []" using ap' by simp
      then have none: "dv_user e \<noteq> uid" if "dict_get ?ds j = Some e" for j e
        using trust_rootedD(2)[OF _ that] i trusted_devices_mem[of db _ _ uid] unfolding has_trusted_def
        by (metis empty_iff list.set(1))
      have "Devices_Erased uid \<in> set post1" if "tr = pre1 @ Device_Added uid r1 # post1" for pre1 r1 post1
        using i none that unfolding kept_devices_def by blast
      then show ?thesis
        unfolding vouched_def x d None True using key proof_ by (intro exI[of _ tr] exI[of _ r] exI[of _ "[]"]) simp
    next
      case (Some aid)
      then obtain a s where a: "(aid, a) \<in> set ?ds" "dv_user a = uid" "dv_trust a = ''trusted''" "dr_approval_signature r = Some s"
        "verify_device_approval ed (dv_identity a) s uid aid ?k (dv_identity d) (dr_challenge r)" "dr_approver_device_id r = Some aid"
        using ap' by auto
      then have "vouched ed tr aid a" using i dict_get_mem[of ?ds] unfolding vouched_all_def by blast
      then obtain pre1 r1 post1 where v: "tr = pre1 @ Device_Added uid r1 # post1" "Devices_Erased uid \<notin> set post1"
        "Device_Revoked aid \<notin> set post1" "dr_device_id r1 = aid" "canonical_public_key (dr_identity_key r1) = Inr (dv_identity a)"
        using a(2,3) unfolding vouched_def by auto
      have ex: "\<exists>s key pre1 r1 post1. dr_approver_device_id r = Some aid \<and> dr_approval_signature r = Some s \<and>
          tr = pre1 @ Device_Added uid r1 # post1 \<and> Devices_Erased uid \<notin> set post1 \<and>
          dr_device_id r1 = aid \<and> Device_Revoked aid \<notin> set post1 \<and> canonical_public_key (dr_identity_key r1) = Inr key \<and>
          verify_device_approval ed key s uid aid ?k (dv_identity d) (dr_challenge r)"
        by (rule exI[of _ s], rule exI[of _ "dv_identity a"], rule exI[of _ pre1], rule exI[of _ r1], rule exI[of _ post1]) (use a v in simp)
      show ?thesis
        unfolding vouched_def x d Some True option.case
        by (rule exI[of _ tr], rule exI[of _ r], rule exI[of _ "[]"]) (use key proof_ ex in simp)
    qed
  qed
  moreover have "trust_rooted (dict_set ?k d ?ds)" using trust_rooted_register[OF _ _ new ap] i by blast
  ultimately show ?thesis using i unfolding trust_inv_def vouched_all_def by simp
qed

lemma trust_inv_update:
  assumes inv: "trust_inv ed tr ds" and d: "dict_get ds k = Some d"
    and d': "dv_user d' = dv_user d" "dv_identity d' = dv_identity d" "dv_approved_by d' = dv_approved_by d"
    and tr: "dv_trust d' = dv_trust d \<and> es = [] \<or> dv_trust d' = ''revoked'' \<and> es = [Device_Revoked k]"
    and root: "trust_rooted (dict_set k d' ds)"
  shows "trust_inv ed (tr @ es) (dict_set k d' ds)"
proof -
  note i = inv[unfolded trust_inv_def]
  have "vouched ed (tr @ es) j x" if x: "dict_get (dict_set k d' ds) j = Some x" for j x
  proof (cases "j = k")
    case True
    then have "x = d'" "vouched ed tr k d" using x d i unfolding vouched_all_def by auto
    then show ?thesis unfolding True using d' tr by (intro vouched_extend[of ed tr k d]) auto
  next
    case False
    then have "vouched ed tr j x" using x i unfolding vouched_all_def by simp
    then show ?thesis using tr False by (intro vouched_extend[of ed tr j x]) auto
  qed
  moreover have "kept_devices (tr @ es) (dict_set k d' ds)"
  proof (cases es)
    case Nil
    have "\<exists>z. dict_get (dict_set k d' ds) j = Some z \<and> dv_user z = u" if "\<exists>e. dict_get ds j = Some e \<and> dv_user e = u" for j u
      using that d d'(1) by (cases "j = k") auto
    then show ?thesis using i Nil unfolding kept_devices_def by simp
  next
    case (Cons e es')
    then have e: "e = Device_Revoked k" "es' = []" using tr by auto
    show ?thesis unfolding Cons e by (rule kept_devices_extend[of tr ds]) (use i d d'(1) in auto)
  qed
  ultimately show ?thesis
    using i root approvers_first_update[OF _ d d'(1,3)] unfolding trust_inv_def vouched_all_def by simp
qed

lemma trust_inv_erase:
  assumes inv: "trust_inv ed tr ds"
  shows "trust_inv ed (tr @ [Devices_Erased uid]) (filter (\<lambda>(_, d). dv_user d \<noteq> uid) ds)"
proof -
  let ?ds = "filter (\<lambda>(_, d). dv_user d \<noteq> uid) ds"
  note i = inv[unfolded trust_inv_def]
  have get: "dict_get ?ds j = Some x \<longleftrightarrow> dict_get ds j = Some x \<and> dv_user x \<noteq> uid" for j x
    using dict_get_filter[of ds "\<lambda>(_, d). dv_user d \<noteq> uid" j] i by (auto split: option.splits)
  have "trust_rooted ?ds"
    using i unfolding trust_rooted_def has_trusted_def approval_ok_def get by (fastforce split: option.splits)
  moreover have "kept_devices (tr @ [Devices_Erased uid]) ?ds"
    by (rule kept_devices_extend[of tr ds]) (use i get in auto)
  moreover have "vouched ed (tr @ [Devices_Erased uid]) j x" if "dict_get ?ds j = Some x" for j x
    using that i unfolding get vouched_all_def by (intro vouched_extend[of ed tr j x]) auto
  moreover have "approvers_first {} ?ds" using approvers_first_erase[of "{}" ds uid] i by simp
  ultimately show ?thesis using i unfolding trust_inv_def vouched_all_def by (simp add: dict_ok_filter)
qed
lemma trust_run_inv: "trust_run ed db0 tr db \<Longrightarrow> cd_devices db0 = [] \<Longrightarrow> trust_inv ed tr (cd_devices db)"
proof (induction rule: trust_run.induct)
  case start
  then show ?case by (simp add: trust_inv_def trust_rooted_def kept_devices_def vouched_all_def)
next
  case (register tr db sha256 sensitive cfg token uid r ids now res db')
  note inv = register.IH[OF register.prems]
  from register.hyps(2) show ?case
  proof (cases rule: register_cases)
    case (registered d key keys ap)
    then show ?thesis using trust_inv_added[OF inv registered(3,4) _ registered(7)] by simp
  qed (use inv in simp)
next
  case (update tr db sha256 cfg token uid did q ids now res2 db')
  note inv = update.IH[OF update.prems]
  from update.hyps(2) show ?case
  proof (cases rule: update_cases)
    case (updated n d d' keys)
    have "dict_ok (cd_devices db)" using inv by (simp add: trust_inv_def)
    then have d: "dict_get (cd_devices db) did = Some d" using updated(3) by (simp add: dict_get_mem)
    have "has_trusted (dict_set did d' (cd_devices db)) (dv_user d)"
      unfolding has_trusted_def using updated(5-7) by (intro exI[of _ did] exI[of _ d']) simp
    then have "trust_rooted (dict_set did d' (cd_devices db))"
      using trust_rooted_update[OF _ d updated(6,8)] updated(5,7) inv by (simp add: trust_inv_def)
    then show ?thesis
      using trust_inv_update[OF inv d updated(6,9,8), of "[]"] updated(7,10) by simp
  qed (use inv in simp)
next
  case (revoke tr db cfg token uid did now res3 db')
  note inv = revoke.IH[OF revoke.prems]
  from revoke.hyps(2) show ?case
  proof (cases rule: revoke_cases)
    case (revoked d)
    define d' where "d' = d\<lparr>dv_trust := ''revoked'', dv_revoked_at := Some now\<rparr>"
    have f: "dv_user d' = dv_user d" "dv_identity d' = dv_identity d" "dv_approved_by d' = dv_approved_by d" "dv_trust d' = ''revoked''"
      by (simp_all add: d'_def)
    obtain j t where "j \<noteq> did" "dict_get (cd_devices db) j = Some t" "dv_user t = uid" "dv_trust t = ''trusted''"
      using another_trusted[OF _ revoked(4)] inv unfolding trust_inv_def by blast
    then have "has_trusted (dict_set did d' (cd_devices db)) (dv_user d)"
      unfolding has_trusted_def using revoked(3) by (intro exI[of _ j] exI[of _ t]) simp
    then have "trust_rooted (dict_set did d' (cd_devices db))"
      using trust_rooted_update[OF _ revoked(2) f(1,3)] f(4) inv by (simp add: trust_inv_def)
    then show ?thesis
      using trust_inv_update[OF inv revoked(2) f(1-3), of "[Device_Revoked did]"] f(4) revoked(1,5) by (simp add: d'_def)
  qed (use inv in simp)
next
  case (erase tr db db' uid)
  then show ?case using trust_inv_erase by simp
qed simp

text \<open>C16: The devices of an account hang on one root. In every state reached from an empty device table by registrations, prekey
  updates, revocations and deletions of accounts, an account with a device has a trusted one, exactly one of its devices was
  accepted without an approval, and from every device a chain of approvals without a repetition leads back to a device that was.
  Every device proved possession of its key when it was registered; the one without an approval was registered while the account
  had no device; and every other names an approver that had been registered for the account before, had not been revoked, and whose
  key verifies the approval of this account, device, key and challenge.\<close>

theorem device_trust_rooted:
  assumes "trust_run ed db0 tr db" "cd_devices db0 = []" "dict_get (cd_devices db) k = Some d"
  shows "has_trusted (cd_devices db) (dv_user d) \<and> dv_trust d \<in> {''trusted'', ''revoked''} \<and>
     (\<exists>ks. approval_chain (cd_devices db) (dv_user d) (k # ks) \<and> distinct (k # ks)) \<and>
     (\<forall>i j c e. dict_get (cd_devices db) i = Some c \<and> dict_get (cd_devices db) j = Some e \<and> dv_user c = dv_user e \<and>
        dv_approved_by c = None \<and> dv_approved_by e = None \<longrightarrow> i = j) \<and>
     (\<exists>pre r post. tr = pre @ Device_Added (dv_user d) r # post \<and> Devices_Erased (dv_user d) \<notin> set post \<and>
        (dv_trust d = ''trusted'' \<longrightarrow> Device_Revoked k \<notin> set post) \<and>
        dr_device_id r = k \<and> canonical_public_key (dr_identity_key r) = Inr (dv_identity d) \<and>
        verify_device_possession ed (dr_identity_key r) (dr_possession_signature r) (dv_user d) k (dr_challenge r) \<and>
        (case dv_approved_by d of
           None \<Rightarrow> \<forall>pre1 r1 post1. pre = pre1 @ Device_Added (dv_user d) r1 # post1 \<longrightarrow> Devices_Erased (dv_user d) \<in> set post1
         | Some a \<Rightarrow>
             \<exists>s key pre1 r1 post1. dr_approver_device_id r = Some a \<and> dr_approval_signature r = Some s \<and>
               pre = pre1 @ Device_Added (dv_user d) r1 # post1 \<and> Devices_Erased (dv_user d) \<notin> set post1 \<and>
               dr_device_id r1 = a \<and> Device_Revoked a \<notin> set post1 \<and> canonical_public_key (dr_identity_key r1) = Inr key \<and>
               verify_device_approval ed key s (dv_user d) a k (dv_identity d) (dr_challenge r)))"
proof -
  let ?ds = "cd_devices db"
  have inv: "dict_ok ?ds" "trust_rooted ?ds" "approvers_first {} ?ds" "vouched_all ed tr ?ds"
    using trust_run_inv[OF assms(1,2)] by (simp_all add: trust_inv_def)
  obtain xs ys where "?ds = xs @ (k, d) # ys" using split_list[OF dict_get_SomeD[OF assms(3)]] by blast
  from approval_chain_exists[OF inv(1,3) this] have "\<exists>ks. approval_chain ?ds (dv_user d) (k # ks) \<and> distinct (k # ks)" by blast
  moreover have "i = j" if "dict_get ?ds i = Some c" "dict_get ?ds j = Some e" "dv_user c = dv_user e" "dv_approved_by c = None" "dv_approved_by e = None"
    for i j c e
    using trust_rootedD(3)[OF inv(2) that(2)] that unfolding approval_ok_def by simp
  moreover have "vouched ed tr k d" using inv(4) assms(3) unfolding vouched_all_def by blast
  ultimately show ?thesis
    using trust_rootedD(1,2)[OF inv(2) assms(3)] unfolding vouched_def by blast
qed

text \<open>A device is registered only with proofs: the new key signed the possession statement of this account,
  device and challenge, and when the account has a trusted device, one of them signed the approval of exactly
  this device, key and challenge.\<close>

theorem registration_proved:
  assumes "register_e2ee_device sha256 ed sensitive cfg token uid r ids now db = (Inr did, db')"
  shows "did = dr_device_id r \<and> dict_get (cd_devices db) did = None \<and>
    verify_device_possession ed (dr_identity_key r) (dr_possession_signature r) uid did (dr_challenge r) \<and>
    (trusted_devices uid db = [] \<or>
     (\<exists>aid a s key. (aid, a) \<in> set (trusted_devices uid db) \<and> dr_approval_signature r = Some s \<and>
        canonical_public_key (dr_identity_key r) = Inr key \<and>
        verify_device_approval ed (dv_identity a) s uid aid did key (dr_challenge r)))"
  using assms
proof (cases rule: register_cases)
  case (registered d key keys ap)
  then show ?thesis
    using find_approver_Inr[OF registered(8)] by (auto simp: trusted_devices_def)
qed simp

section \<open>A concrete run\<close>

definition demo_chat :: chat_db where
  "demo_chat = \<lparr>cd_auth = demo_auth, cd_sessions = [], cd_messages = [], cd_members = [], cd_envelopes = [], cd_devices = [],
     cd_challenges = [(''c1'', \<lparr>dc_user = ''u1'', dc_hash = demo_sha (replicate 32 CHR ''c''), dc_expires = 300, dc_consumed = None\<rparr>)],
     cd_prekeys = []\<rparr>"

definition demo_signature :: string where
  "demo_signature = encode_base64url (replicate 64 CHR ''s'')"

definition demo_request :: device_request where
  "demo_request = \<lparr>dr_challenge_id = ''c1'', dr_challenge = demo_key CHR ''c'', dr_device_id = ''d1'', dr_display_name = ''phone'',
     dr_identity_key = demo_key CHR ''k'', dr_possession_signature = demo_signature, dr_signed_prekey = demo_key CHR ''p'',
     dr_signed_prekey_signature = demo_signature, dr_one_time_prekeys = [demo_key CHR ''o''], dr_approver_device_id = None,
     dr_approval_signature = None\<rparr>"

lemma demo_verify: "verify_ed25519_signature (\<lambda>_ _ _. True) (demo_key c) demo_signature m"
proof -
  have "decode_base64_strict (PStr demo_signature) 1 None (Some 64) = Inr (replicate 64 CHR ''s'')"
    unfolding demo_signature_def by (rule decode_encoded) (simp_all add: sane_limits_def in_limits_def)
  then show ?thesis by (simp add: verify_ed25519_signature_def demo_key_decode)
qed

lemma demo_possession: "verify_device_possession (\<lambda>_ _ _. True) (demo_key CHR ''k'') demo_signature ''u1'' ''d1'' (demo_key CHR ''c'')"
proof -
  obtain m where "canonical_json_bytes (str_dict [(''account_id'', ''u1''), (''challenge'', demo_key CHR ''c''), (''device_id'', ''d1''),
      (''identity_public_key'', demo_key CHR ''k'')]) ''scap.e2ee.device-possession'' 1 = Inr m"
    using canonical_strings_total[of "[(''account_id'', ''u1''), (''challenge'', demo_key CHR ''c''), (''device_id'', ''d1''),
      (''identity_public_key'', demo_key CHR ''k'')]" "''scap.e2ee.device-possession''"]
    by (auto simp: schema_match_def is_lower_def is_digit_def)
  then show ?thesis
    by (simp add: verify_device_possession_def build_device_possession_message_def demo_canonical demo_identifiers
        andthen_def demo_verify)
qed

lemma demo_fingerprint: "\<exists>f. safety_fingerprint demo_sha [demo_key c] PROTOCOL_DOUBLE_RATCHET = Inr f"
proof -
  obtain b where "canonical_json_bytes (PDict [(PStr ''identity_public_keys'', PList (map (\<lambda>k. PStr (encode_base64url k)) [replicate 32 c])),
      (PStr ''protocol'', PStr PROTOCOL_DOUBLE_RATCHET)]) ''scap.e2ee.safety-fingerprint'' 1 = Inr b"
    using fingerprint_document_total[of "[replicate 32 c]"] by auto
  then show ?thesis
    by (simp add: safety_fingerprint_def e2ee_protocol_def demo_key_decode andthen_def)
qed

definition demo_registered :: chat_db where
  "demo_registered = snd (register_e2ee_device demo_sha (\<lambda>_ _ _. True) (\<lambda>_. False) demo_settings (Some demo_token) ''u1''
     demo_request [(''k1'', ''id1'')] 1 demo_chat)"

lemma demo_register:
  "\<exists>d. fst (register_e2ee_device demo_sha (\<lambda>_ _ _. True) (\<lambda>_. False) demo_settings (Some demo_token) ''u1'' demo_request [(''k1'', ''id1'')] 1
     demo_chat) = Inr ''d1'' \<and> demo_bearer demo_registered \<and> cd_devices demo_registered = [(''d1'', d)] \<and> fresh_device ''u1'' None d \<and>
     cd_prekeys demo_registered = [(''k1'', \<lparr>pk_device = ''d1'', pk_key_id = ''id1'', pk_public = demo_key CHR ''o'', pk_consumed = None,
       pk_consumed_by = None, pk_created = 1\<rparr>)]"
proof -
  have g: "lock_request_mutation demo_settings (Some demo_token) ''u1'' True 1 demo_chat = None"
    by (rule demo_guard) (simp add: demo_bearer_def demo_chat_def demo_auth_def)
  have c: "decode_base64_strict (PStr (dr_challenge demo_request)) 16 (Some 64) None = Inr (replicate 32 CHR ''c'')"
    unfolding demo_request_def demo_key_def
    by simp (rule decode_encoded, simp_all add: sane_limits_def in_limits_def)
  obtain f where f: "safety_fingerprint demo_sha [demo_key CHR ''k''] PROTOCOL_DOUBLE_RATCHET = Inr f"
    using demo_fingerprint by blast
  have m: "public_material demo_request = Inr (demo_key CHR ''k'', replicate 32 CHR ''p'', [demo_key CHR ''o''])"
    by (simp add: public_material_def demo_request_def demo_key_decode andthen_def demo_key_def[symmetric])
  show ?thesis
    unfolding demo_registered_def register_e2ee_device_def g option.case c sum.case m Let_def
    by (simp add: demo_chat_def live_challenge_def demo_request_def dict_get_Cons dict_has_def demo_possession demo_verify f
        find_approver_def trusted_devices_def insert_device_def burn_challenge_def new_prekeys_def fresh_device_def new_device_def
        demo_bearer_def audit_chat_def audit_entry_def demo_auth_def)
qed

lemma demo_registered_run: "device_run demo_chat [Redeemed ''c1''] demo_registered"
proof -
  have "register_e2ee_device demo_sha (\<lambda>_ _ _. True) (\<lambda>_. False) demo_settings (Some demo_token) ''u1'' demo_request [(''k1'', ''id1'')] 1
     demo_chat = (Inr ''d1'', demo_registered)"
    using demo_register by (simp add: demo_registered_def prod_eq_iff)
  from device_run.register[OF device_run.start _ this] show ?thesis by (simp add: demo_chat_def demo_request_def)
qed

lemma demo_trust_run: "trust_run (\<lambda>_ _ _. True) demo_chat [Device_Added ''u1'' demo_request] demo_registered"
proof -
  have "register_e2ee_device demo_sha (\<lambda>_ _ _. True) (\<lambda>_. False) demo_settings (Some demo_token) ''u1'' demo_request [(''k1'', ''id1'')] 1
     demo_chat = (Inr ''d1'', demo_registered)"
    using demo_register by (simp add: demo_registered_def prod_eq_iff)
  from trust_run.register[OF trust_run.start this] show ?thesis by simp
qed

theorem device_trust_rooted_witness:
  "\<exists>d. dict_get (cd_devices demo_registered) ''d1'' = Some d \<and> has_trusted (cd_devices demo_registered) (dv_user d) \<and>
     (\<exists>ks. approval_chain (cd_devices demo_registered) (dv_user d) (''d1'' # ks))"
proof -
  obtain d where d: "dict_get (cd_devices demo_registered) ''d1'' = Some d"
    using demo_register by (auto simp: dict_get_Cons)
  have "cd_devices demo_chat = []" by (simp add: demo_chat_def)
  then show ?thesis
    using device_trust_rooted[OF demo_trust_run _ d] d by blast
qed

theorem registration_proved_witness:
  "verify_device_possession (\<lambda>_ _ _. True) (dr_identity_key demo_request) (dr_possession_signature demo_request) ''u1'' ''d1'' (dr_challenge demo_request)"
proof -
  have "register_e2ee_device demo_sha (\<lambda>_ _ _. True) (\<lambda>_. False) demo_settings (Some demo_token) ''u1'' demo_request [(''k1'', ''id1'')] 1
     demo_chat = (Inr ''d1'', demo_registered)"
    using demo_register by (simp add: demo_registered_def prod_eq_iff)
  from registration_proved[OF this] show ?thesis by blast
qed

theorem one_time_material_witness:
  "\<exists>db. device_run demo_chat [Redeemed ''c1'', Handed ''k1'' ''u1''] db \<and>
        distinct (handed_ids [Redeemed ''c1'', Handed ''k1'' ''u1''])"
proof -
  obtain d where d: "demo_bearer demo_registered" "cd_devices demo_registered = [(''d1'', d)]" "fresh_device ''u1'' None d"
    "cd_prekeys demo_registered = [(''k1'', \<lparr>pk_device = ''d1'', pk_key_id = ''id1'', pk_public = demo_key CHR ''o'', pk_consumed = None,
       pk_consumed_by = None, pk_created = 1\<rparr>)]"
    using demo_register by blast
  have name: "py_lower (py_strip ''ana'') = ''ana''" by code_simp
  have "\<exists>b db. consume_prekey_bundle demo_settings (Some demo_token) ''u1'' True ''ana'' None 1 [demo_registered] demo_registered =
      (Inr (b, Some ''k1''), db)"
    unfolding consume_prekey_bundle_def demo_guard[OF d(1)] name
    using d by (simp add: demo_bearer_def demo_auth_def trusted_devices_def truthy_def fresh_device_def oldest_unused_def
        unused_prekeys_def claim_prekey_def dict_get_Cons)
  then obtain b db where b: "consume_prekey_bundle demo_settings (Some demo_token) ''u1'' True ''ana'' None 1 [demo_registered] demo_registered =
      (Inr (b, Some ''k1''), db)" by blast
  have run: "device_run demo_chat [Redeemed ''c1'', Handed ''k1'' ''u1''] db"
    using device_run.hand_out[OF demo_registered_run b] by simp
  then show ?thesis using one_time_material[OF run] by blast
qed

end
