(* ===== verification/E2ee_Routing.thy ===== *)
theory E2ee_Routing
  imports Conversations E2ee_Devices
begin

text \<open>
  Membership of private conversations and the routing of opaque envelopes (\<^verbatim>\<open>main.py\<close>: the routes under
  \<^verbatim>\<open>/api/sessions/{id}/e2ee\<close>, and \<^verbatim>\<open>revoke_active_e2ee_memberships\<close>). A conversation has a crypto epoch that
  every change of its membership advances; an envelope carries the epoch it was sent in, and a member reads the
  envelopes of the epochs since it joined.

  A handler is one transaction: the time is read once, and the checks repeated after a row lock see the same rows.
\<close>

section \<open>Members\<close>

definition e2ee_session_state ::
  "auth_settings \<Rightarrow> claims option \<Rightarrow> string \<Rightarrow> string \<Rightarrow> time \<Rightarrow> chat_db \<Rightarrow> (nat + string \<times> int \<times> string) \<times> chat_db" where
  "e2ee_session_state cfg token uid sid now db =
     (case require_private_member_session cfg token uid sid now db of
        (Inl e, db1) \<Rightarrow> (Inl e, db1)
      | (Inr (c, _, _), db1) \<Rightarrow> (Inr (sid, cv_epoch c, cv_owner c), db1))"

record member_view =
  mv_user :: string
  mv_username :: string
  mv_role :: string
  mv_joined_epoch :: int
  mv_removed_epoch :: "int option"
  mv_active :: bool

definition list_e2ee_members ::
  "auth_settings \<Rightarrow> claims option \<Rightarrow> string \<Rightarrow> string \<Rightarrow> time \<Rightarrow> chat_db \<Rightarrow> (nat + member_view list) \<times> chat_db" where
  "list_e2ee_members cfg token uid sid now db =
     (case require_private_member_session cfg token uid sid now db of
        (Inl e, db1) \<Rightarrow> (Inl e, db1)
      | (Inr _, db1) \<Rightarrow>
          (Inr (concat (map (\<lambda>(_, m).
                  case dict_get (ad_users (cd_auth db1)) (mb_user m) of
                    None \<Rightarrow> []
                  | Some u \<Rightarrow> [\<lparr>mv_user = mb_user m, mv_username = ur_username u, mv_role = mb_role m,
                      mv_joined_epoch = mb_joined_epoch m, mv_removed_epoch = mb_removed_epoch m,
                      mv_active = (mb_removed_at m = None)\<rparr>])
                (sort_key (\<lambda>(_, m). mb_joined_at m) (filter (\<lambda>(_, m). mb_session m = sid) (cd_members db1))))), db1))"

definition membership_of :: "chat_db \<Rightarrow> string \<Rightarrow> string \<Rightarrow> (string \<times> member_row) option" where
  "membership_of db sid uid = find (\<lambda>(_, m). mb_session m = sid \<and> mb_user m = uid) (cd_members db)"

definition next_epoch :: "time \<Rightarrow> conversation \<Rightarrow> conversation" where
  "next_epoch now c = c\<lparr>cv_epoch := cv_epoch c + 1, cv_updated := now\<rparr>"

definition put_member :: "string \<Rightarrow> member_row \<Rightarrow> chat_db \<Rightarrow> chat_db" where
  "put_member k m db = db\<lparr>cd_members := dict_set k m (cd_members db)\<rparr>"

definition add_e2ee_member ::
  "auth_settings \<Rightarrow> claims option \<Rightarrow> string \<Rightarrow> string \<Rightarrow> string \<Rightarrow> string \<Rightarrow> time \<Rightarrow> chat_db \<Rightarrow> (nat + string \<times> int) \<times> chat_db" where
  "add_e2ee_member cfg token uid sid username mid now db =
     (case step_up_guard cfg token uid now db of
        Some e \<Rightarrow> (Inl e, db)
      | None \<Rightarrow>
          (case find (\<lambda>(_, u). ur_username u = username \<and> ur_active u) (ad_users (cd_auth db)) of
             None \<Rightarrow> (Inl 404, db)
           | Some (target, _) \<Rightarrow>
               if lock_user_row uid True (cd_auth db) = None \<or> lock_user_row target True (cd_auth db) = None then (Inl 404, db)
               else (case lock_request_mutation cfg token uid True now db of
                  Some e \<Rightarrow> (Inl e, db)
                | None \<Rightarrow>
                    (case require_owned_session cfg token uid sid True True False now db of
                       (Inl e, db1) \<Rightarrow> (Inl e, db1)
                     | (Inr c, db1) \<Rightarrow>
                         if cv_mode c \<noteq> ''private_e2ee'' then (Inl 409, db1)
                         else
                           let c' = next_epoch now c;
                               db2 = set_conversation sid c' db1;
                               added = (\<lambda>k m. (Inr (target, cv_epoch c'),
                                  audit_chat ''e2ee.member.add'' uid ''success'' target (put_member k m db2)))
                           in (case membership_of db1 sid target of
                                 None \<Rightarrow>
                                   added mid \<lparr>mb_session = sid, mb_user = target, mb_role = ''member'', mb_joined_epoch = cv_epoch c',
                                     mb_removed_epoch = None, mb_joined_at = now, mb_removed_at = None\<rparr>
                               | Some (k, m) \<Rightarrow>
                                   if mb_removed_at m = None then (Inl 409, db1)
                                   else added k (m\<lparr>mb_joined_epoch := cv_epoch c', mb_removed_epoch := None, mb_joined_at := now,
                                          mb_removed_at := None\<rparr>))))))"

definition removed_member :: "int \<Rightarrow> time \<Rightarrow> member_row \<Rightarrow> member_row" where
  "removed_member ep now m = m\<lparr>mb_removed_epoch := Some ep, mb_removed_at := Some now\<rparr>"

definition remove_e2ee_member ::
  "auth_settings \<Rightarrow> claims option \<Rightarrow> string \<Rightarrow> string \<Rightarrow> string \<Rightarrow> time \<Rightarrow> chat_db \<Rightarrow> (nat + unit) \<times> chat_db" where
  "remove_e2ee_member cfg token uid sid username now db =
     (case step_up_guard cfg token uid now db of
        Some e \<Rightarrow> (Inl e, db)
      | None \<Rightarrow>
          (case require_owned_session cfg token uid sid True False True now db of
             (Inl e, db1) \<Rightarrow> (Inl e, db1)
           | (Inr c, db1) \<Rightarrow>
               if cv_mode c \<noteq> ''private_e2ee'' then (Inl 409, db1)
               else (case find (\<lambda>(_, u). ur_username u = py_lower (py_strip username)) (ad_users (cd_auth db1)) of
                  None \<Rightarrow> (Inl 404, db1)
                | Some (target, _) \<Rightarrow>
                    if target = uid then (Inl 404, db1)
                    else (case active_member db1 sid target of
                       None \<Rightarrow> (Inl 404, db1)
                     | Some (k, m) \<Rightarrow>
                         let c' = next_epoch now c
                         in (Inr (), audit_chat ''e2ee.member.remove'' uid ''success'' target
                               (put_member k (removed_member (cv_epoch c') now m) (set_conversation sid c' db1)))))))"

text \<open>One conversation of the sweep over the memberships of an account; the counter is the number revoked.\<close>

definition revoke_membership :: "string \<Rightarrow> time \<Rightarrow> string \<Rightarrow> nat \<times> chat_db \<Rightarrow> nat \<times> chat_db" where
  "revoke_membership uid now sid w =
     (case w of (n, db) \<Rightarrow>
        (case (dict_get (cd_sessions db) sid, active_member db sid uid) of
           (Some c, Some (k, m)) \<Rightarrow>
             if cv_mode c \<noteq> ''private_e2ee'' then (n, db)
             else let c' = next_epoch now c
                  in (Suc n, put_member k (removed_member (cv_epoch c') now m) (set_conversation sid c' db))
         | _ \<Rightarrow> (n, db)))"

definition revoke_active_e2ee_memberships :: "string \<Rightarrow> time \<Rightarrow> chat_db \<Rightarrow> nat \<times> chat_db" where
  "revoke_active_e2ee_memberships uid now db = fold (revoke_membership uid now) (member_sessions uid db) (0, db)"

section \<open>Envelopes\<close>

record envelope_send =
  es_version :: int
  es_protocol :: string
  es_recipient :: string
  es_recipient_device :: "string option"
  es_epoch :: int
  es_client_id :: string
  es_sender_device :: string
  es_kind :: string
  es_header :: string
  es_ciphertext :: string

definition own_device :: "chat_db \<Rightarrow> string \<Rightarrow> string \<Rightarrow> device_row option" where
  "own_device db did uid =
     (case dict_get (cd_devices db) did of
        None \<Rightarrow> None
      | Some d \<Rightarrow> if dv_user d = uid \<and> dv_trust d = ''trusted'' then Some d else None)"

text \<open>Who the envelope must name as its recipient: the device, or the conversation for MLS application messages and
  commits.\<close>

definition expected_recipient :: "string \<Rightarrow> envelope_send \<Rightarrow> nat + string" where
  "expected_recipient sid p =
     (if es_protocol p = PROTOCOL_DOUBLE_RATCHET then
        (if es_kind p \<noteq> ''application'' \<or> \<not> truthy (es_recipient_device p) then Inl 422 else Inr (the (es_recipient_device p)))
      else if es_protocol p = PROTOCOL_MLS then
        (if es_kind p = ''welcome'' then
           (if \<not> truthy (es_recipient_device p) then Inl 422 else Inr (the (es_recipient_device p)))
         else if es_recipient_device p \<noteq> None then Inl 422 else Inr sid)
      else Inl 422)"

definition recipient_member :: "chat_db \<Rightarrow> string \<Rightarrow> string \<Rightarrow> bool" where
  "recipient_member db sid did =
     (case dict_get (cd_devices db) did of
        None \<Rightarrow> False
      | Some d \<Rightarrow> dv_trust d = ''trusted'' \<and> active_member db sid (dv_user d) \<noteq> None)"

definition payload_dict :: "envelope_send \<Rightarrow> (string, pyval) pydict" where
  "payload_dict p =
     [(''version'', PInt (es_version p)), (''protocol'', PStr (es_protocol p)), (''recipient'', PStr (es_recipient p)),
      (''epoch'', PInt (es_epoch p)), (''client_message_id'', PStr (es_client_id p)),
      (''sender_device_id'', PStr (es_sender_device p)), (''header'', PStr (es_header p)), (''ciphertext'', PStr (es_ciphertext p))]"

definition sealed_row ::
  "string \<Rightarrow> string \<Rightarrow> envelope_send \<Rightarrow> opaque_envelope \<Rightarrow> string \<Rightarrow> time \<Rightarrow> stored_envelope" where
  "sealed_row sid uid p e key now =
     \<lparr>se_session = sid, se_sender_user = uid, se_sender_device = es_sender_device p,
      se_recipient = (if truthy (es_recipient_device p) then es_recipient_device p else None),
      se_protocol = oe_protocol e, se_kind = es_kind p, se_client_id = oe_client_message_id e, se_replay_key = key,
      se_header = oe_header e, se_ciphertext = oe_ciphertext e, se_epoch = oe_epoch e, se_created = now\<rparr>"

text \<open>The flush fails on the unique replay key, or on a primary key already taken.\<close>

definition insert_envelope :: "string \<Rightarrow> stored_envelope \<Rightarrow> chat_db \<Rightarrow> chat_db option" where
  "insert_envelope eid s db =
     (if dict_has (cd_envelopes db) eid \<or> list_ex (\<lambda>(_, x). se_replay_key x = se_replay_key s) (cd_envelopes db) then None
      else Some (db\<lparr>cd_envelopes := dict_set eid s (cd_envelopes db)\<rparr>))"

definition send_e2ee_envelope ::
  "(bytes \<Rightarrow> string) \<Rightarrow> auth_settings \<Rightarrow> chat_settings \<Rightarrow> claims option \<Rightarrow> string \<Rightarrow> string \<Rightarrow> envelope_send \<Rightarrow> string \<Rightarrow> time \<Rightarrow>
   chat_db \<Rightarrow> (nat + stored_envelope) \<times> chat_db" where
  "send_e2ee_envelope sha256 cfg st token uid sid p eid now db =
     (case require_private_member_session cfg token uid sid now db of
        (Inl e, db1) \<Rightarrow> (Inl e, db1)
      | (Inr (c, _, m), db1) \<Rightarrow>
          if own_device db1 (es_sender_device p) uid = None then (Inl 403, db1)
          else if es_epoch p < mb_joined_epoch m \<or> es_epoch p \<noteq> cv_epoch c then (Inl 409, db1)
          else (case expected_recipient sid p of
             Inl e \<Rightarrow> (Inl e, db1)
           | Inr expected \<Rightarrow>
               if truthy (es_recipient_device p) \<and> \<not> recipient_member db1 sid (the (es_recipient_device p)) then (Inl 404, db1)
               else (case validate_opaque_envelope (payload_dict p) (Some expected) MAX_E2EE_HEADER_BYTES MAX_E2EE_CIPHERTEXT_BYTES of
                  Inl _ \<Rightarrow> (Inl 422, db1)
                | Inr env \<Rightarrow>
                    if int (length (filter (\<lambda>(_, x). se_session x = sid) (cd_envelopes db1))) \<ge> max_messages_per_session st
                    then (Inl 409, db1)
                    else (case envelope_replay_key sha256 env of
                       Inl _ \<Rightarrow> (Inl 500, db1)
                     | Inr key \<Rightarrow>
                         let row = sealed_row sid uid p env key now
                         in (case insert_envelope eid row (set_conversation sid (c\<lparr>cv_updated := now\<rparr>) db1) of
                               None \<Rightarrow> (Inl 409, db1)
                             | Some db2 \<Rightarrow> (Inr row, audit_chat ''e2ee.envelope.send'' uid ''success'' (se_protocol row) db2))))))"

text \<open>\<^verbatim>\<open>str(uuid.UUID(x)) == x\<close>: eight, four, four, four and twelve lower-case hexadecimal digits.\<close>

definition lower_hex :: "char \<Rightarrow> bool" where
  "lower_hex c \<longleftrightarrow> c \<in> set ''0123456789abcdef''"

definition canonical_uuid :: "string \<Rightarrow> bool" where
  "canonical_uuid x \<longleftrightarrow> length x = 36 \<and>
     list_all (\<lambda>i. if i \<in> {8, 13, 18, 23} then x ! i = CHR ''-'' else lower_hex (x ! i)) [0..<36]"

definition addressed :: "chat_db \<Rightarrow> string \<Rightarrow> int \<Rightarrow> string \<Rightarrow> (string \<times> stored_envelope) list" where
  "addressed db sid joined did =
     filter (\<lambda>(_, e). se_session e = sid \<and> joined \<le> se_epoch e \<and>
        (se_recipient e = Some did \<or> se_recipient e = None \<and> se_protocol e = PROTOCOL_MLS)) (cd_envelopes db)"

definition oldest_first :: "(string \<times> stored_envelope) list \<Rightarrow> (string \<times> stored_envelope) list" where
  "oldest_first rows = sort_key (\<lambda>(_, e). se_created e) (sort_key fst rows)"

definition receive_e2ee_envelopes ::
  "auth_settings \<Rightarrow> claims option \<Rightarrow> string \<Rightarrow> string \<Rightarrow> string \<Rightarrow> time option \<Rightarrow> string option \<Rightarrow> nat \<Rightarrow> time \<Rightarrow> chat_db \<Rightarrow>
   (nat + (string \<times> stored_envelope) list) \<times> chat_db" where
  "receive_e2ee_envelopes cfg token uid sid did after after_id size_limit now db =
     (case require_private_member_session cfg token uid sid now db of
        (Inl e, db1) \<Rightarrow> (Inl e, db1)
      | (Inr (_, _, m), db1) \<Rightarrow>
          if own_device db1 did uid = None then (Inl 404, db1)
          else
            let rows = addressed db1 sid (mb_joined_epoch m) did;
                answer = (\<lambda>P. (Inr (take size_limit (oldest_first (filter P rows))), db1))
            in (case (after, after_id) of
                  (None, None) \<Rightarrow> answer (\<lambda>_. True)
                | (None, Some _) \<Rightarrow> (Inl 422, db1)
                | (Some t, Some i) \<Rightarrow>
                    if \<not> canonical_uuid i then (Inl 422, db1)
                    else answer (\<lambda>(k, e). t < se_created e \<or> se_created e = t \<and> i < k)
                | (Some t, None) \<Rightarrow>
                    if 1 < length (filter (\<lambda>(_, e). se_created e = t) rows) then (Inl 409, db1)
                    else answer (\<lambda>(_, e). t < se_created e)))"

section \<open>What a handler may do to the three tables\<close>

definition same_rows :: "chat_db \<Rightarrow> chat_db \<Rightarrow> bool" where
  "same_rows db db' \<longleftrightarrow> cd_sessions db' = cd_sessions db \<and> cd_members db' = cd_members db \<and> cd_envelopes db' = cd_envelopes db"

lemma same_rows_refl [simp]: "same_rows db db"
  by (simp add: same_rows_def)

lemma same_rows_audit [simp]: "same_rows db (audit_chat a b c d db') = same_rows db db'"
  by (simp add: same_rows_def)

lemma owned_session_rows:
  assumes "require_owned_session cfg token uid sid upd lk su now db = (r, db1)"
  shows "(\<exists>c. r = Inr c \<and> db1 = db \<and> dict_get (cd_sessions db) sid = Some c \<and> cv_owner c = uid) \<or>
    (\<exists>e. r = Inl e \<and> (same_rows db db1 \<or> same_rows (delete_conversation sid db) db1))"
  using assms by (cases rule: owned_session_cases) auto

lemma private_member_rows:
  assumes "require_private_member_session cfg token uid sid now db = (r, db1)"
  shows "(\<exists>c k m. r = Inr (c, k, m) \<and> db1 = db \<and> dict_get (cd_sessions db) sid = Some c \<and> cv_mode c = ''private_e2ee'' \<and>
      active_member db sid uid = Some (k, m)) \<or>
    (\<exists>e. r = Inl e \<and> (same_rows db db1 \<or> same_rows (delete_conversation sid db) db1))"
proof (cases "lock_request_mutation cfg token uid False now db = None \<and> (\<exists>c. dict_get (cd_sessions db) sid = Some c \<and> cv_mode c = ''private_e2ee'')")
  case False
  then show ?thesis using assms
    by (auto simp: require_private_member_session_def split: option.splits if_splits)
next
  case True
  then obtain c where c: "lock_request_mutation cfg token uid False now db = None" "dict_get (cd_sessions db) sid = Some c"
    "cv_mode c = ''private_e2ee''" by blast
  obtain q db2 where q: "reject_expired_session cfg token uid sid False now db = (q, db2)" by force
  note run = assms[unfolded require_private_member_session_def c(1,2) option.case q prod.case]
  from q show ?thesis
  proof (cases rule: reject_expired_cases)
    case (kept d)
    then have "(case active_member db sid uid of
          None \<Rightarrow> (Inl 404, audit_chat ''authorization.denied'' uid ''denied'' ''membership_revoked'' db)
        | Some (mid, m) \<Rightarrow>
            if high_profile cfg \<and> (case dict_get (ad_users (cd_auth db)) uid of None \<Rightarrow> True | Some u \<Rightarrow> \<not> ur_mfa_enabled u)
            then (Inl 403, audit_chat ''authorization.denied'' uid ''denied'' ''sensitive_session_requires_mfa'' db)
            else (Inr (c, mid, m), db)) = (r, db1)"
      using run[unfolded kept(1,2) option.case] c(3) by simp
    then show ?thesis using c(2,3) by (cases "active_member db sid uid") (auto split: if_splits)
  next
    case (refused e)
    then show ?thesis using run c(3) by auto
  next
    case (removed d)
    then show ?thesis using run c(3) by auto
  qed
qed

section \<open>The routing invariant\<close>

datatype route_event =
    Stored string stored_envelope "string list"
  | Delivered string string string stored_envelope

text \<open>\<open>Stored i e us\<close>: envelope \<open>e\<close> was stored as row \<open>i\<close> while \<open>us\<close> were the active members. \<open>Delivered u d i e\<close>: row
  \<open>i\<close> was handed to device \<open>d\<close> of user \<open>u\<close>.\<close>

definition active_users :: "chat_db \<Rightarrow> string \<Rightarrow> string list" where
  "active_users db sid =
     map (\<lambda>(_, m). mb_user m) (filter (\<lambda>(_, m). mb_session m = sid \<and> mb_removed_at m = None) (cd_members db))"

definition hosts :: "(string, conversation) pydict \<Rightarrow> string \<Rightarrow> int \<Rightarrow> bool" where
  "hosts S sid n \<longleftrightarrow> (\<exists>c. dict_get S sid = Some c \<and> cv_mode c = ''private_e2ee'' \<and> n \<le> cv_epoch c)"

definition seat :: "member_row \<Rightarrow> string \<times> string" where
  "seat m = (mb_session m, mb_user m)"

definition members_ok :: "(string, conversation) pydict \<Rightarrow> (string, member_row) pydict \<Rightarrow> bool" where
  "members_ok S M \<longleftrightarrow> dict_ok M \<and> distinct (map (seat \<circ> snd) M) \<and> (\<forall>(k, m) \<in> set M. hosts S (mb_session m) (mb_joined_epoch m))"

definition envelopes_ok :: "(string, conversation) pydict \<Rightarrow> (string, stored_envelope) pydict \<Rightarrow> bool" where
  "envelopes_ok S E \<longleftrightarrow> dict_ok E \<and> distinct (map (se_replay_key \<circ> snd) E) \<and> (\<forall>(i, e) \<in> set E. hosts S (se_session e) (se_epoch e))"

definition reads :: "member_row \<Rightarrow> stored_envelope \<Rightarrow> bool" where
  "reads m e \<longleftrightarrow> mb_session m = se_session e \<and> mb_removed_at m = None \<and> mb_joined_epoch m \<le> se_epoch e"

definition readers_ok :: "route_event list \<Rightarrow> (string, member_row) pydict \<Rightarrow> (string, stored_envelope) pydict \<Rightarrow> bool" where
  "readers_ok tr M E \<longleftrightarrow>
     (\<forall>(i, e) \<in> set E. \<exists>us. Stored i e us \<in> set tr \<and> se_sender_user e \<in> set us \<and> (\<forall>(k, m) \<in> set M. reads m e \<longrightarrow> mb_user m \<in> set us))"

definition route_inv :: "route_event list \<Rightarrow> chat_db \<Rightarrow> bool" where
  "route_inv tr db \<longleftrightarrow> members_ok (cd_sessions db) (cd_members db) \<and> envelopes_ok (cd_sessions db) (cd_envelopes db) \<and>
     readers_ok tr (cd_members db) (cd_envelopes db)"

lemma route_inv_same: "same_rows db db' \<Longrightarrow> route_inv tr db' = route_inv tr db"
  by (simp add: same_rows_def route_inv_def)

lemma route_inv_trace: "route_inv tr db \<Longrightarrow> set tr \<subseteq> set tr' \<Longrightarrow> route_inv tr' db"
  unfolding route_inv_def readers_ok_def by fastforce

text \<open>A change that stores no envelope keeps the invariant when every conversation in use keeps hosting its rows and
  an active member is an old one or joined after every envelope of its conversation.\<close>

lemma route_inv_step:
  assumes inv: "route_inv tr db"
    and m: "members_ok (cd_sessions db') (cd_members db')"
    and E: "cd_envelopes db' = filter P (cd_envelopes db)"
    and h: "\<And>i e. (i, e) \<in> set (cd_envelopes db') \<Longrightarrow> hosts (cd_sessions db') (se_session e) (se_epoch e)"
    and r: "\<And>k m i e. (k, m) \<in> set (cd_members db') \<Longrightarrow> (i, e) \<in> set (cd_envelopes db') \<Longrightarrow> reads m e \<Longrightarrow>
      \<exists>k0 m0. (k0, m0) \<in> set (cd_members db) \<and> mb_user m0 = mb_user m \<and> reads m0 e"
  shows "route_inv tr db'"
proof -
  have "envelopes_ok (cd_sessions db') (cd_envelopes db')"
    using inv h unfolding E route_inv_def envelopes_ok_def by (auto simp: distinct_map_filter)
  moreover have "readers_ok tr (cd_members db') (cd_envelopes db')"
  proof -
    { fix i e assume i: "(i, e) \<in> set (cd_envelopes db')"
      then have "(i, e) \<in> set (cd_envelopes db)" unfolding E by auto
      then obtain us where us: "Stored i e us \<in> set tr" "se_sender_user e \<in> set us"
        "\<forall>(k, m) \<in> set (cd_members db). reads m e \<longrightarrow> mb_user m \<in> set us"
        using inv unfolding route_inv_def readers_ok_def by fast
      have "\<forall>(k, m) \<in> set (cd_members db'). reads m e \<longrightarrow> mb_user m \<in> set us"
        using us(3) r[OF _ i] by fastforce
      with us(1,2) have "\<exists>us. Stored i e us \<in> set tr \<and> se_sender_user e \<in> set us \<and>
          (\<forall>(k, m) \<in> set (cd_members db'). reads m e \<longrightarrow> mb_user m \<in> set us)" by blast }
    then show ?thesis unfolding readers_ok_def by fast
  qed
  ultimately show ?thesis using m unfolding route_inv_def by blast
qed

lemma hosts_set:
  "hosts (dict_set sid c' S) x n \<longleftrightarrow> (if x = sid then cv_mode c' = ''private_e2ee'' \<and> n \<le> cv_epoch c' else hosts S x n)"
  by (auto simp: hosts_def)

lemma hosts_pop: "hosts (dict_pop sid S) x n \<longleftrightarrow> x \<noteq> sid \<and> hosts S x n"
  by (auto simp: hosts_def)

lemma route_inv_members: "route_inv tr db \<Longrightarrow> (k, m) \<in> set (cd_members db) \<Longrightarrow> hosts (cd_sessions db) (mb_session m) (mb_joined_epoch m)"
  by (auto simp: route_inv_def members_ok_def)

lemma route_inv_envelopes: "route_inv tr db \<Longrightarrow> (i, e) \<in> set (cd_envelopes db) \<Longrightarrow> hosts (cd_sessions db) (se_session e) (se_epoch e)"
  by (auto simp: route_inv_def envelopes_ok_def)

lemma route_inv_delete:
  assumes "route_inv tr db"
  shows "route_inv tr (delete_conversation sid db)"
proof (rule route_inv_step[OF assms, where P = "\<lambda>(_, e). se_session e \<noteq> sid"])
  show "members_ok (cd_sessions (delete_conversation sid db)) (cd_members (delete_conversation sid db))"
    using assms by (auto simp: route_inv_def members_ok_def hosts_pop distinct_map_filter)
  fix i e assume "(i, e) \<in> set (cd_envelopes (delete_conversation sid db))"
  then show "hosts (cd_sessions (delete_conversation sid db)) (se_session e) (se_epoch e)"
    using route_inv_envelopes[OF assms] by (auto simp: hosts_pop)
qed auto

text \<open>The conversation changes, and keeps its mode and an epoch that is no smaller.\<close>

lemma route_inv_conversation:
  assumes inv: "route_inv tr db" and c: "dict_get (cd_sessions db) sid = Some c" "cv_mode c' = cv_mode c" "cv_epoch c \<le> cv_epoch c'"
  shows "route_inv tr (set_conversation sid c' db)"
proof (rule route_inv_step[OF inv, where P = "\<lambda>_. True"])
  have h: "hosts (dict_set sid c' (cd_sessions db)) x n" if "hosts (cd_sessions db) x n" for x n
    using that c by (auto simp: hosts_def)
  show "members_ok (cd_sessions (set_conversation sid c' db)) (cd_members (set_conversation sid c' db))"
    using inv h by (fastforce simp: route_inv_def members_ok_def)
  fix i e assume "(i, e) \<in> set (cd_envelopes (set_conversation sid c' db))"
  then show "hosts (cd_sessions (set_conversation sid c' db)) (se_session e) (se_epoch e)"
    using route_inv_envelopes[OF inv] h by simp
qed auto

lemma put_member_simps [simp]:
  "cd_members (put_member k m db) = dict_set k m (cd_members db)" "cd_sessions (put_member k m db) = cd_sessions db"
  "cd_envelopes (put_member k m db) = cd_envelopes db" "cd_auth (put_member k m db) = cd_auth db" "cd_devices (put_member k m db) = cd_devices db"
  by (simp_all add: put_member_def)

lemma map_dict_set:
  "dict_get d k = Some v0 \<Longrightarrow> f v = f v0 \<Longrightarrow> map (f \<circ> snd) (dict_set k v d) = map (f \<circ> snd) d"
  by (induction d) (auto simp: dict_get_Cons split: if_splits)

lemma dict_set_new: "dict_get d k = None \<Longrightarrow> dict_set k v d = d @ [(k, v)]"
  by (induction d) (auto simp: dict_get_Cons split: if_splits)

lemma set_dict_set: "dict_ok d \<Longrightarrow> p \<in> set (dict_set k v d) \<longleftrightarrow> p = (k, v) \<or> (p \<in> set d \<and> fst p \<noteq> k)"
  using dict_get_mem[of "dict_set k v d" "fst p" "snd p"] dict_get_mem[of d "fst p" "snd p"] by (cases p) (auto split: if_splits)

text \<open>A seat of a conversation is filled or changed: nobody who did not read an envelope before reads it now.\<close>

lemma route_inv_seat:
  assumes inv: "route_inv tr db"
    and new: "dict_get (cd_members db) k = None \<and> seat m \<notin> seat ` snd ` set (cd_members db) \<or>
      (\<exists>m0. dict_get (cd_members db) k = Some m0 \<and> seat m = seat m0)"
    and host: "hosts (cd_sessions db) (mb_session m) (mb_joined_epoch m)"
    and r: "\<And>i e. (i, e) \<in> set (cd_envelopes db) \<Longrightarrow> \<not> reads m e"
  shows "route_inv tr (put_member k m db)"
proof (rule route_inv_step[OF inv, where P = "\<lambda>_. True"])
  have ok: "dict_ok (cd_members db)" "distinct (map (seat \<circ> snd) (cd_members db))"
    using inv by (auto simp: route_inv_def members_ok_def)
  have "distinct (map (seat \<circ> snd) (dict_set k m (cd_members db)))"
    using new ok(2) by (auto simp: dict_set_new image_image map_dict_set simp del: map_map)
  then show "members_ok (cd_sessions (put_member k m db)) (cd_members (put_member k m db))"
    using ok(1) host route_inv_members[OF inv] by (auto simp: members_ok_def set_dict_set)
  show "cd_envelopes (put_member k m db) = filter (\<lambda>_. True) (cd_envelopes db)" by simp
  fix i e assume i: "(i, e) \<in> set (cd_envelopes (put_member k m db))"
  then show "hosts (cd_sessions (put_member k m db)) (se_session e) (se_epoch e)"
    using route_inv_envelopes[OF inv] by simp
  fix k' m' assume "(k', m') \<in> set (cd_members (put_member k m db))" "reads m' e"
  then show "\<exists>k0 m0. (k0, m0) \<in> set (cd_members db) \<and> mb_user m0 = mb_user m' \<and> reads m0 e"
    using r i ok(1) by (auto simp: set_dict_set)
qed

lemma find_SomeD: "find P xs = Some x \<Longrightarrow> x \<in> set xs \<and> P x"
  by (induction xs) (auto split: if_splits)

lemma active_memberD:
  assumes "active_member db sid u = Some (k, m)" "dict_ok (cd_members db)"
  shows "dict_get (cd_members db) k = Some m" "mb_session m = sid" "mb_user m = u" "mb_removed_at m = None"
  using assms by (auto simp: active_member_def dict_get_mem[OF assms(2)] dest!: find_SomeD)

lemma route_inv_dicts: "route_inv tr db \<Longrightarrow> dict_ok (cd_members db) \<and> dict_ok (cd_envelopes db)"
  by (simp add: route_inv_def members_ok_def envelopes_ok_def)

text \<open>Removal: the epoch advances and the member's row is closed.\<close>

lemma route_inv_remove:
  assumes inv: "route_inv tr db" and c: "dict_get (cd_sessions db) sid = Some c" "cv_mode c = ''private_e2ee''"
    and m: "active_member db sid u = Some (k, m)"
  shows "route_inv tr (put_member k (removed_member ep now m) (set_conversation sid (next_epoch now c) db))"
proof (rule route_inv_seat)
  show inv': "route_inv tr (set_conversation sid (next_epoch now c) db)"
    by (rule route_inv_conversation[OF inv c(1)]) (simp_all add: next_epoch_def)
  note d = active_memberD[OF m] route_inv_dicts[OF inv]
  then have g: "dict_get (cd_members db) k = Some m" "(k, m) \<in> set (cd_members db)" by (auto dest: dict_get_SomeD)
  then show "dict_get (cd_members (set_conversation sid (next_epoch now c) db)) k = None \<and>
      seat (removed_member ep now m) \<notin> seat ` snd ` set (cd_members (set_conversation sid (next_epoch now c) db)) \<or>
      (\<exists>m0. dict_get (cd_members (set_conversation sid (next_epoch now c) db)) k = Some m0 \<and> seat (removed_member ep now m) = seat m0)"
    by (simp add: seat_def removed_member_def)
  show "hosts (cd_sessions (set_conversation sid (next_epoch now c) db)) (mb_session (removed_member ep now m))
      (mb_joined_epoch (removed_member ep now m))"
    using route_inv_members[OF inv' , of k m] g(2) by (simp add: removed_member_def)
qed (simp add: reads_def removed_member_def)

text \<open>A new member joins in an epoch later than every stored envelope.\<close>

lemma route_inv_join:
  assumes inv: "route_inv tr db" and c: "dict_get (cd_sessions db) sid = Some c" "cv_mode c = ''private_e2ee''"
    and m: "mb_session m = sid" "mb_joined_epoch m = cv_epoch c + 1"
    and new: "dict_get (cd_members db) k = None \<and> seat m \<notin> seat ` snd ` set (cd_members db) \<or>
      (\<exists>m0. dict_get (cd_members db) k = Some m0 \<and> seat m = seat m0)"
  shows "route_inv tr (put_member k m (set_conversation sid (next_epoch now c) db))"
proof (rule route_inv_seat)
  show "route_inv tr (set_conversation sid (next_epoch now c) db)"
    by (rule route_inv_conversation[OF inv c(1)]) (simp_all add: next_epoch_def)
  show "hosts (cd_sessions (set_conversation sid (next_epoch now c) db)) (mb_session m) (mb_joined_epoch m)"
    using c(2) m by (simp add: hosts_set next_epoch_def)
  show "\<not> reads m e" if "(i, e) \<in> set (cd_envelopes (set_conversation sid (next_epoch now c) db))" for i e
    using route_inv_envelopes[OF inv, of i e] that c m by (auto simp: reads_def hosts_def)
qed (use new in simp)

text \<open>No rows refer to a conversation that does not exist or is not private.\<close>

lemma route_inv_unused:
  assumes "route_inv tr db" "\<And>c. dict_get (cd_sessions db) sid = Some c \<Longrightarrow> cv_mode c \<noteq> ''private_e2ee''"
  shows "(k, m) \<in> set (cd_members db) \<Longrightarrow> mb_session m \<noteq> sid" "(i, e) \<in> set (cd_envelopes db) \<Longrightarrow> se_session e \<noteq> sid"
  using route_inv_members[OF assms(1), of k m] route_inv_envelopes[OF assms(1), of i e] assms(2) by (auto simp: hosts_def)

lemma route_inv_open:
  assumes inv: "route_inv tr db" and sid: "\<And>c. dict_get (cd_sessions db) sid = Some c \<Longrightarrow> cv_mode c \<noteq> ''private_e2ee''"
  shows "route_inv tr (set_conversation sid c' db)"
proof (rule route_inv_step[OF inv, where P = "\<lambda>_. True"])
  have unused: "\<And>k m. (k, m) \<in> set (cd_members db) \<Longrightarrow> mb_session m \<noteq> sid" "\<And>i e. (i, e) \<in> set (cd_envelopes db) \<Longrightarrow> se_session e \<noteq> sid"
    using route_inv_unused[OF inv] sid by blast+
  show "members_ok (cd_sessions (set_conversation sid c' db)) (cd_members (set_conversation sid c' db))"
    using inv unused(1) by (fastforce simp: route_inv_def members_ok_def hosts_set)
  fix i e assume "(i, e) \<in> set (cd_envelopes (set_conversation sid c' db))"
  then show "hosts (cd_sessions (set_conversation sid c' db)) (se_session e) (se_epoch e)"
    using route_inv_envelopes[OF inv] unused(2) by (auto simp: hosts_set)
qed auto

text \<open>A private conversation opens with its owner as its only member, in epoch 1.\<close>

lemma route_inv_open_private:
  assumes inv: "route_inv tr db" and sid: "\<And>c. dict_get (cd_sessions db) sid = Some c \<Longrightarrow> cv_mode c \<noteq> ''private_e2ee''"
    and c': "cv_mode c' = ''private_e2ee''" "cv_epoch c' = 1" and mid: "dict_get (cd_members db) mid = None"
  shows "route_inv tr (put_member mid (owner_member sid uid now) (set_conversation sid c' db))"
proof (rule route_inv_seat)
  show "route_inv tr (set_conversation sid c' db)" by (rule route_inv_open[OF inv sid])
  have unused: "\<And>k m. (k, m) \<in> set (cd_members db) \<Longrightarrow> mb_session m \<noteq> sid" "\<And>i e. (i, e) \<in> set (cd_envelopes db) \<Longrightarrow> se_session e \<noteq> sid"
    using route_inv_unused[OF inv] sid by blast+
  show "dict_get (cd_members (set_conversation sid c' db)) mid = None \<and>
      seat (owner_member sid uid now) \<notin> seat ` snd ` set (cd_members (set_conversation sid c' db)) \<or>
      (\<exists>m0. dict_get (cd_members (set_conversation sid c' db)) mid = Some m0 \<and> seat (owner_member sid uid now) = seat m0)"
    using mid unused(1) by (fastforce simp: seat_def owner_member_def)
  show "hosts (cd_sessions (set_conversation sid c' db)) (mb_session (owner_member sid uid now)) (mb_joined_epoch (owner_member sid uid now))"
    using c' by (simp add: owner_member_def hosts_set)
  show "\<not> reads (owner_member sid uid now) e" if "(i, e) \<in> set (cd_envelopes (set_conversation sid c' db))" for i e
    using that unused(2) by (auto simp: reads_def owner_member_def)
qed

text \<open>A private conversation without envelopes turns into another kind: its members go.\<close>

lemma route_inv_close:
  assumes inv: "route_inv tr db" and none: "\<And>i e. (i, e) \<in> set (cd_envelopes db) \<Longrightarrow> se_session e \<noteq> sid"
  shows "route_inv tr ((set_conversation sid c' db)\<lparr>cd_members := filter (\<lambda>(_, m). mb_session m \<noteq> sid) (cd_members db)\<rparr>)"
    (is "route_inv tr ?db'")
proof (rule route_inv_step[OF inv, where P = "\<lambda>_. True"])
  show "members_ok (cd_sessions ?db') (cd_members ?db')"
    using inv by (auto simp: route_inv_def members_ok_def hosts_set distinct_map_filter)
  fix i e assume "(i, e) \<in> set (cd_envelopes ?db')"
  then show "hosts (cd_sessions ?db') (se_session e) (se_epoch e)"
    using route_inv_envelopes[OF inv] none by (auto simp: hosts_set)
qed auto

text \<open>An envelope of the current epoch, sent by an active member.\<close>

lemma route_inv_store:
  assumes inv: "route_inv tr db" and ins: "insert_envelope eid s db = Some db'"
    and c: "dict_get (cd_sessions db) (se_session s) = Some c" "cv_mode c = ''private_e2ee''" "se_epoch s = cv_epoch c"
    and sender: "se_sender_user s \<in> set (active_users db (se_session s))"
  shows "route_inv (tr @ [Stored eid s (active_users db (se_session s))]) db'"
proof -
  have new: "dict_get (cd_envelopes db) eid = None" "se_replay_key s \<notin> se_replay_key ` snd ` set (cd_envelopes db)"
    and db': "db' = db\<lparr>cd_envelopes := cd_envelopes db @ [(eid, s)]\<rparr>"
    using ins by (auto simp: insert_envelope_def dict_has_def dict_set_new list_ex_iff split: if_splits)
  have old: "route_inv (tr @ [Stored eid s (active_users db (se_session s))]) db" by (rule route_inv_trace[OF inv]) auto
  have "envelopes_ok (cd_sessions db') (cd_envelopes db')"
    using old new c dict_ok_set[of "cd_envelopes db" eid s]
    by (auto simp: route_inv_def envelopes_ok_def db' dict_set_new image_image hosts_def)
  moreover have "readers_ok (tr @ [Stored eid s (active_users db (se_session s))]) (cd_members db') (cd_envelopes db')"
  proof -
    have "mb_user m \<in> set (active_users db (se_session s))" if "(k, m) \<in> set (cd_members db)" "reads m s" for k m
      using that by (force simp: active_users_def reads_def)
    then have "\<forall>(k, m) \<in> set (cd_members db). reads m s \<longrightarrow> mb_user m \<in> set (active_users db (se_session s))" by blast
    then have "readers_ok (tr @ [Stored eid s (active_users db (se_session s))]) (cd_members db) [(eid, s)]"
      using sender unfolding readers_ok_def by auto
    then show ?thesis using old unfolding route_inv_def readers_ok_def db' by auto
  qed
  ultimately show ?thesis using old by (simp add: route_inv_def db')
qed

section \<open>The handlers keep the invariant\<close>

lemma route_inv_owned:
  assumes "require_owned_session cfg token uid sid upd lk su now db = (Inl e, db1)" "route_inv tr db"
  shows "route_inv tr db1"
  using owned_session_rows[OF assms(1)] assms(2) route_inv_same route_inv_delete by blast

lemma route_inv_private:
  assumes "require_private_member_session cfg token uid sid now db = (Inl e, db1)" "route_inv tr db"
  shows "route_inv tr db1"
  using private_member_rows[OF assms(1)] assms(2) route_inv_same route_inv_delete by blast

lemma route_inv_audit [simp]: "route_inv tr (audit_chat a b c d db) = route_inv tr db"
  by (rule route_inv_same) simp

lemma membership_of_None: "membership_of db sid u = None \<Longrightarrow> mb_session m = sid \<Longrightarrow> mb_user m = u \<Longrightarrow> seat m \<notin> seat ` snd ` set (cd_members db)"
  by (fastforce simp: membership_of_def find_None_iff seat_def)

lemma membership_of_Some:
  "membership_of db sid u = Some (k, m) \<Longrightarrow> dict_ok (cd_members db) \<Longrightarrow>
   dict_get (cd_members db) k = Some m \<and> mb_session m = sid \<and> mb_user m = u"
  by (auto simp: membership_of_def dict_get_mem dest!: find_SomeD)

lemma route_inv_add:
  assumes inv: "route_inv tr db" and mid: "dict_get (cd_members db) mid = None"
    and run: "add_e2ee_member cfg token uid sid username mid now db = (r, db')"
  shows "route_inv tr db'"
proof -
  obtain q db1 where q: "require_owned_session cfg token uid sid True True False now db = (q, db1)" by force
  show ?thesis
  proof (cases "\<exists>c. q = Inr c \<and> cv_mode c = ''private_e2ee''")
    case False
    have "route_inv tr db1" using owned_session_rows[OF q] inv route_inv_owned q by blast
    then show ?thesis using run False inv
      by (auto simp: add_e2ee_member_def q split: option.splits if_splits sum.splits)
  next
    case True
    then obtain c where qc: "q = Inr c" "cv_mode c = ''private_e2ee''" by blast
    then have c: "db1 = db" "dict_get (cd_sessions db) sid = Some c" using owned_session_rows[OF q] by auto
    have join: "route_inv tr (put_member k m (set_conversation sid (next_epoch now c) db))"
      if "mb_session m = sid" "mb_joined_epoch m = cv_epoch c + 1"
        "dict_get (cd_members db) k = None \<and> seat m \<notin> seat ` snd ` set (cd_members db) \<or>
         (\<exists>m0. dict_get (cd_members db) k = Some m0 \<and> seat m = seat m0)" for k m
      by (rule route_inv_join[OF inv c(2) qc(2) that])
    show ?thesis
    proof (cases "membership_of db sid (fst (the (find (\<lambda>(_, u). ur_username u = username \<and> ur_active u) (ad_users (cd_auth db)))))")
      case None
      have "route_inv tr (put_member mid
          \<lparr>mb_session = sid, mb_user = fst (the (find (\<lambda>(_, u). ur_username u = username \<and> ur_active u) (ad_users (cd_auth db)))),
           mb_role = ''member'', mb_joined_epoch = cv_epoch (next_epoch now c), mb_removed_epoch = None, mb_joined_at = now,
           mb_removed_at = None\<rparr> (set_conversation sid (next_epoch now c) db))"
        by (rule join) (simp_all add: mid membership_of_None[OF None] next_epoch_def)
      then show ?thesis using run inv None
        by (auto simp: add_e2ee_member_def q qc c(1) Let_def split: option.splits if_splits)
    next
      case (Some p)
      obtain k m where p: "p = (k, m)" by (cases p)
      have g: "dict_get (cd_members db) k = Some m" "mb_session m = sid"
        using membership_of_Some[of db sid _ k m] Some p route_inv_dicts[OF inv] by auto
      have "route_inv tr (put_member k (m\<lparr>mb_joined_epoch := cv_epoch (next_epoch now c), mb_removed_epoch := None, mb_joined_at := now,
          mb_removed_at := None\<rparr>) (set_conversation sid (next_epoch now c) db))"
        by (rule join) (simp_all add: g seat_def next_epoch_def)
      then show ?thesis using run inv Some p
        by (auto simp: add_e2ee_member_def q qc c(1) Let_def split: option.splits if_splits)
    qed
  qed
qed

lemma route_inv_remove_handler:
  assumes inv: "route_inv tr db" and run: "remove_e2ee_member cfg token uid sid username now db = (r, db')"
  shows "route_inv tr db'"
proof -
  obtain q db1 where q: "require_owned_session cfg token uid sid True False True now db = (q, db1)" by force
  show ?thesis
  proof (cases "\<exists>c. q = Inr c \<and> cv_mode c = ''private_e2ee''")
    case False
    have "route_inv tr db1" using owned_session_rows[OF q] inv route_inv_owned q by blast
    then show ?thesis using run False inv
      by (auto simp: remove_e2ee_member_def q split: option.splits if_splits sum.splits)
  next
    case True
    then obtain c where qc: "q = Inr c" "cv_mode c = ''private_e2ee''" by blast
    then have c: "db1 = db" "dict_get (cd_sessions db) sid = Some c" using owned_session_rows[OF q] by auto
    show ?thesis using run inv
      by (auto simp: remove_e2ee_member_def q qc c(1) Let_def split: option.splits if_splits
          intro!: route_inv_remove[OF inv c(2) qc(2)])
  qed
qed

lemma route_inv_revoke_membership: "route_inv tr (snd w) \<Longrightarrow> route_inv tr (snd (revoke_membership uid now sid w))"
  by (cases w) (auto simp: revoke_membership_def Let_def split: option.splits intro: route_inv_remove)

lemma route_inv_revoke_all: "route_inv tr db \<Longrightarrow> route_inv tr (snd (revoke_active_e2ee_memberships uid now db))"
proof -
  have "route_inv tr (snd w) \<Longrightarrow> route_inv tr (snd (fold (revoke_membership uid now) sids w))" for sids w
  proof (induction sids arbitrary: w)
    case (Cons sid sids)
    show ?case using Cons.IH[OF route_inv_revoke_membership[OF Cons.prems]] by simp
  qed simp
  then show "route_inv tr db \<Longrightarrow> ?thesis" by (simp add: revoke_active_e2ee_memberships_def)
qed

lemma route_inv_advance_one: "route_inv tr db \<Longrightarrow> route_inv tr (advance_epoch uid now sid db)"
  by (auto simp: advance_epoch_def split: option.split intro: route_inv_conversation)

lemma route_inv_advance: "route_inv tr db \<Longrightarrow> route_inv tr (fold (advance_epoch uid now) sids db)"
  by (induction sids arbitrary: db) (simp_all add: route_inv_advance_one)

lemma route_inv_device_rows [simp]: "route_inv tr (db\<lparr>cd_devices := a, cd_prekeys := b\<rparr>) = route_inv tr db"
  by (rule route_inv_same) (simp add: same_rows_def)

lemma route_inv_device_revoke:
  assumes "route_inv tr db" "revoke_e2ee_device cfg token uid did now db = (r, db')"
  shows "route_inv tr db'"
  using assms
  by (auto simp: revoke_e2ee_device_def Let_def split: option.splits if_splits intro!: route_inv_advance)

lemma route_inv_create:
  assumes inv: "route_inv tr db" and sid: "dict_get (cd_sessions db) sid = None" and mid: "dict_get (cd_members db) mid = None"
    and run: "create_session_endpoint cfg st sensitive key_ok token uid title mode cls sid mid now db = (r, db')"
  shows "route_inv tr db'"
proof -
  have o: "route_inv tr (set_conversation sid c' db)" for c' by (rule route_inv_open[OF inv]) (simp add: sid)
  have p: "route_inv tr ((set_conversation sid c' db)\<lparr>cd_members := dict_set mid (owner_member sid uid now) (cd_members db)\<rparr>)"
    if "cv_mode c' = ''private_e2ee''" "cv_epoch c' = 1" for c'
    using route_inv_open_private[OF inv _ that mid, of sid uid now] sid by (simp add: put_member_def)
  show ?thesis using run inv o p unfolding create_session_endpoint_def Let_def by (auto split: option.splits if_splits)
qed

lemma route_inv_reclassify:
  assumes inv: "route_inv tr db" and mid: "dict_get (cd_members db) mid = None"
    and run: "update_session_security cfg st key_ok token uid sid mode cls mid now db = (r, db')"
  shows "route_inv tr db'"
proof -
  obtain q db1 where q: "require_owned_session cfg token uid sid True False True now db = (q, db1)" by force
  show ?thesis
  proof (cases q)
    case (Inl e)
    then show ?thesis using run inv route_inv_owned[of cfg token uid sid True False True now db e db1 tr] q
      by (auto simp: update_session_security_def split: option.splits)
  next
    case (Inr c)
    then have c: "db1 = db" "dict_get (cd_sessions db) sid = Some c" using owned_session_rows[OF q] by auto
    let ?c' = "reclassified st mode cls now c"
    let ?db' = "(set_conversation sid ?c' db)\<lparr>cd_members := reclassified_members sid uid mode mid now c (cd_members db)\<rparr>"
    have final: "route_inv tr ?db'"
      if free: "cv_mode c \<noteq> mode \<Longrightarrow> \<not> list_ex (\<lambda>(_, e). se_session e = sid) (cd_envelopes db)"
    proof -
      have m: "cv_mode ?c' = mode" by (simp add: reclassified_def Let_def)
      consider "cv_mode c = mode" | "cv_mode c \<noteq> mode" "mode = ''private_e2ee''"
        | "cv_mode c \<noteq> mode" "cv_mode c = ''private_e2ee''" | "cv_mode c \<noteq> mode" "cv_mode c \<noteq> ''private_e2ee''" "mode \<noteq> ''private_e2ee''"
        by blast
      then show ?thesis
      proof cases
        case 1
        then have "cv_epoch ?c' = cv_epoch c" by (simp add: reclassified_def Let_def)
        then have "route_inv tr (set_conversation sid ?c' db)" using route_inv_conversation[OF inv c(2)] 1 m by simp
        then show ?thesis using 1 by (simp add: reclassified_members_def same_rows_def route_inv_def)
      next
        case 2
        then have "cv_epoch ?c' = 1" by (simp add: reclassified_def Let_def)
        then have "route_inv tr (put_member mid (owner_member sid uid now) (set_conversation sid ?c' db))"
          using route_inv_open_private[OF inv _ _ _ mid, of sid ?c' uid now] c(2) m 2 by simp
        moreover have "\<not> list_ex (\<lambda>(_, m). mb_session m = sid \<and> mb_user m = uid) (cd_members db)"
          using route_inv_unused(1)[OF inv, of sid] c(2) 2 by (fastforce simp: list_ex_iff)
        ultimately show ?thesis using 2 by (simp add: reclassified_members_def put_member_def)
      next
        case 3
        then show ?thesis using route_inv_close[OF inv, of sid ?c'] free by (auto simp: reclassified_members_def list_ex_iff)
      next
        case 4
        then have "route_inv tr (set_conversation sid ?c' db)" using c(2) by (intro route_inv_open[OF inv]) auto
        then show ?thesis using 4 by (simp add: reclassified_members_def route_inv_def)
      qed
    qed
    show ?thesis using run final inv
      by (auto simp: update_session_security_def q Inr c(1) Let_def split: option.splits if_splits)
  qed
qed

lemma route_inv_rename:
  assumes inv: "route_inv tr db" and run: "rename_session_endpoint cfg sensitive token uid sid title now db = (r, db')"
  shows "route_inv tr db'"
proof -
  obtain q db1 where q: "require_owned_session cfg token uid sid True False False now db = (q, db1)" by force
  show ?thesis
  proof (cases q)
    case (Inl e)
    then show ?thesis using run inv route_inv_owned[of cfg token uid sid True False False now db e db1 tr] q
      by (auto simp: rename_session_endpoint_def split: if_splits)
  next
    case (Inr c)
    then have c: "db1 = db" "dict_get (cd_sessions db) sid = Some c" using owned_session_rows[OF q] by auto
    show ?thesis using run inv route_inv_conversation[OF inv c(2)]
      by (auto simp: rename_session_endpoint_def q Inr c(1) split: if_splits)
  qed
qed

lemma route_inv_delete_handler:
  assumes inv: "route_inv tr db" and run: "delete_session_endpoint cfg token uid sid now db = (r, db')"
  shows "route_inv tr db'"
proof -
  obtain q db1 where q: "require_owned_session cfg token uid sid True False True now db = (q, db1)" by force
  then have "route_inv tr db1" using owned_session_rows[OF q] inv route_inv_owned q by blast
  then show ?thesis using run inv
    by (auto simp: delete_session_endpoint_def q split: option.splits sum.splits intro: route_inv_delete)
qed

lemma route_inv_get:
  assumes inv: "route_inv tr db" and run: "get_session_endpoint cfg token uid sid now db = (r, db')"
  shows "route_inv tr db'"
  using owned_session_rows[OF run[unfolded get_session_endpoint_def]] inv run[unfolded get_session_endpoint_def] route_inv_owned
  by blast

lemma route_inv_guard:
  assumes inv: "route_inv tr db" and run: "require_private_member_session cfg token uid sid now db = (r, db')"
  shows "route_inv tr db'"
  using private_member_rows[OF run] inv run route_inv_private by blast

lemma route_inv_state: "route_inv tr db \<Longrightarrow> e2ee_session_state cfg token uid sid now db = (r, db') \<Longrightarrow> route_inv tr db'"
  by (auto simp: e2ee_session_state_def split: prod.splits sum.splits intro: route_inv_guard)

lemma route_inv_list: "route_inv tr db \<Longrightarrow> list_e2ee_members cfg token uid sid now db = (r, db') \<Longrightarrow> route_inv tr db'"
  by (auto simp: list_e2ee_members_def split: prod.splits sum.splits intro: route_inv_guard)

text \<open>What a stored envelope went through.\<close>

lemma send_cases:
  assumes "send_e2ee_envelope sha256 cfg st token uid sid p eid now db = (r, db')"
  obtains (refused) e q where "r = Inl e" "require_private_member_session cfg token uid sid now db = (q, db')"
  | (stored) c k m expected env key db2 where "dict_get (cd_sessions db) sid = Some c" "cv_mode c = ''private_e2ee''"
      "active_member db sid uid = Some (k, m)" "own_device db (es_sender_device p) uid \<noteq> None"
      "mb_joined_epoch m \<le> es_epoch p" "es_epoch p = cv_epoch c" "expected_recipient sid p = Inr expected"
      "truthy (es_recipient_device p) \<Longrightarrow> recipient_member db sid (the (es_recipient_device p))"
      "validate_opaque_envelope (payload_dict p) (Some expected) MAX_E2EE_HEADER_BYTES MAX_E2EE_CIPHERTEXT_BYTES = Inr env"
      "int (length (filter (\<lambda>(_, x). se_session x = sid) (cd_envelopes db))) < max_messages_per_session st"
      "envelope_replay_key sha256 env = Inr key" "r = Inr (sealed_row sid uid p env key now)"
      "insert_envelope eid (sealed_row sid uid p env key now) (set_conversation sid (c\<lparr>cv_updated := now\<rparr>) db) = Some db2"
      "db' = audit_chat ''e2ee.envelope.send'' uid ''success'' (oe_protocol env) db2"
proof -
  obtain q db1 where q: "require_private_member_session cfg token uid sid now db = (q, db1)" by force
  note run = assms[unfolded send_e2ee_envelope_def q prod.case]
  show thesis
  proof (cases q)
    case (Inl e)
    then have "r = Inl e" "db' = db1" using run by auto
    then show thesis using refused q by blast
  next
    case (Inr v)
    then obtain c k m where v: "v = (c, k, m)" "db1 = db" "dict_get (cd_sessions db) sid = Some c" "cv_mode c = ''private_e2ee''"
      "active_member db sid uid = Some (k, m)"
      using private_member_rows[OF q] by auto
    note run = run[unfolded Inr v(1,2) sum.case prod.case Let_def]
    show thesis
    proof (cases r)
      case (Inl e)
      then have "db' = db" using run by (auto split: if_splits sum.splits option.splits)
      then show thesis using refused Inl q v(2) by blast
    next
      case (Inr row)
      then show thesis using run
        by (auto split: if_splits sum.splits option.splits simp: sealed_row_def intro!: stored[OF v(3-5)])
    qed
  qed
qed

lemma sealed_row_simps [simp]:
  "se_session (sealed_row sid uid p e key now) = sid" "se_sender_user (sealed_row sid uid p e key now) = uid"
  "se_epoch (sealed_row sid uid p e key now) = oe_epoch e" "se_replay_key (sealed_row sid uid p e key now) = key"
  "se_sender_device (sealed_row sid uid p e key now) = es_sender_device p"
  by (simp_all add: sealed_row_def)

lemma validated_epoch:
  "validate_opaque_envelope (payload_dict p) ex mh mc = Inr env \<Longrightarrow>
   oe_epoch env = es_epoch p \<and> oe_client_message_id env = es_client_id p \<and> oe_recipient env = es_recipient p \<and>
   oe_sender_device_id env = Some (es_sender_device p)"
  by (auto simp: validate_opaque_envelope_def payload_dict_def field_of_def one_alias_def dict_get_Cons andthen_def e2ee_identifier_def
      split: if_splits sum.splits)

lemma active_users_mem: "active_member db sid u = Some (k, m) \<Longrightarrow> u \<in> set (active_users db sid)"
  by (force simp: active_member_def active_users_def dest!: find_SomeD)

lemma route_inv_send:
  assumes inv: "route_inv tr db" and run: "send_e2ee_envelope sha256 cfg st token uid sid p eid now db = (r, db')"
  shows "route_inv (case r of Inl _ \<Rightarrow> tr | Inr row \<Rightarrow> tr @ [Stored eid row (active_users db sid)]) db'"
  using run
proof (cases rule: send_cases)
  case (refused e q)
  then show ?thesis using route_inv_guard[OF inv] by simp
next
  case (stored c k m expected env key db2)
  let ?c = "c\<lparr>cv_updated := now\<rparr>" and ?row = "sealed_row sid uid p env key now"
  have "route_inv tr (set_conversation sid ?c db)" by (rule route_inv_conversation[OF inv stored(1)]) auto
  moreover have "active_users (set_conversation sid ?c db) sid = active_users db sid" by (simp add: active_users_def)
  ultimately have "route_inv (tr @ [Stored eid ?row (active_users db sid)]) db2"
    using route_inv_store[OF _ stored(13), of tr ?c] stored(2,6) validated_epoch[OF stored(9)] active_users_mem[OF stored(3)] by simp
  then show ?thesis using stored(12,14) by simp
qed

lemma receive_cases:
  assumes "receive_e2ee_envelopes cfg token uid sid did after after_id size_limit now db = (r, db')"
  obtains (refused) e q where "r = Inl e" "require_private_member_session cfg token uid sid now db = (q, db')"
  | (answered) c k m P where "dict_get (cd_sessions db) sid = Some c" "cv_mode c = ''private_e2ee''"
      "active_member db sid uid = Some (k, m)" "own_device db did uid \<noteq> None" "db' = db"
      "r = Inr (take size_limit (oldest_first (filter P (addressed db sid (mb_joined_epoch m) did))))"
proof -
  obtain q db1 where q: "require_private_member_session cfg token uid sid now db = (q, db1)" by force
  note run = assms[unfolded receive_e2ee_envelopes_def q prod.case]
  show thesis
  proof (cases q)
    case (Inl e)
    then have "r = Inl e" "db' = db1" using run by auto
    then show thesis using refused q by blast
  next
    case (Inr v)
    then obtain c k m where v: "v = (c, k, m)" "db1 = db" "dict_get (cd_sessions db) sid = Some c" "cv_mode c = ''private_e2ee''"
      "active_member db sid uid = Some (k, m)"
      using private_member_rows[OF q] by auto
    note run = run[unfolded Inr v(1,2) sum.case prod.case Let_def]
    have "db' = db \<and> ((\<exists>e. r = Inl e) \<or> own_device db did uid \<noteq> None \<and>
        (\<exists>P. r = Inr (take size_limit (oldest_first (filter P (addressed db sid (mb_joined_epoch m) did))))))"
      using run by (cases after; cases after_id) (auto split: if_splits simp del: filter_True)
    then show thesis using refused q v(2) answered[OF v(3-5)] by blast
  qed
qed

lemma addressed_mem:
  "(i, e) \<in> set (take n (oldest_first (filter P (addressed db sid j did)))) \<Longrightarrow>
   (i, e) \<in> set (cd_envelopes db) \<and> se_session e = sid \<and> j \<le> se_epoch e \<and>
   (se_recipient e = Some did \<or> se_recipient e = None \<and> se_protocol e = PROTOCOL_MLS)"
  by (auto simp: oldest_first_def addressed_def dest!: in_set_takeD)

section \<open>Runs\<close>

text \<open>Requests of any callers in any order. The identifiers a handler draws for new rows are not in use. \<open>other\<close> is any
  request that leaves conversations, members and envelopes alone: sign-in, session and account changes, device
  registration, prekeys.\<close>

inductive route_run :: "(bytes \<Rightarrow> string) \<Rightarrow> chat_db \<Rightarrow> route_event list \<Rightarrow> chat_db \<Rightarrow> bool" for sha256 db0 where
  start: "route_run sha256 db0 [] db0"
| other: "route_run sha256 db0 tr db \<Longrightarrow> same_rows db db' \<Longrightarrow> route_run sha256 db0 tr db'"
| send: "route_run sha256 db0 tr db \<Longrightarrow> send_e2ee_envelope sha256 cfg st token uid sid p eid now db = (r, db') \<Longrightarrow>
    route_run sha256 db0 (case r of Inl _ \<Rightarrow> tr | Inr row \<Rightarrow> tr @ [Stored eid row (active_users db sid)]) db'"
| receive: "route_run sha256 db0 tr db \<Longrightarrow> receive_e2ee_envelopes cfg token uid sid did after after_id size_limit now db = (rs, db') \<Longrightarrow>
    route_run sha256 db0 (case rs of Inl _ \<Rightarrow> tr | Inr rows \<Rightarrow> tr @ map (\<lambda>(i, e). Delivered uid did i e) rows) db'"
| show_state: "route_run sha256 db0 tr db \<Longrightarrow> e2ee_session_state cfg token uid sid now db = (r1, db') \<Longrightarrow> route_run sha256 db0 tr db'"
| list_members: "route_run sha256 db0 tr db \<Longrightarrow> list_e2ee_members cfg token uid sid now db = (r2, db') \<Longrightarrow> route_run sha256 db0 tr db'"
| add: "route_run sha256 db0 tr db \<Longrightarrow> dict_get (cd_members db) mid = None \<Longrightarrow>
    add_e2ee_member cfg token uid sid username mid now db = (r3, db') \<Longrightarrow> route_run sha256 db0 tr db'"
| remove: "route_run sha256 db0 tr db \<Longrightarrow> remove_e2ee_member cfg token uid sid username now db = (r4, db') \<Longrightarrow> route_run sha256 db0 tr db'"
| sweep: "route_run sha256 db0 tr db \<Longrightarrow> route_run sha256 db0 tr (snd (revoke_active_e2ee_memberships uid now db))"
| drop_device: "route_run sha256 db0 tr db \<Longrightarrow> revoke_e2ee_device cfg token uid did now db = (r4, db') \<Longrightarrow> route_run sha256 db0 tr db'"
| create: "route_run sha256 db0 tr db \<Longrightarrow> dict_get (cd_sessions db) sid = None \<Longrightarrow> dict_get (cd_members db) mid = None \<Longrightarrow>
    create_session_endpoint cfg st sensitive key_ok token uid title mode cls sid mid now db = (r5, db') \<Longrightarrow> route_run sha256 db0 tr db'"
| open_one: "route_run sha256 db0 tr db \<Longrightarrow> get_session_endpoint cfg token uid sid now db = (r6, db') \<Longrightarrow> route_run sha256 db0 tr db'"
| rename: "route_run sha256 db0 tr db \<Longrightarrow> rename_session_endpoint cfg sensitive token uid sid title now db = (r4, db') \<Longrightarrow> route_run sha256 db0 tr db'"
| reclassify: "route_run sha256 db0 tr db \<Longrightarrow> dict_get (cd_members db) mid = None \<Longrightarrow>
    update_session_security cfg st key_ok token uid sid mode cls mid now db = (r4, db') \<Longrightarrow> route_run sha256 db0 tr db'"
| delete: "route_run sha256 db0 tr db \<Longrightarrow> delete_session_endpoint cfg token uid sid now db = (r4, db') \<Longrightarrow> route_run sha256 db0 tr db'"

lemma route_run_inv: "route_run sha256 db0 tr db \<Longrightarrow> route_inv [] db0 \<Longrightarrow> route_inv tr db"
proof (induction rule: route_run.induct)
  case (receive tr db cfg token uid sid did after after_id size_limit now rs db')
  have "route_inv tr db'" using receive(2) by (cases rule: receive_cases) (auto intro: route_inv_guard receive.IH receive.prems)
  then show ?case by (cases rs) (auto elim: route_inv_trace)
qed (blast intro: iffD2[OF route_inv_same] route_inv_send route_inv_state route_inv_list route_inv_add route_inv_remove_handler
      route_inv_revoke_all route_inv_device_revoke route_inv_create route_inv_get route_inv_rename route_inv_reclassify
      route_inv_delete_handler)+

text \<open>Every delivery has its cause earlier in the trace.\<close>

definition delivered_ok :: "route_event list \<Rightarrow> bool" where
  "delivered_ok tr \<longleftrightarrow>
     (\<forall>tr1 tr2 u d i e. tr = tr1 @ Delivered u d i e # tr2 \<longrightarrow>
        (se_recipient e = Some d \<or> se_recipient e = None \<and> se_protocol e = PROTOCOL_MLS) \<and>
        (\<exists>us. Stored i e us \<in> set tr1 \<and> u \<in> set us \<and> se_sender_user e \<in> set us))"

lemma delivered_ok_app:
  assumes "delivered_ok tr"
    and "\<And>u d i e. Delivered u d i e \<in> set es \<Longrightarrow>
      (se_recipient e = Some d \<or> se_recipient e = None \<and> se_protocol e = PROTOCOL_MLS) \<and>
      (\<exists>us. Stored i e us \<in> set tr \<and> u \<in> set us \<and> se_sender_user e \<in> set us)"
  shows "delivered_ok (tr @ es)"
  unfolding delivered_ok_def
proof (intro allI impI)
  fix tr1 tr2 u d i e
  assume eq: "tr @ es = tr1 @ Delivered u d i e # tr2"
  show "(se_recipient e = Some d \<or> se_recipient e = None \<and> se_protocol e = PROTOCOL_MLS) \<and>
      (\<exists>us. Stored i e us \<in> set tr1 \<and> u \<in> set us \<and> se_sender_user e \<in> set us)"
  proof -
    consider tr3 where "tr = tr1 @ Delivered u d i e # tr3" | ys where "tr1 = tr @ ys" "es = ys @ Delivered u d i e # tr2"
      using eq by (auto simp: append_eq_append_conv2 append_eq_Cons_conv)
    then show ?thesis
    proof cases
      case 1
      then show ?thesis using assms(1) unfolding delivered_ok_def by blast
    next
      case 2
      then have "Delivered u d i e \<in> set es" "set tr \<subseteq> set tr1" by auto
      then show ?thesis using assms(2) by blast
    qed
  qed
qed

lemma receive_delivers:
  assumes inv: "route_inv tr db" and run: "receive_e2ee_envelopes cfg token uid sid did after after_id n now db = (Inr rows, db')"
    and i: "(i, e) \<in> set rows"
  shows "(se_recipient e = Some did \<or> se_recipient e = None \<and> se_protocol e = PROTOCOL_MLS) \<and>
    (\<exists>us. Stored i e us \<in> set tr \<and> uid \<in> set us \<and> se_sender_user e \<in> set us)"
  using run
proof (cases rule: receive_cases)
  case (answered c k m P)
  have e: "(i, e) \<in> set (cd_envelopes db)" "se_session e = sid" "mb_joined_epoch m \<le> se_epoch e"
    "se_recipient e = Some did \<or> se_recipient e = None \<and> se_protocol e = PROTOCOL_MLS"
    using addressed_mem i answered(6) by (metis Inr_inject)+
  have m: "(k, m) \<in> set (cd_members db)" "mb_user m = uid" "reads m e"
    using active_memberD[OF answered(3)] route_inv_dicts[OF inv] e by (auto simp: reads_def dest: dict_get_SomeD)
  obtain us where "Stored i e us \<in> set tr" "se_sender_user e \<in> set us" "\<forall>(k, m) \<in> set (cd_members db). reads m e \<longrightarrow> mb_user m \<in> set us"
    using inv e(1) unfolding route_inv_def readers_ok_def by fast
  with m e(4) show ?thesis by blast
qed simp

lemma route_run_delivered: "route_run sha256 db0 tr db \<Longrightarrow> route_inv [] db0 \<Longrightarrow> delivered_ok tr"
proof (induction rule: route_run.induct)
  case start
  show ?case by (simp add: delivered_ok_def)
next
  case (send tr db cfg st token uid sid p eid now r db')
  then show ?case by (cases r) (auto intro!: delivered_ok_app)
next
  case (receive tr db cfg token uid sid did after after_id size_limit now rs db')
  note inv = route_run_inv[OF receive(1,4)]
  show ?case
  proof (cases rs)
    case (Inr rows)
    then have d: "(se_recipient e = Some did \<or> se_recipient e = None \<and> se_protocol e = PROTOCOL_MLS) \<and>
        (\<exists>us. Stored i e us \<in> set tr \<and> uid \<in> set us \<and> se_sender_user e \<in> set us)" if "(i, e) \<in> set rows" for i e
      using receive_delivers[OF inv _ that] receive(2) by blast
    have "delivered_ok tr" by (rule receive.IH[OF receive.prems])
    then have "delivered_ok (tr @ map (\<lambda>(i, e). Delivered uid did i e) rows)"
    proof (rule delivered_ok_app)
      fix u x i e assume "Delivered u x i e \<in> set (map (\<lambda>(i, e). Delivered uid did i e) rows)"
      then have "u = uid" "x = did" "(i, e) \<in> set rows" by auto
      then show "(se_recipient e = Some x \<or> se_recipient e = None \<and> se_protocol e = PROTOCOL_MLS) \<and>
          (\<exists>us. Stored i e us \<in> set tr \<and> u \<in> set us \<and> se_sender_user e \<in> set us)" using d by blast
    qed
    then show ?thesis using Inr by simp
  qed (use receive in simp)
qed simp_all

lemma route_inv_empty: "members_ok (cd_sessions db) (cd_members db) \<Longrightarrow> cd_envelopes db = [] \<Longrightarrow> route_inv [] db"
  by (simp add: route_inv_def envelopes_ok_def readers_ok_def)

text \<open>C2: Who receives an envelope of a private conversation. Take any sequence of requests by any callers: members
  come, go and come back, accounts are swept, devices revoked, conversations opened, moved to other modes and deleted.
  Whenever an envelope is handed to a device of a user, it had been stored earlier, at a moment when that user and the
  sender were both active members of the conversation, and it is addressed to that very device or is an MLS message to
  the whole conversation. In particular nobody receives what was sent while they were not a member, neither after a
  removal nor after joining (again).\<close>

theorem envelope_secrecy:
  assumes "route_run sha256 db0 tr db" "members_ok (cd_sessions db0) (cd_members db0)" "cd_envelopes db0 = []"
    and "tr = tr1 @ Delivered u d i e # tr2"
  shows "(se_recipient e = Some d \<or> se_recipient e = None \<and> se_protocol e = PROTOCOL_MLS) \<and>
    (\<exists>us. Stored i e us \<in> set tr1 \<and> u \<in> set us \<and> se_sender_user e \<in> set us)"
  using route_run_delivered[OF assms(1) route_inv_empty[OF assms(2,3)]] assms(4) unfolding delivered_ok_def by blast

section \<open>Replays\<close>

definition envelope_target :: "stored_envelope \<Rightarrow> string" where
  "envelope_target e = (case se_recipient e of None \<Rightarrow> se_session e | Some d \<Rightarrow> d)"

definition keyed :: "(bytes \<Rightarrow> string) \<Rightarrow> stored_envelope \<Rightarrow> bool" where
  "keyed sha256 e \<longleftrightarrow> make_replay_key sha256 (envelope_target e) (se_client_id e) (Some (se_sender_device e)) = Inr (se_replay_key e)"

lemma stored_keyed:
  assumes "send_e2ee_envelope sha256 cfg st token uid sid p eid now db = (Inr row, db')"
  shows "keyed sha256 row"
  using assms
proof (cases rule: send_cases)
  case (stored c k m expected env key db2)
  have "oe_recipient env = expected" using validate_ok[OF stored(9)] by blast
  moreover have "envelope_target (sealed_row sid uid p env key now) = expected"
    using stored(7) by (auto simp: expected_recipient_def envelope_target_def sealed_row_def truthy_def split: if_splits)
  moreover have "row = sealed_row sid uid p env key now" using stored(12) by simp
  ultimately show ?thesis
    using stored(11) validated_epoch[OF stored(9)] by (simp add: keyed_def envelope_replay_key_def sealed_row_def)
qed simp

lemma route_run_keyed: "route_run sha256 db0 tr db \<Longrightarrow> Stored i e us \<in> set tr \<Longrightarrow> keyed sha256 e"
proof (induction rule: route_run.induct)
  case (send tr db cfg st token uid sid p eid now r db')
  then show ?case using stored_keyed[of sha256] by (cases r) auto
next
  case (receive tr db cfg token uid sid did after after_id size_limit now rs db')
  then show ?case by (cases rs) auto
qed auto

text \<open>C31: A ciphertext is accepted once. In every state the server reaches, two stored envelopes with the same sender
  device, the same client message id and the same addressee (device, or conversation for group messages) are the same
  row; whatever the hash function does.\<close>

theorem no_replayed_envelope:
  assumes "route_run sha256 db0 tr db" "members_ok (cd_sessions db0) (cd_members db0)" "cd_envelopes db0 = []"
    and "(i, e) \<in> set (cd_envelopes db)" "(j, f) \<in> set (cd_envelopes db)"
    and "se_sender_device e = se_sender_device f" "se_client_id e = se_client_id f"
    and "se_recipient e = se_recipient f" "se_recipient e = None \<Longrightarrow> se_session e = se_session f"
  shows "i = j \<and> e = f"
proof -
  have inv: "route_inv tr db" by (rule route_run_inv[OF assms(1) route_inv_empty[OF assms(2,3)]])
  have "keyed sha256 x" if "(k, x) \<in> set (cd_envelopes db)" for k x
    using inv that route_run_keyed[OF assms(1)] unfolding route_inv_def readers_ok_def by fast
  moreover have "envelope_target e = envelope_target f" using assms(8,9) by (auto simp: envelope_target_def split: option.split)
  ultimately have "se_replay_key e = se_replay_key f" using assms(4-7) by (metis keyed_def sum.inject(2))
  moreover have "inj_on (se_replay_key \<circ> snd) (set (cd_envelopes db))"
    using inv by (simp add: route_inv_def envelopes_ok_def distinct_map)
  ultimately have "(i, e) = (j, f)" using assms(4,5) by (intro inj_onD[where f = "se_replay_key \<circ> snd"]) auto
  then show ?thesis by simp
qed

section \<open>Polling with a cursor\<close>

lemma sort_sort_lex:
  fixes f :: "'a \<Rightarrow> 'b::linorder" and g :: "'a \<Rightarrow> 'c::linorder"
  shows "sorted_wrt (\<lambda>a b. f a < f b \<or> f a = f b \<and> g a \<le> g b) (sort_key f (sort_key g xs))"
proof -
  have lex: "sorted_wrt (\<lambda>a b. f a < f b \<or> f a = f b \<and> g a \<le> g b) ys"
    if "sorted (map f ys)" "\<And>k. sorted (map g (filter (\<lambda>y. f y = k) ys))" for ys
    using that
  proof (induction ys)
    case (Cons y ys)
    have "sorted (map g (filter (\<lambda>y. f y = k) ys))" for k
      using Cons.prems(2)[of k] by (auto split: if_splits)
    then have "sorted_wrt (\<lambda>a b. f a < f b \<or> f a = f b \<and> g a \<le> g b) ys" using Cons by simp
    moreover have "f y < f z \<or> f y = f z \<and> g y \<le> g z" if "z \<in> set ys" for z
    proof -
      have "f y \<le> f z" using Cons.prems(1) that by simp
      moreover have "g y \<le> g z" if "f y = f z" using Cons.prems(2)[of "f y"] \<open>z \<in> set ys\<close> that by auto
      ultimately show ?thesis by fastforce
    qed
    ultimately show ?case by simp
  qed simp
  have "sorted (map g (filter (\<lambda>y. f y = k) (sort_key f (sort_key g xs))))" for k
    unfolding sort_key_stable by (simp add: sorted_filter)
  then show ?thesis by (intro lex sorted_sort_key)
qed

text \<open>Position of a row in the answer: creation time, then identifier.\<close>

definition before :: "(string \<times> stored_envelope) \<Rightarrow> (string \<times> stored_envelope) \<Rightarrow> bool" where
  "before a b \<longleftrightarrow> se_created (snd a) < se_created (snd b) \<or> se_created (snd a) = se_created (snd b) \<and> fst a < fst b"

lemma oldest_first_strict: "dict_ok rows \<Longrightarrow> sorted_wrt before (oldest_first rows)"
proof -
  assume ok: "dict_ok rows"
  have d: "distinct (map fst (oldest_first rows))"
    using ok by (simp add: dict_ok_def oldest_first_def distinct_map inj_on_def distinct_sort)
  have "sorted_wrt (\<lambda>a b. se_created (snd a) < se_created (snd b) \<or> se_created (snd a) = se_created (snd b) \<and> fst a \<le> fst b) (oldest_first rows)"
    unfolding oldest_first_def case_prod_beta' by (rule sort_sort_lex)
  then have "sorted_wrt (\<lambda>a b. before a b \<or> fst a = fst b) (oldest_first rows)"
    by (rule sorted_wrt_mono_rel[rotated]) (auto simp: before_def)
  with d show ?thesis by (fastforce simp: sorted_wrt_iff_nth_less distinct_conv_nth)
qed

text \<open>A client that passes the time and identifier of the last envelope it got.\<close>

fun poll_envelopes ::
  "nat \<Rightarrow> (time option \<Rightarrow> string option \<Rightarrow> nat + (string \<times> stored_envelope) list) \<Rightarrow> time option \<Rightarrow> string option \<Rightarrow>
   (string \<times> stored_envelope) list" where
  "poll_envelopes 0 fetch after after_id = []"
| "poll_envelopes (Suc n) fetch after after_id =
     (case fetch after after_id of
        Inl _ \<Rightarrow> []
      | Inr rows \<Rightarrow>
          if rows = [] then []
          else rows @ poll_envelopes n fetch (Some (se_created (snd (last rows)))) (Some (fst (last rows))))"

lemma filter_before:
  assumes "sorted_wrt before (ys @ p # zs)"
  shows "filter (before p) (ys @ p # zs) = zs"
proof -
  have "filter (before p) ys = []" using assms by (fastforce simp: filter_empty_conv sorted_wrt_append before_def)
  moreover have "filter (before p) zs = zs" using assms by (auto simp: filter_id_conv sorted_wrt_append)
  ultimately show ?thesis by (simp add: before_def)
qed

lemma take_split: "0 < k \<Longrightarrow> xs \<noteq> [] \<Longrightarrow> xs = butlast (take k xs) @ last (take k xs) # drop k xs"
  by (metis append.assoc append_Cons append_Nil append_butlast_last_id append_take_drop_id neq0_conv take_eq_Nil)

lemma poll_from:
  assumes "0 < k" "sorted_wrt before xs" "xs = ys @ p # zs" "length zs \<le> n"
    and fetch: "\<And>q. q \<in> set xs \<Longrightarrow> fetch (Some (se_created (snd q))) (Some (fst q)) = Inr (take k (filter (before q) xs))"
  shows "poll_envelopes (Suc n) fetch (Some (se_created (snd p))) (Some (fst p)) = zs"
  using assms(3,4)
proof (induction n arbitrary: ys p zs)
  case 0
  then show ?case using fetch[of p] filter_before[of ys p "[]"] assms(2) by simp
next
  case (Suc n)
  have "p \<in> set xs" using Suc.prems(1) by simp
  moreover have "filter (before p) xs = zs"
    unfolding Suc.prems(1) by (rule filter_before[OF assms(2)[unfolded Suc.prems(1)]])
  ultimately have f: "fetch (Some (se_created (snd p))) (Some (fst p)) = Inr (take k zs)" using fetch by simp
  show ?case
  proof (cases "zs = []")
    case True
    then show ?thesis using f by simp
  next
    case False
    let ?us = "butlast (take k zs)" and ?q = "last (take k zs)"
    have t: "take k zs \<noteq> []" and z: "zs = ?us @ ?q # drop k zs" using False assms(1) by (simp, blast intro: take_split)
    have "poll_envelopes (Suc n) fetch (Some (se_created (snd ?q))) (Some (fst ?q)) = drop k zs"
    proof (rule Suc.IH)
      show "xs = (ys @ p # ?us) @ ?q # drop k zs" using Suc.prems(1) z by simp
      show "length (drop k zs) \<le> n" using Suc.prems(2) assms(1) by simp
    qed
    then show ?thesis using f t by (subst poll_envelopes.simps(2)) (simp del: poll_envelopes.simps)
  qed
qed

lemma oldest_first_filter: "oldest_first (filter P rows) = filter P (oldest_first rows)"
  by (simp add: oldest_first_def filter_sort)

text \<open>C32: Polling misses nothing and repeats nothing. A member whose trusted device starts without a cursor and then
  passes the creation time and identifier of the last envelope it received reads exactly the envelopes addressed to it
  since it joined, each once, in the order of creation (ties by identifier), however many share one timestamp and
  whatever the page size.\<close>

theorem polling_complete:
  assumes guard: "require_private_member_session cfg token uid sid now db = (Inr (c, mid, m), db)" "own_device db did uid \<noteq> None"
    and rows: "dict_ok (cd_envelopes db)" "\<forall>(i, e) \<in> set (cd_envelopes db). canonical_uuid i"
    and k: "0 < k" "length (cd_envelopes db) \<le> n"
  shows "poll_envelopes (Suc n) (\<lambda>after after_id. fst (receive_e2ee_envelopes cfg token uid sid did after after_id k now db)) None None =
      oldest_first (addressed db sid (mb_joined_epoch m) did) \<and>
    sorted_wrt before (oldest_first (addressed db sid (mb_joined_epoch m) did))"
proof -
  let ?rows = "addressed db sid (mb_joined_epoch m) did"
  let ?xs = "oldest_first ?rows" and ?f = "\<lambda>after after_id. fst (receive_e2ee_envelopes cfg token uid sid did after after_id k now db)"
  have s: "sorted_wrt before ?xs" using rows(1) by (simp add: oldest_first_strict addressed_def)
  have "length ?xs = length ?rows" by (simp add: oldest_first_def)
  also have "\<dots> \<le> n" unfolding addressed_def by (rule order_trans[OF length_filter_le k(2)])
  finally have l: "length ?xs \<le> n" .
  have f0: "?f None None = Inr (take k ?xs)" using guard by (simp add: receive_e2ee_envelopes_def Let_def)
  have f: "?f (Some (se_created (snd q))) (Some (fst q)) = Inr (take k (filter (before q) ?xs))" if "q \<in> set ?xs" for q
  proof -
    have "canonical_uuid (fst q)" using that rows(2) by (auto simp: oldest_first_def addressed_def)
    moreover have "(\<lambda>(k, e). se_created (snd q) < se_created e \<or> se_created e = se_created (snd q) \<and> fst q < k) = before q"
      by (auto simp: before_def fun_eq_iff)
    ultimately show ?thesis using guard by (simp add: receive_e2ee_envelopes_def Let_def oldest_first_filter)
  qed
  show ?thesis
  proof (cases "?xs = []")
    case True
    then show ?thesis using f0 s by simp
  next
    case False
    let ?us = "butlast (take k ?xs)" and ?q = "last (take k ?xs)"
    have t: "take k ?xs \<noteq> []" "?xs = ?us @ ?q # drop k ?xs" using False k(1) by (simp, blast intro: take_split)
    obtain n' where n: "n = Suc n'" using l False by (cases n) simp_all
    then have n': "n = Suc n'" "length (drop k ?xs) \<le> n'" using l k(1) unfolding length_drop by linarith+
    have "poll_envelopes (Suc n') ?f (Some (se_created (snd ?q))) (Some (fst ?q)) = drop k ?xs"
      by (rule poll_from[OF k(1) s t(2) n'(2) f])
    then show ?thesis using f0 t(1) s n'(1) by (subst poll_envelopes.simps(2)) (simp del: poll_envelopes.simps)
  qed
qed

section \<open>A concrete run\<close>

lemma private_member_allowed:
  assumes "lock_request_mutation cfg token uid False now db = None" "dict_get (cd_sessions db) sid = Some c" "cv_mode c = ''private_e2ee''"
    "retained now c" "active_member db sid uid = Some (k, m)" "dict_get (ad_users (cd_auth db)) uid = Some u" "ur_mfa_enabled u"
  shows "require_private_member_session cfg token uid sid now db = (Inr (c, k, m), db)"
proof -
  have "reject_expired_session cfg token uid sid False now db = (None, db)"
    using assms(2,4) by (simp add: reject_expired_session_def)
  then show ?thesis unfolding require_private_member_session_def assms(1,2) option.case by (simp add: assms)
qed

definition demo_conv :: conversation where
  "demo_conv = \<lparr>cv_owner = ''u1'', cv_title = ''plans'', cv_mode = ''private_e2ee'', cv_classification = ''e2ee_private'', cv_epoch = 2,
     cv_suite = ''Double-Ratchet/MLS-client'', cv_expires = Some 500, cv_updated = 0\<rparr>"

definition demo_device :: "string \<Rightarrow> device_row" where
  "demo_device u = \<lparr>dv_user = u, dv_name = ''phone'', dv_identity = [], dv_signed_prekey = [], dv_signature = [], dv_fingerprint = u,
     dv_trust = ''trusted'', dv_approved_by = None, dv_approved_at = None, dv_revoked_at = None, dv_created = 0\<rparr>"

definition demo_group :: chat_db where
  "demo_group = \<lparr>cd_auth = demo_auth, cd_sessions = [(''s1'', demo_conv)], cd_messages = [],
     cd_members = [(''m1'', owner_member ''s1'' ''u1'' 0), (''m2'', (owner_member ''s1'' ''u2'' 0)\<lparr>mb_role := ''member'', mb_joined_epoch := 2\<rparr>)],
     cd_envelopes = [], cd_devices = [(''d1'', demo_device ''u1''), (''d2'', demo_device ''u2'')], cd_challenges = [], cd_prekeys = []\<rparr>"

definition demo_send :: envelope_send where
  "demo_send = \<lparr>es_version = 1, es_protocol = PROTOCOL_MLS, es_recipient = ''s1'', es_recipient_device = None, es_epoch = 2,
     es_client_id = ''c1'', es_sender_device = ''d1'', es_kind = ''application'', es_header = demo_key CHR ''h'',
     es_ciphertext = demo_key CHR ''x''\<rparr>"

definition demo_uuid :: string where
  "demo_uuid = ''00000000-0000-4000-8000-000000000001''"

definition demo_opaque :: opaque_envelope where
  "demo_opaque = \<lparr>oe_version = 1, oe_protocol = PROTOCOL_MLS, oe_recipient = ''s1'', oe_epoch = 2, oe_client_message_id = ''c1'',
     oe_header = demo_key CHR ''h'', oe_ciphertext = demo_key CHR ''x'', oe_header_size = 32, oe_ciphertext_size = 32,
     oe_sender_device_id = Some ''d1''\<rparr>"

lemma demo_payload_valid:
  "validate_opaque_envelope (payload_dict demo_send) (Some ''s1'') MAX_E2EE_HEADER_BYTES MAX_E2EE_CIPHERTEXT_BYTES = Inr demo_opaque"
proof -
  have d: "decode_base64_strict (PStr (demo_key c)) mn (Some mx) None = Inr (replicate 32 c)" if "0 \<le> mn" "mn \<le> 32" "32 \<le> mx" for c mn mx
    unfolding demo_key_def by (rule decode_encoded) (use that in \<open>simp_all add: sane_limits_def in_limits_def\<close>)
  have i: "e2ee_identifier (PStr ''s1'') = Inr ''s1''" "e2ee_identifier (PStr ''c1'') = Inr ''c1''" "e2ee_identifier (PStr ''d1'') = Inr ''d1''"
    by (simp_all add: e2ee_identifier_def identifier_match_def is_ascii_alnum_def is_upper_def is_lower_def is_digit_def)
  show ?thesis
    by (simp add: validate_opaque_envelope_def payload_dict_def demo_send_def demo_opaque_def field_of_def one_alias_def dict_get_Cons
        dict_keys_def envelope_fields_def andthen_def e2ee_protocol_def i d MAX_E2EE_HEADER_BYTES_def MAX_E2EE_CIPHERTEXT_BYTES_def
        MIN_E2EE_CIPHERTEXT_BYTES_def MAX_E2EE_EPOCH_def)
      (simp add: demo_key_def)
qed

lemma demo_key_total: "\<exists>key. envelope_replay_key demo_sha demo_opaque = Inr key"
  by (rule replay_key_total[OF conjunct1[OF validate_ok[OF demo_payload_valid]]])

definition demo_replay :: string where
  "demo_replay = (case envelope_replay_key demo_sha demo_opaque of Inl _ \<Rightarrow> [] | Inr key \<Rightarrow> key)"

definition demo_row :: stored_envelope where
  "demo_row = sealed_row ''s1'' ''u1'' demo_send demo_opaque demo_replay 1"

definition demo_state :: "time \<Rightarrow> chat_db \<Rightarrow> bool" where
  "demo_state t db \<longleftrightarrow> demo_bearer db \<and> cd_sessions db = [(''s1'', demo_conv\<lparr>cv_updated := t\<rparr>)] \<and>
     cd_members db = cd_members demo_group \<and> cd_devices db = cd_devices demo_group"

lemma demo_guards:
  assumes "demo_state t db"
  shows "require_private_member_session demo_settings (Some demo_token) ''u1'' ''s1'' 1 db =
      (Inr (demo_conv\<lparr>cv_updated := t\<rparr>, ''m1'', owner_member ''s1'' ''u1'' 0), db)"
    "require_private_member_session demo_settings (Some demo_token2) ''u2'' ''s1'' 1 db =
      (Inr (demo_conv\<lparr>cv_updated := t\<rparr>, ''m2'', (owner_member ''s1'' ''u2'' 0)\<lparr>mb_role := ''member'', mb_joined_epoch := 2\<rparr>), db)"
proof -
  have b: "demo_bearer db" and s: "dict_get (cd_sessions db) ''s1'' = Some (demo_conv\<lparr>cv_updated := t\<rparr>)"
    and m: "cd_members db = cd_members demo_group" and u: "ad_users (cd_auth db) = ad_users demo_auth"
    using assms by (auto simp: demo_state_def demo_bearer_def dict_get_Cons)
  note facts = demo_conv_def retained_def active_member_def m demo_group_def owner_member_def u demo_auth_def dict_get_Cons
  show "require_private_member_session demo_settings (Some demo_token) ''u1'' ''s1'' 1 db =
      (Inr (demo_conv\<lparr>cv_updated := t\<rparr>, ''m1'', owner_member ''s1'' ''u1'' 0), db)"
    by (rule private_member_allowed[OF demo_guard[OF b] s, where u = "snd (hd (ad_users demo_auth))"]) (simp_all add: facts)
  show "require_private_member_session demo_settings (Some demo_token2) ''u2'' ''s1'' 1 db =
      (Inr (demo_conv\<lparr>cv_updated := t\<rparr>, ''m2'', (owner_member ''s1'' ''u2'' 0)\<lparr>mb_role := ''member'', mb_joined_epoch := 2\<rparr>), db)"
    by (rule private_member_allowed[OF demo_guard2[OF b] s, where u = "snd (hd (tl (ad_users demo_auth)))"]) (simp_all add: facts)
qed

lemma demo_stored:
  obtains db' where "send_e2ee_envelope demo_sha demo_settings demo_policy (Some demo_token) ''u1'' ''s1'' demo_send demo_uuid 1 demo_group = (Inr demo_row, db')"
    "demo_state 1 db'" "cd_envelopes db' = [(demo_uuid, demo_row)]"
proof -
  have cv: "demo_conv\<lparr>cv_updated := 0\<rparr> = demo_conv" by (simp add: demo_conv_def)
  have c: "cd_envelopes demo_group = []" "demo_bearer demo_group" "cd_sessions demo_group = [(''s1'', demo_conv)]"
    by (simp_all add: demo_group_def demo_bearer_def demo_auth_def)
  then have "demo_state 0 demo_group" by (simp add: demo_state_def cv)
  note g = demo_guards(1)[OF this, unfolded cv]
  have k: "envelope_replay_key demo_sha demo_opaque = Inr demo_replay" using demo_key_total by (auto simp: demo_replay_def)
  have x: "expected_recipient ''s1'' demo_send = Inr ''s1''" and r: "es_recipient_device demo_send = None"
    by (simp_all add: expected_recipient_def demo_send_def PROTOCOL_MLS_def PROTOCOL_DOUBLE_RATCHET_def)
  have o: "own_device demo_group (es_sender_device demo_send) ''u1'' \<noteq> None"
    by (simp add: own_device_def demo_group_def demo_send_def demo_device_def dict_get_Cons)
  have e: "\<not> (es_epoch demo_send < mb_joined_epoch (owner_member ''s1'' ''u1'' 0) \<or> es_epoch demo_send \<noteq> cv_epoch demo_conv)"
    by (simp add: demo_send_def owner_member_def demo_conv_def)
  have "\<exists>db'. send_e2ee_envelope demo_sha demo_settings demo_policy (Some demo_token) ''u1'' ''s1'' demo_send demo_uuid 1 demo_group = (Inr demo_row, db') \<and>
      demo_state 1 db' \<and> cd_envelopes db' = [(demo_uuid, demo_row)]"
    unfolding send_e2ee_envelope_def g prod.case sum.case x demo_payload_valid k using o e c
    by (simp add: r truthy_def demo_policy_def insert_envelope_def dict_has_def Let_def demo_row_def[symmetric] demo_bearer_def
        audit_chat_def audit_entry_def set_conversation_def demo_state_def)
  then show thesis using that by blast
qed

definition demo_trace :: "route_event list" where
  "demo_trace = [Stored demo_uuid demo_row [''u1'', ''u2''], Delivered ''u2'' ''d2'' demo_uuid demo_row]"

lemma demo_run:
  obtains db' where "route_run demo_sha demo_group demo_trace db'" "cd_envelopes db' = [(demo_uuid, demo_row)]"
proof -
  obtain db' where s: "send_e2ee_envelope demo_sha demo_settings demo_policy (Some demo_token) ''u1'' ''s1'' demo_send demo_uuid 1 demo_group = (Inr demo_row, db')"
    and d: "demo_state 1 db'" "cd_envelopes db' = [(demo_uuid, demo_row)]"
    by (rule demo_stored)
  have "active_users demo_group ''s1'' = [''u1'', ''u2'']" by (simp add: active_users_def demo_group_def owner_member_def)
  then have r1: "route_run demo_sha demo_group [Stored demo_uuid demo_row [''u1'', ''u2'']] db'"
    using route_run.send[OF route_run.start s] by simp
  have a: "addressed db' ''s1'' 2 ''d2'' = [(demo_uuid, demo_row)]"
    by (simp add: addressed_def d(2) demo_row_def sealed_row_def demo_send_def demo_opaque_def truthy_def)
  have o: "own_device db' ''d2'' ''u2'' \<noteq> None"
    using d(1) by (simp add: demo_state_def own_device_def demo_group_def demo_device_def dict_get_Cons)
  have "receive_e2ee_envelopes demo_settings (Some demo_token2) ''u2'' ''s1'' ''d2'' None None 10 1 db' = (Inr [(demo_uuid, demo_row)], db')"
    unfolding receive_e2ee_envelopes_def demo_guards(2)[OF d(1)] using o by (simp add: oldest_first_def a)
  then have "route_run demo_sha demo_group demo_trace db'" using route_run.receive[OF r1] by (fastforce simp: demo_trace_def)
  then show thesis using that d(2) by blast
qed

lemma demo_members: "members_ok (cd_sessions demo_group) (cd_members demo_group)" "cd_envelopes demo_group = []"
  by (simp_all add: demo_group_def members_ok_def dict_ok_def seat_def owner_member_def hosts_def dict_get_Cons demo_conv_def)

theorem envelope_secrecy_witness:
  "\<exists>db' us. route_run demo_sha demo_group demo_trace db' \<and> Stored demo_uuid demo_row us \<in> set demo_trace \<and> ''u2'' \<in> set us \<and>
     se_sender_user demo_row \<in> set us"
proof -
  obtain db' where run: "route_run demo_sha demo_group demo_trace db'" by (rule demo_run)
  have "demo_trace = [Stored demo_uuid demo_row [''u1'', ''u2'']] @ Delivered ''u2'' ''d2'' demo_uuid demo_row # []"
    by (simp add: demo_trace_def)
  from envelope_secrecy[OF run demo_members this] run show ?thesis by (auto simp: demo_trace_def)
qed

theorem no_replayed_envelope_witness:
  "\<exists>db'. route_run demo_sha demo_group demo_trace db' \<and> (demo_uuid, demo_row) \<in> set (cd_envelopes db') \<and>
     (\<forall>j f. (j, f) \<in> set (cd_envelopes db') \<and> se_sender_device demo_row = se_sender_device f \<and> se_client_id demo_row = se_client_id f \<and>
        se_recipient demo_row = se_recipient f \<and> se_session demo_row = se_session f \<longrightarrow> demo_uuid = j \<and> demo_row = f)"
proof -
  obtain db' where run: "route_run demo_sha demo_group demo_trace db'" and e: "cd_envelopes db' = [(demo_uuid, demo_row)]" by (rule demo_run)
  have m: "(demo_uuid, demo_row) \<in> set (cd_envelopes db')" by (simp add: e)
  have "\<forall>j f. (j, f) \<in> set (cd_envelopes db') \<and> se_sender_device demo_row = se_sender_device f \<and> se_client_id demo_row = se_client_id f \<and>
      se_recipient demo_row = se_recipient f \<and> se_session demo_row = se_session f \<longrightarrow> demo_uuid = j \<and> demo_row = f"
    by (intro allI impI no_replayed_envelope[OF run demo_members m]) auto
  with run m show ?thesis by metis
qed

theorem polling_complete_witness:
  "\<exists>db'. cd_envelopes db' = [(demo_uuid, demo_row)] \<and> poll_envelopes (Suc 1) (\<lambda>after after_id.
     fst (receive_e2ee_envelopes demo_settings (Some demo_token2) ''u2'' ''s1'' ''d2'' after after_id 1 1 db')) None None =
     oldest_first (addressed db' ''s1'' 2 ''d2'')"
proof -
  obtain db' where d: "demo_state 1 db'" "cd_envelopes db' = [(demo_uuid, demo_row)]"
    by (rule demo_stored)
  have o: "own_device db' ''d2'' ''u2'' \<noteq> None"
    using d(1) by (simp add: demo_state_def own_device_def demo_group_def demo_device_def dict_get_Cons)
  have u: "\<forall>(i, e) \<in> set (cd_envelopes db'). canonical_uuid i" and k: "dict_ok (cd_envelopes db')" "length (cd_envelopes db') \<le> 1"
    by (simp_all add: d(2) dict_ok_def) (simp add: canonical_uuid_def demo_uuid_def upt_rec lower_hex_def)
  have "mb_joined_epoch ((owner_member ''s1'' ''u2'' 0)\<lparr>mb_role := ''member'', mb_joined_epoch := 2\<rparr>) = 2" by simp
  from polling_complete[OF demo_guards(2)[OF d(1)] o k(1) u zero_less_one k(2), unfolded this] d(2) show ?thesis by blast
qed

end
