(* ===== verification/Accounts.thy ===== *)
theory Accounts
  imports E2ee_Routing
begin

text \<open>
  Accounts and their administration (\<^verbatim>\<open>main.py\<close>: \<^verbatim>\<open>register\<close>, \<^verbatim>\<open>lock_admin_mutation\<close> and the routes under
  \<^verbatim>\<open>/api/admin/users\<close>), over the same database as the conversation routes. The columns of an account that
  these routes never read (password hash, second factor) are left to the sign-in theories; whether the breach service knows a
  password, or is unavailable (\<open>None\<close>), and the decision of the registration limiter are arguments.

  Deleting an account deletes what the foreign keys of \<^verbatim>\<open>models.py\<close> cascade to; a row that restricts the deletion
  makes the commit fail.
\<close>

definition audit_anon :: "string \<Rightarrow> string \<Rightarrow> string \<Rightarrow> chat_db \<Rightarrow> chat_db" where
  "audit_anon event outcome detail db = db\<lparr>cd_auth := audit_entry event None outcome detail (cd_auth db)\<rparr>"

definition audit_actor :: "string \<Rightarrow> string option \<Rightarrow> string \<Rightarrow> string \<Rightarrow> chat_db \<Rightarrow> chat_db" where
  "audit_actor event actor outcome detail db = db\<lparr>cd_auth := audit_entry event actor outcome detail (cd_auth db)\<rparr>"

definition password_is_compromised ::
  "bool option \<Rightarrow> string \<Rightarrow> string option \<Rightarrow> chat_db \<Rightarrow> (nat + bool) \<times> chat_db" where
  "password_is_compromised breach event actor db =
     (case breach of
        None \<Rightarrow> (Inl 503, audit_actor event actor ''failure'' ''password_breach_check_unavailable'' db)
      | Some b \<Rightarrow> (Inr b, db))"

definition new_user :: "string \<Rightarrow> string \<Rightarrow> user_row" where
  "new_user username role =
     \<lparr>ur_username = username, ur_role = role, ur_active = True, ur_token_version = 1, ur_mfa_enabled = False\<rparr>"

definition set_users :: "((string, user_row) pydict \<Rightarrow> (string, user_row) pydict) \<Rightarrow> chat_db \<Rightarrow> chat_db" where
  "set_users f db = db\<lparr>cd_auth := (cd_auth db)\<lparr>ad_users := f (ad_users (cd_auth db))\<rparr>\<rparr>"

text \<open>The flush that reserves the user name; the primary key is a fresh UUID.\<close>

definition insert_user :: "string \<Rightarrow> user_row \<Rightarrow> chat_db \<Rightarrow> chat_db option" where
  "insert_user uid u db =
     (if dict_has (ad_users (cd_auth db)) uid \<or> list_ex (\<lambda>(_, x). ur_username x = ur_username u) (ad_users (cd_auth db)) then None
      else Some (set_users (dict_set uid u) db))"

definition register :: "bool \<Rightarrow> bool \<Rightarrow> bool option \<Rightarrow> string \<Rightarrow> string \<Rightarrow> chat_db \<Rightarrow> (nat + string) \<times> chat_db" where
  "register allowed allow_self_registration breach username uid db =
     (if \<not> allowed then (Inl 429, audit_anon ''auth.register'' ''blocked'' ''rate_limit'' db)
      else if \<not> allow_self_registration then (Inl 403, audit_anon ''auth.register'' ''denied'' ''self_registration_disabled'' db)
      else case password_is_compromised breach ''auth.register'' None db of
        (Inl e, db1) \<Rightarrow> (Inl e, db1)
      | (Inr True, db1) \<Rightarrow> (Inl 400, audit_anon ''auth.register'' ''failure'' ''breached_password'' db1)
      | (Inr False, db1) \<Rightarrow>
          (case insert_user uid (new_user username ''user'') db1 of
             None \<Rightarrow> (Inl 409, audit_anon ''auth.register'' ''failure'' ''duplicate_or_invalid'' db1)
           | Some db2 \<Rightarrow> (Inr uid, audit_chat ''auth.register'' uid ''success'' [] db2)))"

section \<open>Administration\<close>

definition lock_admin_mutation ::
  "auth_settings \<Rightarrow> claims option \<Rightarrow> string \<Rightarrow> string option \<Rightarrow> time \<Rightarrow> chat_db \<Rightarrow> nat + user_row option" where
  "lock_admin_mutation cfg token admin target_id now db =
     (case token of
        None \<Rightarrow> Inl 401
      | Some c \<Rightarrow>
          (case lock_user_row admin False (cd_auth db) of
             None \<Rightarrow> Inl 401
           | Some actor \<Rightarrow>
               if \<not> ur_active actor \<or> cl_sub c \<noteq> admin \<or> cl_ver c \<noteq> ur_token_version actor then Inl 401
               else (case lock_auth_session_row (cl_jti c) admin (cd_auth db) of
                  None \<Rightarrow> Inl 401
                | Some a \<Rightarrow>
                    if dict_has (ad_revoked (cd_auth db)) (cl_jti c) \<or> auth_session_expiry_reason cfg a now \<noteq> None then Inl 401
                    else if ur_role actor \<noteq> ''admin'' then Inl 403
                    else if high_profile cfg \<and> \<not> ur_mfa_enabled actor then Inl 403
                    else (case require_recent_step_up cfg c admin now (cd_auth db) of
                       Inl e \<Rightarrow> Inl e
                     | Inr _ \<Rightarrow>
                         (case target_id of
                            None \<Rightarrow> Inr None
                          | Some t \<Rightarrow>
                              (case lock_user_row t False (cd_auth db) of None \<Rightarrow> Inl 404 | Some row \<Rightarrow> Inr (Some row)))))))"

definition admin_create_user ::
  "auth_settings \<Rightarrow> bool option \<Rightarrow> claims option \<Rightarrow> string \<Rightarrow> string \<Rightarrow> string \<Rightarrow> string \<Rightarrow> time \<Rightarrow> chat_db \<Rightarrow> (nat + string) \<times> chat_db" where
  "admin_create_user cfg breach token admin username role uid now db =
     (case step_up_guard cfg token admin now db of
        Some e \<Rightarrow> (Inl e, db)
      | None \<Rightarrow>
          (case password_is_compromised breach ''admin.user_create'' (Some admin) db of
             (Inl e, db1) \<Rightarrow> (Inl e, db1)
           | (Inr True, db1) \<Rightarrow> (Inl 400, audit_chat ''admin.user_create'' admin ''failure'' ''breached_password'' db1)
           | (Inr False, db1) \<Rightarrow>
               (case lock_admin_mutation cfg token admin None now db1 of
                  Inl e \<Rightarrow> (Inl e, db1)
                | Inr _ \<Rightarrow>
                    (case insert_user uid (new_user username role) db1 of
                       None \<Rightarrow> (Inl 409, db1)
                     | Some db2 \<Rightarrow> (Inr uid, audit_chat ''admin.user_create'' admin ''success'' role db2)))))"

definition owned_by :: "string \<Rightarrow> chat_db \<Rightarrow> string list" where
  "owned_by uid db = sort (map fst (filter (\<lambda>(_, c). cv_owner c = uid) (cd_sessions db)))"

text \<open>\<^verbatim>\<open>db.delete(target)\<close> and the commit. The conversations of the account go first, with everything in them. Then the
  account row: its bearer sessions, memberships, challenges and devices cascade, and with the devices their prekeys and
  the envelopes addressed to them. An envelope that one of the devices sent restricts its deletion.\<close>

definition devices_of :: "string \<Rightarrow> chat_db \<Rightarrow> string list" where
  "devices_of uid db = map fst (filter (\<lambda>(_, d). dv_user d = uid) (cd_devices db))"

definition delete_account :: "string \<Rightarrow> chat_db \<Rightarrow> chat_db option" where
  "delete_account uid db =
     (let db1 = fold delete_conversation (owned_by uid db) db;
          gone = devices_of uid db1;
          left = filter (\<lambda>(_, e). \<not> (case se_recipient e of None \<Rightarrow> False | Some d \<Rightarrow> d \<in> set gone)) (cd_envelopes db1)
      in if list_ex (\<lambda>(_, e). se_sender_device e \<in> set gone) (cd_envelopes db1) then None
         else Some (db1\<lparr>cd_auth := (cd_auth db1)\<lparr>ad_users := dict_pop uid (ad_users (cd_auth db1)),
                          ad_sessions := filter (\<lambda>(_, a). as_user_id a \<noteq> uid) (ad_sessions (cd_auth db1))\<rparr>,
                        cd_members := filter (\<lambda>(_, m). mb_user m \<noteq> uid) (cd_members db1),
                        cd_envelopes := left,
                        cd_devices := filter (\<lambda>(_, d). dv_user d \<noteq> uid) (cd_devices db1),
                        cd_challenges := filter (\<lambda>(_, c). dc_user c \<noteq> uid) (cd_challenges db1),
                        cd_prekeys := filter (\<lambda>(_, p). pk_device p \<notin> set gone) (cd_prekeys db1)\<rparr>))"

definition admin_delete_user ::
  "auth_settings \<Rightarrow> claims option \<Rightarrow> string \<Rightarrow> string \<Rightarrow> time \<Rightarrow> chat_db \<Rightarrow> (nat + unit) \<times> chat_db" where
  "admin_delete_user cfg token admin uid now db =
     (case lock_admin_mutation cfg token admin (Some uid) now db of
        Inl e \<Rightarrow> (Inl e, db)
      | Inr None \<Rightarrow> (Inl 404, db)
      | Inr (Some target) \<Rightarrow>
          if uid = admin then (Inl 400, db)
          else if ur_role target = ''admin'' then (Inl 400, db)
          else (case delete_account uid (snd (revoke_active_e2ee_memberships uid now db)) of
             None \<Rightarrow> (Inl 500, db)
           | Some db1 \<Rightarrow> (Inr (), audit_chat ''admin.user_delete'' admin ''success'' uid db1)))"

definition update_user :: "string \<Rightarrow> (user_row \<Rightarrow> user_row) \<Rightarrow> chat_db \<Rightarrow> chat_db" where
  "update_user uid f db = set_users (dict_map (\<lambda>k u. if k = uid then f u else u)) db"

definition revoke_bearers :: "string \<Rightarrow> time \<Rightarrow> chat_db \<Rightarrow> chat_db" where
  "revoke_bearers uid now db = db\<lparr>cd_auth := revoke_all_auth_sessions uid now (cd_auth db)\<rparr>"

definition admin_change_role ::
  "auth_settings \<Rightarrow> claims option \<Rightarrow> string \<Rightarrow> string \<Rightarrow> string \<Rightarrow> time \<Rightarrow> chat_db \<Rightarrow> (nat + unit) \<times> chat_db" where
  "admin_change_role cfg token admin uid role now db =
     (case lock_admin_mutation cfg token admin (Some uid) now db of
        Inl e \<Rightarrow> (Inl e, db)
      | Inr None \<Rightarrow> (Inl 404, db)
      | Inr (Some target) \<Rightarrow>
          if uid = admin then (Inl 400, db)
          else (Inr (), audit_chat ''admin.user_role_change'' admin ''success'' role
                  (revoke_bearers uid now (update_user uid (\<lambda>u. u\<lparr>ur_role := role\<rparr>) db))))"

definition update_user_status ::
  "auth_settings \<Rightarrow> claims option \<Rightarrow> string \<Rightarrow> string \<Rightarrow> bool \<Rightarrow> time \<Rightarrow> chat_db \<Rightarrow> (nat + unit) \<times> chat_db" where
  "update_user_status cfg token admin uid is_active now db =
     (case lock_admin_mutation cfg token admin (Some uid) now db of
        Inl e \<Rightarrow> (Inl e, db)
      | Inr None \<Rightarrow> (Inl 404, db)
      | Inr (Some target) \<Rightarrow>
          if uid = admin \<and> \<not> is_active then (Inl 400, db)
          else
            let (revoked, db1) = (if is_active then (0, db) else revoke_active_e2ee_memberships uid now db);
                status_changed = (ur_active target \<noteq> is_active)
            in if status_changed \<or> revoked \<noteq> 0
               then let db2 = update_user uid (\<lambda>u. u\<lparr>ur_active := is_active\<rparr>) db1;
                        db3 = (if status_changed then revoke_bearers uid now db2 else db2)
                    in (Inr (), audit_chat ''admin.user_status'' admin ''success'' [] db3)
               else (Inr (), db1))"

section \<open>Who holds which role\<close>

definition standing :: "chat_db \<Rightarrow> string \<Rightarrow> (string \<times> bool) option" where
  "standing db uid = map_option (\<lambda>u. (ur_role u, ur_active u)) (dict_get (ad_users (cd_auth db)) uid)"

abbreviation active_admin :: "string \<times> bool" where
  "active_admin \<equiv> (''admin'', True)"

lemma dict_get_dict_map: "dict_get (dict_map f d) k = map_option (f k) (dict_get d k)"
  by (induction d) (auto simp: dict_map_def dict_get_Cons)

lemma audit_auth [simp]:
  "ad_users (cd_auth (audit_chat a b c d db)) = ad_users (cd_auth db)" "ad_sessions (cd_auth (audit_chat a b c d db)) = ad_sessions (cd_auth db)"
  "ad_users (cd_auth (audit_actor a b' c d db)) = ad_users (cd_auth db)" "ad_users (cd_auth (audit_anon a c d db)) = ad_users (cd_auth db)"
  by (simp_all add: audit_chat_def audit_actor_def audit_anon_def audit_entry_def)

lemma standing_audit [simp]:
  "standing (audit_chat a b c d db) = standing db" "standing (audit_actor a b' c d db) = standing db" "standing (audit_anon a c d db) = standing db"
  by (simp_all add: standing_def fun_eq_iff)

lemma standing_update [simp]:
  "(\<And>u. ur_role (f u) = r u) \<Longrightarrow> (\<And>u. ur_active (f u) = a u) \<Longrightarrow> standing (update_user uid f db) =
     (standing db)(uid := map_option (\<lambda>u. (r u, a u)) (dict_get (ad_users (cd_auth db)) uid))"
  by (auto simp: standing_def update_user_def set_users_def dict_get_dict_map fun_eq_iff option.map_comp comp_def option.map_ident)

lemma standing_revoke_bearers [simp]: "standing (revoke_bearers uid now db) = standing db"
proof
  fix x show "standing (revoke_bearers uid now db) x = standing db x"
    by (cases "dict_get (ad_users (cd_auth db)) x")
      (simp_all add: standing_def revoke_bearers_def revoke_all_auth_sessions_def dict_get_dict_map)
qed

lemma sweep_auth [simp]: "cd_auth (snd (revoke_active_e2ee_memberships uid now db)) = cd_auth db"
proof -
  have one: "cd_auth (snd (revoke_membership uid now sid w)) = cd_auth (snd w)" for sid w
    by (cases w) (auto simp: revoke_membership_def Let_def split: option.splits)
  have "cd_auth (snd (fold (revoke_membership uid now) sids w)) = cd_auth (snd w)" for sids w
    by (induction sids arbitrary: w) (simp_all add: one)
  then show ?thesis by (simp add: revoke_active_e2ee_memberships_def)
qed

lemma fold_delete_auth [simp]: "cd_auth (fold delete_conversation sids db) = cd_auth db"
  by (induction sids arbitrary: db) simp_all

lemma standing_delete: "delete_account uid db = Some db' \<Longrightarrow> standing db' = (standing db)(uid := None)"
  by (auto simp: delete_account_def standing_def Let_def fun_eq_iff split: if_splits)

lemma standing_insert:
  "insert_user uid u db = Some db' \<Longrightarrow> standing db uid = None \<and> standing db' = (standing db)(uid := Some (ur_role u, ur_active u))"
  by (auto simp: insert_user_def standing_def set_users_def dict_has_def fun_eq_iff split: if_splits)

lemma lock_admin_Inr:
  assumes "lock_admin_mutation cfg token admin target now db = Inr t"
  shows "standing db admin = Some active_admin" "target = Some uid \<Longrightarrow> \<exists>u. t = Some u \<and> dict_get (ad_users (cd_auth db)) uid = Some u"
    "target = None \<Longrightarrow> t = None" "high_profile cfg \<Longrightarrow> \<exists>u. dict_get (ad_users (cd_auth db)) admin = Some u \<and> ur_mfa_enabled u"
    "\<exists>c a. token = Some c \<and> cl_sub c = admin \<and> require_recent_step_up cfg c admin now (cd_auth db) = Inr a"
  using assms by (auto simp: lock_admin_mutation_def lock_user_row_def standing_def split: option.splits if_splits sum.splits)

text \<open>The effect of each handler on roles. An administrator never changes or deletes itself, except to stay active.\<close>

lemma register_standing:
  assumes "register allowed self breach name uid db = (r, db')"
  shows "standing db' = standing db \<or> (standing db uid = None \<and> standing db' = (standing db)(uid := Some (''user'', True)))"
  using assms standing_insert[of uid "new_user name ''user''"]
  by (auto simp: register_def password_is_compromised_def new_user_def split: if_splits option.splits bool.splits)

lemma create_standing:
  assumes "admin_create_user cfg breach token admin name role uid now db = (r, db')"
  shows "(\<exists>e. r = Inl e) \<and> standing db' = standing db \<or>
    r = Inr uid \<and> standing db admin = Some active_admin \<and> standing db uid = None \<and> standing db' = (standing db)(uid := Some (role, True))"
proof -
  have i: "standing db uid = None \<and> standing db2 = (standing db)(uid := Some (role, True))"
    if "insert_user uid (new_user name role) db = Some db2" for db2
    using standing_insert[OF that] by (simp add: new_user_def)
  show ?thesis using assms i
    by (auto simp: admin_create_user_def password_is_compromised_def split: option.splits bool.splits sum.splits dest: lock_admin_Inr(1))
qed

lemma delete_standing:
  assumes "admin_delete_user cfg token admin uid now db = (r, db')"
  shows "(\<exists>e. r = Inl e) \<and> standing db' = standing db \<or>
    r = Inr () \<and> standing db admin = Some active_admin \<and> uid \<noteq> admin \<and> standing db' = (standing db)(uid := None)"
proof -
  have d: "standing db1 = (standing db)(uid := None)" if "delete_account uid (snd (revoke_active_e2ee_memberships uid now db)) = Some db1" for db1
    using standing_delete[OF that] by (simp add: standing_def fun_eq_iff)
  show ?thesis using assms d
    by (auto simp: admin_delete_user_def split: option.splits sum.splits if_splits dest: lock_admin_Inr(1))
qed

lemma role_standing:
  assumes "admin_change_role cfg token admin uid role now db = (r, db')"
  shows "(\<exists>e. r = Inl e) \<and> standing db' = standing db \<or>
    r = Inr () \<and> standing db admin = Some active_admin \<and> uid \<noteq> admin \<and> (\<exists>b. standing db' = (standing db)(uid := Some (role, b)))"
proof (cases "lock_admin_mutation cfg token admin (Some uid) now db")
  case (Inl e)
  then show ?thesis using assms by (auto simp: admin_change_role_def)
next
  case (Inr t)
  then obtain u where "t = Some u" "dict_get (ad_users (cd_auth db)) uid = Some u" using lock_admin_Inr(2)[OF Inr refl] by blast
  then show ?thesis using assms lock_admin_Inr(1)[OF Inr] by (auto simp: admin_change_role_def Inr split: if_splits)
qed

lemma status_standing:
  assumes "update_user_status cfg token admin uid b now db = (r, db')"
  shows "(\<exists>e. r = Inl e) \<and> standing db' = standing db \<or>
    r = Inr () \<and> standing db admin = Some active_admin \<and> (uid = admin \<longrightarrow> b) \<and>
      (\<exists>role. map_option fst (standing db uid) = Some role \<and> standing db' = (standing db)(uid := Some (role, b)))"
proof (cases "lock_admin_mutation cfg token admin (Some uid) now db")
  case (Inl e)
  then show ?thesis using assms by (auto simp: update_user_status_def)
next
  case (Inr t)
  then obtain u where u: "t = Some u" "dict_get (ad_users (cd_auth db)) uid = Some u" using lock_admin_Inr(2)[OF Inr refl] by blast
  obtain n db1 where w: "(if b then (0, db) else revoke_active_e2ee_memberships uid now db) = (n, db1)" by force
  then have a: "cd_auth db1 = cd_auth db" by (metis snd_conv sweep_auth)
  have s: "standing db1 = standing db" by (simp add: standing_def a fun_eq_iff)
  note run = assms[unfolded update_user_status_def Inr u(1) sum.case option.case w Let_def prod.case]
  show ?thesis
  proof (cases "uid = admin \<and> \<not> b")
    case True
    then show ?thesis using run by auto
  next
    case False
    have "standing db' = (standing db)(uid := Some (ur_role u, b))"
    proof (cases "ur_active u \<noteq> b \<or> n \<noteq> 0")
      case True
      then show ?thesis using run False u(2) by (auto simp: a s split: if_splits)
    next
      case False2: False
      then have "standing db uid = Some (ur_role u, b)" using u(2) by (simp add: standing_def)
      then show ?thesis using run False False2 s by (auto simp: fun_upd_idem)
    qed
    moreover have "r = Inr ()" using run False by (auto split: if_splits)
    ultimately show ?thesis using lock_admin_Inr(1)[OF Inr] False u(2) by (auto simp: standing_def)
  qed
qed

text \<open>Requests of any callers. The trace lists the administrative changes that succeeded, as (administrator, account).
  \<open>other\<close> is any request of the other routes: none of them writes a role or the active flag.\<close>

inductive account_run :: "chat_db \<Rightarrow> (string \<times> string) list \<Rightarrow> chat_db \<Rightarrow> bool" for db0 where
  start: "account_run db0 [] db0"
| other: "account_run db0 tr db \<Longrightarrow> standing db' = standing db \<Longrightarrow> account_run db0 tr db'"
| sign_up: "account_run db0 tr db \<Longrightarrow> register allowed self breach name uid db = (r1, db') \<Longrightarrow> account_run db0 tr db'"
| create: "account_run db0 tr db \<Longrightarrow> admin_create_user cfg breach token admin name role uid now db = (r1, db') \<Longrightarrow>
    account_run db0 (case r1 of Inl _ \<Rightarrow> tr | Inr _ \<Rightarrow> tr @ [(admin, uid)]) db'"
| delete: "account_run db0 tr db \<Longrightarrow> admin_delete_user cfg token admin uid now db = (r, db') \<Longrightarrow>
    account_run db0 (case r of Inl _ \<Rightarrow> tr | Inr _ \<Rightarrow> tr @ [(admin, uid)]) db'"
| change_role: "account_run db0 tr db \<Longrightarrow> admin_change_role cfg token admin uid role now db = (r, db') \<Longrightarrow>
    account_run db0 (case r of Inl _ \<Rightarrow> tr | Inr _ \<Rightarrow> tr @ [(admin, uid)]) db'"
| change_status: "account_run db0 tr db \<Longrightarrow> update_user_status cfg token admin uid b now db = (r, db') \<Longrightarrow>
    account_run db0 (case r of Inl _ \<Rightarrow> tr | Inr _ \<Rightarrow> tr @ [(admin, uid)]) db'"

definition has_admin :: "chat_db \<Rightarrow> bool" where
  "has_admin db \<longleftrightarrow> (\<exists>a. standing db a = Some active_admin)"

definition justified :: "chat_db \<Rightarrow> (string \<times> string) list \<Rightarrow> chat_db \<Rightarrow> bool" where
  "justified db0 tr db \<longleftrightarrow> (has_admin db0 \<longleftrightarrow> has_admin db) \<and> (tr \<noteq> [] \<longrightarrow> has_admin db0) \<and>
     (\<forall>uid. uid \<notin> snd ` set tr \<longrightarrow>
        standing db uid = standing db0 uid \<or> (standing db0 uid = None \<and> standing db uid = Some (''user'', True)))"

lemma justified_other: "justified db0 tr db \<Longrightarrow> standing db' = standing db \<Longrightarrow> justified db0 tr db'"
  by (auto simp: justified_def has_admin_def)

text \<open>A change made by an active administrator that leaves the administrator in place.\<close>

lemma justified_act:
  assumes "justified db0 tr db" "standing db admin = Some active_admin" "standing db' = (standing db)(uid := x)" "standing db' admin = Some active_admin"
  shows "justified db0 (tr @ [(admin, uid)]) db'"
proof -
  have "has_admin db" "has_admin db'" using assms(2,4) by (auto simp: has_admin_def)
  then show ?thesis using assms(1,3) by (auto simp: justified_def)
qed

lemma justified_register:
  assumes "justified db0 tr db" "standing db uid = None" "standing db' = (standing db)(uid := Some (''user'', True))"
  shows "justified db0 tr db'"
proof -
  have "standing db' a = Some active_admin \<longleftrightarrow> standing db a = Some active_admin" for a using assms(2,3) by auto
  then have "has_admin db' \<longleftrightarrow> has_admin db" by (simp add: has_admin_def)
  then show ?thesis using assms by (auto simp: justified_def)
qed

text \<open>A request is refused and changes no role, or an active administrator changed one account and is still in place.\<close>

definition admin_effect :: "string \<Rightarrow> string \<Rightarrow> nat + 'a \<Rightarrow> chat_db \<Rightarrow> chat_db \<Rightarrow> bool" where
  "admin_effect admin uid r db db' \<longleftrightarrow>
     (case r of
        Inl _ \<Rightarrow> standing db' = standing db
      | Inr _ \<Rightarrow> standing db admin = Some active_admin \<and> standing db' admin = Some active_admin \<and> (\<exists>x. standing db' = (standing db)(uid := x)))"

lemma admin_effects:
  "admin_create_user cfg breach token admin name role uid now db = (r1, db') \<Longrightarrow> admin_effect admin uid r1 db db'"
  "admin_delete_user cfg token admin uid now db = (r, db') \<Longrightarrow> admin_effect admin uid r db db'"
  "admin_change_role cfg token admin uid role now db = (r, db') \<Longrightarrow> admin_effect admin uid r db db'"
  "update_user_status cfg token admin uid b now db = (r, db') \<Longrightarrow> admin_effect admin uid r db db'"
proof -
  assume "admin_create_user cfg breach token admin name role uid now db = (r1, db')"
  from create_standing[OF this] show "admin_effect admin uid r1 db db'" by (auto simp: admin_effect_def)
next
  assume "admin_delete_user cfg token admin uid now db = (r, db')"
  from delete_standing[OF this] show "admin_effect admin uid r db db'" by (auto simp: admin_effect_def)
next
  assume "admin_change_role cfg token admin uid role now db = (r, db')"
  from role_standing[OF this] show "admin_effect admin uid r db db'" by (auto simp: admin_effect_def)
next
  assume "update_user_status cfg token admin uid b now db = (r, db')"
  from status_standing[OF this] show "admin_effect admin uid r db db'" by (auto simp: admin_effect_def)
qed

lemma justified_effect:
  "justified db0 tr db \<Longrightarrow> admin_effect admin uid r db db' \<Longrightarrow> justified db0 (case r of Inl _ \<Rightarrow> tr | Inr _ \<Rightarrow> tr @ [(admin, uid)]) db'"
  by (cases r) (auto simp: admin_effect_def intro: justified_other justified_act)

lemma account_run_justified: "account_run db0 tr db \<Longrightarrow> justified db0 tr db"
proof (induction rule: account_run.induct)
  case start
  show ?case by (simp add: justified_def)
next
  case (sign_up tr db allowed self breach name uid r1 db')
  then show ?case using register_standing[OF sign_up(2)] justified_other justified_register by blast
qed (blast intro: justified_other justified_effect admin_effects)+

text \<open>C17: Privileges come from administrators, and there is always one left. Through any sequence of registrations and
  administrative requests by any callers: the system has an active administrator at the end exactly when it had one at
  the start (no sequence of demotions, suspensions and deletions removes the last one, and without one nobody becomes
  one); without one no administrative request succeeds; and an account that no administrator changed keeps its role and
  its active flag, or is a newly registered ordinary user.\<close>

theorem administrators_persist:
  assumes "account_run db0 tr db"
  shows "((\<exists>a. standing db a = Some (''admin'', True)) \<longleftrightarrow> (\<exists>a. standing db0 a = Some (''admin'', True))) \<and>
    ((\<nexists>a. standing db0 a = Some (''admin'', True)) \<longrightarrow> tr = []) \<and>
    (\<forall>uid. uid \<notin> snd ` set tr \<longrightarrow>
       standing db uid = standing db0 uid \<or> (standing db0 uid = None \<and> standing db uid = Some (''user'', True)))"
  using account_run_justified[OF assms] unfolding justified_def has_admin_def by blast

section \<open>Suspension\<close>

lemma active_None: "active_member db sid u = None \<longleftrightarrow> (\<forall>(k, m) \<in> set (cd_members db). \<not> (mb_session m = sid \<and> mb_user m = u \<and> mb_removed_at m = None))"
  by (auto simp: active_member_def find_None_iff)

lemma revoke_membership_clears:
  assumes inv: "route_inv tr (snd w)"
  shows "active_member (snd (revoke_membership uid now sid w)) sid uid = None"
    "active_member (snd w) s uid = None \<Longrightarrow> active_member (snd (revoke_membership uid now sid w)) s uid = None"
proof -
  obtain n db where w: "w = (n, db)" by (cases w)
  have ok: "dict_ok (cd_members db)" "distinct (map (seat \<circ> snd) (cd_members db))"
    using inv w by (auto simp: route_inv_def members_ok_def)
  have "active_member (snd (revoke_membership uid now sid w)) sid uid = None \<and>
      (active_member (snd w) s uid = None \<longrightarrow> active_member (snd (revoke_membership uid now sid w)) s uid = None)"
  proof (cases "active_member db sid uid")
    case None
    then show ?thesis by (simp add: w revoke_membership_def split: option.splits)
  next
    case (Some p)
    obtain k m where p: "p = (k, m)" by (cases p)
    note d = active_memberD[OF Some[unfolded p] ok(1)]
    then have m: "(k, m) \<in> set (cd_members db)" by (auto dest: dict_get_SomeD)
    then obtain c where c: "dict_get (cd_sessions db) sid = Some c" "cv_mode c = ''private_e2ee''"
      using route_inv_members[OF inv, of k m] d w by (auto simp: hosts_def)
    have unique: "k2 = k" if "(k2, m2) \<in> set (cd_members db)" "mb_session m2 = sid" "mb_user m2 = uid" for k2 m2
    proof -
      have "inj_on (seat \<circ> snd) (set (cd_members db))" using ok(2) by (simp add: distinct_map)
      from inj_onD[OF this _ that(1) m] show ?thesis using that d by (simp add: seat_def)
    qed
    have rows: "cd_members (snd (revoke_membership uid now sid w)) = dict_set k (removed_member (cv_epoch (next_epoch now c)) now m) (cd_members db)"
      by (simp add: w revoke_membership_def c Some p Let_def)
    show ?thesis unfolding active_None rows using unique
      by (auto simp: set_dict_set[OF ok(1)] w removed_member_def)
  qed
  then show "active_member (snd (revoke_membership uid now sid w)) sid uid = None"
    "active_member (snd w) s uid = None \<Longrightarrow> active_member (snd (revoke_membership uid now sid w)) s uid = None" by blast+
qed

lemma sweep_clears:
  assumes inv: "route_inv tr db"
  shows "active_member (snd (revoke_active_e2ee_memberships uid now db)) sid uid = None"
proof -
  have fold: "active_member (snd (fold (revoke_membership uid now) sids w)) s uid = None"
    if "route_inv tr (snd w)" "s \<in> set sids \<or> active_member (snd w) s uid = None" for sids w s
    using that
  proof (induction sids arbitrary: w)
    case (Cons x sids)
    have "s \<in> set sids \<or> active_member (snd (revoke_membership uid now x w)) s uid = None"
      using Cons.prems revoke_membership_clears[OF Cons.prems(1)] by auto
    then show ?case using Cons.IH[OF route_inv_revoke_membership[OF Cons.prems(1)]] by simp
  qed simp
  have "sid \<in> set (member_sessions uid db) \<or> active_member db sid uid = None"
  proof (cases "active_member db sid uid")
    case (Some p)
    obtain k m where p: "p = (k, m)" by (cases p)
    note d = active_memberD[OF Some[unfolded p] conjunct1[OF route_inv_dicts[OF inv]]]
    then have m: "(k, m) \<in> set (cd_members db)" by (auto dest: dict_get_SomeD)
    then obtain c where "dict_get (cd_sessions db) sid = Some c" "cv_mode c = ''private_e2ee''"
      using route_inv_members[OF inv, of k m] d by (auto simp: hosts_def)
    with m d show ?thesis by (force simp: member_sessions_def)
  qed simp
  then show ?thesis using fold[of "(0, db)"] inv by (simp add: revoke_active_e2ee_memberships_def)
qed

lemma update_user_rows [simp]:
  "cd_members (update_user uid f db) = cd_members db" "cd_sessions (update_user uid f db) = cd_sessions db"
  "cd_envelopes (update_user uid f db) = cd_envelopes db" "ad_sessions (cd_auth (update_user uid f db)) = ad_sessions (cd_auth db)"
  "cd_members (revoke_bearers uid now db) = cd_members db" "cd_sessions (revoke_bearers uid now db) = cd_sessions db"
  "cd_envelopes (revoke_bearers uid now db) = cd_envelopes db"
  by (simp_all add: update_user_def set_users_def revoke_bearers_def)

lemma active_member_rows: "cd_members db' = cd_members db \<Longrightarrow> active_member db' sid u = active_member db sid u"
  by (simp add: active_member_def)

lemma revoked_bearers:
  assumes "(j, a) \<in> set (ad_sessions (cd_auth (revoke_bearers uid now db)))" "as_user_id a = uid"
  shows "as_revoked_at a \<noteq> None"
proof -
  obtain b where "a = (if as_user_id b = uid \<and> as_revoked_at b = None then b\<lparr>as_revoked_at := Some now\<rparr> else b)"
    using assms(1) unfolding revoke_bearers_def revoke_all_auth_sessions_def dict_map_def by force
  then show ?thesis using assms(2) by (cases "as_user_id b = uid \<and> as_revoked_at b = None") simp_all
qed

text \<open>An account that is not active passes none of the guards: the dependency that authenticates a request, whatever other
  transactions commit meanwhile, the locks of the mutating routes, and the refresh of a token.\<close>

definition shut_out :: "string \<Rightarrow> chat_db \<Rightarrow> bool" where
  "shut_out uid db \<longleftrightarrow>
     (\<forall>cfg creds path t1 t2 sampled others. fst (current_user cfg creds path t1 t2 sampled others (cd_auth db)) \<noteq> Inr uid) \<and>
     (\<forall>cfg token su t. lock_account_mutation cfg token uid su t (cd_auth db) = Inl 401) \<and>
     (\<forall>cfg token su t. lock_request_mutation cfg token uid su t db = Some 401) \<and>
     (\<forall>cfg token target t. lock_admin_mutation cfg token uid target t db = Inl 401) \<and>
     (\<forall>cfg c jti t. fst (refresh_session cfg True c uid jti t (cd_auth db)) = Inl 401) \<and>
     (\<forall>c t. fst (logout c uid t (cd_auth db)) = Inl 401)"

lemma current_user_inactive:
  assumes "dict_get (ad_users db) uid = Some u" "\<not> ur_active u"
  shows "fst (current_user cfg creds path t1 t2 sampled others db) \<noteq> Inr uid"
proof (cases creds)
  case (Bearer c)
  have locked: "fst (current_user_locked cfg c path t2 d) = Inr w \<Longrightarrow> w = cl_sub c" for d w
    by (auto simp: current_user_locked_def split: option.splits if_splits)
  have begin_: "fst (current_user_begin cfg creds path t1 sampled db) = Inr (Some w) \<Longrightarrow> w = cl_sub c" for w
    by (auto simp: current_user_begin_def Bearer split: option.splits if_splits)
  show ?thesis
  proof (cases "cl_sub c = uid")
    case True
    then have "\<exists>e d. current_user_begin cfg creds path t1 sampled db = (Inl e, d)"
      using assms by (auto simp: current_user_begin_def Bearer split: option.split)
    then show ?thesis by (auto simp: current_user_def)
  next
    case False
    then show ?thesis
      using locked begin_ by (fastforce simp: current_user_def Bearer split: prod.splits sum.splits option.splits)
  qed
qed (simp_all add: current_user_def current_user_begin_def)

lemma inactive_shut_out:
  assumes "dict_get (ad_users (cd_auth db)) uid = Some u" "\<not> ur_active u"
  shows "shut_out uid db"
proof -
  have "lock_account_mutation cfg token uid su t (cd_auth db) = Inl 401" for cfg token su t
    using assms by (auto simp: lock_account_mutation_def lock_user_row_def split: option.splits)
  moreover have "lock_admin_mutation cfg token uid target t db = Inl 401" for cfg token target t
    using assms by (auto simp: lock_admin_mutation_def lock_user_row_def split: option.splits)
  moreover have "fst (refresh_session cfg True c uid jti t (cd_auth db)) = Inl 401" "fst (logout c uid t (cd_auth db)) = Inl 401" for cfg c jti t
    using assms by (simp_all add: refresh_session_def logout_def lock_user_row_def)
  ultimately show ?thesis
    using assms by (simp add: shut_out_def current_user_inactive lock_request_mutation_def)
qed

text \<open>C33: Suspending an account takes effect at once and everywhere. After the administrator's request the account is refused by
  the dependency that authenticates requests, by the account, request and administration locks of the mutating routes, by
  the refresh of its tokens and by the logout, with whatever token and whatever else commits meanwhile; it is not an
  active member of any private conversation; if it was active before, every one of its bearer sessions is revoked, so that
  reactivation does not bring an old token back; and the routing invariant (who may read which envelope) still holds.\<close>

theorem suspension_complete:
  assumes run: "update_user_status cfg token admin uid False now db = (Inr (), db')" and inv: "route_inv tr db"
  shows "shut_out uid db' \<and>
    (\<forall>sid. active_member db' sid uid = None) \<and>
    (map_option snd (standing db uid) = Some True \<longrightarrow> (\<forall>(j, a) \<in> set (ad_sessions (cd_auth db')). as_user_id a = uid \<longrightarrow> as_revoked_at a \<noteq> None)) \<and>
    route_inv tr db'"
proof -
  from status_standing[OF run] obtain role where "standing db' uid = Some (role, False)" by auto
  then obtain u where "dict_get (ad_users (cd_auth db')) uid = Some u" "\<not> ur_active u" by (auto simp: standing_def)
  then have guard: "shut_out uid db'" using inactive_shut_out by blast
  obtain q where q: "lock_admin_mutation cfg token admin (Some uid) now db = Inr q"
    using run by (cases "lock_admin_mutation cfg token admin (Some uid) now db") (simp_all add: update_user_status_def)
  then obtain t where t: "lock_admin_mutation cfg token admin (Some uid) now db = Inr (Some t)" "dict_get (ad_users (cd_auth db)) uid = Some t"
    using lock_admin_Inr(2)[OF q refl] by auto
  have uid: "uid \<noteq> admin" using run t(1) by (auto simp: update_user_status_def)
  obtain n db1 where w: "revoke_active_e2ee_memberships uid now db = (n, db1)" by force
  have db1: "route_inv tr db1" "\<And>sid. active_member db1 sid uid = None"
    using route_inv_revoke_all[OF inv, of uid now] sweep_clears[OF inv, of uid now] w by simp_all
  note run' = run[unfolded update_user_status_def t(1) sum.case option.case w if_False prod.case Let_def]
  have rows: "same_rows db1 db'" using run' uid by (auto simp: same_rows_def split: if_splits)
  have "route_inv tr db'" "\<forall>sid. active_member db' sid uid = None"
    using db1 route_inv_same[OF rows] rows active_member_rows[of db' db1] by (simp_all add: same_rows_def)
  moreover have "as_revoked_at a \<noteq> None" if "ur_active t" "(j, a) \<in> set (ad_sessions (cd_auth db'))" "as_user_id a = uid" for j a
    using run' uid that revoked_bearers by (fastforce split: if_splits)
  ultimately show ?thesis using guard t(2) by (auto simp: standing_def)
qed

section \<open>Deletion\<close>

lemma sweep_rows:
  "cd_envelopes (snd (revoke_active_e2ee_memberships uid now db)) = cd_envelopes db"
  "cd_devices (snd (revoke_active_e2ee_memberships uid now db)) = cd_devices db"
  "(s, c') \<in> set (cd_sessions (snd (revoke_active_e2ee_memberships uid now db))) \<Longrightarrow> \<exists>c. (s, c) \<in> set (cd_sessions db) \<and> cv_owner c = cv_owner c'"
proof -
  have mem: "p \<in> set (dict_set k v d) \<Longrightarrow> p = (k, v) \<or> p \<in> set d" for p k v and d :: "(string, conversation) pydict"
    by (induction d) (auto split: if_splits)
  have one: "cd_envelopes (snd (revoke_membership uid now sid w)) = cd_envelopes (snd w) \<and> cd_devices (snd (revoke_membership uid now sid w)) = cd_devices (snd w) \<and>
      (\<forall>s c'. (s, c') \<in> set (cd_sessions (snd (revoke_membership uid now sid w))) \<longrightarrow> (\<exists>c. (s, c) \<in> set (cd_sessions (snd w)) \<and> cv_owner c = cv_owner c'))"
    for sid w
    by (cases w) (auto simp: revoke_membership_def Let_def next_epoch_def split: option.splits dest!: mem dict_get_SomeD)
  have "cd_envelopes (snd (fold (revoke_membership uid now) sids w)) = cd_envelopes (snd w) \<and> cd_devices (snd (fold (revoke_membership uid now) sids w)) = cd_devices (snd w) \<and>
      (\<forall>s c'. (s, c') \<in> set (cd_sessions (snd (fold (revoke_membership uid now) sids w))) \<longrightarrow> (\<exists>c. (s, c) \<in> set (cd_sessions (snd w)) \<and> cv_owner c = cv_owner c'))"
    for sids w
  proof (induction sids arbitrary: w)
    case (Cons sid sids)
    then show ?case using one[of sid w] by (metis fold_simps(2))
  qed auto
  from this[of "member_sessions uid db" "(0, db)"]
  show "cd_envelopes (snd (revoke_active_e2ee_memberships uid now db)) = cd_envelopes db"
    "cd_devices (snd (revoke_active_e2ee_memberships uid now db)) = cd_devices db"
    "(s, c') \<in> set (cd_sessions (snd (revoke_active_e2ee_memberships uid now db))) \<Longrightarrow> \<exists>c. (s, c) \<in> set (cd_sessions db) \<and> cv_owner c = cv_owner c'"
    by (auto simp: revoke_active_e2ee_memberships_def)
qed

lemma fold_delete_rows:
  "cd_devices (fold delete_conversation sids db) = cd_devices db"
  "(i, e) \<in> set (cd_envelopes db) \<Longrightarrow> se_session e \<notin> set sids \<Longrightarrow> (i, e) \<in> set (cd_envelopes (fold delete_conversation sids db))"
  by (induction sids arbitrary: db) simp_all

text \<open>C34: An account that sent an envelope into somebody else's conversation cannot be deleted: the foreign key
  \<^verbatim>\<open>sender_device_id\<close> restricts the deletion of its devices, the commit fails and the administrator's request, valid in
  every other respect, ends in an internal error and changes nothing.\<close>

theorem deletion_blocked_by_sent_envelope:
  assumes guard: "lock_admin_mutation cfg token admin (Some uid) now db = Inr (Some target)" "uid \<noteq> admin" "ur_role target \<noteq> ''admin''"
    and sent: "(i, e) \<in> set (cd_envelopes db)" "(se_sender_device e, d) \<in> set (cd_devices db)" "dv_user d = uid"
    and elsewhere: "\<forall>c. (se_session e, c) \<in> set (cd_sessions db) \<longrightarrow> cv_owner c \<noteq> uid"
  shows "admin_delete_user cfg token admin uid now db = (Inl 500, db)"
proof -
  let ?db1 = "snd (revoke_active_e2ee_memberships uid now db)"
  let ?db2 = "fold delete_conversation (owned_by uid ?db1) ?db1"
  have "se_session e \<notin> set (owned_by uid ?db1)"
    using sweep_rows(3)[of "se_session e" _ uid now db] elsewhere by (force simp: owned_by_def)
  then have "(i, e) \<in> set (cd_envelopes ?db2)" using sent(1) by (intro fold_delete_rows(2)) (simp_all add: sweep_rows)
  moreover have "se_sender_device e \<in> set (devices_of uid ?db2)"
    using sent(2,3) by (force simp: devices_of_def fold_delete_rows(1) sweep_rows(2))
  ultimately have "delete_account uid ?db1 = None" by (force simp: delete_account_def Let_def list_ex_iff)
  then show ?thesis using guard by (simp add: admin_delete_user_def)
qed

section \<open>A concrete run\<close>

definition demo_realm :: chat_db where
  "demo_realm = demo_group\<lparr>cd_auth := demo_auth\<lparr>ad_users :=
      [(''u1'', \<lparr>ur_username = ''ana'', ur_role = ''admin'', ur_active = True, ur_token_version = 1, ur_mfa_enabled = True\<rparr>),
       (''u2'', \<lparr>ur_username = ''bob'', ur_role = ''user'', ur_active = True, ur_token_version = 1, ur_mfa_enabled = True\<rparr>)]\<rparr>,
     cd_envelopes := [(demo_uuid, demo_row\<lparr>se_sender_user := ''u2'', se_sender_device := ''d2''\<rparr>)]\<rparr>"

lemma demo_admin_guard:
  "lock_admin_mutation demo_settings (Some demo_token) ''u1'' (Some ''u2'') 1 demo_realm =
     Inr (Some \<lparr>ur_username = ''bob'', ur_role = ''user'', ur_active = True, ur_token_version = 1, ur_mfa_enabled = True\<rparr>)"
  by (simp add: lock_admin_mutation_def demo_realm_def demo_guard_defs)

theorem deletion_blocked_by_sent_envelope_witness:
  "admin_delete_user demo_settings (Some demo_token) ''u1'' ''u2'' 1 demo_realm = (Inl 500, demo_realm)"
  by (rule deletion_blocked_by_sent_envelope[OF demo_admin_guard, of demo_uuid "demo_row\<lparr>se_sender_user := ''u2'', se_sender_device := ''d2''\<rparr>" "demo_device ''u2''"])
    (simp_all add: demo_realm_def demo_group_def demo_device_def demo_row_def demo_conv_def)

lemma demo_suspended: "\<exists>db'. update_user_status demo_settings (Some demo_token) ''u1'' ''u2'' False 1 demo_realm = (Inr (), db')"
  by (simp add: update_user_status_def demo_admin_guard Let_def split: prod.split)

theorem administrators_persist_witness:
  "\<exists>db'. account_run demo_realm [(''u1'', ''u2'')] db' \<and> standing db' ''u1'' = Some (''admin'', True)"
proof -
  obtain db' where u: "update_user_status demo_settings (Some demo_token) ''u1'' ''u2'' False 1 demo_realm = (Inr (), db')"
    using demo_suspended by blast
  have r: "account_run demo_realm [(''u1'', ''u2'')] db'" using account_run.change_status[OF account_run.start u] by simp
  have "standing db' ''u1'' = standing demo_realm ''u1'' \<or> (standing demo_realm ''u1'' = None \<and> standing db' ''u1'' = Some (''user'', True))"
    using administrators_persist[OF r] by auto
  then have "standing db' ''u1'' = Some (''admin'', True)" by (simp add: standing_def demo_realm_def dict_get_Cons)
  with r show ?thesis by blast
qed

lemma demo_realm_inv: "route_inv [Stored demo_uuid (demo_row\<lparr>se_sender_user := ''u2'', se_sender_device := ''d2''\<rparr>) [''u1'', ''u2'']] demo_realm"
proof -
  have rows: "cd_sessions demo_realm = cd_sessions demo_group" "cd_members demo_realm = cd_members demo_group"
    "cd_envelopes demo_realm = [(demo_uuid, demo_row\<lparr>se_sender_user := ''u2'', se_sender_device := ''d2''\<rparr>)]"
    by (simp_all add: demo_realm_def)
  show ?thesis unfolding route_inv_def rows using demo_members(1)
    by (auto simp: envelopes_ok_def readers_ok_def dict_ok_def hosts_def demo_group_def demo_row_def dict_get_Cons demo_conv_def
        demo_opaque_def owner_member_def)
qed

theorem suspension_complete_witness:
  "\<exists>db'. update_user_status demo_settings (Some demo_token) ''u1'' ''u2'' False 1 demo_realm = (Inr (), db') \<and>
     active_member demo_realm ''s1'' ''u2'' \<noteq> None \<and> active_member db' ''s1'' ''u2'' = None \<and> shut_out ''u2'' db'"
proof -
  obtain db' where u: "update_user_status demo_settings (Some demo_token) ''u1'' ''u2'' False 1 demo_realm = (Inr (), db')"
    using demo_suspended by blast
  moreover have "active_member demo_realm ''s1'' ''u2'' \<noteq> None"
    by (simp add: active_member_def demo_realm_def demo_group_def owner_member_def)
  ultimately show ?thesis using suspension_complete[OF u demo_realm_inv] by blast
qed

end
