(* ===== verification/Dlp.thy ===== *)
theory Dlp
  imports Encoding "HOL-Library.Product_Lexorder" "HOL-Library.Multiset"
begin

text \<open>
  Data-loss prevention (\<^verbatim>\<open>src/app/dlp.py\<close>): classes and actions, the policy, the validators that
  confirm a candidate, duplicate removal, the aggregated report and the redaction of a text.

  Texts are lists of code points. The Unicode database (\<^verbatim>\<open>unicodedata\<close>, \<^verbatim>\<open>str.isdecimal\<close>,
  \<^verbatim>\<open>str.casefold\<close>, \<^verbatim>\<open>html.unescape\<close>) is the record \<open>unicode\<close>, an argument of the definitions
  that read it.
\<close>

abbreviation latin :: "string \<Rightarrow> ustr" where
  "latin s \<equiv> map code s"

section \<open>Vocabulary\<close>

datatype data_class = PUBLIC | INTERNAL | CONFIDENTIAL | HIGHLY_CONFIDENTIAL | E2EE_PRIVATE

datatype dlp_action = ALLOW | REDACT | CONFIRM | BLOCK | LOCAL_ONLY

datatype finding_type =
    SECRET | JWT | BEARER_TOKEN | PRIVATE_KEY | API_KEY | EMAIL | PHONE | PAYMENT_CARD | CCCD
  | TAX_ID | HEALTH_DATA | CUSTOM_DICTIONARY | INSPECTION_LIMIT

datatype severity = LOW | MEDIUM | HIGH | CRITICAL

primrec class_value :: "data_class \<Rightarrow> string" where
  "class_value PUBLIC = ''public''"
| "class_value INTERNAL = ''internal''"
| "class_value CONFIDENTIAL = ''confidential''"
| "class_value HIGHLY_CONFIDENTIAL = ''highly_confidential''"
| "class_value E2EE_PRIVATE = ''e2ee_private''"

primrec action_value :: "dlp_action \<Rightarrow> string" where
  "action_value ALLOW = ''allow''"
| "action_value REDACT = ''redact''"
| "action_value CONFIRM = ''confirm''"
| "action_value BLOCK = ''block''"
| "action_value LOCAL_ONLY = ''local_only''"

primrec type_value :: "finding_type \<Rightarrow> string" where
  "type_value SECRET = ''secret''"
| "type_value JWT = ''jwt''"
| "type_value BEARER_TOKEN = ''bearer_token''"
| "type_value PRIVATE_KEY = ''private_key''"
| "type_value API_KEY = ''api_key''"
| "type_value EMAIL = ''email''"
| "type_value PHONE = ''phone''"
| "type_value PAYMENT_CARD = ''payment_card''"
| "type_value CCCD = ''cccd''"
| "type_value TAX_ID = ''tax_id''"
| "type_value HEALTH_DATA = ''health_data''"
| "type_value CUSTOM_DICTIONARY = ''custom_dictionary''"
| "type_value INSPECTION_LIMIT = ''inspection_limit''"

primrec class_rank :: "data_class \<Rightarrow> nat" where
  "class_rank PUBLIC = 0"
| "class_rank INTERNAL = 1"
| "class_rank CONFIDENTIAL = 2"
| "class_rank HIGHLY_CONFIDENTIAL = 3"
| "class_rank E2EE_PRIVATE = 4"

lemma class_rank_inject [simp]: "class_rank a = class_rank b \<longleftrightarrow> a = b"
  by (cases a; cases b) simp_all

text \<open>The classes are ordered by their rank, so that \<^verbatim>\<open>max(..., key=_CLASS_RANK)\<close> is \<open>max\<close>.\<close>

instantiation data_class :: linorder
begin

definition less_eq_data_class :: "data_class \<Rightarrow> data_class \<Rightarrow> bool" where
  "less_eq_data_class a b \<longleftrightarrow> class_rank a \<le> class_rank b"

definition less_data_class :: "data_class \<Rightarrow> data_class \<Rightarrow> bool" where
  "less_data_class a b \<longleftrightarrow> class_rank a < class_rank b"

instance
  by standard (auto simp: less_eq_data_class_def less_data_class_def)

end

lemma PUBLIC_least [simp]: "PUBLIC \<le> c"
  by (simp add: less_eq_data_class_def)

primrec severity_of :: "data_class \<Rightarrow> severity" where
  "severity_of PUBLIC = LOW"
| "severity_of INTERNAL = LOW"
| "severity_of CONFIDENTIAL = HIGH"
| "severity_of HIGHLY_CONFIDENTIAL = CRITICAL"
| "severity_of E2EE_PRIVATE = CRITICAL"

primrec safe_label :: "finding_type \<Rightarrow> ustr" where
  "safe_label SECRET = latin ''M'' @ [7853] @ latin ''t kh'' @ [7849] @ latin ''u ho'' @ [7863] @ latin ''c b'' @ [237] @ latin '' m'' @ [7853] @ latin ''t''"
| "safe_label JWT = latin ''JWT''"
| "safe_label BEARER_TOKEN = latin ''Bearer token''"
| "safe_label PRIVATE_KEY = latin ''Kh'' @ [243] @ latin ''a ri'' @ [234] @ latin ''ng t'' @ [432]"
| "safe_label API_KEY = latin ''API key ho'' @ [7863] @ latin ''c access token''"
| "safe_label EMAIL = [272, 7883] @ latin ''a ch'' @ [7881] @ latin '' email''"
| "safe_label PHONE = latin ''S'' @ [7889] @ latin '' '' @ [273] @ latin ''i'' @ [7879] @ latin ''n tho'' @ [7841] @ latin ''i''"
| "safe_label PAYMENT_CARD = latin ''S'' @ [7889] @ latin '' th'' @ [7867] @ latin '' thanh to'' @ [225] @ latin ''n''"
| "safe_label CCCD = latin ''S'' @ [7889] @ latin '' c'' @ [259] @ latin ''n c'' @ [432, 7899] @ latin ''c c'' @ [244] @ latin ''ng d'' @ [226] @ latin ''n''"
| "safe_label TAX_ID = latin ''M'' @ [227] @ latin '' s'' @ [7889] @ latin '' thu'' @ [7871] @ latin '' Vi'' @ [7879] @ latin ''t Nam''"
| "safe_label HEALTH_DATA = latin ''D'' @ [7919] @ latin '' li'' @ [7879] @ latin ''u s'' @ [7913] @ latin ''c kh'' @ [7887] @ latin ''e''"
| "safe_label CUSTOM_DICTIONARY = latin ''T'' @ [7915] @ latin '' '' @ [273] @ latin ''i'' @ [7875] @ latin ''n d'' @ [7919] @ latin '' li'' @ [7879] @ latin ''u t'' @ [249] @ latin ''y ch'' @ [7881] @ latin ''nh''"
| "safe_label INSPECTION_LIMIT = latin ''D'' @ [7919] @ latin '' li'' @ [7879] @ latin ''u v'' @ [432, 7907] @ latin ''t gi'' @ [7899] @ latin ''i h'' @ [7841] @ latin ''n ki'' @ [7875] @ latin ''m tra''"

section \<open>Policies\<close>

definition all_classes :: "data_class list" where
  "all_classes = [PUBLIC, INTERNAL, CONFIDENTIAL, HIGHLY_CONFIDENTIAL, E2EE_PRIVATE]"

definition all_actions :: "dlp_action list" where
  "all_actions = [ALLOW, REDACT, CONFIRM, BLOCK, LOCAL_ONLY]"

datatype dlp_error = Bad_Class string | Bad_Action string | Missing_Classes string | Empty_Name | No_Terms

definition coerce_data_class :: "string \<Rightarrow> dlp_error + data_class" where
  "coerce_data_class value =
     (case find (\<lambda>c. class_value c = py_lower (py_strip value)) all_classes of
        None \<Rightarrow> Inl (Bad_Class value)
      | Some c \<Rightarrow> Inr c)"

definition coerce_action :: "string \<Rightarrow> dlp_error + dlp_action" where
  "coerce_action value =
     (case find (\<lambda>a. action_value a = value) all_actions of None \<Rightarrow> Inl (Bad_Action value) | Some a \<Rightarrow> Inr a)"

type_synonym dlp_policy = "(data_class, dlp_action) pydict"

fun normalize_actions :: "(string \<times> string) list \<Rightarrow> dlp_policy \<Rightarrow> dlp_error + dlp_policy" where
  "normalize_actions [] normalized = Inr normalized"
| "normalize_actions ((raw_class, raw_action) # rest) normalized =
     (case coerce_data_class raw_class of
        Inl e \<Rightarrow> Inl e
      | Inr c \<Rightarrow>
          (case coerce_action raw_action of
             Inl e \<Rightarrow> Inl e
           | Inr a \<Rightarrow> normalize_actions rest (dict_set c a normalized)))"

definition policy_post_init :: "(string \<times> string) list \<Rightarrow> dlp_error + dlp_policy" where
  "policy_post_init actions =
     (case normalize_actions actions [] of
        Inl e \<Rightarrow> Inl e
      | Inr normalized \<Rightarrow>
          (let missing = filter (\<lambda>c. \<not> dict_has normalized c) all_classes
           in if missing \<noteq> [] then Inl (Missing_Classes (join '', '' (sort (map class_value missing))))
              else Inr normalized))"

text \<open>\<open>None\<close> is the \<^verbatim>\<open>KeyError\<close> of a class without an action.\<close>

definition action_for :: "dlp_policy \<Rightarrow> data_class \<Rightarrow> dlp_action option" where
  "action_for policy c = dict_get policy c"

definition default_actions :: "(string \<times> string) list" where
  "default_actions =
     [(''public'', ''allow''), (''internal'', ''confirm''), (''confidential'', ''redact''),
      (''highly_confidential'', ''block''), (''e2ee_private'', ''local_only'')]"

section \<open>Normalisation and validators\<close>

record unicode =
  nfkc :: "ustr \<Rightarrow> ustr"
  cat_cf :: "nat \<Rightarrow> bool"
  cat_cc :: "nat \<Rightarrow> bool"
  uspace :: "nat \<Rightarrow> bool"
  ualnum :: "nat \<Rightarrow> bool"
  decimal :: "nat \<Rightarrow> nat option"
  casefold_char :: "nat \<Rightarrow> ustr"
  unescape :: "ustr \<Rightarrow> ustr"

definition is_invisible_format_character :: "unicode \<Rightarrow> nat \<Rightarrow> bool" where
  "is_invisible_format_character U c \<longleftrightarrow>
     cat_cf U c \<or> (0xFE00 \<le> c \<and> c \<le> 0xFE0F) \<or> (0xE0100 \<le> c \<and> c \<le> 0xE01EF)"

definition normalize_text :: "unicode \<Rightarrow> ustr \<Rightarrow> ustr" where
  "normalize_text U t = filter (\<lambda>c. \<not> is_invisible_format_character U c) (nfkc U t)"

definition digits :: "unicode \<Rightarrow> ustr \<Rightarrow> ustr" where
  "digits U v = filter (\<lambda>c. decimal U c \<noteq> None) v"

text \<open>\<^verbatim>\<open>int(character)\<close> of a decimal character.\<close>

definition digit_value :: "unicode \<Rightarrow> nat \<Rightarrow> nat" where
  "digit_value U c = the (decimal U c)"

definition one_character :: "ustr \<Rightarrow> bool" where
  "one_character ds \<longleftrightarrow> length (remdups ds) = 1"

fun luhn_sum :: "nat \<Rightarrow> nat \<Rightarrow> nat list \<Rightarrow> nat" where
  "luhn_sum parity index [] = 0"
| "luhn_sum parity index (number # rest) =
     (if index mod 2 = parity then (if number * 2 > 9 then number * 2 - 9 else number * 2) else number)
       + luhn_sum parity (Suc index) rest"

definition is_luhn_valid :: "unicode \<Rightarrow> ustr \<Rightarrow> bool" where
  "is_luhn_valid U value =
     (let ds = digits U value
      in if \<not> (13 \<le> length ds \<and> length ds \<le> 19) \<or> one_character ds then False
         else luhn_sum (length ds mod 2) 0 (map (digit_value U) ds) mod 10 = 0)"

definition phone_separator :: "unicode \<Rightarrow> nat \<Rightarrow> bool" where
  "phone_separator U c \<longleftrightarrow> uspace U c \<or> c \<in> set (latin ''.()/-'')"

definition uprefix :: "string \<Rightarrow> ustr \<Rightarrow> bool" where
  "uprefix p s \<longleftrightarrow> take (length p) s = latin p"

definition valid_phone :: "unicode \<Rightarrow> ustr \<Rightarrow> bool" where
  "valid_phone U value =
     (let c0 = filter (\<lambda>c. \<not> phone_separator U c) value;
          c1 = (if uprefix ''+84'' c0 then latin ''0'' @ drop 3 c0
                else if uprefix ''84'' c0 then latin ''0'' @ drop 2 c0 else c0)
      in if c1 = [] \<or> \<not> list_all (\<lambda>c. decimal U c \<noteq> None) c1 \<or> one_character c1 then False
         else if length c1 = 10 \<and> take 2 c1 \<in> set (map latin [''03'', ''05'', ''07'', ''08'', ''09'']) then True
         else uprefix ''02'' c1 \<and> (length c1 = 10 \<or> length c1 = 11))"

definition VN_PROVINCE_CODES :: "string list" where
  "VN_PROVINCE_CODES = [
    ''001'', ''002'', ''004'', ''006'', ''008'', ''010'', ''011'', ''012'', ''014'', ''015'', ''017'',
    ''019'', ''020'', ''022'', ''024'', ''025'', ''026'', ''027'', ''030'', ''031'', ''033'', ''034'',
    ''035'', ''036'', ''037'', ''038'', ''040'', ''042'', ''044'', ''045'', ''046'', ''048'', ''049'',
    ''051'', ''052'', ''054'', ''056'', ''058'', ''060'', ''062'', ''064'', ''066'', ''067'', ''068'',
    ''070'', ''072'', ''074'', ''075'', ''077'', ''079'', ''080'', ''082'', ''083'', ''084'', ''086'',
    ''087'', ''089'', ''091'', ''092'', ''093'', ''094'', ''095'', ''096'']"

definition valid_cccd :: "unicode \<Rightarrow> ustr \<Rightarrow> bool" where
  "valid_cccd U value =
     (let ds = digits U value in length ds = 12 \<and> take 3 ds \<in> set (map latin VN_PROVINCE_CODES))"

definition tax_weights :: "nat list" where
  "tax_weights = [31, 29, 23, 19, 17, 13, 7, 5, 3]"

definition valid_tax_id_checksum :: "unicode \<Rightarrow> ustr \<Rightarrow> bool" where
  "valid_tax_id_checksum U value =
     (let d0 = digits U value;
          ds = (if length d0 = 13 then take 10 d0 else d0)
      in if length ds \<noteq> 10 \<or> one_character ds then False
         else (let e = 10 - sum_list (map2 (\<lambda>d w. digit_value U d * w) (take 9 ds) tax_weights) mod 11;
                   expected = (if e \<ge> 10 then 0 else e)
               in digit_value U (last ds) = expected))"

section \<open>Spans\<close>

record detected_span =
  sp_start :: nat
  sp_end :: nat
  sp_type :: finding_type
  sp_detector :: string
  sp_class :: data_class

definition overlap :: "detected_span \<Rightarrow> detected_span \<Rightarrow> bool" where
  "overlap a b \<longleftrightarrow> sp_start a < sp_end b \<and> sp_start b < sp_end a"

text \<open>\<^verbatim>\<open>dict.fromkeys\<close>, and a dictionary keyed by all fields of its values: the first position of every
  element.\<close>

definition fromkeys :: "'a list \<Rightarrow> 'a list" where
  "fromkeys xs = dict_keys (fold (\<lambda>x d. dict_set x () d) xs [])"

definition deduplicate_and_disambiguate :: "detected_span list \<Rightarrow> detected_span list" where
  "deduplicate_and_disambiguate spans =
     (let result = fromkeys (filter (\<lambda>s. sp_end s > sp_start s) spans);
          tax_spans = filter (\<lambda>s. sp_type s = TAX_ID) result;
          kept = filter (\<lambda>s. \<not> (sp_type s = PHONE \<and> list_ex (overlap s) tax_spans)) result
      in sort_key (\<lambda>s. (sp_start s, sp_end s, type_value (sp_type s))) kept)"

section \<open>The report\<close>

record dlp_finding =
  fi_type :: finding_type
  fi_detector :: string
  fi_label :: ustr
  fi_class :: data_class
  fi_severity :: severity
  fi_count :: nat

definition occurrences :: "detected_span list \<Rightarrow> detected_span list" where
  "occurrences spans =
     dict_values (fold (\<lambda>s d. dict_set (sp_start s, sp_end s, sp_type s, sp_class s) s d) spans [])"

definition occurrence_counts :: "detected_span list \<Rightarrow> (finding_type \<times> data_class, nat) pydict" where
  "occurrence_counts items =
     fold (\<lambda>s d. dict_set (sp_type s, sp_class s) (Suc (dict_get_or d (sp_type s, sp_class s) 0)) d) items []"

definition detector_ids :: "detected_span list \<Rightarrow> (finding_type \<times> data_class, string list) pydict" where
  "detector_ids items =
     fold (\<lambda>s d. dict_set (sp_type s, sp_class s)
                   (List.insert (sp_detector s) (dict_get_or d (sp_type s, sp_class s) [])) d) items []"

definition finding_of ::
  "(finding_type \<times> data_class, string list) pydict \<Rightarrow> (finding_type \<times> data_class) \<times> nat \<Rightarrow> dlp_finding" where
  "finding_of ids kc =
     (case kc of ((t, c), n) \<Rightarrow>
        \<lparr> fi_type = t,
          fi_detector = (case dict_get_or ids (t, c) [] of [d] \<Rightarrow> d | _ \<Rightarrow> type_value t @ ''.multiple''),
          fi_label = safe_label t,
          fi_class = c,
          fi_severity = severity_of c,
          fi_count = n \<rparr>)"

definition safe_findings :: "detected_span list \<Rightarrow> dlp_finding list" where
  "safe_findings spans =
     (let items = occurrences spans;
          findings = map (finding_of (detector_ids items)) (occurrence_counts items)
      in sort_key (\<lambda>f. (- int (class_rank (fi_class f)), type_value (fi_type f), fi_detector f)) findings)"

section \<open>Redaction\<close>

type_synonym merged_span = "nat \<times> nat \<times> finding_type list"

text \<open>\<open>merge_spans\<close> carries the merged spans newest first: its head is \<^verbatim>\<open>merged[-1]\<close>.\<close>

fun merge_spans :: "merged_span list \<Rightarrow> detected_span list \<Rightarrow> merged_span list" where
  "merge_spans merged [] = rev merged"
| "merge_spans merged (s # rest) =
     (case merged of
        [] \<Rightarrow> merge_spans [(sp_start s, sp_end s, [sp_type s])] rest
      | (start, stop, types) # before \<Rightarrow>
          if sp_start s > stop then merge_spans ((sp_start s, sp_end s, [sp_type s]) # merged) rest
          else merge_spans ((start, max stop (sp_end s), List.insert (sp_type s) types) # before) rest)"

definition upper_char :: "char \<Rightarrow> char" where
  "upper_char c = (if is_lower c then char_of (code c - 32) else c)"

definition type_name :: "finding_type \<Rightarrow> string" where
  "type_name t = map upper_char (type_value t)"

definition placeholder :: "finding_type list \<Rightarrow> ustr" where
  "placeholder types = latin (''[REDACTED:'' @ join ''+'' (sort (map type_name types)) @ '']'')"

text \<open>\<open>slice t i j\<close> is \<^verbatim>\<open>t[i:j]\<close>.\<close>

definition slice :: "'a list \<Rightarrow> nat \<Rightarrow> nat \<Rightarrow> 'a list" where
  "slice t i j = drop i (take j t)"

fun redact_chunks :: "ustr \<Rightarrow> nat \<Rightarrow> merged_span list \<Rightarrow> ustr" where
  "redact_chunks t cursor [] = drop cursor t"
| "redact_chunks t cursor ((start, stop, types) # rest) =
     slice t cursor start @ placeholder types @ redact_chunks t stop rest"

definition redact_spans :: "ustr \<Rightarrow> detected_span list \<Rightarrow> ustr" where
  "redact_spans t spans =
     (let ordered = sort_key (\<lambda>s. (sp_start s, sp_end s)) spans
      in if ordered = [] then t else redact_chunks t 0 (merge_spans [] ordered))"

section \<open>What redaction leaves\<close>

definition covered :: "detected_span list \<Rightarrow> nat \<Rightarrow> bool" where
  "covered spans i \<longleftrightarrow> list_ex (\<lambda>s. sp_start s \<le> i \<and> i < sp_end s) spans"

text \<open>Reference: a character outside every span stays, and a maximal run of covered positions becomes one
  placeholder that names the types of the spans that start in it.\<close>

definition run_end :: "detected_span list \<Rightarrow> nat \<Rightarrow> nat \<Rightarrow> nat" where
  "run_end spans n i = i + length (takeWhile (covered spans) [i..<n])"

definition run_types :: "detected_span list \<Rightarrow> nat \<Rightarrow> nat \<Rightarrow> finding_type list" where
  "run_types spans n i =
     remdups (map sp_type (filter (\<lambda>s. i \<le> sp_start s \<and> sp_start s < run_end spans n i) spans))"

definition redact_position :: "detected_span list \<Rightarrow> ustr \<Rightarrow> nat \<Rightarrow> ustr" where
  "redact_position spans t i =
     (if \<not> covered spans i then [t ! i]
      else if i > 0 \<and> covered spans (i - 1) then []
      else placeholder (run_types spans (length t) i))"

definition redact_reference :: "ustr \<Rightarrow> detected_span list \<Rightarrow> ustr" where
  "redact_reference t spans = concat (map (redact_position spans t) [0..<length t])"

definition spans_ok :: "nat \<Rightarrow> detected_span list \<Rightarrow> bool" where
  "spans_ok n spans \<longleftrightarrow> list_all (\<lambda>s. sp_start s < sp_end s \<and> sp_end s \<le> n) spans"

lemma covered_iff: "covered spans i \<longleftrightarrow> (\<exists>s\<in>set spans. sp_start s \<le> i \<and> i < sp_end s)"
  by (simp add: covered_def list_ex_iff)

lemma spans_ok_iff: "spans_ok n spans \<longleftrightarrow> (\<forall>s\<in>set spans. sp_start s < sp_end s \<and> sp_end s \<le> n)"
  by (simp add: spans_ok_def list_all_iff)

lemma type_name_inject [simp]: "type_name a = type_name b \<longleftrightarrow> a = b"
  by (cases a; cases b) (simp_all add: type_name_def upper_char_def is_lower_def)

lemma placeholder_cong:
  assumes "set xs = set ys" "distinct xs" "distinct ys"
  shows "placeholder xs = placeholder ys"
proof -
  have "mset (map type_name xs) = mset (map type_name ys)"
    using assms by (metis mset_map set_eq_iff_mset_eq_distinct)
  then have "sort (map type_name xs) = sort (map type_name ys)"
    by (metis sorted_list_of_multiset_mset)
  then show ?thesis by (simp add: placeholder_def)
qed

text \<open>What the merge loop keeps of the spans \<open>P\<close> it has read.\<close>

definition merged_inv :: "merged_span list \<Rightarrow> detected_span list \<Rightarrow> bool" where
  "merged_inv merged P \<longleftrightarrow>
     sorted_wrt (\<lambda>a b. fst (snd b) < fst a) merged \<and>
     (\<forall>(a, b, T)\<in>set merged. a < b \<and> distinct T \<and> a \<in> sp_start ` set P \<and>
        set T = sp_type ` {x \<in> set P. a \<le> sp_start x \<and> sp_start x < b}) \<and>
     (\<forall>i. covered P i \<longleftrightarrow> (\<exists>(a, b, T)\<in>set merged. a \<le> i \<and> i < b))"

lemma merged_invD:
  assumes "merged_inv merged P"
  shows "sorted_wrt (\<lambda>a b. fst (snd b) < fst a) merged"
    and "(a, b, T) \<in> set merged \<Longrightarrow> a < b \<and> distinct T \<and> a \<in> sp_start ` set P \<and>
           set T = sp_type ` {x \<in> set P. a \<le> sp_start x \<and> sp_start x < b}"
    and "covered P i \<longleftrightarrow> (\<exists>(a, b, T)\<in>set merged. a \<le> i \<and> i < b)"
proof -
  note all = assms[unfolded merged_inv_def]
  show "sorted_wrt (\<lambda>a b. fst (snd b) < fst a) merged"
    and "covered P i \<longleftrightarrow> (\<exists>(a, b, T)\<in>set merged. a \<le> i \<and> i < b)"
    using all by (simp_all only:)
  show "a < b \<and> distinct T \<and> a \<in> sp_start ` set P \<and>
      set T = sp_type ` {x \<in> set P. a \<le> sp_start x \<and> sp_start x < b}" if "(a, b, T) \<in> set merged"
    using bspec[OF all[THEN conjunct2, THEN conjunct1] that] by (simp only: prod.case)
qed

lemma merged_ends:
  assumes "sorted_wrt (\<lambda>a b. fst (snd b) < fst a) ((a, b, T) # before)" "(a', b', T') \<in> set before"
  shows "b' < a"
  using assms by auto

lemma merged_start_below:
  assumes inv: "merged_inv ((a, b, T) # before) P" and x: "x \<in> set P" "sp_start x < sp_end x"
  shows "sp_start x < b"
proof -
  have "covered P (sp_start x)"
    using x by (auto simp: covered_iff)
  then obtain a' b' T' where m: "(a', b', T') \<in> set ((a, b, T) # before)" "a' \<le> sp_start x" "sp_start x < b'"
    using merged_invD(3)[OF inv] by blast
  then show ?thesis
    using merged_ends[OF merged_invD(1)[OF inv]] merged_invD(2)[OF inv, of a b T] by fastforce
qed

lemma covered_append: "covered (P @ [x]) i \<longleftrightarrow> covered P i \<or> (sp_start x \<le> i \<and> i < sp_end x)"
  by (auto simp: covered_iff)

lemma merged_inv_new:
  assumes inv: "merged_inv merged P" and x: "sp_start x < sp_end x" and P: "\<forall>y\<in>set P. sp_start y < sp_end y"
    and gap: "\<forall>(a, b, T)\<in>set merged. b < sp_start x"
  shows "merged_inv ((sp_start x, sp_end x, [sp_type x]) # merged) (P @ [x])"
proof -
  have below: "sp_start y < sp_start x" if "y \<in> set P" for y
  proof -
    have "covered P (sp_start y)" using that P by (auto simp: covered_iff)
    then show ?thesis using merged_invD(3)[OF inv] gap by fastforce
  qed
  have here: "{y \<in> set (P @ [x]). sp_start x \<le> sp_start y \<and> sp_start y < sp_end x} = {x}"
    using below x by force
  have old: "{y \<in> set (P @ [x]). a \<le> sp_start y \<and> sp_start y < b} = {y \<in> set P. a \<le> sp_start y \<and> sp_start y < b}"
    if "(a, b, T) \<in> set merged" for a b T
    using that gap by fastforce
  have rows: "a < b \<and> distinct T \<and> a \<in> sp_start ` set (P @ [x]) \<and>
      set T = sp_type ` {y \<in> set (P @ [x]). a \<le> sp_start y \<and> sp_start y < b}"
    if "(a, b, T) \<in> set ((sp_start x, sp_end x, [sp_type x]) # merged)" for a b T
  proof (cases "(a, b, T) \<in> set merged")
    case True
    then show ?thesis using merged_invD(2)[OF inv True] old[OF True] by auto
  next
    case False
    then have "a = sp_start x" "b = sp_end x" "T = [sp_type x]" using that by auto
    then show ?thesis using here x by simp
  qed
  have chain: "sorted_wrt (\<lambda>a b. fst (snd b) < fst a) ((sp_start x, sp_end x, [sp_type x]) # merged)"
    using merged_invD(1)[OF inv] gap by auto
  have cov: "covered (P @ [x]) i \<longleftrightarrow>
      (\<exists>(a, b, T)\<in>set ((sp_start x, sp_end x, [sp_type x]) # merged). a \<le> i \<and> i < b)" for i
    unfolding covered_append merged_invD(3)[OF inv] by auto
  show ?thesis
    unfolding merged_inv_def using chain rows cov by blast
qed

lemma merged_inv_extend:
  assumes inv: "merged_inv ((a, b, T) # before) P" and x: "sp_start x < sp_end x"
    and P: "\<forall>y\<in>set P. sp_start y < sp_end y \<and> sp_start y \<le> sp_start x" and touch: "sp_start x \<le> b"
  shows "merged_inv ((a, max b (sp_end x), List.insert (sp_type x) T) # before) (P @ [x])"
proof -
  note chain = merged_invD(1)[OF inv]
  have head: "a < b" "distinct T" "a \<in> sp_start ` set P" "set T = sp_type ` {y \<in> set P. a \<le> sp_start y \<and> sp_start y < b}"
    using merged_invD(2)[OF inv, of a b T] by auto
  have ax: "a \<le> sp_start x" using head(3) P by auto
  have ends: "b' < a" if "(a', b', T') \<in> set before" for a' b' T'
    using merged_ends[OF chain that] .
  have here: "{y \<in> set (P @ [x]). a \<le> sp_start y \<and> sp_start y < max b (sp_end x)} =
      insert x {y \<in> set P. a \<le> sp_start y \<and> sp_start y < b}"
    using merged_start_below[OF inv] P x ax by force
  have old: "{y \<in> set (P @ [x]). a' \<le> sp_start y \<and> sp_start y < b'} = {y \<in> set P. a' \<le> sp_start y \<and> sp_start y < b'}"
    if "(a', b', T') \<in> set before" for a' b' T'
    using ends[OF that] ax by auto
  have rows: "a' < b' \<and> distinct T' \<and> a' \<in> sp_start ` set (P @ [x]) \<and>
      set T' = sp_type ` {y \<in> set (P @ [x]). a' \<le> sp_start y \<and> sp_start y < b'}"
    if "(a', b', T') \<in> set ((a, max b (sp_end x), List.insert (sp_type x) T) # before)" for a' b' T'
  proof (cases "(a', b', T') \<in> set before")
    case True
    then show ?thesis using merged_invD(2)[OF inv, of a' b' T'] old[OF True] by auto
  next
    case False
    then have row: "a' = a" "b' = max b (sp_end x)" "T' = List.insert (sp_type x) T" using that by auto
    show ?thesis unfolding row here using head by auto
  qed
  have chain': "sorted_wrt (\<lambda>a b. fst (snd b) < fst a) ((a, max b (sp_end x), List.insert (sp_type x) T) # before)"
    using chain by auto
  have cov: "covered (P @ [x]) i \<longleftrightarrow>
      (\<exists>(a', b', T')\<in>set ((a, max b (sp_end x), List.insert (sp_type x) T) # before). a' \<le> i \<and> i < b')" for i
    unfolding covered_append merged_invD(3)[OF inv] using ax touch x head(1) by auto
  show ?thesis
    unfolding merged_inv_def using chain' rows cov by blast
qed

lemma merge_spans_inv:
  assumes "merged_inv merged P" "merged = [] \<Longrightarrow> P = []" "sorted (map sp_start (P @ rest))"
    "\<forall>y\<in>set (P @ rest). sp_start y < sp_end y"
  shows "merged_inv (rev (merge_spans merged rest)) (P @ rest)"
  using assms
proof (induction rest arbitrary: merged P)
  case Nil
  then show ?case by simp
next
  case (Cons x rest)
  have x: "sp_start x < sp_end x" and P: "\<forall>y\<in>set P. sp_start y < sp_end y \<and> sp_start y \<le> sp_start x"
    using Cons.prems(3,4) by (auto simp: sorted_append)
  have next_inv: "merged_inv (rev (merge_spans m' rest)) (P @ x # rest)" if "merged_inv m' (P @ [x])" "m' \<noteq> []" for m'
    using Cons.IH[OF that(1)] that(2) Cons.prems(3,4) by simp
  show ?case
  proof (cases merged)
    case Nil
    then show ?thesis
      using next_inv[OF merged_inv_new[OF Cons.prems(1) x]] P by simp
  next
    case (Cons m before)
    obtain a b T where m: "m = (a, b, T)" by (cases m)
    note inv = Cons.prems(1)[unfolded Cons m]
    show ?thesis
    proof (cases "sp_start x > b")
      case True
      then have "\<forall>(a', b', T')\<in>set merged. b' < sp_start x"
        using Cons m merged_ends[OF merged_invD(1)[OF inv]] merged_invD(2)[OF inv, of a b T] by fastforce
      then show ?thesis
        using next_inv[OF merged_inv_new[OF Cons.prems(1) x]] P Cons m True by simp
    next
      case False
      then show ?thesis
        using next_inv[OF merged_inv_extend[OF inv x P]] Cons m by simp
    qed
  qed
qed

lemma concat_map_single: "\<forall>i\<in>set is. f i = [g i] \<Longrightarrow> concat (map f is) = map g is"
  by (induction "is") auto

lemma slice_nth: "j \<le> length t \<Longrightarrow> slice t i j = map ((!) t) [i..<j]"
  by (rule nth_equalityI) (auto simp: slice_def)

lemma drop_nth: "drop i t = map ((!) t) [i..<length t]"
  by (rule nth_equalityI) auto

lemma redact_position_plain: "\<not> covered spans i \<Longrightarrow> redact_position spans t i = [t ! i]"
  by (simp add: redact_position_def)

lemma run_end_exact:
  assumes "\<forall>i\<in>{a..<b}. covered spans i" "a \<le> b" "b \<le> n" "b < n \<Longrightarrow> \<not> covered spans b"
  shows "run_end spans n a = b"
proof -
  have split: "[a..<n] = [a..<b] @ [b..<n]"
    using assms(2,3) by (metis le_add_diff_inverse upt_add_eq_append)
  have "takeWhile (covered spans) [b..<n] = []"
    using assms(4) by (cases "b < n") (auto simp: upt_conv_Cons)
  then have "takeWhile (covered spans) [a..<n] = [a..<b]"
    using assms(1) unfolding split by (subst takeWhile_append2) auto
  then show ?thesis using assms(2) by (simp add: run_end_def)
qed

lemma redact_run:
  assumes run: "\<forall>i\<in>{a..<b}. covered spans i" and ab: "a < b" and a: "a = 0 \<or> \<not> covered spans (a - 1)"
  shows "concat (map (redact_position spans t) [a..<b]) = placeholder (run_types spans (length t) a)"
proof -
  have first: "redact_position spans t a = placeholder (run_types spans (length t) a)"
    using run ab a by (auto simp: redact_position_def)
  have "redact_position spans t i = []" if "i \<in> set [Suc a..<b]" for i
  proof -
    have "i - 1 \<in> {a..<b}" "i \<in> {a..<b}" "i > 0" using that by auto
    then have "covered spans (i - 1)" "covered spans i" "i > 0" using run by blast+
    then show ?thesis by (simp add: redact_position_def)
  qed
  then have "concat (map (redact_position spans t) [Suc a..<b]) = []"
    by simp
  then show ?thesis
    using ab first by (simp add: upt_conv_Cons)
qed

lemma run_types_merged:
  assumes "set T = sp_type ` {x \<in> set spans. a \<le> sp_start x \<and> sp_start x < b}" "distinct T" "run_end spans n a = b"
  shows "placeholder (run_types spans n a) = placeholder T"
  by (rule placeholder_cong) (use assms in \<open>auto simp: run_types_def\<close>)

lemma redact_chunks_reference:
  assumes "sorted_wrt (\<lambda>a b. fst (snd a) < fst b) M"
    and "\<forall>(a, b, T)\<in>set M. cursor \<le> a \<and> a < b \<and> b \<le> length t \<and> distinct T \<and>
           set T = sp_type ` {x \<in> set spans. a \<le> sp_start x \<and> sp_start x < b}"
    and "\<forall>i\<ge>cursor. covered spans i \<longleftrightarrow> (\<exists>(a, b, T)\<in>set M. a \<le> i \<and> i < b)"
    and "cursor = 0 \<or> \<not> covered spans cursor"
    and "cursor \<le> length t"
  shows "redact_chunks t cursor M = concat (map (redact_position spans t) [cursor..<length t])"
  using assms
proof (induction M arbitrary: cursor)
  case Nil
  then have "\<forall>i\<in>set [cursor..<length t]. redact_position spans t i = [t ! i]"
    by (simp add: redact_position_plain)
  then show ?case
    using concat_map_single[where g = "(!) t"] drop_nth by simp
next
  case (Cons m M)
  obtain a b T where m: "m = (a, b, T)" by (cases m)
  have row: "cursor \<le> a" "a < b" "b \<le> length t" "distinct T"
      "set T = sp_type ` {x \<in> set spans. a \<le> sp_start x \<and> sp_start x < b}"
    using Cons.prems(2) m by auto
  have later: "b < a'" if "(a', b', T') \<in> set M" for a' b' T'
    using Cons.prems(1) m that by auto
  have cov: "covered spans i \<longleftrightarrow> (a \<le> i \<and> i < b) \<or> (\<exists>(a', b', T')\<in>set M. a' \<le> i \<and> i < b')" if "cursor \<le> i" for i
    using Cons.prems(3) that m by auto
  have before: "\<not> covered spans i" if "cursor \<le> i" "i < a" for i
    using cov[OF that(1)] that(2) later row(2) by fastforce
  have at_b: "\<not> covered spans b"
    using cov[of b] later row(1,2) by fastforce
  have run: "\<forall>i\<in>{a..<b}. covered spans i"
    using cov row(1) by auto
  have left: "a = 0 \<or> \<not> covered spans (a - 1)"
    using before[of "a - 1"] Cons.prems(4) row(1) run row(2) by (cases "a = cursor") auto
  have rest: "redact_chunks t b M = concat (map (redact_position spans t) [b..<length t])"
  proof (rule Cons.IH)
    show "\<forall>i\<ge>b. covered spans i \<longleftrightarrow> (\<exists>(a, b, T)\<in>set M. a \<le> i \<and> i < b)"
      using cov row(1,2) by auto
    show "\<forall>(a, b', T)\<in>set M. b \<le> a \<and> a < b' \<and> b' \<le> length t \<and> distinct T \<and>
        set T = sp_type ` {x \<in> set spans. a \<le> sp_start x \<and> sp_start x < b'}"
      using Cons.prems(2) later by (fastforce dest: less_imp_le)
  qed (use Cons.prems(1) at_b row(3) in auto)
  have plain: "slice t cursor a = concat (map (redact_position spans t) [cursor..<a])"
    using before row by (subst concat_map_single[where g = "(!) t"]) (auto simp: slice_nth redact_position_plain)
  have "[cursor..<length t] = [cursor..<a] @ [a..<b] @ [b..<length t]"
    using row(1-3) by (metis le_add_diff_inverse less_imp_le upt_add_eq_append le_trans append.assoc)
  then show ?case
    using rest plain redact_run[OF run row(2) left] run_types_merged[OF row(5,4) run_end_exact[OF run]] row(2,3) at_b m
    by simp
qed

lemma redact_spans_eq_reference:
  assumes "spans_ok (length t) spans"
  shows "redact_spans t spans = redact_reference t spans"
proof (cases "spans = []")
  case True
  then show ?thesis
    by (simp add: redact_spans_def redact_reference_def redact_position_def covered_def map_nth concat_map_single[of _ _ "(!) t"])
next
  case False
  define ordered where "ordered = sort_key (\<lambda>s. (sp_start s, sp_end s)) spans"
  define M where "M = merge_spans [] ordered"
  have same: "set ordered = set spans" and ne: "ordered \<noteq> []"
    using False by (auto simp: ordered_def simp flip: set_empty)
  have "sorted (map (\<lambda>s. (sp_start s, sp_end s)) ordered)"
    by (simp add: ordered_def)
  then have starts: "sorted (map sp_start ordered)"
    by (auto simp: sorted_map less_eq_prod_def elim!: sorted_wrt_mono_rel[rotated])
  have inv: "merged_inv (rev M) ordered"
    unfolding M_def using merge_spans_inv[of "[]" "[]" ordered] starts same assms
    by (simp add: merged_inv_def covered_iff spans_ok_iff)
  have cov: "covered ordered = covered spans"
    using same by (auto simp: covered_iff)
  have chain: "sorted_wrt (\<lambda>a b. fst (snd a) < fst b) M"
    using merged_invD(1)[OF inv] by (simp add: sorted_wrt_rev)
  have rows: "\<forall>(a, b, T)\<in>set M. 0 \<le> a \<and> a < b \<and> b \<le> length t \<and> distinct T \<and>
      set T = sp_type ` {x \<in> set spans. a \<le> sp_start x \<and> sp_start x < b}"
  proof clarify
    fix a b T
    assume m: "(a, b, T) \<in> set M"
    then have r: "a < b \<and> distinct T \<and> set T = sp_type ` {x \<in> set spans. a \<le> sp_start x \<and> sp_start x < b}"
      using merged_invD(2)[OF inv, of a b T] same by simp
    then have "covered spans (b - 1)"
      using merged_invD(3)[OF inv, of "b - 1"] m cov by fastforce
    then have "b \<le> length t"
      using assms by (fastforce simp: covered_iff spans_ok_iff)
    then show "0 \<le> a \<and> a < b \<and> b \<le> length t \<and> distinct T \<and>
      set T = sp_type ` {x \<in> set spans. a \<le> sp_start x \<and> sp_start x < b}"
      using r by simp
  qed
  have "redact_chunks t 0 M = redact_reference t spans"
    unfolding redact_reference_def
    by (rule redact_chunks_reference[OF chain rows]) (use merged_invD(3)[OF inv] cov in auto)
  then show ?thesis
    using ne by (simp add: redact_spans_def ordered_def[symmetric] M_def[symmetric])
qed

text \<open>The redacted text depends on the characters outside the spans only.\<close>

lemma redact_spans_blind:
  assumes "spans_ok (length t) spans" "length t' = length t" "\<forall>i<length t. \<not> covered spans i \<longrightarrow> t' ! i = t ! i"
  shows "redact_spans t' spans = redact_spans t spans"
proof -
  have "redact_position spans t' i = redact_position spans t i" if "i < length t" for i
    using assms(2,3) that by (simp add: redact_position_def)
  then have "redact_reference t' spans = redact_reference t spans"
    unfolding redact_reference_def using assms(2) by (auto intro!: arg_cong[where f = concat])
  then show ?thesis
    using assms(1,2) by (simp add: redact_spans_eq_reference)
qed

section \<open>Duplicates and reports\<close>

lemma fold_dict_set_keys:
  "fst ` set (fold (\<lambda>x d. dict_set (k x) (v x) d) xs d) = fst ` set d \<union> k ` set xs"
  by (induction xs arbitrary: d) (auto simp: set_fst_dict_set)

lemma set_fromkeys [simp]: "set (fromkeys xs) = set xs"
  using fold_dict_set_keys[of "\<lambda>x. x" "\<lambda>_. ()" xs "[]"] by (simp add: fromkeys_def dict_keys_def)

lemma deduplicate_subset:
  "s \<in> set (deduplicate_and_disambiguate spans) \<Longrightarrow> s \<in> set spans \<and> sp_start s < sp_end s"
  by (auto simp: deduplicate_and_disambiguate_def Let_def)

text \<open>Only a phone number may be dropped, and only next to a tax identifier that stays.\<close>

lemma deduplicate_keeps:
  assumes "s \<in> set spans" "sp_start s < sp_end s"
  shows "s \<in> set (deduplicate_and_disambiguate spans) \<or>
    (sp_type s = PHONE \<and> (\<exists>t\<in>set (deduplicate_and_disambiguate spans). sp_type t = TAX_ID \<and> overlap s t))"
  using assms by (auto simp: deduplicate_and_disambiguate_def Let_def list_ex_iff)

lemma fold_occurrences:
  assumes "\<forall>(k, s)\<in>set d. k = f s"
  shows "\<forall>(k, s)\<in>set (fold (\<lambda>s d. dict_set (f s) s d) spans d). k = f s"
  using assms
proof (induction spans arbitrary: d)
  case (Cons s spans)
  have "\<forall>(k, x)\<in>set (dict_set (f s) s d). k = f x"
    using Cons.prems dict_set_subset[of "f s" s d] by blast
  then show ?case using Cons.IH by simp
qed simp

lemma occurrences_image:
  "(\<lambda>s. (sp_start s, sp_end s, sp_type s, sp_class s)) ` set (occurrences spans) =
   (\<lambda>s. (sp_start s, sp_end s, sp_type s, sp_class s)) ` set spans"
proof -
  let ?f = "\<lambda>s. (sp_start s, sp_end s, sp_type s, sp_class s)"
  let ?d = "fold (\<lambda>s d. dict_set (?f s) s d) spans []"
  have rows: "\<forall>(k, s)\<in>set ?d. k = ?f s"
    using fold_occurrences[of "[]" ?f spans] by simp
  have "?f ` set (occurrences spans) = (\<lambda>p. ?f (snd p)) ` set ?d"
    unfolding occurrences_def dict_values_def by (simp add: image_image)
  also have "\<dots> = fst ` set ?d"
    using rows by (intro image_cong) auto
  finally show ?thesis
    using fold_dict_set_keys[of ?f "\<lambda>s. s" spans "[]"] by simp
qed

lemma fold_counts_keys:
  "fst ` set (fold (\<lambda>s d. dict_set (k s) (g s d) d) xs d) = fst ` set d \<union> k ` set xs"
  by (induction xs arbitrary: d) (auto simp: set_fst_dict_set)

text \<open>The report names exactly the types and classes that were detected.\<close>

lemma safe_findings_classes:
  "(\<lambda>f. (fi_type f, fi_class f)) ` set (safe_findings spans) = (\<lambda>s. (sp_type s, sp_class s)) ` set spans"
proof -
  have "(\<lambda>f. (fi_type f, fi_class f)) ` set (safe_findings spans) = fst ` set (occurrence_counts (occurrences spans))"
    by (force simp: safe_findings_def Let_def finding_of_def image_image split: prod.splits)
  also have "\<dots> = (\<lambda>s. (sp_type s, sp_class s)) ` set (occurrences spans)"
    unfolding occurrence_counts_def by (simp add: fold_counts_keys)
  also have "\<dots> = (\<lambda>(a, b, t, c). (t, c)) ` (\<lambda>s. (sp_start s, sp_end s, sp_type s, sp_class s)) ` set (occurrences spans)"
    by (simp add: image_image)
  also have "\<dots> = (\<lambda>s. (sp_type s, sp_class s)) ` set spans"
    unfolding occurrences_image by (simp add: image_image)
  finally show ?thesis .
qed

section \<open>Policies give every class an action\<close>

lemma class_in_all [simp]: "c \<in> set all_classes"
  by (cases c) (simp_all add: all_classes_def)

lemma policy_post_init_has:
  assumes "policy_post_init actions = Inr p"
  shows "dict_get p c \<noteq> None"
proof -
  have "filter (\<lambda>c. \<not> dict_has p c) all_classes = []"
    using assms by (auto simp: policy_post_init_def Let_def split: sum.splits if_splits)
  then show ?thesis
    by (auto simp: filter_empty_conv dict_has_def)
qed

text \<open>The class an entry of the configuration names, however it is spelt.\<close>

definition names_class :: "string \<Rightarrow> data_class \<Rightarrow> bool" where
  "names_class raw c \<longleftrightarrow> py_lower (py_strip raw) = class_value c"

lemma class_value_inject [simp]: "class_value a = class_value b \<longleftrightarrow> a = b"
  by (cases a; cases b) simp_all

lemma action_value_inject [simp]: "action_value a = action_value b \<longleftrightarrow> a = b"
  by (cases a; cases b) simp_all

lemma coerce_data_class_iff: "coerce_data_class raw = Inr c \<longleftrightarrow> names_class raw c"
proof (cases "find (\<lambda>c. class_value c = py_lower (py_strip raw)) all_classes")
  case None
  then have "\<not> names_class raw c" by (auto simp: names_class_def find_None_iff)
  then show ?thesis using None by (simp add: coerce_data_class_def)
next
  case (Some d)
  then have "class_value d = py_lower (py_strip raw)" by (auto simp: find_Some_iff)
  then show ?thesis using Some by (auto simp: coerce_data_class_def names_class_def simp flip: class_value_inject)
qed

lemma action_in_all [simp]: "a \<in> set all_actions"
  by (cases a) (simp_all add: all_actions_def)

lemma coerce_action_iff: "coerce_action raw = Inr a \<longleftrightarrow> raw = action_value a"
proof (cases "find (\<lambda>a. action_value a = raw) all_actions")
  case None
  then have "raw \<noteq> action_value a" by (auto simp: find_None_iff)
  then show ?thesis using None by (simp add: coerce_action_def)
next
  case (Some b)
  then have "action_value b = raw" by (auto simp: find_Some_iff)
  then show ?thesis using Some by (auto simp: coerce_action_def)
qed

definition entry_parses :: "string \<times> string \<Rightarrow> bool" where
  "entry_parses e \<longleftrightarrow> (\<exists>c. names_class (fst e) c) \<and> (\<exists>a. snd e = action_value a)"

lemma normalize_actions_parses: "(\<exists>p. normalize_actions raw d = Inr p) \<longleftrightarrow> (\<forall>e\<in>set raw. entry_parses e)"
proof (induction raw d rule: normalize_actions.induct)
  case (2 rc ra rest d)
  show ?case
  proof (cases "entry_parses (rc, ra)")
    case True
    then obtain c a where "coerce_data_class rc = Inr c" "coerce_action ra = Inr a"
      by (auto simp: entry_parses_def coerce_data_class_iff coerce_action_iff)
    then show ?thesis using 2 True by simp
  next
    case False
    then have "coerce_data_class rc \<noteq> Inr c \<or> coerce_action ra \<noteq> Inr a" for c a
      by (auto simp: entry_parses_def coerce_data_class_iff coerce_action_iff)
    then show ?thesis using False by (auto split: sum.splits)
  qed
qed simp

text \<open>The last entry that names a class decides.\<close>

lemma normalize_actions_last:
  assumes "normalize_actions raw d = Inr p"
  shows "(\<exists>pre rc a post. raw = pre @ (rc, action_value a) # post \<and> names_class rc c \<and> dict_get p c = Some a \<and>
           (\<forall>e\<in>set post. \<not> names_class (fst e) c)) \<or>
         (dict_get p c = dict_get d c \<and> (\<forall>e\<in>set raw. \<not> names_class (fst e) c))"
  using assms
proof (induction raw d rule: normalize_actions.induct)
  case (2 rc ra rest d)
  obtain b a where ca: "coerce_data_class rc = Inr b" "coerce_action ra = Inr a"
    using 2(2) by (auto split: sum.splits)
  note n = ca[unfolded coerce_data_class_iff coerce_action_iff]
  have b: "names_class rc c \<longleftrightarrow> b = c" using n(1) by (auto simp: names_class_def)
  from 2(1)[OF ca] 2(2) ca consider
      (later) pre rc' a' post where "rest = pre @ (rc', action_value a') # post" "names_class rc' c" "dict_get p c = Some a'"
        "\<forall>e\<in>set post. \<not> names_class (fst e) c"
    | (here) "dict_get p c = dict_get (dict_set b a d) c" "\<forall>e\<in>set rest. \<not> names_class (fst e) c"
    by auto
  then show ?case
  proof cases
    case later
    then show ?thesis by (intro disjI1 exI[of _ "(rc, ra) # pre"] exI[of _ rc'] exI[of _ a'] exI[of _ post]) simp
  next
    case here
    show ?thesis
    proof (cases "b = c")
      case True
      then show ?thesis using here n b by (intro disjI1 exI[of _ "[]"] exI[of _ rc] exI[of _ a] exI[of _ rest]) simp
    next
      case False
      then show ?thesis using here b by simp
    qed
  qed
qed simp

text \<open>C35: A policy is constructed exactly when every entry of the configuration parses and every data class is named by one.
  Every class then has exactly one action, the one written by the last entry that names it: looking an action up never
  fails and never invents a permission.\<close>

theorem policy_total:
  "((\<exists>policy. policy_post_init actions = Inr policy) \<longleftrightarrow>
      (\<forall>e\<in>set actions. entry_parses e) \<and> (\<forall>c. \<exists>e\<in>set actions. names_class (fst e) c)) \<and>
   (\<forall>policy. policy_post_init actions = Inr policy \<longrightarrow>
      (\<forall>c. \<exists>pre raw a post. actions = pre @ (raw, action_value a) # post \<and> names_class raw c \<and>
         action_for policy c = Some a \<and> (\<forall>e\<in>set post. \<not> names_class (fst e) c)))"
proof -
  have init: "policy_post_init actions = Inr p \<longleftrightarrow> normalize_actions actions [] = Inr p \<and> (\<forall>c. dict_get p c \<noteq> None)" for p
    by (auto simp: policy_post_init_def Let_def filter_empty_conv dict_has_def split: sum.splits if_splits)
  have named: "dict_get p c \<noteq> None \<longleftrightarrow> (\<exists>e\<in>set actions. names_class (fst e) c)" if "normalize_actions actions [] = Inr p" for p c
    using normalize_actions_last[OF that, of c] by (auto simp: dict_get_def)
  have last: "\<exists>pre raw a post. actions = pre @ (raw, action_value a) # post \<and> names_class raw c \<and>
      action_for policy c = Some a \<and> (\<forall>e\<in>set post. \<not> names_class (fst e) c)" if "policy_post_init actions = Inr policy" for policy c
  proof -
    have p: "normalize_actions actions [] = Inr policy" "dict_get policy c \<noteq> None" using that init by blast+
    have "dict_get [] c = (None :: dlp_action option)" by (simp add: dict_get_def)
    then show ?thesis using normalize_actions_last[OF p(1), of c] p(2) by (simp add: action_for_def)
  qed
  have "(\<exists>policy. policy_post_init actions = Inr policy) \<longleftrightarrow>
      (\<forall>e\<in>set actions. entry_parses e) \<and> (\<forall>c. \<exists>e\<in>set actions. names_class (fst e) c)"
    unfolding init using named normalize_actions_parses[of actions "[]"] by blast
  then show ?thesis using last by blast
qed

lemma default_policy_init:
  "policy_post_init default_actions =
     Inr [(PUBLIC, ALLOW), (INTERNAL, CONFIRM), (CONFIDENTIAL, REDACT), (HIGHLY_CONFIDENTIAL, BLOCK), (E2EE_PRIVATE, LOCAL_ONLY)]"
  by code_simp

theorem policy_total_witness:
  "\<exists>policy. policy_post_init default_actions = Inr policy \<and> action_for policy INTERNAL = Some CONFIRM \<and>
     (\<exists>pre raw a post. default_actions = pre @ (raw, action_value a) # post \<and> names_class raw E2EE_PRIVATE \<and>
        action_for policy E2EE_PRIVATE = Some a) \<and>
     (\<nexists>p. policy_post_init (tl default_actions) = Inr p)"
proof -
  have "\<not> names_class (fst e) PUBLIC" if "e \<in> set (tl default_actions)" for e
  proof -
    have "list_all (\<lambda>e. \<not> names_class (fst e) PUBLIC) (tl default_actions)" by code_simp
    then show ?thesis using that by (simp add: list_all_iff)
  qed
  then have "\<nexists>p. policy_post_init (tl default_actions) = Inr p" using policy_total[of "tl default_actions"] by blast
  moreover have "\<exists>pre raw a post. default_actions = pre @ (raw, action_value a) # post \<and> names_class raw E2EE_PRIVATE \<and>
      action_for [(PUBLIC, ALLOW), (INTERNAL, CONFIRM), (CONFIDENTIAL, REDACT), (HIGHLY_CONFIDENTIAL, BLOCK), (E2EE_PRIVATE, LOCAL_ONLY)]
        E2EE_PRIVATE = Some a"
    using policy_total[of default_actions] default_policy_init by blast
  ultimately show ?thesis using default_policy_init by (auto simp: action_for_def dict_get_def)
qed

section \<open>Redaction against its reference\<close>

text \<open>C23: Redaction computes its reference: every character outside the detected spans stays where it was,
  every maximal run of covered characters (overlapping and touching spans together) is replaced by one
  placeholder, and the placeholder names exactly the types of the spans in the run, sorted.\<close>

theorem redact_spans_reference:
  assumes "spans_ok (length t) spans"
  shows "redact_spans t spans = redact_reference t spans"
  using assms by (rule redact_spans_eq_reference)

definition demo_spans :: "detected_span list" where
  "demo_spans =
     [\<lparr>sp_start = 4, sp_end = 7, sp_type = SECRET, sp_detector = ''secret.assignment'', sp_class = HIGHLY_CONFIDENTIAL\<rparr>,
      \<lparr>sp_start = 2, sp_end = 5, sp_type = EMAIL, sp_detector = ''pii.email'', sp_class = CONFIDENTIAL\<rparr>]"

theorem redact_spans_reference_witness:
  "spans_ok (length (latin ''a bcdef g'')) demo_spans \<and>
   redact_spans (latin ''a bcdef g'') demo_spans = redact_reference (latin ''a bcdef g'') demo_spans \<and>
   redact_reference (latin ''a bcdef g'') demo_spans = latin ''a [REDACTED:EMAIL+SECRET] g''"
proof -
  have ok: "spans_ok (length (latin ''a bcdef g'')) demo_spans" by code_simp
  have "redact_reference (latin ''a bcdef g'') demo_spans = latin ''a [REDACTED:EMAIL+SECRET] g''" by code_simp
  then show ?thesis using ok redact_spans_reference[OF ok] by blast
qed

section \<open>The card checksum\<close>

definition luhn_weight :: "bool \<Rightarrow> nat \<Rightarrow> nat" where
  "luhn_weight doubled n = (if doubled then (if n * 2 > 9 then n * 2 - 9 else n * 2) else n)"

lemma luhn_weight_inject:
  assumes "a < 10" "b < 10" "luhn_weight w a mod 10 = luhn_weight w b mod 10"
  shows "a = b"
proof -
  have small: "luhn_weight w n < 10" if "n < 10" for n
    using that by (auto simp: luhn_weight_def)
  have "luhn_weight w a = luhn_weight w b"
    using assms(3) small[OF assms(1)] small[OF assms(2)] by simp
  moreover have "2 * a = 2 * b - 9 \<Longrightarrow> 9 < 2 * b \<Longrightarrow> False" "2 * a - 9 = 2 * b \<Longrightarrow> 9 < 2 * a \<Longrightarrow> False"
    by presburger+
  ultimately show ?thesis
    by (auto simp: luhn_weight_def mult.commute split: if_splits)
qed

lemma luhn_sum_Cons: "luhn_sum p k (n # ns) = luhn_weight (k mod 2 = p) n + luhn_sum p (Suc k) ns"
  by (simp add: luhn_weight_def)

lemma luhn_sum_update:
  assumes "i < length ns"
  shows "luhn_sum p k (ns[i := d]) + luhn_weight ((k + i) mod 2 = p) (ns ! i) =
         luhn_sum p k ns + luhn_weight ((k + i) mod 2 = p) d"
  using assms
proof (induction ns arbitrary: i k)
  case (Cons n ns)
  show ?case
  proof (cases i)
    case 0
    then show ?thesis by (simp add: luhn_sum_Cons del: luhn_sum.simps)
  next
    case (Suc j)
    then show ?thesis
      using Cons.IH[of j "Suc k"] Cons.prems by (simp add: luhn_sum_Cons del: luhn_sum.simps)
  qed
qed simp

lemma filter_update:
  assumes "i < length v" "P (v ! i)" "P c"
  shows "filter P (v[i := c]) = (filter P v)[length (filter P (take i v)) := c]"
    and "length (filter P (take i v)) < length (filter P v)"
    and "filter P v ! length (filter P (take i v)) = v ! i"
proof -
  have v: "v = take i v @ v ! i # drop (Suc i) v"
    using assms(1) by (simp add: id_take_nth_drop)
  have f: "filter P v = filter P (take i v) @ v ! i # filter P (drop (Suc i) v)"
    by (subst v) (simp add: assms(2))
  have "v[i := c] = take i v @ c # drop (Suc i) v"
    using assms(1) by (simp add: upd_conv_take_nth_drop)
  then show "filter P (v[i := c]) = (filter P v)[length (filter P (take i v)) := c]"
    using f assms(3) by simp
  show "length (filter P (take i v)) < length (filter P v)" "filter P v ! length (filter P (take i v)) = v ! i"
    using f by simp_all
qed

text \<open>A payment-card candidate that passes the checksum fails it after any single digit is replaced by a
  digit of another value.\<close>

theorem luhn_detects_single_error:
  assumes dec: "\<forall>c d. decimal U c = Some d \<longrightarrow> d < 10"
    and ok: "is_luhn_valid U v" and i: "i < length v"
    and old: "decimal U (v ! i) = Some d" and new: "decimal U c = Some d'" and ne: "d \<noteq> d'"
  shows "\<not> is_luhn_valid U (v[i := c])"
proof
  assume ok': "is_luhn_valid U (v[i := c])"
  define ds where "ds = digits U v"
  define j where "j = length (filter (\<lambda>c. decimal U c \<noteq> None) (take i v))"
  note upd = filter_update[of i v "\<lambda>c. decimal U c \<noteq> None" c, OF i]
  have ds': "digits U (v[i := c]) = ds[j := c]" and j: "j < length ds" and at: "ds ! j = v ! i"
    using upd old new by (simp_all add: digits_def ds_def j_def)
  let ?p = "length ds mod 2" and ?ns = "map (digit_value U) ds"
  have s1: "luhn_sum ?p 0 ?ns mod 10 = 0"
    using ok by (simp add: is_luhn_valid_def Let_def ds_def split: if_splits)
  have s2: "luhn_sum ?p 0 (?ns[j := d']) mod 10 = 0"
    using ok' new unfolding is_luhn_valid_def ds' by (simp add: Let_def map_update digit_value_def split: if_splits)
  have "?ns ! j = d"
    using j at old by (simp add: digit_value_def)
  then have "luhn_sum ?p 0 (?ns[j := d']) + luhn_weight (j mod 2 = ?p) d = luhn_sum ?p 0 ?ns + luhn_weight (j mod 2 = ?p) d'"
    using luhn_sum_update[of j ?ns ?p 0 d'] j by simp
  then have "luhn_weight (j mod 2 = ?p) d mod 10 = luhn_weight (j mod 2 = ?p) d' mod 10"
    using s1 s2 by (metis add_0 mod_add_left_eq)
  then show False
    using luhn_weight_inject dec old new ne by blast
qed

text \<open>The ASCII part of the database, enough to run the definitions.\<close>

definition ascii_unicode :: unicode where
  "ascii_unicode = \<lparr>
     nfkc = (\<lambda>t. t), cat_cf = (\<lambda>c. c = 173), cat_cc = (\<lambda>c. c < 32),
     uspace = (\<lambda>c. c = 32 \<or> (9 \<le> c \<and> c \<le> 13)),
     ualnum = (\<lambda>c. (48 \<le> c \<and> c \<le> 57) \<or> (65 \<le> c \<and> c \<le> 90) \<or> (97 \<le> c \<and> c \<le> 122)),
     decimal = (\<lambda>c. if 48 \<le> c \<and> c \<le> 57 then Some (c - 48) else None),
     casefold_char = (\<lambda>c. if 65 \<le> c \<and> c \<le> 90 then [c + 32] else [c]),
     unescape = (\<lambda>t. if t = latin ''&amp;'' then latin ''&'' else t) \<rparr>"

theorem luhn_detects_single_error_witness:
  "is_luhn_valid ascii_unicode (latin ''4111 1111 1111 1111'') \<and>
   \<not> is_luhn_valid ascii_unicode ((latin ''4111 1111 1111 1111'')[5 := 55])"
proof -
  have ok: "is_luhn_valid ascii_unicode (latin ''4111 1111 1111 1111'')" by code_simp
  have "\<not> is_luhn_valid ascii_unicode ((latin ''4111 1111 1111 1111'')[5 := 55])"
  proof (rule luhn_detects_single_error[OF _ ok])
    show "\<forall>c d. decimal ascii_unicode c = Some d \<longrightarrow> d < 10" by (auto simp: ascii_unicode_def)
    show "5 < length (latin ''4111 1111 1111 1111'')" by simp
    show "decimal ascii_unicode (latin ''4111 1111 1111 1111'' ! 5) = Some 1" by code_simp
    show "decimal ascii_unicode 55 = Some 7" by code_simp
    show "(1::nat) \<noteq> 7" by simp
  qed
  then show ?thesis using ok by blast
qed

end
