(* ===== verification/Dlp_Inspect.thy ===== *)
theory Dlp_Inspect
  imports Dlp
begin

text \<open>
  The scanner of \<^verbatim>\<open>src/app/dlp.py\<close>: the detectors, the decoded views of a text (percent and entity
  escapes, base64), the bounded inspection loop, and the decision at the trust boundary.

  The large patterns of \<^verbatim>\<open>_REGEX_RULES\<close> and of the health detectors are the record \<open>matcher\<close>: for
  every pattern the spans of its group \<^verbatim>\<open>value\<close> in a text, in the order of \<^verbatim>\<open>finditer\<close>. The small
  patterns of the decoders are written out. The digest of a dictionary's name is an argument.
\<close>

section \<open>Detectors\<close>

record matcher =
  rule_matches :: "string \<Rightarrow> ustr \<Rightarrow> (nat \<times> nat) list"
  health_fields :: "ustr \<Rightarrow> (nat \<times> nat) list"
  health_terms :: "ustr \<Rightarrow> (nat \<times> nat) list"
  personal_context :: "ustr \<Rightarrow> bool"
  placeholder_fullmatch :: "ustr \<Rightarrow> bool"
  nested_object :: "ustr \<Rightarrow> bool"
  code_reference :: "ustr \<Rightarrow> bool"

record custom_dictionary =
  cu_name :: ustr
  cu_terms :: "ustr list"
  cu_class :: data_class
  cu_whole_word :: bool

record scanner =
  sc_unicode :: unicode
  sc_match :: matcher
  sc_digest :: "ustr \<Rightarrow> string"
  sc_policy :: dlp_policy
  sc_dictionaries :: "custom_dictionary list"

definition ustrip :: "unicode \<Rightarrow> ustr \<Rightarrow> ustr" where
  "ustrip U t = rev (dropWhile (uspace U) (rev (dropWhile (uspace U) t)))"

definition casefold :: "unicode \<Rightarrow> ustr \<Rightarrow> ustr" where
  "casefold U t = concat (map (casefold_char U) t)"

definition custom_dictionary_init ::
  "unicode \<Rightarrow> ustr \<Rightarrow> ustr list \<Rightarrow> data_class \<Rightarrow> bool \<Rightarrow> dlp_error + custom_dictionary" where
  "custom_dictionary_init U name terms c whole_word =
     (let n = ustrip U (normalize_text U name);
          ts = fromkeys (filter (\<lambda>t. t \<noteq> []) (map (\<lambda>raw. ustrip U (normalize_text U raw)) terms))
      in if n = [] then Inl Empty_Name
         else if ts = [] then Inl No_Terms
         else Inr \<lparr>cu_name = n, cu_terms = ts, cu_class = c, cu_whole_word = whole_word\<rparr>)"

definition CODE_KEYWORDS :: "string list" where
  "CODE_KEYWORDS =
     [''await'', ''null'', ''none'', ''undefined'', ''true'', ''false'', ''this'', ''self'', ''string'']"

text \<open>The patterns that use this validator match at least four characters, so \<^verbatim>\<open>value[0]\<close> exists.\<close>

definition is_literal_secret :: "unicode \<Rightarrow> matcher \<Rightarrow> ustr \<Rightarrow> bool" where
  "is_literal_secret U M value =
     (let quoted = hd value \<in> {34, 39};
          inner = ustrip U (if quoted then slice value 1 (length value - 1) else value)
      in if placeholder_fullmatch M inner \<or> casefold U inner \<in> set (map latin CODE_KEYWORDS) then False
         else if quoted then True
         else \<not> (uprefix ''<'' value \<or> nested_object M value \<or> code_reference M value))"

record regex_rule =
  ru_detector :: string
  ru_type :: finding_type
  ru_class :: data_class
  ru_validator :: "ustr \<Rightarrow> bool"

definition regex_rules :: "unicode \<Rightarrow> matcher \<Rightarrow> regex_rule list" where
  "regex_rules U M =
     (let rule = (\<lambda>d t c v. \<lparr>ru_detector = d, ru_type = t, ru_class = c, ru_validator = v\<rparr>);
          none = (\<lambda>_. True)
      in [rule ''secret.assignment'' SECRET HIGHLY_CONFIDENTIAL (is_literal_secret U M),
          rule ''token.bearer'' BEARER_TOKEN HIGHLY_CONFIDENTIAL none,
          rule ''token.jwt'' JWT HIGHLY_CONFIDENTIAL none,
          rule ''key.private_pem'' PRIVATE_KEY HIGHLY_CONFIDENTIAL none,
          rule ''api_key.assignment'' API_KEY HIGHLY_CONFIDENTIAL (is_literal_secret U M),
          rule ''api_key.env_token'' API_KEY HIGHLY_CONFIDENTIAL (is_literal_secret U M),
          rule ''api_key.known_format'' API_KEY HIGHLY_CONFIDENTIAL none,
          rule ''pii.email'' EMAIL CONFIDENTIAL none,
          rule ''pii.vn_phone'' PHONE CONFIDENTIAL (valid_phone U),
          rule ''payment_card.luhn'' PAYMENT_CARD HIGHLY_CONFIDENTIAL (is_luhn_valid U),
          rule ''vn.cccd.context'' CCCD HIGHLY_CONFIDENTIAL (\<lambda>v. length (digits U v) = 12),
          rule ''vn.cccd.structure'' CCCD HIGHLY_CONFIDENTIAL (valid_cccd U),
          rule ''vn.tax_id.context'' TAX_ID HIGHLY_CONFIDENTIAL none,
          rule ''vn.tax_id.checksum'' TAX_ID HIGHLY_CONFIDENTIAL (valid_tax_id_checksum U)])"

definition rule_spans :: "matcher \<Rightarrow> ustr \<Rightarrow> regex_rule \<Rightarrow> detected_span list" where
  "rule_spans M t r =
     map (\<lambda>(a, b). \<lparr>sp_start = a, sp_end = b, sp_type = ru_type r, sp_detector = ru_detector r, sp_class = ru_class r\<rparr>)
       (filter (\<lambda>(a, b). ru_validator r (slice t a b)) (rule_matches M (ru_detector r) t))"

definition regex_spans :: "scanner \<Rightarrow> ustr \<Rightarrow> detected_span list" where
  "regex_spans sc t = concat (map (rule_spans (sc_match sc) t) (regex_rules (sc_unicode sc) (sc_match sc)))"

definition health_spans :: "scanner \<Rightarrow> ustr \<Rightarrow> detected_span list" where
  "health_spans sc t =
     map (\<lambda>(a, b). \<lparr>sp_start = a, sp_end = b, sp_type = HEALTH_DATA, sp_detector = ''health.structured_context'',
                    sp_class = HIGHLY_CONFIDENTIAL\<rparr>) (health_fields (sc_match sc) t)
   @ map (\<lambda>(a, b). \<lparr>sp_start = a, sp_end = b, sp_type = HEALTH_DATA, sp_detector = ''health.personal_context'',
                    sp_class = HIGHLY_CONFIDENTIAL\<rparr>)
       (filter (\<lambda>(a, b). personal_context (sc_match sc) (slice t (a - 96) (min (length t) (b + 96))))
          (health_terms (sc_match sc) t))"

text \<open>\<^verbatim>\<open>str.find(sub, cursor)\<close>.\<close>

definition find_from :: "'a list \<Rightarrow> 'a list \<Rightarrow> nat \<Rightarrow> nat option" where
  "find_from t p cursor = find (\<lambda>i. take (length p) (drop i t) = p) [cursor..<Suc (length t)]"

lemma find_from_Some:
  assumes "find_from t p cursor = Some i"
  shows "cursor \<le> i" "i \<le> length t" "i + length p \<le> length t" "take (length p) (drop i t) = p"
proof -
  have i: "i \<in> set [cursor..<Suc (length t)]" and eq: "take (length p) (drop i t) = p"
    using assms by (auto simp: find_from_def find_Some_iff simp del: upt_Suc dest: nth_mem)
  show "cursor \<le> i" "i \<le> length t" "take (length p) (drop i t) = p" using i eq by auto
  have "length p \<le> length t - i"
    using arg_cong[OF eq, of length] by simp
  then show "i + length p \<le> length t" using i by auto
qed

lemma find_from_advance:
  assumes "find_from t p cursor = Some start"
  shows "Suc (length t) - max (start + length p) (Suc start) < Suc (length t) - cursor"
  using find_from_Some(1,2)[OF assms] by linarith

definition word_char :: "unicode \<Rightarrow> nat \<Rightarrow> bool" where
  "word_char U c \<longleftrightarrow> ualnum U c \<or> c = 95"

text \<open>The \<^verbatim>\<open>while True\<close> of one term: the accepted matches in the folded text.\<close>

function term_matches :: "unicode \<Rightarrow> bool \<Rightarrow> ustr \<Rightarrow> ustr \<Rightarrow> nat \<Rightarrow> (nat \<times> nat) list" where
  "term_matches U whole_word folded p cursor =
     (case find_from folded p cursor of
        None \<Rightarrow> []
      | Some start \<Rightarrow>
          (let stop = start + length p;
               left_word = start > 0 \<and> word_char U (folded ! (start - 1));
               right_word = stop < length folded \<and> word_char U (folded ! stop);
               rest = term_matches U whole_word folded p (max stop (Suc start))
           in if whole_word \<and> (left_word \<or> right_word) then rest else (start, stop) # rest))"
  by pat_completeness auto
termination
  by (relation "measure (\<lambda>(_, _, folded, _, cursor). Suc (length folded) - cursor)")
     (simp_all add: find_from_advance)

declare term_matches.simps [simp del]

definition folded_origins :: "unicode \<Rightarrow> ustr \<Rightarrow> nat list" where
  "folded_origins U t = concat (map (\<lambda>(i, c). replicate (length (casefold_char U c)) i) (enumerate 0 t))"

definition dictionary_detector :: "scanner \<Rightarrow> custom_dictionary \<Rightarrow> string" where
  "dictionary_detector sc d = ''custom_dictionary.'' @ take 12 (sc_digest sc (cu_name d))"

definition dictionary_spans :: "scanner \<Rightarrow> ustr \<Rightarrow> detected_span list" where
  "dictionary_spans sc t =
     (let U = sc_unicode sc;
          folded = casefold U t;
          origins = folded_origins U t
      in concat (map (\<lambda>d. concat (map (\<lambda>term.
           map (\<lambda>(start, stop).
             \<lparr>sp_start = origins ! start, sp_end = Suc (origins ! (stop - 1)), sp_type = CUSTOM_DICTIONARY,
              sp_detector = dictionary_detector sc d, sp_class = cu_class d\<rparr>)
             (term_matches U (cu_whole_word d) folded (casefold U term) 0)) (cu_terms d)))
           (sc_dictionaries sc)))"

definition detect_plain_spans :: "scanner \<Rightarrow> ustr \<Rightarrow> detected_span list" where
  "detect_plain_spans sc t =
     deduplicate_and_disambiguate (regex_spans sc t @ health_spans sc t @ dictionary_spans sc t)"

section \<open>Decoded views\<close>

definition MAX_SCAN_CHARACTERS :: nat where "MAX_SCAN_CHARACTERS = 65536"
definition MAX_DECODE_DEPTH :: nat where "MAX_DECODE_DEPTH = 3"
definition MAX_DECODED_CHARACTERS :: nat where "MAX_DECODED_CHARACTERS = 262144"
definition MAX_DECODED_VIEWS :: nat where "MAX_DECODED_VIEWS = 512"

record view =
  vw_text :: ustr
  vw_origins :: "(nat \<times> nat) list"
  vw_depth :: nat

definition source_span :: "view \<Rightarrow> nat \<Rightarrow> nat \<Rightarrow> nat \<times> nat" where
  "source_span v start stop = (fst (vw_origins v ! start), snd (vw_origins v ! (stop - 1)))"

text \<open>\<^verbatim>\<open>finditer\<close> of a pattern given by the length of its match at a position (0 when there is none), which
  sees the character before the position and the rest of the text.\<close>

function finditer :: "(nat option \<Rightarrow> ustr \<Rightarrow> nat) \<Rightarrow> ustr \<Rightarrow> nat \<Rightarrow> (nat \<times> nat) list" where
  "finditer len t i =
     (if i \<ge> length t then []
      else let n = len (if i = 0 then None else Some (t ! (i - 1))) (drop i t)
           in if n = 0 then finditer len t (Suc i) else (i, i + n) # finditer len t (i + n))"
  by pat_completeness auto
termination
  by (relation "measure (\<lambda>(_, t, i). length t - i)") auto

declare finditer.simps [simp del]

definition hex_char :: "nat \<Rightarrow> bool" where
  "hex_char c \<longleftrightarrow> (48 \<le> c \<and> c \<le> 57) \<or> (65 \<le> c \<and> c \<le> 70) \<or> (97 \<le> c \<and> c \<le> 102)"

definition ascii_digit :: "nat \<Rightarrow> bool" where
  "ascii_digit c \<longleftrightarrow> 48 \<le> c \<and> c \<le> 57"

definition ascii_alpha :: "nat \<Rightarrow> bool" where
  "ascii_alpha c \<longleftrightarrow> (65 \<le> c \<and> c \<le> 90) \<or> (97 \<le> c \<and> c \<le> 122)"

fun percent_len :: "ustr \<Rightarrow> nat" where
  "percent_len (p # a # b # r) = (if p = 37 \<and> hex_char a \<and> hex_char b then 3 + percent_len r else 0)"
| "percent_len _ = 0"

text \<open>A body of \<open>lo\<close> to \<open>hi\<close> characters and the semicolon: its length, or 0.\<close>

definition entity_body :: "(nat \<Rightarrow> bool) \<Rightarrow> nat \<Rightarrow> nat \<Rightarrow> ustr \<Rightarrow> nat" where
  "entity_body P lo hi s =
     (let n = length (takeWhile P s)
      in if lo \<le> n \<and> n \<le> hi \<and> take 1 (drop n s) = [59] then Suc n else 0)"

definition plus_if :: "nat \<Rightarrow> nat \<Rightarrow> nat" where
  "plus_if k n = (if n = 0 then 0 else k + n)"

definition entity_len :: "ustr \<Rightarrow> nat" where
  "entity_len s =
     (case s of
        [] \<Rightarrow> 0
      | c # r \<Rightarrow>
          if c \<noteq> 38 then 0
          else if take 2 r \<in> {[35, 120], [35, 88]} then plus_if 3 (entity_body hex_char 1 8 (drop 2 r))
          else if take 1 r = [35] then plus_if 2 (entity_body ascii_digit 1 10 (drop 1 r))
          else (case r of
                  [] \<Rightarrow> 0
                | a # q \<Rightarrow> if ascii_alpha a then plus_if 2 (entity_body (\<lambda>c. ascii_alpha c \<or> ascii_digit c) 1 31 q)
                           else 0))"

definition base64_char :: "nat \<Rightarrow> bool" where
  "base64_char c \<longleftrightarrow> ascii_alpha c \<or> ascii_digit c \<or> c \<in> {43, 47, 95, 45}"

definition base64_len :: "nat option \<Rightarrow> ustr \<Rightarrow> nat" where
  "base64_len before s =
     (let n = length (takeWhile base64_char s);
          k = length (takeWhile (\<lambda>c. c = 61) (drop n s));
          after = drop (n + k) s
      in if (case before of None \<Rightarrow> False | Some c \<Rightarrow> base64_char c) then 0
         else if n < 6 \<or> k > 2 \<or> (after \<noteq> [] \<and> base64_char (hd after)) then 0
         else n + k)"

definition hex_value_of :: "nat \<Rightarrow> nat" where
  "hex_value_of c = (if c \<le> 57 then c - 48 else if c \<le> 70 then c - 55 else c - 87)"

fun percent_bytes :: "ustr \<Rightarrow> nat list" where
  "percent_bytes (p # a # b # r) = (hex_value_of a * 16 + hex_value_of b) # percent_bytes r"
| "percent_bytes _ = []"

text \<open>\<open>None\<close> is the exception that makes the loop \<^verbatim>\<open>continue\<close>.\<close>

definition decode_match :: "unicode \<Rightarrow> bool \<Rightarrow> ustr \<Rightarrow> ustr option" where
  "decode_match U entities raw = (if entities then Some (unescape U raw) else utf8_decode (percent_bytes raw))"

fun escape_loop ::
  "unicode \<Rightarrow> bool \<Rightarrow> view \<Rightarrow> (nat \<times> nat) list \<Rightarrow> ustr \<times> (nat \<times> nat) list \<times> nat \<times> bool \<Rightarrow>
   ustr \<times> (nat \<times> nat) list \<times> nat \<times> bool" where
  "escape_loop U entities v [] acc = acc"
| "escape_loop U entities v ((a, b) # ms) (chunks, origins, cursor, changed) =
     (let raw = slice (vw_text v) a b
      in case decode_match U entities raw of
           None \<Rightarrow> escape_loop U entities v ms (chunks, origins, cursor, changed)
         | Some decoded \<Rightarrow>
             if decoded = raw then escape_loop U entities v ms (chunks, origins, cursor, changed)
             else let d = normalize_text U decoded
                  in escape_loop U entities v ms
                       (chunks @ slice (vw_text v) cursor a @ d,
                        origins @ slice (vw_origins v) cursor a @ replicate (length d) (source_span v a b),
                        b, True))"

definition escape_matches :: "bool \<Rightarrow> ustr \<Rightarrow> (nat \<times> nat) list" where
  "escape_matches entities t = finditer (\<lambda>_. if entities then entity_len else percent_len) t 0"

definition decode_escapes :: "unicode \<Rightarrow> bool \<Rightarrow> view \<Rightarrow> view option" where
  "decode_escapes U entities v =
     (case escape_loop U entities v (escape_matches entities (vw_text v)) ([], [], 0, False) of
        (chunks, origins, cursor, changed) \<Rightarrow>
          if \<not> changed then None
          else let decoded_text = chunks @ drop cursor (vw_text v);
                   all_origins = origins @ drop cursor (vw_origins v);
                   canonical = normalize_text U decoded_text;
                   final = (if canonical \<noteq> decoded_text
                            then replicate (length canonical) (fst (hd all_origins), snd (last all_origins))
                            else all_origins)
               in Some \<lparr>vw_text = canonical, vw_origins = final, vw_depth = Suc (vw_depth v)\<rparr>)"

definition translate_urlsafe :: "string \<Rightarrow> string" where
  "translate_urlsafe s = replace_char (CHR ''_'') (CHR ''/'') (replace_char (CHR ''-'') (CHR ''+'') s)"

definition base64_view :: "unicode \<Rightarrow> view \<Rightarrow> nat \<times> nat \<Rightarrow> view option" where
  "base64_view U v m =
     (case m of (a, b) \<Rightarrow>
        (let candidate = map char_of (slice (vw_text v) a b) :: string;
             padding = replicate ((4 - length candidate mod 4) mod 4) (CHR ''='')
         in case b64decode True (candidate @ padding) of
              None \<Rightarrow> None
            | Some decoded_bytes \<Rightarrow>
                (case utf8_decode_bytes decoded_bytes of
                   None \<Rightarrow> None
                 | Some decoded \<Rightarrow>
                     if rstrip_char (CHR ''='') (translate_urlsafe candidate)
                          \<noteq> rstrip_char (CHR ''='') (b64encode False decoded_bytes) then None
                     else if list_ex (\<lambda>c. cat_cc U c \<and> c \<notin> {9, 13, 10}) decoded then None
                     else let d = normalize_text U decoded
                          in if d = [] then None
                             else Some \<lparr>vw_text = d, vw_origins = replicate (length d) (source_span v a b),
                                        vw_depth = Suc (vw_depth v)\<rparr>)))"

definition decoded_views :: "unicode \<Rightarrow> view \<Rightarrow> view list" where
  "decoded_views U v =
     filter (\<lambda>w. vw_text w \<noteq> []) (List.map_filter (\<lambda>entities. decode_escapes U entities v) [False, True])
   @ List.map_filter (base64_view U v) (finditer base64_len (vw_text v) 0)"

section \<open>The inspection loop\<close>

definition limit_span :: "nat \<times> nat \<Rightarrow> detected_span" where
  "limit_span ab = \<lparr>sp_start = fst ab, sp_end = snd ab, sp_type = INSPECTION_LIMIT,
                    sp_detector = ''inspection.budget'', sp_class = HIGHLY_CONFIDENTIAL\<rparr>"

type_synonym view_id = "ustr \<times> (nat \<times> nat) list"

definition identity :: "view \<Rightarrow> view_id" where
  "identity v = (vw_text v, vw_origins v)"

text \<open>The state of the loop: the queue, the identities seen, the characters decoded, the spans.\<close>

type_synonym inspection = "view list \<times> view_id list \<times> nat \<times> detected_span list"

definition offer_view :: "view \<Rightarrow> inspection \<Rightarrow> inspection" where
  "offer_view w st =
     (case st of (pending, seen, chars, spans) \<Rightarrow>
        if identity w \<in> set seen then st
        else if vw_depth w > MAX_DECODE_DEPTH \<or> length seen \<ge> MAX_DECODED_VIEWS
                \<or> chars + length (vw_text w) > MAX_DECODED_CHARACTERS
        then (pending, seen, chars, spans @ [limit_span (source_span w 0 (length (vw_text w)))])
        else (pending @ [w], seen @ [identity w], chars + length (vw_text w), spans))"

definition source_found :: "view \<Rightarrow> detected_span \<Rightarrow> detected_span" where
  "source_found v f =
     (case source_span v (sp_start f) (sp_end f) of (a, b) \<Rightarrow>
        \<lparr>sp_start = a, sp_end = b, sp_type = sp_type f,
         sp_detector = (if vw_depth v > 0 then ''encoded.'' else []) @ sp_detector f, sp_class = sp_class f\<rparr>)"

definition inspection_size :: "inspection \<Rightarrow> nat" where
  "inspection_size st =
     (case st of (pending, seen, chars, spans) \<Rightarrow> 2 * (MAX_DECODED_VIEWS - length seen) + length pending)"

lemma offer_views_size: "inspection_size (fold offer_view ws st) \<le> inspection_size st"
proof (induction ws arbitrary: st)
  case (Cons w ws)
  have "inspection_size (offer_view w st) \<le> inspection_size st"
    by (auto simp: offer_view_def inspection_size_def split: prod.splits if_splits)
  then show ?case using Cons.IH[of "offer_view w st"] by simp
qed simp

function inspect_loop :: "scanner \<Rightarrow> inspection \<Rightarrow> detected_span list" where
  "inspect_loop sc ([], seen, chars, spans) = spans"
| "inspect_loop sc (v # pending, seen, chars, spans) =
     inspect_loop sc
       (fold offer_view (decoded_views (sc_unicode sc) v)
          (pending, seen, chars, spans @ map (source_found v) (detect_plain_spans sc (vw_text v))))"
  by pat_completeness auto
termination
proof (relation "measure (\<lambda>(sc, st). inspection_size st)")
  fix sc :: scanner and v and pending :: "view list" and seen :: "view_id list" and chars :: nat and spans
  let ?st = "(pending, seen, chars, spans @ map (source_found v) (detect_plain_spans sc (vw_text v)))"
  have "inspection_size ?st < inspection_size (v # pending, seen, chars, spans)"
    by (simp add: inspection_size_def)
  then show "((sc, fold offer_view (decoded_views (sc_unicode sc) v) ?st), sc, v # pending, seen, chars, spans)
      \<in> measure (\<lambda>(sc, st). inspection_size st)"
    using offer_views_size[of "decoded_views (sc_unicode sc) v" ?st] by simp
qed simp

definition initial_view :: "ustr \<Rightarrow> view" where
  "initial_view t = \<lparr>vw_text = t, vw_origins = map (\<lambda>i. (i, Suc i)) [0..<length t], vw_depth = 0\<rparr>"

definition detect_spans :: "scanner \<Rightarrow> ustr \<Rightarrow> detected_span list" where
  "detect_spans sc t =
     (if length t > MAX_SCAN_CHARACTERS then [limit_span (0, length t)]
      else if t = [] then []
      else deduplicate_and_disambiguate
             (inspect_loop sc ([initial_view t], [identity (initial_view t)], length t, [])))"

section \<open>Scan, redact, decide\<close>

definition scan :: "scanner \<Rightarrow> ustr \<Rightarrow> dlp_finding list" where
  "scan sc t = safe_findings (detect_spans sc (normalize_text (sc_unicode sc) t))"

definition redact :: "scanner \<Rightarrow> ustr \<Rightarrow> ustr \<times> dlp_finding list" where
  "redact sc t =
     (let normalized = normalize_text (sc_unicode sc) t;
          spans = detect_spans sc normalized
      in (redact_spans normalized spans, safe_findings spans))"

record dlp_decision =
  de_action :: dlp_action
  de_declared :: data_class
  de_effective :: data_class
  de_findings :: "dlp_finding list"
  de_output :: "ustr option"
  de_confirmed :: bool

text \<open>\<^verbatim>\<open>max(..., default=PUBLIC)\<close>.\<close>

definition max_class :: "data_class list \<Rightarrow> data_class" where
  "max_class cs = (case cs of [] \<Rightarrow> PUBLIC | c # rest \<Rightarrow> fold max rest c)"

text \<open>\<open>None\<close> is the \<^verbatim>\<open>KeyError\<close> of a policy without the class.\<close>

definition evaluate ::
  "scanner \<Rightarrow> ustr \<Rightarrow> data_class \<Rightarrow> bool \<Rightarrow> finding_type list \<Rightarrow> dlp_decision option" where
  "evaluate sc t declared confirmed removable =
     (let normalized = normalize_text (sc_unicode sc) t;
          spans = detect_spans sc normalized;
          findings = safe_findings spans;
          inferred = max_class (map fi_class (filter (\<lambda>f. fi_type f \<notin> set removable) findings));
          effective = max declared inferred
      in case action_for (sc_policy sc) effective of
           None \<Rightarrow> None
         | Some a \<Rightarrow>
             (let action = (if a = CONFIRM \<and> confirmed then ALLOW else a);
                  output_text = (if action = ALLOW
                                 then Some (redact_spans normalized (filter (\<lambda>s. sp_type s \<in> set removable) spans))
                                 else if action = REDACT then Some (redact_spans normalized spans)
                                 else None)
              in Some \<lparr>de_action = action, de_declared = declared, de_effective = effective,
                       de_findings = findings, de_output = output_text, de_confirmed = confirmed\<rparr>))"

definition may_leave_boundary :: "dlp_decision \<Rightarrow> bool" where
  "may_leave_boundary d \<longleftrightarrow> de_action d = ALLOW \<or> de_action d = REDACT"

definition requires_confirmation :: "dlp_decision \<Rightarrow> bool" where
  "requires_confirmation d \<longleftrightarrow> de_action d = CONFIRM"

definition blocked :: "dlp_decision \<Rightarrow> bool" where
  "blocked d \<longleftrightarrow> de_action d = BLOCK \<or> de_action d = LOCAL_ONLY"

section \<open>Views stay within the source\<close>

definition origins_ok :: "nat \<Rightarrow> (nat \<times> nat) list \<Rightarrow> bool" where
  "origins_ok n os \<longleftrightarrow>
     (\<forall>p\<in>set os. fst p < snd p \<and> snd p \<le> n) \<and> sorted_wrt (\<lambda>p q. fst p \<le> fst q \<and> snd p \<le> snd q) os"

definition view_ok :: "nat \<Rightarrow> view \<Rightarrow> bool" where
  "view_ok n v \<longleftrightarrow> length (vw_origins v) = length (vw_text v) \<and> origins_ok n (vw_origins v)"

lemma origins_range:
  assumes "origins_ok n os" "a < b" "b \<le> length os"
  shows "fst (os ! a) < snd (os ! (b - 1)) \<and> snd (os ! (b - 1)) \<le> n"
proof -
  have "fst (os ! a) \<le> fst (os ! (b - 1))"
  proof (cases "a = b - 1")
    case False
    then show ?thesis
      using assms sorted_wrt_nth_less[of "\<lambda>p q. fst p \<le> fst q \<and> snd p \<le> snd q" os a "b - 1"] by (auto simp: origins_ok_def)
  qed simp
  moreover have "os ! (b - 1) \<in> set os" using assms(2,3) by simp
  ultimately show ?thesis
    using assms(1) unfolding origins_ok_def by fastforce
qed

lemma source_span_range:
  assumes "view_ok n v" "a < b" "b \<le> length (vw_text v)"
  shows "fst (source_span v a b) < snd (source_span v a b) \<and> snd (source_span v a b) \<le> n"
  using origins_range[of n "vw_origins v" a b] assms by (simp add: view_ok_def source_span_def)

text \<open>A part of the origins may be replaced by its hull.\<close>

lemma origins_replace:
  assumes ok: "origins_ok n (xs @ ms @ ys)" and ne: "ms \<noteq> []"
  shows "origins_ok n (xs @ replicate k (fst (hd ms), snd (last ms)) @ ys)"
proof -
  let ?R = "\<lambda>p q. fst p \<le> fst q \<and> snd p \<le> (snd q :: nat)"
  have hull: "fst (hd ms) < snd (last ms) \<and> snd (last ms) \<le> n"
    using origins_range[of n ms 0 "length ms"] ok ne
    by (simp add: origins_ok_def sorted_wrt_append hd_conv_nth last_conv_nth)
  have "hd ms \<in> set ms" "last ms \<in> set ms" using ne by simp_all
  then have "\<forall>p\<in>set xs. ?R p (fst (hd ms), snd (last ms))" "\<forall>q\<in>set ys. ?R (fst (hd ms), snd (last ms)) q"
    using ok by (auto simp: origins_ok_def sorted_wrt_append)
  moreover have "sorted_wrt ?R (replicate k (fst (hd ms), snd (last ms)))"
    by (induction k) auto
  ultimately show ?thesis
    using ok hull by (auto simp: origins_ok_def sorted_wrt_append)
qed

fun matches_ok :: "nat \<Rightarrow> nat \<Rightarrow> (nat \<times> nat) list \<Rightarrow> bool" where
  "matches_ok cursor n [] \<longleftrightarrow> True"
| "matches_ok cursor n ((a, b) # ms) \<longleftrightarrow> cursor \<le> a \<and> a < b \<and> b \<le> n \<and> matches_ok b n ms"

lemma matches_ok_mono: "matches_ok c n ms \<Longrightarrow> c' \<le> c \<Longrightarrow> matches_ok c' n ms"
  by (cases ms) auto

lemma finditer_ok:
  assumes "\<And>before s. len before s \<le> length s"
  shows "matches_ok i (length t) (finditer len t i)"
  using assms
proof (induction len t i rule: finditer.induct)
  case (1 len t i)
  show ?case
  proof (cases "i \<ge> length t")
    case True
    then show ?thesis by (simp add: finditer.simps)
  next
    case False
    define n where "n = len (if i = 0 then None else Some (t ! (i - 1))) (drop i t)"
    have n: "n \<le> length t - i"
      using "1.prems"[of _ "drop i t"] by (simp add: n_def)
    show ?thesis
    proof (cases "n = 0")
      case True
      then show ?thesis
        using "1.IH"(1)[OF False n_def True] "1.prems" False
        by (subst finditer.simps) (auto simp: Let_def n_def intro: matches_ok_mono)
    next
      case n0: False
      then show ?thesis
        using "1.IH"(2)[OF False n_def n0] "1.prems" False n
        by (subst finditer.simps) (simp add: Let_def n_def)
    qed
  qed
qed

lemma percent_len_le: "percent_len s \<le> length s"
  by (induction s rule: percent_len.induct) auto

lemma entity_body_le: "entity_body P lo hi s \<le> length s"
proof -
  have "n + 1 \<le> length s" if "take 1 (drop n s) = [c]" for n c
    using arg_cong[OF that, of length] by simp
  then show ?thesis by (auto simp: entity_body_def Let_def)
qed

lemma entity_len_le: "entity_len s \<le> length s"
proof (cases s)
  case (Cons c r)
  have two: "2 \<le> length r" if "take 2 r = [a, b]" for a b :: nat
    using arg_cong[OF that, of length] by simp
  have one: "1 \<le> length r" if "take 1 r = [a]" for a :: nat
    using arg_cong[OF that, of length] by simp
  have "plus_if 3 (entity_body hex_char 1 8 (drop 2 r)) \<le> length s" if "2 \<le> length r"
    using entity_body_le[of hex_char 1 8 "drop 2 r"] that Cons by (auto simp: plus_if_def)
  moreover have "plus_if 2 (entity_body ascii_digit 1 10 (drop 1 r)) \<le> length s" if "1 \<le> length r"
    using entity_body_le[of ascii_digit 1 10 "drop 1 r"] that Cons by (auto simp: plus_if_def)
  moreover have "plus_if 2 (entity_body (\<lambda>c. ascii_alpha c \<or> ascii_digit c) 1 31 q) \<le> length s" if "r = a # q" for a q
    using entity_body_le[of "\<lambda>c. ascii_alpha c \<or> ascii_digit c" 1 31 q] that Cons by (auto simp: plus_if_def)
  ultimately show ?thesis
    using two one Cons by (auto simp: entity_len_def split: list.splits)
qed (simp add: entity_len_def)

lemma base64_len_le: "base64_len before s \<le> length s"
proof -
  have "length (takeWhile P s) + length (takeWhile Q (drop (length (takeWhile P s)) s)) \<le> length s" for P Q
    using length_takeWhile_le[of P s] length_takeWhile_le[of Q "drop (length (takeWhile P s)) s"] by simp
  then show ?thesis by (simp add: base64_len_def Let_def)
qed

lemma escape_matches_ok: "matches_ok 0 (length t) (escape_matches entities t)"
  unfolding escape_matches_def by (rule finditer_ok) (simp add: entity_len_le percent_len_le)

lemma slice_split: "i \<le> j \<Longrightarrow> drop i t = slice t i j @ drop j t"
  by (simp add: slice_def drop_take) (metis append_take_drop_id drop_drop le_add_diff_inverse2)

lemma slice_hull:
  assumes "a < b" "b \<le> length os"
  shows "slice os a b \<noteq> []" "fst (hd (slice os a b)) = fst (os ! a)" "snd (last (slice os a b)) = snd (os ! (b - 1))"
  using assms by (auto simp: slice_def hd_drop_conv_nth last_conv_nth)

lemma escape_loop_ok:
  assumes "view_ok n v" "matches_ok cursor (length (vw_text v)) ms" "length chunks = length origins"
    "origins_ok n (origins @ drop cursor (vw_origins v))" "cursor \<le> length (vw_text v)"
    "escape_loop U entities v ms (chunks, origins, cursor, changed) = (chunks', origins', cursor', changed')"
  shows "length chunks' = length origins' \<and> origins_ok n (origins' @ drop cursor' (vw_origins v)) \<and>
    cursor' \<le> length (vw_text v)"
  using assms
proof (induction ms arbitrary: chunks origins cursor changed)
  case Nil
  then show ?case by simp
next
  case (Cons m ms)
  obtain a b where m: "m = (a, b)" by (cases m)
  have ab: "cursor \<le> a" "a < b" "b \<le> length (vw_text v)" and ms: "matches_ok b (length (vw_text v)) ms"
    using Cons.prems(2) m by auto
  have len: "length (vw_origins v) = length (vw_text v)"
    using Cons.prems(1) by (simp add: view_ok_def)
  define d where "d = normalize_text U (the (decode_match U entities (slice (vw_text v) a b)))"
  show ?case
  proof (cases "decode_match U entities (slice (vw_text v) a b) \<in> {None, Some (slice (vw_text v) a b)}")
    case True
    then have "escape_loop U entities v ms (chunks, origins, cursor, changed) = (chunks', origins', cursor', changed')"
      using Cons.prems(6) m by auto
    then show ?thesis
      using Cons.IH[OF Cons.prems(1) matches_ok_mono[OF ms] Cons.prems(3-5)] ab by simp
  next
    case False
    then have run: "escape_loop U entities v ms
        (chunks @ slice (vw_text v) cursor a @ d,
         origins @ slice (vw_origins v) cursor a @ replicate (length d) (source_span v a b), b, True)
        = (chunks', origins', cursor', changed')"
      using Cons.prems(6) m by (auto simp: d_def Let_def split: option.splits)
    have "drop cursor (vw_origins v) = slice (vw_origins v) cursor a @ slice (vw_origins v) a b @ drop b (vw_origins v)"
      using slice_split[of cursor a "vw_origins v"] slice_split[of a b "vw_origins v"] ab by simp
    then have "origins_ok n ((origins @ slice (vw_origins v) cursor a) @
        replicate (length d) (fst (hd (slice (vw_origins v) a b)), snd (last (slice (vw_origins v) a b))) @ drop b (vw_origins v))"
      using Cons.prems(4) slice_hull(1)[OF ab(2), of "vw_origins v"] ab(3) len by (intro origins_replace) simp_all
    then have "origins_ok n ((origins @ slice (vw_origins v) cursor a @ replicate (length d) (source_span v a b)) @ drop b (vw_origins v))"
      using slice_hull(2,3)[OF ab(2), of "vw_origins v"] ab(3) len by (simp add: source_span_def)
    moreover have "length (chunks @ slice (vw_text v) cursor a @ d) =
        length (origins @ slice (vw_origins v) cursor a @ replicate (length d) (source_span v a b))"
      using Cons.prems(3) len by (simp add: slice_def)
    ultimately show ?thesis
      using Cons.IH[OF Cons.prems(1) ms _ _ ab(3) run] by simp
  qed
qed

lemma origins_replicate:
  assumes "fst p < snd p" "snd p \<le> n"
  shows "origins_ok n (replicate k p)"
  using assms by (induction k) (auto simp: origins_ok_def)

lemma normalize_Nil: "nfkc U [] = [] \<Longrightarrow> normalize_text U [] = []"
  by (simp add: normalize_text_def)

lemma decode_escapes_ok:
  assumes v: "view_ok n v" and U: "nfkc U [] = []" and run: "decode_escapes U entities v = Some w"
  shows "view_ok n w"
proof -
  obtain chunks origins cursor changed where
    loop: "escape_loop U entities v (escape_matches entities (vw_text v)) ([], [], 0, False) = (chunks, origins, cursor, changed)"
    by (metis prod_cases4)
  define dt where "dt = chunks @ drop cursor (vw_text v)"
  define ao where "ao = origins @ drop cursor (vw_origins v)"
  have "length chunks = length origins \<and> origins_ok n ao \<and> cursor \<le> length (vw_text v)"
    using escape_loop_ok[OF v escape_matches_ok _ _ _ loop] v by (simp add: ao_def view_ok_def)
  then have ao: "origins_ok n ao" "length ao = length dt"
    using v by (auto simp: ao_def dt_def view_ok_def)
  have w: "w = \<lparr>vw_text = normalize_text U dt,
      vw_origins = (if normalize_text U dt \<noteq> dt then replicate (length (normalize_text U dt)) (fst (hd ao), snd (last ao)) else ao),
      vw_depth = Suc (vw_depth v)\<rparr>"
    using run loop by (simp add: decode_escapes_def Let_def ao_def dt_def split: if_splits)
  show ?thesis
  proof (cases "normalize_text U dt = dt")
    case True
    then show ?thesis using ao w by (simp add: view_ok_def)
  next
    case False
    then have "dt \<noteq> []" using normalize_Nil[OF U] by metis
    then have "ao \<noteq> []" using ao(2) by auto
    then have "fst (hd ao) < snd (last ao) \<and> snd (last ao) \<le> n"
      using origins_range[OF ao(1), of 0 "length ao"] by (simp add: hd_conv_nth last_conv_nth)
    then show ?thesis
      using False w origins_replicate[of "(fst (hd ao), snd (last ao))" n] by (simp add: view_ok_def)
  qed
qed

lemma base64_view_ok:
  assumes v: "view_ok n v" and m: "a < b" "b \<le> length (vw_text v)" and run: "base64_view U v (a, b) = Some w"
  shows "view_ok n w \<and> vw_text w \<noteq> []"
proof -
  obtain d where "d \<noteq> []"
      "w = \<lparr>vw_text = d, vw_origins = replicate (length d) (source_span v a b), vw_depth = Suc (vw_depth v)\<rparr>"
    using run by (auto simp: base64_view_def Let_def split: option.splits if_splits)
  then show ?thesis
    using source_span_range[OF v m] origins_replicate[of "source_span v a b" n] by (simp add: view_ok_def)
qed

lemma matches_ok_mem: "matches_ok c n ms \<Longrightarrow> (a, b) \<in> set ms \<Longrightarrow> a < b \<and> b \<le> n"
  by (induction c n ms rule: matches_ok.induct) auto

lemma set_map_filter: "set (List.map_filter f xs) = {y. \<exists>x\<in>set xs. f x = Some y}"
  by (induction xs) (auto simp: List.map_filter_def split: option.splits)

lemma decoded_views_ok:
  assumes "view_ok n v" "nfkc U [] = []" "w \<in> set (decoded_views U v)"
  shows "view_ok n w \<and> vw_text w \<noteq> []"
proof -
  have "matches_ok 0 (length (vw_text v)) (finditer base64_len (vw_text v) 0)"
    by (rule finditer_ok) (rule base64_len_le)
  then have b64: "view_ok n w \<and> vw_text w \<noteq> []"
    if "(a, b) \<in> set (finditer base64_len (vw_text v) 0)" "base64_view U v (a, b) = Some w" for a b
    using base64_view_ok[OF assms(1)] matches_ok_mem that by blast
  show ?thesis
    using assms(3) b64 decode_escapes_ok[OF assms(1,2)] by (auto simp: decoded_views_def set_map_filter simp del: List.map_filter_simps)
qed

text \<open>Identities decide what is decoded: the depth is only counted.\<close>

lemma identity_cong: "identity v = identity v' \<longleftrightarrow> vw_text v = vw_text v' \<and> vw_origins v = vw_origins v'"
  by (simp add: identity_def)

lemma source_span_cong: "identity v = identity v' \<Longrightarrow> source_span v a b = source_span v' a b"
  by (simp add: identity_cong source_span_def)

lemma escape_loop_cong:
  "identity v = identity v' \<Longrightarrow> escape_loop U entities v ms acc = escape_loop U entities v' ms acc"
proof (induction U entities v ms acc rule: escape_loop.induct)
  case (2 U entities v a b ms chunks origins cursor changed)
  have same: "vw_text v = vw_text v'" "vw_origins v = vw_origins v'" "source_span v a b = source_span v' a b"
    using 2(4) source_span_cong[OF 2(4)] by (simp_all add: identity_cong)
  show ?case
    using 2(1)[OF refl _ 2(4)] 2(2)[OF refl _ _ 2(4)] 2(3)[OF refl _ _ refl 2(4)]
    by (simp add: same Let_def split: option.split)
qed simp

lemma decode_escapes_cong:
  assumes "identity v = identity v'"
  shows "map_option identity (decode_escapes U entities v) = map_option identity (decode_escapes U entities v')"
  using assms unfolding decode_escapes_def escape_loop_cong[OF assms]
  by (simp add: identity_cong[of v] identity_def Let_def split: prod.split)

lemma base64_view_cong:
  assumes "identity v = identity v'"
  shows "map_option identity (base64_view U v m) = map_option identity (base64_view U v' m)"
  using assms source_span_cong[OF assms]
  by (simp add: base64_view_def identity_cong[of v] Let_def identity_def split: prod.split option.split)

lemma map_filter_identity:
  assumes "\<forall>x\<in>set xs. map_option identity (f x) = map_option identity (g x)"
  shows "identity ` set (List.map_filter f xs) = identity ` set (List.map_filter g xs)"
  using assms
proof (induction xs)
  case (Cons x xs)
  have "map_option identity (f x) = map_option identity (g x)" using Cons.prems by simp
  then show ?case
    using Cons.IH Cons.prems by (cases "f x"; cases "g x") (simp_all add: List.map_filter_def)
qed (simp add: List.map_filter_def)

lemma decoded_views_cong:
  assumes "identity v = identity v'"
  shows "identity ` set (decoded_views U v) = identity ` set (decoded_views U v')"
proof -
  have ne: "identity ` {w \<in> A. vw_text w \<noteq> []} = {i \<in> identity ` A. fst i \<noteq> []}" for A
    by (auto simp: identity_def)
  have "vw_text v = vw_text v'" using assms by (simp add: identity_cong)
  then show ?thesis
    using map_filter_identity[of "[False, True]" "\<lambda>e. decode_escapes U e v" "\<lambda>e. decode_escapes U e v'"]
      map_filter_identity[of "finditer base64_len (vw_text v) 0" "base64_view U v" "base64_view U v'"]
      decode_escapes_cong[OF assms] base64_view_cong[OF assms]
    by (simp add: decoded_views_def image_Un ne del: List.map_filter_simps)
qed

section \<open>Detectors stay within the text\<close>

text \<open>What the scanner relies on: the matches of a pattern lie in the text, normalisation keeps the empty
  text, and case folding never deletes a character. Dictionaries hold no empty term.\<close>

definition scanner_ok :: "scanner \<Rightarrow> bool" where
  "scanner_ok sc \<longleftrightarrow>
     nfkc (sc_unicode sc) [] = [] \<and>
     (\<forall>c. casefold_char (sc_unicode sc) c \<noteq> []) \<and>
     (\<forall>d t. \<forall>(a, b)\<in>set (rule_matches (sc_match sc) d t). b \<le> length t) \<and>
     (\<forall>t. \<forall>(a, b)\<in>set (health_fields (sc_match sc) t). b \<le> length t) \<and>
     (\<forall>t. \<forall>(a, b)\<in>set (health_terms (sc_match sc) t). b \<le> length t) \<and>
     (\<forall>d\<in>set (sc_dictionaries sc). [] \<notin> set (cu_terms d))"

lemma custom_dictionary_terms:
  "custom_dictionary_init U name terms c w = Inr d \<Longrightarrow> [] \<notin> set (cu_terms d) \<and> cu_terms d \<noteq> []"
  by (auto simp: custom_dictionary_init_def Let_def split: if_splits)

lemma folded_origins_less: "i \<in> set (folded_origins U t) \<Longrightarrow> i < length t"
  by (auto simp: folded_origins_def in_set_enumerate_eq)

lemma length_folded_origins: "length (folded_origins U t) = length (casefold U t)"
proof -
  have "length (concat (map (\<lambda>(i, c). replicate (length (casefold_char U c)) i) (enumerate k t))) = length (casefold U t)" for k
    by (induction t arbitrary: k) (simp_all add: casefold_def)
  then show ?thesis by (simp add: folded_origins_def)
qed

lemma term_matches_range:
  "(a, b) \<in> set (term_matches U w folded p cursor) \<Longrightarrow> b = a + length p \<and> b \<le> length folded"
proof (induction U w folded p cursor rule: term_matches.induct)
  case (1 U w folded p cursor)
  show ?case
  proof (cases "find_from folded p cursor")
    case None
    then show ?thesis using 1(2) by (simp add: term_matches.simps)
  next
    case (Some start)
    have "(a, b) = (start, start + length p) \<or> (a, b) \<in> set (term_matches U w folded p (max (start + length p) (Suc start)))"
      using 1(2) Some by (subst (asm) term_matches.simps) (auto simp: Let_def split: if_splits)
    then show ?thesis
      using 1(1)[OF Some refl refl refl] find_from_Some(3)[OF Some] by auto
  qed
qed

lemma dictionary_spans_range:
  assumes "scanner_ok sc" "s \<in> set (dictionary_spans sc t)"
  shows "sp_end s \<le> length t"
proof -
  let ?U = "sc_unicode sc"
  obtain d p a b where d: "d \<in> set (sc_dictionaries sc)" "p \<in> set (cu_terms d)"
      "(a, b) \<in> set (term_matches ?U (cu_whole_word d) (casefold ?U t) (casefold ?U p) 0)"
      "sp_end s = Suc (folded_origins ?U t ! (b - 1))"
    using assms(2) by (auto simp: dictionary_spans_def Let_def)
  have "p \<noteq> []" using assms(1) d(1,2) by (auto simp: scanner_ok_def)
  then have "casefold ?U p \<noteq> []"
    using assms(1) by (cases p) (auto simp: casefold_def scanner_ok_def)
  then have "b - 1 < length (folded_origins ?U t)"
    using term_matches_range[OF d(3)] by (cases "casefold ?U p") (auto simp: length_folded_origins)
  then show ?thesis
    using d(4) folded_origins_less[of "folded_origins ?U t ! (b - 1)" ?U t] by simp
qed

lemma detect_plain_range:
  assumes ok: "scanner_ok sc" and f: "f \<in> set (detect_plain_spans sc t)"
  shows "sp_start f < sp_end f \<and> sp_end f \<le> length t"
proof -
  have in_text: "(a, b) \<in> set (rule_matches (sc_match sc) d t) \<Longrightarrow> b \<le> length t"
      "(a, b) \<in> set (health_fields (sc_match sc) t) \<Longrightarrow> b \<le> length t"
      "(a, b) \<in> set (health_terms (sc_match sc) t) \<Longrightarrow> b \<le> length t" for a b d
    using ok unfolding scanner_ok_def by blast+
  have "f \<in> set (regex_spans sc t @ health_spans sc t @ dictionary_spans sc t)" and pos: "sp_start f < sp_end f"
    using deduplicate_subset[OF f[unfolded detect_plain_spans_def]] by blast+
  then have "sp_end f \<le> length t"
    using dictionary_spans_range[OF ok, of f t]
    by (auto simp: regex_spans_def rule_spans_def health_spans_def dest: in_text)
  then show ?thesis using pos by simp
qed

section \<open>The loop misses nothing unless it says so\<close>

definition same_finding :: "view \<Rightarrow> detected_span \<Rightarrow> detected_span \<Rightarrow> bool" where
  "same_finding v f s \<longleftrightarrow>
     (sp_start s, sp_end s) = source_span v (sp_start f) (sp_end f) \<and> sp_type s = sp_type f \<and> sp_class s = sp_class f"

definition limited :: "detected_span list \<Rightarrow> bool" where
  "limited spans \<longleftrightarrow> (\<exists>s\<in>set spans. sp_type s = INSPECTION_LIMIT \<and> sp_class s = HIGHLY_CONFIDENTIAL)"

definition recorded :: "scanner \<Rightarrow> view \<Rightarrow> detected_span list \<Rightarrow> bool" where
  "recorded sc v spans \<longleftrightarrow>
     (\<forall>f\<in>set (detect_plain_spans sc (vw_text v)). \<exists>s\<in>set spans. same_finding v f s)"

definition expanded :: "scanner \<Rightarrow> view \<Rightarrow> view_id list \<Rightarrow> detected_span list \<Rightarrow> bool" where
  "expanded sc v seen spans \<longleftrightarrow> limited spans \<or> identity ` set (decoded_views (sc_unicode sc) v) \<subseteq> set seen"

definition loop_inv :: "scanner \<Rightarrow> nat \<Rightarrow> inspection \<Rightarrow> bool" where
  "loop_inv sc n st \<longleftrightarrow>
     (case st of (pending, seen, chars, spans) \<Rightarrow>
        spans_ok n spans \<and> (\<forall>v\<in>set pending. view_ok n v \<and> vw_text v \<noteq> []) \<and>
        (\<forall>v. identity v \<in> set seen \<longrightarrow>
           identity v \<in> identity ` set pending \<or> (recorded sc v spans \<and> expanded sc v seen spans)))"

lemma recorded_mono: "recorded sc v spans \<Longrightarrow> set spans \<subseteq> set spans' \<Longrightarrow> recorded sc v spans'"
  unfolding recorded_def by blast

lemma expanded_mono:
  "expanded sc v seen spans \<Longrightarrow> set seen \<subseteq> set seen' \<Longrightarrow> set spans \<subseteq> set spans' \<Longrightarrow> expanded sc v seen' spans'"
  unfolding expanded_def limited_def by blast

lemma recorded_cong: "identity v = identity v' \<Longrightarrow> recorded sc v spans = recorded sc v' spans"
  using source_span_cong[of v v'] by (simp add: recorded_def same_finding_def identity_cong)

lemma expanded_cong: "identity v = identity v' \<Longrightarrow> expanded sc v seen spans = expanded sc v' seen spans"
  using decoded_views_cong[of v v' "sc_unicode sc"] by (simp add: expanded_def)

lemma same_finding_source: "same_finding v f (source_found v f)"
  by (simp add: same_finding_def source_found_def split: prod.split)

text \<open>One round of offers only adds, and afterwards every offered view is seen or the limit is reported.\<close>

lemma offer_views_effect:
  assumes "\<forall>w\<in>set ws. view_ok n w \<and> vw_text w \<noteq> []" "spans_ok n spans"
    "\<forall>v\<in>set pending. view_ok n v \<and> vw_text v \<noteq> []"
    "fold offer_view ws (pending, seen, chars, spans) = (pending', seen', chars', spans')"
  shows "spans_ok n spans' \<and> (\<forall>v\<in>set pending'. view_ok n v \<and> vw_text v \<noteq> []) \<and>
    set spans \<subseteq> set spans' \<and> set pending \<subseteq> set pending' \<and> set seen \<subseteq> set seen' \<and>
    set seen' \<subseteq> set seen \<union> identity ` set pending' \<and>
    (limited spans' \<or> identity ` set ws \<subseteq> set seen')"
  using assms
proof (induction ws arbitrary: pending seen chars spans)
  case Nil
  then show ?case by auto
next
  case (Cons w ws)
  have w: "view_ok n w" "vw_text w \<noteq> []" and ws: "\<forall>w\<in>set ws. view_ok n w \<and> vw_text w \<noteq> []"
    using Cons.prems(1) by auto
  have hull: "spans_ok n [limit_span (source_span w 0 (length (vw_text w)))]"
    using source_span_range[OF w(1), of 0 "length (vw_text w)"] w(2) by (simp add: spans_ok_def limit_span_def)
  consider (seen) "identity w \<in> set seen"
      "offer_view w (pending, seen, chars, spans) = (pending, seen, chars, spans)"
    | (limit) "offer_view w (pending, seen, chars, spans) =
        (pending, seen, chars, spans @ [limit_span (source_span w 0 (length (vw_text w)))])"
    | (new) "offer_view w (pending, seen, chars, spans) =
        (pending @ [w], seen @ [identity w], chars + length (vw_text w), spans)"
    unfolding offer_view_def prod.case by (meson)
  then show ?case
  proof cases
    case seen
    then have "fold offer_view ws (pending, seen, chars, spans) = (pending', seen', chars', spans')"
      using Cons.prems(4) by simp
    note e = Cons.IH[OF ws Cons.prems(2,3) this]
    then show ?thesis using seen(1) by auto
  next
    case limit
    have ok: "spans_ok n (spans @ [limit_span (source_span w 0 (length (vw_text w)))])"
      using hull Cons.prems(2) by (simp add: spans_ok_def)
    note IH = Cons.IH[OF ws ok Cons.prems(3)]
    have "fold offer_view ws (pending, seen, chars, spans @ [limit_span (source_span w 0 (length (vw_text w)))]) =
        (pending', seen', chars', spans')"
      using Cons.prems(4) limit by simp
    note e = IH[OF this]
    have "limit_span (source_span w 0 (length (vw_text w))) \<in> set spans'"
      using e by auto
    then have "limited spans'"
      unfolding limited_def by (rule bexI[rotated]) (simp add: limit_span_def)
    then show ?thesis using e by auto
  next
    case new
    have pend: "\<forall>v\<in>set (pending @ [w]). view_ok n v \<and> vw_text v \<noteq> []"
      using Cons.prems(3) w by auto
    have "fold offer_view ws (pending @ [w], seen @ [identity w], chars + length (vw_text w), spans) =
        (pending', seen', chars', spans')"
      using Cons.prems(4) new by simp
    note e = Cons.IH[OF ws Cons.prems(2) pend this]
    then show ?thesis by auto
  qed
qed

lemma loop_inv_step:
  assumes ok: "scanner_ok sc" and inv: "loop_inv sc n (v # pending, seen, chars, spans)"
    and run: "fold offer_view (decoded_views (sc_unicode sc) v)
      (pending, seen, chars, spans @ map (source_found v) (detect_plain_spans sc (vw_text v))) =
      (pending', seen', chars', spans')"
  shows "loop_inv sc n (pending', seen', chars', spans') \<and> set seen \<subseteq> set seen'"
proof -
  let ?new = "map (source_found v) (detect_plain_spans sc (vw_text v))"
  have v: "view_ok n v" "vw_text v \<noteq> []" and old: "spans_ok n spans"
      "\<forall>v\<in>set pending. view_ok n v \<and> vw_text v \<noteq> []"
    using inv by (auto simp: loop_inv_def)
  have U: "nfkc (sc_unicode sc) [] = []" using ok by (simp add: scanner_ok_def)
  have "sp_start (source_found v f) < sp_end (source_found v f) \<and> sp_end (source_found v f) \<le> n"
    if "f \<in> set (detect_plain_spans sc (vw_text v))" for f
    using source_span_range[OF v(1), of "sp_start f" "sp_end f"] detect_plain_range[OF ok that]
    by (auto simp: source_found_def split: prod.splits)
  then have spans: "spans_ok n (spans @ ?new)"
    using old(1) by (auto simp: spans_ok_iff)
  note e = offer_views_effect[OF _ spans old(2) run, OF ballI, OF decoded_views_ok[OF v(1) U]]
  have sub: "set spans \<subseteq> set spans'" "set seen \<subseteq> set seen'" "set pending \<subseteq> set pending'"
      "set seen' \<subseteq> set seen \<union> identity ` set pending'"
    using e by simp_all
  have here: "recorded sc v spans'"
    using e same_finding_source unfolding recorded_def by fastforce
  have here2: "expanded sc v seen' spans'"
    using e by (auto simp: expanded_def)
  have "identity x \<in> identity ` set pending' \<or> (recorded sc x spans' \<and> expanded sc x seen' spans')"
    if "identity x \<in> set seen'" for x
  proof (cases "identity x \<in> set seen \<and> identity x \<notin> identity ` set pending'")
    case True
    then have "identity x \<notin> identity ` set pending" using image_mono[OF sub(3), of identity] by blast
    then consider "identity x = identity v" | "recorded sc x spans \<and> expanded sc x seen spans"
      using True inv unfolding loop_inv_def by auto
    then show ?thesis
    proof cases
      case 1
      then show ?thesis using here here2 recorded_cong expanded_cong by blast
    next
      case 2
      show ?thesis using 2 recorded_mono[OF _ sub(1)] expanded_mono[OF _ sub(2,1)] by blast
    qed
  next
    case False
    then show ?thesis using that sub(4) by blast
  qed
  then show ?thesis
    using e by (simp add: loop_inv_def)
qed

lemma inspect_loop_complete:
  assumes "scanner_ok sc" "loop_inv sc n st" "st = (pending, seen, chars, spans)"
  shows "spans_ok n (inspect_loop sc st) \<and>
    (\<exists>seen'. set seen \<subseteq> set seen' \<and>
      (\<forall>v. identity v \<in> set seen' \<longrightarrow> recorded sc v (inspect_loop sc st) \<and> expanded sc v seen' (inspect_loop sc st)))"
  using assms
proof (induction sc st arbitrary: pending seen chars spans rule: inspect_loop.induct)
  case (1 sc seen' chars' spans')
  then show ?case by (auto simp: loop_inv_def)
next
  case (2 sc v pending0 seen0 chars0 spans0)
  obtain pending1 seen1 chars1 spans1 where run: "fold offer_view (decoded_views (sc_unicode sc) v)
      (pending0, seen0, chars0, spans0 @ map (source_found v) (detect_plain_spans sc (vw_text v))) =
      (pending1, seen1, chars1, spans1)"
    by (metis prod_cases4)
  note step = loop_inv_step[OF 2(2,3) run]
  have "spans_ok n (inspect_loop sc (pending1, seen1, chars1, spans1)) \<and>
    (\<exists>seen'. set seen1 \<subseteq> set seen' \<and>
      (\<forall>v. identity v \<in> set seen' \<longrightarrow> recorded sc v (inspect_loop sc (pending1, seen1, chars1, spans1)) \<and>
         expanded sc v seen' (inspect_loop sc (pending1, seen1, chars1, spans1))))"
    using 2(1)[unfolded run, OF 2(2) conjunct1[OF step] refl] .
  then obtain seen' where res: "spans_ok n (inspect_loop sc (pending1, seen1, chars1, spans1))"
      "set seen1 \<subseteq> set seen'"
      "\<forall>v. identity v \<in> set seen' \<longrightarrow> recorded sc v (inspect_loop sc (pending1, seen1, chars1, spans1)) \<and>
         expanded sc v seen' (inspect_loop sc (pending1, seen1, chars1, spans1))"
    by blast
  have eq: "inspect_loop sc (v # pending0, seen0, chars0, spans0) = inspect_loop sc (pending1, seen1, chars1, spans1)"
    by (simp add: run)
  have "set seen \<subseteq> set seen'" using step 2(4) res(2) by auto
  then show ?case unfolding eq using res(1,3) by blast
qed

text \<open>The views of a text: the text itself, and every view decoded from one of its views.\<close>

inductive reachable_view :: "unicode \<Rightarrow> ustr \<Rightarrow> view \<Rightarrow> bool" for U t where
  reachable_start: "reachable_view U t (initial_view t)"
| reachable_decode: "reachable_view U t v \<Longrightarrow> w \<in> set (decoded_views U v) \<Longrightarrow> reachable_view U t w"

lemma initial_loop_inv:
  "t \<noteq> [] \<Longrightarrow> loop_inv sc (length t) ([initial_view t], [identity (initial_view t)], length t, [])"
  by (auto simp: loop_inv_def spans_ok_def initial_view_def view_ok_def origins_ok_def sorted_wrt_map sorted_wrt_upt
      intro!: sorted_wrt_mono_rel[OF _ sorted_wrt_upt])

lemma detect_spans_ok:
  assumes "scanner_ok sc"
  shows "spans_ok (length t) (detect_spans sc t)"
proof -
  have "spans_ok (length t) (inspect_loop sc ([initial_view t], [identity (initial_view t)], length t, []))" if "t \<noteq> []"
    using inspect_loop_complete[OF assms initial_loop_inv[OF that] refl] by blast
  then have "spans_ok (length t) (deduplicate_and_disambiguate
      (inspect_loop sc ([initial_view t], [identity (initial_view t)], length t, [])))" if "t \<noteq> []"
    using that deduplicate_subset unfolding spans_ok_iff by blast
  then show ?thesis
    by (auto simp: detect_spans_def spans_ok_def limit_span_def MAX_SCAN_CHARACTERS_def)
qed

lemma reachable_view_ok:
  assumes "nfkc U [] = []" "reachable_view U t v"
  shows "view_ok (length t) v"
  using assms(2)
proof induction
  case reachable_start
  show ?case
    by (auto simp: initial_view_def view_ok_def origins_ok_def sorted_wrt_map intro!: sorted_wrt_mono_rel[OF _ sorted_wrt_upt])
next
  case (reachable_decode v w)
  then show ?case using decoded_views_ok[OF _ assms(1)] by blast
qed

lemma view_ok_0: "view_ok 0 v \<Longrightarrow> vw_text v = []"
  by (cases "vw_origins v") (auto simp: view_ok_def origins_ok_def)

lemma deduplicate_same_finding:
  assumes "spans_ok n spans" "s \<in> set spans" "sp_type s \<noteq> PHONE"
  shows "s \<in> set (deduplicate_and_disambiguate spans)"
  using deduplicate_keeps[OF assms(2)] assms by (auto simp: spans_ok_iff)

lemma detect_spans_reachable:
  assumes ok: "scanner_ok sc" and t: "t \<noteq> []" "length t \<le> MAX_SCAN_CHARACTERS"
    and v: "reachable_view (sc_unicode sc) t v"
    and f: "f \<in> set (detect_plain_spans sc (vw_text v))"
  shows "(\<exists>s\<in>set (detect_spans sc t). same_finding v f s) \<or> limited (detect_spans sc t) \<or>
    (sp_type f = PHONE \<and> (\<exists>s\<in>set (detect_spans sc t). sp_type s = TAX_ID \<and>
       sp_start s < snd (source_span v (sp_start f) (sp_end f)) \<and> fst (source_span v (sp_start f) (sp_end f)) < sp_end s))"
proof -
  define R where "R = inspect_loop sc ([initial_view t], [identity (initial_view t)], length t, [])"
  have detect: "detect_spans sc t = deduplicate_and_disambiguate R"
    using t by (simp add: detect_spans_def R_def)
  obtain seen' where seen: "set [identity (initial_view t)] \<subseteq> set seen'"
      "\<forall>v. identity v \<in> set seen' \<longrightarrow> recorded sc v R \<and> expanded sc v seen' R" and R: "spans_ok (length t) R"
    using inspect_loop_complete[OF ok initial_loop_inv[OF t(1)] refl] unfolding R_def by blast
  note keep = deduplicate_same_finding[OF R]
  have "identity v \<in> set seen' \<or> limited R"
    using v
  proof induction
    case (reachable_decode v w)
    then show ?case using seen(2) unfolding expanded_def by blast
  qed (use seen(1) in simp)
  then consider s where "s \<in> set R" "same_finding v f s" | s where "s \<in> set R" "sp_type s = INSPECTION_LIMIT" "sp_class s = HIGHLY_CONFIDENTIAL"
    using seen(2) f unfolding recorded_def limited_def by blast
  then show ?thesis
  proof cases
    case 1
    then have "sp_start s < sp_end s" using R by (simp add: spans_ok_iff)
    from deduplicate_keeps[OF 1(1) this] show ?thesis
    proof
      assume "s \<in> set (deduplicate_and_disambiguate R)"
      then show ?thesis using 1(2) detect by auto
    next
      assume p: "sp_type s = PHONE \<and> (\<exists>u\<in>set (deduplicate_and_disambiguate R). sp_type u = TAX_ID \<and> overlap s u)"
      have "sp_type f = PHONE" "source_span v (sp_start f) (sp_end f) = (sp_start s, sp_end s)"
        using 1(2) p by (simp_all add: same_finding_def)
      then show ?thesis using p detect by (auto simp: overlap_def)
    qed
  next
    case 2
    then have "s \<in> set (detect_spans sc t)" using keep[of s] detect by simp
    then show ?thesis using 2(2,3) unfolding limited_def by blast
  qed
qed

text \<open>C4: Inspection fails closed. Whatever the detectors report for the text or for any view obtained from it by
  repeated decoding (percent escapes, entities, base64, in any order and depth) is among the detected spans,
  at the source characters it came from and with its type and class, unless the result reports the
  inspection limit, or the finding is a phone number that gave way to a detected tax identifier overlapping it. Every detected span is
  a non-empty part of the text.\<close>

theorem inspection_fails_closed:
  assumes ok: "scanner_ok sc" and v: "reachable_view (sc_unicode sc) t v"
    and f: "f \<in> set (detect_plain_spans sc (vw_text v))"
  shows "spans_ok (length t) (detect_spans sc t) \<and>
    ((\<exists>s\<in>set (detect_spans sc t). (sp_start s, sp_end s) = source_span v (sp_start f) (sp_end f)
         \<and> sp_type s = sp_type f \<and> sp_class s = sp_class f)
     \<or> (\<exists>s\<in>set (detect_spans sc t). sp_type s = INSPECTION_LIMIT \<and> sp_class s = HIGHLY_CONFIDENTIAL)
     \<or> (sp_type f = PHONE \<and> (\<exists>s\<in>set (detect_spans sc t). sp_type s = TAX_ID \<and>
          sp_start s < snd (source_span v (sp_start f) (sp_end f)) \<and> fst (source_span v (sp_start f) (sp_end f)) < sp_end s)))"
proof (cases "length t > MAX_SCAN_CHARACTERS")
  case True
  then have "detect_spans sc t = [limit_span (0, length t)]" by (simp add: detect_spans_def)
  then show ?thesis using detect_spans_ok[OF ok, of t] by (simp add: limit_span_def)
next
  case False
  have "view_ok (length t) v"
    using reachable_view_ok[OF _ v] ok by (simp add: scanner_ok_def)
  then have "t \<noteq> []"
    using view_ok_0[of v] detect_plain_range[OF ok f] by (cases t) auto
  then show ?thesis
    using detect_spans_reachable[OF ok _ _ v f] False detect_spans_ok[OF ok, of t]
    unfolding same_finding_def limited_def by simp
qed

definition demo_matcher :: matcher where
  "demo_matcher = \<lparr>rule_matches = (\<lambda>_ _. []), health_fields = (\<lambda>_. []), health_terms = (\<lambda>_. []),
     personal_context = (\<lambda>_. False), placeholder_fullmatch = (\<lambda>_. False), nested_object = (\<lambda>_. False),
     code_reference = (\<lambda>_. False)\<rparr>"

definition demo_dlp_policy :: dlp_policy where
  "demo_dlp_policy = [(PUBLIC, ALLOW), (INTERNAL, CONFIRM), (CONFIDENTIAL, REDACT), (HIGHLY_CONFIDENTIAL, BLOCK), (E2EE_PRIVATE, LOCAL_ONLY)]"

definition demo_scanner :: scanner where
  "demo_scanner = \<lparr>sc_unicode = ascii_unicode, sc_match = demo_matcher, sc_digest = (\<lambda>_. ''0123456789abcdef''),
     sc_policy = demo_dlp_policy,
     sc_dictionaries = [\<lparr>cu_name = latin ''p'', cu_terms = [latin ''key''], cu_class = CONFIDENTIAL, cu_whole_word = True\<rparr>]\<rparr>"

lemma demo_scanner_ok: "scanner_ok demo_scanner"
  by (simp add: scanner_ok_def demo_scanner_def demo_matcher_def ascii_unicode_def)

text \<open>The percent escapes of \<^verbatim>\<open>a K%65y\<close> hide the term; it is found in the decoded view.\<close>

definition demo_text :: ustr where
  "demo_text = latin ''a K%65y''"

definition demo_view :: view where
  "demo_view = \<lparr>vw_text = latin ''a Key'', vw_origins = [(0, 1), (1, 2), (2, 3), (3, 6), (6, 7)], vw_depth = 1\<rparr>"

definition demo_found :: detected_span where
  "demo_found = \<lparr>sp_start = 2, sp_end = 5, sp_type = CUSTOM_DICTIONARY,
     sp_detector = ''custom_dictionary.0123456789ab'', sp_class = CONFIDENTIAL\<rparr>"

lemma demo_view_reachable: "reachable_view (sc_unicode demo_scanner) demo_text demo_view"
proof (rule reachable_decode[OF reachable_start])
  have m: "escape_matches False demo_text = [(3, 6)]" by code_simp
  have d: "decode_match ascii_unicode False (slice demo_text 3 6) = Some (latin ''e'')" "slice demo_text 3 6 = latin ''%65''"
    by (simp_all add: decode_match_def hex_value_of_def slice_def demo_text_def)
  have n: "normalize_text ascii_unicode (latin ''e'') = latin ''e''" "normalize_text ascii_unicode (latin ''a Key'') = latin ''a Key''"
    by (simp_all add: normalize_text_def ascii_unicode_def is_invisible_format_character_def)
  have "escape_loop ascii_unicode False (initial_view demo_text) [(3, 6)] ([], [], 0, False) =
      (latin ''a Ke'', [(0, 1), (1, 2), (2, 3), (3, 6)], 6, True)"
    using d n by (simp add: initial_view_def Let_def slice_def source_span_def demo_text_def upt_rec)
  then have "decode_escapes ascii_unicode False (initial_view demo_text) = Some demo_view"
    using m n by (simp add: decode_escapes_def initial_view_def demo_view_def demo_text_def upt_rec Let_def)
  then show "demo_view \<in> set (decoded_views (sc_unicode demo_scanner) (initial_view demo_text))"
    by (simp add: decoded_views_def set_map_filter demo_scanner_def demo_view_def del: List.map_filter_simps)
qed

lemma term_matches_one:
  assumes "find_from folded p cursor = Some start" "find_from folded p (max (start + length p) (Suc start)) = None"
    "\<not> (start > 0 \<and> word_char U (folded ! (start - 1)))" "start + length p = length folded"
  shows "term_matches U w folded p cursor = [(start, start + length p)]"
proof -
  have "term_matches U w folded p (max (start + length p) (Suc start)) = []"
    by (subst term_matches.simps) (simp only: assms(2) option.case)
  then show ?thesis
    using assms(3) by (subst term_matches.simps) (simp add: assms(1,4))
qed

lemma demo_term_matches: "term_matches ascii_unicode True (latin ''a key'') (latin ''key'') 0 = [(2, 5)]"
proof -
  have "find_from (latin ''a key'') (latin ''key'') 0 = Some 2"
    and "find_from (latin ''a key'') (latin ''key'') (max (2 + length (latin ''key'')) (Suc 2)) = None"
    and "\<not> (2 > (0::nat) \<and> word_char ascii_unicode (latin ''a key'' ! (2 - 1)))"
    by code_simp+
  then have "term_matches ascii_unicode True (latin ''a key'') (latin ''key'') 0 = [(2, 2 + length (latin ''key''))]"
    by (rule term_matches_one) simp
  then show ?thesis by simp
qed

lemma demo_found_in_view: "demo_found \<in> set (detect_plain_spans demo_scanner (vw_text demo_view))"
proof -
  have fold: "casefold ascii_unicode (vw_text demo_view) = latin ''a key''" "casefold ascii_unicode (latin ''key'') = latin ''key''"
    and at: "folded_origins ascii_unicode (vw_text demo_view) ! 2 = 2" "folded_origins ascii_unicode (vw_text demo_view) ! 4 = 4"
    by code_simp+
  have "demo_found \<in> set (dictionary_spans demo_scanner (vw_text demo_view))"
    using at by (simp add: dictionary_spans_def demo_scanner_def Let_def fold[simplified] demo_term_matches[simplified]
        dictionary_detector_def demo_found_def)
  then show ?thesis
    unfolding detect_plain_spans_def using deduplicate_keeps[of demo_found] by (auto simp: demo_found_def)
qed

theorem inspection_fails_closed_witness:
  "scanner_ok demo_scanner \<and> source_span demo_view 2 5 = (2, 7) \<and>
   spans_ok 7 (detect_spans demo_scanner demo_text) \<and>
   ((\<exists>s\<in>set (detect_spans demo_scanner demo_text). (sp_start s, sp_end s) = source_span demo_view 2 5
         \<and> sp_type s = CUSTOM_DICTIONARY \<and> sp_class s = CONFIDENTIAL)
    \<or> (\<exists>s\<in>set (detect_spans demo_scanner demo_text). sp_type s = INSPECTION_LIMIT \<and> sp_class s = HIGHLY_CONFIDENTIAL))"
proof -
  have f: "sp_start demo_found = 2" "sp_end demo_found = 5"
      "sp_type demo_found = CUSTOM_DICTIONARY" "sp_class demo_found = CONFIDENTIAL" "length demo_text = 7"
    by (simp_all add: demo_found_def demo_text_def)
  have "source_span demo_view 2 5 = (2, 7)" by code_simp
  then show ?thesis
    using inspection_fails_closed[OF demo_scanner_ok demo_view_reachable demo_found_in_view] demo_scanner_ok
    unfolding f by simp
qed

section \<open>The decision at the boundary\<close>

lemma fold_max_ge: "c \<le> fold max cs (c :: data_class)"
proof (induction cs arbitrary: c)
  case (Cons y ys)
  show ?case using Cons.IH[of "max y c"] by simp
qed simp

lemma fold_max_class: "x \<in> insert c (set cs) \<Longrightarrow> x \<le> fold max cs (c :: data_class)"
proof (induction cs arbitrary: c)
  case (Cons y ys)
  have "x \<in> insert (max y c) (set ys) \<or> x \<le> max y c"
    using Cons.prems by auto
  then show ?case
    using Cons.IH[of "max y c"] order_trans[OF _ fold_max_ge[of "max y c" ys], of x] by auto
qed simp

lemma max_class_ge: "c \<in> set cs \<Longrightarrow> c \<le> max_class cs"
  using fold_max_class by (cases cs) (auto simp: max_class_def)

lemma filter_spans_ok: "spans_ok n spans \<Longrightarrow> spans_ok n (filter P spans)"
  by (simp add: spans_ok_iff)

text \<open>The spans a decision removes from the payload.\<close>

definition hidden_spans :: "dlp_decision \<Rightarrow> finding_type list \<Rightarrow> detected_span list \<Rightarrow> detected_span list" where
  "hidden_spans d removable spans =
     (if de_action d = REDACT then spans else filter (\<lambda>s. sp_type s \<in> set removable) spans)"

lemma evaluate_effective:
  assumes "evaluate sc t declared confirmed removable = Some d"
    and "s \<in> set (detect_spans sc (normalize_text (sc_unicode sc) t))" "sp_type s \<notin> set removable"
  shows "sp_class s \<le> de_effective d"
proof -
  let ?fs = "safe_findings (detect_spans sc (normalize_text (sc_unicode sc) t))"
  have "(sp_type s, sp_class s) \<in> (\<lambda>f. (fi_type f, fi_class f)) ` set ?fs"
    unfolding safe_findings_classes using assms(2) by blast
  then obtain f where "f \<in> set ?fs" "fi_type f = sp_type s" "fi_class f = sp_class s" by auto
  then have "sp_class s \<le> max_class (map fi_class (filter (\<lambda>f. fi_type f \<notin> set removable) ?fs))"
    using assms(3) by (intro max_class_ge) force
  then show ?thesis
    using assms(1) by (auto simp: evaluate_def Let_def le_max_iff_disj split: option.splits)
qed

lemma evaluate_cases:
  assumes "evaluate sc t declared confirmed removable = Some d"
  shows "declared \<le> de_effective d"
    and "\<exists>a. action_for (sc_policy sc) (de_effective d) = Some a \<and> de_action d = (if a = CONFIRM \<and> confirmed then ALLOW else a)"
    and "de_output d \<noteq> None \<longleftrightarrow> may_leave_boundary d"
    and "de_output d = Some out \<Longrightarrow> out = redact_spans (normalize_text (sc_unicode sc) t)
           (hidden_spans d removable (detect_spans sc (normalize_text (sc_unicode sc) t)))"
proof -
  let ?N = "normalize_text (sc_unicode sc) t"
  let ?S = "detect_spans sc ?N"
  define E where "E = max declared (max_class (map fi_class (filter (\<lambda>f. fi_type f \<notin> set removable) (safe_findings ?S))))"
  obtain a0 where a0: "action_for (sc_policy sc) E = Some a0"
    using assms by (cases "action_for (sc_policy sc) E") (simp_all add: evaluate_def Let_def E_def)
  define A where "A = (if a0 = CONFIRM \<and> confirmed then ALLOW else a0)"
  have d: "d = \<lparr>de_action = A, de_declared = declared, de_effective = E, de_findings = safe_findings ?S,
      de_output = (if A = ALLOW then Some (redact_spans ?N (filter (\<lambda>s. sp_type s \<in> set removable) ?S))
         else if A = REDACT then Some (redact_spans ?N ?S) else None), de_confirmed = confirmed\<rparr>"
    using assms a0 unfolding evaluate_def Let_def E_def[symmetric] A_def by simp
  show "declared \<le> de_effective d" by (simp add: d E_def)
  show "\<exists>a. action_for (sc_policy sc) (de_effective d) = Some a \<and> de_action d = (if a = CONFIRM \<and> confirmed then ALLOW else a)"
    using a0 by (simp add: d A_def)
  show "de_output d \<noteq> None \<longleftrightarrow> may_leave_boundary d"
    by (simp add: d may_leave_boundary_def)
  show "out = redact_spans ?N (hidden_spans d removable ?S)" if "de_output d = Some out"
    using that by (simp add: d hidden_spans_def split: if_splits)
qed

lemma evaluate_total:
  assumes "policy_post_init actions = Inr (sc_policy sc)"
  shows "\<exists>d. evaluate sc t declared confirmed removable = Some d"
  using policy_post_init_has[OF assms] by (auto simp: evaluate_def Let_def action_for_def split: option.splits)

lemma evaluate_blind:
  assumes ok: "scanner_ok sc" and d: "evaluate sc t declared confirmed removable = Some d" "de_output d = Some out"
    and N: "N = normalize_text (sc_unicode sc) t" and H: "H = hidden_spans d removable (detect_spans sc N)"
    and other: "length N' = length N" "\<forall>i<length N. \<not> covered H i \<longrightarrow> N' ! i = N ! i"
  shows "redact_spans N' H = out"
proof -
  have "spans_ok (length N) H"
    using detect_spans_ok[OF ok, of N] filter_spans_ok unfolding H hidden_spans_def by simp
  then have "redact_spans N' H = redact_spans N H"
    using redact_spans_blind other by blast
  then show ?thesis
    using evaluate_cases(4)[OF d] N H by simp
qed

text \<open>The boundary decision of an accepted policy. There is always a decision; the effective class is at
  least the declared class and at least the class of every finding that is not merely removed; a payload
  exists exactly when the action lets it leave; and the payload carries nothing of the removed spans: every
  normalised text that agrees outside them yields the same payload.\<close>

theorem evaluate_boundary:
  assumes ok: "scanner_ok sc" and policy: "policy_post_init actions = Inr (sc_policy sc)"
    and N: "N = normalize_text (sc_unicode sc) t"
  shows "\<exists>d. evaluate sc t declared confirmed removable = Some d \<and> declared \<le> de_effective d \<and>
    (\<forall>s\<in>set (detect_spans sc N). sp_type s \<notin> set removable \<longrightarrow> sp_class s \<le> de_effective d) \<and>
    (de_output d \<noteq> None \<longleftrightarrow> may_leave_boundary d) \<and>
    (\<forall>out N'. de_output d = Some out \<and> length N' = length N \<and>
       (\<forall>i<length N. \<not> covered (hidden_spans d removable (detect_spans sc N)) i \<longrightarrow> N' ! i = N ! i) \<longrightarrow>
       redact_spans N' (hidden_spans d removable (detect_spans sc N)) = out)"
proof -
  obtain d where d: "evaluate sc t declared confirmed removable = Some d"
    using evaluate_total[OF policy] by blast
  have "\<forall>s\<in>set (detect_spans sc N). sp_type s \<notin> set removable \<longrightarrow> sp_class s \<le> de_effective d"
    using evaluate_effective[OF d] N by blast
  moreover have "redact_spans N' (hidden_spans d removable (detect_spans sc N)) = out"
    if "de_output d = Some out" "length N' = length N"
      "\<forall>i<length N. \<not> covered (hidden_spans d removable (detect_spans sc N)) i \<longrightarrow> N' ! i = N ! i" for out N'
    using evaluate_blind[OF ok d that(1) N refl that(2,3)] .
  ultimately show ?thesis
    using d evaluate_cases(1,3)[OF d] by blast
qed

theorem evaluate_boundary_witness:
  "\<exists>d. evaluate demo_scanner demo_text INTERNAL True [] = Some d \<and> INTERNAL \<le> de_effective d \<and>
     (de_output d \<noteq> None \<longleftrightarrow> may_leave_boundary d)"
proof -
  have policy: "policy_post_init default_actions = Inr (sc_policy demo_scanner)"
    using default_policy_init by (simp add: demo_scanner_def demo_dlp_policy_def)
  show ?thesis
    using evaluate_boundary[OF demo_scanner_ok policy refl, of demo_text INTERNAL True "[]"] by blast
qed

end
