(* ===== verification/Chat_Service.thy ===== *)
theory Chat_Service
  imports Ai_Egress
begin

text \<open>
  \<^verbatim>\<open>ChatService\<close> of \<^verbatim>\<open>src/app/services.py\<close> on the envelope encryption the application gives it: reading,
  paging and searching messages, storing one, and the exchange with the AI service.

  A stored row is the encrypted message with its identifier and time. Every decryption has its own readings of
  the clock (\<open>clk\<close> numbers them), and may fill the cache of keys, so reading returns the state of the keys.
\<close>

section \<open>Rows and their plaintext\<close>

record stored_row =
  sr_id :: int
  sr_created :: time
  sr_message :: secure_message

record message_view =
  mv_id :: int
  mv_session :: string
  mv_role :: string
  mv_body :: ustr
  mv_created :: time

datatype chat_error =
    Permission_Denied
  | Limit_Error
  | Missing_Conversation
  | Crypto_Failed env_error
  | Ai_Failed ai_error

definition session_messages :: "string \<Rightarrow> stored_row list \<Rightarrow> stored_row list" where
  "session_messages sid rows = sort_key sr_id (filter (\<lambda>r. sm_session_id (sr_message r) = sid) rows)"

definition read_row ::
  "envelope \<Rightarrow> time \<times> time \<Rightarrow> chat_session \<Rightarrow> stored_row \<Rightarrow> env_state \<Rightarrow> (env_error + message_view) \<times> env_state" where
  "read_row ev clock s r st =
     (case decrypt_message ev clock s (sr_message r) st of
        (Inl e, st') \<Rightarrow> (Inl e, st')
      | (Inr plain, st') \<Rightarrow>
          (Inr \<lparr>mv_id = sr_id r, mv_session = sm_session_id (sr_message r), mv_role = sm_role (sr_message r),
                mv_body = plain, mv_created = sr_created r\<rparr>, st'))"

fun read_rows ::
  "envelope \<Rightarrow> (nat \<Rightarrow> time \<times> time) \<Rightarrow> chat_session \<Rightarrow> stored_row list \<Rightarrow> env_state \<Rightarrow>
   (env_error + message_view list) \<times> env_state" where
  "read_rows ev clk s [] st = (Inr [], st)"
| "read_rows ev clk s (r # rs) st =
     (case read_row ev (clk 0) s r st of
        (Inl e, st1) \<Rightarrow> (Inl e, st1)
      | (Inr m, st1) \<Rightarrow>
          (case read_rows ev (\<lambda>i. clk (Suc i)) s rs st1 of
             (Inl e, st2) \<Rightarrow> (Inl e, st2)
           | (Inr ms, st2) \<Rightarrow> (Inr (m # ms), st2)))"

text \<open>\<^verbatim>\<open>needle in text\<close> on folded texts.\<close>

definition body_contains :: "unicode \<Rightarrow> ustr \<Rightarrow> message_view \<Rightarrow> bool" where
  "body_contains U needle m \<longleftrightarrow> find_from (casefold U (mv_body m)) needle 0 \<noteq> None"

definition list_messages ::
  "unicode \<Rightarrow> envelope \<Rightarrow> (nat \<Rightarrow> time \<times> time) \<Rightarrow> chat_session \<Rightarrow> ustr option \<Rightarrow> nat option \<Rightarrow> nat \<Rightarrow>
   stored_row list \<Rightarrow> env_state \<Rightarrow> (chat_error + message_view list) \<times> env_state" where
  "list_messages U ev clk s query limit offset rows st =
     (if cs_security_mode s = ''private_e2ee'' then (Inl Permission_Denied, st)
      else let rest = drop offset (session_messages (cs_id s) rows);
               page = (case limit of None \<Rightarrow> rest | Some n \<Rightarrow> take n rest)
           in case read_rows ev (\<lambda>i. clk (offset + i)) s page st of
                (Inl e, st') \<Rightarrow> (Inl (Crypto_Failed e), st')
              | (Inr messages, st') \<Rightarrow>
                  (Inr (case query of
                          None \<Rightarrow> messages
                        | Some q \<Rightarrow> filter (body_contains U (casefold U q)) messages), st'))"

lemma read_rows_length:
  "read_rows ev clk s rs st = (Inr ms, st') \<Longrightarrow> length ms = length rs"
  by (induction ev clk s rs st arbitrary: ms st' rule: read_rows.induct) (auto split: prod.splits sum.splits)

lemma list_messages_length:
  assumes "list_messages U ev clk s None (Some n) offset rows st = (Inr page, st')"
  shows "length page \<le> length rows - offset"
proof -
  have "length (session_messages (cs_id s) rows) \<le> length rows"
    by (simp add: session_messages_def)
  then show ?thesis
    using assms by (auto simp: list_messages_def Let_def split: if_splits prod.splits sum.splits dest!: read_rows_length)
qed

lemma full_page_advances:
  assumes "(Inr page, st') = list_messages U ev clk s None (Some n) offset rows st" "\<not> length page < 100"
  shows "length rows - (offset + length page) < length rows - offset"
  using list_messages_length[OF assms(1)[symmetric]] assms(2) by linarith

section \<open>Search\<close>

text \<open>One message of a page: \<^verbatim>\<open>selected\<close> and \<^verbatim>\<open>total\<close>.\<close>

definition search_step ::
  "(message_view \<Rightarrow> bool) \<Rightarrow> nat \<Rightarrow> nat \<Rightarrow> message_view \<Rightarrow> message_view list \<times> nat \<Rightarrow> message_view list \<times> nat" where
  "search_step hit offset limit m acc =
     (case acc of (selected, found) \<Rightarrow>
        if hit m
        then (if offset \<le> found \<and> found < offset + limit then selected @ [m] else selected, Suc found)
        else acc)"

function search_pages ::
  "unicode \<Rightarrow> envelope \<Rightarrow> (nat \<Rightarrow> time \<times> time) \<Rightarrow> chat_session \<Rightarrow> ustr \<Rightarrow> nat \<Rightarrow> nat \<Rightarrow> stored_row list \<Rightarrow> nat \<Rightarrow>
   message_view list \<times> nat \<Rightarrow> env_state \<Rightarrow> (chat_error + message_view list \<times> nat) \<times> env_state" where
  "search_pages U ev clk s needle offset limit rows page_offset acc st =
     (case list_messages U ev clk s None (Some 100) page_offset rows st of
        (Inl e, st') \<Rightarrow> (Inl e, st')
      | (Inr page, st') \<Rightarrow>
          (let acc' = fold (search_step (body_contains U needle) offset limit) page acc
           in if length page < 100 then (Inr acc', st')
              else search_pages U ev clk s needle offset limit rows (page_offset + length page) acc' st'))"
  by pat_completeness auto
termination
  by (relation "measure (\<lambda>(_, _, _, _, _, _, _, rows, page_offset, _, _). length rows - page_offset)")
     (auto dest!: full_page_advances)

declare search_pages.simps [simp del]

definition search_message_page ::
  "unicode \<Rightarrow> envelope \<Rightarrow> (nat \<Rightarrow> time \<times> time) \<Rightarrow> chat_session \<Rightarrow> ustr \<Rightarrow> nat \<Rightarrow> nat \<Rightarrow> stored_row list \<Rightarrow> env_state \<Rightarrow>
   (chat_error + message_view list \<times> nat) \<times> env_state" where
  "search_message_page U ev clk s query offset limit rows st =
     search_pages U ev clk s (casefold U query) offset limit rows 0 ([], 0) st"

section \<open>The newest messages\<close>

definition recent_messages ::
  "envelope \<Rightarrow> (nat \<Rightarrow> time \<times> time) \<Rightarrow> chat_session \<Rightarrow> int \<Rightarrow> time option \<Rightarrow> stored_row list \<Rightarrow> env_state \<Rightarrow>
   (chat_error + message_view list) \<times> env_state" where
  "recent_messages ev clk s limit since rows st =
     (if limit < 1 \<or> limit > 100 then (Inl Limit_Error, st)
      else let recent = (case since of None \<Rightarrow> session_messages (cs_id s) rows
                         | Some t \<Rightarrow> filter (\<lambda>r. t \<le> sr_created r) (session_messages (cs_id s) rows));
               page = rev (take (nat limit) (rev recent))
           in case read_rows ev clk s page st of
                (Inl e, st') \<Rightarrow> (Inl (Crypto_Failed e), st')
              | (Inr messages, st') \<Rightarrow> (Inr messages, st'))"

section \<open>Storing\<close>

record chat_store =
  st_rows :: "stored_row list"
  st_keys :: env_state
  st_next_id :: int

record encryption_input =
  ei_clock :: "time \<times> time \<times> time"
  ei_entropy :: entropy
  ei_nonce :: bytes
  ei_uuid :: string

definition encrypt_row ::
  "envelope \<Rightarrow> encryption_input \<Rightarrow> ustr \<Rightarrow> string \<Rightarrow> int \<Rightarrow> chat_session \<Rightarrow> env_state \<Rightarrow>
   (env_error + secure_message) \<times> chat_session \<times> env_state" where
  "encrypt_row ev inp plain role index s st =
     (case encrypt_message ev (ei_clock inp) (ei_entropy inp) (ei_nonce inp) plain role (ei_uuid inp) index s st of
        (Inl e, s', st') \<Rightarrow> (Inl e, s', st')
      | (Inr (ciphertext, nonce, epoch), s', st') \<Rightarrow>
          (Inr \<lparr>sm_session_id = cs_id s, sm_role = role, sm_uuid = ei_uuid inp, sm_index = index,
                sm_ciphertext = ciphertext, sm_nonce = nonce, sm_key_version = epoch, sm_crypto_epoch = epoch,
                sm_scheme = ENVELOPE_SCHEME\<rparr>, s', st'))"

definition add_rows :: "time \<Rightarrow> secure_message list \<Rightarrow> chat_store \<Rightarrow> chat_store" where
  "add_rows now ms store =
     store\<lparr>st_rows := st_rows store @
              map (\<lambda>(i, m). \<lparr>sr_id = st_next_id store + int i, sr_created = now, sr_message = m\<rparr>) (enumerate 0 ms),
           st_next_id := st_next_id store + int (length ms)\<rparr>"

text \<open>\<^verbatim>\<open>db.get(ChatSession, session_id)\<close> is the argument \<open>found\<close>.\<close>

definition store_message ::
  "envelope \<Rightarrow> encryption_input \<Rightarrow> time \<Rightarrow> string \<Rightarrow> ustr \<Rightarrow> chat_session option \<Rightarrow> chat_store \<Rightarrow>
   (chat_error + stored_row) \<times> chat_session option \<times> chat_store" where
  "store_message ev inp now role body found store =
     (case found of
        None \<Rightarrow> (Inl Missing_Conversation, None, store)
      | Some s \<Rightarrow>
          (case encrypt_row ev inp body role (next_message_index (map sr_message (st_rows store)) (cs_id s)) s (st_keys store) of
             (Inl e, s', st') \<Rightarrow> (Inl (Crypto_Failed e), Some s', store\<lparr>st_keys := st'\<rparr>)
           | (Inr m, s', st') \<Rightarrow>
               (let store' = add_rows now [m] (store\<lparr>st_keys := st'\<rparr>)
                in (Inr (last (st_rows store')), Some s', store'))))"

section \<open>The exchange\<close>

text \<open>The longest run of backticks.\<close>

fun longest_run :: "nat \<Rightarrow> nat \<Rightarrow> nat \<Rightarrow> ustr \<Rightarrow> nat" where
  "longest_run c run best [] = max run best"
| "longest_run c run best (x # xs) = (if x = c then longest_run c (Suc run) best xs else longest_run c 0 (max run best) xs)"

definition format_user_message_with_file :: "ustr \<Rightarrow> ustr option \<Rightarrow> ustr option \<Rightarrow> ustr" where
  "format_user_message_with_file body file_name file_content =
     (case (file_name, file_content) of
        (Some name, Some data) \<Rightarrow>
          if name = [] \<or> data = [] then body
          else (let fence = replicate (max 3 (longest_run 96 0 0 data + 1)) 96
                in [128206] @ latin '' **T'' @ [7879] @ latin ''p '' @ [273, 237] @ latin ''nh k'' @ [232] @ latin ''m:** `'' @ name @ [96, 10] @ fence @ latin ''text'' @ [10]
                   @ data @ [10] @ fence @ [10, 10] @ body)
      | _ \<Rightarrow> body)"

record chat_input =
  ci_body :: ustr
  ci_allow_external :: bool
  ci_confirm :: bool
  ci_sanitize :: bool
  ci_consent_since :: "time option"
  ci_file_name :: "ustr option"
  ci_file_content :: "ustr option"

record chat_readings =
  cr_reads :: "nat \<Rightarrow> time \<times> time"
  cr_limits :: "time \<times> time"
  cr_user :: encryption_input
  cr_assistant :: encryption_input
  cr_now :: time

definition chat_request :: "chat_input \<Rightarrow> string \<Rightarrow> ai_request" where
  "chat_request inp classification =
     \<lparr>rq_message = ci_body inp, rq_allow_external = ci_allow_external inp, rq_class = classification,
      rq_confirmed = ci_confirm inp, rq_sanitize = ci_sanitize inp,
      rq_file = (case (ci_file_name inp, ci_file_content inp) of (Some n, Some d) \<Rightarrow> Some (n, d) | _ \<Rightarrow> None)\<rparr>"

text \<open>The history the service hands over: roles and texts of the newest messages.\<close>

definition chat_history ::
  "envelope \<Rightarrow> (nat \<Rightarrow> time \<times> time) \<Rightarrow> chat_session \<Rightarrow> int \<Rightarrow> time option \<Rightarrow> stored_row list \<Rightarrow> env_state \<Rightarrow>
   (history_error + (string \<times> ustr) list) \<times> env_state" where
  "chat_history ev clk s limit since rows st =
     (case recent_messages ev clk s limit since rows st of
        (Inl (Crypto_Failed e), st') \<Rightarrow> (Inl (History_Crypto e), st')
      | (Inl _, st') \<Rightarrow> (Inl History_Limit, st')
      | (Inr ms, st') \<Rightarrow> (Inr (map (\<lambda>m. (mv_role m, mv_body m)) ms), st'))"

definition chat ::
  "envelope \<Rightarrow> ai_service \<Rightarrow> chat_readings \<Rightarrow> chat_input \<Rightarrow> string \<Rightarrow> chat_session \<Rightarrow> chat_store \<Rightarrow> ai_world \<Rightarrow>
   (chat_error + stored_row \<times> stored_row \<times> ustr \<times> ustr list) \<times> chat_session \<times> chat_store \<times> ai_world" where
  "chat ev sv rd inp classification s store w =
     (if cs_security_mode s = ''private_e2ee'' then (Inl Permission_Denied, s, store, w)
      else
        (let stored_user_content = format_user_message_with_file (ci_body inp) (ci_file_name inp) (ci_file_content inp)
         in case generate sv (chat_request inp classification)
                   (chat_history ev (cr_reads rd) s (int (set_history_messages (sv_settings sv))) (ci_consent_since inp) (st_rows store))
                   (cr_limits rd) (st_keys store) w of
              (Inl e, st1, w1) \<Rightarrow> (Inl (Ai_Failed e), s, store\<lparr>st_keys := st1\<rparr>, w1)
            | (Inr (response, labels), st1, w1) \<Rightarrow>
                (let first_index = next_message_index (map sr_message (st_rows store)) (cs_id s)
                 in case encrypt_row ev (cr_user rd) stored_user_content ''user'' first_index s st1 of
                      (Inl e, s2, st2) \<Rightarrow> (Inl (Crypto_Failed e), s2, store\<lparr>st_keys := st2\<rparr>, w1)
                    | (Inr user_row, s2, st2) \<Rightarrow>
                        (case encrypt_row ev (cr_assistant rd) response ''assistant'' (first_index + 1) s2 st2 of
                           (Inl e, s3, st3) \<Rightarrow> (Inl (Crypto_Failed e), s3, store\<lparr>st_keys := st3\<rparr>, w1)
                         | (Inr assistant_row, s3, st3) \<Rightarrow>
                             (let store' = add_rows (cr_now rd) [user_row, assistant_row] (store\<lparr>st_keys := st3\<rparr>);
                                  n = length (st_rows store)
                              in (Inr (st_rows store' ! n, st_rows store' ! Suc n, response, labels), s3, store', w1))))))"

section \<open>Reading does not depend on the cache\<close>

lemma decrypt_message_fresh:
  assumes "env_ok W ev" "cache_inv W ev st" "cache_inv W ev st'" "es_epochs st = es_epochs st'" "session_covered W s st"
  shows "fst (decrypt_message ev clk s row st) = fst (decrypt_message ev clk' s row st')"
proof -
  obtain a sa where a: "session_dek ev (fst clk) (snd clk) s (sm_crypto_epoch row) st = (a, sa)" by (metis surj_pair)
  obtain b sb where b: "session_dek ev (fst clk') (snd clk') s (sm_crypto_epoch row) st' = (b, sb)" by (metis surj_pair)
  have "a = b"
    using session_dek_fresh[OF assms(1,2,5) a] session_dek_fresh[OF assms(1,3) session_covered_cong[OF assms(5) refl refl assms(4)[symmetric]] b]
      fresh_epochs[OF assms(4)] by simp
  then show ?thesis
    using a b by (cases a) (auto simp: decrypt_message_def split: sum.split option.split prod.split)
qed

lemma decrypt_message_inv:
  assumes "env_ok W ev" "cache_inv W ev st" "session_covered W s st" "decrypt_message ev clk s row st = (out, st')"
  shows "cache_inv W ev st' \<and> es_epochs st' = es_epochs st"
  using decrypt_message_state[OF assms(4)] session_dek_fresh[OF assms(1-3)] assms(2) by blast

lemma read_row_fresh:
  assumes "env_ok W ev" "cache_inv W ev st" "cache_inv W ev st'" "es_epochs st = es_epochs st'" "session_covered W s st"
  shows "fst (read_row ev clk s r st) = fst (read_row ev clk' s r st')"
proof -
  obtain a sa b sb where ab: "decrypt_message ev clk s (sr_message r) st = (a, sa)" "decrypt_message ev clk' s (sr_message r) st' = (b, sb)"
    by (metis surj_pair)
  then have "a = b"
    using decrypt_message_fresh[OF assms, of clk "sr_message r" clk'] by simp
  then show ?thesis
    using ab by (cases b) (simp_all add: read_row_def)
qed

lemma read_row_inv:
  assumes "env_ok W ev" "cache_inv W ev st" "session_covered W s st" "read_row ev clk s r st = (out, st')"
  shows "cache_inv W ev st' \<and> es_epochs st' = es_epochs st"
  using assms(4) decrypt_message_inv[OF assms(1-3)] by (auto simp: read_row_def split: prod.splits sum.splits)

text \<open>The messages the rows hold, each read on its own in the state \<open>st0\<close>.\<close>

definition rows_hold :: "envelope \<Rightarrow> chat_session \<Rightarrow> env_state \<Rightarrow> stored_row list \<Rightarrow> message_view list \<Rightarrow> bool" where
  "rows_hold ev s st0 rows ms \<longleftrightarrow> list_all2 (\<lambda>r m. fst (read_row ev (0, 0) s r st0) = Inr m) rows ms"

lemma read_rows_hold:
  assumes "env_ok W ev" "cache_inv W ev st0" "session_covered W s st0" "cache_inv W ev st" "es_epochs st = es_epochs st0" "rows_hold ev s st0 rows ms"
  shows "\<exists>st'. read_rows ev clk s rows st = (Inr ms, st') \<and> cache_inv W ev st' \<and> es_epochs st' = es_epochs st0"
  using assms(4-6)
proof (induction rows arbitrary: clk st ms)
  case Nil
  then show ?case by (simp add: rows_hold_def)
next
  case (Cons r rs)
  obtain m ms' where ms: "ms = m # ms'" "fst (read_row ev (0, 0) s r st0) = Inr m" "rows_hold ev s st0 rs ms'"
    using Cons.prems(3) by (auto simp: rows_hold_def list_all2_Cons1)
  obtain out st1 where row: "read_row ev (clk 0) s r st = (out, st1)" by (metis surj_pair)
  note cov = session_covered_cong[OF assms(3) refl refl Cons.prems(2)]
  have out: "out = Inr m"
    using read_row_fresh[OF assms(1) Cons.prems(1) assms(2) Cons.prems(2) cov, of "clk 0" r "(0, 0)"] row ms(2) by simp
  have st1: "cache_inv W ev st1" "es_epochs st1 = es_epochs st0"
    using read_row_inv[OF assms(1) Cons.prems(1) cov row] Cons.prems(2) by simp_all
  obtain st' where "read_rows ev (\<lambda>i. clk (Suc i)) s rs st1 = (Inr ms', st')" "cache_inv W ev st'" "es_epochs st' = es_epochs st0"
    using Cons.IH[OF st1 ms(3)] by blast
  then show ?case using row out ms(1) by simp
qed

section \<open>Search is a filter over all messages\<close>

lemma search_fold:
  "fold (search_step hit offset limit) page (sel, n) =
     (sel @ take (offset + limit - max n offset) (drop (offset - n) (filter hit page)), n + length (filter hit page))"
proof (induction page arbitrary: sel n)
  case Nil
  then show ?case by simp
next
  case (Cons m page)
  show ?case
  proof (cases "hit m")
    case False
    then show ?thesis using Cons.IH by (simp add: search_step_def)
  next
    case True
    consider "n < offset" | "offset \<le> n" "n < offset + limit" | "offset + limit \<le> n" by linarith
    then show ?thesis
    proof cases
      case 1
      then have "offset - n = Suc (offset - Suc n)" "max (Suc n) offset = offset" "max n offset = offset" by auto
      then show ?thesis using True 1 Cons.IH by (simp add: search_step_def)
    next
      case 2
      then have "offset + limit - n = Suc (offset + limit - Suc n)" "max (Suc n) offset = Suc n" "max n offset = n" by auto
      then show ?thesis using True 2 Cons.IH by (simp add: search_step_def)
    next
      case 3
      then show ?thesis using True Cons.IH by (simp add: search_step_def)
    qed
  qed
qed

definition window_of :: "nat \<Rightarrow> nat \<Rightarrow> 'a list \<Rightarrow> 'a list" where
  "window_of offset limit xs = take limit (drop offset xs)"

text \<open>What the loop has collected after reading the messages \<open>seen\<close>.\<close>

lemma search_fold_window:
  "fold (search_step hit offset limit) page (window_of offset limit (filter hit seen), length (filter hit seen)) =
     (window_of offset limit (filter hit (seen @ page)), length (filter hit (seen @ page)))"
proof -
  define xs where "xs = filter hit seen"
  define ys where "ys = filter hit page"
  have "window_of offset limit xs @ take (offset + limit - max (length xs) offset) (drop (offset - length xs) ys) =
      window_of offset limit (xs @ ys)"
  proof (cases "length xs \<le> offset")
    case True
    then show ?thesis by (simp add: window_of_def)
  next
    case False
    have "take limit (drop offset xs @ ys) = take limit (drop offset xs) @ take (limit - length (drop offset xs)) ys"
      by simp
    moreover have "limit - (length xs - offset) = offset + limit - length xs" using False by auto
    ultimately show ?thesis using False by (simp add: window_of_def max_def)
  qed
  then show ?thesis by (simp add: search_fold xs_def ys_def)
qed

lemma rows_hold_slice: "rows_hold ev s st rows ms \<Longrightarrow> rows_hold ev s st (take n (drop k rows)) (take n (drop k ms))"
  by (simp add: rows_hold_def)

lemma rows_hold_length: "rows_hold ev s st rows ms \<Longrightarrow> length rows = length ms"
  by (simp add: rows_hold_def list_all2_lengthD)

lemma search_pages_filter:
  assumes ok: "env_ok W ev" "cache_inv W ev st0" "session_covered W s st0" and mode: "cs_security_mode s \<noteq> ''private_e2ee''"
    and hold: "rows_hold ev s st0 (session_messages (cs_id s) rows) ms"
    and st: "cache_inv W ev st" "es_epochs st = es_epochs st0"
  shows "\<exists>st'. search_pages U ev clk s needle offset limit rows k
      (window_of offset limit (filter (body_contains U needle) (take k ms)), length (filter (body_contains U needle) (take k ms))) st =
      (Inr (window_of offset limit (filter (body_contains U needle) ms), length (filter (body_contains U needle) ms)), st') \<and>
      cache_inv W ev st' \<and> es_epochs st' = es_epochs st0"
  using st
proof (induction "length ms - k" arbitrary: k st rule: less_induct)
  case less
  let ?hit = "body_contains U needle"
  let ?page = "take 100 (drop k ms)"
  obtain st1 where read: "read_rows ev (\<lambda>i. clk (k + i)) s (take 100 (drop k (session_messages (cs_id s) rows))) st = (Inr ?page, st1)"
      and st1: "cache_inv W ev st1" "es_epochs st1 = es_epochs st0"
    using read_rows_hold[OF ok less.prems rows_hold_slice[OF hold]] by blast
  have page: "list_messages U ev clk s None (Some 100) k rows st = (Inr ?page, st1)"
    using read mode by (simp add: list_messages_def)
  have acc: "fold (search_step ?hit offset limit) ?page
      (window_of offset limit (filter ?hit (take k ms)), length (filter ?hit (take k ms))) =
      (window_of offset limit (filter ?hit (take (k + length ?page) ms)), length (filter ?hit (take (k + length ?page) ms)))"
  proof -
    have "take k ms @ ?page = take (k + length ?page) ms"
      by (simp add: take_add min_def)
    then show ?thesis using search_fold_window[of ?hit offset limit ?page "take k ms"] by simp
  qed
  show ?case
  proof (cases "length ?page < 100")
    case True
    then have "take (k + length ?page) ms = ms" by auto
    then show ?thesis
      using page acc True st1 by (subst search_pages.simps) (simp add: Let_def)
  next
    case False
    then have "length ms - (k + length ?page) < length ms - k" by auto
    then show ?thesis
      using less.hyps[OF _ st1, of "k + length ?page"] page acc False
      by (subst search_pages.simps) (simp add: Let_def)
  qed
qed

text \<open>Searching an encrypted conversation page by page returns what filtering all its messages would: the
  requested window of the messages whose folded text contains the folded query, in order, and the exact number of
  matches, whatever the number of database pages and whatever the key cache holds.\<close>

theorem search_is_filter:
  assumes "env_ok W ev" and "cache_inv W ev st" and "session_covered W s st" and "cs_security_mode s \<noteq> ''private_e2ee''"
    and "rows_hold ev s st (session_messages (cs_id s) rows) ms"
    and "hits = filter (body_contains U (casefold U query)) ms"
  shows "\<exists>st'. search_message_page U ev clk s query offset limit rows st = (Inr (take limit (drop offset hits), length hits), st') \<and>
    es_epochs st' = es_epochs st"
  using search_pages_filter[OF assms(1-5,2) refl, of U clk "casefold U query" offset limit 0] assms(6)
  by (auto simp: search_message_page_def window_of_def)

section \<open>The exchange is stored whole or not at all, and can be read back\<close>

lemma read_row_epochs: "read_row ev clk s r st = (out, st') \<Longrightarrow> es_epochs st' = es_epochs st"
  by (auto simp: read_row_def split: prod.splits sum.splits dest: decrypt_message_epochs)

lemma read_rows_steps: "read_rows ev clk s rows st = (out, st') \<Longrightarrow> session_covered W s st \<Longrightarrow> (env_step W ev owner)\<^sup>*\<^sup>* st st'"
proof (induction rows arbitrary: clk st out)
  case (Cons r rs)
  obtain o1 st1 where row: "read_row ev (clk 0) s r st = (o1, st1)" by (metis surj_pair)
  have "env_step W ev owner st st1"
    using row step_decrypt[of W s st ev "clk 0" "sr_message r" _ st1 owner] Cons.prems(2)
    by (auto simp: read_row_def split: prod.splits sum.splits)
  moreover have "st' = st1 \<or> (\<exists>out'. read_rows ev (\<lambda>i. clk (Suc i)) s rs st1 = (out', st'))"
    using Cons.prems row by (auto split: sum.splits prod.splits)
  ultimately show ?case
    using Cons.IH session_covered_cong[OF Cons.prems(2) refl refl read_row_epochs[OF row]]
    by (metis converse_rtranclp_into_rtranclp r_into_rtranclp)
qed simp

lemma read_rows_epochs: "read_rows ev clk s rows st = (out, st') \<Longrightarrow> es_epochs st' = es_epochs st"
  by (induction rows arbitrary: clk st out) (auto split: prod.splits sum.splits dest: read_row_epochs)

lemma chat_history_steps: "session_covered W s st \<Longrightarrow> (env_step W ev owner)\<^sup>*\<^sup>* st (snd (chat_history ev clk s limit since rows st))"
proof -
  assume "session_covered W s st"
  then have "(env_step W ev owner)\<^sup>*\<^sup>* st (snd (recent_messages ev clk s limit since rows st))"
    using read_rows_steps by (auto simp: recent_messages_def Let_def split: prod.splits sum.splits)
  moreover have "snd (chat_history ev clk s limit since rows st) = snd (recent_messages ev clk s limit since rows st)"
    by (simp add: chat_history_def split: prod.split sum.split chat_error.split)
  ultimately show ?thesis by simp
qed

lemma chat_history_epochs: "es_epochs (snd (chat_history ev clk s limit since rows st)) = es_epochs st"
proof -
  have "es_epochs (snd (recent_messages ev clk s limit since rows st)) = es_epochs st"
    using read_rows_epochs by (auto simp: recent_messages_def Let_def split: prod.splits sum.splits)
  moreover have "snd (chat_history ev clk s limit since rows st) = snd (recent_messages ev clk s limit since rows st)"
    by (simp add: chat_history_def split: prod.split sum.split chat_error.split)
  ultimately show ?thesis by simp
qed

lemma generate_history_state:
  assumes "generate sv rq history clock h w = (res, h', w')"
  shows "h' = h \<or> h' = snd (history h)"
  using assms by (cases rule: generate_stages) simp_all

lemma next_message_index_fresh:
  assumes "m \<in> set db" "sm_session_id m = sid"
  shows "sm_index m < next_message_index db sid"
proof -
  have "sm_index m \<in> set (map sm_index (filter (\<lambda>m. sm_session_id m = sid) db))" (is "_ \<in> set ?xs")
    using assms by auto
  then have "sm_index m \<le> Max (set ?xs)" "?xs \<noteq> []"
    by (auto simp del: set_map)
  then show ?thesis by (simp add: next_message_index_def Let_def)
qed

lemma encrypt_row_Inr:
  assumes "encrypt_row ev inp plain role index s st = (Inr m, s', st')"
  obtains ct n e where "encrypt_message ev (ei_clock inp) (ei_entropy inp) (ei_nonce inp) plain role (ei_uuid inp) index s st = (Inr (ct, n, e), s', st')"
    "m = \<lparr>sm_session_id = cs_id s, sm_role = role, sm_uuid = ei_uuid inp, sm_index = index, sm_ciphertext = ct, sm_nonce = n,
          sm_key_version = e, sm_crypto_epoch = e, sm_scheme = ENVELOPE_SCHEME\<rparr>"
    "cs_id s' = cs_id s" "cs_owner_id s' = cs_owner_id s"
proof -
  obtain ct n e where enc: "encrypt_message ev (ei_clock inp) (ei_entropy inp) (ei_nonce inp) plain role (ei_uuid inp) index s st = (Inr (ct, n, e), s', st')"
    and m: "m = \<lparr>sm_session_id = cs_id s, sm_role = role, sm_uuid = ei_uuid inp, sm_index = index, sm_ciphertext = ct, sm_nonce = n,
          sm_key_version = e, sm_crypto_epoch = e, sm_scheme = ENVELOPE_SCHEME\<rparr>"
    using assms by (auto simp: encrypt_row_def split: prod.splits sum.splits)
  obtain row st1 where "ensure_session_key ev (fst (ei_clock inp)) (ei_entropy inp) s st = (Inr row, s', st1)"
    using enc by (auto simp: encrypt_message_def split: prod.splits sum.splits option.splits)
  then have "cs_id s' = cs_id s" "cs_owner_id s' = cs_owner_id s"
    using ensure_session by blast+
  then show ?thesis using that enc m by blast
qed

text \<open>The stages of a successful exchange.\<close>

lemma chat_Inr:
  assumes "chat ev sv rd inp cls s store w = (Inr (u, a, response, labels), s', store', w')"
  obtains st1 s2 st2 st3 mu ma where
    "generate sv (chat_request inp cls) (chat_history ev (cr_reads rd) s (int (set_history_messages (sv_settings sv)))
       (ci_consent_since inp) (st_rows store)) (cr_limits rd) (st_keys store) w = (Inr (response, labels), st1, w')"
    "encrypt_row ev (cr_user rd) (format_user_message_with_file (ci_body inp) (ci_file_name inp) (ci_file_content inp))
       ''user'' (next_message_index (map sr_message (st_rows store)) (cs_id s)) s st1 = (Inr mu, s2, st2)"
    "encrypt_row ev (cr_assistant rd) response ''assistant'' (next_message_index (map sr_message (st_rows store)) (cs_id s) + 1) s2 st2
       = (Inr ma, s', st3)"
    "u = \<lparr>sr_id = st_next_id store, sr_created = cr_now rd, sr_message = mu\<rparr>"
    "a = \<lparr>sr_id = st_next_id store + 1, sr_created = cr_now rd, sr_message = ma\<rparr>"
    "st_rows store' = st_rows store @ [u, a]" "st_keys store' = st3" "cs_security_mode s \<noteq> ''private_e2ee''"
proof -
  obtain g st1 w1 where gen: "generate sv (chat_request inp cls) (chat_history ev (cr_reads rd) s (int (set_history_messages (sv_settings sv)))
       (ci_consent_since inp) (st_rows store)) (cr_limits rd) (st_keys store) w = (g, st1, w1)"
    by (metis prod_cases3)
  have mode: "cs_security_mode s \<noteq> ''private_e2ee''" using assms by (auto simp: chat_def)
  obtain r l where g: "g = Inr (r, l)"
    using assms gen mode by (cases g) (auto simp: chat_def Let_def)
  let ?n = "next_message_index (map sr_message (st_rows store)) (cs_id s)"
  let ?c = "format_user_message_with_file (ci_body inp) (ci_file_name inp) (ci_file_content inp)"
  obtain x s2 st2 where e1: "encrypt_row ev (cr_user rd) ?c ''user'' ?n s st1 = (x, s2, st2)" by (metis prod_cases3)
  obtain mu where x: "x = Inr mu"
    using assms gen mode g e1 by (cases x) (auto simp: chat_def Let_def)
  obtain y s3 st3 where e2: "encrypt_row ev (cr_assistant rd) r ''assistant'' (?n + 1) s2 st2 = (y, s3, st3)" by (metis prod_cases3)
  obtain ma where y: "y = Inr ma"
    using assms gen mode g e1 x e2 by (cases y) (auto simp: chat_def Let_def)
  have "s' = s3 \<and> w' = w1 \<and> response = r \<and> labels = l \<and> st_keys store' = st3 \<and>
      u = \<lparr>sr_id = st_next_id store, sr_created = cr_now rd, sr_message = mu\<rparr> \<and>
      a = \<lparr>sr_id = st_next_id store + 1, sr_created = cr_now rd, sr_message = ma\<rparr> \<and> st_rows store' = st_rows store @ [u, a]"
    using assms gen mode g e1 x e2 y by (auto simp: chat_def Let_def add_rows_def nth_append)
  then show ?thesis
    using that gen g e1 x e2 y mode by blast
qed

lemma chat_Inl:
  assumes "chat ev sv rd inp cls s store w = (Inl e, s', store', w')"
  shows "st_rows store' = st_rows store \<and> st_next_id store' = st_next_id store"
  using assms by (auto simp: chat_def Let_def split: if_splits prod.splits sum.splits)

text \<open>A conversation that has a key takes every further text that can be encoded.\<close>

lemma ensure_found:
  assumes "ensure_session_key ev t r s st = (Inr k, s', st')"
  shows "0 < cs_epoch s' \<and> cs_security_mode s' \<noteq> ''private_e2ee'' \<and> ke_epoch k = cs_epoch s' \<and>
    find_epoch st' (cs_id s') (cs_epoch s') = Some k"
proof (cases "(if cs_epoch s > 0 then find_epoch st (cs_id s) (cs_epoch s) else None)")
  case (Some k')
  then have "k' = k" "s' = s" "st' = st" "cs_security_mode s \<noteq> ''private_e2ee''" "0 < cs_epoch s" "find_epoch st (cs_id s) (cs_epoch s) = Some k'"
    using assms by (auto simp: ensure_session_key_def split: if_splits)
  then show ?thesis using find_epoch_SomeD by auto
next
  case None
  then have "new_epoch ev t r ''Unable to create a protected conversation key.'' (max (cs_epoch s) 0 + 1) s st = (Inr k, s', st')"
    and "cs_security_mode s \<noteq> ''private_e2ee''"
    using assms by (auto simp: ensure_session_key_def split: if_splits)
  then show ?thesis
    by (auto simp: new_epoch_def Let_def find_epoch_add split: sum.splits prod.splits if_splits)
qed

lemma next_message_encrypted:
  assumes prov: "sound_provider (ev_provider ev)" and ok: "env_ok W ev" and cov: "creation_covered W ev r s st" "session_covered W s st"
    and st: "cache_inv W ev st" "epochs_inv st" and r: "entropy_ok r"
    and enc: "encrypt_message ev clk r nonce pt role uuid idx s st = (Inr (ct, n, e), s', st2)"
    and pt': "utf8_encode pt' = Some data'"
  shows "\<exists>ct' n' e' st3. encrypt_message ev clk' r' nonce' pt' role' uuid' idx' s' st2 = (Inr (ct', n', e'), s', st3)"
proof -
  obtain k s1 stk where k: "ensure_session_key ev (fst clk) r s st = (Inr k, s1, stk)"
    using enc by (auto simp: encrypt_message_def split: prod.splits sum.splits)
  obtain dek where d: "session_dek ev (fst (snd clk)) (snd (snd clk)) s1 (ke_epoch k) stk = (Inr dek, st2)"
    using enc k by (auto simp: encrypt_message_def split: prod.splits sum.splits option.splits)
  have s1: "s1 = s'"
    using enc k d by (auto simp: encrypt_message_def split: option.splits)
  note found = ensure_found[OF k] and c1 = ensure_covered[OF k cov]
  have "keeps_keys W ev (\<lambda>_. cs_owner_id s) st stk"
    using sound_ensure_keeps[OF prov ok r cov(1) k] .
  then have invk: "cache_inv W ev stk"
    using st by (simp add: keeps_keys_def)
  have fresh: "fresh_session_dek ev s1 (ke_epoch k) stk = Inr dek" and st2: "cache_inv W ev st2" "es_epochs st2 = es_epochs stk"
    using session_dek_fresh[OF ok invk c1 d] by auto
  have f2: "find_epoch st2 (cs_id s') (cs_epoch s') = Some k"
    using found st2(2) s1 by (simp add: find_epoch_def)
  have again: "ensure_session_key ev (fst clk') r' s' st2 = (Inr k, s', st2)"
    using found f2 s1 by (simp add: ensure_session_key_def)
  obtain res st3 where d3: "session_dek ev (fst (snd clk')) (snd (snd clk')) s' (ke_epoch k) st2 = (res, st3)"
    by (metis surj_pair)
  have "res = Inr dek"
    using session_dek_fresh[OF ok st2(1) session_covered_cong[OF c1 _ _ st2(2)] d3] fresh fresh_epochs[OF st2(2)] s1 by auto
  then show ?thesis
    using again d3 pt' by (simp add: encrypt_message_def)
qed

lemma creation_covered_cong:
  assumes "es_epochs st' = es_epochs st"
  shows "creation_covered W ev r s st' = creation_covered W ev r s st"
proof -
  have "find_epoch st' = find_epoch st" using assms by (simp add: find_epoch_def fun_eq_iff)
  then show ?thesis by (simp add: creation_covered_def)
qed

lemma encrypt_found:
  assumes "encrypt_message ev clk r nonce pt role uuid idx s st = (Inr out, s', st')"
  shows "0 < cs_epoch s' \<and> find_epoch st' (cs_id s') (cs_epoch s') \<noteq> None"
proof -
  obtain k s1 st1 where e: "ensure_session_key ev (fst clk) r s st = (Inr k, s1, st1)"
    using assms by (auto simp: encrypt_message_def split: prod.splits sum.splits)
  obtain d where "session_dek ev (fst (snd clk)) (snd (snd clk)) s1 (ke_epoch k) st1 = (d, st')" "s' = s1"
    using assms e by (auto simp: encrypt_message_def split: prod.splits sum.splits option.splits)
  then show ?thesis using ensure_found[OF e] session_dek_epochs by (simp add: find_epoch_def)
qed

lemma creation_found:
  "encrypt_message ev clk r nonce pt role uuid idx s st = (Inr out, s', st') \<Longrightarrow> creation_covered W ev' r' s' st'"
  using encrypt_found[of ev clk r nonce pt role uuid idx s st out s' st'] by (auto simp: creation_covered_def)

lemma chat_exchange_rows:
  assumes lp: "sound_provider prov" "aead_correct A" "aead_binding A" "inj_on sha (hashed sha W)"
    and ev: "envelope_init prov A sha legacy ttl mx = Some ev"
    and st0: "es_cache st0 = []" "epochs_inv st0" and before: "(env_step W ev owner)\<^sup>*\<^sup>* st0 (st_keys store)"
    and rd: "entropy_ok (ei_entropy (cr_user rd))" "length (ei_nonce (cr_user rd)) = 12"
      "entropy_ok (ei_entropy (cr_assistant rd))" "length (ei_nonce (cr_assistant rd)) = 12"
    and own: "cs_owner_id s = owner (cs_id s)"
    and cov: "session_covered W s (st_keys store)" "creation_covered W ev (ei_entropy (cr_user rd)) s (st_keys store)"
    and run: "chat ev sv rd inp cls s store w = (res, s', store', w')"
    and after: "(env_step W ev owner)\<^sup>*\<^sup>* (st_keys store') later" and cov': "session_covered W s later"
  shows "case res of
      Inl e \<Rightarrow> st_rows store' = st_rows store
    | Inr (u, a, response, labels) \<Rightarrow>
        st_rows store' = st_rows store @ [u, a] \<and>
        (\<forall>r\<in>set (st_rows store). sm_session_id (sr_message r) = cs_id s \<longrightarrow> sm_index (sr_message r) < sm_index (sr_message u)) \<and>
        sm_index (sr_message a) = sm_index (sr_message u) + 1 \<and>
        fst (read_row ev clk s u later) = Inr \<lparr>mv_id = sr_id u, mv_session = cs_id s, mv_role = ''user'',
          mv_body = format_user_message_with_file (ci_body inp) (ci_file_name inp) (ci_file_content inp), mv_created = sr_created u\<rparr> \<and>
        fst (read_row ev clk s a later) = Inr \<lparr>mv_id = sr_id a, mv_session = cs_id s, mv_role = ''assistant'',
          mv_body = response, mv_created = sr_created a\<rparr>"
proof (cases res)
  case (Inl e)
  then show ?thesis using chat_Inl run by simp
next
  case (Inr x)
  obtain u a response labels where x: "x = (u, a, response, labels)" by (cases x)
  let ?n = "next_message_index (map sr_message (st_rows store)) (cs_id s)"
  let ?c = "format_user_message_with_file (ci_body inp) (ci_file_name inp) (ci_file_content inp)"
  from run[unfolded Inr x] obtain st1 s2 st2 st3 mu ma where gen:
    "generate sv (chat_request inp cls) (chat_history ev (cr_reads rd) s (int (set_history_messages (sv_settings sv)))
       (ci_consent_since inp) (st_rows store)) (cr_limits rd) (st_keys store) w = (Inr (response, labels), st1, w')"
    and e1: "encrypt_row ev (cr_user rd) ?c ''user'' ?n s st1 = (Inr mu, s2, st2)"
    and e2: "encrypt_row ev (cr_assistant rd) response ''assistant'' (?n + 1) s2 st2 = (Inr ma, s', st3)"
    and rows: "u = \<lparr>sr_id = st_next_id store, sr_created = cr_now rd, sr_message = mu\<rparr>"
      "a = \<lparr>sr_id = st_next_id store + 1, sr_created = cr_now rd, sr_message = ma\<rparr>"
      "st_rows store' = st_rows store @ [u, a]" "st_keys store' = st3"
    by (rule chat_Inr)
  note i = envelope_init_ok[OF ev lp(4,2)]
  have to1: "(env_step W ev owner)\<^sup>*\<^sup>* (st_keys store) st1"
    using generate_history_state[OF gen] chat_history_steps[OF cov(1)] by blast
  have keys1: "es_epochs st1 = es_epochs (st_keys store)"
    using generate_history_state[OF gen] chat_history_epochs by metis
  have cov1: "creation_covered W ev (ei_entropy (cr_user rd)) s st1" "session_covered W s st1"
    using session_covered_cong[OF cov(1) refl refl keys1] cov(2) creation_covered_cong[OF keys1] by simp_all
  from to1 have to1: "(env_step W ev owner)\<^sup>*\<^sup>* st0 st1"
    using before by (rule rtranclp_trans[rotated])
  obtain ct n e where m1: "encrypt_message ev (ei_clock (cr_user rd)) (ei_entropy (cr_user rd)) (ei_nonce (cr_user rd)) ?c ''user''
      (ei_uuid (cr_user rd)) ?n s st1 = (Inr (ct, n, e), s2, st2)"
    and mu: "mu = \<lparr>sm_session_id = cs_id s, sm_role = ''user'', sm_uuid = ei_uuid (cr_user rd), sm_index = ?n, sm_ciphertext = ct,
      sm_nonce = n, sm_key_version = e, sm_crypto_epoch = e, sm_scheme = ENVELOPE_SCHEME\<rparr>"
    and s2: "cs_id s2 = cs_id s" "cs_owner_id s2 = cs_owner_id s"
    using e1 by (rule encrypt_row_Inr)
  obtain ct' n' e' where m2: "encrypt_message ev (ei_clock (cr_assistant rd)) (ei_entropy (cr_assistant rd)) (ei_nonce (cr_assistant rd))
      response ''assistant'' (ei_uuid (cr_assistant rd)) (?n + 1) s2 st2 = (Inr (ct', n', e'), s', st3)"
    and ma: "ma = \<lparr>sm_session_id = cs_id s2, sm_role = ''assistant'', sm_uuid = ei_uuid (cr_assistant rd), sm_index = ?n + 1,
      sm_ciphertext = ct', sm_nonce = n', sm_key_version = e', sm_crypto_epoch = e', sm_scheme = ENVELOPE_SCHEME\<rparr>"
    using e2 by (rule encrypt_row_Inr)
  have cov2: "creation_covered W ev (ei_entropy (cr_assistant rd)) s2 st2" "session_covered W s2 st2"
    using creation_found[OF m1] encrypt_covered[OF m1 cov1] by simp_all
  have step1: "env_step W ev owner st1 st2" and step2: "env_step W ev owner st2 st3"
    using step_encrypt[where owner = owner, OF rd(1) own cov1 m1] step_encrypt[where owner = owner, OF rd(3) _ cov2 m2] own s2 by simp_all
  have later: "(env_step W ev owner)\<^sup>*\<^sup>* st3 later" using after rows(4) by simp
  have prov: "sound_provider (ev_provider ev)" "env_ok W ev" "aead_binding (ev_aead ev)" and own2: "cs_owner_id s2 = owner (cs_id s2)"
    using i lp(1,3) own s2 by simp_all
  note readable = sound_message_readable[where owner = owner, OF prov st0]
  have "fst (decrypt_message ev clk s mu later) = Inr ?c"
    using readable[OF to1 rd(1,2) own cov1 m1 converse_rtranclp_into_rtranclp[OF step2 later] cov' refl refl, of mu clk] by (simp add: mu)
  moreover have "fst (decrypt_message ev clk s ma later) = Inr response"
    using readable[OF rtranclp.rtrancl_into_rtrancl[OF to1 step1] rd(3,4) own2 cov2 m2 later cov' s2[symmetric], of ma clk] by (simp add: ma)
  ultimately have "fst (read_row ev clk s u later) = Inr \<lparr>mv_id = sr_id u, mv_session = cs_id s, mv_role = ''user'', mv_body = ?c, mv_created = sr_created u\<rparr>"
      "fst (read_row ev clk s a later) = Inr \<lparr>mv_id = sr_id a, mv_session = cs_id s, mv_role = ''assistant'', mv_body = response, mv_created = sr_created a\<rparr>"
    by (auto simp: read_row_def rows(1,2) mu ma s2 split: prod.splits sum.splits)
  moreover have "sm_index (sr_message r) < ?n" if "r \<in> set (st_rows store)" "sm_session_id (sr_message r) = cs_id s" for r
    using next_message_index_fresh[of "sr_message r" "map sr_message (st_rows store)" "cs_id s"] that by simp
  moreover have "sm_index (sr_message u) = ?n" "sm_index (sr_message a) = ?n + 1"
    by (simp_all add: rows(1,2) mu ma)
  ultimately show ?thesis
    unfolding Inr x sum.case prod.case using rows(3) by simp
qed

text \<open>C37: An exchange with the assistant is stored whole or not at all. When the request is refused or the
  provider or the encryption fails, no message is added. Otherwise exactly two rows are added, the user's message with
  its attachment and the reply, under the next two unused indices of the conversation; and after any
  later history of the key service, on any of its four providers, each of them decrypts, with its role, to the text that was
  stored. As for single messages, SHA-256 has no collision among the strings digested to name the cache keys of the run.\<close>

theorem chat_exchange_stored:
  assumes lp: "sound_provider prov" "aead_correct A" "aead_binding A" "inj_on sha (hashed sha W)"
    and ev: "envelope_init prov A sha legacy ttl mx = Some ev"
    and st0: "es_cache st0 = []" "epochs_inv st0" and before: "(env_step W ev owner)\<^sup>*\<^sup>* st0 (st_keys store)"
    and rd: "entropy_ok (ei_entropy (cr_user rd))" "length (ei_nonce (cr_user rd)) = 12"
      "entropy_ok (ei_entropy (cr_assistant rd))" "length (ei_nonce (cr_assistant rd)) = 12"
    and own: "cs_owner_id s = owner (cs_id s)"
    and cov: "session_covered W s (st_keys store)" "creation_covered W ev (ei_entropy (cr_user rd)) s (st_keys store)"
    and run: "chat ev sv rd inp cls s store w = (res, s', store', w')"
    and after: "(env_step W ev owner)\<^sup>*\<^sup>* (st_keys store') later" and cov': "session_covered W s later"
  shows "case res of
      Inl e \<Rightarrow> st_rows store' = st_rows store
    | Inr (u, a, response, labels) \<Rightarrow>
        st_rows store' = st_rows store @ [u, a] \<and>
        (\<forall>r\<in>set (st_rows store). sm_session_id (sr_message r) = cs_id s \<longrightarrow> sm_index (sr_message r) < sm_index (sr_message u)) \<and>
        sm_index (sr_message a) = sm_index (sr_message u) + 1 \<and>
        fst (read_row ev clk s u later) = Inr \<lparr>mv_id = sr_id u, mv_session = cs_id s, mv_role = ''user'',
          mv_body = format_user_message_with_file (ci_body inp) (ci_file_name inp) (ci_file_content inp), mv_created = sr_created u\<rparr> \<and>
        fst (read_row ev clk s a later) = Inr \<lparr>mv_id = sr_id a, mv_session = cs_id s, mv_role = ''assistant'',
          mv_body = response, mv_created = sr_created a\<rparr>"
  by (rule chat_exchange_rows[where owner = owner, OF lp ev st0 before rd own cov run after cov'])

section \<open>An exchange\<close>

definition demo_encryption :: "string \<Rightarrow> encryption_input" where
  "demo_encryption uuid = \<lparr>ei_clock = (0, 1, 2), ei_entropy = demo_entropy, ei_nonce = replicate 12 (CHR 0x03), ei_uuid = uuid\<rparr>"

definition demo_readings :: chat_readings where
  "demo_readings = \<lparr>cr_reads = (\<lambda>_. (0, 0)), cr_limits = (0, 0), cr_user = demo_encryption ''m1'',
     cr_assistant = demo_encryption ''m2'', cr_now = 5\<rparr>"

definition demo_chat_input :: chat_input where
  "demo_chat_input = \<lparr>ci_body = latin ''hi'', ci_allow_external = True, ci_confirm = False, ci_sanitize = False,
     ci_consent_since = None, ci_file_name = None, ci_file_content = None\<rparr>"

definition demo_store :: chat_store where
  "demo_store = \<lparr>st_rows = [], st_keys = demo_state, st_next_id = 1\<rparr>"

lemma demo_exchange:
  obtains u a s' store' w' where
    "chat demo_envelope demo_ai_service demo_readings demo_chat_input ''public'' demo_session demo_store demo_ai_world =
       (Inr (u, a, latin ''ok'', []), s', store', w')"
    "sr_id u = 1" "sr_id a = 2" "(env_step demo_names demo_envelope (\<lambda>_. ''u1''))\<^sup>*\<^sup>* demo_state (st_keys store')"
    "session_covered demo_names demo_session (st_keys store')"
    "aw_sent w' = [prompt_text \<lparr>pl_history = [], pl_message = latin ''hi'', pl_file = None\<rparr>]"
proof -
  let ?hist = "chat_history demo_envelope (cr_reads demo_readings) demo_session (int (set_history_messages (sv_settings demo_ai_service)))
      (ci_consent_since demo_chat_input) (st_rows demo_store)"
  have hist: "?hist demo_state = (Inr [], demo_state)"
    by (simp add: chat_history_def recent_messages_def demo_ai_service_def demo_store_def session_messages_def demo_chat_input_def)
  obtain w' where
    gen: "generate demo_ai_service demo_ai_request ?hist (0, 0) demo_state demo_ai_world = (Inr (latin ''ok'', []), demo_state, w')"
    and sent: "aw_sent w' = [prompt_text \<lparr>pl_history = [], pl_message = latin ''hi'', pl_file = None\<rparr>]"
    by (rule demo_generate[where history = ?hist and h = demo_state and h' = demo_state, OF hist])
  have req: "chat_request demo_chat_input ''public'' = demo_ai_request"
    by (simp add: chat_request_def demo_chat_input_def demo_ai_request_def)
  have f: "cs_epoch demo_session = 0" "cs_security_mode demo_session \<noteq> ''private_e2ee''" "cs_id demo_session = ''s1''" "cs_owner_id demo_session = ''u1''"
    by (simp_all add: demo_session_def)
  obtain d1 d2 where data: "utf8_encode (latin ''hi'') = Some d1" "utf8_encode (latin ''ok'') = Some d2"
    by (simp add: utf8_encode_def utf8_scalar_def)
  let ?enc = "encrypt_message demo_envelope (0, 1, 2) demo_entropy (replicate 12 (CHR 0x03))"
  obtain ct n s2 st2 where e1: "?enc (latin ''hi'') ''user'' ''m1'' 1 demo_session demo_state = (Inr (ct, n, 1), s2, st2)"
    by (rule demo_encrypted[OF data(1)])
  obtain ct' n' e' st3 where e2: "?enc (latin ''ok'') ''assistant'' ''m2'' 2 s2 st2 = (Inr (ct', n', e'), s2, st3)"
    using next_message_encrypted[OF demo_env(3,2) demo_covered demo_state_simps(4,2) demo_entropy_ok e1 data(2)] by blast
  have cov2: "creation_covered demo_names demo_envelope demo_entropy s2 st2" "session_covered demo_names s2 st2"
    using creation_found[OF e1] encrypt_covered[OF e1 demo_covered] by simp_all
  note cov3 = encrypt_covered[OF e2 cov2]
  have s2: "cs_id s2 = ''s1''" "cs_owner_id s2 = ''u1''"
    using e1 ensure_session f(3,4) by (auto simp: encrypt_message_def split: prod.splits sum.splits option.splits)
  have index: "next_message_index (map sr_message (st_rows demo_store)) ''s1'' = 1"
    by (simp add: next_message_index_def demo_store_def)
  have steps: "(env_step demo_names demo_envelope (\<lambda>_. ''u1''))\<^sup>*\<^sup>* demo_state st3"
    using step_encrypt[where owner = "\<lambda>_. ''u1''", OF demo_entropy_ok _ demo_covered e1]
      step_encrypt[where owner = "\<lambda>_. ''u1''", OF demo_entropy_ok _ cov2 e2] f(4) s2(2)
    by (meson converse_rtranclp_into_rtranclp r_into_rtranclp)
  have "\<exists>u a store'. chat demo_envelope demo_ai_service demo_readings demo_chat_input ''public'' demo_session demo_store demo_ai_world =
       (Inr (u, a, latin ''ok'', []), s2, store', w') \<and> sr_id u = 1 \<and> sr_id a = 2 \<and> st_keys store' = st3"
    using gen e1 e2 f(2,3) s2(1) index unfolding chat_def req
    by (simp add: encrypt_row_def add_rows_def demo_store_def demo_readings_def demo_encryption_def Let_def
        format_user_message_with_file_def demo_chat_input_def)
  moreover have "session_covered demo_names demo_session st3"
    using session_covered_cong[OF cov3, of demo_session st3] s2 f(3,4) by simp
  ultimately show ?thesis using that steps sent by blast
qed

lemma demo_readings_ok:
  "entropy_ok (ei_entropy (cr_user demo_readings))" "length (ei_nonce (cr_user demo_readings)) = 12"
  "entropy_ok (ei_entropy (cr_assistant demo_readings))" "length (ei_nonce (cr_assistant demo_readings)) = 12"
  "cs_owner_id demo_session = (\<lambda>_. ''u1'') (cs_id demo_session)" "st_keys demo_store = demo_state" "st_rows demo_store = []"
  using demo_entropy_ok by (simp_all add: demo_readings_def demo_encryption_def demo_session_def demo_store_def)

lemma demo_store_covered: "session_covered demo_names demo_session (st_keys demo_store)"
  "creation_covered demo_names demo_envelope (ei_entropy (cr_user demo_readings)) demo_session (st_keys demo_store)"
  using demo_covered by (simp_all add: demo_readings_def demo_encryption_def demo_store_def)

theorem chat_exchange_stored_witness:
  "\<exists>u a s' store' w'.
     chat demo_envelope demo_ai_service demo_readings demo_chat_input ''public'' demo_session demo_store demo_ai_world =
       (Inr (u, a, latin ''ok'', []), s', store', w') \<and>
     st_rows store' = [u, a] \<and> sm_index (sr_message a) = sm_index (sr_message u) + 1 \<and>
     fst (read_row demo_envelope (7, 8) demo_session a (st_keys store')) =
       Inr \<lparr>mv_id = sr_id a, mv_session = ''s1'', mv_role = ''assistant'', mv_body = latin ''ok'', mv_created = sr_created a\<rparr>"
proof -
  obtain u a s' store' w' where run:
    "chat demo_envelope demo_ai_service demo_readings demo_chat_input ''public'' demo_session demo_store demo_ai_world =
       (Inr (u, a, latin ''ok'', []), s', store', w')"
    and covd: "session_covered demo_names demo_session (st_keys store')"
    by (rule demo_exchange)
  have start: "(env_step demo_names demo_envelope (\<lambda>_. ''u1''))\<^sup>*\<^sup>* demo_state (st_keys demo_store)"
    using demo_readings_ok(6) by simp
  have "cs_id demo_session = ''s1''" by (simp add: demo_session_def)
  then show ?thesis
    using chat_exchange_stored[where owner = "\<lambda>_. ''u1''" and clk = "(7, 8)", OF demo_sound demo_aead_correct
        demo_aead_binding demo_digest_inj demo_envelope_init demo_state_simps(1,2) start demo_readings_ok(1-5) demo_store_covered run
        rtranclp.rtrancl_refl covd]
      run demo_readings_ok(7) by auto
qed

theorem search_is_filter_witness:
  "\<exists>rows st m st'. search_message_page ascii_unicode demo_envelope (\<lambda>_. (3, 4)) demo_session (latin ''OK'') 0 10 rows st = (Inr ([m], 1), st') \<and>
     mv_body m = latin ''ok'' \<and> length rows = 2"
proof -
  obtain u a s' store' w' where run:
    "chat demo_envelope demo_ai_service demo_readings demo_chat_input ''public'' demo_session demo_store demo_ai_world =
       (Inr (u, a, latin ''ok'', []), s', store', w')"
    and ids: "sr_id u = 1" "sr_id a = 2" and steps: "(env_step demo_names demo_envelope (\<lambda>_. ''u1''))\<^sup>*\<^sup>* demo_state (st_keys store')"
    and covd: "session_covered demo_names demo_session (st_keys store')"
    by (rule demo_exchange)
  have cache: "cache_inv demo_names demo_envelope (st_keys store')"
    using sound_steps_keep[OF demo_env(3,2) steps] demo_state_simps(2,4) by (simp add: keeps_keys_def)
  have start: "(env_step demo_names demo_envelope (\<lambda>_. ''u1''))\<^sup>*\<^sup>* demo_state (st_keys demo_store)"
    using demo_readings_ok(6) by simp
  have id: "cs_id demo_session = ''s1''" "cs_security_mode demo_session \<noteq> ''private_e2ee''" by (simp_all add: demo_session_def)
  define mu where "mu = \<lparr>mv_id = sr_id u, mv_session = ''s1'', mv_role = ''user'', mv_body = latin ''hi'', mv_created = sr_created u\<rparr>"
  define ma where "ma = \<lparr>mv_id = sr_id a, mv_session = ''s1'', mv_role = ''assistant'', mv_body = latin ''ok'', mv_created = sr_created a\<rparr>"
  have reads: "fst (read_row demo_envelope (0, 0) demo_session u (st_keys store')) = Inr mu"
      "fst (read_row demo_envelope (0, 0) demo_session a (st_keys store')) = Inr ma" and rows: "st_rows store' = [u, a]"
    using chat_exchange_rows[where owner = "\<lambda>_. ''u1''" and clk = "(0, 0)", OF demo_sound demo_aead_correct
        demo_aead_binding demo_digest_inj demo_envelope_init demo_state_simps(1,2) start demo_readings_ok(1-5) demo_store_covered run
        rtranclp.rtrancl_refl covd]
      demo_readings_ok(7) id(1) by (simp_all add: mu_def ma_def format_user_message_with_file_def demo_chat_input_def)
  have sess: "sm_session_id (sr_message u) = ''s1''" "sm_session_id (sr_message a) = ''s1''"
    using reads by (auto simp: read_row_def mu_def ma_def split: prod.splits sum.splits)
  have "session_messages (cs_id demo_session) [u, a] = [u, a]"
    using sess ids by (simp add: session_messages_def id(1))
  then have hold: "rows_hold demo_envelope demo_session (st_keys store') (session_messages (cs_id demo_session) [u, a]) [mu, ma]"
    using reads by (simp add: rows_hold_def)
  have "body_contains ascii_unicode (casefold ascii_unicode (latin ''OK'')) ma" "\<not> body_contains ascii_unicode (casefold ascii_unicode (latin ''OK'')) mu"
    unfolding body_contains_def mu_def ma_def message_view.simps by code_simp+
  then have hits: "[ma] = filter (body_contains ascii_unicode (casefold ascii_unicode (latin ''OK''))) [mu, ma]"
    by simp
  obtain st' where "search_message_page ascii_unicode demo_envelope (\<lambda>_. (3, 4)) demo_session (latin ''OK'') 0 10 [u, a] (st_keys store') =
      (Inr (take 10 (drop 0 [ma]), length [ma]), st')"
    using search_is_filter[OF demo_env(2) cache covd id(2) hold hits] by blast
  moreover have "mv_body ma = latin ''ok''" by (simp add: ma_def)
  ultimately show ?thesis
    by (intro exI[of _ "[u, a]"] exI[of _ "st_keys store'"] exI[of _ ma] exI[of _ st']) simp
qed

end
