(* ===== verification/Messaging.thy ===== *)
theory Messaging
  imports Chat_Service Conversations Monitor
begin

text \<open>
  The message routes of \<^verbatim>\<open>src/app/main.py\<close>: sending a message to the assistant, and reading, paging and
  searching the messages of a conversation, with their guards, quotas, limits and audit events.

  The state joins the tables of the guards (\<open>me_db\<close>), the key columns of the conversation rows, the stored messages,
  the recorded consents, the AI service's world, the limiters and the availability monitor. A request that
  fails with an exception no handler catches is answered with 500 and rolled back; the key cache stays.
\<close>

record messaging =
  me_db :: chat_db
  me_keys :: "(string, chat_session) pydict"
  me_store :: chat_store
  me_consents :: "(string, bool \<times> string \<times> time option) pydict"
  me_ai :: ai_world
  me_limiter :: limiter
  me_search_limiter :: limiter
  me_monitor :: monitor

record message_settings =
  mq_max_messages :: nat
  mq_attempts :: int
  mq_window :: int
  mq_consent_version :: string

text \<open>The conversation row as the envelope layer sees it.\<close>

definition session_of :: "string \<Rightarrow> conversation \<Rightarrow> messaging \<Rightarrow> chat_session" where
  "session_of sid c me =
     (case dict_get (me_keys me) sid of
        Some k \<Rightarrow> k\<lparr>cs_id := sid, cs_owner_id := cv_owner c, cs_security_mode := cv_mode c, cs_epoch := cv_epoch c\<rparr>
      | None \<Rightarrow> \<lparr>cs_id = sid, cs_owner_id = cv_owner c, cs_security_mode = cv_mode c, cs_epoch = cv_epoch c,
                 cs_crypto_suite = cv_suite c, cs_wrapped_dek = None, cs_kek_uri = None, cs_kek_version = None\<rparr>)"

definition audit_message :: "string \<Rightarrow> string \<Rightarrow> string \<Rightarrow> string \<Rightarrow> messaging \<Rightarrow> messaging" where
  "audit_message event uid outcome detail me = me\<lparr>me_db := audit_chat event uid outcome detail (me_db me)\<rparr>"

text \<open>The guard may delete an expired conversation; its messages go with it.\<close>

definition cascade_messages :: "messaging \<Rightarrow> messaging" where
  "cascade_messages me =
     me\<lparr>me_store := (me_store me)\<lparr>st_rows :=
          filter (\<lambda>r. dict_has (cd_sessions (me_db me)) (sm_session_id (sr_message r))) (st_rows (me_store me))\<rparr>\<rparr>"

definition guard_owner ::
  "auth_settings \<Rightarrow> claims option \<Rightarrow> string \<Rightarrow> string \<Rightarrow> bool \<Rightarrow> time \<Rightarrow> messaging \<Rightarrow> (nat + conversation) \<times> messaging" where
  "guard_owner cfg token uid sid for_update now me =
     (case require_owned_session cfg token uid sid for_update False False now (me_db me) of
        (r, db1) \<Rightarrow> (r, cascade_messages (me\<lparr>me_db := db1\<rparr>)))"

definition message_count :: "string \<Rightarrow> messaging \<Rightarrow> nat" where
  "message_count sid me = length (session_messages sid (st_rows (me_store me)))"

record message_send =
  sd_body :: ustr
  sd_confirm :: bool
  sd_sanitize :: bool
  sd_file_name :: "ustr option"
  sd_file_content :: "ustr option"

definition chat_input_of :: "message_settings \<Rightarrow> message_send \<Rightarrow> string \<Rightarrow> messaging \<Rightarrow> chat_input" where
  "chat_input_of ms payload uid me =
     (let (given, version, since) = dict_get_or (me_consents me) uid (False, [], None);
          both = (sd_file_name payload \<noteq> None \<and> sd_file_content payload \<noteq> None)
      in \<lparr>ci_body = sd_body payload,
          ci_allow_external = (given \<and> version = mq_consent_version ms),
          ci_confirm = sd_confirm payload, ci_sanitize = sd_sanitize payload, ci_consent_since = since,
          ci_file_name = (if both then sd_file_name payload else None),
          ci_file_content = (if both then sd_file_content payload else None)\<rparr>)"

text \<open>The handlers of the exceptions of \<^verbatim>\<open>chat_service.chat\<close>; \<open>me0\<close> is the state to roll back to.\<close>

definition send_failure :: "string \<Rightarrow> time \<Rightarrow> chat_error \<Rightarrow> messaging \<Rightarrow> messaging \<Rightarrow> nat \<times> messaging" where
  "send_failure uid now err me0 me =
     (case err of
        Ai_Failed (Policy_Violation action categories) \<Rightarrow>
          (if action = CONFIRM then 409 else 422,
           audit_message ''dlp.policy'' uid (if action = CONFIRM then ''denied'' else ''blocked'') (action_value action) me)
      | Permission_Denied \<Rightarrow> (403, audit_message ''chat.message.send'' uid ''denied'' ''policy_or_consent_required'' me)
      | Ai_Failed Consent_Required \<Rightarrow> (403, audit_message ''chat.message.send'' uid ''denied'' ''policy_or_consent_required'' me)
      | Ai_Failed (Provider_Busy retry) \<Rightarrow>
          (503, audit_message ''chat.message.send'' uid ''failure'' ''ai_provider_busy''
                  (me\<lparr>me_monitor := snd (mo_reject ''ai_capacity_or_quota'' now (me_monitor me))\<rparr>))
      | Ai_Failed Provider_Unavailable \<Rightarrow>
          (503, audit_message ''chat.message.send'' uid ''failure'' ''ai_provider_unavailable'' me)
      | _ \<Rightarrow>
          (500, me\<lparr>me_db := me_db me0, me_keys := me_keys me0,
                   me_store := (me_store me0)\<lparr>st_keys := (st_keys (me_store me))\<lparr>es_epochs := es_epochs (st_keys (me_store me0))\<rparr>\<rparr>\<rparr>))"

definition send_success :: "string \<Rightarrow> string \<Rightarrow> time \<Rightarrow> conversation \<Rightarrow> stored_row \<Rightarrow> stored_row \<Rightarrow> ustr list \<Rightarrow> messaging \<Rightarrow> messaging" where
  "send_success uid sid now c u a labels me =
     (let db = set_conversation sid (c\<lparr>cv_updated := now\<rparr>) (me_db me);
          db = db\<lparr>cd_messages := dict_set (show_int (sr_id a)) sid (dict_set (show_int (sr_id u)) sid (cd_messages db))\<rparr>;
          me = audit_message ''chat.message.send'' uid ''success'' [] (me\<lparr>me_db := db\<rparr>)
      in if labels = [] then me else audit_message ''dlp.redacted'' uid ''success'' [] me)"

definition send_message_endpoint ::
  "auth_settings \<Rightarrow> message_settings \<Rightarrow> envelope \<Rightarrow> ai_service \<Rightarrow> chat_readings \<Rightarrow> claims option \<Rightarrow> string \<Rightarrow> string \<Rightarrow>
   message_send \<Rightarrow> time \<Rightarrow> messaging \<Rightarrow> (nat + stored_row \<times> ustr \<times> ustr list) \<times> messaging" where
  "send_message_endpoint cfg ms ev sv rd token uid sid payload now me =
     (case guard_owner cfg token uid sid True now me of
        (Inl e, me1) \<Rightarrow> (Inl e, me1)
      | (Inr c, me1) \<Rightarrow>
          if message_count sid me1 + 2 > mq_max_messages ms
          then (Inl 409, audit_message ''chat.message.send'' uid ''blocked'' ''message_quota'' me1)
          else
            (case rl_allow (''message:'' @ uid) (mq_attempts ms) (mq_window ms) now (me_limiter me1) of
               (Inl _, lm) \<Rightarrow> (Inl 500, me1\<lparr>me_limiter := lm\<rparr>)
             | (Inr (allowed, retry_after), lm) \<Rightarrow>
                 (let me2 = me1\<lparr>me_limiter := lm\<rparr>
                  in if \<not> allowed then (Inl 429, audit_message ''chat.message.send'' uid ''blocked'' ''rate_limit'' me2)
                     else
                       (case chat ev sv rd (chat_input_of ms payload uid me2) (cv_classification c) (session_of sid c me2)
                               (me_store me2) (me_ai me2) of
                          (Inl err, s', store', ai') \<Rightarrow>
                            (case send_failure uid now err me2
                                    (me2\<lparr>me_keys := dict_set sid s' (me_keys me2), me_store := store', me_ai := ai'\<rparr>) of
                               (status, me3) \<Rightarrow> (Inl status, me3))
                        | (Inr (u, a, response, labels), s', store', ai') \<Rightarrow>
                            (Inr (a, response, labels),
                             send_success uid sid now (c\<lparr>cv_epoch := cs_epoch s', cv_suite := cs_crypto_suite s'\<rparr>) u a labels
                               (me2\<lparr>me_keys := dict_set sid s' (me_keys me2), me_store := store', me_ai := ai'\<rparr>))))))"

section \<open>Reading routes\<close>

definition SEARCH_MAX_ATTEMPTS :: int where "SEARCH_MAX_ATTEMPTS = 30"
definition SEARCH_WINDOW_SECONDS :: int where "SEARCH_WINDOW_SECONDS = 60"

text \<open>\<^verbatim>\<open>throttle_search\<close>: the error it raises, if any.\<close>

definition throttle_search :: "string \<Rightarrow> time \<Rightarrow> messaging \<Rightarrow> nat option \<times> messaging" where
  "throttle_search uid now me =
     (case rl_allow (''search:'' @ uid) SEARCH_MAX_ATTEMPTS SEARCH_WINDOW_SECONDS now (me_search_limiter me) of
        (Inl _, lm) \<Rightarrow> (Some 500, me\<lparr>me_search_limiter := lm\<rparr>)
      | (Inr (allowed, _), lm) \<Rightarrow>
          if allowed then (None, me\<lparr>me_search_limiter := lm\<rparr>)
          else (Some 429, audit_message ''chat.message.search'' uid ''blocked'' ''rate_limit'' (me\<lparr>me_search_limiter := lm\<rparr>)))"

definition set_key_state :: "env_state \<Rightarrow> messaging \<Rightarrow> messaging" where
  "set_key_state st me = me\<lparr>me_store := (me_store me)\<lparr>st_keys := st\<rparr>\<rparr>"

definition get_messages_endpoint ::
  "auth_settings \<Rightarrow> unicode \<Rightarrow> envelope \<Rightarrow> (nat \<Rightarrow> time \<times> time) \<Rightarrow> claims option \<Rightarrow> string \<Rightarrow> string \<Rightarrow> ustr option \<Rightarrow> time \<Rightarrow>
   messaging \<Rightarrow> (nat + message_view list) \<times> messaging" where
  "get_messages_endpoint cfg U ev clk token uid sid query now me =
     (case guard_owner cfg token uid sid False now me of
        (Inl e, me1) \<Rightarrow> (Inl e, me1)
      | (Inr c, me1) \<Rightarrow>
          (case (if query = None then (None, me1) else throttle_search uid now me1) of
             (Some e, me2) \<Rightarrow> (Inl e, me2)
           | (None, me2) \<Rightarrow>
               (case list_messages U ev clk (session_of sid c me2) query None 0 (st_rows (me_store me2)) (st_keys (me_store me2)) of
                  (Inl Permission_Denied, st) \<Rightarrow> (Inl 409, set_key_state st me2)
                | (Inl _, st) \<Rightarrow> (Inl 500, set_key_state st me2)
                | (Inr messages, st) \<Rightarrow> (Inr messages, set_key_state st me2))))"

definition get_message_page ::
  "auth_settings \<Rightarrow> unicode \<Rightarrow> envelope \<Rightarrow> (nat \<Rightarrow> time \<times> time) \<Rightarrow> claims option \<Rightarrow> string \<Rightarrow> string \<Rightarrow> nat \<Rightarrow> nat \<Rightarrow> ustr option \<Rightarrow> time \<Rightarrow>
   messaging \<Rightarrow> (nat + message_view page) \<times> messaging" where
  "get_message_page cfg U ev clk token uid sid offset limit query now me =
     (case guard_owner cfg token uid sid False now me of
        (Inl e, me1) \<Rightarrow> (Inl e, me1)
      | (Inr c, me1) \<Rightarrow>
          if cv_mode c = ''private_e2ee'' then (Inl 403, me1)
          else
            (case query of
               None \<Rightarrow>
                 (case list_messages U ev clk (session_of sid c me1) None (Some limit) offset (st_rows (me_store me1)) (st_keys (me_store me1)) of
                    (Inl _, st) \<Rightarrow> (Inl 500, set_key_state st me1)
                  | (Inr messages, st) \<Rightarrow>
                      (Inr (page_result messages (message_count sid me1) offset limit),
                       audit_message ''chat.message.list'' uid ''success'' (show_nat (length messages)) (set_key_state st me1)))
             | Some q \<Rightarrow>
                 (case throttle_search uid now me1 of
                    (Some e, me2) \<Rightarrow> (Inl e, me2)
                  | (None, me2) \<Rightarrow>
                      (case search_message_page U ev clk (session_of sid c me2) q offset limit (st_rows (me_store me2)) (st_keys (me_store me2)) of
                         (Inl _, st) \<Rightarrow> (Inl 500, set_key_state st me2)
                       | (Inr (messages, found), st) \<Rightarrow>
                           (Inr (page_result messages found offset limit),
                            audit_message ''chat.message.search'' uid ''success'' (show_nat (length messages)) (set_key_state st me2))))))"

record search_hit =
  sh_session :: string
  sh_title :: string
  sh_message :: message_view

definition hits_of :: "string \<times> conversation \<Rightarrow> message_view list \<Rightarrow> search_hit list" where
  "hits_of row messages = map (\<lambda>m. \<lparr>sh_session = fst row, sh_title = cv_title (snd row), sh_message = m\<rparr>) messages"

text \<open>The loop over the conversations with its two \<^verbatim>\<open>break\<close>s; \<open>None\<close> is a failed decryption.\<close>

fun global_search_loop ::
  "unicode \<Rightarrow> envelope \<Rightarrow> (string \<Rightarrow> nat \<Rightarrow> time \<times> time) \<Rightarrow> messaging \<Rightarrow> ustr \<Rightarrow> nat \<Rightarrow> (string \<times> conversation) list \<Rightarrow>
   search_hit list \<Rightarrow> env_state \<Rightarrow> search_hit list option \<times> env_state" where
  "global_search_loop U ev clk me q limit [] results st = (Some results, st)"
| "global_search_loop U ev clk me q limit ((sid, c) # rows) results st =
     (if cv_mode c = ''private_e2ee'' then global_search_loop U ev clk me q limit rows results st
      else
        (case list_messages U ev (clk sid) (session_of sid c me) (Some q) None 0 (st_rows (me_store me)) st of
           (Inl _, st') \<Rightarrow> (None, st')
         | (Inr messages, st') \<Rightarrow>
             (let results' = take limit (results @ hits_of (sid, c) messages)
              in if length results' \<ge> limit then (Some results', st')
                 else global_search_loop U ev clk me q limit rows results' st')))"

definition global_search_endpoint ::
  "auth_settings \<Rightarrow> unicode \<Rightarrow> envelope \<Rightarrow> (string \<Rightarrow> nat \<Rightarrow> time \<times> time) \<Rightarrow> string \<Rightarrow> ustr \<Rightarrow> nat \<Rightarrow> time \<Rightarrow> messaging \<Rightarrow>
   (nat + search_hit list) \<times> messaging" where
  "global_search_endpoint cfg U ev clk uid q limit now me =
     (case throttle_search uid now me of
        (Some e, me1) \<Rightarrow> (Inl e, me1)
      | (None, me1) \<Rightarrow>
          (case global_search_loop U ev clk me1 q limit (list_sessions_endpoint cfg uid now (me_db me1)) [] (st_keys (me_store me1)) of
             (None, st) \<Rightarrow> (Inl 500, set_key_state st me1)
           | (Some results, st) \<Rightarrow>
               (Inr results, audit_message ''chat.message.search'' uid ''success'' (show_nat (length results)) (set_key_state st me1))))"

fun global_page_loop ::
  "unicode \<Rightarrow> envelope \<Rightarrow> (string \<Rightarrow> nat \<Rightarrow> time \<times> time) \<Rightarrow> messaging \<Rightarrow> ustr \<Rightarrow> nat \<Rightarrow> nat \<Rightarrow> (string \<times> conversation) list \<Rightarrow>
   search_hit list \<Rightarrow> nat \<Rightarrow> env_state \<Rightarrow> (search_hit list \<times> nat) option \<times> env_state" where
  "global_page_loop U ev clk me q offset limit [] results found st = (Some (results, found), st)"
| "global_page_loop U ev clk me q offset limit ((sid, c) # rows) results found st =
     (case search_message_page U ev (clk sid) (session_of sid c me) q (offset - found) (limit - length results)
             (st_rows (me_store me)) st of
        (Inl _, st') \<Rightarrow> (None, st')
      | (Inr (matches, n), st') \<Rightarrow>
          global_page_loop U ev clk me q offset limit rows (results @ hits_of (sid, c) matches) (found + n) st')"

definition searchable :: "auth_settings \<Rightarrow> string \<Rightarrow> time \<Rightarrow> chat_db \<Rightarrow> (string \<times> conversation) list" where
  "searchable cfg uid now db = newest_first (filter (\<lambda>(_, c). cv_mode c \<noteq> ''private_e2ee'') (visible cfg uid now db))"

definition global_search_page ::
  "auth_settings \<Rightarrow> unicode \<Rightarrow> envelope \<Rightarrow> (string \<Rightarrow> nat \<Rightarrow> time \<times> time) \<Rightarrow> string \<Rightarrow> ustr \<Rightarrow> nat \<Rightarrow> nat \<Rightarrow> time \<Rightarrow> messaging \<Rightarrow>
   (nat + search_hit page) \<times> messaging" where
  "global_search_page cfg U ev clk uid q offset limit now me =
     (case throttle_search uid now me of
        (Some e, me1) \<Rightarrow> (Inl e, me1)
      | (None, me1) \<Rightarrow>
          (case global_page_loop U ev clk me1 q offset limit (searchable cfg uid now (me_db me1)) [] 0 (st_keys (me_store me1)) of
             (None, st) \<Rightarrow> (Inl 500, set_key_state st me1)
           | (Some (results, found), st) \<Rightarrow>
               (Inr (page_result results found offset limit),
                audit_message ''chat.message.search'' uid ''success'' (show_nat (length results)) (set_key_state st me1))))"

section \<open>Searching all conversations\<close>

lemma window_append:
  "window_of offset limit xs @ take (limit - length (window_of offset limit xs)) (drop (offset - length xs) ys) =
   window_of offset limit (xs @ ys)"
  by (simp add: window_of_def min_def)

lemma hits_of_window: "hits_of row (take n (drop k ms)) = take n (drop k (hits_of row ms))"
  by (simp add: hits_of_def take_map drop_map)

lemma length_hits_of [simp]: "length (hits_of row ms) = length ms"
  by (simp add: hits_of_def)

lemma session_of_simps [simp]:
  "cs_id (session_of sid c me) = sid" "cs_security_mode (session_of sid c me) = cv_mode c" "cs_owner_id (session_of sid c me) = cv_owner c"
  by (simp_all add: session_of_def split: option.split)

text \<open>All matches of the query in the conversations \<open>rows\<close>, when conversation \<open>sid\<close> holds \<open>held sid\<close>.\<close>

definition all_hits :: "unicode \<Rightarrow> ustr \<Rightarrow> (string \<Rightarrow> message_view list) \<Rightarrow> (string \<times> conversation) list \<Rightarrow> search_hit list" where
  "all_hits U q held rows = concat (map (\<lambda>row. hits_of row (filter (body_contains U (casefold U q)) (held (fst row)))) rows)"

definition conversations_hold ::
  "envelope \<Rightarrow> messaging \<Rightarrow> env_state \<Rightarrow> (string \<Rightarrow> message_view list) \<Rightarrow> (string \<times> conversation) list \<Rightarrow> bool" where
  "conversations_hold ev me st held rows \<longleftrightarrow>
     (\<forall>(sid, c)\<in>set rows. rows_hold ev (session_of sid c me) st (session_messages sid (st_rows (me_store me))) (held sid))"

definition conversations_covered :: "key_name set \<Rightarrow> messaging \<Rightarrow> env_state \<Rightarrow> (string \<times> conversation) list \<Rightarrow> bool" where
  "conversations_covered W me st rows \<longleftrightarrow> (\<forall>(sid, c)\<in>set rows. session_covered W (session_of sid c me) st)"

lemma search_page_any_cache:
  assumes "env_ok W ev" "cache_inv W ev st0" "session_covered W s st0" "cs_security_mode s \<noteq> ''private_e2ee''"
    and "rows_hold ev s st0 (session_messages (cs_id s) rows) ms" and "cache_inv W ev st" "es_epochs st = es_epochs st0"
  shows "\<exists>st'. search_message_page U ev clk s query offset limit rows st =
      (Inr (window_of offset limit (filter (body_contains U (casefold U query)) ms),
            length (filter (body_contains U (casefold U query)) ms)), st') \<and> cache_inv W ev st' \<and> es_epochs st' = es_epochs st0"
proof -
  have "window_of offset limit (filter P (take 0 ms)) = []" for P :: "message_view \<Rightarrow> bool"
    by (simp add: window_of_def)
  then show ?thesis
    using search_pages_filter[OF assms, of U clk "casefold U query" offset limit 0]
    by (simp add: search_message_page_def)
qed

lemma global_page_loop_window:
  assumes ok: "env_ok W ev" "cache_inv W ev st0" and covered: "conversations_covered W me st0 rows" and rows: "\<forall>(sid, c)\<in>set rows. cv_mode c \<noteq> ''private_e2ee''"
    and hold: "conversations_hold ev me st0 held rows" and st: "cache_inv W ev st" "es_epochs st = es_epochs st0"
  shows "\<exists>st'. global_page_loop U ev clk me q offset limit rows (window_of offset limit prev) (length prev) st =
    (Some (window_of offset limit (prev @ all_hits U q held rows), length (prev @ all_hits U q held rows)), st')"
  using rows hold covered st
proof (induction rows arbitrary: prev st)
  case Nil
  then show ?case by (simp add: all_hits_def)
next
  case (Cons row rows)
  obtain sid c where row: "row = (sid, c)" by (cases row)
  let ?ms = "filter (body_contains U (casefold U q)) (held sid)"
  have hold: "rows_hold ev (session_of sid c me) st0 (session_messages (cs_id (session_of sid c me)) (st_rows (me_store me))) (held sid)"
    and mode: "cs_security_mode (session_of sid c me) \<noteq> ''private_e2ee''"
    and rest: "\<forall>(sid, c)\<in>set rows. cv_mode c \<noteq> ''private_e2ee''" "conversations_hold ev me st0 held rows"
      "conversations_covered W me st0 rows" and cov: "session_covered W (session_of sid c me) st0"
    using Cons.prems(1-3) row by (auto simp: conversations_hold_def conversations_covered_def)
  obtain st1 where search: "search_message_page U ev (clk sid) (session_of sid c me) q (offset - length prev)
        (limit - length (window_of offset limit prev)) (st_rows (me_store me)) st =
      (Inr (window_of (offset - length prev) (limit - length (window_of offset limit prev)) ?ms, length ?ms), st1)"
    and st1: "cache_inv W ev st1" "es_epochs st1 = es_epochs st0"
    using search_page_any_cache[OF ok cov mode hold Cons.prems(4,5)] by blast
  have acc: "window_of offset limit prev @ hits_of (sid, c)
      (window_of (offset - length prev) (limit - length (window_of offset limit prev)) ?ms) =
      window_of offset limit (prev @ hits_of (sid, c) ?ms)"
    using window_append[of offset limit prev "hits_of (sid, c) ?ms"] by (simp add: hits_of_window window_of_def)
  show ?case
    using Cons.IH[OF rest st1, of "prev @ hits_of (sid, c) ?ms"] search acc row by (simp add: all_hits_def add.assoc)
qed

lemma searchable_rows:
  assumes "(sid, c) \<in> set (searchable cfg uid now db)"
  shows "(sid, c) \<in> set (cd_sessions db) \<and> cv_owner c = uid \<and> retained now c \<and> cv_mode c \<noteq> ''private_e2ee''"
  using assms by (auto simp: searchable_def newest_first_def visible_def owned_retained_def Let_def)

lemma throttle_search_passes:
  assumes "throttle_search uid now me = (None, me1)"
  shows "me_db me1 = me_db me \<and> me_store me1 = me_store me \<and> me_keys me1 = me_keys me"
  using assms by (auto simp: throttle_search_def split: prod.splits sum.splits if_splits)

text \<open>The paged search over all conversations. A search that is not throttled returns the requested window, and
  the exact total, of all matches in the caller's own retained conversations that are not end-to-end private (newest
  conversation first, messages in order): a page may start and end inside different conversations. Every hit
  belongs to a conversation of the caller.\<close>

theorem global_search_window:
  assumes ok: "env_ok W ev" and cache: "cache_inv W ev (st_keys (me_store me))"
    and hold: "conversations_hold ev me (st_keys (me_store me)) held (searchable cfg uid now (me_db me))"
    and covered: "conversations_covered W me (st_keys (me_store me)) (searchable cfg uid now (me_db me))"
    and pass: "throttle_search uid now me = (None, me1)"
    and hits: "hits = all_hits U q held (searchable cfg uid now (me_db me))"
  shows "(\<exists>me'. global_search_page cfg U ev clk uid q offset limit now me =
      (Inr (page_result (take limit (drop offset hits)) (length hits) offset limit), me')) \<and>
    (\<forall>h\<in>set hits. \<exists>c. (sh_session h, c) \<in> set (cd_sessions (me_db me)) \<and> cv_owner c = uid \<and> retained now c \<and> cv_mode c \<noteq> ''private_e2ee'')"
proof
  let ?rows = "searchable cfg uid now (me_db me)"
  note same = throttle_search_passes[OF pass]
  have "conversations_hold ev me1 (st_keys (me_store me)) held ?rows"
    using hold same by (auto simp: conversations_hold_def session_of_def)
  moreover have "conversations_covered W me1 (st_keys (me_store me)) ?rows"
    using covered same by (auto simp: conversations_covered_def session_of_def)
  moreover have "\<forall>(sid, c)\<in>set ?rows. cv_mode c \<noteq> ''private_e2ee''"
    using searchable_rows by blast
  ultimately obtain st' where "global_page_loop U ev clk me1 q offset limit ?rows (window_of offset limit []) (length ([] :: search_hit list))
      (st_keys (me_store me)) = (Some (window_of offset limit ([] @ hits), length ([] @ hits)), st')"
    using global_page_loop_window[OF ok cache _ _ _ cache refl, of me1 ?rows held U clk q offset limit "[]"] hits by blast
  then show "\<exists>me'. global_search_page cfg U ev clk uid q offset limit now me =
      (Inr (page_result (take limit (drop offset hits)) (length hits) offset limit), me')"
    using pass same by (simp add: global_search_page_def window_of_def)
  show "\<forall>h\<in>set hits. \<exists>c. (sh_session h, c) \<in> set (cd_sessions (me_db me)) \<and> cv_owner c = uid \<and> retained now c \<and> cv_mode c \<noteq> ''private_e2ee''"
    using searchable_rows unfolding hits all_hits_def hits_of_def by fastforce
qed

section \<open>Sending\<close>

lemma audit_message_simps [simp]:
  "me_store (audit_message a b c d me) = me_store me" "me_ai (audit_message a b c d me) = me_ai me"
  "me_keys (audit_message a b c d me) = me_keys me" "me_consents (audit_message a b c d me) = me_consents me"
  by (simp_all add: audit_message_def)

lemma send_success_simps [simp]:
  "me_store (send_success uid sid now c u a labels me) = me_store me" "me_ai (send_success uid sid now c u a labels me) = me_ai me"
  by (simp_all add: send_success_def Let_def)

lemma send_failure_store:
  assumes "send_failure uid now err me0 me = (status, me')" "st_rows (me_store me) = st_rows (me_store me0)"
  shows "st_rows (me_store me') = st_rows (me_store me0) \<and> me_ai me' = me_ai me"
  using assms by (cases err) (auto simp: send_failure_def split: ai_error.splits)

lemma guard_owner_keeps:
  assumes "guard_owner cfg token uid sid upd now me = (r, me1)"
  shows "me_ai me1 = me_ai me \<and> me_consents me1 = me_consents me \<and>
    (\<exists>P. st_rows (me_store me1) = filter P (st_rows (me_store me)))"
  using assms by (auto simp: guard_owner_def cascade_messages_def split: prod.splits)

lemma guard_owner_allowed:
  assumes "guard_owner cfg token uid sid upd now me = (Inr c, me1)"
  shows "dict_get (cd_sessions (me_db me)) sid = Some c \<and> cv_owner c = uid \<and> retained now c"
proof -
  obtain r db1 where g: "require_owned_session cfg token uid sid upd False False now (me_db me) = (r, db1)"
    by (metis surj_pair)
  have "r = Inr c" using assms g by (simp add: guard_owner_def)
  with g show ?thesis by (cases rule: owned_session_cases) simp_all
qed

lemma guard_owner_same:
  assumes "guard_owner cfg token uid sid upd now me = (Inr c, me1)"
  shows "message_count sid me1 = message_count sid me" "me_limiter me1 = me_limiter me"
proof -
  obtain r db1 where g: "require_owned_session cfg token uid sid upd False False now (me_db me) = (r, db1)"
    by (metis surj_pair)
  have r: "r = Inr c" and me1: "me1 = cascade_messages (me\<lparr>me_db := db1\<rparr>)"
    using assms g by (simp_all add: guard_owner_def)
  have "dict_get (cd_sessions db1) sid = Some c"
    using g r by (cases rule: owned_session_cases) simp_all
  then have "session_messages sid (st_rows (me_store me1)) = session_messages sid (st_rows (me_store me))"
    by (auto simp: me1 cascade_messages_def session_messages_def dict_has_def intro!: filter_cong arg_cong[where f = "sort_key _"])
  then show "message_count sid me1 = message_count sid me" by (simp add: message_count_def)
  show "me_limiter me1 = me_limiter me" by (simp add: me1 cascade_messages_def)
qed

text \<open>The stages of a request: refused by the guard, the quota or the limiter, or handed to the service.\<close>

lemma send_stages:
  assumes "send_message_endpoint cfg ms ev sv rd token uid sid payload now me = (res, me')"
  obtains (refused) r me1 where "guard_owner cfg token uid sid True now me = (r, me1)"
      "me_store me' = me_store me1" "me_ai me' = me_ai me1" "\<exists>e. res = Inl e"
    | (handed) c me1 lm out s' store' ai' where "guard_owner cfg token uid sid True now me = (Inr c, me1)"
      "message_count sid me1 + 2 \<le> mq_max_messages ms"
      "\<exists>retry. rl_allow (''message:'' @ uid) (mq_attempts ms) (mq_window ms) now (me_limiter me1) = (Inr (True, retry), lm)"
      "chat ev sv rd (chat_input_of ms payload uid (me1\<lparr>me_limiter := lm\<rparr>)) (cv_classification c) (session_of sid c (me1\<lparr>me_limiter := lm\<rparr>))
         (me_store me1) (me_ai me1) = (out, s', store', ai')"
      "me_ai me' = ai'" "case out of Inl e \<Rightarrow> st_rows (me_store me') = st_rows (me_store me1) | Inr _ \<Rightarrow> me_store me' = store'"
proof -
  obtain r me1 where g: "guard_owner cfg token uid sid True now me = (r, me1)" by (metis surj_pair)
  show ?thesis
  proof (cases "\<exists>c. r = Inr c \<and> message_count sid me1 + 2 \<le> mq_max_messages ms")
    case False
    then show ?thesis
      using assms g refused[OF g] by (cases r) (auto simp: send_message_endpoint_def)
  next
    case True
    then obtain c where c: "r = Inr c" "message_count sid me1 + 2 \<le> mq_max_messages ms" by blast
    obtain al lm where l: "rl_allow (''message:'' @ uid) (mq_attempts ms) (mq_window ms) now (me_limiter me1) = (al, lm)" by (metis surj_pair)
    show ?thesis
    proof (cases "\<exists>retry. al = Inr (True, retry)")
      case False
      then have "me_store me' = me_store me1 \<and> me_ai me' = me_ai me1 \<and> (\<exists>e. res = Inl e)"
        using assms g c l by (cases al) (auto simp: send_message_endpoint_def Let_def split: prod.splits if_splits)
      then show ?thesis using refused[OF g] by blast
    next
      case True
      then have rate: "\<exists>retry. rl_allow (''message:'' @ uid) (mq_attempts ms) (mq_window ms) now (me_limiter me1) = (Inr (True, retry), lm)"
        using l by simp
      let ?me2 = "me1\<lparr>me_limiter := lm\<rparr>"
      obtain out s' store' ai' where ch: "chat ev sv rd (chat_input_of ms payload uid ?me2) (cv_classification c) (session_of sid c ?me2)
         (me_store me1) (me_ai me1) = (out, s', store', ai')" by (metis prod_cases4)
      let ?me3 = "?me2\<lparr>me_keys := dict_set sid s' (me_keys me1), me_store := store', me_ai := ai'\<rparr>"
      note run = assms[unfolded send_message_endpoint_def g prod.case c(1) sum.case]
      show ?thesis
      proof (cases out)
        case (Inl err)
        obtain status me3 where f: "send_failure uid now err ?me2 ?me3 = (status, me3)" by (metis surj_pair)
        have "me' = me3"
          using run c(2) l True ch Inl f by (auto simp: Let_def)
        moreover have "st_rows store' = st_rows (me_store me1)"
          using chat_Inl ch Inl by blast
        ultimately show ?thesis
          using handed[OF g[unfolded c(1)] c(2) rate ch] send_failure_store[OF f] Inl by simp
      next
        case (Inr x)
        have "me_store me' = store' \<and> me_ai me' = ai'"
          using run c(2) l True ch Inr by (cases x) (auto simp: Let_def)
        then show ?thesis
          using handed[OF g[unfolded c(1)] c(2) rate ch] Inr by simp
      qed
    qed
  qed
qed

lemma session_messages_length: "length (session_messages sid rows) = length (filter (\<lambda>r. sm_session_id (sr_message r) = sid) rows)"
  by (simp add: session_messages_def)

definition quota_inv :: "message_settings \<Rightarrow> messaging \<Rightarrow> bool" where
  "quota_inv ms me \<longleftrightarrow> (\<forall>sid. message_count sid me \<le> mq_max_messages ms)"

lemma length_filter_twice: "length (filter Q (filter P xs)) \<le> length (filter Q xs)"
  by (induction xs) auto

lemma quota_filter:
  assumes "quota_inv ms me" "st_rows (me_store me1) = filter P (st_rows (me_store me))"
  shows "quota_inv ms me1"
proof -
  have "message_count sid me1 \<le> message_count sid me" for sid
    unfolding message_count_def session_messages_length assms(2) by (rule length_filter_twice)
  then show ?thesis
    using assms(1) le_trans unfolding quota_inv_def by blast
qed

lemma send_keeps_quota:
  assumes inv: "quota_inv ms me" and run: "send_message_endpoint cfg ms ev sv rd token uid sid payload now me = (res, me')"
  shows "quota_inv ms me'"
  using run
proof (cases rule: send_stages)
  case (refused r me1)
  then show ?thesis
    using quota_filter[OF inv] guard_owner_keeps[OF refused(1)] by metis
next
  case (handed c me1 lm out s' store' ai')
  obtain P where P: "st_rows (me_store me1) = filter P (st_rows (me_store me))"
    using guard_owner_keeps[OF handed(1)] by blast
  note inv1 = quota_filter[OF inv P]
  show ?thesis
  proof (cases out)
    case (Inl e)
    then show ?thesis using handed(6) inv1 by (simp add: quota_inv_def message_count_def)
  next
    case (Inr x)
    obtain u a response labels where x: "x = (u, a, response, labels)" by (cases x)
    from handed(4)[unfolded Inr x] have "st_rows store' = st_rows (me_store me1) @ [u, a] \<and>
        sm_session_id (sr_message u) = sid \<and> sm_session_id (sr_message a) = sid"
      by (rule chat_Inr) (elim encrypt_row_Inr, simp)
    then have "message_count k me' = message_count k me1 + (if k = sid then 2 else 0)" for k
      using handed(6) Inr by (simp add: message_count_def session_messages_length)
    then show ?thesis
      using inv1 handed(2) by (simp add: quota_inv_def)
  qed
qed

text \<open>A request with everything that comes with it.\<close>

record send_request =
  rs_token :: "claims option"
  rs_uid :: string
  rs_sid :: string
  rs_payload :: message_send
  rs_now :: time
  rs_readings :: chat_readings

definition send_step :: "auth_settings \<Rightarrow> message_settings \<Rightarrow> envelope \<Rightarrow> ai_service \<Rightarrow> send_request \<Rightarrow> messaging \<Rightarrow> messaging" where
  "send_step cfg ms ev sv r me =
     snd (send_message_endpoint cfg ms ev sv (rs_readings r) (rs_token r) (rs_uid r) (rs_sid r) (rs_payload r) (rs_now r) me)"

interpretation sends: stateful "send_step cfg ms ev sv" "quota_inv ms" for cfg ms ev sv
proof unfold_locales
  show "quota_inv ms me \<Longrightarrow> quota_inv ms (send_step cfg ms ev sv r me)" for me r
    unfolding send_step_def using send_keeps_quota by (metis prod.collapse)
qed

text \<open>C22: Over any sequence of requests, by any users on any conversations, whatever fails in between, no
  conversation ever holds more messages than the configured maximum.\<close>

theorem message_quota_kept:
  assumes "quota_inv ms me"
  shows "message_count sid (run_ops (send_step cfg ms ev sv) requests me) \<le> mq_max_messages ms"
  using sends.run_inv[OF assms] by (simp add: quota_inv_def)

lemma chat_input_consent:
  "ci_allow_external (chat_input_of ms payload uid me) \<Longrightarrow> \<exists>since. dict_get (me_consents me) uid = Some (True, mq_consent_version ms, since)"
  "ci_body (chat_input_of ms payload uid me) = sd_body payload" "ci_confirm (chat_input_of ms payload uid me) = sd_confirm payload"
  by (auto simp: chat_input_of_def dict_get_or_def Let_def split: prod.splits option.splits)

lemma chat_egress:
  assumes sc: "ai_scanner U M digest custom_terms = Inr (sv_scanner sv)"
    and run: "chat ev sv rd inp cls s store w = (res, s', store', w')"
  shows "aw_sent w' = aw_sent w \<or>
    (\<exists>p declared. aw_sent w' = aw_sent w @ [prompt_text p] \<and> consent_given (chat_request inp cls) declared \<and> declared \<noteq> E2EE_PRIVATE \<and>
       cs_security_mode s \<noteq> ''private_e2ee'' \<and>
       safe_copy (sv_scanner sv) (chat_request inp cls) declared [] (ci_body inp) (pl_message p))"
proof -
  let ?hist = "chat_history ev (cr_reads rd) s (int (set_history_messages (sv_settings sv))) (ci_consent_since inp) (st_rows store)"
  obtain g st1 w1 where gen: "generate sv (chat_request inp cls) ?hist (cr_limits rd) (st_keys store) w = (g, st1, w1)"
    by (metis prod_cases3)
  have "w' = w \<or> cs_security_mode s \<noteq> ''private_e2ee'' \<and> w' = w1"
    using run gen by (auto simp: chat_def Let_def split: if_splits sum.splits prod.splits)
  then show ?thesis
    using generate_egress[OF sc gen] by (auto simp: chat_request_def)
qed

text \<open>C38: A message reaches the AI provider only for its owner and with consent. Whatever a request to send a message
  does, at most one prompt leaves, and then the conversation exists, belongs to the caller, is within its retention, is
  neither in private end-to-end mode nor classified as such, and has room for the exchange within the message quota; the caller's
  send rate admits the request; the caller's recorded consent is given and of the
  current version; a confidential conversation was confirmed; and the message went in as a released copy.\<close>

theorem message_egress_authorised:
  assumes sc: "ai_scanner U M digest custom_terms = Inr (sv_scanner sv)"
    and run: "send_message_endpoint cfg ms ev sv rd token uid sid payload now me = (res, me')"
  shows "aw_sent (me_ai me') = aw_sent (me_ai me) \<or>
    (\<exists>c p since declared. aw_sent (me_ai me') = aw_sent (me_ai me) @ [prompt_text p] \<and>
       dict_get (cd_sessions (me_db me)) sid = Some c \<and> cv_owner c = uid \<and> retained now c \<and>
       cv_mode c \<noteq> ''private_e2ee'' \<and> cv_classification c = class_value declared \<and> declared \<noteq> E2EE_PRIVATE \<and>
       dict_get (me_consents me) uid = Some (True, mq_consent_version ms, since) \<and>
       message_count sid me + 2 \<le> mq_max_messages ms \<and>
       (\<exists>retry lm. rl_allow (''message:'' @ uid) (mq_attempts ms) (mq_window ms) now (me_limiter me) = (Inr (True, retry), lm)) \<and>
       (declared = CONFIDENTIAL \<longrightarrow> sd_confirm payload) \<and>
       safe_copy (sv_scanner sv) (chat_request (chat_input_of ms payload uid me) (cv_classification c)) declared []
         (sd_body payload) (pl_message p))"
  using run
proof (cases rule: send_stages)
  case (refused r me1)
  then show ?thesis using guard_owner_keeps[OF refused(1)] by simp
next
  case (handed c me1 lm out s' store' ai')
  have keep: "me_ai me1 = me_ai me" "me_consents me1 = me_consents me"
    using guard_owner_keeps[OF handed(1)] by simp_all
  note conv = guard_owner_allowed[OF handed(1)]
  let ?inp = "chat_input_of ms payload uid (me1\<lparr>me_limiter := lm\<rparr>)"
  from chat_egress[OF sc handed(4)] show ?thesis
  proof
    assume "aw_sent ai' = aw_sent (me_ai me1)"
    then show ?thesis using handed(5) keep by simp
  next
    assume "\<exists>p declared. aw_sent ai' = aw_sent (me_ai me1) @ [prompt_text p] \<and>
       consent_given (chat_request ?inp (cv_classification c)) declared \<and> declared \<noteq> E2EE_PRIVATE \<and>
       cs_security_mode (session_of sid c (me1\<lparr>me_limiter := lm\<rparr>)) \<noteq> ''private_e2ee'' \<and>
       safe_copy (sv_scanner sv) (chat_request ?inp (cv_classification c)) declared [] (ci_body ?inp) (pl_message p)"
    then obtain p declared where p: "aw_sent ai' = aw_sent (me_ai me1) @ [prompt_text p]"
      and cons: "consent_given (chat_request ?inp (cv_classification c)) declared" "declared \<noteq> E2EE_PRIVATE"
      and mode: "cv_mode c \<noteq> ''private_e2ee''"
      and copy: "safe_copy (sv_scanner sv) (chat_request ?inp (cv_classification c)) declared [] (ci_body ?inp) (pl_message p)"
      by auto
    have allow: "ci_allow_external ?inp" "cv_classification c = class_value declared" "declared = CONFIDENTIAL \<longrightarrow> ci_confirm ?inp"
      using cons(1) by (auto simp: consent_given_def chat_request_def)
    from chat_input_consent(1)[OF allow(1)] obtain since where "dict_get (me_consents me) uid = Some (True, mq_consent_version ms, since)"
      using keep(2) by auto
    moreover have "aw_sent (me_ai me') = aw_sent (me_ai me) @ [prompt_text p]"
      using p handed(5) keep(1) by simp
    moreover have "?inp = chat_input_of ms payload uid me"
      using keep(2) by (simp add: chat_input_of_def)
    ultimately show ?thesis
      using mode cons(2) copy allow(2,3) conv handed(2,3) guard_owner_same[OF handed(1)] chat_input_consent(2,3)[of ms payload uid me] by metis
  qed
qed

section \<open>A message is sent\<close>

definition demo_open :: conversation where
  "demo_open = \<lparr>cv_owner = ''u1'', cv_title = ''plans'', cv_mode = ''secure'', cv_classification = ''public'', cv_epoch = 0,
     cv_suite = ''AES-256-GCM'', cv_expires = Some 500, cv_updated = 0\<rparr>"

definition demo_messaging :: messaging where
  "demo_messaging = \<lparr>me_db = demo_rows\<lparr>cd_sessions := [(''s1'', demo_open)]\<rparr>, me_keys = [(''s1'', demo_session)],
     me_store = demo_store, me_consents = [(''u1'', True, ''v1'', None)], me_ai = demo_ai_world,
     me_limiter = aw_limiter demo_ai_world, me_search_limiter = aw_limiter demo_ai_world, me_monitor = monitor_init\<rparr>"

definition demo_quota :: message_settings where
  "demo_quota = \<lparr>mq_max_messages = 10, mq_attempts = 20, mq_window = 60, mq_consent_version = ''v1''\<rparr>"

definition demo_payload :: message_send where
  "demo_payload = \<lparr>sd_body = latin ''hi'', sd_confirm = False, sd_sanitize = False, sd_file_name = None, sd_file_content = None\<rparr>"

lemma demo_send:
  obtains a me' where "send_message_endpoint demo_settings demo_quota demo_envelope demo_ai_service demo_readings (Some demo_token) ''u1'' ''s1''
      demo_payload 1 demo_messaging = (Inr (a, latin ''ok'', []), me')"
    "aw_sent (me_ai me') = [prompt_text \<lparr>pl_history = [], pl_message = latin ''hi'', pl_file = None\<rparr>]"
proof -
  obtain u a s' store' w' where ch:
    "chat demo_envelope demo_ai_service demo_readings demo_chat_input ''public'' demo_session demo_store demo_ai_world =
       (Inr (u, a, latin ''ok'', []), s', store', w')"
    and sent: "aw_sent w' = [prompt_text \<lparr>pl_history = [], pl_message = latin ''hi'', pl_file = None\<rparr>]"
    by (rule demo_exchange)
  have g: "lock_request_mutation demo_settings (Some demo_token) ''u1'' s 1 (me_db demo_messaging) = None" for s
    by (rule demo_guard) (simp add: demo_bearer_def demo_messaging_def demo_rows_def demo_auth_def)
  have "require_owned_session demo_settings (Some demo_token) ''u1'' ''s1'' True False False 1 (me_db demo_messaging) = (Inr demo_open, me_db demo_messaging)"
    by (rule owned_session_allowed) (simp_all add: g, simp_all add: demo_messaging_def demo_rows_def demo_open_def dict_get_Cons retained_def session_is_sensitive_def)
  then have guard: "guard_owner demo_settings (Some demo_token) ''u1'' ''s1'' True 1 demo_messaging = (Inr demo_open, demo_messaging)"
    by (simp add: guard_owner_def cascade_messages_def demo_messaging_def demo_store_def)
  obtain lm where lm: "rl_allow (''message:'' @ ''u1'') 20 60 1 (me_limiter demo_messaging) = (Inr (True, 0), lm)"
    by (simp add: demo_messaging_def demo_ai_world_def rl_allow_def rl_admit_def rl_cleanup_def Let_def popleft_while_def dict_get_or_def
        dict_get_Cons Rate_Limiter.min_expiry_def min_default_inf_def dict_values_def)
  have inp: "chat_input_of demo_quota demo_payload ''u1'' (demo_messaging\<lparr>me_limiter := lm\<rparr>) = demo_chat_input"
    by (simp add: chat_input_of_def demo_messaging_def demo_quota_def demo_payload_def demo_chat_input_def dict_get_or_def dict_get_Cons)
  have s: "session_of ''s1'' demo_open (demo_messaging\<lparr>me_limiter := lm\<rparr>) = demo_session"
    by (simp add: session_of_def demo_messaging_def demo_open_def demo_session_def dict_get_Cons)
  have rest: "message_count ''s1'' demo_messaging = 0" "cv_classification demo_open = ''public''" "me_store demo_messaging = demo_store"
      "me_ai demo_messaging = demo_ai_world" "mq_max_messages demo_quota = 10" "mq_attempts demo_quota = 20" "mq_window demo_quota = 60"
    by (simp_all add: message_count_def session_messages_def demo_messaging_def demo_store_def demo_open_def demo_quota_def)
  have "\<exists>me'. send_message_endpoint demo_settings demo_quota demo_envelope demo_ai_service demo_readings (Some demo_token) ''u1'' ''s1''
      demo_payload 1 demo_messaging = (Inr (a, latin ''ok'', []), me') \<and> me_ai me' = w'"
    unfolding send_message_endpoint_def guard prod.case sum.case rest using lm by (simp add: Let_def inp s rest ch)
  then show ?thesis using that sent by blast
qed

theorem message_egress_authorised_witness:
  "\<exists>a me' p. send_message_endpoint demo_settings demo_quota demo_envelope demo_ai_service demo_readings (Some demo_token) ''u1'' ''s1''
      demo_payload 1 demo_messaging = (Inr (a, latin ''ok'', []), me') \<and> aw_sent (me_ai me') = [prompt_text p] \<and>
     (\<exists>since. dict_get (me_consents demo_messaging) ''u1'' = Some (True, ''v1'', since)) \<and> retained 1 demo_open"
proof -
  obtain a me' where run: "send_message_endpoint demo_settings demo_quota demo_envelope demo_ai_service demo_readings (Some demo_token) ''u1'' ''s1''
      demo_payload 1 demo_messaging = (Inr (a, latin ''ok'', []), me')"
    and sent: "aw_sent (me_ai me') = [prompt_text \<lparr>pl_history = [], pl_message = latin ''hi'', pl_file = None\<rparr>]"
    by (rule demo_send)
  have sc: "ai_scanner ascii_unicode demo_matcher (\<lambda>_. ''0'') [] = Inr (sv_scanner demo_ai_service)"
    by (simp add: demo_ai_scanner_init demo_ai_service_def)
  have f: "aw_sent (me_ai demo_messaging) = []" "dict_get (cd_sessions (me_db demo_messaging)) ''s1'' = Some demo_open"
      "mq_consent_version demo_quota = ''v1''"
    by (simp_all add: demo_messaging_def demo_ai_world_def dict_get_Cons demo_quota_def)
  show ?thesis
    using message_egress_authorised[OF sc run] run sent f by auto
qed

theorem message_quota_kept_witness:
  "quota_inv demo_quota demo_messaging \<and>
   message_count ''s1'' (run_ops (send_step demo_settings demo_quota demo_envelope demo_ai_service)
     [\<lparr>rs_token = Some demo_token, rs_uid = ''u1'', rs_sid = ''s1'', rs_payload = demo_payload, rs_now = 1, rs_readings = demo_readings\<rparr>]
     demo_messaging) \<le> 10"
proof -
  have inv: "quota_inv demo_quota demo_messaging" and m: "mq_max_messages demo_quota = 10"
    by (simp_all add: quota_inv_def message_count_def session_messages_def demo_messaging_def demo_store_def demo_quota_def)
  show ?thesis
    using message_quota_kept[OF inv] inv m by metis
qed

theorem global_search_window_witness:
  "\<exists>me'. global_search_page demo_settings ascii_unicode demo_envelope (\<lambda>_ _. (3, 4)) ''u1'' (latin ''OK'') 0 10 1 demo_messaging =
      (Inr (page_result (take 10 (drop 0 ([] :: search_hit list))) 0 0 10), me')"
proof -
  have ok: "env_ok demo_names demo_envelope" "cache_inv demo_names demo_envelope (st_keys (me_store demo_messaging))"
    using demo_env(2) demo_state_simps(4) by (simp_all add: demo_messaging_def demo_store_def)
  have covered: "conversations_covered demo_names demo_messaging (st_keys (me_store demo_messaging)) (searchable demo_settings ''u1'' 1 (me_db demo_messaging))"
    by (auto simp: conversations_covered_def session_covered_def demo_messaging_def demo_store_def demo_state_def)
  have hold: "conversations_hold demo_envelope demo_messaging (st_keys (me_store demo_messaging)) (\<lambda>_. [])
      (searchable demo_settings ''u1'' 1 (me_db demo_messaging))"
    by (auto simp: conversations_hold_def rows_hold_def session_messages_def demo_messaging_def demo_store_def)
  obtain me1 where pass: "throttle_search ''u1'' 1 demo_messaging = (None, me1)"
    by (simp add: throttle_search_def SEARCH_MAX_ATTEMPTS_def SEARCH_WINDOW_SECONDS_def demo_messaging_def demo_ai_world_def rl_allow_def rl_admit_def
        rl_cleanup_def Let_def popleft_while_def dict_get_or_def dict_get_Cons Rate_Limiter.min_expiry_def min_default_inf_def dict_values_def)
  have hits: "[] = all_hits ascii_unicode (latin ''OK'') (\<lambda>_. []) (searchable demo_settings ''u1'' 1 (me_db demo_messaging))"
    by (simp add: all_hits_def hits_of_def)
  show ?thesis
    using global_search_window[OF ok hold covered pass hits, of "\<lambda>_ _. (3, 4)" 0 10] by simp
qed

end
