(* ===== verification/Ui_Session.thy ===== *)
theory Ui_Session
  imports Keys
begin

text \<open>
  \<^verbatim>\<open>BrowserSessionStore\<close> of \<^verbatim>\<open>src/app/ui_session.py\<close>: one-use handoff tickets, the opaque browser handles they
  are exchanged for, the rotation of the bearer token behind a handle, and device tokens waiting for their cookie.

  The tables are keyed by digests; \<open>H\<close> is the hexadecimal SHA-256 of a byte string. Tickets and handles come from
  \<^verbatim>\<open>secrets.token_urlsafe(32)\<close> and are arguments, as are the readings of the clock. A deadline
  is \<open>None\<close> when the float is not finite.
\<close>

section \<open>Store\<close>

record browser_session =
  bs_token :: string
  bs_expires :: time
  bs_device :: "string option"

record handoff_ticket =
  ht_session :: browser_session
  ht_expires :: time

datatype ui_error = Ui_Value_Error | Ui_Capacity_Error | Ui_Type_Error

record browser_store =
  us_max_tickets :: int
  us_max_sessions :: int
  us_ticket_ttl :: time
  us_tickets :: "(string, handoff_ticket) pydict"
  us_sessions :: "(string, browser_session) pydict"
  us_successors :: "(string, browser_session) pydict"
  us_pending_devices :: "(string, browser_session) pydict"

definition browser_store_init :: "int \<Rightarrow> int \<Rightarrow> time \<Rightarrow> ui_error + browser_store" where
  "browser_store_init max_tickets max_sessions ticket_ttl =
     (if max_tickets < 1 \<or> max_sessions < 1 \<or> \<not> (0 < ticket_ttl \<and> ticket_ttl \<le> 60) then Inl Ui_Value_Error
      else Inr \<lparr>us_max_tickets = max_tickets, us_max_sessions = max_sessions, us_ticket_ttl = ticket_ttl,
                us_tickets = [], us_sessions = [], us_successors = [], us_pending_devices = []\<rparr>)"

definition handle_ok :: "string \<Rightarrow> bool" where
  "handle_ok h \<longleftrightarrow> length h = 43 \<and> list_all (\<lambda>c. is_ascii_alnum c \<or> c = CHR ''_'' \<or> c = CHR ''-'') h"

definition handle_key :: "(bytes \<Rightarrow> string) \<Rightarrow> string option \<Rightarrow> string option" where
  "handle_key H h = (case h of None \<Rightarrow> None | Some s \<Rightarrow> if handle_ok s then Some (H s) else None)"

definition token_key :: "(bytes \<Rightarrow> string) \<Rightarrow> string \<Rightarrow> string" where
  "token_key H token = H (utf8 token)"

text \<open>\<^verbatim>\<open>table.get(key)\<close> and \<^verbatim>\<open>table.pop(key, None)\<close> where the key may be \<^verbatim>\<open>None\<close>, which is never stored.\<close>

definition get_key :: "(string, 'v) pydict \<Rightarrow> string option \<Rightarrow> 'v option" where
  "get_key d k = (case k of None \<Rightarrow> None | Some s \<Rightarrow> dict_get d s)"

definition pop_key :: "string option \<Rightarrow> (string, 'v) pydict \<Rightarrow> (string, 'v) pydict" where
  "pop_key k d = (case k of None \<Rightarrow> d | Some s \<Rightarrow> dict_pop s d)"

definition ui_prune :: "time \<Rightarrow> browser_store \<Rightarrow> browser_store" where
  "ui_prune now st =
     st\<lparr>us_tickets := filter (\<lambda>(_, row). now < ht_expires row) (us_tickets st),
        us_sessions := filter (\<lambda>(_, row). now < bs_expires row) (us_sessions st),
        us_successors := filter (\<lambda>(_, row). now < bs_expires row) (us_successors st),
        us_pending_devices := filter (\<lambda>(_, row). now < bs_expires row) (us_pending_devices st)\<rparr>"

section \<open>Operations\<close>

definition issue_ticket ::
  "(bytes \<Rightarrow> string) \<Rightarrow> string \<Rightarrow> string \<Rightarrow> time option \<Rightarrow> time \<Rightarrow> browser_store \<Rightarrow> (ui_error + string) \<times> browser_store" where
  "issue_ticket H ticket token expires_at now st0 =
     (let st = ui_prune now st0
      in case expires_at of
           None \<Rightarrow> (Inl Ui_Value_Error, st)
         | Some t \<Rightarrow>
             if token = [] \<or> length token > 16384 \<or> t \<le> now then (Inl Ui_Value_Error, st)
             else if int (length (us_tickets st)) \<ge> us_max_tickets st then (Inl Ui_Capacity_Error, st)
             else
               (let device = map_option bs_token (dict_get (us_pending_devices st) (token_key H token));
                    row = \<lparr>ht_session = \<lparr>bs_token = token, bs_expires = t, bs_device = device\<rparr>,
                           ht_expires = min (now + us_ticket_ttl st) t\<rparr>
                in (Inr ticket,
                    st\<lparr>us_pending_devices := dict_pop (token_key H token) (us_pending_devices st),
                       us_tickets := dict_set (H ticket) row (us_tickets st)\<rparr>)))"

definition remember_device :: "(bytes \<Rightarrow> string) \<Rightarrow> string \<Rightarrow> string \<Rightarrow> time \<Rightarrow> browser_store \<Rightarrow> browser_store" where
  "remember_device H access_token device_token now st0 =
     (let st = ui_prune now st0
      in if int (length (us_pending_devices st)) \<ge> us_max_tickets st then st
         else st\<lparr>us_pending_devices :=
                   dict_set (token_key H access_token)
                     \<lparr>bs_token = device_token, bs_expires = now + us_ticket_ttl st, bs_device = None\<rparr> (us_pending_devices st)\<rparr>)"

text \<open>\<^verbatim>\<open>for _ in range(16)\<close>: follow at most sixteen rotations.\<close>

fun follow_successors :: "(bytes \<Rightarrow> string) \<Rightarrow> (string, browser_session) pydict \<Rightarrow> nat \<Rightarrow> string \<Rightarrow> string" where
  "follow_successors H d 0 token = token"
| "follow_successors H d (Suc n) token =
     (case dict_get d (token_key H token) of None \<Rightarrow> token | Some row \<Rightarrow> follow_successors H d n (bs_token row))"

definition current_token :: "(bytes \<Rightarrow> string) \<Rightarrow> string \<Rightarrow> time \<Rightarrow> browser_store \<Rightarrow> string \<times> browser_store" where
  "current_token H token now st0 =
     (let st = ui_prune now st0 in (follow_successors H (us_successors st) 16 token, st))"

definition attach_ticket ::
  "(bytes \<Rightarrow> string) \<Rightarrow> string \<Rightarrow> string option \<Rightarrow> string \<Rightarrow> time \<Rightarrow> browser_store \<Rightarrow> (ui_error + string) \<times> browser_store" where
  "attach_ticket H ticket previous_cookie handle now st0 =
     (let st = ui_prune now st0;
          key = handle_key H (Some ticket);
          previous_key = handle_key H previous_cookie
      in case get_key (us_tickets st) key of
           None \<Rightarrow> (Inl Ui_Value_Error, st)
         | Some row \<Rightarrow>
             (let replacing = get_key (us_sessions st) previous_key \<noteq> None
              in if int (length (us_sessions st)) \<ge> us_max_sessions st \<and> \<not> replacing then (Inl Ui_Capacity_Error, st)
                 else
                   (Inr handle,
                    st\<lparr>us_tickets := pop_key key (us_tickets st),
                       us_sessions := dict_set (H handle) (ht_session row)
                                        (if replacing then pop_key previous_key (us_sessions st) else us_sessions st)\<rparr>)))"

definition take_device_token :: "(bytes \<Rightarrow> string) \<Rightarrow> string option \<Rightarrow> browser_store \<Rightarrow> string option \<times> browser_store" where
  "take_device_token H cookie st =
     (case handle_key H cookie of
        None \<Rightarrow> (None, st)
      | Some key \<Rightarrow>
          (case dict_get (us_sessions st) key of
             None \<Rightarrow> (None, st)
           | Some row \<Rightarrow>
               (case bs_device row of
                  None \<Rightarrow> (None, st)
                | Some device \<Rightarrow>
                    (Some device, st\<lparr>us_sessions := dict_set key (row\<lparr>bs_device := None\<rparr>) (us_sessions st)\<rparr>))))"

definition restore_session :: "(bytes \<Rightarrow> string) \<Rightarrow> string option \<Rightarrow> time \<Rightarrow> browser_store \<Rightarrow> (string \<times> time) option \<times> browser_store" where
  "restore_session H cookie now st0 =
     (let st = ui_prune now st0
      in (map_option (\<lambda>row. (bs_token row, bs_expires row)) (get_key (us_sessions st) (handle_key H cookie)), st))"

definition revoke_handle :: "(bytes \<Rightarrow> string) \<Rightarrow> string option \<Rightarrow> time \<Rightarrow> browser_store \<Rightarrow> browser_store" where
  "revoke_handle H cookie now st0 =
     (let st = ui_prune now st0 in st\<lparr>us_sessions := pop_key (handle_key H cookie) (us_sessions st)\<rparr>)"

text \<open>
  One loop of \<^verbatim>\<open>rotate_token\<close>: rows holding the previous token are replaced until a comparison raises;
  the flag says that none did.
\<close>

fun rotate_table :: "('r \<Rightarrow> string) \<Rightarrow> ('r \<Rightarrow> 'r) \<Rightarrow> string \<Rightarrow> (string, 'r) pydict \<Rightarrow> bool \<times> (string, 'r) pydict" where
  "rotate_table token_of upd previous [] = (True, [])"
| "rotate_table token_of upd previous ((k, row) # d) =
     (case compare_digest (token_of row) previous of
        None \<Rightarrow> (False, (k, row) # d)
      | Some same \<Rightarrow>
          (case rotate_table token_of upd previous d of
             (finished, d') \<Rightarrow> (finished, (k, if same then upd row else row) # d')))"

definition rotate_token ::
  "(bytes \<Rightarrow> string) \<Rightarrow> string \<Rightarrow> string \<Rightarrow> time \<Rightarrow> time \<Rightarrow> browser_store \<Rightarrow> (ui_error + unit) \<times> browser_store" where
  "rotate_token H previous token expires_at now st0 =
     (let st1 = ui_prune now st0;
          updated = \<lparr>bs_token = token, bs_expires = expires_at, bs_device = None\<rparr>;
          st2 = (if int (length (us_successors st1)) < us_max_sessions st1 * 4
                 then st1\<lparr>us_successors := dict_set (token_key H previous) updated (us_successors st1)\<rparr> else st1)
      in case rotate_table bs_token (\<lambda>_. updated) previous (us_sessions st2) of
           (False, sessions) \<Rightarrow> (Inl Ui_Type_Error, st2\<lparr>us_sessions := sessions\<rparr>)
         | (True, sessions) \<Rightarrow>
             (case rotate_table (\<lambda>row. bs_token (ht_session row))
                     (\<lambda>row. \<lparr>ht_session = updated, ht_expires = min (ht_expires row) expires_at\<rparr>) previous (us_tickets st2) of
                (finished, tickets) \<Rightarrow>
                  (if finished then Inr () else Inl Ui_Type_Error, st2\<lparr>us_sessions := sessions, us_tickets := tickets\<rparr>)))"

section \<open>Bounded tables\<close>

definition ui_bounded :: "browser_store \<Rightarrow> bool" where
  "ui_bounded st \<longleftrightarrow>
     int (length (us_tickets st)) \<le> us_max_tickets st \<and> int (length (us_sessions st)) \<le> us_max_sessions st \<and>
     int (length (us_successors st)) \<le> us_max_sessions st * 4 \<and> int (length (us_pending_devices st)) \<le> us_max_tickets st"

datatype ui_op =
    Issue string string "time option"
  | Remember string string
  | Current string
  | Attach string "string option" string
  | Take "string option"
  | Restore "string option"
  | Revoke "string option"
  | Rotate string string time

text \<open>One call of the store at the clock reading \<open>now\<close>.\<close>

fun ui_step :: "(bytes \<Rightarrow> string) \<Rightarrow> time \<times> ui_op \<Rightarrow> browser_store \<Rightarrow> browser_store" where
  "ui_step H (now, Issue ticket token expires) st = snd (issue_ticket H ticket token expires now st)"
| "ui_step H (now, Remember token device) st = remember_device H token device now st"
| "ui_step H (now, Current token) st = snd (current_token H token now st)"
| "ui_step H (now, Attach ticket previous handle) st = snd (attach_ticket H ticket previous handle now st)"
| "ui_step H (now, Take cookie) st = snd (take_device_token H cookie st)"
| "ui_step H (now, Restore cookie) st = snd (restore_session H cookie now st)"
| "ui_step H (now, Revoke cookie) st = revoke_handle H cookie now st"
| "ui_step H (now, Rotate previous token expires) st = snd (rotate_token H previous token expires now st)"

lemma length_dict_set_Suc: "length (dict_set k v d) \<le> Suc (length d)"
  by (induction d) auto

lemma length_dict_set_present: "dict_get d k \<noteq> None \<Longrightarrow> length (dict_set k v d) = length d"
  by (induction d) (auto simp: dict_get_Cons)

lemma dict_set_room: "int (length d) < n \<Longrightarrow> int (length (dict_set k v d)) \<le> n"
  using length_dict_set_Suc[of k v d] by linarith

lemma dict_set_present_room: "dict_get d k = Some w \<Longrightarrow> int (length d) \<le> n \<Longrightarrow> int (length (dict_set k v d)) \<le> n"
  by (simp add: length_dict_set_present)

lemma dict_pop_room: "int (length d) \<le> n \<Longrightarrow> int (length (dict_pop k d)) \<le> n"
  using length_filter_le[of "\<lambda>p. fst p \<noteq> k" d] unfolding dict_pop_def by linarith

lemma pop_key_room: "int (length d) \<le> n \<Longrightarrow> int (length (pop_key k d)) \<le> n"
  by (auto simp: pop_key_def dict_pop_room split: option.split)

lemma length_pop_key_present: "get_key d k = Some v \<Longrightarrow> length (pop_key k d) < length d"
  by (auto simp: get_key_def pop_key_def dict_pop_def dest!: dict_get_SomeD intro: length_filter_less split: option.splits)

lemma replace_room: "get_key d k = Some w \<Longrightarrow> int (length d) \<le> n \<Longrightarrow> int (length (dict_set k' v (pop_key k d))) \<le> n"
  using length_pop_key_present[of d k w] length_dict_set_Suc[of k' v "pop_key k d"] by linarith

lemmas room = dict_set_room dict_set_present_room dict_pop_room pop_key_room replace_room

lemma length_rotate_table [simp]: "length (snd (rotate_table f g p d)) = length d"
  by (induction f g p d rule: rotate_table.induct) (auto split: option.split prod.split)

lemma length_rotate_result: "rotate_table f g p d = (b, d') \<Longrightarrow> length d' = length d"
  using length_rotate_table[of f g p d] by simp

lemma prune_limits [simp]:
  "us_max_tickets (ui_prune now st) = us_max_tickets st" "us_max_sessions (ui_prune now st) = us_max_sessions st"
  "us_ticket_ttl (ui_prune now st) = us_ticket_ttl st"
  by (simp_all add: ui_prune_def)

lemma prune_bounded: "ui_bounded st \<Longrightarrow> ui_bounded (ui_prune now st)"
  unfolding ui_bounded_def ui_prune_def
  by (simp, intro conjI) (meson length_filter_le of_nat_mono order_trans)+

lemmas bounded_defs = ui_bounded_def Let_def

lemma bounded_issue: "ui_bounded st \<Longrightarrow> ui_bounded (snd (issue_ticket H ticket token expires now st))"
  using prune_bounded[of st now] by (auto simp: issue_ticket_def bounded_defs split: option.split intro: room)

lemma bounded_remember: "ui_bounded st \<Longrightarrow> ui_bounded (remember_device H token device now st)"
  using prune_bounded[of st now] by (auto simp: remember_device_def bounded_defs intro: room)

lemma bounded_attach: "ui_bounded st \<Longrightarrow> ui_bounded (snd (attach_ticket H ticket previous handle now st))"
  using prune_bounded[of st now] by (auto simp: attach_ticket_def bounded_defs split: option.split intro: room)

lemma bounded_take: "ui_bounded st \<Longrightarrow> ui_bounded (snd (take_device_token H cookie st))"
  by (auto simp: take_device_token_def bounded_defs split: option.split intro: room)

lemma bounded_rotate: "ui_bounded st \<Longrightarrow> ui_bounded (snd (rotate_token H previous token expires now st))"
  using prune_bounded[of st now]
  by (auto simp: rotate_token_def bounded_defs split: prod.split bool.split dest!: length_rotate_result intro: room)

lemma bounded_step: "ui_bounded st \<Longrightarrow> ui_bounded (ui_step H x st)"
  using bounded_issue bounded_remember bounded_attach bounded_take bounded_rotate prune_bounded
  by (cases "(H, x, st)" rule: ui_step.cases)
     (auto simp: current_token_def restore_session_def revoke_handle_def bounded_defs intro: room)

lemma limits_step: "us_max_tickets (ui_step H x st) = us_max_tickets st \<and> us_max_sessions (ui_step H x st) = us_max_sessions st"
  by (cases "(H, x, st)" rule: ui_step.cases)
     (auto simp: issue_ticket_def remember_device_def current_token_def attach_ticket_def take_device_token_def restore_session_def
       revoke_handle_def rotate_token_def Let_def split: option.split prod.split bool.split)

interpretation browser_calls: stateful "ui_step H" "\<lambda>st. ui_bounded st \<and> us_max_tickets st = max_tickets \<and> us_max_sessions st = max_sessions"
  by unfold_locales (simp add: bounded_step limits_step)

section \<open>Custody of the bearer token\<close>

datatype ui_event = Issued string string | Attached string string | Rotated string string | Revoked string

definition revoked_by :: "string option \<Rightarrow> ui_event list" where
  "revoked_by cookie = (case cookie of None \<Rightarrow> [] | Some c \<Rightarrow> [Revoked c])"

text \<open>
  The history a call leaves: a ticket issued for a token, a ticket exchanged for a handle (which revokes the
  previous handle), a token replaced by its successor, a handle revoked.
\<close>

definition ui_event :: "(bytes \<Rightarrow> string) \<Rightarrow> time \<times> ui_op \<Rightarrow> browser_store \<Rightarrow> ui_event list" where
  "ui_event H call st =
     (case call of
        (now, Issue ticket token expires) \<Rightarrow>
          (case fst (issue_ticket H ticket token expires now st) of Inl _ \<Rightarrow> [] | Inr t \<Rightarrow> [Issued t token])
      | (now, Attach ticket previous handle) \<Rightarrow>
          (case fst (attach_ticket H ticket previous handle now st) of
             Inl _ \<Rightarrow> [] | Inr h \<Rightarrow> revoked_by previous @ [Attached ticket h])
      | (now, Rotate previous token expires) \<Rightarrow> [Rotated previous token]
      | (now, Revoke cookie) \<Rightarrow> revoked_by cookie
      | _ \<Rightarrow> [])"

text \<open>\<^verbatim>\<open>secrets.token_urlsafe(32)\<close> gives well-formed values that were not given before.\<close>

definition fresh_secret :: "ui_event list \<Rightarrow> ui_op \<Rightarrow> bool" where
  "fresh_secret tr op =
     (case op of
        Issue ticket token expires \<Rightarrow> handle_ok ticket \<and> (\<forall>t. Issued ticket t \<notin> set tr)
      | Attach ticket previous handle \<Rightarrow> handle_ok handle
      | _ \<Rightarrow> True)"

inductive ui_run :: "(bytes \<Rightarrow> string) \<Rightarrow> browser_store \<Rightarrow> ui_event list \<Rightarrow> browser_store \<Rightarrow> bool" for H st0 where
  start: "ui_run H st0 [] st0"
| call: "ui_run H st0 tr st \<Longrightarrow> fresh_secret tr op \<Longrightarrow> ui_run H st0 (tr @ ui_event H (now, op) st) (ui_step H (now, op) st)"

definition rotations :: "ui_event list \<Rightarrow> (string \<times> string) set" where
  "rotations tr = {(a, b). Rotated a b \<in> set tr}\<^sup>*"

definition attached_tickets :: "ui_event list \<Rightarrow> string list" where
  "attached_tickets tr = concat (map (\<lambda>e. case e of Attached t h \<Rightarrow> [t] | _ \<Rightarrow> []) tr)"

definition presented :: "ui_event list \<Rightarrow> string set" where
  "presented tr = {t. \<exists>x. Issued t x \<in> set tr \<or> Attached t x \<in> set tr}"

text \<open>Handle \<open>h\<close> was exchanged for a ticket of the sign-in with \<open>token0\<close>, was not revoked since, and stands for \<open>token\<close>.\<close>

definition handed_off :: "ui_event list \<Rightarrow> string \<Rightarrow> string \<Rightarrow> bool" where
  "handed_off tr h token \<longleftrightarrow>
     (\<exists>xs ys ticket token0. tr = xs @ Attached ticket h # ys \<and> Revoked h \<notin> set ys \<and> Issued ticket token0 \<in> set xs \<and>
        (token0, token) \<in> rotations tr)"

definition tickets_ok :: "(bytes \<Rightarrow> string) \<Rightarrow> ui_event list \<Rightarrow> (string, handoff_ticket) pydict \<Rightarrow> bool" where
  "tickets_ok H tr d \<longleftrightarrow>
     (\<forall>(k, row)\<in>set d. \<exists>ticket token0. k = H ticket \<and> handle_ok ticket \<and> Issued ticket token0 \<in> set tr \<and>
        ticket \<notin> set (attached_tickets tr) \<and> (token0, bs_token (ht_session row)) \<in> rotations tr)"

definition sessions_ok :: "(bytes \<Rightarrow> string) \<Rightarrow> ui_event list \<Rightarrow> (string, browser_session) pydict \<Rightarrow> bool" where
  "sessions_ok H tr d \<longleftrightarrow> (\<forall>(k, row)\<in>set d. \<exists>h. k = H h \<and> handle_ok h \<and> handed_off tr h (bs_token row))"

lemma attached_tickets_append [simp]: "attached_tickets (xs @ ys) = attached_tickets xs @ attached_tickets ys"
  by (simp add: attached_tickets_def)

lemma attached_tickets_simps [simp]:
  "attached_tickets [] = []" "attached_tickets [Issued t x] = []" "attached_tickets [Rotated a b] = []"
  "attached_tickets [Attached t h] = [t]" "attached_tickets (revoked_by c) = []"
  by (auto simp: attached_tickets_def revoked_by_def split: option.split)

lemma set_attached_tickets: "t \<in> set (attached_tickets tr) \<longleftrightarrow> (\<exists>h. Attached t h \<in> set tr)"
  by (force simp: attached_tickets_def split: ui_event.splits)

lemma rotations_mono: "rotations tr \<subseteq> rotations (tr @ es)"
  unfolding rotations_def by (rule rtrancl_mono) auto

lemma handed_off_append:
  assumes "handed_off tr h token" "Revoked h \<notin> set es"
  shows "handed_off (tr @ es) h token"
proof -
  obtain xs ys ticket token0 where *: "tr = xs @ Attached ticket h # ys" "Revoked h \<notin> set ys" "Issued ticket token0 \<in> set xs"
      "(token0, token) \<in> rotations tr"
    using assms(1) unfolding handed_off_def by blast
  have "tr @ es = xs @ Attached ticket h # (ys @ es)" "Revoked h \<notin> set (ys @ es)" "(token0, token) \<in> rotations (tr @ es)"
    using * assms(2) rotations_mono[of tr es] by auto
  then show ?thesis using *(3) unfolding handed_off_def by blast
qed

lemma handed_off_rotate:
  assumes "handed_off tr h a"
  shows "handed_off (tr @ [Rotated a b]) h b"
proof -
  obtain xs ys ticket token0 where *: "tr @ [Rotated a b] = xs @ Attached ticket h # ys" "Revoked h \<notin> set ys" "Issued ticket token0 \<in> set xs"
      "(token0, a) \<in> rotations (tr @ [Rotated a b])"
    using handed_off_append[OF assms, of "[Rotated a b]"] unfolding handed_off_def by auto
  have "(token0, b) \<in> rotations (tr @ [Rotated a b])"
    using *(4) unfolding rotations_def by (rule rtrancl.rtrancl_into_rtrancl) simp
  then show ?thesis using *(1-3) unfolding handed_off_def by blast
qed

lemma sessions_okI:
  assumes "sessions_ok H tr d" "\<And>k row h. (k, row) \<in> set d' \<Longrightarrow> (k, row) \<in> set d" "\<And>h row. (H h, row) \<in> set d' \<Longrightarrow> handle_ok h \<Longrightarrow> Revoked h \<notin> set es"
  shows "sessions_ok H (tr @ es) d'"
  using assms unfolding sessions_ok_def by (fastforce intro: handed_off_append)

lemma tickets_okI:
  assumes "tickets_ok H tr d" "\<And>k row. (k, row) \<in> set d' \<Longrightarrow> (k, row) \<in> set d" "attached_tickets es = []"
  shows "tickets_ok H (tr @ es) d'"
  unfolding tickets_ok_def
proof (clarify)
  fix k row assume "(k, row) \<in> set d'"
  then obtain ticket token0 where "k = H ticket" "handle_ok ticket" "Issued ticket token0 \<in> set tr" "ticket \<notin> set (attached_tickets tr)"
      "(token0, bs_token (ht_session row)) \<in> rotations tr"
    using assms(1,2) unfolding tickets_ok_def by fastforce
  then show "\<exists>ticket token0. k = H ticket \<and> handle_ok ticket \<and> Issued ticket token0 \<in> set (tr @ es) \<and>
      ticket \<notin> set (attached_tickets (tr @ es)) \<and> (token0, bs_token (ht_session row)) \<in> rotations (tr @ es)"
    using rotations_mono[of tr es] assms(3) by (intro exI[of _ ticket] exI[of _ token0]) auto
qed

lemma prune_rows:
  "set (us_tickets (ui_prune now st)) \<subseteq> set (us_tickets st)" "set (us_sessions (ui_prune now st)) \<subseteq> set (us_sessions st)"
  by (auto simp: ui_prune_def)

lemma rotate_table_rows:
  assumes "(k, row') \<in> set (snd (rotate_table f g p d))"
  shows "\<exists>row. (k, row) \<in> set d \<and> (row' = row \<or> (f row = p \<and> row' = g row))"
  using assms
  by (induction f g p d rule: rotate_table.induct)
     (auto simp: compare_digest_def split: option.splits prod.splits if_splits)

text \<open>The invariant of a run.\<close>

definition custody :: "(bytes \<Rightarrow> string) \<Rightarrow> ui_event list \<Rightarrow> browser_store \<Rightarrow> bool" where
  "custody H tr st \<longleftrightarrow>
     tickets_ok H tr (us_tickets st) \<and> sessions_ok H tr (us_sessions st) \<and> distinct (attached_tickets tr) \<and>
     (\<forall>t\<in>set (attached_tickets tr). \<exists>x. Issued t x \<in> set tr)"

lemma custody_prune: "custody H tr st \<Longrightarrow> custody H tr (ui_prune now st)"
  using prune_rows[of now st] unfolding custody_def tickets_ok_def sessions_ok_def by blast

lemma custody_keep:
  assumes "custody H tr st" "set (us_tickets st') \<subseteq> set (us_tickets st)" "set (us_sessions st') \<subseteq> set (us_sessions st)"
    "attached_tickets es = []" "\<And>h row. (H h, row) \<in> set (us_sessions st') \<Longrightarrow> handle_ok h \<Longrightarrow> Revoked h \<notin> set es"
  shows "custody H (tr @ es) st'"
  using assms tickets_okI[of H tr "us_tickets st" "us_tickets st'" es] sessions_okI[of H tr "us_sessions st" "us_sessions st'" es]
  unfolding custody_def by fastforce

lemma not_revoked_by: "handle_key H cookie \<noteq> Some (H h) \<Longrightarrow> handle_ok h \<Longrightarrow> Revoked h \<notin> set (revoked_by cookie)"
  by (auto simp: revoked_by_def handle_key_def split: option.splits)

lemma pop_key_rows: "(k, row) \<in> set (pop_key key d) \<longleftrightarrow> (k, row) \<in> set d \<and> key \<noteq> Some k"
  by (auto simp: pop_key_def dict_pop_def split: option.split)

lemma custody_revoke:
  assumes "custody H tr st"
  shows "custody H (tr @ revoked_by cookie) (revoke_handle H cookie now st)"
proof (rule custody_keep[OF custody_prune[OF assms, of now]])
  show "set (us_tickets (revoke_handle H cookie now st)) \<subseteq> set (us_tickets (ui_prune now st))"
    "set (us_sessions (revoke_handle H cookie now st)) \<subseteq> set (us_sessions (ui_prune now st))" "attached_tickets (revoked_by cookie) = []"
    by (auto simp: revoke_handle_def Let_def pop_key_rows)
  fix h row assume row: "(H h, row) \<in> set (us_sessions (revoke_handle H cookie now st))" "handle_ok h"
  show "Revoked h \<notin> set (revoked_by cookie)"
    using row by (intro not_revoked_by[where H = H]) (auto simp: revoke_handle_def Let_def pop_key_rows)
qed

lemma custody_take:
  assumes "custody H tr st"
  shows "custody H tr (snd (take_device_token H cookie st))"
proof (cases "take_device_token H cookie st")
  case (Pair r st')
  have "\<exists>row0. (k, row0) \<in> set (us_sessions st) \<and> bs_token row0 = bs_token row" if "(k, row) \<in> set (us_sessions st')" for k row
    using Pair that dict_set_subset[of _ _ "us_sessions st"]
    by (auto simp: take_device_token_def split: option.splits dest!: dict_get_SomeD) (use dict_set_subset in fastforce)+
  moreover have "us_tickets st' = us_tickets st"
    using Pair by (auto simp: take_device_token_def split: option.splits)
  ultimately show ?thesis
    using assms Pair unfolding custody_def sessions_ok_def by fastforce
qed

lemma rotate_result:
  fixes token expires
  defines "updated \<equiv> \<lparr>bs_token = token, bs_expires = expires, bs_device = None\<rparr>"
  assumes "rotate_token H previous token expires now st = (r, st')"
  shows "us_sessions st' = snd (rotate_table bs_token (\<lambda>_. updated) previous (us_sessions (ui_prune now st)))"
    "us_tickets st' = us_tickets (ui_prune now st) \<or>
     us_tickets st' = snd (rotate_table (\<lambda>row. bs_token (ht_session row))
        (\<lambda>row. \<lparr>ht_session = updated, ht_expires = min (ht_expires row) expires\<rparr>) previous (us_tickets (ui_prune now st)))"
  using assms by (auto simp: rotate_token_def Let_def split: prod.splits bool.splits if_splits)

lemma custody_rotate:
  assumes "custody H tr st" "rotate_token H previous token expires now st = (r, st')"
  shows "custody H (tr @ [Rotated previous token]) st'"
proof -
  let ?st = "ui_prune now st" and ?tr = "tr @ [Rotated previous token]"
  note res = rotate_result[OF assms(2)]
  have inv: "custody H tr ?st" by (rule custody_prune[OF assms(1)])
  have "sessions_ok H ?tr (us_sessions st')"
    unfolding sessions_ok_def
  proof clarify
    fix k row assume "(k, row) \<in> set (us_sessions st')"
    then obtain row0 where row0: "(k, row0) \<in> set (us_sessions ?st)" "row = row0 \<or> bs_token row0 = previous \<and> bs_token row = token"
      using res(1) rotate_table_rows[of k row] by fastforce
    then obtain h where h: "k = H h" "handle_ok h" "handed_off tr h (bs_token row0)"
      using inv unfolding custody_def sessions_ok_def by blast
    then have "handed_off ?tr h (bs_token row)"
      using row0(2) handed_off_append[of tr h _ "[Rotated previous token]"] handed_off_rotate[of tr h previous token] by auto
    then show "\<exists>h. k = H h \<and> handle_ok h \<and> handed_off ?tr h (bs_token row)" using h by blast
  qed
  moreover have "tickets_ok H ?tr (us_tickets st')"
    unfolding tickets_ok_def
  proof clarify
    fix k row assume "(k, row) \<in> set (us_tickets st')"
    then obtain row0 where row0: "(k, row0) \<in> set (us_tickets ?st)"
        "row = row0 \<or> bs_token (ht_session row0) = previous \<and> bs_token (ht_session row) = token"
      using res(2) rotate_table_rows[of k row] by fastforce
    then obtain ticket token0 where t: "k = H ticket" "handle_ok ticket" "Issued ticket token0 \<in> set tr" "ticket \<notin> set (attached_tickets tr)"
        "(token0, bs_token (ht_session row0)) \<in> rotations tr"
      using inv unfolding custody_def tickets_ok_def by blast
    have "(token0, bs_token (ht_session row0)) \<in> rotations ?tr" using t(5) rotations_mono by blast
    then have "(token0, bs_token (ht_session row)) \<in> rotations ?tr"
      using row0(2) unfolding rotations_def by (auto intro: rtrancl.rtrancl_into_rtrancl)
    then show "\<exists>ticket token0. k = H ticket \<and> handle_ok ticket \<and> Issued ticket token0 \<in> set ?tr \<and>
        ticket \<notin> set (attached_tickets ?tr) \<and> (token0, bs_token (ht_session row)) \<in> rotations ?tr"
      using t by auto
  qed
  ultimately show ?thesis using assms(1) unfolding custody_def by fastforce
qed

lemma custody_issue:
  assumes inv: "custody H tr st" and fresh: "handle_ok ticket" "\<And>x. Issued ticket x \<notin> set tr"
    and call: "issue_ticket H ticket token expires now st = (r, st')"
  shows "custody H (tr @ (case r of Inl _ \<Rightarrow> [] | Inr t \<Rightarrow> [Issued t token])) st'"
proof (cases r)
  case (Inl e)
  then have "st' = ui_prune now st" using call by (auto simp: issue_ticket_def Let_def split: option.splits if_splits)
  then show ?thesis using Inl custody_prune[OF inv] by simp
next
  case (Inr t)
  let ?st = "ui_prune now st" and ?tr = "tr @ [Issued ticket token]"
  have t: "t = ticket" and s: "us_sessions st' = us_sessions ?st"
    and rows: "\<exists>row. us_tickets st' = dict_set (H ticket) row (us_tickets ?st) \<and> bs_token (ht_session row) = token"
    using call Inr by (auto simp: issue_ticket_def Let_def split: option.splits if_splits)
  have pr: "custody H ?tr ?st"
    by (rule custody_keep[OF custody_prune[OF inv, of now]]) auto
  have "ticket \<notin> set (attached_tickets ?tr)"
    using inv fresh(2) unfolding custody_def by auto
  then have new: "\<exists>tk token0. H ticket = H tk \<and> handle_ok tk \<and> Issued tk token0 \<in> set ?tr \<and> tk \<notin> set (attached_tickets ?tr) \<and>
      (token0, token) \<in> rotations ?tr"
    using fresh(1) by (intro exI[of _ ticket] exI[of _ token]) (simp add: rotations_def)
  obtain row0 where row0: "us_tickets st' = dict_set (H ticket) row0 (us_tickets ?st)" "bs_token (ht_session row0) = token"
    using rows by blast
  have "tickets_ok H ?tr (us_tickets st')"
    unfolding tickets_ok_def
  proof clarify
    fix k row assume "(k, row) \<in> set (us_tickets st')"
    then have "(k, row) = (H ticket, row0) \<or> (k, row) \<in> set (us_tickets ?st)"
      using row0(1) dict_set_subset[of "H ticket" row0 "us_tickets ?st"] by auto
    then show "\<exists>tk token0. k = H tk \<and> handle_ok tk \<and> Issued tk token0 \<in> set ?tr \<and> tk \<notin> set (attached_tickets ?tr) \<and>
        (token0, bs_token (ht_session row)) \<in> rotations ?tr"
      using new row0(2) pr unfolding custody_def tickets_ok_def by blast
  qed
  then show ?thesis using pr Inr t s unfolding custody_def by simp
qed

lemma custody_attach:
  assumes inv: "custody H tr st" and fresh: "handle_ok handle"
    and call: "attach_ticket H ticket previous handle now st = (r, st')"
    and inj: "inj_on H (insert ticket (presented tr))"
  shows "custody H (tr @ (case r of Inl _ \<Rightarrow> [] | Inr h \<Rightarrow> revoked_by previous @ [Attached ticket h])) st'"
proof (cases r)
  case (Inl e)
  then have "st' = ui_prune now st" using call by (auto simp: attach_ticket_def Let_def split: option.splits if_splits)
  then show ?thesis using Inl custody_prune[OF inv] by simp
next
  case (Inr t)
  let ?st = "ui_prune now st" and ?es = "revoked_by previous @ [Attached ticket handle]"
  have pr: "custody H tr ?st" by (rule custody_prune[OF inv])
  obtain row where t: "t = handle" and ok: "handle_ok ticket" and row: "(H ticket, row) \<in> set (us_tickets ?st)"
    and tickets: "us_tickets st' = pop_key (Some (H ticket)) (us_tickets ?st)"
    and sessions: "us_sessions st' = dict_set (H handle) (ht_session row)
       (if get_key (us_sessions ?st) (handle_key H previous) \<noteq> None then pop_key (handle_key H previous) (us_sessions ?st) else us_sessions ?st)"
    using call Inr by (auto simp: attach_ticket_def Let_def handle_key_def get_key_def split: option.splits if_splits dest!: dict_get_SomeD)
  obtain tk token0 where tk: "H ticket = H tk" "Issued tk token0 \<in> set tr" "tk \<notin> set (attached_tickets tr)"
      "(token0, bs_token (ht_session row)) \<in> rotations tr"
    using pr row unfolding custody_def tickets_ok_def by blast
  have same: "tk = ticket"
    using inj tk(1,2) by (auto simp: presented_def inj_on_def)
  have new: "handed_off (tr @ ?es) handle (bs_token (ht_session row))"
    unfolding handed_off_def using tk same rotations_mono[of tr ?es]
    by (intro exI[of _ "tr @ revoked_by previous"] exI[of _ "[]"] exI[of _ ticket] exI[of _ token0]) auto
  have old: "handed_off (tr @ ?es) h (bs_token row')" if "handed_off tr h (bs_token row')" "handle_ok h" "handle_key H previous \<noteq> Some (H h)" for h row'
    using that by (intro handed_off_append) (auto simp: not_revoked_by)
  have rows: "(k, row') = (H handle, ht_session row) \<or> ((k, row') \<in> set (us_sessions ?st) \<and> handle_key H previous \<noteq> Some k)"
    if "(k, row') \<in> set (us_sessions st')" for k row'
  proof -
    let ?d = "if get_key (us_sessions ?st) (handle_key H previous) \<noteq> None then pop_key (handle_key H previous) (us_sessions ?st) else us_sessions ?st"
    have "(k, row') = (H handle, ht_session row) \<or> (k, row') \<in> set ?d"
      using that sessions dict_set_subset[of "H handle" "ht_session row" ?d] by auto
    then show ?thesis
      by (auto simp: pop_key_rows get_key_def split: if_splits option.splits) (auto simp: dict_get_None_iff image_iff)
  qed
  have "sessions_ok H (tr @ ?es) (us_sessions st')"
    unfolding sessions_ok_def
  proof clarify
    fix k row' assume "(k, row') \<in> set (us_sessions st')"
    from rows[OF this] show "\<exists>h. k = H h \<and> handle_ok h \<and> handed_off (tr @ ?es) h (bs_token row')"
    proof
      assume "(k, row') = (H handle, ht_session row)"
      then show ?thesis using new fresh by blast
    next
      assume r: "(k, row') \<in> set (us_sessions ?st) \<and> handle_key H previous \<noteq> Some k"
      then obtain h where "k = H h" "handle_ok h" "handed_off tr h (bs_token row')"
        using pr unfolding custody_def sessions_ok_def by blast
      then show ?thesis using old r by blast
    qed
  qed
  moreover have "tickets_ok H (tr @ ?es) (us_tickets st')"
    unfolding tickets_ok_def
  proof clarify
    fix k row' assume "(k, row') \<in> set (us_tickets st')"
    then have k: "(k, row') \<in> set (us_tickets ?st)" "k \<noteq> H ticket" unfolding tickets pop_key_rows by auto
    then obtain tk' token1 where "k = H tk'" "handle_ok tk'" "Issued tk' token1 \<in> set tr" "tk' \<notin> set (attached_tickets tr)"
        "(token1, bs_token (ht_session row')) \<in> rotations tr"
      using pr unfolding custody_def tickets_ok_def by blast
    then show "\<exists>tk token0. k = H tk \<and> handle_ok tk \<and> Issued tk token0 \<in> set (tr @ ?es) \<and>
        tk \<notin> set (attached_tickets (tr @ ?es)) \<and> (token0, bs_token (ht_session row')) \<in> rotations (tr @ ?es)"
      using k(2) rotations_mono[of tr ?es] by (intro exI[of _ tk'] exI[of _ token1]) auto
  qed
  ultimately show ?thesis
    using pr Inr t tk same unfolding custody_def by auto
qed

lemma presented_mono: "presented tr \<subseteq> presented (tr @ es)"
  by (auto simp: presented_def)

lemma custody_step:
  assumes "custody H tr st" "fresh_secret tr op" "inj_on H (presented (tr @ ui_event H (now, op) st))"
  shows "custody H (tr @ ui_event H (now, op) st) (ui_step H (now, op) st)"
proof (cases op)
  case (Issue ticket token expires)
  then show ?thesis
    using assms custody_issue[of H tr st ticket token expires now] by (simp add: ui_event_def fresh_secret_def prod_eq_iff)
next
  case (Attach ticket previous handle)
  show ?thesis
  proof (cases "fst (attach_ticket H ticket previous handle now st)")
    case (Inl e)
    then have "ui_step H (now, op) st = ui_prune now st"
      using Attach by (auto simp: attach_ticket_def Let_def split: option.splits if_splits)
    then show ?thesis using Inl Attach custody_prune[OF assms(1), of now] by (simp add: ui_event_def)
  next
    case (Inr h)
    have "insert ticket (presented tr) \<subseteq> presented (tr @ ui_event H (now, op) st)"
      using Inr Attach by (auto simp: presented_def ui_event_def)
    then have "inj_on H (insert ticket (presented tr))" using assms(3) by (rule inj_on_subset[rotated])
    then show ?thesis
      using custody_attach[OF assms(1) _ surjective_pairing, of handle ticket previous now] assms(2) Attach Inr
      by (simp add: ui_event_def fresh_secret_def)
  qed
next
  case (Rotate previous token expires)
  then show ?thesis
    using custody_rotate[OF assms(1) surjective_pairing, of previous token expires now] by (simp add: ui_event_def)
next
  case (Revoke cookie)
  then show ?thesis using custody_revoke[OF assms(1), of cookie now] by (simp add: ui_event_def)
next
  case (Remember token device)
  have "us_tickets (remember_device H token device now st) = us_tickets (ui_prune now st)"
    "us_sessions (remember_device H token device now st) = us_sessions (ui_prune now st)"
    by (simp_all add: remember_device_def Let_def)
  then show ?thesis using Remember custody_prune[OF assms(1), of now] by (simp add: ui_event_def custody_def)
qed (use assms(1) custody_prune[OF assms(1), of now] custody_take in \<open>auto simp: ui_event_def current_token_def restore_session_def Let_def\<close>)

lemma custody_run:
  assumes "ui_run H st0 tr st" "us_tickets st0 = []" "us_sessions st0 = []" "inj_on H (presented tr)"
  shows "custody H tr st"
  using assms
proof (induction rule: ui_run.induct)
  case start
  then show ?case by (simp add: custody_def tickets_ok_def sessions_ok_def)
next
  case (call tr st op now)
  have "inj_on H (presented tr)" using call.prems(3) presented_mono by (rule inj_on_subset)
  then show ?case using call custody_step by blast
qed

definition minted :: "ui_event list \<Rightarrow> string set" where
  "minted tr = presented tr \<union> {h. \<exists>t. Attached t h \<in> set tr}"

lemma handed_off_minted: "handed_off tr h token \<Longrightarrow> h \<in> minted tr"
  by (auto simp: handed_off_def minted_def)

text \<open>C14: For every sequence of calls from an empty store: no ticket is exchanged twice, and a cookie restores a bearer
  token only before its deadline, only if the handle came from a ticket of a completed sign-in, was not
  revoked or replaced since, and the token is the one of that sign-in or a successor the authentication API rotated it to
  (SHA-256 does not collide on the secrets of the run).\<close>

theorem browser_handle_custody:
  assumes "browser_store_init max_tickets max_sessions ttl = Inr st0" "ui_run H st0 tr st" "inj_on H (insert c (minted tr))"
  shows "distinct (attached_tickets tr) \<and>
    (\<forall>token expires. fst (restore_session H (Some c) now st) = Some (token, expires) \<longrightarrow> now < expires \<and> handed_off tr c token)"
proof -
  have "inj_on H (presented tr)" using assms(3) by (rule inj_on_subset) (auto simp: minted_def)
  moreover have "us_tickets st0 = []" "us_sessions st0 = []"
    using assms(1) by (auto simp: browser_store_init_def split: if_splits)
  ultimately have inv: "custody H tr st" using custody_run[OF assms(2)] by blast
  show ?thesis
  proof (intro conjI allI impI)
    show "distinct (attached_tickets tr)" using inv by (simp add: custody_def)
    fix token expires assume "fst (restore_session H (Some c) now st) = Some (token, expires)"
    then obtain row where row: "(H c, row) \<in> set (us_sessions (ui_prune now st))" "token = bs_token row" "expires = bs_expires row"
      by (auto simp: restore_session_def Let_def get_key_def handle_key_def split: option.splits if_splits dest!: dict_get_SomeD)
    then show "now < expires" by (auto simp: ui_prune_def)
    obtain h where h: "H c = H h" "handed_off tr h token"
      using custody_prune[OF inv, of now] row unfolding custody_def sessions_ok_def by blast
    then have "h = c" using assms(3) handed_off_minted[of tr h token] by (auto simp: inj_on_def)
    then show "handed_off tr c token" using h(2) by simp
  qed
qed

definition demo_ticket :: string where "demo_ticket = replicate 43 (CHR ''A'')"
definition demo_handle :: string where "demo_handle = replicate 43 (CHR ''B'')"

definition demo_browser_store :: browser_store where
  "demo_browser_store = \<lparr>us_max_tickets = 2, us_max_sessions = 2, us_ticket_ttl = 60,
     us_tickets = [], us_sessions = [], us_successors = [], us_pending_devices = []\<rparr>"

definition demo_calls :: "(time \<times> ui_op) list" where
  "demo_calls = [(0, Issue demo_ticket ''login'' (Some 100)), (1, Attach demo_ticket None demo_handle), (2, Rotate ''login'' ''renewed'' 200)]"

fun ui_trace :: "(bytes \<Rightarrow> string) \<Rightarrow> (time \<times> ui_op) list \<Rightarrow> browser_store \<Rightarrow> ui_event list" where
  "ui_trace H [] st = []"
| "ui_trace H (x # xs) st = ui_event H x st @ ui_trace H xs (ui_step H x st)"

lemma demo_secrets [simp]: "handle_ok demo_ticket" "handle_ok demo_handle" "demo_ticket \<noteq> demo_handle"
  by code_simp+

lemma demo_browser_trace:
  "ui_trace id demo_calls demo_browser_store = [Issued demo_ticket ''login'', Attached demo_ticket demo_handle, Rotated ''login'' ''renewed'']"
  by code_simp

lemma demo_browser_restore:
  "fst (restore_session id (Some demo_handle) 3 (run_ops (ui_step id) demo_calls demo_browser_store)) = Some (''renewed'', 200)"
  by code_simp

lemma demo_browser_run: "ui_run id demo_browser_store (ui_trace id demo_calls demo_browser_store) (run_ops (ui_step id) demo_calls demo_browser_store)"
proof -
  let ?s = "\<lambda>n. run_ops (ui_step id) (take n demo_calls) demo_browser_store"
  have "ui_run id demo_browser_store [] (?s 0)" using ui_run.start[of id demo_browser_store] by simp
  note r1 = ui_run.call[OF this, of "Issue demo_ticket ''login'' (Some 100)" 0]
  have "ui_run id demo_browser_store ([] @ ui_event id (0, Issue demo_ticket ''login'' (Some 100)) (?s 0)) (?s 1)"
    using r1 by (simp add: fresh_secret_def demo_calls_def)
  note r2 = ui_run.call[OF this, of "Attach demo_ticket None demo_handle" 1]
  have "ui_run id demo_browser_store (([] @ ui_event id (0, Issue demo_ticket ''login'' (Some 100)) (?s 0)) @ ui_event id (1, Attach demo_ticket None demo_handle) (?s 1)) (?s 2)"
    using r2 by (simp add: fresh_secret_def demo_calls_def numeral_2_eq_2)
  note r3 = ui_run.call[OF this, of "Rotate ''login'' ''renewed'' 200" 2]
  show ?thesis
    using r3 by (simp add: fresh_secret_def demo_calls_def numeral_2_eq_2)
qed

theorem browser_handle_custody_witness:
  "browser_store_init 2 2 60 = Inr demo_browser_store \<and>
   fst (restore_session id (Some demo_handle) 3 (run_ops (ui_step id) demo_calls demo_browser_store)) = Some (''renewed'', 200) \<and>
   handed_off (ui_trace id demo_calls demo_browser_store) demo_handle ''renewed''"
proof -
  have init: "browser_store_init 2 2 60 = Inr demo_browser_store" by (simp add: browser_store_init_def demo_browser_store_def)
  have "handed_off (ui_trace id demo_calls demo_browser_store) demo_handle ''renewed''"
    using browser_handle_custody[OF init demo_browser_run, of demo_handle 3] demo_browser_restore by simp
  then show ?thesis using init demo_browser_restore by blast
qed

text \<open>However the store is called, the tickets and device tokens waiting for their handoff, the browser sessions and the
  remembered rotations stay within the configured bounds.\<close>

theorem browser_store_bounded:
  assumes "browser_store_init max_tickets max_sessions ttl = Inr st0"
  shows "ui_bounded (run_ops (ui_step H) calls st0) \<and>
    us_max_tickets (run_ops (ui_step H) calls st0) = max_tickets \<and> us_max_sessions (run_ops (ui_step H) calls st0) = max_sessions"
  by (rule browser_calls.run_inv) (use assms in \<open>auto simp: browser_store_init_def ui_bounded_def split: if_splits\<close>)

theorem browser_store_bounded_witness:
  "browser_store_init 2 2 60 = Inr demo_browser_store \<and> ui_bounded (run_ops (ui_step id) demo_calls demo_browser_store)"
proof -
  have init: "browser_store_init 2 2 60 = Inr demo_browser_store" by (simp add: browser_store_init_def demo_browser_store_def)
  then show ?thesis using browser_store_bounded[OF init, of id demo_calls] by blast
qed

end
