(* ===== verification/Recovery.thy ===== *)
theory Recovery
  imports Auth_Sessions Rate_Limiter Keys
begin

text \<open>
  Recovery of an account by email: the one-time codes of \<^verbatim>\<open>src/app/account_recovery.py\<close> and the routes of
  \<^verbatim>\<open>src/app/account_routes.py\<close> that verify, replace and remove the recovery address and reset a password.

  The state holds the accounts and bearer sessions (\<open>rv_auth\<close>), the columns of an account the guards do not read, the
  verified addresses, the code table in insertion order, the limiters and the delivered mail. HMAC-SHA-256 (\<open>hm\<close>), fresh codes and row
  identifiers, the two clocks (\<open>tick\<close> for limiters, \<open>now\<close> for rows), the breach service and whether the mailer accepts
  a message are arguments. A request that raises is rolled back to its last commit.
\<close>

section \<open>State\<close>

record credential_row =
  cr_password_hash :: string
  cr_failed_login :: int
  cr_locked_until :: "time option"
  cr_mfa_secret :: "string option"
  cr_mfa_failed :: int
  cr_mfa_locked_until :: "time option"

record email_row =
  em_email :: string
  em_normalized :: string
  em_verified_at :: time

record code_row =
  co_user :: string
  co_purpose :: string
  co_hash :: string
  co_target :: "string option"
  co_attempts :: int
  co_expires :: time
  co_consumed :: "time option"
  co_created :: time

record mail =
  ml_to :: string
  ml_template :: string
  ml_code :: "string option"

record recovery_db =
  rv_auth :: auth_db
  rv_credentials :: "(string, credential_row) pydict"
  rv_emails :: "(string, email_row) pydict"
  rv_codes :: "(string, code_row) pydict"
  rv_limiter :: limiter
  rv_login_limiter :: limiter
  rv_outbox :: "mail list"

definition audit_recovery :: "string \<Rightarrow> string option \<Rightarrow> string \<Rightarrow> string \<Rightarrow> recovery_db \<Rightarrow> recovery_db" where
  "audit_recovery event actor outcome reason db = db\<lparr>rv_auth := audit_entry event actor outcome reason (rv_auth db)\<rparr>"

section \<open>Codes\<close>

definition CODE_LENGTH :: nat where "CODE_LENGTH = 10"
definition MAX_CODE_ATTEMPTS :: int where "MAX_CODE_ATTEMPTS = 5"
definition CODE_ALPHABET :: string where "CODE_ALPHABET = ''abcdefghjkmnpqrstuvwxyz23456789''"

definition hexdigest :: "bytes \<Rightarrow> string" where
  "hexdigest b = concat (map (\<lambda>c. [hex_digit (code c div 16), hex_digit (code c mod 16)]) b)"

definition reset_context :: "string \<Rightarrow> string \<Rightarrow> string \<Rightarrow> bytes" where
  "reset_context user_id password_hash normalized_email =
     ''['' @ json_string True ''secure-chat:password-reset:v1'' @ '','' @ json_string True user_id @ '',''
       @ json_string True password_hash @ '','' @ json_string True normalized_email @ '']''"

definition derive_password_reset_key :: "(bytes \<Rightarrow> bytes \<Rightarrow> bytes) \<Rightarrow> bytes \<Rightarrow> string \<Rightarrow> string \<Rightarrow> string \<Rightarrow> bytes" where
  "derive_password_reset_key hm key user_id password_hash normalized_email = hm key (reset_context user_id password_hash normalized_email)"

definition hash_code :: "(bytes \<Rightarrow> bytes \<Rightarrow> bytes) \<Rightarrow> bytes \<Rightarrow> string \<Rightarrow> string" where
  "hash_code hm key c = hexdigest (hm key c)"

definition normalize_code :: "string \<Rightarrow> string" where
  "normalize_code v = take 32 (py_lower (filter (\<lambda>c. c \<noteq> CHR ''-'') (filter (\<lambda>c. \<not> is_space c) v)))"

definition format_code :: "string \<Rightarrow> string" where
  "format_code c = take 5 c @ ''-'' @ drop 5 c"

text \<open>\<^verbatim>\<open>update(AccountRecoveryCode).where(P, consumed_at IS NULL).values(consumed_at=now)\<close>\<close>

definition retire_codes :: "(string \<Rightarrow> code_row \<Rightarrow> bool) \<Rightarrow> time \<Rightarrow> recovery_db \<Rightarrow> recovery_db" where
  "retire_codes P now db =
     db\<lparr>rv_codes := dict_map (\<lambda>cid r. if P cid r \<and> co_consumed r = None then r\<lparr>co_consumed := Some now\<rparr> else r) (rv_codes db)\<rparr>"

definition issue_code ::
  "(bytes \<Rightarrow> bytes \<Rightarrow> bytes) \<Rightarrow> bytes \<Rightarrow> string \<Rightarrow> string \<Rightarrow> time \<Rightarrow> int \<Rightarrow> string option \<Rightarrow> string \<Rightarrow> string \<Rightarrow> recovery_db \<Rightarrow> recovery_db" where
  "issue_code hm key user_id purpose now minutes target c cid db =
     (let db1 = retire_codes (\<lambda>_ r. co_user r = user_id \<and> co_purpose r = purpose) now db
      in db1\<lparr>rv_codes := dict_set cid
               \<lparr>co_user = user_id, co_purpose = purpose, co_hash = hash_code hm key c, co_target = target, co_attempts = 0,
                co_expires = now + of_int (60 * minutes), co_consumed = None, co_created = now\<rparr> (rv_codes db1)\<rparr>)"

definition newest_code :: "string \<Rightarrow> string \<Rightarrow> recovery_db \<Rightarrow> (string \<times> code_row) option" where
  "newest_code user_id purpose db =
     (case sort_key (\<lambda>(_, r). - co_created r)
             (filter (\<lambda>(_, r). co_user r = user_id \<and> co_purpose r = purpose \<and> co_consumed r = None) (rv_codes db)) of
        [] \<Rightarrow> None
      | p # _ \<Rightarrow> Some p)"

definition set_code :: "string \<Rightarrow> code_row \<Rightarrow> recovery_db \<Rightarrow> recovery_db" where
  "set_code cid r db = db\<lparr>rv_codes := dict_set cid r (rv_codes db)\<rparr>"

text \<open>A candidate is compared as a hexadecimal digest; both sides are ASCII. The claim of the row is the conditional update.\<close>

definition consume_code ::
  "(bytes \<Rightarrow> bytes \<Rightarrow> bytes) \<Rightarrow> bytes \<Rightarrow> string \<Rightarrow> string \<Rightarrow> string \<Rightarrow> time \<Rightarrow> recovery_db \<Rightarrow> (string \<times> code_row) option \<times> recovery_db" where
  "consume_code hm key user_id purpose typed now db =
     (case newest_code user_id purpose db of
        None \<Rightarrow> (None, db)
      | Some (cid, record) \<Rightarrow>
          if co_expires record \<le> now then (None, db)
          else
            (let candidate = normalize_code typed
             in if length candidate \<noteq> CODE_LENGTH \<or> (if is_ascii candidate then hash_code hm key candidate else []) \<noteq> co_hash record
                then (let attempts = co_attempts record + 1
                      in (None, set_code cid
                                  (record\<lparr>co_attempts := attempts,
                                          co_consumed := if attempts \<ge> MAX_CODE_ATTEMPTS then Some now else co_consumed record\<rparr>) db))
                else (case dict_get (rv_codes db) cid of
                        None \<Rightarrow> (None, db)
                      | Some current \<Rightarrow>
                          if co_consumed current = None
                          then (Some (cid, record), set_code cid (current\<lparr>co_consumed := Some now\<rparr>) db)
                          else (None, db))))"

section \<open>Mail\<close>

text \<open>\<^verbatim>\<open>_EMAIL_RE\<close>: a local part, one at-sign and at least two labels.\<close>

definition local_char :: "char \<Rightarrow> bool" where
  "local_char c \<longleftrightarrow> is_ascii_alnum c \<or> c \<in> set [CHR ''.'', CHR ''!'', CHR ''#'', CHR ''$'', CHR ''%'', CHR ''&'', CHR 0x27, CHR ''*'', CHR ''+'',
     CHR ''/'', CHR ''='', CHR ''?'', CHR ''^'', CHR ''_'', CHR 0x60, CHR ''{'', CHR ''|'', CHR ''}'', CHR ''~'', CHR ''-'']"

fun labels :: "string \<Rightarrow> string list" where
  "labels [] = [[]]"
| "labels (c # s) = (if c = CHR ''.'' then [] # labels s else (c # hd (labels s)) # tl (labels s))"

definition email_match :: "string \<Rightarrow> bool" where
  "email_match s =
     (let user = takeWhile (\<lambda>c. c \<noteq> CHR ''@'') s;
          rest = dropWhile (\<lambda>c. c \<noteq> CHR ''@'') s
      in 1 \<le> length user \<and> length user \<le> 64 \<and> list_all local_char user \<and> rest \<noteq> [] \<and> 2 \<le> length (labels (tl rest)) \<and>
         list_all (\<lambda>l. l \<noteq> [] \<and> list_all (\<lambda>c. is_ascii_alnum c \<or> c = CHR ''-'') l) (labels (tl rest)))"

definition normalize_email :: "string \<Rightarrow> string option" where
  "normalize_email v =
     (let candidate = py_strip v;
          user = takeWhile (\<lambda>c. c \<noteq> CHR ''@'') candidate;
          domain = tl (dropWhile (\<lambda>c. c \<noteq> CHR ''@'') candidate)
      in if length candidate > 254 \<or> list_ex (\<lambda>c. c \<in> set [CHR 0x0D, CHR 0x0A, CHR 0x00, CHR ''<'', CHR ''>'', CHR '','', CHR '';'', CHR 0x22, CHR '' '']) candidate then None
         else if \<not> email_match candidate then None
         else if startswith domain ''-'' \<or> contains candidate ''..'' \<or> startswith user ''.'' \<or> (user \<noteq> [] \<and> last user = CHR ''.'') then None
         else Some (py_lower candidate))"

definition deliver :: "string \<Rightarrow> string \<Rightarrow> string option \<Rightarrow> recovery_db \<Rightarrow> recovery_db" where
  "deliver to template c db = db\<lparr>rv_outbox := rv_outbox db @ [\<lparr>ml_to = to, ml_template = template, ml_code = c\<rparr>]\<rparr>"

text \<open>\<^verbatim>\<open>notify\<close> over email: nothing happens when there is no address or the mailer does not accept the message.\<close>

definition notify :: "bool \<Rightarrow> bool \<Rightarrow> string \<Rightarrow> string \<Rightarrow> string option \<Rightarrow> recovery_db \<Rightarrow> recovery_db" where
  "notify mail_on mail_ok user_id kind to db =
     (if \<not> mail_on then db
      else case (case to of Some a \<Rightarrow> Some a | None \<Rightarrow> map_option em_email (dict_get (rv_emails db) user_id)) of
        None \<Rightarrow> db
      | Some address \<Rightarrow> if address = [] \<or> \<not> mail_ok then db else deliver address kind None db)"

section \<open>Routes\<close>

definition throttle :: "string \<Rightarrow> int \<Rightarrow> int \<Rightarrow> string \<Rightarrow> string option \<Rightarrow> time \<Rightarrow> recovery_db \<Rightarrow> nat option \<times> recovery_db" where
  "throttle key max_attempts window_seconds event actor tick db =
     (case rl_allow key max_attempts window_seconds tick (rv_limiter db) of
        (Inl _, lm) \<Rightarrow> (Some 500, db\<lparr>rv_limiter := lm\<rparr>)
      | (Inr (allowed, _), lm) \<Rightarrow>
          if allowed then (None, db\<lparr>rv_limiter := lm\<rparr>)
          else (Some 429, audit_recovery event actor ''blocked'' ''rate_limit'' (db\<lparr>rv_limiter := lm\<rparr>)))"

record email_state =
  ev_email :: "string option"
  ev_verified_at :: "time option"
  ev_pending :: "string option"
  ev_delivery :: bool

definition email_view :: "bool \<Rightarrow> string \<Rightarrow> time \<Rightarrow> recovery_db \<Rightarrow> email_state" where
  "email_view mail_on uid now db =
     \<lparr>ev_email = map_option em_email (dict_get (rv_emails db) uid),
      ev_verified_at = map_option em_verified_at (dict_get (rv_emails db) uid),
      ev_pending = (case sort_key (\<lambda>(_, r). - co_created r)
          (filter (\<lambda>(_, r). co_user r = uid \<and> co_purpose r = ''email_verify'' \<and> co_consumed r = None \<and> co_expires r > now) (rv_codes db)) of
            [] \<Rightarrow> None | (_, r) # _ \<Rightarrow> co_target r),
      ev_delivery = mail_on\<rparr>"

text \<open>What the routes are given: the HMAC, the recovery key, the lifetime of a code and whether mail is configured.\<close>

record recovery_env =
  re_hm :: "bytes \<Rightarrow> bytes \<Rightarrow> bytes"
  re_key :: bytes
  re_minutes :: int
  re_mail_on :: bool
  re_auth :: auth_settings

definition request_email_verification ::
  "recovery_env \<Rightarrow> bool \<Rightarrow> claims option \<Rightarrow> string \<Rightarrow> string \<Rightarrow> string \<Rightarrow> string \<Rightarrow> time \<Rightarrow> time \<Rightarrow> recovery_db \<Rightarrow> (nat + email_state) \<times> recovery_db" where
  "request_email_verification E mail_ok token uid address c cid tick now db =
     (if \<not> re_mail_on E then (Inl 501, db)
      else case normalize_email address of
        None \<Rightarrow> (Inl 422, db)
      | Some normalized \<Rightarrow>
          (case throttle (''email-verify:'' @ uid) 5 3600 ''account.email.verification'' (Some uid) tick db of
             (Some e, db1) \<Rightarrow> (Inl e, db1)
           | (None, db1) \<Rightarrow>
               (case lock_account_mutation (re_auth E) token uid True now (rv_auth db1) of
                  Inl e \<Rightarrow> (Inl e, db1)
                | Inr _ \<Rightarrow>
                    (let db2 = issue_code (re_hm E) (re_key E) uid ''email_verify'' now (re_minutes E) (Some normalized) c cid db1;
                         db3 = audit_recovery ''account.email.verification'' (Some uid) ''success'' [] db2
                     in if mail_ok
                        then (let db4 = deliver normalized ''email_verify'' (Some c) db3 in (Inr (email_view True uid now db4), db4))
                        else (Inl 503, db3)))))"

text \<open>A verified address replaces the one on record; a change retires the reset codes sent to the previous one.\<close>

definition store_email :: "recovery_env \<Rightarrow> bool \<Rightarrow> string \<Rightarrow> string \<Rightarrow> time \<Rightarrow> recovery_db \<Rightarrow> recovery_db" where
  "store_email E mail_ok uid target now db =
     (let previous = map_option em_email (dict_get (rv_emails db) uid);
          db1 = db\<lparr>rv_emails := dict_set uid \<lparr>em_email = target, em_normalized = target, em_verified_at = now\<rparr> (rv_emails db)\<rparr>;
          db2 = (if previous \<noteq> Some target
                 then retire_codes (\<lambda>_ r. co_user r = uid \<and> co_purpose r = ''password_reset'') now db1 else db1);
          db3 = audit_recovery ''account.email.verify'' (Some uid) ''success'' [] db2
      in case previous of
           None \<Rightarrow> db3
         | Some p \<Rightarrow> if p \<noteq> [] \<and> p \<noteq> target then notify (re_mail_on E) mail_ok uid ''email_changed'' (Some p) db3 else db3)"

definition verify_account_email ::
  "recovery_env \<Rightarrow> bool \<Rightarrow> claims option \<Rightarrow> string \<Rightarrow> string \<Rightarrow> time \<Rightarrow> time \<Rightarrow> recovery_db \<Rightarrow> (nat + email_state) \<times> recovery_db" where
  "verify_account_email E mail_ok token uid typed tick now db =
     (case throttle (''email-verify-code:'' @ uid) 10 3600 ''account.email.verify'' (Some uid) tick db of
        (Some e, db1) \<Rightarrow> (Inl e, db1)
      | (None, db1) \<Rightarrow>
          (case lock_account_mutation (re_auth E) token uid False now (rv_auth db1) of
             Inl e \<Rightarrow> (Inl e, db1)
           | Inr _ \<Rightarrow>
               (case consume_code (re_hm E) (re_key E) uid ''email_verify'' typed now db1 of
                  (consumed, db2) \<Rightarrow>
                    (case (case consumed of None \<Rightarrow> None | Some (_, record) \<Rightarrow> co_target record) of
                       None \<Rightarrow> (Inl 400, audit_recovery ''account.email.verify'' (Some uid) ''failure'' ''invalid_code'' db2)
                     | Some target \<Rightarrow>
                         if target = [] then (Inl 400, audit_recovery ''account.email.verify'' (Some uid) ''failure'' ''invalid_code'' db2)
                         else if list_ex (\<lambda>(u, e). u \<noteq> uid \<and> em_normalized e = target) (rv_emails db2) then (Inl 409, db1)
                         else
                           (let db3 = store_email E mail_ok uid target now db2
                            in (Inr (email_view (re_mail_on E) uid now db3), db3))))))"

definition remove_account_email ::
  "recovery_env \<Rightarrow> bool \<Rightarrow> claims option \<Rightarrow> string \<Rightarrow> time \<Rightarrow> recovery_db \<Rightarrow> (nat + unit) \<times> recovery_db" where
  "remove_account_email E mail_ok token uid now db =
     (case lock_account_mutation (re_auth E) token uid True now (rv_auth db) of
        Inl e \<Rightarrow> (Inl e, db)
      | Inr _ \<Rightarrow>
          (case dict_get (rv_emails db) uid of
             None \<Rightarrow> (Inl 404, db)
           | Some record \<Rightarrow>
               (let db1 = db\<lparr>rv_emails := dict_pop uid (rv_emails db)\<rparr>;
                    db2 = retire_codes (\<lambda>_ r. co_user r = uid) now db1;
                    db3 = audit_recovery ''account.email.remove'' (Some uid) ''success'' [] db2
                in (Inr (), notify (re_mail_on E) mail_ok uid ''email_changed'' (Some (em_email record)) db3))))"

definition find_account :: "string \<Rightarrow> recovery_db \<Rightarrow> string option" where
  "find_account identifier db =
     (case normalize_email identifier of
        Some normalized \<Rightarrow>
          (case find (\<lambda>(_, e). em_normalized e = normalized) (rv_emails db) of
             None \<Rightarrow> None
           | Some (uid, _) \<Rightarrow> if dict_has (ad_users (rv_auth db)) uid then Some uid else None)
      | None \<Rightarrow> map_option fst (find (\<lambda>(_, u). ur_username u = py_lower (py_strip identifier)) (ad_users (rv_auth db))))"

definition password_of :: "string \<Rightarrow> recovery_db \<Rightarrow> string" where
  "password_of uid db = (case dict_get (rv_credentials db) uid of None \<Rightarrow> [] | Some r \<Rightarrow> cr_password_hash r)"

definition reset_key :: "recovery_env \<Rightarrow> string \<Rightarrow> email_row \<Rightarrow> recovery_db \<Rightarrow> bytes" where
  "reset_key E uid email db = derive_password_reset_key (re_hm E) (re_key E) uid (password_of uid db) (em_normalized email)"

text \<open>Every answer but the refusals of the guards is the same \<^verbatim>\<open>RESET_ACCEPTED\<close> (\<open>None\<close>).\<close>

definition request_password_reset ::
  "recovery_env \<Rightarrow> bool \<Rightarrow> string \<Rightarrow> string \<Rightarrow> string \<Rightarrow> string \<Rightarrow> time \<Rightarrow> time \<Rightarrow> recovery_db \<Rightarrow> nat option \<times> recovery_db" where
  "request_password_reset E mail_ok identifier ip c cid tick now db =
     (if \<not> re_mail_on E then (Some 501, db)
      else case throttle (''reset-request:ip:'' @ ip) 5 900 ''auth.password_reset.request'' None tick db of
        (Some e, db1) \<Rightarrow> (Some e, db1)
      | (None, db1) \<Rightarrow>
          (case (case find_account identifier db1 of
                   None \<Rightarrow> None
                 | Some uid \<Rightarrow> if lock_user_row uid True (rv_auth db1) = None then None else Some uid) of
             None \<Rightarrow> (None, audit_recovery ''auth.password_reset.request'' None ''failure'' ''unknown_or_inactive_account'' db1)
           | Some uid \<Rightarrow>
               (case rl_allow (''reset-request:user:'' @ uid) 3 3600 tick (rv_limiter db1) of
                  (Inl _, lm) \<Rightarrow> (Some 500, db1\<lparr>rv_limiter := lm\<rparr>)
                | (Inr (allowed, _), lm) \<Rightarrow>
                    (let db2 = db1\<lparr>rv_limiter := lm\<rparr>
                     in case dict_get (rv_emails db2) uid of
                          None \<Rightarrow> (None, audit_recovery ''auth.password_reset.request'' (Some uid) ''denied'' ''no_verified_email'' db2)
                        | Some email \<Rightarrow>
                            if \<not> allowed then (None, audit_recovery ''auth.password_reset.request'' (Some uid) ''denied'' ''rate_limit'' db2)
                            else
                              (let db3 = issue_code (re_hm E) (reset_key E uid email db2) uid ''password_reset'' now (re_minutes E) None c cid db2
                               in if mail_ok
                                  then (None, audit_recovery ''auth.password_reset.request'' (Some uid) ''success'' []
                                                (deliver (em_email email) ''password_reset'' (Some c) db3))
                                  else (None, audit_recovery ''auth.password_reset.request'' (Some uid) ''failure'' ''mail_unavailable''
                                                (retire_codes (\<lambda>i _. i = cid) now db3)))))))"

definition reset_credentials :: "string \<Rightarrow> credential_row \<Rightarrow> credential_row" where
  "reset_credentials hash r = r\<lparr>cr_password_hash := hash, cr_failed_login := 0, cr_locked_until := None\<rparr>"

definition clear_account_login_throttle :: "string \<Rightarrow> string \<Rightarrow> limiter \<Rightarrow> limiter" where
  "clear_account_login_throttle username ip lm =
     rl_reset (''login:account-familiar:'' @ username @ '':'' @ ip) (rl_reset (''login:account:'' @ username) lm)"

text \<open>What follows an accepted code.\<close>

definition finish_reset :: "recovery_env \<Rightarrow> bool \<Rightarrow> string \<Rightarrow> string \<Rightarrow> string \<Rightarrow> string \<Rightarrow> time \<Rightarrow> recovery_db \<Rightarrow> recovery_db" where
  "finish_reset E mail_ok uid username hash ip now db =
     (let db1 = db\<lparr>rv_credentials := dict_map (\<lambda>k r. if k = uid then reset_credentials hash r else r) (rv_credentials db),
                   rv_auth := revoke_all_auth_sessions uid now (rv_auth db)\<rparr>;
          db2 = retire_codes (\<lambda>_ r. co_user r = uid \<and> co_purpose r = ''password_reset'') now db1;
          db3 = audit_recovery ''auth.password_reset'' (Some uid) ''success'' [] db2;
          db4 = db3\<lparr>rv_login_limiter := clear_account_login_throttle username ip (rv_login_limiter db3)\<rparr>
      in notify (re_mail_on E) mail_ok uid ''password_reset'' None db4)"

text \<open>\<open>breach\<close> is the answer of the breach service, \<open>new_hash\<close> the hash of the new password; \<open>None\<close> is an outage of either.\<close>

definition confirm_password_reset ::
  "recovery_env \<Rightarrow> bool \<Rightarrow> bool option \<Rightarrow> string option \<Rightarrow> string \<Rightarrow> string \<Rightarrow> string \<Rightarrow> time \<Rightarrow> time \<Rightarrow> recovery_db \<Rightarrow> (nat + unit) \<times> recovery_db" where
  "confirm_password_reset E mail_ok breach new_hash identifier typed ip tick now db =
     (case throttle (''reset-confirm:ip:'' @ ip) 10 900 ''auth.password_reset'' None tick db of
        (Some e, db1) \<Rightarrow> (Inl e, db1)
      | (None, db1) \<Rightarrow>
          (case breach of
             None \<Rightarrow> (Inl 503, audit_recovery ''auth.password_reset'' (find_account identifier db1) ''failure'' ''password_breach_check_unavailable'' db1)
           | Some True \<Rightarrow> (Inl 400, db1)
           | Some False \<Rightarrow>
               (case (case find_account identifier db1 of
                        None \<Rightarrow> None
                      | Some uid \<Rightarrow> map_option (\<lambda>u. (uid, u)) (lock_user_row uid True (rv_auth db1))) of
                  None \<Rightarrow> (Inl 400, audit_recovery ''auth.password_reset'' None ''failure'' ''unknown_or_inactive_account'' db1)
                | Some (uid, u) \<Rightarrow>
                    (case (case dict_get (rv_emails db1) uid of
                             None \<Rightarrow> (None, db1)
                           | Some email \<Rightarrow> consume_code (re_hm E) (reset_key E uid email db1) uid ''password_reset'' typed now db1) of
                       (None, db2) \<Rightarrow> (Inl 400, audit_recovery ''auth.password_reset'' (Some uid) ''failure'' ''invalid_code'' db2)
                     | (Some _, db2) \<Rightarrow>
                         (case new_hash of
                            None \<Rightarrow> (Inl 503, db1)
                          | Some hash \<Rightarrow>
                              (Inr (), finish_reset E mail_ok uid (ur_username u) hash ip now db2))))))"

section \<open>What the code table promises\<close>

type_synonym issued = "string \<times> string \<times> string \<times> string"

text \<open>
  A live code has been guessed wrongly less than five times. A live reset code was derived from a password hash and an
  address of the account when it was issued (\<open>tr\<close>), and was mailed to that address.
\<close>

definition row_fine :: "recovery_env \<Rightarrow> issued list \<Rightarrow> mail list \<Rightarrow> code_row \<Rightarrow> bool" where
  "row_fine E tr outbox r \<longleftrightarrow>
     0 \<le> co_attempts r \<and> co_attempts r \<le> MAX_CODE_ATTEMPTS \<and> (co_consumed r = None \<longrightarrow> co_attempts r < MAX_CODE_ATTEMPTS) \<and>
     (co_consumed r = None \<and> co_purpose r = ''password_reset'' \<longrightarrow>
        (\<exists>pw address c. (co_user r, pw, address, c) \<in> set tr \<and>
           co_hash r = hash_code (re_hm E) (derive_password_reset_key (re_hm E) (re_key E) (co_user r) pw address) c \<and>
           \<lparr>ml_to = address, ml_template = ''password_reset'', ml_code = Some c\<rparr> \<in> set outbox))"

definition codes_fine :: "recovery_env \<Rightarrow> issued list \<Rightarrow> mail list \<Rightarrow> (string, code_row) pydict \<Rightarrow> bool" where
  "codes_fine E tr outbox codes \<longleftrightarrow>
     dict_ok codes \<and> (\<forall>cid r. dict_get codes cid = Some r \<longrightarrow> row_fine E tr outbox r) \<and>
     (\<forall>cid r cid' r'. dict_get codes cid = Some r \<and> dict_get codes cid' = Some r' \<and> co_consumed r = None \<and> co_consumed r' = None \<and>
        co_user r = co_user r' \<and> co_purpose r = co_purpose r' \<longrightarrow> cid = cid')"

lemma codes_fineI:
  assumes "dict_ok codes" "\<And>cid r. dict_get codes cid = Some r \<Longrightarrow> row_fine E tr outbox r"
    "\<And>cid r cid' r'. dict_get codes cid = Some r \<Longrightarrow> dict_get codes cid' = Some r' \<Longrightarrow> co_consumed r = None \<Longrightarrow> co_consumed r' = None \<Longrightarrow>
       co_user r = co_user r' \<Longrightarrow> co_purpose r = co_purpose r' \<Longrightarrow> cid = cid'"
  shows "codes_fine E tr outbox codes"
  using assms unfolding codes_fine_def by blast

lemma codes_fineD:
  assumes "codes_fine E tr outbox codes"
  shows "dict_ok codes" "dict_get codes cid = Some r \<Longrightarrow> row_fine E tr outbox r"
    "dict_get codes cid = Some r \<Longrightarrow> dict_get codes cid' = Some r' \<Longrightarrow> co_consumed r = None \<Longrightarrow> co_consumed r' = None \<Longrightarrow>
       co_user r = co_user r' \<Longrightarrow> co_purpose r = co_purpose r' \<Longrightarrow> cid = cid'"
  using assms unfolding codes_fine_def by blast+

lemma row_fine_mono:
  assumes "row_fine E tr outbox r" "set tr \<subseteq> set tr'" "set outbox \<subseteq> set outbox'"
  shows "row_fine E tr' outbox' r"
  using assms unfolding row_fine_def by blast

lemma codes_fine_mono:
  assumes "codes_fine E tr outbox codes" "set tr \<subseteq> set tr'" "set outbox \<subseteq> set outbox'"
  shows "codes_fine E tr' outbox' codes"
  using assms(1) row_fine_mono[OF _ assms(2,3)] unfolding codes_fine_def by blast

lemma codes_fine_submap:
  assumes "codes_fine E tr outbox codes" "dict_ok codes'" "\<And>cid r. dict_get codes' cid = Some r \<Longrightarrow> dict_get codes cid = Some r"
  shows "codes_fine E tr outbox codes'"
  using assms unfolding codes_fine_def by blast

lemma retired_get:
  "dict_get (rv_codes (retire_codes P now db)) cid =
     map_option (\<lambda>r. if P cid r \<and> co_consumed r = None then r\<lparr>co_consumed := Some now\<rparr> else r) (dict_get (rv_codes db) cid)"
  by (simp add: retire_codes_def)

lemma retire_fields [simp]:
  "rv_auth (retire_codes P now db) = rv_auth db" "rv_credentials (retire_codes P now db) = rv_credentials db"
  "rv_emails (retire_codes P now db) = rv_emails db" "rv_outbox (retire_codes P now db) = rv_outbox db"
  by (simp_all add: retire_codes_def)

lemma codes_fine_retire:
  assumes "codes_fine E tr outbox (rv_codes db)"
  shows "codes_fine E tr outbox (rv_codes (retire_codes P now db))"
proof -
  have old: "\<exists>r0. dict_get (rv_codes db) cid = Some r0 \<and> co_user r = co_user r0 \<and> co_purpose r = co_purpose r0 \<and> (co_consumed r = None \<longrightarrow> r = r0) \<and> co_attempts r = co_attempts r0"
    if "dict_get (rv_codes (retire_codes P now db)) cid = Some r" for cid r
    using that by (auto simp: retired_get split: if_splits)
  show ?thesis
  proof (rule codes_fineI)
    show "dict_ok (rv_codes (retire_codes P now db))" using codes_fineD(1)[OF assms] by (simp add: retire_codes_def)
  next
    fix cid r assume "dict_get (rv_codes (retire_codes P now db)) cid = Some r"
    then obtain r0 where "dict_get (rv_codes db) cid = Some r0" "co_user r = co_user r0" "co_consumed r = None \<longrightarrow> r = r0" "co_attempts r = co_attempts r0"
      using old by blast
    then show "row_fine E tr outbox r"
      using codes_fineD(2)[OF assms, of cid r0] by (cases "co_consumed r") (auto simp: row_fine_def)
  next
    fix cid r cid' r'
    assume "dict_get (rv_codes (retire_codes P now db)) cid = Some r" "dict_get (rv_codes (retire_codes P now db)) cid' = Some r'"
      and live: "co_consumed r = None" "co_consumed r' = None" and same: "co_user r = co_user r'" "co_purpose r = co_purpose r'"
    then have "dict_get (rv_codes db) cid = Some r" "dict_get (rv_codes db) cid' = Some r'" using old by blast+
    then show "cid = cid'" by (rule codes_fineD(3)[OF assms _ _ live same])
  qed
qed

lemma codes_fine_issue:
  assumes "codes_fine E tr outbox (rv_codes db)" "dict_get (rv_codes db) cid = None"
    and new: "purpose = ''password_reset'' \<Longrightarrow> key = derive_password_reset_key (re_hm E) (re_key E) uid pw address \<and> (uid, pw, address, c) \<in> set tr \<and>
       \<lparr>ml_to = address, ml_template = ''password_reset'', ml_code = Some c\<rparr> \<in> set outbox"
  shows "codes_fine E tr outbox (rv_codes (issue_code (re_hm E) key uid purpose now minutes target c cid db))"
proof -
  let ?db1 = "retire_codes (\<lambda>_ r. co_user r = uid \<and> co_purpose r = purpose) now db"
  define r0 where "r0 = \<lparr>co_user = uid, co_purpose = purpose, co_hash = hash_code (re_hm E) key c, co_target = target, co_attempts = 0,
      co_expires = now + of_int (60 * minutes), co_consumed = None, co_created = now\<rparr>"
  have codes: "rv_codes (issue_code (re_hm E) key uid purpose now minutes target c cid db) = dict_set cid r0 (rv_codes ?db1)"
    by (simp add: issue_code_def Let_def r0_def)
  have fine: "codes_fine E tr outbox (rv_codes ?db1)" by (rule codes_fine_retire[OF assms(1)])
  have r0: "row_fine E tr outbox r0"
    unfolding row_fine_def r0_def using new by (simp add: MAX_CODE_ATTEMPTS_def) blast
  have none: "co_user r \<noteq> uid \<or> co_purpose r \<noteq> purpose" if get: "dict_get (rv_codes ?db1) k = Some r" "co_consumed r = None" for k r
  proof -
    obtain r1 where r1: "r = (if (co_user r1 = uid \<and> co_purpose r1 = purpose) \<and> co_consumed r1 = None then r1\<lparr>co_consumed := Some now\<rparr> else r1)"
      using get(1) by (auto simp: retired_get)
    show ?thesis
    proof (cases "(co_user r1 = uid \<and> co_purpose r1 = purpose) \<and> co_consumed r1 = None")
      case True
      have "co_consumed r = Some now" unfolding r1 if_P[OF True] by simp
      then show ?thesis using get(2) by simp
    next
      case False
      have "r = r1" using r1 unfolding if_not_P[OF False] .
      then show ?thesis using False get(2) by blast
    qed
  qed
  show ?thesis
    unfolding codes
  proof (rule codes_fineI)
    show "dict_ok (dict_set cid r0 (rv_codes ?db1))" using codes_fineD(1)[OF fine] by simp
  next
    fix k r assume "dict_get (dict_set cid r0 (rv_codes ?db1)) k = Some r"
    then show "row_fine E tr outbox r" using r0 codes_fineD(2)[OF fine, of k r] by (auto split: if_splits)
  next
    fix k r k' r'
    assume get: "dict_get (dict_set cid r0 (rv_codes ?db1)) k = Some r" "dict_get (dict_set cid r0 (rv_codes ?db1)) k' = Some r'"
      and live: "co_consumed r = None" "co_consumed r' = None" and same: "co_user r = co_user r'" "co_purpose r = co_purpose r'"
    show "k = k'"
    proof (cases "k = cid \<or> k' = cid")
      case True
      then show ?thesis using get live same none[of k r] none[of k' r'] by (auto simp: r0_def split: if_splits)
    next
      case False
      then show ?thesis using get live same by (intro codes_fineD(3)[OF fine, of k r k' r']) auto
    qed
  qed
qed

lemma newest_code_Some:
  assumes "newest_code uid purpose db = Some (cid, r)" "dict_ok (rv_codes db)"
  shows "dict_get (rv_codes db) cid = Some r" "co_user r = uid" "co_purpose r = purpose" "co_consumed r = None"
proof -
  let ?rows = "filter (\<lambda>(_, r). co_user r = uid \<and> co_purpose r = purpose \<and> co_consumed r = None) (rv_codes db)"
  obtain rest where s: "sort_key (\<lambda>(_, r). - co_created r) ?rows = (cid, r) # rest"
    using assms(1) by (auto simp: newest_code_def split: list.splits)
  have "(cid, r) \<in> set ?rows" using arg_cong[OF s, of set] by (simp only: set_sort) auto
  then show "dict_get (rv_codes db) cid = Some r" "co_user r = uid" "co_purpose r = purpose" "co_consumed r = None"
    using assms(2) by (auto simp: dict_get_mem)
qed

lemma codes_fine_update:
  assumes "codes_fine E tr outbox codes" "dict_get codes cid = Some r" "row_fine E tr outbox r'"
    "co_user r' = co_user r" "co_purpose r' = co_purpose r" "co_consumed r' = None \<Longrightarrow> co_consumed r = None"
  shows "codes_fine E tr outbox (dict_set cid r' codes)"
proof (rule codes_fineI)
  show "dict_ok (dict_set cid r' codes)" using codes_fineD(1)[OF assms(1)] by simp
next
  fix k q assume "dict_get (dict_set cid r' codes) k = Some q"
  then show "row_fine E tr outbox q" using assms(3) codes_fineD(2)[OF assms(1), of k q] by (auto split: if_splits)
next
  fix k q k' q'
  assume get: "dict_get (dict_set cid r' codes) k = Some q" "dict_get (dict_set cid r' codes) k' = Some q'"
    and live: "co_consumed q = None" "co_consumed q' = None" and same: "co_user q = co_user q'" "co_purpose q = co_purpose q'"
  obtain p p' where "dict_get codes k = Some p" "dict_get codes k' = Some p'" "co_consumed p = None" "co_consumed p' = None"
      "co_user p = co_user q" "co_purpose p = co_purpose q" "co_user p' = co_user q'" "co_purpose p' = co_purpose q'"
    using get live assms(2,4,5,6) by (metis (no_types, lifting) dict_get_set option.inject)
  then show "k = k'" using same codes_fineD(3)[OF assms(1), of k p k' p'] by simp
qed

text \<open>What an attempt with a code does to the table and when it succeeds.\<close>

lemma consume_code_spec:
  assumes "consume_code hm key uid purpose typed now db = (res, db')" "codes_fine E tr outbox (rv_codes db)"
  shows "codes_fine E tr outbox (rv_codes db')"
    "rv_auth db' = rv_auth db" "rv_credentials db' = rv_credentials db" "rv_emails db' = rv_emails db" "rv_outbox db' = rv_outbox db"
    "res = Some (cid, r) \<Longrightarrow> dict_get (rv_codes db) cid = Some r \<and> co_user r = uid \<and> co_purpose r = purpose \<and> co_consumed r = None \<and> now < co_expires r \<and>
       length (normalize_code typed) = CODE_LENGTH \<and> co_hash r = (if is_ascii (normalize_code typed) then hash_code hm key (normalize_code typed) else []) \<and>
       dict_get (rv_codes db') cid = Some (r\<lparr>co_consumed := Some now\<rparr>)"
proof -
  show "rv_auth db' = rv_auth db" "rv_credentials db' = rv_credentials db" "rv_emails db' = rv_emails db" "rv_outbox db' = rv_outbox db"
    using assms(1) by (auto simp: consume_code_def set_code_def Let_def split: option.splits if_splits)
  have new: "dict_get (rv_codes db) c = Some q" "co_user q = uid" "co_purpose q = purpose" "co_consumed q = None" "row_fine E tr outbox q"
    if "newest_code uid purpose db = Some (c, q)" for c q
    using newest_code_Some[OF that codes_fineD(1)[OF assms(2)]] codes_fineD(2)[OF assms(2), of c q] by blast+
  show "codes_fine E tr outbox (rv_codes db')"
  proof (cases "newest_code uid purpose db")
    case None
    then show ?thesis using assms by (simp add: consume_code_def)
  next
    case (Some p)
    obtain c q where p: "p = (c, q)" by (cases p)
    note q = new[OF Some[unfolded p]]
    let ?wrong = "q\<lparr>co_attempts := co_attempts q + 1, co_consumed := if co_attempts q + 1 \<ge> MAX_CODE_ATTEMPTS then Some now else co_consumed q\<rparr>"
    let ?used = "q\<lparr>co_consumed := Some now\<rparr>"
    have "rv_codes db' \<in> {rv_codes db, dict_set c ?wrong (rv_codes db), dict_set c ?used (rv_codes db)}"
      using assms(1) Some p q(1) by (auto simp: consume_code_def set_code_def Let_def split: if_splits)
    moreover have "row_fine E tr outbox ?wrong" "row_fine E tr outbox ?used"
      using q(4,5) by (auto simp: row_fine_def)
    then have "codes_fine E tr outbox (dict_set c ?wrong (rv_codes db))" "codes_fine E tr outbox (dict_set c ?used (rv_codes db))"
      using q(4) by (auto intro!: codes_fine_update[OF assms(2) q(1)])
    ultimately show ?thesis using assms(2) by auto
  qed
  show "dict_get (rv_codes db) cid = Some r \<and> co_user r = uid \<and> co_purpose r = purpose \<and> co_consumed r = None \<and> now < co_expires r \<and>
       length (normalize_code typed) = CODE_LENGTH \<and> co_hash r = (if is_ascii (normalize_code typed) then hash_code hm key (normalize_code typed) else []) \<and>
       dict_get (rv_codes db') cid = Some (r\<lparr>co_consumed := Some now\<rparr>)" if "res = Some (cid, r)"
  proof -
    have n: "newest_code uid purpose db = Some (cid, r)"
      using assms(1) that by (auto simp: consume_code_def Let_def split: option.splits if_splits)
    show ?thesis
      using assms(1) that n new[OF n] by (auto simp: consume_code_def set_code_def Let_def CODE_LENGTH_def split: if_splits)
  qed
qed

section \<open>Runs\<close>

definition issued_reset :: "string \<Rightarrow> string \<Rightarrow> recovery_db \<Rightarrow> issued list" where
  "issued_reset identifier c db =
     (case find_account identifier db of
        None \<Rightarrow> []
      | Some uid \<Rightarrow>
          (case dict_get (rv_emails db) uid of None \<Rightarrow> [] | Some e \<Rightarrow> [(uid, password_of uid db, em_normalized e, c)]))"

text \<open>
  Requests in any order. \<open>other\<close> is any other part of the program: it may change accounts, credentials and sessions, and
  delete addresses and codes (an account is deleted, a code is swept), but writes neither. The identifier of a
  new code is a fresh UUID.
\<close>

inductive recovery_run :: "recovery_env \<Rightarrow> recovery_db \<Rightarrow> issued list \<Rightarrow> recovery_db \<Rightarrow> bool" for E db0 where
  start: "recovery_run E db0 [] db0"
| verification: "recovery_run E db0 tr db \<Longrightarrow> request_email_verification E mail_ok token uid address c cid tick now db = (r, db') \<Longrightarrow>
    dict_get (rv_codes db) cid = None \<Longrightarrow> recovery_run E db0 tr db'"
| verify: "recovery_run E db0 tr db \<Longrightarrow> verify_account_email E mail_ok token uid typed tick now db = (r, db') \<Longrightarrow> recovery_run E db0 tr db'"
| remove: "recovery_run E db0 tr db \<Longrightarrow> remove_account_email E mail_ok token uid now db = (u, db') \<Longrightarrow> recovery_run E db0 tr db'"
| request: "recovery_run E db0 tr db \<Longrightarrow> request_password_reset E mail_ok identifier ip c cid tick now db = (a, db') \<Longrightarrow>
    dict_get (rv_codes db) cid = None \<Longrightarrow> recovery_run E db0 (tr @ issued_reset identifier c db) db'"
| confirm: "recovery_run E db0 tr db \<Longrightarrow> confirm_password_reset E mail_ok breach new_hash identifier typed ip tick now db = (u, db') \<Longrightarrow>
    recovery_run E db0 tr db'"
| other: "recovery_run E db0 tr db \<Longrightarrow> rv_outbox db' = rv_outbox db \<Longrightarrow> dict_ok (rv_codes db') \<Longrightarrow>
    (\<And>i q. dict_get (rv_codes db') i = Some q \<Longrightarrow> dict_get (rv_codes db) i = Some q) \<Longrightarrow>
    (\<And>i e. dict_get (rv_emails db') i = Some e \<Longrightarrow> dict_get (rv_emails db) i = Some e) \<Longrightarrow> recovery_run E db0 tr db'"

definition recovery_inv :: "recovery_env \<Rightarrow> issued list \<Rightarrow> recovery_db \<Rightarrow> bool" where
  "recovery_inv E tr db \<longleftrightarrow>
     codes_fine E tr (rv_outbox db) (rv_codes db) \<and> (\<forall>i e. dict_get (rv_emails db) i = Some e \<longrightarrow> em_email e = em_normalized e)"

lemma throttle_fields:
  assumes "throttle key n w event actor tick db = (r, db')"
  shows "rv_codes db' = rv_codes db" "rv_emails db' = rv_emails db" "rv_outbox db' = rv_outbox db" "rv_credentials db' = rv_credentials db"
    "ad_users (rv_auth db') = ad_users (rv_auth db)" "ad_sessions (rv_auth db') = ad_sessions (rv_auth db)"
  using assms by (auto simp: throttle_def audit_recovery_def audit_entry_def split: prod.splits sum.splits if_splits)

lemma audit_recovery_fields [simp]:
  "rv_codes (audit_recovery a b c d db) = rv_codes db" "rv_emails (audit_recovery a b c d db) = rv_emails db"
  "rv_outbox (audit_recovery a b c d db) = rv_outbox db" "rv_credentials (audit_recovery a b c d db) = rv_credentials db"
  "ad_users (rv_auth (audit_recovery a b c d db)) = ad_users (rv_auth db)" "ad_sessions (rv_auth (audit_recovery a b c d db)) = ad_sessions (rv_auth db)"
  by (simp_all add: audit_recovery_def audit_entry_def)

lemma notify_fields [simp]:
  "rv_codes (notify on ok uid kind to db) = rv_codes db" "rv_emails (notify on ok uid kind to db) = rv_emails db"
  "rv_credentials (notify on ok uid kind to db) = rv_credentials db" "rv_auth (notify on ok uid kind to db) = rv_auth db"
  "set (rv_outbox db) \<subseteq> set (rv_outbox (notify on ok uid kind to db))"
  by (auto simp: notify_def deliver_def split: option.split)

lemma deliver_fields [simp]:
  "rv_codes (deliver to template c db) = rv_codes db" "rv_emails (deliver to template c db) = rv_emails db"
  "set (rv_outbox (deliver to template c db)) = insert \<lparr>ml_to = to, ml_template = template, ml_code = c\<rparr> (set (rv_outbox db))"
  by (auto simp: deliver_def)

lemma issue_fields [simp]:
  "rv_emails (issue_code hm key uid purpose now minutes target c cid db) = rv_emails db"
  "rv_outbox (issue_code hm key uid purpose now minutes target c cid db) = rv_outbox db"
  by (simp_all add: issue_code_def Let_def)

lemma recovery_invD:
  assumes "recovery_inv E tr db"
  shows "codes_fine E tr (rv_outbox db) (rv_codes db)" "dict_get (rv_emails db) i = Some e \<Longrightarrow> em_email e = em_normalized e"
  using assms unfolding recovery_inv_def by blast+

lemma recovery_invI:
  assumes "codes_fine E tr outbox (rv_codes db)" "set outbox \<subseteq> set (rv_outbox db)" "\<And>i e. dict_get (rv_emails db) i = Some e \<Longrightarrow> em_email e = em_normalized e"
  shows "recovery_inv E tr db"
  using codes_fine_mono[OF assms(1) subset_refl assms(2)] assms(3) unfolding recovery_inv_def by blast

lemma inv_verification:
  assumes "recovery_inv E tr db" "request_email_verification E mail_ok token uid address c cid tick now db = (r, db')" "dict_get (rv_codes db) cid = None"
  shows "recovery_inv E tr db'"
proof -
  note inv = recovery_invD[OF assms(1)]
  have "codes_fine E tr (rv_outbox db) (rv_codes db') \<and> set (rv_outbox db) \<subseteq> set (rv_outbox db') \<and> rv_emails db' = rv_emails db"
    using assms(2) inv(1) assms(3)
      codes_fine_issue[of E tr "rv_outbox db" _ cid "''email_verify''" "re_key E" uid _ _ c now "re_minutes E"]
    by (auto simp: request_email_verification_def Let_def dest: throttle_fields split: if_splits option.splits prod.splits sum.splits)
  then show ?thesis using inv(2) by (intro recovery_invI) auto
qed

lemma inv_throttle: "recovery_inv E tr db \<Longrightarrow> throttle key n w event actor tick db = (r, db1) \<Longrightarrow> recovery_inv E tr db1"
  by (simp add: recovery_inv_def throttle_fields)

lemma inv_audit [simp]: "recovery_inv E tr (audit_recovery a b c d db) = recovery_inv E tr db"
  by (simp add: recovery_inv_def)

lemma inv_consume: "recovery_inv E tr db \<Longrightarrow> consume_code hm key uid purpose typed now db = (res, db') \<Longrightarrow> recovery_inv E tr db'"
  using consume_code_spec[of hm key uid purpose typed now db res db' E tr "rv_outbox db"] by (auto simp: recovery_inv_def)

lemma inv_retire: "recovery_inv E tr db \<Longrightarrow> recovery_inv E tr (retire_codes P now db)"
  by (simp add: recovery_inv_def codes_fine_retire)

lemma inv_notify: "recovery_inv E tr db \<Longrightarrow> recovery_inv E tr (notify on ok uid kind to db)"
  by (intro recovery_invI[of E tr "rv_outbox db"]) (auto simp: recovery_inv_def simp del: notify_fields(5) intro: subsetD[OF notify_fields(5)])

lemma inv_email: "recovery_inv E tr db \<Longrightarrow> recovery_inv E tr (db\<lparr>rv_emails := dict_set uid \<lparr>em_email = a, em_normalized = a, em_verified_at = t\<rparr> (rv_emails db)\<rparr>)"
  by (auto simp: recovery_inv_def split: if_splits)

lemma inv_no_email: "recovery_inv E tr db \<Longrightarrow> recovery_inv E tr (db\<lparr>rv_emails := dict_pop uid (rv_emails db)\<rparr>)"
  by (auto simp: recovery_inv_def split: if_splits)

lemma inv_columns [simp]:
  "recovery_inv E tr (db\<lparr>rv_credentials := x, rv_auth := y\<rparr>) = recovery_inv E tr db"
  "recovery_inv E tr (db\<lparr>rv_login_limiter := l\<rparr>) = recovery_inv E tr db" "recovery_inv E tr (db\<lparr>rv_limiter := l\<rparr>) = recovery_inv E tr db"
  by (simp_all add: recovery_inv_def)

lemmas inv_intros = inv_throttle inv_consume inv_retire inv_notify inv_email inv_no_email

lemma inv_store_email: "recovery_inv E tr db \<Longrightarrow> recovery_inv E tr (store_email E mail_ok uid target now db)"
  using inv_email[of E tr db uid target now] by (simp add: store_email_def Let_def inv_notify inv_retire split: option.split)

lemma inv_verify:
  assumes "recovery_inv E tr db" "verify_account_email E mail_ok token uid typed tick now db = (r, db')"
  shows "recovery_inv E tr db'"
proof -
  obtain t db1 where th: "throttle (''email-verify-code:'' @ uid) 10 3600 ''account.email.verify'' (Some uid) tick db = (t, db1)" by fastforce
  obtain cres db2 where con: "consume_code (re_hm E) (re_key E) uid ''email_verify'' typed now db1 = (cres, db2)" by fastforce
  have i1: "recovery_inv E tr db1" by (rule inv_throttle[OF assms(1) th])
  have i2: "recovery_inv E tr db2" by (rule inv_consume[OF i1 con])
  have "db' = db1 \<or> (\<exists>a b c d. db' = audit_recovery a b c d db2) \<or> (\<exists>target. db' = store_email E mail_ok uid target now db2)"
    using assms(2) th con by (auto simp: verify_account_email_def Let_def split: option.splits sum.splits if_splits)
  then show ?thesis using i1 i2 inv_store_email by auto
qed

lemma inv_remove:
  assumes "recovery_inv E tr db" "remove_account_email E mail_ok token uid now db = (r, db')"
  shows "recovery_inv E tr db'"
  using assms by (auto simp: remove_account_email_def Let_def intro!: inv_notify inv_retire inv_no_email split: option.splits sum.splits)

lemma inv_finish: "recovery_inv E tr db \<Longrightarrow> recovery_inv E tr (finish_reset E mail_ok uid username hash ip now db)"
  unfolding finish_reset_def Let_def by (intro inv_notify) (simp add: inv_retire)

text \<open>The outcomes of a confirmation.\<close>

lemma confirm_outcomes:
  assumes "confirm_password_reset E mail_ok breach new_hash identifier typed ip tick now db = (res, db')"
    "throttle (''reset-confirm:ip:'' @ ip) 10 900 ''auth.password_reset'' None tick db = (t, db1)"
  shows "(res \<noteq> Inr () \<and> (db' = db1 \<or> (\<exists>a b c d. db' = audit_recovery a b c d db1))) \<or>
    (\<exists>uid email key db2 c. res \<noteq> Inr () \<and> dict_get (rv_emails db1) uid = Some email \<and>
       consume_code (re_hm E) key uid ''password_reset'' typed now db1 = (None, db2) \<and> (\<exists>a b c d. db' = audit_recovery a b c d db2)) \<or>
    (\<exists>uid u email cid r hash db2. res = Inr () \<and> find_account identifier db1 = Some uid \<and> lock_user_row uid True (rv_auth db1) = Some u \<and>
       dict_get (rv_emails db1) uid = Some email \<and> new_hash = Some hash \<and>
       consume_code (re_hm E) (reset_key E uid email db1) uid ''password_reset'' typed now db1 = (Some (cid, r), db2) \<and>
       db' = finish_reset E mail_ok uid (ur_username u) hash ip now db2)"
proof (cases "t = None \<and> breach = Some False")
  case False
  then have "res \<noteq> Inr () \<and> (db' = db1 \<or> (\<exists>a b c d. db' = audit_recovery a b c d db1))"
    using assms by (auto simp: confirm_password_reset_def split: option.splits bool.splits)
  then show ?thesis by (rule disjI1)
next
  case True
  show ?thesis
  proof (cases "case find_account identifier db1 of None \<Rightarrow> None | Some uid \<Rightarrow> map_option (\<lambda>u. (uid, u)) (lock_user_row uid True (rv_auth db1))")
    case None
    then have "res \<noteq> Inr () \<and> (db' = db1 \<or> (\<exists>a b c d. db' = audit_recovery a b c d db1))"
      using assms True by (auto simp: confirm_password_reset_def)
    then show ?thesis by (rule disjI1)
  next
    case (Some p)
    obtain uid u where p: "p = (uid, u)" by (cases p)
    have acc: "find_account identifier db1 = Some uid" "lock_user_row uid True (rv_auth db1) = Some u"
      using Some p by (auto split: option.splits)
    show ?thesis
    proof (cases "dict_get (rv_emails db1) uid")
      case None
      then have "res \<noteq> Inr () \<and> (db' = db1 \<or> (\<exists>a b c d. db' = audit_recovery a b c d db1))"
        using assms True Some p by (auto simp: confirm_password_reset_def)
      then show ?thesis by (rule disjI1)
    next
      case email: (Some email)
      obtain cres db2 where con: "consume_code (re_hm E) (reset_key E uid email db1) uid ''password_reset'' typed now db1 = (cres, db2)" by fastforce
      show ?thesis
      proof (cases cres)
        case None
        then have "res = Inl 400" "db' = audit_recovery ''auth.password_reset'' (Some uid) ''failure'' ''invalid_code'' db2"
          using assms True Some p email con by (simp_all add: confirm_password_reset_def)
        then show ?thesis using email con None by blast
      next
        case used: (Some q)
        obtain cid r where "q = (cid, r)" by (cases q)
        then show ?thesis
          using assms True Some p email con used acc by (cases new_hash) (auto simp: confirm_password_reset_def)
      qed
    qed
  qed
qed

lemma inv_confirm:
  assumes "recovery_inv E tr db" "confirm_password_reset E mail_ok breach new_hash identifier typed ip tick now db = (r, db')"
  shows "recovery_inv E tr db'"
proof -
  obtain t db1 where th: "throttle (''reset-confirm:ip:'' @ ip) 10 900 ''auth.password_reset'' None tick db = (t, db1)" by fastforce
  have "recovery_inv E tr db1" by (rule inv_throttle[OF assms(1) th])
  then show ?thesis using confirm_outcomes[OF assms(2) th] inv_consume inv_finish by fastforce
qed

lemma find_account_cong: "rv_emails db1 = rv_emails db \<Longrightarrow> ad_users (rv_auth db1) = ad_users (rv_auth db) \<Longrightarrow> find_account i db1 = find_account i db"
  by (simp add: find_account_def split: option.split)

lemma inv_issued: "recovery_inv E tr db \<Longrightarrow> recovery_inv E (tr @ es) db"
  using codes_fine_mono[of E tr "rv_outbox db" "rv_codes db" "tr @ es" "rv_outbox db"] by (auto simp: recovery_inv_def)

lemma issued_code_mailed:
  assumes inv: "recovery_inv E tr db" and fresh: "dict_get (rv_codes db) cid = None" and email: "dict_get (rv_emails db) uid = Some email"
    and tr: "(uid, password_of uid db, em_normalized email, c) \<in> set tr"
  shows "recovery_inv E tr (deliver (em_email email) ''password_reset'' (Some c)
    (issue_code (re_hm E) (reset_key E uid email db) uid ''password_reset'' now minutes None c cid db))" (is "recovery_inv E tr ?db")
proof (rule recovery_invI)
  let ?m = "\<lparr>ml_to = em_normalized email, ml_template = ''password_reset'', ml_code = Some c\<rparr>"
  show "codes_fine E tr (?m # rv_outbox db) (rv_codes ?db)"
    unfolding deliver_fields
  proof (rule codes_fine_issue)
    show "codes_fine E tr (?m # rv_outbox db) (rv_codes db)"
      using recovery_invD(1)[OF inv] by (rule codes_fine_mono) auto
  qed (use fresh tr in \<open>auto simp: reset_key_def\<close>)
  show "set (?m # rv_outbox db) \<subseteq> set (rv_outbox ?db)" using recovery_invD(2)[OF inv email] by auto
  show "em_email e = em_normalized e" if "dict_get (rv_emails ?db) i = Some e" for i e
    using that recovery_invD(2)[OF inv] by simp
qed

lemma issued_code_burnt:
  assumes inv: "recovery_inv E tr db"
  shows "recovery_inv E tr (retire_codes (\<lambda>i _. i = cid) now (issue_code (re_hm E) key uid purpose now minutes None c cid db))" (is "recovery_inv E tr ?db")
proof -
  let ?db1 = "retire_codes (\<lambda>_ r. co_user r = uid \<and> co_purpose r = purpose) now db"
  define r0 where "r0 = \<lparr>co_user = uid, co_purpose = purpose, co_hash = hash_code (re_hm E) key c, co_target = None, co_attempts = 0,
      co_expires = now + of_int (60 * minutes), co_consumed = Some now, co_created = now\<rparr>"
  have fine: "codes_fine E tr (rv_outbox db) (rv_codes ?db1)" by (rule codes_fine_retire[OF recovery_invD(1)[OF inv]])
  have get: "dict_get (rv_codes ?db) k = (if k = cid then Some r0 else dict_get (rv_codes ?db1) k)" for k
    by (simp add: retire_codes_def issue_code_def Let_def r0_def option.map_comp comp_def option.map_ident)
  have r0: "row_fine E tr (rv_outbox db) r0" by (simp add: row_fine_def r0_def MAX_CODE_ATTEMPTS_def)
  have "codes_fine E tr (rv_outbox db) (rv_codes ?db)"
  proof (rule codes_fineI)
    show "dict_ok (rv_codes ?db)" using codes_fineD(1)[OF recovery_invD(1)[OF inv]] by (simp add: retire_codes_def issue_code_def Let_def)
  next
    fix k r assume "dict_get (rv_codes ?db) k = Some r"
    then show "row_fine E tr (rv_outbox db) r" using r0 codes_fineD(2)[OF fine, of k r] unfolding get by (auto split: if_splits)
  next
    fix k r k' r'
    assume g: "dict_get (rv_codes ?db) k = Some r" "dict_get (rv_codes ?db) k' = Some r'"
      and live: "co_consumed r = None" "co_consumed r' = None" and same: "co_user r = co_user r'" "co_purpose r = co_purpose r'"
    have "k \<noteq> cid" "k' \<noteq> cid" using g live unfolding get by (auto simp: r0_def split: if_splits)
    then have "dict_get (rv_codes ?db1) k = Some r" "dict_get (rv_codes ?db1) k' = Some r'" using g unfolding get by simp_all
    then show "k = k'" by (rule codes_fineD(3)[OF fine _ _ live same])
  qed
  then show ?thesis using inv by (simp add: recovery_inv_def)
qed

lemma inv_request:
  assumes inv: "recovery_inv E tr db" and req: "request_password_reset E mail_ok identifier ip c cid tick now db = (a, db')"
    and fresh: "dict_get (rv_codes db) cid = None"
  shows "recovery_inv E (tr @ issued_reset identifier c db) db'"
proof -
  let ?tr = "tr @ issued_reset identifier c db"
  obtain t db1 where th: "throttle (''reset-request:ip:'' @ ip) 5 900 ''auth.password_reset.request'' None tick db = (t, db1)" by fastforce
  note f = throttle_fields[OF th]
  have i1: "recovery_inv E ?tr db1" by (rule inv_issued[OF inv_throttle[OF inv th]])
  show ?thesis
  proof (cases "re_mail_on E \<and> t = None \<and> (\<exists>uid. find_account identifier db1 = Some uid \<and> lock_user_row uid True (rv_auth db1) \<noteq> None)")
    case False
    then show ?thesis
      using req th i1 inv_issued[OF inv] by (auto simp: request_password_reset_def split: if_splits option.splits)
  next
    case True
    then obtain uid where uid: "find_account identifier db1 = Some uid" "lock_user_row uid True (rv_auth db1) \<noteq> None" by blast
    obtain res lm where al: "rl_allow (''reset-request:user:'' @ uid) 3 3600 tick (rv_limiter db1) = (res, lm)" by fastforce
    let ?db2 = "db1\<lparr>rv_limiter := lm\<rparr>"
    have i2: "recovery_inv E ?tr ?db2" using i1 by simp
    have fresh2: "dict_get (rv_codes ?db2) cid = None" using fresh f by simp
    have uid0: "find_account identifier db = Some uid" using uid(1) find_account_cong[OF f(2,5)] by simp
    show ?thesis
    proof (cases "\<exists>retry email. res = Inr (True, retry) \<and> dict_get (rv_emails ?db2) uid = Some email")
      case False
      then show ?thesis
        using req th True uid al i2 by (auto simp: request_password_reset_def Let_def split: sum.splits option.splits if_splits)
    next
      case True2: True
      then obtain retry email where e: "res = Inr (True, retry)" "dict_get (rv_emails ?db2) uid = Some email" by blast
      have mem: "(uid, password_of uid ?db2, em_normalized email, c) \<in> set ?tr"
        using uid0 e(2) f by (simp add: issued_reset_def password_of_def)
      have "recovery_inv E ?tr db' \<longleftrightarrow> recovery_inv E ?tr
          (if mail_ok then deliver (em_email email) ''password_reset'' (Some c)
                 (issue_code (re_hm E) (reset_key E uid email ?db2) uid ''password_reset'' now (re_minutes E) None c cid ?db2)
           else retire_codes (\<lambda>i _. i = cid) now (issue_code (re_hm E) (reset_key E uid email ?db2) uid ''password_reset'' now (re_minutes E) None c cid ?db2))"
        using req th True uid al e by (auto simp: request_password_reset_def Let_def)
      then show ?thesis
        using issued_code_mailed[OF i2 fresh2 e(2) mem] issued_code_burnt[OF i2] by simp
    qed
  qed
qed

lemma recovery_run_inv:
  assumes "recovery_run E db0 tr db" "rv_codes db0 = []" "rv_emails db0 = []"
  shows "recovery_inv E tr db"
  using assms
proof (induction rule: recovery_run.induct)
  case start
  then show ?case by (simp add: recovery_inv_def codes_fine_def)
next
  case (other tr db db')
  then show ?case unfolding recovery_inv_def using codes_fine_submap by metis
qed (auto intro: inv_verification inv_verify inv_remove inv_request inv_confirm)

section \<open>Resetting a password\<close>

lemma hex_digit_inject: "m < 16 \<Longrightarrow> n < 16 \<Longrightarrow> hex_digit m = hex_digit n \<Longrightarrow> m = n"
  by (metis hex_value_digit)

lemma hexdigest_Cons: "hexdigest (c # b) = hex_digit (code c div 16) # hex_digit (code c mod 16) # hexdigest b"
  by (simp add: hexdigest_def)

lemma hexdigest_inject: "hexdigest a = hexdigest b \<Longrightarrow> a = b"
proof (induction a arbitrary: b)
  case Nil
  then show ?case by (cases b) (auto simp: hexdigest_def)
next
  case (Cons c a)
  then obtain d b' where b: "b = d # b'" by (cases b) (auto simp: hexdigest_def)
  have less: "(code x :: nat) div 16 < 16" "(code x :: nat) mod 16 < 16" for x by (simp_all add: of_char_less less_mult_imp_div_less)
  have eq: "hex_digit (code c div 16) = hex_digit (code d div 16)" "hex_digit (code c mod 16) = hex_digit (code d mod 16)" "hexdigest a = hexdigest b'"
    using Cons.prems unfolding b hexdigest_Cons by simp_all
  have "code c div 16 = (code d :: nat) div 16" "code c mod 16 = (code d :: nat) mod 16"
    by (rule hex_digit_inject[OF less(1) less(1) eq(1)], rule hex_digit_inject[OF less(2) less(2) eq(2)])
  then have "(code c :: nat) = code d" by (metis mult_div_mod_eq)
  then show ?case using Cons.IH[OF eq(3)] b by simp
qed

lemma reset_context_inject: "reset_context u p a = reset_context u' p' a' \<Longrightarrow> u = u' \<and> p = p' \<and> a = a'"
  unfolding reset_context_def
  using json_string_inject[of True a "'']''" a' "'']''"] by (auto dest!: json_string_inject)

definition reset_inputs :: "recovery_env \<Rightarrow> issued \<Rightarrow> (bytes \<times> bytes) set" where
  "reset_inputs E x = (case x of (u, p, a, c) \<Rightarrow> {(re_key E, reset_context u p a), (derive_password_reset_key (re_hm E) (re_key E) u p a, c)})"

lemma reset_hash_inject:
  assumes inj: "inj_on (\<lambda>(k, m). re_hm E k m) (\<Union>x\<in>S. reset_inputs E x)" and S: "(u, p, a, c) \<in> S" "(u', p', a', c') \<in> S"
    and eq: "hash_code (re_hm E) (derive_password_reset_key (re_hm E) (re_key E) u p a) c =
             hash_code (re_hm E) (derive_password_reset_key (re_hm E) (re_key E) u' p' a') c'"
  shows "(u, p, a, c) = (u', p', a', c')"
proof -
  let ?f = "\<lambda>(k, m). re_hm E k m" and ?T = "\<Union>x\<in>S. reset_inputs E x"
  have mem: "(re_key E, reset_context u p a) \<in> ?T" "(derive_password_reset_key (re_hm E) (re_key E) u p a, c) \<in> ?T"
    "(re_key E, reset_context u' p' a') \<in> ?T" "(derive_password_reset_key (re_hm E) (re_key E) u' p' a', c') \<in> ?T"
    using UN_upper[OF S(1), of "reset_inputs E"] UN_upper[OF S(2), of "reset_inputs E"] by (simp_all add: reset_inputs_def)
  have "?f (derive_password_reset_key (re_hm E) (re_key E) u p a, c) = ?f (derive_password_reset_key (re_hm E) (re_key E) u' p' a', c')"
    using hexdigest_inject eq unfolding hash_code_def by auto
  then have key: "derive_password_reset_key (re_hm E) (re_key E) u p a = derive_password_reset_key (re_hm E) (re_key E) u' p' a'" and c: "c = c'"
    using inj_onD[OF inj _ mem(2) mem(4)] by simp_all
  have "reset_context u p a = reset_context u' p' a'"
    using inj_onD[OF inj _ mem(1) mem(3)] key by (simp add: derive_password_reset_key_def)
  then show ?thesis using reset_context_inject c by blast
qed

text \<open>\<^verbatim>\<open>update(...).where(P, mark IS NULL)\<close> leaves no row of \<open>P\<close> unmarked.\<close>

lemma all_marked:
  assumes "map_option (\<lambda>q. if P q \<and> mark q = None then upd q else q) x = Some r" "\<And>q. mark (upd q) \<noteq> None" "P r"
  shows "mark r \<noteq> None"
proof (cases x)
  case (Some q)
  show ?thesis
  proof (cases "P q \<and> mark q = None")
    case True
    then have "r = upd q" using assms(1) Some by simp
    then show ?thesis using assms(2) by simp
  next
    case False
    have "r = q" using assms(1) unfolding Some option.map if_not_P[OF False] by simp
    then show ?thesis using False assms(3) by simp
  qed
qed (use assms(1) in simp)

lemma finish_reset_effects:
  assumes "db' = finish_reset E mail_ok uid username hash ip now db"
  shows "dict_get (rv_credentials db') k = map_option (\<lambda>r. if k = uid then reset_credentials hash r else r) (dict_get (rv_credentials db) k)"
    "dict_get (ad_sessions (rv_auth db')) jti = Some s \<Longrightarrow> as_user_id s = uid \<Longrightarrow> as_revoked_at s \<noteq> None"
    "dict_get (rv_codes db') cid = Some r \<Longrightarrow> co_user r = uid \<and> co_purpose r = ''password_reset'' \<Longrightarrow> co_consumed r \<noteq> None"
proof -
  show "dict_get (rv_credentials db') k = map_option (\<lambda>r. if k = uid then reset_credentials hash r else r) (dict_get (rv_credentials db) k)"
    by (simp add: assms finish_reset_def Let_def)
  have "dict_get (ad_sessions (rv_auth db')) jti =
      map_option (\<lambda>a. if as_user_id a = uid \<and> as_revoked_at a = None then a\<lparr>as_revoked_at := Some now\<rparr> else a) (dict_get (ad_sessions (rv_auth db)) jti)"
    by (simp add: assms finish_reset_def Let_def revoke_all_auth_sessions_def)
  then show "as_revoked_at s \<noteq> None" if "dict_get (ad_sessions (rv_auth db')) jti = Some s" "as_user_id s = uid"
    using that by (intro all_marked[where P = "\<lambda>a. as_user_id a = uid" and r = s]) auto
  have "dict_get (rv_codes db') cid =
      map_option (\<lambda>q. if (co_user q = uid \<and> co_purpose q = ''password_reset'') \<and> co_consumed q = None then q\<lparr>co_consumed := Some now\<rparr> else q) (dict_get (rv_codes db) cid)"
    by (simp add: assms finish_reset_def Let_def retired_get)
  then show "co_consumed r \<noteq> None" if "dict_get (rv_codes db') cid = Some r" "co_user r = uid \<and> co_purpose r = ''password_reset''"
    using that by (intro all_marked[where P = "\<lambda>q. co_user q = uid \<and> co_purpose q = ''password_reset''" and r = r]) auto
qed

text \<open>C10: After any history of requests, a password reset succeeds only with the code that was mailed to the address which is
  the account's verified address now, while its present password was in force (up to HMAC collisions on
  the inputs of the run). It replaces the password, lifts the password lock, leaves every second-factor column and every
  other account as it was, revokes every bearer session of the account and leaves no usable reset code.\<close>

theorem reset_needs_mailed_code:
  assumes "recovery_run E db0 tr db" "rv_codes db0 = []" "rv_emails db0 = []"
    and digest: "\<forall>k m. length (re_hm E k m) = 32"
    and confirm: "confirm_password_reset E mail_ok breach (Some hash) identifier typed ip tick now db = (Inr (), db')"
    and inj: "inj_on (\<lambda>(k, m). re_hm E k m) (\<Union>x\<in>set (tr @ issued_reset identifier (normalize_code typed) db). reset_inputs E x)"
  shows "\<exists>uid email. find_account identifier db = Some uid \<and> dict_get (rv_emails db) uid = Some email \<and>
    \<lparr>ml_to = em_email email, ml_template = ''password_reset'', ml_code = Some (normalize_code typed)\<rparr> \<in> set (rv_outbox db) \<and>
    (uid, password_of uid db, em_normalized email, normalize_code typed) \<in> set tr \<and>
    (\<forall>k. dict_get (rv_credentials db') k =
       map_option (\<lambda>r. if k = uid then r\<lparr>cr_password_hash := hash, cr_failed_login := 0, cr_locked_until := None\<rparr> else r) (dict_get (rv_credentials db) k)) \<and>
    (\<forall>jti s. dict_get (ad_sessions (rv_auth db')) jti = Some s \<and> as_user_id s = uid \<longrightarrow> as_revoked_at s \<noteq> None) \<and>
    (\<forall>cid r. dict_get (rv_codes db') cid = Some r \<and> co_user r = uid \<and> co_purpose r = ''password_reset'' \<longrightarrow> co_consumed r \<noteq> None)"
proof -
  let ?c = "normalize_code typed" and ?tr = "tr @ issued_reset identifier (normalize_code typed) db"
  obtain t db1 where th: "throttle (''reset-confirm:ip:'' @ ip) 10 900 ''auth.password_reset'' None tick db = (t, db1)" by fastforce
  note f = throttle_fields[OF th]
  have inv: "recovery_inv E tr db1" by (rule inv_throttle[OF recovery_run_inv[OF assms(1-3)] th])
  have "\<exists>uid name email cid r db2. find_account identifier db1 = Some uid \<and> dict_get (rv_emails db1) uid = Some email \<and>
      consume_code (re_hm E) (reset_key E uid email db1) uid ''password_reset'' typed now db1 = (Some (cid, r), db2) \<and>
      db' = finish_reset E mail_ok uid name hash ip now db2"
    using confirm_outcomes[OF confirm th] by auto
  then obtain uid name email cid r db2 where acc: "find_account identifier db1 = Some uid" "dict_get (rv_emails db1) uid = Some email"
    and con: "consume_code (re_hm E) (reset_key E uid email db1) uid ''password_reset'' typed now db1 = (Some (cid, r), db2)"
    and db': "db' = finish_reset E mail_ok uid name hash ip now db2"
    by blast
  note spec = consume_code_spec[OF con recovery_invD(1)[OF inv]]
  have r: "dict_get (rv_codes db1) cid = Some r" "co_user r = uid" "co_purpose r = ''password_reset''" "co_consumed r = None"
    "co_hash r = (if is_ascii ?c then hash_code (re_hm E) (reset_key E uid email db1) ?c else [])"
    using spec(6)[of cid r] by blast+
  obtain pw address c where issued: "(uid, pw, address, c) \<in> set tr"
      "co_hash r = hash_code (re_hm E) (derive_password_reset_key (re_hm E) (re_key E) uid pw address) c"
      "\<lparr>ml_to = address, ml_template = ''password_reset'', ml_code = Some c\<rparr> \<in> set (rv_outbox db1)"
    using codes_fineD(2)[OF recovery_invD(1)[OF inv] r(1)] r(2-4) unfolding row_fine_def by blast
  have "length (hexdigest b) = 2 * length b" for b by (induction b) (simp_all add: hexdigest_def)
  then have "co_hash r \<noteq> []" using issued(2) digest by (metis hash_code_def length_0_conv mult_eq_0_iff zero_neq_numeral)
  then have hash: "hash_code (re_hm E) (reset_key E uid email db1) ?c = co_hash r" using r(5) by (simp split: if_splits)
  have key: "reset_key E uid email db1 = derive_password_reset_key (re_hm E) (re_key E) uid (password_of uid db) (em_normalized email)"
    using f by (simp add: reset_key_def password_of_def)
  have here: "find_account identifier db = Some uid" "dict_get (rv_emails db) uid = Some email"
    using acc f find_account_cong[OF f(2,5)] by simp_all
  then have now: "(uid, password_of uid db, em_normalized email, ?c) \<in> set ?tr" by (simp add: issued_reset_def)
  have "(uid, pw, address, c) = (uid, password_of uid db, em_normalized email, ?c)"
  proof (rule reset_hash_inject[OF inj _ now])
    show "(uid, pw, address, c) \<in> set ?tr" using issued(1) by simp
    show "hash_code (re_hm E) (derive_password_reset_key (re_hm E) (re_key E) uid pw address) c =
        hash_code (re_hm E) (derive_password_reset_key (re_hm E) (re_key E) uid (password_of uid db) (em_normalized email)) ?c"
      using issued(2) hash unfolding key by simp
  qed
  moreover have "em_email email = em_normalized email" using recovery_invD(2)[OF inv acc(2)] .
  ultimately have mailed: "\<lparr>ml_to = em_email email, ml_template = ''password_reset'', ml_code = Some ?c\<rparr> \<in> set (rv_outbox db)"
      "(uid, password_of uid db, em_normalized email, ?c) \<in> set tr"
    using issued f by simp_all
  note eff = finish_reset_effects[OF db']
  have cred: "dict_get (rv_credentials db') k =
      map_option (\<lambda>r. if k = uid then r\<lparr>cr_password_hash := hash, cr_failed_login := 0, cr_locked_until := None\<rparr> else r) (dict_get (rv_credentials db) k)" for k
    using eff(1)[of k] unfolding spec(3) f(4) reset_credentials_def .
  show ?thesis
    using here mailed cred eff(2,3) by blast
qed

text \<open>A keyed checksum of 32 bytes, an account with one bearer session, and its four requests.\<close>

definition demo_recovery :: recovery_env where
  "demo_recovery = \<lparr>re_hm = (\<lambda>k m. replicate 32 (char_of (length m mod 256))), re_key = ''k'', re_minutes = 15, re_mail_on = True, re_auth = demo_cfg\<rparr>"

definition demo_bearer_row :: auth_session where
  "demo_bearer_row = \<lparr>as_user_id = ''u'', as_family = ''a'', as_issued_at = 0, as_expires_at = 1800, as_revoked_at = None,
     as_last_activity_at = None, as_root_issued_at = None, as_last_step_up_at = Some 0\<rparr>"

definition demo_reset_limiter :: limiter where
  "demo_reset_limiter = \<lparr>rl_max_keys = 100, rl_cleanup_interval = 60, rl_events = [], rl_expires_at = [], rl_next_cleanup = 0, rl_next_expiry = None\<rparr>"

definition demo_recovery_db :: recovery_db where
  "demo_recovery_db =
     \<lparr>rv_auth = \<lparr>ad_users = [(''u'', demo_user)], ad_sessions = [(''a'', demo_bearer_row)], ad_revoked = [], ad_audit = []\<rparr>,
      rv_credentials = [(''u'', \<lparr>cr_password_hash = ''old'', cr_failed_login = 3, cr_locked_until = Some 500, cr_mfa_secret = None,
        cr_mfa_failed = 0, cr_mfa_locked_until = None\<rparr>)],
      rv_emails = [], rv_codes = [], rv_limiter = demo_reset_limiter, rv_login_limiter = demo_reset_limiter, rv_outbox = []\<rparr>"

definition demo_claims :: "claims option" where
  "demo_claims = Some \<lparr>cl_sub = ''u'', cl_ver = 1, cl_jti = ''a'', cl_iat = 0, cl_exp = 1800\<rparr>"

definition demo_code_hash :: string where "demo_code_hash = concat (replicate 32 ''0a'')"

definition demo_recovery1 :: recovery_db where
  "demo_recovery1 =
    demo_recovery_db
      \<lparr>rv_auth := (rv_auth demo_recovery_db)\<lparr>ad_audit := [\<lparr>an_event = ''account.email.verification'', an_actor = Some ''u'', an_outcome = ''success'', an_detail = []\<rparr>]\<rparr>,
      rv_emails := [],
      rv_codes := [(''c1'', \<lparr>co_user = ''u'', co_purpose = ''email_verify'', co_hash = demo_code_hash, co_target = Some ''ann@mail.org'', co_attempts = 0,
        co_expires = 910, co_consumed = None, co_created = 10\<rparr>)],
      rv_limiter := demo_reset_limiter\<lparr>rl_events := [(''email-verify:u'', [1])],
        rl_expires_at := [(''email-verify:u'', 3601)],
        rl_next_cleanup := 61, rl_next_expiry := Some 3601\<rparr>,
      rv_outbox := [\<lparr>ml_to = ''ann@mail.org'', ml_template = ''email_verify'', ml_code = Some ''aaaaaaaaaa''\<rparr>]\<rparr>"

definition demo_recovery2 :: recovery_db where
  "demo_recovery2 =
    demo_recovery_db
      \<lparr>rv_auth := (rv_auth demo_recovery_db)\<lparr>ad_audit := [\<lparr>an_event = ''account.email.verification'', an_actor = Some ''u'', an_outcome = ''success'', an_detail = []\<rparr>,
        \<lparr>an_event = ''account.email.verify'', an_actor = Some ''u'', an_outcome = ''success'', an_detail = []\<rparr>]\<rparr>,
      rv_emails := [(''u'', \<lparr>em_email = ''ann@mail.org'', em_normalized = ''ann@mail.org'', em_verified_at = 20\<rparr>)],
      rv_codes := [(''c1'', \<lparr>co_user = ''u'', co_purpose = ''email_verify'', co_hash = demo_code_hash, co_target = Some ''ann@mail.org'', co_attempts = 0,
        co_expires = 910, co_consumed = Some 20, co_created = 10\<rparr>)],
      rv_limiter := demo_reset_limiter\<lparr>rl_events := [(''email-verify:u'', [1]), (''email-verify-code:u'', [2])],
        rl_expires_at := [(''email-verify:u'', 3601), (''email-verify-code:u'', 3602)],
        rl_next_cleanup := 61, rl_next_expiry := Some 3601\<rparr>,
      rv_outbox := [\<lparr>ml_to = ''ann@mail.org'', ml_template = ''email_verify'', ml_code = Some ''aaaaaaaaaa''\<rparr>]\<rparr>"

definition demo_recovery3 :: recovery_db where
  "demo_recovery3 =
    demo_recovery_db
      \<lparr>rv_auth := (rv_auth demo_recovery_db)\<lparr>ad_audit := [\<lparr>an_event = ''account.email.verification'', an_actor = Some ''u'', an_outcome = ''success'', an_detail = []\<rparr>,
        \<lparr>an_event = ''account.email.verify'', an_actor = Some ''u'', an_outcome = ''success'', an_detail = []\<rparr>,
        \<lparr>an_event = ''auth.password_reset.request'', an_actor = Some ''u'', an_outcome = ''success'', an_detail = []\<rparr>]\<rparr>,
      rv_emails := [(''u'', \<lparr>em_email = ''ann@mail.org'', em_normalized = ''ann@mail.org'', em_verified_at = 20\<rparr>)],
      rv_codes := [(''c1'', \<lparr>co_user = ''u'', co_purpose = ''email_verify'', co_hash = demo_code_hash, co_target = Some ''ann@mail.org'', co_attempts = 0,
        co_expires = 910, co_consumed = Some 20, co_created = 10\<rparr>),
        (''c2'', \<lparr>co_user = ''u'', co_purpose = ''password_reset'', co_hash = demo_code_hash, co_target = None, co_attempts = 0,
        co_expires = 930, co_consumed = None, co_created = 30\<rparr>)],
      rv_limiter := demo_reset_limiter\<lparr>rl_events := [(''email-verify:u'', [1]), (''email-verify-code:u'', [2]), (''reset-request:ip:ip'', [3]), (''reset-request:user:u'', [3])],
        rl_expires_at := [(''email-verify:u'', 3601), (''email-verify-code:u'', 3602), (''reset-request:ip:ip'', 903), (''reset-request:user:u'', 3603)],
        rl_next_cleanup := 61, rl_next_expiry := Some 903\<rparr>,
      rv_outbox := [\<lparr>ml_to = ''ann@mail.org'', ml_template = ''email_verify'', ml_code = Some ''aaaaaaaaaa''\<rparr>,
        \<lparr>ml_to = ''ann@mail.org'', ml_template = ''password_reset'', ml_code = Some ''bbbbbbbbbb''\<rparr>]\<rparr>"

definition demo_recovery4 :: recovery_db where
  "demo_recovery4 = snd (confirm_password_reset demo_recovery True (Some False) (Some ''new'') ''ann'' ''bbbbb-bbbbb'' ''ip'' 4 40 demo_recovery3)"

lemma demo_step1:
  "snd (request_email_verification demo_recovery True demo_claims ''u'' ''ann@mail.org'' ''aaaaaaaaaa'' ''c1'' 1 10 demo_recovery_db) = demo_recovery1"
  by code_simp

lemma demo_step2: "snd (verify_account_email demo_recovery True demo_claims ''u'' ''AAAAA-aaaaa'' 2 20 demo_recovery1) = demo_recovery2"
  by code_simp

lemma demo_step3: "snd (request_password_reset demo_recovery True ''ann'' ''ip'' ''bbbbbbbbbb'' ''c2'' 3 30 demo_recovery2) = demo_recovery3"
  by code_simp

lemma demo_step4:
  "fst (confirm_password_reset demo_recovery True (Some False) (Some ''new'') ''ann'' ''bbbbb-bbbbb'' ''ip'' 4 40 demo_recovery3) = Inr ()"
  by code_simp

lemma demo_issued1: "issued_reset ''ann'' ''bbbbbbbbbb'' demo_recovery2 = [(''u'', ''old'', ''ann@mail.org'', ''bbbbbbbbbb'')]"
  by code_simp

lemma demo_issued2: "issued_reset ''ann'' (normalize_code ''bbbbb-bbbbb'') demo_recovery3 = [(''u'', ''old'', ''ann@mail.org'', ''bbbbbbbbbb'')]"
  by code_simp

lemma demo_fresh1: "dict_get (rv_codes demo_recovery_db) ''c1'' = None"
  by code_simp

lemma demo_fresh2: "dict_get (rv_codes demo_recovery2) ''c2'' = None"
  by code_simp

lemma demo_recovery_run: "recovery_run demo_recovery demo_recovery_db [(''u'', ''old'', ''ann@mail.org'', ''bbbbbbbbbb'')] demo_recovery3"
proof -
  have "recovery_run demo_recovery demo_recovery_db [] demo_recovery1"
    unfolding demo_step1[symmetric] by (rule recovery_run.verification[OF recovery_run.start surjective_pairing demo_fresh1])
  then have "recovery_run demo_recovery demo_recovery_db [] demo_recovery2"
    unfolding demo_step2[symmetric] by (rule recovery_run.verify[OF _ surjective_pairing])
  then have "recovery_run demo_recovery demo_recovery_db ([] @ issued_reset ''ann'' ''bbbbbbbbbb'' demo_recovery2) demo_recovery3"
    unfolding demo_step3[symmetric] by (rule recovery_run.request[OF _ surjective_pairing demo_fresh2])
  then show ?thesis by (simp add: demo_issued1)
qed

theorem reset_needs_mailed_code_witness:
  "confirm_password_reset demo_recovery True (Some False) (Some ''new'') ''ann'' ''bbbbb-bbbbb'' ''ip'' 4 40 demo_recovery3 = (Inr (), demo_recovery4) \<and>
   (\<exists>email. dict_get (rv_emails demo_recovery3) ''u'' = Some email \<and>
      \<lparr>ml_to = em_email email, ml_template = ''password_reset'', ml_code = Some ''bbbbbbbbbb''\<rparr> \<in> set (rv_outbox demo_recovery3))"
proof -
  let ?S = "set ([(''u'', ''old'', ''ann@mail.org'', ''bbbbbbbbbb'')] @ issued_reset ''ann'' (normalize_code ''bbbbb-bbbbb'') demo_recovery3)"
  have step: "confirm_password_reset demo_recovery True (Some False) (Some ''new'') ''ann'' ''bbbbb-bbbbb'' ''ip'' 4 40 demo_recovery3 = (Inr (), demo_recovery4)"
    using demo_step4 by (simp add: demo_recovery4_def prod_eq_iff)
  have inj: "inj_on (\<lambda>(k, m). re_hm demo_recovery k m) (\<Union>x\<in>?S. reset_inputs demo_recovery x)"
    unfolding demo_issued2 by (simp add: reset_inputs_def inj_on_def demo_recovery_def reset_context_def json_string_def json_escape_def)
  have digest: "\<forall>k m. length (re_hm demo_recovery k m) = 32" by (simp add: demo_recovery_def)
  have uid: "find_account ''ann'' demo_recovery3 = Some ''u''" "normalize_code ''bbbbb-bbbbb'' = ''bbbbbbbbbb''" by code_simp+
  show ?thesis
    using reset_needs_mailed_code[OF demo_recovery_run _ _ digest step inj] step uid by (simp add: demo_recovery_db_def) blast
qed

end
