(* ===== verification/Sign_In_Source.thy ===== *)
theory Sign_In_Source
  imports Login Auth_Sessions E2ee
begin

text \<open>
  Where a sign-in comes from (\<^verbatim>\<open>src/app/account_security.py\<close>): signed tokens by which a browser is recognised, families of
  user agents, the comparison of a source with the completed sign-ins of an account, and the common tail of
  every sign-in (\<^verbatim>\<open>main.py\<close>: \<^verbatim>\<open>finish_sign_in\<close>).

  HMAC-SHA-256 and SHA-256 are arguments. The audit table is a list of the columns the query reads, oldest row first; the details
  of a row are the keys of the object its JSON text decodes to. The findings on an implausible location
  (\<^verbatim>\<open>sign_in_risk.assess\<close>) are an argument. Notices are listed as they are requested; the mailer may drop them.
\<close>

section \<open>Device tokens\<close>

record device_tokens =
  dt_hm :: "bytes \<Rightarrow> bytes \<Rightarrow> bytes"
  dt_key :: bytes
  dt_max_age :: int

definition device_token_service :: "(bytes \<Rightarrow> bytes \<Rightarrow> bytes) \<Rightarrow> (bytes \<Rightarrow> bytes) \<Rightarrow> string \<Rightarrow> int \<Rightarrow> device_tokens" where
  "device_token_service hm sha secret_key max_age_days =
     \<lparr>dt_hm = hm, dt_key = sha (utf8 (''secure-chat:device-token:v1:'' @ secret_key)), dt_max_age = max_age_days * 86400\<rparr>"

definition token_message :: "string \<Rightarrow> string \<Rightarrow> string \<Rightarrow> bytes" where
  "token_message user_id device_id issued = utf8 (''v1|'' @ user_id @ ''|'' @ device_id @ ''|'' @ issued)"

definition token_mac :: "device_tokens \<Rightarrow> string \<Rightarrow> string \<Rightarrow> string \<Rightarrow> string" where
  "token_mac D user_id device_id issued =
     rstrip_char (CHR ''='') (b64encode True (dt_hm D (dt_key D) (token_message user_id device_id issued)))"

text \<open>\<^verbatim>\<open>int(now)\<close> truncates towards zero.\<close>

definition issue_device_token :: "device_tokens \<Rightarrow> string \<Rightarrow> string \<Rightarrow> time \<Rightarrow> string" where
  "issue_device_token D user_id device_id now =
     (let issued = show_int (if now < 0 then \<lceil>now\<rceil> else \<lfloor>now\<rfloor>)
      in ''v1.'' @ device_id @ ''.'' @ issued @ ''.'' @ token_mac D user_id device_id issued)"

text \<open>\<^verbatim>\<open>_DEVICE_TOKEN_RE\<close>: the fields have fixed alphabets without a dot, so the match is unique.\<close>

definition parse_device_token :: "string \<Rightarrow> (string \<times> string \<times> string) option" where
  "parse_device_token t =
     (let device_id = take 22 (drop 3 t);
          rest = drop 25 t;
          issued = takeWhile is_digit (drop 1 rest);
          tail = dropWhile is_digit (drop 1 rest);
          mac = drop 1 tail
      in if startswith t ''v1.'' \<and> length device_id = 22 \<and> list_all b64url_char device_id \<and> startswith rest ''.'' \<and>
            1 \<le> length issued \<and> length issued \<le> 12 \<and> startswith tail ''.'' \<and> length mac = 43 \<and> list_all b64url_char mac
         then Some (device_id, issued, mac) else None)"

definition verify_device_token :: "device_tokens \<Rightarrow> string option \<Rightarrow> string \<Rightarrow> time \<Rightarrow> string option" where
  "verify_device_token D token user_id now =
     (case parse_device_token (case token of None \<Rightarrow> [] | Some t \<Rightarrow> t) of
        None \<Rightarrow> None
      | Some (device_id, issued, mac) \<Rightarrow>
          if mac \<noteq> token_mac D user_id device_id issued then None
          else (case int_of_digits issued of
                  None \<Rightarrow> None
                | Some i \<Rightarrow>
                    let age = now - of_int i
                    in if age < - 300 \<or> age > of_int (dt_max_age D) then None else Some device_id))"

definition device_ref :: "(bytes \<Rightarrow> string) \<Rightarrow> string \<Rightarrow> string" where
  "device_ref H device_id = take 16 (H device_id)"

section \<open>Families of user agents\<close>

text \<open>\<^verbatim>\<open>\w\<close> on code points below 256.\<close>

definition is_word :: "char \<Rightarrow> bool" where
  "is_word c \<longleftrightarrow> is_ascii_alnum c \<or> c = CHR ''_'' \<or> code c \<in> {170, 178, 179, 181, 185, 186, 188, 189, 190} \<or>
     (192 \<le> code c \<and> code c \<noteq> 215 \<and> code c \<noteq> 247)"

text \<open>\<^verbatim>\<open>\b(?:l1|l2|...)\<close> for literals that start with a word character; a literal marked \<open>True\<close> ends in \<^verbatim>\<open>\b\<close> too. The
  flag says whether the character before the text is a word character.\<close>

fun word_search :: "(string \<times> bool) list \<Rightarrow> bool \<Rightarrow> string \<Rightarrow> bool" where
  "word_search ls after_word [] = False"
| "word_search ls after_word (c # s) =
     ((\<not> after_word \<and>
       list_ex (\<lambda>(l, closed). startswith (c # s) l \<and>
          (closed \<longrightarrow> (case drop (length l) (c # s) of [] \<Rightarrow> True | d # _ \<Rightarrow> \<not> is_word d))) ls) \<or>
      word_search ls (is_word c) s)"

text \<open>\<^verbatim>\<open>\bVersion/[\d.]+.*\bSafari/\<close>\<close>

fun safari_search :: "bool \<Rightarrow> string \<Rightarrow> bool" where
  "safari_search after_word [] = False"
| "safari_search after_word (c # s) =
     ((\<not> after_word \<and> startswith (c # s) ''Version/'' \<and>
       (case drop 8 (c # s) of
          [] \<Rightarrow> False
        | d # r \<Rightarrow> (is_digit d \<or> d = CHR ''.'') \<and>
            word_search [(''Safari/'', False)] (is_word d) (takeWhile (\<lambda>x. x \<noteq> CHR 0x0A) r))) \<or>
      safari_search (is_word c) s)"

definition UNKNOWN :: string where
  "UNKNOWN = ''Kh'' @ [CHR 0xF4] @ ''ng r'' @ [CHR 0xF5]"

definition BROWSERS :: "(string \<times> (string \<Rightarrow> bool)) list" where
  "BROWSERS =
     [(''Edge'', word_search [(''Edg/'', False), (''Edge/'', False), (''EdgA/'', False), (''EdgiOS/'', False)] False),
      (''Opera'', word_search [(''OPR/'', False), (''Opera'', True)] False),
      (''Samsung Internet'', word_search [(''SamsungBrowser/'', False)] False),
      (''Firefox'', word_search [(''Firefox/'', False), (''FxiOS/'', False)] False),
      (''Chrome'', word_search [(''Chrome/'', False), (''CriOS/'', False), (''Chromium/'', False)] False),
      (''Safari'', safari_search False),
      (''curl'', \<lambda>s. startswith s ''curl/''),
      (''Python'', \<lambda>s. list_ex (contains (py_lower s)) [''python-httpx'', ''python-requests'', ''python-urllib'', ''aiohttp''])]"

definition SYSTEMS :: "(string \<times> (string \<Rightarrow> bool)) list" where
  "SYSTEMS =
     [(''Android'', word_search [(''Android'', True)] False),
      (''iOS'', word_search [(''iPhone'', True), (''iPad'', True), (''iPod'', True)] False),
      (''Windows'', word_search [(''Windows'', True)] False),
      (''ChromeOS'', word_search [(''CrOS'', True)] False),
      (''macOS'', word_search [(''Mac OS X'', True), (''Macintosh'', True)] False),
      (''Linux'', word_search [(''Linux'', True), (''X11'', True)] False)]"

definition first_family :: "(string \<times> (string \<Rightarrow> bool)) list \<Rightarrow> string \<Rightarrow> string" where
  "first_family rules s = (case find (\<lambda>(_, p). p s) rules of None \<Rightarrow> UNKNOWN | Some (name, _) \<Rightarrow> name)"

definition device_family :: "string option \<Rightarrow> string \<times> string" where
  "device_family user_agent =
     (let s = (case user_agent of None \<Rightarrow> [] | Some a \<Rightarrow> a) in (first_family BROWSERS s, first_family SYSTEMS s))"

section \<open>Sources\<close>

record sign_in_event =
  se_actor :: "string option"
  se_type :: string
  se_outcome :: string
  se_ip :: "string option"
  se_agent :: "string option"
  se_details :: "string list"
  se_created :: time

record sign_in_source =
  ss_has_history :: bool
  ss_known_ip :: bool
  ss_known_device :: bool
  ss_trusted_device :: bool

definition SIGN_IN_EVENT_TYPES :: "string list" where
  "SIGN_IN_EVENT_TYPES = [''auth.login'', ''auth.mfa.verify'', ''auth.passkey.login'']"

definition familiar :: "sign_in_source \<Rightarrow> bool" where
  "familiar s \<longleftrightarrow> ss_known_ip s \<or> ss_trusted_device s"

definition classification :: "sign_in_source \<Rightarrow> string" where
  "classification s =
     (if \<not> ss_has_history s then ''first_sign_in''
      else if \<not> ss_known_device s then ''new_device''
      else if \<not> ss_known_ip s then ''new_location''
      else ''familiar'')"

definition completed :: "string \<Rightarrow> sign_in_event \<Rightarrow> bool" where
  "completed uid e \<longleftrightarrow> se_actor e = Some uid \<and> se_type e \<in> set SIGN_IN_EVENT_TYPES \<and> se_outcome e = ''success''"

text \<open>The newest 500 completed sign-ins of the history, newest first.\<close>

definition history_rows :: "string option \<Rightarrow> time \<Rightarrow> int \<Rightarrow> sign_in_event list \<Rightarrow> sign_in_event list" where
  "history_rows user_id now history_days audit_rows =
     take 500 (rev (filter (\<lambda>e. completed (case user_id of None \<Rightarrow> [] | Some u \<Rightarrow> u) e \<and>
                               now - of_int (86400 * history_days) \<le> se_created e) audit_rows))"

definition assess_sign_in_source ::
  "string option \<Rightarrow> string \<Rightarrow> string option \<Rightarrow> time \<Rightarrow> int \<Rightarrow> string option \<Rightarrow> sign_in_event list \<Rightarrow> sign_in_source" where
  "assess_sign_in_source user_id ip user_agent now history_days device_id audit_rows =
     (let rows = history_rows user_id now history_days audit_rows
      in \<lparr>ss_has_history = (rows \<noteq> []),
          ss_known_ip = list_ex (\<lambda>e. se_ip e = Some ip) rows,
          ss_known_device =
            (if device_id \<noteq> None then True
             else if list_ex (\<lambda>e. ''device_ref'' \<in> set (se_details e)) rows then False
             else list_ex (\<lambda>e. device_family (se_agent e) = device_family user_agent) rows),
          ss_trusted_device = (device_id \<noteq> None)\<rparr>)"

definition presented_device_id :: "device_tokens \<Rightarrow> string option \<Rightarrow> string option \<Rightarrow> time \<Rightarrow> string option" where
  "presented_device_id D header user_id now = (case user_id of None \<Rightarrow> None | Some uid \<Rightarrow> verify_device_token D header uid now)"

section \<open>The tail of a sign-in\<close>

record sign_in_world =
  sw_auth :: auth_db
  sw_log :: "sign_in_event list"
  sw_notices :: "(string \<times> string) list"

text \<open>\<open>fresh\<close> is a new device identifier; \<open>details\<close> are the keys the caller adds.\<close>

definition finish_sign_in ::
  "auth_settings \<Rightarrow> device_tokens \<Rightarrow> string \<Rightarrow> user_row \<Rightarrow> string \<Rightarrow> string option \<Rightarrow> sign_in_source \<Rightarrow> string option \<Rightarrow> string \<Rightarrow>
   string \<Rightarrow> string list \<Rightarrow> string list option \<Rightarrow> string \<Rightarrow> time \<Rightarrow> sign_in_world \<Rightarrow> (claims \<times> string) \<times> sign_in_world" where
  "finish_sign_in cfg D uid u ip user_agent source device_id fresh event_type details travel jti now w =
     (let (c, db) = sign_in_session cfg uid u jti now (sw_auth w);
          did = (case device_id of Some d \<Rightarrow> if d = [] then fresh else d | None \<Rightarrow> fresh);
          event = (\<lambda>t ks. \<lparr>se_actor = Some uid, se_type = t, se_outcome = ''success'', se_ip = Some ip, se_agent = user_agent,
                           se_details = ks, se_created = now\<rparr>);
          is_new = classification source = ''new_device''
      in ((c, issue_device_token D uid did now),
          w\<lparr>sw_auth := db,
            sw_log := sw_log w @ [event event_type (details @ [''sign_in_source'', ''device_ref''])]
              @ (if is_new then [event ''auth.login.new_device'' [''device'', ''known_network'']] else [])
              @ (case travel of None \<Rightarrow> [] | Some keys \<Rightarrow> [event ''auth.login.impossible_travel'' keys]),
            sw_notices := sw_notices w @ (if is_new then [(uid, ''new_device'')] else [])
              @ (if travel = None then [] else [(uid, ''impossible_travel'')])\<rparr>))"

section \<open>Device tokens are bound to their account\<close>

lemma show_nat_nonempty: "show_nat n \<noteq> []"
  by (simp add: show_nat.simps[of n])

lemma mac_core: "token_mac D u d i = b64url_core (dt_hm D (dt_key D) (token_message u d i))"
proof -
  have "b64encode True b = b64url_core b @ replicate ((3 - length b mod 3) mod 3) (CHR ''='')" for b
    by (simp add: b64encode_def b64url_core_def b64_padding_def)
  then show ?thesis by (simp add: token_mac_def rstrip_core)
qed

lemma core_inject: "length a = length b \<Longrightarrow> b64url_core a = b64url_core b \<Longrightarrow> a = b"
  using b64_inject[of True a b] by (simp add: b64encode_def b64url_core_def b64_padding_def)

lemma token_message_inject: "token_message u d i = token_message u' d i \<Longrightarrow> u = u'"
  by (simp add: token_message_def utf8_inject)

lemma parse_text:
  assumes "parse_device_token t = Some (d, i, m)"
  shows "t = ''v1.'' @ d @ ''.'' @ i @ ''.'' @ m"
proof -
  let ?r = "drop 25 t" and ?w = "dropWhile is_digit (drop 1 (drop 25 t))"
  have p: "startswith t ''v1.''" "length d = 22" "startswith ?r ''.''" "startswith ?w ''.''"
    "d = take 22 (drop 3 t)" "i = takeWhile is_digit (drop 1 ?r)" "m = drop 1 ?w"
    using assms unfolding parse_device_token_def Let_def by (auto split: if_splits)
  obtain a where a: "t = ''v1.'' @ a" using p(1) startswith_iff by blast
  obtain b where b: "?r = ''.'' @ b" using p(3) startswith_iff by blast
  obtain c where c: "?w = ''.'' @ c" using p(4) startswith_iff by blast
  have t: "t = ''v1.'' @ d @ ?r" using a p(2,5) by simp
  have w: "?w = ''.'' @ m" using c p(7) by simp
  have "b = i @ ?w" using p(6) b by simp
  from this[unfolded w] have r: "?r = ''.'' @ i @ ''.'' @ m" using b by simp
  show ?thesis by (rule t[unfolded r])
qed

lemma parse_issued:
  assumes "length d = 22" "list_all b64url_char d" "length m = 43" "list_all b64url_char m" "n < 10 ^ 12"
  shows "parse_device_token (''v1.'' @ d @ ''.'' @ show_nat n @ ''.'' @ m) = Some (d, show_nat n, m)"
proof -
  have digits: "list_all is_digit (show_nat n)" by (auto simp: list_all_iff dest: show_nat_digits)
  then have w: "takeWhile is_digit (show_nat n @ ''.'' @ m) = show_nat n" "dropWhile is_digit (show_nat n @ ''.'' @ m) = ''.'' @ m"
    by (simp_all add: list_all_iff takeWhile_append2 dropWhile_append2 is_digit_def)
  have l: "1 \<le> length (show_nat n)" "length (show_nat n) \<le> 12"
    using show_nat_nonempty[of n] length_show_nat[of n 11] assms(5) by (simp_all add: Suc_le_eq)
  have t: "drop 25 (''v1.'' @ d @ ''.'' @ show_nat n @ ''.'' @ m) = ''.'' @ show_nat n @ ''.'' @ m"
    "take 22 (drop 3 (''v1.'' @ d @ ''.'' @ show_nat n @ ''.'' @ m)) = d"
    using assms(1) by simp_all
  show ?thesis
    unfolding parse_device_token_def Let_def t using assms(1-4) l w by simp
qed

lemma issued_parse:
  assumes digest: "\<forall>k m. length (dt_hm D k m) = 32" and did: "length did = 22" "list_all b64url_char did" and t: "0 \<le> t" "t < 10 ^ 12"
  shows "parse_device_token (issue_device_token D uid did t) = Some (did, show_int \<lfloor>t\<rfloor>, token_mac D uid did (show_int \<lfloor>t\<rfloor>))"
proof -
  let ?n = "nat \<lfloor>t\<rfloor>" and ?mac = "token_mac D uid did (show_int \<lfloor>t\<rfloor>)"
  have n: "show_int \<lfloor>t\<rfloor> = show_nat ?n" "?n < 10 ^ 12"
    using t by (simp_all add: show_int_def floor_less_iff nat_less_iff)
  have tok: "issue_device_token D uid did t = ''v1.'' @ did @ ''.'' @ show_nat ?n @ ''.'' @ ?mac"
    using t(1) n(1) by (simp add: issue_device_token_def Let_def)
  have "length ?mac = 43" "list_all b64url_char ?mac"
    using digest core_chars by (simp_all add: mac_core core_length list_all_iff)
  then show ?thesis unfolding tok using parse_issued[OF did _ _ n(2)] n(1) by simp
qed

text \<open>C40: A device token recognises the browser for the account it was minted for, from five minutes before its issue
  until its maximal age. It is accepted for another account only if HMAC-SHA-256 gives the messages of the two accounts, which
  differ, the same digest; and every accepted token carries the digest of its own fields and of the account it is presented
  for.\<close>

theorem device_token_bound:
  assumes digest: "\<forall>k m. length (dt_hm D k m) = 32"
    and did: "length did = 22" "list_all b64url_char did" and t: "0 \<le> t" "t < 10 ^ 12"
  shows "verify_device_token D (Some (issue_device_token D uid did t)) uid now =
      (if - 300 \<le> now - of_int \<lfloor>t\<rfloor> \<and> now - of_int \<lfloor>t\<rfloor> \<le> of_int (dt_max_age D) then Some did else None) \<and>
    (\<forall>uid'. verify_device_token D (Some (issue_device_token D uid did t)) uid' now \<noteq> None \<and> uid' \<noteq> uid \<longrightarrow>
       token_message uid' did (show_int \<lfloor>t\<rfloor>) \<noteq> token_message uid did (show_int \<lfloor>t\<rfloor>) \<and>
       dt_hm D (dt_key D) (token_message uid' did (show_int \<lfloor>t\<rfloor>)) = dt_hm D (dt_key D) (token_message uid did (show_int \<lfloor>t\<rfloor>))) \<and>
    (\<forall>token u d. verify_device_token D (Some token) u now = Some d \<longrightarrow>
       (\<exists>issued. token = ''v1.'' @ d @ ''.'' @ issued @ ''.'' @ token_mac D u d issued))"
proof (intro conjI allI impI)
  note parse = issued_parse[OF assms, of uid]
  have n: "int_of_digits (show_int \<lfloor>t\<rfloor>) = Some \<lfloor>t\<rfloor>" using t(1) by (simp add: show_int_def)
  show "verify_device_token D (Some (issue_device_token D uid did t)) uid now =
      (if - 300 \<le> now - of_int \<lfloor>t\<rfloor> \<and> now - of_int \<lfloor>t\<rfloor> \<le> of_int (dt_max_age D) then Some did else None)"
    by (auto simp: verify_device_token_def parse n Let_def)
  fix uid' assume other: "verify_device_token D (Some (issue_device_token D uid did t)) uid' now \<noteq> None \<and> uid' \<noteq> uid"
  then have "token_mac D uid' did (show_int \<lfloor>t\<rfloor>) = token_mac D uid did (show_int \<lfloor>t\<rfloor>)"
    by (auto simp: verify_device_token_def parse split: if_splits)
  then show "dt_hm D (dt_key D) (token_message uid' did (show_int \<lfloor>t\<rfloor>)) = dt_hm D (dt_key D) (token_message uid did (show_int \<lfloor>t\<rfloor>))"
    unfolding mac_core by (rule core_inject[rotated]) (simp add: digest)
  show "token_message uid' did (show_int \<lfloor>t\<rfloor>) \<noteq> token_message uid did (show_int \<lfloor>t\<rfloor>)"
    using other token_message_inject by blast
next
  fix token u d
  assume "verify_device_token D (Some token) u now = Some d"
  then obtain i m where "parse_device_token token = Some (d, i, m)" "m = token_mac D u d i"
    by (auto simp: verify_device_token_def Let_def split: option.splits if_splits)
  then show "\<exists>issued. token = ''v1.'' @ d @ ''.'' @ issued @ ''.'' @ token_mac D u d issued"
    using parse_text by blast
qed

definition demo_device_tokens :: device_tokens where
  "demo_device_tokens = \<lparr>dt_hm = (\<lambda>k m. take 32 (m @ replicate 32 (CHR ''-''))), dt_key = ''k'', dt_max_age = 7776000\<rparr>"

definition demo_device_id :: string where "demo_device_id = replicate 22 (CHR ''A'')"

theorem device_token_bound_witness:
  "verify_device_token demo_device_tokens (Some (issue_device_token demo_device_tokens ''ann'' demo_device_id 1000)) ''ann'' 1500 =
     Some demo_device_id \<and>
   verify_device_token demo_device_tokens (Some (issue_device_token demo_device_tokens ''ann'' demo_device_id 1000)) ''ben'' 1500 = None"
proof -
  have digest: "\<forall>k m. length (dt_hm demo_device_tokens k m) = 32" by (simp add: demo_device_tokens_def min_def)
  have did: "length demo_device_id = 22" "list_all b64url_char demo_device_id"
    by (simp_all add: demo_device_id_def list_all_iff b64url_char_def is_ascii_alnum_def is_upper_def)
  have differ: "dt_hm demo_device_tokens (dt_key demo_device_tokens) (token_message ''ben'' demo_device_id (show_int 1000)) \<noteq>
      dt_hm demo_device_tokens (dt_key demo_device_tokens) (token_message ''ann'' demo_device_id (show_int 1000))"
    by code_simp
  note bound = device_token_bound[OF digest did, of 1000 "''ann''" 1500]
  show ?thesis
  proof
    show "verify_device_token demo_device_tokens (Some (issue_device_token demo_device_tokens ''ann'' demo_device_id 1000)) ''ann'' 1500 =
        Some demo_device_id"
      using bound by (simp add: demo_device_tokens_def)
    show "verify_device_token demo_device_tokens (Some (issue_device_token demo_device_tokens ''ann'' demo_device_id 1000)) ''ben'' 1500 = None"
    proof (rule ccontr)
      assume "verify_device_token demo_device_tokens (Some (issue_device_token demo_device_tokens ''ann'' demo_device_id 1000)) ''ben'' 1500 \<noteq> None"
      then show False using conjunct1[OF conjunct2[OF bound]] differ by simp
    qed
  qed
qed

section \<open>A stranger cannot lock the owner out\<close>

lemma history_keeps:
  assumes "completed uid e" "now - of_int (86400 * days) \<le> se_created e" "length (filter (completed uid) post) < 500"
  shows "e \<in> set (history_rows (Some uid) now days (pre @ e # post))"
proof -
  let ?P = "\<lambda>e. completed uid e \<and> now - of_int (86400 * days) \<le> se_created e"
  have "length (filter ?P post) \<le> length (filter (completed uid) post)" by (rule length_filter_mono) simp
  then obtain k where k: "500 - length (filter ?P post) = Suc k" using assms(3) by (metis Suc_diff_Suc le_less_trans)
  have "history_rows (Some uid) now days (pre @ e # post) = take 500 (rev (filter ?P post) @ e # rev (filter ?P pre))"
    using assms(1,2) by (simp add: history_rows_def)
  then show ?thesis using k by simp
qed

lemma finish_log:
  assumes "finish_sign_in cfg D uid u ip agent source device_id fresh event details travel jti t w = (r, w')"
    "event \<in> set SIGN_IN_EVENT_TYPES"
  obtains e more_rows where "sw_log w' = sw_log w @ e # more_rows" "completed uid e" "se_ip e = Some ip" "se_created e = t"
    "filter (completed uid) more_rows = []"
proof -
  let ?e = "\<lambda>ty ks. \<lparr>se_actor = Some uid, se_type = ty, se_outcome = ''success'', se_ip = Some ip, se_agent = agent, se_details = ks, se_created = t\<rparr>"
  let ?m = "(if classification source = ''new_device'' then [?e ''auth.login.new_device'' [''device'', ''known_network'']] else [])
      @ (case travel of None \<Rightarrow> [] | Some keys \<Rightarrow> [?e ''auth.login.impossible_travel'' keys])"
  have "sw_log w' = sw_log w @ ?e event (details @ [''sign_in_source'', ''device_ref'']) # ?m"
    using assms(1) by (auto simp: finish_sign_in_def Let_def split: prod.splits)
  moreover have "filter (completed uid) ?m = []"
    by (simp add: completed_def SIGN_IN_EVENT_TYPES_def split: option.split)
  ultimately show thesis
    using assms(2) by (intro that[of "?e event (details @ [''sign_in_source'', ''device_ref''])" ?m]) (simp_all add: completed_def)
qed

lemma verified_device:
  assumes "presented_device_id D header (Some uid) t0 = Some d"
  shows "length d = 22" "list_all b64url_char d"
proof -
  obtain i m where "parse_device_token (case header of None \<Rightarrow> [] | Some x \<Rightarrow> x) = Some (d, i, m)"
    using assms by (auto simp: presented_device_id_def verify_device_token_def Let_def split: option.splits if_splits)
  then show "length d = 22" "list_all b64url_char d"
    unfolding parse_device_token_def Let_def by (auto split: if_splits)
qed

lemma fresh_token_accepted:
  assumes "\<forall>k m. length (dt_hm D k m) = 32" "length did = 22" "list_all b64url_char did" "0 \<le> t" "t < 10 ^ 12"
    "- 300 \<le> now - of_int \<lfloor>t\<rfloor>" "now - of_int \<lfloor>t\<rfloor> \<le> of_int (dt_max_age D)"
  shows "verify_device_token D (Some (issue_device_token D uid did t)) uid now = Some did"
  using issued_parse[OF assms(1-5)] assms(4,6,7) by (auto simp: verify_device_token_def Let_def show_int_def)

lemma clear_expired_lock_keeps:
  "ac_active (snd (clear_expired_lock now a)) = ac_active a" "ac_password_hash (snd (clear_expired_lock now a)) = ac_password_hash a"
  by (simp_all add: clear_expired_lock_def split: option.split)

lemma login_user_familiar:
  assumes "ac_active a" "verify (ac_password_hash a) pw"
  shows "fst (login_user cfg verify rehash uid a key pw ip True now db) \<in> range (Challenge uid) \<union> {Signed_In uid ''password''}"
proof -
  obtain b v where c: "clear_expired_lock now a = (b, v)" by fastforce
  then have "ac_active v" "verify (ac_password_hash v) pw" using clear_expired_lock_keeps[of now a] assms by simp_all
  then show ?thesis unfolding login_user_def Let_def c prod.case by simp
qed

lemma login_familiar:
  assumes "find_username (py_lower (py_strip name)) db = Some (uid, a)" "ac_active a" "verify (ac_password_hash a) pw"
  shows "fst (login cfg verify rehash name pw ip True tick now db) \<in>
    {Raised} \<union> range (Refused 429) \<union> range (Challenge uid) \<union> {Signed_In uid ''password''}"
proof -
  have fu: "find_username nm (db\<lparr>ld_login_limiter := l\<rparr>) = find_username nm db" for nm l
    by (simp add: find_username_def)
  have lu: "fst (login_user cfg verify rehash uid a key pw ip True now d) \<in> range (Challenge uid) \<union> {Signed_In uid ''password''}" for key d
    using assms(2,3) by (rule login_user_familiar)
  show ?thesis
    unfolding login_def Let_def fu assms(1) using lu by (fastforce split: prod.split sum.split)
qed

text \<open>C39: A stranger cannot lock the owner out. After a completed sign-in from an address, whatever else is recorded, as long
  as the history lasts and fewer than 500 further sign-ins of the account have completed, that address counts as familiar, and so does any
  address that presents the device token handed out; and the right password from there is answered by a session, by the
  challenge for the second factor or by the rate limit, whatever lock failed guesses have put on the account.\<close>

theorem owner_not_locked_out:
  assumes digest: "\<forall>k m. length (dt_hm D k m) = 32" and fresh: "length fresh = 22" "list_all b64url_char fresh"
    and t: "0 \<le> t" "t < 10 ^ 12"
    and finish: "finish_sign_in cfg D uid u ip agent source (presented_device_id D header (Some uid) t0) fresh event details travel jti t w =
        ((c, token), w')"
    and event: "event \<in> set SIGN_IN_EVENT_TYPES"
    and few: "length (filter (completed uid) post) < 500" and recent: "now \<le> t + of_int (86400 * days)"
    and account: "find_username (py_lower (py_strip name)) db = Some (uid, a)" "ac_active a" "verify (ac_password_hash a) pw"
  shows "familiar (assess_sign_in_source (Some uid) ip agent' now days dev (sw_log w' @ post)) \<and>
    (- 300 \<le> now - of_int \<lfloor>t\<rfloor> \<and> now - of_int \<lfloor>t\<rfloor> \<le> of_int (dt_max_age D) \<longrightarrow>
       familiar (assess_sign_in_source (Some uid) ip' agent' now days (presented_device_id D (Some token) (Some uid) now) (sw_log w' @ post))) \<and>
    fst (login lcfg verify rehash name pw ip
           (familiar (assess_sign_in_source (Some uid) ip agent' now days dev (sw_log w' @ post))) tick now db) \<in>
      {Raised} \<union> range (Refused 429) \<union> range (Challenge uid) \<union> {Signed_In uid ''password''}"
proof -
  obtain e ms where e: "sw_log w' = sw_log w @ e # ms" "completed uid e" "se_ip e = Some ip" "se_created e = t" "filter (completed uid) ms = []"
    using finish_log[OF finish event] .
  have "e \<in> set (history_rows (Some uid) now days (sw_log w @ e # ms @ post))"
    using history_keeps[of uid e now days "ms @ post"] e(2,4,5) few recent by (simp add: algebra_simps)
  then have fam: "familiar (assess_sign_in_source (Some uid) ip agent' now days dev (sw_log w' @ post))"
    using e(1,3) by (auto simp: familiar_def assess_sign_in_source_def Let_def list_ex_iff)
  let ?did = "case presented_device_id D header (Some uid) t0 of Some d \<Rightarrow> if d = [] then fresh else d | None \<Rightarrow> fresh"
  have "token = issue_device_token D uid ?did t"
    using finish by (auto simp: finish_sign_in_def Let_def split: prod.splits)
  moreover have "length ?did = 22" "list_all b64url_char ?did"
    using fresh verified_device[of D header uid t0] by (auto split: option.splits)
  ultimately have "presented_device_id D (Some token) (Some uid) now = Some ?did"
    if "- 300 \<le> now - of_int \<lfloor>t\<rfloor>" "now - of_int \<lfloor>t\<rfloor> \<le> of_int (dt_max_age D)"
    using fresh_token_accepted[OF digest _ _ t that] by (simp add: presented_device_id_def)
  then have "familiar (assess_sign_in_source (Some uid) ip' agent' now days (presented_device_id D (Some token) (Some uid) now) (sw_log w' @ post))"
    if "- 300 \<le> now - of_int \<lfloor>t\<rfloor>" "now - of_int \<lfloor>t\<rfloor> \<le> of_int (dt_max_age D)"
    using that by (simp add: familiar_def assess_sign_in_source_def Let_def)
  then show ?thesis using fam login_familiar[where verify = verify, OF account] by simp
qed

text \<open>An account signs in once, strangers fail often enough to lock it, and the owner comes back.\<close>

definition demo_sign_in_user :: user_row where
  "demo_sign_in_user = \<lparr>ur_username = ''ana'', ur_role = ''user'', ur_active = True, ur_token_version = 3, ur_mfa_enabled = True\<rparr>"

definition demo_world :: sign_in_world where
  "demo_world = \<lparr>sw_auth = \<lparr>ad_users = [(''u1'', demo_sign_in_user)], ad_sessions = [], ad_revoked = [], ad_audit = []\<rparr>, sw_log = [], sw_notices = []\<rparr>"

definition demo_finish :: "(claims \<times> string) \<times> sign_in_world" where
  "demo_finish = finish_sign_in demo_cfg demo_device_tokens ''u1'' demo_sign_in_user ''10.0.0.1'' (Some ''curl/8'')
     (assess_sign_in_source (Some ''u1'') ''10.0.0.1'' (Some ''curl/8'') 1000 90 None []) None demo_device_id ''auth.login'' [] None ''j'' 1000 demo_world"

definition demo_failures :: "sign_in_event list" where
  "demo_failures = replicate 600 \<lparr>se_actor = Some ''u1'', se_type = ''auth.login'', se_outcome = ''failure'', se_ip = Some ''6.6.6.6'',
     se_agent = None, se_details = [''reason''], se_created = 1500\<rparr>"

theorem owner_not_locked_out_witness:
  "fst (login demo_login_cfg (\<lambda>h p. h = p) (\<lambda>h p. None) ''Ana'' ''pw'' ''10.0.0.1''
     (familiar (assess_sign_in_source (Some ''u1'') ''10.0.0.1'' None 2000 90 None (sw_log (snd demo_finish) @ demo_failures))) 5 2000
     (demo_login_db\<lparr>ld_accounts := [(''u1'', demo_account\<lparr>ac_failed_login := 600, ac_locked_until := Some 3000\<rparr>)]\<rparr>)) \<noteq> Refused 401 None"
proof -
  have digest: "\<forall>k m. length (dt_hm demo_device_tokens k m) = 32" by (simp add: demo_device_tokens_def min_def)
  have fresh: "length demo_device_id = 22" "list_all b64url_char demo_device_id"
    by (simp_all add: demo_device_id_def list_all_iff b64url_char_def is_ascii_alnum_def is_upper_def)
  have name: "py_lower (py_strip ''Ana'') = ''ana''" by code_simp
  have none: "presented_device_id demo_device_tokens None (Some ''u1'') 0 = None"
    by (simp add: presented_device_id_def verify_device_token_def parse_device_token_def Let_def)
  have few: "length (filter (completed ''u1'') demo_failures) < 500" by (simp add: demo_failures_def completed_def)
  have run: "finish_sign_in demo_cfg demo_device_tokens ''u1'' demo_sign_in_user ''10.0.0.1'' (Some ''curl/8'')
     (assess_sign_in_source (Some ''u1'') ''10.0.0.1'' (Some ''curl/8'') 1000 90 None []) (presented_device_id demo_device_tokens None (Some ''u1'') 0)
     demo_device_id ''auth.login'' [] None ''j'' 1000 demo_world = ((fst (fst demo_finish), snd (fst demo_finish)), snd demo_finish)"
    unfolding none by (simp add: demo_finish_def)
  let ?db = "demo_login_db\<lparr>ld_accounts := [(''u1'', demo_account\<lparr>ac_failed_login := 600, ac_locked_until := Some 3000\<rparr>)]\<rparr>"
  have account: "find_username (py_lower (py_strip ''Ana'')) ?db = Some (''u1'', demo_account\<lparr>ac_failed_login := 600, ac_locked_until := Some 3000\<rparr>)"
    unfolding name by (simp add: find_username_def demo_account_def)
  have "fst (login demo_login_cfg (\<lambda>h p. h = p) (\<lambda>h p. None) ''Ana'' ''pw'' ''10.0.0.1''
     (familiar (assess_sign_in_source (Some ''u1'') ''10.0.0.1'' None 2000 90 None (sw_log (snd demo_finish) @ demo_failures))) 5 2000 ?db) \<in>
     {Raised} \<union> range (Refused 429) \<union> range (Challenge ''u1'') \<union> {Signed_In ''u1'' ''password''}"
    by (rule owner_not_locked_out[where verify = "\<lambda>h p. h = p" and pw = "''pw''", OF digest fresh _ _ run _ few _ account,
          THEN conjunct2, THEN conjunct2]) (simp_all add: SIGN_IN_EVENT_TYPES_def demo_account_def)
  then show ?thesis by auto
qed

end
