(* ===== verification/Passkeys.thy ===== *)
theory Passkeys
  imports Recovery Sign_In_Source
begin

text \<open>
  Passkeys: the ceremonies of \<^verbatim>\<open>src/app/passkeys.py\<close> and the routes of \<^verbatim>\<open>src/app/account_routes.py\<close> that register, list and
  remove passkeys, sign in with one, and re-authenticate a bearer session with one.

  The package \<^verbatim>\<open>webauthn\<close> is the record \<open>webauthn\<close>: its verification of a registration and of an assertion (\<open>Inl\<close> is the
  message of an exception the code catches) and its base64url helpers. The request schema admits only JSON objects as
  credentials; such an object is read as far as the code looks at it, and \<open>cj_rest\<close> stands for everything else the
  package verifies. Challenges, row identifiers and clock readings are arguments.
\<close>

section \<open>Data\<close>

text \<open>A JSON member: a string, a true value of another type, or a missing or false one.\<close>

datatype json_field = Missing | Text string | Other_Value

record credential_json =
  cj_response_is_dict :: bool
  cj_size :: nat
  cj_raw_id :: json_field
  cj_id :: json_field
  cj_user_handle :: json_field
  cj_transports :: "json_field list"
  cj_rest :: bytes

record verified_registration =
  vr_credential_id :: bytes
  vr_public_key :: bytes
  vr_sign_count :: int
  vr_aaguid :: string
  vr_backed_up :: bool

record webauthn =
  wa_register :: "credential_json \<Rightarrow> bytes \<Rightarrow> string \<Rightarrow> string list \<Rightarrow> string + verified_registration"
  wa_authenticate :: "credential_json \<Rightarrow> bytes \<Rightarrow> string \<Rightarrow> string list \<Rightarrow> bytes \<Rightarrow> int \<Rightarrow> string + int \<times> bool"
  wa_encode :: "bytes \<Rightarrow> string"
  wa_decode :: "string \<Rightarrow> bytes option"
  wa_transports :: "string list"

record passkey_service =
  ps_webauthn :: webauthn
  ps_rp_id :: string
  ps_origins :: "string list"

record passkey_row =
  wc_user :: string
  wc_credential_id :: string
  wc_public_key :: string
  wc_sign_count :: int
  wc_transports :: string
  wc_aaguid :: string
  wc_name :: string
  wc_backed_up :: bool
  wc_created :: time
  wc_last_used :: "time option"

record challenge_row =
  wh_user :: "string option"
  wh_session :: "string option"
  wh_purpose :: string
  wh_challenge :: string
  wh_expires :: time
  wh_consumed :: "time option"

record passkey_db =
  pd_base :: recovery_db
  pd_credentials :: "(string, passkey_row) pydict"
  pd_challenges :: "(string, challenge_row) pydict"
  pd_log :: "sign_in_event list"
  pd_notices :: "(string \<times> string) list"

text \<open>A \<^verbatim>\<open>PasskeyError\<close> with its reason and owner, or an exception no handler catches.\<close>

datatype passkey_error = Passkey_Error string "string option" | Uncaught

definition CHALLENGE_SECONDS :: int where "CHALLENGE_SECONDS = 180"
definition MAX_PASSKEYS_PER_USER :: nat where "MAX_PASSKEYS_PER_USER = 10"
definition MAX_CREDENTIAL_JSON_BYTES :: nat where "MAX_CREDENTIAL_JSON_BYTES = 16384"

text \<open>Texts below 256 are in NFC; the category C there is the control characters and the soft hyphen.\<close>

definition clean_passkey_name :: "string option \<Rightarrow> string \<Rightarrow> string" where
  "clean_passkey_name v fallback =
     (let t = filter (\<lambda>c. \<not> (code c < 32 \<or> (127 \<le> code c \<and> code c < 160) \<or> code c = 173)) (py_strip (case v of None \<Rightarrow> [] | Some s \<Rightarrow> s))
      in take 64 (if t = [] then fallback else t))"

definition parse_credential :: "credential_json \<Rightarrow> passkey_error + credential_json" where
  "parse_credential c =
     (if \<not> cj_response_is_dict c then Inl (Passkey_Error ''malformed_credential'' None)
      else if cj_size c > MAX_CREDENTIAL_JSON_BYTES then Inl (Passkey_Error ''credential_too_large'' None)
      else Inr c)"

text \<open>\<^verbatim>\<open>payload.get("rawId") or payload.get("id")\<close>, if it is a string of at most 1400 characters.\<close>

definition raw_credential_id :: "credential_json \<Rightarrow> string option" where
  "raw_credential_id c =
     (let chosen = (case cj_raw_id c of Missing \<Rightarrow> cj_id c | Text s \<Rightarrow> if s = [] then cj_id c else Text s | Other_Value \<Rightarrow> Other_Value)
      in case chosen of Text s \<Rightarrow> if length s > 1400 then None else Some s | _ \<Rightarrow> None)"

section \<open>Challenges\<close>

definition new_challenge ::
  "passkey_service \<Rightarrow> string \<Rightarrow> string option \<Rightarrow> string option \<Rightarrow> bytes \<Rightarrow> string \<Rightarrow> time \<Rightarrow> passkey_db \<Rightarrow> passkey_db" where
  "new_challenge P purpose user session chal cid now db =
     db\<lparr>pd_challenges := dict_set cid
          \<lparr>wh_user = user, wh_session = session, wh_purpose = purpose, wh_challenge = wa_encode (ps_webauthn P) chal,
           wh_expires = now + of_int CHALLENGE_SECONDS, wh_consumed = None\<rparr> (pd_challenges db)\<rparr>"

definition consume_challenge ::
  "passkey_service \<Rightarrow> string \<Rightarrow> string \<Rightarrow> string option \<Rightarrow> string option \<Rightarrow> time \<Rightarrow> passkey_db \<Rightarrow> (passkey_error + bytes) \<times> passkey_db" where
  "consume_challenge P cid purpose user session now db =
     (case dict_get (pd_challenges db) cid of
        None \<Rightarrow> (Inl (Passkey_Error ''unknown_challenge'' None), db)
      | Some r \<Rightarrow>
          if wh_purpose r \<noteq> purpose \<or> wh_user r \<noteq> user \<or> wh_session r \<noteq> session
          then (Inl (Passkey_Error ''unknown_challenge'' None), db)
          else if wh_consumed r \<noteq> None \<or> wh_expires r \<le> now
          then (Inl (Passkey_Error ''challenge_expired_or_used'' None), db)
          else
            (case wa_decode (ps_webauthn P) (wh_challenge r) of
               None \<Rightarrow> (Inl Uncaught, db)
             | Some b \<Rightarrow> (Inr b, db\<lparr>pd_challenges := dict_set cid (r\<lparr>wh_consumed := Some now\<rparr>) (pd_challenges db)\<rparr>)))"

section \<open>Ceremonies\<close>

definition passkeys_of :: "string \<Rightarrow> passkey_db \<Rightarrow> (string \<times> passkey_row) list" where
  "passkeys_of uid db = filter (\<lambda>(_, r). wc_user r = uid) (pd_credentials db)"

definition registration_options ::
  "passkey_service \<Rightarrow> string \<Rightarrow> bytes \<Rightarrow> string \<Rightarrow> time \<Rightarrow> passkey_db \<Rightarrow> (passkey_error + string) \<times> passkey_db" where
  "registration_options P uid chal cid now db =
     (if length (passkeys_of uid db) \<ge> MAX_PASSKEYS_PER_USER then (Inl (Passkey_Error ''too_many_passkeys'' None), db)
      else (Inr cid, new_challenge P ''register'' (Some uid) None chal cid now db))"

definition stored_transports :: "passkey_service \<Rightarrow> credential_json \<Rightarrow> string" where
  "stored_transports P c =
     take 128 (join '','' (concat (map (\<lambda>f. case f of Text s \<Rightarrow> if s \<in> set (wa_transports (ps_webauthn P)) then [s] else [] | _ \<Rightarrow> []) (cj_transports c))))"

definition verify_registration ::
  "passkey_service \<Rightarrow> string \<Rightarrow> string \<Rightarrow> credential_json \<Rightarrow> string \<Rightarrow> string \<Rightarrow> time \<Rightarrow> passkey_db \<Rightarrow> (passkey_error + string \<times> passkey_row) \<times> passkey_db" where
  "verify_registration P uid cid cred name pid now db =
     (case consume_challenge P cid ''register'' (Some uid) None now db of
        (Inl e, db1) \<Rightarrow> (Inl e, db1)
      | (Inr chal, db1) \<Rightarrow>
          (case parse_credential cred of
             Inl e \<Rightarrow> (Inl e, db1)
           | Inr payload \<Rightarrow>
               (case wa_register (ps_webauthn P) payload chal (ps_rp_id P) (ps_origins P) of
                  Inl _ \<Rightarrow> (Inl (Passkey_Error ''registration_rejected'' None), db1)
                | Inr v \<Rightarrow>
                    (let credential_id = wa_encode (ps_webauthn P) (vr_credential_id v)
                     in if list_ex (\<lambda>(_, r). wc_credential_id r = credential_id) (pd_credentials db1)
                        then (Inl (Passkey_Error ''credential_already_registered'' None), db1)
                        else
                          (let row = \<lparr>wc_user = uid, wc_credential_id = credential_id,
                                      wc_public_key = wa_encode (ps_webauthn P) (vr_public_key v), wc_sign_count = vr_sign_count v,
                                      wc_transports = stored_transports P payload, wc_aaguid = take 36 (vr_aaguid v), wc_name = name,
                                      wc_backed_up = vr_backed_up v, wc_created = now, wc_last_used = None\<rparr>
                           in (Inr (pid, row), db1\<lparr>pd_credentials := dict_set pid row (pd_credentials db1)\<rparr>))))))"

definition handle_matches :: "passkey_service \<Rightarrow> json_field \<Rightarrow> string \<Rightarrow> bool" where
  "handle_matches P f uid =
     (case f of
        Missing \<Rightarrow> True
      | Text s \<Rightarrow> s = [] \<or> wa_decode (ps_webauthn P) s = Some uid
      | Other_Value \<Rightarrow> False)"

definition verify_assertion ::
  "passkey_service \<Rightarrow> bytes \<Rightarrow> credential_json \<Rightarrow> string option \<Rightarrow> time \<Rightarrow> passkey_db \<Rightarrow> (passkey_error + string \<times> passkey_row) \<times> passkey_db" where
  "verify_assertion P chal cred expected_user now db =
     (case parse_credential cred of
        Inl e \<Rightarrow> (Inl e, db)
      | Inr payload \<Rightarrow>
          (case raw_credential_id payload of
             None \<Rightarrow> (Inl (Passkey_Error ''malformed_credential'' None), db)
           | Some raw_id \<Rightarrow>
               (case find (\<lambda>(_, r). wc_credential_id r = raw_id \<and> (case expected_user of None \<Rightarrow> True | Some u \<Rightarrow> wc_user r = u)) (pd_credentials db) of
                  None \<Rightarrow> (Inl (Passkey_Error ''unknown_credential'' None), db)
                | Some (pid, stored) \<Rightarrow>
                    if \<not> handle_matches P (cj_user_handle payload) (wc_user stored)
                    then (Inl (Passkey_Error ''user_handle_mismatch'' (Some (wc_user stored))), db)
                    else
                      (case (case wa_decode (ps_webauthn P) (wc_public_key stored) of
                               None \<Rightarrow> Inl []
                             | Some pk \<Rightarrow> wa_authenticate (ps_webauthn P) payload chal (ps_rp_id P) (ps_origins P) pk (wc_sign_count stored)) of
                         Inl msg \<Rightarrow>
                           (Inl (Passkey_Error (if contains (py_lower msg) ''sign count'' then ''sign_count_regression'' else ''assertion_rejected'')
                                   (Some (wc_user stored))), db)
                       | Inr (n, backed_up) \<Rightarrow>
                           (let row = stored\<lparr>wc_sign_count := n, wc_backed_up := backed_up, wc_last_used := Some now\<rparr>
                            in (Inr (pid, row), db\<lparr>pd_credentials := dict_set pid row (pd_credentials db)\<rparr>))))))"

definition authentication_user_id :: "credential_json \<Rightarrow> passkey_db \<Rightarrow> string option" where
  "authentication_user_id cred db =
     (case parse_credential cred of
        Inl _ \<Rightarrow> None
      | Inr payload \<Rightarrow>
          (case raw_credential_id payload of
             None \<Rightarrow> None
           | Some raw_id \<Rightarrow> map_option (wc_user \<circ> snd) (find (\<lambda>(_, r). wc_credential_id r = raw_id) (pd_credentials db))))"

definition verify_authentication ::
  "passkey_service \<Rightarrow> string \<Rightarrow> credential_json \<Rightarrow> string option \<Rightarrow> time \<Rightarrow> passkey_db \<Rightarrow> (passkey_error + string \<times> passkey_row) \<times> passkey_db" where
  "verify_authentication P cid cred expected_user now db =
     (case consume_challenge P cid ''authenticate'' None None now db of
        (Inl e, db1) \<Rightarrow> (Inl e, db1)
      | (Inr chal, db1) \<Rightarrow>
          (case expected_user of
             None \<Rightarrow> (case parse_credential cred of Inl e \<Rightarrow> (Inl e, db1) | Inr _ \<Rightarrow> (Inl (Passkey_Error ''unknown_credential'' None), db1))
           | Some u \<Rightarrow> verify_assertion P chal cred (Some u) now db1))"

definition step_up_options ::
  "passkey_service \<Rightarrow> string \<Rightarrow> string \<Rightarrow> bytes \<Rightarrow> string \<Rightarrow> time \<Rightarrow> passkey_db \<Rightarrow> (passkey_error + string) \<times> passkey_db" where
  "step_up_options P uid jti chal cid now db =
     (if passkeys_of uid db = [] then (Inl (Passkey_Error ''no_passkeys'' (Some uid)), db)
      else (Inr cid, new_challenge P ''step_up'' (Some uid) (Some jti) chal cid now db))"

definition verify_step_up ::
  "passkey_service \<Rightarrow> string \<Rightarrow> string \<Rightarrow> string \<Rightarrow> credential_json \<Rightarrow> time \<Rightarrow> passkey_db \<Rightarrow> (passkey_error + string \<times> passkey_row) \<times> passkey_db" where
  "verify_step_up P uid jti cid cred now db =
     (case consume_challenge P cid ''step_up'' (Some uid) (Some jti) now db of
        (Inl e, db1) \<Rightarrow> (Inl e, db1)
      | (Inr chal, db1) \<Rightarrow> verify_assertion P chal cred (Some uid) now db1)"

section \<open>Routes\<close>

definition on_base :: "(recovery_db \<Rightarrow> recovery_db) \<Rightarrow> passkey_db \<Rightarrow> passkey_db" where
  "on_base f db = db\<lparr>pd_base := f (pd_base db)\<rparr>"

definition throttle_passkey :: "string \<Rightarrow> int \<Rightarrow> int \<Rightarrow> string \<Rightarrow> string option \<Rightarrow> time \<Rightarrow> passkey_db \<Rightarrow> nat option \<times> passkey_db" where
  "throttle_passkey key n w event actor tick db =
     (case throttle key n w event actor tick (pd_base db) of (r, b) \<Rightarrow> (r, db\<lparr>pd_base := b\<rparr>))"

definition passkey_step_up_options ::
  "recovery_env \<Rightarrow> passkey_service \<Rightarrow> claims option \<Rightarrow> string \<Rightarrow> bytes \<Rightarrow> string \<Rightarrow> time \<Rightarrow> time \<Rightarrow> passkey_db \<Rightarrow> (nat + string) \<times> passkey_db" where
  "passkey_step_up_options E P token uid chal cid tick now db =
     (case throttle_passkey (''passkey-step-up:'' @ uid) 10 300 ''auth.step_up'' (Some uid) tick db of
        (Some e, db1) \<Rightarrow> (Inl e, db1)
      | (None, db1) \<Rightarrow>
          (case lock_account_mutation (re_auth E) token uid False now (rv_auth (pd_base db1)) of
             Inl e \<Rightarrow> (Inl e, db1)
           | Inr (c, _) \<Rightarrow>
               (case step_up_options P uid (cl_jti c) chal cid now db1 of
                  (Inl _, _) \<Rightarrow> (Inl 409, db1)
                | (Inr i, db2) \<Rightarrow> (Inr i, db2))))"

text \<open>A failed proof is consumed together with its audit entry; an uncaught exception rolls back.\<close>

definition passkey_step_up_verify ::
  "recovery_env \<Rightarrow> passkey_service \<Rightarrow> claims option \<Rightarrow> string \<Rightarrow> string \<Rightarrow> credential_json \<Rightarrow> time \<Rightarrow> time \<Rightarrow> passkey_db \<Rightarrow> (nat + string) \<times> passkey_db" where
  "passkey_step_up_verify E P token uid cid cred tick now db =
     (case throttle_passkey (''passkey-step-up-verify:'' @ uid) 10 300 ''auth.step_up'' (Some uid) tick db of
        (Some e, db1) \<Rightarrow> (Inl e, db1)
      | (None, db1) \<Rightarrow>
          (case lock_account_mutation (re_auth E) token uid False now (rv_auth (pd_base db1)) of
             Inl e \<Rightarrow> (Inl e, db1)
           | Inr (c, a) \<Rightarrow>
               (case verify_step_up P uid (cl_jti c) cid cred now db1 of
                  (Inl Uncaught, _) \<Rightarrow> (Inl 500, db1)
                | (Inl (Passkey_Error reason _), db2) \<Rightarrow> (Inl 401, on_base (audit_recovery ''auth.step_up'' (Some uid) ''failure'' reason) db2)
                | (Inr (pid, _), db2) \<Rightarrow>
                    (Inr pid, on_base (audit_recovery ''auth.step_up'' (Some uid) ''success'' ''passkey'')
                       (on_base (\<lambda>b. b\<lparr>rv_auth := set_session (cl_jti c) (a\<lparr>as_last_step_up_at := Some now\<rparr>) (rv_auth b)\<rparr>) db2)))))"

definition list_passkeys :: "string \<Rightarrow> passkey_db \<Rightarrow> (string \<times> passkey_row) list" where
  "list_passkeys uid db = sort_key (\<lambda>(_, r). wc_created r) (passkeys_of uid db)"

definition passkey_registration_options ::
  "recovery_env \<Rightarrow> passkey_service \<Rightarrow> claims option \<Rightarrow> string \<Rightarrow> bytes \<Rightarrow> string \<Rightarrow> time \<Rightarrow> time \<Rightarrow> passkey_db \<Rightarrow> (nat + string) \<times> passkey_db" where
  "passkey_registration_options E P token uid chal cid tick now db =
     (case throttle_passkey (''passkey-register:'' @ uid) 10 3600 ''auth.passkey.add'' (Some uid) tick db of
        (Some e, db1) \<Rightarrow> (Inl e, db1)
      | (None, db1) \<Rightarrow>
          (case lock_account_mutation (re_auth E) token uid True now (rv_auth (pd_base db1)) of
             Inl e \<Rightarrow> (Inl e, db1)
           | Inr _ \<Rightarrow>
               (case registration_options P uid chal cid now db1 of
                  (Inl _, _) \<Rightarrow> (Inl 409, db1)
                | (Inr i, db2) \<Rightarrow> (Inr i, db2))))"

definition passkey_registration_verify ::
  "recovery_env \<Rightarrow> passkey_service \<Rightarrow> bool \<Rightarrow> claims option \<Rightarrow> string \<Rightarrow> string \<Rightarrow> credential_json \<Rightarrow> string option \<Rightarrow> string \<Rightarrow> string \<Rightarrow> time \<Rightarrow>
   passkey_db \<Rightarrow> (nat + string \<times> passkey_row) \<times> passkey_db" where
  "passkey_registration_verify E P mail_ok token uid cid cred given_name fallback pid now db =
     (case lock_account_mutation (re_auth E) token uid True now (rv_auth (pd_base db)) of
        Inl e \<Rightarrow> (Inl e, db)
      | Inr _ \<Rightarrow>
          (case verify_registration P uid cid cred (clean_passkey_name given_name fallback) pid now db of
             (Inl Uncaught, _) \<Rightarrow> (Inl 500, db)
           | (Inl (Passkey_Error reason _), db1) \<Rightarrow> (Inl 400, on_base (audit_recovery ''auth.passkey.add'' (Some uid) ''failure'' reason) db1)
           | (Inr p, db1) \<Rightarrow>
               (Inr p, on_base (notify (re_mail_on E) mail_ok uid ''passkey_added'' None)
                  (on_base (audit_recovery ''auth.passkey.add'' (Some uid) ''success'' []) db1))))"

definition delete_passkey ::
  "recovery_env \<Rightarrow> bool \<Rightarrow> claims option \<Rightarrow> string \<Rightarrow> string \<Rightarrow> time \<Rightarrow> passkey_db \<Rightarrow> (nat + unit) \<times> passkey_db" where
  "delete_passkey E mail_ok token uid pid now db =
     (case lock_account_mutation (re_auth E) token uid True now (rv_auth (pd_base db)) of
        Inl e \<Rightarrow> (Inl e, db)
      | Inr _ \<Rightarrow>
          (case dict_get (pd_credentials db) pid of
             None \<Rightarrow> (Inl 404, db)
           | Some r \<Rightarrow>
               if wc_user r \<noteq> uid then (Inl 404, db)
               else
                 (Inr (), on_base (notify (re_mail_on E) mail_ok uid ''passkey_removed'' None)
                    (on_base (audit_recovery ''auth.passkey.remove'' (Some uid) ''success'' [])
                      (db\<lparr>pd_credentials := dict_pop pid (pd_credentials db)\<rparr>)))))"

definition passkey_authentication_options ::
  "passkey_service \<Rightarrow> string \<Rightarrow> bytes \<Rightarrow> string \<Rightarrow> time \<Rightarrow> time \<Rightarrow> passkey_db \<Rightarrow> (nat + string) \<times> passkey_db" where
  "passkey_authentication_options P ip chal cid tick now db =
     (case throttle_passkey (''passkey-auth:ip:'' @ ip) 20 300 ''auth.passkey.login'' None tick db of
        (Some e, db1) \<Rightarrow> (Inl e, db1)
      | (None, db1) \<Rightarrow> (Inr cid, new_challenge P ''authenticate'' None None chal cid now db1))"

text \<open>What an accepted assertion of an active account leads to.\<close>

definition passkey_sign_in ::
  "recovery_env \<Rightarrow> device_tokens \<Rightarrow> string \<Rightarrow> user_row \<Rightarrow> string \<Rightarrow> string option \<Rightarrow> string option \<Rightarrow> int \<Rightarrow> string \<Rightarrow> string list option \<Rightarrow> string \<Rightarrow> time \<Rightarrow>
   passkey_db \<Rightarrow> (claims \<times> string) \<times> passkey_db" where
  "passkey_sign_in E D uid u ip agent header days fresh travel jti now db =
     (let device_id = presented_device_id D header (Some uid) now;
          source = assess_sign_in_source (Some uid) ip agent now days device_id (pd_log db)
      in case finish_sign_in (re_auth E) D uid u ip agent source device_id fresh ''auth.passkey.login'' [''passkey''] travel jti now
                \<lparr>sw_auth = rv_auth (pd_base db), sw_log = pd_log db, sw_notices = pd_notices db\<rparr> of
           (r, w) \<Rightarrow> (r, db\<lparr>pd_base := (pd_base db)\<lparr>rv_auth := sw_auth w\<rparr>, pd_log := sw_log w, pd_notices := sw_notices w\<rparr>))"

definition passkey_authentication_verify ::
  "recovery_env \<Rightarrow> passkey_service \<Rightarrow> device_tokens \<Rightarrow> string \<Rightarrow> credential_json \<Rightarrow> string \<Rightarrow> string option \<Rightarrow> string option \<Rightarrow> int \<Rightarrow> string \<Rightarrow>
   string list option \<Rightarrow> string \<Rightarrow> time \<Rightarrow> time \<Rightarrow> passkey_db \<Rightarrow> (nat + string \<times> string \<times> claims \<times> string) \<times> passkey_db" where
  "passkey_authentication_verify E P D cid cred ip agent header days fresh travel jti tick now db =
     (case throttle_passkey (''passkey-auth-verify:ip:'' @ ip) 10 300 ''auth.passkey.login'' None tick db of
        (Some e, db1) \<Rightarrow> (Inl e, db1)
      | (None, db1) \<Rightarrow>
          (let user = (case authentication_user_id cred db1 of
                         None \<Rightarrow> None
                       | Some i \<Rightarrow> if i = [] then None else map_option (\<lambda>u. (i, u)) (lock_user_row i False (rv_auth (pd_base db1))))
           in case verify_authentication P cid cred (map_option fst user) now db1 of
                (Inl Uncaught, _) \<Rightarrow> (Inl 500, db1)
              | (Inl (Passkey_Error reason owner), db2) \<Rightarrow> (Inl 401, on_base (audit_recovery ''auth.passkey.login'' owner ''failure'' reason) db2)
              | (Inr (pid, row), db2) \<Rightarrow>
                  (case user of
                     None \<Rightarrow> (Inl 401, on_base (audit_recovery ''auth.passkey.login'' (Some (wc_user row)) ''denied'' ''inactive_account'') db2)
                   | Some (uid, u) \<Rightarrow>
                       if \<not> ur_active u
                       then (Inl 401, on_base (audit_recovery ''auth.passkey.login'' (Some (wc_user row)) ''denied'' ''inactive_account'') db2)
                       else
                         (case passkey_sign_in E D uid u ip agent header days fresh travel jti now db2 of
                            ((c, device_token), db3) \<Rightarrow> (Inr (uid, pid, c, device_token), db3)))))"

section \<open>What the tables record\<close>

text \<open>\<open>Challenge_Sent\<close> is a challenge handed to a browser, \<open>Registered\<close> a stored public key, \<open>Accepted\<close> a sign-in or a
  re-authentication that a passkey proved with the answer to a challenge.\<close>

datatype passkey_event =
    Challenge_Sent string string "string option" "string option" bytes time
  | Registered string string string
  | Accepted string string string

definition unsent :: "passkey_event list \<Rightarrow> string \<Rightarrow> bool" where
  "unsent tr cid \<longleftrightarrow> (\<forall>purpose user session chal t. Challenge_Sent cid purpose user session chal t \<notin> set tr)"

definition on_success :: "('e + 'a) \<Rightarrow> ('a \<Rightarrow> passkey_event) \<Rightarrow> passkey_event list" where
  "on_success r f = (case r of Inl _ \<Rightarrow> [] | Inr a \<Rightarrow> [f a])"

text \<open>\<open>db'\<close> has no new rows: challenges may have been consumed or deleted, credentials updated by an assertion or deleted.\<close>

definition tame :: "passkey_db \<Rightarrow> passkey_db \<Rightarrow> bool" where
  "tame db db' \<longleftrightarrow>
     (dict_ok (pd_credentials db) \<longrightarrow> dict_ok (pd_credentials db')) \<and>
     (\<forall>k r'. dict_get (pd_challenges db') k = Some r' \<longrightarrow>
        (\<exists>r m. dict_get (pd_challenges db) k = Some r \<and> r' = r\<lparr>wh_consumed := m\<rparr> \<and> (wh_consumed r \<noteq> None \<longrightarrow> m \<noteq> None))) \<and>
     (\<forall>k r'. dict_get (pd_credentials db') k = Some r' \<longrightarrow>
        (\<exists>r. dict_get (pd_credentials db) k = Some r \<and> wc_user r' = wc_user r \<and> wc_public_key r' = wc_public_key r))"

text \<open>Requests in any order; \<open>other\<close> is the rest of the program, which may delete rows of both tables. The
  identifiers of challenges and credentials are fresh UUIDs.\<close>

inductive passkey_run :: "recovery_env \<Rightarrow> passkey_service \<Rightarrow> passkey_db \<Rightarrow> passkey_event list \<Rightarrow> passkey_db \<Rightarrow> bool" for E P db0 where
  start: "passkey_run E P db0 [] db0"
| registration: "passkey_run E P db0 tr db \<Longrightarrow> unsent tr cid \<Longrightarrow>
    passkey_registration_options E P token uid chal cid tick now db = (r, db') \<Longrightarrow>
    passkey_run E P db0 (tr @ on_success r (\<lambda>_. Challenge_Sent cid ''register'' (Some uid) None chal now)) db'"
| step_up: "passkey_run E P db0 tr db \<Longrightarrow> unsent tr cid \<Longrightarrow>
    passkey_step_up_options E P token uid chal cid tick now db = (r, db') \<Longrightarrow>
    passkey_run E P db0 (tr @ on_success r (\<lambda>_. Challenge_Sent cid ''step_up'' (Some uid) (map_option cl_jti token) chal now)) db'"
| sign_in: "passkey_run E P db0 tr db \<Longrightarrow> unsent tr cid \<Longrightarrow>
    passkey_authentication_options P ip chal cid tick now db = (r, db') \<Longrightarrow>
    passkey_run E P db0 (tr @ on_success r (\<lambda>_. Challenge_Sent cid ''authenticate'' None None chal now)) db'"
| register: "passkey_run E P db0 tr db \<Longrightarrow> dict_get (pd_credentials db) pid = None \<Longrightarrow>
    passkey_registration_verify E P mail_ok token uid cid cred given_name fallback pid now db = (rr, db') \<Longrightarrow>
    passkey_run E P db0 (tr @ on_success rr (\<lambda>(_, row). Registered pid uid (wc_public_key row))) db'"
| reauthenticate: "passkey_run E P db0 tr db \<Longrightarrow>
    passkey_step_up_verify E P token uid cid cred tick now db = (r, db') \<Longrightarrow>
    passkey_run E P db0 (tr @ on_success r (Accepted cid uid)) db'"
| authenticate: "passkey_run E P db0 tr db \<Longrightarrow>
    passkey_authentication_verify E P D cid cred ip agent header days fresh travel jti tick now db = (ra, db') \<Longrightarrow>
    passkey_run E P db0 (tr @ on_success ra (\<lambda>(uid, pid, _). Accepted cid uid pid)) db'"
| delete: "passkey_run E P db0 tr db \<Longrightarrow> delete_passkey E mail_ok token uid pid now db = (ru, db') \<Longrightarrow> passkey_run E P db0 tr db'"
| other: "passkey_run E P db0 tr db \<Longrightarrow> tame db db' \<Longrightarrow> passkey_run E P db0 tr db'"

definition passkey_inv :: "passkey_service \<Rightarrow> passkey_event list \<Rightarrow> passkey_db \<Rightarrow> bool" where
  "passkey_inv P tr db \<longleftrightarrow>
     dict_ok (pd_credentials db) \<and>
     (\<forall>cid r. dict_get (pd_challenges db) cid = Some r \<longrightarrow>
        (\<exists>chal t. Challenge_Sent cid (wh_purpose r) (wh_user r) (wh_session r) chal t \<in> set tr \<and>
           wh_challenge r = wa_encode (ps_webauthn P) chal \<and> wh_expires r = t + of_int CHALLENGE_SECONDS)) \<and>
     (\<forall>cid r uid pid. dict_get (pd_challenges db) cid = Some r \<and> Accepted cid uid pid \<in> set tr \<longrightarrow> wh_consumed r \<noteq> None) \<and>
     (\<forall>pid r. dict_get (pd_credentials db) pid = Some r \<longrightarrow> Registered pid (wc_user r) (wc_public_key r) \<in> set tr) \<and>
     (\<forall>cid uid pid. Accepted cid uid pid \<in> set tr \<longrightarrow> \<not> unsent tr cid)"

lemma passkey_invI:
  assumes "dict_ok (pd_credentials db)"
    "\<And>cid r. dict_get (pd_challenges db) cid = Some r \<Longrightarrow>
        \<exists>chal t. Challenge_Sent cid (wh_purpose r) (wh_user r) (wh_session r) chal t \<in> set tr \<and>
           wh_challenge r = wa_encode (ps_webauthn P) chal \<and> wh_expires r = t + of_int CHALLENGE_SECONDS"
    "\<And>cid r uid pid. dict_get (pd_challenges db) cid = Some r \<Longrightarrow> Accepted cid uid pid \<in> set tr \<Longrightarrow> wh_consumed r \<noteq> None"
    "\<And>pid r. dict_get (pd_credentials db) pid = Some r \<Longrightarrow> Registered pid (wc_user r) (wc_public_key r) \<in> set tr"
    "\<And>cid uid pid. Accepted cid uid pid \<in> set tr \<Longrightarrow> \<not> unsent tr cid"
  shows "passkey_inv P tr db"
  using assms unfolding passkey_inv_def by blast

lemma passkey_invD:
  assumes "passkey_inv P tr db"
  shows "dict_ok (pd_credentials db)"
    "dict_get (pd_challenges db) cid = Some r \<Longrightarrow>
        \<exists>chal t. Challenge_Sent cid (wh_purpose r) (wh_user r) (wh_session r) chal t \<in> set tr \<and>
           wh_challenge r = wa_encode (ps_webauthn P) chal \<and> wh_expires r = t + of_int CHALLENGE_SECONDS"
    "dict_get (pd_challenges db) cid = Some r \<Longrightarrow> Accepted cid uid pid \<in> set tr \<Longrightarrow> wh_consumed r \<noteq> None"
    "dict_get (pd_credentials db) pid = Some q \<Longrightarrow> Registered pid (wc_user q) (wc_public_key q) \<in> set tr"
    "Accepted cid uid pid \<in> set tr \<Longrightarrow> \<not> unsent tr cid"
  using assms unfolding passkey_inv_def by blast+

lemma tameI:
  assumes "dict_ok (pd_credentials db) \<Longrightarrow> dict_ok (pd_credentials db')"
    "\<And>k r'. dict_get (pd_challenges db') k = Some r' \<Longrightarrow>
        \<exists>r m. dict_get (pd_challenges db) k = Some r \<and> r' = r\<lparr>wh_consumed := m\<rparr> \<and> (wh_consumed r \<noteq> None \<longrightarrow> m \<noteq> None)"
    "\<And>k r'. dict_get (pd_credentials db') k = Some r' \<Longrightarrow>
        \<exists>r. dict_get (pd_credentials db) k = Some r \<and> wc_user r' = wc_user r \<and> wc_public_key r' = wc_public_key r"
  shows "tame db db'"
  using assms unfolding tame_def by blast

lemma tameD:
  assumes "tame db db'"
  shows "dict_ok (pd_credentials db) \<Longrightarrow> dict_ok (pd_credentials db')"
    "dict_get (pd_challenges db') k = Some r' \<Longrightarrow>
        \<exists>r m. dict_get (pd_challenges db) k = Some r \<and> r' = r\<lparr>wh_consumed := m\<rparr> \<and> (wh_consumed r \<noteq> None \<longrightarrow> m \<noteq> None)"
    "dict_get (pd_credentials db') k = Some q' \<Longrightarrow>
        \<exists>q. dict_get (pd_credentials db) k = Some q \<and> wc_user q' = wc_user q \<and> wc_public_key q' = wc_public_key q"
  using assms unfolding tame_def by blast+

lemma keeps_consumed: "\<exists>m. (r :: challenge_row) = r\<lparr>wh_consumed := m\<rparr> \<and> (wh_consumed r \<noteq> None \<longrightarrow> m \<noteq> None)"
  by (intro exI[of _ "wh_consumed r"]) simp

lemma tame_same: "pd_challenges db' = pd_challenges db \<Longrightarrow> pd_credentials db' = pd_credentials db \<Longrightarrow> tame db db'"
  by (rule tameI) (use keeps_consumed in auto)

lemma tame_refl [simp]: "tame db db"
  by (rule tame_same) simp_all

lemma tame_trans:
  assumes "tame a b" "tame b c"
  shows "tame a c"
proof (rule tameI)
  show "dict_ok (pd_credentials a) \<Longrightarrow> dict_ok (pd_credentials c)" using assms tameD(1) by blast
  fix k r' assume "dict_get (pd_challenges c) k = Some r'"
  then obtain r m where r: "dict_get (pd_challenges b) k = Some r" "r' = r\<lparr>wh_consumed := m\<rparr>" "wh_consumed r \<noteq> None \<longrightarrow> m \<noteq> None"
    using tameD(2)[OF assms(2)] by blast
  then obtain r0 m0 where "dict_get (pd_challenges a) k = Some r0" "r = r0\<lparr>wh_consumed := m0\<rparr>" "wh_consumed r0 \<noteq> None \<longrightarrow> m0 \<noteq> None"
    using tameD(2)[OF assms(1)] by blast
  with r show "\<exists>r m. dict_get (pd_challenges a) k = Some r \<and> r' = r\<lparr>wh_consumed := m\<rparr> \<and> (wh_consumed r \<noteq> None \<longrightarrow> m \<noteq> None)"
    by (intro exI[of _ r0] exI[of _ m]) auto
next
  fix k r' assume "dict_get (pd_credentials c) k = Some r'"
  then show "\<exists>r. dict_get (pd_credentials a) k = Some r \<and> wc_user r' = wc_user r \<and> wc_public_key r' = wc_public_key r"
    using tameD(3)[OF assms(2)] tameD(3)[OF assms(1)] by metis
qed

lemma inv_tame:
  assumes "passkey_inv P tr db" "tame db db'"
  shows "passkey_inv P tr db'"
proof (rule passkey_invI)
  show "dict_ok (pd_credentials db')" using assms passkey_invD(1) tameD(1) by blast
  show "\<not> unsent tr cid" if "Accepted cid uid pid \<in> set tr" for cid uid pid using passkey_invD(5)[OF assms(1) that] .
  fix cid r' assume r': "dict_get (pd_challenges db') cid = Some r'"
  then obtain r m where r: "dict_get (pd_challenges db) cid = Some r" "r' = r\<lparr>wh_consumed := m\<rparr>" "wh_consumed r \<noteq> None \<longrightarrow> m \<noteq> None"
    using tameD(2)[OF assms(2)] by blast
  show "\<exists>chal t. Challenge_Sent cid (wh_purpose r') (wh_user r') (wh_session r') chal t \<in> set tr \<and>
      wh_challenge r' = wa_encode (ps_webauthn P) chal \<and> wh_expires r' = t + of_int CHALLENGE_SECONDS"
    using passkey_invD(2)[OF assms(1) r(1)] r(2) by simp
  show "wh_consumed r' \<noteq> None" if "Accepted cid uid pid \<in> set tr" for uid pid
    using passkey_invD(3)[OF assms(1) r(1) that] r(2,3) by simp
next
  fix pid r' assume "dict_get (pd_credentials db') pid = Some r'"
  then obtain r where "dict_get (pd_credentials db) pid = Some r" "wc_user r' = wc_user r" "wc_public_key r' = wc_public_key r"
    using tameD(3)[OF assms(2)] by blast
  then show "Registered pid (wc_user r') (wc_public_key r') \<in> set tr" using passkey_invD(4)[OF assms(1)] by metis
qed

section \<open>Challenges are answered once\<close>

lemma consume_Inr:
  assumes "consume_challenge P cid purpose user session now db = (Inr b, db')"
  obtains r where "dict_get (pd_challenges db) cid = Some r" "wh_purpose r = purpose" "wh_user r = user" "wh_session r = session"
    "wh_consumed r = None" "now < wh_expires r" "wa_decode (ps_webauthn P) (wh_challenge r) = Some b"
    "db' = db\<lparr>pd_challenges := dict_set cid (r\<lparr>wh_consumed := Some now\<rparr>) (pd_challenges db)\<rparr>"
  using assms by (auto simp: consume_challenge_def not_le split: option.splits if_splits)

lemma consume_Inl: "consume_challenge P cid purpose user session now db = (Inl e, db') \<Longrightarrow> db' = db"
  by (auto simp: consume_challenge_def split: option.splits if_splits)

lemma consume_tame:
  assumes "consume_challenge P cid purpose user session now db = (res, db')"
  shows "tame db db'" "pd_credentials db' = pd_credentials db"
proof (atomize(full), cases res)
  case (Inl e)
  then show "tame db db' \<and> pd_credentials db' = pd_credentials db" using consume_Inl assms by fastforce
next
  case (Inr b)
  obtain r where r: "dict_get (pd_challenges db) cid = Some r"
      "db' = db\<lparr>pd_challenges := dict_set cid (r\<lparr>wh_consumed := Some now\<rparr>) (pd_challenges db)\<rparr>"
    using consume_Inr[OF assms[unfolded Inr]] by metis
  have "tame db db'"
    by (rule tameI) (use r keeps_consumed in \<open>auto split: if_splits\<close>)
  then show "tame db db' \<and> pd_credentials db' = pd_credentials db" using r(2) by simp
qed

lemma assertion_Inr:
  assumes "verify_assertion P chal cred (Some uid) now db = (Inr (pid, row), db')" "dict_ok (pd_credentials db)"
  obtains stored pk n b where "dict_get (pd_credentials db) pid = Some stored" "wc_user stored = uid"
    "wa_decode (ps_webauthn P) (wc_public_key stored) = Some pk"
    "wa_authenticate (ps_webauthn P) cred chal (ps_rp_id P) (ps_origins P) pk (wc_sign_count stored) = Inr (n, b)"
    "row = stored\<lparr>wc_sign_count := n, wc_backed_up := b, wc_last_used := Some now\<rparr>"
    "db' = db\<lparr>pd_credentials := dict_set pid row (pd_credentials db)\<rparr>"
proof -
  have c: "parse_credential cred = Inr cred"
    using assms(1) by (auto simp: verify_assertion_def parse_credential_def split: if_splits)
  obtain raw where raw: "raw_credential_id cred = Some raw"
    using assms(1) by (auto simp: verify_assertion_def c split: option.splits)
  obtain stored where f: "find (\<lambda>(_, r). wc_credential_id r = raw \<and> wc_user r = uid) (pd_credentials db) = Some (pid, stored)"
    and v: "(case (case wa_decode (ps_webauthn P) (wc_public_key stored) of None \<Rightarrow> Inl []
        | Some pk \<Rightarrow> wa_authenticate (ps_webauthn P) cred chal (ps_rp_id P) (ps_origins P) pk (wc_sign_count stored)) of
        Inl msg \<Rightarrow> False
      | Inr (n, b) \<Rightarrow> row = stored\<lparr>wc_sign_count := n, wc_backed_up := b, wc_last_used := Some now\<rparr> \<and>
          db' = db\<lparr>pd_credentials := dict_set pid row (pd_credentials db)\<rparr>)"
    using assms(1) unfolding verify_assertion_def c raw sum.case option.case Let_def
    by (auto split: option.splits if_splits sum.splits prod.splits)
  have "dict_get (pd_credentials db) pid = Some stored" "wc_user stored = uid"
    using f assms(2) by (auto simp: find_Some_iff dict_get_mem set_conv_nth)
  then show thesis using that v by (auto split: option.splits sum.splits prod.splits)
qed

lemma assertion_Inl: "verify_assertion P chal cred expected now db = (Inl e, db') \<Longrightarrow> db' = db"
  unfolding verify_assertion_def Let_def by (auto split: sum.splits option.splits if_splits prod.splits)

lemma assertion_tame:
  assumes "verify_assertion P chal cred (Some uid) now db = (res, db')" "dict_ok (pd_credentials db)"
  shows "tame db db'" "pd_challenges db' = pd_challenges db"
proof (atomize(full), cases res)
  case (Inl e)
  then show "tame db db' \<and> pd_challenges db' = pd_challenges db" using assertion_Inl assms(1) by fastforce
next
  case (Inr p)
  obtain pid row where p: "p = (pid, row)" by fastforce
  obtain stored pk n b where r: "dict_get (pd_credentials db) pid = Some stored"
      "row = stored\<lparr>wc_sign_count := n, wc_backed_up := b, wc_last_used := Some now\<rparr>" "db' = db\<lparr>pd_credentials := dict_set pid row (pd_credentials db)\<rparr>"
    using assertion_Inr[OF assms(1)[unfolded Inr p] assms(2)] by metis
  have "tame db db'"
    by (rule tameI) (use r keeps_consumed in \<open>auto split: if_splits\<close>)
  then show "tame db db' \<and> pd_challenges db' = pd_challenges db" using r(3) by simp
qed

text \<open>An accepted ceremony: its challenge was on record for the same purpose, account and session, unused and not
  expired, it is consumed now, and a stored passkey of the account verified the answer to it.\<close>

definition proved :: "passkey_service \<Rightarrow> string \<Rightarrow> string \<Rightarrow> string option \<Rightarrow> string option \<Rightarrow> credential_json \<Rightarrow> string \<Rightarrow> string \<Rightarrow> time \<Rightarrow> passkey_db \<Rightarrow> bool" where
  "proved P cid purpose user session cred uid pid now db \<longleftrightarrow>
     (\<exists>r chal stored pk m. dict_get (pd_challenges db) cid = Some r \<and> wh_purpose r = purpose \<and> wh_user r = user \<and> wh_session r = session \<and>
        wh_consumed r = None \<and> now < wh_expires r \<and> wa_decode (ps_webauthn P) (wh_challenge r) = Some chal \<and>
        dict_get (pd_credentials db) pid = Some stored \<and> wc_user stored = uid \<and>
        wa_decode (ps_webauthn P) (wc_public_key stored) = Some pk \<and>
        wa_authenticate (ps_webauthn P) cred chal (ps_rp_id P) (ps_origins P) pk (wc_sign_count stored) = Inr m)"

definition spent :: "string \<Rightarrow> passkey_db \<Rightarrow> bool" where
  "spent cid db \<longleftrightarrow> (\<exists>r. dict_get (pd_challenges db) cid = Some r \<and> wh_consumed r \<noteq> None)"

lemma ceremony:
  assumes "consume_challenge P cid purpose user session now db = (Inr chal, db1)"
    and "verify_assertion P chal cred (Some uid) now db1 = (Inr (pid, row), db')" and "dict_ok (pd_credentials db)"
  shows "proved P cid purpose user session cred uid pid now db" "spent cid db'"
proof -
  obtain r where r: "dict_get (pd_challenges db) cid = Some r" "wh_purpose r = purpose" "wh_user r = user" "wh_session r = session"
    "wh_consumed r = None" "now < wh_expires r" "wa_decode (ps_webauthn P) (wh_challenge r) = Some chal"
    "db1 = db\<lparr>pd_challenges := dict_set cid (r\<lparr>wh_consumed := Some now\<rparr>) (pd_challenges db)\<rparr>"
    by (rule consume_Inr[OF assms(1)])
  then have ok: "dict_ok (pd_credentials db1)" using assms(3) by simp
  obtain stored pk n b where a: "dict_get (pd_credentials db1) pid = Some stored" "wc_user stored = uid"
    "wa_decode (ps_webauthn P) (wc_public_key stored) = Some pk"
    "wa_authenticate (ps_webauthn P) cred chal (ps_rp_id P) (ps_origins P) pk (wc_sign_count stored) = Inr (n, b)"
    by (rule assertion_Inr[OF assms(2) ok])
  show "proved P cid purpose user session cred uid pid now db"
    unfolding proved_def using r a by auto
  show "spent cid db'"
    using assertion_tame(2)[OF assms(2) ok] r(8) by (simp add: spent_def)
qed

lemma verify_step_up_spec:
  assumes "verify_step_up P uid jti cid cred now db = (res, db')" "dict_ok (pd_credentials db)"
  shows "tame db db'"
    "res = Inr (pid, row) \<Longrightarrow> proved P cid ''step_up'' (Some uid) (Some jti) cred uid pid now db \<and> spent cid db'"
proof -
  obtain c db1 where c: "consume_challenge P cid ''step_up'' (Some uid) (Some jti) now db = (c, db1)" by fastforce
  note t = consume_tame[OF c]
  show "tame db db'"
  proof (cases c)
    case (Inl e)
    then show ?thesis using assms(1) c t by (simp add: verify_step_up_def)
  next
    case (Inr chal)
    then have "verify_assertion P chal cred (Some uid) now db1 = (res, db')" using assms(1) c by (simp add: verify_step_up_def)
    then show ?thesis using assertion_tame(1) tame_trans[OF t(1)] assms(2) t(2) by metis
  qed
  assume "res = Inr (pid, row)"
  then obtain chal where k: "c = Inr chal" "verify_assertion P chal cred (Some uid) now db1 = (Inr (pid, row), db')"
    using assms(1) c by (cases c) (simp_all add: verify_step_up_def)
  show "proved P cid ''step_up'' (Some uid) (Some jti) cred uid pid now db \<and> spent cid db'"
    using ceremony[OF c[unfolded k(1)] k(2) assms(2)] by simp
qed

lemma verify_authentication_spec:
  assumes "verify_authentication P cid cred expected now db = (res, db')" "dict_ok (pd_credentials db)"
  shows "tame db db'"
    "res = Inr (pid, row) \<Longrightarrow> \<exists>uid. expected = Some uid \<and> proved P cid ''authenticate'' None None cred uid pid now db \<and> spent cid db'"
proof -
  obtain c db1 where c: "consume_challenge P cid ''authenticate'' None None now db = (c, db1)" by fastforce
  note t = consume_tame[OF c]
  show "tame db db'"
  proof (cases c)
    case (Inl e)
    then show ?thesis using assms(1) c t by (simp add: verify_authentication_def)
  next
    case (Inr chal)
    show ?thesis
    proof (cases expected)
      case None
      then show ?thesis using assms(1) c t Inr by (auto simp: verify_authentication_def split: sum.splits)
    next
      case (Some uid)
      then have "verify_assertion P chal cred (Some uid) now db1 = (res, db')" using assms(1) c Inr by (simp add: verify_authentication_def)
      then show ?thesis using assertion_tame(1) tame_trans[OF t(1)] assms(2) t(2) by metis
    qed
  qed
  assume "res = Inr (pid, row)"
  then obtain chal uid where k: "c = Inr chal" "expected = Some uid" "verify_assertion P chal cred (Some uid) now db1 = (Inr (pid, row), db')"
    using assms(1) c by (cases c; cases expected) (auto simp: verify_authentication_def split: sum.splits)
  show "\<exists>uid. expected = Some uid \<and> proved P cid ''authenticate'' None None cred uid pid now db \<and> spent cid db'"
    using ceremony[OF c[unfolded k(1)] k(3) assms(2)] k(2) by simp
qed

section \<open>The routes keep the record\<close>

lemma on_base_fields [simp]:
  "pd_challenges (on_base f db) = pd_challenges db" "pd_credentials (on_base f db) = pd_credentials db"
  by (simp_all add: on_base_def)

lemma throttle_passkey_fields:
  assumes "throttle_passkey key n w event actor tick db = (r, db')"
  shows "pd_challenges db' = pd_challenges db" "pd_credentials db' = pd_credentials db"
  using assms by (auto simp: throttle_passkey_def split: prod.splits)

lemma throttle_passkey_same:
  "throttle_passkey key n w event actor tick db = (r, db') \<Longrightarrow> pd_challenges db' = pd_challenges db \<and> pd_credentials db' = pd_credentials db"
  by (simp add: throttle_passkey_fields)

lemma tame_cong: "pd_challenges b = pd_challenges a \<Longrightarrow> pd_credentials b = pd_credentials a \<Longrightarrow> tame b c \<Longrightarrow> tame a c"
  by (rule tame_trans[OF tame_same])

lemma proved_cong:
  "pd_challenges b = pd_challenges a \<Longrightarrow> pd_credentials b = pd_credentials a \<Longrightarrow>
   proved P cid purpose user session cred uid pid now b = proved P cid purpose user session cred uid pid now a"
  by (simp add: proved_def)

lemma tame_on_base: "tame a b \<Longrightarrow> tame a (on_base f b)"
  by (erule tame_trans) (rule tame_same, simp_all)

lemma spent_on_base [simp]: "spent cid (on_base f db) = spent cid db"
  by (simp add: spent_def)

lemma lock_account_token: "lock_account_mutation cfg token uid step_up now a = Inr (c, s) \<Longrightarrow> token = Some c"
  by (auto simp: lock_account_mutation_def split: option.splits if_splits sum.splits)

lemma reauthenticate_spec:
  assumes "passkey_step_up_verify E P token uid cid cred tick now db = (res, db')" "dict_ok (pd_credentials db)"
  shows "tame db db'"
    "res = Inr pid \<Longrightarrow> \<exists>c. token = Some c \<and> proved P cid ''step_up'' (Some uid) (Some (cl_jti c)) cred uid pid now db \<and> spent cid db'"
proof -
  obtain t db1 where th: "throttle_passkey (''passkey-step-up-verify:'' @ uid) 10 300 ''auth.step_up'' (Some uid) tick db = (t, db1)" by fastforce
  note f = throttle_passkey_fields[OF th]
  let ?lock = "lock_account_mutation (re_auth E) token uid False now (rv_auth (pd_base db1))"
  show "tame db db'"
  proof (cases "t = None \<and> (\<exists>c a. ?lock = Inr (c, a))")
    case False
    then have "db' = db1" using assms(1) th by (cases ?lock; cases t) (auto simp: passkey_step_up_verify_def)
    then show ?thesis using tame_same[OF f] by simp
  next
    case True
    then obtain c a where l: "t = None" "?lock = Inr (c, a)" by blast
    obtain v db2 where v: "verify_step_up P uid (cl_jti c) cid cred now db1 = (v, db2)" by fastforce
    have "tame db db2" using tame_cong[OF f verify_step_up_spec(1)[OF v]] assms(2) f by simp
    moreover have "db' = db1 \<or> (\<exists>g. db' = on_base g db2) \<or> (\<exists>g h. db' = on_base g (on_base h db2))"
      using assms(1) th l v by (auto simp: passkey_step_up_verify_def split: sum.splits passkey_error.splits)
    ultimately show ?thesis using tame_same[OF f] tame_on_base by metis
  qed
  assume res: "res = Inr pid"
  then obtain c a where l: "t = None" "?lock = Inr (c, a)"
    using assms(1) th by (cases ?lock; cases t) (auto simp: passkey_step_up_verify_def)
  obtain v db2 where v: "verify_step_up P uid (cl_jti c) cid cred now db1 = (v, db2)" by fastforce
  obtain row where k: "v = Inr (pid, row)" "\<exists>g h. db' = on_base g (on_base h db2)"
    using assms(1) res th l v by (auto simp: passkey_step_up_verify_def split: sum.splits passkey_error.splits)
  show "\<exists>c. token = Some c \<and> proved P cid ''step_up'' (Some uid) (Some (cl_jti c)) cred uid pid now db \<and> spent cid db'"
    using verify_step_up_spec(2)[OF v _ k(1)] assms(2) f k(2) proved_cong[OF f] lock_account_token[OF l(2)] by auto
qed

lemma sign_in_fields:
  assumes "passkey_sign_in E D uid u ip agent header days fresh travel jti now db = (r, db')"
  shows "pd_challenges db' = pd_challenges db \<and> pd_credentials db' = pd_credentials db"
  using assms by (auto simp: passkey_sign_in_def Let_def split: prod.splits)

lemma authenticate_spec:
  assumes "passkey_authentication_verify E P D cid cred ip agent header days fresh travel jti tick now db = (res, db')" "dict_ok (pd_credentials db)"
  shows "tame db db'"
    "res = Inr (uid, pid, c, token) \<Longrightarrow> proved P cid ''authenticate'' None None cred uid pid now db \<and> spent cid db' \<and>
       (\<exists>u. dict_get (ad_users (rv_auth (pd_base db))) uid = Some u \<and> ur_active u)"
proof -
  obtain t db1 where th: "throttle_passkey (''passkey-auth-verify:ip:'' @ ip) 10 300 ''auth.passkey.login'' None tick db = (t, db1)" by fastforce
  note f = throttle_passkey_fields[OF th]
  let ?user = "case authentication_user_id cred db1 of None \<Rightarrow> None
      | Some i \<Rightarrow> if i = [] then None else map_option (\<lambda>u. (i, u)) (lock_user_row i False (rv_auth (pd_base db1)))"
  obtain v db2 where v: "verify_authentication P cid cred (map_option fst ?user) now db1 = (v, db2)" by fastforce
  note run = assms(1)[unfolded passkey_authentication_verify_def th prod.case Let_def v]
  have t2: "tame db db2" using tame_cong[OF f verify_authentication_spec(1)[OF v]] assms(2) f by simp
  have "db' = db1 \<or> (\<exists>g. db' = on_base g db2) \<or> pd_challenges db' = pd_challenges db2 \<and> pd_credentials db' = pd_credentials db2"
    using run by (auto split: sum.splits passkey_error.splits option.splits if_splits prod.splits dest!: sign_in_fields)
  then show "tame db db'" using tame_same[OF f] tame_on_base[OF t2] tame_trans[OF t2 tame_same] by metis
  assume res: "res = Inr (uid, pid, c, token)"
  then obtain u row where k: "t = None" "?user = Some (uid, u)" "ur_active u" "v = Inr (pid, row)"
      "pd_challenges db' = pd_challenges db2 \<and> pd_credentials db' = pd_credentials db2"
    using run by (auto split: sum.splits passkey_error.splits option.splits if_splits prod.splits dest!: sign_in_fields)
  have "ad_users (rv_auth (pd_base db1)) = ad_users (rv_auth (pd_base db))"
    using th throttle_fields(5) by (auto simp: throttle_passkey_def split: prod.splits)
  then have "\<exists>u. dict_get (ad_users (rv_auth (pd_base db))) uid = Some u \<and> ur_active u"
    using k(2,3) by (auto simp: lock_user_row_def split: option.splits if_splits)
  then show "proved P cid ''authenticate'' None None cred uid pid now db \<and> spent cid db' \<and>
       (\<exists>u. dict_get (ad_users (rv_auth (pd_base db))) uid = Some u \<and> ur_active u)"
    using verify_authentication_spec(2)[OF v _ k(4)] assms(2) f k(2,5) proved_cong[OF f] by (auto simp: spent_def)
qed

lemma unsent_append: "unsent (tr @ es) cid \<longleftrightarrow> unsent tr cid \<and> unsent es cid"
  by (auto simp: unsent_def)

lemma sent_tame:
  assumes "dict_ok (pd_credentials db)" "pd_credentials db' = pd_credentials db"
    "pd_challenges db' = pd_challenges (new_challenge P purpose user session chal cid now db)"
    and inv: "passkey_inv P tr db" and fresh: "unsent tr cid"
  shows "passkey_inv P (tr @ [Challenge_Sent cid purpose user session chal now]) db'"
proof (rule passkey_invI)
  let ?tr = "tr @ [Challenge_Sent cid purpose user session chal now]"
  show "dict_ok (pd_credentials db')" using assms(1,2) by simp
  show "\<not> unsent ?tr c" if "Accepted c uid pid \<in> set ?tr" for c uid pid
    using that passkey_invD(5)[OF inv, of c uid pid] by (auto simp: unsent_append)
  show "Registered pid (wc_user r) (wc_public_key r) \<in> set ?tr" if "dict_get (pd_credentials db') pid = Some r" for pid r
    using that passkey_invD(4)[OF inv, of pid r] assms(2) by simp
  fix c r assume "dict_get (pd_challenges db') c = Some r"
  then have r: "if c = cid then r = \<lparr>wh_user = user, wh_session = session, wh_purpose = purpose, wh_challenge = wa_encode (ps_webauthn P) chal,
           wh_expires = now + of_int CHALLENGE_SECONDS, wh_consumed = None\<rparr> else dict_get (pd_challenges db) c = Some r"
    using assms(3) by (auto simp: new_challenge_def)
  show "\<exists>chal t. Challenge_Sent c (wh_purpose r) (wh_user r) (wh_session r) chal t \<in> set ?tr \<and>
      wh_challenge r = wa_encode (ps_webauthn P) chal \<and> wh_expires r = t + of_int CHALLENGE_SECONDS"
    using r passkey_invD(2)[OF inv, of c r] by (cases "c = cid") auto
  show "wh_consumed r \<noteq> None" if "Accepted c uid pid \<in> set ?tr" for uid pid
    using r that passkey_invD(3)[OF inv, of c r uid pid] passkey_invD(5)[OF inv, of c uid pid] fresh by (cases "c = cid") auto
qed

lemma inv_accept:
  assumes inv: "passkey_inv P tr db" and "tame db db'" and p: "proved P cid purpose user session cred uid pid now db" and s: "spent cid db'"
  shows "passkey_inv P (tr @ [Accepted cid uid pid]) db'"
proof (rule passkey_invI)
  let ?tr = "tr @ [Accepted cid uid pid]"
  note inv' = inv_tame[OF inv assms(2)]
  show "dict_ok (pd_credentials db')" using passkey_invD(1)[OF inv'] .
  show "Registered q (wc_user r) (wc_public_key r) \<in> set ?tr" if "dict_get (pd_credentials db') q = Some r" for q r
    using passkey_invD(4)[OF inv' that] by simp
  have "\<not> unsent tr cid" using p passkey_invD(2)[OF inv] unfolding proved_def unsent_def by blast
  then show "\<not> unsent ?tr c" if "Accepted c u q \<in> set ?tr" for c u q
    using that passkey_invD(5)[OF inv, of c u q] by (auto simp: unsent_append)
  fix c r assume r: "dict_get (pd_challenges db') c = Some r"
  show "\<exists>chal t. Challenge_Sent c (wh_purpose r) (wh_user r) (wh_session r) chal t \<in> set ?tr \<and>
      wh_challenge r = wa_encode (ps_webauthn P) chal \<and> wh_expires r = t + of_int CHALLENGE_SECONDS"
    using passkey_invD(2)[OF inv' r] by auto
  show "wh_consumed r \<noteq> None" if "Accepted c u q \<in> set ?tr" for u q
    using that r s passkey_invD(3)[OF inv' r, of u q] by (cases "c = cid") (auto simp: spent_def)
qed

lemma options_spec:
  assumes "passkey_registration_options E P token uid chal cid tick now db = (r, db')"
  shows "pd_credentials db' = pd_credentials db \<and>
    (case r of Inl _ \<Rightarrow> pd_challenges db' = pd_challenges db
     | Inr _ \<Rightarrow> pd_challenges db' = pd_challenges (new_challenge P ''register'' (Some uid) None chal cid now db))"
  using assms
  by (auto simp: passkey_registration_options_def registration_options_def new_challenge_def dest!: throttle_passkey_same
      split: prod.splits option.splits sum.splits if_splits)

lemma step_up_options_spec:
  assumes "passkey_step_up_options E P token uid chal cid tick now db = (r, db')"
  shows "pd_credentials db' = pd_credentials db \<and>
    (case r of Inl _ \<Rightarrow> pd_challenges db' = pd_challenges db
     | Inr _ \<Rightarrow> pd_challenges db' = pd_challenges (new_challenge P ''step_up'' (Some uid) (map_option cl_jti token) chal cid now db))"
  using assms
  by (auto simp: passkey_step_up_options_def step_up_options_def new_challenge_def dest!: throttle_passkey_same lock_account_token
      split: prod.splits option.splits sum.splits if_splits)

lemma sign_in_options_spec:
  assumes "passkey_authentication_options P ip chal cid tick now db = (r, db')"
  shows "pd_credentials db' = pd_credentials db \<and>
    (case r of Inl _ \<Rightarrow> pd_challenges db' = pd_challenges db
     | Inr _ \<Rightarrow> pd_challenges db' = pd_challenges (new_challenge P ''authenticate'' None None chal cid now db))"
  using assms
  by (auto simp: passkey_authentication_options_def new_challenge_def dest!: throttle_passkey_same split: prod.splits option.splits)

lemma inv_options:
  assumes spec: "pd_credentials db' = pd_credentials db \<and>
      (case r of Inl _ \<Rightarrow> pd_challenges db' = pd_challenges db
       | Inr _ \<Rightarrow> pd_challenges db' = pd_challenges (new_challenge P purpose user session chal cid now db))"
    and inv: "passkey_inv P tr db" and fresh: "unsent tr cid"
  shows "passkey_inv P (tr @ on_success r (\<lambda>_. Challenge_Sent cid purpose user session chal now)) db'"
proof (cases r)
  case (Inl e)
  then show ?thesis using spec inv_tame[OF inv tame_same] by (simp add: on_success_def)
next
  case (Inr a)
  then show ?thesis using spec sent_tame[OF passkey_invD(1)[OF inv] _ _ inv fresh] by (simp add: on_success_def)
qed

lemma registration_Inl:
  assumes "verify_registration P uid cid cred name pid now db = (Inl e, db')"
  shows "tame db db'"
proof -
  obtain c db1 where c: "consume_challenge P cid ''register'' (Some uid) None now db = (c, db1)" by fastforce
  have "db' = db1"
    using assms c by (auto simp: verify_registration_def Let_def split: sum.splits if_splits)
  then show ?thesis using consume_tame(1)[OF c] by simp
qed

lemma registration_Inr:
  assumes "verify_registration P uid cid cred name pid now db = (Inr (i, row), db')"
  obtains db1 where "tame db db1" "pd_credentials db1 = pd_credentials db" "wc_user row = uid" "i = pid"
    "db' = db1\<lparr>pd_credentials := dict_set pid row (pd_credentials db1)\<rparr>"
proof -
  obtain c db1 where c: "consume_challenge P cid ''register'' (Some uid) None now db = (c, db1)" by fastforce
  have "wc_user row = uid \<and> i = pid \<and> db' = db1\<lparr>pd_credentials := dict_set pid row (pd_credentials db1)\<rparr>"
    using assms c by (auto simp: verify_registration_def Let_def split: sum.splits if_splits)
  then show thesis using that[of db1] consume_tame[OF c] by blast
qed

lemma inv_registered:
  assumes inv: "passkey_inv P tr db" and "wc_user row = uid"
    "pd_challenges db' = pd_challenges db" "pd_credentials db' = dict_set pid row (pd_credentials db)"
  shows "passkey_inv P (tr @ [Registered pid uid (wc_public_key row)]) db'"
proof (rule passkey_invI)
  let ?tr = "tr @ [Registered pid uid (wc_public_key row)]"
  show "dict_ok (pd_credentials db')" using passkey_invD(1)[OF inv] assms(4) by simp
  show "\<not> unsent ?tr c" if "Accepted c u q \<in> set ?tr" for c u q
    using that passkey_invD(5)[OF inv, of c u q] by (auto simp: unsent_append)
  show "Registered q (wc_user r) (wc_public_key r) \<in> set ?tr" if "dict_get (pd_credentials db') q = Some r" for q r
    using that assms(2,4) passkey_invD(4)[OF inv, of q r] by (auto split: if_splits)
  fix c r assume r: "dict_get (pd_challenges db') c = Some r"
  show "\<exists>chal t. Challenge_Sent c (wh_purpose r) (wh_user r) (wh_session r) chal t \<in> set ?tr \<and>
      wh_challenge r = wa_encode (ps_webauthn P) chal \<and> wh_expires r = t + of_int CHALLENGE_SECONDS"
    using passkey_invD(2)[OF inv] r assms(3) by fastforce
  show "wh_consumed r \<noteq> None" if "Accepted c u q \<in> set ?tr" for u q
    using that passkey_invD(3)[OF inv, of c r u q] r assms(3) by simp
qed

lemma register_inv:
  assumes inv: "passkey_inv P tr db"
    and run: "passkey_registration_verify E P mail_ok token uid cid cred given_name fallback pid now db = (rr, db')"
  shows "passkey_inv P (tr @ on_success rr (\<lambda>(_, row). Registered pid uid (wc_public_key row))) db'"
proof (cases "lock_account_mutation (re_auth E) token uid True now (rv_auth (pd_base db))")
  case (Inl e)
  then show ?thesis using run inv by (auto simp: passkey_registration_verify_def on_success_def)
next
  case (Inr l)
  obtain v db1 where v: "verify_registration P uid cid cred (clean_passkey_name given_name fallback) pid now db = (v, db1)" by fastforce
  show ?thesis
  proof (cases v)
    case (Inl e)
    have "db' = db \<or> (\<exists>g. db' = on_base g db1)" "\<exists>n. rr = Inl n"
      using run Inr v Inl by (auto simp: passkey_registration_verify_def split: passkey_error.splits)
    moreover have "tame db db1" using registration_Inl v Inl by blast
    ultimately show ?thesis using inv inv_tame[OF inv] tame_on_base by (auto simp: on_success_def)
  next
    case (Inr p)
    obtain i row where p: "p = (i, row)" by fastforce
    have out: "rr = Inr (i, row)" "pd_challenges db' = pd_challenges db1 \<and> pd_credentials db' = pd_credentials db1"
      using run \<open>lock_account_mutation _ _ _ _ _ _ = Inr l\<close> v Inr p by (auto simp: passkey_registration_verify_def)
    obtain db2 where d: "tame db db2" "pd_credentials db2 = pd_credentials db" "wc_user row = uid"
        "db1 = db2\<lparr>pd_credentials := dict_set pid row (pd_credentials db2)\<rparr>"
      using registration_Inr[OF v[unfolded Inr p]] by metis
    have "passkey_inv P (tr @ [Registered pid uid (wc_public_key row)]) db'"
      using inv_registered[OF inv_tame[OF inv d(1)] d(3)] out(2) d(4) by simp
    then show ?thesis using out(1) by (simp add: on_success_def)
  qed
qed

lemma delete_tame:
  assumes "delete_passkey E mail_ok token uid pid now db = (r, db')"
  shows "tame db db'"
proof -
  have "tame db (db\<lparr>pd_credentials := dict_pop pid (pd_credentials db)\<rparr>)"
    by (rule tameI) (use keeps_consumed in \<open>auto split: if_splits\<close>)
  then show ?thesis
    using assms tame_on_base by (auto simp: delete_passkey_def split: sum.splits option.splits if_splits)
qed

lemma passkey_run_inv:
  assumes "passkey_run E P db0 tr db" "pd_challenges db0 = []" "pd_credentials db0 = []"
  shows "passkey_inv P tr db"
  using assms(1)
proof induction
  case start
  show ?case by (rule passkey_invI) (simp_all add: assms(2,3))
next
  case (registration tr db cid token uid chal tick now r db')
  show ?case by (rule inv_options[OF options_spec[OF registration(3)] registration.IH registration(2)])
next
  case (step_up tr db cid token uid chal tick now r db')
  show ?case by (rule inv_options[OF step_up_options_spec[OF step_up(3)] step_up.IH step_up(2)])
next
  case (sign_in tr db cid ip chal tick now r db')
  show ?case by (rule inv_options[OF sign_in_options_spec[OF sign_in(3)] sign_in.IH sign_in(2)])
next
  case (register tr db pid mail_ok token uid cid cred given_name fallback now rr db')
  show ?case by (rule register_inv[OF register.IH register(3)])
next
  case (reauthenticate tr db token uid cid cred tick now r db')
  note ok = passkey_invD(1)[OF reauthenticate.IH]
  note spec = reauthenticate_spec[OF reauthenticate(2) ok]
  show ?case
  proof (cases r)
    case (Inl e)
    then show ?thesis using inv_tame[OF reauthenticate.IH spec(1)] by (simp add: on_success_def)
  next
    case (Inr pid)
    then show ?thesis using spec(2)[OF Inr] inv_accept[OF reauthenticate.IH spec(1)] by (auto simp: on_success_def)
  qed
next
  case (authenticate tr db D cid cred ip agent header days fresh travel jti tick now ra db')
  note ok = passkey_invD(1)[OF authenticate.IH]
  note spec = authenticate_spec[OF authenticate(2) ok]
  show ?case
  proof (cases ra)
    case (Inl e)
    then show ?thesis using inv_tame[OF authenticate.IH spec(1)] by (simp add: on_success_def)
  next
    case (Inr p)
    obtain uid pid c tk where p: "p = (uid, pid, c, tk)" by (cases p) auto
    show ?thesis using spec(2)[OF Inr[unfolded p]] inv_accept[OF authenticate.IH spec(1)] Inr p by (auto simp: on_success_def)
  qed
next
  case (delete tr db mail_ok token uid pid now ru db')
  show ?case by (rule inv_tame[OF delete.IH delete_tame[OF delete(2)]])
next
  case (other tr db db')
  show ?case by (rule inv_tame[OF other.IH other(2)])
qed

text \<open>What an accepted ceremony means for the history \<open>tr\<close>.\<close>

definition proof_of_possession ::
  "passkey_service \<Rightarrow> passkey_event list \<Rightarrow> string \<Rightarrow> string \<Rightarrow> string option \<Rightarrow> string option \<Rightarrow> credential_json \<Rightarrow> string \<Rightarrow> string \<Rightarrow> time \<Rightarrow> bool" where
  "proof_of_possession P tr cid purpose user session cred uid pid now \<longleftrightarrow>
     (\<exists>chal t key pk n m. Challenge_Sent cid purpose user session chal t \<in> set tr \<and> now < t + of_int CHALLENGE_SECONDS \<and>
        (\<forall>u p. Accepted cid u p \<notin> set tr) \<and> Registered pid uid key \<in> set tr \<and> wa_decode (ps_webauthn P) key = Some pk \<and>
        wa_authenticate (ps_webauthn P) cred chal (ps_rp_id P) (ps_origins P) pk n = Inr m)"

lemma proved_history:
  assumes inv: "passkey_inv P tr db" and p: "proved P cid purpose user session cred uid pid now db"
    and codec: "\<forall>b. wa_decode (ps_webauthn P) (wa_encode (ps_webauthn P) b) = Some b"
  shows "proof_of_possession P tr cid purpose user session cred uid pid now"
proof -
  obtain r chal stored pk m where r: "dict_get (pd_challenges db) cid = Some r" "wh_purpose r = purpose" "wh_user r = user" "wh_session r = session"
      "wh_consumed r = None" "now < wh_expires r" "wa_decode (ps_webauthn P) (wh_challenge r) = Some chal"
    and s: "dict_get (pd_credentials db) pid = Some stored" "wc_user stored = uid" "wa_decode (ps_webauthn P) (wc_public_key stored) = Some pk"
      "wa_authenticate (ps_webauthn P) cred chal (ps_rp_id P) (ps_origins P) pk (wc_sign_count stored) = Inr m"
    using p unfolding proved_def by blast
  obtain ch t where c: "Challenge_Sent cid purpose user session ch t \<in> set tr" "wh_challenge r = wa_encode (ps_webauthn P) ch"
      "wh_expires r = t + of_int CHALLENGE_SECONDS"
    using passkey_invD(2)[OF inv r(1)] r(2-4) by auto
  have "ch = chal" using codec c(2) r(7) by simp
  then have sent: "Challenge_Sent cid purpose user session chal t \<in> set tr" "now < t + of_int CHALLENGE_SECONDS" using c(1,3) r(6) by simp_all
  have "Accepted cid u q \<notin> set tr" for u q using passkey_invD(3)[OF inv r(1), of u q] r(5) by blast
  moreover have "Registered pid uid (wc_public_key stored) \<in> set tr" using passkey_invD(4)[OF inv s(1)] s(2) by simp
  ultimately show ?thesis unfolding proof_of_possession_def using sent s(3,4) by blast
qed

text \<open>C11: Whatever requests came before, a passkey signs in or re-authenticates only with the answer to a challenge that the
  server sent for exactly this purpose at most three minutes ago and that has proved nothing before; the answer
  verified under a public key that this account registered. A re-authentication answers a challenge sent to the same account and to the same
  bearer session, and a sign-in is for an account that is active.\<close>

theorem passkey_proves_possession_once:
  assumes run: "passkey_run E P db0 tr db" "pd_challenges db0 = []" "pd_credentials db0 = []"
    and codec: "\<forall>b. wa_decode (ps_webauthn P) (wa_encode (ps_webauthn P) b) = Some b"
  shows "(passkey_authentication_verify E P D cid cred ip agent header days fresh travel jti tick now db = (Inr (uid, pid, c, token), db') \<longrightarrow>
      proof_of_possession P tr cid ''authenticate'' None None cred uid pid now \<and>
      (\<exists>u. dict_get (ad_users (rv_auth (pd_base db))) uid = Some u \<and> ur_active u)) \<and>
    (passkey_step_up_verify E P bearer uid' cid' cred' tick' now' db = (Inr pid', db'') \<longrightarrow>
      (\<exists>c. bearer = Some c \<and> proof_of_possession P tr cid' ''step_up'' (Some uid') (Some (cl_jti c)) cred' uid' pid' now'))"
proof (intro conjI impI)
  note inv = passkey_run_inv[OF run]
  note ok = passkey_invD(1)[OF inv]
  assume "passkey_authentication_verify E P D cid cred ip agent header days fresh travel jti tick now db = (Inr (uid, pid, c, token), db')"
  from authenticate_spec(2)[OF this ok refl]
  show "proof_of_possession P tr cid ''authenticate'' None None cred uid pid now"
    "\<exists>u. dict_get (ad_users (rv_auth (pd_base db))) uid = Some u \<and> ur_active u"
    using proved_history[OF inv _ codec] by blast+
next
  note inv = passkey_run_inv[OF run]
  note ok = passkey_invD(1)[OF inv]
  assume "passkey_step_up_verify E P bearer uid' cid' cred' tick' now' db = (Inr pid', db'')"
  from reauthenticate_spec(2)[OF this ok refl]
  show "\<exists>c. bearer = Some c \<and> proof_of_possession P tr cid' ''step_up'' (Some uid') (Some (cl_jti c)) cred' uid' pid' now'"
    using proved_history[OF inv _ codec] by blast
qed

text \<open>An account registers a passkey in a freshly authenticated session and later signs in with it.\<close>

definition demo_credential :: "bytes \<Rightarrow> credential_json" where
  "demo_credential answer = \<lparr>cj_response_is_dict = True, cj_size = 300, cj_raw_id = Text ''key'', cj_id = Missing, cj_user_handle = Text ''u'',
     cj_transports = [Text ''usb''], cj_rest = answer\<rparr>"

definition demo_webauthn :: webauthn where
  "demo_webauthn = \<lparr>wa_register = (\<lambda>c chal rp origins. if cj_rest c = chal
       then Inr \<lparr>vr_credential_id = ''key'', vr_public_key = ''pk'', vr_sign_count = 0, vr_aaguid = [], vr_backed_up = False\<rparr> else Inl ''bad''),
     wa_authenticate = (\<lambda>c chal rp origins pk n. if cj_rest c = chal @ pk then Inr (n + 1, False) else Inl ''bad''),
     wa_encode = (\<lambda>b. b), wa_decode = Some, wa_transports = [''usb'']\<rparr>"

definition demo_passkeys :: passkey_service where
  "demo_passkeys = \<lparr>ps_webauthn = demo_webauthn, ps_rp_id = ''localhost'', ps_origins = [''http://localhost'']\<rparr>"

definition demo_passkey_db :: passkey_db where
  "demo_passkey_db = \<lparr>pd_base = demo_recovery_db, pd_credentials = [], pd_challenges = [], pd_log = [], pd_notices = []\<rparr>"

definition demo_passkey_row :: passkey_row where
  "demo_passkey_row = \<lparr>wc_user = ''u'', wc_credential_id = ''key'', wc_public_key = ''pk'', wc_sign_count = 0, wc_transports = ''usb'', wc_aaguid = [],
     wc_name = ''laptop'', wc_backed_up = False, wc_created = 20, wc_last_used = None\<rparr>"

definition demo_challenge_row :: "string \<Rightarrow> string option \<Rightarrow> string \<Rightarrow> time \<Rightarrow> time option \<Rightarrow> challenge_row" where
  "demo_challenge_row purpose user chal expires consumed =
     \<lparr>wh_user = user, wh_session = None, wh_purpose = purpose, wh_challenge = chal, wh_expires = expires, wh_consumed = consumed\<rparr>"

definition demo_base1 :: recovery_db where
  "demo_base1 = demo_recovery_db\<lparr>rv_limiter := demo_reset_limiter\<lparr>rl_events := [(''passkey-register:u'', [1])],
     rl_expires_at := [(''passkey-register:u'', 3601)], rl_next_cleanup := 61, rl_next_expiry := Some 3601\<rparr>\<rparr>"

definition demo_base2 :: recovery_db where
  "demo_base2 = audit_recovery ''auth.passkey.add'' (Some ''u'') ''success'' [] demo_base1"

definition demo_base3 :: recovery_db where
  "demo_base3 = demo_base2\<lparr>rv_limiter := demo_reset_limiter\<lparr>rl_events := [(''passkey-register:u'', [1]), (''passkey-auth:ip:ip'', [2])],
     rl_expires_at := [(''passkey-register:u'', 3601), (''passkey-auth:ip:ip'', 302)], rl_next_cleanup := 61, rl_next_expiry := Some 302\<rparr>\<rparr>"

definition demo_passkey_db1 :: passkey_db where
  "demo_passkey_db1 = demo_passkey_db\<lparr>pd_base := demo_base1, pd_challenges := [(''c1'', demo_challenge_row ''register'' (Some ''u'') ''x1'' 190 None)]\<rparr>"

definition demo_passkey_db2 :: passkey_db where
  "demo_passkey_db2 = demo_passkey_db\<lparr>pd_base := demo_base2, pd_credentials := [(''p'', demo_passkey_row)],
     pd_challenges := [(''c1'', demo_challenge_row ''register'' (Some ''u'') ''x1'' 190 (Some 20))]\<rparr>"

definition demo_passkey_db3 :: passkey_db where
  "demo_passkey_db3 = demo_passkey_db\<lparr>pd_base := demo_base3, pd_credentials := [(''p'', demo_passkey_row)],
     pd_challenges := [(''c1'', demo_challenge_row ''register'' (Some ''u'') ''x1'' 190 (Some 20)), (''c2'', demo_challenge_row ''authenticate'' None ''x2'' 210 None)]\<rparr>"

lemma demo_passkey_step1:
  "passkey_registration_options demo_recovery demo_passkeys demo_claims ''u'' ''x1'' ''c1'' 1 10 demo_passkey_db = (Inr ''c1'', demo_passkey_db1)"
  by code_simp

lemma demo_passkey_step2:
  "passkey_registration_verify demo_recovery demo_passkeys True demo_claims ''u'' ''c1'' (demo_credential ''x1'') None ''laptop'' ''p'' 20 demo_passkey_db1 =
     (Inr (''p'', demo_passkey_row), demo_passkey_db2)"
  by code_simp

lemma demo_passkey_step3:
  "passkey_authentication_options demo_passkeys ''ip'' ''x2'' ''c2'' 2 30 demo_passkey_db2 = (Inr ''c2'', demo_passkey_db3)"
  by code_simp

definition demo_answer :: "(nat + string \<times> string \<times> claims \<times> string) \<times> passkey_db" where
  "demo_answer = passkey_authentication_verify demo_recovery demo_passkeys demo_device_tokens ''c2'' (demo_credential ''x2pk'') ''ip'' None None 90
     demo_device_id None ''j'' 3 40 demo_passkey_db3"

lemma demo_passkey_step4: "(case fst demo_answer of Inl _ \<Rightarrow> False | Inr (uid, pid, _) \<Rightarrow> uid = ''u'' \<and> pid = ''p'')"
  by code_simp

abbreviation demo_passkey_trace :: "passkey_event list" where
  "demo_passkey_trace \<equiv> [Challenge_Sent ''c1'' ''register'' (Some ''u'') None ''x1'' 10, Registered ''p'' ''u'' ''pk'',
     Challenge_Sent ''c2'' ''authenticate'' None None ''x2'' 30]"

lemma demo_passkey_run: "passkey_run demo_recovery demo_passkeys demo_passkey_db demo_passkey_trace demo_passkey_db3"
proof -
  have 1: "passkey_run demo_recovery demo_passkeys demo_passkey_db ([] @ [Challenge_Sent ''c1'' ''register'' (Some ''u'') None ''x1'' 10]) demo_passkey_db1"
    using passkey_run.registration[OF passkey_run.start _ demo_passkey_step1] by (simp add: on_success_def unsent_def)
  have "dict_get (pd_credentials demo_passkey_db1) ''p'' = None" by (simp add: demo_passkey_db1_def demo_passkey_db_def)
  from passkey_run.register[OF 1 this demo_passkey_step2]
  have 2: "passkey_run demo_recovery demo_passkeys demo_passkey_db
      [Challenge_Sent ''c1'' ''register'' (Some ''u'') None ''x1'' 10, Registered ''p'' ''u'' ''pk''] demo_passkey_db2"
    by (simp add: on_success_def demo_passkey_row_def)
  show ?thesis
    using passkey_run.sign_in[OF 2 _ demo_passkey_step3] by (simp add: on_success_def unsent_def)
qed

theorem passkey_proves_possession_once_witness:
  "(\<exists>c token. fst demo_answer = Inr (''u'', ''p'', c, token)) \<and>
   proof_of_possession demo_passkeys demo_passkey_trace ''c2'' ''authenticate'' None None (demo_credential ''x2pk'') ''u'' ''p'' 40"
proof -
  obtain c token where r: "fst demo_answer = Inr (''u'', ''p'', c, token)"
    using demo_passkey_step4 by (auto split: sum.splits)
  then have a: "passkey_authentication_verify demo_recovery demo_passkeys demo_device_tokens ''c2'' (demo_credential ''x2pk'') ''ip'' None None 90
     demo_device_id None ''j'' 3 40 demo_passkey_db3 = (Inr (''u'', ''p'', c, token), snd demo_answer)"
    by (simp add: demo_answer_def prod_eq_iff)
  have empty: "pd_challenges demo_passkey_db = []" "pd_credentials demo_passkey_db = []" by (simp_all add: demo_passkey_db_def)
  have codec: "\<forall>b. wa_decode (ps_webauthn demo_passkeys) (wa_encode (ps_webauthn demo_passkeys) b) = Some b"
    by (simp add: demo_passkeys_def demo_webauthn_def)
  from passkey_proves_possession_once[OF demo_passkey_run empty codec, THEN conjunct1, THEN mp, OF a] r
  show ?thesis by blast
qed

end
