(* ===== verification/Account_Security.thy ===== *)
theory Account_Security
  imports Access Login
begin

text \<open>
  The routes by which a signed-in user changes the credentials of an account (\<^verbatim>\<open>main.py\<close>): enrolling, activating and
  disabling the second factor, re-authenticating for sensitive operations, changing the password, and the consent to
  the transfer of data to the AI provider.

  The state joins the tables of the guards (\<open>sd_chat\<close>) with those of the sign-in (\<open>sd_login\<close>). The columns \<^verbatim>\<open>token_version\<close> and
  \<^verbatim>\<open>mfa_enabled\<close> of a user are read by both parts, are kept in both, and are written together. A route is one transaction under
  the account lock. Password hashing, fresh seeds, recovery codes with their row identifiers and hashes, the breach service and
  the clocks (\<open>tick\<close> for limiters, \<open>now\<close> for rows) are arguments; a seed is kept as the plaintext its envelope decrypts to.
\<close>

section \<open>State\<close>

record consent_row =
  cn_given :: bool
  cn_at :: "time option"
  cn_version :: "string option"

record security_db =
  sd_chat :: chat_db
  sd_login :: login_db
  sd_consents :: "(string, consent_row) pydict"
  sd_password_limiter :: limiter
  sd_notices :: "(string \<times> string) list"

record security_settings =
  sx_auth :: auth_settings
  sx_login :: login_settings
  sx_totp :: totp
  sx_password_attempts :: int
  sx_password_window :: int
  sx_consent_version :: string
  sx_verify :: "string \<Rightarrow> string \<Rightarrow> bool"

definition audit_security :: "string \<Rightarrow> string \<Rightarrow> string \<Rightarrow> string \<Rightarrow> security_db \<Rightarrow> security_db" where
  "audit_security event uid outcome reason db = db\<lparr>sd_login := log_event event (Some uid) outcome reason (sd_login db)\<rparr>"

definition account_of :: "string \<Rightarrow> security_db \<Rightarrow> account_row option" where
  "account_of uid db = dict_get (ld_accounts (sd_login db)) uid"

definition on_auth :: "(auth_db \<Rightarrow> auth_db) \<Rightarrow> security_db \<Rightarrow> security_db" where
  "on_auth f db = db\<lparr>sd_chat := (sd_chat db)\<lparr>cd_auth := f (cd_auth (sd_chat db))\<rparr>\<rparr>"

text \<open>Writes of the user row: the columns of the sign-in, and the copies of \<^verbatim>\<open>mfa_enabled\<close> and \<^verbatim>\<open>token_version\<close> the guards read.\<close>

definition write_account :: "string \<Rightarrow> account_row \<Rightarrow> security_db \<Rightarrow> security_db" where
  "write_account uid a db =
     on_auth (\<lambda>d. d\<lparr>ad_users := dict_map (\<lambda>k u. if k = uid then u\<lparr>ur_mfa_enabled := ac_mfa_enabled a\<rparr> else u) (ad_users d)\<rparr>)
       (db\<lparr>sd_login := set_account uid a (sd_login db)\<rparr>)"

definition revoke_account_sessions :: "string \<Rightarrow> time \<Rightarrow> security_db \<Rightarrow> security_db" where
  "revoke_account_sessions uid now db =
     on_auth (revoke_all_auth_sessions uid now)
       (db\<lparr>sd_login := (sd_login db)\<lparr>ld_accounts :=
              dict_map (\<lambda>k a. if k = uid then a\<lparr>ac_token_version := ac_token_version a + 1\<rparr> else a) (ld_accounts (sd_login db))\<rparr>\<rparr>)"

definition lock_security ::
  "security_settings \<Rightarrow> claims option \<Rightarrow> string \<Rightarrow> bool \<Rightarrow> time \<Rightarrow> security_db \<Rightarrow> (nat + claims \<times> auth_session \<times> account_row)" where
  "lock_security S token uid step_up now db =
     (case lock_account_mutation (sx_auth S) token uid step_up now (cd_auth (sd_chat db)) of
        Inl e \<Rightarrow> Inl e
      | Inr (c, s) \<Rightarrow> (case account_of uid db of None \<Rightarrow> Inl 401 | Some a \<Rightarrow> Inr (c, s, a)))"

text \<open>Admission by one of the two limiters: the error, if any, and the state it leaves.\<close>

definition admit_mfa :: "security_settings \<Rightarrow> string \<Rightarrow> time \<Rightarrow> security_db \<Rightarrow> nat option \<times> security_db" where
  "admit_mfa S key tick db =
     (case rl_allow key (mfa_max_attempts (sx_login S)) (mfa_window_seconds (sx_login S)) tick (ld_mfa_limiter (sd_login db)) of
        (Inl _, l) \<Rightarrow> (Some 500, db\<lparr>sd_login := (sd_login db)\<lparr>ld_mfa_limiter := l\<rparr>\<rparr>)
      | (Inr (ok, _), l) \<Rightarrow> (if ok then None else Some 429, db\<lparr>sd_login := (sd_login db)\<lparr>ld_mfa_limiter := l\<rparr>\<rparr>))"

definition admit_password :: "security_settings \<Rightarrow> string \<Rightarrow> time \<Rightarrow> security_db \<Rightarrow> nat option \<times> security_db" where
  "admit_password S key tick db =
     (case rl_allow key (sx_password_attempts S) (sx_password_window S) tick (sd_password_limiter db) of
        (Inl _, l) \<Rightarrow> (Some 500, db\<lparr>sd_password_limiter := l\<rparr>)
      | (Inr (ok, _), l) \<Rightarrow> (if ok then None else Some 429, db\<lparr>sd_password_limiter := l\<rparr>))"

definition reset_mfa_limiter :: "string \<Rightarrow> security_db \<Rightarrow> security_db" where
  "reset_mfa_limiter key db = db\<lparr>sd_login := (sd_login db)\<lparr>ld_mfa_limiter := rl_reset key (ld_mfa_limiter (sd_login db))\<rparr>\<rparr>"

section \<open>The second factor\<close>

definition mfa_enroll ::
  "security_settings \<Rightarrow> claims option \<Rightarrow> string \<Rightarrow> string \<Rightarrow> time \<Rightarrow> security_db \<Rightarrow> (nat + string) \<times> security_db" where
  "mfa_enroll S token uid secret now db =
     (case lock_security S token uid True now db of
        Inl e \<Rightarrow> (Inl e, db)
      | Inr (_, _, a) \<Rightarrow>
          if ac_mfa_enabled a then (Inl 409, db)
          else (Inr secret, audit_security ''auth.mfa.enroll'' uid ''success'' [] (write_account uid (a\<lparr>ac_mfa_secret := Some secret\<rparr>) db)))"

definition add_recovery_codes :: "string \<Rightarrow> (string \<times> string) list \<Rightarrow> security_db \<Rightarrow> security_db" where
  "add_recovery_codes uid codes db =
     db\<lparr>sd_login := (sd_login db)\<lparr>ld_codes := fold (\<lambda>(rid, hash). dict_set rid \<lparr>rc_user_id = uid, rc_code_hash = hash, rc_used_at = None\<rparr>)
                                      codes (ld_codes (sd_login db))\<rparr>\<rparr>"

text \<open>The conditional update, the recovery codes and what follows.\<close>

definition enable_mfa :: "string \<Rightarrow> account_row \<Rightarrow> int \<Rightarrow> (string \<times> string) list \<Rightarrow> time \<Rightarrow> security_db \<Rightarrow> security_db" where
  "enable_mfa uid a counter codes now db =
     (let db1 = write_account uid (a\<lparr>ac_mfa_enabled := True, ac_last_counter := counter, ac_mfa_failed := 0, ac_mfa_locked_until := None\<rparr>) db;
          db2 = revoke_account_sessions uid now (add_recovery_codes uid codes db1)
      in reset_mfa_limiter (''mfa-activate:'' @ uid) (audit_security ''auth.mfa.enabled'' uid ''success'' [] db2))"

definition mfa_activate ::
  "security_settings \<Rightarrow> claims option \<Rightarrow> string \<Rightarrow> string \<Rightarrow> (string \<times> string) list \<Rightarrow> time \<Rightarrow> time \<Rightarrow> security_db \<Rightarrow> (nat + int) \<times> security_db" where
  "mfa_activate S token uid typed codes tick now db =
     (case admit_mfa S (''mfa-activate:'' @ uid) tick db of
        (Some e, db1) \<Rightarrow> (Inl e, db1)
      | (None, db1) \<Rightarrow>
          (case lock_security S token uid False now db1 of
             Inl e \<Rightarrow> (Inl e, db1)
           | Inr (_, _, a) \<Rightarrow>
               if ac_mfa_enabled a then (Inl 409, db1)
               else
                 (case ac_mfa_secret a of
                    None \<Rightarrow> (Inl 409, db1)
                  | Some secret \<Rightarrow>
                      (case totp_verify (sx_totp S) secret typed 1 now None of
                         Inl _ \<Rightarrow> (Inl 500, db1)
                       | Inr None \<Rightarrow> (Inl 400, audit_security ''auth.mfa.activate'' uid ''failure'' ''invalid_code'' db1)
                       | Inr (Some counter) \<Rightarrow>
                           if ac_last_counter a < counter then (Inr counter, enable_mfa uid a counter codes now db1) else (Inl 409, db1)))))"

text \<open>The factor presented to \<^verbatim>\<open>mfa_disable\<close> and to \<^verbatim>\<open>step_up_authentication\<close>: a time step to claim, else a recovery code. \<open>None\<close> is an
  exception; a factor is the claimed step, or \<open>None\<close> for a recovery code.\<close>

definition claim_factor ::
  "security_settings \<Rightarrow> string \<Rightarrow> account_row \<Rightarrow> string \<Rightarrow> int option \<Rightarrow> time \<Rightarrow> login_db \<Rightarrow>
   (int option option \<times> login_db) option" where
  "claim_factor S uid a typed expected now ld =
     (case (case ac_mfa_secret a of
              None \<Rightarrow> Inr None
            | Some secret \<Rightarrow> totp_verify (sx_totp S) secret typed 1 now (Some (ac_last_counter a))) of
        Inl _ \<Rightarrow> None
      | Inr (Some counter) \<Rightarrow>
          (case claim_totp_counter uid counter expected ld of (ok, ld') \<Rightarrow> Some (if ok then Some (Some counter) else None, ld'))
      | Inr None \<Rightarrow>
          (case consume_recovery_code (sx_verify S) uid typed expected now ld of (ok, ld') \<Rightarrow> Some (if ok then Some None else None, ld')))"

definition disable_mfa :: "string \<Rightarrow> account_row \<Rightarrow> time \<Rightarrow> security_db \<Rightarrow> security_db" where
  "disable_mfa uid a now db =
     (let db1 = write_account uid (a\<lparr>ac_mfa_enabled := False, ac_mfa_secret := None, ac_last_counter := 0, ac_mfa_failed := 0,
                                     ac_mfa_locked_until := None\<rparr>) db;
          db2 = db1\<lparr>sd_login := (sd_login db1)\<lparr>ld_codes := filter (\<lambda>(_, r). rc_user_id r \<noteq> uid) (ld_codes (sd_login db1))\<rparr>\<rparr>;
          db3 = audit_security ''auth.mfa.disabled'' uid ''success'' [] (revoke_account_sessions uid now db2);
          db4 = reset_mfa_limiter (''mfa-disable:'' @ uid) db3
      in db4\<lparr>sd_notices := sd_notices db4 @ [(uid, ''mfa_disabled'')]\<rparr>)"

definition mfa_disable ::
  "security_settings \<Rightarrow> claims option \<Rightarrow> string \<Rightarrow> string \<Rightarrow> string \<Rightarrow> time \<Rightarrow> time \<Rightarrow> security_db \<Rightarrow>
   (nat + int option) \<times> security_db" where
  "mfa_disable S token uid password typed tick now db =
     (case admit_mfa S (''mfa-disable:'' @ uid) tick db of
        (Some e, db1) \<Rightarrow> (Inl e, db1)
      | (None, db1) \<Rightarrow>
          (case lock_security S token uid False now db1 of
             Inl e \<Rightarrow> (Inl e, db1)
           | Inr (_, _, a) \<Rightarrow>
               if \<not> ac_mfa_enabled a then (Inl 409, db1)
               else if \<not> sx_verify S (ac_password_hash a) password
               then (Inl 401, audit_security ''auth.mfa.disable'' uid ''failure'' ''invalid_credentials'' db1)
               else
                 (case claim_factor S uid a typed (Some (ac_token_version a)) now (sd_login db1) of
                    None \<Rightarrow> (Inl 500, db1)
                  | Some (None, _) \<Rightarrow> (Inl 401, audit_security ''auth.mfa.disable'' uid ''failure'' ''invalid_credentials'' db1)
                  | Some (Some factor, ld) \<Rightarrow>
                      (case dict_get (ld_accounts ld) uid of
                         None \<Rightarrow> (Inl 500, db1)
                       | Some a2 \<Rightarrow>
                           if \<not> ac_mfa_enabled a2 \<or> ac_token_version a2 \<noteq> ac_token_version a
                           then (Inl 409, audit_security ''auth.mfa.disable'' uid ''failure'' ''state_changed'' db1)
                           else if high_profile (sx_auth S) \<and> has_active_sensitive_session now uid (sd_chat db1)
                           then (Inl 409, audit_security ''auth.mfa.disable'' uid ''denied'' ''active_sensitive_session'' db1)
                           else (Inr factor, disable_mfa uid a2 now (db1\<lparr>sd_login := ld\<rparr>))))))"

section \<open>Re-authentication, password and consent\<close>

text \<open>\<open>Inl\<close>: an exception. Otherwise the factor presented (\<open>None\<close> when the account has no second factor), if the proof is valid.\<close>

definition prove_again ::
  "security_settings \<Rightarrow> string \<Rightarrow> account_row \<Rightarrow> string \<Rightarrow> string option \<Rightarrow> time \<Rightarrow> login_db \<Rightarrow>
   (int option option option \<times> login_db) option" where
  "prove_again S uid a password typed now ld =
     (if \<not> sx_verify S (ac_password_hash a) password then Some (None, ld)
      else if \<not> ac_mfa_enabled a then Some (Some None, ld)
      else if ac_mfa_secret a = None \<or> typed = None \<or> typed = Some [] then Some (None, ld)
      else
        (case claim_factor S uid a (the typed) None now ld of
           None \<Rightarrow> None
         | Some (None, ld') \<Rightarrow> Some (None, ld')
         | Some (Some factor, ld') \<Rightarrow> Some (Some (Some factor), ld')))"

definition step_up_authentication ::
  "security_settings \<Rightarrow> claims option \<Rightarrow> string \<Rightarrow> string \<Rightarrow> string option \<Rightarrow> time \<Rightarrow> time \<Rightarrow> security_db \<Rightarrow>
   (nat + int option option) \<times> security_db" where
  "step_up_authentication S token uid password typed tick now db =
     (case admit_password S (''step-up:'' @ uid) tick db of
        (Some e, db1) \<Rightarrow> (Inl e, db1)
      | (None, db1) \<Rightarrow>
          (case lock_security S token uid False now db1 of
             Inl e \<Rightarrow> (Inl e, db1)
           | Inr (c, s, a) \<Rightarrow>
               (case prove_again S uid a password typed now (sd_login db1) of
                  None \<Rightarrow> (Inl 500, db1)
                | Some (None, ld) \<Rightarrow> (Inl 401, audit_security ''auth.step_up'' uid ''failure'' ''invalid_credentials'' (db1\<lparr>sd_login := ld\<rparr>))
                | Some (Some factor, ld) \<Rightarrow>
                    (let db2 = on_auth (set_session (cl_jti c) (s\<lparr>as_last_step_up_at := Some now\<rparr>)) (db1\<lparr>sd_login := ld\<rparr>);
                         db3 = audit_security ''auth.step_up'' uid ''success'' [] db2
                     in (Inr factor, db3\<lparr>sd_password_limiter := rl_reset (''step-up:'' @ uid) (sd_password_limiter db3)\<rparr>)))))"

text \<open>\<open>breach\<close> is the answer of the breach service and \<open>new_hash\<close> the hash of the new password; \<open>None\<close> is an outage of either.\<close>

definition store_password :: "string \<Rightarrow> account_row \<Rightarrow> string \<Rightarrow> time \<Rightarrow> security_db \<Rightarrow> security_db" where
  "store_password uid a hash now db =
     (let db1 = revoke_account_sessions uid now
                  (write_account uid (a\<lparr>ac_password_hash := hash, ac_mfa_failed := 0, ac_mfa_locked_until := None\<rparr>) db);
          db2 = audit_security ''auth.password_change'' uid ''success'' [] db1
      in db2\<lparr>sd_notices := sd_notices db2 @ [(uid, ''password_changed'')]\<rparr>)"

text \<open>The same revalidation of the bearer as \<^verbatim>\<open>lock_account_mutation\<close>, without comparing the subject again.\<close>

definition lock_bearer :: "security_settings \<Rightarrow> claims option \<Rightarrow> string \<Rightarrow> time \<Rightarrow> security_db \<Rightarrow> nat + account_row" where
  "lock_bearer S token uid now db =
     (let d = cd_auth (sd_chat db)
      in case (token, lock_user_row uid True d, account_of uid db) of
           (Some c, Some u, Some a) \<Rightarrow>
             if cl_ver c \<noteq> ur_token_version u then Inl 401
             else (case lock_auth_session_row (cl_jti c) uid d of
                     None \<Rightarrow> Inl 401
                   | Some s \<Rightarrow>
                       if dict_has (ad_revoked d) (cl_jti c) \<or> auth_session_expiry_reason (sx_auth S) s now \<noteq> None then Inl 401 else Inr a)
         | _ \<Rightarrow> Inl 401)"

definition change_password ::
  "security_settings \<Rightarrow> claims option \<Rightarrow> string \<Rightarrow> string \<Rightarrow> string \<Rightarrow> bool option \<Rightarrow> string option \<Rightarrow> time \<Rightarrow> time \<Rightarrow>
   security_db \<Rightarrow> (nat + unit) \<times> security_db" where
  "change_password S token uid current_password new_password breach new_hash tick now db =
     (case admit_password S (''password-change:'' @ uid) tick db of
        (Some e, db1) \<Rightarrow> (Inl e, if e = 429 then audit_security ''auth.password_change'' uid ''blocked'' ''rate_limit'' db1 else db1)
      | (None, db1) \<Rightarrow>
          (case lock_bearer S token uid now db1 of
             Inl e \<Rightarrow> (Inl e, db1)
           | Inr a \<Rightarrow>
               if \<not> sx_verify S (ac_password_hash a) current_password
               then (Inl 401, audit_security ''auth.password_change'' uid ''failure'' ''invalid_current_password'' db1)
               else if current_password = new_password then (Inl 422, db1)
               else
                 (case breach of
                    None \<Rightarrow> (Inl 503, audit_security ''auth.password_change'' uid ''failure'' ''password_breach_check_unavailable'' db1)
                  | Some True \<Rightarrow> (Inl 400, audit_security ''auth.password_change'' uid ''failure'' ''breached_password'' db1)
                  | Some False \<Rightarrow>
                      (case new_hash of None \<Rightarrow> (Inl 503, db1) | Some hash \<Rightarrow> (Inr (), store_password uid a hash now db1)))))"

definition update_ai_consent ::
  "security_settings \<Rightarrow> claims option \<Rightarrow> string \<Rightarrow> bool \<Rightarrow> time \<Rightarrow> security_db \<Rightarrow> (nat + consent_row) \<times> security_db" where
  "update_ai_consent S token uid wanted now db =
     (case lock_security S token uid False now db of
        Inl e \<Rightarrow> (Inl e, db)
      | Inr _ \<Rightarrow>
          (let row = dict_get_or (sd_consents db) uid \<lparr>cn_given = False, cn_at = None, cn_version = None\<rparr>;
               version_changed = (wanted \<and> cn_version row \<noteq> Some (sx_consent_version S))
           in if cn_given row \<noteq> wanted \<or> version_changed
              then (let row' = \<lparr>cn_given = wanted, cn_at = if wanted then Some now else None,
                                cn_version = if wanted then Some (sx_consent_version S) else None\<rparr>
                    in (Inr row', audit_security ''privacy.ai_consent'' uid ''success'' [] (db\<lparr>sd_consents := dict_set uid row' (sd_consents db)\<rparr>)))
              else (Inr row, db)))"

section \<open>The time steps of a seed\<close>

text \<open>Every account of \<open>ld'\<close> was in \<open>ld\<close> with the same second factor and a replay floor that was not higher.\<close>

definition follows :: "login_db \<Rightarrow> login_db \<Rightarrow> bool" where
  "follows ld ld' \<longleftrightarrow>
     (dict_ok (ld_accounts ld) \<longrightarrow> dict_ok (ld_accounts ld')) \<and>
     (\<forall>uid a'. dict_get (ld_accounts ld') uid = Some a' \<longrightarrow>
        (\<exists>a. dict_get (ld_accounts ld) uid = Some a \<and> ac_mfa_secret a' = ac_mfa_secret a \<and> ac_mfa_enabled a' = ac_mfa_enabled a \<and>
           ac_last_counter a \<le> ac_last_counter a'))"

lemma followsD:
  assumes "follows ld ld'"
  shows "dict_ok (ld_accounts ld) \<Longrightarrow> dict_ok (ld_accounts ld')"
    "dict_get (ld_accounts ld') uid = Some a' \<Longrightarrow>
       \<exists>a. dict_get (ld_accounts ld) uid = Some a \<and> ac_mfa_secret a' = ac_mfa_secret a \<and> ac_mfa_enabled a' = ac_mfa_enabled a \<and>
         ac_last_counter a \<le> ac_last_counter a'"
  using assms unfolding follows_def by blast+

lemma follows_same: "ld_accounts ld' = ld_accounts ld \<Longrightarrow> follows ld ld'"
  by (simp add: follows_def)

lemma follows_refl [simp]: "follows ld ld"
  by (rule follows_same) simp

lemma follows_trans:
  assumes "follows a b" "follows b c"
  shows "follows a c"
  unfolding follows_def
proof (intro conjI allI impI)
  show "dict_ok (ld_accounts a) \<Longrightarrow> dict_ok (ld_accounts c)" using assms followsD(1) by blast
  fix uid x assume "dict_get (ld_accounts c) uid = Some x"
  from followsD(2)[OF assms(2) this] obtain y where y: "dict_get (ld_accounts b) uid = Some y" "ac_mfa_secret x = ac_mfa_secret y"
    "ac_mfa_enabled x = ac_mfa_enabled y" "ac_last_counter y \<le> ac_last_counter x" by blast
  from followsD(2)[OF assms(1) y(1)] obtain z where "dict_get (ld_accounts a) uid = Some z" "ac_mfa_secret y = ac_mfa_secret z"
    "ac_mfa_enabled y = ac_mfa_enabled z" "ac_last_counter z \<le> ac_last_counter y" by blast
  with y(2-4) show "\<exists>z. dict_get (ld_accounts a) uid = Some z \<and> ac_mfa_secret x = ac_mfa_secret z \<and> ac_mfa_enabled x = ac_mfa_enabled z \<and>
      ac_last_counter z \<le> ac_last_counter x" by (intro exI[of _ z]) simp
qed

lemma follows_put:
  assumes "dict_get (ld_accounts ld) uid = Some a" "ld_accounts ld' = dict_set uid a' (ld_accounts ld)"
    "ac_mfa_secret a' = ac_mfa_secret a" "ac_mfa_enabled a' = ac_mfa_enabled a" "ac_last_counter a \<le> ac_last_counter a'"
  shows "follows ld ld'"
  using assms by (auto simp: follows_def)

lemma follows_put2:
  assumes "dict_get (ld_accounts ld) uid = Some a" "ld_accounts ld' = dict_set uid a' (dict_set uid b (ld_accounts ld))"
    "ac_mfa_secret a' = ac_mfa_secret a" "ac_mfa_enabled a' = ac_mfa_enabled a" "ac_last_counter a \<le> ac_last_counter a'"
  shows "follows ld ld'"
  using assms by (auto simp: follows_def)

lemma clear_expired_lock_cols:
  "ac_mfa_secret (snd (clear_expired_lock now a)) = ac_mfa_secret a" "ac_mfa_enabled (snd (clear_expired_lock now a)) = ac_mfa_enabled a"
  by (simp_all add: clear_expired_lock_def split: option.split)

lemma count_failure_cols:
  "ac_mfa_secret (snd (count_failure cfg now a)) = ac_mfa_secret a" "ac_mfa_enabled (snd (count_failure cfg now a)) = ac_mfa_enabled a"
  by (simp_all add: count_failure_def Let_def)

lemma login_user_cols:
  assumes "login_user cfg verify rehash uid a key pw ip familiar now ld = (res, ld')"
  obtains b where "ld_accounts ld' = dict_set uid b (ld_accounts ld)" "ac_mfa_secret b = ac_mfa_secret a" "ac_mfa_enabled b = ac_mfa_enabled a"
    "ac_last_counter b = ac_last_counter a"
proof -
  obtain l v where c: "clear_expired_lock now a = (l, v)" by fastforce
  note v = clear_expired_lock_cols[of now a] clear_expired_lock_counter[of now a]
  obtain f x where f: "count_failure cfg now v = (f, x)" by fastforce
  note x = count_failure_cols[of cfg now v] count_failure_counter[of cfg now v]
  show thesis
    using assms v x that unfolding login_user_def Let_def c f prod.case
    by (auto simp: set_account_def c f split: if_splits option.splits)
qed

lemma login_follows:
  assumes "login cfg verify rehash name pw ip familiar tick now ld = (res, ld')" "dict_ok (ld_accounts ld)"
  shows "follows ld ld'"
  using assms(1)
proof (cases rule: login_cases)
  case 1
  then show ?thesis using follows_same by blast
next
  case (2 uid u key l)
  have g: "dict_get (ld_accounts ld) uid = Some u" using find_username_account[OF 2(1) assms(2)] .
  obtain b where b: "ld_accounts ld' = dict_set uid b (ld_accounts ld)" "ac_mfa_secret b = ac_mfa_secret u" "ac_mfa_enabled b = ac_mfa_enabled u"
      "ac_last_counter b = ac_last_counter u"
    by (rule login_user_cols[OF 2(2)]) simp
  show ?thesis by (rule follows_put[OF g b(1-3)]) (simp add: b(4))
qed

lemma mfa_begin_follows: "mfa_begin cfg totp ch v familiar tick now ld = (res, ld') \<Longrightarrow> follows ld ld'"
  using mfa_begin_state follows_same by blast

lemma record_mfa_failure_follows:
  assumes "record_mfa_failure cfg uid now ld = (x, ld')"
  shows "follows ld ld'"
  using assms by (auto simp: record_mfa_failure_def Let_def set_account_def split: option.splits if_splits intro!: follows_put)

lemma claim_follows: "claim_totp_counter uid k expected ld = (b, ld') \<Longrightarrow> follows ld ld'"
  using claim_totp_counter_state[of uid k expected ld b ld']
  by (auto simp: set_account_def split: if_splits intro: follows_put[where a' = "_\<lparr>ac_last_counter := k\<rparr>"])

lemma recovery_follows: "consume_recovery_code verify uid v expected now ld = (b, ld') \<Longrightarrow> follows ld ld'"
  using recovery_scan_state[of verify uid "normalized_recovery v" expected now _ ld b ld']
  unfolding consume_recovery_code_def by (fastforce split: if_splits intro!: follows_same)

lemma mfa_accept_follows:
  assumes "mfa_accept uid how c ld0 ld = (res, ld')" "follows ld0 ld"
  shows "follows ld0 ld'"
  using assms(1)
proof (cases rule: mfa_accept_cases)
  case refused
  then show ?thesis using follows_same by blast
next
  case (signed u)
  then show ?thesis using follows_trans[OF assms(2) follows_put[OF signed(2,3)]] by simp
qed

lemma mfa_commit_follows:
  assumes "mfa_commit cfg verify c v matched familiar now ld = (res, ld')"
  shows "follows ld ld'"
proof (cases matched)
  case None
  obtain b ld1 where sc: "consume_recovery_code verify (ch_sub c) v (Some (ch_ver c)) now ld = (b, ld1)" by fastforce
  note f1 = recovery_follows[OF sc]
  show ?thesis
  proof (cases b)
    case True
    then show ?thesis using assms sc None mfa_accept_follows[OF _ f1] by (simp add: mfa_commit_def Let_def)
  next
    case False
    obtain x ld2 where f: "record_mfa_failure cfg (ch_sub c) now ld1 = (x, ld2)" by fastforce
    have "ld_accounts ld' = ld_accounts ld2"
      using assms sc False None f by (auto simp: mfa_commit_def Let_def split: option.splits)
    then show ?thesis using follows_trans[OF f1 record_mfa_failure_follows[OF f]] follows_trans[OF _ follows_same] by blast
  qed
next
  case (Some k)
  obtain b ld1 where cl: "claim_totp_counter (ch_sub c) k (Some (ch_ver c)) ld = (b, ld1)" by fastforce
  show ?thesis
  proof (cases b)
    case True
    then show ?thesis using assms cl Some mfa_accept_follows[OF _ claim_follows[OF cl]] by (simp add: mfa_commit_def Let_def)
  next
    case False
    then show ?thesis using assms cl Some follows_same by (auto simp: mfa_commit_def Let_def)
  qed
qed

section \<open>Steps\<close>

datatype factor_event = Enrolled string string | Claimed string string int

text \<open>A time step that is claimed is a step of the seed on record.\<close>

definition claimed :: "string \<Rightarrow> security_db \<Rightarrow> int \<Rightarrow> factor_event list" where
  "claimed uid db k = (case account_of uid db of None \<Rightarrow> [] | Some a \<Rightarrow> (case ac_mfa_secret a of None \<Rightarrow> [] | Some seed \<Rightarrow> [Claimed uid seed k]))"

text \<open>One request: what was asked for (only the routes that remove a factor matter here), the seeds it stores and the time steps it
  claims, and the change of the state. The steps are the routes of this theory, the two steps of a sign-in, the registration of an
  account, and anything else that leaves the second factors alone or deletes accounts. The verifier of password hashes is the one
  of the service in every step. As in the theory of the sign-in, the time step and the challenge handed to a second half are
  arbitrary.\<close>

datatype security_request = Disable_Request "claims option" string string string time time | Other_Request

inductive security_step :: "security_settings \<Rightarrow> security_request \<Rightarrow> factor_event list \<Rightarrow> security_db \<Rightarrow> security_db \<Rightarrow> bool" for S where
  enroll: "mfa_enroll S token uid secret now db = (r, db') \<Longrightarrow>
    security_step S Other_Request (case r of Inl _ \<Rightarrow> [] | Inr s \<Rightarrow> [Enrolled uid s]) db db'"
| activate: "mfa_activate S token uid typed codes tick now db = (ri, db') \<Longrightarrow>
    security_step S Other_Request (case ri of Inl _ \<Rightarrow> [] | Inr k \<Rightarrow> claimed uid db k) db db'"
| disable: "mfa_disable S token uid password typed tick now db = (rf, db') \<Longrightarrow>
    security_step S (Disable_Request token uid password typed tick now) (case rf of Inr (Some k) \<Rightarrow> claimed uid db k | _ \<Rightarrow> []) db db'"
| step_up: "step_up_authentication S token uid password code_text tick now db = (rs, db') \<Longrightarrow>
    security_step S Other_Request (case rs of Inr (Some (Some k)) \<Rightarrow> claimed uid db k | _ \<Rightarrow> []) db db'"
| password: "change_password S token uid current_password new_password breach new_hash tick now db = (ru, db') \<Longrightarrow>
    security_step S Other_Request [] db db'"
| consent: "update_ai_consent S token uid wanted now db = (rc, db') \<Longrightarrow> security_step S Other_Request [] db db'"
| sign_in: "login (sx_login S) (sx_verify S) rehash name password ip familiar_source tick now (sd_login db) = (res, ld) \<Longrightarrow>
    security_step S Other_Request [] db (db\<lparr>sd_login := ld\<rparr>)"
| first_half: "mfa_begin (sx_login S) (sx_totp S) ch typed familiar_source tick now (sd_login db) = (rb, ld) \<Longrightarrow>
    security_step S Other_Request [] db (db\<lparr>sd_login := ld\<rparr>)"
| second_half: "mfa_commit (sx_login S) (sx_verify S) c typed matched familiar_source now (sd_login db) = (res, ld) \<Longrightarrow>
    security_step S Other_Request (case (res, matched) of (Signed_In uid _, Some k) \<Rightarrow> claimed uid db k | _ \<Rightarrow> []) db (db\<lparr>sd_login := ld\<rparr>)"
| register: "account_of uid db = None \<Longrightarrow> ac_mfa_secret a = None \<Longrightarrow> \<not> ac_mfa_enabled a \<Longrightarrow> sd_login db' = set_account uid a (sd_login db) \<Longrightarrow>
    security_step S Other_Request [] db db'"
| other: "follows (sd_login db) (sd_login db') \<Longrightarrow> security_step S Other_Request [] db db'"

text \<open>Requests one after the other; a new seed is one that has never been used by the account.\<close>

inductive security_run :: "security_settings \<Rightarrow> security_db \<Rightarrow> factor_event list \<Rightarrow> security_db \<Rightarrow> bool" for S db0 where
  start: "security_run S db0 [] db0"
| next_step: "security_run S db0 tr db \<Longrightarrow> security_step S rq es db db' \<Longrightarrow>
    (\<And>uid seed k. Enrolled uid seed \<in> set es \<Longrightarrow> Claimed uid seed k \<notin> set tr) \<Longrightarrow> security_run S db0 (tr @ es) db'"

text \<open>What a request may do to a second factor: leave it with a floor that does not fall, replace a seed that is not active by a
  new one, or claim a step of the seed and, on the way, switch the factor on or, for the accounts \<open>off\<close>, off.\<close>

definition factor_change :: "string set \<Rightarrow> factor_event list \<Rightarrow> security_db \<Rightarrow> security_db \<Rightarrow> bool" where
  "factor_change off es db db' \<longleftrightarrow>
     (dict_ok (ld_accounts (sd_login db)) \<longrightarrow> dict_ok (ld_accounts (sd_login db'))) \<and>
     (\<forall>uid a'. account_of uid db' = Some a' \<longrightarrow>
        ac_mfa_secret a' = None \<or> (\<exists>seed. ac_mfa_secret a' = Some seed \<and> Enrolled uid seed \<in> set es) \<or>
        (\<exists>a. account_of uid db = Some a \<and> ac_mfa_secret a' = ac_mfa_secret a \<and> ac_last_counter a \<le> ac_last_counter a')) \<and>
     (\<forall>uid a a'. account_of uid db = Some a \<and> account_of uid db' = Some a' \<and> ac_mfa_enabled a \<and> \<not> ac_mfa_enabled a' \<longrightarrow> uid \<in> off) \<and>
     (\<forall>uid seed k. Claimed uid seed k \<in> set es \<longrightarrow>
        es = [Claimed uid seed k] \<and>
        (\<exists>a. account_of uid db = Some a \<and> ac_mfa_secret a = Some seed \<and> ac_last_counter a < k) \<and>
        (\<forall>a'. account_of uid db' = Some a' \<longrightarrow> ac_mfa_secret a' = Some seed \<longrightarrow> k \<le> ac_last_counter a'))"

definition steps_claimed :: "string \<Rightarrow> string \<Rightarrow> factor_event list \<Rightarrow> int list" where
  "steps_claimed uid seed tr = concat (map (\<lambda>e. case e of Claimed u s k \<Rightarrow> if u = uid \<and> s = seed then [k] else [] | _ \<Rightarrow> []) tr)"

definition security_inv :: "factor_event list \<Rightarrow> security_db \<Rightarrow> bool" where
  "security_inv tr db \<longleftrightarrow>
     dict_ok (ld_accounts (sd_login db)) \<and>
     (\<forall>uid seed k a. Claimed uid seed k \<in> set tr \<and> account_of uid db = Some a \<and> ac_mfa_secret a = Some seed \<longrightarrow> k \<le> ac_last_counter a) \<and>
     (\<forall>uid seed. sorted_wrt (<) (steps_claimed uid seed tr))"

lemma steps_claimed_append: "steps_claimed uid seed (tr @ es) = steps_claimed uid seed tr @ steps_claimed uid seed es"
  by (simp add: steps_claimed_def)

lemma steps_claimed_mem: "k \<in> set (steps_claimed uid seed tr) \<longleftrightarrow> Claimed uid seed k \<in> set tr"
  by (force simp: steps_claimed_def split: factor_event.splits if_splits)

lemma security_inv_step:
  assumes inv: "security_inv tr db" and ch: "factor_change off es db db'"
    and fresh: "\<And>uid seed k. Enrolled uid seed \<in> set es \<Longrightarrow> Claimed uid seed k \<notin> set tr"
  shows "security_inv (tr @ es) db'"
  unfolding security_inv_def
proof (intro conjI allI impI)
  show "dict_ok (ld_accounts (sd_login db'))" using inv ch by (simp add: security_inv_def factor_change_def)
  fix uid seed k a'
  assume h: "Claimed uid seed k \<in> set (tr @ es) \<and> account_of uid db' = Some a' \<and> ac_mfa_secret a' = Some seed"
  show "k \<le> ac_last_counter a'"
  proof (cases "Claimed uid seed k \<in> set es")
    case True
    then show ?thesis using ch h by (auto simp: factor_change_def)
  next
    case False
    then have old: "Claimed uid seed k \<in> set tr" using h by simp
    then have "Enrolled uid seed \<notin> set es" using fresh by blast
    then obtain a where "account_of uid db = Some a" "ac_mfa_secret a = Some seed" "ac_last_counter a \<le> ac_last_counter a'"
      using ch h unfolding factor_change_def by (metis option.distinct(1) option.inject)
    then show ?thesis using inv old unfolding security_inv_def by (meson order_trans)
  qed
next
  fix uid seed
  have old: "sorted_wrt (<) (steps_claimed uid seed tr)" using inv by (simp add: security_inv_def)
  show "sorted_wrt (<) (steps_claimed uid seed (tr @ es))"
  proof (cases "\<exists>k. Claimed uid seed k \<in> set es")
    case False
    then have "steps_claimed uid seed es = []" using steps_claimed_mem[of _ uid seed es] by (metis list.set_intros(1) neq_Nil_conv)
    then show ?thesis using old by (simp add: steps_claimed_append)
  next
    case True
    then obtain k where "Claimed uid seed k \<in> set es" by blast
    then obtain a where k: "es = [Claimed uid seed k]" "account_of uid db = Some a" "ac_mfa_secret a = Some seed" "ac_last_counter a < k"
      using ch unfolding factor_change_def by blast
    have "i < k" if "i \<in> set (steps_claimed uid seed tr)" for i
      using inv that k(2-4) unfolding security_inv_def steps_claimed_mem by force
    then show ?thesis using old k(1) by (auto simp: steps_claimed_append sorted_wrt_append steps_claimed_def)
  qed
qed

section \<open>What the routes do to the second factors\<close>

lemma account_of_simps [simp]:
  "account_of w (audit_security e u o' rs db) = account_of w db"
  "account_of w (on_auth f db) = account_of w db"
  "account_of w (reset_mfa_limiter key db) = account_of w db"
  "account_of w (add_recovery_codes uid codes db) = account_of w db"
  "account_of w (write_account uid a db) = (if w = uid then Some a else account_of w db)"
  "account_of w (revoke_account_sessions uid now db) =
     map_option (\<lambda>a. if w = uid then a\<lparr>ac_token_version := ac_token_version a + 1\<rparr> else a) (account_of w db)"
  by (simp_all add: account_of_def audit_security_def log_event_def on_auth_def reset_mfa_limiter_def add_recovery_codes_def
      write_account_def set_account_def revoke_account_sessions_def)

definition accounts_ok :: "security_db \<Rightarrow> bool" where
  "accounts_ok db \<longleftrightarrow> dict_ok (ld_accounts (sd_login db))"

lemma accounts_ok_simps [simp]:
  "accounts_ok (audit_security e u o' rs db) = accounts_ok db"
  "accounts_ok (on_auth f db) = accounts_ok db"
  "accounts_ok (reset_mfa_limiter key db) = accounts_ok db"
  "accounts_ok (add_recovery_codes uid codes db) = accounts_ok db"
  "accounts_ok db \<Longrightarrow> accounts_ok (write_account uid a db)"
  "accounts_ok (revoke_account_sessions uid now db) = accounts_ok db"
  by (simp_all add: accounts_ok_def audit_security_def log_event_def on_auth_def reset_mfa_limiter_def add_recovery_codes_def
      write_account_def set_account_def revoke_account_sessions_def)

lemma factor_change_quiet: "follows (sd_login db) (sd_login db') \<Longrightarrow> factor_change {} [] db db'"
  unfolding factor_change_def follows_def account_of_def by simp (metis option.inject)

lemma factor_change_same: "sd_login db' = sd_login db \<Longrightarrow> factor_change {} [] db db'"
  by (rule factor_change_quiet) simp

text \<open>A request that writes one account.\<close>

lemma factor_change_put:
  assumes "accounts_ok db \<Longrightarrow> accounts_ok db'" "account_of uid db = Some a" "account_of uid db' = Some a'"
    "\<And>w. w \<noteq> uid \<Longrightarrow> account_of w db' = account_of w db"
    "ac_mfa_secret a' = None \<or> (\<exists>seed. ac_mfa_secret a' = Some seed \<and> Enrolled uid seed \<in> set es) \<or>
     ac_mfa_secret a' = ac_mfa_secret a \<and> ac_last_counter a \<le> ac_last_counter a'"
    "ac_mfa_enabled a \<Longrightarrow> ac_mfa_enabled a' \<or> uid \<in> off"
    "\<And>u seed k. Claimed u seed k \<in> set es \<Longrightarrow>
       es = [Claimed u seed k] \<and> u = uid \<and> ac_mfa_secret a = Some seed \<and> ac_last_counter a < k \<and>
       (ac_mfa_secret a' = Some seed \<longrightarrow> k \<le> ac_last_counter a')"
  shows "factor_change off es db db'"
  unfolding factor_change_def
proof (intro conjI allI impI)
  show "dict_ok (ld_accounts (sd_login db)) \<Longrightarrow> dict_ok (ld_accounts (sd_login db'))" using assms(1) by (simp add: accounts_ok_def)
  fix w b assume b: "account_of w db' = Some b"
  show "ac_mfa_secret b = None \<or> (\<exists>seed. ac_mfa_secret b = Some seed \<and> Enrolled w seed \<in> set es) \<or>
      (\<exists>c. account_of w db = Some c \<and> ac_mfa_secret b = ac_mfa_secret c \<and> ac_last_counter c \<le> ac_last_counter b)"
    using assms(2-5) b by (cases "w = uid") auto
next
  fix w b b' assume "account_of w db = Some b \<and> account_of w db' = Some b' \<and> ac_mfa_enabled b \<and> \<not> ac_mfa_enabled b'"
  then show "w \<in> off" using assms(2-4,6) by (cases "w = uid") auto
next
  fix w seed k assume c: "Claimed w seed k \<in> set es"
  note d = assms(7)[OF c]
  show "es = [Claimed w seed k]" using d by blast
  show "\<exists>b. account_of w db = Some b \<and> ac_mfa_secret b = Some seed \<and> ac_last_counter b < k" using d assms(2) by simp
  fix b assume "account_of w db' = Some b" "ac_mfa_secret b = Some seed"
  then show "k \<le> ac_last_counter b" using d assms(3) by simp
qed

lemma lock_security_account:
  assumes "lock_security S token uid step_up now db = Inr (c, s, a)"
  shows "account_of uid db = Some a" "lock_account_mutation (sx_auth S) token uid step_up now (cd_auth (sd_chat db)) = Inr (c, s)"
  using assms by (auto simp: lock_security_def split: sum.splits option.splits)

lemma admit_mfa_state:
  assumes "admit_mfa S key tick db = (r, db1)"
  shows "account_of w db1 = account_of w db" "accounts_ok db1 = accounts_ok db" "sd_chat db1 = sd_chat db"
    "ld_codes (sd_login db1) = ld_codes (sd_login db)"
  using assms by (auto simp: admit_mfa_def account_of_def accounts_ok_def split: prod.splits sum.splits)

lemma admit_password_state:
  assumes "admit_password S key tick db = (r, db1)"
  shows "sd_login db1 = sd_login db" "sd_chat db1 = sd_chat db"
  using assms by (auto simp: admit_password_def split: prod.splits sum.splits)

text \<open>A request that leaves every account alone.\<close>

lemma factor_change_accounts:
  assumes "\<And>w. account_of w db' = account_of w db" "accounts_ok db' = accounts_ok db"
  shows "factor_change {} [] db db'"
  using assms by (simp add: factor_change_def accounts_ok_def)

lemma mfa_enroll_change:
  assumes "mfa_enroll S token uid secret now db = (r, db')"
  shows "factor_change {} (case r of Inl _ \<Rightarrow> [] | Inr s \<Rightarrow> [Enrolled uid s]) db db'"
proof (cases r)
  case (Inl e)
  then have "db' = db" using assms by (auto simp: mfa_enroll_def split: sum.splits if_splits)
  then show ?thesis using Inl factor_change_same by simp
next
  case (Inr s)
  then obtain c t a where a: "lock_security S token uid True now db = Inr (c, t, a)" "s = secret"
      "db' = audit_security ''auth.mfa.enroll'' uid ''success'' [] (write_account uid (a\<lparr>ac_mfa_secret := Some secret\<rparr>) db)"
    using assms by (auto simp: mfa_enroll_def split: sum.splits if_splits)
  show ?thesis
    unfolding Inr sum.case by (rule factor_change_put[OF _ lock_security_account(1)[OF a(1)], where a' = "a\<lparr>ac_mfa_secret := Some secret\<rparr>"])
      (simp_all add: a(2,3))
qed

lemma mfa_activate_change:
  assumes "mfa_activate S token uid typed codes tick now db = (r, db')"
  shows "factor_change {} (case r of Inl _ \<Rightarrow> [] | Inr k \<Rightarrow> claimed uid db k) db db'"
proof -
  obtain x db1 where m: "admit_mfa S (''mfa-activate:'' @ uid) tick db = (x, db1)" by fastforce
  note st = admit_mfa_state[OF m] and run = assms[unfolded mfa_activate_def m prod.case]
  show ?thesis
  proof (cases r)
    case (Inl e)
    then have "db' = db1 \<or> db' = audit_security ''auth.mfa.activate'' uid ''failure'' ''invalid_code'' db1"
      using run by (auto split: sum.splits option.splits if_splits)
    then show ?thesis using Inl st by (auto intro: factor_change_accounts)
  next
    case (Inr k)
    then obtain c s a seed where a: "lock_security S token uid False now db1 = Inr (c, s, a)" "ac_mfa_secret a = Some seed"
        "ac_last_counter a < k" "db' = enable_mfa uid a k codes now db1"
      using run by (auto split: sum.splits option.splits if_splits)
    have g: "account_of uid db = Some a" using lock_security_account(1)[OF a(1)] st(1) by simp
    show ?thesis
      unfolding Inr sum.case
      by (rule factor_change_put[OF _ g, where a' = "a\<lparr>ac_mfa_enabled := True, ac_last_counter := k, ac_mfa_failed := 0,
            ac_mfa_locked_until := None, ac_token_version := ac_token_version a + 1\<rparr>"])
        (use a(2,3) g st in \<open>auto simp: a(4) enable_mfa_def Let_def claimed_def option.map_ident\<close>)
  qed
qed

text \<open>The outcomes of presenting a factor.\<close>

lemma claim_factor_cases:
  assumes "claim_factor S uid a typed expected now ld = Some (f, ld')" "dict_get (ld_accounts ld) uid = Some a"
  obtains (refused) "f = None" "ld' = ld"
  | (step) k seed where "f = Some (Some k)" "ac_mfa_secret a = Some seed" "ac_last_counter a < k"
      "totp_verify (sx_totp S) seed typed 1 now (Some (ac_last_counter a)) = Inr (Some k)"
      "ld' = set_account uid (a\<lparr>ac_last_counter := k\<rparr>) ld"
  | (code_used) "f = Some None" "consume_recovery_code (sx_verify S) uid typed expected now ld = (True, ld')"
      "ld_accounts ld' = ld_accounts ld"
proof -
  let ?m = "case ac_mfa_secret a of None \<Rightarrow> Inr None | Some secret \<Rightarrow> totp_verify (sx_totp S) secret typed 1 now (Some (ac_last_counter a))"
  obtain m where m: "?m = Inr m" using assms(1) by (auto simp: claim_factor_def split: sum.splits)
  show thesis
  proof (cases m)
    case None
    obtain b l where c: "consume_recovery_code (sx_verify S) uid typed expected now ld = (b, l)" by fastforce
    have r: "f = (if b then Some None else None)" "ld' = l" using assms(1) m None c by (auto simp: claim_factor_def)
    show thesis
      using recovery_scan_state[OF c[unfolded consume_recovery_code_def]] r c that(1,3) by (cases b) auto
  next
    case (Some k)
    then obtain seed where seed: "ac_mfa_secret a = Some seed"
        "totp_verify (sx_totp S) seed typed 1 now (Some (ac_last_counter a)) = Inr (Some k)"
      using m by (auto split: option.splits)
    obtain b l where c: "claim_totp_counter uid k expected ld = (b, l)" by fastforce
    have r: "f = (if b then Some (Some k) else None)" "ld' = l" using assms(1) m Some c by (auto simp: claim_factor_def)
    show thesis
      using claim_totp_counter_state[OF c] r assms(2) seed that(1,2) by (cases b) auto
  qed
qed

lemma claim_factor_others:
  assumes "claim_factor S uid a typed expected now (sd_login db) = Some (f, ld')" "account_of uid db = Some a"
  shows "w \<noteq> uid \<Longrightarrow> account_of w (db\<lparr>sd_login := ld'\<rparr>) = account_of w db"
    "accounts_ok db \<Longrightarrow> accounts_ok (db\<lparr>sd_login := ld'\<rparr>)"
  using assms(1) assms(2)[unfolded account_of_def]
  by (cases rule: claim_factor_cases; simp add: account_of_def accounts_ok_def set_account_def)+

lemma mfa_disable_accepted:
  assumes "mfa_disable S token uid password typed tick now db = (Inr factor, db')"
  obtains db1 c s a ld a2 where "admit_mfa S (''mfa-disable:'' @ uid) tick db = (None, db1)"
    "lock_security S token uid False now db1 = Inr (c, s, a)" "ac_mfa_enabled a" "sx_verify S (ac_password_hash a) password"
    "claim_factor S uid a typed (Some (ac_token_version a)) now (sd_login db1) = Some (Some factor, ld)"
    "dict_get (ld_accounts ld) uid = Some a2" "\<not> (high_profile (sx_auth S) \<and> has_active_sensitive_session now uid (sd_chat db1))"
    "db' = disable_mfa uid a2 now (db1\<lparr>sd_login := ld\<rparr>)"
proof -
  obtain x db1 where m: "admit_mfa S (''mfa-disable:'' @ uid) tick db = (x, db1)" by fastforce
  show thesis
    using assms[unfolded mfa_disable_def m prod.case] that m by (auto split: sum.splits option.splits if_splits)
qed

lemma mfa_disable_refused:
  assumes "mfa_disable S token uid password typed tick now db = (Inl e, db')"
  shows "factor_change {} [] db db'"
proof -
  obtain x db1 where m: "admit_mfa S (''mfa-disable:'' @ uid) tick db = (x, db1)" by fastforce
  have "account_of w db' = account_of w db1 \<and> accounts_ok db' = accounts_ok db1" for w
    using assms[unfolded mfa_disable_def m prod.case] by (auto split: sum.splits option.splits if_splits)
  then show ?thesis using admit_mfa_state[OF m] by (intro factor_change_accounts) simp_all
qed

lemma account_of_disable_mfa:
  "account_of w (disable_mfa uid a now db) =
     (if w = uid then Some (a\<lparr>ac_mfa_enabled := False, ac_mfa_secret := None, ac_last_counter := 0, ac_mfa_failed := 0,
                              ac_mfa_locked_until := None, ac_token_version := ac_token_version a + 1\<rparr>)
      else account_of w db)"
  "accounts_ok db \<Longrightarrow> accounts_ok (disable_mfa uid a now db)"
proof -
  have [simp]: "account_of w (db\<lparr>sd_notices := n\<rparr>) = account_of w db" "accounts_ok (db\<lparr>sd_notices := n\<rparr>) = accounts_ok db"
    "account_of w (db\<lparr>sd_login := (sd_login db)\<lparr>ld_codes := m\<rparr>\<rparr>) = account_of w db"
    "accounts_ok (db\<lparr>sd_login := (sd_login db)\<lparr>ld_codes := m\<rparr>\<rparr>) = accounts_ok db" for db n m
    by (simp_all add: account_of_def accounts_ok_def)
  show "account_of w (disable_mfa uid a now db) =
     (if w = uid then Some (a\<lparr>ac_mfa_enabled := False, ac_mfa_secret := None, ac_last_counter := 0, ac_mfa_failed := 0,
                              ac_mfa_locked_until := None, ac_token_version := ac_token_version a + 1\<rparr>)
      else account_of w db)"
    "accounts_ok db \<Longrightarrow> accounts_ok (disable_mfa uid a now db)"
    by (simp_all add: disable_mfa_def Let_def option.map_ident)
qed

lemma mfa_disable_change:
  assumes "mfa_disable S token uid password typed tick now db = (r, db')"
  shows "factor_change (case r of Inl _ \<Rightarrow> {} | Inr _ \<Rightarrow> {uid}) (case r of Inr (Some k) \<Rightarrow> claimed uid db k | _ \<Rightarrow> []) db db'"
proof (cases r)
  case (Inl e)
  then show ?thesis using mfa_disable_refused assms by simp
next
  case (Inr factor)
  obtain db1 c s a ld a2 where d: "admit_mfa S (''mfa-disable:'' @ uid) tick db = (None, db1)"
    "lock_security S token uid False now db1 = Inr (c, s, a)"
    "claim_factor S uid a typed (Some (ac_token_version a)) now (sd_login db1) = Some (Some factor, ld)"
    "db' = disable_mfa uid a2 now (db1\<lparr>sd_login := ld\<rparr>)"
    using assms[unfolded Inr] by (elim mfa_disable_accepted)
  note st = admit_mfa_state[OF d(1)] and g1 = lock_security_account(1)[OF d(2)]
  have g: "account_of uid db = Some a" using g1 st(1) by simp
  have f: "ac_last_counter a < k \<and> (\<exists>seed. ac_mfa_secret a = Some seed)" if "factor = Some k" for k
    using d(3) g1[unfolded account_of_def] that by (cases rule: claim_factor_cases) auto
  show ?thesis
    unfolding Inr sum.case
    by (rule factor_change_put[OF _ g])
      (use f claim_factor_others[OF d(3) g1] st g in
        \<open>auto simp: d(4) account_of_disable_mfa claimed_def split: option.splits intro: account_of_disable_mfa(2)\<close>)
qed

lemma prove_again_change:
  assumes "prove_again S uid a password typed now (sd_login db) = Some (f, ld)" "account_of uid db = Some a"
  shows "factor_change {} (case f of Some (Some (Some k)) \<Rightarrow> claimed uid db k | _ \<Rightarrow> []) db (db\<lparr>sd_login := ld\<rparr>)"
proof (cases "ld = sd_login db \<and> f \<in> {None, Some None}")
  case True
  then show ?thesis by (auto intro: factor_change_same)
next
  case False
  then obtain g where g: "claim_factor S uid a (the typed) None now (sd_login db) = Some (g, ld)" "f = map_option Some g"
    using assms(1) by (auto simp: prove_again_def split: if_splits option.splits)
  show ?thesis
    using g(1) assms(2)[unfolded account_of_def]
  proof (cases rule: claim_factor_cases)
    case refused
    then show ?thesis using g(2) by (auto intro: factor_change_same)
  next
    case (step k seed)
    show ?thesis
      unfolding g(2) step(1) option.map option.case
      by (rule factor_change_put[OF _ assms(2), where a' = "a\<lparr>ac_last_counter := k\<rparr>"])
        (use step(2,3) assms(2) in \<open>auto simp: step(5) claimed_def account_of_def accounts_ok_def set_account_def\<close>)
  next
    case code_used
    then show ?thesis using g(2) by (auto intro!: factor_change_accounts simp: account_of_def accounts_ok_def)
  qed
qed

text \<open>Only the accounts matter for the change of the second factors.\<close>

lemma factor_change_cong:
  assumes "factor_change off es db1 db2" "\<And>w. account_of w db1 = account_of w db" "accounts_ok db1 = accounts_ok db"
    "\<And>w. account_of w db2 = account_of w db'" "accounts_ok db2 = accounts_ok db'"
  shows "factor_change off es db db'"
  using assms by (simp add: factor_change_def accounts_ok_def)

lemma claimed_cong: "account_of uid db1 = account_of uid db \<Longrightarrow> claimed uid db1 k = claimed uid db k"
  by (simp add: claimed_def)

lemma account_of_outside [simp]:
  "account_of w (db\<lparr>sd_password_limiter := l\<rparr>) = account_of w db" "accounts_ok (db\<lparr>sd_password_limiter := l\<rparr>) = accounts_ok db"
  "account_of w (db\<lparr>sd_notices := n\<rparr>) = account_of w db" "accounts_ok (db\<lparr>sd_notices := n\<rparr>) = accounts_ok db"
  "account_of w (db\<lparr>sd_consents := cs\<rparr>) = account_of w db" "accounts_ok (db\<lparr>sd_consents := cs\<rparr>) = accounts_ok db"
  by (simp_all add: account_of_def accounts_ok_def)

lemma step_up_change:
  assumes "step_up_authentication S token uid password typed tick now db = (r, db')"
  shows "factor_change {} (case r of Inr (Some (Some k)) \<Rightarrow> claimed uid db k | _ \<Rightarrow> []) db db'"
proof -
  obtain x db1 where m: "admit_password S (''step-up:'' @ uid) tick db = (x, db1)" by fastforce
  note run = assms[unfolded step_up_authentication_def m prod.case]
  note st = admit_password_state(1)[OF m]
  have same: "account_of w db1 = account_of w db" "accounts_ok db1 = accounts_ok db" for w
    by (simp_all add: st account_of_def accounts_ok_def)
  have quiet: "factor_change {} [] db db1" by (rule factor_change_accounts[OF same])
  consider (early) e where "r = Inl e" "db' = db1"
    | (locked) c s a where "lock_security S token uid False now db1 = Inr (c, s, a)" "x = None"
    using run by (cases x; cases "lock_security S token uid False now db1") auto
  then show ?thesis
  proof cases
    case early
    then show ?thesis using quiet by simp
  next
    case locked
    note g = lock_security_account(1)[OF locked(1)]
    show ?thesis
    proof (cases "prove_again S uid a password typed now (sd_login db1)")
      case None
      then show ?thesis using run locked quiet by auto
    next
      case (Some y)
      obtain f ld where y: "y = (f, ld)" by fastforce
      note ch = prove_again_change[OF Some[unfolded y] g]
      have d: "account_of w db' = account_of w (db1\<lparr>sd_login := ld\<rparr>)" "accounts_ok db' = accounts_ok (db1\<lparr>sd_login := ld\<rparr>)"
        "(case r of Inr (Some (Some k)) \<Rightarrow> claimed uid db k | _ \<Rightarrow> []) = (case f of Some (Some (Some k)) \<Rightarrow> claimed uid db1 k | _ \<Rightarrow> [])" for w
        using run locked Some y claimed_cong[OF same(1)] by (auto simp: Let_def split: option.splits)
      show ?thesis unfolding d(3) by (rule factor_change_cong[OF ch same d(1,2)[symmetric]])
    qed
  qed
qed

lemma lock_bearer_account: "lock_bearer S token uid now db = Inr a \<Longrightarrow> account_of uid db = Some a"
  by (auto simp: lock_bearer_def Let_def split: option.splits if_splits)

lemma change_password_change:
  assumes "change_password S token uid current_password new_password breach new_hash tick now db = (r, db')"
  shows "factor_change {} [] db db'"
proof -
  obtain x db1 where m: "admit_password S (''password-change:'' @ uid) tick db = (x, db1)" by fastforce
  note run = assms[unfolded change_password_def m prod.case]
  have same: "account_of w db1 = account_of w db" "accounts_ok db1 = accounts_ok db" for w
    by (simp_all add: admit_password_state(1)[OF m] account_of_def accounts_ok_def)
  consider (kept) "\<And>w. account_of w db' = account_of w db1" "accounts_ok db' = accounts_ok db1"
    | (stored) a hash where "lock_bearer S token uid now db1 = Inr a" "db' = store_password uid a hash now db1"
    using run by (cases x; cases "lock_bearer S token uid now db1") (auto split: if_splits option.splits bool.splits)
  then show ?thesis
  proof cases
    case kept
    then show ?thesis using same by (intro factor_change_accounts) simp_all
  next
    case stored
    note g = lock_bearer_account[OF stored(1)]
    show ?thesis
      by (rule factor_change_put[OF _ g[unfolded same(1)], where a' = "a\<lparr>ac_password_hash := hash, ac_mfa_failed := 0,
            ac_mfa_locked_until := None, ac_token_version := ac_token_version a + 1\<rparr>"])
        (simp_all add: stored(2) store_password_def Let_def same option.map_ident)
  qed
qed

lemma consent_change:
  assumes "update_ai_consent S token uid wanted now db = (r, db')"
  shows "factor_change {} [] db db'"
  using assms by (intro factor_change_accounts) (auto simp: update_ai_consent_def Let_def split: sum.splits if_splits)

lemma second_half_change:
  assumes "mfa_commit (sx_login S) verify c typed matched familiar now (sd_login db) = (res, ld)"
  shows "factor_change {} (case (res, matched) of (Signed_In uid _, Some k) \<Rightarrow> claimed uid db k | _ \<Rightarrow> []) db (db\<lparr>sd_login := ld\<rparr>)"
proof -
  have f: "follows (sd_login db) (sd_login (db\<lparr>sd_login := ld\<rparr>))" using mfa_commit_follows[OF assms] by simp
  note quiet = factor_change_quiet[OF f]
  show ?thesis
    using assms
  proof (cases rule: mfa_commit_cases)
    case refused
    show ?thesis
    proof (cases res)
      case (Signed_In n m)
      then show ?thesis using refused(1)[of n m] by simp
    qed (simp_all add: quiet)
  next
    case (recovery rid r u)
    then show ?thesis using quiet by simp
  next
    case (totp k u v)
    have g: "account_of (ch_sub c) db = Some u" "account_of (ch_sub c) (db\<lparr>sd_login := ld\<rparr>) = Some v"
      using totp(4,7) by (simp_all add: account_of_def)
    have v: "ac_mfa_secret v = ac_mfa_secret u" "ac_mfa_enabled v = ac_mfa_enabled u"
      using followsD(2)[OF f, of "ch_sub c" v] g by (simp_all add: account_of_def)
    show ?thesis
      unfolding totp(1,2) prod.case sign_in_result.case option.case
      by (intro factor_change_put[OF _ g])
        (use totp(5-7) g(1) in \<open>cases "ac_mfa_secret u"; auto simp: v accounts_ok_def account_of_def claimed_def\<close>)+
  qed
qed

text \<open>Every request; the only route that switches a second factor off is \<open>mfa_disable\<close>.\<close>

lemma security_step_change:
  assumes "security_step S rq es db db'" "accounts_ok db"
  shows "\<exists>off. factor_change off es db db' \<and>
    (\<forall>uid\<in>off. \<exists>token password typed tick now factor. rq = Disable_Request token uid password typed tick now \<and>
       mfa_disable S token uid password typed tick now db = (Inr factor, db'))"
  using assms(1)
proof cases
  case (enroll token uid secret now r)
  show ?thesis using mfa_enroll_change[OF enroll(3)] enroll(2) by blast
next
  case (activate token uid typed codes tick now ri)
  show ?thesis using mfa_activate_change[OF activate(3)] activate(2) by blast
next
  case (disable token uid password typed tick now rf)
  note ch = mfa_disable_change[OF disable(3)]
  show ?thesis
  proof (cases rf)
    case (Inl e)
    then show ?thesis using ch disable(2) by (intro exI[of _ "{}"]) simp
  next
    case (Inr factor)
    then show ?thesis using ch disable by (intro exI[of _ "{uid}"]) simp
  qed
next
  case (step_up token uid password code_text tick now rs)
  show ?thesis using step_up_change[OF step_up(3)] step_up(2) by blast
next
  case (password token uid current_password new_password breach new_hash tick now ru)
  show ?thesis using change_password_change[OF password(3)] password(2) by blast
next
  case (consent token uid wanted now rc)
  show ?thesis using consent_change[OF consent(3)] consent(2) by blast
next
  case (sign_in rehash name password ip familiar_source tick now res ld)
  have "follows (sd_login db) (sd_login db')"
    using login_follows[OF sign_in(4)] sign_in(3) assms(2) by (simp add: accounts_ok_def)
  then show ?thesis using factor_change_quiet sign_in(2) by blast
next
  case (first_half ch typed familiar_source tick now rb ld)
  have "follows (sd_login db) (sd_login db')" using mfa_begin_follows[OF first_half(4)] first_half(3) by simp
  then show ?thesis using factor_change_quiet first_half(2) by blast
next
  case (second_half c typed matched familiar_source now res ld)
  show ?thesis using second_half_change[OF second_half(4)] second_half(2,3) by blast
next
  case (register uid a)
  have "factor_change {} [] db db'"
    using register(3-6) by (auto simp: factor_change_def account_of_def set_account_def)
  then show ?thesis using register(2) by blast
next
  case other
  then show ?thesis using factor_change_quiet by blast
qed

lemma security_run_inv:
  assumes "security_run S db0 tr db" "dict_ok (ld_accounts (sd_login db0))"
  shows "security_inv tr db"
  using assms(1)
proof induction
  case start
  then show ?case using assms(2) by (simp add: security_inv_def steps_claimed_def)
next
  case (next_step tr db rq es db')
  have "accounts_ok db" using next_step.IH by (simp add: security_inv_def accounts_ok_def)
  then obtain off where "factor_change off es db db'" using security_step_change[OF next_step.hyps(2)] by blast
  then show ?case using security_inv_step[OF next_step.IH] next_step.hyps(3) by blast
qed

text \<open>C13: Whatever sequence of sign-ins, enrolments, activations, re-authentications and disablings is performed on a store whose
  account keys are distinct, the time steps accepted for one authenticator seed of an account strictly increase across all the
  routes that accept them, and as long as the seed is on record the account's replay floor is at least each of them. A seed drawn
  for an enrolment is assumed not to be one the account has already used.\<close>

theorem time_steps_claimed_once:
  assumes "dict_ok (ld_accounts (sd_login db0))" "security_run S db0 tr db"
  shows "sorted_wrt (<) (steps_claimed uid seed tr) \<and>
         (\<forall>k \<in> set (steps_claimed uid seed tr). \<forall>a. account_of uid db = Some a \<longrightarrow> ac_mfa_secret a = Some seed \<longrightarrow> k \<le> ac_last_counter a)"
  using security_run_inv[OF assms(2,1)] by (auto simp: security_inv_def steps_claimed_mem)

definition demo_security :: security_settings where
  "demo_security = \<lparr>sx_auth = demo_settings, sx_login = demo_login_cfg, sx_totp = demo_totp, sx_password_attempts = 5,
     sx_password_window = 300, sx_consent_version = ''v1'',
     sx_verify = (\<lambda>h p. h = p)\<rparr>"

definition demo_security_db :: security_db where
  "demo_security_db = \<lparr>sd_chat = \<lparr>cd_auth = demo_auth, cd_sessions = [], cd_messages = [], cd_members = [], cd_envelopes = [], cd_devices = [],
       cd_challenges = [], cd_prekeys = []\<rparr>,
     sd_login = demo_login_db, sd_consents = [], sd_password_limiter = demo_limiter, sd_notices = []\<rparr>"

lemma demo_claim_run:
  assumes "mfa_commit demo_login_cfg (\<lambda>h p. h = p) (demo_challenge j) ''x'' (Some k) False 9 (sd_login db) = (Signed_In ''u1'' ''totp'', ld)"
    "security_run demo_security demo_security_db tr db" "claimed ''u1'' db k = [Claimed ''u1'' ''s'' k]"
  shows "security_run demo_security demo_security_db (tr @ [Claimed ''u1'' ''s'' k]) (db\<lparr>sd_login := ld\<rparr>)"
proof -
  have "security_step demo_security Other_Request [Claimed ''u1'' ''s'' k] db (db\<lparr>sd_login := ld\<rparr>)"
    using security_step.second_half[of demo_security "demo_challenge j" "''x''" "Some k" False 9 db] assms(1,3)
    by (simp add: demo_security_def)
  from security_run.next_step[OF assms(2) this] show ?thesis by simp
qed

definition demo_after_second :: login_db where
  "demo_after_second = snd (mfa_commit demo_login_cfg (\<lambda>h p. h = p) (demo_challenge ''j2'') ''x'' (Some 6) False 9 demo_after_totp)"

theorem time_steps_claimed_once_witness:
  "sorted_wrt (<) (steps_claimed ''u1'' ''s'' [Claimed ''u1'' ''s'' 5, Claimed ''u1'' ''s'' 6]) \<and>
   steps_claimed ''u1'' ''s'' [Claimed ''u1'' ''s'' 5, Claimed ''u1'' ''s'' 6] = [5, 6]"
proof -
  have l: "sd_login demo_security_db = demo_login_db" by (simp add: demo_security_db_def)
  have "mfa_commit demo_login_cfg (\<lambda>h p. h = p) (demo_challenge ''j1'') ''x'' (Some 5) False 9 (sd_login demo_security_db) =
      (Signed_In ''u1'' ''totp'', demo_after_totp)" unfolding l by code_simp
  moreover have "claimed ''u1'' demo_security_db 5 = [Claimed ''u1'' ''s'' 5]" by code_simp
  ultimately have r1: "security_run demo_security demo_security_db [Claimed ''u1'' ''s'' 5] (demo_security_db\<lparr>sd_login := demo_after_totp\<rparr>)"
    using demo_claim_run[OF _ security_run.start, of "''j1''" 5 demo_after_totp] by simp
  have "mfa_commit demo_login_cfg (\<lambda>h p. h = p) (demo_challenge ''j2'') ''x'' (Some 6) False 9 demo_after_totp =
      (Signed_In ''u1'' ''totp'', demo_after_second)" by code_simp
  moreover have "claimed ''u1'' (demo_security_db\<lparr>sd_login := demo_after_totp\<rparr>) 6 = [Claimed ''u1'' ''s'' 6]" by code_simp
  ultimately have "security_run demo_security demo_security_db [Claimed ''u1'' ''s'' 5, Claimed ''u1'' ''s'' 6]
      (demo_security_db\<lparr>sd_login := demo_after_totp, sd_login := demo_after_second\<rparr>)"
    using demo_claim_run[OF _ r1, of "''j2''" 6 demo_after_second] by simp
  moreover have "dict_ok (ld_accounts (sd_login demo_security_db))" by code_simp
  ultimately show ?thesis using time_steps_claimed_once[of demo_security_db demo_security] by (simp add: steps_claimed_def)
qed

section \<open>Removing the second factor\<close>

lemma recovery_scan_match:
  "recovery_scan verify uid nm expected now rs ld = (True, ld') \<Longrightarrow> \<exists>(rid, r) \<in> set rs. verify (rc_code_hash r) nm"
  by (induction verify uid nm expected now rs ld rule: recovery_scan.induct) (auto split: if_splits option.splits)

text \<open>What was presented: a time step of the seed after the replay floor, or an unused recovery code of the account.\<close>

definition fresh_factor ::
  "security_settings \<Rightarrow> string \<Rightarrow> account_row \<Rightarrow> string \<Rightarrow> int option \<Rightarrow> time \<Rightarrow> security_db \<Rightarrow> bool" where
  "fresh_factor S uid a typed factor now db \<longleftrightarrow>
     (case factor of
        Some k \<Rightarrow> ac_last_counter a < k \<and>
          (case ac_mfa_secret a of None \<Rightarrow> False
           | Some seed \<Rightarrow> totp_verify (sx_totp S) seed typed 1 now (Some (ac_last_counter a)) = Inr (Some k))
      | None \<Rightarrow> list_ex (\<lambda>(_, r). rc_user_id r = uid \<and> rc_used_at r = None \<and> sx_verify S (rc_code_hash r) (normalized_recovery typed))
                  (ld_codes (sd_login db)))"

lemma claim_factor_fresh:
  assumes "claim_factor S uid a typed expected now (sd_login db1) = Some (Some factor, ld)" "account_of uid db1 = Some a"
    "ld_codes (sd_login db1) = ld_codes (sd_login db)"
  shows "fresh_factor S uid a typed factor now db"
  using assms(1) assms(2)[unfolded account_of_def]
proof (cases rule: claim_factor_cases)
  case refused
  then show ?thesis by simp
next
  case (step k seed)
  then show ?thesis by (simp add: fresh_factor_def)
next
  case code_used
  from recovery_scan_match[OF code_used(2)[unfolded consume_recovery_code_def]] show ?thesis
    using code_used(1) by (force simp: fresh_factor_def list_ex_iff assms(3))
qed

text \<open>No trace of the factor: no seed, no recovery code, and no session of the account that is not revoked.\<close>

definition factor_erased :: "string \<Rightarrow> security_db \<Rightarrow> bool" where
  "factor_erased uid db \<longleftrightarrow>
     (case account_of uid db of None \<Rightarrow> False | Some a \<Rightarrow> \<not> ac_mfa_enabled a \<and> ac_mfa_secret a = None) \<and>
     list_all (\<lambda>(_, r). rc_user_id r \<noteq> uid) (ld_codes (sd_login db)) \<and>
     list_all (\<lambda>(_, s). as_user_id s = uid \<longrightarrow> as_revoked_at s \<noteq> None) (ad_sessions (cd_auth (sd_chat db)))"

lemma disable_mfa_erases: "factor_erased uid (disable_mfa uid a now db)"
proof -
  have "ld_codes (sd_login (disable_mfa uid a now db)) = filter (\<lambda>(_, r). rc_user_id r \<noteq> uid) (ld_codes (sd_login db))"
    by (simp add: disable_mfa_def Let_def audit_security_def log_event_def on_auth_def reset_mfa_limiter_def write_account_def
        set_account_def revoke_account_sessions_def)
  moreover have "ad_sessions (cd_auth (sd_chat (disable_mfa uid a now db))) =
      dict_map (\<lambda>_ s. if as_user_id s = uid \<and> as_revoked_at s = None then s\<lparr>as_revoked_at := Some now\<rparr> else s)
        (ad_sessions (cd_auth (sd_chat db)))"
    by (simp add: disable_mfa_def Let_def audit_security_def log_event_def on_auth_def reset_mfa_limiter_def write_account_def
        set_account_def revoke_account_sessions_def revoke_all_auth_sessions_def)
  ultimately show ?thesis
    by (auto simp: factor_erased_def account_of_disable_mfa list_all_iff dict_map_def)
qed

lemma mfa_disable_proof:
  assumes "mfa_disable S token uid password typed tick now db = (Inr factor, db')"
  shows "\<exists>a. account_of uid db = Some a \<and> sx_verify S (ac_password_hash a) password \<and> fresh_factor S uid a typed factor now db \<and>
      (\<exists>cs. lock_account_mutation (sx_auth S) token uid False now (cd_auth (sd_chat db)) = Inr cs)"
    "\<not> (high_profile (sx_auth S) \<and> has_active_sensitive_session now uid (sd_chat db))" "factor_erased uid db'"
proof -
  obtain db1 c s a ld a2 where d: "admit_mfa S (''mfa-disable:'' @ uid) tick db = (None, db1)"
    "lock_security S token uid False now db1 = Inr (c, s, a)" "sx_verify S (ac_password_hash a) password"
    "claim_factor S uid a typed (Some (ac_token_version a)) now (sd_login db1) = Some (Some factor, ld)"
    "\<not> (high_profile (sx_auth S) \<and> has_active_sensitive_session now uid (sd_chat db1))"
    "db' = disable_mfa uid a2 now (db1\<lparr>sd_login := ld\<rparr>)"
    using assms by (elim mfa_disable_accepted)
  note st = admit_mfa_state[OF d(1)] and g = lock_security_account[OF d(2)]
  show "\<exists>a. account_of uid db = Some a \<and> sx_verify S (ac_password_hash a) password \<and> fresh_factor S uid a typed factor now db \<and>
      (\<exists>cs. lock_account_mutation (sx_auth S) token uid False now (cd_auth (sd_chat db)) = Inr cs)"
    using d(3) g claim_factor_fresh[OF d(4) g(1) st(4)] st by auto
  show "\<not> (high_profile (sx_auth S) \<and> has_active_sensitive_session now uid (sd_chat db))" using d(5) st(3) by simp
  show "factor_erased uid db'" unfolding d(6) by (rule disable_mfa_erases)
qed

text \<open>C12: The only request after which an account that remains has lost its second factor is \<^verbatim>\<open>mfa_disable\<close> of that account, and the
  very password and code of that request prove it: a live bearer session, the password accepted by the service's verifier against
  the stored hash, and a factor that was fresh (a time step above the replay floor that the code answers, or an unused recovery code
  that it matches); in the high profile no sensitive conversation of the account is live. The request leaves no seed, no recovery
  code and no unrevoked session of the account behind.\<close>

theorem mfa_removed_only_by_proof:
  assumes "security_step S rq es db db'" "dict_ok (ld_accounts (sd_login db))"
    "account_of uid db = Some a" "ac_mfa_enabled a" "account_of uid db' = Some a'" "\<not> ac_mfa_enabled a'"
  shows "\<exists>token password typed tick now factor.
      rq = Disable_Request token uid password typed tick now \<and>
      (\<exists>cs. lock_account_mutation (sx_auth S) token uid False now (cd_auth (sd_chat db)) = Inr cs) \<and>
      sx_verify S (ac_password_hash a) password \<and> fresh_factor S uid a typed factor now db \<and>
      \<not> (high_profile (sx_auth S) \<and> has_active_sensitive_session now uid (sd_chat db)) \<and> factor_erased uid db'"
proof -
  obtain off where off: "factor_change off es db db'"
    "\<And>u. u \<in> off \<Longrightarrow> \<exists>token password typed tick now factor. rq = Disable_Request token u password typed tick now \<and>
       mfa_disable S token u password typed tick now db = (Inr factor, db')"
    using security_step_change[OF assms(1)] assms(2) unfolding accounts_ok_def by blast
  have "uid \<in> off" using off(1) assms(3-6) unfolding factor_change_def by blast
  from off(2)[OF this] obtain token password typed tick now factor
    where rq: "rq = Disable_Request token uid password typed tick now"
      and m: "mfa_disable S token uid password typed tick now db = (Inr factor, db')" by blast
  have p: "sx_verify S (ac_password_hash a) password \<and> fresh_factor S uid a typed factor now db \<and>
      (\<exists>cs. lock_account_mutation (sx_auth S) token uid False now (cd_auth (sd_chat db)) = Inr cs)"
    using mfa_disable_proof(1)[OF m] assms(3) by simp
  show ?thesis
    by (rule exI[of _ token], rule exI[of _ password], rule exI[of _ typed], rule exI[of _ tick],
        rule exI[of _ now], rule exI[of _ factor]) (intro conjI rq p[THEN conjunct1] p[THEN conjunct2, THEN conjunct1]
        p[THEN conjunct2, THEN conjunct2] mfa_disable_proof(2,3)[OF m])
qed

theorem mfa_removed_only_by_proof_witness:
  "factor_erased ''u1'' (snd (mfa_disable demo_security (Some demo_token) ''u1'' ''pw'' '' A B C '' 5 1 demo_security_db))"
proof -
  let ?run = "mfa_disable demo_security (Some demo_token) ''u1'' ''pw'' '' A B C '' 5 1 demo_security_db"
  have "security_step demo_security
      (Disable_Request (Some demo_token) ''u1'' ''pw'' '' A B C '' 5 1) (case fst ?run of Inr (Some k) \<Rightarrow> claimed ''u1'' demo_security_db k | _ \<Rightarrow> []) demo_security_db (snd ?run)"
    by (rule security_step.disable) (rule prod.collapse[symmetric])
  moreover have "dict_ok (ld_accounts (sd_login demo_security_db))" by code_simp
  moreover have "account_of ''u1'' demo_security_db = Some demo_account" "ac_mfa_enabled demo_account" by code_simp+
  moreover have "map_option ac_mfa_enabled (account_of ''u1'' (snd ?run)) = Some False" by code_simp
  then obtain a' where "account_of ''u1'' (snd ?run) = Some a'" "\<not> ac_mfa_enabled a'" by (auto simp: map_option_eq_Some)
  ultimately show ?thesis using mfa_removed_only_by_proof by blast
qed

end
