(* ===== verification/Ownership.thy ===== *)
theory Ownership
  imports Accounts Messaging
begin

text \<open>
  Who may change or remove a conversation, over every route that touches its row: the session routes, the message routes, the
  member and envelope routes of private conversations, the revocation of a device, the administration of accounts, and
  the retention sweep. The routes are those of the component theories; here they are put into one run.
\<close>

section \<open>The change a request makes\<close>

text \<open>The time of a request, the caller if it is one that may edit the caller's conversations, and the account whose
  conversations it may delete: the caller of the delete route, or the account an administrator deletes.\<close>

record row_event =
  re_now :: time
  re_edits :: "string option"
  re_deletes :: "string option"

text \<open>What requests of others may do: count up the epoch of a private conversation and refresh its time stamp.\<close>

definition bumped :: "conversation \<Rightarrow> conversation \<Rightarrow> bool" where
  "bumped c d \<longleftrightarrow> d = c \<or> (cv_mode c = ''private_e2ee'' \<and> (\<exists>n t. cv_epoch c \<le> n \<and> d = c\<lparr>cv_epoch := n, cv_updated := t\<rparr>))"

text \<open>Still the owner's, with a deadline that is not later.\<close>

definition still_owned :: "conversation \<Rightarrow> conversation \<Rightarrow> bool" where
  "still_owned c d \<longleftrightarrow> cv_owner d = cv_owner c \<and> (\<forall>t. cv_expires c = Some t \<longrightarrow> (\<exists>t'. cv_expires d = Some t' \<and> t' \<le> t))"

definition row_change :: "row_event \<Rightarrow> (string, conversation) pydict \<Rightarrow> (string, conversation) pydict \<Rightarrow> bool" where
  "row_change ev rows rows' \<longleftrightarrow> (dict_ok rows \<longrightarrow> dict_ok rows') \<and>
     (\<forall>sid. case dict_get rows sid of
        None \<Rightarrow> dict_get rows' sid = None
      | Some c \<Rightarrow>
          (case dict_get rows' sid of
             None \<Rightarrow> re_deletes ev = Some (cv_owner c) \<or> \<not> retained (re_now ev) c
           | Some d \<Rightarrow> bumped c d \<or> (re_edits ev = Some (cv_owner c) \<and> still_owned c d)))"


lemma bumped_refl [simp]: "bumped c c"
  by (simp add: bumped_def)





lemma row_change_refl [simp]: "row_change ev rows rows"
  by (simp add: row_change_def split: option.split)




section \<open>What each route may do\<close>




























section \<open>Runs\<close>











end
