(* ===== verification/Spec2Isabelle.thy ===== *)
theory Spec2Isabelle
  imports Rate_Limiter Redis_Limiter Audit_Chain Audit_Log Capacity Monitor Request_Limits Admission Retention
    Ids_State Ids_Store Ids_Anomaly Ids_Scan Envelope Auth_Sessions Login Accounts Messaging
    Ui_Session Recovery Sign_In_Source Passkeys Account_Security
    Ownership
begin

text \<open>
  \<^bold>\<open>Verification of the Secure Conversational Application Platform\<close>

  The program (\<^verbatim>\<open>src/src/app\<close>) is a multi-user chat service in front of an external AI provider. A request passes the
  admission and request-limit middleware, the intrusion detector and the bearer authentication before it reaches a
  route of \<^verbatim>\<open>main.py\<close> or \<^verbatim>\<open>account_routes.py\<close>. Routes act on conversations, messages, devices and accounts; a message that
  goes to the provider passes consent, data-loss prevention and provider capacity first, and is stored under
  envelope encryption. Every security decision is appended to a hash-chained audit trail. Private conversations carry
  ciphertext between devices of their members that the server cannot read.

  \<^bold>\<open>How the code is modelled.\<close> Objects and tables are records and dictionaries in insertion order, a method under its lock or a
  route under its row locks is one function on the state, and every early return, raise and rollback is a branch of its result. Where
  the code releases its locks in the middle of a request (\<open>Login.mfa_begin\<close> and \<open>mfa_commit\<close>, \<open>Auth_Sessions.current_user_begin\<close> and
  \<open>current_user_locked\<close>, \<open>Admission.admit_begin\<close> and \<open>admit_release\<close>) the request is split, and the run relations interleave
  the halves of different requests arbitrarily. Clock readings, fresh random values, and answers of remote services are arguments. Clocks are
  rational numbers of seconds; Python integers are \<open>int\<close>; text is a list of characters 0 to 255 where the code sees headers, identifiers and
  JSON escapes, and a list of Unicode code points where it sees messages.

  \<^bold>\<open>Theories, and the source each models.\<close>

  \<^item> \<open>Prelude\<close>, \<open>Pystr\<close>, \<open>Encoding\<close>, \<open>Json\<close>, \<open>Json_Tree\<close>: dictionaries, string methods, UTF-8, base64 and \<^verbatim>\<open>json.dumps\<close>, with the round trips
    and injectivity that signatures and associated data rest on. The locale \<open>keyed_store\<close> is the contract of dictionaries and \<open>stateful\<close> that of an object
    under a sequence of calls.
  \<^item> \<open>Rate_Limiter\<close>, \<open>Redis_Limiter\<close> (\<^verbatim>\<open>security.py\<close>): the two sliding-window limiters as providers of one contract; no window ever
    holds more accepted requests than its budget. The in-memory limiter reads the clock before it takes its lock, so its bound holds for windows
    shortened by the longest wait for the lock, and counts refunds.
  \<^item> \<open>Capacity\<close>, \<open>Monitor\<close>, \<open>Admission\<close> (\<^verbatim>\<open>availability.py\<close>): finite budgets, the ring of one-second buckets, and the middleware that takes and
    returns slots; slots are never lost and never exceed the capacity, and the ring is a sliding window of 60 seconds.
  \<^item> \<open>Request_Limits\<close> (\<^verbatim>\<open>request_limits.py\<close>): what an application behind the middleware can see.
  \<^item> \<open>Audit_Chain\<close>, \<open>Audit_Log\<close> (\<^verbatim>\<open>audit_chain.py\<close>, \<^verbatim>\<open>audit.py\<close>): sealing, verification and repair of the chain; an undetected edit exhibits two signed
    strings of the tables' rows with one HMAC, or a row whose HMAC is the genesis value. Batches of events keep the chain intact.
  \<^item> \<open>Ids_Scan\<close>, \<open>Ids_State\<close>, \<open>Ids_Store\<close>, \<open>Ids_Anomaly\<close> (\<^verbatim>\<open>ids.py\<close>): signatures, scores and bans in memory and in the database as two providers of one
    contract, and the rules over recent events.
  \<^item> \<open>Keys\<close>, \<open>Crypto\<close>, \<open>Envelope\<close> (\<^verbatim>\<open>key_management.py\<close>, \<^verbatim>\<open>secret_files.py\<close>, \<^verbatim>\<open>security.py\<close>, \<^verbatim>\<open>envelope.py\<close>): four key providers behind the locale \<open>key_provider\<close>, the
    shared-key cipher and per-conversation data keys with rotation. A stored message reads back at its own position and nowhere
    else, and the cache of keys changes no answer.
  \<^item> \<open>Auth_Sessions\<close>, \<open>Totp\<close>, \<open>Login\<close> (\<^verbatim>\<open>main.py\<close>, \<^verbatim>\<open>security.py\<close>): bearer tokens from issue to revocation, one-time passwords (with the
    exceptions of a zero period and of a digest too short to truncate) and the two steps of a sign-in.
  \<^item> \<open>Ui_Session\<close> (\<^verbatim>\<open>ui_session.py\<close>): the browser's opaque handles and the tokens behind them.
  \<^item> \<open>Recovery\<close> (\<^verbatim>\<open>account_recovery.py\<close>, \<^verbatim>\<open>account_routes.py\<close>, \<^verbatim>\<open>mailer.py\<close>): recovery addresses, mailed codes and password reset.
  \<^item> \<open>Sign_In_Source\<close> (\<^verbatim>\<open>account_security.py\<close>, \<^verbatim>\<open>main.py\<close>): device tokens, familiar sources and the common tail of every sign-in. A lock that
    strangers caused never shuts out a source the owner has used.
  \<^item> \<open>Passkeys\<close> (\<^verbatim>\<open>passkeys.py\<close>, \<^verbatim>\<open>account_routes.py\<close>): challenges, registration, sign-in and re-authentication with a passkey. The verification of
    a signature belongs to the \<^verbatim>\<open>webauthn\<close> package and is an argument.
  \<^item> \<open>Account_Security\<close> (\<^verbatim>\<open>main.py\<close>): the routes that enrol, activate and remove the second factor, re-authenticate, change the password and record
    consent. The password verifier is a parameter of the service (\<open>sx_verify\<close>), and a run names the request that makes each step. A time step counts
    once across all of them, and the factor goes only by a complete proof in the removing request itself.
  \<^item> \<open>Access\<close>, \<open>Conversations\<close>, \<open>E2ee\<close>, \<open>E2ee_Devices\<close>, \<open>E2ee_Routing\<close>, \<open>Accounts\<close> (\<^verbatim>\<open>main.py\<close>, \<^verbatim>\<open>e2ee.py\<close>): guards, the life of a conversation, signed
    devices and one-time prekeys, membership epochs and envelope delivery, registration and administration. \<open>E2ee_Devices.trust_run\<close> records
    registrations, revocations and account deletions, and the chain of approvals back to the first device rests on that history. Their run
    relations list the routes that touch the rows at hand and let every other route change anything else.
  \<^item> \<open>Dlp\<close>, \<open>Dlp_Inspect\<close> (\<^verbatim>\<open>dlp.py\<close>): policy, validators, redaction, decoded views and the decision at the trust boundary.
  \<^item> \<open>Ai_Egress\<close>, \<open>Chat_Service\<close>, \<open>Messaging\<close> (\<^verbatim>\<open>services.py\<close>, \<^verbatim>\<open>main.py\<close>): what is sent to the provider and under which consent, the exchange that stores
    question and answer, and the routes that send, list and search.
  \<^item> \<open>Ownership\<close>: the routes of the session, message, private-conversation, device and administration theories in one run; who may
    change or remove a conversation.
  \<^item> \<open>Retention\<close> (\<^verbatim>\<open>retention.py\<close>): deadlines, backfill and the sweep.

  \<^bold>\<open>Interfaces.\<close> A client that uses another component through a contract is proved once inside the contract's locale and the model of
  the provider interprets it: \<open>keyed_store\<close>, \<open>stateful\<close>, the sliding-window contract, the ban list, \<open>key_provider\<close> and the others of the component theories.
  The properties are stated outside the locales, over the model's own definitions.

  \<^bold>\<open>Hypotheses.\<close> AES-GCM, HMAC-SHA-256, SHA-256, Ed25519, Argon2, JWT decoding, large regular expressions, the Unicode database and the remote key services are
  arguments. A property that needs a fact about one of them names it: a cipher decrypts what it encrypted and rejects what it did not, a
  digest has its length. No digest is assumed to be injective: where the code relies on collision resistance, the hypothesis speaks of the
  strings digested in the run at hand only (\<open>Envelope.hashed\<close> for the names of cached keys), or the conclusion names the
  two strings that collide (the audit trail, the device tokens).

  \<^bold>\<open>Bounds and fuel.\<close> Recursions follow their data or a decreasing measure. The inspection loop of \<open>Dlp_Inspect\<close> is bounded as the code bounds
  it (512 views, 262144 characters, depth 3) and refuses the text when a bound is met. Following token rotations stops after the code's 16 steps.
  Clients that follow pages (\<open>Conversations.follow_pages\<close>, \<open>E2ee_Routing.poll_envelopes\<close>) take fuel; one request more than the pages, or the rows,
  there are is proved enough to read everything.

  \<^bold>\<open>Not modelled.\<close> The Gradio interface and the browser scripts (presentation over the HTTP API); ASGI and
  database set-up, migrations and configuration parsing (framework wiring; settings are arguments); document parsing, GeoIP
  and mail or push transports, which are the work of third-party packages; audit checkpoints and private storage (operating-system and
  object-store I/O); exports and the read-only administration views; command-line tools, the terminal clients and the Rust client library.
  Float rounding, and memory or network failures inside a method, are not represented.
\<close>

end
